(* ===== verification/Prelude.thy ===== *)
theory Prelude
  imports Main "HOL-Library.Word" "HOL-Library.Multiset"
begin

text \<open>
  Shared vocabulary of the development: bytes and addresses, the failures the C++ code can end
  in, the error monad that threads them, byte regions with \<open>memcpy\<close>, the little-endian 32-bit
  integers that every redis command is made of, and \<open>std::map\<close> as a sorted association list
  behind the interface \<open>ordered_map\<close>.
\<close>

unbundle bit_operations_syntax

named_theorems res_simps \<open>unfolding of the error monad\<close>
named_theorems region_simps \<open>lengths and contents of byte regions\<close>

section \<open>Machine types and failures\<close>

type_synonym byte = "8 word"
type_synonym ip_addr = "32 word"

text \<open>
  How a call can fail to return normally. \<open>Exit c\<close> is \<open>exit(c)\<close>, \<open>Assert_Fail\<close> is
  \<open>assert(0)\<close>, \<open>Out_Of_Bounds\<close> an access outside an array, a vector or a buffer (undefined
  behaviour in C++), \<open>Int_Overflow\<close> a signed overflow, \<open>Blocked\<close> a \<open>blpop\<close> loop on a queue
  that holds no further message, \<open>Diverges\<close> a loop that cannot make progress.
\<close>

datatype failure =
    Exit int
  | Assert_Fail
  | Out_Of_Bounds
  | Int_Overflow
  | Div_By_Zero
  | Blocked
  | Diverges

type_synonym 'a res = "failure + 'a"

definition bindE :: "'a res \<Rightarrow> ('a \<Rightarrow> 'b res) \<Rightarrow> 'b res" where
  "bindE m f = (case m of Inl e \<Rightarrow> Inl e | Inr x \<Rightarrow> f x)"

definition guardE :: "bool \<Rightarrow> failure \<Rightarrow> unit res" where
  "guardE b e = (if b then Inr () else Inl e)"

lemma bindE_Inr [simp]: "bindE (Inr x) f = f x"
  by (simp add: bindE_def)

lemma bindE_Inl [simp]: "bindE (Inl e) f = Inl e"
  by (simp add: bindE_def)

lemma bindE_eq_Inr [res_simps]: "bindE m f = Inr y \<longleftrightarrow> (\<exists>x. m = Inr x \<and> f x = Inr y)"
  by (cases m) auto

lemma bindE_assoc: "bindE (bindE m f) g = bindE m (\<lambda>x. bindE (f x) g)"
  by (cases m) simp_all

lemma guardE_True [simp]: "guardE True e = Inr ()"
  by (simp add: guardE_def)

lemma guardE_False [simp]: "guardE False e = Inl e"
  by (simp add: guardE_def)

lemma guardE_eq_Inr [res_simps]: "guardE b e = Inr u \<longleftrightarrow> b"
  by (simp add: guardE_def)

text \<open>A loop that runs a fallible body over a list and collects the results.\<close>

fun mapE :: "('a \<Rightarrow> 'b res) \<Rightarrow> 'a list \<Rightarrow> 'b list res" where
  "mapE f [] = Inr []"
| "mapE f (x # xs) = bindE (f x) (\<lambda>y. bindE (mapE f xs) (\<lambda>ys. Inr (y # ys)))"

text \<open>A loop that threads a state through a fallible body.\<close>

fun foldE :: "('a \<Rightarrow> 's \<Rightarrow> 's res) \<Rightarrow> 'a list \<Rightarrow> 's \<Rightarrow> 's res" where
  "foldE f [] s = Inr s"
| "foldE f (x # xs) s = bindE (f x s) (foldE f xs)"

lemma foldE_append: "foldE f (xs @ ys) s = bindE (foldE f xs s) (foldE f ys)"
proof (induction xs arbitrary: s)
  case (Cons x xs)
  then show ?case by (cases "f x s") simp_all
qed simp

lemma foldE_Inr_fold:
  assumes "\<And>x s. x \<in> set xs \<Longrightarrow> f x s = Inr (g x s)"
  shows "foldE f xs s = Inr (fold g xs s)"
  using assms by (induction xs arbitrary: s) simp_all

lemma foldE_cong:
  assumes "xs = ys" and "s = t" and "\<And>x s. x \<in> set ys \<Longrightarrow> f x s = g x s"
  shows "foldE f xs s = foldE g ys t"
proof -
  have "foldE f ys s = foldE g ys s" if "\<And>x s. x \<in> set ys \<Longrightarrow> f x s = g x s" for s
    using that
  proof (induction ys arbitrary: s)
    case (Cons y ys)
    then show ?case by (cases "g y s") simp_all
  qed simp
  then show ?thesis using assms by blast
qed

lemma bindE_cong:
  "m = m' \<Longrightarrow> (\<And>x. m' = Inr x \<Longrightarrow> f x = g x) \<Longrightarrow> bindE m f = bindE m' g"
  by (cases m') simp_all

text \<open>The Hoare rule of a counting loop \<open>for (i = 0; i < n; i++)\<close>.\<close>

lemma foldE_upt_inv:
  assumes "P 0 s"
    and "\<And>i s. i < n \<Longrightarrow> P i s \<Longrightarrow> \<exists>s'. f i s = Inr s' \<and> P (Suc i) s'"
  shows "\<exists>s'. foldE f [0..<n] s = Inr s' \<and> P n s'"
  using assms(2)
proof (induction n)
  case (Suc n)
  then obtain s1 where "foldE f [0..<n] s = Inr s1" and "P n s1"
    by (metis less_SucI)
  moreover from this Suc.prems obtain s2 where "f n s1 = Inr s2" and "P (Suc n) s2"
    by blast
  ultimately show ?case by (simp add: foldE_append)
qed (simp add: assms(1))

lemma mapE_Inr_map:
  assumes "\<And>x. x \<in> set xs \<Longrightarrow> f x = Inr (g x)"
  shows "mapE f xs = Inr (map g xs)"
  using assms by (induction xs) simp_all

lemma mapE_length: "mapE f xs = Inr ys \<Longrightarrow> length ys = length xs"
  by (induction xs arbitrary: ys) (auto simp: res_simps)

lemma length_concat_le:
  "\<forall>x \<in> set xs. length (f x) \<le> b \<Longrightarrow> length (concat (map f xs)) \<le> length xs * b"
  by (induction xs) (auto intro: add_mono)

text \<open>
  A state from which every unfinished state can make progress, measured by a number, can be taken to the end. For a list
  of processes the measure is a sum, and the first unfinished process is the one to run.
\<close>

lemma can_finish:
  fixes m :: "'s \<Rightarrow> nat"
  assumes "\<And>s. I s \<Longrightarrow> \<not> P s \<Longrightarrow> \<exists>s'. R s s' \<and> m s' < m s" and "\<And>s s'. I s \<Longrightarrow> R s s' \<Longrightarrow> I s'" and "I s"
  shows "\<exists>s'. R\<^sup>*\<^sup>* s s' \<and> P s' \<and> I s'"
  using assms(3)
proof (induction "m s" arbitrary: s rule: less_induct)
  case less
  show ?case
  proof (cases "P s")
    case False
    then obtain s1 where s1: "R s s1" "m s1 < m s" using assms(1)[OF less.prems] by blast
    then obtain s' where "R\<^sup>*\<^sup>* s1 s'" "P s'" "I s'" using less.hyps[OF s1(2) assms(2)[OF less.prems s1(1)]] by blast
    with s1(1) show ?thesis by (meson converse_rtranclp_into_rtranclp)
  qed (use less.prems in blast)
qed

lemma first_not:
  assumes "\<not> list_all P xs"
  shows "\<exists>n < length xs. \<not> P (xs ! n) \<and> (\<forall>m < n. P (xs ! m))"
proof -
  have "\<exists>n. n < length xs \<and> \<not> P (xs ! n)" using assms by (simp add: list_all_length)
  then obtain n where n: "n < length xs \<and> \<not> P (xs ! n)" "\<forall>m < n. \<not> (m < length xs \<and> \<not> P (xs ! m))"
    using exists_least_iff[of "\<lambda>n. n < length xs \<and> \<not> P (xs ! n)"] by blast
  then show ?thesis by (meson less_trans)
qed

lemma sum_list_update_less:
  fixes f :: "'a \<Rightarrow> nat"
  assumes "n < length xs" and "f x < f (xs ! n)"
  shows "sum_list (map f (xs[n := x])) < sum_list (map f xs)"
  using assms
proof (induction xs arbitrary: n)
  case (Cons y xs)
  then show ?case by (cases n) auto
qed simp

text \<open>A vector or array access that fails outside the bounds.\<close>

definition atE :: "'a list \<Rightarrow> int \<Rightarrow> 'a res" where
  "atE xs i = (if 0 \<le> i \<and> i < int (length xs) then Inr (xs ! nat i) else Inl Out_Of_Bounds)"

lemma atE_in [simp]: "0 \<le> i \<Longrightarrow> i < int (length xs) \<Longrightarrow> atE xs i = Inr (xs ! nat i)"
  by (simp add: atE_def)

lemma atE_nat [simp]: "n < length xs \<Longrightarrow> atE xs (int n) = Inr (xs ! n)"
  by (simp add: atE_def)

lemma atE_eq_Inr [res_simps]:
  "atE xs i = Inr y \<longleftrightarrow> 0 \<le> i \<and> i < int (length xs) \<and> y = xs ! nat i"
  by (auto simp: atE_def)

section \<open>Byte regions\<close>

text \<open>Bytewise exclusive or of two regions of the same length.\<close>

definition xor_bytes :: "byte list \<Rightarrow> byte list \<Rightarrow> byte list" where
  "xor_bytes a b = map2 (XOR) a b"

lemma length_xor_bytes [simp, region_simps]:
  "length (xor_bytes a b) = min (length a) (length b)"
  by (simp add: xor_bytes_def)

lemma nth_xor_bytes [simp, region_simps]:
  "i < length a \<Longrightarrow> i < length b \<Longrightarrow> xor_bytes a b ! i = a ! i XOR b ! i"
  by (simp add: xor_bytes_def)

lemma xor_bytes_commute: "xor_bytes a b = xor_bytes b a"
  by (rule nth_equalityI) (auto simp: xor.commute)

lemma xor_bytes_assoc: "xor_bytes (xor_bytes a b) c = xor_bytes a (xor_bytes b c)"
  by (rule nth_equalityI) (auto simp: xor.assoc)

lemma xor_bytes_zero [simp]: "length a \<le> n \<Longrightarrow> xor_bytes a (replicate n 0) = a"
  by (rule nth_equalityI) auto

lemma xor_bytes_zero_left [simp]: "length a \<le> n \<Longrightarrow> xor_bytes (replicate n 0) a = a"
  by (subst xor_bytes_commute) simp

lemma xor_bytes_cancel: "length a = length b \<Longrightarrow> xor_bytes a (xor_bytes a b) = b"
  by (rule nth_equalityI) (auto simp flip: xor.assoc)

text \<open>
  \<open>memcpy(dst + off, src, length src)\<close>: the bytes of \<open>src\<close> replace those of \<open>dst\<close> from
  \<open>off\<close> on; a copy that leaves the destination is a failure.
\<close>

definition overwrite :: "byte list \<Rightarrow> nat \<Rightarrow> byte list \<Rightarrow> byte list" where
  "overwrite dst off src = take off dst @ src @ drop (off + length src) dst"

definition memcpy_to :: "byte list \<Rightarrow> int \<Rightarrow> byte list \<Rightarrow> byte list res" where
  "memcpy_to dst off src =
     (if 0 \<le> off \<and> nat off + length src \<le> length dst
      then Inr (overwrite dst (nat off) src) else Inl Out_Of_Bounds)"

text \<open>Reading \<open>n\<close> bytes of \<open>src\<close> from \<open>off\<close> on, as the source operand of a \<open>memcpy\<close>.\<close>

definition memcpy_from :: "byte list \<Rightarrow> int \<Rightarrow> int \<Rightarrow> byte list res" where
  "memcpy_from src off n =
     (if 0 \<le> off \<and> 0 \<le> n \<and> off + n \<le> int (length src)
      then Inr (take (nat n) (drop (nat off) src)) else Inl Out_Of_Bounds)"

lemma length_overwrite [simp, region_simps]:
  "off + length src \<le> length dst \<Longrightarrow> length (overwrite dst off src) = length dst"
  by (simp add: overwrite_def)

lemma nth_overwrite [region_simps]:
  assumes "off + length src \<le> length dst" and "i < length dst"
  shows "overwrite dst off src ! i =
    (if off \<le> i \<and> i < off + length src then src ! (i - off) else dst ! i)"
  using assms by (auto simp: overwrite_def nth_append min_def)

section \<open>Little-endian integers on the wire\<close>

text \<open>
  \<open>memcpy(buf + cur, (char*)&x, 4)\<close> for an \<open>int\<close> on a little-endian machine, and its inverse.
  A \<open>long long\<close> copied with length 4 keeps its low 32 bits, as \<open>word_of_int\<close> does.
\<close>

definition put_int :: "int \<Rightarrow> byte list" where
  "put_int x =
     (let w = word_of_int x :: 32 word
      in [ucast w, ucast (drop_bit 8 w), ucast (drop_bit 16 w), ucast (drop_bit 24 w)])"

fun int_of_bytes :: "byte list \<Rightarrow> int" where
  "int_of_bytes [b0, b1, b2, b3] =
     sint ((ucast b0 :: 32 word) OR push_bit 8 (ucast b1) OR push_bit 16 (ucast b2)
       OR push_bit 24 (ucast b3))"
| "int_of_bytes _ = 0"

text \<open>\<open>memcpy((char*)&x, buf + cur, 4)\<close>.\<close>

definition get_int :: "byte list \<Rightarrow> int \<Rightarrow> int res" where
  "get_int buf cur = bindE (memcpy_from buf cur 4) (\<lambda>bs. Inr (int_of_bytes bs))"

text \<open>The loops of the command parsers: \<open>n\<close> integers from \<open>cur\<close> on.\<close>

fun get_ints :: "byte list \<Rightarrow> int \<Rightarrow> nat \<Rightarrow> int list res" where
  "get_ints buf cur 0 = Inr []"
| "get_ints buf cur (Suc n) =
     bindE (get_int buf cur) (\<lambda>x. bindE (get_ints buf (cur + 4) n) (\<lambda>xs. Inr (x # xs)))"

definition put_ints :: "int list \<Rightarrow> byte list" where
  "put_ints xs = concat (map put_int xs)"

abbreviation int32 :: "int \<Rightarrow> bool" where
  "int32 x \<equiv> - 2147483648 \<le> x \<and> x < 2147483648"

lemma length_put_int [simp]: "length (put_int x) = 4"
  by (simp add: put_int_def Let_def)

lemma word32_of_bytes:
  fixes w :: "32 word"
  shows "(ucast (ucast w :: byte) :: 32 word) OR push_bit 8 (ucast (ucast (drop_bit 8 w) :: byte))
    OR push_bit 16 (ucast (ucast (drop_bit 16 w) :: byte))
    OR push_bit 24 (ucast (ucast (drop_bit 24 w) :: byte)) = w"
proof (rule bit_word_eqI)
  fix n assume "n < LENGTH(32)"
  then show "bit ((ucast (ucast w :: byte) :: 32 word)
      OR push_bit 8 (ucast (ucast (drop_bit 8 w) :: byte))
      OR push_bit 16 (ucast (ucast (drop_bit 16 w) :: byte))
      OR push_bit 24 (ucast (ucast (drop_bit 24 w) :: byte))) n \<longleftrightarrow> bit w n"
    by (cases "n < 24"; cases "n < 16"; auto simp: bit_simps)
qed

lemma int_of_bytes_put_int [simp]: "int32 x \<Longrightarrow> int_of_bytes (put_int x) = x"
  by (simp add: put_int_def Let_def word32_of_bytes sint_sbintrunc' signed_take_bit_int_eq_self)

lemma length_put_ints [simp]: "length (put_ints xs) = 4 * length xs"
  by (induction xs) (simp_all add: put_ints_def)

lemma put_ints_Nil [simp]: "put_ints [] = []"
  by (simp add: put_ints_def)

lemma put_ints_Cons [simp]: "put_ints (x # xs) = put_int x @ put_ints xs"
  by (simp add: put_ints_def)

lemma put_ints_append [simp]: "put_ints (xs @ ys) = put_ints xs @ put_ints ys"
  by (simp add: put_ints_def)

lemma get_int_append:
  assumes "cur = int (length pre)" and "int32 x"
  shows "get_int (pre @ put_int x @ post) cur = Inr x"
  using assms by (simp add: get_int_def memcpy_from_def)

lemma get_ints_append:
  assumes "cur = int (length pre)" and "list_all int32 xs" and "n = length xs"
  shows "get_ints (pre @ put_ints xs @ post) cur n = Inr xs"
  using assms
proof (induction xs arbitrary: pre cur n)
  case (Cons x xs)
  have "get_int (pre @ put_int x @ (put_ints xs @ post)) cur = Inr x"
    using Cons.prems by (intro get_int_append) auto
  moreover have "get_ints ((pre @ put_int x) @ put_ints xs @ post) (cur + 4) (length xs) = Inr xs"
    using Cons.prems by (intro Cons.IH) auto
  ultimately show ?case using Cons.prems by simp
qed simp

lemma get_ints_length: "get_ints buf cur n = Inr xs \<Longrightarrow> length xs = n"
  by (induction n arbitrary: cur xs) (auto simp: res_simps)

text \<open>
  The form every command parser meets: the buffer is \<open>put_ints\<close> of a list of fields, the cursor
  a multiple of four.
\<close>

lemma get_int_put_ints:
  assumes "cur = 4 * int i" and "i < length xs" and "list_all int32 xs"
  shows "get_int (put_ints xs) cur = Inr (xs ! i)"
proof -
  have "put_ints xs = put_ints (take i xs) @ put_int (xs ! i) @ put_ints (drop (Suc i) xs)"
    by (metis assms(2) id_take_nth_drop put_ints_Cons put_ints_append)
  then show ?thesis
    using assms by (simp add: get_int_append list_all_length)
qed

lemma get_ints_put_ints:
  assumes "cur = 4 * int i" and "i + n \<le> length xs" and "list_all int32 xs"
  shows "get_ints (put_ints xs) cur n = Inr (take n (drop i xs))"
proof -
  have "xs = take i xs @ take n (drop i xs) @ drop (i + n) xs"
    by (metis add.commute append_take_drop_id drop_drop)
  then have "put_ints xs =
      put_ints (take i xs) @ put_ints (take n (drop i xs)) @ put_ints (drop (i + n) xs)"
    by (metis put_ints_append)
  moreover have "list_all int32 (take n (drop i xs))"
    using assms(3) by (auto simp: list_all_iff dest: in_set_takeD in_set_dropD)
  ultimately show ?thesis
    using assms(1,2) by (simp add: get_ints_append)
qed

section \<open>\<open>std::map\<close>\<close>

text \<open>
  A \<open>std::map\<close> as the list of its entries in key order, which is the order its iterators
  visit. \<open>om_put\<close> is \<open>m[k] = v\<close>, \<open>map_of\<close> the lookup.
\<close>

type_synonym ('k, 'v) omap = "('k \<times> 'v) list"

fun om_put :: "'k::linorder \<Rightarrow> 'v \<Rightarrow> ('k, 'v) omap \<Rightarrow> ('k, 'v) omap" where
  "om_put k v [] = [(k, v)]"
| "om_put k v ((k', v') # m) =
     (if k < k' then (k, v) # (k', v') # m
      else if k = k' then (k, v) # m
      else (k', v') # om_put k v m)"

definition om_ok :: "('k::linorder, 'v) omap \<Rightarrow> bool" where
  "om_ok m = sorted_wrt (<) (map fst m)"

definition om_at :: "('k, 'v) omap \<Rightarrow> 'k \<Rightarrow> 'v res" where
  "om_at m k = (case map_of m k of None \<Rightarrow> Inl Out_Of_Bounds | Some v \<Rightarrow> Inr v)"

locale ordered_map =
  fixes empty :: 'm
    and put :: "'k::linorder \<Rightarrow> 'v \<Rightarrow> 'm \<Rightarrow> 'm"
    and get :: "'m \<Rightarrow> 'k \<Rightarrow> 'v option"
    and keys :: "'m \<Rightarrow> 'k list"
    and ok :: "'m \<Rightarrow> bool"
  assumes get_empty: "get empty k = None"
    and ok_empty: "ok empty"
    and get_put: "get (put k v m) k' = (if k' = k then Some v else get m k')"
    and ok_put: "ok m \<Longrightarrow> ok (put k v m)"
    and keys_sorted: "ok m \<Longrightarrow> sorted_wrt (<) (keys m)"
    and set_keys: "set (keys m) = {k. get m k \<noteq> None}"
begin

lemma get_fold_put:
  "get (fold (\<lambda>(k, v). put k v) kvs m) k =
    (case map_of (rev kvs) k of None \<Rightarrow> get m k | Some v \<Rightarrow> Some v)"
  by (induction kvs arbitrary: m) (auto simp: get_put map_add_def split: option.splits)

lemma ok_fold_put: "ok m \<Longrightarrow> ok (fold (\<lambda>(k, v). put k v) kvs m)"
  by (induction kvs arbitrary: m) (auto simp: ok_put)

lemma keys_fold_put:
  assumes "ok m"
  shows "sorted_wrt (<) (keys (fold (\<lambda>(k, v). put k v) kvs m)) \<and>
    set (keys (fold (\<lambda>(k, v). put k v) kvs m)) = set (keys m) \<union> fst ` set kvs"
proof
  show "sorted_wrt (<) (keys (fold (\<lambda>(k, v). put k v) kvs m))"
    using assms by (intro keys_sorted ok_fold_put)
  show "set (keys (fold (\<lambda>(k, v). put k v) kvs m)) = set (keys m) \<union> fst ` set kvs"
    by (auto simp: set_keys get_fold_put map_of_eq_None_iff split: option.splits)
qed

lemma put_present_keys:
  assumes "ok m" and "get m k \<noteq> None"
  shows "keys (put k v m) = keys m"
proof -
  have "set (keys (put k v m)) = set (keys m)"
    using assms(2) by (auto simp: set_keys get_put)
  then show ?thesis
    using assms(1) by (intro strict_sorted_equal keys_sorted ok_put)
qed

end

lemma map_of_om_put: "map_of (om_put k v m) = (map_of m)(k \<mapsto> v)"
  by (induction m) (auto simp: fun_eq_iff)

lemma fst_set_om_put: "fst ` set (om_put k v m) = insert k (fst ` set m)"
  by (simp add: map_of_om_put flip: dom_map_of_conv_image_fst)

lemma om_ok_put: "om_ok m \<Longrightarrow> om_ok (om_put k v m)"
proof (induction m)
  case (Cons e m)
  obtain k' v' where e: "e = (k', v')" by (cases e)
  have m: "om_ok m" and lt: "\<forall>x \<in> fst ` set m. k' < x"
    using Cons.prems by (auto simp: om_ok_def e)
  then show ?case
    using Cons.IH[OF m] fst_set_om_put[of k v m]
    by (auto simp: om_ok_def e dest: less_trans)
qed (simp add: om_ok_def)

interpretation om: ordered_map "[]" om_put map_of "map fst" om_ok
proof
  show "om_ok m \<Longrightarrow> om_ok (om_put k v m)" for m :: "('a::linorder, 'b) omap" and k v
    by (rule om_ok_put)
  show "om_ok m \<Longrightarrow> sorted_wrt (<) (map fst m)" for m :: "('a::linorder, 'b) omap"
    by (simp add: om_ok_def)
  show "set (map fst m) = {k. map_of m k \<noteq> None}" for m :: "('a::linorder, 'b) omap"
    by (auto simp: map_of_eq_None_iff)
qed (auto simp: map_of_om_put om_ok_def)

lemma om_at_in: "map_of m k = Some v \<Longrightarrow> om_at m k = Inr v"
  by (simp add: om_at_def)

end
