(* ===== verification/Cord_Base.thy ===== *)
theory Cord_Base
  imports Prelude
begin

text \<open>
  What the update coordinator and the nodes share: the part of \<open>Config\<close> (\<open>Config.hh\<close>) they
  read, \<open>UpdBlock\<close> (\<open>UpdBlock.hh\<close>), and the cluster state they act on: one redis server per
  machine, whose lists the components push to and pop from, and one data directory per machine.
  The redis lists stand behind the interface \<open>redis_list\<close>.
\<close>

section \<open>Configuration\<close>

record config =
  ecK :: nat
  ecN :: nat
  helpersIPs :: "ip_addr list"
  coordinatorIP :: ip_addr
  blocksize :: int
  log_size :: int
  UPPolicy :: string
  UPWay :: string
  traceType :: string
  traceDir :: string

definition COMMAND_MAX_LENGTH :: nat where
  "COMMAND_MAX_LENGTH = 1024"

text \<open>\<open>_ecM\<close>, set as \<open>_ecN - _ecK\<close> by both \<open>init\<close> functions.\<close>

abbreviation ecM :: "config \<Rightarrow> nat" where
  "ecM conf \<equiv> ecN conf - ecK conf"

record upd_block =
  ub_id :: int
  ub_ip :: ip_addr
  ub_offset_add :: int
  ub_upd_size :: int

abbreviation UpdBlock :: "int \<Rightarrow> ip_addr \<Rightarrow> int \<Rightarrow> int \<Rightarrow> upd_block" where
  "UpdBlock i p off sz \<equiv> \<lparr>ub_id = i, ub_ip = p, ub_offset_add = off, ub_upd_size = sz\<rparr>"

section \<open>Decimal strings\<close>

text \<open>\<open>std::to_string\<close>.\<close>

function nat_to_string :: "nat \<Rightarrow> string" where
  "nat_to_string n =
     (if n < 10 then [char_of (48 + n)] else nat_to_string (n div 10) @ [char_of (48 + n mod 10)])"
  by pat_completeness auto
termination by (relation "measure id") auto

declare nat_to_string.simps [simp del]

definition to_string :: "int \<Rightarrow> string" where
  "to_string x = (if x < 0 then CHR ''-'' # nat_to_string (nat (- x)) else nat_to_string (nat x))"

lemma digit_char_inj:
  "a < 10 \<Longrightarrow> b < 10 \<Longrightarrow> char_of (48 + a) = (char_of (48 + b) :: char) \<Longrightarrow> a = (b :: nat)"
  by (drule arg_cong[where f = "of_char :: char \<Rightarrow> nat"]) simp

lemma nat_to_string_nonempty [simp]: "nat_to_string n \<noteq> []"
  by (subst nat_to_string.simps) simp

lemma nat_to_string_inj: "nat_to_string m = nat_to_string n \<Longrightarrow> m = n"
proof (induction m arbitrary: n rule: nat_to_string.induct)
  case (1 m)
  have short: "length (nat_to_string k) = 1 \<longleftrightarrow> k < 10" for k
    by (subst nat_to_string.simps) simp
  show ?case
  proof (cases "m < 10")
    case True
    then have "n < 10"
      using 1(2) short[of m] short[of n] by simp
    with True 1(2) show ?thesis
      by (simp add: nat_to_string.simps[of m] nat_to_string.simps[of n] digit_char_inj)
  next
    case False
    then have "\<not> n < 10"
      using 1(2) short[of m] short[of n] by simp
    with False 1(2) have "nat_to_string (m div 10) = nat_to_string (n div 10)"
      and "char_of (48 + m mod 10) = (char_of (48 + n mod 10) :: char)"
      by (simp_all add: nat_to_string.simps[of m] nat_to_string.simps[of n])
    then have "m div 10 = n div 10" and "m mod 10 = n mod 10"
      using 1(1)[OF False] by (auto intro: digit_char_inj)
    then show ?thesis by (metis div_mult_mod_eq)
  qed
qed

lemma digits_no_char:
  assumes "\<And>a :: nat. a < 10 \<Longrightarrow> c \<noteq> char_of (48 + a)"
  shows "c \<notin> set (nat_to_string n)"
proof (induction n rule: nat_to_string.induct)
  case (1 n)
  show ?case
    using 1 assms by (subst nat_to_string.simps) auto
qed

lemma nat_to_string_chars [simp]:
  "CHR ''.'' \<notin> set (nat_to_string n)" "CHR ''-'' \<notin> set (nat_to_string n)" "CHR '','' \<notin> set (nat_to_string n)"
proof -
  have "x \<noteq> char_of (48 + a)" if "of_char x < (48 :: nat)" and "a < 10" for a :: nat and x :: char
  proof
    assume "x = char_of (48 + a)"
    then have "of_char x = 48 + a"
      using that(2) by simp
    with that(1) show False by simp
  qed
  then show "CHR ''.'' \<notin> set (nat_to_string n)" "CHR ''-'' \<notin> set (nat_to_string n)"
    "CHR '','' \<notin> set (nat_to_string n)"
    by (intro digits_no_char; simp)+
qed

lemma to_string_inj: "to_string x = to_string y \<Longrightarrow> x = y"
proof -
  assume eq: "to_string x = to_string y"
  have minus: "CHR ''-'' # r \<noteq> nat_to_string n" for r n
    using nat_to_string_chars(2)[of n] by (metis list.set_intros(1))
  show "x = y"
    using eq minus minus[symmetric]
    by (auto simp: to_string_def split: if_splits dest!: nat_to_string_inj)
qed

text \<open>The file that holds block \<open>blk_id\<close> of a node.\<close>

definition blk_name :: "int \<Rightarrow> string" where
  "blk_name blk_id = ''blk_'' @ to_string blk_id"

section \<open>The cluster\<close>

record world =
  w_queues :: "ip_addr \<Rightarrow> string \<Rightarrow> byte list list"
  w_files :: "ip_addr \<Rightarrow> string \<Rightarrow> byte list option"

definition rpush :: "ip_addr \<Rightarrow> string \<Rightarrow> byte list \<Rightarrow> world \<Rightarrow> world" where
  "rpush ip key msg w =
     w\<lparr>w_queues := (w_queues w)(ip := (w_queues w ip)(key := w_queues w ip key @ [msg]))\<rparr>"

text \<open>
  The \<open>blpop\<close> loops retry on an empty list, on an error reply and on a reply with no elements,
  so that they leave only with a message: an empty list blocks the caller.
\<close>

definition blpop :: "ip_addr \<Rightarrow> string \<Rightarrow> world \<Rightarrow> (byte list \<times> world) res" where
  "blpop ip key w =
     (case w_queues w ip key of
        [] \<Rightarrow> Inl Blocked
      | msg # rest \<Rightarrow> Inr (msg, w\<lparr>w_queues := (w_queues w)(ip := (w_queues w ip)(key := rest))\<rparr>))"

text \<open>
  The receive loops: pop a message, process it, count it, and leave when the count is reached.
  A count that is not positive is never reached.
\<close>

fun recv_loop ::
    "('s \<Rightarrow> ('m \<times> 's) res) \<Rightarrow> ('m \<Rightarrow> 'a \<Rightarrow> 'a res) \<Rightarrow> nat \<Rightarrow> 'a \<Rightarrow> 's \<Rightarrow> ('a \<times> 's) res" where
  "recv_loop pop f 0 a s = Inr (a, s)"
| "recv_loop pop f (Suc n) a s =
     bindE (pop s) (\<lambda>(m, s'). bindE (f m a) (\<lambda>a'. recv_loop pop f n a' s'))"

definition recv_count ::
    "('s \<Rightarrow> ('m \<times> 's) res) \<Rightarrow> ('m \<Rightarrow> 'a \<Rightarrow> 'a res) \<Rightarrow> int \<Rightarrow> 'a \<Rightarrow> 's \<Rightarrow> ('a \<times> 's) res" where
  "recv_count pop f n a s = (if n \<le> 0 then Inl Blocked else recv_loop pop f (nat n) a s)"

section \<open>The interface of the redis lists\<close>

locale redis_list =
  fixes push :: "'srv \<Rightarrow> 'key \<Rightarrow> 'm \<Rightarrow> 's \<Rightarrow> 's"
    and pop :: "'srv \<Rightarrow> 'key \<Rightarrow> 's \<Rightarrow> ('m \<times> 's) res"
    and contents :: "'s \<Rightarrow> 'srv \<Rightarrow> 'key \<Rightarrow> 'm list"
    and rest :: "'s \<Rightarrow> 'r"
  assumes contents_push: "contents (push i k m s) j l =
      (if j = i \<and> l = k then contents s i k @ [m] else contents s j l)"
    and rest_push: "rest (push i k m s) = rest s"
    and pop_empty: "contents s i k = [] \<Longrightarrow> pop i k s = Inl Blocked"
    and pop_Cons: "contents s i k = m # ms \<Longrightarrow>
      \<exists>s'. pop i k s = Inr (m, s') \<and> rest s' = rest s \<and>
        (\<forall>j l. contents s' j l = (if j = i \<and> l = k then ms else contents s j l))"
begin

text \<open>Messages are taken in the order they were pushed, and nothing else changes.\<close>

lemma recv_loop_prefix:
  assumes "contents s i k = ms @ q"
  shows "\<exists>s'. recv_loop (pop i k) f (length ms) a s =
      bindE (foldE f ms a) (\<lambda>a'. Inr (a', s')) \<and> rest s' = rest s \<and>
    (\<forall>j l. contents s' j l = (if j = i \<and> l = k then q else contents s j l))"
  using assms
proof (induction ms arbitrary: s a)
  case Nil
  then show ?case by auto
next
  case (Cons m ms)
  obtain s1 where s1: "pop i k s = Inr (m, s1)" "rest s1 = rest s"
    "\<forall>j l. contents s1 j l = (if j = i \<and> l = k then ms @ q else contents s j l)"
    using pop_Cons[of s i k m "ms @ q"] Cons.prems by auto
  show ?case
  proof (cases "f m a")
    case (Inl e)
    obtain s2 where "rest s2 = rest s"
      "\<forall>j l. contents s2 j l = (if j = i \<and> l = k then q else contents s j l)"
      using s1 Cons.IH[of s1 a] by auto
    with Inl s1 show ?thesis by (intro exI[of _ s2]) simp
  next
    case (Inr a1)
    then show ?thesis
      using s1 Cons.IH[of s1 a1] by auto
  qed
qed

lemma recv_loop_blocks:
  assumes "contents s i k = ms" and "length ms < n" and "foldE f ms a = Inr a'"
  shows "recv_loop (pop i k) f n a s = Inl Blocked"
  using assms
proof (induction ms arbitrary: s a n)
  case Nil
  then show ?case by (cases n) (simp_all add: pop_empty)
next
  case (Cons m ms)
  obtain s1 where "pop i k s = Inr (m, s1)"
    "\<forall>j l. contents s1 j l = (if j = i \<and> l = k then ms else contents s j l)"
    using pop_Cons[of s i k m ms] Cons.prems by auto
  with Cons show ?case by (cases n) (auto simp: res_simps)
qed

end

interpretation rl: redis_list rpush blpop w_queues w_files
  by unfold_locales (auto simp: rpush_def blpop_def)

end
