(* ===== verification/Crd_Plan.thy ===== *)
theory Crd_Plan
  imports Cord_Base
begin

text \<open>
  The planner of the CRD update (\<open>is_intersected\<close>, \<open>get_upd_solu_crd\<close>, \<open>get_sub_set_id\<close> of
  \<open>UPCoordinator.cc\<close>): the updated blocks of a stripe are grouped into sub-sets whose address
  ranges touch. The theory shows that the sub-sets are a partition of the updates into ranges
  that are pairwise apart, which is what lets the parity collector send one range per sub-set.
\<close>

section \<open>Definitions\<close>

definition INT_MAX :: int where
  "INT_MAX = 2147483647"

definition INT_MIN :: int where
  "INT_MIN = - 2147483648"

definition hull :: "upd_block list \<Rightarrow> int \<times> int" where
  "hull N = fold (\<lambda>b (s, e). (min s (ub_offset_add b), max e (ub_offset_add b + ub_upd_size b))) N
     (INT_MAX, 0)"

definition is_intersected :: "upd_block \<Rightarrow> upd_block list \<Rightarrow> bool" where
  "is_intersected d N =
     (let s1 = ub_offset_add d;
          e1 = s1 + ub_upd_size d;
          (s2, e2) = hull N
      in \<not> (e1 < s2 \<or> e2 < s1))"

text \<open>The inner \<open>for\<close> loop: the first block of \<open>D\<close> that meets \<open>N\<close> leaves \<open>D\<close>.\<close>

fun erase_first :: "upd_block list \<Rightarrow> upd_block list \<Rightarrow> (upd_block \<times> upd_block list) option" where
  "erase_first N [] = None"
| "erase_first N (d # D) =
     (if is_intersected d N then Some (d, D)
      else map_option (\<lambda>(x, D'). (x, d # D')) (erase_first N D))"

lemma erase_first_mset: "erase_first N D = Some (d, D') \<Longrightarrow> mset D = add_mset d (mset D')"
  by (induction D arbitrary: d D') (auto split: if_splits)

lemma erase_first_length: "erase_first N D = Some (d, D') \<Longrightarrow> length D' < length D"
  by (metis erase_first_mset length_Suc_conv lessI mset_eq_length mset.simps(2))

text \<open>The \<open>while (true)\<close> loop: \<open>N\<close> grows until no block of \<open>D\<close> meets it.\<close>

function grow :: "upd_block list \<Rightarrow> upd_block list \<Rightarrow> upd_block list \<times> upd_block list" where
  "grow N D =
     (case erase_first N D of
        None \<Rightarrow> (N, D)
      | Some (d, D') \<Rightarrow> grow (N @ [d]) D')"
  by pat_completeness auto
termination
  by (relation "measure (\<lambda>(N, D). length D)") (auto dest: erase_first_length)

declare grow.simps [simp del]

lemma grow_mset: "grow N D = (N', D') \<Longrightarrow> mset N' + mset D' = mset N + mset D"
proof (induction N D rule: grow.induct)
  case (1 N D)
  then show ?case
    by (subst (asm) (2) grow.simps) (auto split: option.splits dest: erase_first_mset)
qed

lemma grow_length: "grow N D = (N', D') \<Longrightarrow> length D' \<le> length D"
proof (induction N D rule: grow.induct)
  case (1 N D)
  then show ?case
    by (subst (asm) (2) grow.simps)
      (force split: option.splits dest: erase_first_length)
qed

text \<open>The outer loop, with \<open>upd_solu[sub_set_id] = N; sub_set_id ++\<close>.\<close>

function solu_loop ::
    "upd_block list \<Rightarrow> int \<Rightarrow> (int, upd_block list) omap \<Rightarrow> (int, upd_block list) omap" where
  "solu_loop [] sub_set_id upd_solu = upd_solu"
| "solu_loop (blk # D) sub_set_id upd_solu =
     (case grow [blk] D of
        (N, D') \<Rightarrow> solu_loop D' (sub_set_id + 1) (om_put sub_set_id N upd_solu))"
  by pat_completeness auto
termination
  by (relation "measure (\<lambda>(D, i, m). length D)") (auto dest: grow_length[OF sym] simp: less_Suc_eq_le)

definition get_upd_solu_crd :: "upd_block list \<Rightarrow> (int, upd_block list) omap" where
  "get_upd_solu_crd upd_blk_vec = solu_loop upd_blk_vec 0 []"

fun get_sub_set_id :: "(int, upd_block list) omap \<Rightarrow> int \<Rightarrow> int" where
  "get_sub_set_id [] loc_blk_id = -1"
| "get_sub_set_id ((sub_set_id, N) # upd_solu) loc_blk_id =
     (if \<exists>b \<in> set N. ub_id b = loc_blk_id then sub_set_id
      else get_sub_set_id upd_solu loc_blk_id)"

section \<open>The sub-sets as a list\<close>

text \<open>The groups in the order in which they are formed; the map numbers them from 0.\<close>

function groups :: "upd_block list \<Rightarrow> upd_block list list" where
  "groups [] = []"
| "groups (blk # D) = (case grow [blk] D of (N, D') \<Rightarrow> N # groups D')"
  by pat_completeness auto
termination
  by (relation "measure length") (auto dest: grow_length[OF sym] simp: less_Suc_eq_le)

lemma om_put_greater:
  assumes "\<forall>x \<in> set (map fst m). x < k"
  shows "om_put k v m = m @ [(k, v)]"
  using assms by (induction m) auto

lemma solu_loop_groups:
  assumes "\<forall>x \<in> set (map fst m). x < i"
  shows "solu_loop D i m = m @ zip (map (\<lambda>k. i + int k) [0..<length (groups D)]) (groups D)"
  using assms
proof (induction D i m rule: solu_loop.induct)
  case (2 blk D i m)
  obtain N D' where g: "grow [blk] D = (N, D')" by fastforce
  have "solu_loop D' (i + 1) (m @ [(i, N)]) =
      (m @ [(i, N)]) @ zip (map (\<lambda>k. i + 1 + int k) [0..<length (groups D')]) (groups D')"
    using 2 g by (intro "2.IH"[OF g[symmetric], unfolded om_put_greater[OF "2.prems"]]) auto
  moreover have "map (\<lambda>k. i + int k) [0..<Suc (length (groups D'))] =
      i # map (\<lambda>k. i + 1 + int k) [0..<length (groups D')]"
    by (simp add: upt_conv_Cons map_Suc_upt[symmetric] o_def del: upt_Suc)
  ultimately show ?case
    using 2 by (simp add: g om_put_greater)
qed simp

lemma get_upd_solu_crd_groups:
  "get_upd_solu_crd v = zip (map int [0..<length (groups v)]) (groups v)"
  by (simp add: get_upd_solu_crd_def solu_loop_groups)

lemma groups_mset: "mset (concat (groups v)) = mset v"
proof (induction v rule: groups.induct)
  case (2 blk D)
  obtain N D' where g: "grow [blk] D = (N, D')" by fastforce
  with 2 grow_mset[OF g] show ?case by simp
qed simp

lemma groups_nonempty: "N \<in> set (groups v) \<Longrightarrow> N \<noteq> []"
proof (induction v rule: groups.induct)
  case (2 blk D)
  obtain N' D' where g: "grow [blk] D = (N', D')" by fastforce
  have "grow M E = (M', E') \<Longrightarrow> M \<noteq> [] \<Longrightarrow> M' \<noteq> []" for M E M' E'
  proof (induction M E rule: grow.induct)
    case (1 M E)
    then show ?case by (subst (asm) (2) grow.simps) (auto split: option.splits)
  qed
  from this[OF g] 2 g show ?case by auto
qed simp

section \<open>The ranges of the sub-sets\<close>

text \<open>The closed range \<open>is_intersected\<close> compares; a block of a stripe stays within \<open>INT_MAX\<close>.\<close>

abbreviation blk_range :: "upd_block \<Rightarrow> int set" where
  "blk_range b \<equiv> {ub_offset_add b .. ub_offset_add b + ub_upd_size b}"

definition blk_valid :: "upd_block \<Rightarrow> bool" where
  "blk_valid b \<longleftrightarrow> 0 \<le> ub_offset_add b \<and> 0 \<le> ub_upd_size b \<and>
     ub_offset_add b + ub_upd_size b \<le> INT_MAX"

abbreviation hull_range :: "upd_block list \<Rightarrow> int set" where
  "hull_range N \<equiv> {fst (hull N) .. snd (hull N)}"

text \<open>A group whose range has no gap.\<close>

definition connected :: "upd_block list \<Rightarrow> bool" where
  "connected N \<longleftrightarrow> N \<noteq> [] \<and> hull_range N = (\<Union>b \<in> set N. blk_range b)"

lemma hull_single: "blk_valid b \<Longrightarrow> hull [b] = (ub_offset_add b, ub_offset_add b + ub_upd_size b)"
  by (simp add: hull_def blk_valid_def)

lemma hull_snoc:
  "hull (N @ [b]) = (min (fst (hull N)) (ub_offset_add b),
     max (snd (hull N)) (ub_offset_add b + ub_upd_size b))"
  by (simp add: hull_def split: prod.splits)

lemma is_intersected_hull:
  "is_intersected d N \<longleftrightarrow> fst (hull N) \<le> ub_offset_add d + ub_upd_size d \<and> ub_offset_add d \<le> snd (hull N)"
  by (auto simp: is_intersected_def Let_def split: prod.splits)

lemma connected_single: "blk_valid b \<Longrightarrow> connected [b]"
  by (simp add: connected_def hull_single)

lemma connected_hull_le: "connected N \<Longrightarrow> \<forall>b \<in> set N. blk_valid b \<Longrightarrow> fst (hull N) \<le> snd (hull N)"
proof -
  assume N: "connected N" "\<forall>b \<in> set N. blk_valid b"
  then obtain b where b: "b \<in> set N"
    by (cases N) (auto simp: connected_def)
  then have "ub_offset_add b \<in> blk_range b"
    using N(2) by (auto simp: blk_valid_def)
  then have "ub_offset_add b \<in> hull_range N"
    using N(1) b unfolding connected_def by blast
  then show ?thesis by simp
qed

lemma connected_snoc:
  assumes "connected N" and "\<forall>b \<in> set N. blk_valid b" and "blk_valid d" and "is_intersected d N"
  shows "connected (N @ [d])"
proof -
  have "fst (hull N) \<le> snd (hull N)"
    using assms(1,2) by (rule connected_hull_le)
  then have "hull_range (N @ [d]) = hull_range N \<union> blk_range d"
    using assms(3,4) by (auto simp: hull_snoc is_intersected_hull blk_valid_def)
  then show ?thesis
    using assms(1) by (auto simp: connected_def)
qed

lemma erase_first_Some: "erase_first N D = Some (d, D') \<Longrightarrow> is_intersected d N"
  by (induction D arbitrary: d D') (auto split: if_splits)

lemma erase_first_None: "erase_first N D = None \<longleftrightarrow> (\<forall>d \<in> set D. \<not> is_intersected d N)"
  by (induction D) auto

lemma grow_connected:
  assumes "grow N D = (N', D')" and "connected N" and "\<forall>b \<in> set N \<union> set D. blk_valid b"
  shows "connected N' \<and> (\<forall>d \<in> set D'. \<not> is_intersected d N')"
  using assms
proof (induction N D rule: grow.induct)
  case (1 N D)
  show ?case
  proof (cases "erase_first N D")
    case None
    then show ?thesis
      using "1.prems" grow.simps[of N D] by (auto simp flip: erase_first_None)
  next
    case (Some p)
    obtain d D1 where p: "p = (d, D1)" by fastforce
    have set_D: "set D = insert d (set D1)"
      using erase_first_mset[of N D d D1] Some p by (metis set_mset_add_mset_insert set_mset_mset)
    have "connected (N @ [d])"
      using "1.prems" set_D Some p by (intro connected_snoc) (auto dest: erase_first_Some)
    then show ?thesis
      using "1.IH"[OF Some p[symmetric]] "1.prems" set_D Some p grow.simps[of N D] by auto
  qed
qed

definition apart :: "upd_block list \<Rightarrow> upd_block list \<Rightarrow> bool" where
  "apart N M \<longleftrightarrow> snd (hull N) < fst (hull M) \<or> snd (hull M) < fst (hull N)"

lemma apartI:
  assumes "connected N" and "connected M" and "\<forall>b \<in> set N \<union> set M. blk_valid b"
    and "\<forall>d \<in> set M. \<not> is_intersected d N"
  shows "apart N M"
proof -
  have le: "fst (hull N) \<le> snd (hull N)" "fst (hull M) \<le> snd (hull M)"
    using assms by (auto intro: connected_hull_le)
  have "hull_range N \<inter> blk_range d = {}" if "d \<in> set M" for d
    using assms(4) that le by (auto simp: is_intersected_hull)
  then have disj: "hull_range N \<inter> hull_range M = {}"
    using assms(2) unfolding connected_def by blast
  show ?thesis
  proof (rule ccontr)
    assume "\<not> apart N M"
    then have "max (fst (hull N)) (fst (hull M)) \<in> hull_range N \<inter> hull_range M"
      using le by (auto simp: apart_def)
    with disj show False by blast
  qed
qed

lemma groups_apart:
  assumes "\<forall>b \<in> set v. blk_valid b"
  shows "(\<forall>N \<in> set (groups v). connected N) \<and> sorted_wrt apart (groups v)"
  using assms
proof (induction v rule: groups.induct)
  case (2 blk D)
  obtain N D' where g: "grow [blk] D = (N, D')" by fastforce
  have sets: "set N \<union> set D' = insert blk (set D)"
    using arg_cong[OF grow_mset[OF g], of set_mset] by simp
  have N: "connected N" "\<forall>d \<in> set D'. \<not> is_intersected d N"
    using grow_connected[OF g] "2.prems" by (auto simp: connected_single)
  have "\<forall>b \<in> set D'. blk_valid b"
    using "2.prems" sets by auto
  then have IH: "\<forall>M \<in> set (groups D'). connected M" "sorted_wrt apart (groups D')"
    using "2.IH"[OF g[symmetric]] by auto
  have "apart N M" if M: "M \<in> set (groups D')" for M
  proof (rule apartI)
    have sub: "set M \<subseteq> set D'"
      using M arg_cong[OF groups_mset[of D'], of set_mset] by auto
    show "\<forall>b \<in> set N \<union> set M. blk_valid b"
      using sub sets "2.prems" by auto
    show "\<forall>d \<in> set M. \<not> is_intersected d N"
      using sub N(2) by auto
  qed (use N IH M in auto)
  then show ?case
    using N IH by (simp add: g)
qed simp

lemma groups_pairwise:
  assumes "\<forall>b \<in> set v. blk_valid b" and "i < length (groups v)" "j < length (groups v)" "i \<noteq> j"
  shows "apart (groups v ! i) (groups v ! j)"
  using groups_apart[OF assms(1)] assms(2-)
  by (metis apart_def linorder_neqE_nat sorted_wrt_iff_nth_less)

section \<open>Sub-set numbers\<close>

lemma get_sub_set_id_zip:
  assumes "distinct (map ub_id (concat Ns))" and "i < length Ns" and "b \<in> set (Ns ! i)"
  shows "get_sub_set_id (zip (map (\<lambda>k. a + int k) [0..<length Ns]) Ns) (ub_id b) = a + int i"
  using assms
proof (induction Ns arbitrary: i a)
  case (Cons N Ns)
  have upt: "map (\<lambda>k. a + int k) [0..<length (N # Ns)] =
      a # map (\<lambda>k. (a + 1) + int k) [0..<length Ns]"
    by (simp add: upt_conv_Cons map_Suc_upt[symmetric] o_def del: upt_Suc)
  show ?case
  proof (cases i)
    case 0
    with Cons.prems show ?thesis
      unfolding upt by auto
  next
    case (Suc i')
    have "ub_id b \<in> set (map ub_id (concat Ns))"
      using Cons.prems Suc by (auto intro!: image_eqI[of _ _ b] bexI[of _ "Ns ! i'"])
    moreover have "ub_id ` set N \<inter> set (map ub_id (concat Ns)) = {}"
      using Cons.prems(1) by simp
    ultimately have "\<not> (\<exists>b' \<in> set N. ub_id b' = ub_id b)"
      by (metis disjoint_iff imageI)
    then show ?thesis
      unfolding upt using Cons.IH[of i' "a + 1"] Cons.prems Suc by simp
  qed
qed simp

lemma get_sub_set_id_groups:
  assumes "distinct (map ub_id v)" and "i < length (groups v)" and "b \<in> set (groups v ! i)"
  shows "get_sub_set_id (get_upd_solu_crd v) (ub_id b) = int i"
proof -
  have "distinct (map ub_id (concat (groups v)))"
    using assms(1) groups_mset[of v] by (metis mset_eq_imp_distinct_iff mset_map)
  from get_sub_set_id_zip[OF this assms(2,3), of 0] show ?thesis
    by (simp add: get_upd_solu_crd_groups)
qed

lemma groups_member:
  assumes "b \<in> set v"
  obtains i where "i < length (groups v)" "b \<in> set (groups v ! i)"
proof -
  have "b \<in> set (concat (groups v))"
    using assms groups_mset[of v] by (metis set_mset_mset)
  then obtain N where "N \<in> set (groups v)" "b \<in> set N"
    by auto
  then show ?thesis
    using that by (metis in_set_conv_nth)
qed

lemma plan_groups: "(\<exists>j. (j, N) \<in> set (get_upd_solu_crd v)) \<longleftrightarrow> N \<in> set (groups v)"
  by (force simp: get_upd_solu_crd_groups in_set_zip in_set_conv_nth)

section \<open>Properties\<close>

text \<open>
  C23. \<open>get_upd_solu_crd\<close> terminates on every input with a partition of the updated blocks: the
  sub-sets are numbered \<open>0, 1, ...\<close> in order, none is empty, and together they hold every block
  exactly as often as the input does.
\<close>

theorem get_upd_solu_crd_partition:
  "map fst (get_upd_solu_crd v) = map int [0..<length (get_upd_solu_crd v)] \<and>
   [] \<notin> set (map snd (get_upd_solu_crd v)) \<and>
   mset (concat (map snd (get_upd_solu_crd v))) = mset v"
  using groups_nonempty[of "[]" v] by (auto simp: get_upd_solu_crd_groups groups_mset)

text \<open>
  C24. The sub-sets are the connected components of the updated ranges: the range of a sub-set
  is covered by the blocks in it without a gap, and the ranges of two different sub-sets lie
  strictly apart.
\<close>

theorem get_upd_solu_crd_components:
  assumes "\<forall>b \<in> set v. blk_valid b"
  shows "(\<forall>N \<in> set (map snd (get_upd_solu_crd v)). connected N) \<and>
    (\<forall>i < length (get_upd_solu_crd v). \<forall>j < length (get_upd_solu_crd v). i \<noteq> j \<longrightarrow>
      apart (snd (get_upd_solu_crd v ! i)) (snd (get_upd_solu_crd v ! j)))"
  using groups_apart[OF assms] groups_pairwise[OF assms] by (simp add: get_upd_solu_crd_groups)

abbreviation sample_updates :: "upd_block list" where
  "sample_updates \<equiv> [UpdBlock 0 0 0 4, UpdBlock 1 0 10 3, UpdBlock 2 0 4 1]"

lemma sample_updates_valid: "\<forall>b \<in> set sample_updates. blk_valid b"
  by (simp add: blk_valid_def INT_MAX_def)

lemma sample_updates_plan:
  "get_upd_solu_crd sample_updates =
     [(0, [UpdBlock 0 0 0 4, UpdBlock 2 0 4 1]), (1, [UpdBlock 1 0 10 3])]"
  by (simp add: get_upd_solu_crd_def grow.simps is_intersected_def hull_def INT_MAX_def)

theorem get_upd_solu_crd_components_witness:
  "get_upd_solu_crd sample_updates =
     [(0, [UpdBlock 0 0 0 4, UpdBlock 2 0 4 1]), (1, [UpdBlock 1 0 10 3])] \<and>
   connected [UpdBlock 0 0 0 4, UpdBlock 2 0 4 1] \<and>
   apart [UpdBlock 0 0 0 4, UpdBlock 2 0 4 1] [UpdBlock 1 0 10 3]"
  using get_upd_solu_crd_components[OF sample_updates_valid]
  by (simp add: sample_updates_plan less_Suc_eq)

text \<open>
  C25. For an update list with distinct block ids \<open>get_sub_set_id\<close> finds the sub-set of every
  updated block, so that the \<open>sub_set_id == -1\<close> exit of \<open>CrdUpdate\<close> is never taken.
\<close>

theorem get_sub_set_id_found:
  assumes "distinct (map ub_id v)" and "b \<in> set v"
  shows "\<exists>N. map_of (get_upd_solu_crd v) (get_sub_set_id (get_upd_solu_crd v) (ub_id b)) = Some N \<and>
    b \<in> set N \<and> get_sub_set_id (get_upd_solu_crd v) (ub_id b) \<noteq> -1"
proof -
  obtain i where i: "i < length (groups v)" "b \<in> set (groups v ! i)"
    using assms(2) by (rule groups_member)
  have "map_of (get_upd_solu_crd v) (int i) = Some (groups v ! i)"
    using i(1) map_of_zip_nth[of "map int [0..<length (groups v)]" "groups v" i]
    by (simp add: get_upd_solu_crd_groups distinct_map)
  then show ?thesis
    using get_sub_set_id_groups[OF assms(1) i] i(2) by simp
qed

theorem get_sub_set_id_found_witness:
  "\<exists>N. map_of (get_upd_solu_crd sample_updates)
      (get_sub_set_id (get_upd_solu_crd sample_updates) 1) = Some N \<and> UpdBlock 1 0 10 3 \<in> set N"
  using get_sub_set_id_found[of sample_updates "UpdBlock 1 0 10 3"] by auto

end
