(* ===== verification/Up_Commands.thy ===== *)
theory Up_Commands
  imports Crd_Plan
begin

text \<open>
  The command side of \<open>UPCoordinator.cc\<close>: \<open>RaidUpdate\<close>, \<open>DeltaUpdate\<close> and \<open>CrdUpdate\<close> turn the
  updated blocks of a stripe into the commands of tasks 1 to 8 and push them to the nodes, and
  \<open>recvAck\<close> waits for the acknowledgements of the parity nodes. A command is a sequence of
  32-bit integers: the task, the length of the command in bytes, the fields of the task.
\<close>

section \<open>Building and sending a command\<close>

text \<open>
  Every command is assembled in \<open>upd_cmd[COMMAND_MAX_LENGTH]\<close>; the length field is filled in
  last. A command that does not fit is written past the end of the array.
\<close>

definition mk_cmd :: "int \<Rightarrow> int list \<Rightarrow> byte list res" where
  "mk_cmd task_type args =
     (let cmd = put_ints (task_type # 4 * (2 + int (length args)) # args)
      in if length cmd \<le> COMMAND_MAX_LENGTH then Inr cmd else Inl Out_Of_Bounds)"

text \<open>
  \<open>_ip2Ctx\<close> has a connection for every helper; any other address gives a null context.
\<close>

definition send_cmd :: "config \<Rightarrow> ip_addr \<Rightarrow> byte list \<Rightarrow> world \<Rightarrow> world res" where
  "send_cmd conf ip cmd w =
     (if ip \<in> set (helpersIPs conf) then Inr (rpush ip ''upd_cmds'' cmd w) else Inl Out_Of_Bounds)"

text \<open>Column \<open>blk_id\<close> of \<open>_rsEncMat\<close>: the coefficients of a data block in the parity blocks.\<close>

definition coffs :: "config \<Rightarrow> byte list \<Rightarrow> int \<Rightarrow> int list res" where
  "coffs conf rsEncMat blk_id =
     mapE (\<lambda>j. bindE (atE rsEncMat (int j * int (ecK conf) + blk_id)) (\<lambda>c. Inr (uint c)))
       [0..<ecM conf]"

abbreviation parity_ids :: "config \<Rightarrow> int list" where
  "parity_ids conf \<equiv> map (\<lambda>i. int (ecK conf + i)) [0..<ecM conf]"

section \<open>RaidUpdate\<close>

definition raid_data_cmds :: "config \<Rightarrow> int \<Rightarrow> upd_block list \<Rightarrow> world \<Rightarrow> world res" where
  "raid_data_cmds conf collector_id =
     foldE (\<lambda>b w.
       if ub_id b = collector_id then Inr w
       else bindE (mk_cmd 1 [ub_id b, collector_id]) (\<lambda>c. send_cmd conf (ub_ip b) c w))"

definition raid_collector_cmd :: "config \<Rightarrow> byte list \<Rightarrow> upd_block list \<Rightarrow> byte list res" where
  "raid_collector_cmd conf rsEncMat upd_blk_vec =
     bindE (mapE (\<lambda>b. bindE (coffs conf rsEncMat (ub_id b)) (\<lambda>cs. Inr (ub_id b # cs))) upd_blk_vec)
       (\<lambda>fs. mk_cmd 2 (int (length upd_blk_vec) # concat fs @ parity_ids conf))"

definition raid_parity_cmds :: "config \<Rightarrow> world \<Rightarrow> world res" where
  "raid_parity_cmds conf =
     foldE (\<lambda>blk_id w. bindE (mk_cmd 3 [blk_id]) (\<lambda>c.
       bindE (atE (helpersIPs conf) blk_id) (\<lambda>ip. send_cmd conf ip c w))) (parity_ids conf)"

text \<open>\<open>r\<close> is the value of \<open>rand()\<close>.\<close>

definition RaidUpdate ::
    "config \<Rightarrow> byte list \<Rightarrow> nat \<Rightarrow> upd_block list \<Rightarrow> world \<Rightarrow> world res" where
  "RaidUpdate conf rsEncMat r upd_blk_vec w =
     (if upd_blk_vec = [] then Inl Div_By_Zero
      else
        (let collector = upd_blk_vec ! (r mod length upd_blk_vec)
         in bindE (raid_data_cmds conf (ub_id collector) upd_blk_vec w) (\<lambda>w1.
            bindE (raid_collector_cmd conf rsEncMat upd_blk_vec) (\<lambda>c.
            bindE (send_cmd conf (ub_ip collector) c w1) (raid_parity_cmds conf)))))"

section \<open>DeltaUpdate\<close>

definition delta_parity_cmds :: "config \<Rightarrow> nat \<Rightarrow> world \<Rightarrow> world res" where
  "delta_parity_cmds conf upd_num =
     foldE (\<lambda>blk_id w. bindE (mk_cmd 5 [int upd_num, blk_id]) (\<lambda>c.
       bindE (atE (helpersIPs conf) blk_id) (\<lambda>ip. send_cmd conf ip c w))) (parity_ids conf)"

definition delta_data_cmds :: "config \<Rightarrow> byte list \<Rightarrow> upd_block list \<Rightarrow> world \<Rightarrow> world res" where
  "delta_data_cmds conf rsEncMat =
     foldE (\<lambda>b w. bindE (coffs conf rsEncMat (ub_id b)) (\<lambda>cs.
       bindE (mk_cmd 4 ([ub_id b, ub_offset_add b, ub_upd_size b] @ cs @ parity_ids conf)) (\<lambda>c.
       send_cmd conf (ub_ip b) c w)))"

definition DeltaUpdate :: "config \<Rightarrow> byte list \<Rightarrow> upd_block list \<Rightarrow> world \<Rightarrow> world res" where
  "DeltaUpdate conf rsEncMat upd_blk_vec w =
     bindE (delta_parity_cmds conf (length upd_blk_vec) w)
       (delta_data_cmds conf rsEncMat upd_blk_vec)"

section \<open>CrdUpdate\<close>

definition crd_data_cmds :: "config \<Rightarrow> int \<Rightarrow> upd_block list \<Rightarrow> world \<Rightarrow> world res" where
  "crd_data_cmds conf parity_collector_id =
     foldE (\<lambda>b w. bindE (mk_cmd 6 [ub_id b, ub_offset_add b, ub_upd_size b, parity_collector_id])
       (\<lambda>c. send_cmd conf (ub_ip b) c w))"

text \<open>The fields of one updated block in the command of the parity collector.\<close>

definition crd_blk_fields ::
    "config \<Rightarrow> byte list \<Rightarrow> (int, upd_block list) omap \<Rightarrow> upd_block \<Rightarrow> int list res" where
  "crd_blk_fields conf rsEncMat upd_solu b =
     (let sub_set_id = get_sub_set_id upd_solu (ub_id b)
      in if sub_set_id = -1 then Inl (Exit (-1))
         else bindE (coffs conf rsEncMat (ub_id b)) (\<lambda>cs.
           Inr ([ub_id b, sub_set_id, ub_offset_add b, ub_upd_size b] @ cs)))"

definition crd_collector_cmd ::
    "config \<Rightarrow> byte list \<Rightarrow> int \<Rightarrow> (int, upd_block list) omap \<Rightarrow> upd_block list \<Rightarrow> byte list res" where
  "crd_collector_cmd conf rsEncMat parity_collector_id upd_solu upd_blk_vec =
     bindE (mapE (crd_blk_fields conf rsEncMat upd_solu) upd_blk_vec) (\<lambda>fs.
       mk_cmd 7 ([parity_collector_id, int (length upd_blk_vec), int (length upd_solu)] @ concat fs @
         filter (\<lambda>i. i \<noteq> parity_collector_id) (parity_ids conf)))"

text \<open>The merged range of a sub-set as the command of task 8 carries it.\<close>

definition crd_extent :: "upd_block list \<Rightarrow> int \<times> int" where
  "crd_extent N =
     (case fold (\<lambda>b (start_add, end_add).
              (min start_add (ub_offset_add b),
               max end_add (ub_offset_add b + ub_upd_size b) - 1)) N (INT_MAX, 0) of
        (start_add, end_add) \<Rightarrow> (start_add, end_add - start_add + 1))"

definition crd_parity_fields :: "(int, upd_block list) omap \<Rightarrow> int list" where
  "crd_parity_fields upd_solu =
     concat (map (\<lambda>(sub_set_id, N). [sub_set_id, fst (crd_extent N), snd (crd_extent N)]) upd_solu)"

definition crd_parity_cmds ::
    "config \<Rightarrow> int \<Rightarrow> (int, upd_block list) omap \<Rightarrow> world \<Rightarrow> world res" where
  "crd_parity_cmds conf parity_collector_id upd_solu =
     foldE (\<lambda>blk_id w.
       if blk_id = parity_collector_id then Inr w
       else bindE (mk_cmd 8 ([blk_id, int (length upd_solu)] @ crd_parity_fields upd_solu)) (\<lambda>c.
         bindE (atE (helpersIPs conf) blk_id) (\<lambda>ip. send_cmd conf ip c w))) (parity_ids conf)"

definition crd_collector_id :: "config \<Rightarrow> nat \<Rightarrow> int" where
  "crd_collector_id conf r = int (r mod ecM conf + ecK conf)"

definition CrdUpdate ::
    "config \<Rightarrow> byte list \<Rightarrow> nat \<Rightarrow> upd_block list \<Rightarrow> world \<Rightarrow> world res" where
  "CrdUpdate conf rsEncMat r upd_blk_vec w =
     (if ecM conf = 0 then Inl Div_By_Zero
      else
        (let parity_collector_id = crd_collector_id conf r;
             upd_solu = get_upd_solu_crd upd_blk_vec
         in bindE (crd_data_cmds conf parity_collector_id upd_blk_vec w) (\<lambda>w1.
            bindE (crd_collector_cmd conf rsEncMat parity_collector_id upd_solu upd_blk_vec) (\<lambda>c.
            bindE (atE (helpersIPs conf) parity_collector_id) (\<lambda>ip.
            bindE (send_cmd conf ip c w1) (crd_parity_cmds conf parity_collector_id upd_solu))))))"

section \<open>recvAck\<close>

definition recvAck :: "config \<Rightarrow> world \<Rightarrow> (int \<times> world) res" where
  "recvAck conf w =
     bindE (recv_count (blpop (coordinatorIP conf) ''ack'') (\<lambda>_ u. Inr u) (int (ecM conf)) () w)
       (\<lambda>(_, w'). Inr (1, w'))"

end
