(* ===== verification/Trace_Log.thy ===== *)
theory Trace_Log
  imports Crd_Plan "HOL-Library.Signed_Division"
begin

text \<open>
  The front end of the update coordinator (\<open>UPCoordinator.cc\<close>): splitting a line of a trace
  (\<open>splite_string\<close>), reading its numbers, cutting a request into block ranges and keeping them in
  the update log, the two maps \<open>stripe_id2loc_blk_id\<close> and \<open>glo_blk_id2start_end\<close>. The source has
  this code three times, in \<open>UpdateReqHandler\<close>, \<open>single_doProcess\<close> and \<open>multi_doProcess\<close>.
  The theory shows the round trips of the parsers, that the ranges of a request are exactly its
  bytes, the invariant of the log, and what the merge of two ranges loses.
\<close>

section \<open>Lines and numbers\<close>

function splite_string :: "string \<Rightarrow> char \<Rightarrow> string list" where
  "splite_string str c =
     (if c \<in> set str
      then takeWhile (\<lambda>x. x \<noteq> c) str # splite_string (tl (dropWhile (\<lambda>x. x \<noteq> c) str)) c
      else [str])"
  by pat_completeness auto
termination
proof (relation "measure (\<lambda>(str, c). length str)")
  fix str and c :: char
  assume "c \<in> set str"
  then have "dropWhile (\<lambda>x. x \<noteq> c) str \<noteq> []"
    by auto
  then show "((tl (dropWhile (\<lambda>x. x \<noteq> c) str), c), str, c) \<in> measure (\<lambda>(str, c). length str)"
    using length_dropWhile_le[of "\<lambda>x. x \<noteq> c" str] by (cases "dropWhile (\<lambda>x. x \<noteq> c) str") auto
qed simp

declare splite_string.simps [simp del]

text \<open>
  \<open>stream << s; stream >> x\<close> on a cleared stream: white space is skipped; if nothing is left, \<open>x\<close>
  keeps its value; a sign and decimal digits are read; without a digit \<open>x\<close> becomes 0 and a
  number outside \<open>long long\<close> becomes the nearest value.
\<close>

definition LLONG_MAX :: int where
  "LLONG_MAX = 9223372036854775807"

definition is_space :: "char \<Rightarrow> bool" where
  "is_space c \<longleftrightarrow> c = CHR '' '' \<or> (9 \<le> (of_char c :: nat) \<and> (of_char c :: nat) \<le> 13)"

definition is_digit :: "char \<Rightarrow> bool" where
  "is_digit c \<longleftrightarrow> 48 \<le> (of_char c :: nat) \<and> (of_char c :: nat) \<le> 57"

definition digits_value :: "string \<Rightarrow> int" where
  "digits_value ds = foldl (\<lambda>n c. 10 * n + (int (of_char c) - 48)) 0 ds"

definition clamp_ll :: "int \<Rightarrow> int" where
  "clamp_ll x = max (- LLONG_MAX - 1) (min LLONG_MAX x)"

definition read_ll :: "string \<Rightarrow> int \<Rightarrow> int" where
  "read_ll s x =
     (case dropWhile is_space s of
        [] \<Rightarrow> x
      | c # cs \<Rightarrow>
          let ds = takeWhile is_digit (if c = CHR ''-'' \<or> c = CHR ''+'' then cs else c # cs)
          in if ds = [] then 0
             else clamp_ll (if c = CHR ''-'' then - digits_value ds else digits_value ds))"

section \<open>One line of a trace\<close>

text \<open>Whether the line is a read request, which the loops skip.\<close>

definition is_read :: "config \<Rightarrow> string list \<Rightarrow> bool res" where
  "is_read conf fs =
     (if traceType conf = ''MSR'' then bindE (atE fs 3) (\<lambda>f. Inr (f = ''Read''))
      else if traceType conf = ''Ali'' then bindE (atE fs 1) (\<lambda>f. Inr (f = ''R''))
      else if traceType conf = ''Ten'' then bindE (atE fs 3) (\<lambda>f. Inr (f = ''0''))
      else Inr False)"

definition mul_ll :: "int \<Rightarrow> int \<Rightarrow> int res" where
  "mul_ll a b = bindE (guardE (- LLONG_MAX - 1 \<le> a * b \<and> a * b \<le> LLONG_MAX) Int_Overflow) (\<lambda>_. Inr (a * b))"

definition read_fields :: "config \<Rightarrow> string list \<Rightarrow> int \<times> int \<Rightarrow> (int \<times> int) res" where
  "read_fields conf fs st =
     (case st of (offset, update_size) \<Rightarrow>
       if traceType conf = ''MSR'' then
         bindE (atE fs 4) (\<lambda>a. bindE (atE fs 5) (\<lambda>b. Inr (read_ll a offset, read_ll b update_size)))
       else if traceType conf = ''Ali'' then
         bindE (atE fs 2) (\<lambda>a. bindE (atE fs 3) (\<lambda>b. Inr (read_ll a offset, read_ll b update_size)))
       else if traceType conf = ''Ten'' then
         bindE (atE fs 1) (\<lambda>a. bindE (mul_ll (read_ll a offset) 512) (\<lambda>off.
         bindE (atE fs 2) (\<lambda>b. bindE (mul_ll (read_ll b update_size) 512) (\<lambda>sz. Inr (off, sz)))))
       else Inl (Exit (-1)))"

text \<open>
  The body of the loop up to the second \<open>continue\<close>: the new values of \<open>offset\<close> and
  \<open>update_size\<close>, in KB, and whether the request goes to the log.
\<close>

definition parse_line :: "config \<Rightarrow> string \<Rightarrow> int \<times> int \<Rightarrow> ((int \<times> int) \<times> bool) res" where
  "parse_line conf line st =
     (let fs = splite_string line CHR '','' in
      bindE (is_read conf fs) (\<lambda>r.
      if r then Inr (st, False)
      else bindE (read_fields conf fs st) (\<lambda>(offset, update_size).
        let sz = update_size sdiv 1024 in Inr ((offset sdiv 1024, sz), sz \<noteq> 0))))"

section \<open>The update log\<close>

record upd_log =
  stripe_id2loc_blk_id :: "(int, int list) omap"
  glo_blk_id2start_end :: "(int, int \<times> int) omap"

definition empty_log :: upd_log where
  "empty_log = \<lparr>stripe_id2loc_blk_id = [], glo_blk_id2start_end = []\<rparr>"

text \<open>The vector \<open>start_end\<close> of block \<open>glo_blk_id\<close>.\<close>

definition start_end :: "int \<Rightarrow> int \<Rightarrow> int \<Rightarrow> int \<Rightarrow> int \<times> int" where
  "start_end bs offset update_size glo_blk_id =
     (let start_blk_id = offset sdiv bs; end_blk_id = (offset + update_size) sdiv bs in
      if glo_blk_id = start_blk_id \<and> glo_blk_id \<noteq> end_blk_id then (offset smod bs, bs)
      else if glo_blk_id = start_blk_id \<and> glo_blk_id = end_blk_id
        then (offset smod bs, (offset + update_size) smod bs)
      else if glo_blk_id \<noteq> start_blk_id \<and> glo_blk_id \<noteq> end_blk_id then (0, bs)
      else (0, (offset + update_size) smod bs))"

definition block_ranges :: "int \<Rightarrow> int \<Rightarrow> int \<Rightarrow> (int \<times> int \<times> int) list" where
  "block_ranges bs offset update_size =
     map (\<lambda>i. (i, start_end bs offset update_size i)) [offset sdiv bs..(offset + update_size) sdiv bs]"

text \<open>
  The loop over the blocks of a request. Its bounds are \<open>long long\<close>, its counter is an \<open>int\<close>: block numbers
  that leave it overflow.
\<close>

definition pieces :: "int \<Rightarrow> int \<Rightarrow> int \<Rightarrow> (int \<times> int \<times> int) list res" where
  "pieces bs offset update_size =
     bindE (guardE (bs \<noteq> 0) Div_By_Zero) (\<lambda>_.
     let start_blk_id = offset sdiv bs; end_blk_id = (offset + update_size) sdiv bs in
     bindE (guardE (INT_MIN \<le> start_blk_id \<and> start_blk_id \<le> INT_MAX \<and> end_blk_id < INT_MAX) Int_Overflow) (\<lambda>_.
     Inr (block_ranges bs offset update_size)))"

definition add_loc :: "int \<Rightarrow> int \<Rightarrow> (int, int list) omap \<Rightarrow> (int, int list) omap" where
  "add_loc stripe_id loc_blk_id m =
     (case map_of m stripe_id of
        None \<Rightarrow> om_put stripe_id [loc_blk_id] m
      | Some v \<Rightarrow> if loc_blk_id \<in> set v then m else om_put stripe_id (v @ [loc_blk_id]) m)"

text \<open>One range: a new block is entered, a known one gets the smaller start and the smaller end.\<close>

definition log_piece :: "nat \<Rightarrow> int \<times> int \<times> int \<Rightarrow> upd_log \<Rightarrow> upd_log" where
  "log_piece k p lg =
     (case p of (glo_blk_id, s, e) \<Rightarrow>
       let loc_blk_id = glo_blk_id smod int k; stripe_id = glo_blk_id sdiv int k in
       case map_of (glo_blk_id2start_end lg) glo_blk_id of
         None \<Rightarrow> \<lparr>stripe_id2loc_blk_id = add_loc stripe_id loc_blk_id (stripe_id2loc_blk_id lg),
                   glo_blk_id2start_end = om_put glo_blk_id (s, e) (glo_blk_id2start_end lg)\<rparr>
       | Some (s', e') \<Rightarrow>
           lg\<lparr>glo_blk_id2start_end := om_put glo_blk_id (min s s', min e e') (glo_blk_id2start_end lg)\<rparr>)"

text \<open>A request goes to the log range by range.\<close>

definition log_request :: "config \<Rightarrow> int \<Rightarrow> int \<Rightarrow> upd_log \<Rightarrow> upd_log res" where
  "log_request conf offset update_size lg =
     bindE (pieces (blocksize conf) offset update_size) (\<lambda>ps.
     bindE (guardE (ecK conf \<noteq> 0) Div_By_Zero) (\<lambda>_.
     Inr (fold (log_piece (ecK conf)) ps lg)))"

text \<open>
  \<open>cur_log_size >= _log_size\<close>. The left side is \<open>size * blocksize / 1024\<close> as a \<open>double\<close>, exact for
  products below \<open>2 ^ 53\<close>.
\<close>

definition log_full :: "config \<Rightarrow> upd_log \<Rightarrow> bool" where
  "log_full conf lg \<longleftrightarrow> log_size conf * 1024 \<le> int (length (glo_blk_id2start_end lg)) * blocksize conf"

section \<open>Round trips of the parsers\<close>

fun join_string :: "string list \<Rightarrow> char \<Rightarrow> string" where
  "join_string [] c = []"
| "join_string [f] c = f"
| "join_string (f # fs) c = f @ c # join_string fs c"

lemma splite_string_nonempty [simp]: "splite_string str c \<noteq> []"
  by (subst splite_string.simps) simp

lemma join_splite_string: "join_string (splite_string str c) c = str"
proof (induction str c rule: splite_string.induct)
  case (1 str c)
  show ?case
  proof (cases "c \<in> set str")
    case True
    let ?rest = "splite_string (tl (dropWhile (\<lambda>x. x \<noteq> c) str)) c"
    have "join_string (splite_string str c) c = takeWhile (\<lambda>x. x \<noteq> c) str @ c # join_string ?rest c"
      using True by (subst splite_string.simps) (cases ?rest, simp_all)
    also have "c # join_string ?rest c = dropWhile (\<lambda>x. x \<noteq> c) str"
      using 1[OF True] True hd_dropWhile[of "\<lambda>x. x \<noteq> c" str]
      by (cases "dropWhile (\<lambda>x. x \<noteq> c) str") auto
    finally show ?thesis by simp
  qed (simp add: splite_string.simps)
qed

lemma splite_join_string:
  "fs \<noteq> [] \<Longrightarrow> \<forall>f \<in> set fs. c \<notin> set f \<Longrightarrow> splite_string (join_string fs c) c = fs"
proof (induction fs c rule: join_string.induct)
  case (3 f g gs c)
  have "takeWhile (\<lambda>x. x \<noteq> c) (f @ c # r) = f" "dropWhile (\<lambda>x. x \<noteq> c) (f @ c # r) = c # r" for r
    using "3.prems" by (auto simp: takeWhile_append dropWhile_append)
  then show ?case
    using 3 by (subst splite_string.simps) simp
qed (simp_all add: splite_string.simps)

lemma digits_value_snoc: "digits_value (ds @ [c]) = 10 * digits_value ds + (int (of_char c) - 48)"
  by (simp add: digits_value_def)

lemma nat_to_string_digits: "\<forall>c \<in> set (nat_to_string n). is_digit c"
proof (induction n rule: nat_to_string.induct)
  case (1 n)
  have "is_digit (char_of (48 + d))" if "d < 10" for d :: nat
    using that by (simp add: is_digit_def)
  with 1 show ?case by (subst nat_to_string.simps) auto
qed

lemma digits_value_nat_to_string: "digits_value (nat_to_string n) = int n"
proof (induction n rule: nat_to_string.induct)
  case (1 n)
  show ?case
  proof (cases "n < 10")
    case True
    then show ?thesis by (simp add: nat_to_string.simps[of n] digits_value_def)
  next
    case False
    have "int (n mod 10) = int n - 10 * int (n div 10)"
      by (simp add: zmod_int zdiv_int flip: minus_mult_div_eq_mod)
    with False 1 show ?thesis
      by (subst nat_to_string.simps) (simp add: digits_value_snoc)
  qed
qed

lemma digit_not_space: "is_digit c \<Longrightarrow> \<not> is_space c \<and> c \<noteq> CHR ''-'' \<and> c \<noteq> CHR ''+''"
  by (auto simp: is_digit_def is_space_def)

lemma takeWhile_digits [simp]: "takeWhile is_digit (nat_to_string n) = nat_to_string n"
  using nat_to_string_digits by (simp add: takeWhile_eq_all_conv)

lemma read_ll_to_string:
  assumes "- LLONG_MAX - 1 \<le> x" and "x \<le> LLONG_MAX"
  shows "read_ll (to_string x) y = x"
proof (cases "x < 0")
  case True
  have "read_ll (to_string x) y = clamp_ll (- int (nat (- x)))"
    using True by (simp add: read_ll_def to_string_def is_space_def digits_value_nat_to_string)
  with True assms show ?thesis by (simp add: clamp_ll_def)
next
  case False
  obtain c cs where cs: "nat_to_string (nat x) = c # cs"
    by (cases "nat_to_string (nat x)") auto
  have c: "\<not> is_space c" "c \<noteq> CHR ''-''" "c \<noteq> CHR ''+''"
    using digit_not_space nat_to_string_digits[of "nat x"] cs by auto
  have "read_ll (to_string x) y = clamp_ll (digits_value (nat_to_string (nat x)))"
    using False c takeWhile_digits[of "nat x"] unfolding read_ll_def to_string_def cs by (simp add: Let_def)
  with False assms show ?thesis by (simp add: clamp_ll_def digits_value_nat_to_string)
qed

text \<open>A write request of an Ali trace, as the trace files print it.\<close>

definition ali_line :: "string \<Rightarrow> int \<Rightarrow> int \<Rightarrow> string \<Rightarrow> string" where
  "ali_line dev offset sz time = join_string [dev, ''W'', to_string offset, to_string sz, time] CHR '',''"

lemma comma_to_string [simp]: "CHR '','' \<notin> set (to_string x)"
  by (simp add: to_string_def)

text \<open>
  The fields of a line with a request of \<open>sz\<close> bytes at \<open>offset\<close>, by the type of the trace: MSR and Ali traces count in bytes, Ten
  traces in sectors. \<open>rd\<close> says whether it is a read.
\<close>

definition request_fields :: "config \<Rightarrow> bool \<Rightarrow> int \<Rightarrow> int \<Rightarrow> string list \<Rightarrow> bool" where
  "request_fields conf rd offset sz fs \<longleftrightarrow> (\<forall>f \<in> set fs. CHR '','' \<notin> set f) \<and>
     (traceType conf = ''MSR'' \<and> 6 \<le> length fs \<and> (fs ! 3 = ''Read'' \<longleftrightarrow> rd) \<and> fs ! 4 = to_string offset \<and> fs ! 5 = to_string sz \<or>
      traceType conf = ''Ali'' \<and> 4 \<le> length fs \<and> (fs ! 1 = ''R'' \<longleftrightarrow> rd) \<and> fs ! 2 = to_string offset \<and> fs ! 3 = to_string sz \<or>
      traceType conf = ''Ten'' \<and> 4 \<le> length fs \<and> (fs ! 3 = ''0'' \<longleftrightarrow> rd) \<and>
        (\<exists>a b. offset = a * 512 \<and> sz = b * 512 \<and> fs ! 1 = to_string a \<and> fs ! 2 = to_string b))"

lemma parse_request:
  assumes fields: "request_fields conf rd offset sz fs"
    and range: "0 \<le> offset" "offset \<le> LLONG_MAX" "0 \<le> sz" "sz \<le> LLONG_MAX"
  shows "parse_line conf (join_string fs CHR '','') req =
    (if rd then Inr (req, False) else Inr ((offset div 1024, sz div 1024), 1024 \<le> sz))"
proof -
  obtain x y where req: "req = (x, y)" by (cases req)
  have "fs \<noteq> []" "\<forall>f \<in> set fs. CHR '','' \<notin> set f" using fields by (auto simp: request_fields_def)
  then have split: "splite_string (join_string fs CHR '','') CHR '','' = fs" by (rule splite_join_string)
  have at: "atE fs n = Inr (fs ! nat n)" if "0 \<le> n" "nat n < length fs" for n using that by (simp add: atE_def)
  have read: "read_ll (to_string c) z = c" if "0 \<le> c" "c \<le> LLONG_MAX" for c z
    using that by (intro read_ll_to_string) (simp_all add: LLONG_MAX_def)
  have sector: "0 \<le> c \<and> c \<le> LLONG_MAX \<and> mul_ll c 512 = Inr d" if "0 \<le> d" "d \<le> LLONG_MAX" "d = c * 512" for c d
    using that by (simp add: mul_ll_def guardE_def LLONG_MAX_def)
  have kb: "offset sdiv 1024 = offset div 1024" "sz sdiv 1024 = sz div 1024"
    using range by (auto simp: signed_divide_int_def sgn_if)
  have some: "sz div 1024 \<noteq> 0 \<longleftrightarrow> 1024 \<le> sz" using range by (auto simp: div_eq_0_iff)
  consider (MSR) "traceType conf = ''MSR''" "6 \<le> length fs" "fs ! 3 = ''Read'' \<longleftrightarrow> rd" "fs ! 4 = to_string offset" "fs ! 5 = to_string sz"
    | (Ali) "traceType conf = ''Ali''" "4 \<le> length fs" "fs ! 1 = ''R'' \<longleftrightarrow> rd" "fs ! 2 = to_string offset" "fs ! 3 = to_string sz"
    | (Ten) a b where "traceType conf = ''Ten''" "4 \<le> length fs" "fs ! 3 = ''0'' \<longleftrightarrow> rd" "offset = a * 512" "sz = b * 512"
      "fs ! 1 = to_string a" "fs ! 2 = to_string b"
    using fields unfolding request_fields_def by blast
  then show ?thesis
  proof cases
    case MSR
    then show ?thesis using at[of 3] at[of 4] at[of 5] read range kb some
      by (simp add: parse_line_def split is_read_def read_fields_def req Let_def)
  next
    case Ali
    then show ?thesis using at[of 1] at[of 2] at[of 3] read range kb some
      by (simp add: parse_line_def split is_read_def read_fields_def req Let_def)
  next
    case Ten
    then show ?thesis using at[of 1] at[of 2] at[of 3] read[of a] read[of b] sector[OF range(1,2) Ten(4)] sector[OF range(3,4) Ten(5)] kb some
      by (simp add: parse_line_def split is_read_def read_fields_def req Let_def)
  qed
qed

lemma parse_ali_line:
  assumes "traceType conf = ''Ali''" and "CHR '','' \<notin> set dev" and "CHR '','' \<notin> set time"
    and "0 \<le> offset" "offset \<le> LLONG_MAX" and "0 \<le> sz" "sz \<le> LLONG_MAX"
  shows "parse_line conf (ali_line dev offset sz time) req =
    Inr ((offset div 1024, sz div 1024), sz div 1024 \<noteq> 0)"
proof -
  have fields: "request_fields conf False offset sz [dev, ''W'', to_string offset, to_string sz, time]"
    using assms(1-3) by (simp add: request_fields_def)
  have some: "sz div 1024 \<noteq> 0 \<longleftrightarrow> 1024 \<le> sz" using assms(6) by (auto simp: div_eq_0_iff)
  show ?thesis unfolding ali_line_def parse_request[OF fields assms(4-7)] some by (simp only: if_False)
qed

section \<open>The ranges of a request\<close>

lemma sdiv_nonneg [simp]: "0 \<le> a \<Longrightarrow> 0 < b \<Longrightarrow> a sdiv b = a div (b :: int)"
  by (auto simp: signed_divide_int_def sgn_if)

lemma smod_nonneg [simp]: "0 \<le> a \<Longrightarrow> 0 < b \<Longrightarrow> a smod b = a mod (b :: int)"
  by (auto simp: signed_modulo_int_def minus_div_mult_eq_mod sgn_if)

text \<open>The four cases are the intersection of the request with the block.\<close>

lemma start_end_eq:
  assumes "0 \<le> offset" and "0 < sz" and "0 < bs" and "g \<in> {offset div bs..(offset + sz) div bs}"
  shows "start_end bs offset sz g = (max 0 (offset - g * bs), min bs (offset + sz - g * bs))"
proof -
  define a r where a_def: "a = offset div bs" and r_def: "r = offset mod bs"
  define b q where b_def: "b = (offset + sz) div bs" and q_def: "q = (offset + sz) mod bs"
  have a: "offset = a * bs + r" "0 \<le> r" "r < bs" and b: "offset + sz = b * bs + q" "0 \<le> q" "q < bs"
    using assms(3) by (simp_all add: a_def r_def b_def q_def)
  have g: "a \<le> g" "g \<le> b"
    using assms(4) by (auto simp: a_def b_def)
  have mono: "x * bs + bs \<le> y * bs" if "x < y" for x y
    using that assms(3) mult_right_mono[of "x + 1" y bs] by (simp add: algebra_simps)
  have "start_end bs offset sz g =
      (if g = a \<and> g \<noteq> b then (r, bs) else if g = a \<and> g = b then (r, q) else if g \<noteq> a \<and> g \<noteq> b then (0, bs) else (0, q))"
    using assms(1-3) by (simp add: start_end_def a_def b_def r_def q_def)
  also have "\<dots> = (max 0 (offset - g * bs), min bs (offset + sz - g * bs))"
    using a b g mono[of a g] mono[of g b] by auto
  finally show ?thesis .
qed

lemma block_ranges_eq:
  assumes "0 \<le> offset" and "0 < sz" and "0 < bs"
  shows "block_ranges bs offset sz =
    map (\<lambda>g. (g, max 0 (offset - g * bs), min bs (offset + sz - g * bs))) [offset div bs..(offset + sz) div bs]"
  using assms start_end_eq[OF assms] by (simp add: block_ranges_def)

lemma block_bounds:
  fixes x bs :: int
  assumes "0 < bs"
  shows "x div bs * bs \<le> x" "x < x div bs * bs + bs"
  using pos_mod_bound[OF assms, of x] pos_mod_sign[OF assms, of x] div_mult_mod_eq[of x bs] by linarith+

lemma piece_bounds:
  assumes "0 \<le> offset" and "0 < sz" and "0 < bs" and "(g, s, e) \<in> set (block_ranges bs offset sz)"
  shows "0 \<le> g" "0 \<le> s" "s \<le> e" "e \<le> bs" "g \<le> (offset + sz) div bs"
proof -
  have g: "g \<in> {offset div bs..(offset + sz) div bs}"
    and s: "s = max 0 (offset - g * bs)" and e: "e = min bs (offset + sz - g * bs)"
    using assms(4) by (auto simp: block_ranges_eq[OF assms(1-3)])
  have "(offset div bs) * bs \<le> g * bs" "g * bs \<le> ((offset + sz) div bs) * bs"
    using assms(3) g by (auto intro: mult_right_mono)
  moreover note block_bounds[OF assms(3), of offset] block_bounds[OF assms(3), of "offset + sz"]
  ultimately have "offset - g * bs \<le> bs" "g * bs \<le> offset + sz"
    by linarith+
  then show "0 \<le> s" "s \<le> e" "e \<le> bs"
    using s e assms(2,3) by auto
  show "0 \<le> g" "g \<le> (offset + sz) div bs"
    using g assms(1,3) pos_imp_zdiv_nonneg_iff[of bs offset] by auto
qed

lemma ranges_cover:
  assumes "0 \<le> offset" and "0 < sz" and "0 < bs"
  shows "(\<exists>(g, s, e) \<in> set (block_ranges bs offset sz). g * bs + s \<le> x \<and> x < g * bs + e) \<longleftrightarrow> offset \<le> x \<and> x < offset + sz"
proof
  assume "\<exists>(g, s, e) \<in> set (block_ranges bs offset sz). g * bs + s \<le> x \<and> x < g * bs + e"
  then show "offset \<le> x \<and> x < offset + sz"
    by (auto simp: block_ranges_eq[OF assms])
next
  assume x: "offset \<le> x \<and> x < offset + sz"
  let ?g = "x div bs"
  have "?g \<in> {offset div bs..(offset + sz) div bs}"
    using x assms(3) by (auto intro: zdiv_mono1)
  moreover have "?g * bs \<le> x" "x < ?g * bs + bs"
    by (rule block_bounds[OF assms(3)])+
  ultimately show "\<exists>(g, s, e) \<in> set (block_ranges bs offset sz). g * bs + s \<le> x \<and> x < g * bs + e"
    using x by (force simp: block_ranges_eq[OF assms])
qed

lemma pieces_guard:
  assumes "0 \<le> offset" and "0 < sz" and "0 < bs"
  shows "pieces bs offset sz =
    bindE (guardE ((offset + sz) div bs < INT_MAX) Int_Overflow) (\<lambda>_. Inr (block_ranges bs offset sz))"
proof -
  have "0 \<le> offset div bs" "offset div bs \<le> (offset + sz) div bs"
    using assms by (simp_all add: pos_imp_zdiv_nonneg_iff zdiv_mono1)
  then show ?thesis using assms by (auto simp: pieces_def guardE_def INT_MIN_def)
qed

section \<open>The invariant of the log\<close>

text \<open>
  Both maps are sorted, every range lies in its block, and the second map lists exactly the
  blocks of the first one, each once under its stripe.
\<close>

definition log_ok :: "config \<Rightarrow> upd_log \<Rightarrow> bool" where
  "log_ok conf lg \<longleftrightarrow>
     om_ok (stripe_id2loc_blk_id lg) \<and> om_ok (glo_blk_id2start_end lg) \<and>
     (\<forall>g s e. map_of (glo_blk_id2start_end lg) g = Some (s, e) \<longrightarrow>
        0 \<le> g \<and> 0 \<le> s \<and> s \<le> e \<and> e \<le> blocksize conf) \<and>
     (\<forall>st v. map_of (stripe_id2loc_blk_id lg) st = Some v \<longrightarrow>
        0 \<le> st \<and> v \<noteq> [] \<and> distinct v \<and>
        (\<forall>l. l \<in> set v \<longleftrightarrow> 0 \<le> l \<and> l < int (ecK conf) \<and>
          map_of (glo_blk_id2start_end lg) (st * int (ecK conf) + l) \<noteq> None)) \<and>
     (\<forall>g. map_of (glo_blk_id2start_end lg) g \<noteq> None \<longrightarrow>
        map_of (stripe_id2loc_blk_id lg) (g div int (ecK conf)) \<noteq> None)"

lemma log_okD:
  assumes "log_ok conf lg"
  shows "om_ok (stripe_id2loc_blk_id lg)" "om_ok (glo_blk_id2start_end lg)"
    "\<And>g s e. map_of (glo_blk_id2start_end lg) g = Some (s, e) \<Longrightarrow> 0 \<le> g \<and> 0 \<le> s \<and> s \<le> e \<and> e \<le> blocksize conf"
    "\<And>st v. map_of (stripe_id2loc_blk_id lg) st = Some v \<Longrightarrow> 0 \<le> st \<and> v \<noteq> [] \<and> distinct v"
    "\<And>st v l. map_of (stripe_id2loc_blk_id lg) st = Some v \<Longrightarrow> l \<in> set v \<longleftrightarrow> 0 \<le> l \<and> l < int (ecK conf) \<and>
          map_of (glo_blk_id2start_end lg) (st * int (ecK conf) + l) \<noteq> None"
    "\<And>g. map_of (glo_blk_id2start_end lg) g \<noteq> None \<Longrightarrow>
        map_of (stripe_id2loc_blk_id lg) (g div int (ecK conf)) \<noteq> None"
  using assms unfolding log_ok_def by blast+

lemma log_okI:
  assumes "om_ok (stripe_id2loc_blk_id lg)" "om_ok (glo_blk_id2start_end lg)"
    "\<And>g s e. map_of (glo_blk_id2start_end lg) g = Some (s, e) \<Longrightarrow> 0 \<le> g \<and> 0 \<le> s \<and> s \<le> e \<and> e \<le> blocksize conf"
    "\<And>st v. map_of (stripe_id2loc_blk_id lg) st = Some v \<Longrightarrow> 0 \<le> st \<and> v \<noteq> [] \<and> distinct v"
    "\<And>st v l. map_of (stripe_id2loc_blk_id lg) st = Some v \<Longrightarrow> l \<in> set v \<longleftrightarrow> 0 \<le> l \<and> l < int (ecK conf) \<and>
          map_of (glo_blk_id2start_end lg) (st * int (ecK conf) + l) \<noteq> None"
    "\<And>g. map_of (glo_blk_id2start_end lg) g \<noteq> None \<Longrightarrow>
        map_of (stripe_id2loc_blk_id lg) (g div int (ecK conf)) \<noteq> None"
  shows "log_ok conf lg"
  using assms unfolding log_ok_def by blast

lemma log_ok_empty: "log_ok conf empty_log"
  by (simp add: log_ok_def empty_log_def om.ok_empty)

lemma map_of_add_loc:
  "map_of (add_loc st l m) =
    (case map_of m st of
       None \<Rightarrow> (map_of m)(st \<mapsto> [l])
     | Some v \<Rightarrow> (map_of m)(st \<mapsto> (if l \<in> set v then v else v @ [l])))"
  by (auto simp: add_loc_def map_of_om_put fun_eq_iff split: option.splits)

lemma om_ok_add_loc: "om_ok m \<Longrightarrow> om_ok (add_loc st l m)"
  by (simp add: add_loc_def om.ok_put split: option.splits)

lemma block_split:
  fixes k :: nat and g st l :: int
  assumes "0 < k" and "0 \<le> l" and "l < int k"
  shows "st * int k + l = g \<longleftrightarrow> st = g div int k \<and> l = g mod int k"
  using assms by (auto simp: div_mult_mod_eq mult.commute)

lemma log_piece_ok:
  assumes "log_ok conf lg" and "0 < ecK conf" and "0 \<le> g" and "0 \<le> s" and "s \<le> e" and "e \<le> blocksize conf"
  shows "log_ok conf (log_piece (ecK conf) (g, s, e) lg)"
proof (cases "map_of (glo_blk_id2start_end lg) g")
  case (Some r)
  obtain s' e' where r: "r = (s', e')" by (cases r)
  note L = log_okD[OF assms(1)]
  have r': "0 \<le> s' \<and> s' \<le> e' \<and> e' \<le> blocksize conf"
    using L(3) Some r by blast
  have new: "log_piece (ecK conf) (g, s, e) lg =
      \<lparr>stripe_id2loc_blk_id = stripe_id2loc_blk_id lg,
       glo_blk_id2start_end = om_put g (min s s', min e e') (glo_blk_id2start_end lg)\<rparr>"
    using Some r by (simp add: log_piece_def Let_def)
  have dom: "map_of (om_put g x (glo_blk_id2start_end lg)) y = None \<longleftrightarrow> map_of (glo_blk_id2start_end lg) y = None" for x y
    using Some by (simp add: map_of_om_put)
  show ?thesis
    unfolding new
  proof (rule log_okI; unfold upd_log.simps)
    show "0 \<le> g' \<and> 0 \<le> a \<and> a \<le> b \<and> b \<le> blocksize conf"
      if "map_of (om_put g (min s s', min e e') (glo_blk_id2start_end lg)) g' = Some (a, b)" for g' a b
      using that L(3)[of g' a b] r' assms(3-6) by (auto simp: map_of_om_put split: if_splits)
    show "om_ok (stripe_id2loc_blk_id lg)" "om_ok (om_put g (min s s', min e e') (glo_blk_id2start_end lg))"
      using L(1,2) by (simp_all add: om.ok_put)
  qed (unfold dom, (rule L; assumption)+)
next
  case None
  note L = log_okD[OF assms(1)]
  let ?k = "int (ecK conf)" and ?R = "glo_blk_id2start_end lg" and ?S = "stripe_id2loc_blk_id lg"
  let ?st = "g div ?k" and ?l = "g mod ?k"
  have l: "0 \<le> ?l" "?l < ?k" "0 \<le> ?st" "?st * ?k + ?l = g"
    using assms(2,3) by (simp_all add: pos_imp_zdiv_nonneg_iff)
  have new: "log_piece (ecK conf) (g, s, e) lg =
      \<lparr>stripe_id2loc_blk_id = add_loc ?st ?l ?S, glo_blk_id2start_end = om_put g (s, e) ?R\<rparr>"
    using None assms(2,3) by (simp add: log_piece_def)
  have absent: "?l \<notin> set v" if "map_of ?S ?st = Some v" for v
    using L(5)[OF that, of ?l] None l by simp
  have none: "map_of ?R (?st * ?k + x) = None" if "map_of ?S ?st = None" "0 \<le> x" "x < ?k" for x
  proof -
    have "(?st * ?k + x) div ?k = ?st"
      using that(2,3) by simp
    then show ?thesis using L(6)[of "?st * ?k + x"] that(1) by metis
  qed
  have dom: "map_of (om_put g (s, e) ?R) (st * ?k + x) \<noteq> None \<longleftrightarrow> st = ?st \<and> x = ?l \<or> map_of ?R (st * ?k + x) \<noteq> None"
    if "0 \<le> x" "x < ?k" for st x
    using block_split[OF assms(2) that, of st g] by (auto simp: map_of_om_put)
  have stripes: "st = ?st \<and> (map_of ?S ?st = None \<and> v = [?l] \<or> (\<exists>v0. map_of ?S ?st = Some v0 \<and> v = v0 @ [?l])) \<or>
      st \<noteq> ?st \<and> map_of ?S st = Some v" if "map_of (add_loc ?st ?l ?S) st = Some v" for st v
    using that absent by (auto simp: map_of_add_loc split: option.splits if_splits)
  show ?thesis
    unfolding new
  proof (rule log_okI; unfold upd_log.simps)
    show "om_ok (add_loc ?st ?l ?S)" "om_ok (om_put g (s, e) ?R)"
      using L(1,2) by (simp_all add: om_ok_add_loc om.ok_put)
    show "0 \<le> g' \<and> 0 \<le> a \<and> a \<le> b \<and> b \<le> blocksize conf" if "map_of (om_put g (s, e) ?R) g' = Some (a, b)" for g' a b
      using that L(3)[of g' a b] assms(3-6) by (auto simp: map_of_om_put split: if_splits)
    show "0 \<le> st \<and> v \<noteq> [] \<and> distinct v" if "map_of (add_loc ?st ?l ?S) st = Some v" for st v
      using stripes[OF that]
    proof (elim disjE conjE exE)
      fix v0 assume "st = ?st" "map_of ?S ?st = Some v0" "v = v0 @ [?l]"
      then show ?thesis using L(4)[of ?st v0] absent[of v0] by simp
    qed (use l(3) L(4)[of st v] in simp_all)
    show "x \<in> set v \<longleftrightarrow> 0 \<le> x \<and> x < ?k \<and> map_of (om_put g (s, e) ?R) (st * ?k + x) \<noteq> None"
      if "map_of (add_loc ?st ?l ?S) st = Some v" for st v x
    proof (cases "0 \<le> x \<and> x < ?k")
      case True
      have "x \<in> set v \<longleftrightarrow> st = ?st \<and> x = ?l \<or> map_of ?R (st * ?k + x) \<noteq> None"
        using stripes[OF that]
      proof (elim disjE conjE exE)
        assume "st = ?st" "map_of ?S ?st = None" "v = [?l]"
        then show ?thesis using none[of x] True by simp
      next
        fix v0 assume "st = ?st" "map_of ?S ?st = Some v0" "v = v0 @ [?l]"
        then show ?thesis using L(5)[of ?st v0 x] True by auto
      next
        assume "st \<noteq> ?st" "map_of ?S st = Some v"
        then show ?thesis using L(5)[of st v x] True by simp
      qed
      then show ?thesis
        using True dom[of x st] by blast
    next
      case False
      have "x \<notin> set v"
        using stripes[OF that]
      proof (elim disjE conjE exE)
        fix v0 assume "map_of ?S ?st = Some v0" "v = v0 @ [?l]"
        then show ?thesis using L(5)[of ?st v0 x] l(1,2) False by auto
      qed (use l(1,2) False L(5)[of st v x] in auto)
      with False show ?thesis by blast
    qed
    show "map_of (add_loc ?st ?l ?S) (g' div ?k) \<noteq> None" if "map_of (om_put g (s, e) ?R) g' \<noteq> None" for g'
      using that L(6)[of g'] by (auto simp: map_of_om_put map_of_add_loc split: option.splits if_splits)
  qed
qed

lemma log_request_ok:
  assumes "log_ok conf lg" and "0 < ecK conf" and "0 < blocksize conf" and "0 \<le> offset" and "0 < sz"
    and "(offset + sz) div blocksize conf < INT_MAX"
  shows "\<exists>lg'. log_request conf offset sz lg = Inr lg' \<and> log_ok conf lg'"
proof -
  let ?P = "block_ranges (blocksize conf) offset sz"
  have fold: "log_ok conf (fold (log_piece (ecK conf)) ps lg)" if "set ps \<subseteq> set ?P" for ps
    using that assms(1)
  proof (induction ps arbitrary: lg)
    case (Cons p ps)
    obtain g s e where p: "p = (g, s, e)" by (cases p)
    then have "log_ok conf (log_piece (ecK conf) p lg)"
      using Cons.prems log_piece_ok[OF _ assms(2)] piece_bounds[OF assms(4,5,3), of g s e] by simp
    then show ?case using Cons by simp
  qed simp
  then show ?thesis
    using assms(2,6) pieces_guard[OF assms(4,5,3)] by (simp add: log_request_def)
qed

section \<open>Properties\<close>

text \<open>A sample configuration: two data blocks and two parity blocks of four units.\<close>

definition sample_conf :: config where
  "sample_conf = \<lparr>ecK = 2, ecN = 4, helpersIPs = [1, 2, 3, 4], coordinatorIP = 5, blocksize = 4,
     log_size = 2, UPPolicy = ''crd'', UPWay = ''trace'', traceType = ''Ali'', traceDir = ''trace''\<rparr>"

definition sample_trace :: "string \<Rightarrow> config" where
  "sample_trace ty = sample_conf\<lparr>traceType := ty\<rparr>"

lemma sample_texts:
  "to_string 8192 = ''8192''" "to_string 4096 = ''4096''" "to_string 512 = ''512''" "to_string 16 = ''16''" "to_string 8 = ''8''"
  by (simp_all add: to_string_def nat_to_string.simps char_of_def bit_Suc_0_iff)

text \<open>
  C30. The lines of all three kinds of traces are understood: a read request is skipped and leaves the variables of the loop as they
  were; a write request of \<open>sz\<close> bytes at \<open>offset\<close> gives both in KB, whatever the other fields, and goes to the log if it has at least one KB.
\<close>

theorem parse_line_formats:
  assumes "request_fields conf rd offset sz fs"
    and "0 \<le> offset" and "offset \<le> LLONG_MAX" and "0 \<le> sz" and "sz \<le> LLONG_MAX"
  shows "parse_line conf (join_string fs CHR '','') req =
    (if rd then Inr (req, False) else Inr ((offset div 1024, sz div 1024), 1024 \<le> sz))"
  using assms by (rule parse_request)

theorem parse_line_formats_witness:
  "parse_line (sample_trace ''MSR'') ''1,hm,0,Write,8192,4096,99'' (7, 7) = Inr ((8, 4), True) \<and>
   parse_line (sample_trace ''Ali'') ''3,W,8192,512,99'' (7, 7) = Inr ((8, 0), False) \<and>
   parse_line (sample_trace ''Ten'') ''99,16,8,1,3'' (7, 7) = Inr ((8, 4), True) \<and>
   parse_line (sample_trace ''Ten'') ''99,16,8,0,3'' (7, 7) = Inr ((7, 7), False)"
  using parse_line_formats[of "sample_trace ''MSR''" False 8192 4096 "[''1'', ''hm'', ''0'', ''Write'', ''8192'', ''4096'', ''99'']" "(7, 7)"]
    parse_line_formats[of "sample_trace ''Ali''" False 8192 512 "[''3'', ''W'', ''8192'', ''512'', ''99'']" "(7, 7)"]
    parse_line_formats[of "sample_trace ''Ten''" False 8192 4096 "[''99'', ''16'', ''8'', ''1'', ''3'']" "(7, 7)"]
    parse_line_formats[of "sample_trace ''Ten''" True 8192 4096 "[''99'', ''16'', ''8'', ''0'', ''3'']" "(7, 7)"] sample_texts
  by (simp add: request_fields_def sample_trace_def LLONG_MAX_def)

text \<open>
  C22. A request is cut without loss and without overlap as long as the numbers of its blocks fit the loop
  counter: every block occurs once, each range lies in its block, and an address is in one of the ranges if and only if it is in the
  request. A request that reaches block \<open>INT_MAX\<close> overflows the counter.
\<close>

theorem pieces_exact:
  assumes "0 \<le> offset" and "0 < update_size" and "0 < bs"
  shows "if (offset + update_size) div bs < INT_MAX
    then \<exists>ps. pieces bs offset update_size = Inr ps \<and> distinct (map fst ps) \<and>
      (\<forall>(g, s, e) \<in> set ps. 0 \<le> g \<and> 0 \<le> s \<and> s \<le> e \<and> e \<le> bs) \<and>
      (\<forall>x. (\<exists>(g, s, e) \<in> set ps. g * bs + s \<le> x \<and> x < g * bs + e) \<longleftrightarrow> offset \<le> x \<and> x < offset + update_size)
    else pieces bs offset update_size = Inl Int_Overflow"
proof -
  let ?ps = "block_ranges bs offset update_size"
  have "distinct (map fst ?ps)" by (simp add: block_ranges_def o_def)
  moreover have "\<forall>(g, s, e) \<in> set ?ps. 0 \<le> g \<and> 0 \<le> s \<and> s \<le> e \<and> e \<le> bs" using piece_bounds[OF assms] by fast
  ultimately show ?thesis
    using ranges_cover[OF assms] unfolding pieces_guard[OF assms] by (auto simp: guardE_def)
qed

theorem pieces_exact_witness:
  "pieces 64 100 130 = Inr [(1, 36, 64), (2, 0, 64), (3, 0, 38)] \<and>
   (\<forall>x :: int. (\<exists>(g, s, e) \<in> set [(1 :: int, 36 :: int, 64 :: int), (2, 0, 64), (3, 0, 38)]. g * 64 + s \<le> x \<and> x < g * 64 + e) \<longleftrightarrow> 100 \<le> x \<and> x < 230) \<and>
   pieces 1 0 2147483647 = Inl Int_Overflow"
proof -
  have ps: "pieces 64 100 130 = Inr [(1, 36, 64), (2, 0, 64), (3, 0, 38)]"
    by (simp add: pieces_def INT_MIN_def INT_MAX_def block_ranges_def start_end_def upto.simps)
  moreover have "pieces 1 0 2147483647 = Inl Int_Overflow"
    using pieces_exact[of 0 2147483647 1] by (simp add: INT_MAX_def)
  ultimately show ?thesis
    using pieces_exact[of 100 130 64] by (simp only: INT_MAX_def) simp
qed

text \<open>
  C21. The update log keeps its invariant: logging a request with addresses in range does not
  fail, every recorded range lies in its block, and the two maps describe the same set of blocks.
\<close>

theorem log_request_invariant:
  assumes "log_ok conf lg" and "0 < ecK conf" and "0 < blocksize conf" and "0 \<le> offset" and "0 < update_size"
    and "(offset + update_size) div blocksize conf < INT_MAX"
  shows "\<exists>lg'. log_request conf offset update_size lg = Inr lg' \<and> log_ok conf lg'"
  using assms by (rule log_request_ok)

theorem log_request_invariant_witness:
  "\<exists>lg'. log_request sample_conf 3 6 empty_log = Inr lg' \<and> log_ok sample_conf lg'"
  using log_request_invariant[OF log_ok_empty, of sample_conf 3 6] by (simp add: sample_conf_def INT_MAX_def)

text \<open>
  C27. Merging a second range of a block that is already in the log loses updates: the recorded end is
  the smaller of the two ends, so that an address of either range at or beyond the end of the
  other one is no longer recorded.
\<close>

theorem log_merge_drops:
  assumes "map_of (glo_blk_id2start_end lg) g = Some (s1, e1)"
    and "s1 \<le> x \<and> x < e1 \<or> s2 \<le> x \<and> x < e2" and "e1 \<le> x \<or> e2 \<le> x"
  shows "\<exists>s e. map_of (glo_blk_id2start_end (log_piece k (g, s2, e2) lg)) g = Some (s, e) \<and> \<not> (s \<le> x \<and> x < e)"
  using assms by (auto simp: log_piece_def Let_def map_of_om_put)

theorem log_merge_drops_witness:
  "\<exists>s e. map_of (glo_blk_id2start_end (log_piece 2 (0, 2, 4)
      \<lparr>stripe_id2loc_blk_id = [(0, [0])], glo_blk_id2start_end = [(0, 0, 2)]\<rparr>)) 0 = Some (s, e) \<and> \<not> (s \<le> 3 \<and> 3 < e)"
  using log_merge_drops[of "\<lparr>stripe_id2loc_blk_id = [(0, [0])], glo_blk_id2start_end = [(0, 0, 2)]\<rparr>" 0 0 2 3 2 4 2]
  by simp

end
