(* ===== verification/Up_Coordinator.thy ===== *)
theory Up_Coordinator
  imports Up_Commands Trace_Log
begin

text \<open>
  The top level of the update coordinator, \<open>UPCoordinator.cc\<close>: from the update log to the
  commands of its stripes (\<open>trigger_update\<close>, \<open>trigger_update_by_multi_doProcess\<close>), the loops over
  traces (\<open>single_doProcess\<close>, \<open>multi_doProcess\<close>) and the older pair of threads that talk over
  the list \<open>upd_requests\<close> (\<open>UpdateReqHandler\<close>, \<open>CmdDistributor\<close>). What the code gets from outside
  is a parameter: \<open>rnd n\<close> is the result of the \<open>n\<close>-th call of \<open>rand()\<close>, \<open>nodes\<close> what the update
  nodes do to the cluster while the coordinator waits for acknowledgements, \<open>files\<close> the lines of
  a file (\<open>None\<close> if it cannot be opened), \<open>rates\<close> the four throughputs as the stream prints them
  (\<open>None\<close> when one of the measured times is zero). The clock has no other effect.
\<close>

section \<open>Addresses and start-up\<close>

definition ip2Str :: "ip_addr \<Rightarrow> string" where
  "ip2Str ip =
     to_string (uint (ip AND 0xff)) @ ''.'' @ to_string (uint (drop_bit 8 ip AND 0xff)) @ ''.'' @
     to_string (uint (drop_bit 16 ip AND 0xff)) @ ''.'' @ to_string (uint (drop_bit 24 ip AND 0xff))"

text \<open>\<open>init\<close> waits for one message of every helper on its list \<open>test\<close>.\<close>

definition coordinator_init :: "config \<Rightarrow> world \<Rightarrow> world res" where
  "coordinator_init conf w =
     bindE (recv_count (blpop (coordinatorIP conf) ''test'') (\<lambda>_ u. Inr u) (int (length (helpersIPs conf))) () w)
       (\<lambda>(_, w'). Inr w')"

section \<open>From the log to the updates of a stripe\<close>

text \<open>The state is the number of calls of \<open>rand()\<close> so far and the cluster.\<close>

type_synonym coord = "nat \<times> world"

definition log_range :: "config \<Rightarrow> upd_log \<Rightarrow> int \<Rightarrow> int \<Rightarrow> (int \<times> int) res" where
  "log_range conf lg stripe_id in_id = om_at (glo_blk_id2start_end lg) (stripe_id * int (ecK conf) + in_id)"

definition log_upd_block :: "config \<Rightarrow> upd_log \<Rightarrow> int \<Rightarrow> int \<Rightarrow> upd_block res" where
  "log_upd_block conf lg stripe_id in_id =
     bindE (log_range conf lg stripe_id in_id) (\<lambda>(s, e).
     bindE (atE (helpersIPs conf) in_id) (\<lambda>ip. Inr (UpdBlock in_id ip s (e - s))))"

text \<open>With \<open>crd_flip\<close> the odd blocks are mirrored: \<open>[s, e)\<close> becomes \<open>[blocksize - e, blocksize - s)\<close>.\<close>

definition log_upd_block_flip :: "config \<Rightarrow> string \<Rightarrow> upd_log \<Rightarrow> int \<Rightarrow> int \<Rightarrow> upd_block res" where
  "log_upd_block_flip conf policy lg stripe_id in_id =
     bindE (log_range conf lg stripe_id in_id) (\<lambda>(s, e).
     bindE (atE (helpersIPs conf) in_id) (\<lambda>ip.
     if policy = ''crd_flip'' \<and> in_id smod 2 = 1
     then let new_start = blocksize conf - e; new_end = blocksize conf - s
          in Inr (UpdBlock in_id ip new_start (new_end - new_start))
     else Inr (UpdBlock in_id ip s (e - s))))"

definition up_dispatch ::
    "config \<Rightarrow> byte list \<Rightarrow> (nat \<Rightarrow> nat) \<Rightarrow> string \<Rightarrow> upd_block list \<Rightarrow> coord \<Rightarrow> coord res" where
  "up_dispatch conf M rnd policy v st =
     (case st of (n, w) \<Rightarrow>
       if policy = ''raid'' then bindE (RaidUpdate conf M (rnd n) v w) (\<lambda>w1. Inr (Suc n, w1))
       else if policy = ''delta'' then bindE (DeltaUpdate conf M v w) (\<lambda>w1. Inr (n, w1))
       else if policy = ''crd'' then bindE (CrdUpdate conf M (rnd n) v w) (\<lambda>w1. Inr (Suc n, w1))
       else Inl (Exit (-1)))"

text \<open>\<open>recvAck\<close>, after the nodes had their turn.\<close>

definition await_acks :: "config \<Rightarrow> (world \<Rightarrow> world) \<Rightarrow> coord \<Rightarrow> coord res" where
  "await_acks conf nodes st =
     (case st of (n, w) \<Rightarrow> bindE (recvAck conf (nodes w)) (\<lambda>(_, w1). Inr (n, w1)))"

definition trigger_update ::
    "config \<Rightarrow> byte list \<Rightarrow> (nat \<Rightarrow> nat) \<Rightarrow> (world \<Rightarrow> world) \<Rightarrow> upd_log \<Rightarrow> coord \<Rightarrow> coord res" where
  "trigger_update conf M rnd nodes lg =
     foldE (\<lambda>(stripe_id, locs) st.
       bindE (mapE (log_upd_block conf lg stripe_id) locs) (\<lambda>v.
       bindE (up_dispatch conf M rnd (UPPolicy conf) v st) (await_acks conf nodes)))
       (stripe_id2loc_blk_id lg)"

definition trigger_update_by_multi_doProcess ::
    "config \<Rightarrow> byte list \<Rightarrow> (nat \<Rightarrow> nat) \<Rightarrow> (world \<Rightarrow> world) \<Rightarrow> upd_log \<Rightarrow> string \<Rightarrow> coord \<Rightarrow> coord res" where
  "trigger_update_by_multi_doProcess conf M rnd nodes lg policy =
     foldE (\<lambda>(stripe_id, locs) st.
       bindE (mapE (log_upd_block_flip conf policy lg stripe_id) locs) (\<lambda>v.
       bindE (up_dispatch conf M rnd (if policy = ''crd_flip'' then ''crd'' else policy) v st)
         (await_acks conf nodes)))
       (stripe_id2loc_blk_id lg)"

section \<open>Random updates\<close>

text \<open>One random range; both remainders are taken of non-negative numbers.\<close>

definition random_range :: "config \<Rightarrow> (nat \<Rightarrow> nat) \<Rightarrow> nat \<Rightarrow> (int \<times> int) res" where
  "random_range conf rnd n =
     bindE (guardE (blocksize conf \<noteq> 0) Div_By_Zero) (\<lambda>_.
     let offset = int (rnd n) smod blocksize conf; d = blocksize conf - offset - 1 in
     bindE (guardE (d \<noteq> 0) Div_By_Zero) (\<lambda>_.
     Inr (offset, int (rnd (Suc n)) smod d + 1)))"

definition random_log :: "config \<Rightarrow> (nat \<Rightarrow> nat) \<Rightarrow> nat \<Rightarrow> (nat \<times> upd_log) res" where
  "random_log conf rnd n0 =
     foldE (\<lambda>i (n, lg).
       bindE (random_range conf rnd n) (\<lambda>(offset, update_size).
       Inr (n + 2, lg\<lparr>glo_blk_id2start_end := om_put (int i) (offset, offset + update_size) (glo_blk_id2start_end lg)\<rparr>)))
       [0..<ecK conf]
       (n0, \<lparr>stripe_id2loc_blk_id = [(0, map int [0..<ecK conf])], glo_blk_id2start_end = []\<rparr>)"

section \<open>The loop over a trace\<close>

text \<open>
  The loop of \<open>single_doProcess\<close> and \<open>multi_doProcess\<close>; they differ in what they do when the log
  is flushed, the argument \<open>flush\<close>. Reads and empty requests are not counted.
\<close>

record 's trace_state =
  ts_count :: int
  ts_request :: "int \<times> int"
  ts_log :: upd_log
  ts_stripes :: nat
  ts_coord :: 's

fun trace_loop ::
    "config \<Rightarrow> (upd_log \<Rightarrow> 's \<Rightarrow> 's res) \<Rightarrow> int \<Rightarrow> string list \<Rightarrow> 's trace_state \<Rightarrow> 's trace_state res" where
  "trace_loop conf flush req_num [] ts = Inr ts"
| "trace_loop conf flush req_num (line # lines) ts =
     bindE (parse_line conf line (ts_request ts)) (\<lambda>(req, wanted).
     if \<not> wanted then trace_loop conf flush req_num lines (ts\<lparr>ts_request := req\<rparr>)
     else
       bindE (log_request conf (fst req) (snd req) (ts_log ts)) (\<lambda>lg.
       bindE (if log_full conf lg \<or> req_num \<le> ts_count ts + 1
              then bindE (flush lg (ts_coord ts)) (\<lambda>st.
                Inr (empty_log, ts_stripes ts + length (stripe_id2loc_blk_id lg), st))
              else Inr (lg, ts_stripes ts, ts_coord ts)) (\<lambda>(lg', total, st).
       let ts' = \<lparr>ts_count = ts_count ts + 1, ts_request = req, ts_log = lg', ts_stripes = total, ts_coord = st\<rparr> in
       if req_num \<le> ts_count ts' + 1 then Inr ts' else trace_loop conf flush req_num lines ts')))"

definition trace_path :: "config \<Rightarrow> string \<Rightarrow> string" where
  "trace_path conf name = traceDir conf @ ''/'' @ traceType conf @ ''/'' @ name"

definition open_trace :: "(string \<Rightarrow> string list option) \<Rightarrow> string \<Rightarrow> string list res" where
  "open_trace files path = (case files path of None \<Rightarrow> Inl (Exit (-1)) | Some lines \<Rightarrow> Inr lines)"

definition get_trace_req_num :: "(string \<Rightarrow> string list option) \<Rightarrow> string \<Rightarrow> int res" where
  "get_trace_req_num files path = bindE (open_trace files path) (\<lambda>lines. Inr (int (length lines)))"

text \<open>\<open>req0\<close> is what the uninitialised \<open>offset\<close> and \<open>update_size\<close> hold.\<close>

definition single_doProcess ::
    "config \<Rightarrow> byte list \<Rightarrow> (nat \<Rightarrow> nat) \<Rightarrow> (world \<Rightarrow> world) \<Rightarrow> (string \<Rightarrow> string list option) \<Rightarrow>
     int \<times> int \<Rightarrow> coord \<Rightarrow> (nat \<times> coord) res" where
  "single_doProcess conf M rnd nodes files req0 st =
     (if UPWay conf = ''random'' then
        bindE (random_log conf rnd (fst st)) (\<lambda>(n, lg).
        bindE (trigger_update conf M rnd nodes lg (n, snd st)) (\<lambda>st1. Inr (1, st1)))
      else if UPWay conf = ''trace'' then
        bindE (open_trace files (trace_path conf ''wdev_2.csv'')) (\<lambda>lines.
        bindE (trace_loop conf (trigger_update conf M rnd nodes) 100000 lines
          \<lparr>ts_count = 0, ts_request = req0, ts_log = empty_log, ts_stripes = 0, ts_coord = st\<rparr>) (\<lambda>ts.
        Inr (ts_stripes ts, ts_coord ts)))
      else Inl (Exit (-1)))"

section \<open>All policies over a directory of traces\<close>

definition flush_all ::
    "config \<Rightarrow> byte list \<Rightarrow> (nat \<Rightarrow> nat) \<Rightarrow> (world \<Rightarrow> world) \<Rightarrow> string list \<Rightarrow> upd_log \<Rightarrow> coord \<Rightarrow> coord res" where
  "flush_all conf M rnd nodes policies lg = foldE (trigger_update_by_multi_doProcess conf M rnd nodes lg) policies"

text \<open>\<open>stream >> s\<close> for a string, and the search of \<open>is_computed\<close> in the result file.\<close>

definition read_word :: "string \<Rightarrow> string \<Rightarrow> string" where
  "read_word s x =
     (case dropWhile is_space s of [] \<Rightarrow> x | t \<Rightarrow> takeWhile (\<lambda>c. \<not> is_space c) t)"

fun find_computed :: "string \<Rightarrow> string \<Rightarrow> string list \<Rightarrow> bool" where
  "find_computed tracefile current [] = False"
| "find_computed tracefile current (line # lines) =
     (let current' = read_word (hd (splite_string line CHR '','')) current
      in if current' = tracefile then True else find_computed tracefile current' lines)"

definition is_computed :: "string list option \<Rightarrow> string \<Rightarrow> bool" where
  "is_computed results tracefile =
     (case results of None \<Rightarrow> False | Some lines \<Rightarrow> find_computed tracefile [] lines)"

definition generate_useless_trace :: "string list" where
  "generate_useless_trace =
     [''VM_8063.csv'', ''VM_18393.csv'', ''VM_18599.csv'', ''VM_9324.csv'', ''VM_18324.csv'', ''VM_21977.csv'',
      ''VM_22275.csv'', ''VM_25077.csv'', ''VM_25141.csv'', ''VM_25076.csv'', ''VM_25035.csv'', ''VM_25006.csv'',
      ''VM_24043.csv'', ''VM_23530.csv'']"

definition result_line :: "string \<Rightarrow> string \<times> string \<times> string \<times> string \<Rightarrow> string" where
  "result_line name r =
     (case r of (raid, delta, crd, crd_flip) \<Rightarrow>
       name @ '','' @ raid @ '','' @ delta @ '','' @ crd @ '','' @ crd_flip)"

definition append_result :: "string list option \<Rightarrow> string \<Rightarrow> string list option" where
  "append_result results line = Some ((case results of None \<Rightarrow> [] | Some ls \<Rightarrow> ls) @ [line])"

text \<open>
  The loop over the trace files: request, log and cluster are carried from one file to the
  next, the counters start again.
\<close>

fun multi_loop ::
    "config \<Rightarrow> byte list \<Rightarrow> (nat \<Rightarrow> nat) \<Rightarrow> (world \<Rightarrow> world) \<Rightarrow> (string \<Rightarrow> string list option) \<Rightarrow>
     (string \<Rightarrow> nat \<Rightarrow> (string \<times> string \<times> string \<times> string) option) \<Rightarrow> string list \<Rightarrow>
     coord trace_state \<Rightarrow> string list option \<Rightarrow> (coord trace_state \<times> string list option) res" where
  "multi_loop conf M rnd nodes files rates [] ts results = Inr (ts, results)"
| "multi_loop conf M rnd nodes files rates (name # names) ts results =
     (if is_computed results name then multi_loop conf M rnd nodes files rates names ts results
      else
        bindE (open_trace files (trace_path conf name)) (\<lambda>lines.
        bindE (trace_loop conf (flush_all conf M rnd nodes [''raid'', ''delta'', ''crd'', ''crd_flip'']) 5000 lines
          (ts\<lparr>ts_count := 0, ts_stripes := 0\<rparr>)) (\<lambda>ts1.
        multi_loop conf M rnd nodes files rates names ts1
          (case rates name (ts_stripes ts1) of
             None \<Rightarrow> results
           | Some r \<Rightarrow> append_result results (result_line name r)))))"

text \<open>\<open>entries\<close> is what \<open>readdir\<close> returns.\<close>

definition multi_doProcess ::
    "config \<Rightarrow> byte list \<Rightarrow> (nat \<Rightarrow> nat) \<Rightarrow> (world \<Rightarrow> world) \<Rightarrow> (string \<Rightarrow> string list option) \<Rightarrow>
     (string \<Rightarrow> nat \<Rightarrow> (string \<times> string \<times> string \<times> string) option) \<Rightarrow> string list \<Rightarrow> int \<times> int \<Rightarrow>
     coord \<Rightarrow> string list option \<Rightarrow> (coord \<times> string list option) res" where
  "multi_doProcess conf M rnd nodes files rates entries req0 st results =
     (if UPWay conf = ''random'' then
        bindE (random_log conf rnd (fst st)) (\<lambda>(n, lg).
        bindE (flush_all conf M rnd nodes [''raid'', ''delta'', ''crd''] lg (n, snd st)) (\<lambda>st1.
        Inr (st1, results)))
      else if UPWay conf = ''trace'' then
        bindE (multi_loop conf M rnd nodes files rates (filter (\<lambda>d. d \<noteq> ''.'' \<and> d \<noteq> ''..'') entries)
          \<lparr>ts_count = 0, ts_request = req0, ts_log = empty_log, ts_stripes = 0, ts_coord = st\<rparr> results) (\<lambda>(ts, res).
        Inr (ts_coord ts, res))
      else Inl (Exit (-1)))"

definition coordinator_doProcess ::
    "config \<Rightarrow> byte list \<Rightarrow> (nat \<Rightarrow> nat) \<Rightarrow> (world \<Rightarrow> world) \<Rightarrow> (string \<Rightarrow> string list option) \<Rightarrow>
     (string \<Rightarrow> nat \<Rightarrow> (string \<times> string \<times> string \<times> string) option) \<Rightarrow> string list \<Rightarrow> int \<times> int \<Rightarrow>
     coord \<Rightarrow> string list option \<Rightarrow> (coord \<times> string list option) res" where
  "coordinator_doProcess conf M rnd nodes files rates entries req0 st results =
     (if UPPolicy conf \<noteq> ''all''
      then bindE (single_doProcess conf M rnd nodes files req0 st) (\<lambda>(_, st1). Inr (st1, results))
      else multi_doProcess conf M rnd nodes files rates entries req0 st results)"

section \<open>UpdateReqHandler\<close>

text \<open>The message it pushes: the number of stripes, then for each one the updates of its blocks.\<close>

definition request_blk :: "config \<Rightarrow> upd_log \<Rightarrow> int \<Rightarrow> int \<Rightarrow> int list res" where
  "request_blk conf lg stripe_id loc_blk_id =
     bindE (log_range conf lg stripe_id loc_blk_id) (\<lambda>(s, e). Inr [loc_blk_id, s, e - s])"

definition request_stripe :: "config \<Rightarrow> upd_log \<Rightarrow> int \<times> int list \<Rightarrow> int list res" where
  "request_stripe conf lg p =
     (case p of (stripe_id, locs) \<Rightarrow>
       bindE (mapE (request_blk conf lg stripe_id) locs) (\<lambda>fs. Inr (int (length locs) # concat fs)))"

definition push_request :: "config \<Rightarrow> int list \<Rightarrow> world \<Rightarrow> world res" where
  "push_request conf xs w =
     bindE (guardE (4 * length xs \<le> COMMAND_MAX_LENGTH * COMMAND_MAX_LENGTH) Out_Of_Bounds) (\<lambda>_.
     Inr (rpush (coordinatorIP conf) ''upd_requests'' (put_ints xs) w))"

definition request_of_log :: "config \<Rightarrow> upd_log \<Rightarrow> int list res" where
  "request_of_log conf lg =
     bindE (mapE (request_stripe conf lg) (stripe_id2loc_blk_id lg)) (\<lambda>fs.
     Inr (int (length (stripe_id2loc_blk_id lg)) # concat fs))"

fun handler_loop :: "config \<Rightarrow> int \<Rightarrow> string list \<Rightarrow> int \<Rightarrow> int \<times> int \<Rightarrow> upd_log \<Rightarrow> world \<Rightarrow> world res" where
  "handler_loop conf req_num [] n req lg w = Inr w"
| "handler_loop conf req_num (line # lines) n req lg w =
     (let n' = n + 1 in
      bindE (parse_line conf line req) (\<lambda>(req', wanted).
      if \<not> wanted then handler_loop conf req_num lines n' req' lg w
      else
        bindE (log_request conf (fst req') (snd req') lg) (\<lambda>lg1.
        if log_full conf lg1 \<or> req_num \<le> n' + 1 then
          (if stripe_id2loc_blk_id lg1 = [] then Inr w
           else
             bindE (request_of_log conf lg1) (\<lambda>xs.
             bindE (push_request conf xs w) (\<lambda>w1.
             if req_num \<le> n' + 1 then Inr w1 else handler_loop conf req_num lines n' req' empty_log w1)))
        else handler_loop conf req_num lines n' req' lg1 w)))"

definition UpdateReqHandler ::
    "config \<Rightarrow> (nat \<Rightarrow> nat) \<Rightarrow> (string \<Rightarrow> string list option) \<Rightarrow> int \<times> int \<Rightarrow> coord \<Rightarrow> coord res" where
  "UpdateReqHandler conf rnd files req0 st =
     (case st of (n0, w) \<Rightarrow>
       if UPWay conf = ''random'' then
         bindE (foldE (\<lambda>i (n, xs). bindE (random_range conf rnd n) (\<lambda>(offset_add, upd_size).
             Inr (n + 2, xs @ [int i, offset_add, upd_size]))) [0..<ecK conf] (n0, [1, int (ecK conf)])) (\<lambda>(n, xs).
         bindE (push_request conf xs w) (\<lambda>w1. Inr (n, w1)))
       else if UPWay conf = ''trace'' then
         bindE (open_trace files (trace_path conf ''rsrch_2.csv'')) (\<lambda>lines.
         bindE (handler_loop conf 400 lines 0 req0 empty_log w) (\<lambda>w1. Inr (n0, w1)))
       else Inl (Exit (-1)))"

section \<open>CmdDistributor\<close>

definition request_upd_block :: "config \<Rightarrow> byte list \<Rightarrow> nat \<Rightarrow> upd_block res" where
  "request_upd_block conf upd_cmd i =
     bindE (get_int upd_cmd (12 * int i)) (\<lambda>in_id.
     bindE (get_int upd_cmd (12 * int i + 4)) (\<lambda>offset_add.
     bindE (get_int upd_cmd (12 * int i + 8)) (\<lambda>upd_size.
     bindE (atE (helpersIPs conf) in_id) (\<lambda>ip. Inr (UpdBlock in_id ip offset_add upd_size)))))"

text \<open>
  The updates of one stripe from the message at \<open>cur\<close>. They are copied to the array
  \<open>upd_cmd[COMMAND_MAX_LENGTH]\<close> first; \<open>old\<close> is what it held.
\<close>

definition request_updates :: "config \<Rightarrow> byte list \<Rightarrow> byte list \<Rightarrow> int \<Rightarrow> (int \<times> upd_block list) res" where
  "request_updates conf old msg cur =
     bindE (get_int msg cur) (\<lambda>upd_num.
     bindE (memcpy_from msg (cur + 4) (12 * upd_num)) (\<lambda>bs.
     bindE (memcpy_to old 0 bs) (\<lambda>upd_cmd.
     bindE (mapE (request_upd_block conf upd_cmd) [0..<nat upd_num]) (\<lambda>v.
     Inr (cur + 4 + 12 * upd_num, v)))))"

fun distribute_stripes ::
    "config \<Rightarrow> byte list \<Rightarrow> (nat \<Rightarrow> nat) \<Rightarrow> (world \<Rightarrow> world) \<Rightarrow> byte list \<Rightarrow> byte list \<Rightarrow> nat \<Rightarrow> int \<Rightarrow>
     coord \<Rightarrow> coord res" where
  "distribute_stripes conf M rnd nodes old msg 0 cur st = Inr st"
| "distribute_stripes conf M rnd nodes old msg (Suc k) cur st =
     bindE (request_updates conf old msg cur) (\<lambda>(cur', v).
     bindE (up_dispatch conf M rnd (UPPolicy conf) v st) (\<lambda>st1.
     bindE (await_acks conf nodes st1) (distribute_stripes conf M rnd nodes old msg k cur')))"

text \<open>One round of the loop.\<close>

definition CmdDistributor ::
    "config \<Rightarrow> byte list \<Rightarrow> (nat \<Rightarrow> nat) \<Rightarrow> (world \<Rightarrow> world) \<Rightarrow> byte list \<Rightarrow> coord \<Rightarrow> coord res" where
  "CmdDistributor conf M rnd nodes old st =
     (case st of (n, w) \<Rightarrow>
       bindE (blpop (coordinatorIP conf) ''upd_requests'' w) (\<lambda>(msg, w1).
       bindE (get_int msg 0) (\<lambda>upd_stripe_num.
       distribute_stripes conf M rnd nodes old msg (nat upd_stripe_num) 4 (n, w1))))"

section \<open>Addresses\<close>

lemma ip2Str_fields:
  "splite_string (ip2Str ip) CHR ''.'' =
    [to_string (uint (ip AND 0xff)), to_string (uint (drop_bit 8 ip AND 0xff)),
     to_string (uint (drop_bit 16 ip AND 0xff)), to_string (uint (drop_bit 24 ip AND 0xff))]"
proof -
  have dot: "CHR ''.'' \<notin> set (to_string x)" for x
    by (simp add: to_string_def)
  show ?thesis
    using splite_join_string[of "[to_string (uint (ip AND 0xff)), to_string (uint (drop_bit 8 ip AND 0xff)),
        to_string (uint (drop_bit 16 ip AND 0xff)), to_string (uint (drop_bit 24 ip AND 0xff))]" "CHR ''.''"] dot
    by (simp add: ip2Str_def)
qed

lemma word_bytes_eq:
  fixes a b :: ip_addr
  assumes "a AND 0xff = b AND 0xff" and "drop_bit 8 a AND 0xff = drop_bit 8 b AND 0xff"
    and "drop_bit 16 a AND 0xff = drop_bit 16 b AND 0xff" and "drop_bit 24 a AND 0xff = drop_bit 24 b AND 0xff"
  shows "a = b"
proof (rule bit_word_eqI)
  fix n assume "n < LENGTH(32)"
  then have n: "n < 32" by simp
  have mask: "bit (0xff :: ip_addr) i \<longleftrightarrow> i < 8" for i
    using bit_mask_iff[of 8 i, where 'a = ip_addr] by (auto simp: mask_eq_exp_minus_1)
  have byte: "bit (drop_bit k a AND 0xff) i \<longleftrightarrow> bit a (k + i)" "bit (drop_bit k b AND 0xff) i \<longleftrightarrow> bit b (k + i)"
    if "i < 8" for k i
    using that by (simp_all only: bit_and_iff bit_drop_bit_eq comp_def mask) simp_all
  have eq: "bit a (k + i) = bit b (k + i)" if "drop_bit k a AND 0xff = drop_bit k b AND 0xff" "i < 8" for k i
    using byte[OF that(2), of k] that(1) by metis
  consider "n < 8" | "8 \<le> n" "n < 16" | "16 \<le> n" "n < 24" | "24 \<le> n"
    by linarith
  then show "bit a n = bit b n"
    using eq[of 0 n] eq[of 8 "n - 8"] eq[of 16 "n - 16"] eq[of 24 "n - 24"] assms n by cases simp_all
qed

text \<open>
  The text of an address determines it: \<open>ip2Str\<close> maps different addresses to different
  strings.
\<close>

theorem ip2Str_injective: "ip2Str a = ip2Str b \<longleftrightarrow> a = b"
proof
  assume "ip2Str a = ip2Str b"
  then have eq: "splite_string (ip2Str a) CHR ''.'' = splite_string (ip2Str b) CHR ''.''"
    by simp
  have inj: "to_string (uint x) = to_string (uint y) \<longleftrightarrow> x = y" for x y :: ip_addr
    using to_string_inj[of "uint x" "uint y"] by (auto simp: word_uint_eq_iff)
  show "a = b"
    using eq unfolding ip2Str_fields list.inject inj by (elim conjE) (rule word_bytes_eq)
qed simp

section \<open>The result file\<close>

lemma read_word_name: "name \<noteq> [] \<Longrightarrow> \<forall>c \<in> set name. \<not> is_space c \<Longrightarrow> read_word name x = name"
  by (cases name) (auto simp: read_word_def takeWhile_eq_all_conv)

lemma result_line_name:
  "CHR '','' \<notin> set name \<Longrightarrow> hd (splite_string (result_line name r) CHR '','') = name"
  by (subst splite_string.simps) (auto simp: result_line_def takeWhile_append split: prod.splits)

lemma find_computed_append:
  "find_computed t x ls \<Longrightarrow> find_computed t x (ls @ ls')"
  by (induction ls arbitrary: x) (auto simp: Let_def)

lemma find_computed_last:
  assumes "t \<noteq> []" and "\<forall>c \<in> set t. \<not> is_space c" and "CHR '','' \<notin> set t"
  shows "find_computed t x (ls @ [result_line t r])"
  by (induction ls arbitrary: x) (simp_all add: Let_def result_line_name[OF assms(3)] read_word_name[OF assms(1,2)])

text \<open>
  C31. A trace whose results have been written is recognised the next time, and stays so when
  further results follow: \<open>multi_doProcess\<close> replays no trace twice.
\<close>

theorem is_computed_after_result:
  assumes "name \<noteq> []" and "\<forall>c \<in> set name. \<not> is_space c" and "CHR '','' \<notin> set name"
  shows "is_computed (append_result results (result_line name r)) name \<and>
    (is_computed results' name \<longrightarrow> is_computed (append_result results' line) name)"
  using find_computed_last[OF assms] find_computed_append
  by (auto simp: is_computed_def append_result_def split: option.splits)

theorem is_computed_after_result_witness:
  "is_computed (append_result None (result_line ''ID_104.csv'' (''1'', ''2'', ''3'', ''4''))) ''ID_104.csv''"
  using is_computed_after_result[of "''ID_104.csv''" None "(''1'', ''2'', ''3'', ''4'')" None "''x''"] by (simp add: is_space_def)

section \<open>The loop over a trace\<close>

text \<open>
  C28. The second half of the flush test never decides: as long as the loop goes on the counter is
  too small for it, so that only a full log is flushed and what is in the log after the last
  request is never sent. Exchanging the flush for one that agrees with it on full logs changes nothing.
\<close>

theorem only_full_logs_flushed:
  assumes "\<forall>lg st. log_full conf lg \<longrightarrow> flush lg st = flush' lg st" and "ts_count ts + 1 < req_num"
  shows "trace_loop conf flush req_num lines ts = trace_loop conf flush' req_num lines ts"
  using assms(2)
proof (induction lines arbitrary: ts)
  case (Cons line lines)
  show ?case
    using Cons assms(1) by (auto simp: bindE_def Let_def split: sum.split)
qed simp

theorem only_full_logs_flushed_witness:
  "trace_loop sample_conf (\<lambda>lg st. Inr (Suc st)) 5 [ali_line ''104'' 0 4096 ''9'']
     \<lparr>ts_count = 0, ts_request = (0, 0), ts_log = empty_log, ts_stripes = 0, ts_coord = 0\<rparr> =
   trace_loop sample_conf (\<lambda>lg st. if log_full sample_conf lg then Inr (Suc st) else Inl Assert_Fail) 5
     [ali_line ''104'' 0 4096 ''9'']
     \<lparr>ts_count = 0, ts_request = (0, 0), ts_log = empty_log, ts_stripes = 0, ts_coord = 0\<rparr>"
  by (rule only_full_logs_flushed) simp_all

text \<open>
  The invariant of the loop: the log is in order and not full, and the flush keeps what it needs.
\<close>

definition good_line :: "config \<Rightarrow> string \<Rightarrow> bool" where
  "good_line conf line \<longleftrightarrow> (\<forall>req. \<exists>off sz b. parse_line conf line req = Inr ((off, sz), b) \<and>
     (b \<longrightarrow> 0 \<le> off \<and> 0 < sz \<and> (off + sz) div blocksize conf < INT_MAX))"

lemma log_full_empty: "0 < log_size conf \<Longrightarrow> \<not> log_full conf empty_log"
  by (simp add: log_full_def empty_log_def)

lemma trace_loop_inv:
  assumes "0 < ecK conf" and "0 < blocksize conf" and "0 < log_size conf"
    and flush: "\<And>lg st. log_ok conf lg \<Longrightarrow> I st \<Longrightarrow> \<exists>st'. flush lg st = Inr st' \<and> I st'"
    and "\<forall>line \<in> set lines. good_line conf line"
    and "log_ok conf (ts_log ts)" and "\<not> log_full conf (ts_log ts)" and "I (ts_coord ts)"
  shows "\<exists>ts'. trace_loop conf flush req_num lines ts = Inr ts' \<and> log_ok conf (ts_log ts') \<and>
    \<not> log_full conf (ts_log ts') \<and> I (ts_coord ts')"
  using assms(5-8)
proof (induction lines arbitrary: ts)
  case (Cons line lines)
  obtain off sz b where p: "parse_line conf line (ts_request ts) = Inr ((off, sz), b)"
      "b \<Longrightarrow> 0 \<le> off \<and> 0 < sz \<and> (off + sz) div blocksize conf < INT_MAX"
    using Cons.prems(1) unfolding good_line_def by (metis list.set_intros(1))
  have lines: "\<forall>line \<in> set lines. good_line conf line"
    using Cons.prems(1) by simp
  show ?case
  proof (cases b)
    case False
    then show ?thesis
      using p(1) Cons.IH[OF lines, of "ts\<lparr>ts_request := (off, sz)\<rparr>"] Cons.prems by simp
  next
    case True
    then obtain lg where lg: "log_request conf off sz (ts_log ts) = Inr lg" "log_ok conf lg"
      using log_request_ok[OF Cons.prems(2) assms(1,2)] p(2) by blast
    define fl where "fl = (if log_full conf lg \<or> req_num \<le> ts_count ts + 1
              then bindE (flush lg (ts_coord ts)) (\<lambda>st.
                Inr (empty_log, ts_stripes ts + length (stripe_id2loc_blk_id lg), st))
              else Inr (lg, ts_stripes ts, ts_coord ts))"
    obtain st' where st': "flush lg (ts_coord ts) = Inr st'" "I st'"
      using flush[OF lg(2) Cons.prems(4)] by blast
    obtain lg' total st where fl: "fl = Inr (lg', total, st)" "log_ok conf lg'" "\<not> log_full conf lg'" "I st"
    proof (cases "log_full conf lg \<or> req_num \<le> ts_count ts + 1")
      case True
      then show ?thesis
        using that st' log_ok_empty log_full_empty[OF assms(3)] by (simp add: fl_def)
    next
      case False
      then show ?thesis
        using that lg(2) Cons.prems(4) by (simp add: fl_def)
    qed
    define ts1 where "ts1 = \<lparr>ts_count = ts_count ts + 1, ts_request = (off, sz), ts_log = lg', ts_stripes = total,
      ts_coord = st\<rparr>"
    have step: "trace_loop conf flush req_num (line # lines) ts =
        (if req_num \<le> ts_count ts1 + 1 then Inr ts1 else trace_loop conf flush req_num lines ts1)"
      using p(1) True lg(1) fl(1) by (simp add: fl_def[symmetric] ts1_def Let_def)
    show ?thesis
      unfolding step using Cons.IH[OF lines, of ts1] fl(2-4) by (auto simp: ts1_def)
  qed
qed simp

lemma good_ali_line:
  assumes "traceType conf = ''Ali''" and "CHR '','' \<notin> set dev" and "CHR '','' \<notin> set time"
    and "0 \<le> offset" "offset \<le> LLONG_MAX" and "0 \<le> sz" "sz \<le> LLONG_MAX"
    and "(offset div 1024 + sz div 1024) div blocksize conf < INT_MAX"
  shows "good_line conf (ali_line dev offset sz time)"
  using parse_ali_line[OF assms(1-7)] assms(4,6,8) by (auto simp: good_line_def)

section \<open>Random updates\<close>

text \<open>
  C29. A random range lies in its block, starts before its last unit and is not empty; but when the
  drawn offset is the last unit of the block the second remainder divides by zero.
\<close>

theorem random_range_bounds:
  assumes "0 < blocksize conf"
  shows "(int (rnd n) mod blocksize conf = blocksize conf - 1 \<longrightarrow> random_range conf rnd n = Inl Div_By_Zero) \<and>
    (int (rnd n) mod blocksize conf \<noteq> blocksize conf - 1 \<longrightarrow>
      (\<exists>off sz. random_range conf rnd n = Inr (off, sz) \<and> 0 \<le> off \<and> 1 \<le> sz \<and> off + sz < blocksize conf))"
proof -
  let ?o = "int (rnd n) mod blocksize conf"
  have o: "0 \<le> ?o" "?o < blocksize conf"
    using assms by simp_all
  show ?thesis
  proof (cases "?o = blocksize conf - 1")
    case True
    then show ?thesis using assms by (simp add: random_range_def Let_def guardE_def)
  next
    case False
    let ?d = "blocksize conf - ?o - 1"
    have d: "0 < ?d"
      using False o by simp
    then have "random_range conf rnd n = Inr (?o, int (rnd (Suc n)) mod ?d + 1)"
      using assms by (simp add: random_range_def Let_def guardE_def)
    moreover have "0 \<le> int (rnd (Suc n)) mod ?d" "int (rnd (Suc n)) mod ?d < ?d"
      using d by (rule pos_mod_sign, rule pos_mod_bound)
    moreover from this have "?o + (int (rnd (Suc n)) mod ?d + 1) < blocksize conf"
      by linarith
    ultimately show ?thesis
      using False o by simp
  qed
qed

theorem random_range_bounds_witness:
  "random_range sample_conf (\<lambda>_. 7) 0 = Inl Div_By_Zero \<and>
    (\<exists>off sz. random_range sample_conf (\<lambda>_. 5) 0 = Inr (off, sz) \<and> off + sz < 4)"
  using random_range_bounds[of sample_conf "\<lambda>_. 7" 0] random_range_bounds[of sample_conf "\<lambda>_. 5" 0]
  by (auto simp: sample_conf_def)

end
