(* ===== verification/Node_Disk.thy ===== *)
theory Node_Disk
  imports Cord_Base
begin

text \<open>
  The disk and buffer routines of \<open>UPNode.cc\<close>: \<open>readDataFromDisk\<close>, \<open>writeDataToDisk\<close>,
  \<open>gene_radm_buff\<close> and \<open>compute_delta\<close>. What the operating system and the allocator leave open
  is the record \<open>env\<close>: how many bytes a \<open>pread\<close> or \<open>pwrite\<close> call transfers and what fresh
  memory holds. The theory shows that the transfer loops always finish with the same contents,
  however the calls are cut up.
\<close>

record env =
  io_chunk :: "nat \<Rightarrow> nat \<Rightarrow> nat"
  malloc_byte :: byte

text \<open>A call asked for \<open>n > 0\<close> bytes that are there transfers at least one of them.\<close>

definition io_ok :: "env \<Rightarrow> bool" where
  "io_ok E \<longleftrightarrow> (\<forall>n pos. 0 < n \<longrightarrow> 0 < io_chunk E n pos)"

definition malloc :: "env \<Rightarrow> int \<Rightarrow> byte list" where
  "malloc E n = replicate (nat n) (malloc_byte E)"

section \<open>readDataFromDisk\<close>

text \<open>
  \<open>fdata\<close> holds the bytes of the opened file. At the end of the file \<open>pread\<close> returns 0 and the
  loop repeats the call for ever.
\<close>

function read_loop :: "env \<Rightarrow> byte list \<Rightarrow> nat \<Rightarrow> nat \<Rightarrow> nat \<Rightarrow> byte list \<Rightarrow> byte list res" where
  "read_loop E fdata base sz readLen content =
     (if readLen < sz then
        (let avail = min (sz - readLen) (length fdata - (base + readLen));
             readl = min avail (io_chunk E avail (base + readLen))
         in if readl = 0 then Inl Diverges
            else
              bindE (memcpy_to content (int readLen) (take readl (drop (base + readLen) fdata)))
                (read_loop E fdata base sz (readLen + readl)))
      else Inr content)"
  by pat_completeness auto
termination
  by (relation "measure (\<lambda>(E, fdata, base, sz, readLen, content). sz - readLen)")
    (auto intro!: diff_less_mono2)

declare read_loop.simps [simp del]

definition readDataFromDisk ::
    "env \<Rightarrow> ip_addr \<Rightarrow> string \<Rightarrow> byte list \<Rightarrow> int \<Rightarrow> int \<Rightarrow> world \<Rightarrow> byte list res" where
  "readDataFromDisk E ip fileName content sz base w =
     (case w_files w ip fileName of
        None \<Rightarrow> Inl (Exit 1)
      | Some fdata \<Rightarrow>
          if sz \<le> 0 then Inr content
          else if base < 0 then Inl (Exit 1)
          else read_loop E fdata (nat base) (nat sz) 0 content)"

section \<open>writeDataToDisk\<close>

text \<open>\<open>pwrite\<close> past the end of the file leaves a gap of zeros.\<close>

definition pwrite_at :: "byte list \<Rightarrow> nat \<Rightarrow> byte list \<Rightarrow> byte list" where
  "pwrite_at fdata pos bytes =
     take pos fdata @ replicate (pos - length fdata) 0 @ bytes @ drop (pos + length bytes) fdata"

function write_loop :: "env \<Rightarrow> byte list \<Rightarrow> nat \<Rightarrow> nat \<Rightarrow> nat \<Rightarrow> byte list \<Rightarrow> byte list res" where
  "write_loop E content base sz writeLen fdata =
     (if writeLen < sz then
        (let want = sz - writeLen;
             writel = min want (io_chunk E want (base + writeLen))
         in if writel = 0 then Inl Diverges
            else
              bindE (memcpy_from content (int writeLen) (int writel)) (\<lambda>bytes.
                write_loop E content base sz (writeLen + writel)
                  (pwrite_at fdata (base + writeLen) bytes)))
      else Inr fdata)"
  by pat_completeness auto
termination
  by (relation "measure (\<lambda>(E, content, base, sz, writeLen, fdata). sz - writeLen)")
    (auto intro!: diff_less_mono2)

declare write_loop.simps [simp del]

definition writeDataToDisk ::
    "env \<Rightarrow> ip_addr \<Rightarrow> string \<Rightarrow> byte list \<Rightarrow> int \<Rightarrow> int \<Rightarrow> world \<Rightarrow> world res" where
  "writeDataToDisk E ip fileName content sz base w =
     (let fdata = (case w_files w ip fileName of None \<Rightarrow> [] | Some f \<Rightarrow> f)
      in bindE
           (if sz \<le> 0 then Inr fdata
            else if base < 0 then Inl (Exit 1)
            else write_loop E content (nat base) (nat sz) 0 fdata)
           (\<lambda>f. Inr (w\<lparr>w_files := (w_files w)(ip := (w_files w ip)(fileName := Some f))\<rparr>)))"

section \<open>Buffers\<close>

definition alphanum :: "byte list" where
  "alphanum = map of_char
     ''0123456789ABCDEFGHIJKLMNOPQRSTUVWXYZabcdefghijklmnopqrstuvwxyz''"

text \<open>Despite its name the buffer is the same for every call: the alphabet, repeated.\<close>

definition gene_radm_buff :: "int \<Rightarrow> byte list" where
  "gene_radm_buff len = map (\<lambda>i. alphanum ! (i mod length alphanum)) [0..<nat len]"

text \<open>
  The \<open>length / 8\<close> whole words of the two sources are xored into the front of \<open>result\<close>.
\<close>

definition compute_delta :: "byte list \<Rightarrow> byte list \<Rightarrow> byte list \<Rightarrow> int \<Rightarrow> byte list res" where
  "compute_delta result srcA srcB len =
     (let n = 8 * nat (len div 8)
      in if n \<le> length srcA \<and> n \<le> length srcB \<and> n \<le> length result
         then Inr (xor_bytes (take n srcA) (take n srcB) @ drop n result)
         else Inl Out_Of_Bounds)"

section \<open>The transfer loops\<close>

lemma take_drop_step: "a \<le> n \<Longrightarrow> take a xs @ take (n - a) (drop a xs) = take n xs"
  by (metis le_add_diff_inverse take_add)

lemma overwrite_parts:
  assumes "pos + length bs \<le> length xs" and "pos + length bs \<le> n"
  shows "take (pos + length bs) (overwrite xs pos bs) = take pos xs @ bs"
    and "drop n (overwrite xs pos bs) = drop n xs"
  using assms by (simp_all add: overwrite_def)

lemma read_loop_eq:
  assumes "io_ok E" and "base + sz \<le> length fdata" and "readLen \<le> sz" and "sz \<le> length content"
  shows "read_loop E fdata base sz readLen content =
    Inr (take readLen content @ take (sz - readLen) (drop (base + readLen) fdata) @ drop sz content)"
  using assms(2-)
proof (induction "sz - readLen" arbitrary: readLen content rule: less_induct)
  case less
  show ?case
  proof (cases "readLen < sz")
    case True
    define avail where "avail = sz - readLen"
    have avail: "min (sz - readLen) (length fdata - (base + readLen)) = avail"
      using less.prems by (simp add: avail_def)
    define readl where "readl = min avail (io_chunk E avail (base + readLen))"
    have r: "0 < readl" "readl \<le> avail" "readLen + avail = sz"
      using assms(1) True by (auto simp: readl_def avail_def io_ok_def)
    define bs where "bs = take readl (drop (base + readLen) fdata)"
    have bs: "length bs = readl"
      using r less.prems by (simp add: bs_def)
    have "read_loop E fdata base sz readLen content =
        read_loop E fdata base sz (readLen + readl) (overwrite content readLen bs)"
      using True less.prems r bs
      by (subst read_loop.simps) (simp add: Let_def avail memcpy_to_def flip: readl_def bs_def)
    also have "\<dots> = Inr (take (readLen + readl) (overwrite content readLen bs) @
        take (sz - (readLen + readl)) (drop (base + (readLen + readl)) fdata) @
        drop sz (overwrite content readLen bs))"
      using r bs less.prems by (intro less.hyps) auto
    also have "take (readLen + readl) (overwrite content readLen bs) = take readLen content @ bs"
      using overwrite_parts(1)[of readLen bs content sz] bs r less.prems by simp
    also have "drop sz (overwrite content readLen bs) = drop sz content"
      using overwrite_parts(2)[of readLen bs content sz] bs r less.prems by simp
    finally show ?thesis
      using take_drop_step[of readl avail "drop (base + readLen) fdata"] r
      by (simp add: bs_def avail_def ac_simps)
  next
    case False
    with less.prems show ?thesis by (subst read_loop.simps) simp
  qed
qed

lemma read_loop_short_file:
  assumes "io_ok E" and "length fdata < base + sz" and "readLen \<le> sz" and "sz \<le> length content"
    and "readLen < sz"
  shows "read_loop E fdata base sz readLen content = Inl Diverges"
  using assms(2-)
proof (induction "sz - readLen" arbitrary: readLen content rule: less_induct)
  case less
  define avail where "avail = min (sz - readLen) (length fdata - (base + readLen))"
  define readl where "readl = min avail (io_chunk E avail (base + readLen))"
  show ?case
  proof (cases "readl = 0")
    case True
    with less.prems show ?thesis
      by (subst read_loop.simps) (simp add: Let_def flip: avail_def readl_def)
  next
    case False
    define bs where "bs = take readl (drop (base + readLen) fdata)"
    have bs: "length bs = readl" "readLen + readl < sz"
      using less.prems False by (auto simp: bs_def readl_def avail_def)
    have "read_loop E fdata base sz readLen content =
        read_loop E fdata base sz (readLen + readl) (overwrite content readLen bs)"
      using less.prems False bs
      by (subst read_loop.simps)
        (simp add: Let_def memcpy_to_def flip: avail_def readl_def bs_def)
    also have "\<dots> = Inl Diverges"
      using False bs less.prems by (intro less.hyps) auto
    finally show ?thesis .
  qed
qed

lemma pwrite_at_overwrite:
  "pos + length bs \<le> length fdata \<Longrightarrow> pwrite_at fdata pos bs = overwrite fdata pos bs"
  by (simp add: pwrite_at_def overwrite_def)

lemma overwrite_chain:
  assumes "pos + length as \<le> length xs"
  shows "overwrite (overwrite xs pos as) (pos + length as) bs = overwrite xs pos (as @ bs)"
  using assms by (simp add: overwrite_def ac_simps)

lemma write_loop_eq:
  assumes "io_ok E" and "base + sz \<le> length fdata" and "writeLen \<le> sz" and "sz \<le> length content"
  shows "write_loop E content base sz writeLen fdata =
    Inr (overwrite fdata (base + writeLen) (take (sz - writeLen) (drop writeLen content)))"
  using assms(2-)
proof (induction "sz - writeLen" arbitrary: writeLen fdata rule: less_induct)
  case less
  show ?case
  proof (cases "writeLen < sz")
    case True
    define want where "want = sz - writeLen"
    define writel where "writel = min want (io_chunk E want (base + writeLen))"
    have r: "0 < writel" "writel \<le> want" "writeLen + want = sz"
      using assms(1) True by (auto simp: writel_def want_def io_ok_def)
    define bs where "bs = take writel (drop writeLen content)"
    have bs: "length bs = writel"
      using r less.prems by (simp add: bs_def)
    let ?fdata = "overwrite fdata (base + writeLen) bs"
    have "write_loop E content base sz writeLen fdata =
        write_loop E content base sz (writeLen + writel) ?fdata"
      using True less.prems r bs
      by (subst write_loop.simps)
        (simp add: Let_def memcpy_from_def pwrite_at_overwrite flip: want_def writel_def bs_def)
    also have "\<dots> = Inr (overwrite ?fdata (base + (writeLen + writel))
        (take (sz - (writeLen + writel)) (drop (writeLen + writel) content)))"
      using r bs less.prems by (intro less.hyps) auto
    also have "\<dots> = Inr (overwrite fdata (base + writeLen)
        (bs @ take (want - writel) (drop writel (drop writeLen content))))"
      using overwrite_chain[of "base + writeLen" bs fdata] r bs less.prems
      by (simp add: want_def ac_simps)
    finally show ?thesis
      using take_drop_step[of writel want "drop writeLen content"] r
      by (simp add: bs_def want_def)
  next
    case False
    with less.prems show ?thesis
      by (subst write_loop.simps) (simp add: overwrite_def)
  qed
qed

section \<open>Files of a node\<close>

definition put_file :: "ip_addr \<Rightarrow> string \<Rightarrow> byte list \<Rightarrow> world \<Rightarrow> world" where
  "put_file ip name f w = w\<lparr>w_files := (w_files w)(ip := (w_files w ip)(name := Some f))\<rparr>"

lemma readDataFromDisk_eq:
  assumes "io_ok E" and "w_files w ip name = Some fdata" and "0 \<le> base" and "0 \<le> sz"
    and "base + sz \<le> int (length fdata)" and "length content = nat sz"
  shows "readDataFromDisk E ip name content sz base w = Inr (take (nat sz) (drop (nat base) fdata))"
  using assms read_loop_eq[of E "nat base" "nat sz" fdata 0 content]
  by (auto simp: readDataFromDisk_def nat_le_iff)

lemma writeDataToDisk_eq:
  assumes "io_ok E" and "w_files w ip name = Some fdata" and "0 \<le> base" and "0 \<le> sz"
    and "base + sz \<le> int (length fdata)" and "length content = nat sz"
  shows "writeDataToDisk E ip name content sz base w =
    Inr (put_file ip name (overwrite fdata (nat base) content) w)"
  using assms write_loop_eq[of E "nat base" "nat sz" fdata 0 content]
  by (auto simp: writeDataToDisk_def put_file_def overwrite_def)

lemma length_malloc [simp]: "length (malloc E n) = nat n"
  by (simp add: malloc_def)

lemma length_gene_radm_buff [simp]: "length (gene_radm_buff n) = nat n"
  by (simp add: gene_radm_buff_def)

lemma compute_delta_eq:
  assumes "length a = nat n" and "length b = nat n" and "length r = nat n" and "8 dvd n"
  shows "compute_delta r a b n = Inr (xor_bytes a b)"
proof -
  have "8 * nat (n div 8) = nat n"
    using assms(4) by (cases "0 \<le> n") (auto elim!: dvdE)
  then show ?thesis
    using assms by (simp add: compute_delta_def Let_def)
qed

lemma w_files_put_file [simp]:
  "w_files (put_file ip name f w) = (w_files w)(ip := (w_files w ip)(name := Some f))"
  "w_queues (put_file ip name f w) = w_queues w"
  by (simp_all add: put_file_def)

lemma w_rpush [simp]:
  "w_files (rpush ip key m w) = w_files w"
  "w_queues (rpush ip key m w) =
    (w_queues w)(ip := (w_queues w ip)(key := w_queues w ip key @ [m]))"
  by (simp_all add: rpush_def)

end
