(* ===== verification/Galois.thy ===== *)
theory Galois
  imports Prelude
begin

text \<open>
  The Galois-field layer, \<open>Util/galois.c\<close> at word size 8. The arithmetic itself is done by the
  library gf-complete, which the sources only call: its entry points are the fields of
  \<open>gf_ops\<close>, an argument of every definition that reaches them, and the locale \<open>gf_complete\<close>
  states what its manual promises of them. Field elements and matrix entries, C \<open>int\<close>s in the
  code, are bytes here: at word size 8 every value the routines produce is one.
\<close>

section \<open>The entry points of gf-complete\<close>

record gf_ops =
  gf_multiply :: "byte \<Rightarrow> byte \<Rightarrow> byte"
  gf_divide :: "byte \<Rightarrow> byte \<Rightarrow> byte"
  gf_region8 :: "byte list \<Rightarrow> byte list \<Rightarrow> byte \<Rightarrow> bool \<Rightarrow> byte list"
  gf_region32_xor :: "byte list \<Rightarrow> byte list \<Rightarrow> byte list"

text \<open>
  \<open>gf_region8 G src dest v add\<close> is what \<open>multiply_region.w32(gf, src, dest, v, n, add)\<close> of the
  8-bit field leaves in \<open>dest\<close>, \<open>gf_region32_xor G src dest\<close> what the call of the 32-bit
  field with multiplier 1 and \<open>add\<close> set leaves there.
\<close>

section \<open>galois.c\<close>

definition galois_single_multiply :: "gf_ops \<Rightarrow> byte \<Rightarrow> byte \<Rightarrow> byte" where
  "galois_single_multiply G x y = (if x = 0 \<or> y = 0 then 0 else gf_multiply G x y)"

text \<open>The error value \<open>-1\<close> is \<open>None\<close>.\<close>

definition galois_single_divide :: "gf_ops \<Rightarrow> byte \<Rightarrow> byte \<Rightarrow> byte option" where
  "galois_single_divide G x y =
     (if x = 0 then Some 0 else if y = 0 then None else Some (gf_divide G x y))"

definition galois_inverse :: "gf_ops \<Rightarrow> byte \<Rightarrow> byte option" where
  "galois_inverse G y = (if y = 0 then None else galois_single_divide G 1 y)"

definition galois_w08_region_multiply ::
    "gf_ops \<Rightarrow> byte list \<Rightarrow> byte \<Rightarrow> nat \<Rightarrow> byte list \<Rightarrow> bool \<Rightarrow> byte list res" where
  "galois_w08_region_multiply G region multby nbytes r2 add =
     (if nbytes \<le> length region \<and> nbytes \<le> length r2
      then Inr (gf_region8 G (take nbytes region) (take nbytes r2) multby add @ drop nbytes r2)
      else Inl Out_Of_Bounds)"

definition galois_w32_region_xor :: "gf_ops \<Rightarrow> byte list \<Rightarrow> byte list \<Rightarrow> nat \<Rightarrow> byte list res" where
  "galois_w32_region_xor G src dest nbytes =
     (if nbytes \<le> length src \<and> nbytes \<le> length dest
      then Inr (gf_region32_xor G (take nbytes src) (take nbytes dest) @ drop nbytes dest)
      else Inl Out_Of_Bounds)"

text \<open>The byte loop that \<open>galois_region_xor\<close> runs on short regions.\<close>

fun region_xor_loop :: "nat \<Rightarrow> nat \<Rightarrow> byte list \<Rightarrow> byte list \<Rightarrow> byte list res" where
  "region_xor_loop 0 i src dest = Inr dest"
| "region_xor_loop (Suc n) i src dest =
     (if i < length src \<and> i < length dest
      then region_xor_loop n (Suc i) src (dest[i := dest ! i XOR src ! i])
      else Inl Out_Of_Bounds)"

definition galois_region_xor :: "gf_ops \<Rightarrow> byte list \<Rightarrow> byte list \<Rightarrow> nat \<Rightarrow> byte list res" where
  "galois_region_xor G src dest nbytes =
     (if 16 \<le> nbytes then galois_w32_region_xor G src dest nbytes
      else region_xor_loop nbytes 0 src dest)"

section \<open>Sums over the field\<close>

interpretation xs: comm_monoid_set "(XOR) :: byte \<Rightarrow> byte \<Rightarrow> byte" 0
  by unfold_locales (simp_all add: ac_simps)

abbreviation xor_sum :: "(nat \<Rightarrow> byte) \<Rightarrow> nat \<Rightarrow> byte" where
  "xor_sum f n \<equiv> xs.F f {..<n}"

lemma xor_sum_zero [simp]: "xor_sum f 0 = 0"
  by simp

lemma xor_sum_Suc: "xor_sum f (Suc n) = xor_sum f n XOR f n"
  by (simp add: lessThan_Suc ac_simps)

lemma xor_byte_cancel [simp]: "(a :: byte) XOR (a XOR b) = b"
  by (simp flip: xor.assoc)

lemma xor_eq_zero_iff: "(a :: byte) XOR b = 0 \<longleftrightarrow> a = b"
  by (metis xor.right_neutral xor_byte_cancel xor_self_eq)

section \<open>What gf-complete promises\<close>

locale gf_complete =
  fixes G :: gf_ops
  assumes mult_commute: "gf_multiply G a b = gf_multiply G b a"
    and mult_assoc: "gf_multiply G (gf_multiply G a b) c = gf_multiply G a (gf_multiply G b c)"
    and mult_one: "gf_multiply G 1 a = a"
    and mult_xor: "gf_multiply G a (b XOR c) = gf_multiply G a b XOR gf_multiply G a c"
    and mult_divide: "b \<noteq> 0 \<Longrightarrow> gf_multiply G b (gf_divide G a b) = a"
    and region8: "length dest = length src \<Longrightarrow>
      gf_region8 G src dest v add =
        map2 (\<lambda>s d. (if add then d else 0) XOR gf_multiply G v s) src dest"
    and region32_xor: "length dest = length src \<Longrightarrow> 4 dvd length src \<Longrightarrow>
      gf_region32_xor G src dest = map2 (XOR) src dest"
begin

lemma mult_zero [simp]: "gf_multiply G a 0 = 0"
  using mult_xor[of a 0 0] by simp

lemma mult_zero_left [simp]: "gf_multiply G 0 a = 0"
  by (simp add: mult_commute[of 0])

lemma mult_one_right [simp]: "gf_multiply G a 1 = a"
  by (simp add: mult_commute[of a] mult_one)

lemma mult_xor_left: "gf_multiply G (b XOR c) a = gf_multiply G b a XOR gf_multiply G c a"
  by (metis mult_commute mult_xor)

lemma mult_left_commute:
  "gf_multiply G a (gf_multiply G b c) = gf_multiply G b (gf_multiply G a c)"
  by (metis mult_assoc mult_commute)

lemma single_multiply [simp]: "galois_single_multiply G a b = gf_multiply G a b"
  by (simp add: galois_single_multiply_def)

lemma mult_eq_zero_iff: "gf_multiply G a b = 0 \<longleftrightarrow> a = 0 \<or> b = 0"
proof
  assume z: "gf_multiply G a b = 0"
  show "a = 0 \<or> b = 0"
  proof (cases "a = 0")
    case False
    have "b = gf_multiply G (gf_multiply G a (gf_divide G 1 a)) b"
      using False by (simp add: mult_divide mult_one)
    also have "\<dots> = gf_multiply G (gf_divide G 1 a) (gf_multiply G a b)"
      by (simp add: mult_assoc mult_left_commute)
    finally show ?thesis using z by simp
  qed simp
qed auto

lemma mult_xor_sum: "gf_multiply G a (xs.F f A) = xs.F (\<lambda>i. gf_multiply G a (f i)) A"
  by (induction A rule: infinite_finite_induct) (simp_all add: mult_xor)

lemma mult_xor_sum_left: "gf_multiply G (xs.F f A) a = xs.F (\<lambda>i. gf_multiply G (f i) a) A"
  by (simp add: mult_commute[of _ a] mult_xor_sum)

lemmas gf_laws = mult_one mult_xor mult_xor_left mult_assoc mult_left_commute

lemma w08_region_multiply:
  assumes "nbytes \<le> length region" and "nbytes \<le> length r2"
  shows "galois_w08_region_multiply G region v nbytes r2 add =
    Inr (map2 (\<lambda>s d. (if add then d else 0) XOR gf_multiply G v s)
          (take nbytes region) (take nbytes r2) @ drop nbytes r2)"
  using assms by (simp add: galois_w08_region_multiply_def region8)

end

lemma region_xor_loop_eq:
  assumes "i + n \<le> length src" and "i + n \<le> length dest"
  shows "region_xor_loop n i src dest =
    Inr (take i dest @ xor_bytes (take n (drop i dest)) (take n (drop i src)) @ drop (i + n) dest)"
  using assms
proof (induction n arbitrary: i dest)
  case (Suc n)
  let ?d = "dest[i := dest ! i XOR src ! i]"
  have "region_xor_loop (Suc n) i src dest = region_xor_loop n (Suc i) src ?d"
    using Suc.prems by simp
  also have "\<dots> = Inr (take (Suc i) ?d @
      xor_bytes (take n (drop (Suc i) ?d)) (take n (drop (Suc i) src)) @ drop (Suc i + n) ?d)"
    using Suc.prems by (intro Suc.IH) auto
  also have "take (Suc i) ?d = take i dest @ [dest ! i XOR src ! i]"
    using Suc.prems by (simp add: take_Suc_conv_app_nth)
  also have "drop (Suc i) ?d = drop (Suc i) dest"
    by simp
  finally show ?case
    using Suc.prems
    by (simp add: xor_bytes_def Cons_nth_drop_Suc[symmetric] drop_update_cancel)
qed (simp add: xor_bytes_def)

context gf_complete
begin

text \<open>Both branches of \<open>galois_region_xor\<close> compute the bytewise exclusive or.\<close>

lemma region_xor:
  assumes "length src = n" and "length dest = n" and "4 dvd n"
  shows "galois_region_xor G src dest n = Inr (xor_bytes dest src)"
  using assms region_xor_loop_eq[of 0 n src dest]
  by (auto simp: galois_region_xor_def galois_w32_region_xor_def region32_xor
      xor_bytes_def[symmetric] xor_bytes_commute)

end

end
