(* ===== verification/Jerasure.thy ===== *)
theory Jerasure
  imports Galois
begin

text \<open>
  The routines of \<open>Util/jerasure.c\<close> that CoRD calls, at word size 8 (the only one it passes):
  the dot product of a matrix row with data regions, the matrix encoder, the product of two
  matrices. Matrices are flat arrays in row-major order, as in the C code; regions are byte
  lists. Gauss-Jordan inversion is in the theory \<open>Jerasure_Invert\<close>.
\<close>

section \<open>Dot product and encoding\<close>

type_synonym regions = "byte list list"

text \<open>
  \<open>jerasure_matrix_dotprod\<close> works on the buffers behind \<open>data_ptrs\<close> and \<open>coding_ptrs\<close>. The
  state is the pair of both; an id below \<open>k\<close> names a data region, the others a coding region.
\<close>

definition region_get :: "nat \<Rightarrow> nat \<Rightarrow> regions \<times> regions \<Rightarrow> byte list res" where
  "region_get k dev bufs =
     (if dev < k then atE (fst bufs) (int dev) else atE (snd bufs) (int (dev - k)))"

definition region_put :: "nat \<Rightarrow> nat \<Rightarrow> byte list \<Rightarrow> regions \<times> regions \<Rightarrow> regions \<times> regions" where
  "region_put k dev r bufs =
     (if dev < k then ((fst bufs)[dev := r], snd bufs) else (fst bufs, (snd bufs)[dev - k := r]))"

text \<open>The source region of column \<open>i\<close>: \<open>src_ids\<close> is \<open>None\<close> for a null pointer.\<close>

definition dotprod_src :: "nat \<Rightarrow> nat list option \<Rightarrow> nat \<Rightarrow> regions \<times> regions \<Rightarrow> byte list res" where
  "dotprod_src k src_ids i bufs =
     (case src_ids of
        None \<Rightarrow> atE (fst bufs) (int i)
      | Some ids \<Rightarrow> bindE (atE ids (int i)) (\<lambda>dev. region_get k dev bufs))"

text \<open>First pass: coefficients equal to 1 copy the first time and xor afterwards.\<close>

definition dotprod_ones ::
    "gf_ops \<Rightarrow> nat \<Rightarrow> byte list \<Rightarrow> nat list option \<Rightarrow> nat \<Rightarrow> nat \<Rightarrow> nat \<Rightarrow>
     bool \<times> regions \<times> regions \<Rightarrow> (bool \<times> regions \<times> regions) res" where
  "dotprod_ones G k row src_ids dest_id sz i st =
     (case st of (init, bufs) \<Rightarrow>
        bindE (atE row (int i)) (\<lambda>c.
        if c = 1 then
          bindE (dotprod_src k src_ids i bufs) (\<lambda>sptr.
          bindE (region_get k dest_id bufs) (\<lambda>dptr.
          bindE (if \<not> init
                 then bindE (memcpy_from sptr 0 (int sz)) (\<lambda>bs. memcpy_to dptr 0 bs)
                 else galois_region_xor G sptr dptr sz) (\<lambda>d.
          Inr (True, region_put k dest_id d bufs))))
        else Inr (init, bufs)))"

text \<open>Second pass: the coefficients other than 0 and 1 multiply and, once initialised, add.\<close>

definition dotprod_factors ::
    "gf_ops \<Rightarrow> nat \<Rightarrow> byte list \<Rightarrow> nat list option \<Rightarrow> nat \<Rightarrow> nat \<Rightarrow> nat \<Rightarrow>
     bool \<times> regions \<times> regions \<Rightarrow> (bool \<times> regions \<times> regions) res" where
  "dotprod_factors G k row src_ids dest_id sz i st =
     (case st of (init, bufs) \<Rightarrow>
        bindE (atE row (int i)) (\<lambda>c.
        if c \<noteq> 0 \<and> c \<noteq> 1 then
          bindE (dotprod_src k src_ids i bufs) (\<lambda>sptr.
          bindE (region_get k dest_id bufs) (\<lambda>dptr.
          bindE (galois_w08_region_multiply G sptr c sz dptr init) (\<lambda>d.
          Inr (True, region_put k dest_id d bufs))))
        else Inr (init, bufs)))"

definition jerasure_matrix_dotprod ::
    "gf_ops \<Rightarrow> nat \<Rightarrow> byte list \<Rightarrow> nat list option \<Rightarrow> nat \<Rightarrow> regions \<times> regions \<Rightarrow> nat \<Rightarrow>
     (regions \<times> regions) res" where
  "jerasure_matrix_dotprod G k row src_ids dest_id bufs sz =
     bindE (foldE (dotprod_ones G k row src_ids dest_id sz) [0..<k] (False, bufs)) (\<lambda>st.
     bindE (foldE (dotprod_factors G k row src_ids dest_id sz) [0..<k] st) (\<lambda>st'.
     Inr (snd st')))"

definition jerasure_matrix_encode ::
    "gf_ops \<Rightarrow> nat \<Rightarrow> nat \<Rightarrow> byte list \<Rightarrow> regions \<Rightarrow> regions \<Rightarrow> nat \<Rightarrow> (regions \<times> regions) res" where
  "jerasure_matrix_encode G k m matrix data_ptrs coding_ptrs sz =
     foldE (\<lambda>i bufs.
       jerasure_matrix_dotprod G k (take k (drop (i * k) matrix)) None (k + i) bufs sz)
       [0..<m] (data_ptrs, coding_ptrs)"

section \<open>Product of matrices\<close>

text \<open>
  \<open>product[i*c2+j] ^= m1[i*c1+k] * m2[k*c2+j]\<close>, innermost over \<open>k < r2\<close>, on a product
  initialised with zeros.
\<close>

definition jerasure_matrix_multiply ::
    "gf_ops \<Rightarrow> byte list \<Rightarrow> byte list \<Rightarrow> nat \<Rightarrow> nat \<Rightarrow> nat \<Rightarrow> nat \<Rightarrow> byte list" where
  "jerasure_matrix_multiply G m1 m2 r1 c1 r2 c2 =
     fold (\<lambda>i. fold (\<lambda>j. fold (\<lambda>k p.
         p[i * c2 + j := p ! (i * c2 + j) XOR
             galois_single_multiply G (m1 ! (i * c1 + k)) (m2 ! (k * c2 + j))])
       [0..<r2]) [0..<c2]) [0..<r1] (replicate (r1 * c2) 0)"

section \<open>Linear combinations of regions\<close>

text \<open>
  The reference the encoder is measured against: byte \<open>b\<close> of the result is the field sum of
  \<open>row ! i\<close> times byte \<open>b\<close> of source \<open>i\<close>.
\<close>

definition lin_byte :: "gf_ops \<Rightarrow> byte list \<Rightarrow> regions \<Rightarrow> nat set \<Rightarrow> nat \<Rightarrow> byte" where
  "lin_byte G row srcs S b = xs.F (\<lambda>i. gf_multiply G (row ! i) (srcs ! i ! b)) S"

definition lin_region :: "gf_ops \<Rightarrow> byte list \<Rightarrow> regions \<Rightarrow> nat set \<Rightarrow> nat \<Rightarrow> byte list" where
  "lin_region G row srcs S sz = map (lin_byte G row srcs S) [0..<sz]"

abbreviation lin_comb :: "gf_ops \<Rightarrow> byte list \<Rightarrow> regions \<Rightarrow> nat \<Rightarrow> byte list" where
  "lin_comb G row srcs sz \<equiv> lin_region G row srcs {..<length srcs} sz"

lemma length_lin_region [simp]: "length (lin_region G row srcs S sz) = sz"
  by (simp add: lin_region_def)

lemma nth_lin_region [simp]: "b < sz \<Longrightarrow> lin_region G row srcs S sz ! b = lin_byte G row srcs S b"
  by (simp add: lin_region_def)

context gf_complete
begin

text \<open>
  The loop invariant of both passes: before the first hit the destination is untouched, after
  it the destination holds the combination of the columns in \<open>S\<close>.
\<close>

definition dot_inv ::
    "byte list \<Rightarrow> regions \<Rightarrow> regions \<Rightarrow> nat \<Rightarrow> nat \<Rightarrow> nat set \<Rightarrow> bool \<times> regions \<times> regions \<Rightarrow> bool"
where
  "dot_inv row data coding sz dest S st \<longleftrightarrow>
     (case st of (init, d, c) \<Rightarrow> d = data \<and>
        (if init then c = coding[dest := lin_region G row data S sz] else S = {} \<and> c = coding))"

lemma lin_region_insert:
  assumes "i \<notin> S" and "finite S" and "length (data ! i) = sz"
  shows "map2 (\<lambda>s d. d XOR gf_multiply G (row ! i) s) (data ! i) (lin_region G row data S sz) =
    lin_region G row data (insert i S) sz"
  using assms by (intro nth_equalityI) (simp_all add: lin_byte_def ac_simps)

lemma lin_region_single:
  assumes "length (data ! i) = sz"
  shows "map (\<lambda>s. gf_multiply G (row ! i) s) (data ! i) = lin_region G row data {i} sz"
  using assms by (intro nth_equalityI) (simp_all add: lin_byte_def)

lemma lin_region_insert_one:
  assumes "i \<notin> S" and "finite S" and "length (data ! i) = sz" and "row ! i = 1"
  shows "xor_bytes (lin_region G row data S sz) (data ! i) =
    lin_region G row data (insert i S) sz"
  using assms by (intro nth_equalityI) (simp_all add: lin_byte_def ac_simps mult_one)

lemma lin_region_single_one:
  assumes "length (data ! i) = sz" and "row ! i = 1"
  shows "data ! i = lin_region G row data {i} sz"
  using assms by (intro nth_equalityI) (simp_all add: lin_byte_def mult_one)

lemma dotprod_ones_step:
  assumes inv: "dot_inv row data coding sz dest S st"
    and i: "i < k" "i \<notin> S" "finite S"
    and wf: "length row = k" "length data = k" "\<forall>r \<in> set data. length r = sz"
      "dest < length coding" "length (coding ! dest) = sz" "4 dvd sz"
  shows "\<exists>st'. dotprod_ones G k row None (k + dest) sz i st = Inr st' \<and>
    dot_inv row data coding sz dest (if row ! i = 1 then insert i S else S) st'"
proof (cases "row ! i = 1")
  case True
  obtain init c where st: "st = (init, data, c)"
    using inv by (cases st) (auto simp: dot_inv_def)
  have len: "length (data ! i) = sz"
    using i wf by simp
  show ?thesis
  proof (cases init)
    case False
    have "overwrite (coding ! dest) 0 (data ! i) = lin_region G row data {i} sz"
      using len wf(5) True lin_region_single_one[of data i sz row]
      by (simp add: overwrite_def)
    then show ?thesis
      using inv False True i wf len
      by (simp add: st dotprod_ones_def dot_inv_def dotprod_src_def region_get_def region_put_def
          memcpy_from_def memcpy_to_def)
  next
    case init: True
    have "galois_region_xor G (data ! i) (lin_region G row data S sz) sz =
        Inr (lin_region G row data (insert i S) sz)"
      using region_xor[of "data ! i" sz "lin_region G row data S sz"] len wf i True
      by (simp add: lin_region_insert_one)
    then show ?thesis
      using inv init True i wf len
      by (simp add: st dotprod_ones_def dot_inv_def dotprod_src_def region_get_def region_put_def)
  qed
next
  case False
  with inv i wf show ?thesis by (cases st) (simp add: dotprod_ones_def)
qed

lemma dotprod_factors_step:
  assumes inv: "dot_inv row data coding sz dest S st"
    and i: "i < k" "i \<notin> S" "finite S"
    and wf: "length row = k" "length data = k" "\<forall>r \<in> set data. length r = sz"
      "dest < length coding" "length (coding ! dest) = sz" "4 dvd sz"
  shows "\<exists>st'. dotprod_factors G k row None (k + dest) sz i st = Inr st' \<and>
    dot_inv row data coding sz dest (if row ! i \<noteq> 0 \<and> row ! i \<noteq> 1 then insert i S else S) st'"
proof (cases "row ! i \<noteq> 0 \<and> row ! i \<noteq> 1")
  case True
  obtain init c where st: "st = (init, data, c)"
    using inv by (cases st) (auto simp: dot_inv_def)
  have len: "length (data ! i) = sz"
    using i wf by simp
  show ?thesis
  proof (cases init)
    case False
    have "map2 (\<lambda>s d. gf_multiply G (row ! i) s) (data ! i) (coding ! dest) =
        lin_region G row data {i} sz"
      using len wf(5) by (intro nth_equalityI) (simp_all add: lin_byte_def)
    then show ?thesis
      using inv False True i wf len
      by (simp add: st dotprod_factors_def dot_inv_def dotprod_src_def region_get_def region_put_def
          w08_region_multiply)
  next
    case init: True
    then show ?thesis
      using inv True i wf len lin_region_insert[of i S data sz row]
      by (simp add: st dotprod_factors_def dot_inv_def dotprod_src_def region_get_def region_put_def
          w08_region_multiply)
  qed
next
  case False
  with inv i wf show ?thesis by (cases st) (auto simp: dotprod_factors_def)
qed

lemma dotprod_ones_loop:
  assumes wf: "length row = k" "length data = k" "\<forall>r \<in> set data. length r = sz"
      "dest < length coding" "length (coding ! dest) = sz" "4 dvd sz"
  shows "\<exists>st. foldE (dotprod_ones G k row None (k + dest) sz) [0..<k] (False, data, coding) = Inr st \<and>
    dot_inv row data coding sz dest {j. j < k \<and> row ! j = 1} st"
proof (rule foldE_upt_inv[where P = "\<lambda>i. dot_inv row data coding sz dest {j. j < i \<and> row ! j = 1}"])
  show "dot_inv row data coding sz dest {j. j < 0 \<and> row ! j = 1} (False, data, coding)"
    by (simp add: dot_inv_def)
  fix i s
  assume "i < k" "dot_inv row data coding sz dest {j. j < i \<and> row ! j = 1} s"
  moreover have "{j. j < Suc i \<and> row ! j = 1} =
      (if row ! i = 1 then insert i {j. j < i \<and> row ! j = 1} else {j. j < i \<and> row ! j = 1})"
    by (auto simp: less_Suc_eq)
  ultimately show "\<exists>s'. dotprod_ones G k row None (k + dest) sz i s = Inr s' \<and>
      dot_inv row data coding sz dest {j. j < Suc i \<and> row ! j = 1} s'"
    using wf dotprod_ones_step[of row data coding sz dest "{j. j < i \<and> row ! j = 1}" s i k] by simp
qed

lemma dotprod_factors_loop:
  assumes wf: "length row = k" "length data = k" "\<forall>r \<in> set data. length r = sz"
      "dest < length coding" "length (coding ! dest) = sz" "4 dvd sz"
    and inv: "dot_inv row data coding sz dest A st"
    and A: "A = {j. j < k \<and> row ! j = 1}"
  shows "\<exists>st'. foldE (dotprod_factors G k row None (k + dest) sz) [0..<k] st = Inr st' \<and>
    dot_inv row data coding sz dest (A \<union> {j. j < k \<and> row ! j \<noteq> 0 \<and> row ! j \<noteq> 1}) st'"
proof (rule foldE_upt_inv[where P = "\<lambda>i. dot_inv row data coding sz dest
      (A \<union> {j. j < i \<and> row ! j \<noteq> 0 \<and> row ! j \<noteq> 1})"])
  show "dot_inv row data coding sz dest (A \<union> {j. j < 0 \<and> row ! j \<noteq> 0 \<and> row ! j \<noteq> 1}) st"
    using inv by simp
  fix i s
  let ?B = "A \<union> {j. j < i \<and> row ! j \<noteq> 0 \<and> row ! j \<noteq> 1}"
  assume "i < k" "dot_inv row data coding sz dest ?B s"
  moreover have "A \<union> {j. j < Suc i \<and> row ! j \<noteq> 0 \<and> row ! j \<noteq> 1} =
      (if row ! i \<noteq> 0 \<and> row ! i \<noteq> 1 then insert i ?B else ?B)"
    by (auto simp: less_Suc_eq)
  ultimately show "\<exists>s'. dotprod_factors G k row None (k + dest) sz i s = Inr s' \<and>
      dot_inv row data coding sz dest (A \<union> {j. j < Suc i \<and> row ! j \<noteq> 0 \<and> row ! j \<noteq> 1}) s'"
    using wf A dotprod_factors_step[of row data coding sz dest ?B s i k]
    by (cases "row ! i \<noteq> 0 \<and> row ! i \<noteq> 1") (auto simp: dotprod_factors_def split: prod.splits)
qed

text \<open>
  The dot product of a row with at least one nonzero coefficient replaces the destination by
  the linear combination of all sources, whatever the order of the two passes.
\<close>

lemma matrix_dotprod:
  assumes wf: "length row = k" "length data = k" "\<forall>r \<in> set data. length r = sz"
      "dest < length coding" "length (coding ! dest) = sz" "4 dvd sz"
    and nz: "\<exists>i < k. row ! i \<noteq> 0"
  shows "jerasure_matrix_dotprod G k row None (k + dest) (data, coding) sz =
    Inr (data, coding[dest := lin_comb G row data sz])"
proof -
  let ?B = "{j. j < k \<and> row ! j = 1} \<union> {j. j < k \<and> row ! j \<noteq> 0 \<and> row ! j \<noteq> 1}"
  obtain st where st: "foldE (dotprod_ones G k row None (k + dest) sz) [0..<k] (False, data, coding) = Inr st"
    "dot_inv row data coding sz dest {j. j < k \<and> row ! j = 1} st"
    using dotprod_ones_loop[OF wf] by blast
  obtain st' where st': "foldE (dotprod_factors G k row None (k + dest) sz) [0..<k] st = Inr st'"
    "dot_inv row data coding sz dest ?B st'"
    using dotprod_factors_loop[OF wf st(2) refl] by blast
  have "?B \<noteq> {}"
    using nz by auto
  moreover have "lin_byte G row data ?B b = lin_byte G row data {..<k} b" for b
    unfolding lin_byte_def by (rule xs.mono_neutral_left) auto
  then have "lin_region G row data ?B sz = lin_comb G row data sz"
    by (simp add: lin_region_def wf)
  ultimately have "snd st' = (data, coding[dest := lin_comb G row data sz])"
    using st'(2) by (cases st') (auto simp: dot_inv_def split: if_splits)
  then show ?thesis
    by (simp add: jerasure_matrix_dotprod_def st st')
qed

text \<open>The encoder computes all \<open>m\<close> coding regions.\<close>

lemma matrix_encode:
  assumes wf: "length matrix = m * k" "length data = k" "\<forall>r \<in> set data. length r = sz"
      "length coding = m" "\<forall>r \<in> set coding. length r = sz" "4 dvd sz"
    and nz: "\<forall>i < m. \<exists>j < k. matrix ! (i * k + j) \<noteq> 0"
  shows "jerasure_matrix_encode G k m matrix data coding sz =
    Inr (data, map (\<lambda>i. lin_comb G (take k (drop (i * k) matrix)) data sz) [0..<m])"
proof -
  let ?row = "\<lambda>i. take k (drop (i * k) matrix)"
  let ?P = "\<lambda>i (bufs :: regions \<times> regions). fst bufs = data \<and>
    snd bufs = map (\<lambda>i. lin_comb G (?row i) data sz) [0..<i] @ drop i coding"
  have "\<exists>bufs. foldE (\<lambda>i bufs. jerasure_matrix_dotprod G k (?row i) None (k + i) bufs sz)
      [0..<m] (data, coding) = Inr bufs \<and> ?P m bufs"
  proof (rule foldE_upt_inv[where P = ?P])
    fix i and bufs :: "regions \<times> regions"
    assume i: "i < m" and "?P i bufs"
    then have bufs: "bufs = (data, map (\<lambda>i. lin_comb G (?row i) data sz) [0..<i] @ drop i coding)"
      by (cases bufs) simp
    have row: "length (?row i) = k"
      using i wf(1) mult_le_mono1[of "Suc i" m k] by simp
    have rnz: "\<exists>j < k. ?row i ! j \<noteq> 0"
    proof -
      obtain j where "j < k" and "matrix ! (i * k + j) \<noteq> 0"
        using nz i by blast
      moreover have "?row i ! j = matrix ! (i * k + j)"
        using i wf(1) \<open>j < k\<close> mult_le_mono1[of i m k] by simp
      ultimately show ?thesis by auto
    qed
    have "jerasure_matrix_dotprod G k (?row i) None (k + i) bufs sz =
        Inr (data, (snd bufs)[i := lin_comb G (?row i) data sz])"
      unfolding bufs snd_conv using i wf row rnz
      by (intro matrix_dotprod) (auto simp: nth_append)
    moreover have "drop i coding = coding ! i # drop (Suc i) coding"
      using i wf(4) by (simp add: Cons_nth_drop_Suc)
    ultimately show "\<exists>s'. jerasure_matrix_dotprod G k (?row i) None (k + i) bufs sz = Inr s' \<and> ?P (Suc i) s'"
      by (simp add: bufs list_update_append)
  qed simp
  then show ?thesis
    using wf(4) by (auto simp: jerasure_matrix_encode_def)
qed

end

section \<open>The matrix product\<close>

lemma fold_xor_update:
  assumes "p < length m"
  shows "fold (\<lambda>k m. m[p := m ! p XOR f k]) [0..<n] m = m[p := m ! p XOR xor_sum f n]"
  using assms by (induction n) (simp_all add: xor_sum_Suc ac_simps del: xs.lessThan_Suc)

lemma flat_index_less: "i < (r :: nat) \<Longrightarrow> j < c \<Longrightarrow> i * c + j < r * c"
  using mult_le_mono1[of "Suc i" r c] by simp

lemma flat_index_inj:
  fixes i i' j j' c :: nat
  assumes "j < c" and "j' < c"
  shows "i * c + j = i' * c + j' \<longleftrightarrow> i = i' \<and> j = j'"
proof
  assume eq: "i * c + j = i' * c + j'"
  have "i = (i * c + j) div c" and "i' = (i' * c + j') div c"
    using assms by simp_all
  with eq show "i = i' \<and> j = j'" by simp
qed simp

text \<open>A row of the product, then the whole product.\<close>

lemma multiply_row:
  assumes "i * c + c \<le> length m" and "n \<le> c"
  shows "fold (\<lambda>j. fold (\<lambda>k p. p[i * c + j := p ! (i * c + j) XOR f i j k]) [0..<r]) [0..<n] m =
    take (i * c) m @ map (\<lambda>j. m ! (i * c + j) XOR xor_sum (f i j) r) [0..<n] @ drop (i * c + n) m"
  using assms
proof (induction n)
  case (Suc n)
  have "drop (i * c + n) m = m ! (i * c + n) # drop (Suc (i * c + n)) m"
    using Suc.prems by (simp add: Cons_nth_drop_Suc)
  with Suc show ?case
    by (simp add: fold_xor_update nth_append list_update_append)
qed simp

lemma multiply_row_entries:
  assumes len: "length m = r1 * c" and n: "n < r1"
    and ent: "\<forall>i < r1. \<forall>j < c. m ! (i * c + j) = (if i < n then s i j else 0)"
    and m': "m' = take (n * c) m @ map (\<lambda>j. m ! (n * c + j) XOR s n j) [0..<c] @ drop (n * c + c) m"
  shows "length m' = r1 * c \<and>
    (\<forall>i < r1. \<forall>j < c. m' ! (i * c + j) = (if i < Suc n then s i j else 0))"
proof (intro conjI allI impI)
  have bound: "n * c + c \<le> length m"
    using n len mult_le_mono1[of "Suc n" r1 c] by simp
  then show "length m' = r1 * c"
    using len by (simp add: m')
  fix i j assume ij: "i < r1" "j < c"
  consider "i < n" | "i = n" | "n < i" by linarith
  then show "m' ! (i * c + j) = (if i < Suc n then s i j else 0)"
  proof cases
    case 1
    with ij ent bound flat_index_less[of i n j c] show ?thesis
      by (simp add: m' nth_append)
  next
    case 2
    with ij ent n bound show ?thesis by (simp add: m' nth_append)
  next
    case 3
    then have "n * c + c \<le> i * c + j"
      using mult_le_mono1[of "Suc n" i c] by simp
    then have "\<not> i * c + j < n * c" and "\<not> i * c + j - n * c < c"
      and "n * c + c + (i * c + j - n * c - c) = i * c + j"
      by linarith+
    with ij ent bound 3 show ?thesis by (simp add: m' nth_append)
  qed
qed

lemma matrix_multiply_nth:
  assumes "i < r1" and "j < c2"
  shows "jerasure_matrix_multiply G m1 m2 r1 c1 r2 c2 ! (i * c2 + j) =
    xor_sum (\<lambda>k. galois_single_multiply G (m1 ! (i * c1 + k)) (m2 ! (k * c2 + j))) r2"
proof -
  let ?f = "\<lambda>i j k. galois_single_multiply G (m1 ! (i * c1 + k)) (m2 ! (k * c2 + j))"
  define P where "P n = fold (\<lambda>i. fold (\<lambda>j. fold (\<lambda>k p. p[i * c2 + j := p ! (i * c2 + j) XOR ?f i j k])
      [0..<r2]) [0..<c2]) [0..<n] (replicate (r1 * c2) 0)" for n
  have "length (P n) = r1 * c2 \<and> (\<forall>i < r1. \<forall>j < c2.
      P n ! (i * c2 + j) = (if i < n then xor_sum (?f i j) r2 else 0))" if "n \<le> r1" for n
    using that
  proof (induction n)
    case 0
    then show ?case by (auto simp: P_def flat_index_less)
  next
    case (Suc n)
    have "n * c2 + c2 \<le> length (P n)"
      using Suc mult_le_mono1[of "Suc n" r1 c2] by simp
    from multiply_row[OF this order.refl, of ?f r2]
    have "P (Suc n) = take (n * c2) (P n) @
        map (\<lambda>j. P n ! (n * c2 + j) XOR xor_sum (?f n j) r2) [0..<c2] @ drop (n * c2 + c2) (P n)"
      by (simp add: P_def)
    with Suc show ?case
      by (intro multiply_row_entries[where m = "P n" and n = n]) simp_all
  qed
  from this[of r1] assms show ?thesis
    by (simp add: jerasure_matrix_multiply_def P_def)
qed

end
