(* ===== verification/Up_Node.thy ===== *)
theory Up_Node
  imports Node_Disk Up_Commands Jerasure
begin

text \<open>
  The update node, \<open>UPNode.cc\<close>: the dispatcher \<open>doProcess\<close> and the handlers of tasks 1 to 8.
  A handler runs on node \<open>ip\<close> with the command buffer and returns the changed cluster. All of
  its receives come before its first push or disk write that another node or a later command can
  see, so it is one atomic step that is enabled when the messages it waits for are there; until
  then its result is \<open>Inl Blocked\<close>.
\<close>

section \<open>Helpers\<close>

abbreviation blk_bytes :: "config \<Rightarrow> int" where
  "blk_bytes conf \<equiv> blocksize conf * 1024"

text \<open>\<open>RPUSH key msg\<close> on the node of block \<open>blk_id\<close>.\<close>

definition push_to :: "config \<Rightarrow> int \<Rightarrow> string \<Rightarrow> byte list \<Rightarrow> world \<Rightarrow> world res" where
  "push_to conf blk_id key msg w =
     bindE (atE (helpersIPs conf) blk_id) (\<lambda>ip. Inr (rpush ip key msg w))"

definition send_ack :: "config \<Rightarrow> world \<Rightarrow> world" where
  "send_ack conf w = rpush (coordinatorIP conf) ''ack'' [of_char CHR ''1''] w"

definition check_len :: "int \<Rightarrow> int \<Rightarrow> unit res" where
  "check_len cur cmd_len = guardE (cur = cmd_len) (Exit (-1))"

text \<open>\<open>memcpy(dst + off, src, n)\<close>.\<close>

definition copy_bytes :: "byte list \<Rightarrow> int \<Rightarrow> byte list \<Rightarrow> int \<Rightarrow> int \<Rightarrow> byte list res" where
  "copy_bytes dst off src src_off n =
     bindE (memcpy_from src src_off n) (\<lambda>bs. memcpy_to dst off bs)"

text \<open>
  Matrix entries come off the wire as integers; at word size 8 a field element is a byte.
\<close>

definition encode ::
    "gf_ops \<Rightarrow> nat \<Rightarrow> nat \<Rightarrow> int list \<Rightarrow> byte list list \<Rightarrow> byte list list \<Rightarrow> int \<Rightarrow> byte list list res" where
  "encode G k m matrix data_bufs coding sz =
     bindE (jerasure_matrix_encode G k m (map word_of_int matrix) data_bufs coding (nat sz))
       (\<lambda>(_, cs). Inr cs)"

section \<open>Tasks 1 to 3: RAID\<close>

definition send_data_to_collector_for_raid ::
    "env \<Rightarrow> config \<Rightarrow> ip_addr \<Rightarrow> byte list \<Rightarrow> int \<Rightarrow> world \<Rightarrow> world res" where
  "send_data_to_collector_for_raid E conf ip upd_cmd cmd_len w =
     bindE (get_int upd_cmd 8) (\<lambda>blk_id.
     bindE (get_int upd_cmd 12) (\<lambda>collector_id.
     bindE (check_len 16 cmd_len) (\<lambda>_.
     bindE (memcpy_to (malloc E (4 + blk_bytes conf)) 0 (put_int blk_id)) (\<lambda>send0.
     bindE (readDataFromDisk E ip (blk_name blk_id) (malloc E (blk_bytes conf)) (blk_bytes conf) 0 w) (\<lambda>old.
     let new = gene_radm_buff (blk_bytes conf) in
     bindE (compute_delta (malloc E (blk_bytes conf)) old new (blk_bytes conf)) (\<lambda>delta.
     bindE (copy_bytes send0 4 delta 0 (blk_bytes conf)) (\<lambda>send_buffer.
     bindE (push_to conf collector_id ''raidData'' send_buffer w) (\<lambda>w1.
     writeDataToDisk E ip (blk_name blk_id) new (blk_bytes conf) 0 w1))))))))"

text \<open>\<open>blkid2coffs[blk_id].push_back(coff)\<close>.\<close>

definition om_push :: "int \<Rightarrow> int \<Rightarrow> (int, int list) omap \<Rightarrow> (int, int list) omap" where
  "om_push k c m = om_put k ((case map_of m k of None \<Rightarrow> [] | Some v \<Rightarrow> v) @ [c]) m"

definition raid_parse_coffs ::
    "nat \<Rightarrow> byte list \<Rightarrow> int \<Rightarrow> (int \<times> (int, int list) omap) res" where
  "raid_parse_coffs m upd_cmd upd_num =
     foldE (\<lambda>_ (cur, blkid2coffs).
       bindE (get_int upd_cmd cur) (\<lambda>blk_id.
       bindE (get_ints upd_cmd (cur + 4) m) (\<lambda>cs.
       Inr (cur + 4 + 4 * int m, fold (om_push blk_id) cs blkid2coffs))))
       [0..<nat upd_num] (12, [])"

text \<open>The first index of the local address in \<open>_helpersIPs\<close>; without one the variable is unset.\<close>

fun find_loc :: "ip_addr list \<Rightarrow> ip_addr \<Rightarrow> int \<Rightarrow> int res" where
  "find_loc [] ip i = Inl Out_Of_Bounds"
| "find_loc (x # xs) ip i = (if ip = x then Inr i else find_loc xs ip (i + 1))"

fun map_loc :: "(int, 'v) omap \<Rightarrow> int \<Rightarrow> nat \<Rightarrow> nat res" where
  "map_loc [] blk_id n = Inl (Exit 1)"
| "map_loc ((k, v) # m) blk_id n = (if k = blk_id then Inr n else map_loc m blk_id (Suc n))"

definition raid_recv_block ::
    "config \<Rightarrow> (int, int list) omap \<Rightarrow> byte list \<Rightarrow> byte list list \<Rightarrow> byte list list res" where
  "raid_recv_block conf blkid2coffs msg buffer =
     bindE (get_int msg 0) (\<lambda>blk_id.
     bindE (map_loc blkid2coffs blk_id 0) (\<lambda>loc.
     bindE (memcpy_from msg 4 (blk_bytes conf)) (\<lambda>bs. Inr (buffer[loc := bs]))))"

definition raid_encode_coff ::
    "nat \<Rightarrow> (int, int list) omap \<Rightarrow> int list res" where
  "raid_encode_coff m blkid2coffs =
     bindE (mapE (\<lambda>i. mapE (\<lambda>(_, cs). atE cs (int i)) blkid2coffs) [0..<m]) (\<lambda>rows. Inr (concat rows))"

definition raid_send_parity ::
    "config \<Rightarrow> int list \<Rightarrow> byte list list \<Rightarrow> world \<Rightarrow> world res" where
  "raid_send_parity conf parity_id_vec delta_buffer =
     foldE (\<lambda>blk_id w. bindE (atE delta_buffer (int (ecN conf) - blk_id - 1)) (\<lambda>d.
       push_to conf blk_id ''raidData'' d w)) parity_id_vec"

definition recv_and_compute_and_send_for_raid ::
    "gf_ops \<Rightarrow> env \<Rightarrow> config \<Rightarrow> ip_addr \<Rightarrow> byte list \<Rightarrow> int \<Rightarrow> world \<Rightarrow> world res" where
  "recv_and_compute_and_send_for_raid G E conf ip upd_cmd cmd_len w =
     bindE (get_int upd_cmd 8) (\<lambda>upd_num.
     bindE (raid_parse_coffs (ecM conf) upd_cmd upd_num) (\<lambda>(cur, blkid2coffs).
     bindE (get_ints upd_cmd cur (ecM conf)) (\<lambda>parity_id_vec.
     bindE (check_len (cur + 4 * int (ecM conf)) cmd_len) (\<lambda>_.
     bindE (find_loc (helpersIPs conf) ip 0) (\<lambda>loc_blk_id.
     bindE (map_loc blkid2coffs loc_blk_id 0) (\<lambda>loc.
     bindE (readDataFromDisk E ip (blk_name loc_blk_id) (malloc E (blk_bytes conf)) (blk_bytes conf) 0 w) (\<lambda>d.
     let buffer = (replicate (nat upd_num) (malloc E (blk_bytes conf)))[loc := d] in
     bindE (if upd_num - 1 = 0 then Inr (buffer, w)
            else recv_count (blpop ip ''raidData'') (raid_recv_block conf blkid2coffs)
              (upd_num - 1) buffer w) (\<lambda>(buffer', w1).
     bindE (raid_encode_coff (ecM conf) blkid2coffs) (\<lambda>encode_coff.
     bindE (encode G (nat upd_num) (ecM conf) encode_coff buffer'
              (replicate (ecM conf) (malloc E (blk_bytes conf))) (blk_bytes conf)) (\<lambda>delta_buffer.
     raid_send_parity conf parity_id_vec delta_buffer w1))))))))))"

definition recv_and_save_for_raid ::
    "env \<Rightarrow> config \<Rightarrow> ip_addr \<Rightarrow> byte list \<Rightarrow> int \<Rightarrow> world \<Rightarrow> world res" where
  "recv_and_save_for_raid E conf ip upd_cmd cmd_len w =
     bindE (get_int upd_cmd 8) (\<lambda>blk_id.
     bindE (check_len 12 cmd_len) (\<lambda>_.
     bindE (blpop ip ''raidData'' w) (\<lambda>(msg, w1).
     bindE (copy_bytes (malloc E (blk_bytes conf)) 0 msg 0 (blk_bytes conf)) (\<lambda>buffer.
     bindE (writeDataToDisk E ip (blk_name blk_id) buffer (blk_bytes conf) 0 w1) (\<lambda>w2.
     Inr (send_ack conf w2))))))"

section \<open>Tasks 4 and 5: delta\<close>

text \<open>
  \<open>ptr\<close> is the representation of the pointer \<open>parity_delta_buff[0]\<close>, the 8 bytes at
  \<open>&parity_delta_buff[0]\<close>, which the code passes to \<open>memcpy\<close> in place of the buffer it
  points to.
\<close>

definition delta_send_one ::
    "gf_ops \<Rightarrow> env \<Rightarrow> config \<Rightarrow> byte list \<Rightarrow> int \<Rightarrow> int \<Rightarrow> byte list \<Rightarrow> int \<times> int \<Rightarrow> world \<Rightarrow> world res" where
  "delta_send_one G E conf ptr offset_add upd_size data_delta pc w =
     (case pc of (coff, blk_id) \<Rightarrow>
       bindE (encode G 1 1 [coff] [data_delta] [malloc E (upd_size * 1024)] (upd_size * 1024)) (\<lambda>_.
       bindE (memcpy_to (malloc E (8 + upd_size * 1024)) 0 (put_int offset_add)) (\<lambda>s0.
       bindE (memcpy_to s0 4 (put_int upd_size)) (\<lambda>s1.
       bindE (copy_bytes s1 8 ptr 0 (upd_size * 1024)) (\<lambda>send_buff.
       push_to conf blk_id ''deltaData'' send_buff w)))))"

definition send_parity_delta_to_each_parity_for_delta ::
    "gf_ops \<Rightarrow> env \<Rightarrow> byte list \<Rightarrow> config \<Rightarrow> ip_addr \<Rightarrow> byte list \<Rightarrow> int \<Rightarrow> world \<Rightarrow> world res" where
  "send_parity_delta_to_each_parity_for_delta G E ptr conf ip upd_cmd cmd_len w =
     bindE (get_int upd_cmd 8) (\<lambda>loc_blk_id.
     bindE (get_int upd_cmd 12) (\<lambda>offset_add.
     bindE (get_int upd_cmd 16) (\<lambda>upd_size.
     bindE (get_ints upd_cmd 20 (ecM conf)) (\<lambda>coff_vec.
     bindE (get_ints upd_cmd (20 + 4 * int (ecM conf)) (ecM conf)) (\<lambda>parity_id_vec.
     bindE (check_len (20 + 8 * int (ecM conf)) cmd_len) (\<lambda>_.
     bindE (readDataFromDisk E ip (blk_name loc_blk_id) (malloc E (upd_size * 1024))
              (upd_size * 1024) (offset_add * 1024) w) (\<lambda>old.
     let new = gene_radm_buff (upd_size * 1024) in
     bindE (compute_delta (malloc E (upd_size * 1024)) old new (upd_size * 1024)) (\<lambda>data_delta.
     bindE (foldE (delta_send_one G E conf ptr offset_add upd_size data_delta)
              (zip coff_vec parity_id_vec) w) (\<lambda>w1.
     writeDataToDisk E ip (blk_name loc_blk_id) new (upd_size * 1024) (offset_add * 1024) w1)))))))))"

definition delta_recv_block :: "byte list \<Rightarrow> nat \<times> byte list list \<Rightarrow> (nat \<times> byte list list) res" where
  "delta_recv_block msg st =
     (case st of (cnt, delta_buff) \<Rightarrow>
       bindE (get_int msg 0) (\<lambda>offset_add.
       bindE (get_int msg 4) (\<lambda>upd_size.
       bindE (atE delta_buff (int cnt)) (\<lambda>buf.
       bindE (copy_bytes buf offset_add msg 8 (upd_size * 1024)) (\<lambda>buf'.
       Inr (Suc cnt, delta_buff[cnt := buf']))))))"

definition recv_parity_delta_and_aggre_for_delta ::
    "gf_ops \<Rightarrow> env \<Rightarrow> config \<Rightarrow> ip_addr \<Rightarrow> byte list \<Rightarrow> int \<Rightarrow> world \<Rightarrow> world res" where
  "recv_parity_delta_and_aggre_for_delta G E conf ip upd_cmd cmd_len w =
     bindE (get_int upd_cmd 8) (\<lambda>upd_num.
     bindE (get_int upd_cmd 12) (\<lambda>loc_blk_id.
     bindE (check_len 16 cmd_len) (\<lambda>_.
     let zero = replicate (nat (blk_bytes conf)) 0 in
     bindE (readDataFromDisk E ip (blk_name loc_blk_id) zero (blk_bytes conf) 0 w) (\<lambda>old.
     bindE (recv_count (blpop ip ''deltaData'') delta_recv_block upd_num
              (0, replicate (nat upd_num) zero @ [old]) w) (\<lambda>((_, delta_buff), w1).
     bindE (encode G (nat (upd_num + 1)) 1 (replicate (nat (upd_num + 1)) 1) delta_buff
              [malloc E (blk_bytes conf)] (blk_bytes conf)) (\<lambda>new_parity_buff.
     bindE (atE new_parity_buff 0) (\<lambda>p.
     bindE (writeDataToDisk E ip (blk_name loc_blk_id) p (blocksize conf) 0 w1) (\<lambda>w2.
     Inr (send_ack conf w2)))))))))"

section \<open>Tasks 6 to 8: CRD\<close>

definition send_data_delta_to_parity_collector_for_crd ::
    "env \<Rightarrow> config \<Rightarrow> ip_addr \<Rightarrow> byte list \<Rightarrow> int \<Rightarrow> world \<Rightarrow> world res" where
  "send_data_delta_to_parity_collector_for_crd E conf ip upd_cmd cmd_len w =
     bindE (get_int upd_cmd 8) (\<lambda>loc_blk_id.
     bindE (get_int upd_cmd 12) (\<lambda>offset_add.
     bindE (get_int upd_cmd 16) (\<lambda>upd_size.
     bindE (get_int upd_cmd 20) (\<lambda>parity_collector_id.
     bindE (check_len 24 cmd_len) (\<lambda>_.
     bindE (memcpy_to (malloc E (4 + upd_size * 1024)) 0 (put_int loc_blk_id)) (\<lambda>send0.
     bindE (readDataFromDisk E ip (blk_name loc_blk_id) (malloc E (upd_size * 1024))
              (upd_size * 1024) (offset_add * 1024) w) (\<lambda>old.
     let new = gene_radm_buff (upd_size * 1024) in
     bindE (compute_delta (malloc E (upd_size * 1024)) old new (upd_size * 1024)) (\<lambda>delta.
     bindE (copy_bytes send0 4 delta 0 (upd_size * 1024)) (\<lambda>send_buffer.
     bindE (push_to conf parity_collector_id ''crdData'' send_buffer w) (\<lambda>w1.
     writeDataToDisk E ip (blk_name loc_blk_id) new (upd_size * 1024) (offset_add * 1024) w1))))))))))"

text \<open>
  What the collector reads from its command: the ids in order and the maps
  \<open>blk_id2sub_set_id\<close>, \<open>blk_id2off_size\<close> and \<open>blk_id2coff\<close>.
\<close>

record crd_info =
  ci_ids :: "int list"
  ci_sub_set :: "(int, int) omap"
  ci_off_size :: "(int, int \<times> int) omap"
  ci_coff :: "(int, int list) omap"

definition crd_parse_blk :: "nat \<Rightarrow> byte list \<Rightarrow> int \<times> crd_info \<Rightarrow> (int \<times> crd_info) res" where
  "crd_parse_blk m upd_cmd st =
     (case st of (cur, ci) \<Rightarrow>
       bindE (get_int upd_cmd cur) (\<lambda>blk_id.
       bindE (get_int upd_cmd (cur + 4)) (\<lambda>sub_set_id.
       bindE (get_int upd_cmd (cur + 8)) (\<lambda>offset_add.
       bindE (get_int upd_cmd (cur + 12)) (\<lambda>upd_size.
       bindE (get_ints upd_cmd (cur + 16) m) (\<lambda>coff_t.
       Inr (cur + 16 + 4 * int m,
         \<lparr>ci_ids = ci_ids ci @ [blk_id],
          ci_sub_set = om_put blk_id sub_set_id (ci_sub_set ci),
          ci_off_size = om_put blk_id (offset_add, upd_size) (ci_off_size ci),
          ci_coff = om_put blk_id coff_t (ci_coff ci)\<rparr>)))))))"

definition crd_parse_blks :: "nat \<Rightarrow> byte list \<Rightarrow> int \<Rightarrow> (int \<times> crd_info) res" where
  "crd_parse_blks m upd_cmd upd_num =
     foldE (\<lambda>_. crd_parse_blk m upd_cmd) [0..<nat upd_num]
       (20, \<lparr>ci_ids = [], ci_sub_set = [], ci_off_size = [], ci_coff = []\<rparr>)"

text \<open>One message of a data node: its delta goes to the place of its range in a zeroed block.\<close>

definition crd_recv_delta ::
    "(int, int \<times> int) omap \<Rightarrow> byte list \<Rightarrow> (int, byte list) omap \<Rightarrow> (int, byte list) omap res" where
  "crd_recv_delta blk_id2off_size msg bufs =
     bindE (get_int msg 0) (\<lambda>blk_id.
     bindE (om_at blk_id2off_size blk_id) (\<lambda>(off, sz).
     bindE (om_at bufs blk_id) (\<lambda>buf.
     bindE (copy_bytes buf (off * 1024) msg 4 (sz * 1024)) (\<lambda>buf'.
     Inr (om_put blk_id buf' bufs)))))"

text \<open>The merged range of sub-set \<open>i\<close> as the collector computes it.\<close>

definition collector_extent :: "crd_info \<Rightarrow> int \<Rightarrow> (int \<times> int) res" where
  "collector_extent ci i =
     bindE (foldE (\<lambda>blk_id (start_add, end_add).
         if map_of (ci_sub_set ci) blk_id = Some i
         then bindE (om_at (ci_off_size ci) blk_id) (\<lambda>(off, sz).
           Inr (min start_add off, max end_add (off + sz - 1)))
         else Inr (start_add, end_add)) (ci_ids ci) (INT_MAX, INT_MIN))
       (\<lambda>(start_add, end_add). Inr (start_add, end_add - start_add + 1))"

definition crd_matrix :: "nat \<Rightarrow> crd_info \<Rightarrow> int list res" where
  "crd_matrix m ci =
     bindE (mapE (\<lambda>i. mapE (\<lambda>blk_id. bindE (om_at (ci_coff ci) blk_id) (\<lambda>cs. atE cs (int i))) (ci_ids ci))
       [0..<m]) (\<lambda>rows. Inr (concat rows))"

text \<open>The collector's own parity block is read, xored with its delta and written back.\<close>

definition crd_update_local ::
    "gf_ops \<Rightarrow> env \<Rightarrow> config \<Rightarrow> ip_addr \<Rightarrow> int \<Rightarrow> byte list \<Rightarrow> world \<Rightarrow> world res" where
  "crd_update_local G E conf ip loc_blk_id delta w =
     bindE (readDataFromDisk E ip (blk_name loc_blk_id) (malloc E (blk_bytes conf)) (blk_bytes conf) 0 w) (\<lambda>old.
     bindE (copy_bytes (malloc E (blk_bytes conf)) 0 delta 0 (blk_bytes conf)) (\<lambda>d.
     bindE (encode G 2 1 [1, 1] [old, d] [malloc E (blk_bytes conf)] (blk_bytes conf)) (\<lambda>ps.
     bindE (atE ps 0) (\<lambda>p.
     writeDataToDisk E ip (blk_name loc_blk_id) p (blk_bytes conf) 0 w))))"

text \<open>The other parity blocks get one message per sub-set.\<close>

definition crd_send_sub_sets ::
    "env \<Rightarrow> config \<Rightarrow> (int \<times> int) list \<Rightarrow> int \<Rightarrow> byte list \<Rightarrow> world \<Rightarrow> world res" where
  "crd_send_sub_sets E conf exts blk_id delta =
     foldE (\<lambda>j w.
       bindE (atE exts (int j)) (\<lambda>(offset_add, upd_size).
       bindE (memcpy_to (malloc E (4 + blk_bytes conf)) 0 (put_int (int j))) (\<lambda>s0.
       bindE (copy_bytes s0 4 delta (offset_add * 1024) (upd_size * 1024)) (\<lambda>s1.
       bindE (memcpy_from s1 0 (4 + upd_size * 1024)) (\<lambda>msg.
       push_to conf blk_id ''crdData'' msg w))))) [0..<length exts]"

definition crd_distribute ::
    "gf_ops \<Rightarrow> env \<Rightarrow> config \<Rightarrow> ip_addr \<Rightarrow> int \<Rightarrow> (int \<times> int) list \<Rightarrow> byte list list \<Rightarrow>
     world \<Rightarrow> world res" where
  "crd_distribute G E conf ip loc_blk_id exts parity_delta_buff =
     foldE (\<lambda>i w.
       bindE (atE parity_delta_buff (int i)) (\<lambda>delta.
       if int (ecK conf + i) = loc_blk_id
       then crd_update_local G E conf ip loc_blk_id delta w
       else crd_send_sub_sets E conf exts (int (ecK conf + i)) delta w)) [0..<ecM conf]"

definition recv_and_compute_in_parity_collector_for_crd ::
    "gf_ops \<Rightarrow> env \<Rightarrow> config \<Rightarrow> ip_addr \<Rightarrow> byte list \<Rightarrow> int \<Rightarrow> world \<Rightarrow> world res" where
  "recv_and_compute_in_parity_collector_for_crd G E conf ip upd_cmd cmd_len w =
     bindE (get_int upd_cmd 8) (\<lambda>loc_blk_id.
     bindE (get_int upd_cmd 12) (\<lambda>upd_num.
     bindE (get_int upd_cmd 16) (\<lambda>sub_set_num.
     bindE (crd_parse_blks (ecM conf) upd_cmd upd_num) (\<lambda>(cur, ci).
     bindE (get_ints upd_cmd cur (ecM conf - 1)) (\<lambda>_.
     bindE (check_len (cur + 4 * int (ecM conf - 1)) cmd_len) (\<lambda>_.
     let zero = replicate (nat (blk_bytes conf)) 0;
         bufs = fold (\<lambda>blk_id. om_put blk_id zero) (ci_ids ci) []
     in
     bindE (recv_count (blpop ip ''crdData'') (crd_recv_delta (ci_off_size ci)) upd_num bufs w) (\<lambda>(bufs', w1).
     bindE (mapE (om_at bufs') (ci_ids ci)) (\<lambda>data_delta_buff.
     bindE (mapE (\<lambda>i. collector_extent ci (int i)) [0..<nat sub_set_num]) (\<lambda>exts.
     bindE (crd_matrix (ecM conf) ci) (\<lambda>matrix.
     bindE (encode G (nat upd_num) (ecM conf) matrix data_delta_buff
              (replicate (ecM conf) zero) (blk_bytes conf)) (\<lambda>parity_delta_buff.
     bindE (crd_distribute G E conf ip loc_blk_id exts parity_delta_buff w1) (\<lambda>w2.
     Inr (send_ack conf w2)))))))))))))"

definition crd_parse_sub_sets :: "byte list \<Rightarrow> int \<Rightarrow> (int \<times> (int, int \<times> int) omap) res" where
  "crd_parse_sub_sets upd_cmd sub_set_num =
     foldE (\<lambda>_ (cur, m).
       bindE (get_int upd_cmd cur) (\<lambda>sub_set_id.
       bindE (get_int upd_cmd (cur + 4)) (\<lambda>offset_add.
       bindE (get_int upd_cmd (cur + 8)) (\<lambda>upd_size.
       Inr (cur + 12, om_put sub_set_id (offset_add, upd_size) m)))))
       [0..<nat sub_set_num] (16, [])"

definition crd_recv_parity_delta ::
    "(int, int \<times> int) omap \<Rightarrow> byte list \<Rightarrow> byte list list \<Rightarrow> byte list list res" where
  "crd_recv_parity_delta sub_set_id2off_size msg parity_buff =
     bindE (get_int msg 0) (\<lambda>sub_set_id.
     bindE (om_at sub_set_id2off_size sub_set_id) (\<lambda>(off, sz).
     bindE (atE parity_buff sub_set_id) (\<lambda>buf.
     bindE (copy_bytes buf (off * 1024) msg 4 (sz * 1024)) (\<lambda>buf'.
     Inr (parity_buff[nat sub_set_id := buf'])))))"

definition recv_parity_delta_and_aggre_for_crd ::
    "gf_ops \<Rightarrow> env \<Rightarrow> config \<Rightarrow> ip_addr \<Rightarrow> byte list \<Rightarrow> int \<Rightarrow> world \<Rightarrow> world res" where
  "recv_parity_delta_and_aggre_for_crd G E conf ip upd_cmd cmd_len w =
     bindE (get_int upd_cmd 8) (\<lambda>loc_blk_id.
     bindE (get_int upd_cmd 12) (\<lambda>sub_set_num.
     bindE (crd_parse_sub_sets upd_cmd sub_set_num) (\<lambda>(cur, sub_set_id2off_size).
     bindE (check_len cur cmd_len) (\<lambda>_.
     let zero = replicate (nat (blk_bytes conf)) 0 in
     bindE (recv_count (blpop ip ''crdData'') (crd_recv_parity_delta sub_set_id2off_size) sub_set_num
              (replicate (nat (sub_set_num + 1)) zero) w) (\<lambda>(parity_buff, w1).
     bindE (atE parity_buff sub_set_num) (\<lambda>last_buff.
     bindE (readDataFromDisk E ip (blk_name loc_blk_id) last_buff (blk_bytes conf) 0 w1) (\<lambda>old.
     bindE (encode G (nat (sub_set_num + 1)) 1 (replicate (nat (sub_set_num + 1)) 1)
              (parity_buff[nat sub_set_num := old]) [malloc E (blk_bytes conf)] (blk_bytes conf)) (\<lambda>ps.
     bindE (atE ps 0) (\<lambda>p.
     bindE (writeDataToDisk E ip (blk_name loc_blk_id) p (blk_bytes conf) 0 w1) (\<lambda>w2.
     Inr (send_ack conf w2)))))))))))"

section \<open>doProcess\<close>

definition node_dispatch ::
    "gf_ops \<Rightarrow> env \<Rightarrow> byte list \<Rightarrow> config \<Rightarrow> ip_addr \<Rightarrow> int \<Rightarrow> byte list \<Rightarrow> int \<Rightarrow> world \<Rightarrow> world res" where
  "node_dispatch G E ptr conf ip task_type upd_cmd cmd_len w =
     (if task_type = 1 then send_data_to_collector_for_raid E conf ip upd_cmd cmd_len w
      else if task_type = 2 then recv_and_compute_and_send_for_raid G E conf ip upd_cmd cmd_len w
      else if task_type = 3 then recv_and_save_for_raid E conf ip upd_cmd cmd_len w
      else if task_type = 4 then send_parity_delta_to_each_parity_for_delta G E ptr conf ip upd_cmd cmd_len w
      else if task_type = 5 then recv_parity_delta_and_aggre_for_delta G E conf ip upd_cmd cmd_len w
      else if task_type = 6 then send_data_delta_to_parity_collector_for_crd E conf ip upd_cmd cmd_len w
      else if task_type = 7 then recv_and_compute_in_parity_collector_for_crd G E conf ip upd_cmd cmd_len w
      else if task_type = 8 then recv_parity_delta_and_aggre_for_crd G E conf ip upd_cmd cmd_len w
      else Inl (Exit (-1)))"

text \<open>
  One round of the command loop. The command is copied to \<open>upd_cmd[COMMAND_MAX_LENGTH]\<close>; the
  rest of the array is whatever was there.
\<close>

definition node_doProcess ::
    "gf_ops \<Rightarrow> env \<Rightarrow> byte list \<Rightarrow> config \<Rightarrow> ip_addr \<Rightarrow> world \<Rightarrow> world res" where
  "node_doProcess G E ptr conf ip w =
     bindE (blpop ip ''upd_cmds'' w) (\<lambda>(msg, w1).
     bindE (get_int msg 0) (\<lambda>task_type.
     bindE (get_int msg 4) (\<lambda>cmd_len.
     bindE (copy_bytes (malloc E (int COMMAND_MAX_LENGTH)) 0 msg 0 cmd_len) (\<lambda>upd_cmd.
     node_dispatch G E ptr conf ip task_type upd_cmd cmd_len w1))))"

end
