(* ===== verification/Node_Parse.thy ===== *)
theory Node_Parse
  imports Up_Node
begin

text \<open>
  The wire format: what the command parsers of \<open>UPNode.cc\<close> read from a command that
  \<open>UPCoordinator.cc\<close> has built. The command is followed in the buffer by bytes that do not
  matter.
\<close>

section \<open>Reading a command buffer\<close>

lemma get_int_cmd:
  assumes "cur = 4 * int i" and "i < length xs" and "list_all int32 xs"
  shows "get_int (put_ints xs @ post) cur = Inr (xs ! i)"
proof -
  have "put_ints xs @ post =
      put_ints (take i xs) @ put_int (xs ! i) @ (put_ints (drop (Suc i) xs) @ post)"
    by (metis append_assoc assms(2) id_take_nth_drop put_ints_Cons put_ints_append)
  then show ?thesis
    using assms by (simp add: get_int_append list_all_length)
qed

lemma get_ints_cmd:
  assumes "cur = 4 * int i" and "i + n \<le> length xs" and "list_all int32 xs"
  shows "get_ints (put_ints xs @ post) cur n = Inr (take n (drop i xs))"
proof -
  have "xs = take i xs @ take n (drop i xs) @ drop (i + n) xs"
    by (metis add.commute append_take_drop_id drop_drop)
  then have "put_ints xs @ post =
      put_ints (take i xs) @ put_ints (take n (drop i xs)) @ (put_ints (drop (i + n) xs) @ post)"
    by (metis append_assoc put_ints_append)
  moreover have "list_all int32 (take n (drop i xs))"
    using assms(3) by (auto simp: list_all_iff dest: in_set_takeD in_set_dropD)
  ultimately show ?thesis
    using assms(1,2) by (simp add: get_ints_append)
qed

text \<open>The message formats with one integer in front of the payload.\<close>

lemma get_int_msg: "int32 x \<Longrightarrow> get_int (put_int x @ post) 0 = Inr x"
  using get_int_cmd[of 0 0 "[x]" post] by simp

lemma memcpy_from_msg: "n = int (length d) \<Longrightarrow> memcpy_from (put_int x @ d) 4 n = Inr d"
  by (simp add: memcpy_from_def)

lemma memcpy_from_msg_take:
  "0 \<le> n \<Longrightarrow> n \<le> int (length d) \<Longrightarrow> memcpy_from (put_int x @ d) 4 n = Inr (take (nat n) d)"
  by (simp add: memcpy_from_def)

lemma mk_cmd_Inr:
  "mk_cmd t args = Inr c \<longleftrightarrow>
    c = put_ints (t # 4 * (2 + int (length args)) # args) \<and> 4 * (2 + length args) \<le> COMMAND_MAX_LENGTH"
  by (auto simp: mk_cmd_def Let_def)

lemma memcpy_to_zero: "length bs \<le> length dst \<Longrightarrow> memcpy_to dst 0 bs = Inr (bs @ drop (length bs) dst)"
  by (simp add: memcpy_to_def overwrite_def)

text \<open>The dispatcher hands the handler the task and the command that were sent.\<close>

lemma node_doProcess_cmd:
  assumes "mk_cmd t args = Inr c" and "list_all int32 args" and "int32 t"
    and "w_queues w ip ''upd_cmds'' = c # rest"
  obtains w1 where "w_files w1 = w_files w"
    and "w_queues w1 = (w_queues w)(ip := (w_queues w ip)(''upd_cmds'' := rest))"
    and "node_doProcess G E ptr conf ip w =
      node_dispatch G E ptr conf ip t (c @ replicate (COMMAND_MAX_LENGTH - length c) (malloc_byte E))
        (4 * (2 + int (length args))) w1"
proof -
  let ?l = "4 * (2 + int (length args))"
  have c: "c = put_ints (t # ?l # args)" and le: "4 * (2 + length args) \<le> COMMAND_MAX_LENGTH"
    using assms(1) by (simp_all add: mk_cmd_Inr)
  have ok: "list_all int32 (t # ?l # args)"
    using assms(2,3) le by (simp add: COMMAND_MAX_LENGTH_def)
  have hd: "get_int c 0 = Inr t" "get_int c 4 = Inr ?l"
    using get_int_put_ints[OF _ _ ok, of 0 0] get_int_put_ints[OF _ _ ok, of 4 1] c by simp_all
  have len: "int (length c) = ?l" "length c \<le> COMMAND_MAX_LENGTH"
    using le by (simp_all add: c)
  have "copy_bytes (malloc E (int COMMAND_MAX_LENGTH)) 0 c 0 ?l =
      Inr (c @ replicate (COMMAND_MAX_LENGTH - length c) (malloc_byte E))"
    using len by (simp add: copy_bytes_def memcpy_from_def memcpy_to_zero malloc_def flip: len(1))
  then show ?thesis
    using assms(4) hd
    by (intro that[of "w\<lparr>w_queues := (w_queues w)(ip := (w_queues w ip)(''upd_cmds'' := rest))\<rparr>"])
      (simp_all add: node_doProcess_def blpop_def)
qed

section \<open>The command of the parity collector\<close>

definition crd_fields :: "(upd_block \<Rightarrow> int) \<Rightarrow> (upd_block \<Rightarrow> int list) \<Rightarrow> upd_block \<Rightarrow> int list" where
  "crd_fields sub cf b = [ub_id b, sub b, ub_offset_add b, ub_upd_size b] @ cf b"

text \<open>What the collector keeps of the command.\<close>

definition crd_info_of :: "(upd_block \<Rightarrow> int) \<Rightarrow> (upd_block \<Rightarrow> int list) \<Rightarrow> upd_block list \<Rightarrow> crd_info" where
  "crd_info_of sub cf v =
     \<lparr>ci_ids = map ub_id v,
      ci_sub_set = fold (\<lambda>b. om_put (ub_id b) (sub b)) v [],
      ci_off_size = fold (\<lambda>b. om_put (ub_id b) (ub_offset_add b, ub_upd_size b)) v [],
      ci_coff = fold (\<lambda>b. om_put (ub_id b) (cf b)) v []\<rparr>"

lemma crd_parse_blk_fields:
  assumes "list_all int32 (pre @ crd_fields sub cf b @ suf)" and "length (cf b) = m"
    and "cur = 4 * int (length pre)"
  shows "crd_parse_blk m (put_ints (pre @ crd_fields sub cf b @ suf) @ post) (cur, crd_info_of sub cf v) =
    Inr (cur + 16 + 4 * int m, crd_info_of sub cf (v @ [b]))"
proof -
  let ?xs = "pre @ crd_fields sub cf b @ suf"
  have len: "length ?xs = length pre + 4 + m + length suf"
    using assms(2) by (simp add: crd_fields_def)
  have i: "get_int (put_ints ?xs @ post) (cur + 4 * int j) = Inr (crd_fields sub cf b ! j)" if "j < 4" for j
  proof -
    have "j < length (crd_fields sub cf b)"
      using that by (simp add: crd_fields_def)
    then have "?xs ! (length pre + j) = crd_fields sub cf b ! j"
      by (simp add: nth_append_length_plus nth_append)
    then show ?thesis
      using get_int_cmd[OF _ _ assms(1), of "cur + 4 * int j" "length pre + j" post] that len assms(3)
      by simp
  qed
  have "take m (drop (length pre + 4) ?xs) = cf b"
    using assms(2) by (simp add: crd_fields_def)
  then have "get_ints (put_ints ?xs @ post) (cur + 16) m = Inr (cf b)"
    using get_ints_cmd[OF _ _ assms(1), of "cur + 16" "length pre + 4" m post] len assms(3) by simp
  then show ?thesis
    using i[of 0] i[of 1] i[of 2] i[of 3]
    by (simp add: crd_parse_blk_def crd_info_of_def crd_fields_def)
qed

lemma crd_parse_blks_fields:
  assumes "list_all int32 (pre @ concat (map (crd_fields sub cf) v) @ suf)"
    and "\<forall>b \<in> set v. length (cf b) = m" and "length pre = 5"
  shows "crd_parse_blks m (put_ints (pre @ concat (map (crd_fields sub cf) v) @ suf) @ post)
      (int (length v)) =
    Inr (20 + int (length v) * (16 + 4 * int m), crd_info_of sub cf v)"
proof -
  let ?cmd = "put_ints (pre @ concat (map (crd_fields sub cf) v) @ suf) @ post"
  let ?P = "\<lambda>i st. st = (20 + int i * (16 + 4 * int m), crd_info_of sub cf (take i v))"
  have "\<exists>st. foldE (\<lambda>_. crd_parse_blk m ?cmd) [0..<length v]
      (20, \<lparr>ci_ids = [], ci_sub_set = [], ci_off_size = [], ci_coff = []\<rparr>) = Inr st \<and> ?P (length v) st"
  proof (rule foldE_upt_inv[where P = ?P])
    fix i and st :: "int \<times> crd_info"
    assume i: "i < length v" and st: "?P i st"
    let ?pre = "pre @ concat (map (crd_fields sub cf) (take i v))"
    let ?suf = "concat (map (crd_fields sub cf) (drop (Suc i) v)) @ suf"
    have split: "pre @ concat (map (crd_fields sub cf) v) @ suf = ?pre @ crd_fields sub cf (v ! i) @ ?suf"
      by (subst id_take_nth_drop[OF i]) simp
    have "length (concat (map (crd_fields sub cf) bs)) = length bs * (4 + m)"
      if "set bs \<subseteq> set v" for bs
      using that assms(2) by (induction bs) (auto simp: crd_fields_def)
    from this[of "take i v"] have len: "length ?pre = 5 + i * (4 + m)"
      using i assms(3) by (simp add: set_take_subset min_def)
    have "crd_parse_blk m ?cmd (20 + int i * (16 + 4 * int m), crd_info_of sub cf (take i v)) =
        Inr (20 + int i * (16 + 4 * int m) + 16 + 4 * int m, crd_info_of sub cf (take i v @ [v ! i]))"
      unfolding split using assms i len
      by (intro crd_parse_blk_fields) (auto simp: split algebra_simps)
    then show "\<exists>st'. crd_parse_blk m ?cmd st = Inr st' \<and> ?P (Suc i) st'"
      using i st by (simp add: take_Suc_conv_app_nth algebra_simps)
  qed (simp add: crd_info_of_def)
  then show ?thesis
    by (simp add: crd_parse_blks_def)
qed

text \<open>The maps of \<open>crd_info_of\<close> for distinct ids.\<close>

lemma map_of_fold_om_put:
  assumes "distinct (map key v)" and "b \<in> set v"
  shows "map_of (fold (\<lambda>b. om_put (key b) (f b)) v m) (key b) = Some (f b)"
  using assms
proof (induction v arbitrary: m)
  case (Cons a v)
  have other: "map_of (fold (\<lambda>b. om_put (key b) (f b)) v m) k = map_of m k" if "k \<notin> key ` set v" for k m
    using that by (induction v arbitrary: m) (simp_all add: map_of_om_put)
  show ?case
  proof (cases "b \<in> set v")
    case True
    with Cons show ?thesis by simp
  next
    case False
    then have "b = a" using Cons.prems by simp
    moreover have "key a \<notin> key ` set v" using Cons.prems by simp
    ultimately show ?thesis by (simp add: other map_of_om_put)
  qed
qed simp

section \<open>The command of the other parity nodes\<close>

lemma crd_parse_sub_sets_fields:
  assumes "list_all int32 (pre @ concat (map (\<lambda>(i, e). [i, fst e, snd e]) es) @ suf)"
    and "length pre = 4"
  shows "crd_parse_sub_sets (put_ints (pre @ concat (map (\<lambda>(i, e). [i, fst e, snd e]) es) @ suf) @ post)
      (int (length es)) =
    Inr (16 + 12 * int (length es), fold (\<lambda>(i, e). om_put i e) es [])"
proof -
  let ?f = "\<lambda>(i :: int, e :: int \<times> int). [i, fst e, snd e]"
  let ?xs = "pre @ concat (map ?f es) @ suf"
  let ?P = "\<lambda>i st. st = (16 + 12 * int i, fold (\<lambda>(i, e). om_put i e) (take i es) [])"
  have "\<exists>st. foldE (\<lambda>_ (cur, m).
       bindE (get_int (put_ints ?xs @ post) cur) (\<lambda>sub_set_id.
       bindE (get_int (put_ints ?xs @ post) (cur + 4)) (\<lambda>offset_add.
       bindE (get_int (put_ints ?xs @ post) (cur + 8)) (\<lambda>upd_size.
       Inr (cur + 12, om_put sub_set_id (offset_add, upd_size) m)))))
       [0..<length es] (16, []) = Inr st \<and> ?P (length es) st"
  proof (rule foldE_upt_inv[where P = ?P])
    fix i and st :: "int \<times> (int \<times> int \<times> int) list"
    assume i: "i < length es" and st: "?P i st"
    have split: "?xs = (pre @ concat (map ?f (take i es))) @ ?f (es ! i) @
        (concat (map ?f (drop (Suc i) es)) @ suf)"
      by (subst id_take_nth_drop[OF i]) simp
    have "length (concat (map ?f bs)) = 3 * length bs" for bs
      by (induction bs) auto
    then have len: "length (pre @ concat (map ?f (take i es))) = 4 + 3 * i"
      using i assms(2) by simp
    have "length ?xs = 4 + 3 * length es + length suf"
      using assms(2) \<open>\<And>bs. length (concat (map ?f bs)) = 3 * length bs\<close> by simp
    then have "get_int (put_ints ?xs @ post) (16 + 12 * int i + 4 * int j) = Inr (?f (es ! i) ! j)"
      if "j < 3" for j
    proof -
      have "?xs ! (4 + 3 * i + j) = ?f (es ! i) ! j"
        using that len by (subst split) (auto simp: nth_append split: prod.splits)
      then show ?thesis
        using get_int_cmd[OF _ _ assms(1), of "16 + 12 * int i + 4 * int j" "4 + 3 * i + j" post]
          that i \<open>length ?xs = 4 + 3 * length es + length suf\<close> by simp
    qed
    from this[of 0] this[of 1] this[of 2] show "\<exists>st'. (case st of (cur, m) \<Rightarrow>
       bindE (get_int (put_ints ?xs @ post) cur) (\<lambda>sub_set_id.
       bindE (get_int (put_ints ?xs @ post) (cur + 4)) (\<lambda>offset_add.
       bindE (get_int (put_ints ?xs @ post) (cur + 8)) (\<lambda>upd_size.
       Inr (cur + 12, om_put sub_set_id (offset_add, upd_size) m))))) = Inr st' \<and> ?P (Suc i) st'"
      using i st by (simp add: take_Suc_conv_app_nth split: prod.splits)
  qed simp
  then show ?thesis
    by (simp add: crd_parse_sub_sets_def)
qed

end
