(* ===== verification/Crd_Node.thy ===== *)
theory Crd_Node
  imports Node_Parse
begin

text \<open>
  The behaviour of the three CRD handlers of \<open>UPNode.cc\<close> on the commands \<open>CrdUpdate\<close> builds:
  what a data node sends, what the parity collector computes and sends on, what another parity
  node ends up with. The theory \<open>Crd_Cluster\<close> puts them together.
\<close>

section \<open>An update of a block\<close>

text \<open>A block of a stripe: its range lies within the block size (in KB).\<close>

definition blk_in :: "config \<Rightarrow> upd_block \<Rightarrow> bool" where
  "blk_in conf b \<longleftrightarrow> 0 \<le> ub_offset_add b \<and> 0 \<le> ub_upd_size b \<and>
     ub_offset_add b + ub_upd_size b \<le> blocksize conf \<and> int32 (ub_id b)"

definition upd_new :: "upd_block \<Rightarrow> byte list" where
  "upd_new b = gene_radm_buff (ub_upd_size b * 1024)"

definition upd_delta :: "upd_block \<Rightarrow> byte list \<Rightarrow> byte list" where
  "upd_delta b fd =
     xor_bytes (take (nat (ub_upd_size b * 1024)) (drop (nat (ub_offset_add b * 1024)) fd)) (upd_new b)"

definition upd_file :: "upd_block \<Rightarrow> byte list \<Rightarrow> byte list" where
  "upd_file b fd = overwrite fd (nat (ub_offset_add b * 1024)) (upd_new b)"

text \<open>The delta at its place in a block of zeros.\<close>

definition place :: "nat \<Rightarrow> upd_block \<Rightarrow> byte list \<Rightarrow> byte list" where
  "place n b d = overwrite (replicate n 0) (nat (ub_offset_add b * 1024)) d"

lemma length_upd_new [simp]: "length (upd_new b) = nat (ub_upd_size b * 1024)"
  by (simp add: upd_new_def)

lemma blk_in_bytes:
  assumes "blk_in conf b"
  shows "nat (ub_offset_add b * 1024) + nat (ub_upd_size b * 1024) \<le> nat (blk_bytes conf)"
proof -
  have "ub_offset_add b * 1024 + ub_upd_size b * 1024 \<le> blk_bytes conf"
    using assms by (simp add: blk_in_def)
  then show ?thesis
    using assms nat_mono by (fastforce simp: blk_in_def simp flip: nat_add_distrib)
qed

lemma length_upd_delta [simp]:
  assumes "blk_in conf b" and "length fd = nat (blk_bytes conf)"
  shows "length (upd_delta b fd) = nat (ub_upd_size b * 1024)"
  using blk_in_bytes[OF assms(1)] assms(2) by (simp add: upd_delta_def)

lemma length_upd_file [simp]:
  assumes "blk_in conf b" and "length fd = nat (blk_bytes conf)"
  shows "length (upd_file b fd) = length fd"
  using blk_in_bytes[OF assms(1)] assms(2) by (simp add: upd_file_def)

lemma length_place [simp]:
  assumes "blk_in conf b" and "length d = nat (ub_upd_size b * 1024)" and "n = nat (blk_bytes conf)"
  shows "length (place n b d) = n"
  using blk_in_bytes[OF assms(1)] assms(2,3) by (simp add: place_def)

text \<open>Writing the new data is xoring the placed delta into the block.\<close>

lemma upd_file_xor:
  assumes "blk_in conf b" and "length fd = nat (blk_bytes conf)"
  shows "upd_file b fd = xor_bytes fd (place (length fd) b (upd_delta b fd))"
proof (rule nth_equalityI)
  note le = blk_in_bytes[OF assms(1)]
  note ld = length_upd_delta[OF assms]
  show "length (upd_file b fd) = length (xor_bytes fd (place (length fd) b (upd_delta b fd)))"
    using length_upd_file[OF assms] length_place[OF assms(1) ld, of "length fd"] assms(2) by simp
  fix i assume "i < length (upd_file b fd)"
  then have i: "i < length fd"
    using length_upd_file[OF assms] by simp
  let ?o = "nat (ub_offset_add b * 1024)" and ?s = "nat (ub_upd_size b * 1024)"
  have pl: "place (length fd) b (upd_delta b fd) ! i =
      (if ?o \<le> i \<and> i < ?o + ?s then upd_delta b fd ! (i - ?o) else 0)"
    using i le ld assms(2) by (simp add: place_def nth_overwrite)
  have "upd_delta b fd ! (i - ?o) = fd ! i XOR upd_new b ! (i - ?o)" if "?o \<le> i" "i < ?o + ?s"
  proof -
    obtain j where "i = ?o + j" "j < ?s"
      using \<open>?o \<le> i\<close> \<open>i < ?o + ?s\<close> by (metis le_Suc_ex nat_add_left_cancel_less)
    then show ?thesis
      using i le assms(2) by (simp add: upd_delta_def)
  qed
  moreover have "length (place (length fd) b (upd_delta b fd)) = length fd"
    using length_place[OF assms(1) ld, of "length fd"] assms(2) by simp
  ultimately show "upd_file b fd ! i = xor_bytes fd (place (length fd) b (upd_delta b fd)) ! i"
    using i le assms(2) pl by (simp add: upd_file_def nth_overwrite flip: xor.assoc)
qed

section \<open>Task 6\<close>

lemma crd_data_node:
  assumes "io_ok E" and "blk_in conf b" and "w_files w ip (blk_name (ub_id b)) = Some fd"
    and "length fd = nat (blk_bytes conf)" and "atE (helpersIPs conf) pc = Inr dst"
    and "int32 (blocksize conf)" and "int32 pc"
  shows "send_data_delta_to_parity_collector_for_crd E conf ip
      (put_ints [6, 24, ub_id b, ub_offset_add b, ub_upd_size b, pc] @ post) 24 w =
    Inr (put_file ip (blk_name (ub_id b)) (upd_file b fd)
      (rpush dst ''crdData'' (put_int (ub_id b) @ upd_delta b fd) w))"
proof -
  let ?xs = "[6, 24, ub_id b, ub_offset_add b, ub_upd_size b, pc]"
  let ?n = "ub_upd_size b * 1024" and ?o = "ub_offset_add b * 1024"
  have ok: "list_all int32 ?xs"
    using assms(2,6,7) by (auto simp: blk_in_def)
  have args: "get_int (put_ints ?xs @ post) 8 = Inr (ub_id b)"
    "get_int (put_ints ?xs @ post) 12 = Inr (ub_offset_add b)"
    "get_int (put_ints ?xs @ post) 16 = Inr (ub_upd_size b)"
    "get_int (put_ints ?xs @ post) 20 = Inr pc"
    using get_int_cmd[OF _ _ ok, of 8 2 post] get_int_cmd[OF _ _ ok, of 12 3 post]
      get_int_cmd[OF _ _ ok, of 16 4 post] get_int_cmd[OF _ _ ok, of 20 5 post]
    by (simp_all del: put_ints_Cons)
  have nn: "0 \<le> ?n" "0 \<le> ?o" "?o + ?n \<le> int (length fd)"
    using assms(2,4) by (auto simp: blk_in_def)
  have rd: "readDataFromDisk E ip (blk_name (ub_id b)) (malloc E ?n) ?n ?o w =
      Inr (take (nat ?n) (drop (nat ?o) fd))"
    using readDataFromDisk_eq[OF assms(1,3) nn(2,1,3)] by simp
  have dl: "compute_delta (malloc E ?n) (take (nat ?n) (drop (nat ?o) fd)) (gene_radm_buff ?n) ?n =
      Inr (upd_delta b fd)"
    using nn compute_delta_eq[of "take (nat ?n) (drop (nat ?o) fd)" ?n "gene_radm_buff ?n" "malloc E ?n"]
    by (simp add: upd_delta_def upd_new_def)
  have cp: "copy_bytes (put_int (ub_id b) @ drop 4 (malloc E (4 + ?n))) 4 (upd_delta b fd) 0 ?n =
      Inr (put_int (ub_id b) @ upd_delta b fd)"
    using nn(1) length_upd_delta[OF assms(2,4)]
    by (simp add: copy_bytes_def memcpy_from_def memcpy_to_def overwrite_def)
  have wr: "writeDataToDisk E ip (blk_name (ub_id b)) (gene_radm_buff ?n) ?n ?o
        (rpush dst ''crdData'' (put_int (ub_id b) @ upd_delta b fd) w) =
      Inr (put_file ip (blk_name (ub_id b)) (upd_file b fd)
        (rpush dst ''crdData'' (put_int (ub_id b) @ upd_delta b fd) w))"
    using nn assms(3) by (subst writeDataToDisk_eq[OF assms(1)]) (auto simp: upd_file_def upd_new_def)
  show ?thesis
    using nn(1) assms(5)
    by (simp add: send_data_delta_to_parity_collector_for_crd_def args check_len_def memcpy_to_zero
        rd dl cp push_to_def wr Let_def del: put_ints_Cons)
qed

section \<open>Encoding\<close>

lemma mapE_map: "mapE f (map g xs) = mapE (\<lambda>x. f (g x)) xs"
  by (induction xs) simp_all

lemma concat_rows:
  assumes "\<And>i. i < m \<Longrightarrow> length (f i) = k" and "i < m"
  shows "take k (drop (i * k) (concat (map f [0..<m]))) = f i"
proof -
  have len: "length (concat (map f xs)) = length xs * k" if "\<forall>i \<in> set xs. length (f i) = k" for xs
    using that by (induction xs) auto
  have "[0..<m] = [0..<i] @ i # [Suc i..<m]"
    using assms(2) by (metis le_add_diff_inverse less_imp_le upt_add_eq_append upt_conv_Cons zero_le)
  then have "concat (map f [0..<m]) = concat (map f [0..<i]) @ f i @ concat (map f [Suc i..<m])"
    by simp
  moreover have "length (concat (map f [0..<i])) = i * k"
    using assms by (subst len) auto
  ultimately show ?thesis
    using assms by simp
qed

lemma length_concat_rows:
  assumes "\<And>i. i < m \<Longrightarrow> length (f i) = k"
  shows "length (concat (map f [0..<m])) = m * k"
  using assms by (induction m) simp_all

text \<open>\<open>encode\<close> with the rows \<open>f i\<close> computes the combinations they prescribe.\<close>

lemma encode_rows:
  assumes "gf_complete G" and "\<And>i. i < m \<Longrightarrow> length (f i) = k" and "length data = k"
    and "\<forall>r \<in> set data. length r = n" and "length coding = m" and "\<forall>r \<in> set coding. length r = n"
    and "4 dvd n" and "\<And>i. i < m \<Longrightarrow> \<exists>j < k. word_of_int (f i ! j) \<noteq> (0 :: byte)"
    and "n = nat sz"
  shows "encode G k m (concat (map f [0..<m])) data coding sz =
    Inr (map (\<lambda>i. lin_comb G (map word_of_int (f i)) data n) [0..<m])"
proof -
  let ?M = "map word_of_int (concat (map f [0..<m])) :: byte list"
  have rows: "take k (drop (i * k) ?M) = map word_of_int (f i)" if "i < m" for i
    using concat_rows[OF assms(2) that] by (simp add: take_map drop_map)
  have "\<exists>j < k. ?M ! (i * k + j) \<noteq> 0" if i: "i < m" for i
  proof -
    obtain j where j: "j < k" "word_of_int (f i ! j) \<noteq> (0 :: byte)"
      using assms(8)[OF i] by blast
    have "i * k \<le> length ?M"
      using length_concat_rows[OF assms(2)] i by (simp add: mult_le_mono1)
    then have "?M ! (i * k + j) = take k (drop (i * k) ?M) ! j"
      using j(1) by simp
    then show ?thesis
      using rows[OF i] j assms(2)[OF i] by (metis nth_map)
  qed
  moreover have "length ?M = m * k"
    using length_concat_rows[OF assms(2)] by simp
  ultimately have "jerasure_matrix_encode G k m ?M data coding n =
      Inr (data, map (\<lambda>i. lin_comb G (take k (drop (i * k) ?M)) data n) [0..<m])"
    using assms(3-7) by (intro gf_complete.matrix_encode[OF assms(1)]) auto
  then show ?thesis
    using rows assms(9) by (simp add: encode_def cong: map_cong)
qed

text \<open>A row of ones xors.\<close>

lemma lin_comb_ones:
  assumes "gf_complete G" and "\<forall>r \<in> set data. length r = n" and "b < n"
  shows "lin_comb G (replicate (length data) 1) data n ! b = xor_sum (\<lambda>i. data ! i ! b) (length data)"
proof -
  have "gf_multiply G 1 x = x" for x
    by (rule gf_complete.mult_one[OF assms(1)])
  then show ?thesis
    using assms(3) by (simp add: lin_byte_def cong: xs.cong_simp)
qed

lemma encode_ones:
  assumes "gf_complete G" and "data \<noteq> []" and "\<forall>r \<in> set data. length r = n" and "length c = n"
    and "4 dvd n" and "n = nat sz"
  shows "\<exists>p. encode G (length data) 1 (replicate (length data) 1) data [c] sz = Inr [p] \<and> length p = n \<and>
    (\<forall>b < n. p ! b = xor_sum (\<lambda>i. data ! i ! b) (length data))"
proof -
  let ?k = "length data"
  have "encode G ?k 1 (concat (map (\<lambda>_. replicate ?k 1) [0..<1])) data [c] sz =
      Inr (map (\<lambda>i. lin_comb G (map word_of_int (replicate ?k 1)) data n) [0..<1])"
    using assms by (intro encode_rows) (auto intro: exI[of _ 0])
  moreover have "map word_of_int (replicate ?k 1) = (replicate ?k 1 :: byte list)"
    by simp
  ultimately show ?thesis
    using lin_comb_ones[OF assms(1,3)] by auto
qed

section \<open>Task 7: receiving\<close>

text \<open>
  The deltas may arrive in any order; each ends up in the buffer of its block.
\<close>

lemma crd_recv_fold:
  assumes "distinct (map ub_id bs)" and "\<forall>b \<in> set bs. blk_in conf b"
    and "\<forall>b \<in> set bs. length (dl b) = nat (ub_upd_size b * 1024)"
    and "\<forall>b \<in> set bs. map_of offs (ub_id b) = Some (ub_offset_add b, ub_upd_size b)"
    and "\<forall>b \<in> set bs. map_of bufs (ub_id b) = Some (replicate (nat (blk_bytes conf)) 0)"
  shows "\<exists>bufs'. foldE (crd_recv_delta offs) (map (\<lambda>b. put_int (ub_id b) @ dl b) bs) bufs = Inr bufs' \<and>
    (\<forall>b \<in> set bs. map_of bufs' (ub_id b) = Some (place (nat (blk_bytes conf)) b (dl b))) \<and>
    (\<forall>i. i \<notin> ub_id ` set bs \<longrightarrow> map_of bufs' i = map_of bufs i)"
  using assms
proof (induction bs arbitrary: bufs)
  case (Cons b bs)
  let ?z = "replicate (nat (blk_bytes conf)) 0 :: byte list"
  have b: "blk_in conf b" "length (dl b) = nat (ub_upd_size b * 1024)"
    "map_of offs (ub_id b) = Some (ub_offset_add b, ub_upd_size b)" "map_of bufs (ub_id b) = Some ?z"
    using Cons.prems by simp_all
  have nn: "0 \<le> ub_upd_size b" "0 \<le> ub_offset_add b" "int32 (ub_id b)"
    using b(1) by (auto simp: blk_in_def)
  have "copy_bytes ?z (ub_offset_add b * 1024) (put_int (ub_id b) @ dl b) 4 (ub_upd_size b * 1024) =
      Inr (place (nat (blk_bytes conf)) b (dl b))"
    using nn b(2) blk_in_bytes[OF b(1)]
    by (simp add: copy_bytes_def memcpy_from_msg memcpy_to_def place_def)
  then have step: "crd_recv_delta offs (put_int (ub_id b) @ dl b) bufs =
      Inr (om_put (ub_id b) (place (nat (blk_bytes conf)) b (dl b)) bufs)"
    using nn b(3,4) by (simp add: crd_recv_delta_def get_int_msg om_at_def)
  have others: "\<forall>a \<in> set bs. map_of (om_put (ub_id b) (place (nat (blk_bytes conf)) b (dl b)) bufs) (ub_id a) = Some ?z"
    using Cons.prems(1,5) by (simp add: map_of_om_put) (metis imageI)
  obtain bufs' where "foldE (crd_recv_delta offs) (map (\<lambda>b. put_int (ub_id b) @ dl b) bs)
        (om_put (ub_id b) (place (nat (blk_bytes conf)) b (dl b)) bufs) = Inr bufs'"
      "\<forall>b \<in> set bs. map_of bufs' (ub_id b) = Some (place (nat (blk_bytes conf)) b (dl b))"
      "\<forall>i. i \<notin> ub_id ` set bs \<longrightarrow> map_of bufs' i =
        map_of (om_put (ub_id b) (place (nat (blk_bytes conf)) b (dl b)) bufs) i"
    using Cons.IH[OF _ _ _ _ others] Cons.prems by auto
  with step Cons.prems(1) show ?case
    by (intro exI[of _ bufs']) (auto simp: map_of_om_put)
qed simp

section \<open>Task 7: the merged ranges\<close>

lemma fold_min_max:
  "fold (\<lambda>b (s, e). (min s (f b), max e (g b))) bs (s0 :: int, e0 :: int) =
    (Min (insert s0 (f ` set bs)), Max (insert e0 (g ` set bs)))"
proof (induction bs arbitrary: s0 e0)
  case (Cons b bs)
  have "Min (insert (min s0 (f b)) (f ` set bs)) = Min (insert s0 (insert (f b) (f ` set bs)))"
    by (cases "bs = []") (simp_all add: min.assoc)
  moreover have "Max (insert (max e0 (g b)) (g ` set bs)) = Max (insert e0 (insert (g b) (g ` set bs)))"
    by (cases "bs = []") (simp_all add: max.assoc)
  ultimately show ?case by (simp add: Cons)
qed simp

lemma hull_Min_Max:
  "hull N = (Min (insert INT_MAX (ub_offset_add ` set N)),
     Max (insert 0 ((\<lambda>b. ub_offset_add b + ub_upd_size b) ` set N)))"
  by (simp add: hull_def fold_min_max)

definition sub_set_extent :: "upd_block list \<Rightarrow> int \<times> int" where
  "sub_set_extent N = (fst (hull N), snd (hull N) - fst (hull N))"

lemma collector_extent_eq:
  assumes "distinct (map ub_id v)" and "set N = {b \<in> set v. sub b = i}" and "N \<noteq> []"
    and "\<forall>b \<in> set v. blk_valid b"
  shows "collector_extent (crd_info_of sub cf v) i = Inr (sub_set_extent N)"
proof -
  let ?ci = "crd_info_of sub cf v"
  let ?body = "\<lambda>blk_id (start_add, end_add).
    if map_of (ci_sub_set ?ci) blk_id = Some i
    then bindE (om_at (ci_off_size ?ci) blk_id) (\<lambda>(off, sz).
      Inr (min start_add off, max end_add (off + sz - 1)))
    else Inr (start_add, end_add)"
  let ?g = "\<lambda>b. ub_offset_add b + ub_upd_size b"
  have body: "?body (ub_id b) st = Inr (if sub b = i
      then (min (fst st) (ub_offset_add b), max (snd st) (?g b - 1)) else st)" if "b \<in> set v" for b st
    using map_of_fold_om_put[OF assms(1) that, of sub "[]"]
      map_of_fold_om_put[OF assms(1) that, of "\<lambda>b. (ub_offset_add b, ub_upd_size b)" "[]"]
    by (cases st) (simp add: crd_info_of_def om_at_def)
  have loop: "foldE ?body (map ub_id bs) st =
      Inr (fold (\<lambda>b (s, e). (min s (ub_offset_add b), max e (?g b - 1))) (filter (\<lambda>b. sub b = i) bs) st)"
    if "set bs \<subseteq> set v" for bs st
    using that by (induction bs arbitrary: st) (auto simp: body split: prod.splits)
  have S: "{b \<in> set v. sub b = i} = set N" "set N \<noteq> {}" "finite (set N)"
    using assms(2,3) by (simp_all flip: assms(2))
  have "Max (insert INT_MIN ((\<lambda>b. ?g b - 1) ` set N)) = Max (insert 0 (?g ` set N)) - 1"
  proof -
    have ge: "0 \<le> x" if "x \<in> ?g ` set N" for x
      using that assms(2,4) by (auto simp: blk_valid_def)
    have "(\<lambda>b. ?g b - 1) ` set N = (\<lambda>x. x - 1) ` ?g ` set N"
      by (simp add: image_image)
    then have "Max ((\<lambda>b. ?g b - 1) ` set N) = Max (?g ` set N) - 1"
      using S mono_Max_commute[of "\<lambda>x. x - 1" "?g ` set N"] by (simp add: mono_def)
    moreover have "0 \<le> Max (?g ` set N)"
      using S by (intro ge Max_in) auto
    ultimately show ?thesis
      using S by (simp add: INT_MIN_def Max_insert)
  qed
  then show ?thesis
    using loop[of v "(INT_MAX, INT_MIN)"] S(1)
    by (simp add: collector_extent_def fold_min_max sub_set_extent_def hull_Min_Max)
       (simp add: crd_info_of_def)
qed

section \<open>Task 7: updating and sending\<close>

lemma four_dvd_blk: "4 dvd nat (blk_bytes conf)"
proof (cases "0 \<le> blocksize conf")
  case True
  then have "nat (blk_bytes conf) = 4 * (256 * nat (blocksize conf))"
    by (simp add: nat_mult_distrib)
  then show ?thesis by simp
qed simp

lemma crd_update_local_eq:
  assumes "gf_complete G" and "io_ok E" and "w_files w ip (blk_name i) = Some old"
    and "length old = nat (blk_bytes conf)" and "length delta = nat (blk_bytes conf)"
    and "0 \<le> blocksize conf"
  shows "crd_update_local G E conf ip i delta w = Inr (put_file ip (blk_name i) (xor_bytes old delta) w)"
proof -
  let ?n = "blk_bytes conf"
  have rd: "readDataFromDisk E ip (blk_name i) (malloc E ?n) ?n 0 w = Inr old"
    using readDataFromDisk_eq[OF assms(2,3), of 0 ?n "malloc E ?n"] assms(4,6) by simp
  have cp: "copy_bytes (malloc E ?n) 0 delta 0 ?n = Inr delta"
    using assms(5,6) by (simp add: copy_bytes_def memcpy_from_def memcpy_to_zero)
  obtain p where p: "encode G 2 1 [1, 1] [old, delta] [malloc E ?n] ?n = Inr [p]" "length p = nat ?n"
    "\<forall>b < nat ?n. p ! b = xor_sum (\<lambda>i. [old, delta] ! i ! b) 2"
    using encode_ones[OF assms(1), of "[old, delta]" "nat ?n" "malloc E ?n" ?n] assms(4,5) four_dvd_blk
    by (auto simp: numeral_2_eq_2)
  have "p = xor_bytes old delta"
    using p(2,3) assms(4,5) by (intro nth_equalityI) (auto simp: numeral_2_eq_2 xor_sum_Suc)
  moreover have "writeDataToDisk E ip (blk_name i) p ?n 0 w =
      Inr (put_file ip (blk_name i) (overwrite old 0 p) w)"
    using assms(4,6) p(2) by (subst writeDataToDisk_eq[OF assms(2,3)]) auto
  ultimately show ?thesis
    using p(2) assms(4) by (simp add: crd_update_local_def rd cp p(1)[unfolded One_nat_def] overwrite_def)
qed

text \<open>The message with the part of a parity delta that belongs to sub-set \<open>j\<close>.\<close>

definition sub_set_msg :: "byte list \<Rightarrow> (int \<times> int) list \<Rightarrow> nat \<Rightarrow> byte list" where
  "sub_set_msg delta exts j =
     put_int (int j) @
       take (nat (snd (exts ! j) * 1024)) (drop (nat (fst (exts ! j) * 1024)) delta)"

definition ext_in :: "config \<Rightarrow> int \<times> int \<Rightarrow> bool" where
  "ext_in conf e \<longleftrightarrow> 0 \<le> fst e \<and> 0 \<le> snd e \<and> fst e + snd e \<le> blocksize conf"

lemma crd_send_sub_sets_eq:
  assumes "\<forall>e \<in> set exts. ext_in conf e" and "length delta = nat (blk_bytes conf)"
    and "atE (helpersIPs conf) i = Inr dst"
  shows "crd_send_sub_sets E conf exts i delta w =
    Inr (fold (\<lambda>j. rpush dst ''crdData'' (sub_set_msg delta exts j)) [0..<length exts] w)"
  unfolding crd_send_sub_sets_def
proof (rule foldE_Inr_fold)
  fix j and w :: world assume "j \<in> set [0..<length exts]"
  then have j: "j < length exts" by simp
  obtain off sz where e: "exts ! j = (off, sz)" by fastforce
  have ok: "0 \<le> off" "0 \<le> sz" "off + sz \<le> blocksize conf"
    using assms(1) j e by (auto simp: ext_in_def dest!: nth_mem)
  let ?d = "take (nat (sz * 1024)) (drop (nat (off * 1024)) delta)"
  have "off * 1024 + sz * 1024 \<le> int (length delta)"
    using ok assms(2) by simp
  then have d: "memcpy_from delta (off * 1024) (sz * 1024) = Inr ?d" "length ?d = nat (sz * 1024)"
    using ok by (auto simp: memcpy_from_def nat_le_iff)
  have fits: "nat (sz * 1024) \<le> nat (blk_bytes conf)"
    using ok by (intro nat_mono) simp
  let ?r = "drop (4 + nat (sz * 1024)) (malloc E (4 + blk_bytes conf))"
  have "memcpy_to (put_int (int j) @ drop 4 (malloc E (4 + blk_bytes conf))) 4 ?d =
      Inr (put_int (int j) @ ?d @ ?r)"
    using ok fits d(2) by (simp add: memcpy_to_def overwrite_def nat_add_distrib add.commute)
  moreover have "memcpy_from (put_int (int j) @ ?d @ ?r) 0 (4 + sz * 1024) = Inr (put_int (int j) @ ?d)"
    using ok fits d(2) by (simp add: memcpy_from_def nat_add_distrib)
  moreover have "4 \<le> length (malloc E (4 + blk_bytes conf))"
    using ok by simp
  ultimately show "bindE (atE exts (int j)) (\<lambda>(offset_add, upd_size).
       bindE (memcpy_to (malloc E (4 + blk_bytes conf)) 0 (put_int (int j))) (\<lambda>s0.
       bindE (copy_bytes s0 4 delta (offset_add * 1024) (upd_size * 1024)) (\<lambda>s1.
       bindE (memcpy_from s1 0 (4 + upd_size * 1024)) (\<lambda>msg.
       push_to conf i ''crdData'' msg w)))) = Inr (rpush dst ''crdData'' (sub_set_msg delta exts j) w)"
    using j d(1) assms(3)
    by (simp add: e memcpy_to_zero copy_bytes_def push_to_def sub_set_msg_def)
qed

lemma queues_fold_rpush:
  "w_queues (fold (\<lambda>j. rpush ip key (msg j)) js w) ip' key' =
    w_queues w ip' key' @ (if ip' = ip \<and> key' = key then map msg js else [])"
  by (induction js arbitrary: w) auto

lemma files_fold_rpush: "w_files (fold (\<lambda>j. rpush ip key (msg j)) js w) = w_files w"
  by (induction js arbitrary: w) auto

text \<open>
  The state after the collector's last loop: its own block is updated and every other parity
  node has its messages, in the order of the sub-sets.
\<close>

lemma crd_distribute_eq:
  assumes "gf_complete G" and "io_ok E" and "w_files w ip (blk_name (int (ecK conf + c))) = Some old"
    and "length old = nat (blk_bytes conf)" and "length pd = ecM conf"
    and "\<forall>d \<in> set pd. length d = nat (blk_bytes conf)" and "0 \<le> blocksize conf"
    and "\<forall>e \<in> set exts. ext_in conf e" and "length (helpersIPs conf) = ecN conf" and "c < ecM conf"
    and "distinct (helpersIPs conf)"
  shows "\<exists>w'. crd_distribute G E conf ip (int (ecK conf + c)) exts pd w = Inr w' \<and>
    w_files w' = (w_files w)(ip := (w_files w ip)(blk_name (int (ecK conf + c)) := Some (xor_bytes old (pd ! c)))) \<and>
    (\<forall>i < ecM conf. \<forall>key. w_queues w' (helpersIPs conf ! (ecK conf + i)) key =
      w_queues w (helpersIPs conf ! (ecK conf + i)) key @
        (if i \<noteq> c \<and> key = ''crdData'' then map (sub_set_msg (pd ! i) exts) [0..<length exts] else [])) \<and>
    (\<forall>ip' key. (\<forall>i < ecM conf. ip' \<noteq> helpersIPs conf ! (ecK conf + i)) \<longrightarrow>
      w_queues w' ip' key = w_queues w ip' key)"
proof -
  let ?K = "ecK conf" and ?M = "ecM conf" and ?H = "helpersIPs conf"
  let ?P = "\<lambda>n w'.
    w_files w' = (if c < n then (w_files w)(ip := (w_files w ip)
      (blk_name (int (?K + c)) := Some (xor_bytes old (pd ! c)))) else w_files w) \<and>
    (\<forall>i < ?M. \<forall>key. w_queues w' (?H ! (?K + i)) key = w_queues w (?H ! (?K + i)) key @
        (if i < n \<and> i \<noteq> c \<and> key = ''crdData'' then map (sub_set_msg (pd ! i) exts) [0..<length exts] else [])) \<and>
    (\<forall>ip' key. (\<forall>i < ?M. ip' \<noteq> ?H ! (?K + i)) \<longrightarrow> w_queues w' ip' key = w_queues w ip' key)"
  have "\<exists>w'. crd_distribute G E conf ip (int (?K + c)) exts pd w = Inr w' \<and> ?P ?M w'"
    unfolding crd_distribute_def
  proof (rule foldE_upt_inv[where P = ?P])
    fix i and w1 :: world assume i: "i < ?M" and P: "?P i w1"
    have delta: "atE pd (int i) = Inr (pd ! i)" "length (pd ! i) = nat (blk_bytes conf)"
      using i assms(5,6) by auto
    show "\<exists>w'. bindE (atE pd (int i)) (\<lambda>delta. if int (?K + i) = int (?K + c)
        then crd_update_local G E conf ip (int (?K + c)) delta w1
        else crd_send_sub_sets E conf exts (int (?K + i)) delta w1) = Inr w' \<and> ?P (Suc i) w'"
    proof (cases "i = c")
      case True
      have "crd_update_local G E conf ip (int (?K + c)) (pd ! c) w1 =
          Inr (put_file ip (blk_name (int (?K + c))) (xor_bytes old (pd ! c)) w1)"
        using P True assms delta by (intro crd_update_local_eq) auto
      then show ?thesis
        using P True delta by (auto simp: less_Suc_eq)
    next
      case False
      have idx: "?K + i < length ?H"
        using i assms(9) by simp
      have "crd_send_sub_sets E conf exts (int (?K + i)) (pd ! i) w1 =
          Inr (fold (\<lambda>j. rpush (?H ! (?K + i)) ''crdData'' (sub_set_msg (pd ! i) exts j)) [0..<length exts] w1)"
        using assms(8) delta(2) idx by (intro crd_send_sub_sets_eq) (simp_all del: of_nat_add)
      moreover have "?H ! (?K + j) = ?H ! (?K + i) \<longleftrightarrow> j = i" if "j < ?M" for j
        using that i assms(9,11) by (simp add: nth_eq_iff_index_eq)
      ultimately show ?thesis
        using P False delta i
        by (auto simp: queues_fold_rpush files_fold_rpush less_Suc_eq)
    qed
  qed simp
  then show ?thesis
    using assms(10) by (elim exE) (rule exI, auto)
qed

section \<open>A stripe and its updates\<close>

text \<open>
  A configuration with one helper per block, a coding matrix without zero entries and blocks
  below 2 GB.
\<close>

definition stripe_ok :: "config \<Rightarrow> byte list \<Rightarrow> bool" where
  "stripe_ok conf rsEncMat \<longleftrightarrow>
     0 < ecK conf \<and> ecK conf < ecN conf \<and> int32 (int (ecN conf)) \<and>
     length (helpersIPs conf) = ecN conf \<and> distinct (helpersIPs conf) \<and>
     length rsEncMat = ecM conf * ecK conf \<and> 0 \<notin> set rsEncMat \<and>
     0 < blocksize conf \<and> int32 (blk_bytes conf)"

text \<open>
  The updates of one stripe: at most one per data block, each on the node of its block, few
  enough for the collector's command to fit its array.
\<close>

definition updates_ok :: "config \<Rightarrow> upd_block list \<Rightarrow> bool" where
  "updates_ok conf v \<longleftrightarrow>
     v \<noteq> [] \<and> distinct (map ub_id v) \<and>
     (\<forall>b \<in> set v. blk_in conf b \<and> 0 \<le> ub_id b \<and> ub_id b < int (ecK conf) \<and>
        ub_ip b = helpersIPs conf ! nat (ub_id b)) \<and>
     4 * (4 + length v * (4 + ecM conf) + ecM conf) \<le> COMMAND_MAX_LENGTH"

definition coff_of :: "config \<Rightarrow> byte list \<Rightarrow> upd_block \<Rightarrow> int list" where
  "coff_of conf rsEncMat b =
     map (\<lambda>j. uint (rsEncMat ! (j * ecK conf + nat (ub_id b)))) [0..<ecM conf]"

definition sub_of :: "upd_block list \<Rightarrow> upd_block \<Rightarrow> int" where
  "sub_of v b = get_sub_set_id (get_upd_solu_crd v) (ub_id b)"

lemma updates_ok_valid:
  assumes "stripe_ok conf M" and "updates_ok conf v"
  shows "\<forall>b \<in> set v. blk_valid b"
  using assms by (force simp: stripe_ok_def updates_ok_def blk_in_def blk_valid_def INT_MAX_def)

lemma coff_index:
  assumes "stripe_ok conf M" and "updates_ok conf v" and "b \<in> set v" and "j < ecM conf"
  shows "j * ecK conf + nat (ub_id b) < length M"
proof -
  have "nat (ub_id b) < ecK conf"
    using assms(2,3) by (auto simp: updates_ok_def)
  then show ?thesis
    using flat_index_less[of j "ecM conf" "nat (ub_id b)" "ecK conf"] assms(1,4)
    by (simp add: stripe_ok_def)
qed

lemma coffs_eq:
  assumes "stripe_ok conf M" and "updates_ok conf v" and "b \<in> set v"
  shows "coffs conf M (ub_id b) = Inr (coff_of conf M b)"
  unfolding coffs_def coff_of_def
proof (rule mapE_Inr_map)
  fix j assume "j \<in> set [0..<ecM conf]"
  then have "j * ecK conf + nat (ub_id b) < length M"
    using coff_index[OF assms] by simp
  moreover have "int j * int (ecK conf) + ub_id b = int (j * ecK conf + nat (ub_id b))"
    using assms(2,3) by (auto simp: updates_ok_def)
  ultimately show "bindE (atE M (int j * int (ecK conf) + ub_id b)) (\<lambda>c. Inr (uint c)) =
      Inr (uint (M ! (j * ecK conf + nat (ub_id b))))"
    by (simp del: of_nat_add of_nat_mult)
qed

lemma coff_of_int32: "list_all int32 (coff_of conf M b)"
proof -
  have "uint x < 2147483648 \<and> 0 \<le> uint x" for x :: byte
    using uint_lt2p[of x] uint_ge_0[of x] by simp
  then show ?thesis
    by (auto simp: coff_of_def list_all_iff intro: order_trans[of _ 0])
qed

lemma sub_of_group:
  assumes "distinct (map ub_id v)" and "i < length (groups v)"
  shows "set (groups v ! i) = {b \<in> set v. sub_of v b = int i}"
proof (intro equalityI subsetI CollectI conjI)
  fix b assume b: "b \<in> set (groups v ! i)"
  then have "b \<in> set (concat (groups v))"
    using assms(2) by auto
  then show "b \<in> set v"
    using groups_mset[of v] by (metis set_mset_mset)
  show "sub_of v b = int i"
    unfolding sub_of_def by (rule get_sub_set_id_groups[OF assms b])
next
  fix b assume b: "b \<in> {b \<in> set v. sub_of v b = int i}"
  then obtain k where k: "k < length (groups v)" "b \<in> set (groups v ! k)"
    using groups_member[of b v] by auto
  then have "sub_of v b = int k"
    unfolding sub_of_def by (intro get_sub_set_id_groups[OF assms(1)])
  with b k show "b \<in> set (groups v ! i)" by simp
qed

text \<open>The ranges the collector sends, and that they lie in the block.\<close>

definition extents :: "upd_block list \<Rightarrow> (int \<times> int) list" where
  "extents v = map sub_set_extent (groups v)"

lemma hull_bounds:
  assumes "b \<in> set N"
  shows "fst (hull N) \<le> ub_offset_add b" "ub_offset_add b + ub_upd_size b \<le> snd (hull N)"
  using assms by (auto simp: hull_Min_Max intro!: Min_le Max_ge)

lemma hull_attained:
  assumes "N \<noteq> []" and "\<forall>b \<in> set N. blk_valid b"
  obtains b b' where "b \<in> set N" "fst (hull N) = ub_offset_add b"
    "b' \<in> set N" "snd (hull N) = ub_offset_add b' + ub_upd_size b'"
proof -
  have lo: "fst (hull N) \<in> ub_offset_add ` set N"
  proof -
    have "Min (ub_offset_add ` set N) \<in> ub_offset_add ` set N"
      using assms(1) by (intro Min_in) auto
    moreover from this obtain b where "b \<in> set N" "Min (ub_offset_add ` set N) = ub_offset_add b"
      by auto
    then have "Min (ub_offset_add ` set N) \<le> INT_MAX"
      using assms(2) by (auto simp: blk_valid_def)
    ultimately show ?thesis
      using assms(1) by (simp add: hull_Min_Max Min_insert min_absorb2)
  qed
  let ?g = "\<lambda>b. ub_offset_add b + ub_upd_size b"
  have hi: "snd (hull N) \<in> ?g ` set N"
  proof -
    have "Max (?g ` set N) \<in> ?g ` set N"
      using assms(1) by (intro Max_in) auto
    moreover from this have "0 \<le> Max (?g ` set N)"
      using assms(2) by (auto simp: blk_valid_def)
    ultimately show ?thesis
      using assms(1) by (simp add: hull_Min_Max Max_insert)
  qed
  show ?thesis
    using that lo hi by (auto simp: image_iff)
qed

lemma extents_in:
  assumes "stripe_ok conf M" and "updates_ok conf v"
  shows "\<forall>e \<in> set (extents v). ext_in conf e"
proof
  fix e assume "e \<in> set (extents v)"
  then obtain N where N: "N \<in> set (groups v)" "e = sub_set_extent N"
    by (auto simp: extents_def)
  have "set N \<subseteq> set v"
    using N(1) arg_cong[OF groups_mset[of v], of set_mset] by auto
  then have "\<forall>b \<in> set N. blk_valid b \<and> blk_in conf b"
    using updates_ok_valid[OF assms] assms(2) by (auto simp: updates_ok_def)
  moreover have "N \<noteq> []"
    using N(1) by (rule groups_nonempty)
  ultimately obtain b b' where "b \<in> set N" "fst (hull N) = ub_offset_add b" "blk_in conf b"
      "b' \<in> set N" "snd (hull N) = ub_offset_add b' + ub_upd_size b'" "blk_in conf b'"
    by (meson hull_attained)
  then show "ext_in conf e"
    using hull_bounds[of b N] by (auto simp: N(2) sub_set_extent_def ext_in_def blk_in_def)
qed

lemma exts_mapE:
  assumes "stripe_ok conf M" and "updates_ok conf v"
  shows "mapE (\<lambda>i. collector_extent (crd_info_of (sub_of v) cf v) (int i)) [0..<length (groups v)] =
    Inr (extents v)"
proof -
  have "mapE (\<lambda>i. collector_extent (crd_info_of (sub_of v) cf v) (int i)) [0..<length (groups v)] =
      Inr (map (\<lambda>i. sub_set_extent (groups v ! i)) [0..<length (groups v)])"
  proof (rule mapE_Inr_map)
    fix i assume "i \<in> set [0..<length (groups v)]"
    then show "collector_extent (crd_info_of (sub_of v) cf v) (int i) =
        Inr (sub_set_extent (groups v ! i))"
      using assms updates_ok_valid[OF assms] groups_nonempty[of "groups v ! i" v]
      by (intro collector_extent_eq sub_of_group) (auto simp: updates_ok_def)
  qed
  then show ?thesis
    by (simp add: extents_def map_nth flip: map_map[unfolded comp_def])
qed

section \<open>Task 7: the handler\<close>

text \<open>
  The parity delta of parity block \<open>i\<close>: the combination of the placed data deltas with the
  coefficients of row \<open>i\<close>.
\<close>

definition parity_delta ::
    "gf_ops \<Rightarrow> config \<Rightarrow> byte list \<Rightarrow> upd_block list \<Rightarrow> (upd_block \<Rightarrow> byte list) \<Rightarrow> nat \<Rightarrow> byte list" where
  "parity_delta G conf rsEncMat v dl i =
     lin_comb G (map (\<lambda>b. rsEncMat ! (i * ecK conf + nat (ub_id b))) v)
       (map (\<lambda>b. place (nat (blk_bytes conf)) b (dl b)) v) (nat (blk_bytes conf))"

lemma length_parity_delta [simp]: "length (parity_delta G conf M v dl i) = nat (blk_bytes conf)"
  by (simp add: parity_delta_def)

lemma crd_matrix_eq:
  assumes "distinct (map ub_id v)" and "\<forall>b \<in> set v. length (cf b) = m"
  shows "crd_matrix m (crd_info_of sub cf v) = Inr (concat (map (\<lambda>i. map (\<lambda>b. cf b ! i) v) [0..<m]))"
proof -
  have "mapE (\<lambda>i. mapE (\<lambda>blk_id. bindE (om_at (ci_coff (crd_info_of sub cf v)) blk_id) (\<lambda>cs. atE cs (int i)))
      (map ub_id v)) [0..<m] = Inr (map (\<lambda>i. map (\<lambda>b. cf b ! i) v) [0..<m])"
  proof (rule mapE_Inr_map)
    fix i assume "i \<in> set [0..<m]"
    then have "bindE (om_at (ci_coff (crd_info_of sub cf v)) (ub_id b)) (\<lambda>cs. atE cs (int i)) =
        Inr (cf b ! i)" if "b \<in> set v" for b
      using that map_of_fold_om_put[OF assms(1) that, of cf "[]"] assms(2)
      by (simp add: crd_info_of_def om_at_def)
    then show "mapE (\<lambda>blk_id. bindE (om_at (ci_coff (crd_info_of sub cf v)) blk_id) (\<lambda>cs. atE cs (int i)))
        (map ub_id v) = Inr (map (\<lambda>b. cf b ! i) v)"
      by (simp add: mapE_map mapE_Inr_map)
  qed
  then show ?thesis
    by (simp add: crd_matrix_def) (simp add: crd_info_of_def)
qed

lemma encode_parity_delta:
  assumes "gf_complete G" and "stripe_ok conf M" and "updates_ok conf v"
    and "\<forall>b \<in> set v. length (dl b) = nat (ub_upd_size b * 1024)"
  shows "encode G (length v) (ecM conf) (concat (map (\<lambda>i. map (\<lambda>b. coff_of conf M b ! i) v) [0..<ecM conf]))
      (map (\<lambda>b. place (nat (blk_bytes conf)) b (dl b)) v)
      (replicate (ecM conf) (replicate (nat (blk_bytes conf)) 0)) (blk_bytes conf) =
    Inr (map (parity_delta G conf M v dl) [0..<ecM conf])"
proof -
  let ?n = "nat (blk_bytes conf)"
  have row: "map word_of_int (map (\<lambda>b. coff_of conf M b ! i) v) =
      map (\<lambda>b. M ! (i * ecK conf + nat (ub_id b))) v" if "i < ecM conf" for i
    using that by (simp add: coff_of_def)
  have "\<exists>j < length v. word_of_int (map (\<lambda>b. coff_of conf M b ! i) v ! j) \<noteq> (0 :: byte)"
    if i: "i < ecM conf" for i
  proof (intro exI[of _ 0] conjI)
    show "0 < length v"
      using assms(3) by (simp add: updates_ok_def)
    then have "M ! (i * ecK conf + nat (ub_id (v ! 0))) \<in> set M"
      using coff_index[OF assms(2,3) _ i, of "v ! 0"] by simp
    then show "word_of_int (map (\<lambda>b. coff_of conf M b ! i) v ! 0) \<noteq> (0 :: byte)"
      using assms(2) i \<open>0 < length v\<close> by (auto simp: stripe_ok_def coff_of_def)
  qed
  moreover have "\<forall>r \<in> set (map (\<lambda>b. place ?n b (dl b)) v). length r = ?n"
    using assms(3,4) by (auto simp: updates_ok_def)
  ultimately have "encode G (length v) (ecM conf)
      (concat (map (\<lambda>i. map (\<lambda>b. coff_of conf M b ! i) v) [0..<ecM conf]))
      (map (\<lambda>b. place ?n b (dl b)) v) (replicate (ecM conf) (replicate ?n 0)) (blk_bytes conf) =
    Inr (map (\<lambda>i. lin_comb G (map word_of_int (map (\<lambda>b. coff_of conf M b ! i) v))
      (map (\<lambda>b. place ?n b (dl b)) v) ?n) [0..<ecM conf])"
    using four_dvd_blk by (intro encode_rows[OF assms(1)]) auto
  then show ?thesis
    using row by (simp add: parity_delta_def cong: map_cong)
qed

lemma receive_all:
  assumes "w_queues w ip key = ms @ rest" and "foldE f ms a = Inr a'" and "ms \<noteq> []"
  obtains w1 where "recv_count (blpop ip key) f (int (length ms)) a w = Inr (a', w1)"
    and "w_files w1 = w_files w" and "w_queues w1 = (w_queues w)(ip := (w_queues w ip)(key := rest))"
proof -
  obtain w1 where "recv_loop (blpop ip key) f (length ms) a w = Inr (a', w1)" "w_files w1 = w_files w"
    and "\<forall>j l. w_queues w1 j l = (if j = ip \<and> l = key then rest else w_queues w j l)"
    using rl.recv_loop_prefix[OF assms(1), of f a] assms(2) by auto
  then show ?thesis
    using assms(3) by (intro that[of w1]) (auto simp: recv_count_def fun_eq_iff)
qed

lemma crd_recv_all:
  assumes "distinct (map ub_id v)" and "\<forall>b \<in> set v. blk_in conf b"
    and "\<forall>b \<in> set v. length (dl b) = nat (ub_upd_size b * 1024)" and "mset bs = mset v"
  shows "\<exists>bufs'. foldE (crd_recv_delta (ci_off_size (crd_info_of sub cf v)))
        (map (\<lambda>b. put_int (ub_id b) @ dl b) bs)
        (fold (\<lambda>blk_id. om_put blk_id (replicate (nat (blk_bytes conf)) 0)) (map ub_id v) []) = Inr bufs' \<and>
    mapE (om_at bufs') (map ub_id v) = Inr (map (\<lambda>b. place (nat (blk_bytes conf)) b (dl b)) v)"
proof -
  let ?z = "replicate (nat (blk_bytes conf)) 0 :: byte list"
  have set: "set bs = set v"
    using assms(4) by (metis set_mset_mset)
  have bs: "distinct (map ub_id bs)"
    using assms(1,4) by (metis mset_eq_imp_distinct_iff mset_map)
  have zero: "map_of (fold (\<lambda>blk_id. om_put blk_id ?z) (map ub_id v) []) (ub_id b) = Some ?z"
    if "b \<in> set v" for b
    using map_of_fold_om_put[OF assms(1) that, of "\<lambda>_. ?z" "[]"] by (simp add: fold_map comp_def)
  have offs: "map_of (ci_off_size (crd_info_of sub cf v)) (ub_id b) = Some (ub_offset_add b, ub_upd_size b)"
    if "b \<in> set v" for b
    using map_of_fold_om_put[OF assms(1) that, of "\<lambda>b. (ub_offset_add b, ub_upd_size b)" "[]"]
    by (simp add: crd_info_of_def)
  obtain bufs' where b: "foldE (crd_recv_delta (ci_off_size (crd_info_of sub cf v)))
        (map (\<lambda>b. put_int (ub_id b) @ dl b) bs) (fold (\<lambda>blk_id. om_put blk_id ?z) (map ub_id v) []) = Inr bufs'"
      "\<forall>b \<in> set bs. map_of bufs' (ub_id b) = Some (place (nat (blk_bytes conf)) b (dl b))"
    using crd_recv_fold[OF bs, of conf dl "ci_off_size (crd_info_of sub cf v)"
        "fold (\<lambda>blk_id. om_put blk_id ?z) (map ub_id v) []"] assms(2,3) zero offs set
    by auto
  have "mapE (om_at bufs') (map ub_id v) = Inr (map (\<lambda>b. place (nat (blk_bytes conf)) b (dl b)) v)"
    unfolding mapE_map using b(2) set by (intro mapE_Inr_map) (simp add: om_at_def)
  with b(1) show ?thesis by blast
qed

definition collector_args :: "config \<Rightarrow> byte list \<Rightarrow> int \<Rightarrow> upd_block list \<Rightarrow> int list" where
  "collector_args conf M pc v =
     [pc, int (length v), int (length (groups v))] @
     concat (map (crd_fields (sub_of v) (coff_of conf M)) v) @
     filter (\<lambda>i. i \<noteq> pc) (parity_ids conf)"

lemma collector_cmd_eq:
  assumes "stripe_ok conf M" and "updates_ok conf v"
  shows "crd_collector_cmd conf M pc (get_upd_solu_crd v) v = mk_cmd 7 (collector_args conf M pc v)"
proof -
  have "crd_blk_fields conf M (get_upd_solu_crd v) b = Inr (crd_fields (sub_of v) (coff_of conf M) b)"
    if b: "b \<in> set v" for b
  proof -
    obtain i where "i < length (groups v)" "b \<in> set (groups v ! i)"
      using b by (rule groups_member)
    then have "get_sub_set_id (get_upd_solu_crd v) (ub_id b) = int i"
      using assms(2) by (intro get_sub_set_id_groups) (simp_all add: updates_ok_def)
    then show ?thesis
      using coffs_eq[OF assms b] by (simp add: crd_blk_fields_def Let_def crd_fields_def sub_of_def)
  qed
  then have "mapE (crd_blk_fields conf M (get_upd_solu_crd v)) v =
      Inr (map (crd_fields (sub_of v) (coff_of conf M)) v)"
    by (rule mapE_Inr_map)
  then show ?thesis
    by (simp add: crd_collector_cmd_def collector_args_def get_upd_solu_crd_groups)
qed

lemma length_filter_parity_ids:
  assumes "c < ecM conf"
  shows "length (filter (\<lambda>i. i \<noteq> int (ecK conf + c)) (parity_ids conf)) = ecM conf - 1"
proof -
  have "filter (\<lambda>i. i \<noteq> int (ecK conf + c)) (parity_ids conf) =
      map (\<lambda>i. int (ecK conf + i)) (filter (\<lambda>i. i \<noteq> c) [0..<ecM conf])"
    by (simp add: filter_map comp_def)
  moreover have "length (filter (\<lambda>i. i \<noteq> c) [0..<ecM conf]) = card ({..<ecM conf} - {c})"
    by (subst distinct_card[symmetric]) (auto intro!: arg_cong[where f = card])
  ultimately show ?thesis
    using assms by simp
qed

lemma length_crd_fields_concat:
  assumes "\<forall>b \<in> set v. length (cf b) = m"
  shows "length (concat (map (crd_fields sub cf) v)) = length v * (4 + m)"
  using assms by (induction v) (simp_all add: crd_fields_def)

lemma length_collector_args:
  assumes "c < ecM conf"
  shows "length (collector_args conf M (int (ecK conf + c)) v) =
    3 + length v * (4 + ecM conf) + (ecM conf - 1)"
  unfolding collector_args_def length_append length_filter_parity_ids[OF assms]
  by (subst length_crd_fields_concat[where m = "ecM conf"]) (auto simp: coff_of_def)

lemma groups_length_le: "length (groups v) \<le> length v"
proof -
  have "length Ns \<le> length (concat Ns)" if "[] \<notin> set Ns" for Ns :: "upd_block list list"
    using that
  proof (induction Ns)
    case (Cons N Ns)
    then show ?case by (cases N) auto
  qed simp
  from this[of "groups v"] show ?thesis
    using groups_nonempty[of "[]" v] groups_mset[of v] by (metis mset_eq_length)
qed

lemma updates_ok_length: "updates_ok conf v \<Longrightarrow> int (length v) < 256"
proof -
  assume "updates_ok conf v"
  then have "4 * (length v * 4) \<le> 1024"
    by (auto simp: updates_ok_def COMMAND_MAX_LENGTH_def algebra_simps)
  then show ?thesis by simp
qed

lemma collector_args_int32:
  assumes "stripe_ok conf M" and "updates_ok conf v" and "c < ecM conf"
  shows "list_all int32 (collector_args conf M (int (ecK conf + c)) v)"
proof -
  have nums: "int (length v) < 256" "int (length (groups v)) < 256"
    using updates_ok_length[OF assms(2)] groups_length_le[of v] by simp_all
  have "list_all int32 (crd_fields (sub_of v) (coff_of conf M) b)" if b: "b \<in> set v" for b
  proof -
    obtain i where "i < length (groups v)" "b \<in> set (groups v ! i)"
      using b by (rule groups_member)
    then have "sub_of v b = int i" "int i < 256"
      using assms(2) nums(2) by (auto simp: updates_ok_def sub_of_def intro: get_sub_set_id_groups)
    moreover have "blk_in conf b" "blocksize conf < 2147483648"
      using assms b by (auto simp: updates_ok_def stripe_ok_def)
    ultimately show ?thesis
      using coff_of_int32[of conf M b] by (auto simp: crd_fields_def blk_in_def)
  qed
  moreover have "int (ecK conf + i) < 2147483648" if "i < ecM conf" for i
    using that assms(1) by (auto simp: stripe_ok_def)
  ultimately show ?thesis
    using nums assms(3) by (auto simp: collector_args_def list_all_iff)
qed

abbreviation ack_msg :: "byte list" where
  "ack_msg \<equiv> [of_char CHR ''1'']"

lemma collector_parse:
  assumes "stripe_ok conf M" and "updates_ok conf v" and "c < ecM conf"
    and args_def: "args = collector_args conf M (int (ecK conf + c)) v"
    and cmd_def: "cmd = put_ints (7 # 4 * (2 + int (length args)) # args) @ post"
  shows "get_int cmd 8 = Inr (int (ecK conf + c))" and "get_int cmd 12 = Inr (int (length v))"
    and "get_int cmd 16 = Inr (int (length (groups v)))"
    and "crd_parse_blks (ecM conf) cmd (int (length v)) =
      Inr (20 + int (length v) * (16 + 4 * int (ecM conf)), crd_info_of (sub_of v) (coff_of conf M) v)"
    and "\<exists>others. get_ints cmd (20 + int (length v) * (16 + 4 * int (ecM conf))) (ecM conf - 1) = Inr others"
    and "20 + int (length v) * (16 + 4 * int (ecM conf)) + 4 * int (ecM conf - 1) = 4 * (2 + int (length args))"
proof -
  let ?pc = "int (ecK conf + c)"
  let ?xs = "7 # 4 * (2 + int (length args)) # args"
  let ?fs = "concat (map (crd_fields (sub_of v) (coff_of conf M)) v)"
  let ?o = "filter (\<lambda>i. i \<noteq> ?pc) (parity_ids conf)"
  have len: "length args = 3 + length v * (4 + ecM conf) + (ecM conf - 1)"
    unfolding args_def by (rule length_collector_args[OF assms(3)])
  have fit: "4 * (4 + x + m) \<le> 1024 \<Longrightarrow> c < m \<Longrightarrow> 4 * (2 + (3 + x + (m - 1))) \<le> 1024" for x m :: nat
    by simp
  have "4 * (2 + length args) \<le> 1024"
    unfolding len using assms(2,3) unfolding updates_ok_def COMMAND_MAX_LENGTH_def by (intro fit) blast+
  then have ok: "list_all int32 ?xs"
    using collector_args_int32[OF assms(1-3)] by (simp add: args_def)
  have head: "args = ?pc # int (length v) # int (length (groups v)) # ?fs @ ?o"
    by (simp add: args_def collector_args_def)
  show "get_int cmd 8 = Inr ?pc" "get_int cmd 12 = Inr (int (length v))"
    "get_int cmd 16 = Inr (int (length (groups v)))"
    using get_int_cmd[OF _ _ ok, of 8 2 post] get_int_cmd[OF _ _ ok, of 12 3 post]
      get_int_cmd[OF _ _ ok, of 16 4 post]
    by (simp_all add: cmd_def head del: put_ints_Cons put_ints_append)
  have xs: "?xs = [7, 4 * (2 + int (length args)), ?pc, int (length v), int (length (groups v))] @ ?fs @ ?o"
    by (simp add: head)
  show "crd_parse_blks (ecM conf) cmd (int (length v)) =
      Inr (20 + int (length v) * (16 + 4 * int (ecM conf)), crd_info_of (sub_of v) (coff_of conf M) v)"
    unfolding cmd_def using ok unfolding xs
    by (intro crd_parse_blks_fields) (auto simp: coff_of_def)
  have pos: "20 + int l * (16 + 4 * int m) = 4 * int (5 + l * (4 + m))" for l m
    by (simp add: algebra_simps)
  note cur = pos[of "length v" "ecM conf"]
  show "\<exists>others. get_ints cmd (20 + int (length v) * (16 + 4 * int (ecM conf))) (ecM conf - 1) = Inr others"
    unfolding cmd_def using get_ints_cmd[OF cur _ ok, of "ecM conf - 1" post] len by auto
  show "20 + int (length v) * (16 + 4 * int (ecM conf)) + 4 * int (ecM conf - 1) = 4 * (2 + int (length args))"
    unfolding cur len by simp
qed

lemma crd_collector_node:
  assumes "gf_complete G" and "io_ok E" and "stripe_ok conf M" and "updates_ok conf v" and "c < ecM conf"
    and "\<forall>b \<in> set v. length (dl b) = nat (ub_upd_size b * 1024)" and "mset bs = mset v"
    and "ip = helpersIPs conf ! (ecK conf + c)"
    and "w_queues w ip ''crdData'' = map (\<lambda>b. put_int (ub_id b) @ dl b) bs @ rest"
    and "w_files w ip (blk_name (int (ecK conf + c))) = Some old" and "length old = nat (blk_bytes conf)"
    and "args = collector_args conf M (int (ecK conf + c)) v"
    and "len = 4 * (2 + int (length args))"
  shows "\<exists>w'. recv_and_compute_in_parity_collector_for_crd G E conf ip (put_ints (7 # len # args) @ post) len w = Inr w' \<and>
    w_files w' = (w_files w)(ip := (w_files w ip)(blk_name (int (ecK conf + c)) :=
      Some (xor_bytes old (parity_delta G conf M v dl c)))) \<and>
    w_queues w' ip ''crdData'' = rest \<and>
    (\<forall>i < ecM conf. i \<noteq> c \<longrightarrow> w_queues w' (helpersIPs conf ! (ecK conf + i)) ''crdData'' =
      w_queues w (helpersIPs conf ! (ecK conf + i)) ''crdData'' @
        map (sub_set_msg (parity_delta G conf M v dl i) (extents v)) [0..<length (groups v)]) \<and>
    w_queues w' (coordinatorIP conf) ''ack'' = w_queues w (coordinatorIP conf) ''ack'' @ [ack_msg] \<and>
    (\<forall>x key. \<not> (key = ''crdData'' \<and> (\<exists>i < ecM conf. x = helpersIPs conf ! (ecK conf + i))) \<longrightarrow>
      \<not> (x = coordinatorIP conf \<and> key = ''ack'') \<longrightarrow> w_queues w' x key = w_queues w x key)"
proof -
  let ?z = "replicate (nat (blk_bytes conf)) 0 :: byte list"
  let ?ci = "crd_info_of (sub_of v) (coff_of conf M) v"
  let ?pd = "map (parity_delta G conf M v dl) [0..<ecM conf]"
  note parse = collector_parse[OF assms(3-5,12) refl, folded assms(13)]
  have v: "distinct (map ub_id v)" "\<forall>b \<in> set v. blk_in conf b" "v \<noteq> []"
    using assms(4) by (auto simp: updates_ok_def)
  obtain bufs' where bufs: "foldE (crd_recv_delta (ci_off_size ?ci)) (map (\<lambda>b. put_int (ub_id b) @ dl b) bs)
        (fold (\<lambda>blk_id. om_put blk_id ?z) (map ub_id v) []) = Inr bufs'"
      "mapE (om_at bufs') (map ub_id v) = Inr (map (\<lambda>b. place (nat (blk_bytes conf)) b (dl b)) v)"
    using crd_recv_all[OF v(1,2) assms(6,7)] by blast
  have "bs \<noteq> []" "length bs = length v"
    using assms(7) v(3) by (auto dest: mset_eq_length)
  then obtain w1 where w1: "recv_count (blpop ip ''crdData'') (crd_recv_delta (ci_off_size ?ci)) (int (length v))
        (fold (\<lambda>blk_id. om_put blk_id ?z) (map ub_id v) []) w = Inr (bufs', w1)"
      "w_files w1 = w_files w" "w_queues w1 = (w_queues w)(ip := (w_queues w ip)(''crdData'' := rest))"
    using receive_all[OF assms(9) bufs(1)] by auto
  have len: "length (extents v) = length (groups v)"
    by (simp add: extents_def)
  obtain w2 where w2: "crd_distribute G E conf ip (int (ecK conf + c)) (extents v) ?pd w1 = Inr w2"
      "w_files w2 = (w_files w1)(ip := (w_files w1 ip)(blk_name (int (ecK conf + c)) :=
        Some (xor_bytes old (?pd ! c))))"
      "\<forall>i < ecM conf. \<forall>key. w_queues w2 (helpersIPs conf ! (ecK conf + i)) key =
        w_queues w1 (helpersIPs conf ! (ecK conf + i)) key @
          (if i \<noteq> c \<and> key = ''crdData'' then map (sub_set_msg (?pd ! i) (extents v)) [0..<length (extents v)] else [])"
      "\<forall>ip' key. (\<forall>i < ecM conf. ip' \<noteq> helpersIPs conf ! (ecK conf + i)) \<longrightarrow>
        w_queues w2 ip' key = w_queues w1 ip' key"
    using crd_distribute_eq[OF assms(1,2), of w1 ip conf c old ?pd "extents v"] extents_in[OF assms(3,4)]
      assms(3,5,10,11) w1(2)
    by (auto simp: stripe_ok_def)
  have run: "recv_and_compute_in_parity_collector_for_crd G E conf ip (put_ints (7 # len # args) @ post) len w =
      Inr (send_ack conf w2)"
  proof -
    obtain others where others: "get_ints (put_ints (7 # len # args) @ post)
        (20 + int (length v) * (16 + 4 * int (ecM conf))) (ecM conf - 1) = Inr others"
      using parse(5) by blast
    have ids: "ci_ids ?ci = map ub_id v"
      by (simp add: crd_info_of_def)
    have matrix: "crd_matrix (ecM conf) ?ci =
        Inr (concat (map (\<lambda>i. map (\<lambda>b. coff_of conf M b ! i) v) [0..<ecM conf]))"
      by (rule crd_matrix_eq[OF v(1)]) (simp add: coff_of_def)
    show ?thesis
      by (simp only: recv_and_compute_in_parity_collector_for_crd_def parse(1-4) others parse(6)
          check_len_def guardE_True bindE_Inr Let_def prod.case ids w1(1) bufs(2) nat_int
          exts_mapE[OF assms(3,4)] matrix encode_parity_delta[OF assms(1,3,4,6)] w2(1) simp_thms)
  qed
  have neq: "helpersIPs conf ! (ecK conf + i) = ip \<longleftrightarrow> i = c" if "i < ecM conf" for i
    using that assms(3,5,8) by (auto simp: stripe_ok_def nth_eq_iff_index_eq)
  have q: "w_queues (send_ack conf w2) x key = w_queues w2 x key @
      (if x = coordinatorIP conf \<and> key = ''ack'' then [ack_msg] else [])" for x key
    by (simp add: send_ack_def)
  have q2: "w_queues w2 x key = w_queues w x key" if "key \<noteq> ''crdData''" for x key
  proof -
    have "w_queues w1 x key = w_queues w x key"
      using that w1(3) by simp
    then show ?thesis
      using that w2(3,4) by (cases "\<exists>i < ecM conf. x = helpersIPs conf ! (ecK conf + i)") auto
  qed
  show ?thesis
  proof (intro exI[of _ "send_ack conf w2"] conjI run)
    show "w_files (send_ack conf w2) = (w_files w)(ip := (w_files w ip)(blk_name (int (ecK conf + c)) :=
        Some (xor_bytes old (parity_delta G conf M v dl c))))"
      using w2(2) w1(2) assms(5) by (simp add: send_ack_def)
    show "w_queues (send_ack conf w2) ip ''crdData'' = rest"
      using w2(3) w1(3) assms(5,8) by (simp add: q)
    show "\<forall>i < ecM conf. i \<noteq> c \<longrightarrow> w_queues (send_ack conf w2) (helpersIPs conf ! (ecK conf + i)) ''crdData'' =
      w_queues w (helpersIPs conf ! (ecK conf + i)) ''crdData'' @
        map (sub_set_msg (parity_delta G conf M v dl i) (extents v)) [0..<length (groups v)]"
      using w2(3) w1(3) neq len by (simp add: q)
    show "w_queues (send_ack conf w2) (coordinatorIP conf) ''ack'' =
        w_queues w (coordinatorIP conf) ''ack'' @ [ack_msg]"
      using q2 by (simp add: q)
    show "\<forall>x key. \<not> (key = ''crdData'' \<and> (\<exists>i < ecM conf. x = helpersIPs conf ! (ecK conf + i))) \<longrightarrow>
      \<not> (x = coordinatorIP conf \<and> key = ''ack'') \<longrightarrow> w_queues (send_ack conf w2) x key = w_queues w x key"
      using q2 w2(4) w1(3) assms(5,8) by (auto simp: q)
  qed
qed

end
