(* ===== verification/Crd_Parity.thy ===== *)
theory Crd_Parity
  imports Crd_Node
begin

text \<open>
  The last handler of the CRD update (task 8, \<open>recv_parity_delta_and_aggre_for_crd\<close>) and the
  comparison of the two computations of a merged range: the one of the parity collector and the
  one \<open>CrdUpdate\<close> puts in the command of task 8.
\<close>

section \<open>The range in the command of task 8\<close>

lemma crd_extent_fold:
  assumes "\<forall>b \<in> set N. blk_valid b"
  shows "fold (\<lambda>b (s, e). (min s (ub_offset_add b), max e (ub_offset_add b + ub_upd_size b) - 1)) N (INT_MAX, 0) =
      (fst (hull N), snd (fold (\<lambda>b (s, e). (min s (ub_offset_add b), max e (ub_offset_add b + ub_upd_size b) - 1)) N (INT_MAX, 0)))"
proof -
  have "fst (fold (\<lambda>b (s, e). (min s (ub_offset_add b), h b e)) N (s0, e0)) =
      fst (fold (\<lambda>b (s, e). (min s (ub_offset_add b), k b e)) N (s0, e1))" for h k and e0 e1 s0 :: int
    by (induction N arbitrary: s0 e0 e1) simp_all
  from this[of "\<lambda>b e. max e (ub_offset_add b + ub_upd_size b) - 1" INT_MAX 0
      "\<lambda>b e. max e (ub_offset_add b + ub_upd_size b)" 0]
  show ?thesis
    by (simp add: hull_def prod_eq_iff)
qed

lemma crd_extent_snoc_end:
  assumes "\<forall>b \<in> set (N @ [d]). blk_valid b"
  defines "f \<equiv> (\<lambda>b (s, e). (min s (ub_offset_add b), max e (ub_offset_add b + ub_upd_size b) - 1))"
  shows "snd (fold f (N @ [d]) (INT_MAX, 0)) < snd (hull (N @ [d])) \<and>
    ub_offset_add d + ub_upd_size d - 1 \<le> snd (fold f (N @ [d]) (INT_MAX, 0))"
  using assms(1)
proof (induction N arbitrary: d rule: rev_induct)
  case Nil
  then show ?case by (simp add: f_def hull_def blk_valid_def)
next
  case (snoc c N)
  have "snd (fold f (N @ [c]) (INT_MAX, 0)) < snd (hull (N @ [c]))"
    using snoc by auto
  moreover have "snd (fold f ((N @ [c]) @ [d]) (INT_MAX, 0)) =
      max (snd (fold f (N @ [c]) (INT_MAX, 0))) (ub_offset_add d + ub_upd_size d) - 1"
    by (simp add: f_def split: prod.splits)
  moreover have "snd (hull ((N @ [c]) @ [d])) = max (snd (hull (N @ [c]))) (ub_offset_add d + ub_upd_size d)"
    by (subst hull_snoc) simp
  ultimately show ?case by (simp only:) linarith
qed

text \<open>The range never exceeds the collector's, and starts where it does.\<close>

lemma crd_extent_bounds:
  assumes "N \<noteq> []" and "\<forall>b \<in> set N. blk_valid b"
  shows "fst (crd_extent N) = fst (sub_set_extent N)" and "0 \<le> snd (crd_extent N)"
    and "snd (crd_extent N) \<le> snd (sub_set_extent N)"
    and "ub_offset_add (last N) + ub_upd_size (last N) = snd (hull N) \<Longrightarrow> crd_extent N = sub_set_extent N"
proof -
  let ?f = "\<lambda>b (s, e). (min s (ub_offset_add b), max e (ub_offset_add b + ub_upd_size b) - 1)"
  obtain N' d where N: "N = N' @ [d]"
    using assms(1) by (metis append_butlast_last_id)
  define e where "e = snd (fold ?f N (INT_MAX, 0))"
  have ext: "crd_extent N = (fst (hull N), e - fst (hull N) + 1)"
    unfolding crd_extent_def by (subst crd_extent_fold[OF assms(2)]) (simp add: e_def)
  have e: "e < snd (hull N)" "ub_offset_add d + ub_upd_size d - 1 \<le> e"
    using crd_extent_snoc_end[of N' d] assms(2) by (simp_all add: N e_def)
  have "last N = d" "fst (hull N) \<le> ub_offset_add d" "0 \<le> ub_upd_size d"
    using hull_bounds[of d N] assms(2) by (auto simp: N blk_valid_def)
  then show "fst (crd_extent N) = fst (sub_set_extent N)" "0 \<le> snd (crd_extent N)"
    "snd (crd_extent N) \<le> snd (sub_set_extent N)"
    "ub_offset_add (last N) + ub_upd_size (last N) = snd (hull N) \<Longrightarrow> crd_extent N = sub_set_extent N"
    using e by (auto simp: ext sub_set_extent_def)
qed

section \<open>Task 8\<close>

lemma foldE_map: "foldE f (map g xs) s = foldE (\<lambda>x. f (g x)) xs s"
  by (induction xs arbitrary: s) (simp_all add: bindE_def split: sum.splits)

text \<open>
  The part of a parity delta that lands in the buffer of a sub-set whose command carries the
  range \<open>e\<close>.
\<close>

definition received_part :: "nat \<Rightarrow> byte list \<Rightarrow> int \<times> int \<Rightarrow> byte list" where
  "received_part n delta e =
     overwrite (replicate n 0) (nat (fst e * 1024))
       (take (nat (snd e * 1024)) (drop (nat (fst e * 1024)) delta))"

lemma nth_slice: "i \<le> b \<Longrightarrow> b < i + n \<Longrightarrow> i + n \<le> length xs \<Longrightarrow> take n (drop i xs) ! (b - i) = xs ! b"
  by simp

lemma ext_in_bytes: "ext_in conf e \<Longrightarrow> nat (fst e * 1024) + nat (snd e * 1024) \<le> nat (blk_bytes conf)"
  by (simp add: ext_in_def nat_le_iff flip: nat_add_distrib)

lemma length_received_part:
  assumes "ext_in conf e" and "length delta = nat (blk_bytes conf)"
  shows "length (received_part (nat (blk_bytes conf)) delta e) = nat (blk_bytes conf)"
  using ext_in_bytes[OF assms(1)] assms(2) by (simp add: received_part_def)

lemma nth_received_part:
  assumes "ext_in conf e" and "length delta = nat (blk_bytes conf)" and "b < nat (blk_bytes conf)"
  shows "received_part (nat (blk_bytes conf)) delta e ! b =
    (if nat (fst e * 1024) \<le> b \<and> b < nat (fst e * 1024) + nat (snd e * 1024) then delta ! b else 0)"
  using ext_in_bytes[OF assms(1)] assms(2,3) by (auto simp: received_part_def nth_overwrite nth_slice)

definition parity_args :: "int \<Rightarrow> upd_block list \<Rightarrow> int list" where
  "parity_args blk_id v = [blk_id, int (length (groups v))] @ crd_parity_fields (get_upd_solu_crd v)"

lemma crd_parity_fields_eq:
  "crd_parity_fields (get_upd_solu_crd v) =
    concat (map (\<lambda>(i, e). [i, fst e, snd e]) (zip (map int [0..<length (groups v)]) (map crd_extent (groups v))))"
  unfolding crd_parity_fields_def get_upd_solu_crd_groups zip_map2 map_map
  by (rule arg_cong[where f = concat], rule map_cong) auto

lemma length_parity_args: "length (parity_args i v) = 2 + 3 * length (groups v)"
proof -
  have "length (concat (map (\<lambda>(i :: int, e :: int \<times> int). [i, fst e, snd e]) es)) = 3 * length es" for es
    by (induction es) auto
  then show ?thesis
    by (simp add: parity_args_def crd_parity_fields_eq)
qed

text \<open>What the command says about a sub-set stays inside the block.\<close>

lemma crd_extents_in:
  assumes "stripe_ok conf M" and "updates_ok conf v"
  shows "\<forall>N \<in> set (groups v). ext_in conf (crd_extent N) \<and> fst (crd_extent N) = fst (sub_set_extent N) \<and>
    snd (crd_extent N) \<le> snd (sub_set_extent N)"
proof
  fix N assume N: "N \<in> set (groups v)"
  have "set N \<subseteq> set v"
    using N arg_cong[OF groups_mset[of v], of set_mset] by auto
  then have "\<forall>b \<in> set N. blk_valid b" "N \<noteq> []"
    using updates_ok_valid[OF assms] groups_nonempty[OF N] by auto
  note bounds = crd_extent_bounds(1-3)[OF this(2,1)]
  moreover have "ext_in conf (sub_set_extent N)"
    using extents_in[OF assms] N by (simp add: extents_def)
  ultimately show "ext_in conf (crd_extent N) \<and> fst (crd_extent N) = fst (sub_set_extent N) \<and>
      snd (crd_extent N) \<le> snd (sub_set_extent N)"
    by (auto simp: ext_in_def)
qed

lemma parity_args_int32:
  assumes "stripe_ok conf M" and "updates_ok conf v" and "i < ecM conf"
  shows "list_all int32 (parity_args (int (ecK conf + i)) v)"
proof -
  have n: "int (length (groups v)) < 256"
    using updates_ok_length[OF assms(2)] groups_length_le[of v] by simp
  have "int32 (fst e) \<and> int32 (snd e)" if "e \<in> crd_extent ` set (groups v)" for e
  proof -
    from that obtain N where N: "N \<in> set (groups v)" "e = crd_extent N"
      by blast
    have "ext_in conf e" "blocksize conf < 2147483648"
      using crd_extents_in[OF assms(1,2)] N assms(1) by (auto simp: stripe_ok_def)
    then show ?thesis by (auto simp: ext_in_def)
  qed
  then have "int32 x \<and> int32 y" if "(x, y) = crd_extent (groups v ! j)" "j < length (groups v)" for x y j
    using that by (metis fst_conv image_eqI nth_mem snd_conv)
  moreover have "int (ecK conf + i) < 2147483648"
    using assms(1,3) by (auto simp: stripe_ok_def)
  ultimately show ?thesis
    using n by (auto simp: parity_args_def crd_parity_fields_eq list_all_iff set_zip)
qed

text \<open>The result of task 8: the parts of the delta xored into the old parity block.\<close>

definition parity_after :: "config \<Rightarrow> upd_block list \<Rightarrow> byte list \<Rightarrow> byte list \<Rightarrow> byte list" where
  "parity_after conf v delta old =
     map (\<lambda>b. xor_sum (\<lambda>j. received_part (nat (blk_bytes conf)) delta (crd_extent (groups v ! j)) ! b)
         (length (groups v)) XOR old ! b) [0..<nat (blk_bytes conf)]"

lemma crd_recv_parity_fold:
  assumes "stripe_ok conf M" and "updates_ok conf v" and "length delta = nat (blk_bytes conf)"
  defines "z \<equiv> replicate (nat (blk_bytes conf)) 0"
    and "m \<equiv> fold (\<lambda>(i, e). om_put i e) (zip (map int [0..<length (groups v)]) (map crd_extent (groups v))) []"
  shows "foldE (crd_recv_parity_delta m) (map (sub_set_msg delta (extents v)) [0..<length (groups v)])
      (replicate (Suc (length (groups v))) z) =
    Inr (map (\<lambda>N. received_part (nat (blk_bytes conf)) delta (crd_extent N)) (groups v) @ [z])"
proof -
  let ?n = "length (groups v)" and ?B = "nat (blk_bytes conf)"
  let ?part = "\<lambda>j. received_part ?B delta (crd_extent (groups v ! j))"
  let ?P = "\<lambda>i bufs. bufs = map ?part [0..<i] @ replicate (Suc (?n - i)) z"
  have m: "map_of m (int j) = Some (crd_extent (groups v ! j))" if "j < ?n" for j
  proof -
    let ?es = "zip (map int [0..<?n]) (map crd_extent (groups v))"
    have eq: "(\<lambda>(i, e). om_put i e) = (\<lambda>p. om_put (fst p) (snd p))"
      by (simp add: fun_eq_iff)
    have "(int j, crd_extent (groups v ! j)) \<in> set ?es"
      using nth_mem[of j ?es] that by simp
    then show ?thesis
      unfolding m_def eq using map_of_fold_om_put[of fst ?es _ snd "[]"] by (fastforce simp: distinct_map)
  qed
  have "\<exists>bufs. foldE (\<lambda>j. crd_recv_parity_delta m (sub_set_msg delta (extents v) j)) [0..<?n]
      (replicate (Suc ?n) z) = Inr bufs \<and> ?P ?n bufs"
  proof (rule foldE_upt_inv[where P = ?P])
    fix j bufs assume j: "j < ?n" and P: "?P j bufs"
    let ?e = "crd_extent (groups v ! j)" and ?s = "sub_set_extent (groups v ! j)"
    have ext: "extents v ! j = ?s"
      using j by (simp add: extents_def)
    have c: "ext_in conf ?e" "fst ?e = fst ?s" "snd ?e \<le> snd ?s" "ext_in conf ?s"
      using crd_extents_in[OF assms(1,2)] extents_in[OF assms(1,2)] j by (auto simp: extents_def)
    let ?d = "take (nat (snd ?s * 1024)) (drop (nat (fst ?s * 1024)) delta)"
    have "fst ?s * 1024 + snd ?s * 1024 \<le> int (length delta)"
      using c(4) assms(3) by (simp add: ext_in_def)
    then have len: "int (length ?d) = snd ?s * 1024"
      using c(4) by (simp add: ext_in_def min_def nat_le_iff le_nat_iff)
    have cp: "copy_bytes z (fst ?e * 1024) (put_int (int j) @ ?d) 4 (snd ?e * 1024) = Inr (?part j)"
    proof -
      have "memcpy_from (put_int (int j) @ ?d) 4 (snd ?e * 1024) =
          Inr (take (nat (snd ?e * 1024)) (drop (nat (fst ?e * 1024)) delta))"
        using c len by (subst memcpy_from_msg_take) (auto simp: ext_in_def min_def)
      moreover have "nat (fst ?e * 1024) + nat (snd ?e * 1024) \<le> ?B"
        using c(1) by (rule ext_in_bytes)
      ultimately show ?thesis
        using c(1) assms(3)
        by (simp add: copy_bytes_def memcpy_to_def received_part_def z_def ext_in_def)
    qed
    have "int32 (int j)"
      using j updates_ok_length[OF assms(2)] groups_length_le[of v] by simp
    then have num: "get_int (put_int (int j) @ ?d) 0 = Inr (int j)"
      by (rule get_int_msg)
    have buf: "atE bufs (int j) = Inr z"
      using P j by (simp add: nth_append)
    have "crd_recv_parity_delta m (sub_set_msg delta (extents v) j) bufs = Inr (bufs[j := ?part j])"
      unfolding crd_recv_parity_delta_def sub_set_msg_def ext case_prod_beta om_at_def
      by (simp only: num m[OF j] option.case bindE_Inr buf cp nat_int)
    moreover have "bufs[j := ?part j] = map ?part [0..<Suc j] @ replicate (Suc (?n - Suc j)) z"
    proof -
      have "bufs = map ?part [0..<j] @ z # replicate (Suc (?n - Suc j)) z"
        using P Suc_diff_Suc[OF j] by (metis replicate_Suc)
      then show ?thesis by (simp add: list_update_append)
    qed
    ultimately show "\<exists>bufs'. crd_recv_parity_delta m (sub_set_msg delta (extents v) j) bufs = Inr bufs' \<and>
        ?P (Suc j) bufs'"
      by blast
  qed simp
  moreover have "map ?part [0..<?n] = map (\<lambda>N. received_part ?B delta (crd_extent N)) (groups v)"
    by (rule nth_equalityI) simp_all
  ultimately show ?thesis
    by (simp add: foldE_map)
qed

lemma parity_parse:
  assumes "stripe_ok conf M" and "updates_ok conf v" and "i < ecM conf"
  shows "get_int (put_ints (8 # 4 * (2 + int (length (parity_args (int (ecK conf + i)) v))) #
        parity_args (int (ecK conf + i)) v) @ post) 8 = Inr (int (ecK conf + i))"
    and "get_int (put_ints (8 # 4 * (2 + int (length (parity_args (int (ecK conf + i)) v))) #
        parity_args (int (ecK conf + i)) v) @ post) 12 = Inr (int (length (groups v)))"
    and "crd_parse_sub_sets (put_ints (8 # 4 * (2 + int (length (parity_args (int (ecK conf + i)) v))) #
        parity_args (int (ecK conf + i)) v) @ post) (int (length (groups v))) =
      Inr (4 * (2 + int (length (parity_args (int (ecK conf + i)) v))),
        fold (\<lambda>(i, e). om_put i e) (zip (map int [0..<length (groups v)]) (map crd_extent (groups v))) [])"
proof -
  let ?n = "length (groups v)" and ?id = "int (ecK conf + i)"
  define args where "args = parity_args ?id v"
  define len where "len = 4 * (2 + int (length args))"
  let ?es = "zip (map int [0..<?n]) (map crd_extent (groups v))"
  let ?cmd = "put_ints (8 # len # args) @ post"
  have ok: "list_all int32 (8 # len # args)"
    using parity_args_int32[OF assms] updates_ok_length[OF assms(2)] groups_length_le[of v]
    by (simp add: args_def len_def length_parity_args)
  have fields: "8 # len # args = [8, len, ?id, int ?n] @ concat (map (\<lambda>(i, e). [i, fst e, snd e]) ?es) @ []"
    by (simp add: args_def parity_args_def crd_parity_fields_eq)
  have "16 + 12 * int ?n = len"
    by (simp add: args_def len_def length_parity_args)
  then have sub: "crd_parse_sub_sets ?cmd (int ?n) = Inr (len, fold (\<lambda>(i, e). om_put i e) ?es [])"
    using crd_parse_sub_sets_fields[of "[8, len, ?id, int ?n]" ?es "[]" post] ok
    unfolding fields by simp
  have "get_int ?cmd 8 = Inr ?id" "get_int ?cmd 12 = Inr (int ?n)"
    using get_int_cmd[OF _ _ ok, of 8 2 post] get_int_cmd[OF _ _ ok, of 12 3 post]
    by (simp_all add: fields del: put_ints_Cons put_ints_append)
  then show "get_int (put_ints (8 # 4 * (2 + int (length (parity_args ?id v))) # parity_args ?id v) @ post) 8 = Inr ?id"
    "get_int (put_ints (8 # 4 * (2 + int (length (parity_args ?id v))) # parity_args ?id v) @ post) 12 = Inr (int ?n)"
    "crd_parse_sub_sets (put_ints (8 # 4 * (2 + int (length (parity_args ?id v))) # parity_args ?id v) @ post) (int ?n) =
      Inr (4 * (2 + int (length (parity_args ?id v))), fold (\<lambda>(i, e). om_put i e) ?es [])"
    using sub unfolding len_def args_def by blast+
qed

lemma crd_parity_node:
  assumes "gf_complete G" and "io_ok E" and "stripe_ok conf M" and "updates_ok conf v" and "i < ecM conf"
    and "length delta = nat (blk_bytes conf)"
    and "w_queues w ip ''crdData'' = map (sub_set_msg delta (extents v)) [0..<length (groups v)] @ rest"
    and "w_files w ip (blk_name (int (ecK conf + i))) = Some old" and "length old = nat (blk_bytes conf)"
    and "args = parity_args (int (ecK conf + i)) v" and "len = 4 * (2 + int (length args))"
  shows "\<exists>w1. recv_parity_delta_and_aggre_for_crd G E conf ip (put_ints (8 # len # args) @ post) len w =
      Inr (send_ack conf (put_file ip (blk_name (int (ecK conf + i))) (parity_after conf v delta old) w1)) \<and>
    w_files w1 = w_files w \<and> w_queues w1 = (w_queues w)(ip := (w_queues w ip)(''crdData'' := rest))"
proof -
  let ?n = "length (groups v)" and ?B = "nat (blk_bytes conf)" and ?id = "int (ecK conf + i)"
  let ?z = "replicate ?B 0 :: byte list"
  let ?es = "zip (map int [0..<?n]) (map crd_extent (groups v))"
  let ?cmd = "put_ints (8 # len # args) @ post"
  have n0: "0 < ?n"
    using assms(4) groups_mset[of v] by (cases "groups v") (auto simp: updates_ok_def)
  note parse = parity_parse[OF assms(3-5), of post, folded assms(10), folded assms(11)]
  let ?parts = "map (\<lambda>N. received_part ?B delta (crd_extent N)) (groups v)"
  have msgs: "map (sub_set_msg delta (extents v)) [0..<?n] \<noteq> []"
    using n0 by simp
  obtain w1 where w1: "recv_count (blpop ip ''crdData'') (crd_recv_parity_delta (fold (\<lambda>(i, e). om_put i e) ?es []))
        (int ?n) (replicate (Suc ?n) ?z) w = Inr (?parts @ [?z], w1)"
      "w_files w1 = w_files w" "w_queues w1 = (w_queues w)(ip := (w_queues w ip)(''crdData'' := rest))"
    using receive_all[OF assms(7) crd_recv_parity_fold[OF assms(3,4,6)] msgs] by auto
  have "0 \<le> blocksize conf"
    using assms(3) by (simp add: stripe_ok_def)
  then have rd: "readDataFromDisk E ip (blk_name ?id) ?z (blk_bytes conf) 0 w1 = Inr old"
    using readDataFromDisk_eq[OF assms(2), of w1 ip "blk_name ?id" old 0 "blk_bytes conf" ?z]
      assms(8,9) w1(2) by simp
  have ext: "ext_in conf (crd_extent N)" if "N \<in> set (groups v)" for N
    using crd_extents_in[OF assms(3,4)] that by blast
  have lens: "\<forall>r \<in> set (?parts @ [old]). length r = ?B"
    using length_received_part[OF ext assms(6)] assms(9) by auto
  obtain p where p: "encode G (Suc ?n) 1 (replicate (Suc ?n) 1) (?parts @ [old]) [malloc E (blk_bytes conf)] (blk_bytes conf) = Inr [p]"
      "length p = ?B" "\<forall>b < ?B. p ! b = xor_sum (\<lambda>j. (?parts @ [old]) ! j ! b) (Suc ?n)"
    using encode_ones[OF assms(1) _ lens _ four_dvd_blk refl, of "malloc E (blk_bytes conf)"] by auto
  have "p = parity_after conf v delta old"
    using p(2,3) by (intro nth_equalityI)
      (simp_all add: parity_after_def xor_sum_Suc nth_append cong: xs.cong_simp)
  moreover have "writeDataToDisk E ip (blk_name ?id) p (blk_bytes conf) 0 w1 =
      Inr (put_file ip (blk_name ?id) (overwrite old 0 p) w1)"
    using assms(8,9) w1(2) p(2) \<open>0 \<le> blocksize conf\<close> by (subst writeDataToDisk_eq[OF assms(2)]) auto
  moreover have "overwrite old 0 p = p"
    using p(2) assms(9) by (simp add: overwrite_def)
  moreover have "atE (?parts @ [?z]) (int ?n) = Inr ?z" "(?parts @ [?z])[?n := old] = ?parts @ [old]"
    by (simp_all add: atE_def nth_append list_update_append)
  moreover have "nat (int ?n + 1) = Suc ?n"
    by simp
  ultimately have "recv_parity_delta_and_aggre_for_crd G E conf ip ?cmd len w =
      Inr (send_ack conf (put_file ip (blk_name ?id) (parity_after conf v delta old) w1))"
    using p(1) by (simp only: recv_parity_delta_and_aggre_for_crd_def parse bindE_Inr prod.case
        check_len_def guardE_True Let_def w1(1) nat_int rd simp_thms) simp
  with w1 show ?thesis by blast
qed

section \<open>What task 8 applies\<close>

definition in_bytes :: "int \<times> int \<Rightarrow> nat \<Rightarrow> bool" where
  "in_bytes e b \<longleftrightarrow> nat (fst e * 1024) \<le> b \<and> b < nat (fst e * 1024) + nat (snd e * 1024)"

lemma in_bytes_iff:
  "0 \<le> fst e \<Longrightarrow> 0 \<le> snd e \<Longrightarrow>
    in_bytes e b \<longleftrightarrow> fst e * 1024 \<le> int b \<and> int b < (fst e + snd e) * 1024"
  by (auto simp: in_bytes_def simp flip: nat_add_distrib)

text \<open>The ranges of different sub-sets share no byte.\<close>

lemma in_bytes_unique:
  assumes "stripe_ok conf M" and "updates_ok conf v" and "j < length (groups v)" "k < length (groups v)"
    and "in_bytes (sub_set_extent (groups v ! j)) b" and "in_bytes (sub_set_extent (groups v ! k)) b"
  shows "j = k"
proof (rule ccontr)
  assume "j \<noteq> k"
  have ext: "0 \<le> fst (sub_set_extent (groups v ! i))" "0 \<le> snd (sub_set_extent (groups v ! i))"
    if "i < length (groups v)" for i
    using that extents_in[OF assms(1,2)] by (auto simp: extents_def ext_in_def)
  have "apart (groups v ! j) (groups v ! k)"
    using updates_ok_valid[OF assms(1,2)] assms(3,4) \<open>j \<noteq> k\<close> by (rule groups_pairwise)
  then show False
    using assms(5,6) unfolding in_bytes_iff[OF ext[OF assms(3)]] in_bytes_iff[OF ext[OF assms(4)]]
    by (auto simp: apart_def sub_set_extent_def)
qed

lemma crd_extent_in_bytes:
  assumes "stripe_ok conf M" and "updates_ok conf v" and "N \<in> set (groups v)" and "in_bytes (crd_extent N) b"
  shows "in_bytes (sub_set_extent N) b"
proof -
  have "ext_in conf (crd_extent N)" "ext_in conf (sub_set_extent N)"
    "fst (crd_extent N) = fst (sub_set_extent N)" "snd (crd_extent N) \<le> snd (sub_set_extent N)"
    using crd_extents_in[OF assms(1,2)] extents_in[OF assms(1,2)] assms(3) by (auto simp: extents_def)
  then show ?thesis
    using assms(4) by (auto simp: in_bytes_iff ext_in_def)
qed

text \<open>Outside the ranges of all sub-sets a parity delta is zero.\<close>

lemma parity_delta_outside:
  assumes "gf_complete G" and "stripe_ok conf M" and "updates_ok conf v"
    and "\<forall>b \<in> set v. length (dl b) = nat (ub_upd_size b * 1024)"
    and "\<forall>N \<in> set (groups v). \<not> in_bytes (sub_set_extent N) b" and "b < nat (blk_bytes conf)"
  shows "parity_delta G conf M v dl i ! b = 0"
proof -
  have "place (nat (blk_bytes conf)) u (dl u) ! b = 0" if u: "u \<in> set v" for u
  proof -
    obtain j where j: "j < length (groups v)" "u \<in> set (groups v ! j)"
      using u by (rule groups_member)
    let ?N = "groups v ! j"
    have u_in: "blk_in conf u"
      using assms(3) u by (simp add: updates_ok_def)
    have ext: "ext_in conf (sub_set_extent ?N)" "\<not> in_bytes (sub_set_extent ?N) b"
      using extents_in[OF assms(2,3)] assms(5) j(1) by (auto simp: extents_def)
    have "\<not> in_bytes (ub_offset_add u, ub_upd_size u) b"
      using ext hull_bounds[OF j(2)] u_in by (auto simp: in_bytes_iff ext_in_def blk_in_def sub_set_extent_def)
    then show ?thesis
      using blk_in_bytes[OF u_in] assms(4,6) u
      by (auto simp: place_def nth_overwrite in_bytes_def)
  qed
  then show ?thesis
    using assms(6) gf_complete.mult_zero[OF assms(1)]
    by (simp add: parity_delta_def lin_byte_def cong: xs.cong_simp)
qed

text \<open>
  If the two computations of every merged range agree, task 8 applies the whole delta.
\<close>

lemma parity_after_eq:
  assumes "gf_complete G" and "stripe_ok conf M" and "updates_ok conf v"
    and "\<forall>b \<in> set v. length (dl b) = nat (ub_upd_size b * 1024)"
    and "\<forall>N \<in> set (groups v). crd_extent N = sub_set_extent N" and "length old = nat (blk_bytes conf)"
  shows "parity_after conf v (parity_delta G conf M v dl i) old = xor_bytes old (parity_delta G conf M v dl i)"
proof (rule nth_equalityI)
  let ?d = "parity_delta G conf M v dl i" and ?B = "nat (blk_bytes conf)" and ?n = "length (groups v)"
  show "length (parity_after conf v ?d old) = length (xor_bytes old ?d)"
    using assms(6) by (simp add: parity_after_def)
  fix b assume "b < length (parity_after conf v ?d old)"
  then have b: "b < ?B" by (simp add: parity_after_def)
  have part: "received_part ?B ?d (crd_extent (groups v ! j)) ! b =
      (if in_bytes (sub_set_extent (groups v ! j)) b then ?d ! b else 0)" if "j < ?n" for j
    using that assms(5) extents_in[OF assms(2,3)] b
    by (auto simp: nth_received_part[where conf = conf] in_bytes_def extents_def)
  have "xor_sum (\<lambda>j. received_part ?B ?d (crd_extent (groups v ! j)) ! b) ?n = ?d ! b"
  proof (cases "\<exists>k < ?n. in_bytes (sub_set_extent (groups v ! k)) b")
    case True
    then obtain k where k: "k < ?n" "in_bytes (sub_set_extent (groups v ! k)) b" by blast
    have "in_bytes (sub_set_extent (groups v ! j)) b \<longleftrightarrow> j = k" if "j < ?n" for j
      using in_bytes_unique[OF assms(2,3) that k(1) _ k(2)] k(2) by blast
    then have "xor_sum (\<lambda>j. received_part ?B ?d (crd_extent (groups v ! j)) ! b) ?n =
        xor_sum (\<lambda>j. if j = k then ?d ! b else 0) ?n"
      by (intro xs.cong) (simp_all add: part)
    then show ?thesis
      using k(1) by (simp add: xs.delta)
  next
    case False
    then have "?d ! b = 0"
      using b by (intro parity_delta_outside[OF assms(1-4)]) (auto simp: in_set_conv_nth)
    then show ?thesis
      using False part by (subst xs.neutral) auto
  qed
  then show "parity_after conf v ?d old ! b = xor_bytes old ?d ! b"
    using b assms(6) by (simp add: parity_after_def xor.commute)
qed

text \<open>
  Where the command's range is shorter than the collector's, the bytes in between keep their
  old value.
\<close>

lemma parity_after_truncated:
  assumes "stripe_ok conf M" and "updates_ok conf v" and "N \<in> set (groups v)"
    and "length delta = nat (blk_bytes conf)"
    and "in_bytes (sub_set_extent N) b" and "\<not> in_bytes (crd_extent N) b" and "b < nat (blk_bytes conf)"
  shows "parity_after conf v delta old ! b = old ! b"
proof -
  obtain k where k: "k < length (groups v)" "N = groups v ! k"
    using assms(3) by (auto simp: in_set_conv_nth)
  have "received_part (nat (blk_bytes conf)) delta (crd_extent (groups v ! j)) ! b = 0"
    if j: "j < length (groups v)" for j
  proof -
    have "\<not> in_bytes (crd_extent (groups v ! j)) b"
      using in_bytes_unique[OF assms(1,2) j k(1)] crd_extent_in_bytes[OF assms(1,2), of "groups v ! j" b]
        assms(5,6) j k by auto
    moreover have "ext_in conf (crd_extent (groups v ! j))"
      using crd_extents_in[OF assms(1,2)] j by simp
    ultimately show ?thesis
      using assms(4,7) by (auto simp: nth_received_part[where conf = conf] in_bytes_def)
  qed
  then show ?thesis
    using assms(7) by (simp add: parity_after_def cong: xs.cong_simp)
qed

end
