(* ===== verification/Crd_Cluster.thy ===== *)
theory Crd_Cluster
  imports Crd_Parity
begin

text \<open>
  A whole CRD update of a stripe: the coordinator pushes the commands, the nodes run in any
  order, the coordinator collects the acknowledgements. The nodes form a step relation
  \<open>node_step\<close>; the states it can reach are described by which nodes are done (\<open>crd_state\<close>),
  every reachable state that is not the last one has a step, and in the last one the data blocks
  are updated, the parity of the collector matches the data and all acknowledgements are there.
\<close>

section \<open>What CrdUpdate sends\<close>

definition cmd6 :: "int \<Rightarrow> upd_block \<Rightarrow> byte list" where
  "cmd6 pc b = put_ints [6, 24, ub_id b, ub_offset_add b, ub_upd_size b, pc]"

definition cmd7 :: "config \<Rightarrow> byte list \<Rightarrow> int \<Rightarrow> upd_block list \<Rightarrow> byte list" where
  "cmd7 conf M pc v =
     (let args = collector_args conf M pc v in put_ints (7 # 4 * (2 + int (length args)) # args))"

definition cmd8 :: "int \<Rightarrow> upd_block list \<Rightarrow> byte list" where
  "cmd8 blk_id v =
     (let args = parity_args blk_id v in put_ints (8 # 4 * (2 + int (length args)) # args))"

definition crd_cmds :: "config \<Rightarrow> byte list \<Rightarrow> nat \<Rightarrow> upd_block list \<Rightarrow> (ip_addr \<times> byte list) list" where
  "crd_cmds conf M c v =
     map (\<lambda>b. (ub_ip b, cmd6 (int (ecK conf + c)) b)) v @
     [(helpersIPs conf ! (ecK conf + c), cmd7 conf M (int (ecK conf + c)) v)] @
     map (\<lambda>i. (helpersIPs conf ! (ecK conf + i), cmd8 (int (ecK conf + i)) v)) (filter (\<lambda>i. i \<noteq> c) [0..<ecM conf])"

definition push_cmds :: "(ip_addr \<times> byte list) list \<Rightarrow> world \<Rightarrow> world" where
  "push_cmds = fold (\<lambda>(ip, c). rpush ip ''upd_cmds'' c)"

lemma push_cmds_append: "push_cmds (xs @ ys) w = push_cmds ys (push_cmds xs w)"
  by (simp add: push_cmds_def)

lemma push_cmds_state:
  "w_files (push_cmds cs w) = w_files w"
  "w_queues (push_cmds cs w) x key =
    w_queues w x key @ (if key = ''upd_cmds'' then map snd (filter (\<lambda>p. fst p = x) cs) else [])"
  by (induction cs arbitrary: w) (auto simp: push_cmds_def)

lemma command_fits:
  assumes "updates_ok conf v"
  shows "4 * (4 + length v * (4 + ecM conf) + ecM conf) \<le> 1024"
  using assms unfolding updates_ok_def COMMAND_MAX_LENGTH_def by blast

lemma cmd7_eq:
  assumes "stripe_ok conf M" and "updates_ok conf v" and "c < ecM conf"
  shows "crd_collector_cmd conf M (int (ecK conf + c)) (get_upd_solu_crd v) v =
    Inr (cmd7 conf M (int (ecK conf + c)) v)"
proof -
  have fit: "4 * (4 + x + m) \<le> 1024 \<Longrightarrow> c < m \<Longrightarrow> 4 * (2 + (3 + x + (m - 1))) \<le> 1024" for x m :: nat
    by simp
  have "4 * (2 + length (collector_args conf M (int (ecK conf + c)) v)) \<le> 1024"
    unfolding length_collector_args[OF assms(3)] by (rule fit[OF command_fits[OF assms(2)] assms(3)])
  then show ?thesis
    using collector_cmd_eq[OF assms(1,2)]
    by (simp add: mk_cmd_def cmd7_def Let_def COMMAND_MAX_LENGTH_def)
qed

lemma cmd8_eq:
  assumes "updates_ok conf v" and "c < ecM conf"
  shows "mk_cmd 8 ([i, int (length (get_upd_solu_crd v))] @ crd_parity_fields (get_upd_solu_crd v)) = Inr (cmd8 i v)"
proof -
  have args: "[i, int (length (get_upd_solu_crd v))] @ crd_parity_fields (get_upd_solu_crd v) = parity_args i v"
    by (simp add: parity_args_def get_upd_solu_crd_groups)
  have fit: "4 * (4 + l * (4 + m) + m) \<le> 1024 \<Longrightarrow> n \<le> l \<Longrightarrow> 4 * (4 + 3 * n) \<le> 1024" for l m n :: nat
    by (simp add: add_mult_distrib2)
  have "4 * (4 + 3 * length (groups v)) \<le> 1024"
    by (rule fit[OF command_fits[OF assms(1)] groups_length_le])
  then show ?thesis
    unfolding args by (simp add: mk_cmd_def cmd8_def Let_def COMMAND_MAX_LENGTH_def length_parity_args)
qed

lemma data_ip:
  assumes "stripe_ok conf M" and "updates_ok conf v" and "b \<in> set v"
  shows "nat (ub_id b) < ecK conf" "nat (ub_id b) < length (helpersIPs conf)" "ub_ip b = helpersIPs conf ! nat (ub_id b)"
    "ub_ip b \<in> set (helpersIPs conf)" "int (nat (ub_id b)) = ub_id b"
  using assms by (auto simp: stripe_ok_def updates_ok_def)

lemma upd_id_inj:
  assumes "updates_ok conf v" and "b \<in> set v" and "b' \<in> set v" and "nat (ub_id b) = nat (ub_id b')"
  shows "b = b'"
proof -
  have "ub_id b = ub_id b'"
    using assms by (auto simp: updates_ok_def nat_eq_iff)
  then show ?thesis
    using assms(1-3) by (auto simp: updates_ok_def distinct_map inj_on_def)
qed

text \<open>\<open>CrdUpdate\<close> succeeds and pushes exactly these commands.\<close>

lemma CrdUpdate_eq:
  assumes "stripe_ok conf M" and "updates_ok conf v"
  shows "CrdUpdate conf M r v w = Inr (push_cmds (crd_cmds conf M (r mod ecM conf) v) w)"
proof -
  let ?K = "ecK conf" and ?m = "ecM conf" and ?H = "helpersIPs conf"
  define c where "c = r mod ecM conf"
  have m: "0 < ?m" "length ?H = ecN conf" "?K < ecN conf"
    using assms(1) by (auto simp: stripe_ok_def)
  have c: "c < ?m"
    using m by (simp add: c_def)
  have pc: "crd_collector_id conf r = int (?K + c)"
    by (simp add: crd_collector_id_def c_def add.commute)
  have 6: "crd_data_cmds conf (int (?K + c)) v w =
      Inr (push_cmds (map (\<lambda>b. (ub_ip b, cmd6 (int (?K + c)) b)) v) w)" for w
  proof -
    have "mk_cmd 6 [ub_id b, ub_offset_add b, ub_upd_size b, int (?K + c)] = Inr (cmd6 (int (?K + c)) b)" for b
      by (simp add: mk_cmd_def Let_def cmd6_def COMMAND_MAX_LENGTH_def)
    then have "crd_data_cmds conf (int (?K + c)) v w =
        Inr (fold (\<lambda>b. rpush (ub_ip b) ''upd_cmds'' (cmd6 (int (?K + c)) b)) v w)"
      unfolding crd_data_cmds_def using data_ip(4)[OF assms]
      by (intro foldE_Inr_fold) (simp add: send_cmd_def)
    then show ?thesis
      by (simp add: push_cmds_def fold_map comp_def)
  qed
  have 8: "crd_parity_cmds conf (int (?K + c)) (get_upd_solu_crd v) w =
      Inr (push_cmds (map (\<lambda>i. (?H ! (?K + i), cmd8 (int (?K + i)) v)) (filter (\<lambda>i. i \<noteq> c) [0..<?m])) w)" for w
  proof -
    have "crd_parity_cmds conf (int (?K + c)) (get_upd_solu_crd v) w =
        foldE (\<lambda>i w. if int (?K + i) = int (?K + c) then Inr w
          else bindE (mk_cmd 8 ([int (?K + i), int (length (get_upd_solu_crd v))] @ crd_parity_fields (get_upd_solu_crd v))) (\<lambda>cmd.
            bindE (atE ?H (int (?K + i))) (\<lambda>ip. send_cmd conf ip cmd w))) [0..<?m] w"
      unfolding crd_parity_cmds_def foldE_map ..
    also have "\<dots> = Inr (fold (\<lambda>i w. if i = c then w else rpush (?H ! (?K + i)) ''upd_cmds'' (cmd8 (int (?K + i)) v) w) [0..<?m] w)"
      using m cmd8_eq[OF assms(2) c]
      by (intro foldE_Inr_fold) (auto simp: send_cmd_def simp del: of_nat_add)
    also have "fold (\<lambda>i w. if i = c then w else rpush (?H ! (?K + i)) ''upd_cmds'' (cmd8 (int (?K + i)) v) w) is w =
        push_cmds (map (\<lambda>i. (?H ! (?K + i), cmd8 (int (?K + i)) v)) (filter (\<lambda>i. i \<noteq> c) is)) w" for "is"
      by (induction "is" arbitrary: w) (auto simp: push_cmds_def)
    finally show ?thesis .
  qed
  have at: "atE ?H (int (?K + c)) = Inr (?H ! (?K + c))" "?H ! (?K + c) \<in> set ?H"
    using m c by (auto simp del: of_nat_add)
  have "CrdUpdate conf M r v w =
      bindE (send_cmd conf (?H ! (?K + c)) (cmd7 conf M (int (?K + c)) v)
        (push_cmds (map (\<lambda>b. (ub_ip b, cmd6 (int (?K + c)) b)) v) w))
      (crd_parity_cmds conf (int (?K + c)) (get_upd_solu_crd v))"
    using m(1) unfolding CrdUpdate_def Let_def pc
    by (simp only: 6 cmd7_eq[OF assms c] at bindE_Inr if_False less_not_refl2 simp_thms)
  also have "\<dots> = Inr (push_cmds (crd_cmds conf M c v) w)"
    using at(2) by (simp add: send_cmd_def 8 crd_cmds_def push_cmds_append del: of_nat_add)
      (simp add: push_cmds_def)
  finally show ?thesis
    by (simp add: c_def)
qed

section \<open>The command of each node\<close>

definition node_cmds :: "config \<Rightarrow> byte list \<Rightarrow> nat \<Rightarrow> upd_block list \<Rightarrow> nat \<Rightarrow> byte list list" where
  "node_cmds conf M c v k = map snd (filter (\<lambda>p. fst p = helpersIPs conf ! k) (crd_cmds conf M c v))"

lemma filter_fst_unique:
  "distinct (map fst xs) \<Longrightarrow> (x, y) \<in> set xs \<Longrightarrow> filter (\<lambda>p. fst p = x) xs = [(x, y)]"
proof (induction xs)
  case (Cons a xs)
  have "filter (\<lambda>p. fst p = x) xs = []" if "x \<notin> fst ` set xs"
    using that by (auto simp: filter_empty_conv)
  with Cons show ?case by (cases a) (auto simp: image_iff)
qed simp

lemma crd_cmds_fst:
  assumes "stripe_ok conf M" and "updates_ok conf v" and "c < ecM conf"
  shows "distinct (map fst (crd_cmds conf M c v))"
proof -
  let ?H = "helpersIPs conf" and ?K = "ecK conf"
  let ?js = "map (\<lambda>b. nat (ub_id b)) v @ [?K + c] @ map ((+) ?K) (filter (\<lambda>i. i \<noteq> c) [0..<ecM conf])"
  have "map fst (crd_cmds conf M c v) = map ((!) ?H) ?js"
    using data_ip(3)[OF assms(1,2)] by (simp add: crd_cmds_def)
  moreover have "distinct ?js"
  proof -
    have "inj_on (\<lambda>b. nat (ub_id b)) (set v)"
      using upd_id_inj[OF assms(2)] by (auto simp: inj_on_def)
    moreover have "distinct v"
      using assms(2) by (simp add: updates_ok_def distinct_map)
    ultimately show ?thesis
      using data_ip(1)[OF assms(1,2)] by (fastforce simp: distinct_map)
  qed
  moreover have "inj_on ((!) ?H) (set ?js)"
  proof (rule inj_on_subset)
    show "inj_on ((!) ?H) {..<length ?H}"
      using assms(1) by (auto simp: stripe_ok_def inj_on_def nth_eq_iff_index_eq)
    show "set ?js \<subseteq> {..<length ?H}"
      using data_ip(2)[OF assms(1,2)] assms(1,3) by (auto simp: stripe_ok_def)
  qed
  ultimately show ?thesis
    by (simp only: distinct_map)
qed

lemma node_cmds_data:
  assumes "stripe_ok conf M" and "updates_ok conf v" and "c < ecM conf" and "b \<in> set v"
  shows "node_cmds conf M c v (nat (ub_id b)) = [cmd6 (int (ecK conf + c)) b]"
proof -
  have "(helpersIPs conf ! nat (ub_id b), cmd6 (int (ecK conf + c)) b) \<in> set (crd_cmds conf M c v)"
    unfolding crd_cmds_def set_append set_map
    using assms(4) data_ip(3)[OF assms(1,2,4)] by (intro UnI1 image_eqI[of _ _ b]) simp_all
  from filter_fst_unique[OF crd_cmds_fst[OF assms(1-3)] this] show ?thesis
    by (simp add: node_cmds_def)
qed

lemma node_cmds_collector:
  assumes "stripe_ok conf M" and "updates_ok conf v" and "c < ecM conf"
  shows "node_cmds conf M c v (ecK conf + c) = [cmd7 conf M (int (ecK conf + c)) v]"
proof -
  have "(helpersIPs conf ! (ecK conf + c), cmd7 conf M (int (ecK conf + c)) v) \<in> set (crd_cmds conf M c v)"
    by (simp add: crd_cmds_def)
  from filter_fst_unique[OF crd_cmds_fst[OF assms] this] show ?thesis
    by (simp add: node_cmds_def)
qed

lemma node_cmds_parity:
  assumes "stripe_ok conf M" and "updates_ok conf v" and "c < ecM conf" and "i < ecM conf" "i \<noteq> c"
  shows "node_cmds conf M c v (ecK conf + i) = [cmd8 (int (ecK conf + i)) v]"
proof -
  have "(helpersIPs conf ! (ecK conf + i), cmd8 (int (ecK conf + i)) v) \<in> set (crd_cmds conf M c v)"
    using assms(4,5) by (simp add: crd_cmds_def)
  from filter_fst_unique[OF crd_cmds_fst[OF assms(1-3)] this] show ?thesis
    by (simp add: node_cmds_def)
qed

lemma node_cmds_idle:
  assumes "stripe_ok conf M" and "updates_ok conf v" and "c < ecM conf"
    and "k < ecK conf" and "\<forall>b \<in> set v. nat (ub_id b) \<noteq> k"
  shows "node_cmds conf M c v k = []"
proof -
  have eq: "helpersIPs conf ! i = helpersIPs conf ! k \<longleftrightarrow> i = k" if "i < ecN conf" for i
    using that assms(1,4) by (auto simp: stripe_ok_def nth_eq_iff_index_eq)
  have "fst p \<noteq> helpersIPs conf ! k" if "p \<in> set (crd_cmds conf M c v)" for p
    using that assms eq data_ip[OF assms(1,2)]
    by (auto simp: crd_cmds_def stripe_ok_def)
  then show ?thesis
    by (auto simp: node_cmds_def filter_empty_conv)
qed

section \<open>The states of an update\<close>

text \<open>
  One node takes one command; \<open>E\<close> is how its operating system cuts up the transfers.
\<close>

inductive node_step :: "gf_ops \<Rightarrow> env \<Rightarrow> byte list \<Rightarrow> config \<Rightarrow> world \<Rightarrow> world \<Rightarrow> bool"
  for G E ptr conf where
  node: "ip \<in> set (helpersIPs conf) \<Longrightarrow> node_doProcess G E ptr conf ip w = Inr w' \<Longrightarrow>
    node_step G E ptr conf w w'"

inductive_cases node_stepE: "node_step G E ptr conf w w'"

text \<open>
  \<open>blk0 k\<close> is what block \<open>k\<close> held before the update. The deltas, and the blocks of a state in which
  the data nodes \<open>ds\<close>, the collector (\<open>cd\<close>) and the parity nodes \<open>ps\<close> are done.
\<close>

definition old_delta :: "(nat \<Rightarrow> byte list) \<Rightarrow> upd_block \<Rightarrow> byte list" where
  "old_delta blk0 b = upd_delta b (blk0 (nat (ub_id b)))"

definition data_now :: "(nat \<Rightarrow> byte list) \<Rightarrow> upd_block list \<Rightarrow> nat \<Rightarrow> byte list" where
  "data_now blk0 ds k =
     (case find (\<lambda>b. ub_id b = int k) ds of None \<Rightarrow> blk0 k | Some b \<Rightarrow> upd_file b (blk0 k))"

definition parity_now ::
    "gf_ops \<Rightarrow> config \<Rightarrow> byte list \<Rightarrow> nat \<Rightarrow> upd_block list \<Rightarrow> (nat \<Rightarrow> byte list) \<Rightarrow> bool \<Rightarrow> nat set \<Rightarrow> nat \<Rightarrow> byte list" where
  "parity_now G conf M c v blk0 cd ps i =
     (let old = blk0 (ecK conf + i); delta = parity_delta G conf M v (old_delta blk0) i
      in if i = c then (if cd then xor_bytes old delta else old)
         else if i \<in> ps then parity_after conf v delta old else old)"

definition node_done :: "config \<Rightarrow> nat \<Rightarrow> upd_block list \<Rightarrow> bool \<Rightarrow> nat set \<Rightarrow> nat \<Rightarrow> bool" where
  "node_done conf c ds cd ps k \<longleftrightarrow>
     (\<exists>b \<in> set ds. nat (ub_id b) = k) \<or> cd \<and> k = ecK conf + c \<or> (\<exists>i \<in> ps. k = ecK conf + i)"

definition crd_state ::
    "gf_ops \<Rightarrow> config \<Rightarrow> byte list \<Rightarrow> nat \<Rightarrow> upd_block list \<Rightarrow> (nat \<Rightarrow> byte list) \<Rightarrow>
     upd_block list \<Rightarrow> bool \<Rightarrow> nat set \<Rightarrow> world \<Rightarrow> bool" where
  "crd_state G conf M c v blk0 ds cd ps w \<longleftrightarrow>
     distinct ds \<and> set ds \<subseteq> set v \<and> (cd \<longrightarrow> set ds = set v) \<and> ps \<subseteq> {..<ecM conf} - {c} \<and> (ps \<noteq> {} \<longrightarrow> cd) \<and>
     (\<forall>k < ecN conf. w_queues w (helpersIPs conf ! k) ''upd_cmds'' =
        (if node_done conf c ds cd ps k then [] else node_cmds conf M c v k)) \<and>
     w_queues w (helpersIPs conf ! (ecK conf + c)) ''crdData'' =
       (if cd then [] else map (\<lambda>b. put_int (ub_id b) @ old_delta blk0 b) ds) \<and>
     (\<forall>i < ecM conf. i \<noteq> c \<longrightarrow> w_queues w (helpersIPs conf ! (ecK conf + i)) ''crdData'' =
       (if cd \<and> i \<notin> ps
        then map (sub_set_msg (parity_delta G conf M v (old_delta blk0) i) (extents v)) [0..<length (groups v)]
        else [])) \<and>
     w_queues w (coordinatorIP conf) ''ack'' = replicate ((if cd then 1 else 0) + card ps) ack_msg \<and>
     (\<forall>k < ecK conf. w_files w (helpersIPs conf ! k) (blk_name (int k)) = Some (data_now blk0 ds k)) \<and>
     (\<forall>i < ecM conf. w_files w (helpersIPs conf ! (ecK conf + i)) (blk_name (int (ecK conf + i))) =
       Some (parity_now G conf M c v blk0 cd ps i))"

text \<open>The setting of the lemmas below.\<close>

definition crd_run ::
    "gf_ops \<Rightarrow> env \<Rightarrow> config \<Rightarrow> byte list \<Rightarrow> nat \<Rightarrow> upd_block list \<Rightarrow> (nat \<Rightarrow> byte list) \<Rightarrow> bool" where
  "crd_run G E conf M c v blk0 \<longleftrightarrow>
     gf_complete G \<and> io_ok E \<and> stripe_ok conf M \<and> updates_ok conf v \<and> c < ecM conf \<and>
     (\<forall>k < ecN conf. length (blk0 k) = nat (blk_bytes conf))"

lemma crd_runD:
  assumes "crd_run G E conf M c v blk0"
  shows "gf_complete G" "io_ok E" "stripe_ok conf M" "updates_ok conf v" "c < ecM conf"
    "\<forall>k < ecN conf. length (blk0 k) = nat (blk_bytes conf)"
    "\<forall>b \<in> set v. length (old_delta blk0 b) = nat (ub_upd_size b * 1024)"
    "\<And>i k. i < ecN conf \<Longrightarrow> k < ecN conf \<Longrightarrow> helpersIPs conf ! i = helpersIPs conf ! k \<longleftrightarrow> i = k"
    "\<And>i. i < ecM conf \<Longrightarrow> ecK conf + i < ecN conf"
proof -
  show *: "gf_complete G" "io_ok E" "stripe_ok conf M" "updates_ok conf v" "c < ecM conf"
    "\<forall>k < ecN conf. length (blk0 k) = nat (blk_bytes conf)"
    using assms by (simp_all add: crd_run_def)
  show "\<forall>b \<in> set v. length (old_delta blk0 b) = nat (ub_upd_size b * 1024)"
  proof
    fix b assume b: "b \<in> set v"
    then have "blk_in conf b" "nat (ub_id b) < ecN conf"
      using *(3,4) data_ip(1)[OF *(3,4) b] by (auto simp: updates_ok_def stripe_ok_def)
    then show "length (old_delta blk0 b) = nat (ub_upd_size b * 1024)"
      using *(6) by (simp add: old_delta_def)
  qed
  show "\<And>i k. i < ecN conf \<Longrightarrow> k < ecN conf \<Longrightarrow> helpersIPs conf ! i = helpersIPs conf ! k \<longleftrightarrow> i = k"
    using *(3) by (auto simp: stripe_ok_def nth_eq_iff_index_eq)
  show "\<And>i. i < ecM conf \<Longrightarrow> ecK conf + i < ecN conf"
    by simp
qed

lemma crd_stateD:
  assumes "crd_state G conf M c v blk0 ds cd ps w"
  shows "distinct ds" "set ds \<subseteq> set v" "cd \<Longrightarrow> set ds = set v" "ps \<subseteq> {..<ecM conf} - {c}" "ps \<noteq> {} \<Longrightarrow> cd"
    "\<And>k. k < ecN conf \<Longrightarrow> w_queues w (helpersIPs conf ! k) ''upd_cmds'' =
        (if node_done conf c ds cd ps k then [] else node_cmds conf M c v k)"
    "w_queues w (helpersIPs conf ! (ecK conf + c)) ''crdData'' =
       (if cd then [] else map (\<lambda>b. put_int (ub_id b) @ old_delta blk0 b) ds)"
    "\<And>i. i < ecM conf \<Longrightarrow> i \<noteq> c \<Longrightarrow> w_queues w (helpersIPs conf ! (ecK conf + i)) ''crdData'' =
       (if cd \<and> i \<notin> ps
        then map (sub_set_msg (parity_delta G conf M v (old_delta blk0) i) (extents v)) [0..<length (groups v)]
        else [])"
    "w_queues w (coordinatorIP conf) ''ack'' = replicate ((if cd then 1 else 0) + card ps) ack_msg"
    "\<And>k. k < ecK conf \<Longrightarrow> w_files w (helpersIPs conf ! k) (blk_name (int k)) = Some (data_now blk0 ds k)"
    "\<And>i. i < ecM conf \<Longrightarrow> w_files w (helpersIPs conf ! (ecK conf + i)) (blk_name (int (ecK conf + i))) =
       Some (parity_now G conf M c v blk0 cd ps i)"
  using assms unfolding crd_state_def by blast+

lemma data_now_snoc:
  "data_now blk0 (ds @ [b]) k =
    (if ub_id b = int k \<and> (\<forall>d \<in> set ds. ub_id d \<noteq> int k) then upd_file b (blk0 k) else data_now blk0 ds k)"
proof -
  have "find P (xs @ [x]) = (case find P xs of None \<Rightarrow> (if P x then Some x else None) | Some y \<Rightarrow> Some y)"
    for P :: "upd_block \<Rightarrow> bool" and xs x
    by (induction xs) auto
  then show ?thesis
    by (auto simp: data_now_def find_None_iff split: option.splits dest: find_Some_iff[THEN iffD1])
qed

section \<open>The steps of the nodes\<close>

lemma step_data:
  assumes run: "crd_run G E conf M c v blk0" and st: "crd_state G conf M c v blk0 ds cd ps w"
    and b: "b \<in> set v" "b \<notin> set ds"
  shows "\<exists>w'. node_doProcess G E ptr conf (ub_ip b) w = Inr w' \<and> crd_state G conf M c v blk0 (ds @ [b]) cd ps w'"
proof -
  note R = crd_runD[OF run] and S = crd_stateD[OF st]
  let ?H = "helpersIPs conf" and ?K = "ecK conf" and ?k = "nat (ub_id b)" and ?pc = "int (ecK conf + c)"
  have cd: "\<not> cd" "ps = {}"
    using S(3,5) b by auto
  note D = data_ip[OF R(3,4) b(1)]
  have kN: "?k < ecN conf" and pN: "?K + c < ecN conf"
    using D(1) R(3,5) by (auto simp: stripe_ok_def)
  have fresh: "nat (ub_id d) \<noteq> ?k" "ub_id d \<noteq> ub_id b" if "d \<in> set ds" for d
    using that upd_id_inj[OF R(4), of d b] S(2) b by auto
  have args: "list_all int32 [ub_id b, ub_offset_add b, ub_upd_size b, ?pc]"
    using R(3,4,5) b(1) by (auto simp: updates_ok_def stripe_ok_def blk_in_def)
  have mk: "mk_cmd 6 [ub_id b, ub_offset_add b, ub_upd_size b, ?pc] = Inr (cmd6 ?pc b)"
    by (simp add: mk_cmd_def Let_def cmd6_def COMMAND_MAX_LENGTH_def)
  have q: "w_queues w (ub_ip b) ''upd_cmds'' = [cmd6 ?pc b]"
    using S(6)[OF kN] fresh(1) D(1,3) cd node_cmds_data[OF R(3-5) b(1)] by (auto simp: node_done_def)
  obtain w1 where w1: "w_files w1 = w_files w"
      "w_queues w1 = (w_queues w)(ub_ip b := (w_queues w (ub_ip b))(''upd_cmds'' := []))"
      "node_doProcess G E ptr conf (ub_ip b) w = node_dispatch G E ptr conf (ub_ip b) 6
        (cmd6 ?pc b @ replicate (COMMAND_MAX_LENGTH - length (cmd6 ?pc b)) (malloc_byte E)) 24 w1"
    using node_doProcess_cmd[OF mk args _ q, of G E ptr conf] by auto
  have "find (\<lambda>d. ub_id d = int ?k) ds = None"
    using fresh(2) D(5) by (simp add: find_None_iff)
  then have fd: "w_files w1 (ub_ip b) (blk_name (ub_id b)) = Some (blk0 ?k)"
    using S(10)[OF D(1)] w1(1) D(3,5) by (simp add: data_now_def)
  have dst: "atE ?H ?pc = Inr (?H ! (?K + c))" "int32 ?pc" "int32 (blocksize conf)"
    using R(3) pN by (auto simp: stripe_ok_def simp del: of_nat_add)
  define w' where "w' = put_file (ub_ip b) (blk_name (ub_id b)) (upd_file b (blk0 ?k))
    (rpush (?H ! (?K + c)) ''crdData'' (put_int (ub_id b) @ old_delta blk0 b) w1)"
  have "node_doProcess G E ptr conf (ub_ip b) w = Inr w'"
    unfolding w1(3) node_dispatch_def w'_def cmd6_def old_delta_def
    using crd_data_node[OF R(2) _ fd _ dst(1) dst(3,2)] R(4,6) b(1) kN
    by (simp add: updates_ok_def del: put_ints_Cons)
  moreover have "crd_state G conf M c v blk0 (ds @ [b]) cd ps w'"
    unfolding crd_state_def
  proof (intro conjI allI impI)
    show "distinct (ds @ [b])" "set (ds @ [b]) \<subseteq> set v" "ps \<subseteq> {..<ecM conf} - {c}"
      "cd \<Longrightarrow> set (ds @ [b]) = set v" "ps \<noteq> {} \<Longrightarrow> cd"
      using S(1,2,4) b cd by auto
    show "w_queues w' (?H ! k) ''upd_cmds'' =
        (if node_done conf c (ds @ [b]) cd ps k then [] else node_cmds conf M c v k)" if "k < ecN conf" for k
      using that S(6)[OF that] R(8)[OF that kN] w1(2) D(3) by (auto simp: w'_def node_done_def)
    show "w_queues w' (?H ! (?K + c)) ''crdData'' =
        (if cd then [] else map (\<lambda>b. put_int (ub_id b) @ old_delta blk0 b) (ds @ [b]))"
      using S(7) w1(2) cd by (auto simp: w'_def)
    show "w_queues w' (?H ! (?K + i)) ''crdData'' =
       (if cd \<and> i \<notin> ps
        then map (sub_set_msg (parity_delta G conf M v (old_delta blk0) i) (extents v)) [0..<length (groups v)]
        else [])" if "i < ecM conf" "i \<noteq> c" for i
      using S(8)[OF that] w1(2) R(8)[OF R(9)[OF that(1)] pN] that(2) by (auto simp: w'_def)
    show "w_queues w' (coordinatorIP conf) ''ack'' = replicate ((if cd then 1 else 0) + card ps) ack_msg"
      using S(9) w1(2) by (auto simp: w'_def)
    show "w_files w' (?H ! k) (blk_name (int k)) = Some (data_now blk0 (ds @ [b]) k)" if "k < ecK conf" for k
    proof -
      have "?H ! k = ub_ip b \<longleftrightarrow> k = ?k"
        using R(8)[of k ?k] that R(3) kN D(3) by (auto simp: stripe_ok_def)
      then show ?thesis
        using S(10)[OF that] w1(1) D(5) fresh(2) by (auto simp: w'_def data_now_snoc)
    qed
    show "w_files w' (?H ! (?K + i)) (blk_name (int (?K + i))) = Some (parity_now G conf M c v blk0 cd ps i)"
      if "i < ecM conf" for i
      using S(11)[OF that] w1(1) R(8)[OF R(9)[OF that] kN] D(1,3) by (auto simp: w'_def)
  qed
  ultimately show ?thesis by blast
qed

lemma cmd7_mk:
  assumes "stripe_ok conf M" and "updates_ok conf v" and "c < ecM conf"
  shows "mk_cmd 7 (collector_args conf M (int (ecK conf + c)) v) = Inr (cmd7 conf M (int (ecK conf + c)) v)"
  using cmd7_eq[OF assms] collector_cmd_eq[OF assms(1,2)] by simp

lemma cmd8_mk:
  assumes "updates_ok conf v" and "c < ecM conf"
  shows "mk_cmd 8 (parity_args i v) = Inr (cmd8 i v)"
  using cmd8_eq[OF assms] by (simp add: parity_args_def get_upd_solu_crd_groups)

text \<open>Popping its command leaves the rest of the cluster as it was.\<close>

lemma step_collector:
  assumes run: "crd_run G E conf M c v blk0" and st: "crd_state G conf M c v blk0 ds False ps w"
    and all: "set ds = set v"
  shows "\<exists>w'. node_doProcess G E ptr conf (helpersIPs conf ! (ecK conf + c)) w = Inr w' \<and>
    crd_state G conf M c v blk0 ds True ps w'"
proof -
  note R = crd_runD[OF run] and S = crd_stateD[OF st]
  let ?H = "helpersIPs conf" and ?K = "ecK conf" and ?pc = "int (ecK conf + c)"
  let ?ip = "?H ! (?K + c)" and ?args = "collector_args conf M (int (ecK conf + c)) v"
  let ?pd = "parity_delta G conf M v (old_delta blk0)"
  have ps: "ps = {}" using S(5) by auto
  have pN: "?K + c < ecN conf" using R(9)[OF R(5)] .
  have notdone: "\<not> node_done conf c ds False ps (?K + c)"
    using data_ip(1)[OF R(3,4)] S(2) ps by (fastforce simp: node_done_def)
  have q: "w_queues w ?ip ''upd_cmds'' = [cmd7 conf M ?pc v]"
    using S(6)[OF pN] notdone node_cmds_collector[OF R(3-5)] by simp
  obtain w1 where w1: "w_files w1 = w_files w"
      "w_queues w1 = (w_queues w)(?ip := (w_queues w ?ip)(''upd_cmds'' := []))"
      "node_doProcess G E ptr conf ?ip w = node_dispatch G E ptr conf ?ip 7
        (cmd7 conf M ?pc v @ replicate (COMMAND_MAX_LENGTH - length (cmd7 conf M ?pc v)) (malloc_byte E))
        (4 * (2 + int (length ?args))) w1"
    using node_doProcess_cmd[OF cmd7_mk[OF R(3-5)] collector_args_int32[OF R(3-5)] _ q, of G E ptr conf] by auto
  have "distinct v"
    using R(4) by (simp add: updates_ok_def distinct_map)
  then have perm: "mset ds = mset v"
    using all S(1) by (metis set_eq_iff_mset_eq_distinct)
  have crd: "w_queues w1 ?ip ''crdData'' = map (\<lambda>b. put_int (ub_id b) @ old_delta blk0 b) ds @ []"
    using S(7) w1(2) by simp
  have old: "w_files w1 ?ip (blk_name ?pc) = Some (blk0 (?K + c))"
    using S(11)[OF R(5)] w1(1) by (simp add: parity_now_def Let_def)
  define post where "post = replicate (COMMAND_MAX_LENGTH - length (cmd7 conf M ?pc v)) (malloc_byte E)"
  have disp: "node_doProcess G E ptr conf ?ip w = recv_and_compute_in_parity_collector_for_crd G E conf ?ip
      (put_ints (7 # 4 * (2 + int (length ?args)) # ?args) @ post) (4 * (2 + int (length ?args))) w1"
    unfolding w1(3) node_dispatch_def post_def[symmetric] by (simp add: cmd7_def Let_def)
  have len_old: "length (blk0 (?K + c)) = nat (blk_bytes conf)"
    using R(6) pN by simp
  obtain w' where w': "node_doProcess G E ptr conf ?ip w = Inr w'"
      "w_files w' = (w_files w1)(?ip := (w_files w1 ?ip)(blk_name ?pc := Some (xor_bytes (blk0 (?K + c)) (?pd c))))"
      "w_queues w' ?ip ''crdData'' = []"
      "\<forall>i < ecM conf. i \<noteq> c \<longrightarrow> w_queues w' (?H ! (?K + i)) ''crdData'' =
        w_queues w1 (?H ! (?K + i)) ''crdData'' @ map (sub_set_msg (?pd i) (extents v)) [0..<length (groups v)]"
      "w_queues w' (coordinatorIP conf) ''ack'' = w_queues w1 (coordinatorIP conf) ''ack'' @ [ack_msg]"
      "\<forall>x key. \<not> (key = ''crdData'' \<and> (\<exists>i < ecM conf. x = ?H ! (?K + i))) \<longrightarrow>
        \<not> (x = coordinatorIP conf \<and> key = ''ack'') \<longrightarrow> w_queues w' x key = w_queues w1 x key"
    using crd_collector_node[OF R(1-5,7) perm refl crd old len_old refl refl, of post]
    unfolding disp by blast
  have "crd_state G conf M c v blk0 ds True ps w'"
    unfolding crd_state_def
  proof (intro conjI allI impI)
    show "distinct ds" "set ds \<subseteq> set v" "ps \<subseteq> {..<ecM conf} - {c}"
      "set ds = set v" "ps \<noteq> {} \<Longrightarrow> True"
      using S(1,2,4) all by auto
    show "w_queues w' (?H ! k) ''upd_cmds'' =
        (if node_done conf c ds True ps k then [] else node_cmds conf M c v k)" if "k < ecN conf" for k
      using that S(6)[OF that] R(8)[OF that pN] w1(2) w'(6) by (auto simp: node_done_def)
    show "w_queues w' (?H ! (?K + c)) ''crdData'' =
        (if True then [] else map (\<lambda>b. put_int (ub_id b) @ old_delta blk0 b) ds)"
      using w'(3) by simp
    show "w_queues w' (?H ! (?K + i)) ''crdData'' =
       (if True \<and> i \<notin> ps then map (sub_set_msg (?pd i) (extents v)) [0..<length (groups v)] else [])"
      if "i < ecM conf" "i \<noteq> c" for i
      using S(8)[OF that] w1(2) R(8)[OF R(9)[OF that(1)] pN] that w'(4) ps by auto
    show "w_queues w' (coordinatorIP conf) ''ack'' = replicate ((if True then 1 else 0) + card ps) ack_msg"
      using S(9) w1(2) w'(5) ps by auto
    show "w_files w' (?H ! k) (blk_name (int k)) = Some (data_now blk0 ds k)" if "k < ecK conf" for k
      using S(10)[OF that] w1(1) w'(2) R(8)[of k "?K + c"] that pN by auto
    show "w_files w' (?H ! (?K + i)) (blk_name (int (?K + i))) = Some (parity_now G conf M c v blk0 True ps i)"
      if "i < ecM conf" for i
      using S(11)[OF that] w1(1) w'(2) R(8)[OF R(9)[OF that] pN] by (auto simp: parity_now_def Let_def)
  qed
  with w'(1) show ?thesis by blast
qed

lemma block_collector:
  assumes run: "crd_run G E conf M c v blk0" and st: "crd_state G conf M c v blk0 ds False ps w"
    and part: "set ds \<noteq> set v"
  shows "node_doProcess G E ptr conf (helpersIPs conf ! (ecK conf + c)) w = Inl Blocked"
proof -
  note R = crd_runD[OF run] and S = crd_stateD[OF st]
  let ?H = "helpersIPs conf" and ?K = "ecK conf" and ?pc = "int (ecK conf + c)"
  let ?ip = "?H ! (?K + c)" and ?args = "collector_args conf M (int (ecK conf + c)) v"
  let ?ci = "crd_info_of (sub_of v) (coff_of conf M) v" and ?z = "replicate (nat (blk_bytes conf)) 0 :: byte list"
  have ps: "ps = {}" using S(5) by auto
  have pN: "?K + c < ecN conf" using R(9)[OF R(5)] .
  have notdone: "\<not> node_done conf c ds False ps (?K + c)"
    using data_ip(1)[OF R(3,4)] S(2) ps by (fastforce simp: node_done_def)
  have q: "w_queues w ?ip ''upd_cmds'' = [cmd7 conf M ?pc v]"
    using S(6)[OF pN] notdone node_cmds_collector[OF R(3-5)] by simp
  obtain w1 where w1: "w_queues w1 = (w_queues w)(?ip := (w_queues w ?ip)(''upd_cmds'' := []))"
      "node_doProcess G E ptr conf ?ip w = node_dispatch G E ptr conf ?ip 7
        (cmd7 conf M ?pc v @ replicate (COMMAND_MAX_LENGTH - length (cmd7 conf M ?pc v)) (malloc_byte E))
        (4 * (2 + int (length ?args))) w1"
    using node_doProcess_cmd[OF cmd7_mk[OF R(3-5)] collector_args_int32[OF R(3-5)] _ q, of G E ptr conf] by auto
  have v: "distinct (map ub_id v)" "\<forall>b \<in> set v. blk_in conf b" "v \<noteq> []"
    using R(4) by (auto simp: updates_ok_def)
  have zero: "map_of (fold (\<lambda>blk_id. om_put blk_id ?z) (map ub_id v) []) (ub_id b) = Some ?z"
    if "b \<in> set v" for b
    using map_of_fold_om_put[OF v(1) that, of "\<lambda>_. ?z" "[]"] by (simp add: fold_map comp_def)
  have offs: "map_of (ci_off_size ?ci) (ub_id b) = Some (ub_offset_add b, ub_upd_size b)" if "b \<in> set v" for b
    using map_of_fold_om_put[OF v(1) that, of "\<lambda>b. (ub_offset_add b, ub_upd_size b)" "[]"]
    by (simp add: crd_info_of_def)
  have "distinct (map ub_id ds)"
    using S(1,2) v(1) by (auto simp: distinct_map inj_on_def)
  moreover have "\<forall>b \<in> set ds. blk_in conf b"
    "\<forall>b \<in> set ds. length (old_delta blk0 b) = nat (ub_upd_size b * 1024)"
    "\<forall>b \<in> set ds. map_of (ci_off_size ?ci) (ub_id b) = Some (ub_offset_add b, ub_upd_size b)"
    "\<forall>b \<in> set ds. map_of (fold (\<lambda>blk_id. om_put blk_id ?z) (map ub_id v) []) (ub_id b) = Some ?z"
    using S(2) v(2) R(7) zero offs by (simp_all add: subset_iff)
  ultimately obtain bufs' where fold: "foldE (crd_recv_delta (ci_off_size ?ci))
      (map (\<lambda>b. put_int (ub_id b) @ old_delta blk0 b) ds)
      (fold (\<lambda>blk_id. om_put blk_id ?z) (map ub_id v) []) = Inr bufs'"
    using crd_recv_fold by blast
  have "length (map (\<lambda>b. put_int (ub_id b) @ old_delta blk0 b) ds) < length v"
    using S(1,2) part v(1) by (metis distinct_card distinct_map psubset_card_mono finite_set psubsetI length_map)
  moreover have "w_queues w1 ?ip ''crdData'' = map (\<lambda>b. put_int (ub_id b) @ old_delta blk0 b) ds"
    using S(7) w1(1) by simp
  ultimately have blocked: "recv_count (blpop ?ip ''crdData'') (crd_recv_delta (ci_off_size ?ci)) (int (length v))
      (fold (\<lambda>blk_id. om_put blk_id ?z) (map ub_id v) []) w1 = Inl Blocked"
    using rl.recv_loop_blocks[OF _ _ fold] v(3) by (simp add: recv_count_def)
  have ids: "ci_ids ?ci = map ub_id v"
    by (simp add: crd_info_of_def)
  define post where "post = replicate (COMMAND_MAX_LENGTH - length (cmd7 conf M ?pc v)) (malloc_byte E)"
  have disp: "node_doProcess G E ptr conf ?ip w = recv_and_compute_in_parity_collector_for_crd G E conf ?ip
      (put_ints (7 # 4 * (2 + int (length ?args)) # ?args) @ post) (4 * (2 + int (length ?args))) w1"
    unfolding w1(2) node_dispatch_def post_def[symmetric] by (simp add: cmd7_def Let_def)
  note parse = collector_parse[OF R(3-5) refl refl]
  obtain others where others: "get_ints (put_ints (7 # 4 * (2 + int (length ?args)) # ?args) @ post)
      (20 + int (length v) * (16 + 4 * int (ecM conf))) (ecM conf - 1) = Inr others"
    using parse(5) by blast
  show ?thesis
    unfolding disp recv_and_compute_in_parity_collector_for_crd_def
    by (simp only: parse(1-4) parse(6) others ids check_len_def guardE_True bindE_Inr bindE_Inl
        Let_def prod.case simp_thms blocked)
qed

lemma parity_cmd_queue:
  assumes run: "crd_run G E conf M c v blk0" and st: "crd_state G conf M c v blk0 ds cd ps w"
    and i: "i < ecM conf" "i \<noteq> c" "i \<notin> ps"
  shows "w_queues w (helpersIPs conf ! (ecK conf + i)) ''upd_cmds'' = [cmd8 (int (ecK conf + i)) v]"
proof -
  note R = crd_runD[OF run] and S = crd_stateD[OF st]
  have "\<not> node_done conf c ds cd ps (ecK conf + i)"
    using data_ip(1)[OF R(3,4)] S(2) i by (fastforce simp: node_done_def)
  then show ?thesis
    using S(6)[OF R(9)[OF i(1)]] node_cmds_parity[OF R(3-5) i(1,2)] by simp
qed

lemma parity_dispatch:
  assumes run: "crd_run G E conf M c v blk0" and st: "crd_state G conf M c v blk0 ds cd ps w"
    and i: "i < ecM conf" "i \<noteq> c" "i \<notin> ps"
  obtains w1 post where "w_files w1 = w_files w"
    and "w_queues w1 = (w_queues w)(helpersIPs conf ! (ecK conf + i) :=
      (w_queues w (helpersIPs conf ! (ecK conf + i)))(''upd_cmds'' := []))"
    and "node_doProcess G E ptr conf (helpersIPs conf ! (ecK conf + i)) w =
      recv_parity_delta_and_aggre_for_crd G E conf (helpersIPs conf ! (ecK conf + i))
        (put_ints (8 # 4 * (2 + int (length (parity_args (int (ecK conf + i)) v))) # parity_args (int (ecK conf + i)) v) @ post)
        (4 * (2 + int (length (parity_args (int (ecK conf + i)) v)))) w1"
proof -
  note R = crd_runD[OF run]
  let ?cmd = "cmd8 (int (ecK conf + i)) v" and ?ip = "helpersIPs conf ! (ecK conf + i)"
  obtain w1 where w1: "w_files w1 = w_files w"
      "w_queues w1 = (w_queues w)(?ip := (w_queues w ?ip)(''upd_cmds'' := []))"
      "node_doProcess G E ptr conf ?ip w = node_dispatch G E ptr conf ?ip 8
        (?cmd @ replicate (COMMAND_MAX_LENGTH - length ?cmd) (malloc_byte E))
        (4 * (2 + int (length (parity_args (int (ecK conf + i)) v)))) w1"
    using node_doProcess_cmd[OF cmd8_mk[OF R(4,5)] parity_args_int32[OF R(3,4) i(1)] _
        parity_cmd_queue[OF run st i], of G E ptr conf] by auto
  show ?thesis
  proof (rule that[OF w1(1,2)])
    show "node_doProcess G E ptr conf ?ip w = recv_parity_delta_and_aggre_for_crd G E conf ?ip
        (put_ints (8 # 4 * (2 + int (length (parity_args (int (ecK conf + i)) v))) # parity_args (int (ecK conf + i)) v) @
          replicate (COMMAND_MAX_LENGTH - length ?cmd) (malloc_byte E))
        (4 * (2 + int (length (parity_args (int (ecK conf + i)) v)))) w1"
      unfolding w1(3) node_dispatch_def by (simp add: cmd8_def Let_def)
  qed
qed

lemma step_parity:
  assumes run: "crd_run G E conf M c v blk0" and st: "crd_state G conf M c v blk0 ds True ps w"
    and i: "i < ecM conf" "i \<noteq> c" "i \<notin> ps"
  shows "\<exists>w'. node_doProcess G E ptr conf (helpersIPs conf ! (ecK conf + i)) w = Inr w' \<and>
    crd_state G conf M c v blk0 ds True (insert i ps) w'"
proof -
  note R = crd_runD[OF run] and S = crd_stateD[OF st]
  let ?H = "helpersIPs conf" and ?K = "ecK conf" and ?id = "int (ecK conf + i)"
  let ?ip = "?H ! (?K + i)" and ?pd = "parity_delta G conf M v (old_delta blk0) i"
  have iN: "?K + i < ecN conf" using R(9)[OF i(1)] .
  obtain w1 post where w1: "w_files w1 = w_files w"
      "w_queues w1 = (w_queues w)(?ip := (w_queues w ?ip)(''upd_cmds'' := []))"
      "node_doProcess G E ptr conf ?ip w = recv_parity_delta_and_aggre_for_crd G E conf ?ip
        (put_ints (8 # 4 * (2 + int (length (parity_args ?id v))) # parity_args ?id v) @ post)
        (4 * (2 + int (length (parity_args ?id v)))) w1"
    by (rule parity_dispatch[OF run st i])
  have crd: "w_queues w1 ?ip ''crdData'' = map (sub_set_msg ?pd (extents v)) [0..<length (groups v)] @ []"
    using S(8)[OF i(1,2)] i(3) w1(2) by simp
  have old: "w_files w1 ?ip (blk_name ?id) = Some (blk0 (?K + i))"
    using S(11)[OF i(1)] w1(1) i by (simp add: parity_now_def Let_def)
  have len_old: "length (blk0 (?K + i)) = nat (blk_bytes conf)"
    using R(6) iN by simp
  obtain w2 where w2: "node_doProcess G E ptr conf ?ip w =
        Inr (send_ack conf (put_file ?ip (blk_name ?id) (parity_after conf v ?pd (blk0 (?K + i))) w2))"
      "w_files w2 = w_files w1" "w_queues w2 = (w_queues w1)(?ip := (w_queues w1 ?ip)(''crdData'' := []))"
    using crd_parity_node[OF R(1-4) i(1) length_parity_delta crd old len_old refl refl, of post]
    unfolding w1(3) by blast
  define w' where "w' = send_ack conf (put_file ?ip (blk_name ?id) (parity_after conf v ?pd (blk0 (?K + i))) w2)"
  have q: "w_queues w' x key = (if x = ?ip \<and> key \<in> {''upd_cmds'', ''crdData''} then [] else w_queues w x key) @
      (if x = coordinatorIP conf \<and> key = ''ack'' then [ack_msg] else [])" for x key
    using w1(2) w2(3) by (auto simp: w'_def send_ack_def)
  have f: "w_files w' = (w_files w)(?ip := (w_files w ?ip)(blk_name ?id := Some (parity_after conf v ?pd (blk0 (?K + i)))))"
    using w1(1) w2(2) by (simp add: w'_def send_ack_def)
  have fin: "finite ps"
    using S(4) finite_subset by blast
  have "crd_state G conf M c v blk0 ds True (insert i ps) w'"
    unfolding crd_state_def
  proof (intro conjI allI impI)
    show "distinct ds" "set ds \<subseteq> set v" "insert i ps \<subseteq> {..<ecM conf} - {c}" "set ds = set v"
      using S(1-4) i by auto
    show "w_queues w' (?H ! k) ''upd_cmds'' =
        (if node_done conf c ds True (insert i ps) k then [] else node_cmds conf M c v k)" if "k < ecN conf" for k
      using that S(6)[OF that] R(8)[OF that iN] by (auto simp: q node_done_def)
    show "w_queues w' (?H ! (?K + c)) ''crdData'' =
        (if True then [] else map (\<lambda>b. put_int (ub_id b) @ old_delta blk0 b) ds)"
      using S(7) by (simp add: q)
    show "w_queues w' (?H ! (?K + j)) ''crdData'' =
       (if True \<and> j \<notin> insert i ps
        then map (sub_set_msg (parity_delta G conf M v (old_delta blk0) j) (extents v)) [0..<length (groups v)] else [])"
      if "j < ecM conf" "j \<noteq> c" for j
      using S(8)[OF that] R(8)[OF R(9)[OF that(1)] iN] by (auto simp: q)
    show "w_queues w' (coordinatorIP conf) ''ack'' = replicate ((if True then 1 else 0) + card (insert i ps)) ack_msg"
      using S(9) i(3) fin by (auto simp: q replicate_append_same[symmetric])
    show "w_files w' (?H ! k) (blk_name (int k)) = Some (data_now blk0 ds k)" if "k < ecK conf" for k
      using S(10)[OF that] R(8)[of k "?K + i"] that iN by (auto simp: f)
    show "w_files w' (?H ! (?K + j)) (blk_name (int (?K + j))) = Some (parity_now G conf M c v blk0 True (insert i ps) j)"
      if "j < ecM conf" for j
      using S(11)[OF that] R(8)[OF R(9)[OF that] iN] i by (auto simp: f parity_now_def Let_def)
  qed simp
  with w2(1) show ?thesis
    by (auto simp: w'_def)
qed

lemma block_parity:
  assumes run: "crd_run G E conf M c v blk0" and st: "crd_state G conf M c v blk0 ds False ps w"
    and i: "i < ecM conf" "i \<noteq> c"
  shows "node_doProcess G E ptr conf (helpersIPs conf ! (ecK conf + i)) w = Inl Blocked"
proof -
  note R = crd_runD[OF run] and S = crd_stateD[OF st]
  let ?id = "int (ecK conf + i)" and ?ip = "helpersIPs conf ! (ecK conf + i)"
  have ps: "i \<notin> ps" using S(5) by auto
  obtain w1 post where w1: "w_queues w1 = (w_queues w)(?ip := (w_queues w ?ip)(''upd_cmds'' := []))"
      "node_doProcess G E ptr conf ?ip w = recv_parity_delta_and_aggre_for_crd G E conf ?ip
        (put_ints (8 # 4 * (2 + int (length (parity_args ?id v))) # parity_args ?id v) @ post)
        (4 * (2 + int (length (parity_args ?id v)))) w1"
    by (rule parity_dispatch[OF run st i ps])
  have empty: "w_queues w1 ?ip ''crdData'' = []"
    using S(8)[OF i] w1(1) by simp
  have "recv_count (blpop ?ip ''crdData'') f n a w1 = Inl Blocked" for f n and a :: "byte list list"
    using rl.pop_empty[OF empty] by (cases "nat n") (auto simp: recv_count_def)
  then show ?thesis
    unfolding w1(2) recv_parity_delta_and_aggre_for_crd_def
    using parity_parse[OF R(3,4) i(1), of post] by (simp only: bindE_Inr bindE_Inl prod.case
        check_len_def guardE_True Let_def simp_thms)
qed

end
