(* ===== verification/Node_Run.thy ===== *)
theory Node_Run
  imports Crd_Cluster
begin

text \<open>
  The nodes as a whole, for commands of any kind: a node that handles a command takes it from
  its list and adds none to any list, so that every sequence of handled commands ends after at most as many
  steps as there are commands. An executable schedule that runs the nodes to such an end. The runs that go on
  for ever are those in which a handler spins.
\<close>

section \<open>Handlers add no command\<close>

definition cmds :: "world \<Rightarrow> ip_addr \<Rightarrow> byte list list" where
  "cmds w ip = w_queues w ip ''upd_cmds''"

lemma cmds_rpush [simp]: "key \<noteq> ''upd_cmds'' \<Longrightarrow> cmds (rpush ip key m w) = cmds w"
  by (auto simp: cmds_def fun_eq_iff)

lemma cmds_send_ack [simp]: "cmds (send_ack conf w) = cmds w"
  by (simp add: send_ack_def)

lemma cmds_put_file [simp]: "cmds (put_file ip f bs w) = cmds w"
  by (simp add: cmds_def fun_eq_iff)

lemma cmds_blpop: "blpop ip key w = Inr (m, w') \<Longrightarrow> key \<noteq> ''upd_cmds'' \<Longrightarrow> cmds w' = cmds w"
  by (auto simp: blpop_def cmds_def fun_eq_iff split: list.splits)

lemma cmds_recv_loop:
  "recv_loop (blpop ip key) f n a w = Inr (a', w') \<Longrightarrow> key \<noteq> ''upd_cmds'' \<Longrightarrow> cmds w' = cmds w"
proof (induction n arbitrary: a w)
  case (Suc n)
  then show ?case
    by (auto simp: res_simps dest!: cmds_blpop)
qed simp

lemma cmds_recv_count:
  "recv_count (blpop ip key) f n a w = Inr (a', w') \<Longrightarrow> key \<noteq> ''upd_cmds'' \<Longrightarrow> cmds w' = cmds w"
  by (auto simp: recv_count_def split: if_splits dest: cmds_recv_loop)

lemma cmds_foldE:
  assumes "foldE f xs w = Inr w'" and "\<And>x w w'. x \<in> set xs \<Longrightarrow> f x w = Inr w' \<Longrightarrow> cmds w' = cmds w"
  shows "cmds w' = cmds w"
  using assms by (induction xs arbitrary: w) (auto simp: res_simps, metis)

lemma cmds_push_to: "push_to conf b key m w = Inr w' \<Longrightarrow> key \<noteq> ''upd_cmds'' \<Longrightarrow> cmds w' = cmds w"
  by (auto simp: push_to_def res_simps)

lemma cmds_write: "writeDataToDisk E ip f bs n base w = Inr w' \<Longrightarrow> cmds w' = cmds w"
  by (auto simp: writeDataToDisk_def res_simps cmds_def fun_eq_iff Let_def split: if_splits option.splits)

lemmas cmds_keep = cmds_recv_count cmds_push_to cmds_write cmds_blpop

lemma cmds_raid_send_parity: "raid_send_parity conf ids bufs w = Inr w' \<Longrightarrow> cmds w' = cmds w"
  unfolding raid_send_parity_def by (erule cmds_foldE) (auto simp: res_simps dest!: cmds_push_to)

lemma cmds_delta_send_one: "delta_send_one G E conf ptr off sz d p w = Inr w' \<Longrightarrow> cmds w' = cmds w"
  by (auto simp: delta_send_one_def res_simps Let_def split: prod.splits dest!: cmds_push_to)

lemma cmds_crd_send_sub_sets: "crd_send_sub_sets E conf exts b d w = Inr w' \<Longrightarrow> cmds w' = cmds w"
  unfolding crd_send_sub_sets_def by (erule cmds_foldE) (auto simp: res_simps split: prod.splits dest!: cmds_push_to)

lemma cmds_crd_update_local: "crd_update_local G E conf ip b d w = Inr w' \<Longrightarrow> cmds w' = cmds w"
  by (auto simp: crd_update_local_def res_simps dest!: cmds_write)

lemma cmds_crd_distribute: "crd_distribute G E conf ip b exts ds w = Inr w' \<Longrightarrow> cmds w' = cmds w"
  unfolding crd_distribute_def
  by (erule cmds_foldE) (auto simp: res_simps split: if_splits dest!: cmds_crd_update_local cmds_crd_send_sub_sets)

lemma cmds_delta_send:
  "foldE (delta_send_one G E conf ptr off sz d) ps w = Inr w' \<Longrightarrow> cmds w' = cmds w"
  by (erule cmds_foldE) (rule cmds_delta_send_one)

lemma cmds_task1: "send_data_to_collector_for_raid E conf ip cmd len w = Inr w' \<Longrightarrow> cmds w' = cmds w"
  by (auto simp: send_data_to_collector_for_raid_def res_simps Let_def dest!: cmds_keep)

lemma cmds_task2: "recv_and_compute_and_send_for_raid G E conf ip cmd len w = Inr w' \<Longrightarrow> cmds w' = cmds w"
  by (auto simp: recv_and_compute_and_send_for_raid_def res_simps Let_def split: if_splits
      dest!: cmds_recv_count cmds_raid_send_parity)

lemma cmds_task3: "recv_and_save_for_raid E conf ip cmd len w = Inr w' \<Longrightarrow> cmds w' = cmds w"
  by (auto simp: recv_and_save_for_raid_def res_simps Let_def dest!: cmds_keep)

lemma cmds_task4: "send_parity_delta_to_each_parity_for_delta G E ptr conf ip cmd len w = Inr w' \<Longrightarrow> cmds w' = cmds w"
  by (auto simp: send_parity_delta_to_each_parity_for_delta_def res_simps Let_def dest!: cmds_write cmds_delta_send)

lemma cmds_task5: "recv_parity_delta_and_aggre_for_delta G E conf ip cmd len w = Inr w' \<Longrightarrow> cmds w' = cmds w"
  by (auto simp: recv_parity_delta_and_aggre_for_delta_def res_simps Let_def dest!: cmds_keep)

lemma cmds_task6: "send_data_delta_to_parity_collector_for_crd E conf ip cmd len w = Inr w' \<Longrightarrow> cmds w' = cmds w"
  by (auto simp: send_data_delta_to_parity_collector_for_crd_def res_simps Let_def dest!: cmds_keep)

lemma cmds_task7: "recv_and_compute_in_parity_collector_for_crd G E conf ip cmd len w = Inr w' \<Longrightarrow> cmds w' = cmds w"
  by (auto simp: recv_and_compute_in_parity_collector_for_crd_def res_simps Let_def
      dest!: cmds_recv_count cmds_crd_distribute)

lemma cmds_task8: "recv_parity_delta_and_aggre_for_crd G E conf ip cmd len w = Inr w' \<Longrightarrow> cmds w' = cmds w"
  by (auto simp: recv_parity_delta_and_aggre_for_crd_def res_simps Let_def dest!: cmds_keep)

lemma node_dispatch_cmds: "node_dispatch G E ptr conf ip t cmd len w = Inr w' \<Longrightarrow> cmds w' = cmds w"
  unfolding node_dispatch_def
  by (auto split: if_splits dest: cmds_task1 cmds_task2 cmds_task3 cmds_task4 cmds_task5 cmds_task6 cmds_task7 cmds_task8)

lemma node_doProcess_cmds:
  assumes "node_doProcess G E ptr conf ip w = Inr w'"
  shows "\<exists>c. cmds w ip = c # cmds w' ip \<and> (\<forall>ip'. ip' \<noteq> ip \<longrightarrow> cmds w' ip' = cmds w ip')"
proof -
  obtain c w1 where pop: "blpop ip ''upd_cmds'' w = Inr (c, w1)" and w': "cmds w' = cmds w1"
    using assms by (auto simp: node_doProcess_def res_simps dest!: node_dispatch_cmds)
  from pop have "cmds w ip = c # cmds w1 ip" "\<forall>ip'. ip' \<noteq> ip \<longrightarrow> cmds w1 ip' = cmds w ip'"
    by (auto simp: blpop_def cmds_def split: list.splits)
  with w' show ?thesis by auto
qed

section \<open>Runs of the nodes end\<close>

definition pending :: "config \<Rightarrow> world \<Rightarrow> nat" where
  "pending conf w = (\<Sum>ip \<in> set (helpersIPs conf). length (cmds w ip))"

lemma pending_step:
  assumes "node_step G E ptr conf w w'"
  shows "pending conf w = Suc (pending conf w')"
proof -
  obtain ip where ip: "ip \<in> set (helpersIPs conf)" "node_doProcess G E ptr conf ip w = Inr w'"
    using assms by (rule node_stepE)
  obtain c where c: "cmds w ip = c # cmds w' ip" "\<forall>ip'. ip' \<noteq> ip \<longrightarrow> cmds w' ip' = cmds w ip'"
    using node_doProcess_cmds[OF ip(2)] by blast
  let ?S = "set (helpersIPs conf)"
  have "pending conf x = length (cmds x ip) + (\<Sum>i \<in> ?S - {ip}. length (cmds x i))" for x
    unfolding pending_def using ip(1) by (simp add: sum.remove)
  moreover have "(\<Sum>i \<in> ?S - {ip}. length (cmds w' i)) = (\<Sum>i \<in> ?S - {ip}. length (cmds w i))"
    using c(2) by (intro sum.cong) auto
  ultimately show ?thesis using c(1) by simp
qed

lemma pending_steps: "(node_step G E ptr conf ^^ n) w w' \<Longrightarrow> pending conf w = n + pending conf w'"
  by (induction n arbitrary: w') (auto dest!: pending_step)

text \<open>
  The schedule that always runs the first node that can: at most \<open>n\<close> steps.
\<close>

fun first_step :: "gf_ops \<Rightarrow> env \<Rightarrow> byte list \<Rightarrow> config \<Rightarrow> ip_addr list \<Rightarrow> world \<Rightarrow> world option" where
  "first_step G E ptr conf [] w = None"
| "first_step G E ptr conf (ip # ips) w =
     (case node_doProcess G E ptr conf ip w of Inr w' \<Rightarrow> Some w' | Inl _ \<Rightarrow> first_step G E ptr conf ips w)"

fun run_nodes :: "gf_ops \<Rightarrow> env \<Rightarrow> byte list \<Rightarrow> config \<Rightarrow> nat \<Rightarrow> world \<Rightarrow> world" where
  "run_nodes G E ptr conf 0 w = w"
| "run_nodes G E ptr conf (Suc n) w =
     (case first_step G E ptr conf (helpersIPs conf) w of None \<Rightarrow> w | Some w' \<Rightarrow> run_nodes G E ptr conf n w')"

definition run_all :: "gf_ops \<Rightarrow> env \<Rightarrow> byte list \<Rightarrow> config \<Rightarrow> world \<Rightarrow> world" where
  "run_all G E ptr conf w = run_nodes G E ptr conf (pending conf w) w"

lemma first_step_None:
  "first_step G E ptr conf ips w = None \<longleftrightarrow> (\<forall>ip \<in> set ips. \<forall>w'. node_doProcess G E ptr conf ip w \<noteq> Inr w')"
  by (induction ips) (auto split: sum.splits)

lemma first_step_Some:
  "first_step G E ptr conf ips w = Some w' \<Longrightarrow> \<exists>ip \<in> set ips. node_doProcess G E ptr conf ip w = Inr w'"
  by (induction ips) (auto split: sum.splits)

lemma first_step_stuck:
  "first_step G E ptr conf (helpersIPs conf) w = None \<longleftrightarrow> (\<nexists>w'. node_step G E ptr conf w w')"
  unfolding first_step_None by (blast intro: node_step.node elim: node_stepE)

lemma run_nodes_ends:
  assumes "pending conf w \<le> n"
  shows "(node_step G E ptr conf)\<^sup>*\<^sup>* w (run_nodes G E ptr conf n w) \<and>
    (\<nexists>w'. node_step G E ptr conf (run_nodes G E ptr conf n w) w')"
  using assms
proof (induction n arbitrary: w)
  case 0
  then show ?case by (auto dest: pending_step)
next
  case (Suc n)
  show ?case
  proof (cases "first_step G E ptr conf (helpersIPs conf) w")
    case None
    then show ?thesis using first_step_stuck[of G E ptr conf w] by simp
  next
    case (Some w1)
    then have step: "node_step G E ptr conf w w1"
      using first_step_Some[OF Some] by (blast intro: node_step.node)
    then have "pending conf w1 \<le> n"
      using Suc.prems pending_step[OF step] by simp
    from Suc.IH[OF this] step Some show ?thesis
      by (auto intro: converse_rtranclp_into_rtranclp)
  qed
qed

text \<open>What a client needs from the nodes: they run until none of them can go on.\<close>

definition runs_to_end :: "gf_ops \<Rightarrow> env \<Rightarrow> byte list \<Rightarrow> config \<Rightarrow> (world \<Rightarrow> world) \<Rightarrow> bool" where
  "runs_to_end G E ptr conf nodes \<longleftrightarrow>
     (\<forall>w. (node_step G E ptr conf)\<^sup>*\<^sup>* w (nodes w) \<and> (\<nexists>w'. node_step G E ptr conf (nodes w) w'))"

lemma run_all_ends: "runs_to_end G E ptr conf (run_all G E ptr conf)"
  by (simp add: runs_to_end_def run_all_def run_nodes_ends)

section \<open>Handlers that do not return\<close>

text \<open>
  \<open>readDataFromDisk\<close> goes on for ever at the end of a file, so that a node with a command that reads too far spins. \<open>live_step\<close> adds the
  spinning to the steps of the nodes: an endless run of the nodes may consist of it.
\<close>

definition spins :: "gf_ops \<Rightarrow> env \<Rightarrow> byte list \<Rightarrow> config \<Rightarrow> world \<Rightarrow> bool" where
  "spins G E ptr conf w \<longleftrightarrow> (\<exists>ip \<in> set (helpersIPs conf). node_doProcess G E ptr conf ip w = Inl Diverges)"

inductive live_step :: "gf_ops \<Rightarrow> env \<Rightarrow> byte list \<Rightarrow> config \<Rightarrow> world \<Rightarrow> world \<Rightarrow> bool"
  for G E ptr conf where
  Handle: "node_step G E ptr conf w w' \<Longrightarrow> live_step G E ptr conf w w'"
| Spin: "spins G E ptr conf w \<Longrightarrow> live_step G E ptr conf w w"

inductive_cases live_stepE: "live_step G E ptr conf w w'"

lemma live_steps:
  "(live_step G E ptr conf)\<^sup>*\<^sup>* w w' \<Longrightarrow> (node_step G E ptr conf)\<^sup>*\<^sup>* w w'"
proof (induction rule: rtranclp_induct)
  case (step w1 w2)
  then show ?case by (auto elim: live_stepE intro: rtranclp.rtrancl_into_rtrancl)
qed simp

text \<open>A sequence of numbers that never grows is constant from some point on.\<close>

lemma never_grows:
  fixes m :: "nat \<Rightarrow> nat"
  assumes "\<And>i. m (Suc i) \<le> m i"
  shows "\<exists>N. \<forall>i \<ge> N. m i = m N"
proof -
  have mono: "m j \<le> m i" if "i \<le> j" for i j using lift_Suc_antimono_le[of m, OF assms that] .
  obtain N where "m N = (LEAST x. x \<in> range m)" using LeastI[of "\<lambda>x. x \<in> range m" "m 0"] by auto
  then have "m N \<le> m i" for i using Least_le[of "\<lambda>x. x \<in> range m" "m i"] by simp
  then show ?thesis using mono by (meson antisym)
qed

text \<open>The commands run out, and from then on a handler spins in a world that does not change.\<close>

lemma endless_spins:
  assumes "\<forall>i. live_step G E ptr conf (f i) (f (Suc i))"
  shows "\<exists>N. spins G E ptr conf (f N) \<and> (\<forall>i \<ge> N. f i = f N) \<and> (node_step G E ptr conf)\<^sup>*\<^sup>* (f 0) (f N)"
proof -
  have "pending conf (f (Suc i)) \<le> pending conf (f i)" for i
    using assms[rule_format, of i] by (rule live_stepE) (auto dest: pending_step)
  then obtain N where N: "\<forall>i \<ge> N. pending conf (f i) = pending conf (f N)" using never_grows[of "\<lambda>i. pending conf (f i)"] by blast
  have spin: "spins G E ptr conf (f i) \<and> f (Suc i) = f i" if "N \<le> i" for i
    using assms[rule_format, of i]
  proof (rule live_stepE)
    assume "node_step G E ptr conf (f i) (f (Suc i))"
    then have "pending conf (f i) = Suc (pending conf (f (Suc i)))" by (rule pending_step)
    then show ?thesis using N that by (metis le_Suc_eq n_not_Suc_n)
  qed simp
  have const: "f i = f N" if "N \<le> i" for i using that
  proof (induction i rule: dec_induct)
    case (step i)
    then show ?case using spin[of i] by simp
  qed simp
  have "(live_step G E ptr conf)\<^sup>*\<^sup>* (f 0) (f n)" for n
    using assms by (induction n) (auto intro: rtranclp.rtrancl_into_rtrancl)
  then show ?thesis using spin[of N] const live_steps by blast
qed

lemma endless_iff_spins:
  "(\<exists>f. f 0 = w \<and> (\<forall>i. live_step G E ptr conf (f i) (f (Suc i)))) \<longleftrightarrow>
   (\<exists>w'. (node_step G E ptr conf)\<^sup>*\<^sup>* w w' \<and> spins G E ptr conf w')"
proof
  assume "\<exists>f. f 0 = w \<and> (\<forall>i. live_step G E ptr conf (f i) (f (Suc i)))"
  then show "\<exists>w'. (node_step G E ptr conf)\<^sup>*\<^sup>* w w' \<and> spins G E ptr conf w'" using endless_spins by blast
next
  assume "\<exists>w'. (node_step G E ptr conf)\<^sup>*\<^sup>* w w' \<and> spins G E ptr conf w'"
  then obtain w' where w': "(node_step G E ptr conf)\<^sup>*\<^sup>* w w'" "spins G E ptr conf w'" by blast
  then obtain n where "(node_step G E ptr conf ^^ n) w w'" using rtranclp_imp_relpowp by fastforce
  then obtain f where f: "f 0 = w" "f n = w'" "\<forall>i < n. node_step G E ptr conf (f i) (f (Suc i))"
    unfolding relpowp_fun_conv by blast
  define g where "g i = (if i \<le> n then f i else w')" for i
  have "live_step G E ptr conf (g i) (g (Suc i))" for i
  proof (cases "i < n")
    case True
    then show ?thesis using f(3) by (simp add: g_def live_step.Handle)
  next
    case False
    then have "g i = w'" "g (Suc i) = w'" using f(2) by (auto simp: g_def)
    then show ?thesis using live_step.Spin[OF w'(2)] by simp
  qed
  then show "\<exists>f. f 0 = w \<and> (\<forall>i. live_step G E ptr conf (f i) (f (Suc i)))" using f(1) by (intro exI[of _ g]) (simp add: g_def)
qed

end
