(* ===== verification/Gf256.thy ===== *)
theory Gf256
  imports Galois
begin

text \<open>
  The field gf-complete uses at word size 8 by default: bytes as polynomials over GF(2) modulo
  \<open>x^8 + x^4 + x^3 + x^2 + 1\<close> (0x11d). It is the concrete instance of the interface
  \<open>gf_complete\<close>, so the hypothesis that the properties make about the library is satisfiable
  and their witnesses compute in the field the deployed system uses.
\<close>

section \<open>Multiplication\<close>

definition xtime :: "byte \<Rightarrow> byte" where
  "xtime a = push_bit 1 a XOR (if bit a 7 then 29 else 0)"

fun gf256_mul_loop :: "nat \<Rightarrow> byte \<Rightarrow> byte \<Rightarrow> byte" where
  "gf256_mul_loop 0 a b = 0"
| "gf256_mul_loop (Suc n) a b =
     (if bit b 0 then a else 0) XOR gf256_mul_loop n (xtime a) (drop_bit 1 b)"

definition gf256_mul :: "byte \<Rightarrow> byte \<Rightarrow> byte" where
  "gf256_mul a b = gf256_mul_loop 8 a b"

text \<open>The powers of the generator 2, from its 0th to its 254th.\<close>

definition gf256_exps :: "byte list" where
  "gf256_exps =
    [1, 2, 4, 8, 16, 32, 64, 128, 29, 58, 116, 232, 205, 135, 19, 38,
     76, 152, 45, 90, 180, 117, 234, 201, 143, 3, 6, 12, 24, 48, 96, 192,
     157, 39, 78, 156, 37, 74, 148, 53, 106, 212, 181, 119, 238, 193, 159, 35,
     70, 140, 5, 10, 20, 40, 80, 160, 93, 186, 105, 210, 185, 111, 222, 161,
     95, 190, 97, 194, 153, 47, 94, 188, 101, 202, 137, 15, 30, 60, 120, 240,
     253, 231, 211, 187, 107, 214, 177, 127, 254, 225, 223, 163, 91, 182, 113, 226,
     217, 175, 67, 134, 17, 34, 68, 136, 13, 26, 52, 104, 208, 189, 103, 206,
     129, 31, 62, 124, 248, 237, 199, 147, 59, 118, 236, 197, 151, 51, 102, 204,
     133, 23, 46, 92, 184, 109, 218, 169, 79, 158, 33, 66, 132, 21, 42, 84,
     168, 77, 154, 41, 82, 164, 85, 170, 73, 146, 57, 114, 228, 213, 183, 115,
     230, 209, 191, 99, 198, 145, 63, 126, 252, 229, 215, 179, 123, 246, 241, 255,
     227, 219, 171, 75, 150, 49, 98, 196, 149, 55, 110, 220, 165, 87, 174, 65,
     130, 25, 50, 100, 200, 141, 7, 14, 28, 56, 112, 224, 221, 167, 83, 166,
     81, 162, 89, 178, 121, 242, 249, 239, 195, 155, 43, 86, 172, 69, 138, 9,
     18, 36, 72, 144, 61, 122, 244, 245, 247, 243, 251, 235, 203, 139, 11, 22,
     44, 88, 176, 125, 250, 233, 207, 131, 27, 54, 108, 216, 173, 71, 142]"

definition gf256_inv :: "byte \<Rightarrow> byte" where
  "gf256_inv b = gf256_exps ! ((255 - length (takeWhile (\<lambda>x. x \<noteq> b) gf256_exps)) mod 255)"

definition gf256_div :: "byte \<Rightarrow> byte \<Rightarrow> byte" where
  "gf256_div a b = gf256_mul a (gf256_inv b)"

definition gf256 :: gf_ops where
  "gf256 = \<lparr>gf_multiply = gf256_mul, gf_divide = gf256_div,
     gf_region8 = (\<lambda>src dest v add.
       map2 (\<lambda>s d. (if add then d else 0) XOR gf256_mul v s) src dest),
     gf_region32_xor = (\<lambda>src dest. map2 (XOR) src dest)\<rparr>"

section \<open>Field laws\<close>

lemma xtime_xor: "xtime (a XOR b) = xtime a XOR xtime b"
  by (auto simp: xtime_def bit_xor_iff ac_simps)

lemma xtime_zero [simp]: "xtime 0 = 0"
  by (simp add: xtime_def)

lemma xtime_pow_xor: "(xtime ^^ n) (a XOR b) = (xtime ^^ n) a XOR (xtime ^^ n) b"
  by (induction n) (simp_all add: xtime_xor)

lemma xtime_pow_zero [simp]: "(xtime ^^ n) 0 = 0"
  by (induction n) simp_all

lemma xtime_pow_sum: "(xtime ^^ n) (xs.F f A) = xs.F (\<lambda>i. (xtime ^^ n) (f i)) A"
  by (induction A rule: infinite_finite_induct) (simp_all add: xtime_pow_xor)

lemma gf256_mul_loop_sum:
  "gf256_mul_loop n a b = xor_sum (\<lambda>i. if bit b i then (xtime ^^ i) a else 0) n"
proof (induction n arbitrary: a b)
  case (Suc n)
  have "xor_sum (\<lambda>i. if bit b i then (xtime ^^ i) a else 0) (Suc n) =
      (if bit b 0 then a else 0) XOR xor_sum (\<lambda>i. if bit b (Suc i) then (xtime ^^ Suc i) a else 0) n"
    by (simp only: lessThan_Suc_eq_insert_0 xs.insert[OF finite_imageI] xs.reindex o_def)
      (simp add: xs.reindex del: funpow.simps)
  also have "\<dots> = gf256_mul_loop (Suc n) a b"
    by (simp add: Suc bit_drop_bit_eq funpow_swap1 cong: if_cong)
  finally show ?case by simp
qed simp

lemma gf256_mul_sum: "gf256_mul a b = xor_sum (\<lambda>i. if bit b i then (xtime ^^ i) a else 0) 8"
  by (simp add: gf256_mul_def gf256_mul_loop_sum)

lemma gf256_mul_xor_left: "gf256_mul (a XOR a') b = gf256_mul a b XOR gf256_mul a' b"
  by (simp add: gf256_mul_sum flip: xs.distrib)
    (rule xs.cong, auto simp: xtime_pow_xor)

lemma gf256_mul_xor_right: "gf256_mul a (b XOR b') = gf256_mul a b XOR gf256_mul a b'"
  by (simp add: gf256_mul_sum flip: xs.distrib)
    (rule xs.cong, auto simp: bit_xor_iff)

lemma gf256_mul_zero [simp]: "gf256_mul 0 b = 0" "gf256_mul a 0 = 0"
  by (simp_all add: gf256_mul_sum cong: if_cong)

lemma gf256_mul_sum_left: "gf256_mul (xs.F f A) b = xs.F (\<lambda>i. gf256_mul (f i) b) A"
  by (induction A rule: infinite_finite_induct) (simp_all add: gf256_mul_xor_left)

lemma gf256_mul_sum_right: "gf256_mul a (xs.F f A) = xs.F (\<lambda>i. gf256_mul a (f i)) A"
  by (induction A rule: infinite_finite_induct) (simp_all add: gf256_mul_xor_right)

lemma bit_xor_sum: "finite A \<Longrightarrow> bit (xs.F f A) n \<longleftrightarrow> odd (card {i \<in> A. bit (f i) n})"
proof (induction A rule: finite_induct)
  case (insert x A)
  have "{i \<in> insert x A. bit (f i) n} =
      (if bit (f x) n then insert x {i \<in> A. bit (f i) n} else {i \<in> A. bit (f i) n})"
    by auto
  with insert show ?case by (auto simp: bit_xor_iff)
qed simp

lemma byte_basis: "(a :: byte) = xor_sum (\<lambda>i. if bit a i then push_bit i 1 else 0) 8"
proof (rule bit_word_eqI)
  fix n assume n: "n < LENGTH(8)"
  have "{i. i < 8 \<and> bit (if bit a i then push_bit i (1 :: byte) else 0) n} =
      (if bit a n then {n} else {})"
    using n by (auto simp: bit_simps split: if_splits)
  then show "bit a n = bit (xor_sum (\<lambda>i. if bit a i then push_bit i 1 else 0) 8) n"
    by (simp add: bit_xor_sum lessThan_iff)
qed

lemma gf256_mul_power2:
  assumes "j < 8"
  shows "gf256_mul a (2 ^ j) = (xtime ^^ j) a"
proof -
  have "gf256_mul a (2 ^ j) = xor_sum (\<lambda>i. if j = i then (xtime ^^ i) a else 0) 8"
    unfolding gf256_mul_sum using assms by (intro xs.cong) (auto simp: bit_simps)
  then show ?thesis using assms by (simp add: xs.delta')
qed

lemma power2_xtime: "i < 8 \<Longrightarrow> (2 :: byte) ^ i = (xtime ^^ i) 1"
proof (induction i)
  case (Suc i)
  have "\<not> bit ((2 :: byte) ^ i) 7"
    using Suc.prems by (simp add: bit_simps)
  then have "xtime (2 ^ i) = 2 ^ Suc i"
    by (simp add: xtime_def push_bit_eq_mult mult.commute)
  with Suc show ?case by simp
qed simp

lemma funpow_xtime_swap: "(xtime ^^ k) ((xtime ^^ i) a) = (xtime ^^ i) ((xtime ^^ k) a)"
  by (metis add.commute comp_apply funpow_add)

lemma gf256_mul_power2_commute:
  assumes "i < 8" and "j < 8"
  shows "gf256_mul (2 ^ i) (2 ^ j) = gf256_mul (2 ^ j) (2 ^ i)"
proof -
  have "gf256_mul (2 ^ i) (2 ^ j) = (xtime ^^ j) ((xtime ^^ i) 1)"
    using assms by (simp only: gf256_mul_power2 flip: power2_xtime)
  moreover have "gf256_mul (2 ^ j) (2 ^ i) = (xtime ^^ i) ((xtime ^^ j) 1)"
    using assms by (simp only: gf256_mul_power2 flip: power2_xtime)
  ultimately show ?thesis by (simp only: funpow_xtime_swap)
qed

lemma gf256_mul_expand:
  "gf256_mul a b =
    xor_sum (\<lambda>i. xor_sum (\<lambda>j. gf256_mul (if bit a i then push_bit i 1 else 0)
      (if bit b j then push_bit j 1 else 0)) 8) 8"
proof -
  have "gf256_mul a b = gf256_mul (xor_sum (\<lambda>i. if bit a i then push_bit i 1 else 0) 8) b"
    by (simp only: flip: byte_basis)
  also have "\<dots> = xor_sum (\<lambda>i. gf256_mul (if bit a i then push_bit i 1 else 0) b) 8"
    by (rule gf256_mul_sum_left)
  also have "\<dots> = xor_sum (\<lambda>i. gf256_mul (if bit a i then push_bit i 1 else 0)
      (xor_sum (\<lambda>j. if bit b j then push_bit j 1 else 0) 8)) 8"
    by (simp only: flip: byte_basis)
  finally show ?thesis by (simp only: gf256_mul_sum_right)
qed

lemma gf256_mul_commute: "gf256_mul a b = gf256_mul b a"
proof -
  let ?e = "\<lambda>(a :: byte) i. if bit a i then push_bit i (1 :: byte) else 0"
  have basis: "gf256_mul (?e a i) (?e b j) = gf256_mul (?e b j) (?e a i)" if "i < 8" "j < 8" for i j
    using that by (auto simp: gf256_mul_power2_commute)
  have "gf256_mul a b = xor_sum (\<lambda>i. xor_sum (\<lambda>j. gf256_mul (?e b j) (?e a i)) 8) 8"
    unfolding gf256_mul_expand[of a b] using basis by (intro xs.cong) auto
  also have "\<dots> = gf256_mul b a"
    unfolding gf256_mul_expand[of b a] by (rule xs.swap)
  finally show ?thesis .
qed

lemma xtime_pow_mul: "(xtime ^^ k) (gf256_mul a b) = gf256_mul ((xtime ^^ k) a) b"
proof -
  have "(xtime ^^ k) (gf256_mul a b) =
      xor_sum (\<lambda>i. (xtime ^^ k) (if bit b i then (xtime ^^ i) a else 0)) 8"
    by (simp only: gf256_mul_sum xtime_pow_sum)
  also have "\<dots> = xor_sum (\<lambda>i. if bit b i then (xtime ^^ i) ((xtime ^^ k) a) else 0) 8"
    by (rule xs.cong) (simp_all add: funpow_xtime_swap)
  finally show ?thesis by (simp only: gf256_mul_sum)
qed

lemma gf256_mul_left_commute: "gf256_mul (gf256_mul a b) c = gf256_mul b (gf256_mul a c)"
proof -
  have "gf256_mul (gf256_mul a b) c =
      xor_sum (\<lambda>k. if bit c k then gf256_mul ((xtime ^^ k) a) b else 0) 8"
    by (simp only: gf256_mul_sum[of "gf256_mul a b" c] xtime_pow_mul)
  also have "\<dots> = xor_sum (\<lambda>k. gf256_mul b (if bit c k then (xtime ^^ k) a else 0)) 8"
    by (rule xs.cong) (auto simp: gf256_mul_commute)
  also have "\<dots> = gf256_mul b (gf256_mul a c)"
    by (simp only: gf256_mul_sum[of a c] gf256_mul_sum_right)
  finally show ?thesis .
qed

lemma gf256_mul_assoc: "gf256_mul (gf256_mul a b) c = gf256_mul a (gf256_mul b c)"
  by (metis gf256_mul_commute gf256_mul_left_commute)

lemma gf256_mul_one: "gf256_mul 1 a = a"
proof -
  have "gf256_mul 1 a = gf256_mul a 1" by (rule gf256_mul_commute)
  also have "gf256_mul a 1 = a"
    using gf256_mul_power2[of 0 a] by simp
  finally show ?thesis .
qed

subsection \<open>Inverses, from the powers of the generator\<close>

fun xtime_chain :: "byte list \<Rightarrow> bool" where
  "xtime_chain (x # y # r) = (xtime x = y \<and> xtime_chain (y # r))"
| "xtime_chain _ = True"

lemma xtime_chain_nth: "xtime_chain xs \<Longrightarrow> i < length xs \<Longrightarrow> xs ! i = (xtime ^^ i) (hd xs)"
proof (induction xs arbitrary: i rule: xtime_chain.induct)
  case (1 x y r)
  then show ?case by (cases i) (auto simp: funpow_swap1)
qed auto

lemma gf256_exps_chain: "xtime_chain (gf256_exps @ [1])"
  by (simp add: gf256_exps_def xtime_def)

lemma length_gf256_exps: "length gf256_exps = 255"
  by (simp add: gf256_exps_def)

lemma hd_gf256_exps: "hd (gf256_exps @ [1]) = 1"
  by (simp add: gf256_exps_def)

lemma nth_gf256_exps: "i < 255 \<Longrightarrow> gf256_exps ! i = (xtime ^^ i) 1"
  using xtime_chain_nth[OF gf256_exps_chain, of i]
  by (simp add: length_gf256_exps hd_gf256_exps nth_append)

lemma xtime_pow_255: "(xtime ^^ 255) 1 = 1"
proof -
  have "(gf256_exps @ [1]) ! 255 = (xtime ^^ 255) (hd (gf256_exps @ [1]))"
    by (rule xtime_chain_nth[OF gf256_exps_chain]) (simp add: length_gf256_exps)
  then show ?thesis
    by (simp add: hd_gf256_exps nth_append length_gf256_exps)
qed

lemma nth_gf256_exps_mod:
  assumes "i \<le> 255"
  shows "gf256_exps ! (i mod 255) = (xtime ^^ i) 1"
proof (cases "i = 255")
  case True
  then have "gf256_exps ! (i mod 255) = (xtime ^^ 0) 1"
    by (subst nth_gf256_exps) simp_all
  then show ?thesis unfolding True by (simp only: xtime_pow_255 funpow_0)
next
  case False
  with assms show ?thesis by (simp add: nth_gf256_exps)
qed

lemma distinct_gf256_exps: "distinct gf256_exps"
proof -
  have "distinct (map uint gf256_exps)"
    by (simp add: gf256_exps_def)
  then show ?thesis by (simp add: distinct_map)
qed

lemma zero_notin_gf256_exps: "0 \<notin> set gf256_exps"
  by (simp add: gf256_exps_def)

lemma set_gf256_exps: "set gf256_exps = UNIV - {0}"
proof (rule card_subset_eq)
  show "card (set gf256_exps) = card (UNIV - {0 :: byte})"
    by (simp add: distinct_card distinct_gf256_exps length_gf256_exps card_word card_Diff_singleton)
qed (use zero_notin_gf256_exps in auto)

lemma takeWhile_neq_pos:
  "b \<in> set xs \<Longrightarrow> length (takeWhile (\<lambda>x. x \<noteq> b) xs) < length xs \<and>
    xs ! length (takeWhile (\<lambda>x. x \<noteq> b) xs) = b"
  by (induction xs) auto

lemma gf256_mul_inv:
  assumes "b \<noteq> 0"
  shows "gf256_mul b (gf256_inv b) = 1"
proof -
  define p where "p = length (takeWhile (\<lambda>x. x \<noteq> b) gf256_exps)"
  have "b \<in> set gf256_exps" using assms by (simp add: set_gf256_exps)
  then have p: "p < 255" "gf256_exps ! p = b"
    unfolding p_def using takeWhile_neq_pos[of b gf256_exps] by (auto simp: length_gf256_exps)
  have inv: "gf256_inv b = (xtime ^^ (255 - p)) 1"
    unfolding gf256_inv_def p_def[symmetric] by (rule nth_gf256_exps_mod) simp
  have b: "b = (xtime ^^ p) 1"
    using p nth_gf256_exps[of p] by simp
  have "gf256_mul b (gf256_inv b) = (xtime ^^ p) ((xtime ^^ (255 - p)) 1)"
    unfolding inv by (subst b) (simp only: gf256_mul_one flip: xtime_pow_mul)
  also have "\<dots> = (xtime ^^ (p + (255 - p))) 1"
    by (simp only: funpow_add o_apply)
  also have "p + (255 - p) = 255"
    using p(1) by simp
  finally show ?thesis by (simp only: xtime_pow_255)
qed

lemma gf256_mul_div: "b \<noteq> 0 \<Longrightarrow> gf256_mul b (gf256_div a b) = a"
  by (metis gf256_div_def gf256_mul_assoc gf256_mul_commute gf256_mul_inv gf256_mul_one)

interpretation gf256: gf_complete gf256
proof
  show "gf_multiply gf256 a b = gf_multiply gf256 b a" for a b
    by (simp add: gf256_def gf256_mul_commute)
  show "gf_multiply gf256 (gf_multiply gf256 a b) c =
      gf_multiply gf256 a (gf_multiply gf256 b c)" for a b c
    by (simp add: gf256_def gf256_mul_assoc)
qed (simp_all add: gf256_def gf256_mul_one gf256_mul_xor_right gf256_mul_div)

section \<open>Evaluation\<close>

lemma gf256_mul_loop_numeral [simp]:
  "gf256_mul_loop (numeral n) a b =
    (if bit b 0 then a else 0) XOR gf256_mul_loop (pred_numeral n) (xtime a) (drop_bit 1 b)"
  by (simp add: numeral_eq_Suc)

lemma all_less_numeral [simp]:
  "(\<forall>r < numeral n. P r) \<longleftrightarrow> P (pred_numeral n) \<and> (\<forall>r < pred_numeral n. P r)"
  by (auto simp: numeral_eq_Suc less_Suc_eq)

lemma gf256_multiply: "gf_multiply gf256 = gf256_mul"
  by (simp add: gf256_def)

lemma upt_zero_numeral: "[0..<numeral n] = [0..<pred_numeral n] @ [pred_numeral n]"
  by (simp add: numeral_eq_Suc)

lemmas gf256_eval = upt_zero_numeral gf256_multiply gf256_mul_def xtime_def lessThan_nat_numeral lessThan_Suc
  All_less_Suc

end
