(* ===== verification/Crd_Update.thy ===== *)
theory Crd_Update
  imports Crd_Cluster Trace_Log Gf256
begin

text \<open>
  The correctness of a CRD update of a stripe, over all orders in which the nodes may run: no
  node fails, every run ends after one step per command, and at the end the coordinator gets its
  acknowledgements, every data block holds its new contents and the parity blocks match them. The
  last part needs, for a parity block other than the collector's, that the two computations of a
  merged range agree; where they do not, the theory shows which bytes of the parity stay stale.
\<close>

section \<open>Invariant and progress\<close>

text \<open>How many commands are done.\<close>

definition crd_count :: "upd_block list \<Rightarrow> bool \<Rightarrow> nat set \<Rightarrow> nat" where
  "crd_count ds cd ps = length ds + (if cd then 1 else 0) + card ps"

lemma no_cmd_blocks:
  "w_queues w ip ''upd_cmds'' = [] \<Longrightarrow> node_doProcess G E ptr conf ip w = Inl Blocked"
  by (simp add: node_doProcess_def blpop_def)

text \<open>
  What any one node does in a state of the update: it waits, or it moves on to the next state.
\<close>

lemma crd_node_cases:
  assumes run: "crd_run G E conf M c v blk0" and st: "crd_state G conf M c v blk0 ds cd ps w"
    and k: "k < ecN conf"
  shows "node_doProcess G E ptr conf (helpersIPs conf ! k) w = Inl Blocked \<or>
    (\<exists>w' ds' cd' ps'. node_doProcess G E ptr conf (helpersIPs conf ! k) w = Inr w' \<and>
      crd_state G conf M c v blk0 ds' cd' ps' w' \<and> crd_count ds' cd' ps' = Suc (crd_count ds cd ps))"
proof -
  note R = crd_runD[OF run] and S = crd_stateD[OF st]
  have fin: "finite ps"
    using S(4) finite_subset by blast
  show ?thesis
  proof (cases "k < ecK conf")
    case True
    show ?thesis
    proof (cases "\<exists>b \<in> set v. nat (ub_id b) = k \<and> b \<notin> set ds")
      case True
      then obtain b where b: "b \<in> set v" "nat (ub_id b) = k" "b \<notin> set ds" by blast
      obtain w' where "node_doProcess G E ptr conf (ub_ip b) w = Inr w'"
          "crd_state G conf M c v blk0 (ds @ [b]) cd ps w'"
        using step_data[OF run st b(1,3)] by blast
      moreover have "ub_ip b = helpersIPs conf ! k"
        using data_ip(3)[OF R(3,4) b(1)] b(2) by simp
      ultimately show ?thesis
        by (intro disjI2 exI[of _ w'] exI[of _ "ds @ [b]"] exI[of _ cd] exI[of _ ps]) (simp add: crd_count_def)
    next
      case False
      have "w_queues w (helpersIPs conf ! k) ''upd_cmds'' = []"
      proof (cases "\<exists>b \<in> set v. nat (ub_id b) = k")
        case True
        with False have "node_done conf c ds cd ps k"
          by (auto simp: node_done_def)
        then show ?thesis using S(6)[OF k] by simp
      next
        case False
        then show ?thesis
          using S(6)[OF k] node_cmds_idle[OF R(3-5) \<open>k < ecK conf\<close>] by simp
      qed
      then show ?thesis by (simp add: no_cmd_blocks)
    qed
  next
    case False
    define i where "i = k - ecK conf"
    have ki: "k = ecK conf + i" "i < ecM conf"
      using False k by (auto simp: i_def)
    show ?thesis
    proof (cases "node_done conf c ds cd ps k")
      case True
      then show ?thesis using S(6)[OF k] by (simp add: no_cmd_blocks)
    next
      case False
      show ?thesis
      proof (cases "i = c")
        case True
        then have cd: "\<not> cd" using False ki by (auto simp: node_done_def)
        then show ?thesis
          using step_collector[OF run, of ds ps w ptr] block_collector[OF run, of ds ps w ptr] st True ki
          by (cases "set ds = set v") (auto simp: crd_count_def intro!: exI[of _ ds] exI[of _ True] exI[of _ ps])
      next
        case other: False
        have "i \<notin> ps" using False ki by (auto simp: node_done_def)
        then show ?thesis
          using step_parity[OF run _ ki(2) other, of ds ps w ptr] block_parity[OF run _ ki(2) other, of ds ps w ptr]
            st ki fin
          by (cases cd) (auto simp: crd_count_def intro!: exI[of _ ds] exI[of _ True] exI[of _ "insert i ps"])
      qed
    qed
  qed
qed

lemma crd_step:
  assumes "crd_run G E conf M c v blk0" and "crd_state G conf M c v blk0 ds cd ps w"
    and "node_step G E ptr conf w w'"
  shows "\<exists>ds' cd' ps'. crd_state G conf M c v blk0 ds' cd' ps' w' \<and>
    crd_count ds' cd' ps' = Suc (crd_count ds cd ps)"
proof -
  obtain ip where ip: "ip \<in> set (helpersIPs conf)" "node_doProcess G E ptr conf ip w = Inr w'"
    using assms(3) by (rule node_stepE)
  then obtain k where "k < ecN conf" "ip = helpersIPs conf ! k"
    using crd_runD(3)[OF assms(1)] by (auto simp: in_set_conv_nth stripe_ok_def)
  then show ?thesis
    using crd_node_cases[OF assms(1,2), of k ptr] ip by auto
qed

text \<open>As long as a command is left, some node can take one.\<close>

lemma crd_progress:
  assumes run: "crd_run G E conf M c v blk0" and st: "crd_state G conf M c v blk0 ds cd ps w"
    and left: "set ds \<noteq> set v \<or> \<not> cd \<or> ps \<noteq> {..<ecM conf} - {c}"
  shows "\<exists>w'. node_step G E ptr conf w w'"
proof -
  note R = crd_runD[OF run] and S = crd_stateD[OF st]
  have mem: "helpersIPs conf ! (ecK conf + i) \<in> set (helpersIPs conf)" if "i < ecM conf" for i
    using R(3) R(9)[OF that] by (simp add: stripe_ok_def)
  show ?thesis
  proof (cases "set ds = set v")
    case False
    then obtain b where b: "b \<in> set v" "b \<notin> set ds" using S(2) by blast
    then show ?thesis
      using step_data[OF run st b, of ptr] data_ip(4)[OF R(3,4) b(1)] by (blast intro: node_step.node)
  next
    case all: True
    show ?thesis
    proof (cases cd)
      case False
      then show ?thesis
        using step_collector[OF run _ all, of ps w ptr] st mem[OF R(5)] by (auto intro: node_step.node)
    next
      case True
      then obtain i where "i < ecM conf" "i \<noteq> c" "i \<notin> ps"
        using left all S(4) by blast
      then show ?thesis
        using step_parity[OF run, of ds ps w i ptr] st True mem[of i] by (auto intro: node_step.node)
    qed
  qed
qed

section \<open>The first and the last state\<close>

definition quiescent :: "config \<Rightarrow> world \<Rightarrow> bool" where
  "quiescent conf w \<longleftrightarrow>
     (\<forall>k < ecN conf. w_queues w (helpersIPs conf ! k) ''upd_cmds'' = []) \<and>
     (\<forall>i < ecM conf. w_queues w (helpersIPs conf ! (ecK conf + i)) ''crdData'' = []) \<and>
     w_queues w (coordinatorIP conf) ''ack'' = []"

text \<open>Node \<open>k\<close> stores block \<open>k\<close> of the stripe, with contents \<open>blk k\<close>.\<close>

definition holds :: "config \<Rightarrow> world \<Rightarrow> (nat \<Rightarrow> byte list) \<Rightarrow> bool" where
  "holds conf w blk \<longleftrightarrow>
     (\<forall>k < ecN conf. w_files w (helpersIPs conf ! k) (blk_name (int k)) = Some (blk k) \<and>
        length (blk k) = nat (blk_bytes conf))"

lemma crd_start:
  assumes "stripe_ok conf M" and "updates_ok conf v" and "quiescent conf w" and "holds conf w blk0"
    and "CrdUpdate conf M r v w = Inr w1"
  shows "crd_state G conf M (r mod ecM conf) v blk0 [] False {} w1"
proof -
  define c where "c = r mod ecM conf"
  have w1: "w1 = push_cmds (crd_cmds conf M c v) w"
    using assms(5) CrdUpdate_eq[OF assms(1,2)] by (simp add: c_def)
  have c: "c < ecM conf" "ecK conf < ecN conf"
    using assms(1) by (auto simp: stripe_ok_def c_def)
  then have q: "w_queues w (helpersIPs conf ! (ecK conf + i)) ''crdData'' = []" if "i < ecM conf" for i
    using that assms(3) by (simp add: quiescent_def)
  have f: "w_files w (helpersIPs conf ! (ecK conf + i)) (blk_name (int (ecK conf + i))) = Some (blk0 (ecK conf + i))"
    if "i < ecM conf" for i
    using that assms(4) by (simp add: holds_def del: of_nat_add)
  show ?thesis
    unfolding crd_state_def w1 push_cmds_state c_def[symmetric]
    using assms(3,4) c q f
    by (auto simp: quiescent_def holds_def node_done_def node_cmds_def data_now_def parity_now_def Let_def
        simp del: of_nat_add)
qed

lemma crd_runI:
  assumes "gf_complete G" and "io_ok E" and "stripe_ok conf M" and "updates_ok conf v" and "holds conf w blk0"
  shows "crd_run G E conf M (r mod ecM conf) v blk0"
  using assms by (auto simp: crd_run_def stripe_ok_def holds_def)

lemma crd_reachable:
  assumes "crd_run G E conf M c v blk0" and "crd_state G conf M c v blk0 [] False {} w1"
    and "(node_step G E ptr conf ^^ n) w1 w"
  shows "\<exists>ds cd ps. crd_state G conf M c v blk0 ds cd ps w \<and> crd_count ds cd ps = n"
  using assms(3)
proof (induction n arbitrary: w)
  case 0
  then show ?case
    using assms(2) by (intro exI[of _ "[]"] exI[of _ False] exI[of _ "{}"]) (simp add: crd_count_def)
next
  case (Suc n)
  then obtain wm where "(node_step G E ptr conf ^^ n) w1 wm" "node_step G E ptr conf wm w"
    by auto
  then show ?case
    using Suc.IH crd_step[OF assms(1)] by metis
qed

lemma crd_count_bound:
  assumes "crd_run G E conf M c v blk0" and "crd_state G conf M c v blk0 ds cd ps w"
  shows "crd_count ds cd ps \<le> length v + ecM conf"
    and "crd_count ds cd ps = length v + ecM conf \<longleftrightarrow> set ds = set v \<and> cd \<and> ps = {..<ecM conf} - {c}"
proof -
  note R = crd_runD[OF assms(1)] and S = crd_stateD[OF assms(2)]
  have dv: "distinct v"
    using R(4) by (simp add: updates_ok_def distinct_map)
  have ds: "length ds \<le> length v" "length ds = length v \<longleftrightarrow> set ds = set v"
    using S(1,2) dv distinct_card[OF S(1)] distinct_card[OF dv] card_mono[OF finite_set S(2)]
      card_subset_eq[OF finite_set S(2)] by auto
  let ?P = "{..<ecM conf} - {c}"
  have "card ?P = ecM conf - 1"
    using R(5) by simp
  moreover have "card ps \<le> card ?P" "card ps = card ?P \<longleftrightarrow> ps = ?P"
    using S(4) card_mono[of ?P ps] card_subset_eq[of ?P ps] by auto
  ultimately show "crd_count ds cd ps \<le> length v + ecM conf"
    "crd_count ds cd ps = length v + ecM conf \<longleftrightarrow> set ds = set v \<and> cd \<and> ps = ?P"
    using ds R(5) by (auto simp: crd_count_def)
qed

section \<open>Parity and data\<close>

text \<open>Parity block \<open>i\<close> is the combination of the data blocks with row \<open>i\<close> of the coding matrix.\<close>

definition parity_matches :: "gf_ops \<Rightarrow> config \<Rightarrow> byte list \<Rightarrow> (nat \<Rightarrow> byte list) \<Rightarrow> nat \<Rightarrow> bool" where
  "parity_matches G conf M blk i \<longleftrightarrow>
     blk (ecK conf + i) =
       lin_comb G (take (ecK conf) (drop (i * ecK conf) M)) (map blk [0..<ecK conf]) (nat (blk_bytes conf))"

lemma parity_matches_cong:
  assumes "stripe_ok conf M" and "\<And>k. k < ecN conf \<Longrightarrow> blk k = blk' k" and "i < ecM conf"
  shows "parity_matches G conf M blk i \<longleftrightarrow> parity_matches G conf M blk' i"
proof -
  have "map blk [0..<ecK conf] = map blk' [0..<ecK conf]" "blk (ecK conf + i) = blk' (ecK conf + i)"
    using assms by (auto simp: stripe_ok_def)
  then show ?thesis by (simp only: parity_matches_def)
qed

text \<open>What the update changes in byte \<open>x\<close> of data block \<open>k\<close>.\<close>

definition delta_byte :: "config \<Rightarrow> (nat \<Rightarrow> byte list) \<Rightarrow> upd_block list \<Rightarrow> nat \<Rightarrow> nat \<Rightarrow> byte" where
  "delta_byte conf blk0 ds x k =
     (case find (\<lambda>b. ub_id b = int k) ds of
        None \<Rightarrow> 0 | Some b \<Rightarrow> place (nat (blk_bytes conf)) b (old_delta blk0 b) ! x)"

lemma find_upd:
  assumes "updates_ok conf v" and "set ds = set v" and "b \<in> set v"
  shows "find (\<lambda>d. ub_id d = int (nat (ub_id b))) ds = Some b"
proof -
  have id: "int (nat (ub_id b)) = ub_id b"
    using assms by (auto simp: updates_ok_def)
  obtain d where d: "find (\<lambda>d. ub_id d = ub_id b) ds = Some d"
    using assms(2,3) by (cases "find (\<lambda>d. ub_id d = ub_id b) ds") (auto simp: find_None_iff)
  then have "ub_id d = ub_id b" "d \<in> set ds"
    by (auto simp: find_Some_iff)
  then show ?thesis
    using upd_id_inj[OF assms(1), of d b] assms(2,3) d id by simp
qed

lemma data_now_byte:
  assumes run: "crd_run G E conf M c v blk0" and ds: "set ds = set v" and k: "k < ecK conf"
    and x: "x < nat (blk_bytes conf)"
  shows "data_now blk0 ds k ! x = blk0 k ! x XOR delta_byte conf blk0 ds x k"
proof (cases "find (\<lambda>b. ub_id b = int k) ds")
  case None
  then show ?thesis by (simp add: data_now_def delta_byte_def)
next
  case (Some b)
  note R = crd_runD[OF run]
  have b: "b \<in> set v" "nat (ub_id b) = k"
    using Some ds by (auto simp: find_Some_iff)
  have len: "length (blk0 k) = nat (blk_bytes conf)"
    using R(3,6) k by (auto simp: stripe_ok_def)
  have inb: "blk_in conf b"
    using R(4) b(1) by (simp add: updates_ok_def)
  have "upd_file b (blk0 k) ! x = blk0 k ! x XOR place (nat (blk_bytes conf)) b (old_delta blk0 b) ! x"
    using upd_file_xor[OF inb len] x len length_place[OF inb length_upd_delta[OF inb len] refl] b(2)
    by (simp add: old_delta_def)
  with Some show ?thesis by (simp add: data_now_def delta_byte_def)
qed

lemma delta_sum:
  assumes run: "crd_run G E conf M c v blk0" and ds: "set ds = set v"
  shows "xor_sum (\<lambda>k. gf_multiply G (row k) (delta_byte conf blk0 ds x k)) (ecK conf) =
    xor_sum (\<lambda>j. gf_multiply G (row (nat (ub_id (v ! j))))
      (place (nat (blk_bytes conf)) (v ! j) (old_delta blk0 (v ! j)) ! x)) (length v)"
proof -
  note R = crd_runD[OF run]
  let ?h = "\<lambda>j. nat (ub_id (v ! j))" and ?g = "\<lambda>k. gf_multiply G (row k) (delta_byte conf blk0 ds x k)"
  have dist: "distinct v"
    using R(4) by (simp add: updates_ok_def distinct_map)
  have inj: "inj_on ?h {..<length v}"
  proof (rule inj_onI)
    fix j j' assume j: "j \<in> {..<length v}" "j' \<in> {..<length v}" "?h j = ?h j'"
    then have "v ! j = v ! j'"
      using upd_id_inj[OF R(4), of "v ! j" "v ! j'"] by simp
    with j dist show "j = j'"
      by (simp add: nth_eq_iff_index_eq)
  qed
  have sub: "?h ` {..<length v} \<subseteq> {..<ecK conf}"
    using data_ip(1)[OF R(3,4)] by auto
  have "?g k = 0" if "k \<in> {..<ecK conf} - ?h ` {..<length v}" for k
  proof -
    have "ub_id b \<noteq> int k" if b: "b \<in> set ds" for b
    proof
      assume "ub_id b = int k"
      moreover obtain j where "j < length v" "b = v ! j"
        using b ds by (auto simp: in_set_conv_nth)
      ultimately have "k = ?h j" "j \<in> {..<length v}"
        by simp_all
      then show False using \<open>k \<in> {..<ecK conf} - ?h ` {..<length v}\<close> by blast
    qed
    then have "find (\<lambda>b. ub_id b = int k) ds = None"
      by (simp add: find_None_iff)
    then show ?thesis
      using gf_complete.mult_zero[OF R(1)] by (simp add: delta_byte_def)
  qed
  then have "xor_sum ?g (ecK conf) = xs.F ?g (?h ` {..<length v})"
    by (intro xs.mono_neutral_right) (use sub in auto)
  also have "\<dots> = xor_sum (?g \<circ> ?h) (length v)"
    by (rule xs.reindex[OF inj])
  also have "\<dots> = xor_sum (\<lambda>j. gf_multiply G (row (?h j))
      (place (nat (blk_bytes conf)) (v ! j) (old_delta blk0 (v ! j)) ! x)) (length v)"
    by (rule xs.cong) (simp_all add: delta_byte_def find_upd[OF R(4) ds] del: int_nat_eq)
  finally show ?thesis .
qed

text \<open>Adding the parity delta to a matching parity block makes it match the new data.\<close>

lemma parity_update_matches:
  assumes run: "crd_run G E conf M c v blk0" and ds: "set ds = set v" and i: "i < ecM conf"
    and old: "parity_matches G conf M blk0 i"
    and blk: "\<forall>k < ecK conf. blk k = data_now blk0 ds k"
    and par: "blk (ecK conf + i) = xor_bytes (blk0 (ecK conf + i)) (parity_delta G conf M v (old_delta blk0) i)"
  shows "parity_matches G conf M blk i"
  unfolding parity_matches_def
proof (rule nth_equalityI)
  note R = crd_runD[OF run]
  let ?B = "nat (blk_bytes conf)" and ?K = "ecK conf"
  let ?row = "take ?K (drop (i * ?K) M)"
  have lenM: "length M = ecM conf * ?K"
    using R(3) by (simp add: stripe_ok_def)
  then have le: "i * ?K \<le> length M"
    using i by (simp add: mult_le_mono1)
  have lenB: "length (blk0 (?K + i)) = ?B"
    using R(6) R(9)[OF i] by simp
  show "length (blk (?K + i)) = length (lin_comb G ?row (map blk [0..<?K]) ?B)"
    using lenB by (simp add: par)
  fix x assume "x < length (blk (?K + i))"
  then have x: "x < ?B" using lenB by (simp add: par)
  have row: "?row ! k = M ! (i * ?K + k)" if "k < ?K" for k
    using that le by simp
  let ?m = "gf_multiply G" and ?r = "\<lambda>k. M ! (i * ?K + k)"
  have "lin_comb G ?row (map blk [0..<?K]) ?B ! x = xor_sum (\<lambda>k. ?m (?r k) (blk k ! x)) ?K"
    using x row by (simp add: lin_byte_def cong: xs.cong_simp)
  also have "\<dots> = xor_sum (\<lambda>k. ?m (?r k) (blk0 k ! x) XOR ?m (?r k) (delta_byte conf blk0 ds x k)) ?K"
    using blk data_now_byte[OF run ds _ x] by (intro xs.cong) (simp_all add: gf_complete.mult_xor[OF R(1)])
  also have "\<dots> = xor_sum (\<lambda>k. ?m (?r k) (blk0 k ! x)) ?K XOR
      xor_sum (\<lambda>k. ?m (?r k) (delta_byte conf blk0 ds x k)) ?K"
    by (rule xs.distrib)
  also have "xor_sum (\<lambda>k. ?m (?r k) (blk0 k ! x)) ?K = blk0 (?K + i) ! x"
    using old x row by (simp add: parity_matches_def lin_byte_def cong: xs.cong_simp)
  also have "xor_sum (\<lambda>k. ?m (?r k) (delta_byte conf blk0 ds x k)) ?K =
      parity_delta G conf M v (old_delta blk0) i ! x"
    using x by (simp add: delta_sum[OF run ds] parity_delta_def lin_byte_def cong: xs.cong_simp)
  finally show "blk (?K + i) ! x = lin_comb G ?row (map blk [0..<?K]) ?B ! x"
    using x lenB by (simp add: par)
qed

section \<open>The end of a run\<close>

lemma crd_end:
  assumes "gf_complete G" and "io_ok E" and "stripe_ok conf M" and "updates_ok conf v"
    and "quiescent conf w0" and "holds conf w0 blk0" and "CrdUpdate conf M r v w0 = Inr w1"
    and "(node_step G E ptr conf)\<^sup>*\<^sup>* w1 w" and "\<nexists>w'. node_step G E ptr conf w w'"
  obtains ds where "set ds = set v"
    and "crd_state G conf M (r mod ecM conf) v blk0 ds True ({..<ecM conf} - {r mod ecM conf}) w"
proof -
  note run = crd_runI[OF assms(1-4,6), of r]
  obtain n where "(node_step G E ptr conf ^^ n) w1 w"
    using assms(8) by (auto simp: rtranclp_power)
  then obtain ds cd ps where st: "crd_state G conf M (r mod ecM conf) v blk0 ds cd ps w"
    using crd_reachable[OF run crd_start[OF assms(3-7)]] by blast
  have "set ds = set v \<and> cd \<and> ps = {..<ecM conf} - {r mod ecM conf}"
    using crd_progress[OF run st, of ptr] assms(9) by blast
  with st that show ?thesis by auto
qed

lemma holds_unique: "holds conf w blk \<Longrightarrow> holds conf w blk' \<Longrightarrow> k < ecN conf \<Longrightarrow> blk k = blk' k"
  by (simp add: holds_def)

text \<open>The blocks at the end.\<close>

definition final_blk ::
    "gf_ops \<Rightarrow> config \<Rightarrow> byte list \<Rightarrow> nat \<Rightarrow> upd_block list \<Rightarrow> (nat \<Rightarrow> byte list) \<Rightarrow> nat \<Rightarrow> byte list" where
  "final_blk G conf M c v blk0 k =
     (if k < ecK conf then data_now blk0 v k
      else parity_now G conf M c v blk0 True ({..<ecM conf} - {c}) (k - ecK conf))"

lemma data_now_perm:
  assumes "updates_ok conf v" and "set ds = set v"
  shows "data_now blk0 ds k = data_now blk0 v k"
proof (cases "\<exists>b \<in> set v. ub_id b = int k")
  case True
  then obtain b where b: "b \<in> set v" "ub_id b = int k" by blast
  then show ?thesis
    using find_upd[OF assms b(1)] find_upd[OF assms(1) refl b(1)] by (simp add: data_now_def)
next
  case False
  then have "find (\<lambda>b. ub_id b = int k) ds = None" "find (\<lambda>b. ub_id b = int k) v = None"
    using assms(2) by (auto simp: find_None_iff)
  then show ?thesis by (simp add: data_now_def)
qed

lemma length_final_blk:
  assumes run: "crd_run G E conf M c v blk0" and k: "k < ecN conf"
  shows "length (final_blk G conf M c v blk0 k) = nat (blk_bytes conf)"
proof (cases "k < ecK conf")
  case True
  note R = crd_runD[OF run]
  show ?thesis
  proof (cases "find (\<lambda>b. ub_id b = int k) v")
    case None
    then show ?thesis using R(6) k True by (simp add: final_blk_def data_now_def)
  next
    case (Some b)
    then have "b \<in> set v" by (auto simp: find_Some_iff)
    then have "blk_in conf b" using R(4) by (simp add: updates_ok_def)
    then show ?thesis using Some R(6) k True by (simp add: final_blk_def data_now_def)
  qed
next
  case False
  then show ?thesis
    using crd_runD(6)[OF run] k by (auto simp: final_blk_def parity_now_def parity_after_def Let_def)
qed

lemma crd_end_holds:
  assumes run: "crd_run G E conf M c v blk0" and ds: "set ds = set v"
    and st: "crd_state G conf M c v blk0 ds True ({..<ecM conf} - {c}) w"
  shows "holds conf w (final_blk G conf M c v blk0)"
  unfolding holds_def
proof (intro allI impI conjI)
  note R = crd_runD[OF run] and S = crd_stateD[OF st]
  fix k assume k: "k < ecN conf"
  show "length (final_blk G conf M c v blk0 k) = nat (blk_bytes conf)"
    by (rule length_final_blk[OF run k])
  show "w_files w (helpersIPs conf ! k) (blk_name (int k)) = Some (final_blk G conf M c v blk0 k)"
  proof (cases "k < ecK conf")
    case True
    then show ?thesis
      using S(10)[OF True] data_now_perm[OF R(4) ds] by (simp add: final_blk_def)
  next
    case False
    then show ?thesis
      using S(11)[of "k - ecK conf"] k by (simp add: final_blk_def)
  qed
qed

lemma crd_end_acks:
  assumes run: "crd_run G E conf M c v blk0"
    and st: "crd_state G conf M c v blk0 ds True ({..<ecM conf} - {c}) w" and ds: "set ds = set v"
  obtains w2 where "recvAck conf w = Inr (1, w2)" and "w_files w2 = w_files w" and "quiescent conf w2"
proof -
  note R = crd_runD[OF run] and S = crd_stateD[OF st]
  have m: "Suc (card ({..<ecM conf} - {c})) = ecM conf"
    using R(5) by simp
  have acks: "w_queues w (coordinatorIP conf) ''ack'' = replicate (ecM conf) ack_msg @ []"
    using S(9) m by simp
  have "foldE (\<lambda>_ u. Inr u) xs () = Inr ()" for xs :: "byte list list"
    by (induction xs) simp_all
  then have fold: "foldE (\<lambda>_ u. Inr u) (replicate (ecM conf) ack_msg) () = Inr ()" .
  have ne: "replicate (ecM conf) ack_msg \<noteq> []"
    using R(5) by auto
  obtain w2 where w2: "recv_count (blpop (coordinatorIP conf) ''ack'') (\<lambda>_ u. Inr u)
        (int (length (replicate (ecM conf) ack_msg))) () w = Inr ((), w2)" "w_files w2 = w_files w"
      "w_queues w2 = (w_queues w)(coordinatorIP conf := (w_queues w (coordinatorIP conf))(''ack'' := []))"
    by (rule receive_all[OF acks fold ne])
  have cmds: "w_queues w (helpersIPs conf ! k) ''upd_cmds'' = []" if "k < ecN conf" for k
  proof (cases "node_done conf c ds True ({..<ecM conf} - {c}) k")
    case False
    then have "k < ecK conf"
      using that by (auto simp: node_done_def) (metis DiffI add_diff_inverse_nat diff_less_mono lessThan_iff singletonD leI)
    moreover have "\<forall>b \<in> set v. nat (ub_id b) \<noteq> k"
      using False ds by (auto simp: node_done_def)
    ultimately show ?thesis
      using S(6)[OF that] node_cmds_idle[OF R(3-5)] by simp
  qed (use S(6)[OF that] in simp)
  have data: "w_queues w (helpersIPs conf ! (ecK conf + i)) ''crdData'' = []" if "i < ecM conf" for i
    using S(7) S(8)[OF that] that by (cases "i = c") auto
  have "int (length (replicate (ecM conf) ack_msg)) = int (ecM conf)"
    by (simp only: length_replicate)
  then have "recvAck conf w = Inr (1, w2)"
    using w2(1) by (simp only: recvAck_def bindE_Inr prod.case)
  moreover have "quiescent conf w2"
    unfolding quiescent_def w2(3) fun_upd_def by (auto; metis cmds data)
  ultimately show ?thesis
    using that w2(2) by blast
qed

section \<open>The update as a whole\<close>

text \<open>Every run can be taken to its end.\<close>

lemma crd_run_ends:
  assumes run: "crd_run G E conf M c v blk0" and st: "crd_state G conf M c v blk0 ds cd ps w"
  shows "\<exists>w'. (node_step G E ptr conf)\<^sup>*\<^sup>* w w' \<and> (\<nexists>w''. node_step G E ptr conf w' w'')"
  using st
proof (induction "length v + ecM conf - crd_count ds cd ps" arbitrary: ds cd ps w rule: less_induct)
  case less
  show ?case
  proof (cases "\<exists>w'. node_step G E ptr conf w w'")
    case True
    then obtain w1 ds' cd' ps' where w1: "node_step G E ptr conf w w1" "crd_state G conf M c v blk0 ds' cd' ps' w1"
        "crd_count ds' cd' ps' = Suc (crd_count ds cd ps)"
      using crd_step[OF run less.prems] by blast
    have "length v + ecM conf - crd_count ds' cd' ps' < length v + ecM conf - crd_count ds cd ps"
      using w1(3) crd_count_bound(1)[OF run w1(2)] by (rule_tac diff_less_mono2) simp_all
    then show ?thesis
      using less.hyps[OF _ w1(2)] w1(1) by (meson converse_rtranclp_into_rtranclp)
  qed blast
qed

lemma crd_finish:
  assumes "gf_complete G" and "io_ok E" and "stripe_ok conf M" and "updates_ok conf v"
    and "quiescent conf w0" and "holds conf w0 blk0"
  obtains w1 w where "CrdUpdate conf M r v w0 = Inr w1" and "(node_step G E ptr conf)\<^sup>*\<^sup>* w1 w"
    and "\<nexists>w'. node_step G E ptr conf w w'"
  using CrdUpdate_eq[OF assms(3,4)] crd_start[OF assms(3-6)] crd_run_ends[OF crd_runI[OF assms(1-4,6)]]
  by metis

lemma final_parity_delta:
  assumes "crd_run G E conf M c v blk0"
  shows "final_blk G conf M c v blk0 (ecK conf + c) =
      xor_bytes (blk0 (ecK conf + c)) (parity_delta G conf M v (old_delta blk0) c)"
    and "i \<noteq> c \<Longrightarrow> i < ecM conf \<Longrightarrow> final_blk G conf M c v blk0 (ecK conf + i) =
      parity_after conf v (parity_delta G conf M v (old_delta blk0) i) (blk0 (ecK conf + i))"
  by (simp_all add: final_blk_def parity_now_def Let_def)

lemma final_collector_matches:
  assumes "crd_run G E conf M c v blk0" and "parity_matches G conf M blk0 c"
  shows "parity_matches G conf M (final_blk G conf M c v blk0) c"
  using parity_update_matches[OF assms(1) refl crd_runD(5)[OF assms(1)] assms(2)] final_parity_delta(1)[OF assms(1)]
  by (simp add: final_blk_def)

lemma final_parity_matches:
  assumes run: "crd_run G E conf M c v blk0" and "i < ecM conf" and "parity_matches G conf M blk0 i"
    and "\<forall>N \<in> set (groups v). crd_extent N = sub_set_extent N"
  shows "parity_matches G conf M (final_blk G conf M c v blk0) i"
proof (cases "i = c")
  case True
  then show ?thesis using final_collector_matches[OF run] assms(3) by simp
next
  case False
  note R = crd_runD[OF run]
  have "length (blk0 (ecK conf + i)) = nat (blk_bytes conf)"
    using R(6) R(9)[OF assms(2)] by simp
  then show ?thesis
    using parity_update_matches[OF run refl assms(2,3)] final_parity_delta(2)[OF run False assms(2)]
      parity_after_eq[OF R(1,3,4,7) assms(4)] by (simp add: final_blk_def)
qed

text \<open>
  A sample stripe of \<open>sample_conf\<close> for the witnesses: the blocks are all zero; the
  operating system transfers everything at once. The updates \<open>sample_long\<close> end with the shorter
  one, those of \<open>sample_short\<close> with the longer one.
\<close>

definition sample_mat :: "byte list" where
  "sample_mat = [1, 1, 1, 2]"

definition sample_blk :: "nat \<Rightarrow> byte list" where
  "sample_blk k = replicate 4096 0"

definition sample_world :: world where
  "sample_world = \<lparr>w_queues = (\<lambda>_ _. []), w_files = (\<lambda>_ _. Some (replicate 4096 0))\<rparr>"

definition sample_env :: env where
  "sample_env = \<lparr>io_chunk = (\<lambda>n _. n), malloc_byte = 0\<rparr>"

definition sample_long :: "upd_block list" where
  "sample_long = [UpdBlock 0 1 0 4, UpdBlock 1 2 0 2]"

definition sample_short :: "upd_block list" where
  "sample_short = [UpdBlock 0 1 0 2, UpdBlock 1 2 0 4]"

lemmas sample_defs = sample_conf_def sample_mat_def sample_blk_def sample_world_def sample_env_def
  sample_long_def sample_short_def

lemma sample_ok:
  "io_ok sample_env" "stripe_ok sample_conf sample_mat" "updates_ok sample_conf sample_long"
  "updates_ok sample_conf sample_short" "quiescent sample_conf sample_world"
  "holds sample_conf sample_world sample_blk"
  by (auto simp: sample_defs io_ok_def stripe_ok_def updates_ok_def blk_in_def quiescent_def holds_def
      COMMAND_MAX_LENGTH_def)

lemma sample_parity: "parity_matches gf256 sample_conf sample_mat sample_blk i"
proof -
  have "lin_byte gf256 row (map sample_blk [0..<2]) {..<2} b = 0" if "b < 4096" for row b
    unfolding lin_byte_def using that gf_complete.mult_zero[OF gf256.gf_complete_axioms]
    by (intro xs.neutral) (auto simp: sample_blk_def)
  then show ?thesis
    unfolding parity_matches_def
    by (intro nth_equalityI) (simp_all add: sample_conf_def sample_blk_def)
qed

text \<open>
  C15. While the commands of a CRD update are worked off, in any order of the nodes, no node ever
  fails: in every reachable state each node either handles its next command or waits for a
  message. In particular no buffer is overrun, no disk call and no length check fails.
\<close>

theorem crd_nodes_never_fail:
  assumes "gf_complete G" and "io_ok E" and "stripe_ok conf M" and "updates_ok conf v"
    and "quiescent conf w0" and "holds conf w0 blk0" and "CrdUpdate conf M r v w0 = Inr w1"
    and "(node_step G E ptr conf)\<^sup>*\<^sup>* w1 w" and "ip \<in> set (helpersIPs conf)"
  shows "node_doProcess G E ptr conf ip w = Inl Blocked \<or>
    (\<exists>w'. node_doProcess G E ptr conf ip w = Inr w')"
proof -
  note run = crd_runI[OF assms(1-4,6), of r]
  obtain n where "(node_step G E ptr conf ^^ n) w1 w"
    using assms(8) by (auto simp: rtranclp_power)
  then obtain ds cd ps where "crd_state G conf M (r mod ecM conf) v blk0 ds cd ps w"
    using crd_reachable[OF run crd_start[OF assms(3-7)]] by blast
  moreover obtain k where "k < ecN conf" "ip = helpersIPs conf ! k"
    using assms(3,9) by (auto simp: in_set_conv_nth stripe_ok_def)
  ultimately show ?thesis
    using crd_node_cases[OF run, of ds cd ps w k ptr] by blast
qed

theorem crd_nodes_never_fail_witness:
  "\<exists>w1. CrdUpdate sample_conf sample_mat 0 sample_long sample_world = Inr w1 \<and>
    (node_doProcess gf256 sample_env [] sample_conf 1 w1 = Inl Blocked \<or>
     (\<exists>w'. node_doProcess gf256 sample_env [] sample_conf 1 w1 = Inr w'))"
proof -
  obtain w1 where w1: "CrdUpdate sample_conf sample_mat 0 sample_long sample_world = Inr w1"
    using CrdUpdate_eq[OF sample_ok(2,3)] by blast
  moreover have "1 \<in> set (helpersIPs sample_conf)"
    by (simp add: sample_conf_def)
  ultimately show ?thesis
    using crd_nodes_never_fail[OF gf256.gf_complete_axioms sample_ok(1,2,3,5,6) w1 rtranclp.rtrancl_refl] by blast
qed

text \<open>
  C16. A CRD update of \<open>n\<close> data blocks with \<open>m\<close> parity nodes takes exactly \<open>n + m\<close> steps in every
  order of the nodes: after fewer steps some node can go on, after \<open>n + m\<close> none can, and more
  steps are impossible. So the update terminates and cannot deadlock.
\<close>

theorem crd_run_terminates:
  assumes "gf_complete G" and "io_ok E" and "stripe_ok conf M" and "updates_ok conf v"
    and "quiescent conf w0" and "holds conf w0 blk0" and "CrdUpdate conf M r v w0 = Inr w1"
    and "(node_step G E ptr conf ^^ n) w1 w"
  shows "n \<le> length v + ecM conf \<and>
    ((\<exists>w'. node_step G E ptr conf w w') \<longleftrightarrow> n < length v + ecM conf)"
proof -
  note run = crd_runI[OF assms(1-4,6), of r]
  obtain ds cd ps where st: "crd_state G conf M (r mod ecM conf) v blk0 ds cd ps w" "crd_count ds cd ps = n"
    using crd_reachable[OF run crd_start[OF assms(3-7)] assms(8)] by blast
  have "n < length v + ecM conf" if "node_step G E ptr conf w w'" for w'
    using crd_step[OF run st(1) that] st(2) crd_count_bound(1)[OF run] by (metis Suc_le_eq)
  moreover have "\<exists>w'. node_step G E ptr conf w w'" if "n < length v + ecM conf"
    using crd_progress[OF run st(1), of ptr] crd_count_bound(2)[OF run st(1)] st(2) that by auto
  ultimately show ?thesis
    using crd_count_bound(1)[OF run st(1)] st(2) by blast
qed

theorem crd_run_terminates_witness:
  "\<exists>w1 w'. CrdUpdate sample_conf sample_mat 0 sample_long sample_world = Inr w1 \<and>
    node_step gf256 sample_env [] sample_conf w1 w'"
proof -
  obtain w1 where w1: "CrdUpdate sample_conf sample_mat 0 sample_long sample_world = Inr w1"
    using CrdUpdate_eq[OF sample_ok(2,3)] by blast
  have "\<exists>w'. node_step gf256 sample_env [] sample_conf w1 w'"
    using crd_run_terminates[OF gf256.gf_complete_axioms sample_ok(1,2,3,5,6) w1, of 0 "[]" w1]
    by (simp add: sample_long_def)
  with w1 show ?thesis by blast
qed

text \<open>
  C2. A CRD update does what it is for. Whatever order the nodes run in, once no node can go on
  the coordinator receives all its acknowledgements, every updated data block holds the new
  bytes in the range of its update and its old bytes elsewhere, the other data blocks are
  untouched, the parity block of the collector matches the data blocks if it did so before, and
  the queues are empty again.
\<close>

theorem crd_update_correct:
  assumes "gf_complete G" and "io_ok E" and "stripe_ok conf M" and "updates_ok conf v"
    and "quiescent conf w0" and "holds conf w0 blk0" and "CrdUpdate conf M r v w0 = Inr w1"
    and "(node_step G E ptr conf)\<^sup>*\<^sup>* w1 w" and "\<nexists>w'. node_step G E ptr conf w w'"
    and "parity_matches G conf M blk0 (r mod ecM conf)"
  shows "\<exists>blk w2. holds conf w blk \<and>
    (\<forall>b \<in> set v. blk (nat (ub_id b)) = upd_file b (blk0 (nat (ub_id b)))) \<and>
    (\<forall>k < ecK conf. int k \<notin> ub_id ` set v \<longrightarrow> blk k = blk0 k) \<and>
    parity_matches G conf M blk (r mod ecM conf) \<and>
    recvAck conf w = Inr (1, w2) \<and> quiescent conf w2 \<and> holds conf w2 blk"
proof -
  define c where "c = r mod ecM conf"
  note run = crd_runI[OF assms(1-4,6), of r, folded c_def]
  obtain ds where ds: "set ds = set v" "crd_state G conf M c v blk0 ds True ({..<ecM conf} - {c}) w"
    using crd_end[OF assms(1-9)] unfolding c_def by blast
  let ?blk = "final_blk G conf M c v blk0"
  obtain w2 where w2: "recvAck conf w = Inr (1, w2)" "w_files w2 = w_files w" "quiescent conf w2"
    using crd_end_acks[OF run ds(2,1)] .
  have hold: "holds conf w ?blk"
    by (rule crd_end_holds[OF run ds])
  have "?blk (nat (ub_id b)) = upd_file b (blk0 (nat (ub_id b)))" if "b \<in> set v" for b
    using that find_upd[OF assms(4) refl that] data_ip(1)[OF assms(3,4) that]
    by (simp add: final_blk_def data_now_def del: int_nat_eq)
  moreover have "?blk k = blk0 k" if "k < ecK conf" "int k \<notin> ub_id ` set v" for k
  proof -
    have "find (\<lambda>b. ub_id b = int k) v = None"
      using that(2) by (force simp: find_None_iff)
    then show ?thesis using that(1) by (simp add: final_blk_def data_now_def)
  qed
  ultimately show ?thesis
    using hold w2 final_collector_matches[OF run] assms(10)
    by (intro exI[of _ ?blk] exI[of _ w2]) (simp add: holds_def c_def)
qed

theorem crd_update_correct_witness:
  "\<exists>w1 w blk w2. CrdUpdate sample_conf sample_mat 0 sample_long sample_world = Inr w1 \<and>
    (node_step gf256 sample_env [] sample_conf)\<^sup>*\<^sup>* w1 w \<and> holds sample_conf w blk \<and>
    blk 0 = upd_file (UpdBlock 0 1 0 4) (sample_blk 0) \<and>
    parity_matches gf256 sample_conf sample_mat blk (0 mod 2) \<and> recvAck sample_conf w = Inr (1, w2)"
proof -
  obtain w1 w where w: "CrdUpdate sample_conf sample_mat 0 sample_long sample_world = Inr w1"
      "(node_step gf256 sample_env [] sample_conf)\<^sup>*\<^sup>* w1 w" "\<nexists>w'. node_step gf256 sample_env [] sample_conf w w'"
    by (rule crd_finish[OF gf256.gf_complete_axioms sample_ok(1,2,3,5,6)])
  show ?thesis
    using crd_update_correct[OF gf256.gf_complete_axioms sample_ok(1,2,3,5,6) w sample_parity] w(1,2)
    by (force simp: sample_long_def)
qed

text \<open>
  C4. If for every sub-set of the plan the range the coordinator announces to the parity nodes
  is the merged range of its updates, then after the update all parity blocks match the data.
\<close>

theorem crd_update_all_parities:
  assumes "gf_complete G" and "io_ok E" and "stripe_ok conf M" and "updates_ok conf v"
    and "quiescent conf w0" and "holds conf w0 blk0" and "CrdUpdate conf M r v w0 = Inr w1"
    and "(node_step G E ptr conf)\<^sup>*\<^sup>* w1 w" and "\<nexists>w'. node_step G E ptr conf w w'"
    and "\<forall>i < ecM conf. parity_matches G conf M blk0 i"
    and "\<forall>(_, N) \<in> set (get_upd_solu_crd v). crd_extent N = sub_set_extent N"
    and "holds conf w blk"
  shows "\<forall>i < ecM conf. parity_matches G conf M blk i"
proof -
  define c where "c = r mod ecM conf"
  note run = crd_runI[OF assms(1-4,6), of r, folded c_def]
  obtain ds where ds: "set ds = set v" "crd_state G conf M c v blk0 ds True ({..<ecM conf} - {c}) w"
    using crd_end[OF assms(1-9)] unfolding c_def by blast
  have "blk k = final_blk G conf M c v blk0 k" if "k < ecN conf" for k
    using holds_unique[OF assms(12) crd_end_holds[OF run ds]] that by blast
  moreover have "\<forall>N \<in> set (groups v). crd_extent N = sub_set_extent N"
    using assms(11) plan_groups by fast
  ultimately show ?thesis
    using final_parity_matches[OF run] assms(10) parity_matches_cong[OF assms(3), of blk "final_blk G conf M c v blk0" _ G]
    by blast
qed

theorem crd_update_all_parities_witness:
  "\<exists>w1 w blk. CrdUpdate sample_conf sample_mat 0 sample_short sample_world = Inr w1 \<and>
    (node_step gf256 sample_env [] sample_conf)\<^sup>*\<^sup>* w1 w \<and> holds sample_conf w blk \<and>
    parity_matches gf256 sample_conf sample_mat blk 1"
proof -
  obtain w1 w where w: "CrdUpdate sample_conf sample_mat 0 sample_short sample_world = Inr w1"
      "(node_step gf256 sample_env [] sample_conf)\<^sup>*\<^sup>* w1 w" "\<nexists>w'. node_step gf256 sample_env [] sample_conf w w'"
    by (rule crd_finish[OF gf256.gf_complete_axioms sample_ok(1,2,4,5,6)])
  obtain blk where blk: "holds sample_conf w blk"
    using crd_end[OF gf256.gf_complete_axioms sample_ok(1,2,4,5,6) w]
      crd_end_holds[OF crd_runI[OF gf256.gf_complete_axioms sample_ok(1,2,4,6)]] by metis
  have "get_upd_solu_crd sample_short = [(0, sample_short)]"
    by (simp add: sample_short_def get_upd_solu_crd_def grow.simps is_intersected_def hull_def INT_MAX_def)
  then have "\<forall>(_, N) \<in> set (get_upd_solu_crd sample_short). crd_extent N = sub_set_extent N"
    by (simp add: sample_short_def crd_extent_def sub_set_extent_def hull_def INT_MAX_def)
  then have "\<forall>i < ecM sample_conf. parity_matches gf256 sample_conf sample_mat blk i"
    using crd_update_all_parities[OF gf256.gf_complete_axioms sample_ok(1,2,4,5,6) w] sample_parity blk by blast
  then show ?thesis
    using w(1,2) blk by (auto simp: sample_conf_def)
qed

text \<open>
  C26. Otherwise parity is lost: a byte of the merged range of a sub-set that the announced
  (shorter) range leaves out keeps its old value on every parity node other than the collector,
  and if its delta is not zero that parity block no longer matches the data.
\<close>

theorem crd_update_stale_parity:
  assumes "gf_complete G" and "io_ok E" and "stripe_ok conf M" and "updates_ok conf v"
    and "quiescent conf w0" and "holds conf w0 blk0" and "CrdUpdate conf M r v w0 = Inr w1"
    and "(node_step G E ptr conf)\<^sup>*\<^sup>* w1 w" and "\<nexists>w'. node_step G E ptr conf w w'"
    and "i < ecM conf" and "i \<noteq> r mod ecM conf" and "parity_matches G conf M blk0 i"
    and "(j, N) \<in> set (get_upd_solu_crd v)" and "x < nat (blk_bytes conf)"
    and "in_bytes (sub_set_extent N) x" and "\<not> in_bytes (crd_extent N) x"
    and "parity_delta G conf M v (old_delta blk0) i ! x \<noteq> 0"
    and "holds conf w blk"
  shows "blk (ecK conf + i) ! x = blk0 (ecK conf + i) ! x \<and> \<not> parity_matches G conf M blk i"
proof -
  define c where "c = r mod ecM conf"
  note run = crd_runI[OF assms(1-4,6), of r, folded c_def]
  note R = crd_runD[OF run]
  obtain ds where ds: "set ds = set v" "crd_state G conf M c v blk0 ds True ({..<ecM conf} - {c}) w"
    using crd_end[OF assms(1-9)] unfolding c_def by blast
  let ?d = "parity_delta G conf M v (old_delta blk0) i" and ?p = "ecK conf + i"
  have blk: "blk k = final_blk G conf M c v blk0 k" if "k < ecN conf" for k
    using holds_unique[OF assms(18) crd_end_holds[OF run ds]] that by blast
  have pN: "?p < ecN conf" by (rule R(9)[OF assms(10)])
  have N: "N \<in> set (groups v)"
    using assms(13) plan_groups by blast
  have d: "length ?d = nat (blk_bytes conf)"
    by (simp add: parity_delta_def)
  have keep: "blk ?p ! x = blk0 ?p ! x"
    using parity_after_truncated[OF assms(3,4) N d assms(15,16,14)] blk[OF pN]
      final_parity_delta(2)[OF run _ assms(10)] assms(11) by (simp add: c_def)
  define good where "good = blk(?p := xor_bytes (blk0 ?p) ?d)"
  have K: "ecK conf < ecN conf" using assms(3) by (simp add: stripe_ok_def)
  have "parity_matches G conf M good i"
    using parity_update_matches[OF run refl assms(10,12), of good] blk K
    by (simp add: good_def final_blk_def)
  moreover have good: "map good [0..<ecK conf] = map blk [0..<ecK conf]"
    by (simp add: good_def)
  ultimately have "good ?p = lin_comb G (take (ecK conf) (drop (i * ecK conf) M)) (map blk [0..<ecK conf]) (nat (blk_bytes conf))"
    unfolding parity_matches_def good by simp
  moreover have "good ?p ! x \<noteq> blk ?p ! x"
    using keep assms(14,17) R(6) pN d xor_eq_zero_iff[of "blk0 ?p ! x" "blk0 ?p ! x XOR ?d ! x"]
    by (simp add: good_def)
  ultimately have "\<not> parity_matches G conf M blk i"
    unfolding parity_matches_def by metis
  with keep show ?thesis ..
qed

theorem crd_update_stale_parity_witness:
  "\<exists>w1 w blk. CrdUpdate sample_conf sample_mat 0 sample_long sample_world = Inr w1 \<and>
    (node_step gf256 sample_env [] sample_conf)\<^sup>*\<^sup>* w1 w \<and> holds sample_conf w blk \<and>
    \<not> parity_matches gf256 sample_conf sample_mat blk 1"
proof -
  obtain w1 w where w: "CrdUpdate sample_conf sample_mat 0 sample_long sample_world = Inr w1"
      "(node_step gf256 sample_env [] sample_conf)\<^sup>*\<^sup>* w1 w" "\<nexists>w'. node_step gf256 sample_env [] sample_conf w w'"
    by (rule crd_finish[OF gf256.gf_complete_axioms sample_ok(1,2,3,5,6)])
  obtain blk where blk: "holds sample_conf w blk"
    using crd_end[OF gf256.gf_complete_axioms sample_ok(1,2,3,5,6) w]
      crd_end_holds[OF crd_runI[OF gf256.gf_complete_axioms sample_ok(1,2,3,6)]] by metis
  have plan: "(0, sample_long) \<in> set (get_upd_solu_crd sample_long)"
    by (simp add: sample_long_def get_upd_solu_crd_def grow.simps is_intersected_def hull_def INT_MAX_def)
  have x: "3072 < nat (blk_bytes sample_conf)" "in_bytes (sub_set_extent sample_long) 3072"
      "\<not> in_bytes (crd_extent sample_long) 3072" "1 < ecM sample_conf" "1 \<noteq> 0 mod ecM sample_conf"
    by (simp_all add: sample_conf_def sample_long_def crd_extent_def sub_set_extent_def hull_def in_bytes_def INT_MAX_def)
  have len: "length (old_delta sample_blk (UpdBlock i ip 0 n)) = nat (n * 1024)" if "n = 4 \<or> n = 2" for i ip n
    using that by (auto simp: old_delta_def upd_delta_def sample_blk_def)
  have new: "place 4096 (UpdBlock 0 1 0 4) (old_delta sample_blk (UpdBlock 0 1 0 4)) ! 3072 = 0x59"
    using len[of 4 0 1] by (simp add: place_def nth_overwrite)
      (simp add: old_delta_def upd_delta_def sample_blk_def upd_new_def gene_radm_buff_def alphanum_def)
  have old: "place 4096 (UpdBlock 1 2 0 2) (old_delta sample_blk (UpdBlock 1 2 0 2)) ! 3072 = 0"
    using len[of 2 1 2] by (simp add: place_def nth_overwrite)
  have "parity_delta gf256 sample_conf sample_mat sample_long (old_delta sample_blk) 1 ! 3072 = 0x59"
    using new old gf_complete.mult_one[OF gf256.gf_complete_axioms] gf_complete.mult_zero[OF gf256.gf_complete_axioms]
    by (simp add: parity_delta_def lin_byte_def sample_long_def sample_conf_def sample_mat_def lessThan_Suc
        lessThan_nat_numeral)
  then have "parity_delta gf256 sample_conf sample_mat sample_long (old_delta sample_blk) 1 ! 3072 \<noteq> 0"
    by simp
  then show ?thesis
    using crd_update_stale_parity[OF gf256.gf_complete_axioms sample_ok(1,2,3,5,6) w x(4,5) sample_parity plan x(1-3) _ blk]
      w(1,2) blk by blast
qed

end
