(* ===== verification/Up_System.thy ===== *)
theory Up_System
  imports Up_Coordinator Node_Run Crd_Update
begin

text \<open>
  The update path end to end: the coordinator flushes its log stripe by stripe while the update
  nodes run. With the policy \<open>crd\<close> a flush of any log that satisfies its invariant succeeds and
  leaves in every data block the updates of all stripes, in their order; if the ranges announced
  to the parity nodes are right, all parity blocks match at the end. The request that
  \<open>UpdateReqHandler\<close> pushes and \<open>CmdDistributor\<close> takes apart carries the same updates.
\<close>

section \<open>Runs of the nodes\<close>

text \<open>
  C17. Whatever commands wait in their lists, well-formed or not, each step of a node takes one command away and no handler adds one, so that
  \<open>n\<close> steps leave \<open>n\<close> commands fewer; and from every state the schedule \<open>run_all\<close> reaches a state in which no node can go
  on. The nodes can therefore only run for ever in one way: there is an endless run if and only if they can reach a state in which a handler itself
  does not return, as it happens when a command reads beyond the end of a block.
\<close>

theorem node_runs_end:
  "((node_step G E ptr conf ^^ n) w w' \<longrightarrow> pending conf w = n + pending conf w') \<and>
   (node_step G E ptr conf)\<^sup>*\<^sup>* w (run_all G E ptr conf w) \<and>
   (\<nexists>w'. node_step G E ptr conf (run_all G E ptr conf w) w') \<and>
   ((\<exists>f. f 0 = w \<and> (\<forall>i. live_step G E ptr conf (f i) (f (Suc i)))) \<longleftrightarrow>
    (\<exists>w'. (node_step G E ptr conf)\<^sup>*\<^sup>* w w' \<and> spins G E ptr conf w'))"
  using pending_steps run_all_ends[of G E ptr conf] endless_iff_spins[of w G E ptr conf] unfolding runs_to_end_def by blast

text \<open>The first task of a raid update on a block that is shorter than the configuration says.\<close>

lemma short_block_spins:
  assumes "io_ok E" and "ip \<in> set (helpersIPs conf)" and "mk_cmd 1 [b, c] = Inr cmd" and "int32 b" and "int32 c"
    and "w_queues w ip ''upd_cmds'' = cmd # rest" and "w_files w ip (blk_name b) = Some fd" and "int (length fd) < blk_bytes conf"
  shows "spins G E ptr conf w"
proof -
  obtain w1 where w1: "w_files w1 = w_files w" "node_doProcess G E ptr conf ip w =
      node_dispatch G E ptr conf ip 1 (cmd @ replicate (COMMAND_MAX_LENGTH - length cmd) (malloc_byte E)) (4 * (2 + int (length [b, c]))) w1"
    by (rule node_doProcess_cmd[OF assms(3) _ _ assms(6), of G E ptr conf]) (use assms(4,5) in \<open>auto intro: that\<close>)
  have cmd: "cmd = put_ints [1, 16, b, c]" using assms(3) by (simp add: mk_cmd_Inr)
  have fields: "get_int (cmd @ post) 8 = Inr b" "get_int (cmd @ post) 12 = Inr c" for post
    using get_int_cmd[of 8 2 "[1, 16, b, c]" post] get_int_cmd[of 12 3 "[1, 16, b, c]" post] assms(4,5) by (simp_all add: cmd)
  have pos: "0 < blk_bytes conf" using assms(8) by linarith
  have "read_loop E fd 0 (nat (blk_bytes conf)) 0 (malloc E (blk_bytes conf)) = Inl Diverges"
    using assms(8) pos by (intro read_loop_short_file[OF assms(1)]) (simp_all add: malloc_def)
  then have "readDataFromDisk E ip (blk_name b) (malloc E (blk_bytes conf)) (blk_bytes conf) 0 w1 = Inl Diverges"
    using assms(7) pos by (simp add: readDataFromDisk_def w1(1))
  moreover have "\<exists>s. memcpy_to (malloc E (4 + blk_bytes conf)) 0 (put_int b) = Inr s"
    using pos by (subst memcpy_to_zero) (simp_all add: malloc_def)
  ultimately have "node_doProcess G E ptr conf ip w = Inl Diverges"
    by (auto simp: w1(2) node_dispatch_def send_data_to_collector_for_raid_def fields check_len_def)
  then show ?thesis using assms(2) by (auto simp: spins_def)
qed

lemma sample_run: "crd_run gf256 sample_env sample_conf sample_mat 0 sample_long sample_blk"
  using crd_runI[OF gf256.gf_complete_axioms sample_ok(1-3,6), of 0] by simp

text \<open>A world with empty blocks in which node 1 has a command to read block 0.\<close>

definition short_world :: world where
  "short_world =
     \<lparr>w_queues = (\<lambda>ip key. if ip = 1 \<and> key = ''upd_cmds'' then [put_ints [1, 16, 0, 2]] else []), w_files = (\<lambda>_ _. Some [])\<rparr>"

theorem node_runs_end_witness:
  "(\<exists>w1 w'. CrdUpdate sample_conf sample_mat 0 sample_long sample_world = Inr w1 \<and>
    pending sample_conf w1 = 1 + pending sample_conf w') \<and>
   (\<exists>f. f 0 = short_world \<and> (\<forall>i. live_step gf256 sample_env [] sample_conf (f i) (f (Suc i))))"
proof
  obtain w1 where w1: "CrdUpdate sample_conf sample_mat 0 sample_long sample_world = Inr w1"
    using CrdUpdate_eq[OF sample_ok(2,3)] by blast
  then have "crd_state gf256 sample_conf sample_mat 0 sample_long sample_blk [] False {} w1"
    using crd_start[OF sample_ok(2,3,5,6)] by fastforce
  then obtain w' where "node_step gf256 sample_env [] sample_conf w1 w'"
    using crd_progress[OF sample_run] by blast
  then have "(node_step gf256 sample_env [] sample_conf ^^ 1) w1 w'"
    by (simp add: eq_OO)
  then show "\<exists>w1 w'. CrdUpdate sample_conf sample_mat 0 sample_long sample_world = Inr w1 \<and>
      pending sample_conf w1 = 1 + pending sample_conf w'"
    using node_runs_end[where G = gf256 and E = sample_env and ptr = "[]" and n = 1 and w = w1 and w' = w'] w1
    by blast
  have "spins gf256 sample_env [] sample_conf short_world"
    by (rule short_block_spins[OF sample_ok(1), where ip = 1 and b = 0 and c = 2 and fd = "[]"])
      (simp_all add: short_world_def sample_conf_def mk_cmd_def COMMAND_MAX_LENGTH_def)
  then show "\<exists>f. f 0 = short_world \<and> (\<forall>i. live_step gf256 sample_env [] sample_conf (f i) (f (Suc i)))"
    using node_runs_end[where G = gf256 and E = sample_env and ptr = "[]" and w = short_world and conf = sample_conf] by blast
qed

section \<open>The updates of a log\<close>

text \<open>The update of block \<open>l\<close> of a stripe for the range \<open>(s, e)\<close>.\<close>

definition range_upd :: "config \<Rightarrow> int \<Rightarrow> int \<times> int \<Rightarrow> upd_block" where
  "range_upd conf l r = UpdBlock l (helpersIPs conf ! nat l) (fst r) (snd r - fst r)"

definition log_of :: "config \<Rightarrow> upd_log \<Rightarrow> int \<Rightarrow> int \<Rightarrow> int \<times> int" where
  "log_of conf lg st l =
     (case map_of (glo_blk_id2start_end lg) (st * int (ecK conf) + l) of None \<Rightarrow> (0, 0) | Some r \<Rightarrow> r)"

definition stripe_upds :: "config \<Rightarrow> upd_log \<Rightarrow> int \<times> int list \<Rightarrow> upd_block list" where
  "stripe_upds conf lg p = map (\<lambda>l. range_upd conf l (log_of conf lg (fst p) l)) (snd p)"

definition flip_range :: "config \<Rightarrow> string \<Rightarrow> int \<Rightarrow> int \<times> int \<Rightarrow> int \<times> int" where
  "flip_range conf policy l r =
     (if policy = ''crd_flip'' \<and> l smod 2 = 1 then (blocksize conf - snd r, blocksize conf - fst r) else r)"

definition stripe_upds_flip :: "config \<Rightarrow> string \<Rightarrow> upd_log \<Rightarrow> int \<times> int list \<Rightarrow> upd_block list" where
  "stripe_upds_flip conf policy lg p =
     map (\<lambda>l. range_upd conf l (flip_range conf policy l (log_of conf lg (fst p) l))) (snd p)"

text \<open>The longest command, that of the collector with all data blocks of a stripe, fits its array.\<close>

definition commands_fit :: "config \<Rightarrow> bool" where
  "commands_fit conf \<longleftrightarrow> 4 * (4 + ecK conf * (4 + ecM conf) + ecM conf) \<le> COMMAND_MAX_LENGTH"

lemma range_upds_ok:
  assumes "stripe_ok conf M" and "commands_fit conf" and "ls \<noteq> []" and "distinct ls"
    and "\<forall>l \<in> set ls. 0 \<le> l \<and> l < int (ecK conf)"
    and "\<forall>l \<in> set ls. 0 \<le> fst (r l) \<and> fst (r l) \<le> snd (r l) \<and> snd (r l) \<le> blocksize conf"
  shows "updates_ok conf (map (\<lambda>l. range_upd conf l (r l)) ls)"
proof -
  have fit: "a \<le> b \<Longrightarrow> 4 * (4 + b + m) \<le> C \<Longrightarrow> 4 * (4 + a + m) \<le> C" for a b m C :: nat
    by simp
  have sub: "set ls \<subseteq> {0..<int (ecK conf)}"
    using assms(5) by auto
  have "length ls \<le> ecK conf"
    using card_mono[OF _ sub] distinct_card[OF assms(4)] by simp
  then have "length ls * (4 + ecM conf) \<le> ecK conf * (4 + ecM conf)"
    by (rule mult_le_mono1)
  then have "4 * (4 + length ls * (4 + ecM conf) + ecM conf) \<le> COMMAND_MAX_LENGTH"
    using assms(2) unfolding commands_fit_def by (rule fit)
  moreover have "int32 l" if "l \<in> set ls" for l
    using assms(1,5) that by (auto simp: stripe_ok_def)
  ultimately show ?thesis
    using assms(3-6) by (auto simp: updates_ok_def range_upd_def blk_in_def o_def)
qed

lemma log_stripe:
  assumes "log_ok conf lg" and "p \<in> set (stripe_id2loc_blk_id lg)" and "l \<in> set (snd p)"
  shows "0 \<le> l" "l < int (ecK conf)"
    "map_of (glo_blk_id2start_end lg) (fst p * int (ecK conf) + l) = Some (log_of conf lg (fst p) l)"
    "0 \<le> fst (log_of conf lg (fst p) l)" "fst (log_of conf lg (fst p) l) \<le> snd (log_of conf lg (fst p) l)"
    "snd (log_of conf lg (fst p) l) \<le> blocksize conf"
proof -
  note L = log_okD[OF assms(1)]
  obtain st v where p: "p = (st, v)" by (cases p)
  have "map_of (stripe_id2loc_blk_id lg) st = Some v"
    using L(1) assms(2) p by (intro map_of_is_SomeI) (simp_all add: om_ok_def strict_sorted_iff)
  from L(5)[OF this, of l] assms(3) p
  have l: "0 \<le> l" "l < int (ecK conf)" "map_of (glo_blk_id2start_end lg) (st * int (ecK conf) + l) \<noteq> None"
    by auto
  then show "0 \<le> l" "l < int (ecK conf)" by blast+
  from l(3) show *: "map_of (glo_blk_id2start_end lg) (fst p * int (ecK conf) + l) = Some (log_of conf lg (fst p) l)"
    by (auto simp: p log_of_def)
  show "0 \<le> fst (log_of conf lg (fst p) l)" "fst (log_of conf lg (fst p) l) \<le> snd (log_of conf lg (fst p) l)"
    "snd (log_of conf lg (fst p) l) \<le> blocksize conf"
    using L(3)[of "fst p * int (ecK conf) + l" "fst (log_of conf lg (fst p) l)" "snd (log_of conf lg (fst p) l)"] *
    by simp_all
qed

lemma log_stripe_locs:
  assumes "log_ok conf lg" and "p \<in> set (stripe_id2loc_blk_id lg)"
  shows "snd p \<noteq> []" "distinct (snd p)"
proof -
  note L = log_okD[OF assms(1)]
  have "map_of (stripe_id2loc_blk_id lg) (fst p) = Some (snd p)"
    using L(1) assms(2) by (intro map_of_is_SomeI) (simp_all add: om_ok_def strict_sorted_iff)
  from L(4)[OF this] show "snd p \<noteq> []" "distinct (snd p)" by blast+
qed

lemma stripe_upds_ok:
  assumes "stripe_ok conf M" and "commands_fit conf" and "log_ok conf lg" and "p \<in> set (stripe_id2loc_blk_id lg)"
  shows "updates_ok conf (stripe_upds conf lg p)" "updates_ok conf (stripe_upds_flip conf policy lg p)"
    "mapE (log_upd_block conf lg (fst p)) (snd p) = Inr (stripe_upds conf lg p)"
    "mapE (log_upd_block_flip conf policy lg (fst p)) (snd p) = Inr (stripe_upds_flip conf policy lg p)"
proof -
  note L = log_stripe[OF assms(3,4)]
  show "updates_ok conf (stripe_upds conf lg p)"
    unfolding stripe_upds_def using L log_stripe_locs[OF assms(3,4)]
    by (intro range_upds_ok[OF assms(1,2)]) auto
  show "updates_ok conf (stripe_upds_flip conf policy lg p)"
    unfolding stripe_upds_flip_def using L log_stripe_locs[OF assms(3,4)]
    by (intro range_upds_ok[OF assms(1,2)]) (auto simp: flip_range_def)
  have at: "atE (helpersIPs conf) l = Inr (helpersIPs conf ! nat l)" if "l \<in> set (snd p)" for l
    using L(1,2)[OF that] assms(1) by (auto simp: stripe_ok_def)
  have rng: "log_range conf lg (fst p) l = Inr (log_of conf lg (fst p) l)" if "l \<in> set (snd p)" for l
    using L(3)[OF that] by (simp add: log_range_def om_at_in)
  show "mapE (log_upd_block conf lg (fst p)) (snd p) = Inr (stripe_upds conf lg p)"
    unfolding stripe_upds_def
    by (rule mapE_Inr_map) (simp add: log_upd_block_def at rng range_upd_def split_beta)
  show "mapE (log_upd_block_flip conf policy lg (fst p)) (snd p) = Inr (stripe_upds_flip conf policy lg p)"
    unfolding stripe_upds_flip_def
    by (rule mapE_Inr_map) (simp add: log_upd_block_flip_def at rng range_upd_def flip_range_def split_beta Let_def)
qed

section \<open>Rounds of CRD updates\<close>

lemma crd_round:
  assumes "gf_complete G" and "io_ok E" and "stripe_ok conf M" and "updates_ok conf v"
    and "quiescent conf w" and "holds conf w blk" and "runs_to_end G E ptr conf nodes"
  shows "\<exists>w2. bindE (up_dispatch conf M rnd ''crd'' v (n, w)) (await_acks conf nodes) = Inr (Suc n, w2) \<and>
    quiescent conf w2 \<and> holds conf w2 (final_blk G conf M (rnd n mod ecM conf) v blk)"
proof -
  let ?c = "rnd n mod ecM conf"
  note run = crd_runI[OF assms(1-4,6), of "rnd n"]
  obtain w1 where w1: "CrdUpdate conf M (rnd n) v w = Inr w1"
    using CrdUpdate_eq[OF assms(3,4)] by blast
  have nodes: "(node_step G E ptr conf)\<^sup>*\<^sup>* w1 (nodes w1)" "\<nexists>w'. node_step G E ptr conf (nodes w1) w'"
    using assms(7) by (simp_all add: runs_to_end_def)
  obtain ds where ds: "set ds = set v" "crd_state G conf M ?c v blk ds True ({..<ecM conf} - {?c}) (nodes w1)"
    using crd_end[OF assms(1-6) w1 nodes] .
  obtain w2 where w2: "recvAck conf (nodes w1) = Inr (1, w2)" "w_files w2 = w_files (nodes w1)" "quiescent conf w2"
    using crd_end_acks[OF run ds(2,1)] .
  have "holds conf w2 (final_blk G conf M ?c v blk)"
    using crd_end_holds[OF run ds] w2(2) by (simp add: holds_def)
  then show ?thesis
    using w1 w2 by (simp add: up_dispatch_def await_acks_def)
qed

text \<open>The blocks after a sequence of updates; the \<open>n\<close>-th call of \<open>rand()\<close> picks the collector.\<close>

fun crd_blks ::
    "gf_ops \<Rightarrow> config \<Rightarrow> byte list \<Rightarrow> (nat \<Rightarrow> nat) \<Rightarrow> upd_block list list \<Rightarrow> nat \<Rightarrow> (nat \<Rightarrow> byte list) \<Rightarrow> nat \<Rightarrow> byte list" where
  "crd_blks G conf M rnd [] n blk = blk"
| "crd_blks G conf M rnd (v # vs) n blk =
     crd_blks G conf M rnd vs (Suc n) (final_blk G conf M (rnd n mod ecM conf) v blk)"

lemma crd_rounds:
  assumes "gf_complete G" and "io_ok E" and "stripe_ok conf M" and "\<forall>v \<in> set vs. updates_ok conf v"
    and "quiescent conf w" and "holds conf w blk" and "runs_to_end G E ptr conf nodes"
  shows "\<exists>w'. foldE (\<lambda>v st. bindE (up_dispatch conf M rnd ''crd'' v st) (await_acks conf nodes)) vs (n, w) =
      Inr (n + length vs, w') \<and> quiescent conf w' \<and> holds conf w' (crd_blks G conf M rnd vs n blk)"
  using assms(4-6)
proof (induction vs arbitrary: n w blk)
  case (Cons v vs)
  obtain w1 where w1: "bindE (up_dispatch conf M rnd ''crd'' v (n, w)) (await_acks conf nodes) = Inr (Suc n, w1)"
      "quiescent conf w1" "holds conf w1 (final_blk G conf M (rnd n mod ecM conf) v blk)"
    using crd_round[OF assms(1-3) _ Cons.prems(2,3) assms(7)] Cons.prems(1) by fastforce
  obtain w' where "foldE (\<lambda>v st. bindE (up_dispatch conf M rnd ''crd'' v st) (await_acks conf nodes)) vs (Suc n, w1) =
      Inr (Suc n + length vs, w')" "quiescent conf w'"
      "holds conf w' (crd_blks G conf M rnd vs (Suc n) (final_blk G conf M (rnd n mod ecM conf) v blk))"
    using Cons.IH[OF _ w1(2,3)] Cons.prems(1) by fastforce
  with w1(1) show ?case by simp
qed simp

text \<open>What a sequence of updates makes of data block \<open>k\<close>.\<close>

definition upd_data :: "nat \<Rightarrow> upd_block list \<Rightarrow> byte list \<Rightarrow> byte list" where
  "upd_data k v b = (case find (\<lambda>u. ub_id u = int k) v of None \<Rightarrow> b | Some u \<Rightarrow> upd_file u b)"

lemma crd_blks_data: "k < ecK conf \<Longrightarrow> crd_blks G conf M rnd vs n blk k = fold (upd_data k) vs (blk k)"
  by (induction vs arbitrary: n blk) (simp_all add: final_blk_def data_now_def upd_data_def)

lemma crd_blks_parity:
  assumes "gf_complete G" and "io_ok E" and "stripe_ok conf M" and "\<forall>v \<in> set vs. updates_ok conf v"
    and "\<forall>k < ecN conf. length (blk k) = nat (blk_bytes conf)" and "\<forall>i < ecM conf. parity_matches G conf M blk i"
    and "\<forall>v \<in> set vs. \<forall>N \<in> set (groups v). crd_extent N = sub_set_extent N"
  shows "\<forall>i < ecM conf. parity_matches G conf M (crd_blks G conf M rnd vs n blk) i"
  using assms(4-7)
proof (induction vs arbitrary: n blk)
  case (Cons v vs)
  let ?c = "rnd n mod ecM conf"
  have run: "crd_run G E conf M ?c v blk"
    using assms(1-3) Cons.prems(1,2) by (auto simp: crd_run_def stripe_ok_def)
  have "\<forall>k < ecN conf. length (final_blk G conf M ?c v blk k) = nat (blk_bytes conf)"
    using length_final_blk[OF run] by blast
  moreover have "\<forall>i < ecM conf. parity_matches G conf M (final_blk G conf M ?c v blk) i"
    using final_parity_matches[OF run] Cons.prems(3,4) by simp
  ultimately show ?case
    using Cons.IH Cons.prems(1,4) by simp
qed simp

section \<open>Flushing a log\<close>

lemma trigger_update_stripes:
  assumes "stripe_ok conf M" and "commands_fit conf" and "log_ok conf lg"
  shows "trigger_update conf M rnd nodes lg st =
    foldE (\<lambda>v st. bindE (up_dispatch conf M rnd (UPPolicy conf) v st) (await_acks conf nodes))
      (map (stripe_upds conf lg) (stripe_id2loc_blk_id lg)) st"
proof -
  have "foldE (\<lambda>(stripe_id, locs) st.
       bindE (mapE (log_upd_block conf lg stripe_id) locs) (\<lambda>v.
       bindE (up_dispatch conf M rnd (UPPolicy conf) v st) (await_acks conf nodes))) ps st =
    foldE (\<lambda>v st. bindE (up_dispatch conf M rnd (UPPolicy conf) v st) (await_acks conf nodes))
      (map (stripe_upds conf lg) ps) st"
    if "set ps \<subseteq> set (stripe_id2loc_blk_id lg)" for ps
    using that
  proof (induction ps arbitrary: st)
    case (Cons p ps)
    have "mapE (log_upd_block conf lg (fst p)) (snd p) = Inr (stripe_upds conf lg p)"
      using stripe_upds_ok(3)[OF assms] Cons.prems by simp
    then show ?case
      using Cons by (cases p) (simp add: bindE_def split: sum.split)
  qed simp
  then show ?thesis
    by (simp add: trigger_update_def)
qed

text \<open>
  C1. Flushing the update log with the policy \<open>crd\<close> works for every log that satisfies its
  invariant, whatever collectors are drawn and in whatever order the nodes run: no call fails or
  waits for ever, the queues are empty again afterwards, and every data block holds the result of the
  updates of all stripes, one after the other.
\<close>

theorem crd_flush_correct:
  assumes "gf_complete G" and "io_ok E" and "stripe_ok conf M" and "commands_fit conf" and "log_ok conf lg"
    and "UPPolicy conf = ''crd''" and "quiescent conf w" and "holds conf w blk" and "runs_to_end G E ptr conf nodes"
  shows "\<exists>w' blk'. trigger_update conf M rnd nodes lg (n, w) = Inr (n + length (stripe_id2loc_blk_id lg), w') \<and>
    quiescent conf w' \<and> holds conf w' blk' \<and>
    (\<forall>k < ecK conf. blk' k = fold (upd_data k) (map (stripe_upds conf lg) (stripe_id2loc_blk_id lg)) (blk k))"
proof -
  let ?vs = "map (stripe_upds conf lg) (stripe_id2loc_blk_id lg)"
  have ok: "\<forall>v \<in> set ?vs. updates_ok conf v"
    using stripe_upds_ok(1)[OF assms(3-5)] by simp
  show ?thesis
    using crd_rounds[OF assms(1-3) ok assms(7-9), of rnd n] crd_blks_data
    unfolding trigger_update_stripes[OF assms(3-5)] assms(6) by force
qed

text \<open>
  C5. If in addition every parity block matched the data and the range announced for each
  sub-set of each stripe is its merged range, every parity block matches the data after the flush.
\<close>

theorem crd_flush_parity:
  assumes "gf_complete G" and "io_ok E" and "stripe_ok conf M" and "commands_fit conf" and "log_ok conf lg"
    and "UPPolicy conf = ''crd''" and "quiescent conf w" and "holds conf w blk" and "runs_to_end G E ptr conf nodes"
    and "\<forall>i < ecM conf. parity_matches G conf M blk i"
    and "\<forall>p \<in> set (stripe_id2loc_blk_id lg). \<forall>(_, N) \<in> set (get_upd_solu_crd (stripe_upds conf lg p)).
      crd_extent N = sub_set_extent N"
  shows "\<exists>w' blk'. trigger_update conf M rnd nodes lg (n, w) = Inr (n + length (stripe_id2loc_blk_id lg), w') \<and>
    holds conf w' blk' \<and> (\<forall>i < ecM conf. parity_matches G conf M blk' i)"
proof -
  let ?vs = "map (stripe_upds conf lg) (stripe_id2loc_blk_id lg)"
  have ok: "\<forall>v \<in> set ?vs. updates_ok conf v" "\<forall>v \<in> set ?vs. \<forall>N \<in> set (groups v). crd_extent N = sub_set_extent N"
    using stripe_upds_ok(1)[OF assms(3-5)] assms(11) plan_groups by (simp, simp, fast)
  have "\<forall>k < ecN conf. length (blk k) = nat (blk_bytes conf)"
    using assms(8) by (simp add: holds_def)
  from crd_blks_parity[OF assms(1-3) ok(1) this assms(10) ok(2), of rnd n] show ?thesis
    using crd_rounds[OF assms(1-3) ok(1) assms(7-9), of rnd n]
    unfolding trigger_update_stripes[OF assms(3-5)] assms(6) by force
qed

text \<open>A sample log with two stripes, for the witnesses.\<close>

definition sample_log :: upd_log where
  "sample_log = \<lparr>stripe_id2loc_blk_id = [(0, [0, 1]), (3, [1])],
     glo_blk_id2start_end = [(0, (0, 2)), (1, (0, 4)), (7, (1, 3))]\<rparr>"

lemma sample_log_ok: "log_ok sample_conf sample_log"
  by (auto simp: log_ok_def sample_log_def sample_conf_def om_ok_def split: if_splits)

lemma sample_fits: "commands_fit sample_conf" "UPPolicy sample_conf = ''crd''"
  by (simp_all add: commands_fit_def sample_conf_def COMMAND_MAX_LENGTH_def)

lemmas sample_flush = gf256.gf_complete_axioms sample_ok(1,2) sample_fits(1) sample_log_ok sample_fits(2) sample_ok(5,6)
  run_all_ends[where ptr = "[]"]

theorem crd_flush_correct_witness:
  "\<exists>w' blk'. trigger_update sample_conf sample_mat id (run_all gf256 sample_env [] sample_conf) sample_log
      (0, sample_world) = Inr (2, w') \<and> holds sample_conf w' blk' \<and>
    blk' 1 = upd_file (UpdBlock 1 2 1 2) (upd_file (UpdBlock 1 2 0 4) (sample_blk 1))"
proof -
  obtain w' blk' where "trigger_update sample_conf sample_mat id (run_all gf256 sample_env [] sample_conf) sample_log
      (0, sample_world) = Inr (0 + length (stripe_id2loc_blk_id sample_log), w')" "holds sample_conf w' blk'"
    "\<forall>k < ecK sample_conf. blk' k =
      fold (upd_data k) (map (stripe_upds sample_conf sample_log) (stripe_id2loc_blk_id sample_log)) (sample_blk k)"
    using crd_flush_correct[OF sample_flush, where rnd = id and n = 0] by blast
  moreover have "1 < ecK sample_conf" "length (stripe_id2loc_blk_id sample_log) = 2"
    by (simp_all add: sample_conf_def sample_log_def)
  moreover have "fold (upd_data 1) (map (stripe_upds sample_conf sample_log) (stripe_id2loc_blk_id sample_log)) b =
      upd_file (UpdBlock 1 2 1 2) (upd_file (UpdBlock 1 2 0 4) b)" for b
    by (simp add: sample_log_def sample_conf_def stripe_upds_def range_upd_def log_of_def upd_data_def)
  ultimately show ?thesis by auto
qed

theorem crd_flush_parity_witness:
  "\<exists>w' blk'. trigger_update sample_conf sample_mat id (run_all gf256 sample_env [] sample_conf) sample_log
      (0, sample_world) = Inr (2, w') \<and> holds sample_conf w' blk' \<and> parity_matches gf256 sample_conf sample_mat blk' 1"
proof -
  have "\<forall>p \<in> set (stripe_id2loc_blk_id sample_log). \<forall>(_, N) \<in> set (get_upd_solu_crd (stripe_upds sample_conf sample_log p)).
      crd_extent N = sub_set_extent N"
    by (simp add: sample_log_def sample_conf_def stripe_upds_def range_upd_def log_of_def get_upd_solu_crd_def
        grow.simps is_intersected_def crd_extent_def sub_set_extent_def hull_def INT_MAX_def)
  then obtain w' blk' where "trigger_update sample_conf sample_mat id (run_all gf256 sample_env [] sample_conf) sample_log
      (0, sample_world) = Inr (0 + length (stripe_id2loc_blk_id sample_log), w')" "holds sample_conf w' blk'"
      "\<forall>i < ecM sample_conf. parity_matches gf256 sample_conf sample_mat blk' i"
    using crd_flush_parity[OF sample_flush, where rnd = id and n = 0] sample_parity by blast
  moreover have "1 < ecM sample_conf" "length (stripe_id2loc_blk_id sample_log) = 2"
    by (simp_all add: sample_conf_def sample_log_def)
  ultimately show ?thesis by auto
qed

section \<open>The request from UpdateReqHandler to CmdDistributor\<close>

definition blk_ints :: "upd_block \<Rightarrow> int list" where
  "blk_ints b = [ub_id b, ub_offset_add b, ub_upd_size b]"

definition stripe_ints :: "upd_block list \<Rightarrow> int list" where
  "stripe_ints v = int (length v) # concat (map blk_ints v)"

lemma length_blk_ints [simp]: "length (concat (map blk_ints v)) = 3 * length v"
  by (induction v) (simp_all add: blk_ints_def)

lemma nth_blk_ints:
  "i < length v \<Longrightarrow> j < 3 \<Longrightarrow> concat (map blk_ints v) ! (3 * i + j) = blk_ints (v ! i) ! j"
proof (induction v arbitrary: i)
  case (Cons b v)
  then show ?case
    by (cases i) (auto simp: nth_append blk_ints_def less_Suc_eq numeral_3_eq_3)
qed simp

lemma updates_int32:
  assumes "stripe_ok conf M" and "updates_ok conf v"
  shows "list_all int32 (concat (map blk_ints v))" "int32 (int (length v))"
proof -
  have "int32 (ub_id b) \<and> int32 (ub_offset_add b) \<and> int32 (ub_upd_size b)" if "b \<in> set v" for b
    using assms that by (auto simp: updates_ok_def stripe_ok_def blk_in_def)
  then show "list_all int32 (concat (map blk_ints v))"
    by (auto simp: list_all_iff blk_ints_def)
  show "int32 (int (length v))"
    using updates_ok_length[OF assms(2)] by simp
qed

lemma request_updates_eq:
  assumes "stripe_ok conf M" and "updates_ok conf v" and "length old = COMMAND_MAX_LENGTH"
  shows "request_updates conf old (put_ints pre @ put_ints (stripe_ints v) @ post) (4 * int (length pre)) =
    Inr (4 * int (length pre) + 4 + 12 * int (length v), v)"
proof -
  let ?fs = "concat (map blk_ints v)" and ?n = "length v"
  let ?msg = "put_ints pre @ put_ints (stripe_ints v) @ post"
  note I = updates_int32[OF assms(1,2)]
  have fit: "4 * (4 + l * (4 + m) + m) \<le> 1024 \<Longrightarrow> 12 * l \<le> 1024" for l m :: nat
    by (simp add: add_mult_distrib2)
  have n: "12 * ?n \<le> COMMAND_MAX_LENGTH"
    using fit[OF command_fits[OF assms(2)]] by (simp add: COMMAND_MAX_LENGTH_def)
  have num: "get_int ?msg (4 * int (length pre)) = Inr (int ?n)"
    using get_int_append[of "4 * int (length pre)" "put_ints pre" "int ?n" "put_ints ?fs @ post"] I(2)
    by (simp add: stripe_ints_def)
  have cp: "memcpy_from ?msg (4 * int (length pre) + 4) (12 * int ?n) = Inr (put_ints ?fs)"
    by (simp add: memcpy_from_def stripe_ints_def nat_add_distrib nat_mult_distrib)
  have to: "memcpy_to old 0 (put_ints ?fs) = Inr (put_ints ?fs @ drop (12 * ?n) old)"
    using n assms(3) by (simp add: memcpy_to_def overwrite_def)
  have "request_upd_block conf (put_ints ?fs @ drop (12 * ?n) old) i = Inr (v ! i)" if i: "i < ?n" for i
  proof -
    have g: "get_int (put_ints ?fs @ drop (12 * ?n) old) (12 * int i + 4 * int j) = Inr (blk_ints (v ! i) ! j)"
      if "j < 3" for j
      using get_int_cmd[OF _ _ I(1), of "12 * int i + 4 * int j" "3 * i + j" "drop (12 * ?n) old"] i that
      by (simp add: nth_blk_ints)
    have "v ! i \<in> set v" using i by simp
    from data_ip[OF assms(1,2) this]
    have "atE (helpersIPs conf) (ub_id (v ! i)) = Inr (ub_ip (v ! i))"
      by (metis atE_nat)
    then show ?thesis
      using g[of 0] g[of 1] g[of 2] by (simp add: request_upd_block_def blk_ints_def)
  qed
  then have "mapE (request_upd_block conf (put_ints ?fs @ drop (12 * ?n) old)) [0..<?n] = Inr (map ((!) v) [0..<?n])"
    by (intro mapE_Inr_map) simp
  then show ?thesis
    unfolding request_updates_def by (simp only: num bindE_Inr cp to nat_int map_nth)
qed

lemma distribute_stripes_eq:
  assumes "stripe_ok conf M" and "\<forall>v \<in> set vs. updates_ok conf v" and "length old = COMMAND_MAX_LENGTH"
  shows "distribute_stripes conf M rnd nodes old (put_ints pre @ put_ints (concat (map stripe_ints vs)))
      (length vs) (4 * int (length pre)) st =
    foldE (\<lambda>v st. bindE (up_dispatch conf M rnd (UPPolicy conf) v st) (await_acks conf nodes)) vs st"
  using assms(2)
proof (induction vs arbitrary: pre st)
  case (Cons v vs)
  have v: "updates_ok conf v" using Cons.prems by simp
  let ?fs = "stripe_ints v"
  have cur: "4 * int (length pre) + 4 + 12 * int (length v) = 4 * int (length (pre @ ?fs))"
    by (simp add: stripe_ints_def)
  have IH: "distribute_stripes conf M rnd nodes old (put_ints pre @ put_ints ?fs @ put_ints (concat (map stripe_ints vs)))
      (length vs) (4 * int (length (pre @ ?fs))) =
    foldE (\<lambda>v st. bindE (up_dispatch conf M rnd (UPPolicy conf) v st) (await_acks conf nodes)) vs"
    using Cons.IH[of "pre @ ?fs"] Cons.prems by (simp add: fun_eq_iff)
  have upd: "request_updates conf old (put_ints pre @ put_ints ?fs @ put_ints (concat (map stripe_ints vs)))
      (4 * int (length pre)) = Inr (4 * int (length (pre @ ?fs)), v)"
    unfolding cur[symmetric] by (rule request_updates_eq[OF assms(1) v assms(3)])
  show ?case
    by (simp only: list.map concat.simps put_ints_append list.size add_Suc_right add_0_right
        distribute_stripes.simps upd IH bindE_Inr prod.case foldE.simps bindE_assoc)
qed simp

lemma request_of_log_eq:
  assumes "log_ok conf lg"
  shows "request_of_log conf lg = Inr (int (length (stripe_id2loc_blk_id lg)) #
    concat (map (\<lambda>p. stripe_ints (stripe_upds conf lg p)) (stripe_id2loc_blk_id lg)))"
proof -
  have "request_stripe conf lg p = Inr (stripe_ints (stripe_upds conf lg p))" if p: "p \<in> set (stripe_id2loc_blk_id lg)" for p
  proof -
    have "mapE (request_blk conf lg (fst p)) (snd p) =
        Inr (map (\<lambda>l. blk_ints (range_upd conf l (log_of conf lg (fst p) l))) (snd p))"
      using log_stripe(3)[OF assms p]
      by (intro mapE_Inr_map) (simp add: request_blk_def log_range_def om_at_in blk_ints_def range_upd_def split_beta)
    then show ?thesis
      by (simp add: request_stripe_def stripe_ints_def stripe_upds_def split_beta o_def)
  qed
  then show ?thesis
    by (simp add: request_of_log_def mapE_Inr_map)
qed

text \<open>The size of a request: every stripe takes a count and three numbers for each of its blocks.\<close>

lemma request_size:
  assumes "log_ok conf lg"
    and "length (stripe_id2loc_blk_id lg) * (4 + 12 * ecK conf) + 4 \<le> C"
  shows "4 * length (int (length (stripe_id2loc_blk_id lg)) # concat (map (stripe_ints \<circ> stripe_upds conf lg) (stripe_id2loc_blk_id lg))) \<le> C"
proof -
  let ?ps = "stripe_id2loc_blk_id lg"
  have "length (stripe_ints (stripe_upds conf lg p)) \<le> 1 + 3 * ecK conf" if p: "p \<in> set ?ps" for p
  proof -
    have sub: "set (snd p) \<subseteq> {0..<int (ecK conf)}"
      using log_stripe(1,2)[OF assms(1) p] by auto
    have "length (snd p) \<le> ecK conf"
      using card_mono[OF _ sub] distinct_card[OF log_stripe_locs(2)[OF assms(1) p]] by simp
    moreover have "length (stripe_upds conf lg p) = length (snd p)" by (simp add: stripe_upds_def)
    ultimately show ?thesis by (simp add: stripe_ints_def)
  qed
  then have le: "length (concat (map (stripe_ints \<circ> stripe_upds conf lg) ?ps)) \<le> length ?ps * (1 + 3 * ecK conf)"
    using length_concat_le[of ?ps "stripe_ints \<circ> stripe_upds conf lg" "1 + 3 * ecK conf"] by simp
  have "a \<le> l * (1 + 3 * k) \<Longrightarrow> l * (4 + 12 * k) + 4 \<le> C \<Longrightarrow> 4 * Suc a \<le> C" for a l k C :: nat
    by (simp add: algebra_simps)
  from this[OF le assms(2)] show ?thesis by simp
qed

text \<open>
  C18. The two threads agree: for a log that satisfies its invariant, the request that
  \<open>UpdateReqHandler\<close> encodes and pushes is taken apart by \<open>CmdDistributor\<close> into the same
  updates, so that both together act as a direct call of \<open>trigger_update\<close>.
\<close>

theorem request_round_trip:
  assumes "stripe_ok conf M" and "commands_fit conf" and "log_ok conf lg"
    and "w_queues w (coordinatorIP conf) ''upd_requests'' = []" and "length old = COMMAND_MAX_LENGTH"
    and "length (stripe_id2loc_blk_id lg) * (4 + 12 * ecK conf) + 4 \<le> COMMAND_MAX_LENGTH * COMMAND_MAX_LENGTH"
  shows "\<exists>xs w1. request_of_log conf lg = Inr xs \<and> push_request conf xs w = Inr w1 \<and>
    CmdDistributor conf M rnd nodes old (n, w1) = trigger_update conf M rnd nodes lg (n, w)"
proof -
  let ?ps = "stripe_id2loc_blk_id lg"
  let ?vs = "map (stripe_upds conf lg) ?ps"
  let ?xs = "int (length ?ps) # concat (map stripe_ints ?vs)"
  let ?w1 = "rpush (coordinatorIP conf) ''upd_requests'' (put_ints ?xs) w"
  have ok: "\<forall>v \<in> set ?vs. updates_ok conf v"
    using stripe_upds_ok(1)[OF assms(1-3)] by simp
  have xs: "request_of_log conf lg = Inr ?xs"
    using request_of_log_eq[OF assms(3)] by (simp add: o_def)
  have size: "4 * length ?xs \<le> COMMAND_MAX_LENGTH * COMMAND_MAX_LENGTH"
    using request_size[OF assms(3,6)] by (simp add: o_def)
  then have push: "push_request conf ?xs w = Inr ?w1"
    by (simp only: push_request_def guardE_True bindE_Inr simp_thms)
  have stripes: "int32 (int (length ?ps))"
  proof -
    have "l * (4 + 12 * k) + 4 \<le> 1024 * 1024 \<Longrightarrow> l < 2147483648" for l k :: nat
      by (simp add: add_mult_distrib2)
    from this[of "length ?ps" "ecK conf"] show ?thesis
      using assms(6) by (simp add: COMMAND_MAX_LENGTH_def)
  qed
  have pop: "blpop (coordinatorIP conf) ''upd_requests'' ?w1 = Inr (put_ints ?xs, w)"
    using assms(4) by (simp add: blpop_def rpush_def fun_upd_idem)
  have num: "get_int (put_ints ?xs) 0 = Inr (int (length ?ps))"
    using get_int_append[of 0 "[]" "int (length ?ps)" "put_ints (concat (map stripe_ints ?vs))"] stripes by simp
  have "CmdDistributor conf M rnd nodes old (n, ?w1) = distribute_stripes conf M rnd nodes old (put_ints ?xs) (length ?vs) 4 (n, w)"
    by (simp only: CmdDistributor_def prod.case pop num bindE_Inr nat_int length_map)
  also have "\<dots> = trigger_update conf M rnd nodes lg (n, w)"
    using distribute_stripes_eq[OF assms(1) ok assms(5), of rnd nodes "[int (length ?ps)]" "(n, w)"]
    by (simp add: trigger_update_stripes[OF assms(1-3)])
  finally show ?thesis
    using xs push by blast
qed

theorem request_round_trip_witness:
  "\<exists>xs w1. request_of_log sample_conf sample_log = Inr xs \<and> push_request sample_conf xs sample_world = Inr w1 \<and>
    CmdDistributor sample_conf sample_mat id id (replicate 1024 0) (0, w1) =
      trigger_update sample_conf sample_mat id id sample_log (0, sample_world)"
proof -
  have "w_queues sample_world (coordinatorIP sample_conf) ''upd_requests'' = []"
    "length (replicate 1024 (0 :: byte)) = COMMAND_MAX_LENGTH"
    "length (stripe_id2loc_blk_id sample_log) * (4 + 12 * ecK sample_conf) + 4 \<le> COMMAND_MAX_LENGTH * COMMAND_MAX_LENGTH"
    by (simp_all add: sample_world_def sample_log_def sample_conf_def COMMAND_MAX_LENGTH_def)
  from request_round_trip[OF sample_ok(2) sample_fits(1) sample_log_ok this] show ?thesis
    by blast
qed

section \<open>Replaying a trace\<close>

text \<open>
  C3. Replaying a whole trace with the policy \<open>crd\<close> never fails and never waits for ever: for
  a trace whose lines are well-formed requests within the range of block numbers,
  \<open>single_doProcess\<close> returns, whatever the random numbers and the order of the nodes, with empty
  queues and all blocks in place.
\<close>

theorem single_doProcess_trace:
  assumes "gf_complete G" and "io_ok E" and "stripe_ok conf M" and "commands_fit conf"
    and "UPPolicy conf = ''crd''" and "UPWay conf = ''trace''" and "0 < log_size conf"
    and "runs_to_end G E ptr conf nodes" and "files (trace_path conf ''wdev_2.csv'') = Some lines"
    and "\<forall>line \<in> set lines. good_line conf line"
    and "quiescent conf w" and "holds conf w blk"
  shows "\<exists>total n' w' blk'. single_doProcess conf M rnd nodes files req0 (n, w) = Inr (total, (n', w')) \<and>
    quiescent conf w' \<and> holds conf w' blk'"
proof -
  define I where "I = (\<lambda>st :: coord. quiescent conf (snd st) \<and> (\<exists>blk. holds conf (snd st) blk))"
  have flush: "\<exists>st'. trigger_update conf M rnd nodes lg st = Inr st' \<and> I st'" if lg: "log_ok conf lg" and st: "I st" for lg st
  proof -
    obtain blk where "quiescent conf (snd st)" "holds conf (snd st) blk"
      using st unfolding I_def by blast
    then show ?thesis
      using crd_flush_correct[OF assms(1-4) lg assms(5) _ _ assms(8), of "snd st" blk rnd "fst st"]
      unfolding I_def by force
  qed
  have pos: "0 < ecK conf" "0 < blocksize conf"
    using assms(3) by (simp_all add: stripe_ok_def)
  let ?ts = "\<lparr>ts_count = 0, ts_request = req0, ts_log = empty_log, ts_stripes = 0, ts_coord = (n, w)\<rparr>"
  have "\<exists>ts'. trace_loop conf (trigger_update conf M rnd nodes) 100000 lines ?ts = Inr ts' \<and>
      log_ok conf (ts_log ts') \<and> \<not> log_full conf (ts_log ts') \<and> I (ts_coord ts')"
  proof (rule trace_loop_inv[OF pos assms(7)])
    show "\<exists>st'. trigger_update conf M rnd nodes lg st = Inr st' \<and> I st'" if "log_ok conf lg" "I st" for lg st
      using that by (rule flush)
    show "I (ts_coord ?ts)"
      using assms(11,12) by (auto simp: I_def)
  qed (use assms(10) log_ok_empty log_full_empty[OF assms(7)] in simp_all)
  then obtain ts' where ts': "trace_loop conf (trigger_update conf M rnd nodes) 100000 lines ?ts = Inr ts'" "I (ts_coord ts')"
    by blast
  have "single_doProcess conf M rnd nodes files req0 (n, w) = Inr (ts_stripes ts', ts_coord ts')"
    using assms(6,9) ts'(1) by (simp add: single_doProcess_def open_trace_def)
  then show ?thesis
    using ts'(2) by (cases "ts_coord ts'") (auto simp: I_def)
qed

theorem single_doProcess_trace_witness:
  "\<exists>total n' w' blk'. single_doProcess sample_conf sample_mat id (run_all gf256 sample_env [] sample_conf)
      (\<lambda>_. Some [ali_line ''104'' 0 8192 ''9'', ali_line ''104'' 4096 4096 ''10'']) (0, 0) (0, sample_world) =
      Inr (total, (n', w')) \<and> holds sample_conf w' blk'"
proof -
  have "good_line sample_conf (ali_line ''104'' 0 8192 ''9'')" "good_line sample_conf (ali_line ''104'' 4096 4096 ''10'')"
    by (auto intro!: good_ali_line simp: sample_conf_def LLONG_MAX_def INT_MAX_def)
  moreover have "UPWay sample_conf = ''trace''" "0 < log_size sample_conf"
    by (simp_all add: sample_conf_def)
  ultimately show ?thesis
    using single_doProcess_trace[OF gf256.gf_complete_axioms sample_ok(1,2) sample_fits _ _ run_all_ends[where ptr = "[]"]
        _ _ sample_ok(5,6), where files = "\<lambda>_. Some [ali_line ''104'' 0 8192 ''9'', ali_line ''104'' 4096 4096 ''10'']"
          and rnd = id and ?req0.0 = "(0, 0)" and n = 0]
    by force
qed

end
