(* ===== verification/Jerasure_Invert.thy ===== *)
theory Jerasure_Invert
  imports Jerasure
begin

text \<open>
  \<open>jerasure_invert_matrix\<close> of \<open>Util/jerasure.c\<close>: Gauss-Jordan elimination over GF(256) on a
  flat \<open>rows * rows\<close> array, with the row operations mirrored on \<open>inv\<close> (here \<open>imat\<close>). The theory proves that
  a return value of 0 means that \<open>inv\<close> is the inverse, and that every matrix with a left
  inverse gets that return value.
\<close>

section \<open>Row operations\<close>

definition swap_rows :: "nat \<Rightarrow> nat \<Rightarrow> nat \<Rightarrow> byte list \<Rightarrow> byte list" where
  "swap_rows cols r1 r2 m =
     fold (\<lambda>k m. m[r1 * cols + k := m ! (r2 * cols + k), r2 * cols + k := m ! (r1 * cols + k)])
       [0..<cols] m"

definition scale_row :: "gf_ops \<Rightarrow> nat \<Rightarrow> nat \<Rightarrow> byte \<Rightarrow> byte list \<Rightarrow> byte list" where
  "scale_row G cols r c m =
     fold (\<lambda>j m. m[r * cols + j := galois_single_multiply G (m ! (r * cols + j)) c]) [0..<cols] m"

definition xor_row :: "nat \<Rightarrow> nat \<Rightarrow> nat \<Rightarrow> byte list \<Rightarrow> byte list" where
  "xor_row cols dst src m =
     fold (\<lambda>x m. m[dst * cols + x := m ! (dst * cols + x) XOR m ! (src * cols + x)]) [0..<cols] m"

definition addmul_row :: "gf_ops \<Rightarrow> nat \<Rightarrow> nat \<Rightarrow> nat \<Rightarrow> byte \<Rightarrow> byte list \<Rightarrow> byte list" where
  "addmul_row G cols dst src c m =
     fold (\<lambda>x m. m[dst * cols + x :=
         m ! (dst * cols + x) XOR galois_single_multiply G c (m ! (src * cols + x))]) [0..<cols] m"

section \<open>The elimination\<close>

text \<open>\<open>for (j = i+1; j < rows && mat[cols*j+i] == 0; j++) ;\<close>\<close>

function find_pivot :: "nat \<Rightarrow> byte list \<Rightarrow> nat \<Rightarrow> nat \<Rightarrow> nat" where
  "find_pivot n mat i j = (if j < n \<and> mat ! (j * n + i) = 0 then find_pivot n mat i (Suc j) else j)"
  by pat_completeness auto
termination by (relation "measure (\<lambda>(n, mat, i, j). n - j)") auto

declare find_pivot.simps [simp del]

text \<open>Swap a row with a nonzero pivot up, or \<open>None\<close> for \<open>return -1\<close>.\<close>

definition pivot_column :: "nat \<Rightarrow> nat \<Rightarrow> byte list \<times> byte list \<Rightarrow> (byte list \<times> byte list) option" where
  "pivot_column n i st =
     (case st of (mat, imat) \<Rightarrow>
        if mat ! (i * n + i) = 0 then
          (let j = find_pivot n mat i (Suc i)
           in if j = n then None else Some (swap_rows n i j mat, swap_rows n i j imat))
        else Some (mat, imat))"

text \<open>Divide the pivot row by the pivot.\<close>

definition scale_pivot :: "gf_ops \<Rightarrow> nat \<Rightarrow> nat \<Rightarrow> byte list \<times> byte list \<Rightarrow> (byte list \<times> byte list) option"
where
  "scale_pivot G n i st =
     (case st of (mat, imat) \<Rightarrow>
        let tmp = mat ! (i * n + i)
        in if tmp \<noteq> 1
           then map_option (\<lambda>inverse. (scale_row G n i inverse mat, scale_row G n i inverse imat))
                  (galois_single_divide G 1 tmp)
           else Some (mat, imat))"

text \<open>Clear the column below the pivot.\<close>

definition eliminate_row :: "gf_ops \<Rightarrow> nat \<Rightarrow> nat \<Rightarrow> nat \<Rightarrow> byte list \<times> byte list \<Rightarrow> byte list \<times> byte list" where
  "eliminate_row G n i j st =
     (case st of (mat, imat) \<Rightarrow>
        let tmp = mat ! (j * n + i)
        in if tmp = 0 then (mat, imat)
           else if tmp = 1 then (xor_row n j i mat, xor_row n j i imat)
           else (addmul_row G n j i tmp mat, addmul_row G n j i tmp imat))"

fun triangularise ::
    "gf_ops \<Rightarrow> nat \<Rightarrow> nat list \<Rightarrow> byte list \<times> byte list \<Rightarrow> int \<times> byte list \<times> byte list" where
  "triangularise G n [] st = (0, st)"
| "triangularise G n (i # is) st =
     (case Option.bind (pivot_column n i st) (scale_pivot G n i) of
        None \<Rightarrow> (-1, st)
      | Some st' \<Rightarrow> triangularise G n is (fold (eliminate_row G n i) [Suc i..<n] st'))"

text \<open>Clear the columns above the diagonal, from the last one; only \<open>inv\<close> needs whole rows.\<close>

definition back_row :: "gf_ops \<Rightarrow> nat \<Rightarrow> nat \<Rightarrow> nat \<Rightarrow> byte list \<times> byte list \<Rightarrow> byte list \<times> byte list" where
  "back_row G n i j st =
     (case st of (mat, imat) \<Rightarrow>
        let tmp = mat ! (j * n + i)
        in if tmp \<noteq> 0 then (mat[j * n + i := 0], addmul_row G n j i tmp imat) else (mat, imat))"

definition back_substitute :: "gf_ops \<Rightarrow> nat \<Rightarrow> byte list \<times> byte list \<Rightarrow> byte list \<times> byte list" where
  "back_substitute G n st = fold (\<lambda>i. fold (back_row G n i) [0..<i]) (rev [0..<n]) st"

definition identity_matrix :: "nat \<Rightarrow> byte list" where
  "identity_matrix n = concat (map (\<lambda>i. map (\<lambda>j. if i = j then 1 else 0) [0..<n]) [0..<n])"

text \<open>The return value with the final contents of \<open>mat\<close> and \<open>inv\<close>.\<close>

definition jerasure_invert_matrix :: "gf_ops \<Rightarrow> byte list \<Rightarrow> nat \<Rightarrow> int \<times> byte list \<times> byte list" where
  "jerasure_invert_matrix G mat rows =
     (case triangularise G rows [0..<rows] (mat, identity_matrix rows) of
        (r, st) \<Rightarrow> if r = -1 then (-1, st) else (0, back_substitute G rows st))"

section \<open>Entries after a row operation\<close>

abbreviation ent :: "nat \<Rightarrow> byte list \<Rightarrow> nat \<Rightarrow> nat \<Rightarrow> byte" where
  "ent n m i j \<equiv> m ! (i * n + j)"

lemma fold_row:
  assumes len: "length m = n * n" and r: "r < n" and k: "k \<le> n"
    and dep: "\<And>x y v m'. x < n \<Longrightarrow> y < n \<Longrightarrow> x \<noteq> y \<Longrightarrow> g x (m'[r * n + y := v]) = g x m'"
  shows "length (fold (\<lambda>x m. m[r * n + x := g x m]) [0..<k] m) = n * n \<and>
    (\<forall>x < n. k \<le> x \<longrightarrow> g x (fold (\<lambda>x m. m[r * n + x := g x m]) [0..<k] m) = g x m) \<and>
    (\<forall>i < n. \<forall>j < n. ent n (fold (\<lambda>x m. m[r * n + x := g x m]) [0..<k] m) i j =
      (if i = r \<and> j < k then g j m else ent n m i j))"
  using k
proof (induction k)
  case (Suc k)
  let ?F = "\<lambda>k. fold (\<lambda>x m. m[r * n + x := g x m]) [0..<k] m"
  have step: "?F (Suc k) = (?F k)[r * n + k := g k m]"
    using Suc by simp
  have "ent n (?F (Suc k)) i j = (if i = r \<and> j < Suc k then g j m else ent n m i j)"
    if "i < n" "j < n" for i j
    using Suc that flat_index_less[OF that] flat_index_inj[of k n j r i]
    by (auto simp: step nth_list_update less_Suc_eq)
  moreover have "g x (?F (Suc k)) = g x m" if "x < n" "Suc k \<le> x" for x
    using Suc that dep[of x k] by (auto simp: step)
  ultimately show ?case
    using Suc by (auto simp: step)
qed (simp add: len)

lemmas fold_row_full = fold_row[where k = n and n = n for n, OF _ _ order.refl]

lemma length_swap_rows [simp]: "length (swap_rows n r1 r2 m) = length m"
proof -
  have "length (fold (\<lambda>k m. m[r1 * n + k := m ! (r2 * n + k), r2 * n + k := m ! (r1 * n + k)]) ks m) =
      length m" for ks
    by (induction ks arbitrary: m) simp_all
  then show ?thesis by (simp add: swap_rows_def)
qed

lemma ent_swap_rows:
  assumes len: "length m = n * n" and r: "r1 < n" "r2 < n" "r1 \<noteq> r2" and ij: "i < n" "j < n"
  shows "ent n (swap_rows n r1 r2 m) i j =
    (if i = r1 then ent n m r2 j else if i = r2 then ent n m r1 j else ent n m i j)"
proof -
  define F where "F k = fold (\<lambda>k m. m[r1 * n + k := m ! (r2 * n + k), r2 * n + k := m ! (r1 * n + k)])
    [0..<k] m" for k
  have "length (F k) = n * n \<and> (\<forall>i < n. \<forall>j < n. ent n (F k) i j =
      (if j < k then (if i = r1 then ent n m r2 j else if i = r2 then ent n m r1 j else ent n m i j)
       else ent n m i j))" if "k \<le> n" for k
    using that
  proof (induction k)
    case 0
    then show ?case by (simp add: F_def len)
  next
    case (Suc k)
    have step: "F (Suc k) = (F k)[r1 * n + k := ent n (F k) r2 k, r2 * n + k := ent n (F k) r1 k]"
      by (simp add: F_def)
    show ?case
      using Suc r flat_index_less flat_index_inj[of k n _ r1] flat_index_inj[of k n _ r2]
      by (auto simp: step nth_list_update less_Suc_eq)
  qed
  from this[of n] ij show ?thesis
    by (simp add: swap_rows_def F_def)
qed

context gf_complete
begin

lemma ent_scale_row:
  assumes "length m = n * n" and "r < n"
  shows "length (scale_row G n r c m) = n * n"
    and "i < n \<Longrightarrow> j < n \<Longrightarrow> ent n (scale_row G n r c m) i j =
      (if i = r then gf_multiply G (ent n m r j) c else ent n m i j)"
  using fold_row_full[of m n r "\<lambda>j m. galois_single_multiply G (m ! (r * n + j)) c"] assms
  by (auto simp: scale_row_def)

lemma ent_xor_row:
  assumes "length m = n * n" and "r < n" and "s < n" and "r \<noteq> s"
  shows "length (xor_row n r s m) = n * n"
    and "i < n \<Longrightarrow> j < n \<Longrightarrow> ent n (xor_row n r s m) i j =
      (if i = r then ent n m r j XOR ent n m s j else ent n m i j)"
  using fold_row_full[of m n r "\<lambda>x m. m ! (r * n + x) XOR m ! (s * n + x)"] assms
  by (auto simp: xor_row_def flat_index_inj)

lemma ent_addmul_row:
  assumes "length m = n * n" and "r < n" and "s < n" and "r \<noteq> s"
  shows "length (addmul_row G n r s c m) = n * n"
    and "i < n \<Longrightarrow> j < n \<Longrightarrow> ent n (addmul_row G n r s c m) i j =
      (if i = r then ent n m r j XOR gf_multiply G c (ent n m s j) else ent n m i j)"
  using fold_row_full[of m n r
      "\<lambda>x m. m ! (r * n + x) XOR galois_single_multiply G c (m ! (s * n + x))"] assms
  by (auto simp: addmul_row_def flat_index_inj)

lemma xor_row_addmul: "xor_row n r s m = addmul_row G n r s 1 m"
  by (simp add: xor_row_def addmul_row_def mult_one)

section \<open>Soundness\<close>

text \<open>
  The invariant of the elimination: applying \<open>inv\<close> to the input matrix \<open>a\<close> gives \<open>mat\<close>.
\<close>

definition row_rel :: "nat \<Rightarrow> byte list \<Rightarrow> byte list \<times> byte list \<Rightarrow> bool" where
  "row_rel n a st \<longleftrightarrow> (case st of (mat, imat) \<Rightarrow>
     length mat = n * n \<and> length imat = n * n \<and>
     (\<forall>r < n. \<forall>c < n. xor_sum (\<lambda>x. gf_multiply G (ent n imat r x) (ent n a x c)) n = ent n mat r c))"

lemma row_rel_swap:
  assumes "row_rel n a (mat, imat)" and "r1 < n" "r2 < n" "r1 \<noteq> r2"
  shows "row_rel n a (swap_rows n r1 r2 mat, swap_rows n r1 r2 imat)"
  using assms by (simp add: row_rel_def ent_swap_rows cong: xs.cong_simp)

lemma row_rel_scale:
  assumes "row_rel n a (mat, imat)" and "r < n"
  shows "row_rel n a (scale_row G n r c mat, scale_row G n r c imat)"
proof -
  have "xor_sum (\<lambda>x. gf_multiply G (gf_multiply G (ent n imat r x) c) (ent n a x k)) n =
      gf_multiply G (ent n mat r k) c" if "k < n" for k
    using assms that
    by (simp add: row_rel_def mult_commute[of _ c] mult_assoc flip: mult_xor_sum)
  then show ?thesis
    using assms by (simp add: row_rel_def ent_scale_row cong: xs.cong_simp)
qed

lemma row_rel_addmul:
  assumes "row_rel n a (mat, imat)" and "r < n" "s < n" "r \<noteq> s"
  shows "row_rel n a (addmul_row G n r s c mat, addmul_row G n r s c imat)"
proof -
  have "xor_sum (\<lambda>x. gf_multiply G (ent n imat r x XOR gf_multiply G c (ent n imat s x)) (ent n a x k)) n =
      ent n mat r k XOR gf_multiply G c (ent n mat s k)" if "k < n" for k
    using assms that
    by (simp add: row_rel_def mult_xor_left mult_assoc xs.distrib flip: mult_xor_sum)
  then show ?thesis
    using assms by (simp add: row_rel_def ent_addmul_row cong: xs.cong_simp)
qed

text \<open>\<open>mat\<close> is unit upper triangular in its first \<open>i\<close> columns.\<close>

definition upper_unit :: "nat \<Rightarrow> nat \<Rightarrow> byte list \<Rightarrow> bool" where
  "upper_unit n i mat \<longleftrightarrow>
     (\<forall>c < i. ent n mat c c = 1 \<and> (\<forall>r. c < r \<and> r < n \<longrightarrow> ent n mat r c = 0))"

lemma find_pivot_spec:
  assumes "j \<le> n"
  shows "j \<le> find_pivot n mat i j \<and> find_pivot n mat i j \<le> n \<and>
    (\<forall>r. j \<le> r \<and> r < find_pivot n mat i j \<longrightarrow> ent n mat r i = 0) \<and>
    (find_pivot n mat i j < n \<longrightarrow> ent n mat (find_pivot n mat i j) i \<noteq> 0)"
  using assms
proof (induction n mat i j rule: find_pivot.induct)
  case (1 n mat i j)
  show ?case
  proof (cases "j < n \<and> mat ! (j * n + i) = 0")
    case True
    with "1.IH" have "Suc j \<le> find_pivot n mat i (Suc j) \<and> find_pivot n mat i (Suc j) \<le> n \<and>
        (\<forall>r. Suc j \<le> r \<and> r < find_pivot n mat i (Suc j) \<longrightarrow> ent n mat r i = 0) \<and>
        (find_pivot n mat i (Suc j) < n \<longrightarrow> ent n mat (find_pivot n mat i (Suc j)) i \<noteq> 0)"
      by simp
    with True show ?thesis
      by (simp add: find_pivot.simps[of n mat i j]) (metis Suc_leI le_antisym not_less_eq_eq)
  next
    case False
    with "1.prems" show ?thesis by (auto simp: find_pivot.simps[of n mat i j])
  qed
qed

lemma pivot_column_sound:
  assumes "pivot_column n i st = Some (mat, imat)" and "row_rel n a st" and "i < n"
    and "upper_unit n i (fst st)"
  shows "row_rel n a (mat, imat) \<and> ent n mat i i \<noteq> 0 \<and> upper_unit n i mat"
proof -
  obtain m v where st: "st = (m, v)" by (cases st)
  show ?thesis
  proof (cases "ent n m i i = 0")
    case True
    define j where "j = find_pivot n m i (Suc i)"
    have j: "i < j" "j < n" "ent n m j i \<noteq> 0"
      using assms(1,3) True find_pivot_spec[of "Suc i" n m i]
      by (auto simp: st pivot_column_def Let_def j_def split: if_splits)
    have eq: "mat = swap_rows n i j m" "imat = swap_rows n i j v"
      using assms(1) True by (auto simp: st pivot_column_def Let_def j_def split: if_splits)
    have "length m = n * n"
      using assms(2) by (simp add: st row_rel_def)
    moreover have "upper_unit n i m"
      using assms(4) by (simp add: st)
    ultimately have "ent n mat i i \<noteq> 0 \<and> upper_unit n i mat"
      using assms(3) j by (auto simp: upper_unit_def eq ent_swap_rows)
    then show ?thesis
      using row_rel_swap[of n a m v i j] assms j by (auto simp: st eq)
  next
    case False
    with assms show ?thesis by (auto simp: st pivot_column_def)
  qed
qed

lemma scale_pivot_sound:
  assumes "scale_pivot G n i (m, v) = Some (mat, imat)" and "row_rel n a (m, v)" and "i < n"
    and "upper_unit n i m" and "ent n m i i \<noteq> 0"
  shows "row_rel n a (mat, imat) \<and> ent n mat i i = 1 \<and> upper_unit n i mat"
proof (cases "ent n m i i = 1")
  case True
  with assms show ?thesis by (auto simp: scale_pivot_def)
next
  case False
  let ?c = "gf_divide G 1 (ent n m i i)"
  have eq: "mat = scale_row G n i ?c m" "imat = scale_row G n i ?c v"
    using assms(1,5) False by (auto simp: scale_pivot_def Let_def galois_single_divide_def)
  have "length m = n * n"
    using assms(2) by (simp add: row_rel_def)
  then show ?thesis
    using assms row_rel_scale[of n a m v i ?c]
    by (auto simp: eq upper_unit_def ent_scale_row mult_divide)
qed

lemma eliminate_row_addmul:
  assumes "length mat = n * n" and "length imat = n * n" and "i < n" "j < n" "i \<noteq> j"
    and "ent n mat j i \<noteq> 0"
  shows "eliminate_row G n i j (mat, imat) =
    (addmul_row G n j i (ent n mat j i) mat, addmul_row G n j i (ent n mat j i) imat)"
  using assms by (simp add: eliminate_row_def Let_def xor_row_addmul)

lemma eliminate_row_sound:
  assumes rel: "row_rel n a (m, v)" and ij: "i < j" "j < n"
    and up: "upper_unit n i m" and piv: "ent n m i i = 1"
    and st': "eliminate_row G n i j (m, v) = (mat, imat)"
  shows "row_rel n a (mat, imat) \<and> upper_unit n i mat \<and> ent n mat j i = 0 \<and>
    (\<forall>r < n. r \<noteq> j \<longrightarrow> ent n mat r i = ent n m r i)"
proof (cases "ent n m j i = 0")
  case True
  with st' have "mat = m" "imat = v"
    by (auto simp: eliminate_row_def)
  with True rel up show ?thesis by simp
next
  case False
  have len: "length m = n * n" "length v = n * n"
    using rel by (simp_all add: row_rel_def)
  have eq: "mat = addmul_row G n j i (ent n m j i) m" "imat = addmul_row G n j i (ent n m j i) v"
    using st' eliminate_row_addmul[OF len, of i j] ij False by auto
  have "ent n mat r c = ent n m r c" if "c < i" "r < n" for r c
    using that ij len up by (auto simp: eq ent_addmul_row upper_unit_def)
  then have "upper_unit n i mat"
    using up ij by (auto simp: upper_unit_def)
  then show ?thesis
    using rel ij len piv row_rel_addmul[of n a m v j i] by (auto simp: eq ent_addmul_row)
qed

lemma eliminate_rows_sound:
  assumes rel: "row_rel n a st" and up: "upper_unit n i (fst st)" and piv: "ent n (fst st) i i = 1"
    and i: "i < n" and j: "Suc i \<le> j" "j \<le> n"
  shows "row_rel n a (fold (eliminate_row G n i) [Suc i..<j] st) \<and>
    upper_unit n i (fst (fold (eliminate_row G n i) [Suc i..<j] st)) \<and>
    ent n (fst (fold (eliminate_row G n i) [Suc i..<j] st)) i i = 1 \<and>
    (\<forall>r. i < r \<and> r < j \<longrightarrow> ent n (fst (fold (eliminate_row G n i) [Suc i..<j] st)) r i = 0)"
  using j
proof (induction j)
  case (Suc j)
  show ?case
  proof (cases "j = i")
    case True
    with rel up piv show ?thesis by auto
  next
    case False
    define s where "s = fold (eliminate_row G n i) [Suc i..<j] st"
    obtain m v where s: "s = (m, v)" by (cases s)
    obtain mat imat where s': "eliminate_row G n i j s = (mat, imat)"
      by (cases "eliminate_row G n i j s")
    have IH: "row_rel n a (m, v)" "upper_unit n i m" "ent n m i i = 1"
      "\<forall>r. i < r \<and> r < j \<longrightarrow> ent n m r i = 0"
      using Suc False by (simp_all add: s flip: s_def)
    have new: "row_rel n a (mat, imat)" "upper_unit n i mat" "ent n mat j i = 0"
      "\<forall>r < n. r \<noteq> j \<longrightarrow> ent n mat r i = ent n m r i"
      using eliminate_row_sound[OF IH(1) _ _ IH(2,3) s'[unfolded s]] Suc.prems False by auto
    have "\<forall>r. i < r \<and> r < Suc j \<longrightarrow> ent n mat r i = 0" and "ent n mat i i = 1"
      using new(3,4) IH(3,4) Suc.prems False i by (auto simp: less_Suc_eq)
    with new(1,2) Suc.prems False show ?thesis
      by (simp add: s' flip: s_def)
  qed
qed simp

lemma triangularise_result: "triangularise G n is st = (r, st') \<Longrightarrow> r = 0 \<or> r = -1"
  by (induction "is" arbitrary: st) (auto split: option.splits)

lemma triangularise_sound:
  assumes "triangularise G n [i..<n] st = (0, st')" and "i \<le> n"
    and "row_rel n a st" and "upper_unit n i (fst st)"
  shows "row_rel n a st' \<and> upper_unit n n (fst st')"
  using assms
proof (induction "n - i" arbitrary: i st)
  case (Suc d)
  then have i: "i < n" by simp
  obtain st1 where st1: "pivot_column n i st = Some st1"
    using Suc.prems(1) i by (cases "pivot_column n i st") (auto simp: upt_conv_Cons)
  obtain st2 where st2: "scale_pivot G n i st1 = Some st2"
    using Suc.prems(1) i st1 by (cases "scale_pivot G n i st1") (auto simp: upt_conv_Cons)
  define st3 where "st3 = fold (eliminate_row G n i) [Suc i..<n] st2"
  have tri: "triangularise G n [Suc i..<n] st3 = (0, st')"
    using Suc.prems(1) i st1 st2 by (simp add: upt_conv_Cons st3_def)
  have 1: "row_rel n a st1 \<and> ent n (fst st1) i i \<noteq> 0 \<and> upper_unit n i (fst st1)"
    using pivot_column_sound[of n i st "fst st1" "snd st1"] st1 i Suc.prems by simp
  then have 2: "row_rel n a st2 \<and> ent n (fst st2) i i = 1 \<and> upper_unit n i (fst st2)"
    using scale_pivot_sound[of n i "fst st1" "snd st1" "fst st2" "snd st2" a] st2 i by simp
  then have "row_rel n a st3 \<and> upper_unit n (Suc i) (fst st3)"
    using eliminate_rows_sound[of n a st2 i n] i
    by (auto simp: st3_def upper_unit_def less_Suc_eq)
  with Suc.hyps(1)[of "Suc i" st3] Suc.hyps(2) tri i show ?case by simp
qed simp

subsection \<open>Back substitution\<close>

lemma flat_eqI:
  assumes "length m = n * n" and "length m' = n * n"
    and "\<And>i j. i < n \<Longrightarrow> j < n \<Longrightarrow> ent n m i j = ent n m' i j"
  shows "m = m'"
proof (rule nth_equalityI)
  fix p assume "p < length m"
  then have "p div n < n" and "p mod n < n"
    using assms(1) by (auto simp: less_mult_imp_div_less intro!: mod_less_divisor Nat.gr0I)
  from assms(3)[OF this] show "m ! p = m' ! p" by simp
qed (simp add: assms)

text \<open>All columns from \<open>i\<close> on are cleared above the diagonal.\<close>

definition cleared_from :: "nat \<Rightarrow> nat \<Rightarrow> byte list \<Rightarrow> bool" where
  "cleared_from n i mat \<longleftrightarrow> (\<forall>c r. i \<le> c \<and> c < n \<and> r < c \<longrightarrow> ent n mat r c = 0)"

lemma back_row_addmul:
  assumes len: "length m = n * n" and up: "upper_unit n n m" and cl: "cleared_from n (Suc i) m"
    and ij: "j < i" "i < n"
  shows "m[j * n + i := 0] = addmul_row G n j i (ent n m j i) m"
proof (rule flat_eqI)
  show "length (m[j * n + i := 0]) = n * n" using len by simp
  show "length (addmul_row G n j i (ent n m j i) m) = n * n"
    using len ij by (simp add: ent_addmul_row)
  fix r c assume rc: "r < n" "c < n"
  have row: "ent n m i c = (if c = i then 1 else 0)"
    using up cl ij rc by (cases c i rule: linorder_cases) (auto simp: upper_unit_def cleared_from_def)
  show "ent n (m[j * n + i := 0]) r c = ent n (addmul_row G n j i (ent n m j i) m) r c"
    using len ij rc flat_index_less[of j n i n] flat_index_inj[of i n c j r]
    by (auto simp: ent_addmul_row row nth_list_update)
qed

lemma back_row_sound:
  assumes rel: "row_rel n a (m, v)" and up: "upper_unit n n m" and cl: "cleared_from n (Suc i) m"
    and ij: "j < i" "i < n" and st': "back_row G n i j (m, v) = (mat, imat)"
  shows "row_rel n a (mat, imat) \<and> upper_unit n n mat \<and> cleared_from n (Suc i) mat \<and>
    ent n mat j i = 0 \<and> (\<forall>r < n. r \<noteq> j \<longrightarrow> ent n mat r i = ent n m r i)"
proof (cases "ent n m j i = 0")
  case True
  with st' have "mat = m" "imat = v"
    by (auto simp: back_row_def)
  with True rel up cl show ?thesis by simp
next
  case False
  have len: "length m = n * n"
    using rel by (simp add: row_rel_def)
  have eq: "mat = m[j * n + i := 0]" "imat = addmul_row G n j i (ent n m j i) v"
    using st' False by (auto simp: back_row_def Let_def)
  have "row_rel n a (mat, imat)"
    using row_rel_addmul[OF rel, of j i "ent n m j i"] back_row_addmul[OF len up cl ij] ij
    by (simp add: eq)
  moreover have "ent n mat r c = (if r = j \<and> c = i then 0 else ent n m r c)" if "r < n" "c < n" for r c
    using len ij that flat_index_less[of j n i n] flat_index_inj[of i n c j r]
    by (auto simp: eq nth_list_update)
  ultimately show ?thesis
    using up cl ij by (auto simp: upper_unit_def cleared_from_def)
qed

lemma back_column_sound:
  assumes rel: "row_rel n a st" and up: "upper_unit n n (fst st)"
    and cl: "cleared_from n (Suc i) (fst st)" and i: "i < n" and j: "j \<le> i"
  shows "row_rel n a (fold (back_row G n i) [0..<j] st) \<and>
    upper_unit n n (fst (fold (back_row G n i) [0..<j] st)) \<and>
    cleared_from n (Suc i) (fst (fold (back_row G n i) [0..<j] st)) \<and>
    (\<forall>r < j. ent n (fst (fold (back_row G n i) [0..<j] st)) r i = 0)"
  using j
proof (induction j)
  case (Suc j)
  define s where "s = fold (back_row G n i) [0..<j] st"
  obtain m v where s: "s = (m, v)" by (cases s)
  obtain mat imat where s': "back_row G n i j s = (mat, imat)"
    by (cases "back_row G n i j s")
  have IH: "row_rel n a (m, v)" "upper_unit n n m" "cleared_from n (Suc i) m"
    "\<forall>r < j. ent n m r i = 0"
    using Suc by (simp_all add: s flip: s_def)
  have new: "row_rel n a (mat, imat)" "upper_unit n n mat" "cleared_from n (Suc i) mat"
    "ent n mat j i = 0" "\<forall>r < n. r \<noteq> j \<longrightarrow> ent n mat r i = ent n m r i"
    using back_row_sound[OF IH(1-3) _ i s'[unfolded s]] Suc.prems by auto
  have "\<forall>r < Suc j. ent n mat r i = 0"
    using new(4,5) IH(4) Suc.prems i by (auto simp: less_Suc_eq)
  with new(1-3) show ?case
    by (simp add: s' flip: s_def)
qed (use rel up cl in simp)

lemma back_substitute_sound:
  assumes "row_rel n a st" and "upper_unit n n (fst st)"
  shows "row_rel n a (back_substitute G n st) \<and> upper_unit n n (fst (back_substitute G n st)) \<and>
    cleared_from n 0 (fst (back_substitute G n st))"
proof -
  have "row_rel n a (fold (\<lambda>i. fold (back_row G n i) [0..<i]) (rev [i..<n]) st) \<and>
      upper_unit n n (fst (fold (\<lambda>i. fold (back_row G n i) [0..<i]) (rev [i..<n]) st)) \<and>
      cleared_from n i (fst (fold (\<lambda>i. fold (back_row G n i) [0..<i]) (rev [i..<n]) st))"
    if "i \<le> n" for i
    using that
  proof (induction "n - i" arbitrary: i)
    case 0
    with assms show ?case by (auto simp: cleared_from_def)
  next
    case (Suc d)
    then have i: "i < n" by simp
    define s where "s = fold (\<lambda>i. fold (back_row G n i) [0..<i]) (rev [Suc i..<n]) st"
    have IH: "row_rel n a s" "upper_unit n n (fst s)" "cleared_from n (Suc i) (fst s)"
      using Suc i by (simp_all add: s_def)
    have "fold (\<lambda>i. fold (back_row G n i) [0..<i]) (rev [i..<n]) st = fold (back_row G n i) [0..<i] s"
      using i by (simp add: upt_conv_Cons s_def)
    moreover have "cleared_from n i (fst (fold (back_row G n i) [0..<i] s))"
      unfolding cleared_from_def
    proof (intro allI impI)
      fix c r assume "i \<le> c \<and> c < n \<and> r < c"
      then show "ent n (fst (fold (back_row G n i) [0..<i] s)) r c = 0"
        using back_column_sound[OF IH i order.refl]
        by (cases "c = i") (auto simp: cleared_from_def)
    qed
    ultimately show ?case
      using back_column_sound[OF IH i order.refl] by simp
  qed
  from this[of 0] show ?thesis by (simp add: back_substitute_def)
qed

text \<open>A return value of 0 means \<open>inv * mat = I\<close>.\<close>

lemma length_identity_matrix: "length (identity_matrix n) = n * n"
  by (simp add: identity_matrix_def length_concat o_def sum_list_triv)

lemma ent_identity_matrix:
  assumes "i < n" and "j < n"
  shows "ent n (identity_matrix n) i j = (if i = j then 1 else 0)"
proof -
  have "concat (map (\<lambda>i. map (f i) [0..<n]) [0..<k]) ! (i * n + j) = f i j"
    if "i < k" for f :: "nat \<Rightarrow> nat \<Rightarrow> byte" and k
    using that
  proof (induction k)
    case (Suc k)
    have len: "length (concat (map (\<lambda>i. map (f i) [0..<n]) [0..<k])) = k * n"
      by (simp add: length_concat o_def sum_list_triv)
    show ?case
    proof (cases "i < k")
      case True
      with Suc flat_index_less[OF True assms(2)] len show ?thesis
        by (simp add: nth_append)
    next
      case False
      with Suc.prems have "i = k" by simp
      with assms len show ?thesis by (simp add: nth_append)
    qed
  qed simp
  then show ?thesis
    using assms by (simp add: identity_matrix_def)
qed

lemma row_rel_init:
  assumes "length a = n * n"
  shows "row_rel n a (a, identity_matrix n)"
proof -
  have "xor_sum (\<lambda>x. gf_multiply G (ent n (identity_matrix n) r x) (ent n a x c)) n = ent n a r c"
    if "r < n" "c < n" for r c
  proof -
    have "xor_sum (\<lambda>x. gf_multiply G (ent n (identity_matrix n) r x) (ent n a x c)) n =
        xor_sum (\<lambda>x. if r = x then ent n a x c else 0) n"
      using that by (intro xs.cong) (auto simp: ent_identity_matrix mult_one)
    then show ?thesis using that by (simp add: xs.delta')
  qed
  with assms show ?thesis
    by (simp add: row_rel_def length_identity_matrix)
qed

lemma invert_matrix_sound:
  assumes "jerasure_invert_matrix G a n = (0, mat, imat)" and "length a = n * n"
    and "r < n" and "c < n"
  shows "xor_sum (\<lambda>x. gf_multiply G (ent n imat r x) (ent n a x c)) n = (if r = c then 1 else 0)"
proof -
  obtain st where tri: "triangularise G n [0..<n] (a, identity_matrix n) = (0, st)"
    and bs: "back_substitute G n st = (mat, imat)"
  proof -
    obtain r0 st where t: "triangularise G n [0..<n] (a, identity_matrix n) = (r0, st)"
      by (cases "triangularise G n [0..<n] (a, identity_matrix n)")
    with assms(1) triangularise_result[OF t] show thesis
      by (intro that[of st]) (auto simp: jerasure_invert_matrix_def split: if_splits)
  qed
  have "row_rel n a st \<and> upper_unit n n (fst st)"
    using triangularise_sound[OF tri] row_rel_init[OF assms(2)] by (simp add: upper_unit_def)
  then have "row_rel n a (mat, imat)" and "upper_unit n n mat" and "cleared_from n 0 mat"
    using back_substitute_sound[of n a st] bs by simp_all
  then show ?thesis
    using assms(3,4) by (cases r c rule: linorder_cases)
      (auto simp: row_rel_def upper_unit_def cleared_from_def)
qed

section \<open>Completeness\<close>

text \<open>
  The row operations lose no information: a vector the reduced matrix maps to zero is mapped to
  zero by the matrix before the operation too. A missing pivot yields such a vector, which a
  matrix with a left inverse does not have.
\<close>

definition kernel :: "nat \<Rightarrow> byte list \<Rightarrow> (nat \<Rightarrow> byte) \<Rightarrow> bool" where
  "kernel n m v \<longleftrightarrow> (\<forall>r < n. xor_sum (\<lambda>c. gf_multiply G (ent n m r c) (v c)) n = 0)"

lemma kernel_swap:
  assumes "kernel n (swap_rows n r1 r2 m) v" and "length m = n * n" "r1 < n" "r2 < n" "r1 \<noteq> r2"
  shows "kernel n m v"
  unfolding kernel_def
proof (intro allI impI)
  fix r assume "r < n"
  then show "xor_sum (\<lambda>c. gf_multiply G (ent n m r c) (v c)) n = 0"
    using assms
    by (cases "r = r1"; cases "r = r2") (auto simp: kernel_def ent_swap_rows cong: xs.cong_simp)
qed

lemma kernel_scale:
  assumes k: "kernel n (scale_row G n s k m) v" and m: "length m = n * n" "s < n" and "k \<noteq> 0"
  shows "kernel n m v"
  unfolding kernel_def
proof (intro allI impI)
  fix r assume r: "r < n"
  have "xor_sum (\<lambda>c. gf_multiply G (ent n (scale_row G n s k m) r c) (v c)) n =
      (if r = s then gf_multiply G k (xor_sum (\<lambda>c. gf_multiply G (ent n m r c) (v c)) n)
       else xor_sum (\<lambda>c. gf_multiply G (ent n m r c) (v c)) n)"
    using r m by (simp add: ent_scale_row mult_xor_sum mult_commute[of _ k] mult_assoc cong: xs.cong_simp)
  with k r \<open>k \<noteq> 0\<close> show "xor_sum (\<lambda>c. gf_multiply G (ent n m r c) (v c)) n = 0"
    by (auto simp: kernel_def mult_eq_zero_iff split: if_splits)
qed

lemma kernel_addmul:
  assumes k: "kernel n (addmul_row G n s t k m) v" and m: "length m = n * n" "s < n" "t < n" "s \<noteq> t"
  shows "kernel n m v"
proof -
  have other: "xor_sum (\<lambda>c. gf_multiply G (ent n m r c) (v c)) n = 0" if "r < n" "r \<noteq> s" for r
  proof -
    have "xor_sum (\<lambda>c. gf_multiply G (ent n (addmul_row G n s t k m) r c) (v c)) n = 0"
      using k that by (simp add: kernel_def)
    with m that show ?thesis by (simp add: ent_addmul_row cong: xs.cong_simp)
  qed
  have "xor_sum (\<lambda>c. gf_multiply G (ent n (addmul_row G n s t k m) s c) (v c)) n =
      xor_sum (\<lambda>c. gf_multiply G (ent n m s c) (v c)) n XOR
      gf_multiply G k (xor_sum (\<lambda>c. gf_multiply G (ent n m t c) (v c)) n)"
    using m by (simp add: ent_addmul_row mult_xor_left xs.distrib mult_xor_sum mult_assoc cong: xs.cong_simp)
  with k m other[of t] other show ?thesis
    by (auto simp: kernel_def)
qed

lemma solve_upper:
  assumes "upper_unit n i m"
  shows "\<exists>w. \<forall>r < i. w r XOR xs.F (\<lambda>c. gf_multiply G (ent n m r c) (w c)) {Suc r..<i} = t r"
proof -
  have "\<exists>w. \<forall>r. i - d \<le> r \<and> r < i \<longrightarrow>
      w r XOR xs.F (\<lambda>c. gf_multiply G (ent n m r c) (w c)) {Suc r..<i} = t r" for d
  proof (induction d)
    case (Suc d)
    then obtain w where w: "\<forall>r. i - d \<le> r \<and> r < i \<longrightarrow>
        w r XOR xs.F (\<lambda>c. gf_multiply G (ent n m r c) (w c)) {Suc r..<i} = t r" by blast
    define p where "p = i - Suc d"
    let ?w = "w(p := t p XOR xs.F (\<lambda>c. gf_multiply G (ent n m p c) (w c)) {Suc p..<i})"
    have "?w r XOR xs.F (\<lambda>c. gf_multiply G (ent n m r c) (?w c)) {Suc r..<i} = t r"
      if r: "i - Suc d \<le> r \<and> r < i" for r
    proof -
      have same: "xs.F (\<lambda>c. gf_multiply G (ent n m r c) (?w c)) {Suc r..<i} =
          xs.F (\<lambda>c. gf_multiply G (ent n m r c) (w c)) {Suc r..<i}"
        using r by (intro xs.cong) (auto simp: p_def)
      show ?thesis
      proof (cases "r = p")
        case True
        then show ?thesis by (simp add: same xor.assoc)
      next
        case False
        then have "i - d \<le> r"
          using r unfolding p_def by linarith
        with r w have "w r XOR xs.F (\<lambda>c. gf_multiply G (ent n m r c) (w c)) {Suc r..<i} = t r"
          by blast
        with False same show ?thesis by simp
      qed
    qed
    then show ?case by blast
  qed auto
  from this[of i] show ?thesis by simp
qed

lemma no_pivot_kernel:
  assumes up: "upper_unit n i m" and i: "i < n" and zero: "\<forall>r. i \<le> r \<and> r < n \<longrightarrow> ent n m r i = 0"
  shows "\<exists>v. v i = 1 \<and> kernel n m v"
proof -
  obtain w where w: "\<forall>r < i. w r XOR xs.F (\<lambda>c. gf_multiply G (ent n m r c) (w c)) {Suc r..<i} =
      ent n m r i"
    using solve_upper[OF up, of "\<lambda>r. ent n m r i"] by blast
  define v where "v c = (if c < i then w c else if c = i then 1 else 0)" for c
  have "xor_sum (\<lambda>c. gf_multiply G (ent n m r c) (v c)) n = 0" if r: "r < n" for r
  proof (cases "r < i")
    case True
    have "xor_sum (\<lambda>c. gf_multiply G (ent n m r c) (v c)) n =
        xs.F (\<lambda>c. gf_multiply G (ent n m r c) (v c)) (insert r (insert i {Suc r..<i}))"
      using True r i up by (intro xs.mono_neutral_right) (auto simp: v_def upper_unit_def)
    also have "\<dots> = w r XOR (ent n m r i XOR
        xs.F (\<lambda>c. gf_multiply G (ent n m r c) (w c)) {Suc r..<i})"
      using True up by (simp add: v_def upper_unit_def mult_one cong: xs.cong_simp)
    also have "\<dots> = ent n m r i XOR (w r XOR
        xs.F (\<lambda>c. gf_multiply G (ent n m r c) (w c)) {Suc r..<i})"
      by (rule xor.left_commute)
    finally show ?thesis
      using w True by simp
  next
    case False
    then show ?thesis
      using r up zero by (intro xs.neutral) (auto simp: v_def upper_unit_def)
  qed
  then show ?thesis
    by (intro exI[of _ v]) (simp add: v_def kernel_def)
qed

lemma scale_pivot_Some:
  assumes "ent n (fst st) i i \<noteq> 0"
  shows "scale_pivot G n i st \<noteq> None"
  using assms by (cases st) (auto simp: scale_pivot_def Let_def galois_single_divide_def)

lemma kernel_pivot_scale:
  assumes piv: "pivot_column n i st = Some st1" and sc: "scale_pivot G n i st1 = Some st2"
    and rel: "row_rel n a st" and i: "i < n" and up: "upper_unit n i (fst st)"
    and k: "kernel n (fst st2) v"
  shows "kernel n (fst st) v"
proof -
  have 1: "row_rel n a st1" "ent n (fst st1) i i \<noteq> 0"
    using pivot_column_sound[of n i st "fst st1" "snd st1" a] assms by auto
  have len: "length (fst st) = n * n" "length (fst st1) = n * n"
    using rel 1(1) by (simp_all add: row_rel_def split: prod.splits)
  have nz: "gf_divide G 1 (ent n (fst st1) i i) \<noteq> 0"
    using mult_divide[OF 1(2), of 1] by auto
  have "kernel n (fst st1) v"
    using sc k kernel_scale[OF _ len(2) i nz] 1(2)
    by (cases st1) (auto simp: scale_pivot_def Let_def galois_single_divide_def split: if_splits)
  then show ?thesis
    using piv kernel_swap[OF _ len(1) i] find_pivot_spec[of "Suc i" n "fst st" i] i
    by (cases st) (auto simp: pivot_column_def Let_def split: if_splits)
qed

lemma kernel_eliminate:
  assumes rel: "row_rel n a st" and up: "upper_unit n i (fst st)" and piv: "ent n (fst st) i i = 1"
    and i: "i < n" and j: "Suc i \<le> j" "j \<le> n"
    and k: "kernel n (fst (fold (eliminate_row G n i) [Suc i..<j] st)) v"
  shows "kernel n (fst st) v"
  using j k
proof (induction j)
  case (Suc j)
  show ?case
  proof (cases "j = i")
    case False
    define s where "s = fold (eliminate_row G n i) [Suc i..<j] st"
    have s: "row_rel n a s"
      using eliminate_rows_sound[OF rel up piv i, of j] Suc.prems False by (simp add: s_def)
    have "kernel n (fst (eliminate_row G n i j s)) v"
      using Suc.prems False by (simp add: s_def)
    then have "kernel n (fst s) v"
      using s kernel_addmul[of n j i "ent n (fst s) j i" "fst s" v] Suc.prems False i
        eliminate_row_addmul[of "fst s" n "snd s" i j]
      by (cases "ent n (fst s) j i = 0") (auto simp: row_rel_def eliminate_row_def split: prod.splits)
    with Suc False show ?thesis by (simp add: s_def)
  qed (use Suc.prems in simp)
qed simp

lemma triangularise_fail:
  assumes "triangularise G n [i..<n] st = (-1, st')" and "i \<le> n"
    and "row_rel n a st" and "upper_unit n i (fst st)"
  shows "\<exists>v. (\<exists>c < n. v c \<noteq> 0) \<and> kernel n (fst st) v"
  using assms
proof (induction "n - i" arbitrary: i st)
  case (Suc d)
  then have i: "i < n" by simp
  show ?case
  proof (cases "pivot_column n i st")
    case None
    then have "ent n (fst st) i i = 0" and "find_pivot n (fst st) i (Suc i) = n"
      by (auto simp: pivot_column_def Let_def split: prod.splits if_splits)
    then have "\<forall>r. i \<le> r \<and> r < n \<longrightarrow> ent n (fst st) r i = 0"
      using find_pivot_spec[of "Suc i" n "fst st" i] i by (metis Suc_leI le_neq_implies_less)
    from no_pivot_kernel[OF Suc.prems(4) i this] i show ?thesis
      by (metis one_neq_zero)
  next
    case (Some st1)
    have 1: "row_rel n a st1 \<and> ent n (fst st1) i i \<noteq> 0 \<and> upper_unit n i (fst st1)"
      using pivot_column_sound[of n i st "fst st1" "snd st1" a] Some i Suc.prems by simp
    then obtain st2 where st2: "scale_pivot G n i st1 = Some st2"
      using scale_pivot_Some[where st = st1 and i = i and n = n] by blast
    have 2: "row_rel n a st2 \<and> ent n (fst st2) i i = 1 \<and> upper_unit n i (fst st2)"
      using scale_pivot_sound[of n i "fst st1" "snd st1" "fst st2" "snd st2" a] 1 st2 i by simp
    define st3 where "st3 = fold (eliminate_row G n i) [Suc i..<n] st2"
    have tri: "triangularise G n [Suc i..<n] st3 = (-1, st')"
      using Suc.prems(1) i Some st2 by (simp add: upt_conv_Cons st3_def)
    have "row_rel n a st3 \<and> upper_unit n (Suc i) (fst st3)"
      using eliminate_rows_sound[of n a st2 i n] 2 i
      by (auto simp: st3_def upper_unit_def less_Suc_eq)
    moreover have "d = n - Suc i"
      using Suc.hyps(2) by simp
    ultimately obtain v where v: "\<exists>c < n. v c \<noteq> 0" "kernel n (fst st3) v"
      using Suc.hyps(1)[of "Suc i" st3] tri i by auto
    from v(2) have "kernel n (fst st2) v"
      using kernel_eliminate[of n a st2 i n v] 2 i by (simp add: st3_def)
    then have "kernel n (fst st) v"
      using kernel_pivot_scale[OF Some st2] Suc.prems i by blast
    with v(1) show ?thesis by blast
  qed
qed simp

text \<open>A matrix with a left inverse is inverted, never rejected.\<close>

lemma invert_matrix_complete:
  assumes len: "length a = n * n"
    and left: "\<forall>r < n. \<forall>c < n. xor_sum (\<lambda>x. gf_multiply G (l r x) (ent n a x c)) n =
      (if r = c then 1 else 0)"
  shows "fst (jerasure_invert_matrix G a n) = 0"
proof (rule ccontr)
  assume "fst (jerasure_invert_matrix G a n) \<noteq> 0"
  then obtain st where "triangularise G n [0..<n] (a, identity_matrix n) = (-1, st)"
    by (cases "triangularise G n [0..<n] (a, identity_matrix n)")
      (auto simp: jerasure_invert_matrix_def split: if_splits)
  from triangularise_fail[OF this _ row_rel_init[OF len]]
  obtain v c where c: "c < n" "v c \<noteq> 0" and k: "kernel n a v"
    by (auto simp: upper_unit_def)
  have "v c = xor_sum (\<lambda>j. gf_multiply G (if c = j then 1 else 0) (v j)) n"
  proof -
    have "xor_sum (\<lambda>j. gf_multiply G (if c = j then 1 else 0) (v j)) n =
        xor_sum (\<lambda>j. if c = j then v j else 0) n"
      by (intro xs.cong) (auto simp: mult_one)
    then show ?thesis using c by (simp add: xs.delta')
  qed
  also have "\<dots> = xor_sum (\<lambda>j. xor_sum (\<lambda>x. gf_multiply G (l c x)
      (gf_multiply G (ent n a x j) (v j))) n) n"
    using left c by (intro xs.cong) (auto simp: mult_xor_sum_left mult_assoc simp flip: left[rule_format])
  also have "\<dots> = xor_sum (\<lambda>x. gf_multiply G (l c x)
      (xor_sum (\<lambda>j. gf_multiply G (ent n a x j) (v j)) n)) n"
    by (subst xs.swap) (simp only: mult_xor_sum)
  also have "\<dots> = 0"
    using k by (intro xs.neutral) (auto simp: kernel_def)
  finally show False using c by simp
qed

end

end
