(* ===== verification/RS_Util.thy ===== *)
theory RS_Util
  imports Jerasure_Invert Gf256
begin

text \<open>
  \<open>RSUtil.cc\<close> and \<open>Computation.cc\<close>: the decoding coefficients of a Reed-Solomon stripe and the
  two buffer operations the repair workers apply with them. A stripe has \<open>_ecN\<close> blocks; row
  \<open>r\<close> of \<open>completeEncMat\<close> (the parity rows first, then the identity) gives block \<open>r\<close> as a
  combination of the \<open>_ecK\<close> data blocks.
\<close>

section \<open>Computation.cc\<close>

text \<open>
  \<open>XORBuffers\<close> works on \<open>unsigned long long\<close>: it xors the \<open>length / 8\<close> whole words and leaves
  the remaining bytes of the first buffer as they are.
\<close>

definition XORBuffers :: "byte list \<Rightarrow> byte list \<Rightarrow> nat \<Rightarrow> byte list res" where
  "XORBuffers buf1 buf2 len =
     (let n = 8 * (len div 8)
      in if n \<le> length buf1 \<and> n \<le> length buf2
         then Inr (xor_bytes (take n buf1) (take n buf2) @ drop n buf1)
         else Inl Out_Of_Bounds)"

section \<open>RSUtil.cc\<close>

record rs_util =
  rs_ecK :: nat
  rs_ecN :: nat
  rs_encMat :: "byte list"
  rs_coefficient :: "byte list list"

text \<open>\<open>memcpy\<close> of one matrix row of \<open>k\<close> entries, from row \<open>i\<close> of \<open>src\<close> to row \<open>j\<close> of \<open>dst\<close>.\<close>

definition copy_row :: "nat \<Rightarrow> byte list \<Rightarrow> nat \<Rightarrow> byte list \<Rightarrow> nat \<Rightarrow> byte list" where
  "copy_row k dst j src i = take (j * k) dst @ take k (drop (i * k) src) @ drop (j * k + k) dst"

definition complete_enc_mat :: "nat \<Rightarrow> nat \<Rightarrow> byte list \<Rightarrow> byte list" where
  "complete_enc_mat k n encMat =
     fold (\<lambda>i m. m[(n - k + i) * k + i := 1]) [0..<k]
       (take (k * (n - k)) encMat @ replicate (n * k - k * (n - k)) 0)"

text \<open>One round of the constructor: select rows, invert, multiply.\<close>

definition rs_init_round ::
    "gf_ops \<Rightarrow> nat \<Rightarrow> byte list \<Rightarrow> nat \<Rightarrow> byte list \<times> byte list list \<Rightarrow> byte list \<times> byte list list" where
  "rs_init_round G k completeEncMat i st =
     (case st of (eMat, coefs) \<Rightarrow>
        let e1 = fold (\<lambda>j e. copy_row k e j completeEncMat j) [0..<min i k] eMat;
            e2 = fold (\<lambda>j e. copy_row k e (j - 1) completeEncMat j) [i + 1..<k + 1] e1
        in case jerasure_invert_matrix G e2 k of
             (_, eMat', dMat) \<Rightarrow>
               (eMat', coefs @ [jerasure_matrix_multiply G (drop (i * k) completeEncMat) dMat 1 k k k]))"

definition RSUtil :: "gf_ops \<Rightarrow> nat \<Rightarrow> nat \<Rightarrow> byte list \<Rightarrow> rs_util" where
  "RSUtil G k n encMat =
     (let completeEncMat = complete_enc_mat k n encMat;
          (_, coefs) = fold (rs_init_round G k completeEncMat) [0..<n] (replicate (k * k) 0, [])
      in \<lparr>rs_ecK = k, rs_ecN = n, rs_encMat = encMat, rs_coefficient = coefs\<rparr>)"

definition getCoefficient :: "rs_util \<Rightarrow> nat \<Rightarrow> byte list res" where
  "getCoefficient rs idx = atE (rs_coefficient rs) (int idx)"

text \<open>
  The first loop of \<open>getCoefficient_multi\<close>: \<open>None\<close> for the early \<open>return nullptr\<close>, else the
  number of available blocks.
\<close>

fun count_status :: "nat \<Rightarrow> nat \<Rightarrow> int list \<Rightarrow> nat \<Rightarrow> nat option" where
  "count_status idx i [] cnt = Some cnt"
| "count_status idx i (s # ss) cnt =
     (if s \<noteq> 0 \<and> idx = i then None
      else count_status idx (Suc i) ss (if s \<noteq> 0 then Suc cnt else cnt))"

fun select_rows :: "nat \<Rightarrow> byte list \<Rightarrow> nat \<Rightarrow> int list \<Rightarrow> nat \<Rightarrow> byte list \<Rightarrow> byte list" where
  "select_rows k completeEncMat j [] cnt eMat = eMat"
| "select_rows k completeEncMat j (s # ss) cnt eMat =
     (if s \<noteq> 0 then select_rows k completeEncMat (Suc j) ss (Suc cnt) (copy_row k eMat cnt completeEncMat j)
      else select_rows k completeEncMat (Suc j) ss cnt eMat)"

definition getCoefficient_multi :: "gf_ops \<Rightarrow> rs_util \<Rightarrow> nat \<Rightarrow> int list \<Rightarrow> byte list option" where
  "getCoefficient_multi G rs idx status =
     (let k = rs_ecK rs; n = rs_ecN rs
      in case count_status idx 0 status 0 of
           None \<Rightarrow> None
         | Some cnt \<Rightarrow>
             if cnt \<noteq> k then None
             else
               (let completeEncMat = complete_enc_mat k n (rs_encMat rs);
                    eMat = select_rows k completeEncMat 0 status 0 (replicate (k * k) 0)
                in case jerasure_invert_matrix G eMat k of
                     (_, _, dMat) \<Rightarrow>
                       Some (jerasure_matrix_multiply G (drop (idx * k) completeEncMat) dMat 1 k k k)))"

text \<open>\<open>RSUtil::multiply\<close>: the block is multiplied in place.\<close>

definition rs_multiply :: "gf_ops \<Rightarrow> byte list \<Rightarrow> byte \<Rightarrow> nat \<Rightarrow> byte list res" where
  "rs_multiply G blk mulby sz = galois_w08_region_multiply G blk mulby sz blk False"

section \<open>The selected rows\<close>

text \<open>The matrix whose rows are the rows \<open>sel\<close> of \<open>c\<close>.\<close>

definition rows_of :: "nat \<Rightarrow> byte list \<Rightarrow> nat list \<Rightarrow> byte list" where
  "rows_of k c sel = concat (map (\<lambda>i. take k (drop (i * k) c)) sel)"

abbreviation avail :: "int list \<Rightarrow> nat list" where
  "avail status \<equiv> filter (\<lambda>j. status ! j \<noteq> 0) [0..<length status]"

lemma length_complete_enc_mat:
  assumes "k \<le> n" and "length encMat = k * (n - k)"
  shows "length (complete_enc_mat k n encMat) = n * k"
proof -
  have len: "length (fold (\<lambda>i m. m[f i := 1]) is m) = length m" for "is" f and m :: "byte list"
    by (induction "is" arbitrary: m) simp_all
  have "k * (n - k) \<le> n * k"
    by (simp add: diff_mult_distrib2 mult.commute)
  then show ?thesis
    using assms by (simp add: complete_enc_mat_def len)
qed

lemma length_row: "i < n \<Longrightarrow> length c = n * k \<Longrightarrow> length (take k (drop (i * k) c)) = k"
  using mult_le_mono1[of "Suc i" n k] by simp

lemma length_rows_of:
  assumes "length c = n * k" and "\<forall>i \<in> set sel. i < n"
  shows "length (rows_of k c sel) = length sel * k"
  using assms(2)
  by (induction sel) (auto simp: rows_of_def length_row[OF _ assms(1)] simp del: length_take)

lemma nth_rows_of:
  assumes "length c = n * k" and "\<forall>i \<in> set sel. i < n" and "j < length sel" and "x < k"
  shows "rows_of k c sel ! (j * k + x) = c ! (sel ! j * k + x)"
  using assms(2,3)
proof (induction sel arbitrary: j)
  case (Cons i sel)
  have row: "length (take k (drop (i * k) c)) = k" and le: "i * k \<le> length c"
    using Cons.prems length_row[of i n c k] assms(1) by auto
  show ?case
  proof (cases j)
    case 0
    with row le assms(4) show ?thesis
      by (simp add: rows_of_def nth_append)
  next
    case (Suc j')
    have "rows_of k c (i # sel) ! (j * k + x) = rows_of k c sel ! (j' * k + x)"
      using row Suc by (simp add: rows_of_def nth_append)
    with Suc Cons show ?thesis by simp
  qed
qed simp

text \<open>Copying rows one after the other into a \<open>k * k\<close> array gives the matrix of these rows.\<close>

lemma copy_row_rows_of:
  assumes "length c = n * k" and "i < n" and "j * k + k \<le> length e"
    and "take (j * k) e = rows_of k c sel"
  shows "take (Suc j * k) (copy_row k e j c i) = rows_of k c (sel @ [i])"
    and "length (copy_row k e j c i) = length e"
proof -
  define R where "R = take k (drop (i * k) c)"
  have R: "length R = k"
    unfolding R_def by (rule length_row[OF assms(2,1)])
  have P: "length (rows_of k c sel) = j * k"
    using assms(3,4) by (metis add_leE length_take min.absorb2)
  show "take (Suc j * k) (copy_row k e j c i) = rows_of k c (sel @ [i])"
    using R P by (simp add: copy_row_def assms(4) flip: R_def) (simp add: rows_of_def R_def)
  show "length (copy_row k e j c i) = length e"
    using R P assms(3) by (simp add: copy_row_def assms(4) flip: R_def)
qed

fun sel_from :: "nat \<Rightarrow> int list \<Rightarrow> nat list" where
  "sel_from j [] = []"
| "sel_from j (s # ss) = (if s \<noteq> 0 then j # sel_from (Suc j) ss else sel_from (Suc j) ss)"

lemma sel_from_filter: "sel_from j ss = filter (\<lambda>i. ss ! (i - j) \<noteq> 0) [j..<j + length ss]"
proof (induction ss arbitrary: j)
  case (Cons s ss)
  have "[j..<j + length (s # ss)] = j # [Suc j..<Suc j + length ss]"
    by (subst upt_conv_Cons) simp_all
  moreover have "filter (\<lambda>i. (s # ss) ! (i - j) \<noteq> 0) [Suc j..<Suc j + length ss] =
      filter (\<lambda>i. ss ! (i - Suc j) \<noteq> 0) [Suc j..<Suc j + length ss]"
    by (rule filter_cong) (auto simp: nth_Cons' Suc_le_eq)
  ultimately show ?case by (cases "s = 0") (simp_all add: Cons del: upt_Suc)
qed simp

lemma sel_from_avail: "sel_from 0 status = avail status"
  by (simp add: sel_from_filter)

lemma length_sel_from: "length (sel_from j ss) = length (filter (\<lambda>s. s \<noteq> 0) ss)"
  by (induction ss arbitrary: j) simp_all

lemma select_rows_rows_of:
  assumes "length c = n * k" and "j + length ss \<le> n" and "length e = k * k"
    and "take (cnt * k) e = rows_of k c sel" and "cnt + length (sel_from j ss) \<le> k"
  shows "length (select_rows k c j ss cnt e) = k * k \<and>
    take ((cnt + length (sel_from j ss)) * k) (select_rows k c j ss cnt e) =
      rows_of k c (sel @ sel_from j ss)"
  using assms(2-)
proof (induction ss arbitrary: j cnt e sel)
  case (Cons s ss)
  show ?case
  proof (cases "s = 0")
    case True
    with Cons.IH[of "Suc j" e cnt sel] Cons.prems show ?thesis by simp
  next
    case False
    have bound: "cnt * k + k \<le> length e"
      using Cons.prems(2,4) False mult_le_mono1[of "Suc cnt" k k] by simp
    note cp = copy_row_rows_of[OF assms(1) _ bound Cons.prems(3), of j]
    show ?thesis
      using Cons.IH[of "Suc j" "copy_row k e cnt c j" "Suc cnt" "sel @ [j]"] Cons.prems cp False
      by simp
  qed
qed simp

lemma count_status_eq:
  "count_status idx i ss cnt =
    (if idx \<in> set (sel_from i ss) then None else Some (cnt + length (sel_from i ss)))"
proof (induction ss arbitrary: i cnt)
  case (Cons s ss)
  have "i \<notin> set (sel_from (Suc i) ss)"
    by (simp add: sel_from_filter)
  with Cons show ?case by auto
qed simp

section \<open>Decoding\<close>

text \<open>
  A stripe: block \<open>r\<close> is the combination of the data blocks that row \<open>r\<close> of the complete
  encoding matrix prescribes.
\<close>

definition is_stripe :: "gf_ops \<Rightarrow> nat \<Rightarrow> byte list \<Rightarrow> regions \<Rightarrow> nat \<Rightarrow> regions \<Rightarrow> bool" where
  "is_stripe G k c data sz blocks \<longleftrightarrow>
     length data = k \<and>
     (\<forall>r < length blocks. blocks ! r = lin_comb G (take k (drop (r * k) c)) data sz)"

definition left_invertible :: "gf_ops \<Rightarrow> nat \<Rightarrow> byte list \<Rightarrow> bool" where
  "left_invertible G n a \<longleftrightarrow> (\<exists>l. \<forall>r < n. \<forall>c < n.
     xor_sum (\<lambda>x. gf_multiply G (l r x) (a ! (x * n + c))) n = (if r = c then 1 else 0))"

context gf_complete
begin

lemma decode_rows:
  assumes c: "length c = n * k" and sel: "length sel = k" "\<forall>i \<in> set sel. i < n" and idx: "idx < n"
    and inv: "left_invertible G k (rows_of k c sel)"
    and coef: "coef = jerasure_matrix_multiply G (drop (idx * k) c)
      (snd (snd (jerasure_invert_matrix G (rows_of k c sel) k))) 1 k k k"
  shows "xor_sum (\<lambda>j. gf_multiply G (coef ! j) (xor_sum (\<lambda>x. gf_multiply G (c ! (sel ! j * k + x)) (d x)) k)) k =
    xor_sum (\<lambda>x. gf_multiply G (c ! (idx * k + x)) (d x)) k"
proof -
  let ?e = "rows_of k c sel"
  have len: "length ?e = k * k"
    using length_rows_of[OF c sel(2)] sel(1) by simp
  obtain mat D where D: "jerasure_invert_matrix G ?e k = (0, mat, D)"
    using invert_matrix_complete[OF len] inv
    by (cases "jerasure_invert_matrix G ?e k") (auto simp: left_invertible_def)
  have le: "idx * k \<le> length c"
    using idx c by (simp add: mult_le_mono1)
  have coef_j: "coef ! j = xor_sum (\<lambda>x. gf_multiply G (c ! (idx * k + x)) (ent k D x j)) k"
    if "j < k" for j
    using matrix_multiply_nth[of 0 1 j k G "drop (idx * k) c" D k k] that D le by (simp add: coef)
  have e: "c ! (sel ! j * k + x) = ent k ?e j x" if "j < k" "x < k" for j x
    using nth_rows_of[OF c sel(2), of j x] that sel(1) by simp
  have "xor_sum (\<lambda>j. gf_multiply G (coef ! j) (xor_sum (\<lambda>x. gf_multiply G (c ! (sel ! j * k + x)) (d x)) k)) k =
      xor_sum (\<lambda>j. xor_sum (\<lambda>y. gf_multiply G (c ! (idx * k + y)) (xor_sum (\<lambda>x.
        gf_multiply G (gf_multiply G (ent k D y j) (ent k ?e j x)) (d x)) k)) k) k"
    by (rule xs.cong) (simp_all add: coef_j e mult_xor_sum mult_xor_sum_left mult_assoc
        mult_left_commute cong: xs.cong_simp, rule xs.swap)
  also have "\<dots> = xor_sum (\<lambda>y. gf_multiply G (c ! (idx * k + y)) (xor_sum (\<lambda>x.
        gf_multiply G (xor_sum (\<lambda>j. gf_multiply G (ent k D y j) (ent k ?e j x)) k) (d x)) k)) k"
    by (subst xs.swap, rule xs.cong, rule refl, subst mult_xor_sum[symmetric], subst xs.swap)
      (simp only: mult_xor_sum_left)
  also have "\<dots> = xor_sum (\<lambda>y. gf_multiply G (c ! (idx * k + y)) (xor_sum (\<lambda>x.
        if y = x then d x else 0) k)) k"
    by (intro xs.cong arg_cong[where f = "gf_multiply G _"] refl)
      (simp add: invert_matrix_sound[OF D len] mult_one)
  also have "\<dots> = xor_sum (\<lambda>x. gf_multiply G (c ! (idx * k + x)) (d x)) k"
    by (simp add: xs.delta' cong: xs.cong_simp)
  finally show ?thesis .
qed

text \<open>
  The same on whole blocks: the coefficients turn the selected blocks of a stripe into block
  \<open>idx\<close>.
\<close>

lemma decode_blocks:
  assumes c: "length c = n * k" and sel: "length sel = k" "\<forall>i \<in> set sel. i < n" and idx: "idx < n"
    and inv: "left_invertible G k (rows_of k c sel)"
    and coef: "coef = jerasure_matrix_multiply G (drop (idx * k) c)
      (snd (snd (jerasure_invert_matrix G (rows_of k c sel) k))) 1 k k k"
    and stripe: "is_stripe G k c data sz blocks" "length blocks = n"
  shows "lin_comb G coef (map ((!) blocks) sel) sz = blocks ! idx"
proof (rule nth_equalityI)
  have blk: "blocks ! r ! b = xor_sum (\<lambda>x. gf_multiply G (c ! (r * k + x)) (data ! x ! b)) k"
    if "r < n" "b < sz" for r b
  proof -
    have "r * k \<le> length c"
      using that c by (simp add: mult_le_mono1)
    then show ?thesis
      using that stripe c length_row[OF that(1) c]
      by (simp add: is_stripe_def lin_byte_def cong: xs.cong_simp)
  qed
  show "length (lin_comb G coef (map ((!) blocks) sel) sz) = length (blocks ! idx)"
    using stripe idx by (simp add: is_stripe_def)
  fix b assume "b < length (lin_comb G coef (map ((!) blocks) sel) sz)"
  then have b: "b < sz" by simp
  have "lin_comb G coef (map ((!) blocks) sel) sz ! b =
      xor_sum (\<lambda>j. gf_multiply G (coef ! j)
        (xor_sum (\<lambda>x. gf_multiply G (c ! (sel ! j * k + x)) (data ! x ! b)) k)) k"
    using b sel by (simp add: lin_byte_def blk cong: xs.cong_simp)
  also have "\<dots> = xor_sum (\<lambda>x. gf_multiply G (c ! (idx * k + x)) (data ! x ! b)) k"
    by (rule decode_rows[OF c sel idx inv coef])
  finally show "lin_comb G coef (map ((!) blocks) sel) sz ! b = blocks ! idx ! b"
    by (simp add: blk[OF idx b])
qed

end

text \<open>
  The coefficients \<open>getCoefficient_multi\<close> returns are those of the available blocks.
\<close>

lemma getCoefficient_multi_eq:
  assumes "length status = n" and "k \<le> n" and "length (rs_encMat rs) = k * (n - k)"
    and "rs_ecK rs = k" "rs_ecN rs = n"
  shows "getCoefficient_multi G rs idx status =
    (if idx \<in> set (avail status) \<or> length (avail status) \<noteq> k then None
     else Some (jerasure_matrix_multiply G (drop (idx * k) (complete_enc_mat k n (rs_encMat rs)))
       (snd (snd (jerasure_invert_matrix G
         (rows_of k (complete_enc_mat k n (rs_encMat rs)) (avail status)) k))) 1 k k k))"
proof -
  let ?c = "complete_enc_mat k n (rs_encMat rs)"
  have "select_rows k ?c 0 status 0 (replicate (k * k) 0) = rows_of k ?c (avail status)"
    if "length (avail status) = k"
    using select_rows_rows_of[of ?c n k 0 status "replicate (k * k) 0" 0 "[]"] that assms
      length_complete_enc_mat[OF assms(2,3)]
    by (auto simp: sel_from_avail rows_of_def)
  then show ?thesis
    using assms
    by (auto simp: getCoefficient_multi_def Let_def count_status_eq sel_from_avail split: prod.splits)
qed

text \<open>The two copying loops of the constructor collect consecutive rows.\<close>

lemma copy_rows_upt:
  assumes "length c = n * k" and "b \<le> n" and "length e = k * k" and "off \<le> a" and "a \<le> b"
    and "b - off \<le> k" and "take ((a - off) * k) e = rows_of k c sel"
  shows "length (fold (\<lambda>j e. copy_row k e (j - off) c j) [a..<b] e) = k * k \<and>
    take ((b - off) * k) (fold (\<lambda>j e. copy_row k e (j - off) c j) [a..<b] e) =
      rows_of k c (sel @ [a..<b])"
  using assms(2,5,6)
proof (induction b)
  case 0
  then show ?case using assms by simp
next
  case (Suc b)
  show ?case
  proof (cases "a = Suc b")
    case False
    define e' where "e' = fold (\<lambda>j e. copy_row k e (j - off) c j) [a..<b] e"
    have IH: "length e' = k * k" "take ((b - off) * k) e' = rows_of k c (sel @ [a..<b])"
      using Suc False by (auto simp: e'_def)
    have bound: "(b - off) * k + k \<le> length e'"
      using Suc.prems assms(4) False IH(1) mult_le_mono1[of "Suc (b - off)" k k]
      by (simp add: Suc_diff_le)
    have "Suc b - off = Suc (b - off)"
      using Suc.prems assms(4) False by simp
    then show ?thesis
      using copy_row_rows_of[OF assms(1) _ bound IH(2)] Suc.prems False IH(1) by (simp flip: e'_def)
  qed (use assms in simp)
qed

text \<open>The elimination keeps the size of the matrix it works in.\<close>

lemma length_fold_update:
  assumes "\<And>x m. length (f x m) = length m"
  shows "length (fold f xs m) = length m"
  by (induction xs arbitrary: m) (simp_all add: assms)

lemma length_fst_fold:
  assumes "\<And>x st. length (fst (f x st)) = length (fst st)"
  shows "length (fst (fold f xs st)) = length (fst st)"
  by (induction xs arbitrary: st) (simp_all add: assms)

lemma length_row_ops [simp]:
  "length (scale_row G n r c m) = length m"
  "length (xor_row n r s m) = length m"
  "length (addmul_row G n r s c m) = length m"
  by (simp_all add: scale_row_def xor_row_def addmul_row_def length_fold_update)

lemma length_triangularise:
  "length (fst (snd (triangularise G n is st))) = length (fst st)"
proof (induction "is" arbitrary: st)
  case (Cons i "is")
  have "length (fst (eliminate_row G n i j st)) = length (fst st)" for j st
    by (simp add: eliminate_row_def Let_def split: prod.splits)
  then have "length (fst (fold (eliminate_row G n i) js st)) = length (fst st)" for js st
    by (rule length_fst_fold)
  with Cons show ?case
    by (auto simp: pivot_column_def scale_pivot_def Let_def bind_eq_Some_conv
        split: option.splits prod.splits if_splits)
qed simp

lemma length_invert_matrix: "length (fst (snd (jerasure_invert_matrix G m n))) = length m"
proof -
  have "length (fst (back_row G n i j st)) = length (fst st)" for i j st
    by (simp add: back_row_def Let_def split: prod.splits)
  then have "length (fst (back_substitute G n st)) = length (fst st)" for st
    unfolding back_substitute_def by (intro length_fst_fold)
  then show ?thesis
    using length_triangularise[of G n "[0..<n]" "(m, identity_matrix n)"]
    by (auto simp: jerasure_invert_matrix_def split: prod.splits)
qed

definition helper_rows :: "nat \<Rightarrow> nat \<Rightarrow> nat list" where
  "helper_rows k i = [0..<min i k] @ [i + 1..<k + 1]"

lemma length_helper_rows: "length (helper_rows k i) = k"
  by (auto simp: helper_rows_def min_def)

lemma set_helper_rows: "set (helper_rows k i) = {j. j \<le> k \<and> j \<noteq> i} - (if k < i then {k} else {})"
  by (auto simp: helper_rows_def)

lemma init_round_rows:
  assumes "length c = n * k" and "k < n" and "length e = k * k"
    and "e1 = fold (\<lambda>j e. copy_row k e j c j) [0..<min i k] e"
  shows "fold (\<lambda>j e. copy_row k e (j - 1) c j) [i + 1..<k + 1] e1 = rows_of k c (helper_rows k i)"
proof -
  have 1: "length e1 = k * k \<and> take (min i k * k) e1 = rows_of k c [0..<min i k]"
    using copy_rows_upt[of c n k "min i k" e 0 0 "[]"] assms by (auto simp: rows_of_def)
  show ?thesis
  proof (cases "i \<le> k")
    case True
    then show ?thesis
      using copy_rows_upt[of c n k "k + 1" e1 1 "i + 1" "[0..<min i k]"] 1 assms(1,2)
      by (auto simp: helper_rows_def min_absorb1 simp del: upt_Suc)
  next
    case False
    then show ?thesis using 1 by (auto simp: helper_rows_def min_absorb2)
  qed
qed

lemma rs_init_round_eq:
  assumes "length c = n * k" and "k < n" and "length e = k * k"
  shows "length (fst (rs_init_round G k c i (e, cs))) = k * k \<and>
    snd (rs_init_round G k c i (e, cs)) = cs @ [jerasure_matrix_multiply G (drop (i * k) c)
      (snd (snd (jerasure_invert_matrix G (rows_of k c (helper_rows k i)) k))) 1 k k k]"
proof -
  let ?E = "rows_of k c (helper_rows k i)"
  have "length ?E = k * k"
    using length_rows_of[OF assms(1), of "helper_rows k i"] assms(2) length_helper_rows
      set_helper_rows by auto
  then show ?thesis
    using init_round_rows[OF assms refl, of i] length_invert_matrix[of G ?E k]
    by (cases "jerasure_invert_matrix G ?E k") (simp add: rs_init_round_def Let_def del: upt_Suc)
qed

lemma RSUtil_coefficients:
  assumes "k < n" and "length encMat = k * (n - k)"
  defines "c \<equiv> complete_enc_mat k n encMat"
  shows "rs_coefficient (RSUtil G k n encMat) = map (\<lambda>i. jerasure_matrix_multiply G (drop (i * k) c)
    (snd (snd (jerasure_invert_matrix G (rows_of k c (helper_rows k i)) k))) 1 k k k) [0..<n]"
proof -
  let ?coef = "\<lambda>i. jerasure_matrix_multiply G (drop (i * k) c)
    (snd (snd (jerasure_invert_matrix G (rows_of k c (helper_rows k i)) k))) 1 k k k"
  have c: "length c = n * k"
    using assms by (simp add: c_def length_complete_enc_mat)
  have "length (fst (fold (rs_init_round G k c) [0..<m] (replicate (k * k) 0, []))) = k * k \<and>
      snd (fold (rs_init_round G k c) [0..<m] (replicate (k * k) 0, [])) = map ?coef [0..<m]" for m
  proof (induction m)
    case (Suc m)
    obtain e cs where st: "fold (rs_init_round G k c) [0..<m] (replicate (k * k) 0, []) = (e, cs)"
      by fastforce
    have e: "length e = k * k" "cs = map ?coef [0..<m]"
      using Suc st by simp_all
    show ?case
      using rs_init_round_eq[OF c assms(1) e(1), of G m cs] e(2) by (simp add: st)
  qed simp
  from this[of n] show ?thesis
    by (cases "fold (rs_init_round G k c) [0..<n] (replicate (k * k) 0, [])")
      (simp add: RSUtil_def Let_def flip: c_def)
qed

lemma RSUtil_coefficient:
  assumes "k < n" and "length encMat = k * (n - k)" and "i < n"
  defines "c \<equiv> complete_enc_mat k n encMat"
  shows "getCoefficient (RSUtil G k n encMat) i = Inr (jerasure_matrix_multiply G (drop (i * k) c)
    (snd (snd (jerasure_invert_matrix G (rows_of k c (helper_rows k i)) k))) 1 k k k)"
  using RSUtil_coefficients[OF assms(1,2), of G] assms(3) by (simp add: getCoefficient_def c_def)

section \<open>Properties\<close>

text \<open>
  C19. Decoding with \<open>getCoefficient_multi\<close>: on a stripe of \<open>n\<close> blocks it returns no coefficients
  exactly when the wanted block is itself available or the number of available blocks is not
  \<open>k\<close>; otherwise, when the selected rows of the encoding matrix are invertible, the combination
  of the available blocks with the returned coefficients is the lost block.
\<close>

theorem getCoefficient_multi_decodes:
  assumes "gf_complete G" and "length status = n" and "k \<le> n" and "idx < n"
    and "rs_ecK rs = k" and "rs_ecN rs = n" and "length (rs_encMat rs) = k * (n - k)"
    and "is_stripe G k (complete_enc_mat k n (rs_encMat rs)) data sz blocks"
    and "length blocks = n"
    and "left_invertible G k (rows_of k (complete_enc_mat k n (rs_encMat rs)) (avail status))"
  shows "case getCoefficient_multi G rs idx status of
      None \<Rightarrow> idx \<in> set (avail status) \<or> length (avail status) \<noteq> k
    | Some coef \<Rightarrow> idx \<notin> set (avail status) \<and> length (avail status) = k \<and>
        lin_comb G coef (map ((!) blocks) (avail status)) sz = blocks ! idx"
proof (cases "idx \<in> set (avail status) \<or> length (avail status) \<noteq> k")
  case True
  then show ?thesis
    using getCoefficient_multi_eq[OF assms(2,3,7,5,6)] by auto
next
  case False
  have "\<forall>i \<in> set (avail status). i < n"
    using assms(2) by simp
  then show ?thesis
    using False getCoefficient_multi_eq[OF assms(2,3,7,5,6)]
      gf_complete.decode_blocks[OF assms(1) length_complete_enc_mat[OF assms(3,7)] _ _ assms(4)
        assms(10) refl assms(8,9)]
    by simp
qed

text \<open>
  A concrete stripe for the witnesses: \<open>k = 2\<close>, \<open>n = 3\<close>, one parity block
  \<open>d\<^sub>0 + 2 * d\<^sub>1\<close>, two bytes per block.
\<close>

abbreviation sample_rs :: rs_util where
  "sample_rs \<equiv> \<lparr>rs_ecK = 2, rs_ecN = 3, rs_encMat = [1, 2], rs_coefficient = []\<rparr>"

lemma sample_complete: "complete_enc_mat 2 3 [1, 2] = [1, 2, 1, 0, 0, 1]"
  by (simp add: complete_enc_mat_def eval_nat_numeral)

lemma sample_stripe:
  "is_stripe gf256 2 [1, 2, 1, 0, 0, 1] [[3, 1], [5, 2]] 2 [[9, 5], [3, 1], [5, 2]]"
  by (simp add: is_stripe_def lin_region_def lin_byte_def gf256_eval)

lemma sample_invertible: "left_invertible gf256 2 [1, 2, 1, 0]"
  unfolding left_invertible_def
  by (rule exI[of _ "\<lambda>r x. [0, 1, 142, 142] ! (2 * r + x)"]) (simp add: gf256_eval)

lemma sample_rows: "rows_of 2 [1, 2, 1, 0, 0, 1] [0, 1] = [1, 2, 1, 0 :: byte]"
  by (simp add: rows_of_def)

theorem getCoefficient_multi_decodes_witness:
  "\<exists>coef. getCoefficient_multi gf256 sample_rs 2 [1, 1, 0] = Some coef \<and>
    lin_comb gf256 coef [[9, 5], [3, 1]] 2 = [5, 2]"
proof -
  have avail: "avail [1, 1, 0] = [0, 1]"
    by (simp add: eval_nat_numeral)
  show ?thesis
    using getCoefficient_multi_decodes[OF gf256.gf_complete_axioms, of "[1, 1, 0]" 3 2 2 sample_rs
        "[[3, 1], [5, 2]]" 2 "[[9, 5], [3, 1], [5, 2]]"] sample_stripe sample_invertible sample_rows
    unfolding avail by (simp add: sample_complete split: option.splits)
qed

text \<open>
  C20. The coefficients the constructor prepares repair every single failure: row \<open>i\<close> of
  \<open>_coefficient\<close> turns the helper blocks (the first \<open>k\<close> blocks other than \<open>i\<close>) into block \<open>i\<close>.
\<close>

theorem RSUtil_repairs_single_failure:
  assumes "gf_complete G" and "k < n" and "i < n" and "length encMat = k * (n - k)"
    and "is_stripe G k (complete_enc_mat k n encMat) data sz blocks" and "length blocks = n"
    and "left_invertible G k (rows_of k (complete_enc_mat k n encMat) (helper_rows k i))"
  shows "\<exists>coef. getCoefficient (RSUtil G k n encMat) i = Inr coef \<and>
    lin_comb G coef (map ((!) blocks) (helper_rows k i)) sz = blocks ! i"
proof -
  have "\<forall>j \<in> set (helper_rows k i). j < n"
    using assms(2) by (auto simp: set_helper_rows)
  then show ?thesis
    using RSUtil_coefficient[OF assms(2,4,3)] length_helper_rows[of k i]
      gf_complete.decode_blocks[OF assms(1) length_complete_enc_mat[OF less_imp_le[OF assms(2)] assms(4)]
        _ _ assms(3,7) refl assms(5,6)]
    by simp
qed

theorem RSUtil_repairs_single_failure_witness:
  "\<exists>coef. getCoefficient (RSUtil gf256 2 3 [1, 2]) 2 = Inr coef \<and>
    lin_comb gf256 coef [[9, 5], [3, 1]] 2 = [5, 2]"
proof -
  have sel: "helper_rows 2 2 = [0, 1]"
    by (simp add: helper_rows_def eval_nat_numeral)
  show ?thesis
    using RSUtil_repairs_single_failure[OF gf256.gf_complete_axioms, of 2 3 2 "[1, 2]"
        "[[3, 1], [5, 2]]" 2 "[[9, 5], [3, 1], [5, 2]]"] sample_stripe sample_invertible sample_rows
    unfolding sel by (simp add: sample_complete)
qed

end
