(* ===== verification/Repair_Base.thy ===== *)
theory Repair_Base
  imports Cord_Base
begin

text \<open>
  \<open>Coordinator.cc\<close>, the base class of the repair coordinators, and the part of \<open>DRWorker.cc\<close> that
  finds a peer: the assignment of the helpers to the queues of the command distributors, the
  binary searches \<open>isRequestorHolder\<close>, \<open>findCtx\<close> and \<open>searchCtx\<close>, and one round of
  \<open>cmdDistributor\<close>. The searches are specified by \<open>index_of\<close>, the position in the list.
\<close>

section \<open>Configuration of a repair\<close>

record repair_config = config +
  localIP :: ip_addr
  packetCnt :: nat
  packetSize :: nat
  packetSkipSize :: nat
  fileSysType :: string
  ECPipePolicy :: string
  pathSelectionEnabled :: bool
  shuffle :: bool
  rackAware :: bool
  rackInfos :: "(ip_addr, string) omap"
  coCmdDistThreadNum :: nat
  loadbalance :: bool
  msscheduling :: bool
  DRPolicy :: string

section \<open>Distributor queues\<close>

text \<open>\<open>rightBounder\<close>: the first bound, then one per further distributor.\<close>

fun more_bounders :: "nat \<Rightarrow> nat \<Rightarrow> nat \<Rightarrow> nat \<Rightarrow> nat \<Rightarrow> nat list" where
  "more_bounders slaveCnt d i 0 b = []"
| "more_bounders slaveCnt d i (Suc n) b =
     (let b' = (if slaveCnt mod d \<le> i then b + slaveCnt div d else b + slaveCnt div d + 1)
      in b' # more_bounders slaveCnt d (Suc i) n b')"

definition rightBounder :: "nat \<Rightarrow> nat \<Rightarrow> nat list res" where
  "rightBounder slaveCnt d =
     (if d = 0 then Inl Div_By_Zero
      else let b = (if slaveCnt mod d = 0 then slaveCnt div d else slaveCnt div d + 1)
           in Inr (b # more_bounders slaveCnt d 1 (d - 1) b))"

definition disQ :: "nat \<Rightarrow> string" where
  "disQ i = ''disQ:'' @ nat_to_string i"

text \<open>The loop of \<open>init\<close> that fills \<open>_ip2Ctx\<close>; the connection is named by the address.\<close>

fun fill_ctx :: "nat list \<Rightarrow> nat \<Rightarrow> nat \<Rightarrow> ip_addr list \<Rightarrow> (ip_addr \<times> string) list res" where
  "fill_ctx bounds idx rBounderId [] = Inr []"
| "fill_ctx bounds idx rBounderId (ip # ips) =
     bindE (atE bounds (int rBounderId)) (\<lambda>b.
     let r = (if b < Suc idx then Suc rBounderId else rBounderId)
     in bindE (fill_ctx bounds (Suc idx) r ips) (\<lambda>cs. Inr ((ip, disQ r) # cs)))"

definition init_ctx :: "repair_config \<Rightarrow> (ip_addr \<times> string) list res" where
  "init_ctx conf =
     bindE (rightBounder (length (helpersIPs conf)) (coCmdDistThreadNum conf)) (\<lambda>bounds.
     fill_ctx bounds 0 0 (helpersIPs conf))"

section \<open>Binary searches\<close>

text \<open>
  The loop of \<open>isRequestorHolder\<close> and of \<open>findCtx\<close>, whose variables are \<open>int\<close>s: it ends at a
  hit or where the range is down to one entry.
\<close>

function bsearch_loop :: "'k::linorder list \<Rightarrow> 'k \<Rightarrow> int \<Rightarrow> int \<Rightarrow> int res" where
  "bsearch_loop ks target sid eid =
     (if sid < eid
      then let mid = (sid + eid) div 2
           in bindE (atE ks mid) (\<lambda>k.
             if k = target then Inr mid
             else if target < k then bsearch_loop ks target sid (mid - 1)
             else bsearch_loop ks target (mid + 1) eid)
      else Inr sid)"
  by pat_completeness auto
termination
  by (relation "measure (\<lambda>(ks, target, sid, eid). nat (eid - sid))") auto

declare bsearch_loop.simps [simp del]

definition isRequestorHolder :: "(ip_addr \<times> string) list \<Rightarrow> ip_addr \<Rightarrow> int res" where
  "isRequestorHolder stripe requestorIP =
     bindE (bsearch_loop (map fst stripe) requestorIP 0 (int (length stripe) - 1)) (\<lambda>sid.
     bindE (atE (map fst stripe) sid) (\<lambda>ip. Inr (if ip = requestorIP then sid else - 1)))"

text \<open>\<open>DRWorker::findCtx\<close> on the sorted \<open>_slavesCtx\<close>; \<open>NULL\<close> is \<open>None\<close>.\<close>

definition findCtx :: "ip_addr list \<Rightarrow> ip_addr \<Rightarrow> ip_addr option res" where
  "findCtx slavesCtx ip =
     bindE (bsearch_loop slavesCtx ip 0 (int (length slavesCtx) - 1)) (\<lambda>sid.
     bindE (atE slavesCtx sid) (\<lambda>k. Inr (if k = ip then Some k else None)))"

text \<open>
  \<open>Coordinator::searchCtx\<close>: the bounds are of type \<open>size_t\<close>, the middle is an \<open>int\<close>. \<open>eId = mid - 1\<close>
  wraps around at \<open>mid = 0\<close>.
\<close>

partial_function (option) search_loop ::
    "ip_addr list \<Rightarrow> ip_addr \<Rightarrow> 64 word \<Rightarrow> 64 word \<Rightarrow> int res option" where
  "search_loop arr target sId eId =
     (if sId < eId
      then let mid = sint (ucast ((sId + eId) div 2) :: 32 word)
           in case atE arr mid of
                Inl e \<Rightarrow> Some (Inl e)
              | Inr a \<Rightarrow>
                  if a < target then search_loop arr target (word_of_int (mid + 1)) eId
                  else if target < a then search_loop arr target sId (word_of_int (mid - 1))
                  else Some (Inr mid)
      else Some (Inr (sint (ucast sId :: 32 word))))"

definition searchCtx :: "(ip_addr \<times> string) list \<Rightarrow> ip_addr \<Rightarrow> int \<Rightarrow> int \<Rightarrow> int res" where
  "searchCtx arr target sId eId =
     (case search_loop (map fst arr) target (word_of_int sId) (word_of_int eId) of
        None \<Rightarrow> Inl Diverges
      | Some r \<Rightarrow> r)"

section \<open>The command distributor\<close>

text \<open>
  One round of \<open>cmdDistributor\<close>: a command of queue \<open>disQ:idx\<close> goes, without its first four
  bytes, to the helper those bytes name.
\<close>

definition cmdDistributor :: "repair_config \<Rightarrow> (ip_addr \<times> string) list \<Rightarrow> nat \<Rightarrow> world \<Rightarrow> world res" where
  "cmdDistributor conf ip2Ctx idx w =
     bindE (blpop (coordinatorIP conf) (disQ idx) w) (\<lambda>(msg, w1).
     bindE (get_int msg 0) (\<lambda>currIdx.
     bindE (atE ip2Ctx currIdx) (\<lambda>(ip, _).
     bindE (memcpy_from msg 4 (int (length msg) - 4)) (\<lambda>cmd.
     Inr (rpush ip ''dr_cmds'' cmd w1)))))"

section \<open>The searches find what is there\<close>

definition index_of :: "'a \<Rightarrow> 'a list \<Rightarrow> nat" where
  "index_of x xs = length (takeWhile (\<lambda>y. y \<noteq> x) xs)"

lemma index_of_nth:
  assumes "distinct xs" and "i < length xs"
  shows "index_of (xs ! i) xs = i"
proof -
  have "takeWhile (\<lambda>y. y \<noteq> xs ! i) xs = take i xs"
    using assms by (intro takeWhile_eq_take_P_nth) (auto simp: nth_eq_iff_index_eq)
  then show ?thesis using assms(2) by (simp add: index_of_def)
qed

lemma nth_index_of: "x \<in> set xs \<Longrightarrow> xs ! index_of x xs = x" "x \<in> set xs \<Longrightarrow> index_of x xs < length xs"
proof -
  assume x: "x \<in> set xs"
  show lt: "index_of x xs < length xs"
    unfolding index_of_def using x by (induction xs) auto
  then show "xs ! index_of x xs = x"
    using nth_length_takeWhile[of "\<lambda>y. y \<noteq> x" xs] by (simp add: index_of_def)
qed

text \<open>The half of a strictly sorted list that still holds the target.\<close>

lemma sorted_nth_cmp:
  assumes "sorted_wrt (<) (ks :: 'k::linorder list)" and "i < length ks" and "j < length ks"
  shows "ks ! i < ks ! j \<longleftrightarrow> i < j"
  using assms sorted_wrt_nth_less[of "(<)" ks] by (metis linorder_neqE_nat order_less_asym order_less_irrefl)

lemma bsearch_step:
  assumes "sid < eid" and "mid = (sid + eid) div 2" and "0 \<le> mid" and "mid < int (length ks)"
  shows "bsearch_loop ks target sid eid =
    (if ks ! nat mid = target then Inr mid
     else if target < ks ! nat mid then bsearch_loop ks target sid (mid - 1)
     else bsearch_loop ks target (mid + 1) eid)"
proof -
  have at: "atE ks mid = Inr (ks ! nat mid)"
    using assms(3,4) by simp
  show ?thesis
    using assms(1) unfolding assms(2)
    by (subst bsearch_loop.simps) (simp only: Let_def at[unfolded assms(2)] bindE_Inr if_True)
qed

text \<open>On any list the loop ends inside the list; on a sorted one it ends at the target.\<close>

lemma bsearch_loop_range:
  assumes "0 \<le> sid" and "sid < int (length ks)" and "eid < int (length ks)"
  shows "\<exists>i < length ks. bsearch_loop ks target sid eid = Inr (int i)"
  using assms
proof (induction ks target sid eid rule: bsearch_loop.induct)
  case (1 ks target sid eid)
  show ?case
  proof (cases "sid < eid")
    case False
    then show ?thesis
      using 1(3-) by (subst bsearch_loop.simps) (auto intro: exI[of _ "nat sid"])
  next
    case True
    define mid where "mid = (sid + eid) div 2"
    have mid: "0 \<le> mid" "mid < eid" "mid < int (length ks)"
      using True 1(3-) by (auto simp: mid_def)
    then have at: "atE ks mid = Inr (ks ! nat mid)" by simp
    note step = bsearch_step[OF True mid_def mid(1,3), of target]
    consider "ks ! nat mid = target" | "target < ks ! nat mid" | "ks ! nat mid < target"
      by (rule linorder_cases[of "ks ! nat mid" target])
    then show ?thesis
    proof cases
      case 1
      then show ?thesis
        using mid by (intro exI[of _ "nat mid"]) (simp add: step)
    next
      case 2
      then show ?thesis
        using "1.IH"(1)[OF True mid_def] mid 1(3,4) by (auto simp: step)
    next
      case 3
      then show ?thesis
        using "1.IH"(2)[OF True mid_def] mid 1(5) by (auto simp: step)
    qed
  qed
qed

lemma bsearch_loop_hit:
  assumes "sorted_wrt (<) ks" and "0 \<le> sid" and "sid \<le> int j" and "int j \<le> eid"
    and "eid < int (length ks)"
  shows "bsearch_loop ks (ks ! j) sid eid = Inr (int j)"
  using assms
proof (induction ks "ks ! j" sid eid rule: bsearch_loop.induct)
  case (1 ks sid eid)
  show ?case
  proof (cases "sid < eid")
    case False
    then show ?thesis
      using 1(4-) by (subst bsearch_loop.simps) simp
  next
    case True
    define mid where "mid = (sid + eid) div 2"
    have mid: "0 \<le> mid" "mid < eid"
      using True 1(4-) by (auto simp: mid_def)
    then have at: "atE ks mid = Inr (ks ! nat mid)"
      using 1(7) by simp
    have cmp: "ks ! nat mid < ks ! j \<longleftrightarrow> mid < int j" "ks ! j < ks ! nat mid \<longleftrightarrow> int j < mid"
      using sorted_nth_cmp[OF 1(3)] mid 1(6,7) by auto
    have "mid < int (length ks)" using mid 1(7) by simp
    note step = bsearch_step[OF True mid_def mid(1) this, of "ks ! j"]
    consider "mid = int j" | "int j < mid" | "mid < int j" by linarith
    then show ?thesis
    proof cases
      case 1
      then show ?thesis by (simp add: step)
    next
      case 2
      then show ?thesis
        using "1.hyps"(1)[OF True mid_def] cmp mid 1(3-7) by (auto simp: step)
    next
      case 3
      then show ?thesis
        using "1.hyps"(2)[OF True mid_def] cmp mid 1(3-7) by (auto simp: step)
    qed
  qed
qed

lemma bsearch_all:
  assumes "ks \<noteq> []"
  shows "\<exists>i < length ks. bsearch_loop ks x 0 (int (length ks) - 1) = Inr (int i) \<and>
    (x \<in> set ks \<and> sorted_wrt (<) ks \<longrightarrow> i = index_of x ks)"
proof (cases "x \<in> set ks \<and> sorted_wrt (<) ks")
  case True
  then have "bsearch_loop ks x 0 (int (length ks) - 1) = Inr (int (index_of x ks))"
    using bsearch_loop_hit[of ks 0 "index_of x ks" "int (length ks) - 1"] nth_index_of[of x ks] by simp
  then show ?thesis using True nth_index_of[of x ks] by auto
next
  case False
  then show ?thesis
    using bsearch_loop_range[of 0 ks "int (length ks) - 1" x] assms by auto
qed

lemma isRequestorHolder_eq:
  assumes "stripe \<noteq> []" and "ip \<in> fst ` set stripe \<Longrightarrow> sorted_wrt (<) (map fst stripe)"
  shows "isRequestorHolder stripe ip =
    Inr (if ip \<in> fst ` set stripe then int (index_of ip (map fst stripe)) else - 1)"
proof -
  let ?ks = "map fst stripe"
  obtain i where i: "i < length ?ks" "bsearch_loop ?ks ip 0 (int (length ?ks) - 1) = Inr (int i)"
    "ip \<in> set ?ks \<Longrightarrow> i = index_of ip ?ks"
    using bsearch_all[of ?ks ip] assms by auto
  then have run: "isRequestorHolder stripe ip = Inr (if ?ks ! i = ip then int i else - 1)"
    by (simp add: isRequestorHolder_def)
  show ?thesis
  proof (cases "ip \<in> set ?ks")
    case True
    with i(3) nth_index_of(1)[OF True] show ?thesis by (simp add: run)
  next
    case False
    then have "?ks ! i \<noteq> ip" using i(1) by (metis nth_mem)
    with False show ?thesis by (simp add: run)
  qed
qed

lemma findCtx_eq:
  assumes "ip \<in> set slaves" and "sorted_wrt (<) slaves"
  shows "findCtx slaves ip = Inr (Some ip)"
  using bsearch_all[of slaves ip] nth_index_of[OF assms(1)] assms
  by (cases slaves) (auto simp: findCtx_def)

text \<open>The arithmetic of \<open>searchCtx\<close> on lists of fewer than \<open>2\<^sup>31\<close> entries.\<close>

lemma sint_small:
  assumes "uint (w :: 64 word) = x" and "x < 2 ^ 31"
  shows "sint (ucast w :: 32 word) = x"
proof -
  have "0 \<le> x" using assms(1) by (metis unsigned_greater_eq)
  then show ?thesis
    using assms
    by (simp add: sint_uint unsigned_ucast_eq take_bit_int_eq_self signed_take_bit_int_eq_self)
qed

lemma search_mid:
  assumes "0 \<le> a" and "0 \<le> b" and "a < 2 ^ 31" and "b < 2 ^ 31"
  shows "sint (ucast ((word_of_int a + word_of_int b :: 64 word) div 2) :: 32 word) = (a + b) div 2"
proof -
  have "uint (word_of_int a + word_of_int b :: 64 word) = a + b"
    using assms by (simp add: uint_word_of_int take_bit_int_eq_self uint_word_ariths)
  then have "uint ((word_of_int a + word_of_int b :: 64 word) div 2) = (a + b) div 2"
    by (simp add: uint_div)
  then show ?thesis
    by (rule sint_small) (use assms in simp)
qed

lemma search_less:
  assumes "0 \<le> a" and "0 \<le> b" and "a < 2 ^ 31" and "b < 2 ^ 31"
  shows "(word_of_int a :: 64 word) < word_of_int b \<longleftrightarrow> a < b"
  using assms by (simp add: word_less_def uint_word_of_int take_bit_int_eq_self)

lemma search_loop_eq:
  assumes "sorted_wrt (<) arr" and "length arr < 2 ^ 31" and "0 \<le> a" and "a \<le> int j" and "int j \<le> b"
    and "b < int (length arr)"
  shows "search_loop arr (arr ! j) (word_of_int a) (word_of_int b) = Some (Inr (int j))"
  using assms(3-)
proof (induction "nat (b - a)" arbitrary: a b rule: less_induct)
  case less
  have small: "a < 2 ^ 31" "b < 2 ^ 31" "0 \<le> b"
    using less.prems assms(2) by (simp_all add: nat_less_iff)
  show ?case
  proof (cases "a < b")
    case False
    then have j: "int j = a" using less.prems by simp
    have "sint (ucast (word_of_int a :: 64 word) :: 32 word) = a"
      using less.prems(1) small(1)
      by (intro sint_small) (simp_all add: uint_word_of_int take_bit_int_eq_self)
    then show ?thesis
      using False search_less[OF less.prems(1) small(3,1,2)]
      by (subst search_loop.simps) (simp add: j)
  next
    case True
    define mid where "mid = (a + b) div 2"
    have mid: "0 \<le> mid" "a \<le> mid" "mid < b"
      using True less.prems(1) by (auto simp: mid_def)
    then have at: "atE arr mid = Inr (arr ! nat mid)"
      using less.prems(4) by simp
    have cmp: "arr ! nat mid < arr ! j \<longleftrightarrow> mid < int j" "arr ! j < arr ! nat mid \<longleftrightarrow> int j < mid"
      using sorted_nth_cmp[OF assms(1)] mid less.prems by auto
    have step: "search_loop arr (arr ! j) (word_of_int a) (word_of_int b) =
        (if arr ! nat mid < arr ! j then search_loop arr (arr ! j) (word_of_int (mid + 1)) (word_of_int b)
         else if arr ! j < arr ! nat mid then search_loop arr (arr ! j) (word_of_int a) (word_of_int (mid - 1))
         else Some (Inr mid))"
      using True search_less[OF less.prems(1) small(3,1,2)] search_mid[OF less.prems(1) small(3,1,2)]
      by (subst search_loop.simps) (simp add: Let_def at flip: mid_def)
    consider "mid = int j" | "int j < mid" | "mid < int j" by linarith
    then show ?thesis
      using less.hyps[of "mid - 1" a] less.hyps[of b "mid + 1"] mid cmp less.prems
      by cases (auto simp: step)
  qed
qed

lemma searchCtx_found:
  assumes "sorted_wrt (<) (map fst arr)" and "length arr < 2 ^ 31" and "ip \<in> fst ` set arr"
  shows "searchCtx arr ip 0 (int (length arr) - 1) = Inr (int (index_of ip (map fst arr)))"
  using search_loop_eq[of "map fst arr" 0 "index_of ip (map fst arr)" "int (length arr) - 1"]
    nth_index_of[of ip "map fst arr"] assms
  by (simp add: searchCtx_def)

section \<open>The shares of the distributors\<close>

text \<open>The helpers before share \<open>i\<close>: every share has \<open>n div d\<close> of them, the first \<open>n mod d\<close> one more.\<close>

definition share_start :: "nat \<Rightarrow> nat \<Rightarrow> nat \<Rightarrow> nat" where
  "share_start n d i = i * (n div d) + min i (n mod d)"

lemma share_start_Suc:
  "share_start n d (Suc i) = share_start n d i + n div d + (if i < n mod d then 1 else 0)"
  by (auto simp: share_start_def)

lemma share_start_end: "0 < d \<Longrightarrow> share_start n d d = n"
  using mod_less_divisor[of d n] by (simp add: share_start_def min_absorb2 less_imp_le)

lemma more_bounders_eq:
  "more_bounders n d i m (share_start n d i) = map (share_start n d) [Suc i..<Suc (i + m)]"
proof (induction m arbitrary: i)
  case (Suc m)
  have "(if n mod d \<le> i then share_start n d i + n div d else share_start n d i + n div d + 1) = share_start n d (Suc i)"
    by (simp add: share_start_Suc)
  moreover have "[Suc i..<Suc (i + Suc m)] = Suc i # [Suc (Suc i)..<Suc (Suc i + m)]"
    by (simp add: upt_rec)
  ultimately show ?case
    using Suc[of "Suc i"] by (simp add: Let_def)
qed simp

lemma rightBounder_eq:
  assumes "0 < d"
  shows "rightBounder n d = Inr (map (share_start n d) [1..<Suc d])"
proof -
  have b: "(if n mod d = 0 then n div d else n div d + 1) = share_start n d 1"
    by (simp add: share_start_def)
  have "[1..<Suc d] = 1 # [Suc 1..<Suc (1 + (d - 1))]"
    using assms by (simp add: upt_rec)
  then show ?thesis
    using assms unfolding rightBounder_def b by (simp add: Let_def more_bounders_eq del: upt_Suc)
qed

lemma fill_ctx_eq:
  assumes "0 < d" and "idx + length ips = n" and "ips \<noteq> [] \<Longrightarrow> r < d" and "share_start n d r \<le> idx"
    and "idx \<le> share_start n d (Suc r)"
  shows "\<exists>cs. fill_ctx (map (share_start n d) [1..<Suc d]) idx r ips = Inr cs \<and> map fst cs = ips \<and>
    (\<forall>j < length ips. \<exists>q < d. snd (cs ! j) = disQ q \<and>
       share_start n d q \<le> idx + j \<and> idx + j < share_start n d (Suc q))"
  using assms(2-)
proof (induction ips arbitrary: idx r)
  case (Cons ip ips)
  define r' where "r' = (if share_start n d (Suc r) < Suc idx then Suc r else r)"
  have idx: "idx < n" and r: "r < d" using Cons.prems by auto
  have r': "r' < d" "share_start n d r' \<le> idx" "idx < share_start n d (Suc r')"
  proof -
    have "Suc r < d \<and> idx < share_start n d (Suc (Suc r))" if "idx = share_start n d (Suc r)"
    proof -
      have "Suc r \<noteq> d" using share_start_end[OF assms(1), of n] idx that by auto
      moreover have "0 < n div d \<or> Suc r < n mod d"
        using idx that div_mult_mod_eq[of n d] by (cases "n div d = 0") (auto simp: share_start_def min_def split: if_splits)
      ultimately show ?thesis using r that by (auto simp: share_start_Suc[of n d "Suc r"])
    qed
    then show "r' < d" "share_start n d r' \<le> idx" "idx < share_start n d (Suc r')"
      using r Cons.prems(3,4) by (auto simp: r'_def)
  qed
  obtain cs where cs: "fill_ctx (map (share_start n d) [1..<Suc d]) (Suc idx) r' ips = Inr cs" "map fst cs = ips"
    "\<And>j. j < length ips \<Longrightarrow> \<exists>q < d. snd (cs ! j) = disQ q \<and>
       share_start n d q \<le> Suc idx + j \<and> Suc idx + j < share_start n d (Suc q)"
    using Cons.IH[of "Suc idx" r'] Cons.prems(1) r' by auto
  have "atE (map (share_start n d) [1..<Suc d]) (int r) = Inr (share_start n d (Suc r))"
    using r by (simp add: nth_append del: upt_Suc)
  then have "fill_ctx (map (share_start n d) [1..<Suc d]) idx r (ip # ips) = Inr ((ip, disQ r') # cs)"
    using cs(1) by (simp add: r'_def Let_def del: upt_Suc)
  moreover have "\<exists>q < d. snd (((ip, disQ r') # cs) ! j) = disQ q \<and>
       share_start n d q \<le> idx + j \<and> idx + j < share_start n d (Suc q)" if "j < length (ip # ips)" for j
    using r' cs(3)[of "j - 1"] that by (cases j) auto
  ultimately show ?case using cs(2) by auto
qed simp

section \<open>Properties\<close>

text \<open>
  C33. \<open>init\<close> deals the helpers out evenly: with \<open>d\<close> distributors, the helper at position \<open>j\<close> is
  served by the queue \<open>disQ:q\<close> whose share, of \<open>n div d\<close> or \<open>n div d + 1\<close> helpers, holds \<open>j\<close>,
  and the list of contexts keeps the order of the configuration.
\<close>

theorem init_ctx_shares:
  assumes "0 < coCmdDistThreadNum conf"
  shows "\<exists>cs. init_ctx conf = Inr cs \<and> map fst cs = helpersIPs conf \<and>
    (\<forall>j < length (helpersIPs conf). \<exists>q < coCmdDistThreadNum conf. snd (cs ! j) = disQ q \<and>
       share_start (length (helpersIPs conf)) (coCmdDistThreadNum conf) q \<le> j \<and>
       j < share_start (length (helpersIPs conf)) (coCmdDistThreadNum conf) (Suc q))"
  using fill_ctx_eq[OF assms, of 0 "helpersIPs conf" "length (helpersIPs conf)" 0] assms
  by (simp add: init_ctx_def rightBounder_eq share_start_def)

definition sample_repair_conf :: repair_config where
  "sample_repair_conf =
     \<lparr>ecK = 2, ecN = 3, helpersIPs = [11, 12, 13], coordinatorIP = 10, blocksize = 1, log_size = 1,
      UPPolicy = ''crd'', UPWay = ''trace'', traceType = ''MSR'', traceDir = ''.'',
      localIP = 10, packetCnt = 2, packetSize = 4, packetSkipSize = 0, fileSysType = ''HDFS'',
      ECPipePolicy = ''basic'', pathSelectionEnabled = False, shuffle = False, rackAware = False,
      rackInfos = [], coCmdDistThreadNum = 2, loadbalance = False, msscheduling = False, DRPolicy = ''ecpipe''\<rparr>"

theorem init_ctx_shares_witness:
  "0 < coCmdDistThreadNum sample_repair_conf \<and>
   (\<exists>cs. init_ctx sample_repair_conf = Inr cs \<and> map fst cs = [11, 12, 13])"
  using init_ctx_shares[of sample_repair_conf]
  by (auto simp: sample_repair_conf_def)

text \<open>
  C34. \<open>searchCtx\<close> finds a helper that is in a strictly ascending context list (of fewer than
  \<open>2\<^sup>31\<close> entries), at its position: it ends, and no bound wraps around.
\<close>

theorem searchCtx_sorted:
  assumes "sorted_wrt (<) (map fst arr)" and "length arr < 2 ^ 31" and "j < length arr"
  shows "searchCtx arr (fst (arr ! j)) 0 (int (length arr) - 1) = Inr (int j)"
proof -
  have "distinct (map fst arr)"
    using assms(1) by (simp add: strict_sorted_iff)
  then have "index_of (fst (arr ! j)) (map fst arr) = j"
    using index_of_nth[of "map fst arr" j] assms(3) by simp
  then show ?thesis
    using searchCtx_found[OF assms(1,2), of "fst (arr ! j)"] assms(3) by simp
qed

theorem searchCtx_sorted_witness:
  "searchCtx [(11, ''disQ:0''), (12, ''disQ:0''), (13, ''disQ:1'')] 12 0 2 = Inr 1"
  using searchCtx_sorted[of "[(11, ''disQ:0''), (12, ''disQ:0''), (13, ''disQ:1'')]" 1] by simp

text \<open>
  The bisection that goes to the left every time: an upper bound \<open>b\<close> becomes \<open>b div 2 - 1\<close>, so that \<open>b + 2\<close> is halved until it is 2 or
  3. Which of the two is reached can be read off the first two binary digits.
\<close>

definition leads_to_2 :: "nat \<Rightarrow> bool" where
  "leads_to_2 c \<longleftrightarrow> (\<exists>m. 2 * 2 ^ m \<le> c \<and> c < 3 * 2 ^ m)"

lemma leads_to_2_start: "leads_to_2 2" "\<not> leads_to_2 3"
proof -
  show "\<not> leads_to_2 3"
  proof
    assume "leads_to_2 3"
    then obtain m :: nat where m: "2 * 2 ^ m \<le> (3 :: nat)" "(3 :: nat) < 3 * 2 ^ m" by (auto simp: leads_to_2_def)
    show False using m by (cases m) simp_all
  qed
qed (auto simp: leads_to_2_def intro: exI[of _ 0])

lemma leads_to_2_half:
  assumes "4 \<le> c"
  shows "leads_to_2 c \<longleftrightarrow> leads_to_2 (c div 2)"
proof
  assume "leads_to_2 c"
  then obtain m where m: "2 * 2 ^ m \<le> c" "c < 3 * 2 ^ m" by (auto simp: leads_to_2_def)
  then obtain m' where "m = Suc m'" using assms by (cases m) auto
  with m have "2 * 2 ^ m' \<le> c div 2" "c div 2 < 3 * 2 ^ m'" by auto
  then show "leads_to_2 (c div 2)" by (auto simp: leads_to_2_def)
next
  assume "leads_to_2 (c div 2)"
  then obtain m where "2 * 2 ^ m \<le> c div 2" "c div 2 < 3 * 2 ^ m" by (auto simp: leads_to_2_def)
  then have "2 * 2 ^ Suc m \<le> c" "c < 3 * 2 ^ Suc m" by auto
  then show "leads_to_2 c" unfolding leads_to_2_def by blast
qed

lemma search_loop_left:
  assumes "length arr < 2 ^ 31" and "\<forall>i < length arr - 1. ip < arr ! i" and "b < length arr"
  shows "search_loop arr ip 0 (word_of_int (int b)) = Some (if leads_to_2 (b + 2) then Inr 0 else Inl Out_Of_Bounds)"
  using assms(3)
proof (induction b rule: less_induct)
  case (less b)
  show ?case
  proof (cases "b = 0")
    case True
    then show ?thesis using leads_to_2_start(1) by (subst search_loop.simps) (simp add: numeral_2_eq_2)
  next
    case False
    have small: "int b < 2 ^ 31" using less.prems assms(1) by simp
    define mid where "mid = b div 2"
    have mid: "mid < b" using False by (simp add: mid_def)
    have word: "(0 :: 64 word) < word_of_int (int b)"
      using search_less[of 0 "int b"] False small by simp
    have at: "sint (ucast ((0 + word_of_int (int b) :: 64 word) div 2) :: 32 word) = int mid"
      using search_mid[of 0 "int b"] small by (simp add: mid_def zdiv_int)
    have "ip < arr ! mid" using assms(2) mid less.prems by simp
    then have step: "search_loop arr ip 0 (word_of_int (int b)) = search_loop arr ip 0 (word_of_int (int mid - 1))"
      using word at mid less.prems by (subst search_loop.simps) (auto simp: Let_def atE_def)
    show ?thesis
    proof (cases "mid = 0")
      case True
      then have "b + 2 = 3" using False by (simp add: mid_def)
      moreover have "search_loop arr ip 0 (word_of_int (- 1)) = Some (Inl Out_Of_Bounds)"
        by (subst search_loop.simps) (simp add: Let_def atE_def word_gt_0)
      ultimately show ?thesis using step True leads_to_2_start(2) by (simp add: numeral_3_eq_3)
    next
      case pos: False
      then have "int mid - 1 = int (mid - 1)" "mid - 1 < b" "mid - 1 + 2 = (b + 2) div 2" "4 \<le> b + 2"
        using mid by (simp_all add: mid_def)
      then show ?thesis using step less.IH[of "mid - 1"] less.prems leads_to_2_half[of "b + 2"] by simp
    qed
  qed
qed

text \<open>
  C35. The context list is not sorted (the call of \<open>sort\<close> is commented out, and so is the one on the
  helper addresses). A helper whose address is below those of all helpers but the last, such as the last of a descending list, is not
  found where it is: depending on the number of helpers \<open>searchCtx\<close> returns position 0, so that the command goes to the wrong helper, or the upper bound
  wraps around to \<open>2\<^sup>64 - 1\<close>, the next middle is \<open>-1\<close>, and the access leaves the vector.
\<close>

theorem searchCtx_unsorted:
  assumes "2 \<le> length arr" and "length arr < 2 ^ 31" and "\<forall>i < length arr - 1. ip < fst (arr ! i)"
  shows "searchCtx arr ip 0 (int (length arr) - 1) = (if leads_to_2 (length arr + 1) then Inr 0 else Inl Out_Of_Bounds)"
proof -
  have "length arr - 1 + 2 = length arr + 1" "int (length arr - 1) = int (length arr) - 1" using assms(1) by simp_all
  then show ?thesis
    using search_loop_left[of "map fst arr" ip "length arr - 1"] assms unfolding searchCtx_def by simp
qed

theorem searchCtx_unsorted_witness:
  "searchCtx [(12, ''disQ:0''), (11, ''disQ:0'')] 11 0 1 = Inl Out_Of_Bounds \<and>
   searchCtx [(13, ''disQ:0''), (12, ''disQ:0''), (11, ''disQ:1'')] 11 0 2 = Inr 0"
proof -
  let ?two = "[(12, ''disQ:0''), (11, ''disQ:0'')] :: (ip_addr \<times> string) list"
    and ?three = "[(13, ''disQ:0''), (12, ''disQ:0''), (11, ''disQ:1'')] :: (ip_addr \<times> string) list"
  have "searchCtx ?two 11 0 (int (length ?two) - 1) = (if leads_to_2 (length ?two + 1) then Inr 0 else Inl Out_Of_Bounds)"
    by (rule searchCtx_unsorted) auto
  moreover have "searchCtx ?three 11 0 (int (length ?three) - 1) = (if leads_to_2 (length ?three + 1) then Inr 0 else Inl Out_Of_Bounds)"
    by (rule searchCtx_unsorted) (auto simp: less_Suc_eq)
  moreover have "length ?two + 1 = 3" "length ?three + 1 = 4" "int (length ?two) - 1 = 1" "int (length ?three) - 1 = 2" by simp_all
  moreover have "leads_to_2 4" using leads_to_2_half[of 4] leads_to_2_start(1) by simp
  ultimately show ?thesis using leads_to_2_start(2) by (simp only: if_True if_False simp_thms)
qed

end
