(* ===== verification/Repair_Wire.thy ===== *)
theory Repair_Wire
  imports Repair_Base
begin

text \<open>
  The byte layout the repair commands share: addresses and lengths as 32-bit words, block names as
  strings of bytes. Beside the integer fields of \<open>Prelude\<close> a command holds names of any length,
  so that fields are read at positions that depend on the names before them.
\<close>

definition bytes_of :: "string \<Rightarrow> byte list" where
  "bytes_of = map of_char"

definition string_of :: "byte list \<Rightarrow> string" where
  "string_of = map (\<lambda>b. char_of (unat b))"

definition put_word :: "32 word \<Rightarrow> byte list" where
  "put_word x = put_int (sint x)"

definition get_word :: "byte list \<Rightarrow> int \<Rightarrow> 32 word res" where
  "get_word buf cur = bindE (get_int buf cur) (\<lambda>x. Inr (word_of_int x))"

text \<open>\<open>string(buf + cur, len)\<close>.\<close>

definition get_name :: "byte list \<Rightarrow> int \<Rightarrow> int \<Rightarrow> string res" where
  "get_name buf cur len = bindE (memcpy_from buf cur len) (\<lambda>bs. Inr (string_of bs))"

lemma length_bytes_of [simp]: "length (bytes_of s) = length s"
  by (simp add: bytes_of_def)

lemma string_of_bytes_of [simp]: "string_of (bytes_of s) = s"
proof -
  have "unat (of_char c :: byte) = of_char c" for c
  proof -
    have "unat (of_nat (of_char c) :: byte) = of_char c"
      by (simp only: unat_of_nat) simp
    then show ?thesis by (simp only: of_nat_of_char)
  qed
  then show ?thesis by (simp add: string_of_def bytes_of_def o_def)
qed

lemma length_put_word [simp]: "length (put_word x) = 4"
  by (simp add: put_word_def)

lemma int32_sint: "int32 (sint (x :: 32 word))"
  using sint_greater_eq[of x] sint_less[of x] by simp

lemma get_word_append:
  assumes "cur = int (length pre)"
  shows "get_word (pre @ put_word x @ post) cur = Inr x"
  using get_int_append[OF assms int32_sint] by (simp add: get_word_def put_word_def)

lemma get_name_append:
  assumes "cur = int (length pre)" and "len = int (length s)"
  shows "get_name (pre @ bytes_of s @ post) cur len = Inr s"
  using assms by (simp add: get_name_def memcpy_from_def)

end
