(* ===== verification/Repair_Request.thy ===== *)
theory Repair_Request
  imports Repair_Wire "HOL-Library.List_Lexorder" "HOL-Library.Char_ord"
begin

text \<open>
  The requests of a repair: what the client \<open>ECPipeInputStream\<close> sends, \<open>parseFRRequest\<close> of
  \<open>Coordinator.cc\<close>, which reads it, and \<open>setupCyclReply\<close>. The virtual class \<open>MetadataBase\<close>
  is the record \<open>metadata\<close> of its operations; the status of the blocks, a pointer that may be
  \<open>nullptr\<close>, is an option.
\<close>

section \<open>Metadata\<close>

record metadata =
  md_getStripeBlks :: "string \<Rightarrow> ip_addr \<Rightarrow> (ip_addr \<times> string) list res"
  md_getCoefficient :: "string \<Rightarrow> (string, int) omap option \<Rightarrow> (string, int) omap res"
  md_getIPfromBlk :: "string \<Rightarrow> ip_addr res"
  md_getAllBlks :: "string \<Rightarrow> (ip_addr \<times> string) list res"

text \<open>\<open>m[k]\<close> on a \<open>map<string, int>\<close>: a missing key counts as 0.\<close>

definition om_get0 :: "('k, int) omap \<Rightarrow> 'k \<Rightarrow> int" where
  "om_get0 m k = (case map_of m k of None \<Rightarrow> 0 | Some v \<Rightarrow> v)"

text \<open>\<open>s.find(pat) != string::npos\<close>.\<close>

fun has_substring :: "string \<Rightarrow> string \<Rightarrow> bool" where
  "has_substring pat [] = (pat = [])"
| "has_substring pat (c # cs) = (take (length pat) (c # cs) = pat \<or> has_substring pat cs)"

section \<open>The client's request\<close>

definition request_names :: "string list \<Rightarrow> byte list" where
  "request_names names = concat (map (\<lambda>f. put_int (int (length f)) @ bytes_of f) names)"

text \<open>\<open>sendToCoordinator\<close>, up to the push: a request that does not fit the buffer overruns it.\<close>

definition dr_request :: "repair_config \<Rightarrow> string list \<Rightarrow> byte list res" where
  "dr_request conf names =
     (let cmd = put_word (localIP conf) @ put_int 0 @ request_names names
      in bindE (guardE (length cmd \<le> COMMAND_MAX_LENGTH) Out_Of_Bounds) (\<lambda>_. Inr cmd))"

section \<open>\<open>parseFRRequest\<close>\<close>

record fr_state =
  fr_reqFile :: string
  fr_lostFiles :: "(string \<times> ip_addr) list"
  fr_allBlks :: "(ip_addr \<times> string) list"
  fr_status :: "(string, int) omap"

text \<open>The debug output asks for the address of every block of \<open>_status\<close>.\<close>

definition show_status :: "metadata \<Rightarrow> (string, int) omap \<Rightarrow> unit res" where
  "show_status md status = bindE (mapE (md_getIPfromBlk md) (map fst status)) (\<lambda>_. Inr ())"

definition fetch_all :: "metadata \<Rightarrow> string \<Rightarrow> fr_state \<Rightarrow> fr_state res" where
  "fetch_all md lostFile st =
     (if fr_allBlks st = []
      then bindE (md_getAllBlks md lostFile) (\<lambda>blks.
        Inr (st\<lparr>fr_allBlks := blks, fr_status := fold (\<lambda>(_, b). om_put b 1) blks (fr_status st)\<rparr>))
      else Inr st)"

declare bindE_cong [fundef_cong]

function parse_files ::
    "metadata \<Rightarrow> int \<Rightarrow> ip_addr \<Rightarrow> byte list \<Rightarrow> int \<Rightarrow> int \<Rightarrow> fr_state \<Rightarrow> fr_state res" where
  "parse_files md index requestorIP req cmdbase i st =
     (if cmdbase < int (length req)
      then bindE (get_int req cmdbase) (\<lambda>len.
        bindE (get_name req (cmdbase + 4) len) (\<lambda>lostFile.
        bindE (md_getIPfromBlk md lostFile) (\<lambda>ip.
        let st1 = st\<lparr>fr_lostFiles := fr_lostFiles st @ [(lostFile, ip)],
              fr_reqFile := (if (if index \<noteq> 0 then i = index else ip = requestorIP) then lostFile else fr_reqFile st)\<rparr>
        in
        bindE (fetch_all md lostFile st1) (\<lambda>st2.
        let st3 = st2\<lparr>fr_status := om_put lostFile 0 (fr_status st2)\<rparr>
        in
        bindE (show_status md (fr_status st3)) (\<lambda>_.
        parse_files md index requestorIP req (cmdbase + 4 + len) (i + 1) st3)))))
      else Inr st)"
  by pat_completeness auto
termination
  by (relation "measure (\<lambda>(md, index, requestorIP, req, cmdbase, i, st). nat (int (length req) - cmdbase))")
    (auto simp: get_name_def memcpy_from_def res_simps split: if_splits)

declare parse_files.simps [simp del]

text \<open>A request of the old format: the name is the C string behind the address.\<close>

definition parse_old :: "metadata \<Rightarrow> byte list \<Rightarrow> fr_state res" where
  "parse_old md req =
     (let lostFile = string_of (takeWhile (\<lambda>b. b \<noteq> 0) (drop 4 req))
      in bindE (md_getAllBlks md lostFile) (\<lambda>blks.
         bindE (md_getIPfromBlk md lostFile) (\<lambda>ip.
         Inr \<lparr>fr_reqFile = lostFile, fr_lostFiles = [(lostFile, ip)], fr_allBlks = blks,
           fr_status = om_put lostFile 0 (fold (\<lambda>(_, b). om_put b 1) blks [])\<rparr>)))"

definition parseFRRequest ::
    "repair_config \<Rightarrow> metadata \<Rightarrow> byte list \<Rightarrow> ip_addr \<Rightarrow> (int \<times> fr_state) res" where
  "parseFRRequest conf md req requestorIP =
     (if length req < 8 then Inl (Exit 1)
      else bindE (get_word req 4) (\<lambda>x.
        let index = uint x
        in bindE
          (if int (ecK conf) < index then bindE (parse_old md req) (\<lambda>st. Inr (0, st))
           else bindE (parse_files md index requestorIP req 8 0
                  \<lparr>fr_reqFile = [], fr_lostFiles = [], fr_allBlks = [], fr_status = []\<rparr>) (\<lambda>st. Inr (index, st)))
          (\<lambda>(index, st).
            if fr_reqFile st = []
            then bindE (atE (fr_lostFiles st) 0) (\<lambda>f. Inr (index, st\<lparr>fr_reqFile := fst f\<rparr>))
            else Inr (index, st))))"

section \<open>\<open>setupCyclReply\<close>\<close>

text \<open>The variant for a single failure.\<close>

definition setupCyclReply :: "repair_config \<Rightarrow> ip_addr \<Rightarrow> (ip_addr \<times> string) list \<Rightarrow> byte list res" where
  "setupCyclReply conf reqIP stripe =
     (let numOfFIP = int (ecK conf) - 1
      in if numOfFIP \<noteq> int (length stripe) - 1 then Inl (Exit 1)
         else Inr (put_int numOfFIP @ concat (map (\<lambda>s. put_word (fst s)) (take (nat numOfFIP) stripe)) @ put_word reqIP))"

section \<open>Reading back a request\<close>

text \<open>What the metadata says of a block that is known.\<close>

definition knows_blk :: "metadata \<Rightarrow> string \<Rightarrow> ip_addr \<Rightarrow> (ip_addr \<times> string) list \<Rightarrow> bool" where
  "knows_blk md f ip blks \<longleftrightarrow>
     md_getIPfromBlk md f = Inr ip \<and> md_getAllBlks md f = Inr blks \<and>
     (\<forall>(a, b) \<in> set blks. \<exists>c. md_getIPfromBlk md b = Inr c)"

lemma show_status_ok:
  assumes "\<And>b. b \<in> fst ` set status \<Longrightarrow> \<exists>c. md_getIPfromBlk md b = Inr c"
  shows "show_status md status = Inr ()"
proof -
  have "\<exists>cs. mapE (md_getIPfromBlk md) bs = Inr cs" if "set bs \<subseteq> fst ` set status" for bs
    using that assms by (induction bs) fastforce+
  then obtain cs where "mapE (md_getIPfromBlk md) (map fst status) = Inr cs"
    by fastforce
  then show ?thesis by (simp add: show_status_def)
qed

lemma fst_set_fold_put:
  "fst ` set (fold (\<lambda>(_, b). om_put b v) blks m) = fst ` set m \<union> snd ` set blks"
  by (induction blks arbitrary: m) (simp_all add: fst_set_om_put case_prod_beta)

definition single_status :: "string \<Rightarrow> (ip_addr \<times> string) list \<Rightarrow> (string, int) omap" where
  "single_status f blks = om_put f 0 (fold (\<lambda>(_, b). om_put b 1) blks [])"

text \<open>The request for one lost block.\<close>

lemma parse_single_request:
  assumes req: "dr_request conf [f] = Inr req" and known: "knows_blk md f ip blks" and "f \<noteq> []"
  shows "parseFRRequest rconf md req (localIP conf) =
    Inr (0, \<lparr>fr_reqFile = f, fr_lostFiles = [(f, ip)], fr_allBlks = blks, fr_status = single_status f blks\<rparr>)"
proof -
  define pre where "pre = put_word (localIP conf) @ put_int 0"
  have req': "req = pre @ put_int (int (length f)) @ bytes_of f"
    and len: "int32 (int (length f))"
    using req by (auto simp: dr_request_def Let_def res_simps request_names_def pre_def COMMAND_MAX_LENGTH_def)
  have pre: "length pre = 8" by (simp add: pre_def)
  have "get_word req 4 = Inr 0"
    using get_word_append[of 4 "put_word (localIP conf)" 0 "put_int (int (length f)) @ bytes_of f"]
    by (simp add: req' pre_def put_word_def)
  moreover have len_at: "get_int req 8 = Inr (int (length f))"
    using get_int_append[of 8 pre "int (length f)" "bytes_of f"] pre len by (simp add: req')
  moreover have name_at: "get_name req 12 (int (length f)) = Inr f"
    using get_name_append[of 12 "pre @ put_int (int (length f))" "int (length f)" f "[]"] pre by (simp add: req')
  moreover have ends: "8 < int (length req)" "\<not> 12 + int (length f) < int (length req)"
    using pre by (simp_all add: req')
  moreover have "show_status md (single_status f blks) = Inr ()"
    using known by (intro show_status_ok)
      (auto simp: knows_blk_def single_status_def fst_set_om_put fst_set_fold_put split: prod.splits)
  ultimately show ?thesis
    using known assms(3)
    by (simp add: parseFRRequest_def parse_files.simps[of md 0 "localIP conf" req] fetch_all_def knows_blk_def
        single_status_def Let_def)
qed

end
