(* ===== verification/Repair_Delivery.thy ===== *)
theory Repair_Delivery
  imports Repair_Wire
begin

text \<open>
  The command distributors of a repair coordinator (\<open>Coordinator.cc\<close>) run at the same time, each on
  its own queue. Whatever their order, no command is lost, duplicated or delivered to another helper,
  and the commands of a helper keep their order.
\<close>

section \<open>Interleavings of the distributors\<close>

inductive dist_step :: "repair_config \<Rightarrow> (ip_addr \<times> string) list \<Rightarrow> world \<Rightarrow> world \<Rightarrow> bool"
  for conf ip2Ctx where
  Distribute: "i < coCmdDistThreadNum conf \<Longrightarrow> cmdDistributor conf ip2Ctx i w = Inr w' \<Longrightarrow>
    dist_step conf ip2Ctx w w'"

inductive_cases dist_stepE: "dist_step conf ip2Ctx w w'"

definition addressed :: "nat \<Rightarrow> byte list \<Rightarrow> bool" where
  "addressed j msg \<longleftrightarrow> get_int msg 0 = Inr (int j)"

text \<open>The commands for helper \<open>j\<close> that wait at the coordinator, and those it has received.\<close>

definition pending :: "repair_config \<Rightarrow> (ip_addr \<times> string) list \<Rightarrow> nat \<Rightarrow> world \<Rightarrow> byte list list" where
  "pending conf ip2Ctx j w =
     map (drop 4) (filter (addressed j) (w_queues w (coordinatorIP conf) (snd (ip2Ctx ! j))))"

definition received :: "(ip_addr \<times> string) list \<Rightarrow> nat \<Rightarrow> world \<Rightarrow> byte list list" where
  "received ip2Ctx j w = w_queues w (fst (ip2Ctx ! j)) ''dr_cmds''"

text \<open>What \<open>init\<close> makes of the helpers' addresses: every helper has a distributor.\<close>

definition ctx_ok :: "repair_config \<Rightarrow> (ip_addr \<times> string) list \<Rightarrow> bool" where
  "ctx_ok conf ip2Ctx \<longleftrightarrow> distinct (map fst ip2Ctx) \<and>
     (\<forall>j < length ip2Ctx. \<exists>i < coCmdDistThreadNum conf. snd (ip2Ctx ! j) = disQ i)"

text \<open>Every command is in the queue of the distributor of its helper.\<close>

definition routed :: "repair_config \<Rightarrow> (ip_addr \<times> string) list \<Rightarrow> world \<Rightarrow> bool" where
  "routed conf ip2Ctx w \<longleftrightarrow>
     (\<forall>i < coCmdDistThreadNum conf. \<forall>msg \<in> set (w_queues w (coordinatorIP conf) (disQ i)).
        \<exists>j < length ip2Ctx. addressed j msg \<and> snd (ip2Ctx ! j) = disQ i)"

lemma routedD:
  assumes "routed conf ip2Ctx w" and "i < coCmdDistThreadNum conf"
    and "w_queues w (coordinatorIP conf) (disQ i) = msg # q"
  obtains j where "j < length ip2Ctx" "addressed j msg" "snd (ip2Ctx ! j) = disQ i"
  using assms by (metis list.set_intros(1) routed_def)

lemma disQ_inj: "disQ i = disQ j \<longleftrightarrow> i = j"
  by (auto simp: disQ_def dest: nat_to_string_inj)

lemma disQ_dr_cmds [simp]: "disQ i \<noteq> ''dr_cmds''" "''dr_cmds'' \<noteq> disQ i"
  by (simp_all add: disQ_def)

lemma addressed_inj: "addressed i msg \<Longrightarrow> addressed j msg \<longleftrightarrow> i = j"
  by (auto simp: addressed_def)

lemma addressed_length: "addressed j msg \<Longrightarrow> 4 \<le> length msg"
  by (auto simp: addressed_def get_int_def memcpy_from_def res_simps split: if_splits)

text \<open>One round of a distributor.\<close>

lemma cmdDistributor_eq:
  assumes "w_queues w (coordinatorIP conf) (disQ i) = msg # q" and "addressed j msg" and "j < length ip2Ctx"
  shows "cmdDistributor conf ip2Ctx i w = Inr (rpush (fst (ip2Ctx ! j)) ''dr_cmds'' (drop 4 msg)
    (w\<lparr>w_queues := (w_queues w)(coordinatorIP conf := (w_queues w (coordinatorIP conf))(disQ i := q))\<rparr>))"
  using assms addressed_length[OF assms(2)]
  by (cases "ip2Ctx ! j") (simp add: cmdDistributor_def blpop_def addressed_def memcpy_from_def)

lemma dist_step_conserves:
  assumes "dist_step conf ip2Ctx w w'" and wf: "routed conf ip2Ctx w" and "ctx_ok conf ip2Ctx"
  shows "routed conf ip2Ctx w'" and "w_files w' = w_files w"
    and "j < length ip2Ctx \<Longrightarrow>
      received ip2Ctx j w' @ pending conf ip2Ctx j w' = received ip2Ctx j w @ pending conf ip2Ctx j w"
proof -
  obtain i where i: "i < coCmdDistThreadNum conf" "cmdDistributor conf ip2Ctx i w = Inr w'"
    using assms(1) by (rule dist_stepE)
  obtain msg q where q: "w_queues w (coordinatorIP conf) (disQ i) = msg # q"
    using i(2) by (auto simp: cmdDistributor_def blpop_def split: list.splits)
  obtain l where l: "l < length ip2Ctx" "addressed l msg" "snd (ip2Ctx ! l) = disQ i"
    by (rule routedD[OF wf i(1) q])
  have w': "w' = rpush (fst (ip2Ctx ! l)) ''dr_cmds'' (drop 4 msg)
      (w\<lparr>w_queues := (w_queues w)(coordinatorIP conf := (w_queues w (coordinatorIP conf))(disQ i := q))\<rparr>)"
    using cmdDistributor_eq[OF q l(2,1)] i(2) by simp
  have queue: "w_queues w' ip key =
      (if ip = coordinatorIP conf \<and> key = disQ i then q
       else if ip = fst (ip2Ctx ! l) \<and> key = ''dr_cmds'' then w_queues w ip key @ [drop 4 msg]
       else w_queues w ip key)" for ip key
    by (simp add: w' rpush_def)
  show "w_files w' = w_files w" by (simp add: w' rpush_def)
  show "routed conf ip2Ctx w'"
    unfolding routed_def
  proof (intro allI impI ballI)
    fix n m assume "n < coCmdDistThreadNum conf" "m \<in> set (w_queues w' (coordinatorIP conf) (disQ n))"
    then show "\<exists>j < length ip2Ctx. addressed j m \<and> snd (ip2Ctx ! j) = disQ n"
      using wf q unfolding routed_def by (auto simp: queue disQ_inj split: if_splits)
  qed
  assume j: "j < length ip2Ctx"
  have same: "fst (ip2Ctx ! j) = fst (ip2Ctx ! l) \<longleftrightarrow> j = l"
    using assms(3) j l(1) nth_eq_iff_index_eq[of "map fst ip2Ctx" j l] by (simp add: ctx_ok_def)
  show "received ip2Ctx j w' @ pending conf ip2Ctx j w' = received ip2Ctx j w @ pending conf ip2Ctx j w"
  proof (cases "j = l")
    case True
    then show ?thesis
      using l q by (simp add: received_def pending_def queue)
  next
    case False
    then have "\<not> addressed j msg" using l(2) addressed_inj by blast
    then have "pending conf ip2Ctx j w' = pending conf ip2Ctx j w"
      using q assms(3) j by (auto simp: pending_def queue ctx_ok_def)
    with False same show ?thesis by (simp add: received_def queue)
  qed
qed

lemma dist_steps_conserve:
  assumes "(dist_step conf ip2Ctx)\<^sup>*\<^sup>* w w'" and "routed conf ip2Ctx w" and "ctx_ok conf ip2Ctx"
  shows "routed conf ip2Ctx w' \<and> w_files w' = w_files w \<and> (\<forall>j < length ip2Ctx.
    received ip2Ctx j w' @ pending conf ip2Ctx j w' = received ip2Ctx j w @ pending conf ip2Ctx j w)"
  using assms(1)
proof (induction rule: rtranclp_induct)
  case (step w1 w2)
  then have wf: "routed conf ip2Ctx w1" by simp
  show ?case
    using dist_step_conserves[OF step(2) wf assms(3)] step.IH by simp
qed (use assms(2) in simp)

text \<open>What the distributors leave alone.\<close>

lemma dist_steps_others:
  assumes "(dist_step conf ip2Ctx)\<^sup>*\<^sup>* w w'" and "key \<noteq> ''dr_cmds''"
    and "ip \<noteq> coordinatorIP conf \<or> (\<forall>i. key \<noteq> disQ i)"
  shows "w_queues w' ip key = w_queues w ip key"
  using assms(1)
proof (induction rule: rtranclp_induct)
  case (step w1 w2)
  obtain i where "cmdDistributor conf ip2Ctx i w1 = Inr w2"
    using step(2) by (rule dist_stepE)
  then have "w_queues w2 ip key = w_queues w1 ip key"
    using assms(2,3)
    by (auto simp: cmdDistributor_def res_simps blpop_def rpush_def case_prod_beta split: list.splits)
  with step.IH show ?case by simp
qed simp

text \<open>The distributors end, and only with nothing left to deliver.\<close>

definition waiting :: "repair_config \<Rightarrow> world \<Rightarrow> nat" where
  "waiting conf w = (\<Sum>i < coCmdDistThreadNum conf. length (w_queues w (coordinatorIP conf) (disQ i)))"

lemma dist_step_progress:
  assumes "routed conf ip2Ctx w" and "i < coCmdDistThreadNum conf" and "w_queues w (coordinatorIP conf) (disQ i) \<noteq> []"
  shows "\<exists>w'. dist_step conf ip2Ctx w w' \<and> waiting conf w' < waiting conf w"
proof -
  obtain msg q where q: "w_queues w (coordinatorIP conf) (disQ i) = msg # q"
    using assms(3) by (cases "w_queues w (coordinatorIP conf) (disQ i)") auto
  then obtain l where "l < length ip2Ctx" "addressed l msg"
    using routedD[OF assms(1,2) q] by metis
  then obtain w' where w': "cmdDistributor conf ip2Ctx i w = Inr w'"
    "\<And>n. w_queues w' (coordinatorIP conf) (disQ n) = (if n = i then q else w_queues w (coordinatorIP conf) (disQ n))"
    using cmdDistributor_eq[OF q] by (simp add: rpush_def disQ_inj)
  have "waiting conf w' < waiting conf w"
    unfolding waiting_def
  proof (rule sum_strict_mono_ex1)
    show "\<exists>n \<in> {..<coCmdDistThreadNum conf}. length (w_queues w' (coordinatorIP conf) (disQ n)) <
        length (w_queues w (coordinatorIP conf) (disQ n))"
      using assms(2) q w'(2) by (intro bexI[of _ i]) simp_all
  qed (simp_all add: w'(2) q)
  with w'(1) assms(2) show ?thesis using dist_step.intros by blast
qed

lemma dist_progress:
  assumes "routed conf ip2Ctx w" and "waiting conf w \<noteq> 0"
  shows "\<exists>w'. dist_step conf ip2Ctx w w' \<and> waiting conf w' < waiting conf w"
proof -
  obtain i where "i < coCmdDistThreadNum conf" "w_queues w (coordinatorIP conf) (disQ i) \<noteq> []"
    using assms(2) by (auto simp: waiting_def)
  then show ?thesis by (rule dist_step_progress[OF assms(1)])
qed

lemma dist_can_finish:
  assumes "routed conf ip2Ctx w" and "ctx_ok conf ip2Ctx"
  shows "\<exists>w'. (dist_step conf ip2Ctx)\<^sup>*\<^sup>* w w' \<and> waiting conf w' = 0"
proof -
  have "routed conf ip2Ctx v'" if "routed conf ip2Ctx v" "dist_step conf ip2Ctx v v'" for v v'
    using dist_step_conserves(1)[OF that(2,1) assms(2)] .
  then have "\<exists>w'. (dist_step conf ip2Ctx)\<^sup>*\<^sup>* w w' \<and> waiting conf w' = 0 \<and> routed conf ip2Ctx w'"
    using dist_progress assms(1) by (intro can_finish[where m = "waiting conf"]) blast+
  then show ?thesis by blast
qed

lemma pending_done:
  assumes "waiting conf w = 0" and "snd (ip2Ctx ! j) = disQ i" and "i < coCmdDistThreadNum conf"
  shows "pending conf ip2Ctx j w = []"
  using assms by (simp add: waiting_def pending_def)

text \<open>
  C12. The distributors deliver every command: from any state in which the commands are in the queues
  of their helpers' distributors, the distributors can empty the queues, and in whatever order they
  have run when all queues are empty, every helper has received exactly the commands addressed to it,
  in the order of the queue and without the index.
\<close>

theorem distributors_deliver:
  assumes "routed conf ip2Ctx w" and "ctx_ok conf ip2Ctx"
  shows "(\<exists>w'. (dist_step conf ip2Ctx)\<^sup>*\<^sup>* w w' \<and> waiting conf w' = 0) \<and>
    (\<forall>w' j. (dist_step conf ip2Ctx)\<^sup>*\<^sup>* w w' \<and> waiting conf w' = 0 \<and> j < length ip2Ctx \<longrightarrow>
      received ip2Ctx j w' = received ip2Ctx j w @ pending conf ip2Ctx j w)"
proof (intro conjI allI impI)
  show "\<exists>w'. (dist_step conf ip2Ctx)\<^sup>*\<^sup>* w w' \<and> waiting conf w' = 0"
    by (rule dist_can_finish[OF assms(1,2)])
  fix w' j assume run: "(dist_step conf ip2Ctx)\<^sup>*\<^sup>* w w' \<and> waiting conf w' = 0 \<and> j < length ip2Ctx"
  then have "pending conf ip2Ctx j w' = []"
    using assms(2) pending_done unfolding ctx_ok_def by blast
  then show "received ip2Ctx j w' = received ip2Ctx j w @ pending conf ip2Ctx j w"
    using dist_steps_conserve[OF _ assms(1,2), of w'] run by fastforce
qed

definition sample_commands :: world where
  "sample_commands =
     \<lparr>w_queues = (\<lambda>ip key.
        if ip = 10 \<and> key = disQ 0 then [put_int 0 @ [1], put_int 1 @ [2], put_int 0 @ [3]]
        else if ip = 10 \<and> key = disQ 1 then [put_int 2 @ [4]] else []),
      w_files = (\<lambda>_ _. None)\<rparr>"

theorem distributors_deliver_witness:
  "(\<exists>w'. (dist_step sample_repair_conf [(11, disQ 0), (12, disQ 0), (13, disQ 1)])\<^sup>*\<^sup>* sample_commands w' \<and>
     waiting sample_repair_conf w' = 0 \<and> received [(11, disQ 0), (12, disQ 0), (13, disQ 1)] 0 w' = [[1], [3]])"
proof -
  let ?ctx = "[(11, disQ 0), (12, disQ 0), (13, disQ 1)]"
  have at: "get_int (put_int x @ ys) 0 = Inr x" if "int32 x" for x ys
    using get_int_append[of 0 "[]" x ys] that by simp
  have nth: "j < Suc (Suc (Suc 0)) \<longleftrightarrow> j = 0 \<or> j = 1 \<or> j = 2" for j :: nat
    by auto
  have conf: "coCmdDistThreadNum sample_repair_conf = 2" "coordinatorIP sample_repair_conf = 10"
    by (simp_all add: sample_repair_conf_def)
  have wf: "routed sample_repair_conf ?ctx sample_commands"
    by (auto simp: routed_def sample_commands_def addressed_def at conf disQ_inj less_2_cases_iff
        intro: exI[of _ 0] exI[of _ 1] exI[of _ 2])
  have ctx: "ctx_ok sample_repair_conf ?ctx"
    by (auto simp: ctx_ok_def nth conf intro: exI[of _ 0] exI[of _ 1])
  obtain w' where w': "(dist_step sample_repair_conf ?ctx)\<^sup>*\<^sup>* sample_commands w'" "waiting sample_repair_conf w' = 0"
    using distributors_deliver[OF wf ctx] by auto
  have "received ?ctx 0 w' = received ?ctx 0 sample_commands @ pending sample_repair_conf ?ctx 0 sample_commands"
    using distributors_deliver[OF wf ctx] w' by simp
  then show ?thesis
    using w' by (auto simp: received_def pending_def sample_commands_def addressed_def at conf)
qed

end
