(* ===== verification/Repair_Dispatch.thy ===== *)
theory Repair_Dispatch
  imports Repair_Request Repair_Delivery
begin

text \<open>
  What the repair coordinators have in common: a command is queued for the distributor of its node
  (\<open>searchCtx\<close>, \<open>RPUSH\<close>), the distributors forward it, and the worker of the node takes it. The theory shows that
  the commands of a repair arrive, one at each node, whatever the order of the distributors.
\<close>

section \<open>Queueing a command\<close>

text \<open>The command starts with the position of its node in \<open>_ip2Ctx\<close>.\<close>

definition queue_cmd ::
    "(ip_addr \<times> string) list \<Rightarrow> ip_addr \<Rightarrow> (int \<Rightarrow> byte list res) \<Rightarrow> (string \<times> byte list) res" where
  "queue_cmd ip2Ctx ip cmd =
     bindE (searchCtx ip2Ctx ip 0 (int (length ip2Ctx) - 1)) (\<lambda>idx.
     bindE (cmd idx) (\<lambda>c.
     bindE (atE ip2Ctx idx) (\<lambda>(_, q). Inr (q, c))))"

definition ctx_idx :: "(ip_addr \<times> string) list \<Rightarrow> ip_addr \<Rightarrow> nat" where
  "ctx_idx ip2Ctx ip = index_of ip (map fst ip2Ctx)"

lemma queue_cmd_eq:
  assumes "sorted_wrt (<) (map fst ip2Ctx)" and "length ip2Ctx < 2 ^ 31" and "ip \<in> fst ` set ip2Ctx"
  shows "queue_cmd ip2Ctx ip cmd =
    bindE (cmd (int (ctx_idx ip2Ctx ip))) (\<lambda>c. Inr (snd (ip2Ctx ! ctx_idx ip2Ctx ip), c))"
  using searchCtx_found[OF assms] nth_index_of(2)[of ip "map fst ip2Ctx"] assms(3)
  by (simp add: queue_cmd_def ctx_idx_def case_prod_beta)

lemma ctx_idx_nth:
  assumes "ip \<in> fst ` set ip2Ctx"
  shows "ctx_idx ip2Ctx ip < length ip2Ctx" and "fst (ip2Ctx ! ctx_idx ip2Ctx ip) = ip"
  using nth_index_of[of ip "map fst ip2Ctx"] assms by (simp_all add: ctx_idx_def)

definition push_all :: "ip_addr \<Rightarrow> (string \<times> byte list) list \<Rightarrow> world \<Rightarrow> world" where
  "push_all ip qcs = fold (\<lambda>(q, c). rpush ip q c) qcs"

lemma push_all_queues:
  "w_queues (push_all ip qcs w) ip' key =
    (if ip' = ip then w_queues w ip key @ map snd (filter (\<lambda>qc. fst qc = key) qcs) else w_queues w ip' key)"
  "w_files (push_all ip qcs w) = w_files w"
  unfolding push_all_def by (induction qcs arbitrary: w) (auto simp: rpush_def)

lemma filter_unique:
  assumes "h < length xs" and "\<And>i. i < length xs \<Longrightarrow> P (xs ! i) \<longleftrightarrow> i = h"
  shows "filter P xs = [xs ! h]"
proof -
  have "filter P (take h xs) = []" "filter P (drop (Suc h) xs) = []"
    using assms by (auto simp: filter_empty_conv in_set_conv_nth)
  then have "filter P (take h xs @ xs ! h # drop (Suc h) xs) = [xs ! h]"
    using assms by simp
  then show ?thesis using assms(1) by (simp flip: id_take_nth_drop)
qed

section \<open>Delivery\<close>

text \<open>Commands with the nodes they are for, in the queues of the distributors of these nodes.\<close>

definition routes ::
    "repair_config \<Rightarrow> (ip_addr \<times> string) list \<Rightarrow> (ip_addr \<times> string \<times> byte list) list \<Rightarrow> bool" where
  "routes conf ip2Ctx tcs \<longleftrightarrow> ctx_ok conf ip2Ctx \<and>
     (\<forall>(ip, q, c) \<in> set tcs. ip \<in> fst ` set ip2Ctx \<and> q = snd (ip2Ctx ! ctx_idx ip2Ctx ip) \<and> addressed (ctx_idx ip2Ctx ip) c)"

definition cmds_for :: "ip_addr \<Rightarrow> (ip_addr \<times> string \<times> byte list) list \<Rightarrow> byte list list" where
  "cmds_for ip tcs = map (\<lambda>(_, _, c). drop 4 c) (filter (\<lambda>(a, _). a = ip) tcs)"

definition no_cmds :: "repair_config \<Rightarrow> ip_addr list \<Rightarrow> world \<Rightarrow> bool" where
  "no_cmds conf ips w \<longleftrightarrow>
     (\<forall>i. w_queues w (coordinatorIP conf) (disQ i) = []) \<and> (\<forall>ip \<in> set ips. w_queues w ip ''dr_cmds'' = [])"

lemma routes_routed:
  assumes ok: "routes conf ip2Ctx tcs" and "no_cmds conf ips w"
  shows "routed conf ip2Ctx (push_all (coordinatorIP conf) (map snd tcs) w)"
    and "ip \<in> fst ` set ip2Ctx \<Longrightarrow>
      pending conf ip2Ctx (ctx_idx ip2Ctx ip) (push_all (coordinatorIP conf) (map snd tcs) w) = cmds_for ip tcs"
proof -
  have cmd: "a \<in> fst ` set ip2Ctx" "q = snd (ip2Ctx ! ctx_idx ip2Ctx a)" "addressed (ctx_idx ip2Ctx a) c"
    if "(a, q, c) \<in> set tcs" for a q c
    using ok that by (auto simp: routes_def)
  have queue: "w_queues (push_all (coordinatorIP conf) (map snd tcs) w) (coordinatorIP conf) (disQ i) =
      map snd (filter (\<lambda>qc. fst qc = disQ i) (map snd tcs))" for i
    using assms(2) by (simp add: push_all_queues no_cmds_def)
  show "routed conf ip2Ctx (push_all (coordinatorIP conf) (map snd tcs) w)"
    unfolding routed_def queue
  proof (intro allI impI ballI)
    fix i msg assume "msg \<in> set (map snd (filter (\<lambda>qc. fst qc = disQ i) (map snd tcs)))"
    then obtain a where "(a, disQ i, msg) \<in> set tcs" by auto
    from cmd[OF this] show "\<exists>j < length ip2Ctx. addressed j msg \<and> snd (ip2Ctx ! j) = disQ i"
      using ctx_idx_nth(1) by metis
  qed
  assume ip: "ip \<in> fst ` set ip2Ctx"
  let ?j = "ctx_idx ip2Ctx ip"
  obtain i where i: "snd (ip2Ctx ! ?j) = disQ i"
    using ok ctx_idx_nth(1)[OF ip] by (auto simp: routes_def ctx_ok_def)
  have "addressed ?j c \<and> q = disQ i \<longleftrightarrow> a = ip" if mem: "(a, q, c) \<in> set tcs" for a q c
  proof -
    have "addressed ?j c \<longleftrightarrow> ?j = ctx_idx ip2Ctx a" using addressed_inj[OF cmd(3)[OF mem], of ?j] by metis
    moreover have "?j = ctx_idx ip2Ctx a \<longleftrightarrow> a = ip" using ctx_idx_nth(2)[OF ip] ctx_idx_nth(2)[OF cmd(1)[OF mem]] by metis
    moreover have "q = disQ i" if "a = ip" using cmd(2)[OF mem] i that by simp
    ultimately show ?thesis by blast
  qed
  then have "filter (\<lambda>x. fst (snd x) = disQ i \<and> addressed ?j (snd (snd x))) tcs = filter (\<lambda>x. fst x = ip) tcs"
    by (intro filter_cong refl) (metis prod.collapse)
  then show "pending conf ip2Ctx ?j (push_all (coordinatorIP conf) (map snd tcs) w) = cmds_for ip tcs"
    by (simp add: pending_def i queue filter_map o_def cmds_for_def case_prod_beta')
qed

text \<open>The reply to the client, which the coordinator pushes behind the commands, is in nobody's way.\<close>

lemma routes_delivered:
  assumes ok: "routes conf ip2Ctx tcs" and idle: "no_cmds conf ips w" and ips: "set ips \<subseteq> fst ` set ip2Ctx"
    and coord: "coordinatorIP conf \<notin> set ips" and f: "\<And>i. f \<noteq> disQ i"
    and w1: "w1 = rpush (coordinatorIP conf) f msg (push_all (coordinatorIP conf) (map snd tcs) w)"
  shows "routed conf ip2Ctx w1"
    and "(dist_step conf ip2Ctx)\<^sup>*\<^sup>* w1 w2 \<Longrightarrow> waiting conf w2 = 0 \<Longrightarrow>
      w_files w2 = w_files w \<and> (\<forall>ip \<in> set ips. w_queues w2 ip ''dr_cmds'' = cmds_for ip tcs) \<and>
      (\<forall>ip \<in> set ips. \<forall>key. key \<noteq> ''dr_cmds'' \<longrightarrow> w_queues w2 ip key = w_queues w ip key)"
proof -
  let ?w = "push_all (coordinatorIP conf) (map snd tcs) w"
  have ctx: "ctx_ok conf ip2Ctx" using ok by (simp add: routes_def)
  have same: "w_queues w1 (coordinatorIP conf) (disQ i) = w_queues ?w (coordinatorIP conf) (disQ i)" for i
    using f by (auto simp: w1 rpush_def)
  show routed: "routed conf ip2Ctx w1"
    using routes_routed(1)[OF ok idle] by (simp add: routed_def same)
  assume run: "(dist_step conf ip2Ctx)\<^sup>*\<^sup>* w1 w2" "waiting conf w2 = 0"
  note sent = dist_steps_conserve[OF run(1) routed ctx]
  have away: "w_queues w1 ip key = w_queues w ip key" if "ip \<in> set ips" for ip key
  proof -
    have "ip \<noteq> coordinatorIP conf" using that coord by blast
    then show ?thesis by (simp add: w1 rpush_def push_all_queues)
  qed
  have "w_queues w2 ip ''dr_cmds'' = cmds_for ip tcs" if ip: "ip \<in> set ips" for ip
  proof -
    let ?j = "ctx_idx ip2Ctx ip"
    have mem: "ip \<in> fst ` set ip2Ctx" using ips ip by blast
    then have j: "?j < length ip2Ctx" "fst (ip2Ctx ! ?j) = ip" by (rule ctx_idx_nth)+
    then obtain i where i: "snd (ip2Ctx ! ?j) = disQ i" "i < coCmdDistThreadNum conf"
      using ctx by (auto simp: ctx_ok_def)
    then have "pending conf ip2Ctx ?j w2 = []" by (rule pending_done[OF run(2)])
    moreover have "received ip2Ctx ?j w1 = []" using away[OF ip] ip idle j(2) by (simp add: received_def no_cmds_def)
    moreover have "pending conf ip2Ctx ?j w1 = cmds_for ip tcs"
      using routes_routed(2)[OF ok idle mem] i(1) by (simp add: pending_def same)
    ultimately show ?thesis using sent j by (auto simp: received_def)
  qed
  moreover have "w_files w2 = w_files w" using sent by (simp add: w1 rpush_def push_all_queues)
  moreover have "w_queues w2 ip key = w_queues w ip key" if "ip \<in> set ips" "key \<noteq> ''dr_cmds''" for ip key
    using dist_steps_others[OF run(1) that(2), of ip] away[OF that(1)] that(1) coord by auto
  ultimately show "w_files w2 = w_files w \<and> (\<forall>ip \<in> set ips. w_queues w2 ip ''dr_cmds'' = cmds_for ip tcs) \<and>
      (\<forall>ip \<in> set ips. \<forall>key. key \<noteq> ''dr_cmds'' \<longrightarrow> w_queues w2 ip key = w_queues w ip key)"
    by blast
qed

lemma routes_reply:
  assumes ok: "routes conf ip2Ctx tcs" and f: "\<And>i. f \<noteq> disQ i"
  shows "w_queues (rpush (coordinatorIP conf) f msg (push_all (coordinatorIP conf) (map snd tcs) w)) (coordinatorIP conf) f =
    w_queues w (coordinatorIP conf) f @ [msg]"
proof -
  have "q \<noteq> f" if "(a, q, c) \<in> set tcs" for a q c
  proof -
    have "a \<in> fst ` set ip2Ctx" "q = snd (ip2Ctx ! ctx_idx ip2Ctx a)" using ok that by (auto simp: routes_def)
    moreover from this(1) have "ctx_idx ip2Ctx a < length ip2Ctx" by (rule ctx_idx_nth)
    ultimately obtain i where "q = disQ i" using ok by (auto simp: routes_def ctx_ok_def)
    then show ?thesis using f[of i] by simp
  qed
  then have "\<forall>qc \<in> set (map snd tcs). fst qc \<noteq> f" by fastforce
  then have "filter (\<lambda>qc. fst qc = f) (map snd tcs) = []" by (simp only: filter_empty_conv)
  then show ?thesis by (simp add: rpush_def push_all_queues)
qed

text \<open>One command for each of the nodes \<open>ips\<close>, in the queue of its distributor.\<close>

definition dispatch_ok ::
    "repair_config \<Rightarrow> (ip_addr \<times> string) list \<Rightarrow> ip_addr list \<Rightarrow> (string \<times> byte list) list \<Rightarrow> bool" where
  "dispatch_ok conf ip2Ctx ips qcs \<longleftrightarrow>
     ctx_ok conf ip2Ctx \<and> distinct ips \<and> set ips \<subseteq> fst ` set ip2Ctx \<and> length qcs = length ips \<and>
     (\<forall>h < length ips. fst (qcs ! h) = snd (ip2Ctx ! ctx_idx ip2Ctx (ips ! h)) \<and>
        addressed (ctx_idx ip2Ctx (ips ! h)) (snd (qcs ! h)))"

lemma dispatch_okI:
  assumes ctx: "ctx_ok conf ip2Ctx" "length ip2Ctx < 2 ^ 31"
    and ips: "distinct ips" "\<And>n. n < length ips \<Longrightarrow> ips ! n \<in> fst ` set ip2Ctx" "length qcs = length ips"
    and cmd: "\<And>n. n < length ips \<Longrightarrow> fst (qcs ! n) = snd (ip2Ctx ! ctx_idx ip2Ctx (ips ! n)) \<and>
      (\<exists>rest. snd (qcs ! n) = put_int (int (ctx_idx ip2Ctx (ips ! n))) @ rest)"
  shows "dispatch_ok conf ip2Ctx ips qcs"
proof -
  have "addressed (ctx_idx ip2Ctx (ips ! n)) (snd (qcs ! n))" if n: "n < length ips" for n
  proof -
    obtain rest where "snd (qcs ! n) = put_int (int (ctx_idx ip2Ctx (ips ! n))) @ rest" using cmd[OF n] by blast
    moreover have "ctx_idx ip2Ctx (ips ! n) < 2 ^ 31" using ctx_idx_nth(1)[OF ips(2)[OF n]] ctx(2) by simp
    ultimately show ?thesis
      using get_int_append[of 0 "[]" "int (ctx_idx ip2Ctx (ips ! n))" rest] by (simp add: addressed_def)
  qed
  moreover have "set ips \<subseteq> fst ` set ip2Ctx" using ips(2) by (metis in_set_conv_nth subsetI)
  ultimately show ?thesis using ctx(1) ips(1,3) cmd by (simp add: dispatch_ok_def)
qed

lemma dispatch_routes:
  assumes ok: "dispatch_ok conf ip2Ctx ips qcs"
  shows "routes conf ip2Ctx (zip ips qcs)" and "map snd (zip ips qcs) = qcs" and "set ips \<subseteq> fst ` set ip2Ctx"
    and "h < length ips \<Longrightarrow> cmds_for (ips ! h) (zip ips qcs) = [drop 4 (snd (qcs ! h))]"
proof -
  have len: "length qcs = length ips" using ok by (simp add: dispatch_ok_def)
  show "map snd (zip ips qcs) = qcs" using len by simp
  show sub: "set ips \<subseteq> fst ` set ip2Ctx" using ok by (simp add: dispatch_ok_def)
  show "routes conf ip2Ctx (zip ips qcs)"
    unfolding routes_def
  proof (intro conjI ballI)
    show "ctx_ok conf ip2Ctx" using ok by (simp add: dispatch_ok_def)
    fix x assume "x \<in> set (zip ips qcs)"
    then obtain h where "h < length ips" "x = (ips ! h, qcs ! h)" by (auto simp: in_set_conv_nth)
    then show "case x of (ip, q, c) \<Rightarrow> ip \<in> fst ` set ip2Ctx \<and> q = snd (ip2Ctx ! ctx_idx ip2Ctx ip) \<and> addressed (ctx_idx ip2Ctx ip) c"
      using ok sub nth_mem[of h ips] by (auto simp: dispatch_ok_def case_prod_beta)
  qed
  assume h: "h < length ips"
  have "filter (\<lambda>(a, _). a = ips ! h) (zip ips qcs) = [zip ips qcs ! h]"
    using ok h len by (intro filter_unique) (auto simp: dispatch_ok_def nth_eq_iff_index_eq)
  then show "cmds_for (ips ! h) (zip ips qcs) = [drop 4 (snd (qcs ! h))]" using h len by (simp add: cmds_for_def case_prod_beta)
qed

lemma dispatch_delivered:
  assumes ok: "dispatch_ok conf ip2Ctx ips qcs" and idle: "no_cmds conf ips w"
    and coord: "coordinatorIP conf \<notin> set ips" and f: "\<And>i. f \<noteq> disQ i"
    and w1: "w1 = rpush (coordinatorIP conf) f msg (push_all (coordinatorIP conf) qcs w)"
  shows "routed conf ip2Ctx w1"
    and "(dist_step conf ip2Ctx)\<^sup>*\<^sup>* w1 w2 \<Longrightarrow> waiting conf w2 = 0 \<Longrightarrow>
      w_files w2 = w_files w \<and> (\<forall>h < length ips. w_queues w2 (ips ! h) ''dr_cmds'' = [drop 4 (snd (qcs ! h))]) \<and>
      (\<forall>ip \<in> set ips. \<forall>key. key \<noteq> ''dr_cmds'' \<longrightarrow> w_queues w2 ip key = w_queues w ip key)"
proof -
  note routes = dispatch_routes[OF ok]
  note delivered = routes_delivered[OF routes(1) idle routes(3) coord f, unfolded routes(2), OF w1]
  show "routed conf ip2Ctx w1" by (rule delivered(1))
  assume "(dist_step conf ip2Ctx)\<^sup>*\<^sup>* w1 w2" "waiting conf w2 = 0"
  from delivered(2)[OF this] show "w_files w2 = w_files w \<and> (\<forall>h < length ips. w_queues w2 (ips ! h) ''dr_cmds'' = [drop 4 (snd (qcs ! h))]) \<and>
      (\<forall>ip \<in> set ips. \<forall>key. key \<noteq> ''dr_cmds'' \<longrightarrow> w_queues w2 ip key = w_queues w ip key)"
    using routes(4) by simp
qed

lemma dispatch_reply:
  assumes "dispatch_ok conf ip2Ctx ips qcs" and "\<And>i. f \<noteq> disQ i"
  shows "w_queues (rpush (coordinatorIP conf) f msg (push_all (coordinatorIP conf) qcs w)) (coordinatorIP conf) f =
    w_queues w (coordinatorIP conf) f @ [msg]"
  using routes_reply[OF dispatch_routes(1)[OF assms(1)] assms(2)] dispatch_routes(2)[OF assms(1)] by simp

section \<open>The workers take their commands\<close>

fun start_all :: "(ip_addr \<Rightarrow> world \<Rightarrow> (world \<times> 'p) res) \<Rightarrow> ip_addr list \<Rightarrow> world \<Rightarrow> (world \<times> 'p list) res" where
  "start_all receive [] w = Inr (w, [])"
| "start_all receive (ip # ips) w =
     bindE (receive ip w) (\<lambda>(w1, p). bindE (start_all receive ips w1) (\<lambda>(w2, ps). Inr (w2, p # ps)))"

text \<open>A worker's loop takes a command and starts it.\<close>

definition take_cmd :: "(ip_addr \<Rightarrow> byte list \<Rightarrow> 'p res) \<Rightarrow> ip_addr \<Rightarrow> world \<Rightarrow> (world \<times> 'p) res" where
  "take_cmd start ip w = bindE (blpop ip ''dr_cmds'' w) (\<lambda>(cmd, w1). bindE (start ip cmd) (\<lambda>p. Inr (w1, p)))"

definition cmds_taken :: "ip_addr \<Rightarrow> world \<Rightarrow> world" where
  "cmds_taken ip w = w\<lparr>w_queues := (w_queues w)(ip := (w_queues w ip)(''dr_cmds'' := []))\<rparr>"

lemma start_all_any:
  assumes "distinct ips"
    and "\<And>h v. h < length ips \<Longrightarrow> w_queues v (ips ! h) ''dr_cmds'' = w_queues w (ips ! h) ''dr_cmds'' \<Longrightarrow>
      receive (ips ! h) v = Inr (cmds_taken (ips ! h) v, p h)"
  shows "\<exists>w'. start_all receive ips w = Inr (w', map p [0..<length ips]) \<and> w_files w' = w_files w \<and>
    (\<forall>ip key. key \<noteq> ''dr_cmds'' \<longrightarrow> w_queues w' ip key = w_queues w ip key)"
  using assms
proof (induction ips arbitrary: w p)
  case (Cons ip ips)
  define w1 where "w1 = cmds_taken ip w"
  have "receive ip w = Inr (w1, p 0)" using Cons.prems(2)[of 0 w] by (simp add: w1_def)
  moreover have "w_queues w1 (ips ! h) key = w_queues w (ips ! h) key" if "h < length ips" for h key
    using Cons.prems(1) nth_mem[OF that] by (auto simp: w1_def cmds_taken_def)
  then have "\<exists>w'. start_all receive ips w1 = Inr (w', map (p \<circ> Suc) [0..<length ips]) \<and> w_files w' = w_files w1 \<and>
      (\<forall>ip key. key \<noteq> ''dr_cmds'' \<longrightarrow> w_queues w' ip key = w_queues w1 ip key)"
    using Cons.prems(1) Cons.prems(2)[of "Suc _"] by (intro Cons.IH) simp_all
  moreover have "map p [0..<Suc n] = p 0 # map (p \<circ> Suc) [0..<n]" for n
    by (simp add: upt_rec[of 0] map_Suc_upt[symmetric] del: upt_Suc)
  ultimately show ?case
    by (auto simp: w1_def cmds_taken_def simp del: upt_Suc)
qed simp

lemma start_all_eq:
  assumes "distinct ips" and "\<And>h. h < length ips \<Longrightarrow> w_queues w (ips ! h) ''dr_cmds'' = [cmd h]"
    and "\<And>h. h < length ips \<Longrightarrow> start (ips ! h) (cmd h) = Inr (p h)"
  shows "\<exists>w'. start_all (take_cmd start) ips w = Inr (w', map p [0..<length ips]) \<and> w_files w' = w_files w \<and>
    (\<forall>ip key. key \<noteq> ''dr_cmds'' \<longrightarrow> w_queues w' ip key = w_queues w ip key)"
  using assms by (intro start_all_any) (simp_all add: take_cmd_def blpop_def cmds_taken_def)

lemma start_all_others:
  "start_all (take_cmd start) ips w = Inr (w', ps) \<Longrightarrow> key \<noteq> ''dr_cmds'' \<Longrightarrow> w_queues w' ip key = w_queues w ip key"
proof (induction ips arbitrary: w ps)
  case (Cons i ips)
  then obtain w1 p ps1 where "take_cmd start i w = Inr (w1, p)" "start_all (take_cmd start) ips w1 = Inr (w', ps1)"
    by (auto simp: res_simps)
  moreover from this have "w_queues w1 ip key = w_queues w ip key"
    using Cons.prems(2) by (auto simp: take_cmd_def blpop_def res_simps split: list.splits)
  ultimately show ?case using Cons by metis
qed simp

section \<open>The request of a client\<close>

definition only_requests :: "repair_config \<Rightarrow> repair_config \<Rightarrow> string list \<Rightarrow> world \<Rightarrow> bool" where
  "only_requests conf client fs w \<longleftrightarrow>
     (\<exists>req. dr_request client fs = Inr req \<and> w_queues w (coordinatorIP conf) ''dr_requests'' = [req])"

abbreviation only_request :: "repair_config \<Rightarrow> repair_config \<Rightarrow> string \<Rightarrow> world \<Rightarrow> bool" where
  "only_request conf client f \<equiv> only_requests conf client [f]"

definition no_request :: "repair_config \<Rightarrow> world \<Rightarrow> world" where
  "no_request conf w =
     w\<lparr>w_queues := (w_queues w)(coordinatorIP conf := (w_queues w (coordinatorIP conf))(''dr_requests'' := []))\<rparr>"

lemma only_requestE:
  assumes "only_requests conf client fs w"
  obtains req where "dr_request client fs = Inr req" "blpop (coordinatorIP conf) ''dr_requests'' w = Inr (req, no_request conf w)"
    "get_word req 0 = Inr (localIP client)" "\<not> length req < 4"
proof -
  obtain req where req: "dr_request client fs = Inr req" "w_queues w (coordinatorIP conf) ''dr_requests'' = [req]"
    using assms by (auto simp: only_requests_def)
  have pop: "blpop (coordinatorIP conf) ''dr_requests'' w = Inr (req, no_request conf w)"
    using req(2) by (simp add: blpop_def no_request_def)
  obtain rest where "req = put_word (localIP client) @ rest"
    using req(1) by (auto simp: dr_request_def Let_def res_simps)
  then have "get_word req 0 = Inr (localIP client)" "\<not> length req < 4"
    using get_word_append[of 0 "[]" "localIP client" rest] by simp_all
  with req(1) pop that show ?thesis by blast
qed

lemma no_request_queues:
  "w_files (no_request conf w) = w_files w"
  "key \<noteq> ''dr_requests'' \<or> ip \<noteq> coordinatorIP conf \<Longrightarrow> w_queues (no_request conf w) ip key = w_queues w ip key"
  by (auto simp: no_request_def)

lemma disQ_dr_requests [simp]: "disQ i \<noteq> ''dr_requests''"
  by (simp add: disQ_def)

end
