(* ===== verification/Path_Selection.thy ===== *)
theory Path_Selection
  imports Complex_Main Prelude
begin

text \<open>
  \<open>PathSelection.cc\<close>, the search for a repair path: a walk from the requestor (node 0) through
  \<open>k\<close> further nodes whose slowest link is as fast as possible. \<open>initVal\<close> finds a first path
  greedily, \<open>ISHelper\<close> is the branch-and-bound search below the value it gives,
  \<open>intelligentSearch\<close> runs both. These routines only compare weights, so that \<open>real\<close> stands for
  \<open>double\<close> exactly. The specification is the least \<open>bottleneck\<close> over all simple paths.
\<close>

section \<open>The code\<close>

type_synonym weights = "real list list"

definition MAX_VALUE :: real where
  "MAX_VALUE = 1000000"

text \<open>The private members \<open>_globalMax\<close> and \<open>_path\<close>.\<close>

record path_sel =
  globalMax :: real
  ps_path :: "nat list"

definition cell :: "weights \<Rightarrow> int \<Rightarrow> int \<Rightarrow> real res" where
  "cell mat a b = bindE (atE mat a) (\<lambda>row. atE row b)"

definition set_used :: "bool list \<Rightarrow> int \<Rightarrow> bool list res" where
  "set_used used i = bindE (atE used i) (\<lambda>_. Inr (used[nat i := True]))"

text \<open>The first edge of the greedy path; the loop of the source leaves the last node out.\<close>

definition first_edge :: "weights \<Rightarrow> (real \<times> int) res" where
  "first_edge mat =
     foldE (\<lambda>i (minEdge, endPoint2).
       bindE (cell mat 0 (int i)) (\<lambda>x. Inr (if x < minEdge then (x, int i) else (minEdge, endPoint2))))
       [1..<length mat - 1] (MAX_VALUE, - 1)"

text \<open>The inner \<open>for\<close> loop: the nearest unused node; \<open>newNode\<close> keeps its value when there is none.\<close>

definition next_node :: "weights \<Rightarrow> bool list \<Rightarrow> int \<Rightarrow> int \<Rightarrow> (real \<times> int) res" where
  "next_node mat used endPoint2 newNode =
     foldE (\<lambda>i (tempMin, newNode).
       if used ! i then Inr (tempMin, newNode)
       else bindE (cell mat endPoint2 (int i)) (\<lambda>x.
         Inr (if x < tempMin then (min tempMin x, int i) else (tempMin, newNode))))
       [0..<length mat] (MAX_VALUE, newNode)"

text \<open>The \<open>while\<close> loop, \<open>n\<close> rounds of it. A node outside the arrays fails at \<open>used[newNode]\<close>.\<close>

fun extend_path ::
    "weights \<Rightarrow> nat \<Rightarrow> bool list \<Rightarrow> real \<Rightarrow> int \<Rightarrow> int \<Rightarrow> nat list \<Rightarrow> (real \<times> nat list) res" where
  "extend_path mat 0 used retVal endPoint2 newNode path = Inr (retVal, path)"
| "extend_path mat (Suc n) used retVal endPoint2 newNode path =
     bindE (next_node mat used endPoint2 newNode) (\<lambda>(tempMin, newNode).
     bindE (set_used used newNode) (\<lambda>used.
     extend_path mat n used (max retVal tempMin) newNode newNode (path @ [nat newNode])))"

text \<open>\<open>newNode0\<close> is what the uninitialised \<open>newNode\<close> holds.\<close>

definition initVal :: "int \<Rightarrow> weights \<Rightarrow> nat \<Rightarrow> nat list \<Rightarrow> (real \<times> nat list) res" where
  "initVal newNode0 mat k path =
     bindE (first_edge mat) (\<lambda>(minEdge, endPoint2).
     bindE (set_used (replicate (length mat) False) endPoint2) (\<lambda>used.
     bindE (set_used used 0) (\<lambda>used.
     extend_path mat (k - 1) used minEdge endPoint2 newNode0 (path @ [0, nat endPoint2]))))"

definition dumbSearch :: "weights \<Rightarrow> nat \<Rightarrow> real res" where
  "dumbSearch mat k =
     foldE (\<lambda>i retVal. bindE (cell mat (int i) (int i + 1)) (\<lambda>x. Inr (max retVal x))) [0..<k] 0"

lemma filter_Not_update:
  assumes "i < length used" and "\<not> used ! i"
  shows "length (filter Not (used[i := True])) < length (filter Not used)"
proof -
  have "length (filter Not (take i used @ (used ! i) # drop (Suc i) used)) = length (filter Not used)"
    using assms(1) by (simp only: id_take_nth_drop[symmetric])
  then show ?thesis
    using assms by (simp add: upd_conv_take_nth_drop)
qed

declare foldE_cong [fundef_cong] bindE_cong [fundef_cong]

text \<open>
  The recursion. \<open>selected\<close> and \<open>used\<close> are restored after every call, so that they are arguments
  here; \<open>remaining\<close> and \<open>currLen\<close> are not read by the source. The unused nodes become fewer.
\<close>

function ISHelper ::
    "weights \<Rightarrow> nat list \<Rightarrow> bool list \<Rightarrow> nat \<Rightarrow> real \<Rightarrow> path_sel \<Rightarrow> path_sel res" where
  "ISHelper mat selected used k currMax ps =
     (if length selected = k + 1
      then Inr \<lparr>globalMax = min (globalMax ps) currMax, ps_path = selected\<rparr>
      else foldE (\<lambda>i ps.
        if used ! i then Inr ps
        else bindE (cell mat (int (last selected)) (int i)) (\<lambda>x.
          if globalMax ps \<le> x then Inr ps
          else ISHelper mat (selected @ [i]) (used[i := True]) k (max currMax x) ps))
        [0..<length used] ps)"
  by pat_completeness auto
termination
  by (relation "measure (\<lambda>(mat, selected, used, k, currMax, ps). length (filter Not used))")
    (auto simp: filter_Not_update)

declare ISHelper.simps [simp del]

text \<open>Everything before the debug output, which is compiled in.\<close>

definition search :: "int \<Rightarrow> weights \<Rightarrow> nat \<Rightarrow> path_sel \<Rightarrow> path_sel res" where
  "search newNode0 mat k ps =
     bindE (initVal newNode0 mat k (ps_path ps)) (\<lambda>(g, _).
     ISHelper mat [0] ((replicate (length mat) False)[0 := True]) k 0 \<lparr>globalMax = g, ps_path = []\<rparr>)"

text \<open>The reads of the debug output: \<open>_path[k], \<dots>, _path[0]\<close> and the weights along the path.\<close>

definition print_path :: "weights \<Rightarrow> nat \<Rightarrow> nat list \<Rightarrow> unit res" where
  "print_path mat k path =
     bindE (foldE (\<lambda>i _. bindE (atE path (int i)) (\<lambda>_. Inr ())) (rev [0..<Suc k]) ()) (\<lambda>_.
     foldE (\<lambda>i _.
       bindE (atE path (int i)) (\<lambda>a.
       bindE (atE path (int i + 1)) (\<lambda>b.
       bindE (cell mat (int a) (int b)) (\<lambda>_. Inr ())))) (rev [0..<k]) ())"

definition intelligentSearch :: "int \<Rightarrow> weights \<Rightarrow> nat \<Rightarrow> path_sel \<Rightarrow> path_sel res" where
  "intelligentSearch newNode0 mat k ps =
     bindE (search newNode0 mat k ps) (\<lambda>ps'.
     bindE (print_path mat k (ps_path ps')) (\<lambda>_. Inr ps'))"

section \<open>Simple paths and their slowest link\<close>

fun bottleneck :: "weights \<Rightarrow> nat list \<Rightarrow> real" where
  "bottleneck mat (a # b # p) = max (mat ! a ! b) (bottleneck mat (b # p))"
| "bottleneck mat _ = 0"

definition simple_path :: "nat \<Rightarrow> nat \<Rightarrow> nat list \<Rightarrow> bool" where
  "simple_path n k p = (length p = Suc k \<and> distinct p \<and> (\<forall>x \<in> set p. x < n) \<and> p ! 0 = 0)"

text \<open>A square matrix of weights between 0 and \<open>MAX_VALUE\<close>.\<close>

definition weights_ok :: "weights \<Rightarrow> bool" where
  "weights_ok mat =
     (\<forall>row \<in> set mat. length row = length mat \<and> (\<forall>x \<in> set row. 0 \<le> x \<and> x < MAX_VALUE))"

definition best :: "weights \<Rightarrow> nat \<Rightarrow> real" where
  "best mat k = Min (bottleneck mat ` {p. simple_path (length mat) k p})"

lemma weights_okD:
  assumes "weights_ok mat" and "a < length mat" and "b < length mat"
  shows "length (mat ! a) = length mat" "0 \<le> mat ! a ! b" "mat ! a ! b < MAX_VALUE"
proof -
  have row: "length (mat ! a) = length mat \<and> (\<forall>x \<in> set (mat ! a). 0 \<le> x \<and> x < MAX_VALUE)"
    using assms(1,2) unfolding weights_ok_def by (meson nth_mem)
  then show "length (mat ! a) = length mat" by blast
  then have "mat ! a ! b \<in> set (mat ! a)"
    using assms(3) by simp
  with row show "0 \<le> mat ! a ! b" "mat ! a ! b < MAX_VALUE" by blast+
qed

lemma cell_in [simp]:
  assumes "weights_ok mat" and "a < length mat" and "b < length mat"
  shows "cell mat (int a) (int b) = Inr (mat ! a ! b)"
  using assms weights_okD(1)[OF assms] by (simp add: cell_def)

lemma bottleneck_snoc:
  assumes "p \<noteq> []"
  shows "bottleneck mat (p @ [x]) = max (bottleneck mat p) (max (mat ! last p ! x) 0)"
  using assms
proof (induction mat p rule: bottleneck.induct)
  case (1 mat a b p)
  then show ?case by simp
qed auto

lemma bottleneck_nonneg: "0 \<le> bottleneck mat p"
  by (induction mat p rule: bottleneck.induct) auto

lemma bottleneck_append_ge: "bottleneck mat p \<le> bottleneck mat (p @ q)"
proof (induction mat p rule: bottleneck.induct)
  case (1 mat a b p)
  then show ?case by (auto simp: max_def)
qed (auto simp: bottleneck_nonneg)

lemma finite_simple_paths: "finite {p. simple_path n k p}"
  by (rule finite_subset[OF _ finite_lists_length_eq[of "{..<n}" "Suc k"]])
    (auto simp: simple_path_def)

lemma best_le: "simple_path (length mat) k p \<Longrightarrow> best mat k \<le> bottleneck mat p"
  unfolding best_def by (intro Min_le) (auto simp: finite_simple_paths)

lemma best_eqI:
  assumes "\<And>p. simple_path (length mat) k p \<Longrightarrow> g \<le> bottleneck mat p"
    and "simple_path (length mat) k q" and "bottleneck mat q = g"
  shows "best mat k = g"
  unfolding best_def using assms by (intro Min_eqI) (auto simp: finite_simple_paths)

section \<open>The greedy path\<close>

definition marks :: "nat \<Rightarrow> nat list \<Rightarrow> bool list" where
  "marks n p = map (\<lambda>i. i \<in> set p) [0..<n]"

lemma length_marks [simp]: "length (marks n p) = n"
  by (simp add: marks_def)

lemma nth_marks [simp]: "i < n \<Longrightarrow> marks n p ! i \<longleftrightarrow> i \<in> set p"
  by (simp add: marks_def)

lemma marks_update: "i < n \<Longrightarrow> (marks n p)[i := True] = marks n (p @ [i])"
  by (rule nth_equalityI) (auto simp: nth_list_update)

lemma marks_start: "0 < n \<Longrightarrow> (replicate n False)[0 := True] = marks n [0]"
  by (rule nth_equalityI) (auto simp: nth_list_update)

lemma set_used_marks [simp]: "i < n \<Longrightarrow> set_used (marks n p) (int i) = Inr (marks n (p @ [i]))"
  by (simp add: set_used_def marks_update)

lemma first_edge_eq:
  assumes "weights_ok mat" and "3 \<le> length mat"
  shows "\<exists>b. 0 < b \<and> b < length mat \<and> first_edge mat = Inr (mat ! 0 ! b, int b)"
proof -
  let ?f = "\<lambda>i (minEdge, endPoint2).
    bindE (cell mat 0 (int i)) (\<lambda>x. Inr (if x < minEdge then (x, int i) else (minEdge, endPoint2)))"
  let ?P = "\<lambda>m s. (m = 0 \<and> s = (MAX_VALUE, - 1)) \<or>
    (\<exists>b. 0 < b \<and> b \<le> m \<and> s = (mat ! 0 ! b, int b))"
  have [simp]: "cell mat 0 (int i) = Inr (mat ! 0 ! i)" "mat ! 0 ! i < MAX_VALUE" if "i < length mat" for i
    using cell_in[OF assms(1) _ that, of 0] weights_okD(3)[OF assms(1) _ that, of 0] that by force+
  have "\<exists>s. foldE (\<lambda>i. ?f (Suc i)) [0..<length mat - 2] (MAX_VALUE, - 1) = Inr s \<and> ?P (length mat - 2) s"
  proof (rule foldE_upt_inv)
    fix i s assume i: "i < length mat - 2" and P: "?P i s"
    obtain e b where s: "s = (e, b)" by (cases s)
    have "?f (Suc i) s = Inr (if mat ! 0 ! Suc i < e then (mat ! 0 ! Suc i, int (Suc i)) else (e, b))"
      using i by (simp add: s del: of_nat_Suc)
    moreover have "mat ! 0 ! Suc i < e \<or> (\<exists>b'. 0 < b' \<and> b' \<le> i \<and> s = (mat ! 0 ! b', int b'))"
      using P i by (auto simp: s)
    ultimately show "\<exists>s'. ?f (Suc i) s = Inr s' \<and> ?P (Suc i) s'"
      by (auto simp: s intro: exI[of _ "Suc i"])
  qed simp
  moreover have "foldE f [1..<length mat - 1] s = foldE (\<lambda>i. f (Suc i)) [0..<length mat - 2] s"
    for f and s :: "real \<times> int"
  proof -
    have "foldE f (map Suc xs) s = foldE (\<lambda>i. f (Suc i)) xs s" for xs
      by (induction xs arbitrary: s) (auto intro: bindE_cong)
    moreover have "[1..<length mat - 1] = map Suc [0..<length mat - 2]"
      by (rule nth_equalityI) auto
    ultimately show ?thesis by simp
  qed
  ultimately show ?thesis
    using assms(2) unfolding first_edge_def by auto
qed

lemma next_node_eq:
  assumes ok: "weights_ok mat" and a: "a < length mat" and free: "\<exists>j < length mat. j \<notin> set p"
  shows "\<exists>b < length mat. b \<notin> set p \<and>
    next_node mat (marks (length mat) p) (int a) newNode = Inr (mat ! a ! b, int b)"
proof -
  let ?f = "\<lambda>i (tempMin, newNode).
       if marks (length mat) p ! i then Inr (tempMin, newNode)
       else bindE (cell mat (int a) (int i)) (\<lambda>x.
         Inr (if x < tempMin then (min tempMin x, int i) else (tempMin, newNode)))"
  let ?P = "\<lambda>m s. ((\<forall>j < m. j \<in> set p) \<and> s = (MAX_VALUE, newNode)) \<or>
    (\<exists>b < m. b \<notin> set p \<and> s = (mat ! a ! b, int b))"
  have "\<exists>s. foldE ?f [0..<length mat] (MAX_VALUE, newNode) = Inr s \<and> ?P (length mat) s"
  proof (rule foldE_upt_inv)
    fix i s assume i: "i < length mat" and P: "?P i s"
    have "mat ! a ! i < MAX_VALUE"
      by (rule weights_okD(3)[OF ok a i])
    with P show "\<exists>s'. ?f i s = Inr s' \<and> ?P (Suc i) s'"
      using ok a i
      by (cases "i \<in> set p") (auto simp: min_def less_Suc_eq)
  qed simp
  then show ?thesis
    using free unfolding next_node_def by auto
qed

lemma free_node:
  assumes "length p < n"
  shows "\<exists>j < n. j \<notin> set p"
proof (rule ccontr)
  assume "\<not> (\<exists>j < n. j \<notin> set p)"
  then have "{..<n} \<subseteq> set p" by auto
  then have "n \<le> length p"
    by (metis card_lessThan card_length card_mono finite_set order_trans)
  with assms show False by simp
qed

lemma extend_path_eq:
  assumes "weights_ok mat" and "length p + m \<le> length mat" and "p \<noteq> []" and "distinct p"
    and "\<forall>x \<in> set p. x < length mat"
  shows "\<exists>q. extend_path mat m (marks (length mat) p) (bottleneck mat p) (int (last p)) newNode (r @ p)
      = Inr (bottleneck mat (p @ q), r @ p @ q) \<and> length q = m \<and> distinct (p @ q) \<and>
    (\<forall>x \<in> set q. x < length mat)"
  using assms(2-)
proof (induction m arbitrary: p newNode)
  case (Suc m)
  have last: "last p < length mat" using Suc.prems by simp
  obtain b where b: "b < length mat" "b \<notin> set p"
    "next_node mat (marks (length mat) p) (int (last p)) newNode = Inr (mat ! last p ! b, int b)"
    using next_node_eq[OF assms(1) last free_node] Suc.prems(1) by (metis less_le_trans less_add_same_cancel1 zero_less_Suc)
  have "bottleneck mat (p @ [b]) = max (bottleneck mat p) (mat ! last p ! b)"
    using bottleneck_snoc[OF Suc.prems(2)] weights_okD(2)[OF assms(1) last b(1)] by simp
  moreover obtain q where "extend_path mat m (marks (length mat) (p @ [b])) (bottleneck mat (p @ [b])) (int (last (p @ [b])))
      (int b) (r @ (p @ [b])) = Inr (bottleneck mat ((p @ [b]) @ q), r @ (p @ [b]) @ q)"
    "length q = m" "distinct ((p @ [b]) @ q)" "\<forall>x \<in> set q. x < length mat"
    using Suc.IH[of "p @ [b]" "int b"] Suc.prems b(1,2) by auto
  ultimately show ?case
    using b by (intro exI[of _ "b # q"]) simp
qed simp

lemma initVal_eq:
  assumes "weights_ok mat" and "2 \<le> k" and "k < length mat"
  shows "\<exists>p. simple_path (length mat) k p \<and> initVal newNode0 mat k r = Inr (bottleneck mat p, r @ p)"
proof -
  obtain b where b: "0 < b" "b < length mat" "first_edge mat = Inr (mat ! 0 ! b, int b)"
    using first_edge_eq[OF assms(1)] assms(2,3) by auto
  have pos: "0 < length mat" using assms(3) by linarith
  have "set_used (replicate (length mat) False) (int b) = Inr ((replicate (length mat) False)[b := True])"
    using b by (simp add: set_used_def)
  moreover have "(replicate (length mat) False)[b := True, 0 := True] = marks (length mat) [0, b]"
  proof (rule nth_equalityI)
    show "(replicate (length mat) False)[b := True, 0 := True] ! i = marks (length mat) [0, b] ! i"
      if "i < length ((replicate (length mat) False)[b := True, 0 := True])" for i
      using that by (cases "i = 0"; cases "i = b") simp_all
  qed simp
  then have "set_used ((replicate (length mat) False)[b := True]) 0 = Inr (marks (length mat) [0, b])"
    using pos by (simp add: set_used_def)
  moreover have "bottleneck mat [0, b] = mat ! 0 ! b"
    using weights_okD(2)[OF assms(1) pos b(2)] by simp
  moreover obtain q where "extend_path mat (k - 1) (marks (length mat) [0, b]) (bottleneck mat [0, b]) (int (last [0, b])) newNode0 (r @ [0, b])
      = Inr (bottleneck mat ([0, b] @ q), r @ [0, b] @ q)" "length q = k - 1" "distinct ([0, b] @ q)"
    "\<forall>x \<in> set q. x < length mat"
    using extend_path_eq[OF assms(1), of "[0, b]" "k - 1" newNode0 r] b(1,2) pos assms(2,3) by auto
  ultimately show ?thesis
    using b assms by (intro exI[of _ "[0, b] @ q"]) (auto simp: initVal_def simple_path_def)
qed

section \<open>Branch and bound\<close>

definition completes :: "nat \<Rightarrow> nat \<Rightarrow> nat list \<Rightarrow> nat list \<Rightarrow> bool" where
  "completes n k sel p =
     (length p = Suc k \<and> distinct p \<and> (\<forall>x \<in> set p. x < n) \<and> (\<exists>q. p = sel @ q))"

text \<open>
  What the search below \<open>sel\<close>, restricted to the continuations in \<open>Q\<close>, makes of the bound \<open>g\<close>
  and the path \<open>P\<close>: the bound drops to the best continuation, and a new path is a continuation
  that attains the bound, with all its new links below the bound the search started with.
\<close>

definition searched ::
    "weights \<Rightarrow> nat \<Rightarrow> nat list \<Rightarrow> (nat list \<Rightarrow> bool) \<Rightarrow> path_sel \<Rightarrow> path_sel \<Rightarrow> bool" where
  "searched mat k sel Q ps ps' =
     (globalMax ps' \<le> globalMax ps \<and>
      (\<forall>p. completes (length mat) k sel p \<and> Q p \<longrightarrow> globalMax ps' \<le> bottleneck mat p) \<and>
      (globalMax ps' = globalMax ps \<or>
        (\<exists>p. completes (length mat) k sel p \<and> globalMax ps' = bottleneck mat p)) \<and>
      (ps' = ps \<or> completes (length mat) k sel (ps_path ps') \<and>
        globalMax ps' = bottleneck mat (ps_path ps') \<and>
        (\<forall>j. length sel \<le> j \<and> j \<le> k \<longrightarrow>
           mat ! (ps_path ps' ! (j - 1)) ! (ps_path ps' ! j) < globalMax ps)))"

lemma completes_snoc: "completes n k (sel @ [i]) p \<Longrightarrow> completes n k sel p"
  by (auto simp: completes_def)

lemma completes_next:
  assumes "completes n k sel p" and "length sel \<noteq> k + 1"
  shows "length sel < length p" "p ! length sel < n" "completes n k (sel @ [p ! length sel]) p"
    "p ! length sel \<notin> set sel"
proof -
  obtain q where q: "p = sel @ q" "length p = Suc k" "distinct p" "\<forall>x \<in> set p. x < n"
    using assms(1) by (auto simp: completes_def)
  then obtain x r where "q = x # r"
    using assms(2) by (cases q) auto
  with q show "length sel < length p" "p ! length sel < n" "completes n k (sel @ [p ! length sel]) p"
    "p ! length sel \<notin> set sel"
    by (auto simp: completes_def)
qed

lemma bottleneck_ge_link:
  assumes "sel \<noteq> []"
  shows "mat ! last sel ! i \<le> bottleneck mat ((sel @ [i]) @ q)"
  using bottleneck_append_ge[of mat "sel @ [i]" q] bottleneck_snoc[OF assms, of mat i] by simp

lemma completes_link:
  assumes "completes n k (sel @ [i]) p" and "sel \<noteq> []"
  shows "mat ! last sel ! i \<le> bottleneck mat p" "p ! length sel = i" "p ! (length sel - 1) = last sel"
  using assms bottleneck_ge_link[of sel mat i]
  by (auto simp: completes_def nth_append last_conv_nth)

lemma searched_refl: "(\<And>p. completes (length mat) k sel p \<Longrightarrow> \<not> Q p) \<Longrightarrow> searched mat k sel Q ps ps"
  by (auto simp: searched_def)

text \<open>One more continuation: skipped because it is above the bound, or searched.\<close>

lemma searched_skip:
  assumes "searched mat k sel (\<lambda>p. p ! length sel < i) ps ps1"
    and "\<And>p. completes (length mat) k (sel @ [i]) p \<Longrightarrow> globalMax ps1 \<le> bottleneck mat p"
    and "length sel \<noteq> k + 1"
  shows "searched mat k sel (\<lambda>p. p ! length sel < Suc i) ps ps1"
  using assms(1) completes_next(3)[OF _ assms(3)] assms(2)
  unfolding searched_def by (metis less_Suc_eq)

lemma searched_step:
  assumes 1: "searched mat k sel (\<lambda>p. p ! length sel < i) ps ps1"
    and 2: "searched mat k (sel @ [i]) (\<lambda>p. True) ps1 ps2"
    and sel: "sel \<noteq> []" "length sel \<noteq> k + 1" and link: "mat ! last sel ! i < globalMax ps1"
  shows "searched mat k sel (\<lambda>p. p ! length sel < Suc i) ps ps2"
proof -
  have le: "globalMax ps2 \<le> globalMax ps1" "globalMax ps1 \<le> globalMax ps"
    using 1 2 by (auto simp: searched_def)
  have all: "globalMax ps2 \<le> bottleneck mat p"
    if "completes (length mat) k sel p" "p ! length sel < Suc i" for p
  proof (cases "p ! length sel = i")
    case True
    then show ?thesis
      using 2 completes_next(3)[OF that(1) sel(2)] by (auto simp: searched_def)
  next
    case False
    then have "globalMax ps1 \<le> bottleneck mat p"
      using 1 that by (auto simp: searched_def)
    with le show ?thesis by linarith
  qed
  have attained: "globalMax ps2 = globalMax ps \<or>
      (\<exists>p. completes (length mat) k sel p \<and> globalMax ps2 = bottleneck mat p)"
    using 1 2 completes_snoc unfolding searched_def by metis
  have new: "ps2 = ps \<or> completes (length mat) k sel (ps_path ps2) \<and>
        globalMax ps2 = bottleneck mat (ps_path ps2) \<and>
        (\<forall>j. length sel \<le> j \<and> j \<le> k \<longrightarrow>
           mat ! (ps_path ps2 ! (j - 1)) ! (ps_path ps2 ! j) < globalMax ps)"
  proof (cases "ps2 = ps1")
    case True
    then show ?thesis using 1 by (simp add: searched_def)
  next
    case False
    then have c: "completes (length mat) k (sel @ [i]) (ps_path ps2)"
      and b: "globalMax ps2 = bottleneck mat (ps_path ps2)"
      and l: "\<And>j. Suc (length sel) \<le> j \<Longrightarrow> j \<le> k \<Longrightarrow>
        mat ! (ps_path ps2 ! (j - 1)) ! (ps_path ps2 ! j) < globalMax ps1"
      using 2 by (auto simp: searched_def)
    have "mat ! (ps_path ps2 ! (j - 1)) ! (ps_path ps2 ! j) < globalMax ps1"
      if "length sel \<le> j" "j \<le> k" for j
      using l[of j] that link completes_link(2,3)[OF c sel(1)] by (cases "j = length sel") auto
    with le(2) completes_snoc[OF c] b show ?thesis by force
  qed
  show ?thesis
    unfolding searched_def using le all attained new by auto
qed

lemma searched_bound:
  assumes "searched mat k sel Q ps ps'" and "bottleneck mat sel \<le> globalMax ps"
  shows "bottleneck mat sel \<le> globalMax ps'"
  using assms bottleneck_append_ge[of mat sel] by (auto simp: searched_def completes_def)

lemma ISHelper_searched:
  assumes "weights_ok mat" and "sel \<noteq> []" and "distinct sel" and "\<forall>x \<in> set sel. x < length mat"
    and "length sel \<le> Suc k" and "bottleneck mat sel \<le> globalMax ps"
  shows "\<exists>ps'. ISHelper mat sel (marks (length mat) sel) k (bottleneck mat sel) ps = Inr ps' \<and>
    searched mat k sel (\<lambda>p. True) ps ps'"
  using assms(2-)
proof (induction "Suc k - length sel" arbitrary: sel ps)
  case 0
  then have full: "length sel = k + 1" by simp
  then have only: "completes (length mat) k sel p \<longleftrightarrow> p = sel" for p
    using 0 by (auto simp: completes_def)
  have "ISHelper mat sel (marks (length mat) sel) k (bottleneck mat sel) ps =
      Inr \<lparr>globalMax = bottleneck mat sel, ps_path = sel\<rparr>"
    using full 0 by (subst ISHelper.simps) (simp add: min_absorb2)
  moreover have "searched mat k sel (\<lambda>p. True) ps \<lparr>globalMax = bottleneck mat sel, ps_path = sel\<rparr>"
    using full 0 by (simp add: searched_def only)
  ultimately show ?case by blast
next
  case (Suc d)
  let ?n = "length mat"
  let ?f = "\<lambda>i ps.
        if marks ?n sel ! i then Inr ps
        else bindE (cell mat (int (last sel)) (int i)) (\<lambda>x.
          if globalMax ps \<le> x then Inr ps
          else ISHelper mat (sel @ [i]) ((marks ?n sel)[i := True]) k (max (bottleneck mat sel) x) ps)"
  have len: "d = k - length sel" "length sel \<le> k" using Suc.hyps(2) by linarith+
  then have neq: "length sel \<noteq> k + 1" by simp
  have last: "last sel < ?n" using Suc.prems by simp
  have "\<exists>ps'. foldE ?f [0..<?n] ps = Inr ps' \<and> searched mat k sel (\<lambda>p. p ! length sel < ?n) ps ps'"
  proof (rule foldE_upt_inv)
    fix i ps1 assume i: "i < ?n" and s1: "searched mat k sel (\<lambda>p. p ! length sel < i) ps ps1"
    show "\<exists>ps'. ?f i ps1 = Inr ps' \<and> searched mat k sel (\<lambda>p. p ! length sel < Suc i) ps ps'"
    proof (cases "i \<in> set sel \<or> globalMax ps1 \<le> mat ! last sel ! i")
      case True
      then have "?f i ps1 = Inr ps1"
        using i last assms(1) by auto
      moreover have "globalMax ps1 \<le> bottleneck mat p" if c: "completes ?n k (sel @ [i]) p" for p
      proof -
        have "i \<notin> set sel" using c by (auto simp: completes_def)
        with True completes_link(1)[OF c Suc.prems(1), of mat] show ?thesis by force
      qed
      ultimately show ?thesis
        using searched_skip[OF s1 _ neq] by blast
    next
      case False
      have bn: "max (bottleneck mat sel) (mat ! last sel ! i) = bottleneck mat (sel @ [i])"
        using bottleneck_snoc[OF Suc.prems(1)] weights_okD(2)[OF assms(1) last i] by simp
      then have eq: "?f i ps1 = ISHelper mat (sel @ [i]) (marks ?n (sel @ [i])) k (bottleneck mat (sel @ [i])) ps1"
        using False i last assms(1) by (simp add: marks_update)
      have "bottleneck mat sel \<le> globalMax ps1"
        by (rule searched_bound[OF s1 Suc.prems(5)])
      then have "bottleneck mat (sel @ [i]) \<le> globalMax ps1"
        using False by (simp flip: bn)
      then obtain ps2 where "ISHelper mat (sel @ [i]) (marks ?n (sel @ [i])) k (bottleneck mat (sel @ [i])) ps1 = Inr ps2"
        "searched mat k (sel @ [i]) (\<lambda>p. True) ps1 ps2"
        using Suc.hyps(1)[of "sel @ [i]" ps1] len Suc.prems(1-3) False i by auto
      with eq searched_step[OF s1 _ Suc.prems(1) neq] False show ?thesis by force
    qed
  qed (simp add: searched_refl)
  moreover have "searched mat k sel (\<lambda>p. p ! length sel < ?n) ps ps' \<Longrightarrow> searched mat k sel (\<lambda>p. True) ps ps'" for ps'
    using completes_next(2)[OF _ neq] unfolding searched_def by blast
  ultimately show ?case
    using neq by (subst ISHelper.simps) auto
qed

lemma simple_path_completes: "simple_path n k p \<longleftrightarrow> completes n k [0] p"
  by (cases p) (auto simp: simple_path_def completes_def)

lemma bottleneck_lessI:
  assumes "\<And>j. 1 \<le> j \<Longrightarrow> j < length p \<Longrightarrow> mat ! (p ! (j - 1)) ! (p ! j) < g" and "0 < g"
  shows "bottleneck mat p < g"
  using assms
proof (induction mat p rule: bottleneck.induct)
  case (1 mat a b p)
  have "mat ! a ! b < g"
    using "1.prems"(1)[of 1] by simp
  moreover have "bottleneck mat (b # p) < g"
  proof (rule "1.IH")
    show "mat ! ((b # p) ! (j - 1)) ! ((b # p) ! j) < g" if "1 \<le> j" "j < length (b # p)" for j
      using "1.prems"(1)[of "Suc j"] that by (cases j) simp_all
  qed (rule "1.prems")
  ultimately show ?case by simp
qed auto

text \<open>The search after the greedy path: the best value, and a best path unless the greedy one is best.\<close>

lemma search_eq:
  assumes ok: "weights_ok mat" and k: "2 \<le> k" "k < length mat"
    and g: "initVal newNode0 mat k (ps_path ps) = Inr (g, r)"
  shows "\<exists>ps'. search newNode0 mat k ps = Inr ps' \<and> globalMax ps' = best mat k \<and>
    (if best mat k < g then simple_path (length mat) k (ps_path ps') \<and> bottleneck mat (ps_path ps') = best mat k
     else ps_path ps' = [])"
proof -
  obtain p0 where p0: "simple_path (length mat) k p0" "g = bottleneck mat p0"
    using initVal_eq[OF ok k, of newNode0 "ps_path ps"] g by fastforce
  let ?ps = "\<lparr>globalMax = g, ps_path = []\<rparr>"
  have pos: "0 < length mat" using k by linarith
  obtain ps' where ps': "ISHelper mat [0] (marks (length mat) [0]) k (bottleneck mat [0]) ?ps = Inr ps'"
    and s: "searched mat k [0] (\<lambda>p. True) ?ps ps'"
    using ISHelper_searched[OF ok, of "[0]" k ?ps] pos p0(2) bottleneck_nonneg by auto
  have run: "search newNode0 mat k ps = Inr ps'"
    using ps' g pos by (simp add: search_def marks_start)
  have "g' \<le> bottleneck mat p" if "g' = globalMax ps'" "simple_path (length mat) k p" for g' p
    using s that by (auto simp: searched_def simple_path_completes)
  then have best: "best mat k = globalMax ps'"
    using s p0 best_eqI[of mat k "globalMax ps'"] by (auto simp: searched_def simple_path_completes)
  have "ps' = ?ps" if "\<not> best mat k < g"
  proof (rule ccontr)
    assume "ps' \<noteq> ?ps"
    then have c: "completes (length mat) k [0] (ps_path ps')" "globalMax ps' = bottleneck mat (ps_path ps')"
      and l: "\<And>j. 1 \<le> j \<Longrightarrow> j \<le> k \<Longrightarrow> mat ! (ps_path ps' ! (j - 1)) ! (ps_path ps' ! j) < g"
      using s by (auto simp: searched_def)
    have nodes: "ps_path ps' ! j < length mat" if "j \<le> k" for j
      using c(1) that by (auto simp: completes_def)
    have "0 < g"
      using l[of 1] k weights_okD(2)[OF ok nodes[of 0] nodes[of 1]] by force
    moreover have "length (ps_path ps') = Suc k"
      using c(1) by (simp add: completes_def)
    ultimately have "bottleneck mat (ps_path ps') < g"
      using l by (intro bottleneck_lessI) auto
    with that best c(2) show False by simp
  qed
  moreover have "simple_path (length mat) k (ps_path ps') \<and> bottleneck mat (ps_path ps') = best mat k" if "best mat k < g"
    using s that best by (auto simp: searched_def simple_path_completes)
  ultimately show ?thesis
    using run best by (intro exI[of _ ps']) auto
qed

lemma print_path_empty: "print_path mat k [] = Inl Out_Of_Bounds"
  by (simp add: print_path_def atE_def)

lemma print_path_ok:
  assumes "weights_ok mat" and "simple_path (length mat) k p"
  shows "print_path mat k p = Inr ()"
proof -
  have p: "length p = Suc k" "\<And>j. j \<le> k \<Longrightarrow> p ! j < length mat"
    using assms(2) by (auto simp: simple_path_def)
  have next_at: "atE p (int i + 1) = Inr (p ! Suc i)" if "i < k" for i
    using p(1) that atE_nat[of "Suc i" p] by (simp add: add.commute)
  have unit: "foldE f xs () = Inr ()" if "\<And>x. x \<in> set xs \<Longrightarrow> f x () = Inr ()" for xs :: "nat list" and f
    using that by (induction xs) simp_all
  have "foldE (\<lambda>i _. bindE (atE p (int i)) (\<lambda>_. Inr ())) (rev [0..<Suc k]) () = Inr ()"
    using p(1) by (intro unit) auto
  moreover have "foldE (\<lambda>i _. bindE (atE p (int i)) (\<lambda>a. bindE (atE p (int i + 1)) (\<lambda>b.
      bindE (cell mat (int a) (int b)) (\<lambda>_. Inr ())))) (rev [0..<k]) () = Inr ()"
    using p assms(1) next_at by (intro unit) (simp del: atE_in)
  ultimately show ?thesis
    by (simp only: print_path_def bindE_Inr)
qed

section \<open>Properties\<close>

text \<open>
  C14. When some path beats the greedy one, \<open>intelligentSearch\<close> returns the least bottleneck over
  all simple paths of \<open>k\<close> links from node 0, together with a path that attains it: pruning at
  \<open>_globalMax\<close> loses nothing, and the path kept last is a best one.
\<close>

theorem intelligentSearch_best:
  assumes "weights_ok mat" and "2 \<le> k" and "k < length mat"
    and "initVal newNode0 mat k (ps_path ps) = Inr (g, r)" and "best mat k < g"
  shows "\<exists>p. intelligentSearch newNode0 mat k ps = Inr \<lparr>globalMax = best mat k, ps_path = p\<rparr> \<and>
    simple_path (length mat) k p \<and> bottleneck mat p = best mat k"
proof -
  obtain ps' where "search newNode0 mat k ps = Inr ps'" "globalMax ps' = best mat k"
    "simple_path (length mat) k (ps_path ps')" "bottleneck mat (ps_path ps') = best mat k"
    using search_eq[OF assms(1-4)] assms(5) by auto
  then show ?thesis
    using print_path_ok[OF assms(1)]
    by (intro exI[of _ "ps_path ps'"]) (cases ps', simp add: intelligentSearch_def)
qed

text \<open>Three nodes: the greedy path 0, 1, 2 has a link of weight 9, the path 0, 2, 1 none above 3.\<close>

definition sample_weights :: weights where
  "sample_weights = [[0, 1, 2], [1, 0, 9], [2, 3, 0]]"

definition no_path :: path_sel where
  "no_path = \<lparr>globalMax = 0, ps_path = []\<rparr>"

lemma sample_weights_ok: "weights_ok sample_weights" "length sample_weights = 3"
  by (auto simp: weights_ok_def sample_weights_def MAX_VALUE_def)

lemma sample_initVal: "initVal 0 sample_weights 2 [] = Inr (9, [0, 1, 2])"
  by (simp add: initVal_def sample_weights_def first_edge_def next_node_def set_used_def cell_def
      atE_def MAX_VALUE_def upt_rec numeral_2_eq_2)

lemma sample_best: "best sample_weights 2 < 9"
  using best_le[of sample_weights 2 "[0, 2, 1]"]
  by (simp add: simple_path_def sample_weights_def)

theorem intelligentSearch_best_witness:
  "best sample_weights 2 < 9 \<and>
   (\<exists>p. intelligentSearch 0 sample_weights 2 no_path =
      Inr \<lparr>globalMax = best sample_weights 2, ps_path = p\<rparr> \<and>
    simple_path 3 2 p \<and> bottleneck sample_weights p = best sample_weights 2)"
  using intelligentSearch_best[of sample_weights 2 0 no_path 9 "[0, 1, 2]"]
    sample_weights_ok sample_initVal sample_best
  by (simp add: no_path_def)

text \<open>
  C38. When no path beats the greedy one, no leaf of the search is reached, \<open>_path\<close> stays empty,
  and the debug output, which is compiled in, reads beyond it. (The caller would read the same
  positions of the empty path.)
\<close>

theorem intelligentSearch_greedy_best:
  assumes "weights_ok mat" and "2 \<le> k" and "k < length mat"
    and "initVal newNode0 mat k (ps_path ps) = Inr (g, r)" and "best mat k = g"
  shows "intelligentSearch newNode0 mat k ps = Inl Out_Of_Bounds"
  using search_eq[OF assms(1-4)] assms(5)
  by (auto simp: intelligentSearch_def print_path_empty)

definition even_weights :: weights where
  "even_weights = replicate 3 (replicate 3 1)"

lemma even_weights_ok: "weights_ok even_weights" "length even_weights = 3"
  by (auto simp: weights_ok_def even_weights_def MAX_VALUE_def)

lemma even_initVal: "initVal 0 even_weights 2 [] = Inr (1, [0, 1, 2])"
  by (simp add: initVal_def even_weights_def first_edge_def next_node_def set_used_def cell_def
      atE_def MAX_VALUE_def upt_rec numeral_2_eq_2 numeral_3_eq_3)

lemma even_best: "best even_weights 2 = 1"
proof (rule best_eqI)
  show "1 \<le> bottleneck even_weights p" if "simple_path (length even_weights) 2 p" for p
    using that by (auto simp: simple_path_def even_weights_def length_Suc_conv numeral_2_eq_2)
  show "simple_path (length even_weights) 2 [0, 1, 2]" "bottleneck even_weights [0, 1, 2] = 1"
    by (simp_all add: simple_path_def even_weights_def)
qed

theorem intelligentSearch_greedy_best_witness:
  "best even_weights 2 = 1 \<and> intelligentSearch 0 even_weights 2 no_path = Inl Out_Of_Bounds"
  using intelligentSearch_greedy_best[of even_weights 2 0 no_path 1 "[0, 1, 2]"]
    even_weights_ok even_initVal even_best
  by (simp add: no_path_def)

end
