(* ===== verification/Pipe_Coordinator.thy ===== *)
theory Pipe_Coordinator
  imports Repair_Dispatch Path_Selection
begin

text \<open>
  \<open>PipeCoordinator.cc\<close>: one round of \<open>requestHandler\<close>, from a request in \<open>dr_requests\<close> to the
  commands in the queues of the distributors and the reply to the client. The helpers come from the
  metadata, in the order of the best repair path when path selection is enabled; \<open>linkWeight\<close>
  stands for the matrix read from the configuration file.
\<close>

section \<open>Path selection\<close>

definition ip2idx :: "repair_config \<Rightarrow> (ip_addr, int) omap" where
  "ip2idx conf = fold (\<lambda>i. om_put (helpersIPs conf ! i) (int i)) [0..<length (helpersIPs conf)] []"

definition weight_mat :: "weights \<Rightarrow> int list \<Rightarrow> weights res" where
  "weight_mat linkWeight IPids = mapE (\<lambda>a. mapE (\<lambda>b. cell linkWeight a b) IPids) IPids"

text \<open>The helpers in the order of the path, the last node first.\<close>

definition path_order ::
    "repair_config \<Rightarrow> weights \<Rightarrow> int \<Rightarrow> ip_addr \<Rightarrow> (ip_addr \<times> string) list \<Rightarrow> path_sel \<Rightarrow>
     ((ip_addr \<times> string) list \<times> path_sel) res" where
  "path_order conf linkWeight newNode0 requestorIP stripe ps =
     bindE (mapE (\<lambda>i. atE stripe (int i)) [0..<ecK conf]) (\<lambda>helpers.
     bindE (weight_mat linkWeight (map (om_get0 (ip2idx conf)) (requestorIP # map fst helpers))) (\<lambda>mat.
     bindE (intelligentSearch newNode0 mat (ecK conf) ps) (\<lambda>ps'.
     bindE (mapE (\<lambda>i. bindE (atE (ps_path ps') (int (ecK conf) - int i)) (\<lambda>x. atE stripe (int x - 1))) [0..<ecK conf]) (\<lambda>temp.
     Inr (temp, ps')))))"

section \<open>Commands\<close>

text \<open>
  The fields of a command, one behind the other in a buffer of \<open>COMMAND_MAX_LENGTH\<close> zeroes; the
  first is the position of the helper in \<open>_ip2Ctx\<close>.
\<close>

definition pipe_cmd ::
    "int \<Rightarrow> int \<Rightarrow> ip_addr \<Rightarrow> ip_addr \<Rightarrow> ip_addr \<Rightarrow> int \<Rightarrow> int \<Rightarrow> string \<Rightarrow> string \<Rightarrow> byte list res" where
  "pipe_cmd idx k requestorIP prevIP nextIP ident coef filename localName =
     (let cmd = put_int idx @ put_int k @ put_word requestorIP @ put_word prevIP @ put_word nextIP @ put_int ident @
            put_word (push_bit 16 (word_of_int coef) OR word_of_int (int (length filename))) @ bytes_of filename @
            put_int (int (length localName)) @ bytes_of localName
      in bindE (guardE (length cmd \<le> COMMAND_MAX_LENGTH) Out_Of_Bounds) (\<lambda>_. Inr cmd))"

text \<open>The command of a requestor that holds a block itself; that block leaves the stripe.\<close>

definition holder_cmd ::
    "(ip_addr \<times> string) list \<Rightarrow> ip_addr \<Rightarrow> string \<Rightarrow> (string, int) omap \<Rightarrow> (ip_addr \<times> string) list \<Rightarrow> int \<Rightarrow>
     ((string \<times> byte list) list \<times> (ip_addr \<times> string) list \<times> int) res" where
  "holder_cmd ip2Ctx requestorIP filename coef stripe rHolder =
     (if rHolder = - 1 then Inr ([], stripe, int (length stripe))
      else bindE (atE stripe rHolder) (\<lambda>(_, blk).
        bindE (queue_cmd ip2Ctx requestorIP (\<lambda>idx.
          pipe_cmd idx 0x010000 requestorIP requestorIP 0 0x010000 (om_get0 coef blk) filename blk)) (\<lambda>c.
        let rest = take (nat rHolder) stripe @ drop (nat rHolder + 1) stripe
        in Inr ([c], rest, int (length rest) OR 0x100))))"

definition helper_cmd ::
    "(ip_addr \<times> string) list \<Rightarrow> ip_addr \<Rightarrow> string \<Rightarrow> (string, int) omap \<Rightarrow> (ip_addr \<times> string) list \<Rightarrow> int \<Rightarrow>
     nat \<Rightarrow> (string \<times> byte list) res" where
  "helper_cmd ip2Ctx requestorIP filename coef stripe k i =
     bindE (atE stripe (int i)) (\<lambda>(ip, blk).
     bindE (atE stripe (if i = 0 then k - 1 else int i - 1)) (\<lambda>(prevIP, _).
     bindE (atE stripe (if int i = (k AND 0xff) - 1 then 0 else int i + 1)) (\<lambda>(nextIP, _).
     queue_cmd ip2Ctx ip (\<lambda>idx.
       pipe_cmd idx k requestorIP prevIP nextIP (int i) (om_get0 coef blk) filename blk))))"

section \<open>The handler\<close>

text \<open>The status of the blocks for the choice of the coefficients: the lost block 0, the helpers 2.\<close>

definition helper_status ::
    "(string, int) omap \<Rightarrow> string \<Rightarrow> (ip_addr \<times> string) list \<Rightarrow> (string, int) omap" where
  "helper_status status filename stripe =
     fold (\<lambda>(_, b). om_put b 2) stripe (om_put filename 0 (map (\<lambda>(b, _). (b, 1)) status))"

text \<open>Everything behind the choice of the helpers.\<close>

definition pipe_commands ::
    "repair_config \<Rightarrow> metadata \<Rightarrow> (ip_addr \<times> string) list \<Rightarrow> ip_addr \<Rightarrow> string \<Rightarrow> (string, int) omap \<Rightarrow>
     (ip_addr \<times> string) list \<Rightarrow> world \<Rightarrow> world res" where
  "pipe_commands conf md ip2Ctx requestorIP filename status stripe w =
     bindE (md_getCoefficient md filename (Some (helper_status status filename stripe))) (\<lambda>coef.
     bindE (isRequestorHolder stripe requestorIP) (\<lambda>rHolder.
     bindE (holder_cmd ip2Ctx requestorIP filename coef stripe rHolder) (\<lambda>(cs, rest, k).
     bindE (mapE (helper_cmd ip2Ctx requestorIP filename coef rest k) [0..<nat (k AND 0xff)]) (\<lambda>hs.
     let w1 = fold (\<lambda>(q, c). rpush (coordinatorIP conf) q c) (cs @ hs) w
     in
     if has_substring ''basic'' (ECPipePolicy conf)
     then bindE (atE rest (int (length rest) - 1)) (\<lambda>(ip, _).
       Inr (rpush (coordinatorIP conf) filename (put_word ip) w1))
     else bindE (setupCyclReply conf requestorIP rest) (\<lambda>reply.
       Inr (rpush (coordinatorIP conf) filename reply w1))))))"

definition pipe_requestHandler ::
    "repair_config \<Rightarrow> metadata \<Rightarrow> weights \<Rightarrow> int \<Rightarrow> (ip_addr \<times> string) list \<Rightarrow> path_sel \<Rightarrow> world \<Rightarrow> (world \<times> path_sel) res" where
  "pipe_requestHandler conf md linkWeight newNode0 ip2Ctx ps w =
     bindE (blpop (coordinatorIP conf) ''dr_requests'' w) (\<lambda>(req, w1).
     if length req < 4 then Inl (Exit 1)
     else bindE (get_word req 0) (\<lambda>requestorIP.
       bindE (parseFRRequest conf md req requestorIP) (\<lambda>(index, st).
       if index \<noteq> 0 then Inr (w1, ps)
       else bindE (md_getStripeBlks md (fr_reqFile st) requestorIP) (\<lambda>blks.
         let stripe = take (ecK conf) blks
         in if stripe = [] \<or> length stripe < ecK conf then Inr (w1, ps)
            else bindE
              (if pathSelectionEnabled conf then path_order conf linkWeight newNode0 requestorIP stripe ps
               else Inr (stripe, ps)) (\<lambda>(stripe, ps).
              bindE (pipe_commands conf md ip2Ctx requestorIP (fr_reqFile st) (fr_status st) stripe w1) (\<lambda>w2.
              Inr (w2, ps)))))))"

end
