(* ===== verification/Pipe_Worker.thy ===== *)
theory Pipe_Worker
  imports Repair_Wire RS_Util Node_Disk
begin

text \<open>
  \<open>PipeDRWorker.cc\<close> with what it uses of \<open>DRWorker.cc\<close>: one helper of a pipelined repair. A command
  is parsed by \<open>doProcess\<close>, which runs three threads over the packets of the local block:
  \<open>readWorker\<close> reads a packet and multiplies it by the coefficient, \<open>pullRequestorCompletion\<close>
  (the main thread) adds the packet of the previous helper, \<open>sendWorker\<close> pushes the sum to the
  local redis server. The threads synchronise by \<open>_diskFlag\<close> with \<open>_diskCv\<close> and by
  \<open>_waitingToSend\<close> with \<open>_mainSenderCondVar\<close>. Every thread is a program counter, a step of the
  helper is a step of one of its threads, and a step of the cluster is a step of one helper.
\<close>

section \<open>Commands\<close>

record pipe_job =
  pj_ecK :: int
  pj_requestorIP :: ip_addr
  pj_prevIP :: ip_addr
  pj_nextIP :: ip_addr
  pj_id :: int
  pj_coefficient :: int
  pj_lostBlkName :: string
  pj_localBlkName :: string

definition parse_pipe_cmd :: "byte list \<Rightarrow> pipe_job res" where
  "parse_pipe_cmd cmd =
     bindE (get_int cmd 0) (\<lambda>k.
     bindE (get_word cmd 4) (\<lambda>requestorIP.
     bindE (get_word cmd 8) (\<lambda>prevIP.
     bindE (get_word cmd 12) (\<lambda>nextIP.
     bindE (get_int cmd 16) (\<lambda>ident.
     bindE (get_word cmd 20) (\<lambda>v.
     let coefficient = uint (drop_bit 16 v); lostBlkNameLen = uint (v AND 0xffff)
     in
     bindE (get_name cmd 24 lostBlkNameLen) (\<lambda>lostBlkName.
     bindE (get_word cmd (24 + lostBlkNameLen)) (\<lambda>localBlkNameLen.
     bindE (get_name cmd (28 + lostBlkNameLen) (uint localBlkNameLen)) (\<lambda>localBlkName.
     Inr \<lparr>pj_ecK = k, pj_requestorIP = requestorIP, pj_prevIP = prevIP, pj_nextIP = nextIP,
       pj_id = ident, pj_coefficient = coefficient, pj_lostBlkName = lostBlkName,
       pj_localBlkName = localBlkName\<rparr>)))))))))"

definition tmp_key :: "string \<Rightarrow> string" where
  "tmp_key name = ''tmp:'' @ name"

definition send_key :: "pipe_job \<Rightarrow> string" where
  "send_key j =
     (if pj_ecK j = 0x010000 \<or> (pj_ecK j AND 0x100 = 0 \<and> pj_id j = pj_ecK j - 1)
      then pj_lostBlkName j else tmp_key (pj_lostBlkName j))"

section \<open>The state of a helper\<close>

text \<open>
  Where the main thread and the sender stand in the round for their current packet: about to test
  the condition; the test has failed and the thread is about to lock and wait; waiting; about to do
  the work; (main) about to notify the sender.
\<close>

datatype mpc = MCheck | MSleep | MWait | MPull | MNotify
datatype spc = SCheck | SSleep | SWait | SPush

text \<open>
  \<open>pw_read\<close>, \<open>pw_main\<close> and \<open>pw_sent\<close> are the loop counters of the three threads, \<open>pw_toSend\<close> is
  \<open>_waitingToSend\<close>. The reader sets the flags in order, so that \<open>_diskFlag[j]\<close> is \<open>j < pw_read\<close>.
\<close>

record pipe_worker =
  pw_ip :: ip_addr
  pw_job :: pipe_job
  pw_prev :: "ip_addr option"
  pw_disk :: "byte list list"
  pw_read :: nat
  pw_main :: nat
  pw_mpc :: mpc
  pw_toSend :: nat
  pw_sent :: nat
  pw_spc :: spc

text \<open>The buffers are zeroed by \<open>init\<close> and again by \<open>cleanup\<close> after every command.\<close>

definition pipe_start :: "repair_config \<Rightarrow> ip_addr \<Rightarrow> byte list \<Rightarrow> pipe_worker res" where
  "pipe_start conf ip cmd =
     bindE (parse_pipe_cmd cmd) (\<lambda>j.
     bindE (findCtx (sort (helpersIPs conf)) (pj_prevIP j)) (\<lambda>prev.
     Inr \<lparr>pw_ip = ip, pw_job = j, pw_prev = prev,
       pw_disk = replicate (packetCnt conf) (replicate (packetSize conf) 0),
       pw_read = 0, pw_main = 0, pw_mpc = MCheck, pw_toSend = 0, pw_sent = 0, pw_spc = SCheck\<rparr>))"

section \<open>The work of the threads\<close>

text \<open>
  The debug output, which \<open>DR_WORKER_DEBUG\<close> turns on: the condition divides by a tenth of the
  number of packets, for every packet but the first and the last.
\<close>

definition log_pkt :: "repair_config \<Rightarrow> nat \<Rightarrow> byte list \<Rightarrow> unit res" where
  "log_pkt conf i buf =
     (let first_int = bindE (get_int buf 0) (\<lambda>_. Inr ())
      in if i = 0 \<or> Suc i = packetCnt conf then first_int
         else if packetCnt conf div 10 = 0 then Inl Div_By_Zero
         else if i mod (packetCnt conf div 10) = 0 then first_int
         else Inr ())"

text \<open>
  One round of \<open>readWorker\<close>: \<open>base\<close> is an \<open>int\<close> to which the packet size is added after every packet. A file that does not exist
  or ends too early and an offset that has become negative keep the inner loop running; the multiplication has tables for coefficients below 256. The flag is set and the
  condition variable notified under the mutex of the packet, which the waiting side takes.
\<close>

definition pipe_read :: "gf_ops \<Rightarrow> env \<Rightarrow> repair_config \<Rightarrow> world \<Rightarrow> pipe_worker \<Rightarrow> pipe_worker res" where
  "pipe_read G E conf w p =
     (case w_files w (pw_ip p) (pj_localBlkName (pw_job p)) of
        None \<Rightarrow> Inl Diverges
      | Some fdata \<Rightarrow>
          let base = sint (word_of_int (int (packetSkipSize conf + pw_read p * packetSize conf)) :: 32 word)
          in
          bindE (atE (pw_disk p) (int (pw_read p))) (\<lambda>buf.
          bindE (guardE (0 \<le> base) Diverges) (\<lambda>_.
          bindE (read_loop E fdata (nat base) (packetSize conf) 0 buf) (\<lambda>buf.
          bindE (log_pkt conf (pw_read p) buf) (\<lambda>_.
          bindE (guardE (pj_coefficient (pw_job p) < 256) Out_Of_Bounds) (\<lambda>_.
          bindE (rs_multiply G buf (word_of_int (pj_coefficient (pw_job p))) (packetSize conf)) (\<lambda>buf.
          bindE (log_pkt conf (pw_read p) buf) (\<lambda>_.
          Inr (p\<lparr>pw_disk := (pw_disk p)[pw_read p := buf], pw_read := Suc (pw_read p),
                 pw_mpc := (if pw_mpc p = MWait then MCheck else pw_mpc p)\<rparr>)))))))))"

text \<open>
  One round of \<open>pullRequestorCompletion\<close> behind the wait, up to \<open>_waitingToSend++\<close>; the first
  helper has nothing to receive. The replies come in the order of the list.
\<close>

definition pipe_pull :: "repair_config \<Rightarrow> world \<Rightarrow> pipe_worker \<Rightarrow> (world \<times> pipe_worker) res" where
  "pipe_pull conf w p =
     (if pj_id (pw_job p) = 0
      then Inr (w, p\<lparr>pw_toSend := Suc (pw_toSend p), pw_mpc := MNotify\<rparr>)
      else case pw_prev p of
        None \<Rightarrow> Inl Out_Of_Bounds
      | Some prev \<Rightarrow>
          bindE (blpop prev (tmp_key (pj_lostBlkName (pw_job p))) w) (\<lambda>(msg, w1).
          bindE (atE (pw_disk p) (int (pw_main p))) (\<lambda>buf.
          bindE (log_pkt conf (pw_main p) msg) (\<lambda>_.
          bindE (XORBuffers buf msg (packetSize conf)) (\<lambda>buf.
          bindE (log_pkt conf (pw_main p) buf) (\<lambda>_.
          Inr (w1, p\<lparr>pw_disk := (pw_disk p)[pw_main p := buf], pw_toSend := Suc (pw_toSend p),
                     pw_mpc := MNotify\<rparr>)))))))"

text \<open>\<open>notify_one\<close>, and the next round.\<close>

definition pipe_notify :: "pipe_worker \<Rightarrow> pipe_worker" where
  "pipe_notify p =
     p\<lparr>pw_spc := (if pw_spc p = SWait then SCheck else pw_spc p), pw_main := Suc (pw_main p), pw_mpc := MCheck\<rparr>"

text \<open>The push of \<open>sendWorker\<close>.\<close>

definition pipe_push :: "repair_config \<Rightarrow> world \<Rightarrow> pipe_worker \<Rightarrow> (world \<times> pipe_worker) res" where
  "pipe_push conf w p =
     bindE (atE (pw_disk p) (int (pw_sent p))) (\<lambda>buf.
     bindE (memcpy_from buf 0 (int (packetSize conf))) (\<lambda>msg.
     bindE (log_pkt conf (pw_sent p) buf) (\<lambda>_.
     Inr (rpush (pw_ip p) (send_key (pw_job p)) msg w, p\<lparr>pw_sent := Suc (pw_sent p), pw_spc := SCheck\<rparr>))))"

section \<open>Steps\<close>

inductive worker_step ::
    "gf_ops \<Rightarrow> env \<Rightarrow> repair_config \<Rightarrow> world \<times> pipe_worker \<Rightarrow> world \<times> pipe_worker \<Rightarrow> bool"
  for G E conf where
  Read: "pw_read p < packetCnt conf \<Longrightarrow> pipe_read G E conf w p = Inr p' \<Longrightarrow>
    worker_step G E conf (w, p) (w, p')"
| Main_Check: "pw_mpc p = MCheck \<Longrightarrow> pw_main p < packetCnt conf \<Longrightarrow>
    worker_step G E conf (w, p) (w, p\<lparr>pw_mpc := (if pw_main p < pw_read p then MPull else MSleep)\<rparr>)"
| Main_Sleep: "pw_mpc p = MSleep \<Longrightarrow> worker_step G E conf (w, p) (w, p\<lparr>pw_mpc := MWait\<rparr>)"
| Pull: "pw_mpc p = MPull \<Longrightarrow> pipe_pull conf w p = Inr (w', p') \<Longrightarrow>
    worker_step G E conf (w, p) (w', p')"
| Notify: "pw_mpc p = MNotify \<Longrightarrow> worker_step G E conf (w, p) (w, pipe_notify p)"
| Send_Check: "pw_spc p = SCheck \<Longrightarrow> pw_sent p < packetCnt conf \<Longrightarrow>
    worker_step G E conf (w, p) (w, p\<lparr>pw_spc := (if pw_sent p < pw_toSend p then SPush else SSleep)\<rparr>)"
| Send_Sleep: "pw_spc p = SSleep \<Longrightarrow> worker_step G E conf (w, p) (w, p\<lparr>pw_spc := SWait\<rparr>)"
| Push: "pw_spc p = SPush \<Longrightarrow> pipe_push conf w p = Inr (w', p') \<Longrightarrow>
    worker_step G E conf (w, p) (w', p')"

text \<open>The C++ library may also wake a waiting thread for no reason.\<close>

inductive spurious :: "pipe_worker \<Rightarrow> pipe_worker \<Rightarrow> bool" where
  "pw_mpc p = MWait \<Longrightarrow> spurious p (p\<lparr>pw_mpc := MCheck\<rparr>)"
| "pw_spc p = SWait \<Longrightarrow> spurious p (p\<lparr>pw_spc := SCheck\<rparr>)"

inductive pipe_step ::
    "gf_ops \<Rightarrow> env \<Rightarrow> repair_config \<Rightarrow> world \<times> pipe_worker list \<Rightarrow> world \<times> pipe_worker list \<Rightarrow> bool"
  for G E conf where
  Work: "h < length ps \<Longrightarrow> worker_step G E conf (w, ps ! h) (w', p') \<Longrightarrow>
    pipe_step G E conf (w, ps) (w', ps[h := p'])"
| Wake: "h < length ps \<Longrightarrow> spurious (ps ! h) p' \<Longrightarrow> pipe_step G E conf (w, ps) (w, ps[h := p'])"

definition finished :: "repair_config \<Rightarrow> pipe_worker \<Rightarrow> bool" where
  "finished conf p \<longleftrightarrow>
     pw_read p = packetCnt conf \<and> pw_main p = packetCnt conf \<and> pw_sent p = packetCnt conf"

end
