(* ===== verification/Pipe_Chain.thy ===== *)
theory Pipe_Chain
  imports Pipe_Worker
begin

text \<open>
  A chain of \<open>PipeDRWorker\<close> helpers under any scheduling of their threads: helper \<open>h\<close> only ever
  pushes the partial sums of the blocks of helpers \<open>0, \<dots>, h\<close>, packet by packet and in order. The
  theory states this as an invariant of \<open>pipe_step\<close> and proves it by rule induction.
\<close>

section \<open>What the helpers compute\<close>

abbreviation pkt_base :: "repair_config \<Rightarrow> nat \<Rightarrow> nat" where
  "pkt_base conf j \<equiv> packetSkipSize conf + j * packetSize conf"

definition own_pkt :: "gf_ops \<Rightarrow> repair_config \<Rightarrow> byte list \<Rightarrow> byte list list \<Rightarrow> nat \<Rightarrow> nat \<Rightarrow> byte list" where
  "own_pkt G conf coefs blks h j =
     map (\<lambda>b. gf_multiply G (coefs ! h) (blks ! h ! (pkt_base conf j + b))) [0..<packetSize conf]"

definition sum_pkt :: "gf_ops \<Rightarrow> repair_config \<Rightarrow> byte list \<Rightarrow> byte list list \<Rightarrow> nat \<Rightarrow> nat \<Rightarrow> byte list" where
  "sum_pkt G conf coefs blks h j =
     map (\<lambda>b. xor_sum (\<lambda>i. gf_multiply G (coefs ! i) (blks ! i ! (pkt_base conf j + b))) (Suc h)) [0..<packetSize conf]"

lemma length_own_pkt [simp]: "length (own_pkt G conf coefs blks h j) = packetSize conf"
  by (simp add: own_pkt_def)

lemma length_sum_pkt [simp]: "length (sum_pkt G conf coefs blks h j) = packetSize conf"
  by (simp add: sum_pkt_def)

lemma sum_pkt_0: "sum_pkt G conf coefs blks 0 j = own_pkt G conf coefs blks 0 j"
  by (simp add: sum_pkt_def own_pkt_def xor_sum_Suc)

lemma sum_pkt_Suc:
  "sum_pkt G conf coefs blks (Suc h) j =
    xor_bytes (own_pkt G conf coefs blks (Suc h) j) (sum_pkt G conf coefs blks h j)"
  by (rule nth_equalityI) (simp_all add: sum_pkt_def own_pkt_def xor_sum_Suc[of _ "Suc h"] xor.commute)

section \<open>The work of one helper\<close>

text \<open>The debug output does not crash, and the offsets of all packets fit an \<open>int\<close>.\<close>

definition packets_ok :: "repair_config \<Rightarrow> bool" where
  "packets_ok conf \<longleftrightarrow> 4 \<le> packetSize conf \<and> (packetCnt conf \<le> 2 \<or> 10 \<le> packetCnt conf) \<and>
     pkt_base conf (packetCnt conf) < 2 ^ 31"

lemma log_pkt_ok:
  assumes "packets_ok conf" and "i < packetCnt conf" and "length buf = packetSize conf"
  shows "log_pkt conf i buf = Inr ()"
proof -
  have "\<exists>x. get_int buf 0 = Inr x"
    using assms by (simp add: packets_ok_def get_int_def memcpy_from_def)
  then show ?thesis
    using assms by (auto simp: log_pkt_def packets_ok_def div_eq_0_iff Let_def)
qed

text \<open>Helper \<open>h\<close> of a chain of \<open>k\<close>, as its command describes it.\<close>

definition helper_ok ::
    "repair_config \<Rightarrow> string \<Rightarrow> byte list \<Rightarrow> byte list list \<Rightarrow> ip_addr list \<Rightarrow> nat \<Rightarrow> world \<Rightarrow> pipe_worker \<Rightarrow> bool" where
  "helper_ok conf lost coefs blks ips h w p \<longleftrightarrow>
     pw_ip p = ips ! h \<and> pj_id (pw_job p) = int h \<and> pj_coefficient (pw_job p) = uint (coefs ! h) \<and>
     pj_lostBlkName (pw_job p) = lost \<and>
     send_key (pw_job p) = (if Suc h = length ips then lost else tmp_key lost) \<and>
     (0 < h \<longrightarrow> pw_prev p = Some (ips ! (h - 1))) \<and>
     w_files w (ips ! h) (pj_localBlkName (pw_job p)) = Some (blks ! h) \<and>
     pkt_base conf (packetCnt conf) \<le> length (blks ! h) \<and> packets_ok conf"

lemma helper_log:
  assumes "helper_ok conf lost coefs blks ips h w p" and "i < packetCnt conf" and "length buf = packetSize conf"
  shows "log_pkt conf i buf = Inr ()"
  using assms log_pkt_ok by (simp add: helper_ok_def)

text \<open>The loop counters keep their distance, whatever the threads are waiting for.\<close>

definition counters_ok :: "repair_config \<Rightarrow> pipe_worker \<Rightarrow> bool" where
  "counters_ok conf p \<longleftrightarrow>
     pw_read p \<le> packetCnt conf \<and> pw_main p \<le> pw_read p \<and>
     (pw_mpc p \<in> {MPull, MNotify} \<longrightarrow> pw_main p < pw_read p) \<and>
     (pw_mpc p \<in> {MSleep, MWait} \<longrightarrow> pw_main p < packetCnt conf) \<and>
     pw_toSend p = pw_main p + (if pw_mpc p = MNotify then 1 else 0) \<and>
     pw_sent p \<le> pw_toSend p \<and> (pw_spc p = SPush \<longrightarrow> pw_sent p < pw_toSend p) \<and>
     (pw_spc p \<in> {SSleep, SWait} \<longrightarrow> pw_sent p < packetCnt conf)"

definition disk_ok ::
    "gf_ops \<Rightarrow> repair_config \<Rightarrow> byte list \<Rightarrow> byte list list \<Rightarrow> nat \<Rightarrow> byte list list \<Rightarrow> nat \<Rightarrow> nat \<Rightarrow> bool" where
  "disk_ok G conf coefs blks h disk toSend rd \<longleftrightarrow>
     length disk = packetCnt conf \<and>
     (\<forall>j < packetCnt conf. disk ! j =
        (if j < toSend then sum_pkt G conf coefs blks h j
         else if j < rd then own_pkt G conf coefs blks h j
         else replicate (packetSize conf) 0))"

definition helper_inv ::
    "gf_ops \<Rightarrow> repair_config \<Rightarrow> byte list \<Rightarrow> byte list list \<Rightarrow> nat \<Rightarrow> pipe_worker \<Rightarrow> bool" where
  "helper_inv G conf coefs blks h p \<longleftrightarrow>
     counters_ok conf p \<and> disk_ok G conf coefs blks h (pw_disk p) (pw_toSend p) (pw_read p)"

lemma counters_okD:
  assumes "counters_ok conf p"
  shows "pw_toSend p \<le> pw_read p" "pw_read p \<le> packetCnt conf" "pw_sent p \<le> pw_toSend p"
    "pw_mpc p = MPull \<Longrightarrow> pw_toSend p = pw_main p \<and> pw_main p < pw_read p"
  using assms by (auto simp: counters_ok_def split: if_splits)

lemma disk_ok_read:
  assumes "disk_ok G conf coefs blks h disk t r" and "r < packetCnt conf" and "t \<le> r"
  shows "disk_ok G conf coefs blks h (disk[r := own_pkt G conf coefs blks h r]) t (Suc r)"
  using assms by (auto simp: disk_ok_def nth_list_update less_Suc_eq)

lemma disk_ok_pull:
  assumes "disk_ok G conf coefs blks h disk t r" and "t < r" and "r \<le> packetCnt conf"
  shows "disk_ok G conf coefs blks h (disk[t := sum_pkt G conf coefs blks h t]) (Suc t) r"
  using assms by (auto simp: disk_ok_def nth_list_update less_Suc_eq)

lemma disk_ok_first:
  assumes "disk_ok G conf coefs blks 0 disk t r" and "t < r"
  shows "disk_ok G conf coefs blks 0 disk (Suc t) r"
  using assms by (auto simp: disk_ok_def sum_pkt_0 less_Suc_eq)

lemma pkt_in_file:
  assumes "pkt_base conf (packetCnt conf) \<le> n" and "j < packetCnt conf"
  shows "pkt_base conf j + packetSize conf \<le> n"
  using assms mult_le_mono1[of "Suc j" "packetCnt conf" "packetSize conf"] by simp

text \<open>The offset in the file as an \<open>int\<close>.\<close>

lemma pkt_base_int:
  assumes "pkt_base conf cnt < 2 ^ 31" and "i < cnt"
  shows "sint (word_of_int (int (pkt_base conf i)) :: 32 word) = int (pkt_base conf i)"
proof -
  have "pkt_base conf i \<le> pkt_base conf cnt" using assms(2) by (intro add_left_mono mult_le_mono1) simp
  also have "\<dots> < 2 ^ 31" by (rule assms(1))
  finally have "int (pkt_base conf i) < 2 ^ 31" by (simp del: of_nat_add of_nat_mult)
  then show ?thesis
    by (subst sint_sbintrunc') (simp add: signed_take_bit_int_eq_self del: of_nat_add of_nat_mult)
qed

lemma own_pkt_multiply:
  assumes "gf_complete G" and "pkt_base conf j + packetSize conf \<le> length (blks ! h)"
  shows "rs_multiply G (take (packetSize conf) (drop (pkt_base conf j) (blks ! h))) (coefs ! h) (packetSize conf) =
    Inr (own_pkt G conf coefs blks h j)"
  using assms(2) by (simp add: rs_multiply_def gf_complete.w08_region_multiply[OF assms(1)] own_pkt_def)
    (auto intro!: nth_equalityI simp: ac_simps)

lemma pipe_read_eq:
  assumes "gf_complete G" and "io_ok E" and "helper_ok conf lost coefs blks ips h w p"
    and "helper_inv G conf coefs blks h p" and "pw_read p < packetCnt conf"
  shows "pipe_read G E conf w p = Inr (p\<lparr>pw_disk := (pw_disk p)[pw_read p := own_pkt G conf coefs blks h (pw_read p)],
    pw_read := Suc (pw_read p), pw_mpc := (if pw_mpc p = MWait then MCheck else pw_mpc p)\<rparr>)"
proof -
  let ?base = "pkt_base conf (pw_read p)"
  have fdata: "w_files w (pw_ip p) (pj_localBlkName (pw_job p)) = Some (blks ! h)"
    and coef: "pj_coefficient (pw_job p) = uint (coefs ! h)"
    and room: "?base + packetSize conf \<le> length (blks ! h)"
    using assms(3) pkt_in_file[OF _ assms(5)] by (auto simp: helper_ok_def)
  have buf: "length (pw_disk p) = packetCnt conf" "pw_disk p ! pw_read p = replicate (packetSize conf) 0"
    using assms(4,5) counters_okD(1)[of conf p] by (auto simp: helper_inv_def disk_ok_def)
  have "pkt_base conf (packetCnt conf) < 2 ^ 31" using assms(3) by (simp add: helper_ok_def packets_ok_def)
  then have offset: "sint (word_of_int (int ?base) :: 32 word) = int ?base" by (rule pkt_base_int[OF _ assms(5)])
  have "uint (coefs ! h) < 256"
    using uint_lt2p[of "coefs ! h"] by simp
  moreover have "read_loop E (blks ! h) ?base (packetSize conf) 0 (replicate (packetSize conf) 0) =
      Inr (take (packetSize conf) (drop ?base (blks ! h)))"
    using read_loop_eq[OF assms(2) room] by simp
  moreover have "rs_multiply G (take (packetSize conf) (drop ?base (blks ! h))) (coefs ! h) (packetSize conf) =
      Inr (own_pkt G conf coefs blks h (pw_read p))"
    by (rule own_pkt_multiply[OF assms(1) room])
  ultimately show ?thesis
    using assms(5) room unfolding pipe_read_def offset by (simp add: fdata coef buf helper_log[OF assms(3,5)] del: of_nat_add of_nat_mult)
qed

lemma xor_own_sum:
  assumes "8 dvd packetSize conf"
  shows "XORBuffers (own_pkt G conf coefs blks (Suc h) j) (sum_pkt G conf coefs blks h j) (packetSize conf) =
    Inr (sum_pkt G conf coefs blks (Suc h) j)"
  using assms by (simp add: XORBuffers_def sum_pkt_Suc)

text \<open>The queue from which helper \<open>h\<close> pulls holds the sums \<open>[c..<s]\<close> of the helper before it.\<close>

definition sums_queued ::
    "gf_ops \<Rightarrow> repair_config \<Rightarrow> byte list \<Rightarrow> byte list list \<Rightarrow> ip_addr \<Rightarrow> string \<Rightarrow> nat \<Rightarrow> nat \<Rightarrow> nat \<Rightarrow> world \<Rightarrow> bool" where
  "sums_queued G conf coefs blks ip key h c s w \<longleftrightarrow>
     c \<le> s \<and> w_queues w ip key = map (sum_pkt G conf coefs blks h) [c..<s]"

lemma pull_sum:
  assumes "sums_queued G conf coefs blks ip key h c s w"
  shows "(c = s \<longrightarrow> blpop ip key w = Inl Blocked) \<and>
    (c < s \<longrightarrow> (\<exists>w'. blpop ip key w = Inr (sum_pkt G conf coefs blks h c, w') \<and> w_files w' = w_files w \<and>
      sums_queued G conf coefs blks ip key h (Suc c) s w' \<and>
      (\<forall>ip' key'. ip' \<noteq> ip \<longrightarrow> w_queues w' ip' key' = w_queues w ip' key')))"
  using assms by (auto simp: sums_queued_def blpop_def upt_conv_Cons)

text \<open>What a step of helper \<open>h\<close> does to the world.\<close>

datatype effect = Local | Pulled | Pushed

definition has_effect ::
    "gf_ops \<Rightarrow> repair_config \<Rightarrow> string \<Rightarrow> byte list \<Rightarrow> byte list list \<Rightarrow> ip_addr list \<Rightarrow> nat \<Rightarrow> effect \<Rightarrow>
     world \<times> pipe_worker \<Rightarrow> world \<times> pipe_worker \<Rightarrow> bool" where
  "has_effect G conf lost coefs blks ips h e st st' =
     (case (st, st') of ((w, p), (w', p')) \<Rightarrow>
       (case e of
          Local \<Rightarrow> w' = w \<and> pw_toSend p' = pw_toSend p \<and> pw_sent p' = pw_sent p
        | Pulled \<Rightarrow> pw_toSend p' = Suc (pw_toSend p) \<and> pw_sent p' = pw_sent p \<and>
            (if h = 0 then w' = w
             else \<exists>msg. blpop (ips ! (h - 1)) (tmp_key lost) w = Inr (msg, w'))
        | Pushed \<Rightarrow> pw_toSend p' = pw_toSend p \<and> pw_sent p' = Suc (pw_sent p) \<and>
            w' = rpush (ips ! h) (if Suc h = length ips then lost else tmp_key lost)
              (sum_pkt G conf coefs blks h (pw_sent p)) w))"

lemma read_preserves:
  assumes "gf_complete G" and "io_ok E" and "helper_ok conf lost coefs blks ips h w p"
    and "helper_inv G conf coefs blks h p" and "pw_read p < packetCnt conf"
    and "pipe_read G E conf w p = Inr p'"
  shows "helper_inv G conf coefs blks h p'"
proof -
  have p': "p' = p\<lparr>pw_disk := (pw_disk p)[pw_read p := own_pkt G conf coefs blks h (pw_read p)],
    pw_read := Suc (pw_read p), pw_mpc := (if pw_mpc p = MWait then MCheck else pw_mpc p)\<rparr>"
    using pipe_read_eq[OF assms(1-5)] assms(6) by simp
  have "counters_ok conf p'"
    using assms(4,5) by (auto simp: helper_inv_def counters_ok_def p')
  then show ?thesis
    using assms(4,5) disk_ok_read[of G conf coefs blks h "pw_disk p" "pw_toSend p" "pw_read p"]
      counters_okD(1)[of conf p] by (simp add: helper_inv_def p')
qed

lemma pull_preserves:
  assumes "8 dvd packetSize conf" and "helper_ok conf lost coefs blks ips h w p"
    and "helper_inv G conf coefs blks h p" and "pw_mpc p = MPull"
    and "h \<noteq> 0 \<Longrightarrow> sums_queued G conf coefs blks (ips ! (h - 1)) (tmp_key lost) (h - 1) (pw_toSend p) s w"
    and "pipe_pull conf w p = Inr (w', p')"
  shows "helper_inv G conf coefs blks h p' \<and> has_effect G conf lost coefs blks ips h Pulled (w, p) (w', p')"
proof (cases h)
  case 0
  have p': "w' = w" "p' = p\<lparr>pw_toSend := Suc (pw_toSend p), pw_mpc := MNotify\<rparr>"
    using assms(2,6) 0 by (auto simp: helper_ok_def pipe_pull_def)
  have "counters_ok conf p'"
    using assms(3,4) by (auto simp: helper_inv_def counters_ok_def p')
  then show ?thesis
    using assms(3,4) 0 disk_ok_first[of G conf coefs blks "pw_disk p" "pw_toSend p" "pw_read p"]
      counters_okD(4)[of conf p] by (simp add: helper_inv_def has_effect_def p')
next
  case (Suc g)
  have id: "pj_id (pw_job p) \<noteq> 0" "pw_prev p = Some (ips ! g)" "pj_lostBlkName (pw_job p) = lost"
    using assms(2) Suc by (auto simp: helper_ok_def)
  have main: "pw_toSend p = pw_main p" "pw_main p < pw_read p" "pw_main p < packetCnt conf"
    "length (pw_disk p) = packetCnt conf" "pw_disk p ! pw_main p = own_pkt G conf coefs blks (Suc g) (pw_main p)"
    using assms(3,4) Suc counters_okD(2,4)[of conf p] by (auto simp: helper_inv_def disk_ok_def)
  have queued: "sums_queued G conf coefs blks (ips ! g) (tmp_key lost) g (pw_main p) s w"
    using assms(5) Suc main(1) by simp
  obtain w1 where pop: "blpop (ips ! g) (tmp_key lost) w = Inr (sum_pkt G conf coefs blks g (pw_main p), w1)"
    using pull_sum[OF queued] assms(6) id queued
    by (cases "pw_main p = s") (auto simp: pipe_pull_def sums_queued_def)
  have "pipe_pull conf w p = Inr (w1, p\<lparr>pw_disk := (pw_disk p)[pw_main p := sum_pkt G conf coefs blks (Suc g) (pw_main p)],
      pw_toSend := Suc (pw_toSend p), pw_mpc := MNotify\<rparr>)"
    using id main pop by (simp add: pipe_pull_def xor_own_sum[OF assms(1)] helper_log[OF assms(2)])
  then have w': "w' = w1" and p': "p' = p\<lparr>pw_disk := (pw_disk p)[pw_main p := sum_pkt G conf coefs blks (Suc g) (pw_main p)],
      pw_toSend := Suc (pw_toSend p), pw_mpc := MNotify\<rparr>"
    using assms(6) by simp_all
  have "counters_ok conf p'"
    using assms(3,4) main(1-3) by (auto simp: helper_inv_def counters_ok_def p')
  then have "helper_inv G conf coefs blks h p'"
    using assms(3) main(1-3) Suc disk_ok_pull[of G conf coefs blks h "pw_disk p" "pw_main p" "pw_read p"]
      counters_okD(2)[of conf p] by (simp add: helper_inv_def p')
  then show ?thesis
    using pop Suc by (auto simp: has_effect_def w' p')
qed

lemma push_preserves:
  assumes "helper_ok conf lost coefs blks ips h w p"
    and "helper_inv G conf coefs blks h p" and "pw_spc p = SPush"
    and "pipe_push conf w p = Inr (w', p')"
  shows "helper_inv G conf coefs blks h p' \<and> has_effect G conf lost coefs blks ips h Pushed (w, p) (w', p')"
proof -
  have sent: "pw_sent p < pw_toSend p" "pw_toSend p \<le> packetCnt conf"
    using assms(2,3) counters_okD(1,2)[of conf p] by (auto simp: helper_inv_def counters_ok_def)
  then have "pw_disk p ! pw_sent p = sum_pkt G conf coefs blks h (pw_sent p)" "length (pw_disk p) = packetCnt conf"
    using assms(2) by (auto simp: helper_inv_def disk_ok_def)
  then have run: "pipe_push conf w p = Inr (rpush (pw_ip p) (send_key (pw_job p)) (sum_pkt G conf coefs blks h (pw_sent p)) w,
      p\<lparr>pw_sent := Suc (pw_sent p), pw_spc := SCheck\<rparr>)"
    using sent by (simp add: pipe_push_def memcpy_from_def helper_log[OF assms(1)])
  have p': "p' = p\<lparr>pw_sent := Suc (pw_sent p), pw_spc := SCheck\<rparr>"
    and w': "w' = rpush (pw_ip p) (send_key (pw_job p)) (sum_pkt G conf coefs blks h (pw_sent p)) w"
    using assms(4) run by simp_all
  have "counters_ok conf p'"
    using assms(2) sent(1) by (simp add: helper_inv_def counters_ok_def p')
  then show ?thesis
    using assms(1,2) by (simp add: has_effect_def helper_ok_def helper_inv_def p' w')
qed

text \<open>What a helper keeps: its address, its command and its peer.\<close>

definition same_job :: "pipe_worker \<Rightarrow> pipe_worker \<Rightarrow> bool" where
  "same_job p p' \<longleftrightarrow> pw_ip p' = pw_ip p \<and> pw_job p' = pw_job p \<and> pw_prev p' = pw_prev p"

lemma worker_step_effect:
  assumes "worker_step G E conf (w, p) (w', p')" and "gf_complete G" and "io_ok E" and "8 dvd packetSize conf"
    and ok: "helper_ok conf lost coefs blks ips h w p" and inv: "helper_inv G conf coefs blks h p"
    and queued: "h \<noteq> 0 \<Longrightarrow> sums_queued G conf coefs blks (ips ! (h - 1)) (tmp_key lost) (h - 1) (pw_toSend p) s w"
  shows "same_job p p' \<and> helper_inv G conf coefs blks h p' \<and>
    (\<exists>e. has_effect G conf lost coefs blks ips h e (w, p) (w', p'))"
proof -
  have local: ?thesis
    if "w' = w" "same_job p p'" "counters_ok conf p'" "pw_disk p' = pw_disk p" "pw_toSend p' = pw_toSend p"
      "pw_read p' = pw_read p" "pw_sent p' = pw_sent p"
    using that inv by (auto simp: has_effect_def helper_inv_def intro!: exI[of _ Local])
  have c: "counters_ok conf p" using inv by (simp add: helper_inv_def)
  from assms(1) show ?thesis
  proof (cases rule: worker_step.cases)
    case Read
    then show ?thesis
      using read_preserves[OF assms(2,3) ok inv] pipe_read_eq[OF assms(2,3) ok inv]
      by (auto simp: same_job_def has_effect_def intro!: exI[of _ Local])
  next
    case Main_Check
    then show ?thesis by (intro local) (use c in \<open>auto simp: same_job_def counters_ok_def\<close>)
  next
    case Main_Sleep
    then show ?thesis by (intro local) (use c in \<open>auto simp: same_job_def counters_ok_def\<close>)
  next
    case Pull
    then have "same_job p p'"
      by (auto simp: pipe_pull_def same_job_def res_simps split: if_splits option.splits)
    then show ?thesis
      using pull_preserves[OF assms(4) ok inv _ queued] Pull by blast
  next
    case Notify
    then show ?thesis by (intro local) (use c in \<open>auto simp: same_job_def counters_ok_def pipe_notify_def\<close>)
  next
    case Send_Check
    then show ?thesis by (intro local) (use c in \<open>auto simp: same_job_def counters_ok_def\<close>)
  next
    case Send_Sleep
    then show ?thesis by (intro local) (use c in \<open>auto simp: same_job_def counters_ok_def\<close>)
  next
    case Push
    then have "same_job p p'"
      by (auto simp: pipe_push_def same_job_def res_simps)
    then show ?thesis
      using push_preserves[OF ok inv] Push by blast
  qed
qed

lemma spurious_preserves:
  assumes "spurious p p'" and "helper_inv G conf coefs blks h p"
  shows "same_job p p' \<and> helper_inv G conf coefs blks h p' \<and> has_effect G conf lost coefs blks ips h Local (w, p) (w, p')"
  using assms by cases (auto simp: same_job_def has_effect_def helper_inv_def counters_ok_def)

section \<open>The chain\<close>

definition chain_key :: "string \<Rightarrow> ip_addr list \<Rightarrow> nat \<Rightarrow> string" where
  "chain_key lost ips h = (if Suc h = length ips then lost else tmp_key lost)"

definition taken :: "pipe_worker list \<Rightarrow> nat \<Rightarrow> nat" where
  "taken ps h = (if Suc h < length ps then pw_toSend (ps ! Suc h) else 0)"

definition chain_inv ::
    "gf_ops \<Rightarrow> repair_config \<Rightarrow> string \<Rightarrow> byte list \<Rightarrow> byte list list \<Rightarrow> ip_addr list \<Rightarrow>
     world \<times> pipe_worker list \<Rightarrow> bool" where
  "chain_inv G conf lost coefs blks ips st \<longleftrightarrow>
     (case st of (w, ps) \<Rightarrow>
       length ps = length ips \<and>
       (\<forall>h < length ips. helper_ok conf lost coefs blks ips h w (ps ! h) \<and>
          helper_inv G conf coefs blks h (ps ! h) \<and>
          sums_queued G conf coefs blks (ips ! h) (chain_key lost ips h) h (taken ps h) (pw_sent (ps ! h)) w))"

lemma helper_ok_same:
  "helper_ok conf lost coefs blks ips h w p \<Longrightarrow> same_job p p' \<Longrightarrow> w_files w' = w_files w \<Longrightarrow>
    helper_ok conf lost coefs blks ips h w' p'"
  by (simp add: helper_ok_def same_job_def)

lemma effect_files:
  assumes "has_effect G conf lost coefs blks ips h e (w, p) (w', p')"
  shows "w_files w' = w_files w"
  using assms by (cases e) (auto simp: has_effect_def rpush_def blpop_def split: if_splits list.splits)

lemma effect_queues:
  assumes "distinct ips" and "length ps = length ips" and "g < length ips"
    and effect: "has_effect G conf lost coefs blks ips g e (w, ps ! g) (w', p')"
    and queued: "\<And>h. h < length ips \<Longrightarrow>
      sums_queued G conf coefs blks (ips ! h) (chain_key lost ips h) h (taken ps h) (pw_sent (ps ! h)) w"
    and h: "h < length ips"
  shows "sums_queued G conf coefs blks (ips ! h) (chain_key lost ips h) h
    (taken (ps[g := p']) h) (pw_sent (ps[g := p'] ! h)) w'"
proof (cases e)
  case Local
  then have "w' = w" "taken (ps[g := p']) h = taken ps h" "pw_sent (ps[g := p'] ! h) = pw_sent (ps ! h)"
    using effect assms(2,3) by (auto simp: has_effect_def taken_def nth_list_update)
  with queued[OF h] show ?thesis by simp
next
  case Pulled
  then have sent: "pw_sent (ps[g := p'] ! h) = pw_sent (ps ! h)"
    and toSend: "pw_toSend p' = Suc (pw_toSend (ps ! g))"
    using effect assms(2,3) by (auto simp: has_effect_def nth_list_update)
  show ?thesis
  proof (cases "Suc h = g")
    case True
    then obtain msg where pop: "blpop (ips ! h) (tmp_key lost) w = Inr (msg, w')"
      using effect Pulled by (auto simp: has_effect_def)
    have q: "sums_queued G conf coefs blks (ips ! h) (tmp_key lost) h (pw_toSend (ps ! g)) (pw_sent (ps ! h)) w"
      using queued[OF h] True assms(2,3) by (simp add: chain_key_def taken_def)
    then have "sums_queued G conf coefs blks (ips ! h) (tmp_key lost) h (Suc (pw_toSend (ps ! g))) (pw_sent (ps ! h)) w'"
      using pull_sum[OF q] pop by (cases "pw_toSend (ps ! g) = pw_sent (ps ! h)") (auto simp: sums_queued_def)
    then show ?thesis
      using True assms(2,3) sent toSend by (simp add: chain_key_def taken_def)
  next
    case False
    have "w_queues w' (ips ! h) key = w_queues w (ips ! h) key" for key
    proof (cases g)
      case 0
      then show ?thesis using effect Pulled by (simp add: has_effect_def)
    next
      case (Suc f)
      then have "ips ! f \<noteq> ips ! h"
        using False assms(1,3) h by (auto simp: nth_eq_iff_index_eq)
      then show ?thesis
        using effect Pulled Suc by (auto simp: has_effect_def blpop_def split: list.splits)
    qed
    moreover have "taken (ps[g := p']) h = taken ps h"
      using False by (simp add: taken_def)
    ultimately show ?thesis
      using queued[OF h] sent by (simp add: sums_queued_def)
  qed
next
  case Pushed
  then have w': "w' = rpush (ips ! g) (chain_key lost ips g) (sum_pkt G conf coefs blks g (pw_sent (ps ! g))) w"
    and p': "pw_toSend p' = pw_toSend (ps ! g)" "pw_sent p' = Suc (pw_sent (ps ! g))"
    using effect by (auto simp: has_effect_def chain_key_def)
  have taken: "taken (ps[g := p']) h = taken ps h"
    using p'(1) assms(2,3) by (simp add: taken_def nth_list_update)
  show ?thesis
  proof (cases "h = g")
    case True
    then show ?thesis
      using queued[OF h] assms(2) h p'(2) taken by (simp add: w' sums_queued_def rpush_def)
  next
    case False
    then have "ips ! h \<noteq> ips ! g"
      using assms(1,3) h by (simp add: nth_eq_iff_index_eq)
    then show ?thesis
      using queued[OF h] False taken by (simp add: w' sums_queued_def rpush_def)
  qed
qed

lemma chain_step:
  assumes "pipe_step G E conf st st'" and "chain_inv G conf lost coefs blks ips st"
    and "gf_complete G" and "io_ok E" and "8 dvd packetSize conf" and "distinct ips"
  shows "chain_inv G conf lost coefs blks ips st'"
proof -
  obtain w ps where st: "st = (w, ps)" by (cases st)
  have len: "length ps = length ips"
    and inv: "\<And>h. h < length ips \<Longrightarrow> helper_ok conf lost coefs blks ips h w (ps ! h)"
      "\<And>h. h < length ips \<Longrightarrow> helper_inv G conf coefs blks h (ps ! h)"
      "\<And>h. h < length ips \<Longrightarrow> sums_queued G conf coefs blks (ips ! h) (chain_key lost ips h) h (taken ps h) (pw_sent (ps ! h)) w"
    using assms(2) by (auto simp: chain_inv_def st)
  obtain g w' p' e where st': "st' = (w', ps[g := p'])" and g: "g < length ips" and same: "same_job (ps ! g) p'"
    and inv': "helper_inv G conf coefs blks g p'"
    and effect: "has_effect G conf lost coefs blks ips g e (w, ps ! g) (w', p')"
    using assms(1) unfolding st
  proof (cases rule: pipe_step.cases)
    case (Work g w' p')
    have "sums_queued G conf coefs blks (ips ! (g - 1)) (tmp_key lost) (g - 1) (pw_toSend (ps ! g)) (pw_sent (ps ! (g - 1))) w"
      if "g \<noteq> 0"
      using inv(3)[of "g - 1"] that Work(1-3) len by (auto simp: chain_key_def taken_def)
    moreover have g: "g < length ips" "worker_step G E conf (w, ps ! g) (w', p')" "st' = (w', ps[g := p'])"
      using Work len by auto
    ultimately show thesis
      using worker_step_effect[OF g(2) assms(3-5) inv(1,2)[OF g(1)]] g that by metis
  next
    case (Wake g p')
    then have g: "g < length ips" "spurious (ps ! g) p'" "st' = (w, ps[g := p'])"
      using len by auto
    then show thesis
      using spurious_preserves[OF g(2) inv(2)[OF g(1)], of lost ips w] that by metis
  qed
  show ?thesis
    unfolding chain_inv_def st'
  proof (simp, intro conjI allI impI)
    show "length ps = length ips" by (rule len)
    fix h assume h: "h < length ips"
    show "helper_ok conf lost coefs blks ips h w' (ps[g := p'] ! h)"
      using helper_ok_same[OF inv(1)[OF h]] same effect_files[OF effect] len g
      by (auto simp: nth_list_update same_job_def)
    show "helper_inv G conf coefs blks h (ps[g := p'] ! h)"
      using inv(2)[OF h] inv' len g by (cases "h = g") simp_all
    show "sums_queued G conf coefs blks (ips ! h) (chain_key lost ips h) h (taken (ps[g := p']) h) (pw_sent (ps[g := p'] ! h)) w'"
      by (rule effect_queues[OF assms(6) len g effect inv(3) h])
  qed
qed

lemma chain_reachable:
  assumes "(pipe_step G E conf)\<^sup>*\<^sup>* st st'" and "chain_inv G conf lost coefs blks ips st"
    and "gf_complete G" and "io_ok E" and "8 dvd packetSize conf" and "distinct ips"
  shows "chain_inv G conf lost coefs blks ips st'"
  using assms(1,2) by (induction rule: rtranclp_induct) (auto intro: chain_step assms(3-6))

section \<open>Progress\<close>

text \<open>
  What a helper has left to do. From every state of the invariant some step makes it smaller, a
  spurious wake-up where both threads that could go on are waiting.
\<close>

fun mrank :: "mpc \<Rightarrow> nat" where
  "mrank MSleep = 4" | "mrank MWait = 3" | "mrank MCheck = 2" | "mrank MPull = 1" | "mrank MNotify = 0"

fun srank :: "spc \<Rightarrow> nat" where
  "srank SSleep = 3" | "srank SWait = 2" | "srank SCheck = 1" | "srank SPush = 0"

definition todo :: "repair_config \<Rightarrow> pipe_worker \<Rightarrow> nat" where
  "todo conf p =
     8 * ((packetCnt conf - pw_read p) + (packetCnt conf - pw_main p) + (packetCnt conf - pw_sent p)) +
     mrank (pw_mpc p) + srank (pw_spc p)"

lemma pull_possible:
  assumes "8 dvd packetSize conf" and "helper_ok conf lost coefs blks ips h w p"
    and "helper_inv G conf coefs blks h p" and "pw_mpc p = MPull"
    and "h \<noteq> 0 \<Longrightarrow> sums_queued G conf coefs blks (ips ! (h - 1)) (tmp_key lost) (h - 1) (pw_toSend p) (packetCnt conf) w"
  shows "\<exists>w' p'. pipe_pull conf w p = Inr (w', p')"
proof (cases h)
  case 0
  then show ?thesis using assms(2) by (simp add: pipe_pull_def helper_ok_def)
next
  case (Suc g)
  have main: "pw_toSend p = pw_main p" "pw_main p < packetCnt conf" "length (pw_disk p) = packetCnt conf"
    "length (pw_disk p ! pw_main p) = packetSize conf"
    using assms(3,4) counters_okD(2,4)[of conf p] by (auto simp: helper_inv_def disk_ok_def)
  then obtain w1 where "blpop (ips ! g) (tmp_key lost) w = Inr (sum_pkt G conf coefs blks g (pw_main p), w1)"
    using pull_sum[OF assms(5)] Suc by auto
  then show ?thesis
    using assms(2) Suc main helper_log[OF assms(2)]
    by (auto simp: pipe_pull_def helper_ok_def XORBuffers_def Let_def)
qed

lemma pull_counters:
  assumes "pipe_pull conf w p = Inr (w', p')"
  shows "pw_read p' = pw_read p" "pw_main p' = pw_main p" "pw_sent p' = pw_sent p" "pw_spc p' = pw_spc p"
    "pw_mpc p' = MNotify"
  using assms by (auto simp: pipe_pull_def res_simps split: if_splits option.splits)

lemma push_possible:
  assumes "helper_ok conf lost coefs blks ips h w p" and "helper_inv G conf coefs blks h p" and "pw_spc p = SPush"
  shows "\<exists>w'. pipe_push conf w p = Inr (w', p\<lparr>pw_sent := Suc (pw_sent p), pw_spc := SCheck\<rparr>)"
proof -
  have "pw_sent p < pw_toSend p" "pw_toSend p \<le> packetCnt conf"
    using assms(2,3) counters_okD(1,2)[of conf p] by (auto simp: helper_inv_def counters_ok_def)
  moreover from this have "length (pw_disk p ! pw_sent p) = packetSize conf" "length (pw_disk p) = packetCnt conf"
    using assms(2) by (auto simp: helper_inv_def disk_ok_def)
  ultimately show ?thesis by (simp add: pipe_push_def memcpy_from_def helper_log[OF assms(1)])
qed

lemma helper_progress:
  assumes "gf_complete G" and "io_ok E" and "8 dvd packetSize conf"
    and ok: "helper_ok conf lost coefs blks ips h w p" and inv: "helper_inv G conf coefs blks h p"
    and queued: "h \<noteq> 0 \<Longrightarrow> sums_queued G conf coefs blks (ips ! (h - 1)) (tmp_key lost) (h - 1) (pw_toSend p) (packetCnt conf) w"
    and "\<not> finished conf p"
  shows "\<exists>w' p'. (worker_step G E conf (w, p) (w', p') \<or> w' = w \<and> spurious p p') \<and> todo conf p' < todo conf p"
proof -
  have c: "counters_ok conf p" using inv by (simp add: helper_inv_def)
  note bounds = counters_okD(1-3)[OF c]
  consider "pw_read p < packetCnt conf"
    | "pw_read p = packetCnt conf" "pw_main p < packetCnt conf"
    | "pw_read p = packetCnt conf" "pw_main p = packetCnt conf" "pw_sent p < packetCnt conf"
    using assms(7) c bounds by (fastforce simp: finished_def counters_ok_def)
  then show ?thesis
  proof cases
    case 1
    then show ?thesis
      using worker_step.Read[OF 1 pipe_read_eq[OF assms(1,2) ok inv 1]]
      by (fastforce simp: todo_def)
  next
    case 2
    show ?thesis
    proof (cases "pw_mpc p")
      case MCheck
      then show ?thesis
        using worker_step.Main_Check[OF MCheck 2(2), of G E w] 2 by (fastforce simp: todo_def)
    next
      case MSleep
      then show ?thesis
        using worker_step.Main_Sleep[OF MSleep, of G E conf w] by (fastforce simp: todo_def)
    next
      case MWait
      then show ?thesis
        using spurious.intros(1)[OF MWait] by (fastforce simp: todo_def)
    next
      case MPull
      obtain w' p' where run: "pipe_pull conf w p = Inr (w', p')"
        using pull_possible[OF assms(3) ok inv MPull queued] by blast
      have "todo conf p' < todo conf p"
        using MPull by (simp add: todo_def pull_counters[OF run])
      then show ?thesis
        using worker_step.Pull[OF MPull run, of G E] by blast
    next
      case MNotify
      then show ?thesis
        using worker_step.Notify[OF MNotify, of G E conf w] 2(2)
        by (fastforce simp: todo_def pipe_notify_def)
    qed
  next
    case 3
    then have main: "pw_mpc p = MCheck" "pw_toSend p = packetCnt conf"
      using c by (cases "pw_mpc p"; simp add: counters_ok_def)+
    show ?thesis
    proof (cases "pw_spc p")
      case SCheck
      then show ?thesis
        using worker_step.Send_Check[OF SCheck 3(3), of G E w] main 3(3) by (fastforce simp: todo_def)
    next
      case SSleep
      then show ?thesis
        using worker_step.Send_Sleep[OF SSleep, of G E conf w] by (fastforce simp: todo_def)
    next
      case SWait
      then show ?thesis
        using spurious.intros(2)[OF SWait] by (fastforce simp: todo_def)
    next
      case SPush
      then show ?thesis
        using push_possible[OF ok inv SPush] worker_step.Push[OF SPush, of conf w _ _ G E] 3(3)
        by (fastforce simp: todo_def)
    qed
  qed
qed

lemma chain_progress:
  assumes "gf_complete G" and "io_ok E" and "8 dvd packetSize conf" and "distinct ips"
    and inv: "chain_inv G conf lost coefs blks ips (w, ps)" and "\<not> list_all (finished conf) ps"
  shows "\<exists>w' ps'. pipe_step G E conf (w, ps) (w', ps') \<and> sum_list (map (todo conf) ps') < sum_list (map (todo conf) ps)"
proof -
  obtain h where h: "h < length ps" "\<not> finished conf (ps ! h)" and before: "\<And>g. g < h \<Longrightarrow> finished conf (ps ! g)"
    using first_not[OF assms(6)] by blast
  have len: "length ps = length ips" using inv by (simp add: chain_inv_def)
  have "sums_queued G conf coefs blks (ips ! (h - 1)) (tmp_key lost) (h - 1) (pw_toSend (ps ! h)) (packetCnt conf) w"
    if "h \<noteq> 0"
  proof -
    have "pw_sent (ps ! (h - 1)) = packetCnt conf"
      using before[of "h - 1"] that by (simp add: finished_def)
    moreover have "sums_queued G conf coefs blks (ips ! (h - 1)) (chain_key lost ips (h - 1)) (h - 1)
        (taken ps (h - 1)) (pw_sent (ps ! (h - 1))) w"
      using inv h(1) len by (simp add: chain_inv_def)
    ultimately show ?thesis
      using that h(1) len by (simp add: chain_key_def taken_def)
  qed
  then obtain w' p' where step: "worker_step G E conf (w, ps ! h) (w', p') \<or> w' = w \<and> spurious (ps ! h) p'"
    and less: "todo conf p' < todo conf (ps ! h)"
    using helper_progress[OF assms(1-3), of lost coefs blks ips h w "ps ! h"] inv h len
    by (auto simp: chain_inv_def)
  have "pipe_step G E conf (w, ps) (w', ps[h := p'])"
    using step pipe_step.Work[OF h(1)] pipe_step.Wake[OF h(1)] by blast
  then show ?thesis using sum_list_update_less[of h ps "todo conf", OF h(1) less] by blast
qed

lemma chain_can_finish:
  assumes "gf_complete G" and "io_ok E" and "8 dvd packetSize conf" and "distinct ips"
    and "chain_inv G conf lost coefs blks ips (w, ps)"
  shows "\<exists>w' ps'. (pipe_step G E conf)\<^sup>*\<^sup>* (w, ps) (w', ps') \<and> list_all (finished conf) ps' \<and>
    chain_inv G conf lost coefs blks ips (w', ps')"
proof -
  have "\<exists>st'. pipe_step G E conf st st' \<and> sum_list (map (todo conf) (snd st')) < sum_list (map (todo conf) (snd st))"
    if "chain_inv G conf lost coefs blks ips st" "\<not> list_all (finished conf) (snd st)" for st
    using chain_progress[OF assms(1-4), of lost coefs blks "fst st" "snd st"] that by auto
  from can_finish[where I = "chain_inv G conf lost coefs blks ips" and R = "pipe_step G E conf" and P = "\<lambda>st. list_all (finished conf) (snd st)"
      and m = "\<lambda>st. sum_list (map (todo conf) (snd st))", OF this chain_step[OF _ _ assms(1-4)] assms(5)]
  show ?thesis by auto
qed

end
