(* ===== verification/Client_Stream.thy ===== *)
theory Client_Stream
  imports Repair_Request Repair_Base
begin

text \<open>
  \<open>ECPipeInputStream.cc\<close>, the client of a repair: it sends the request, learns from the reply where to
  fetch, and runs a collector, which pops the packets of the lost blocks, next to \<open>pipeForwardWorker\<close>, which
  writes the first block to a file and hands the others to their requestors. The two meet at
  \<open>_completePacketIndex\<close> and a condition variable. Every thread is a program counter and a step of the client is
  a step of one of its threads.
\<close>

section \<open>State\<close>

text \<open>
  The forward worker is about to test its condition, has seen it fail and is about to wait, waits, or is
  about to work. A receiver of the cyclic collector is about to take a reply, or it has stored packet \<open>n\<close>
  and read \<open>base\<close> from \<open>_completePacketIndex\<close> and is about to take the lock.
\<close>

datatype fpc = FCheck | FSleep | FWait | FWork

datatype rpc = RGet | RLock nat nat

text \<open>
  \<open>cl_contents\<close> is \<open>_contents\<close>, without an entry before it is allocated and after it is deleted;
  \<open>cl_replied\<close> says that the reply has come and the threads run, \<open>cl_joined\<close> that the receivers have ended;
  \<open>cl_collected\<close> counts the rounds of \<open>pipeCollector\<close>; \<open>cl_out\<close> is the file \<open>testfileOut\<close>. The contexts are named by their addresses, \<open>NULL\<close> is \<open>None\<close>.
\<close>

record client =
  cl_lostFiles :: "(string \<times> ip_addr) list"
  cl_nj :: nat
  cl_pipePullCtx :: "ip_addr option list"
  cl_cyclPullCtx :: "ip_addr option list list"
  cl_contents :: "nat \<Rightarrow> nat \<Rightarrow> byte list option"
  cl_collected :: nat
  cl_complete :: nat
  cl_processed :: nat
  cl_fpc :: fpc
  cl_out :: "byte list"
  cl_receivers :: "((nat \<times> nat) \<times> (nat \<times> rpc)) list"
  cl_indexCompleted :: "nat \<Rightarrow> nat \<Rightarrow> bool"
  cl_joined :: bool
  cl_replied :: bool

section \<open>The constructor\<close>

text \<open>Several files at once are only repaired under some of the policies.\<close>

definition client_files :: "repair_config \<Rightarrow> string list \<Rightarrow> (string \<times> ip_addr) list res" where
  "client_files conf filenames =
     (if DRPolicy conf = ''conv'' \<or> (DRPolicy conf = ''ecpipe'' \<and> (ECPipePolicy conf = ''basic'' \<or> ECPipePolicy conf = ''cyclic''))
      then Inr (map (\<lambda>f. (f, 0)) filenames)
      else bindE (atE filenames 0) (\<lambda>f. Inr [(f, 0)]))"

definition client_init :: "repair_config \<Rightarrow> string list \<Rightarrow> client res" where
  "client_init conf filenames =
     bindE (client_files conf filenames) (\<lambda>fs.
     Inr \<lparr>cl_lostFiles = fs, cl_nj = length fs, cl_pipePullCtx = [], cl_cyclPullCtx = [], cl_contents = (\<lambda>_ _. None),
       cl_collected = 0, cl_complete = 0, cl_processed = 0, cl_fpc = FCheck, cl_out = [], cl_receivers = [],
       cl_indexCompleted = (\<lambda>_ _. False), cl_joined = False, cl_replied = False\<rparr>)"

text \<open>\<open>sendToCoordinator\<close>, the request.\<close>

definition client_send :: "repair_config \<Rightarrow> client \<Rightarrow> world \<Rightarrow> world res" where
  "client_send conf c w =
     bindE (dr_request conf (map fst (cl_lostFiles c))) (\<lambda>req. Inr (rpush (coordinatorIP conf) ''dr_requests'' req w))"

section \<open>The reply\<close>

definition pipe_policy :: "repair_config \<Rightarrow> bool" where
  "pipe_policy conf \<longleftrightarrow> DRPolicy conf = ''conv'' \<or> DRPolicy conf = ''ppr'' \<or>
     (DRPolicy conf = ''ecpipe'' \<and> has_substring ''basic'' (ECPipePolicy conf)) \<or> DRPolicy conf = ''diy''"

definition cycl_policy :: "repair_config \<Rightarrow> bool" where
  "cycl_policy conf \<longleftrightarrow> DRPolicy conf = ''ecpipe'' \<and> has_substring ''cyclic'' (ECPipePolicy conf)"

text \<open>The address to fetch from, then pairs of such an address and a requestor for the other blocks.\<close>

definition pipe_reply_next :: "repair_config \<Rightarrow> byte list \<Rightarrow> nat \<Rightarrow> client \<Rightarrow> client res" where
  "pipe_reply_next conf reply j c =
     bindE (get_word reply (int j * 8 - 4)) (\<lambda>fetchIP.
     bindE (get_word reply (int j * 8)) (\<lambda>reqIP.
     bindE (findCtx (helpersIPs conf) fetchIP) (\<lambda>ctx.
     bindE (atE (cl_lostFiles c) (int j)) (\<lambda>(f, _).
     Inr (c\<lparr>cl_pipePullCtx := cl_pipePullCtx c @ [ctx], cl_lostFiles := (cl_lostFiles c)[j := (f, reqIP)]\<rparr>)))))"

definition pipe_reply :: "repair_config \<Rightarrow> byte list \<Rightarrow> client \<Rightarrow> client res" where
  "pipe_reply conf reply c =
     (let nj = (if DRPolicy conf = ''conv'' \<or> DRPolicy conf = ''ppr'' then 1 else cl_nj c)
      in
      bindE (guardE (int (length reply) = 8 * int nj - 4) (Exit 1)) (\<lambda>_.
      bindE (get_word reply 0) (\<lambda>fetchIP.
      bindE (atE (cl_lostFiles c) 0) (\<lambda>(f, _).
      bindE (findCtx (helpersIPs conf) fetchIP) (\<lambda>ctx.
      foldE (pipe_reply_next conf reply) [1..<nj]
        (c\<lparr>cl_nj := nj, cl_lostFiles := (cl_lostFiles c)[0 := (f, localIP conf)], cl_pipePullCtx := [ctx]\<rparr>))))))"

text \<open>For every block the number of addresses, the addresses to fetch from, and the requestor.\<close>

definition cycl_reply_next :: "repair_config \<Rightarrow> byte list \<Rightarrow> nat \<Rightarrow> client \<times> int \<Rightarrow> (client \<times> int) res" where
  "cycl_reply_next conf reply j s = (case s of (c, cmdbase) \<Rightarrow>
     bindE (guardE (cmdbase < int (length reply)) (Exit 1)) (\<lambda>_.
     bindE (get_int reply cmdbase) (\<lambda>numOfFetchIPs.
     bindE (guardE (numOfFetchIPs \<noteq> 0 \<and> numOfFetchIPs \<le> int (ecN conf)) (Exit 1)) (\<lambda>_.
     bindE (mapE (\<lambda>k. bindE (get_word reply (cmdbase + 4 + 4 * int k)) (findCtx (helpersIPs conf))) [0..<nat numOfFetchIPs]) (\<lambda>ctxes.
     let cmdbase1 = cmdbase + 4 + 4 * int (nat numOfFetchIPs)
     in
     bindE (guardE (cmdbase1 < int (length reply)) (Exit 1)) (\<lambda>_.
     bindE (get_word reply cmdbase1) (\<lambda>ip.
     bindE (atE (cl_lostFiles c) (int j)) (\<lambda>(f, _).
     Inr (c\<lparr>cl_cyclPullCtx := cl_cyclPullCtx c @ [ctxes], cl_lostFiles := (cl_lostFiles c)[j := (f, ip)]\<rparr>, cmdbase1 + 4)))))))))"

definition cycl_reply :: "repair_config \<Rightarrow> byte list \<Rightarrow> client \<Rightarrow> client res" where
  "cycl_reply conf reply c = bindE (foldE (cycl_reply_next conf reply) [0..<cl_nj c] (c, 0)) (\<lambda>(c1, _). Inr c1)"

section \<open>\<open>pipeCollector\<close>\<close>

text \<open>\<open>notify_one\<close> on \<open>_reader2SenderCondVar\<close>.\<close>

definition notify_forward :: "client \<Rightarrow> client" where
  "notify_forward c = c\<lparr>cl_fpc := (if cl_fpc c = FWait then FCheck else cl_fpc c)\<rparr>"

definition put_contents :: "nat \<Rightarrow> nat \<Rightarrow> byte list option \<Rightarrow> client \<Rightarrow> client" where
  "put_contents i j pkt c = c\<lparr>cl_contents := (cl_contents c)(i := (cl_contents c i)(j := pkt))\<rparr>"

text \<open>A round of the two loops: packet \<open>i\<close> of block \<open>j\<close>. The replies of a connection come in the order of its commands.\<close>

definition pipe_collect :: "repair_config \<Rightarrow> world \<Rightarrow> client \<Rightarrow> (world \<times> client) res" where
  "pipe_collect conf w c =
     (let i = cl_collected c div cl_nj c; j = cl_collected c mod cl_nj c
      in
      bindE (atE (cl_pipePullCtx c) (int j)) (\<lambda>ctx.
      bindE (atE (cl_lostFiles c) (int j)) (\<lambda>(f, _).
      case ctx of
        None \<Rightarrow> Inl Out_Of_Bounds
      | Some ip \<Rightarrow>
          bindE (blpop ip f w) (\<lambda>(msg, w1).
          bindE (memcpy_from msg 0 (int (packetSize conf))) (\<lambda>pkt.
          Inr (w1, notify_forward ((put_contents i j (Some pkt) c)
            \<lparr>cl_collected := Suc (cl_collected c), cl_complete := Suc (cl_complete c)\<rparr>)))))))"

section \<open>\<open>pipeForwardWorker\<close>\<close>

definition forward :: "repair_config \<Rightarrow> world \<Rightarrow> client \<Rightarrow> (world \<times> client) res" where
  "forward conf w c =
     (let i = cl_processed c div cl_nj c; j = cl_processed c mod cl_nj c;
          c1 = c\<lparr>cl_processed := Suc (cl_processed c), cl_fpc := FCheck\<rparr>
      in case cl_contents c i j of
           None \<Rightarrow> Inl Out_Of_Bounds
         | Some pkt \<Rightarrow>
             if j = 0 then Inr (w, put_contents i 0 None (c1\<lparr>cl_out := cl_out c @ pkt\<rparr>))
             else bindE (atE (cl_lostFiles c) (int j)) (\<lambda>(f, _). Inr (rpush (localIP conf) f pkt w, c1)))"

section \<open>\<open>cyclCollector\<close>\<close>

text \<open>One receiver for each of the \<open>ecK - 1\<close> contexts of a block, with the number of replies it waits for.\<close>

definition cycl_begin :: "repair_config \<Rightarrow> client \<Rightarrow> client res" where
  "cycl_begin conf c =
     bindE (guardE (ecK conf \<noteq> 0) Out_Of_Bounds) (\<lambda>_.
     bindE (guardE (ecK conf \<noteq> 1) Div_By_Zero) (\<lambda>_.
     let g = ecK conf - 1; q = packetCnt conf div g; r = packetCnt conf mod g
     in Inr (c\<lparr>cl_receivers := map (\<lambda>(i, j). ((i, j), (q + (if i < r then 1 else 0), RGet)))
          (List.product [0..<g] [0..<cl_nj c])\<rparr>)))"

text \<open>
  A round of \<open>cyclReceiver\<close> up to the lock. A packet carries its number behind its bytes; the pointer
  \<open>_contents[pktId]\<close> is out of range for other numbers.
\<close>

definition cycl_get :: "repair_config \<Rightarrow> nat \<Rightarrow> world \<Rightarrow> client \<Rightarrow> (world \<times> client) res" where
  "cycl_get conf r w c =
     (case cl_receivers c ! r of ((i, j), (n, _)) \<Rightarrow>
      bindE (atE (cl_cyclPullCtx c) (int j)) (\<lambda>ctxes.
      bindE (atE ctxes (int i)) (\<lambda>ctx.
      bindE (atE (cl_lostFiles c) (int j)) (\<lambda>(f, _).
      case ctx of
        None \<Rightarrow> Inl Out_Of_Bounds
      | Some ip \<Rightarrow>
          bindE (blpop ip f w) (\<lambda>(msg, w1).
          bindE (get_int msg (int (packetSize conf))) (\<lambda>pktId.
          bindE (guardE (0 \<le> pktId \<and> pktId < int (packetCnt conf)) Out_Of_Bounds) (\<lambda>_.
          bindE (memcpy_from msg 0 (int (packetSize conf))) (\<lambda>pkt.
          let c1 = put_contents (nat pktId) j (Some pkt) c
          in Inr (w1, c1\<lparr>cl_indexCompleted := (cl_indexCompleted c)(nat pktId := (cl_indexCompleted c (nat pktId))(j := True)),
               cl_receivers := (cl_receivers c)[r := ((i, j), (n - 1, RLock (nat pktId * cl_nj c + j) (cl_complete c)))]\<rparr>)))))))))"

text \<open>The critical section: the index moves up if nothing below the new packet is missing.\<close>

definition cycl_update :: "nat \<Rightarrow> client \<Rightarrow> client" where
  "cycl_update r c =
     (case cl_receivers c ! r of
        (ij, (n, RLock newIndex base)) \<Rightarrow>
          let c1 = c\<lparr>cl_receivers := (cl_receivers c)[r := (ij, (n, RGet))]\<rparr>
          in if list_all (\<lambda>b. cl_indexCompleted c (b div cl_nj c) (b mod cl_nj c)) [base..<newIndex]
             then notify_forward (c1\<lparr>cl_complete := Suc newIndex\<rparr>) else c1
      | _ \<Rightarrow> c)"

text \<open>After the receivers have been joined.\<close>

definition cycl_join :: "repair_config \<Rightarrow> client \<Rightarrow> client" where
  "cycl_join conf c = notify_forward (c\<lparr>cl_complete := packetCnt conf, cl_joined := True\<rparr>)"

section \<open>Steps\<close>

text \<open>
  The second half of \<open>sendToCoordinator\<close> and the start of \<open>dataCollector\<close>. The coordinator pushes the reply to
  the list named like the first lost file. Under no policy of the two kinds is there a reply to wait for.
\<close>

definition client_reply :: "repair_config \<Rightarrow> world \<Rightarrow> client \<Rightarrow> (world \<times> client) res" where
  "client_reply conf w c =
     bindE
       (if pipe_policy conf \<or> cycl_policy conf
        then bindE (atE (cl_lostFiles c) 0) (\<lambda>(f, _).
          bindE (blpop (coordinatorIP conf) f w) (\<lambda>(reply, w1).
          bindE (if pipe_policy conf then pipe_reply conf reply c else cycl_reply conf reply c) (\<lambda>c1. Inr (w1, c1))))
        else Inr (w, c)) (\<lambda>(w1, c1).
     bindE (if cycl_policy conf then cycl_begin conf c1 else Inr c1) (\<lambda>c2.
     Inr (w1, c2\<lparr>cl_replied := True\<rparr>)))"

inductive forward_step :: "repair_config \<Rightarrow> world \<times> client \<Rightarrow> world \<times> client \<Rightarrow> bool" for conf where
  Check: "cl_fpc c = FCheck \<Longrightarrow> cl_processed c < packetCnt conf * cl_nj c \<Longrightarrow>
    forward_step conf (w, c) (w, c\<lparr>cl_fpc := (if cl_processed c < cl_complete c then FWork else FSleep)\<rparr>)"
| Sleep: "cl_fpc c = FSleep \<Longrightarrow> forward_step conf (w, c) (w, c\<lparr>cl_fpc := FWait\<rparr>)"
| Wake: "cl_fpc c = FWait \<Longrightarrow> forward_step conf (w, c) (w, c\<lparr>cl_fpc := FCheck\<rparr>)"
| Work: "cl_fpc c = FWork \<Longrightarrow> forward conf w c = Inr (w', c') \<Longrightarrow> forward_step conf (w, c) (w', c')"

inductive collector_step :: "repair_config \<Rightarrow> world \<times> client \<Rightarrow> world \<times> client \<Rightarrow> bool" for conf where
  Collect: "\<not> cycl_policy conf \<Longrightarrow> cl_collected c < packetCnt conf * cl_nj c \<Longrightarrow> pipe_collect conf w c = Inr (w', c') \<Longrightarrow>
    collector_step conf (w, c) (w', c')"
| Get: "cycl_policy conf \<Longrightarrow> r < length (cl_receivers c) \<Longrightarrow> cl_receivers c ! r = (ij, (Suc n, RGet)) \<Longrightarrow>
    cycl_get conf r w c = Inr (w', c') \<Longrightarrow> collector_step conf (w, c) (w', c')"
| Update: "cycl_policy conf \<Longrightarrow> r < length (cl_receivers c) \<Longrightarrow> cl_receivers c ! r = (ij, (n, RLock newIndex base)) \<Longrightarrow>
    collector_step conf (w, c) (w, cycl_update r c)"
| Join: "cycl_policy conf \<Longrightarrow> \<not> cl_joined c \<Longrightarrow> list_all (\<lambda>(_, (n, p)). n = 0 \<and> p = RGet) (cl_receivers c) \<Longrightarrow>
    collector_step conf (w, c) (w, cycl_join conf c)"

inductive client_step :: "repair_config \<Rightarrow> world \<times> client \<Rightarrow> world \<times> client \<Rightarrow> bool" for conf where
  Reply: "\<not> cl_replied c \<Longrightarrow> client_reply conf w c = Inr (w', c') \<Longrightarrow> client_step conf (w, c) (w', c')"
| Collector: "cl_replied c \<Longrightarrow> collector_step conf (w, c) (w', c') \<Longrightarrow> client_step conf (w, c) (w', c')"
| Forward: "cl_replied c \<Longrightarrow> forward_step conf (w, c) (w', c') \<Longrightarrow> client_step conf (w, c) (w', c')"

text \<open>The collector and the forward worker have left their loops.\<close>

definition client_done :: "repair_config \<Rightarrow> client \<Rightarrow> bool" where
  "client_done conf c \<longleftrightarrow> cl_replied c \<and> cl_processed c = packetCnt conf * cl_nj c \<and>
     (if cycl_policy conf then cl_joined c else cl_collected c = packetCnt conf * cl_nj c)"

text \<open>\<open>sendRequest\<close> behind the threads: under the policy \<open>conv\<close> the other requestors report.\<close>

definition client_ends :: "repair_config \<Rightarrow> client \<Rightarrow> world \<Rightarrow> world res" where
  "client_ends conf c w =
     (if DRPolicy conf = ''conv''
      then foldE (\<lambda>i w. bindE (atE (cl_lostFiles c) (int i)) (\<lambda>(f, _).
        bindE (blpop (localIP conf) (''fr_end_'' @ f) w) (\<lambda>(msg, w1).
        bindE (get_word msg 0) (\<lambda>_. Inr w1)))) [1..<length (cl_lostFiles c)] w
      else Inr w)"

end
