(* ===== verification/Client_Serve.thy ===== *)
theory Client_Serve
  imports Client_Stream Repair_Dispatch "HOL-Library.Sublist"
begin

text \<open>
  The client of a repair next to the nodes that repair: what it writes to its file is a prefix of the repaired
  packets, and all of them in the end. The nodes are an interface, the locale \<open>packet_source\<close>: they never read a list
  named like the lost block, they only push to it, so that it does not matter when the client takes something from it.
\<close>

section \<open>Lists of one name\<close>

text \<open>The world with other lists under the name \<open>f\<close>, one for each server.\<close>

definition with_key :: "string \<Rightarrow> (ip_addr \<Rightarrow> byte list list) \<Rightarrow> world \<Rightarrow> world" where
  "with_key f Q w = w\<lparr>w_queues := (\<lambda>ip key. if key = f then Q ip else w_queues w ip key)\<rparr>"

lemma with_key_queues [simp]:
  "w_queues (with_key f Q w) ip key = (if key = f then Q ip else w_queues w ip key)"
  "w_files (with_key f Q w) = w_files w"
  by (simp_all add: with_key_def)

lemma with_key_twice [simp]: "with_key f Q (with_key f Q' w) = with_key f Q w"
  by (auto simp: with_key_def intro!: world.equality ext)

lemma with_key_same: "(\<And>ip. Q ip = w_queues w ip f) \<Longrightarrow> with_key f Q w = w"
  by (auto simp: with_key_def intro!: world.equality ext)

lemma rpush_with_key:
  "rpush ip key msg (with_key f Q w) =
    with_key f (\<lambda>i. Q i @ (if i = ip \<and> key = f then [msg] else [])) (rpush ip key msg w)"
  by (auto simp: with_key_def rpush_def intro!: world.equality ext)

lemma blpop_with_key:
  assumes "key \<noteq> f"
  shows "blpop ip key (with_key f Q w) = bindE (blpop ip key w) (\<lambda>(msg, w1). Inr (msg, with_key f Q w1))"
  using assms by (auto simp: with_key_def blpop_def fun_eq_iff split: list.splits)

lemma blpop_other_key: "key \<noteq> f \<Longrightarrow> blpop ip key w = Inr (msg, w1) \<Longrightarrow> w_queues w1 i f = w_queues w i f"
  by (auto simp: blpop_def split: list.splits)

text \<open>A push to one of the lists \<open>f\<close>, or to another list.\<close>

lemma push_key:
  assumes "w' = rpush ip key msg w" and "\<And>v. run v = Inr (rpush ip key msg v, n')"
  shows "\<exists>N. (\<forall>i. w_queues w' i f = w_queues w i f @ N i) \<and>
    (\<forall>Q. run (with_key f Q w) = Inr (with_key f (\<lambda>i. Q i @ N i) w', n'))"
  using assms by (intro exI[of _ "\<lambda>i. if i = ip \<and> key = f then [msg] else []"]) (simp add: rpush_with_key rl.contents_push)

section \<open>The nodes and the client\<close>

text \<open>What nodes that repair promise of the list \<open>f\<close> at \<open>ip\<close>.\<close>

definition delivers ::
    "(world \<times> 'n \<Rightarrow> world \<times> 'n \<Rightarrow> bool) \<Rightarrow> ('n \<Rightarrow> bool) \<Rightarrow> ip_addr \<Rightarrow> string \<Rightarrow> byte list list \<Rightarrow> world \<times> 'n \<Rightarrow> bool" where
  "delivers step ready ip f lost st \<longleftrightarrow>
     (\<forall>w ps. step\<^sup>*\<^sup>* st (w, ps) \<longrightarrow>
        (\<exists>n \<le> length lost. w_queues w ip f = take n lost) \<and>
        (\<exists>w' ps'. step\<^sup>*\<^sup>* (w, ps) (w', ps') \<and> ready ps') \<and>
        (ready ps \<longrightarrow> w_queues w ip f = lost))"

lemma deliversI:
  assumes "\<And>w ps. step\<^sup>*\<^sup>* st (w, ps) \<Longrightarrow>
      (\<exists>n \<le> N. w_queues w ip f = map g [0..<n]) \<and>
      (\<exists>w' ps'. step\<^sup>*\<^sup>* (w, ps) (w', ps') \<and> ready ps') \<and> (ready ps \<longrightarrow> w_queues w ip f = map g [0..<N])"
  shows "delivers step ready ip f (map g [0..<N]) st"
proof -
  have prefixes: "map g [0..<n] = take n (map g [0..<N])" if "n \<le> N" for n using that by (simp add: take_map)
  have "\<exists>n \<le> length (map g [0..<N]). w_queues w ip f = take n (map g [0..<N])" if run: "step\<^sup>*\<^sup>* st (w, ps)" for w ps
  proof -
    obtain n where n: "n \<le> N" "w_queues w ip f = map g [0..<n]" using assms[OF run] by blast
    have "w_queues w ip f = take n (map g [0..<N])" using n(2) prefixes[OF n(1)] by (rule trans)
    then show ?thesis using n(1) by (intro exI[of _ n]) simp
  qed
  then show ?thesis using assms unfolding delivers_def by blast
qed

inductive serve_step ::
    "(world \<times> 'n \<Rightarrow> world \<times> 'n \<Rightarrow> bool) \<Rightarrow> repair_config \<Rightarrow> world \<times> 'n \<times> client \<Rightarrow> world \<times> 'n \<times> client \<Rightarrow> bool"
  for step conf where
  Nodes: "step (w, ps) (w', ps') \<Longrightarrow> serve_step step conf (w, ps, c) (w', ps', c)"
| Client: "client_step conf (w, c) (w', c') \<Longrightarrow> serve_step step conf (w, ps, c) (w', ps, c')"

text \<open>
  What the client promises: at any time its file is a prefix of the bytes it asked for, it can still finish, and then the
  file is complete.
\<close>

definition served ::
    "(world \<times> 'n \<Rightarrow> world \<times> 'n \<Rightarrow> bool) \<Rightarrow> repair_config \<Rightarrow> string \<Rightarrow> byte list \<Rightarrow> world \<times> 'n \<Rightarrow> bool" where
  "served step conf f bs st \<longleftrightarrow>
     (\<exists>c0. client_init conf [f] = Inr c0 \<and>
        (\<forall>w ps c. (serve_step step conf)\<^sup>*\<^sup>* (fst st, snd st, c0) (w, ps, c) \<longrightarrow>
           prefix (cl_out c) bs \<and>
           (\<exists>w' ps' c'. (serve_step step conf)\<^sup>*\<^sup>* (w, ps, c) (w', ps', c') \<and> client_done conf c') \<and>
           (client_done conf c \<longrightarrow> cl_out c = bs)))"

section \<open>The client of one block\<close>

text \<open>A client that repairs one block through a chain or a tree; the binary search finds the node to fetch from.\<close>

definition client_ok :: "repair_config \<Rightarrow> ip_addr \<Rightarrow> bool" where
  "client_ok conf ip \<longleftrightarrow> pipe_policy conf \<and> \<not> cycl_policy conf \<and> sorted_wrt (<) (helpersIPs conf) \<and>
     ip \<in> set (helpersIPs conf) \<and> coordinatorIP conf \<noteq> ip"

text \<open>\<open>pkts\<close> are the packets taken so far.\<close>

definition client_inv :: "repair_config \<Rightarrow> string \<Rightarrow> ip_addr \<Rightarrow> byte list list \<Rightarrow> client \<Rightarrow> bool" where
  "client_inv conf f ip pkts c \<longleftrightarrow>
     (if cl_replied c
      then cl_lostFiles c = [(f, localIP conf)] \<and> cl_nj c = 1 \<and> cl_pipePullCtx c = [Some ip] \<and>
        cl_collected c = length pkts \<and> cl_complete c = length pkts \<and> cl_processed c \<le> length pkts \<and>
        length pkts \<le> packetCnt conf \<and> cl_out c = concat (take (cl_processed c) pkts) \<and>
        (\<forall>i. cl_processed c \<le> i \<and> i < length pkts \<longrightarrow> cl_contents c i 0 = Some (pkts ! i)) \<and>
        (cl_fpc c = FWork \<longrightarrow> cl_processed c < length pkts)
      else client_init conf [f] = Inr c \<and> pkts = [])"

lemma client_init_single: "\<exists>c. client_init conf [f] = Inr c \<and> \<not> cl_replied c \<and> cl_lostFiles c = [(f, 0)] \<and> cl_nj c = 1 \<and>
    cl_collected c = 0 \<and> cl_complete c = 0 \<and> cl_processed c = 0 \<and> cl_out c = [] \<and> cl_fpc c = FCheck"
  by (simp add: client_init_def client_files_def)

lemma client_inv_init: "client_init conf [f] = Inr c \<Longrightarrow> client_inv conf f ip [] c"
  using client_init_single[of conf f] by (auto simp: client_inv_def)

lemma client_reply_ok:
  assumes "client_ok conf ip" and "client_inv conf f ip pkts c" and "\<not> cl_replied c"
    and q: "w_queues w (coordinatorIP conf) f = put_word ip # ms"
  obtains w' c' where "client_reply conf w c = Inr (w', c')" and "cl_replied c'" and "client_inv conf f ip [] c'"
    and "w_queues w' = (\<lambda>i k. if i = coordinatorIP conf \<and> k = f then ms else w_queues w i k)" and "w_files w' = w_files w"
proof -
  note [simp] = client_inv_def put_word_def
  have c: "cl_lostFiles c = [(f, 0)]" "cl_nj c = 1" "cl_collected c = 0" "cl_complete c = 0"
    "cl_processed c = 0" "cl_out c = []" "cl_fpc c = FCheck"
    using assms(2,3) client_init_single[of conf f] by auto
  have "findCtx (helpersIPs conf) ip = Inr (Some ip)"
    using assms(1) by (intro findCtx_eq) (auto simp: client_ok_def)
  moreover have "get_word (put_word ip) 0 = Inr ip" using get_word_append[of 0 "[]" ip "[]"] by simp
  ultimately have "pipe_reply conf (put_word ip) c = Inr (c\<lparr>cl_nj := 1, cl_lostFiles := [(f, localIP conf)], cl_pipePullCtx := [Some ip]\<rparr>)"
    using c by (simp add: pipe_reply_def Let_def atE_def guardE_def)
  then have "client_reply conf w c = Inr (w\<lparr>w_queues := (w_queues w)(coordinatorIP conf := (w_queues w (coordinatorIP conf))(f := ms))\<rparr>,
      c\<lparr>cl_nj := 1, cl_lostFiles := [(f, localIP conf)], cl_pipePullCtx := [Some ip], cl_replied := True\<rparr>)"
    using assms(1) c q by (simp add: client_reply_def client_ok_def blpop_def atE_def)
  then show ?thesis using c by (intro that) (auto simp: fun_eq_iff)
qed

lemma client_collect_ok:
  assumes "client_ok conf ip" and "client_inv conf f ip pkts c" and "cl_replied c" and "length pkts < packetCnt conf"
    and q: "w_queues w ip f = m # ms" and "length m = packetSize conf"
  obtains w' c' where "pipe_collect conf w c = Inr (w', c')" and "cl_replied c'" and "client_inv conf f ip (pkts @ [m]) c'"
    and "w_queues w' = (\<lambda>i k. if i = ip \<and> k = f then ms else w_queues w i k)" and "w_files w' = w_files w"
proof -
  have "memcpy_from m 0 (int (packetSize conf)) = Inr m" using assms(6) by (simp add: memcpy_from_def)
  then have "pipe_collect conf w c = Inr (w\<lparr>w_queues := (w_queues w)(ip := (w_queues w ip)(f := ms))\<rparr>,
      notify_forward ((put_contents (length pkts) 0 (Some m) c)\<lparr>cl_collected := Suc (length pkts), cl_complete := Suc (length pkts)\<rparr>))"
    using assms by (simp add: client_inv_def pipe_collect_def Let_def atE_def blpop_def)
  then show ?thesis
    using assms(2-4) by (elim that) (auto simp: client_inv_def put_contents_def notify_forward_def nth_append fun_eq_iff less_Suc_eq)
qed

lemma forward_ok:
  assumes "client_inv conf f ip pkts c" and "cl_replied c" and "cl_processed c < length pkts"
  obtains c' where "forward conf w c = Inr (w, c')" and "cl_replied c'" and "client_inv conf f ip pkts c'"
    and "cl_processed c' = Suc (cl_processed c)" and "cl_fpc c' = FCheck"
proof -
  let ?n = "cl_processed c"
  have "forward conf w c = Inr (w, put_contents ?n 0 None (c\<lparr>cl_processed := Suc ?n, cl_fpc := FCheck, cl_out := cl_out c @ pkts ! ?n\<rparr>))"
    using assms by (simp add: client_inv_def forward_def Let_def)
  then show ?thesis
    using assms by (elim that) (auto simp: client_inv_def put_contents_def take_Suc_conv_app_nth)
qed

text \<open>A step of the client takes the reply, takes a packet, or leaves the world alone.\<close>

lemma client_step_cases:
  assumes "client_step conf (w, c) (w', c')" and ok: "client_ok conf ip" and inv: "client_inv conf f ip pkts c"
    and reply: "\<not> cl_replied c \<Longrightarrow> w_queues w (coordinatorIP conf) f = put_word ip # ms"
    and pkt: "\<And>m. m \<in> set (w_queues w ip f) \<Longrightarrow> length m = packetSize conf"
  obtains (Reply) "\<not> cl_replied c" "cl_replied c'" "client_inv conf f ip [] c'" "w_files w' = w_files w"
      "w_queues w' = (\<lambda>i k. if i = coordinatorIP conf \<and> k = f then ms else w_queues w i k)"
    | (Packet) m rest where "cl_replied c" "cl_replied c'" "w_queues w ip f = m # rest" "client_inv conf f ip (pkts @ [m]) c'"
      "w_files w' = w_files w" "w_queues w' = (\<lambda>i k. if i = ip \<and> k = f then rest else w_queues w i k)"
    | (Forward) "cl_replied c" "cl_replied c'" "client_inv conf f ip pkts c'" "w' = w"
  using assms(1)
proof cases
  case Reply
  then show ?thesis
    using client_reply_ok[OF ok inv _ reply] that(1) by (metis Inr_inject Pair_inject)
next
  case Collector
  from \<open>collector_step conf (w, c) (w', c')\<close> show ?thesis
  proof cases
    case Collect
    have less: "length pkts < packetCnt conf" using Collect \<open>cl_replied c\<close> inv by (simp add: client_inv_def)
    show ?thesis
    proof (cases "w_queues w ip f")
      case Nil
      then show ?thesis
        using Collect \<open>cl_replied c\<close> inv by (simp add: client_inv_def pipe_collect_def Let_def atE_def blpop_def)
    next
      case (Cons m rest)
      then show ?thesis
        using client_collect_ok[OF ok inv \<open>cl_replied c\<close> less Cons] pkt[of m] Collect that(2)[OF \<open>cl_replied c\<close> _ Cons] by auto
    qed
  qed (use ok in \<open>auto simp: client_ok_def\<close>)
next
  case Forward
  from \<open>forward_step conf (w, c) (w', c')\<close> show ?thesis
  proof cases
    case Work
    then have "cl_processed c < length pkts" using Forward inv by (simp add: client_inv_def)
    then show ?thesis
      using forward_ok[OF inv \<open>cl_replied c\<close>, of w] Work that(3)[OF \<open>cl_replied c\<close>] by auto
  qed (use that(3) Forward inv in \<open>auto simp: client_inv_def\<close>)
qed

subsection \<open>The client can finish\<close>

text \<open>Once all packets are there: first the forward worker, with nothing left to collect.\<close>

lemma forward_once:
  assumes inv: "client_inv conf f ip pkts c" and rep: "cl_replied c" and "cl_processed c < length pkts"
  shows "\<exists>c'. (client_step conf)\<^sup>*\<^sup>* (w, c) (w, c') \<and> cl_replied c' \<and> client_inv conf f ip pkts c' \<and>
    cl_processed c' = Suc (cl_processed c)"
proof -
  let ?work = "c\<lparr>cl_fpc := FWork\<rparr>"
  have inv': "client_inv conf f ip pkts (c\<lparr>cl_fpc := p\<rparr>)" for p
    using assms by (simp add: client_inv_def)
  have rep': "cl_replied (c\<lparr>cl_fpc := p\<rparr>)" for p using rep by simp
  have check: "client_step conf (w, c\<lparr>cl_fpc := FCheck\<rparr>) (w, ?work)"
    using assms forward_step.Check[of "c\<lparr>cl_fpc := FCheck\<rparr>" conf w]
    by (intro client_step.Forward) (simp_all add: client_inv_def)
  have wake: "client_step conf (w, c\<lparr>cl_fpc := FWait\<rparr>) (w, c\<lparr>cl_fpc := FCheck\<rparr>)"
    using forward_step.Wake[of "c\<lparr>cl_fpc := FWait\<rparr>" conf w] rep by (intro client_step.Forward) simp_all
  have sleep: "client_step conf (w, c\<lparr>cl_fpc := FSleep\<rparr>) (w, c\<lparr>cl_fpc := FWait\<rparr>)"
    using forward_step.Sleep[of "c\<lparr>cl_fpc := FSleep\<rparr>" conf w] rep by (intro client_step.Forward) simp_all
  have "(client_step conf)\<^sup>*\<^sup>* (w, c) (w, ?work)"
  proof (cases "cl_fpc c")
    case FCheck
    then have "c = c\<lparr>cl_fpc := FCheck\<rparr>" by simp
    then show ?thesis using check by (metis r_into_rtranclp)
  next
    case FSleep
    then have "c = c\<lparr>cl_fpc := FSleep\<rparr>" by simp
    then show ?thesis using sleep wake check by (metis converse_rtranclp_into_rtranclp r_into_rtranclp)
  next
    case FWait
    then have "c = c\<lparr>cl_fpc := FWait\<rparr>" by simp
    then show ?thesis using wake check by (metis converse_rtranclp_into_rtranclp r_into_rtranclp)
  next
    case FWork
    then have "c = ?work" by simp
    then show ?thesis by (metis rtranclp.rtrancl_refl)
  qed
  moreover obtain c' where c': "forward conf w ?work = Inr (w, c')" "cl_replied c'" "client_inv conf f ip pkts c'"
    "cl_processed c' = Suc (cl_processed c)"
    using forward_ok[OF inv'[of FWork] rep'[of FWork], of w] assms(3) by auto
  moreover have "client_step conf (w, ?work) (w, c')"
    using c'(1) rep by (intro client_step.Forward forward_step.Work) simp_all
  ultimately show ?thesis by (meson rtranclp.rtrancl_into_rtrancl)
qed

lemma forward_all:
  assumes "client_inv conf f ip pkts c" and "cl_replied c"
  shows "\<exists>c'. (client_step conf)\<^sup>*\<^sup>* (w, c) (w, c') \<and> cl_replied c' \<and> client_inv conf f ip pkts c' \<and> cl_processed c' = length pkts"
  using assms
proof (induction "length pkts - cl_processed c" arbitrary: c)
  case 0
  then have "cl_processed c = length pkts" by (simp add: client_inv_def)
  with 0 show ?case by blast
next
  case (Suc n)
  then obtain c1 where c1: "(client_step conf)\<^sup>*\<^sup>* (w, c) (w, c1)" "cl_replied c1" "client_inv conf f ip pkts c1"
    "cl_processed c1 = Suc (cl_processed c)"
    using forward_once[of conf f ip pkts c w] by fastforce
  then have "n = length pkts - cl_processed c1" using Suc.hyps(2) by simp
  then show ?case using Suc.hyps(1)[of c1] c1(1-3) by (meson rtranclp_trans)
qed

lemma collect_all:
  assumes "client_ok conf ip" and "\<not> cycl_policy conf" and "client_inv conf f ip pkts c" and "cl_replied c" and "length pkts + length ms \<le> packetCnt conf"
    and "w_queues w ip f = ms" and "\<And>m. m \<in> set ms \<Longrightarrow> length m = packetSize conf"
  shows "\<exists>w' c'. (client_step conf)\<^sup>*\<^sup>* (w, c) (w', c') \<and> cl_replied c' \<and> client_inv conf f ip (pkts @ ms) c'"
  using assms(3-)
proof (induction ms arbitrary: w c pkts)
  case Nil
  then show ?case by auto
next
  case (Cons m ms)
  have "length pkts < packetCnt conf" "length m = packetSize conf" using Cons.prems by auto
  then obtain w1 c1 where c1: "pipe_collect conf w c = Inr (w1, c1)" "cl_replied c1" "client_inv conf f ip (pkts @ [m]) c1"
    "w_queues w1 ip f = ms"
    by (rule client_collect_ok[OF assms(1) Cons.prems(1,2) _ Cons.prems(4)]) (use that in simp_all)
  have "client_step conf (w, c) (w1, c1)"
    using c1(1) \<open>length pkts < packetCnt conf\<close> Cons.prems(1,2) assms(2)
    by (intro client_step.Collector collector_step.Collect) (simp_all add: client_inv_def)
  moreover obtain w2 c2 where "(client_step conf)\<^sup>*\<^sup>* (w1, c1) (w2, c2)" "cl_replied c2" "client_inv conf f ip ((pkts @ [m]) @ ms) c2"
    using Cons.IH[OF c1(3,2) _ c1(4)] Cons.prems by auto
  ultimately show ?case by (auto intro: converse_rtranclp_into_rtranclp)
qed

lemma client_can_finish:
  assumes ok: "client_ok conf ip" and inv: "client_inv conf f ip pkts c" and len: "length pkts + length (w_queues w ip f) = packetCnt conf"
    and size: "\<And>m. m \<in> set (w_queues w ip f) \<Longrightarrow> length m = packetSize conf"
    and reply: "\<not> cl_replied c \<Longrightarrow> w_queues w (coordinatorIP conf) f = put_word ip # ms"
  shows "\<exists>w' c'. (client_step conf)\<^sup>*\<^sup>* (w, c) (w', c') \<and> client_done conf c'"
proof -
  have pol: "\<not> cycl_policy conf" and ne: "ip \<noteq> coordinatorIP conf" using ok by (auto simp: client_ok_def)
  have "\<exists>w1 c1. (client_step conf)\<^sup>*\<^sup>* (w, c) (w1, c1) \<and> cl_replied c1 \<and> client_inv conf f ip pkts c1 \<and>
      w_queues w1 ip f = w_queues w ip f"
  proof (cases "cl_replied c")
    case True
    then show ?thesis using inv by blast
  next
    case False
    obtain w1 c1 where c1: "client_reply conf w c = Inr (w1, c1)" "cl_replied c1" "client_inv conf f ip [] c1"
      "w_queues w1 ip f = w_queues w ip f"
      using client_reply_ok[OF ok inv False reply[OF False]] ne by (metis (no_types, lifting))
    moreover have "client_step conf (w, c) (w1, c1)" using False c1(1) by (rule client_step.Reply)
    moreover have "pkts = []" using inv False by (simp add: client_inv_def)
    ultimately show ?thesis by blast
  qed
  then obtain w1 c1 where run1: "(client_step conf)\<^sup>*\<^sup>* (w, c) (w1, c1)" and c1: "cl_replied c1" "client_inv conf f ip pkts c1"
    and q: "w_queues w1 ip f = w_queues w ip f" by blast
  obtain w2 c2 where run2: "(client_step conf)\<^sup>*\<^sup>* (w1, c1) (w2, c2)" and c2: "cl_replied c2" "client_inv conf f ip (pkts @ w_queues w ip f) c2"
    using collect_all[OF ok pol c1(2,1) _ q size] len by auto
  obtain c3 where run3: "(client_step conf)\<^sup>*\<^sup>* (w2, c2) (w2, c3)" and "cl_replied c3" "client_inv conf f ip (pkts @ w_queues w ip f) c3"
    "cl_processed c3 = length (pkts @ w_queues w ip f)"
    using forward_all[OF c2(2,1)] by blast
  then have "client_done conf c3" using len pol by (simp add: client_done_def client_inv_def)
  then show ?thesis using run1 run2 run3 by (meson rtranclp_trans)
qed

text \<open>The client's view of the cluster is that of the coordinator.\<close>

definition same_cluster :: "repair_config \<Rightarrow> repair_config \<Rightarrow> bool" where
  "same_cluster conf client \<longleftrightarrow> coordinatorIP client = coordinatorIP conf \<and> helpersIPs client = helpersIPs conf \<and>
     packetCnt client = packetCnt conf \<and> packetSize client = packetSize conf \<and> pipe_policy client \<and> \<not> cycl_policy client"

lemma client_okI:
  assumes "same_cluster conf client" and "sorted_wrt (<) (helpersIPs conf)" and "ip \<in> set (helpersIPs conf)" and "ip \<noteq> coordinatorIP conf"
  shows "client_ok client ip"
  using assms by (auto simp: same_cluster_def client_ok_def)

text \<open>The packets of a block, put together again.\<close>

lemma concat_pkts:
  assumes "b + n * s \<le> length xs"
  shows "concat (map (\<lambda>j. take s (drop (b + j * s) xs)) [0..<n]) = take (n * s) (drop b xs)"
  using assms
proof (induction n)
  case (Suc n)
  then have "concat (map (\<lambda>j. take s (drop (b + j * s) xs)) [0..<n]) = take (n * s) (drop b xs)" by simp
  moreover have "take (n * s + s) (drop b xs) = take (n * s) (drop b xs) @ take s (drop (n * s) (drop b xs))"
    by (rule take_add)
  ultimately show ?case by (simp add: add.commute)
qed simp

section \<open>The interface to the nodes\<close>

locale packet_source =
  fixes step :: "world \<times> 'n \<Rightarrow> world \<times> 'n \<Rightarrow> bool"
    and works_for :: "string \<Rightarrow> 'n \<Rightarrow> bool"
  assumes works_step: "step (w, ps) (w', ps') \<Longrightarrow> works_for f ps \<Longrightarrow> works_for f ps'"
    and step_pushes: "step (w, ps) (w', ps') \<Longrightarrow> works_for f ps \<Longrightarrow>
      \<exists>N. (\<forall>ip. w_queues w' ip f = w_queues w ip f @ N ip) \<and>
        (\<forall>Q. step (with_key f Q w, ps) (with_key f (\<lambda>ip. Q ip @ N ip) w', ps'))"
begin

text \<open>What has been taken from the lists \<open>f\<close>, put back in front of them.\<close>

definition restored :: "string \<Rightarrow> (ip_addr \<Rightarrow> byte list list) \<Rightarrow> world \<Rightarrow> world" where
  "restored f T w = with_key f (\<lambda>ip. T ip @ w_queues w ip f) w"

lemma restored_step:
  assumes "step (w, ps) (w', ps')" and "works_for f ps"
  shows "step (restored f T w, ps) (restored f T w', ps')"
proof -
  obtain N where N: "\<And>ip. w_queues w' ip f = w_queues w ip f @ N ip"
    "\<And>Q. step (with_key f Q w, ps) (with_key f (\<lambda>ip. Q ip @ N ip) w', ps')"
    using step_pushes[OF assms] by blast
  show ?thesis using N(2)[of "\<lambda>ip. T ip @ w_queues w ip f"] by (simp add: restored_def N(1))
qed

lemma unrestored_step:
  assumes "step (restored f T w, ps) (v, ps')" and "works_for f ps"
  shows "\<exists>w'. v = restored f T w' \<and> step (w, ps) (w', ps')"
proof -
  obtain N where N: "\<And>ip. w_queues v ip f = w_queues (restored f T w) ip f @ N ip"
    "\<And>Q. step (with_key f Q (restored f T w), ps) (with_key f (\<lambda>ip. Q ip @ N ip) v, ps')"
    using step_pushes[OF assms] by blast
  let ?w' = "with_key f (\<lambda>ip. w_queues w ip f @ N ip) v"
  have "with_key f (\<lambda>ip. w_queues w ip f) (restored f T w) = w"
    by (simp add: restored_def) (rule with_key_same, rule refl)
  then have "step (w, ps) (?w', ps')" using N(2)[of "\<lambda>ip. w_queues w ip f"] by simp
  moreover have "v = restored f T ?w'"
    unfolding restored_def with_key_twice by (rule with_key_same[symmetric]) (simp add: N(1) restored_def)
  ultimately show ?thesis by blast
qed

lemma works_steps: "step\<^sup>*\<^sup>* (w, ps) (w', ps') \<Longrightarrow> works_for f ps \<Longrightarrow> works_for f ps'"
  by (induction rule: rtranclp_induct2) (auto dest: works_step)

lemma unrestored_steps:
  assumes "step\<^sup>*\<^sup>* (restored f T w, ps) (v, ps')" and "works_for f ps"
  shows "\<exists>w'. v = restored f T w' \<and> step\<^sup>*\<^sup>* (w, ps) (w', ps')"
  using assms(1)
proof (induction rule: rtranclp_induct2)
  case refl
  then show ?case by blast
next
  case (step v1 ps1 v2 ps2)
  then obtain w1 where "v1 = restored f T w1" "step\<^sup>*\<^sup>* (w, ps) (w1, ps1)" by blast
  moreover have "works_for f ps1" using works_steps[OF \<open>step\<^sup>*\<^sup>* (w, ps) (w1, ps1)\<close> assms(2)] .
  ultimately show ?case using step(2) unrestored_step by (meson rtranclp.rtrancl_into_rtrancl)
qed

lemma steps_push:
  assumes "step\<^sup>*\<^sup>* (w, ps) (w', ps')" and "works_for f ps"
  shows "prefix (w_queues w ip f) (w_queues w' ip f)"
  using assms(1)
proof (induction rule: rtranclp_induct2)
  case (step w1 ps1 w2 ps2)
  then show ?case
    using step_pushes[OF step(2) works_steps[OF step(1) assms(2)]] by (metis prefix_prefix)
qed simp

subsection \<open>The client gets the packets\<close>

text \<open>
  Putting back what the client has taken gives a state the nodes reach without it.
\<close>

definition taken :: "repair_config \<Rightarrow> ip_addr \<Rightarrow> client \<Rightarrow> byte list list \<Rightarrow> ip_addr \<Rightarrow> byte list list" where
  "taken conf ip c pkts i =
     (if i = coordinatorIP conf then (if cl_replied c then [put_word ip] else []) else if i = ip then pkts else [])"

definition serve_inv :: "repair_config \<Rightarrow> string \<Rightarrow> ip_addr \<Rightarrow> world \<times> 'n \<Rightarrow> byte list list \<Rightarrow> world \<times> 'n \<times> client \<Rightarrow> bool" where
  "serve_inv conf f ip st pkts s \<longleftrightarrow> (case s of (w, ps, c) \<Rightarrow>
     works_for f ps \<and> client_inv conf f ip pkts c \<and> step\<^sup>*\<^sup>* st (restored f (taken conf ip c pkts) w, ps))"

lemma serve_inv_queues:
  assumes inv: "serve_inv conf f ip st pkts (w, ps, c)" and ok: "client_ok conf ip" and st: "works_for f (snd st)"
    and reply: "w_queues (fst st) (coordinatorIP conf) f = [put_word ip]"
    and del: "delivers step ready ip f lost st"
  shows "\<not> cl_replied c \<Longrightarrow> \<exists>ms. w_queues w (coordinatorIP conf) f = put_word ip # ms"
    and "prefix (pkts @ w_queues w ip f) lost"
proof -
  have run: "step\<^sup>*\<^sup>* st (restored f (taken conf ip c pkts) w, ps)" using inv by (simp add: serve_inv_def)
  have "step\<^sup>*\<^sup>* (fst st, snd st) (restored f (taken conf ip c pkts) w, ps)" using run by simp
  then have "prefix [put_word ip] (w_queues (restored f (taken conf ip c pkts) w) (coordinatorIP conf) f)"
    using steps_push[OF _ st] reply by metis
  then show "\<not> cl_replied c \<Longrightarrow> \<exists>ms. w_queues w (coordinatorIP conf) f = put_word ip # ms"
    by (auto simp: restored_def taken_def prefix_def)
  have "pkts @ w_queues w ip f = w_queues (restored f (taken conf ip c pkts) w) ip f"
    using ok by (auto simp: restored_def taken_def client_ok_def)
  then show "prefix (pkts @ w_queues w ip f) lost"
    using del run unfolding delivers_def by (metis take_is_prefix)
qed

lemma serve_inv_step:
  assumes "serve_step step conf (w, ps, c) (w', ps', c')" and inv: "serve_inv conf f ip st pkts (w, ps, c)"
    and ok: "client_ok conf ip" and st: "works_for f (snd st)"
    and reply: "w_queues (fst st) (coordinatorIP conf) f = [put_word ip]"
    and del: "delivers step ready ip f lost st" and size: "\<And>m. m \<in> set lost \<Longrightarrow> length m = packetSize conf"
  shows "\<exists>pkts'. serve_inv conf f ip st pkts' (w', ps', c')"
  using assms(1)
proof cases
  case Nodes
  then show ?thesis
    using inv works_step restored_step unfolding serve_inv_def prod.case by (meson rtranclp.rtrancl_into_rtrancl)
next
  case Client
  have c: "client_inv conf f ip pkts c" and works: "works_for f ps"
    and run: "step\<^sup>*\<^sup>* st (restored f (taken conf ip c pkts) w, ps)" using inv by (simp_all add: serve_inv_def)
  have ne: "ip \<noteq> coordinatorIP conf" using ok by (auto simp: client_ok_def)
  obtain ms where head: "\<not> cl_replied c \<Longrightarrow> w_queues w (coordinatorIP conf) f = put_word ip # ms"
    using serve_inv_queues(1)[OF inv ok st reply del] by blast
  have "length m = packetSize conf" if "m \<in> set (w_queues w ip f)" for m
    using serve_inv_queues(2)[OF inv ok st reply del] that size by (auto simp: prefix_def)
  note cases = client_step_cases[OF \<open>client_step conf (w, c) (w', c')\<close> ok c head this]
  have same: "serve_inv conf f ip st pkts' (w', ps', c')"
    if "client_inv conf f ip pkts' c'" "restored f (taken conf ip c' pkts') w' = restored f (taken conf ip c pkts) w" for pkts'
    using that run works \<open>ps' = ps\<close> by (simp add: serve_inv_def)
  show ?thesis
  proof (rule cases, assumption)
    assume "\<not> cl_replied c" "cl_replied c'" "client_inv conf f ip [] c'" "w_files w' = w_files w"
      "w_queues w' = (\<lambda>i k. if i = coordinatorIP conf \<and> k = f then ms else w_queues w i k)"
    moreover from this have "pkts = []" using c by (simp add: client_inv_def)
    ultimately show ?thesis using head ne
      by (intro exI same) (auto simp: restored_def with_key_def taken_def fun_eq_iff intro!: world.equality)
  next
    fix m rest
    assume "cl_replied c" "cl_replied c'" "w_queues w ip f = m # rest" "client_inv conf f ip (pkts @ [m]) c'"
      "w_files w' = w_files w" "w_queues w' = (\<lambda>i k. if i = ip \<and> k = f then rest else w_queues w i k)"
    then show ?thesis using ne
      by (intro exI same) (auto simp: restored_def with_key_def taken_def fun_eq_iff intro!: world.equality)
  next
    assume "cl_replied c" "cl_replied c'" "client_inv conf f ip pkts c'" "w' = w"
    then show ?thesis by (intro exI same) (auto simp: taken_def restored_def)
  qed
qed

lemma client_steps_serve:
  "(client_step conf)\<^sup>*\<^sup>* (w, c) (w', c') \<Longrightarrow> (serve_step step conf)\<^sup>*\<^sup>* (w, ps, c) (w', ps, c')"
  by (induction rule: rtranclp_induct2) (auto intro: rtranclp.rtrancl_into_rtrancl serve_step.Client)

lemma node_steps_serve:
  "step\<^sup>*\<^sup>* (w, ps) (w', ps') \<Longrightarrow> (serve_step step conf)\<^sup>*\<^sup>* (w, ps, c) (w', ps', c)"
  by (induction rule: rtranclp_induct2) (auto intro: rtranclp.rtrancl_into_rtrancl serve_step.Nodes)

text \<open>The nodes first, then the client.\<close>

lemma serve_can_finish:
  assumes inv: "serve_inv conf f ip st pkts (w, ps, c)" and ok: "client_ok conf ip" and st: "works_for f (snd st)"
    and reply: "w_queues (fst st) (coordinatorIP conf) f = [put_word ip]"
    and del: "delivers step ready ip f lost st" and size: "\<And>m. m \<in> set lost \<Longrightarrow> length m = packetSize conf"
    and cnt: "length lost = packetCnt conf"
  shows "\<exists>w' ps' c'. (serve_step step conf)\<^sup>*\<^sup>* (w, ps, c) (w', ps', c') \<and> client_done conf c'"
proof -
  let ?T = "taken conf ip c pkts"
  have c: "client_inv conf f ip pkts c" and works: "works_for f ps" and run: "step\<^sup>*\<^sup>* st (restored f ?T w, ps)"
    using inv by (simp_all add: serve_inv_def)
  obtain v ps' where v: "step\<^sup>*\<^sup>* (restored f ?T w, ps) (v, ps')" "ready ps'"
    using del run unfolding delivers_def by blast
  then have "w_queues v ip f = lost" using del run unfolding delivers_def by (meson rtranclp_trans)
  moreover obtain w1 where w1: "v = restored f ?T w1" "step\<^sup>*\<^sup>* (w, ps) (w1, ps')"
    using unrestored_steps[OF v(1) works] by blast
  ultimately have all: "pkts @ w_queues w1 ip f = lost" using ok by (auto simp: restored_def taken_def client_ok_def)
  have "serve_inv conf f ip st pkts (w1, ps', c)"
    using c works_steps[OF w1(2) works] rtranclp_trans[OF run v(1)] w1(1) by (simp add: serve_inv_def)
  note head = serve_inv_queues(1)[OF this ok st reply del]
  have "\<exists>ms. \<not> cl_replied c \<longrightarrow> w_queues w1 (coordinatorIP conf) f = put_word ip # ms" using head by blast
  then obtain w2 c2 where "(client_step conf)\<^sup>*\<^sup>* (w1, c) (w2, c2)" "client_done conf c2"
    using client_can_finish[OF ok c] all cnt size by (metis UnCI length_append set_append)
  then show ?thesis using node_steps_serve[OF w1(2)] client_steps_serve by (meson rtranclp_trans)
qed

lemma client_served:
  assumes ok: "client_ok conf ip" and st: "works_for f (snd st)"
    and reply: "w_queues (fst st) (coordinatorIP conf) f = [put_word ip]"
    and del: "delivers step ready ip f lost st" and size: "\<And>m. m \<in> set lost \<Longrightarrow> length m = packetSize conf"
    and cnt: "length lost = packetCnt conf"
  shows "served step conf f (concat lost) st"
proof -
  obtain c0 where c0: "client_init conf [f] = Inr c0" "\<not> cl_replied c0" using client_init_single[of conf f] by blast
  have init: "serve_inv conf f ip st [] (fst st, snd st, c0)"
  proof -
    have "restored f (taken conf ip c0 []) (fst st) = fst st"
      unfolding restored_def using c0(2) by (intro with_key_same) (simp add: taken_def)
    then show ?thesis using client_inv_init[OF c0(1)] st by (simp add: serve_inv_def)
  qed
  have reach: "\<exists>pkts. serve_inv conf f ip st pkts (w, ps, c)"
    if "(serve_step step conf)\<^sup>*\<^sup>* (fst st, snd st, c0) (w, ps, c)" for w ps c
    using that
  proof (induction "(w, ps, c)" arbitrary: w ps c rule: rtranclp_induct)
    case base
    then show ?case using init by blast
  next
    case (step s)
    obtain w1 ps1 c1 where s: "s = (w1, ps1, c1)" by (cases s)
    then obtain pkts where "serve_inv conf f ip st pkts (w1, ps1, c1)" using step(3) by blast
    then show ?case using serve_inv_step[OF step(2)[unfolded s] _ ok st reply del size] by blast
  qed
  have "prefix (cl_out c) (concat lost) \<and> (client_done conf c \<longrightarrow> cl_out c = concat lost)"
    if inv: "serve_inv conf f ip st pkts (w, ps, c)" for w ps c pkts
  proof -
    have c: "client_inv conf f ip pkts c" using inv by (simp add: serve_inv_def)
    have "prefix pkts lost" using serve_inv_queues(2)[OF inv ok st reply del] by (meson append_prefixD)
    moreover from this have "client_done conf c \<Longrightarrow> pkts = lost"
      using c cnt ok by (auto simp: client_done_def client_inv_def client_ok_def prefix_def)
    moreover have "prefix (cl_out c) (concat pkts)"
    proof (cases "cl_replied c")
      case True
      then have "cl_out c = concat (take (cl_processed c) pkts)" using c by (simp add: client_inv_def)
      then show ?thesis by (metis append_take_drop_id concat_append prefixI)
    next
      case False
      then show ?thesis using c client_init_single[of conf f] by (auto simp: client_inv_def)
    qed
    moreover have "client_done conf c \<Longrightarrow> cl_out c = concat pkts"
      using c cnt ok by (auto simp: client_done_def client_inv_def client_ok_def)
    ultimately show ?thesis by (auto simp: prefix_def)
  qed
  then show ?thesis
    unfolding served_def using c0(1) reach serve_can_finish[OF _ ok st reply del size cnt] by blast
qed

text \<open>The packets of a block that starts at byte \<open>b\<close>.\<close>

lemma client_served_block:
  assumes "client_ok conf ip" and "works_for f (snd st)" and "w_queues (fst st) (coordinatorIP conf) f = [put_word ip]"
    and del: "delivers step ready ip f (map (\<lambda>j. take (packetSize conf) (drop (b + j * packetSize conf) lost)) [0..<packetCnt conf]) st"
    and len: "b + packetCnt conf * packetSize conf \<le> length lost"
  shows "served step conf f (take (packetCnt conf * packetSize conf) (drop b lost)) st"
proof -
  have "length (take (packetSize conf) (drop (b + j * packetSize conf) lost)) = packetSize conf" if "j < packetCnt conf" for j
  proof -
    have "Suc j * packetSize conf \<le> packetCnt conf * packetSize conf" using that by (intro mult_le_mono1) simp
    then show ?thesis using len by simp
  qed
  then have "served step conf f (concat (map (\<lambda>j. take (packetSize conf) (drop (b + j * packetSize conf) lost)) [0..<packetCnt conf])) st"
    by (intro client_served[OF assms(1-3) del]) auto
  then show ?thesis unfolding concat_pkts[OF len] .
qed

end

end
