(* ===== verification/Pipe_Serve.thy ===== *)
theory Pipe_Serve
  imports Pipe_Worker Client_Serve
begin

text \<open>The helpers of a pipelined repair as a source of packets for the client.\<close>

definition pipe_for :: "string \<Rightarrow> pipe_worker list \<Rightarrow> bool" where
  "pipe_for f ps \<longleftrightarrow> list_all (\<lambda>p. pj_lostBlkName (pw_job p) = f) ps"

lemma tmp_key_neq [simp]: "tmp_key f \<noteq> f"
  by (simp add: tmp_key_def)

lemma pipe_read_key: "pipe_read G E conf (with_key f Q w) p = pipe_read G E conf w p"
  by (simp add: pipe_read_def)

lemma pipe_pull_key:
  assumes "pipe_pull conf w p = Inr (w', p')" and "pj_lostBlkName (pw_job p) = f"
  shows "w_queues w' ip f = w_queues w ip f" and "pipe_pull conf (with_key f Q w) p = Inr (with_key f Q w', p')"
    and "pw_job p' = pw_job p"
  using assms blpop_other_key[of "tmp_key f" f]
  by (auto simp: pipe_pull_def blpop_with_key res_simps split: if_splits option.splits)

lemma pipe_push_key:
  assumes "pipe_push conf w p = Inr (w', p')"
  shows "\<exists>N. (\<forall>ip. w_queues w' ip f = w_queues w ip f @ N ip) \<and>
      (\<forall>Q. pipe_push conf (with_key f Q w) p = Inr (with_key f (\<lambda>ip. Q ip @ N ip) w', p'))"
    and "pw_job p' = pw_job p"
proof -
  obtain msg where "w' = rpush (pw_ip p) (send_key (pw_job p)) msg w"
    "\<And>v. pipe_push conf v p = Inr (rpush (pw_ip p) (send_key (pw_job p)) msg v, p')"
    using assms by (auto simp: pipe_push_def res_simps)
  then show "\<exists>N. (\<forall>ip. w_queues w' ip f = w_queues w ip f @ N ip) \<and>
      (\<forall>Q. pipe_push conf (with_key f Q w) p = Inr (with_key f (\<lambda>ip. Q ip @ N ip) w', p'))"
    by (rule push_key)
  show "pw_job p' = pw_job p" using assms by (auto simp: pipe_push_def res_simps)
qed

lemma worker_step_key:
  assumes "worker_step G E conf (w, p) (w', p')" and "pj_lostBlkName (pw_job p) = f"
  shows "\<exists>N. (\<forall>ip. w_queues w' ip f = w_queues w ip f @ N ip) \<and>
      (\<forall>Q. worker_step G E conf (with_key f Q w, p) (with_key f (\<lambda>ip. Q ip @ N ip) w', p'))"
    and "pw_job p' = pw_job p"
proof -
  have quiet: "\<exists>N. (\<forall>ip. w_queues w' ip f = w_queues w ip f @ N ip) \<and>
      (\<forall>Q. worker_step G E conf (with_key f Q w, p) (with_key f (\<lambda>ip. Q ip @ N ip) w', p'))"
    if "\<And>Q. worker_step G E conf (with_key f Q w, p) (with_key f Q w', p')" "\<And>ip. w_queues w' ip f = w_queues w ip f"
    using that by (intro exI[of _ "\<lambda>_. []"]) simp
  have idle: "\<exists>N. (\<forall>ip. w_queues w ip f = w_queues w ip f @ N ip) \<and>
      (\<forall>Q. worker_step G E conf (with_key f Q w, p) (with_key f (\<lambda>ip. Q ip @ N ip) w, p1))"
    if "\<And>v. worker_step G E conf (v, p) (v, p1)" for p1
    using that by (intro exI[of _ "\<lambda>_. []"]) simp
  show "\<exists>N. (\<forall>ip. w_queues w' ip f = w_queues w ip f @ N ip) \<and>
      (\<forall>Q. worker_step G E conf (with_key f Q w, p) (with_key f (\<lambda>ip. Q ip @ N ip) w', p'))"
    using assms(1)
  proof cases
    case Push
    obtain N where "\<And>ip. w_queues w' ip f = w_queues w ip f @ N ip"
      "\<And>Q. pipe_push conf (with_key f Q w) p = Inr (with_key f (\<lambda>ip. Q ip @ N ip) w', p')"
      using pipe_push_key(1)[OF Push(2), of f] by blast
    then show ?thesis using worker_step.Push[OF Push(1)] by (intro exI[of _ N]) blast
  next
    case Pull
    note pull = pipe_pull_key[OF Pull(2) assms(2)]
    show ?thesis by (rule quiet, rule worker_step.Pull[OF Pull(1)], rule pull(2), rule pull(1))
  next
    case Read
    then show ?thesis by (intro quiet) (simp_all add: worker_step.Read pipe_read_key)
  next
    case Main_Check
    show ?thesis unfolding Main_Check(1,2) by (rule idle, rule worker_step.Main_Check[OF Main_Check(3,4)])
  next
    case Main_Sleep
    show ?thesis unfolding Main_Sleep(1,2) by (rule idle, rule worker_step.Main_Sleep[OF Main_Sleep(3)])
  next
    case Notify
    show ?thesis unfolding Notify(1,2) by (rule idle, rule worker_step.Notify[OF Notify(3)])
  next
    case Send_Check
    show ?thesis unfolding Send_Check(1,2) by (rule idle, rule worker_step.Send_Check[OF Send_Check(3,4)])
  next
    case Send_Sleep
    show ?thesis unfolding Send_Sleep(1,2) by (rule idle, rule worker_step.Send_Sleep[OF Send_Sleep(3)])
  qed
  show "pw_job p' = pw_job p"
    using assms(1)
    by cases (auto simp: pipe_read_def res_simps pipe_notify_def pipe_pull_key(3)[OF _ refl] pipe_push_key(2) Let_def split: option.splits)
qed

interpretation pipe_src: packet_source "pipe_step G E conf" pipe_for for G E conf
proof
  fix w ps w' ps' f
  assume step: "pipe_step G E conf (w, ps) (w', ps')" and works: "pipe_for f ps"
  show "pipe_for f ps'"
    using step
  proof cases
    case (Work h p')
    then show ?thesis using works worker_step_key(2)[of G E conf w "ps ! h" w' p' f] by (auto simp: pipe_for_def list_all_length nth_list_update)
  next
    case (Wake h p')
    then show ?thesis using works by (auto simp: pipe_for_def list_all_length nth_list_update elim: spurious.cases)
  qed
  show "\<exists>N. (\<forall>ip. w_queues w' ip f = w_queues w ip f @ N ip) \<and>
      (\<forall>Q. pipe_step G E conf (with_key f Q w, ps) (with_key f (\<lambda>ip. Q ip @ N ip) w', ps'))"
    using step
  proof cases
    case (Work h p')
    have "pj_lostBlkName (pw_job (ps ! h)) = f" using works Work(2) by (simp add: pipe_for_def list_all_length)
    then obtain N where "\<And>ip. w_queues w' ip f = w_queues w ip f @ N ip"
      "\<And>Q. worker_step G E conf (with_key f Q w, ps ! h) (with_key f (\<lambda>ip. Q ip @ N ip) w', p')"
      using worker_step_key(1)[OF Work(3)] by blast
    then show ?thesis using pipe_step.Work[OF Work(2)] unfolding Work(1) by (intro exI[of _ N]) blast
  next
    case (Wake h p')
    then show ?thesis using pipe_step.Wake by (intro exI[of _ "\<lambda>_. []"]) simp
  qed
qed

end
