(* ===== verification/Pipe_Repair.thy ===== *)
theory Pipe_Repair
  imports Pipe_Coordinator Pipe_Chain Pipe_Serve
begin

text \<open>
  The pipelined repair of one block from the request to the repaired packets: the commands of the
  coordinator (\<open>PipeCoordinator.cc\<close>) start a chain of helpers (\<open>PipeDRWorker.cc\<close>), and what the
  last helper of the chain hands to the client (\<open>ECPipeInputStream.cc\<close>) is the lost block.
\<close>

section \<open>Commands are read back\<close>

lemma take_bit_small: "0 \<le> x \<Longrightarrow> x < 65536 \<Longrightarrow> take_bit 16 (word_of_int x :: 32 word) = word_of_int x"
  by (rule word_uint_eqI) (simp add: unsigned_take_bit_eq uint_word_of_int take_bit_int_eq_self)

lemma packed_fields:
  fixes c l :: "32 word"
  shows "drop_bit 16 (push_bit 16 (take_bit 16 c) OR take_bit 16 l) = take_bit 16 c"
    and "(push_bit 16 (take_bit 16 c) OR take_bit 16 l) AND mask 16 = take_bit 16 l"
  by (rule bit_word_eqI; auto simp: bit_simps)+

lemma packed_coef:
  assumes "0 \<le> c" and "c < 65536" and "0 \<le> l" and "l < 65536"
    and v: "v = (push_bit 16 (word_of_int c) OR word_of_int l :: 32 word)"
  shows "uint (drop_bit 16 v) = c" and "uint (v AND 0xffff) = l"
proof -
  have mask: "(0xffff :: 32 word) = mask 16" by (simp add: mask_eq_exp_minus_1)
  have "drop_bit 16 v = word_of_int c" "v AND 0xffff = word_of_int l"
    using packed_fields[of "word_of_int c" "word_of_int l"] assms(1-4)
    by (simp_all only: take_bit_small v mask)
  then show "uint (drop_bit 16 v) = c" "uint (v AND 0xffff) = l"
    using assms(1-4) by (simp_all add: uint_word_of_int take_bit_int_eq_self)
qed

lemma parse_pipe_cmd_eq:
  assumes cmd: "pipe_cmd idx k requestorIP prevIP nextIP ident coef f l = Inr cmd"
    and "int32 k" and "int32 ident" and "0 \<le> coef" and "coef < 256"
  shows "parse_pipe_cmd (drop 4 cmd) = Inr \<lparr>pj_ecK = k, pj_requestorIP = requestorIP, pj_prevIP = prevIP,
    pj_nextIP = nextIP, pj_id = ident, pj_coefficient = coef, pj_lostBlkName = f, pj_localBlkName = l\<rparr>"
proof -
  define v :: "32 word" where "v = push_bit 16 (word_of_int coef) OR word_of_int (int (length f))"
  define c where "c = drop 4 cmd"
  have c: "c = put_int k @ put_word requestorIP @ put_word prevIP @ put_word nextIP @ put_int ident @ put_word v @
      bytes_of f @ put_int (int (length l)) @ bytes_of l"
    and fits: "length f + length l \<le> 1024"
    using cmd by (auto simp: pipe_cmd_def Let_def res_simps COMMAND_MAX_LENGTH_def c_def v_def)
  have lens: "int32 (int (length l))" "length f < 65536" using fits by auto
  have coef: "uint (drop_bit 16 v) = coef" "uint (v AND 0xffff) = int (length f)"
    using packed_coef[OF assms(4) _ _ _ v_def] assms(5) lens(2) by simp_all
  have "get_int c 0 = Inr k"
    using get_int_append[of 0 "[]" k] assms(2) by (simp add: c)
  moreover have "get_word c 4 = Inr requestorIP"
    using get_word_append[of 4 "put_int k"] by (simp add: c)
  moreover have "get_word c 8 = Inr prevIP"
    using get_word_append[of 8 "put_int k @ put_word requestorIP"] by (simp add: c)
  moreover have "get_word c 12 = Inr nextIP"
    using get_word_append[of 12 "put_int k @ put_word requestorIP @ put_word prevIP"] by (simp add: c)
  moreover have "get_int c 16 = Inr ident"
    using get_int_append[of 16 "put_int k @ put_word requestorIP @ put_word prevIP @ put_word nextIP"] assms(3)
    by (simp add: c)
  moreover have "get_word c 20 = Inr v"
    using get_word_append[of 20 "put_int k @ put_word requestorIP @ put_word prevIP @ put_word nextIP @ put_int ident"]
    by (simp add: c)
  moreover define pre where "pre = put_int k @ put_word requestorIP @ put_word prevIP @ put_word nextIP @ put_int ident @ put_word v"
  have pre: "length pre = 24" "c = pre @ bytes_of f @ put_int (int (length l)) @ bytes_of l"
    by (simp_all add: pre_def c)
  have "get_name c 24 (int (length f)) = Inr f"
    using get_name_append[of 24 pre] pre by simp
  moreover have "get_word c (24 + int (length f)) = Inr (word_of_int (int (length l)))"
    using get_int_append[of "24 + int (length f)" "pre @ bytes_of f" "int (length l)" "bytes_of l"] pre lens(1)
    by (simp add: get_word_def)
  moreover have "get_name c (28 + int (length f)) (int (length l)) = Inr l"
    using get_name_append[of "28 + int (length f)" "pre @ bytes_of f @ put_int (int (length l))" "int (length l)" l "[]"] pre
    by simp
  moreover have "uint (word_of_int (int (length l)) :: 32 word) = int (length l)"
    using lens(1) by (simp only: uint_word_of_int) (simp add: take_bit_int_eq_self)
  ultimately show ?thesis
    by (simp add: parse_pipe_cmd_def coef Let_def flip: c_def)
qed

section \<open>The commands of a chain\<close>

text \<open>
  A stripe of fewer than 256 helpers in the order of the chain, the requestor not among them, every
  helper in the sorted context list, names that fit a command, coefficients of one byte.
\<close>

definition chain_stripe ::
    "repair_config \<Rightarrow> (ip_addr \<times> string) list \<Rightarrow> ip_addr \<Rightarrow> string \<Rightarrow> (ip_addr \<times> string) list \<Rightarrow> bool" where
  "chain_stripe conf ip2Ctx requestorIP f stripe \<longleftrightarrow>
     sorted_wrt (<) (map fst ip2Ctx) \<and> length ip2Ctx < 2 ^ 31 \<and> ctx_ok conf ip2Ctx \<and>
     map fst ip2Ctx = helpersIPs conf \<and>
     stripe \<noteq> [] \<and> length stripe < 256 \<and> distinct (map fst stripe) \<and>
     fst ` set stripe \<subseteq> set (helpersIPs conf) - {requestorIP} \<and>
     (\<forall>b \<in> snd ` set stripe. length f + length b \<le> 992)"

lemma and_0xff: "k < 256 \<Longrightarrow> int k AND 0xff = int k"
proof -
  assume "k < 256"
  moreover have "(0xff :: int) = mask 8" by (simp add: mask_eq_exp_minus_1)
  ultimately show ?thesis
    by (simp only: flip: take_bit_eq_mask) (simp add: take_bit_int_eq_self)
qed

lemma take_bit_and_exp: "take_bit m (x :: int) AND 2 ^ m = 0"
  by (rule bit_eqI) (simp add: bit_simps)

lemma and_0x100: "k < 256 \<Longrightarrow> int k AND 0x100 = 0"
proof -
  assume "k < 256"
  then have "take_bit 8 (int k) = int k" by (simp add: take_bit_int_eq_self)
  then show ?thesis using take_bit_and_exp[of 8 "int k"] by simp
qed

text \<open>The helper before and behind helper \<open>h\<close>; the chain is closed to a ring.\<close>

definition prev_of :: "nat \<Rightarrow> nat \<Rightarrow> nat" where
  "prev_of k h = (if h = 0 then k - 1 else h - 1)"

definition next_of :: "nat \<Rightarrow> nat \<Rightarrow> nat" where
  "next_of k h = (if Suc h = k then 0 else Suc h)"

lemma helper_cmd_eq:
  assumes "chain_stripe conf ip2Ctx requestorIP f stripe" and k: "k = length stripe" "h < k"
  shows "\<exists>c. helper_cmd ip2Ctx requestorIP f coef stripe (int k) h =
      Inr (snd (ip2Ctx ! ctx_idx ip2Ctx (fst (stripe ! h))), c) \<and>
    pipe_cmd (int (ctx_idx ip2Ctx (fst (stripe ! h)))) (int k) requestorIP (fst (stripe ! prev_of k h))
      (fst (stripe ! next_of k h)) (int h) (om_get0 coef (snd (stripe ! h))) f (snd (stripe ! h)) = Inr c"
proof -
  have mem: "stripe ! h \<in> set stripe" using k by simp
  moreover have "fst ` set ip2Ctx = set (helpersIPs conf)"
    using assms(1) unfolding chain_stripe_def by (metis set_map)
  ultimately have ip: "fst (stripe ! h) \<in> fst ` set ip2Ctx" and fits: "length f + length (snd (stripe ! h)) \<le> 992"
    using assms(1) by (auto simp: chain_stripe_def)
  then obtain c where c: "pipe_cmd (int (ctx_idx ip2Ctx (fst (stripe ! h)))) (int k) requestorIP
      (fst (stripe ! prev_of k h)) (fst (stripe ! next_of k h)) (int h) (om_get0 coef (snd (stripe ! h))) f
      (snd (stripe ! h)) = Inr c"
    by (simp add: pipe_cmd_def COMMAND_MAX_LENGTH_def Let_def)
  have prev: "atE stripe (if h = 0 then int k - 1 else int h - 1) = Inr (stripe ! prev_of k h)"
    using k by (cases h) (auto simp: prev_of_def of_nat_diff nat_diff_distrib')
  have nxt: "atE stripe (if int h = (int k AND 0xff) - 1 then 0 else int h + 1) = Inr (stripe ! next_of k h)"
    using k assms(1) by (auto simp: next_of_def and_0xff chain_stripe_def nat_add_distrib)
  have at: "atE stripe (int h) = Inr (stripe ! h)" using k by simp
  have ctx: "sorted_wrt (<) (map fst ip2Ctx)" "length ip2Ctx < 2 ^ 31"
    using assms(1) unfolding chain_stripe_def by blast+
  have "helper_cmd ip2Ctx requestorIP f coef stripe (int k) h =
      Inr (snd (ip2Ctx ! ctx_idx ip2Ctx (fst (stripe ! h))), c)"
    by (simp only: helper_cmd_def at prev nxt c bindE_Inr case_prod_beta queue_cmd_eq[OF ctx ip])
  with c show ?thesis by blast
qed

section \<open>The chain starts\<close>

definition chain_worker ::
    "repair_config \<Rightarrow> ip_addr \<Rightarrow> string \<Rightarrow> (string, int) omap \<Rightarrow> (ip_addr \<times> string) list \<Rightarrow> nat \<Rightarrow> pipe_worker" where
  "chain_worker conf requestorIP f coef stripe h =
     (let k = length stripe
      in \<lparr>pw_ip = fst (stripe ! h),
          pw_job = \<lparr>pj_ecK = int k, pj_requestorIP = requestorIP, pj_prevIP = fst (stripe ! prev_of k h),
            pj_nextIP = fst (stripe ! next_of k h), pj_id = int h, pj_coefficient = om_get0 coef (snd (stripe ! h)),
            pj_lostBlkName = f, pj_localBlkName = snd (stripe ! h)\<rparr>,
          pw_prev = Some (fst (stripe ! prev_of k h)),
          pw_disk = replicate (packetCnt conf) (replicate (packetSize conf) 0),
          pw_read = 0, pw_main = 0, pw_mpc = MCheck, pw_toSend = 0, pw_sent = 0, pw_spc = SCheck\<rparr>)"

definition byte_coefs :: "(string, int) omap \<Rightarrow> (ip_addr \<times> string) list \<Rightarrow> bool" where
  "byte_coefs coef stripe \<longleftrightarrow> (\<forall>b \<in> snd ` set stripe. 0 \<le> om_get0 coef b \<and> om_get0 coef b < 256)"

lemma prev_of_less: "h < k \<Longrightarrow> prev_of k h < k"
  by (auto simp: prev_of_def)

lemma chain_worker_starts:
  assumes "chain_stripe conf ip2Ctx requestorIP f stripe" and "byte_coefs coef stripe"
    and h: "k = length stripe" "h < k"
    and cmd: "pipe_cmd idx (int k) requestorIP (fst (stripe ! prev_of k h)) (fst (stripe ! next_of k h)) (int h)
      (om_get0 coef (snd (stripe ! h))) f (snd (stripe ! h)) = Inr c"
  shows "pipe_start conf (fst (stripe ! h)) (drop 4 c) = Inr (chain_worker conf requestorIP f coef stripe h)"
proof -
  have "snd (stripe ! h) \<in> snd ` set stripe" "fst (stripe ! prev_of k h) \<in> fst ` set stripe"
    using h prev_of_less[of h k] by simp_all
  moreover from this have "fst (stripe ! prev_of k h) \<in> set (helpersIPs conf)"
    using assms(1) by (auto simp: chain_stripe_def)
  moreover have sorted: "sorted_wrt (<) (helpersIPs conf)" "int32 (int k)" "int32 (int h)"
    using assms(1) h by (auto simp: chain_stripe_def)
  moreover from this have "sort (helpersIPs conf) = helpersIPs conf"
    by (simp add: sorted_sort_id strict_sorted_iff)
  ultimately show ?thesis
    using parse_pipe_cmd_eq[OF cmd] assms(2) h findCtx_eq
    by (simp add: pipe_start_def byte_coefs_def chain_worker_def Let_def)
qed

text \<open>The blocks of the helpers, with room for all packets, and empty queues between them.\<close>

definition chain_world ::
    "repair_config \<Rightarrow> string \<Rightarrow> (ip_addr \<times> string) list \<Rightarrow> (string \<Rightarrow> byte list) \<Rightarrow> world \<Rightarrow> bool" where
  "chain_world conf f stripe content w \<longleftrightarrow>
     (\<forall>(ip, b) \<in> set stripe. w_files w ip b = Some (content b) \<and>
        pkt_base conf (packetCnt conf) \<le> length (content b) \<and>
        w_queues w ip f = [] \<and> w_queues w ip (tmp_key f) = [])"

definition chain_coefs :: "(string, int) omap \<Rightarrow> (ip_addr \<times> string) list \<Rightarrow> byte list" where
  "chain_coefs coef stripe = map (\<lambda>s. word_of_int (om_get0 coef (snd s))) stripe"

lemma length_chain_coefs [simp]: "length (chain_coefs coef stripe) = length stripe"
  by (simp add: chain_coefs_def)

lemma chain_starts:
  assumes "chain_stripe conf ip2Ctx requestorIP f stripe" and "byte_coefs coef stripe" and "packets_ok conf"
    and "chain_world conf f stripe content w"
  shows "chain_inv G conf f (chain_coefs coef stripe) (map (content \<circ> snd) stripe) (map fst stripe)
    (w, map (chain_worker conf requestorIP f coef stripe) [0..<length stripe])"
proof -
  let ?k = "length stripe" and ?w = "chain_worker conf requestorIP f coef stripe"
  have "helper_ok conf f (chain_coefs coef stripe) (map (content \<circ> snd) stripe) (map fst stripe) h w (?w h)"
    if h: "h < ?k" for h
  proof -
    have mem: "stripe ! h \<in> set stripe" using h by simp
    have "0 \<le> om_get0 coef (snd (stripe ! h))" "om_get0 coef (snd (stripe ! h)) < 256"
      using assms(2) mem by (auto simp: byte_coefs_def)
    then have "uint (chain_coefs coef stripe ! h) = om_get0 coef (snd (stripe ! h))"
      using h by (simp add: chain_coefs_def uint_word_of_int take_bit_int_eq_self)
    moreover have "w_files w (fst (stripe ! h)) (snd (stripe ! h)) = Some (content (snd (stripe ! h)))"
      "pkt_base conf (packetCnt conf) \<le> length (content (snd (stripe ! h)))"
      using assms(4) mem by (auto simp: chain_world_def case_prod_beta)
    moreover have "send_key (pw_job (?w h)) = (if Suc h = ?k then f else tmp_key f)"
    proof -
      have "?k < 256" using assms(1) by (simp add: chain_stripe_def)
      then have "int ?k AND 0x100 = 0"
        by (rule and_0x100)
      then show ?thesis
        using \<open>?k < 256\<close> by (auto simp: send_key_def chain_worker_def Let_def)
    qed
    ultimately show ?thesis
      using h assms(3) by (simp add: helper_ok_def chain_worker_def Let_def prev_of_def)
  qed
  moreover have "helper_inv G conf (chain_coefs coef stripe) (map (content \<circ> snd) stripe) h (?w h)" for h
    by (simp add: helper_inv_def counters_ok_def disk_ok_def chain_worker_def Let_def)
  moreover have "w_queues w (fst (stripe ! h)) (chain_key f (map fst stripe) h) = []" if "h < ?k" for h
    using assms(4) nth_mem[OF that] by (auto simp: chain_world_def chain_key_def case_prod_beta)
  moreover have "pw_sent (?w h) = 0" "pw_toSend (?w h) = 0" for h
    by (simp_all add: chain_worker_def Let_def)
  ultimately show ?thesis
    by (simp add: chain_inv_def sums_queued_def taken_def)
qed

section \<open>The handler\<close>

lemma mapE_list_all2:
  assumes "\<And>x. x \<in> set xs \<Longrightarrow> \<exists>y. f x = Inr y \<and> P x y"
  shows "\<exists>ys. mapE f xs = Inr ys \<and> list_all2 P xs ys"
  using assms by (induction xs) fastforce+

text \<open>What the command for helper \<open>h\<close> is and where it is queued.\<close>

definition is_helper_cmd ::
    "(ip_addr \<times> string) list \<Rightarrow> ip_addr \<Rightarrow> string \<Rightarrow> (string, int) omap \<Rightarrow> (ip_addr \<times> string) list \<Rightarrow>
     nat \<Rightarrow> string \<times> byte list \<Rightarrow> bool" where
  "is_helper_cmd ip2Ctx requestorIP f coef stripe h qc \<longleftrightarrow>
     (let k = length stripe; idx = ctx_idx ip2Ctx (fst (stripe ! h))
      in fst qc = snd (ip2Ctx ! idx) \<and>
         pipe_cmd (int idx) (int k) requestorIP (fst (stripe ! prev_of k h)) (fst (stripe ! next_of k h)) (int h)
           (om_get0 coef (snd (stripe ! h))) f (snd (stripe ! h)) = Inr (snd qc))"

lemma pipe_commands_eq:
  assumes "chain_stripe conf ip2Ctx requestorIP f stripe"
    and "md_getCoefficient md f (Some (helper_status status f stripe)) = Inr coef"
    and "has_substring ''basic'' (ECPipePolicy conf)"
  shows "\<exists>qcs. list_all2 (is_helper_cmd ip2Ctx requestorIP f coef stripe) [0..<length stripe] qcs \<and>
    pipe_commands conf md ip2Ctx requestorIP f status stripe w =
      Inr (rpush (coordinatorIP conf) f (put_word (fst (last stripe))) (push_all (coordinatorIP conf) qcs w))"
proof -
  let ?k = "length stripe"
  have k: "stripe \<noteq> []" "?k < 256" "requestorIP \<notin> fst ` set stripe"
    using assms(1) by (auto simp: chain_stripe_def)
  have "\<exists>qc. helper_cmd ip2Ctx requestorIP f coef stripe (int ?k) h = Inr qc \<and>
      is_helper_cmd ip2Ctx requestorIP f coef stripe h qc" if "h \<in> set [0..<?k]" for h
    using helper_cmd_eq[OF assms(1) refl, of h coef] that by (fastforce simp: is_helper_cmd_def Let_def)
  then obtain qcs where qcs: "mapE (helper_cmd ip2Ctx requestorIP f coef stripe (int ?k)) [0..<?k] = Inr qcs"
    "list_all2 (is_helper_cmd ip2Ctx requestorIP f coef stripe) [0..<?k] qcs"
    using mapE_list_all2[of "[0..<?k]" "helper_cmd ip2Ctx requestorIP f coef stripe (int ?k)"] by blast
  have "isRequestorHolder stripe requestorIP = Inr (- 1)"
    using isRequestorHolder_eq[of stripe requestorIP] k by simp
  moreover have "atE stripe (int ?k - 1) = Inr (last stripe)"
    using k(1) by (cases stripe rule: rev_cases) simp_all
  ultimately show ?thesis
    using qcs assms(2,3) k(2)
    by (intro exI[of _ qcs]) (simp add: pipe_commands_def holder_cmd_def and_0xff push_all_def case_prod_beta)
qed

section \<open>Delivery\<close>

lemma pipe_cmd_addressed:
  assumes "pipe_cmd (int idx) k requestorIP prevIP nextIP ident coef f l = Inr c" and "idx < 2 ^ 31"
  shows "addressed j c \<longleftrightarrow> j = idx"
proof -
  obtain rest where "c = put_int (int idx) @ rest"
    using assms(1) by (auto simp: pipe_cmd_def Let_def res_simps)
  then show ?thesis
    using get_int_append[of 0 "[]" "int idx" rest] assms(2) by (auto simp: addressed_def)
qed

lemma stripe_ctx: "chain_stripe conf ip2Ctx requestorIP f stripe \<Longrightarrow> fst ` set stripe \<subseteq> fst ` set ip2Ctx"
  unfolding chain_stripe_def by (metis Diff_subset order_trans set_map)

lemma chain_dispatch:
  assumes stripe: "chain_stripe conf ip2Ctx requestorIP f stripe"
    and qcs: "list_all2 (is_helper_cmd ip2Ctx requestorIP f coef stripe) [0..<length stripe] qcs"
  shows "dispatch_ok conf ip2Ctx (map fst stripe) qcs"
proof -
  have "fst (qcs ! h) = snd (ip2Ctx ! ctx_idx ip2Ctx (fst (stripe ! h))) \<and>
      addressed (ctx_idx ip2Ctx (fst (stripe ! h))) (snd (qcs ! h))" if h: "h < length stripe" for h
  proof -
    have "is_helper_cmd ip2Ctx requestorIP f coef stripe h (qcs ! h)"
      using list_all2_nthD[OF qcs, of h] h by simp
    moreover have "fst (stripe ! h) \<in> fst ` set ip2Ctx" using stripe_ctx[OF stripe] h by fastforce
    then have "ctx_idx ip2Ctx (fst (stripe ! h)) < 2 ^ 31"
      using ctx_idx_nth(1)[of "fst (stripe ! h)" ip2Ctx] stripe unfolding chain_stripe_def by linarith
    ultimately show ?thesis
      using pipe_cmd_addressed by (auto simp: is_helper_cmd_def Let_def)
  qed
  then show ?thesis
    using stripe list_all2_lengthD[OF qcs] stripe_ctx[OF stripe] by (simp add: dispatch_ok_def chain_stripe_def)
qed

text \<open>A world in which no command is under way.\<close>

definition idle_world :: "repair_config \<Rightarrow> (ip_addr \<times> string) list \<Rightarrow> world \<Rightarrow> bool" where
  "idle_world conf stripe w \<longleftrightarrow> no_cmds conf (map fst stripe) w"

section \<open>The helpers take their commands\<close>

text \<open>\<open>doProcess\<close> of a helper, up to the start of its threads.\<close>

definition pipe_receive :: "repair_config \<Rightarrow> ip_addr \<Rightarrow> world \<Rightarrow> (world \<times> pipe_worker) res" where
  "pipe_receive conf = take_cmd (pipe_start conf)"

definition receive_all :: "repair_config \<Rightarrow> ip_addr list \<Rightarrow> world \<Rightarrow> (world \<times> pipe_worker list) res" where
  "receive_all conf = start_all (pipe_receive conf)"

section \<open>What the client receives\<close>

definition lost_pkt :: "repair_config \<Rightarrow> byte list \<Rightarrow> nat \<Rightarrow> byte list" where
  "lost_pkt conf lost j = take (packetSize conf) (drop (pkt_base conf j) lost)"

text \<open>The coefficients recover the lost block from the blocks of the helpers.\<close>

definition recovers ::
    "gf_ops \<Rightarrow> (string, int) omap \<Rightarrow> (ip_addr \<times> string) list \<Rightarrow> (string \<Rightarrow> byte list) \<Rightarrow> byte list \<Rightarrow> bool" where
  "recovers G coef stripe content lost \<longleftrightarrow>
     distinct (map snd stripe) \<and> byte_coefs coef stripe \<and>
     (\<forall>x < length lost. xs.F (\<lambda>b. gf_multiply G (word_of_int (om_get0 coef b)) (content b ! x)) (snd ` set stripe) = lost ! x)"

lemma last_sum_lost:
  assumes "recovers G coef stripe content lost" and "stripe \<noteq> []"
    and room: "pkt_base conf (packetCnt conf) \<le> length lost" and j: "j < packetCnt conf"
  shows "sum_pkt G conf (chain_coefs coef stripe) (map (content \<circ> snd) stripe) (length stripe - 1) j = lost_pkt conf lost j"
proof (rule nth_equalityI)
  have len: "pkt_base conf j + packetSize conf \<le> length lost" by (rule pkt_in_file[OF room j])
  then show "length (sum_pkt G conf (chain_coefs coef stripe) (map (content \<circ> snd) stripe) (length stripe - 1) j) =
      length (lost_pkt conf lost j)"
    by (simp add: lost_pkt_def)
  fix b assume "b < length (sum_pkt G conf (chain_coefs coef stripe) (map (content \<circ> snd) stripe) (length stripe - 1) j)"
  then have b: "b < packetSize conf" by simp
  have bij: "bij_betw (\<lambda>i. snd (stripe ! i)) {..<length stripe} (snd ` set stripe)"
    using bij_betw_nth[of "map snd stripe" "{..<length stripe}" "snd ` set stripe"] assms(1)
      bij_betw_cong[of "{..<length stripe}" "(!) (map snd stripe)" "\<lambda>i. snd (stripe ! i)" "snd ` set stripe"]
    by (simp add: recovers_def)
  have "xor_sum (\<lambda>i. gf_multiply G (chain_coefs coef stripe ! i) (map (content \<circ> snd) stripe ! i ! (pkt_base conf j + b))) (length stripe) =
      xs.F (\<lambda>c. gf_multiply G (word_of_int (om_get0 coef c)) (content c ! (pkt_base conf j + b))) (snd ` set stripe)"
    by (subst xs.reindex_bij_betw[OF bij, symmetric]) (rule xs.cong, simp_all add: chain_coefs_def)
  then show "sum_pkt G conf (chain_coefs coef stripe) (map (content \<circ> snd) stripe) (length stripe - 1) j ! b = lost_pkt conf lost j ! b"
    using assms(1,2) b len by (simp add: sum_pkt_def lost_pkt_def recovers_def)
qed

lemma chain_output:
  assumes "chain_inv G conf f (chain_coefs coef stripe) (map (content \<circ> snd) stripe) (map fst stripe) (w, ps)"
    and "recovers G coef stripe content lost" and "stripe \<noteq> []" and "pkt_base conf (packetCnt conf) \<le> length lost"
  shows "\<exists>n \<le> packetCnt conf. w_queues w (fst (last stripe)) f = map (lost_pkt conf lost) [0..<n] \<and>
    (list_all (finished conf) ps \<longrightarrow> n = packetCnt conf)"
proof -
  let ?h = "length stripe - 1"
  have h: "?h < length stripe" "Suc ?h = length stripe" "fst (last stripe) = map fst stripe ! ?h"
    using assms(3) by (simp_all add: last_conv_nth)
  have len: "length ps = length stripe" using assms(1) by (simp add: chain_inv_def)
  have inv: "helper_inv G conf (chain_coefs coef stripe) (map (content \<circ> snd) stripe) ?h (ps ! ?h)"
    "sums_queued G conf (chain_coefs coef stripe) (map (content \<circ> snd) stripe) (map fst stripe ! ?h)
      (chain_key f (map fst stripe) ?h) ?h (taken ps ?h) (pw_sent (ps ! ?h)) w"
    using assms(1) h(1) by (auto simp: chain_inv_def)
  have n: "pw_sent (ps ! ?h) \<le> packetCnt conf"
    using inv(1) counters_okD(1-3)[of conf "ps ! ?h"] by (auto simp: helper_inv_def)
  have "w_queues w (fst (last stripe)) f = map (sum_pkt G conf (chain_coefs coef stripe) (map (content \<circ> snd) stripe) ?h) [0..<pw_sent (ps ! ?h)]"
    using inv(2) len h by (simp add: sums_queued_def chain_key_def taken_def)
  also have "\<dots> = map (lost_pkt conf lost) [0..<pw_sent (ps ! ?h)]"
    using n last_sum_lost[OF assms(2-4)] by simp
  finally show ?thesis
    using n len h(1) by (intro exI[of _ "pw_sent (ps ! ?h)"]) (auto simp: list_all_length finished_def)
qed

section \<open>The repair of a block\<close>

text \<open>A repair the coordinator can do: the metadata names \<open>k\<close> helpers and their coefficients.\<close>

definition pipe_case ::
    "repair_config \<Rightarrow> metadata \<Rightarrow> (ip_addr \<times> string) list \<Rightarrow> ip_addr \<Rightarrow> string \<Rightarrow> (ip_addr \<times> string) list \<Rightarrow>
     (string, int) omap \<Rightarrow> bool" where
  "pipe_case conf md ip2Ctx requestorIP f stripe coef \<longleftrightarrow>
     chain_stripe conf ip2Ctx requestorIP f stripe \<and> coordinatorIP conf \<notin> fst ` set stripe \<and>
     (\<exists>ip blks. knows_blk md f ip blks \<and>
        md_getCoefficient md f (Some (helper_status (single_status f blks) f stripe)) = Inr coef) \<and>
     (\<exists>blks. md_getStripeBlks md f requestorIP = Inr blks \<and> stripe = take (ecK conf) blks) \<and>
     length stripe = ecK conf \<and> \<not> pathSelectionEnabled conf \<and> has_substring ''basic'' (ECPipePolicy conf) \<and>
     f \<noteq> [] \<and> f \<noteq> ''dr_requests'' \<and> f \<noteq> ''dr_cmds'' \<and> (\<forall>i. f \<noteq> disQ i)"

lemma tmp_key_other [simp]: "tmp_key f \<noteq> ''dr_cmds''" "tmp_key f \<noteq> disQ i"
  by (simp_all add: disQ_def tmp_key_def)

lemma handler_commands:
  assumes case_ok: "pipe_case conf md ip2Ctx (localIP client) f stripe coef" and "only_request conf client f w"
  shows "\<exists>qcs. list_all2 (is_helper_cmd ip2Ctx (localIP client) f coef stripe) [0..<length stripe] qcs \<and>
    pipe_requestHandler conf md linkWeight newNode0 ip2Ctx ps w =
      Inr (rpush (coordinatorIP conf) f (put_word (fst (last stripe)))
        (push_all (coordinatorIP conf) qcs (no_request conf w)), ps)"
proof -
  obtain req where req: "dr_request client [f] = Inr req" and pop: "blpop (coordinatorIP conf) ''dr_requests'' w = Inr (req, no_request conf w)"
    and who: "get_word req 0 = Inr (localIP client)" "\<not> length req < 4"
    using assms(2) by (rule only_requestE)
  obtain ip blks0 blks where known: "knows_blk md f ip blks0"
    "md_getCoefficient md f (Some (helper_status (single_status f blks0) f stripe)) = Inr coef"
    and blks: "md_getStripeBlks md f (localIP client) = Inr blks" "take (ecK conf) blks = stripe"
    using case_ok by (auto simp: pipe_case_def)
  have ok: "chain_stripe conf ip2Ctx (localIP client) f stripe" "f \<noteq> []" "length stripe = ecK conf" "stripe \<noteq> []"
    "\<not> pathSelectionEnabled conf" "has_substring ''basic'' (ECPipePolicy conf)"
    using case_ok by (auto simp: pipe_case_def chain_stripe_def)
  obtain qcs where qcs: "list_all2 (is_helper_cmd ip2Ctx (localIP client) f coef stripe) [0..<length stripe] qcs"
    "pipe_commands conf md ip2Ctx (localIP client) f (single_status f blks0) stripe (no_request conf w) =
      Inr (rpush (coordinatorIP conf) f (put_word (fst (last stripe))) (push_all (coordinatorIP conf) qcs (no_request conf w)))"
    using pipe_commands_eq[OF ok(1) known(2) ok(6)] by blast
  then show ?thesis
    using parse_single_request[OF req known(1) ok(2), of conf] who pop blks ok(3-5)
    by (intro exI[of _ qcs]) (auto simp: pipe_requestHandler_def Let_def)
qed

text \<open>Once the distributors are done, the helpers start and form the chain.\<close>

lemma distributed_chain:
  assumes case_ok: "pipe_case conf md ip2Ctx requestorIP f stripe coef" and "idle_world conf stripe w"
    and qcs: "list_all2 (is_helper_cmd ip2Ctx requestorIP f coef stripe) [0..<length stripe] qcs"
    and w1: "w1 = rpush (coordinatorIP conf) f msg (push_all (coordinatorIP conf) qcs (no_request conf w))"
    and world: "chain_world conf f stripe content w" and coefs: "byte_coefs coef stripe" and "packets_ok conf"
    and run: "(dist_step conf ip2Ctx)\<^sup>*\<^sup>* w1 w2" "waiting conf w2 = 0"
  shows "\<exists>w3 wks. receive_all conf (map fst stripe) w2 = Inr (w3, wks) \<and>
    chain_inv G conf f (chain_coefs coef stripe) (map (content \<circ> snd) stripe) (map fst stripe) (w3, wks)"
proof -
  have stripe: "chain_stripe conf ip2Ctx requestorIP f stripe" and f: "f \<noteq> ''dr_cmds''" "\<And>i. f \<noteq> disQ i"
    and coord: "coordinatorIP conf \<notin> set (map fst stripe)"
    using case_ok by (auto simp: pipe_case_def chain_stripe_def)
  have idle: "no_cmds conf (map fst stripe) (no_request conf w)"
    using assms(2) coord by (auto simp: idle_world_def no_cmds_def no_request_def)
  note sent = dispatch_delivered(2)[OF chain_dispatch[OF stripe qcs] idle coord f(2) w1 run]
  have "pipe_start conf (map fst stripe ! h) (drop 4 (snd (qcs ! h))) = Inr (chain_worker conf requestorIP f coef stripe h)"
    if h: "h < length (map fst stripe)" for h
    using chain_worker_starts[OF stripe coefs refl, of h "int (ctx_idx ip2Ctx (fst (stripe ! h)))"]
      list_all2_nthD[OF qcs, of h] h
    by (simp add: is_helper_cmd_def Let_def)
  moreover have "distinct (map fst stripe)" using stripe by (simp add: chain_stripe_def)
  ultimately obtain w3 where w3: "receive_all conf (map fst stripe) w2 =
      Inr (w3, map (chain_worker conf requestorIP f coef stripe) [0..<length stripe])"
    "w_files w3 = w_files w2" "\<And>ip key. key \<noteq> ''dr_cmds'' \<Longrightarrow> w_queues w3 ip key = w_queues w2 ip key"
    using start_all_eq[of "map fst stripe" w2 "\<lambda>h. drop 4 (snd (qcs ! h))" "pipe_start conf" "chain_worker conf requestorIP f coef stripe"]
      sent by (auto simp: receive_all_def pipe_receive_def)
  have "w_queues w3 ip key = w_queues w ip key" if "ip \<in> fst ` set stripe" "key \<noteq> ''dr_cmds''" for ip key
  proof -
    have "ip \<in> set (map fst stripe)" using that(1) by simp
    moreover from this have "ip \<noteq> coordinatorIP conf" using coord by metis
    ultimately show ?thesis using w3(3)[OF that(2)] sent that(2) by (metis no_request_queues(2))
  qed
  then have "chain_world conf f stripe content w3"
    using world f w3(2) sent unfolding chain_world_def no_request_queues by (fastforce simp: case_prod_beta)
  then show ?thesis
    using chain_starts[OF stripe coefs assms(7)] w3(1) by blast
qed

text \<open>
  What a repair promises: the handler answers with the last helper of the chain; the distributors can
  deliver the commands; and once they have, the helpers start, what the client finds at the last
  helper is at any time a prefix of the lost block's packets, and from any state they reach they can
  still finish, with all packets there.
\<close>

definition repaired ::
    "gf_ops \<Rightarrow> env \<Rightarrow> repair_config \<Rightarrow> ip_addr \<Rightarrow> string \<Rightarrow> byte list \<Rightarrow> world \<times> pipe_worker list \<Rightarrow> bool" where
  "repaired G E conf ip f lost st \<longleftrightarrow>
     (\<forall>w ps. (pipe_step G E conf)\<^sup>*\<^sup>* st (w, ps) \<longrightarrow>
        (\<exists>n \<le> packetCnt conf. w_queues w ip f = map (lost_pkt conf lost) [0..<n]) \<and>
        (\<exists>w' ps'. (pipe_step G E conf)\<^sup>*\<^sup>* (w, ps) (w', ps') \<and> list_all (finished conf) ps') \<and>
        (list_all (finished conf) ps \<longrightarrow> w_queues w ip f = map (lost_pkt conf lost) [0..<packetCnt conf]))"

lemma chain_repaired:
  assumes "gf_complete G" and "io_ok E" and "8 dvd packetSize conf" and "distinct (map fst stripe)"
    and inv: "chain_inv G conf f (chain_coefs coef stripe) (map (content \<circ> snd) stripe) (map fst stripe) st"
    and rec: "recovers G coef stripe content lost" "stripe \<noteq> []" "pkt_base conf (packetCnt conf) \<le> length lost"
  shows "repaired G E conf (fst (last stripe)) f lost st"
  unfolding repaired_def
proof (intro allI impI)
  fix w ps assume "(pipe_step G E conf)\<^sup>*\<^sup>* st (w, ps)"
  from chain_reachable[OF this inv assms(1-4)]
  have inv': "chain_inv G conf f (chain_coefs coef stripe) (map (content \<circ> snd) stripe) (map fst stripe) (w, ps)" .
  show "(\<exists>n \<le> packetCnt conf. w_queues w (fst (last stripe)) f = map (lost_pkt conf lost) [0..<n]) \<and>
      (\<exists>w' ps'. (pipe_step G E conf)\<^sup>*\<^sup>* (w, ps) (w', ps') \<and> list_all (finished conf) ps') \<and>
      (list_all (finished conf) ps \<longrightarrow>
        w_queues w (fst (last stripe)) f = map (lost_pkt conf lost) [0..<packetCnt conf])"
    using chain_output[OF inv' rec] chain_can_finish[OF assms(1-4) inv'] by blast
qed

text \<open>The helpers as the source of the client.\<close>

lemma pipe_served:
  assumes rep: "repaired G E conf ip f lost st" and "pipe_for f (snd st)"
    and "w_queues (fst st) (coordinatorIP conf) f = [put_word ip]"
    and same: "same_cluster conf client" and ok: "client_ok client ip" and "pkt_base conf (packetCnt conf) \<le> length lost"
  shows "served (pipe_step G E conf) client f
    (take (packetCnt conf * packetSize conf) (drop (packetSkipSize conf) lost)) st"
proof -
  have "delivers (pipe_step G E conf) (list_all (finished conf)) ip f (map (lost_pkt conf lost) [0..<packetCnt conf]) st"
    using rep unfolding repaired_def by (intro deliversI) blast
  then show ?thesis
    using pipe_src.client_served_block[OF ok assms(2), of G E conf "list_all (finished conf)" "packetSkipSize conf" lost] assms(3,4,6)
    unfolding lost_pkt_def by (simp add: same_cluster_def)
qed

lemma pipe_repair:
  assumes "gf_complete G" and "io_ok E" and "8 dvd packetSize conf" and "packets_ok conf"
    and case_ok: "pipe_case conf md ip2Ctx (localIP client) f stripe coef"
    and "recovers G coef stripe content lost" and "pkt_base conf (packetCnt conf) \<le> length lost"
    and "only_request conf client f w" and "idle_world conf stripe w" and "chain_world conf f stripe content w"
  shows "\<exists>w1. pipe_requestHandler conf md linkWeight newNode0 ip2Ctx ps w = Inr (w1, ps) \<and>
    w_queues w1 (coordinatorIP conf) f = w_queues w (coordinatorIP conf) f @ [put_word (fst (last stripe))] \<and>
    (\<exists>w2. (dist_step conf ip2Ctx)\<^sup>*\<^sup>* w1 w2 \<and> waiting conf w2 = 0) \<and>
    (\<forall>w2. (dist_step conf ip2Ctx)\<^sup>*\<^sup>* w1 w2 \<and> waiting conf w2 = 0 \<longrightarrow>
      (\<exists>st. receive_all conf (map fst stripe) w2 = Inr st \<and> repaired G E conf (fst (last stripe)) f lost st \<and>
        pipe_for f (snd st) \<and> w_queues (fst st) (coordinatorIP conf) f = w_queues w1 (coordinatorIP conf) f))"
proof -
  obtain qcs where qcs: "list_all2 (is_helper_cmd ip2Ctx (localIP client) f coef stripe) [0..<length stripe] qcs"
    and run: "pipe_requestHandler conf md linkWeight newNode0 ip2Ctx ps w =
      Inr (rpush (coordinatorIP conf) f (put_word (fst (last stripe)))
        (push_all (coordinatorIP conf) qcs (no_request conf w)), ps)"
    using handler_commands[OF case_ok assms(8)] by blast
  define w1 where "w1 = rpush (coordinatorIP conf) f (put_word (fst (last stripe)))
    (push_all (coordinatorIP conf) qcs (no_request conf w))"
  have stripe: "chain_stripe conf ip2Ctx (localIP client) f stripe" "ctx_ok conf ip2Ctx" "distinct (map fst stripe)"
    "stripe \<noteq> []" and f: "f \<noteq> ''dr_requests''" "\<forall>i. f \<noteq> disQ i"
    using case_ok by (auto simp: pipe_case_def chain_stripe_def)
  have coefs: "byte_coefs coef stripe" using assms(6) by (simp add: recovers_def)
  have dispatch: "dispatch_ok conf ip2Ctx (map fst stripe) qcs" by (rule chain_dispatch[OF stripe(1) qcs])
  have coord: "coordinatorIP conf \<notin> set (map fst stripe)" using case_ok by (simp add: pipe_case_def)
  have idle: "no_cmds conf (map fst stripe) (no_request conf w)"
    using assms(9) coord by (auto simp: idle_world_def no_cmds_def no_request_def)
  have "w_queues w1 (coordinatorIP conf) f = w_queues w (coordinatorIP conf) f @ [put_word (fst (last stripe))]"
    using f dispatch_reply[OF dispatch] by (simp add: w1_def no_request_queues)
  moreover have "\<exists>w2. (dist_step conf ip2Ctx)\<^sup>*\<^sup>* w1 w2 \<and> waiting conf w2 = 0"
    using dist_can_finish[OF dispatch_delivered(1)[OF dispatch idle coord _ w1_def] stripe(2)] f(2) by blast
  moreover have "\<exists>st. receive_all conf (map fst stripe) w2 = Inr st \<and> repaired G E conf (fst (last stripe)) f lost st \<and>
      pipe_for f (snd st) \<and> w_queues (fst st) (coordinatorIP conf) f = w_queues w1 (coordinatorIP conf) f"
    if run2: "(dist_step conf ip2Ctx)\<^sup>*\<^sup>* w1 w2" "waiting conf w2 = 0" for w2
  proof -
    obtain w3 wks where start: "receive_all conf (map fst stripe) w2 = Inr (w3, wks)"
      and inv: "chain_inv G conf f (chain_coefs coef stripe) (map (content \<circ> snd) stripe) (map fst stripe) (w3, wks)"
      using distributed_chain[OF case_ok assms(9) qcs w1_def assms(10) coefs assms(4) run2, of G] by blast
    have "f \<noteq> ''dr_cmds''" using case_ok by (simp add: pipe_case_def)
    then have "w_queues w3 (coordinatorIP conf) f = w_queues w1 (coordinatorIP conf) f"
      using start_all_others[OF start[unfolded receive_all_def pipe_receive_def]] dist_steps_others[OF run2(1)] f(2) by metis
    moreover have "pipe_for f wks" using inv by (simp add: chain_inv_def helper_ok_def pipe_for_def list_all_length)
    ultimately show ?thesis
      using start chain_repaired[OF assms(1-3) stripe(3) inv assms(6) stripe(4) assms(7)] by auto
  qed
  ultimately show ?thesis
    using run by (auto simp: w1_def)
qed

end
