(* ===== verification/Hdfs_Metadata.thy ===== *)
theory Hdfs_Metadata
  imports Repair_Request RS_Util
begin

text \<open>
  \<open>HDFS_MetadataBase.cc\<close>, the queries: where the blocks of a stripe are, which helpers repair a
  lost block (with the rack-aware choice), and their decoding coefficients. The maps the constructor
  fills are the record \<open>hdfs_meta\<close>; a \<open>std::set\<close> is the list of its elements in order. \<open>std::random_shuffle\<close> and the order \<open>std::sort\<close> leaves among
  racks of the same size are parameters.
\<close>

section \<open>State\<close>

record hdfs_meta =
  hm_blk2Stripe :: "(string, (ip_addr \<times> string) list) omap"
  hm_blkIdInStripe :: "(string, int) omap"
  hm_blkName2Ip :: "(string, ip_addr) omap"
  hm_blkName2StripeId :: "(string, nat) omap"
  hm_Ip2BlkNames :: "(ip_addr, string) omap list"
  hm_Id2BlkNames :: "(nat, string) omap list"
  hm_blk2All :: "(string, string list) omap"
  hm_loadbalance :: bool
  hm_coefficient :: "(string, (string, int) omap) omap"
  hm_order :: "(ip_addr, nat) omap"

record hdfs_env =
  he_shuffle :: "nat \<Rightarrow> (ip_addr \<times> string) list \<Rightarrow> (ip_addr \<times> string) list"
  he_sort :: "(string \<times> nat) list \<Rightarrow> (string \<times> nat) list"

text \<open>\<open>m[k]\<close> with a default.\<close>

definition om_get :: "'v \<Rightarrow> ('k, 'v) omap \<Rightarrow> 'k \<Rightarrow> 'v" where
  "om_get d m k = (case map_of m k of None \<Rightarrow> d | Some v \<Rightarrow> v)"

lemma om_get_put: "om_get d (om_put k v m) k' = (if k' = k then v else om_get d m k')"
  by (simp add: om_get_def map_of_om_put)

section \<open>Where the blocks are\<close>

definition hdfs_getIPfromBlk :: "hdfs_meta \<Rightarrow> string \<Rightarrow> ip_addr res" where
  "hdfs_getIPfromBlk m blkName =
     (case map_of (hm_blkName2Ip m) blkName of None \<Rightarrow> Inl (Exit 1) | Some ip \<Rightarrow> Inr ip)"

definition hdfs_getAllBlks :: "hdfs_meta \<Rightarrow> string \<Rightarrow> (ip_addr \<times> string) list res" where
  "hdfs_getAllBlks m blkName =
     (case map_of (hm_blkName2StripeId m) blkName of
        None \<Rightarrow> Inl (Exit 1)
      | Some stripeId \<Rightarrow>
          if stripeId < length (hm_Ip2BlkNames m) then Inr (hm_Ip2BlkNames m ! stripeId) else Inl (Exit 1))"

section \<open>Coefficients\<close>

text \<open>The positions of the helpers (status 2) in the stripe.\<close>

definition int_status :: "nat \<Rightarrow> hdfs_meta \<Rightarrow> (string, int) omap \<Rightarrow> int list res" where
  "int_status n m status =
     foldE (\<lambda>(b, v) s.
       if v = 2
       then let i = om_get0 (hm_blkIdInStripe m) b
            in bindE (atE s i) (\<lambda>_. Inr (s[nat i := 1]))
       else Inr s) status (replicate n 0)"

text \<open>The loop that names the coefficients; without coefficients the result is empty.\<close>

fun name_coefs ::
    "hdfs_meta \<Rightarrow> nat \<Rightarrow> byte list option \<Rightarrow> nat \<Rightarrow> nat \<Rightarrow> int list \<Rightarrow> (string, int) omap \<Rightarrow> (string, int) omap res" where
  "name_coefs m stripeId coefs i cnt [] coef = Inr coef"
| "name_coefs m stripeId coefs i cnt (s # ss) coef =
     (if s = 0 then name_coefs m stripeId coefs (Suc i) cnt ss coef
      else case coefs of
        None \<Rightarrow> Inr []
      | Some cs \<Rightarrow>
          bindE (atE (hm_Id2BlkNames m) (int stripeId)) (\<lambda>names.
          bindE (atE cs (int cnt)) (\<lambda>c.
          name_coefs m stripeId coefs (Suc i) (Suc cnt) ss (om_put (om_get [] names i) (uint c) coef))))"

definition hdfs_getCoefficient ::
    "gf_ops \<Rightarrow> rs_util \<Rightarrow> hdfs_meta \<Rightarrow> string \<Rightarrow> (string, int) omap option \<Rightarrow> (string, int) omap res" where
  "hdfs_getCoefficient G rs m blkName st = (case st of
     None \<Rightarrow> Inr (om_get [] (hm_coefficient m) blkName)
   | Some status \<Rightarrow>
     bindE (int_status (rs_ecN rs) m status) (\<lambda>s.
     let stripeId = om_get 0 (hm_blkName2StripeId m) blkName;
         idx = om_get0 (hm_blkIdInStripe m) blkName
     in
     bindE (guardE (0 \<le> idx \<and> idx < int (rs_ecN rs)) Out_Of_Bounds) (\<lambda>_.
     name_coefs m stripeId (getCoefficient_multi G rs (nat idx) s) 0 0 s [])))"

section \<open>Helpers by rack\<close>

definition push_rack :: "string \<Rightarrow> 'a \<Rightarrow> (string, 'a list) omap \<Rightarrow> (string, 'a list) omap" where
  "push_rack rack x m = om_put rack (om_get [] m rack @ [x]) m"

definition blk_at :: "hdfs_meta \<Rightarrow> string \<Rightarrow> ip_addr \<times> string" where
  "blk_at m b = (om_get 0 (hm_blkName2Ip m) b, b)"

definition stripeAll2Rack :: "repair_config \<Rightarrow> hdfs_meta \<Rightarrow> string \<Rightarrow> (string, string list) omap" where
  "stripeAll2Rack conf m blkName =
     fold (\<lambda>b. push_rack (om_get [] (rackInfos conf) (fst (blk_at m b))) b)
       (om_get [] (hm_blk2All m) blkName) []"

text \<open>The \<open>while\<close> loop over the sorted racks; it reads on past the last rack.\<close>

function choose_racks ::
    "(string, string list) omap \<Rightarrow> (string \<times> nat) list \<Rightarrow> int \<Rightarrow> ((string \<times> nat) list \<times> string list) res" where
  "choose_racks byRack rackSize remain =
     (if remain \<le> 0 then Inr ([], [])
      else case rackSize of
        [] \<Rightarrow> Inl Out_Of_Bounds
      | (r, c) # rs \<Rightarrow>
          bindE (choose_racks byRack rs (remain - int c)) (\<lambda>(racks, blks).
          Inr ((r, c) # racks, take c (om_get [] byRack r) @ blks)))"
  by pat_completeness auto
termination by (relation "measure (\<lambda>(byRack, rackSize, remain). length rackSize)") auto

declare choose_racks.simps [simp del]

text \<open>
  One pass of the load balancing over the racks: every rack that has blocks left gets one more,
  until \<open>k\<close> are planned. A plan is a list of (size, number planned).
\<close>

fun plan_pass :: "nat \<Rightarrow> nat \<Rightarrow> (nat \<times> nat) list \<Rightarrow> (nat \<times> nat) list \<times> nat" where
  "plan_pass k counter [] = ([], counter)"
| "plan_pass k counter ((sz, s) # ps) =
     (if s < sz
      then if Suc counter = k then ((sz, Suc s) # ps, Suc counter)
           else case plan_pass k (Suc counter) ps of (ps', c) \<Rightarrow> ((sz, Suc s) # ps', c)
      else case plan_pass k counter ps of (ps', c) \<Rightarrow> ((sz, s) # ps', c))"

lemma plan_pass_counter: "plan_pass k counter ps = (ps', c) \<Longrightarrow> counter \<le> c \<and> (c = counter \<longrightarrow> ps' = ps)"
  by (induction k counter ps arbitrary: ps' c rule: plan_pass.induct)
    (force split: if_splits prod.splits)+

text \<open>The passes; one in which no rack has a block left would repeat for ever.\<close>

function plan_loop :: "nat \<Rightarrow> nat \<Rightarrow> (nat \<times> nat) list \<Rightarrow> (nat \<times> nat) list res" where
  "plan_loop k counter ps =
     (if k \<le> counter then Inr ps
      else case plan_pass k counter ps of (ps', c) \<Rightarrow>
        if c = counter then Inl Diverges else plan_loop k c ps')"
  by pat_completeness auto
termination
  by (relation "measure (\<lambda>(k, counter, ps). k - counter)") (auto dest!: plan_pass_counter[OF sym])

declare plan_loop.simps [simp del]

definition rack_helpers ::
    "repair_config \<Rightarrow> hdfs_env \<Rightarrow> hdfs_meta \<Rightarrow> string \<Rightarrow> ip_addr \<Rightarrow> (ip_addr \<times> string) list res" where
  "rack_helpers conf E m blkName requestorIP =
     (let byRack = stripeAll2Rack conf m blkName;
          reqrack = om_get [] (rackInfos conf) requestorIP;
          near = om_get [] byRack reqrack;
          others = (if map_of byRack reqrack = None then [] else filter (\<lambda>(r, _). r \<noteq> reqrack) byRack);
          rackSize = he_sort E (map (\<lambda>(r, bs). (r, length bs)) others)
      in
      bindE (choose_racks byRack rackSize (int (ecK conf) - int (length near))) (\<lambda>(racks, far).
      let candidateBlks = near @ far; candidateRacks = racks @ [(reqrack, length near)]
      in
      bindE
        (if hm_loadbalance m
         then if ecK conf < length candidateBlks
              then bindE (plan_loop (ecK conf) 0 (map (\<lambda>(_, c). (c, 0)) candidateRacks)) (\<lambda>plan.
                Inr (concat (map2 (\<lambda>(r, _) (_, s). take s (om_get [] byRack r)) candidateRacks plan)))
              else if length candidateBlks = ecK conf then Inr candidateBlks
              else Inr []
         else Inr (take (ecK conf) candidateBlks)) (\<lambda>blks.
      Inr (map (blk_at m) blks))))"

text \<open>The order of the pipeline: shuffled, or rack by rack with the requestor's rack last.\<close>

definition pipeline_order ::
    "repair_config \<Rightarrow> hdfs_env \<Rightarrow> ip_addr \<Rightarrow> (ip_addr \<times> string) list \<Rightarrow> (ip_addr \<times> string) list" where
  "pipeline_order conf E requestorIP ret =
     (let reqrack = om_get [] (rackInfos conf) requestorIP;
          racks = fold (\<lambda>s. push_rack (om_get [] (rackInfos conf) (fst s)) s) ret [];
          mixed = map2 (\<lambda>i (r, v). (r, he_shuffle E i v)) [0..<length racks] racks
      in if shuffle conf then he_shuffle E (length racks) ret
         else concat (map snd (filter (\<lambda>(r, _). r \<noteq> reqrack) mixed)) @
              concat (map snd (filter (\<lambda>(r, _). r = reqrack) mixed)))"

text \<open>\<open>getStripeBlks\<close> with \<open>status = nullptr\<close>, as the single-failure coordinators call it.\<close>

definition hdfs_getStripeBlks ::
    "repair_config \<Rightarrow> hdfs_env \<Rightarrow> hdfs_meta \<Rightarrow> string \<Rightarrow> ip_addr \<Rightarrow> (ip_addr \<times> string) list res" where
  "hdfs_getStripeBlks conf E m blkName requestorIP =
     bindE (hdfs_getAllBlks m blkName) (\<lambda>_.
     bindE (if rackAware conf then rack_helpers conf E m blkName requestorIP
            else Inr (om_get [] (hm_blk2Stripe m) blkName)) (\<lambda>ret.
     Inr (pipeline_order conf E requestorIP ret)))"

definition hdfs_metadata :: "gf_ops \<Rightarrow> rs_util \<Rightarrow> repair_config \<Rightarrow> hdfs_env \<Rightarrow> hdfs_meta \<Rightarrow> metadata" where
  "hdfs_metadata G rs conf E m =
     \<lparr>md_getStripeBlks = hdfs_getStripeBlks conf E m,
      md_getCoefficient = hdfs_getCoefficient G rs m,
      md_getIPfromBlk = hdfs_getIPfromBlk m,
      md_getAllBlks = hdfs_getAllBlks m\<rparr>"

section \<open>The coefficients decode\<close>

text \<open>The maps agree on a stripe: block \<open>names ! i\<close> has number \<open>i\<close>.\<close>

definition stripe_known :: "hdfs_meta \<Rightarrow> string list \<Rightarrow> bool" where
  "stripe_known m names \<longleftrightarrow> distinct names \<and>
     (\<exists>sid < length (hm_Id2BlkNames m). \<forall>i < length names.
        map_of (hm_blkIdInStripe m) (names ! i) = Some (int i) \<and>
        map_of (hm_blkName2StripeId m) (names ! i) = Some sid \<and>
        map_of (hm_Id2BlkNames m ! sid) i = Some (names ! i))"

definition helpers_of :: "(string, int) omap \<Rightarrow> string set" where
  "helpers_of status = {b. (b, 2) \<in> set status}"

lemma int_status_loop:
  assumes "stripe_known m names" and "helpers_of status \<subseteq> set names" and "length s = length names"
  shows "\<exists>s'. foldE (\<lambda>(b, v) s. if v = 2
      then let i = om_get0 (hm_blkIdInStripe m) b in bindE (atE s i) (\<lambda>_. Inr (s[nat i := 1]))
      else Inr s) status s = Inr s' \<and> length s' = length names \<and>
    (\<forall>i < length names. s' ! i = (if names ! i \<in> helpers_of status then 1 else s ! i))"
  using assms(2,3)
proof (induction status arbitrary: s)
  case Nil
  then show ?case by (simp add: helpers_of_def)
next
  case (Cons e status)
  obtain b v where e: "e = (b, v)" by (cases e)
  have sub: "helpers_of status \<subseteq> set names"
    using Cons.prems(1) by (auto simp: helpers_of_def)
  show ?case
  proof (cases "v = 2")
    case False
    then have "helpers_of (e # status) = helpers_of status" by (auto simp: helpers_of_def e)
    with Cons.IH[OF sub Cons.prems(2)] False show ?thesis by (simp add: e)
  next
    case True
    then have "b \<in> set names"
      using Cons.prems(1) by (auto simp: helpers_of_def e)
    then obtain i where i: "i < length names" "b = names ! i"
      by (auto simp: in_set_conv_nth)
    then have id: "om_get0 (hm_blkIdInStripe m) b = int i"
      using assms(1) by (auto simp: stripe_known_def om_get0_def)
    have names: "names ! j = b \<longleftrightarrow> j = i" if "j < length names" for j
      using assms(1) i that by (auto simp: stripe_known_def nth_eq_iff_index_eq)
    obtain s' where s': "foldE (\<lambda>(b, v) s. if v = 2
      then let i = om_get0 (hm_blkIdInStripe m) b in bindE (atE s i) (\<lambda>_. Inr (s[nat i := 1]))
      else Inr s) status (s[i := 1]) = Inr s'" "length s' = length names"
      "\<And>j. j < length names \<Longrightarrow> s' ! j = (if names ! j \<in> helpers_of status then 1 else s[i := 1] ! j)"
      using Cons.IH[OF sub, of "s[i := 1]"] Cons.prems(2) by auto
    have "s' ! j = (if names ! j \<in> helpers_of (e # status) then 1 else s ! j)" if "j < length names" for j
    proof -
      have "names ! j \<in> helpers_of (e # status) \<longleftrightarrow> j = i \<or> names ! j \<in> helpers_of status"
        using True names[OF that] by (auto simp: helpers_of_def e)
      then show ?thesis
        using s'(3)[OF that] that Cons.prems(2) by (auto simp: nth_list_update)
    qed
    then show ?thesis
      using s'(1,2) True id i(1) Cons.prems(2) by (auto simp: e)
  qed
qed

lemma name_coefs_eq:
  assumes "sid < length (hm_Id2BlkNames m)" and "cnt + length (sel_from i ss) \<le> length cs"
  shows "name_coefs m sid (Some cs) i cnt ss coef =
    Inr (fold (\<lambda>(b, c). om_put b c) (map2 (\<lambda>r c. (om_get [] (hm_Id2BlkNames m ! sid) r, uint c)) (sel_from i ss) (drop cnt cs)) coef)"
  using assms(2)
proof (induction ss arbitrary: i cnt coef)
  case (Cons s ss)
  show ?case
  proof (cases "s = 0")
    case False
    then have "drop cnt cs = cs ! cnt # drop (Suc cnt) cs"
      using Cons.prems by (simp add: Cons_nth_drop_Suc)
    with False Cons.IH[of "Suc cnt" "Suc i"] Cons.prems assms(1) show ?thesis by simp
  qed (use Cons in simp)
qed simp

lemma length_matrix_multiply: "length (jerasure_matrix_multiply G m1 m2 r1 c1 r2 c2) = r1 * c2"
  unfolding jerasure_matrix_multiply_def
  by (subst length_fold_update) (simp_all add: length_fold_update)

lemma om_get0_fold:
  assumes "distinct (map fst kvs)" and "(b, c) \<in> set kvs"
  shows "om_get0 (fold (\<lambda>(b, c). om_put b c) kvs []) b = c"
proof -
  have "map_of (rev kvs) b = Some c"
    using assms by (simp add: map_of_eq_Some_iff rev_map[symmetric])
  then show ?thesis
    using om.get_fold_put[of kvs "[]" b] by (simp add: om_get0_def)
qed

lemma hdfs_decodes:
  assumes G: "gf_complete G" and rs: "rs_ecK rs = k" "rs_ecN rs = length names" "k \<le> length names"
      "length (rs_encMat rs) = k * (length names - k)"
    and known: "stripe_known m names" and H: "helpers_of status \<subseteq> set names" "card (helpers_of status) = k"
    and f: "idx < length names" "names ! idx \<notin> helpers_of status"
    and stripe: "is_stripe G k (complete_enc_mat k (length names) (rs_encMat rs)) data sz (map content names)"
    and inv: "left_invertible G k (rows_of k (complete_enc_mat k (length names) (rs_encMat rs))
      (filter (\<lambda>i. names ! i \<in> helpers_of status) [0..<length names]))"
  shows "\<exists>coef. hdfs_getCoefficient G rs m (names ! idx) (Some status) = Inr coef \<and>
    (\<forall>b \<in> helpers_of status. 0 \<le> om_get0 coef b \<and> om_get0 coef b < 256) \<and>
    (\<forall>x < sz. xs.F (\<lambda>b. gf_multiply G (word_of_int (om_get0 coef b)) (content b ! x)) (helpers_of status) =
      content (names ! idx) ! x)"
proof -
  let ?n = "length names" and ?H = "helpers_of status" and ?c = "complete_enc_mat k (length names) (rs_encMat rs)"
  define sel where "sel = filter (\<lambda>i. names ! i \<in> ?H) [0..<?n]"
  have dist: "distinct names" using known by (simp add: stripe_known_def)
  obtain sid where sid: "sid < length (hm_Id2BlkNames m)"
    "\<And>i. i < ?n \<Longrightarrow> map_of (hm_blkIdInStripe m) (names ! i) = Some (int i)"
    "\<And>i. i < ?n \<Longrightarrow> map_of (hm_blkName2StripeId m) (names ! i) = Some sid"
    "\<And>i. i < ?n \<Longrightarrow> map_of (hm_Id2BlkNames m ! sid) i = Some (names ! i)"
    using known by (auto simp: stripe_known_def)
  obtain s where s: "int_status ?n m status = Inr s" "length s = ?n"
    "\<And>i. i < ?n \<Longrightarrow> s ! i = (if names ! i \<in> ?H then 1 else 0)"
    using int_status_loop[OF known H(1), of "replicate ?n 0"] unfolding int_status_def by fastforce
  have avail: "avail s = sel"
    using s(2,3) by (auto simp: sel_def intro!: filter_cong split: if_splits)
  have sel: "distinct sel" "\<And>i. i \<in> set sel \<longleftrightarrow> i < ?n \<and> names ! i \<in> ?H"
    by (auto simp: sel_def)
  have bij: "bij_betw ((!) names) (set sel) ?H"
    using H(1) dist sel(2) by (fastforce simp: bij_betw_def inj_on_def nth_eq_iff_index_eq in_set_conv_nth)
  then have len: "length sel = k"
    using H(2) sel(1) bij_betw_same_card[OF bij] distinct_card by metis
  define cs where "cs = jerasure_matrix_multiply G (drop (idx * k) ?c) (snd (snd (jerasure_invert_matrix G (rows_of k ?c sel) k))) 1 k k k"
  have cs: "getCoefficient_multi G rs idx s = Some cs" "length cs = k"
    using getCoefficient_multi_eq[OF s(2) rs(3,4,1,2)] avail len sel(2) f
    by (simp_all add: cs_def length_matrix_multiply)
  define kvs where "kvs = map2 (\<lambda>r c. (om_get [] (hm_Id2BlkNames m ! sid) r, uint c)) sel cs"
  have run: "hdfs_getCoefficient G rs m (names ! idx) (Some status) = Inr (fold (\<lambda>(b, c). om_put b c) kvs [])"
    using name_coefs_eq[OF sid(1), of 0 0 s cs "[]"] s(1,2) cs sid(2,3)[OF f(1)] f(1) rs(2) avail len
    by (simp add: hdfs_getCoefficient_def om_get_def om_get0_def kvs_def sel_from_avail)
  have kvs: "kvs = map2 (\<lambda>r c. (names ! r, uint c)) sel cs"
    unfolding kvs_def using sel(2) sid(4) by (auto simp: om_get_def dest!: set_zip_leftD)
  have fst_kvs: "map fst kvs = map ((!) names) sel"
    using len cs(2) by (intro nth_equalityI) (simp_all add: kvs)
  have "inj_on ((!) names) (set sel)" using bij by (simp add: bij_betw_def)
  then have "distinct (map fst kvs)"
    using sel(1) by (simp add: fst_kvs distinct_map)
  then have coef: "om_get0 (fold (\<lambda>(b, c). om_put b c) kvs []) (names ! (sel ! j)) = uint (cs ! j)" if "j < k" for j
    using that len cs(2) by (intro om_get0_fold) (auto simp: kvs in_set_zip intro!: image_eqI[of _ _ "(sel ! j, cs ! j)"])
  have bij': "bij_betw (\<lambda>j. names ! (sel ! j)) {..<k} ?H"
    using bij_betw_trans[OF bij_betw_nth[OF sel(1) refl refl] bij] by (simp add: len o_def)
  have decode: "lin_comb G cs (map ((!) (map content names)) sel) sz = map content names ! idx"
    by (rule gf_complete.decode_blocks[OF G length_complete_enc_mat[OF rs(3,4)] len _ f(1) _ cs_def stripe])
      (use sel(2) inv in \<open>auto simp: sel_def\<close>)
  have "xs.F (\<lambda>b. gf_multiply G (word_of_int (om_get0 (fold (\<lambda>(b, c). om_put b c) kvs []) b)) (content b ! x)) ?H =
      content (names ! idx) ! x" if "x < sz" for x
  proof -
    have "xs.F (\<lambda>b. gf_multiply G (word_of_int (om_get0 (fold (\<lambda>(b, c). om_put b c) kvs []) b)) (content b ! x)) ?H =
        xor_sum (\<lambda>j. gf_multiply G (cs ! j) (content (names ! (sel ! j)) ! x)) k"
      by (subst xs.reindex_bij_betw[OF bij', symmetric]) (rule xs.cong, simp_all add: coef)
    also have "\<dots> = lin_comb G cs (map ((!) (map content names)) sel) sz ! x"
      using that len sel(2) nth_mem[of _ sel] by (auto simp: lin_byte_def intro!: xs.cong)
    finally show ?thesis using decode f(1) by simp
  qed
  moreover have "0 \<le> om_get0 (fold (\<lambda>(b, c). om_put b c) kvs []) b \<and> om_get0 (fold (\<lambda>(b, c). om_put b c) kvs []) b < 256"
    if "b \<in> ?H" for b
  proof -
    obtain j where "j < k" "b = names ! (sel ! j)"
      using bij' \<open>b \<in> ?H\<close> by (auto simp: bij_betw_def)
    then show ?thesis using coef uint_bounded[of "cs ! j"] by simp
  qed
  ultimately show ?thesis using run by blast
qed

end
