(* ===== verification/Hdfs_Repair.thy ===== *)
theory Hdfs_Repair
  imports Pipe_Repair Hdfs_Metadata
begin

text \<open>
  The pipelined repair of a block of an HDFS-RAID stripe, end to end: the metadata base
  (\<open>HDFS_MetadataBase.cc\<close>) names the helpers and their coefficients, the coordinator
  (\<open>PipeCoordinator.cc\<close>) sends the commands, the helpers (\<open>PipeDRWorker.cc\<close>) form the chain, and the
  client finds the lost block at the last helper.
\<close>

section \<open>The order of the pipeline is a permutation\<close>

lemma push_rack_mset:
  assumes "om_ok m"
  shows "mset (concat (map snd (push_rack r x m))) = mset (concat (map snd m)) + {#x#}"
proof -
  have "mset (concat (map snd (om_put r (om_get [] m r @ [x]) m))) = mset (concat (map snd m)) + {#x#}"
    using assms
  proof (induction m)
    case (Cons e m)
    obtain k v where e: "e = (k, v)" by (cases e)
    have "om_ok m" and less: "\<forall>k' \<in> fst ` set m. k < k'"
      using Cons.prems by (auto simp: om_ok_def e)
    moreover have "map_of m r = None" if "r < k"
      using less that by (auto simp: map_of_eq_None_iff)
    ultimately show ?case
      using Cons.IH by (auto simp: e om_get_def)
  qed (simp add: om_get_def)
  then show ?thesis by (simp add: push_rack_def)
qed

lemma racks_mset:
  assumes "om_ok m"
  shows "om_ok (fold (\<lambda>x. push_rack (g x) x) xs m) \<and>
    mset (concat (map snd (fold (\<lambda>x. push_rack (g x) x) xs m))) = mset (concat (map snd m)) + mset xs"
  using assms
proof (induction xs arbitrary: m)
  case (Cons x xs)
  have "om_ok (push_rack (g x) x m)" using Cons.prems by (simp add: push_rack_def om_ok_put)
  from Cons.IH[OF this] show ?case
    using push_rack_mset[OF Cons.prems] by simp
qed simp

definition shuffles_ok :: "hdfs_env \<Rightarrow> bool" where
  "shuffles_ok E \<longleftrightarrow> (\<forall>i xs. mset (he_shuffle E i xs) = mset xs)"

lemma mset_concat_filter:
  "mset (concat (map snd (filter (\<lambda>(r, _). \<not> P r) xs)) @ concat (map snd (filter (\<lambda>(r, _). P r) xs))) =
    mset (concat (map snd xs))"
  by (induction xs) auto

lemma mset_concat_shuffled:
  assumes "shuffles_ok E" and "length ns = length racks"
  shows "mset (concat (map snd (map2 (\<lambda>i (r, v). (r, he_shuffle E i v)) ns racks))) = mset (concat (map snd racks))"
  using assms(2) by (induction ns racks rule: list_induct2) (use assms(1) in \<open>auto simp: shuffles_ok_def\<close>)

lemma pipeline_order_mset:
  assumes "shuffles_ok E"
  shows "mset (pipeline_order conf E requestorIP ret) = mset ret"
proof (cases "shuffle conf")
  case True
  then show ?thesis using assms by (simp add: pipeline_order_def shuffles_ok_def Let_def)
next
  case False
  define racks where "racks = fold (\<lambda>s. push_rack (om_get [] (rackInfos conf) (fst s)) s) ret []"
  have "mset (concat (map snd racks)) = mset ret"
    using racks_mset[of "[]" "\<lambda>s. om_get [] (rackInfos conf) (fst s)" ret] by (simp add: racks_def om_ok_def)
  moreover have "mset (pipeline_order conf E requestorIP ret) =
      mset (concat (map snd (map2 (\<lambda>i (r, v). (r, he_shuffle E i v)) [0..<length racks] racks)))"
    using False mset_concat_filter[of "\<lambda>r. r = om_get [] (rackInfos conf) requestorIP"
        "map2 (\<lambda>i (r, v). (r, he_shuffle E i v)) [0..<length racks] racks"]
    by (simp add: pipeline_order_def Let_def racks_def)
  ultimately show ?thesis
    using mset_concat_shuffled[OF assms, of "[0..<length racks]" racks] by simp
qed

section \<open>The status the handler passes on\<close>

lemma map_of_fold_put:
  "map_of (fold (\<lambda>(_, b). om_put b v) stripe m) b = (if b \<in> snd ` set stripe then Some v else map_of m b)"
  by (induction stripe arbitrary: m) (auto simp: map_of_om_put)

lemma om_ok_fold_put: "om_ok m \<Longrightarrow> om_ok (fold (\<lambda>(_, b). om_put b v) stripe m)"
  by (induction stripe arbitrary: m) (auto simp: om_ok_put)

lemma helpers_of_status: "helpers_of (helper_status (single_status f blks) f stripe) = snd ` set stripe"
proof -
  let ?m0 = "om_put f 0 (map (\<lambda>(b, _). (b, 1)) (single_status f blks)) :: (string, int) omap"
  have "om_ok (single_status f blks)"
    by (auto simp: single_status_def om_ok_def[of "[]"] intro!: om_ok_put om_ok_fold_put)
  then have "om_ok ?m0"
    by (intro om_ok_put) (simp add: om_ok_def o_def case_prod_beta)
  then have "om_ok (helper_status (single_status f blks) f stripe)"
    unfolding helper_status_def by (rule om_ok_fold_put)
  then have "distinct (map fst (helper_status (single_status f blks) f stripe))"
    by (simp add: om_ok_def strict_sorted_iff)
  then have "helpers_of (helper_status (single_status f blks) f stripe) =
      {b. map_of (helper_status (single_status f blks) f stripe) b = Some 2}"
    by (auto simp: helpers_of_def)
  moreover have "map_of ?m0 b \<noteq> Some 2" for b
    by (auto simp: map_of_om_put dest!: map_of_SomeD split: if_splits)
  ultimately show ?thesis
    by (auto simp: helper_status_def map_of_fold_put split: if_splits)
qed

section \<open>A stripe the metadata base knows\<close>

text \<open>
  The maps of the metadata base agree on a stripe: \<open>names\<close> are its blocks in order, the maps know their
  addresses, and \<open>hs\<close> are the helpers recorded for the block \<open>f\<close>.
\<close>

definition hdfs_stripe :: "hdfs_meta \<Rightarrow> string list \<Rightarrow> string \<Rightarrow> (ip_addr \<times> string) list \<Rightarrow> bool" where
  "hdfs_stripe m names f hs \<longleftrightarrow>
     stripe_known m names \<and> f \<in> set names \<and> map_of (hm_blk2Stripe m) f = Some hs \<and>
     snd ` set hs \<subseteq> set names - {f} \<and> distinct (map snd hs) \<and>
     (\<forall>b \<in> set names. map_of (hm_blkName2Ip m) b \<noteq> None) \<and>
     (\<exists>sid < length (hm_Ip2BlkNames m). map_of (hm_blkName2StripeId m) f = Some sid \<and>
        snd ` set (hm_Ip2BlkNames m ! sid) \<subseteq> set names)"

lemma hdfs_knows:
  assumes "hdfs_stripe m names f hs"
  shows "\<exists>ip blks. knows_blk (hdfs_metadata G rs conf E m) f ip blks"
proof -
  obtain sid where sid: "sid < length (hm_Ip2BlkNames m)" "map_of (hm_blkName2StripeId m) f = Some sid"
    "snd ` set (hm_Ip2BlkNames m ! sid) \<subseteq> set names"
    using assms by (auto simp: hdfs_stripe_def)
  have ip: "\<exists>ip. hdfs_getIPfromBlk m b = Inr ip" if "b \<in> set names" for b
    using assms that by (auto simp: hdfs_stripe_def hdfs_getIPfromBlk_def)
  moreover have "f \<in> set names" using assms by (simp add: hdfs_stripe_def)
  ultimately obtain ip where "hdfs_getIPfromBlk m f = Inr ip" by blast
  moreover have "hdfs_getAllBlks m f = Inr (hm_Ip2BlkNames m ! sid)"
    using sid by (simp add: hdfs_getAllBlks_def)
  ultimately show ?thesis
    using ip sid(3) by (fastforce simp: knows_blk_def hdfs_metadata_def)
qed

lemma hdfs_helpers:
  assumes "hdfs_stripe m names f hs" and "\<not> rackAware conf"
  shows "hdfs_getStripeBlks conf E m f requestorIP = Inr (pipeline_order conf E requestorIP hs)"
  using assms by (auto simp: hdfs_getStripeBlks_def hdfs_getAllBlks_def hdfs_stripe_def om_get_def)

lemma hdfs_recovers:
  assumes G: "gf_complete G" and rs: "rs_ecK rs = length hs" "rs_ecN rs = length names" "length hs \<le> length names"
      "length (rs_encMat rs) = length hs * (length names - length hs)"
    and m: "hdfs_stripe m names f hs" and stripe: "mset stripe = mset hs"
    and code: "is_stripe G (length hs) (complete_enc_mat (length hs) (length names) (rs_encMat rs)) data sz (map content names)"
      "left_invertible G (length hs) (rows_of (length hs) (complete_enc_mat (length hs) (length names) (rs_encMat rs))
        (filter (\<lambda>i. names ! i \<in> snd ` set hs) [0..<length names]))"
  shows "\<exists>coef. hdfs_getCoefficient G rs m f (Some (helper_status (single_status f blks) f stripe)) = Inr coef \<and>
    recovers G coef stripe content (content f)"
proof -
  have perm: "set stripe = set hs" "distinct (map snd stripe)" "length stripe = length hs"
    using m mset_eq_setD[OF stripe] mset_eq_length[OF stripe] mset_eq_imp_distinct_iff[of "map snd stripe" "map snd hs"] stripe
    by (simp_all add: hdfs_stripe_def)
  have H: "helpers_of (helper_status (single_status f blks) f stripe) = snd ` set hs"
    by (simp add: helpers_of_status perm(1))
  obtain idx where idx: "idx < length names" "names ! idx = f"
    using m by (auto simp: hdfs_stripe_def in_set_conv_nth)
  have card: "card (snd ` set hs) = length hs"
    using m distinct_card[of "map snd hs"] by (simp add: hdfs_stripe_def)
  have sub: "snd ` set hs \<subseteq> set names" "f \<notin> snd ` set hs"
    using m by (auto simp: hdfs_stripe_def)
  have "length (content f) = sz"
    using code(1) idx by (auto simp: is_stripe_def)
  moreover have "\<exists>coef. hdfs_getCoefficient G rs m (names ! idx) (Some (helper_status (single_status f blks) f stripe)) = Inr coef \<and>
    (\<forall>b \<in> snd ` set hs. 0 \<le> om_get0 coef b \<and> om_get0 coef b < 256) \<and>
    (\<forall>x < sz. xs.F (\<lambda>b. gf_multiply G (word_of_int (om_get0 coef b)) (content b ! x)) (snd ` set hs) = content (names ! idx) ! x)"
    using hdfs_decodes[OF G rs _ _ _ idx(1), of m "helper_status (single_status f blks) f stripe" data sz content]
      m sub card code idx(2) unfolding H by (simp add: hdfs_stripe_def)
  ultimately show ?thesis
    using perm(1,2) by (simp add: idx(2) recovers_def byte_coefs_def)
qed

section \<open>The repair\<close>

text \<open>
  A configuration with which the repair works: the helpers' addresses in ascending order, the
  requestor and the coordinator not among the helpers of the block, names that fit a command and
  are not used for other queues.
\<close>

definition repair_conf_ok :: "repair_config \<Rightarrow> ip_addr \<Rightarrow> string \<Rightarrow> (ip_addr \<times> string) list \<Rightarrow> bool" where
  "repair_conf_ok conf requestorIP f hs \<longleftrightarrow>
     sorted_wrt (<) (helpersIPs conf) \<and> length (helpersIPs conf) < 2 ^ 31 \<and> 0 < coCmdDistThreadNum conf \<and>
     ecK conf = length hs \<and> hs \<noteq> [] \<and> length hs < 256 \<and> distinct (map fst hs) \<and>
     fst ` set hs \<subseteq> set (helpersIPs conf) - {requestorIP} \<and> coordinatorIP conf \<notin> fst ` set hs \<and>
     (\<forall>b \<in> snd ` set hs. length f + length b \<le> 992) \<and>
     \<not> rackAware conf \<and> \<not> pathSelectionEnabled conf \<and> has_substring ''basic'' (ECPipePolicy conf) \<and>
     8 dvd packetSize conf \<and> packets_ok conf \<and>
     f \<noteq> [] \<and> f \<noteq> ''dr_requests'' \<and> f \<noteq> ''dr_cmds'' \<and> (\<forall>i. f \<noteq> disQ i)"

lemma init_ctx_ok:
  assumes "init_ctx conf = Inr ip2Ctx" and "0 < coCmdDistThreadNum conf" and "sorted_wrt (<) (helpersIPs conf)"
  shows "map fst ip2Ctx = helpersIPs conf" and "ctx_ok conf ip2Ctx"
proof -
  have cs: "map fst ip2Ctx = helpersIPs conf \<and>
      (\<forall>j < length (helpersIPs conf). \<exists>q < coCmdDistThreadNum conf. snd (ip2Ctx ! j) = disQ q)"
    using fill_ctx_eq[OF assms(2), of 0 "helpersIPs conf" "length (helpersIPs conf)" 0] assms(1,2)
    by (auto simp: init_ctx_def rightBounder_eq share_start_def)
  then show "map fst ip2Ctx = helpersIPs conf" ..
  then have "length ip2Ctx = length (helpersIPs conf)" by (metis length_map)
  with cs assms(3) show "ctx_ok conf ip2Ctx"
    by (auto simp: ctx_ok_def strict_sorted_iff)
qed

lemma hdfs_pipe_case:
  assumes conf: "repair_conf_ok conf requestorIP f hs" and ctx: "init_ctx conf = Inr ip2Ctx"
    and m: "hdfs_stripe m names f hs" and "shuffles_ok E"
    and stripe: "stripe = pipeline_order conf E requestorIP hs"
    and known: "knows_blk (hdfs_metadata G rs conf E m) f ip blks"
    and coef: "hdfs_getCoefficient G rs m f (Some (helper_status (single_status f blks) f stripe)) = Inr coef"
  shows "pipe_case conf (hdfs_metadata G rs conf E m) ip2Ctx requestorIP f stripe coef"
proof -
  have mset: "mset stripe = mset hs" unfolding stripe by (rule pipeline_order_mset[OF assms(4)])
  then have perm: "set stripe = set hs" "length stripe = length hs" "distinct (map fst stripe)" "stripe \<noteq> []"
    using conf mset_eq_setD[OF mset] mset_eq_length[OF mset] mset_eq_imp_distinct_iff[of "map fst stripe" "map fst hs"]
    by (auto simp: repair_conf_ok_def)
  have "0 < coCmdDistThreadNum conf" "sorted_wrt (<) (helpersIPs conf)"
    using conf by (simp_all add: repair_conf_ok_def)
  note ctx' = init_ctx_ok[OF ctx this]
  have "length ip2Ctx < 2 ^ 31"
    using conf ctx'(1) by (metis length_map repair_conf_ok_def)
  then have "chain_stripe conf ip2Ctx requestorIP f stripe"
    using conf perm ctx' by (simp add: chain_stripe_def repair_conf_ok_def)
  moreover have "md_getStripeBlks (hdfs_metadata G rs conf E m) f requestorIP = Inr stripe"
    using hdfs_helpers[OF m] conf by (simp add: stripe hdfs_metadata_def repair_conf_ok_def)
  moreover have "md_getCoefficient (hdfs_metadata G rs conf E m) f (Some (helper_status (single_status f blks) f stripe)) = Inr coef"
    using coef by (simp add: hdfs_metadata_def)
  moreover have "stripe = take (ecK conf) stripe" "length stripe = ecK conf"
    using conf perm(2) by (simp_all add: repair_conf_ok_def)
  moreover have "coordinatorIP conf \<notin> fst ` set stripe"
    using conf perm(1) by (simp add: repair_conf_ok_def)
  moreover have "\<not> pathSelectionEnabled conf \<and> has_substring ''basic'' (ECPipePolicy conf) \<and>
      f \<noteq> [] \<and> f \<noteq> ''dr_requests'' \<and> f \<noteq> ''dr_cmds'' \<and> (\<forall>i. f \<noteq> disQ i)"
    using conf by (simp add: repair_conf_ok_def)
  ultimately show ?thesis
    using known unfolding pipe_case_def by metis
qed

text \<open>
  C6. The pipelined repair of a lost block with the HDFS-RAID metadata, end to end. If the stripe is a
  codeword of an invertible code and the configuration is one the coordinator can work with, with packets that end below
  \<open>2\<^sup>31\<close>, the range of the file offsets, then the
  handler answers the client's request with the last helper of a permutation of the recorded helpers;
  the command distributors can deliver all commands; and when they have, in whatever order, every
  helper starts, and under any interleaving of the threads of all helpers the client's queue at the last
  helper holds a prefix of the packets of the lost block, all of them when the helpers are done, which
  they can always reach. A client that runs next to them, with its own threads, writes a prefix of the lost block to its
  file at any time, can always finish, and then the file has all its bytes.
\<close>

theorem hdfs_pipe_repair:
  assumes "gf_complete G" and "io_ok E" and "shuffles_ok HE"
    and "rs_ecK rs = length hs" and "rs_ecN rs = length names" and "length hs \<le> length names"
    and "length (rs_encMat rs) = length hs * (length names - length hs)"
    and "hdfs_stripe m names f hs" and "repair_conf_ok conf (localIP client) f hs" and "init_ctx conf = Inr ip2Ctx"
    and "is_stripe G (length hs) (complete_enc_mat (length hs) (length names) (rs_encMat rs)) data sz (map content names)"
    and "left_invertible G (length hs) (rows_of (length hs) (complete_enc_mat (length hs) (length names) (rs_encMat rs))
      (filter (\<lambda>i. names ! i \<in> snd ` set hs) [0..<length names]))"
    and "pkt_base conf (packetCnt conf) \<le> sz"
    and "only_request conf client f w" and "idle_world conf hs w" and "chain_world conf f hs content w"
    and "same_cluster conf client" and "w_queues w (coordinatorIP conf) f = []"
  shows "\<exists>stripe w1. mset stripe = mset hs \<and>
    pipe_requestHandler conf (hdfs_metadata G rs conf HE m) linkWeight newNode0 ip2Ctx ps w = Inr (w1, ps) \<and>
    w_queues w1 (coordinatorIP conf) f = [put_word (fst (last stripe))] \<and>
    (\<exists>w2. (dist_step conf ip2Ctx)\<^sup>*\<^sup>* w1 w2 \<and> waiting conf w2 = 0) \<and>
    (\<forall>w2. (dist_step conf ip2Ctx)\<^sup>*\<^sup>* w1 w2 \<and> waiting conf w2 = 0 \<longrightarrow>
      (\<exists>st. receive_all conf (map fst stripe) w2 = Inr st \<and>
        repaired G E conf (fst (last stripe)) f (content f) st \<and>
        served (pipe_step G E conf) client f
          (take (packetCnt conf * packetSize conf) (drop (packetSkipSize conf) (content f))) st))"
proof -
  define stripe where "stripe = pipeline_order conf HE (localIP client) hs"
  have mset: "mset stripe = mset hs" unfolding stripe_def by (rule pipeline_order_mset[OF assms(3)])
  then have set: "set stripe = set hs" by (rule mset_eq_setD)
  obtain ip blks where known: "knows_blk (hdfs_metadata G rs conf HE m) f ip blks"
    using hdfs_knows[OF assms(8)] by blast
  obtain coef where coef: "hdfs_getCoefficient G rs m f (Some (helper_status (single_status f blks) f stripe)) = Inr coef"
    "recovers G coef stripe content (content f)"
    using hdfs_recovers[OF assms(1,4-8) mset assms(11,12)] by blast
  note case_ok = hdfs_pipe_case[OF assms(9,10,8,3) stripe_def known coef(1)]
  have "f \<in> set names" using assms(8) by (simp add: hdfs_stripe_def)
  then have "length (content f) = sz"
    using assms(11) by (auto simp: is_stripe_def in_set_conv_nth)
  moreover have "8 dvd packetSize conf" "packets_ok conf" using assms(9) by (simp_all add: repair_conf_ok_def)
  moreover have "idle_world conf stripe w" "chain_world conf f stripe content w"
    using assms(15,16) by (simp_all add: idle_world_def no_cmds_def chain_world_def set)
  ultimately obtain w1 where w1: "pipe_requestHandler conf (hdfs_metadata G rs conf HE m) linkWeight newNode0 ip2Ctx ps w = Inr (w1, ps)"
    "w_queues w1 (coordinatorIP conf) f = [put_word (fst (last stripe))]"
    "\<exists>w2. (dist_step conf ip2Ctx)\<^sup>*\<^sup>* w1 w2 \<and> waiting conf w2 = 0"
    "\<And>w2. (dist_step conf ip2Ctx)\<^sup>*\<^sup>* w1 w2 \<Longrightarrow> waiting conf w2 = 0 \<Longrightarrow>
      \<exists>st. receive_all conf (map fst stripe) w2 = Inr st \<and> repaired G E conf (fst (last stripe)) f (content f) st \<and>
        pipe_for f (snd st) \<and> w_queues (fst st) (coordinatorIP conf) f = w_queues w1 (coordinatorIP conf) f"
    using pipe_repair[OF assms(1,2) _ _ case_ok coef(2) _ assms(14)] assms(13,18) by fastforce
  have "fst (last stripe) \<in> fst ` set hs" using set assms(9) by (cases stripe rule: rev_cases) (auto simp: repair_conf_ok_def)
  moreover have "fst ` set hs \<subseteq> set (helpersIPs conf)" "coordinatorIP conf \<notin> fst ` set hs" "sorted_wrt (<) (helpersIPs conf)"
    using assms(9) unfolding repair_conf_ok_def by blast+
  ultimately have "client_ok client (fst (last stripe))"
    using client_okI[OF assms(17)] by (metis subsetD)
  then have "served (pipe_step G E conf) client f
      (take (packetCnt conf * packetSize conf) (drop (packetSkipSize conf) (content f))) st"
    if "repaired G E conf (fst (last stripe)) f (content f) st" "pipe_for f (snd st)"
      "w_queues (fst st) (coordinatorIP conf) f = w_queues w1 (coordinatorIP conf) f" for st
    using pipe_served[OF that(1,2) _ assms(17)] that(3) w1(2) assms(13) \<open>length (content f) = sz\<close> by simp
  then show ?thesis using mset w1 by blast
qed

section \<open>An example\<close>

text \<open>The stripe of the other examples with 16 bytes per block; \<open>c\<close> is lost, client 13 asks for it.\<close>

definition repair_env :: env where
  "repair_env = \<lparr>io_chunk = (\<lambda>n _. n), malloc_byte = 0\<rparr>"

definition keep_order :: hdfs_env where
  "keep_order = \<lparr>he_shuffle = (\<lambda>_ xs. xs), he_sort = (\<lambda>xs. xs)\<rparr>"

definition repair_conf :: repair_config where
  "repair_conf = sample_repair_conf\<lparr>packetSize := 8, shuffle := True, localIP := 13\<rparr>"

definition repair_meta :: hdfs_meta where
  "repair_meta =
     \<lparr>hm_blk2Stripe = [(''c'', [(11, ''a''), (12, ''b'')])],
      hm_blkIdInStripe = [(''a'', 0), (''b'', 1), (''c'', 2)],
      hm_blkName2Ip = [(''a'', 11), (''b'', 12), (''c'', 13)],
      hm_blkName2StripeId = [(''a'', 0), (''b'', 0), (''c'', 0)],
      hm_Ip2BlkNames = [[(11, ''a''), (12, ''b''), (13, ''c'')]],
      hm_Id2BlkNames = [[(0, ''a''), (1, ''b''), (2, ''c'')]],
      hm_blk2All = [], hm_loadbalance = False, hm_coefficient = [], hm_order = []\<rparr>"

definition repair_content :: "string \<Rightarrow> byte list" where
  "repair_content b = replicate 16 (if b = ''a'' then 9 else if b = ''b'' then 3 else 5)"

definition repair_world :: world where
  "repair_world =
     \<lparr>w_queues = (\<lambda>ip key. if ip = 10 \<and> key = ''dr_requests''
        then [put_word 13 @ put_int 0 @ put_int 1 @ bytes_of ''c''] else []),
      w_files = (\<lambda>ip b. if (ip, b) \<in> {(11, ''a''), (12, ''b'')} then Some (repair_content b) else None)\<rparr>"

abbreviation repair_hs :: "(ip_addr \<times> string) list" where
  "repair_hs \<equiv> [(11, ''a''), (12, ''b'')]"

lemma repair_code:
  "is_stripe gf256 2 (complete_enc_mat 2 3 [1, 2]) [replicate 16 3, replicate 16 5] 16 (map repair_content [''a'', ''b'', ''c''])"
  unfolding sample_complete is_stripe_def
proof (intro conjI allI impI)
  fix r assume "r < length (map repair_content [''a'', ''b'', ''c''])"
  then consider "r = 0" | "r = 1" | "r = 2" by fastforce
  then show "map repair_content [''a'', ''b'', ''c''] ! r =
      lin_comb gf256 (take 2 (drop (r * 2) [1, 2, 1, 0, 0, 1])) [replicate 16 3, replicate 16 5] 16"
    by cases (auto intro!: nth_equalityI simp: repair_content_def lin_byte_def gf256_eval)
qed simp

lemma repair_stripe: "hdfs_stripe repair_meta [''a'', ''b'', ''c''] ''c'' repair_hs"
proof -
  have "\<forall>i < 3. map_of (hm_blkIdInStripe repair_meta) ([''a'', ''b'', ''c''] ! i) = Some (int i) \<and>
      map_of (hm_blkName2StripeId repair_meta) ([''a'', ''b'', ''c''] ! i) = Some 0 \<and>
      map_of (hm_Id2BlkNames repair_meta ! 0) i = Some ([''a'', ''b'', ''c''] ! i)"
    by (simp add: repair_meta_def All_less_Suc numeral_3_eq_3)
  then have "stripe_known repair_meta [''a'', ''b'', ''c'']"
    by (simp add: stripe_known_def repair_meta_def numeral_3_eq_3)
  then show ?thesis
    by (simp add: hdfs_stripe_def repair_meta_def)
qed

lemma repair_conf_sample: "repair_conf_ok repair_conf 13 ''c'' repair_hs"
  by (simp add: repair_conf_ok_def repair_conf_def sample_repair_conf_def packets_ok_def disQ_def)

lemma repair_ctx: "init_ctx repair_conf = Inr [(11, disQ 0), (12, disQ 0), (13, disQ 1)]"
proof -
  have "rightBounder 3 2 = Inr [2, 3]"
    by (simp add: rightBounder_eq share_start_def numeral_3_eq_3 upt_rec)
  moreover have "length (helpersIPs repair_conf) = 3" "helpersIPs repair_conf = [11, 12, 13]" "coCmdDistThreadNum repair_conf = 2"
    by (simp_all add: repair_conf_def sample_repair_conf_def)
  ultimately show ?thesis by (simp add: init_ctx_def numeral_3_eq_3)
qed

lemma repair_worlds:
  "only_request repair_conf repair_conf ''c'' repair_world" "idle_world repair_conf repair_hs repair_world"
  "chain_world repair_conf ''c'' repair_hs repair_content repair_world"
  by (simp_all add: only_requests_def idle_world_def no_cmds_def chain_world_def repair_world_def repair_conf_def
      sample_repair_conf_def dr_request_def request_names_def COMMAND_MAX_LENGTH_def repair_content_def)

lemma repair_client:
  "same_cluster repair_conf repair_conf"
  "take (packetCnt repair_conf * packetSize repair_conf) (drop (packetSkipSize repair_conf) (repair_content ''c'')) = repair_content ''c''"
  by (simp_all add: same_cluster_def pipe_policy_def cycl_policy_def repair_conf_def sample_repair_conf_def repair_content_def)

theorem hdfs_pipe_repair_witness:
  "\<exists>stripe w1. mset stripe = mset repair_hs \<and>
    pipe_requestHandler repair_conf (hdfs_metadata gf256 sample_rs repair_conf keep_order repair_meta) [] 0
      [(11, disQ 0), (12, disQ 0), (13, disQ 1)] \<lparr>globalMax = 0, ps_path = []\<rparr> repair_world =
      Inr (w1, \<lparr>globalMax = 0, ps_path = []\<rparr>) \<and>
    w_queues w1 10 ''c'' = [put_word (fst (last stripe))] \<and>
    (\<exists>w2 st. (dist_step repair_conf [(11, disQ 0), (12, disQ 0), (13, disQ 1)])\<^sup>*\<^sup>* w1 w2 \<and>
      receive_all repair_conf (map fst stripe) w2 = Inr st \<and>
      repaired gf256 repair_env repair_conf (fst (last stripe)) ''c'' (repair_content ''c'') st \<and>
      served (pipe_step gf256 repair_env repair_conf) repair_conf ''c'' (repair_content ''c'') st)"
proof -
  have helpers: "filter (\<lambda>i. [''a'', ''b'', ''c''] ! i \<in> snd ` set repair_hs) [0..<length [''a'', ''b'', ''c'']] = [0, 1]"
    by (simp add: upt_rec)
  have inv: "left_invertible gf256 2 (rows_of 2 (complete_enc_mat 2 3 [1, 2]) [0, 1])"
    using sample_invertible by (simp only: sample_complete sample_rows)
  have "io_ok repair_env" "shuffles_ok keep_order" "localIP repair_conf = 13" "coordinatorIP repair_conf = 10"
    "pkt_base repair_conf (packetCnt repair_conf) \<le> 16" "w_queues repair_world 10 ''c'' = []"
    by (simp_all add: io_ok_def repair_env_def shuffles_ok_def keep_order_def repair_conf_def sample_repair_conf_def
        repair_world_def)
  then obtain stripe w1 w2 where "mset stripe = mset repair_hs"
    "pipe_requestHandler repair_conf (hdfs_metadata gf256 sample_rs repair_conf keep_order repair_meta) [] 0
      [(11, disQ 0), (12, disQ 0), (13, disQ 1)] \<lparr>globalMax = 0, ps_path = []\<rparr> repair_world =
      Inr (w1, \<lparr>globalMax = 0, ps_path = []\<rparr>)" "w_queues w1 10 ''c'' = [put_word (fst (last stripe))]"
    "(dist_step repair_conf [(11, disQ 0), (12, disQ 0), (13, disQ 1)])\<^sup>*\<^sup>* w1 w2" "waiting repair_conf w2 = 0"
    "\<forall>w2. (dist_step repair_conf [(11, disQ 0), (12, disQ 0), (13, disQ 1)])\<^sup>*\<^sup>* w1 w2 \<and> waiting repair_conf w2 = 0 \<longrightarrow>
      (\<exists>st. receive_all repair_conf (map fst stripe) w2 = Inr st \<and>
        repaired gf256 repair_env repair_conf (fst (last stripe)) ''c'' (repair_content ''c'') st \<and>
        served (pipe_step gf256 repair_env repair_conf) repair_conf ''c'' (repair_content ''c'') st)"
    using hdfs_pipe_repair[OF gf256.gf_complete_axioms, of repair_env keep_order sample_rs repair_hs "[''a'', ''b'', ''c'']"
        repair_meta "''c''" repair_conf repair_conf "[(11, disQ 0), (12, disQ 0), (13, disQ 1)]"
        "[replicate 16 3, replicate 16 5]" 16 repair_content repair_world "[]" 0 "\<lparr>globalMax = 0, ps_path = []\<rparr>"]
      repair_stripe repair_conf_sample repair_ctx repair_code inv repair_worlds repair_client(1)
    unfolding helpers repair_client(2) by (auto simp: numeral_2_eq_2 numeral_3_eq_3)
  then show ?thesis by blast
qed

end
