(* ===== verification/Pipe_Order.thy ===== *)
theory Pipe_Order
  imports Pipe_Repair
begin

text \<open>
  The choice of the repair path in \<open>PipeCoordinator.cc\<close>, on top of \<open>PathSelection.cc\<close>: the chain is
  the helpers of the stripe in the order of the best path. And the wire format of the commands.
\<close>

section \<open>The order of the chain\<close>

lemma mset_tail_path:
  assumes "simple_path (Suc k) k p"
  shows "mset (map (\<lambda>x. x - 1) (tl p)) = mset [0..<k]"
proof -
  obtain q where p: "p = 0 # q" "length q = k" "distinct q" and q: "0 \<notin> set q" "\<forall>x \<in> set q. x \<le> k"
    using assms by (cases p) (auto simp: simple_path_def less_Suc_eq_le)
  have "x \<in> {1..k}" if "x \<in> set q" for x
    using q that by (cases x) auto
  then have "set q = {1..k}"
    using p(2,3) by (intro card_subset_eq) (auto simp: distinct_card)
  moreover have "set [1..<Suc k] = {1..k}"
    by (simp only: set_upt atLeastLessThanSuc_atLeastAtMost)
  ultimately have "set q = set [1..<Suc k]" by (simp only:)
  then have "mset q = mset [1..<Suc k]"
    using set_eq_iff_mset_eq_distinct[OF p(3) distinct_upt[of 1 "Suc k"]] by blast
  then have "mset (map (\<lambda>x. x - 1) q) = mset (map (\<lambda>x. x - 1) [1..<Suc k])"
    by (simp only: mset_map)
  also have "map (\<lambda>x. x - 1) [1..<Suc k] = [0..<k]"
    by (rule nth_equalityI) (simp_all del: upt_Suc)
  finally show ?thesis by (simp add: p(1))
qed

lemma path_blocks:
  assumes p: "simple_path (Suc k) k p" and len: "length stripe = k"
  shows "mapE (\<lambda>i. bindE (atE p (int k - int i)) (\<lambda>x. atE stripe (int x - 1))) [0..<k] =
      Inr (map (\<lambda>i. stripe ! (p ! (k - i) - 1)) [0..<k])"
    and "mset (map (\<lambda>i. stripe ! (p ! (k - i) - 1)) [0..<k]) = mset stripe"
proof -
  obtain q where q: "p = 0 # q" "length q = k" "distinct (0 # q)" "\<forall>x \<in> set p. x < Suc k"
    using p by (cases p) (auto simp: simple_path_def)
  have node: "0 < p ! (k - i) \<and> p ! (k - i) \<le> k" if "i < k" for i
  proof -
    have "p ! (k - i) = q ! (k - Suc i)" "k - Suc i < length q"
      using that q(1,2) by (simp_all add: nth_Cons')
    then have "p ! (k - i) \<in> set q" by simp
    then show ?thesis using q(1,3,4) by (auto simp: less_Suc_eq_le intro: gr0I)
  qed
  show "mapE (\<lambda>i. bindE (atE p (int k - int i)) (\<lambda>x. atE stripe (int x - 1))) [0..<k] =
      Inr (map (\<lambda>i. stripe ! (p ! (k - i) - 1)) [0..<k])"
  proof (rule mapE_Inr_map)
    fix i assume "i \<in> set [0..<k]"
    then have i: "i < k" by simp
    then have idx: "int k - int i = int (k - i)" "int (p ! (k - i)) - 1 = int (p ! (k - i) - 1)"
      using node[OF i] by simp_all
    have "k - i < length p" "p ! (k - i) - 1 < length stripe"
      using i node[OF i] q(1,2) len by (simp, linarith)
    then show "bindE (atE p (int k - int i)) (\<lambda>x. atE stripe (int x - 1)) = Inr (stripe ! (p ! (k - i) - 1))"
      by (simp only: idx atE_nat bindE_Inr)
  qed
  have "map (\<lambda>i. stripe ! (p ! (k - i) - 1)) [0..<k] = map ((!) stripe) (map (\<lambda>x. x - 1) (rev q))"
    using q(1,2) by (intro nth_equalityI) (simp_all add: rev_nth nth_Cons')
  also have "mset \<dots> = image_mset ((!) stripe) (mset (map (\<lambda>x. x - 1) (tl p)))"
    by (simp add: q(1) multiset.map_comp)
  also have "\<dots> = mset (map ((!) stripe) [0..<k])"
    using mset_tail_path[OF p] by simp
  finally show "mset (map (\<lambda>i. stripe ! (p ! (k - i) - 1)) [0..<k]) = mset stripe"
    unfolding len[symmetric] by (simp only: map_nth)
qed

text \<open>
  C13. With path selection, and if some path beats the greedy one, the chain the coordinator builds is a permutation of the helpers of the
  stripe, along a path from the requestor through all helpers whose slowest link is as fast as that of
  any such path: read from the end, so that the requestor's neighbour comes last. If no path beats the greedy one, no chain is built: the
  path is empty, and the coordinator reads beyond it.
\<close>

theorem path_order_best:
  assumes "length stripe = ecK conf" and "2 \<le> ecK conf"
    and "weight_mat linkWeight (map (om_get0 (ip2idx conf)) (requestorIP # map fst stripe)) = Inr mat" and "weights_ok mat"
    and "initVal newNode0 mat (ecK conf) (ps_path ps) = Inr (g, r)"
  shows "if best mat (ecK conf) < g
    then \<exists>temp ps' p. path_order conf linkWeight newNode0 requestorIP stripe ps = Inr (temp, ps') \<and>
      mset temp = mset stripe \<and> simple_path (Suc (ecK conf)) (ecK conf) p \<and> bottleneck mat p = best mat (ecK conf) \<and>
      temp = map (\<lambda>i. stripe ! (p ! (ecK conf - i) - 1)) [0..<ecK conf]
    else path_order conf linkWeight newNode0 requestorIP stripe ps = Inl Out_Of_Bounds"
proof -
  let ?k = "ecK conf" and ?order = "path_order conf linkWeight newNode0 requestorIP stripe ps"
  have helpers: "mapE (\<lambda>i. atE stripe (int i)) [0..<?k] = Inr stripe"
    using mapE_Inr_map[of "[0..<?k]" "\<lambda>i. atE stripe (int i)" "(!) stripe"] assms(1)
    by (simp add: map_nth[of stripe, unfolded assms(1)])
  have len: "length mat = Suc ?k"
    using mapE_length[OF assms(3)[unfolded weight_mat_def]] assms(1) by simp
  obtain ps' where ps': "search newNode0 mat ?k ps = Inr ps'"
    "if best mat ?k < g then simple_path (Suc ?k) ?k (ps_path ps') \<and> bottleneck mat (ps_path ps') = best mat ?k else ps_path ps' = []"
    using search_eq[OF assms(4,2) _ assms(5)] unfolding len by (metis lessI)
  show ?thesis
  proof (cases "best mat ?k < g")
    case True
    then have path: "simple_path (Suc ?k) ?k (ps_path ps')" "bottleneck mat (ps_path ps') = best mat ?k" using ps'(2) by simp_all
    then have "intelligentSearch newNode0 mat ?k ps = Inr ps'"
      using print_path_ok[OF assms(4)] len ps'(1) by (simp add: intelligentSearch_def)
    then have "?order = Inr (map (\<lambda>i. stripe ! (ps_path ps' ! (?k - i) - 1)) [0..<?k], ps')"
      unfolding path_order_def helpers bindE_Inr assms(3) using path_blocks(1)[OF path(1) assms(1)] by simp
    then show ?thesis using True path path_blocks(2)[OF path(1) assms(1)] by (simp only: if_True) blast
  next
    case False
    then have "intelligentSearch newNode0 mat ?k ps = Inl Out_Of_Bounds"
      using ps' by (simp add: intelligentSearch_def print_path_empty)
    then show ?thesis using False unfolding path_order_def helpers bindE_Inr assms(3) by simp
  qed
qed

definition sample_links :: weights where
  "sample_links = [[0, 9, 1], [3, 0, 2], [1, 2, 0]]"

theorem path_order_best_witness:
  "(\<exists>temp ps'. path_order sample_repair_conf sample_links 0 13 [(11, ''a''), (12, ''b'')] no_path = Inr (temp, ps') \<and>
    mset temp = {#(11, ''a''), (12, ''b'')#}) \<and>
   path_order sample_repair_conf even_weights 0 13 [(11, ''a''), (12, ''b'')] no_path = Inl Out_Of_Bounds"
proof -
  let ?nodes = "map (om_get0 (ip2idx sample_repair_conf)) (13 # map fst [(11, ''a''), (12, ''b'')])"
  have conf: "ecK sample_repair_conf = 2" "ip2idx sample_repair_conf = [(11, 0), (12, 1), (13, 2)]"
    by (simp_all add: ip2idx_def sample_repair_conf_def upt_rec)
  have mat: "weight_mat sample_links ?nodes = Inr sample_weights"
    by (simp add: conf om_get0_def weight_mat_def cell_def atE_def sample_links_def sample_weights_def)
  have even: "weight_mat even_weights ?nodes = Inr even_weights"
    by (simp add: conf om_get0_def weight_mat_def cell_def atE_def even_weights_def numeral_3_eq_3)
  show ?thesis
    using path_order_best[OF _ _ mat sample_weights_ok(1), of 0 no_path 9 "[0, 1, 2]"] sample_initVal sample_best
      path_order_best[OF _ _ even even_weights_ok(1), of 0 no_path 1 "[0, 1, 2]"] even_initVal even_best
    by (auto simp: conf no_path_def)
qed

section \<open>The wire format\<close>

text \<open>
  C32. A command survives the wire: whatever the names (as long as they fit the command buffer), the
  addresses and the coefficient, the helper that receives a command (without its first field, which the
  distributor uses) reads the fields the coordinator wrote.
\<close>

theorem pipe_command_roundtrip:
  assumes "length f + length l \<le> 992" and "int32 k" and "int32 ident" and "0 \<le> coef" and "coef < 256"
  shows "\<exists>cmd. pipe_cmd idx k requestorIP prevIP nextIP ident coef f l = Inr cmd \<and> length cmd \<le> COMMAND_MAX_LENGTH \<and>
    parse_pipe_cmd (drop 4 cmd) = Inr \<lparr>pj_ecK = k, pj_requestorIP = requestorIP, pj_prevIP = prevIP,
      pj_nextIP = nextIP, pj_id = ident, pj_coefficient = coef, pj_lostBlkName = f, pj_localBlkName = l\<rparr>"
proof -
  obtain cmd where "pipe_cmd idx k requestorIP prevIP nextIP ident coef f l = Inr cmd" "length cmd \<le> COMMAND_MAX_LENGTH"
    using assms(1) by (simp add: pipe_cmd_def COMMAND_MAX_LENGTH_def Let_def)
  with parse_pipe_cmd_eq[OF _ assms(2-)] show ?thesis by blast
qed

theorem pipe_command_roundtrip_witness:
  "\<exists>cmd. pipe_cmd 1 2 13 12 12 0 142 ''c'' ''a'' = Inr cmd \<and>
    parse_pipe_cmd (drop 4 cmd) = Inr \<lparr>pj_ecK = 2, pj_requestorIP = 13, pj_prevIP = 12, pj_nextIP = 12, pj_id = 0,
      pj_coefficient = 142, pj_lostBlkName = ''c'', pj_localBlkName = ''a''\<rparr>"
  using pipe_command_roundtrip[of "''c''" "''a''" 2 0 142 1 13 12 12] by auto

end
