(* ===== verification/Pipe_Faults.thy ===== *)
theory Pipe_Faults
  imports Pipe_Chain
begin

text \<open>
  What can go wrong in a helper of a pipelined repair (\<open>PipeDRWorker.cc\<close>): a wake-up that is lost
  between the threads, and the debug output of short blocks.
\<close>

section \<open>The lost wake-up\<close>

inductive_simps worker_step_iff: "worker_step G E conf (w, p) st"

text \<open>The reader looks at none of the fields the waiting threads change.\<close>

lemma pipe_read_asleep:
  assumes "pipe_read G E conf w p = Inr p'" and "m \<noteq> MWait"
  shows "pipe_read G E conf w (p\<lparr>pw_mpc := m, pw_spc := s\<rparr>) =
    Inr (p\<lparr>pw_disk := pw_disk p', pw_read := Suc (pw_read p), pw_mpc := m, pw_spc := s\<rparr>)"
  using assms by (auto simp: pipe_read_def res_simps Let_def split: option.splits)

text \<open>
  C36. A helper can hang for ever. The main thread tests \<open>_diskFlag\<close> before it takes the lock, so that
  the notification of the last packet can fall between the test and the wait: with one packet to
  send, a schedule leads from the start to a state in which the packet has been read, all threads that
  are left wait for each other's notification, and nothing but a spurious wake-up goes on.
\<close>

theorem pipe_lost_wakeup:
  assumes "packetCnt conf = 1" and "pipe_read G E conf w p = Inr p'"
    and "pw_read p = 0" and "pw_main p = 0" and "pw_sent p = 0" and "pw_toSend p = 0"
    and "pw_mpc p = MCheck" and "pw_spc p = SCheck"
  shows "\<exists>q. (worker_step G E conf)\<^sup>*\<^sup>* (w, p) (w, q) \<and> pw_read q = 1 \<and> pw_sent q = 0 \<and> \<not> finished conf q \<and>
    (\<nexists>st. worker_step G E conf (w, q) st)"
proof -
  let ?p1 = "p\<lparr>pw_mpc := MSleep\<rparr>" and ?p2 = "p\<lparr>pw_mpc := MSleep, pw_spc := SSleep\<rparr>"
    and ?p3 = "p\<lparr>pw_mpc := MSleep, pw_spc := SWait\<rparr>"
    and ?p4 = "p\<lparr>pw_disk := pw_disk p', pw_read := 1, pw_mpc := MSleep, pw_spc := SWait\<rparr>"
    and ?q = "p\<lparr>pw_disk := pw_disk p', pw_read := 1, pw_spc := SWait, pw_mpc := MWait\<rparr>"
  have "worker_step G E conf (w, p) (w, ?p1)"
    using worker_step.Main_Check[of p conf G E w] assms by simp
  moreover have "worker_step G E conf (w, ?p1) (w, ?p2)"
    using worker_step.Send_Check[of ?p1 conf G E w] assms by simp
  moreover have "worker_step G E conf (w, ?p2) (w, ?p3)"
    using worker_step.Send_Sleep[of ?p2 G E conf w] by simp
  moreover have "worker_step G E conf (w, ?p3) (w, ?p4)"
    using worker_step.Read[of ?p3 conf G E w ?p4] pipe_read_asleep[OF assms(2), of MSleep SWait] assms(1,3) by simp
  moreover have "worker_step G E conf (w, ?p4) (w, ?q)"
    using worker_step.Main_Sleep[of ?p4 G E conf w] by simp
  ultimately have "(worker_step G E conf)\<^sup>*\<^sup>* (w, p) (w, ?q)"
    by (meson converse_rtranclp_into_rtranclp rtranclp.rtrancl_refl)
  moreover have "\<nexists>st. worker_step G E conf (w, ?q) st"
    using assms(1) by (auto simp: worker_step_iff)
  ultimately show ?thesis
    using assms by (intro exI[of _ ?q]) (simp add: finished_def)
qed

section \<open>The debug output\<close>

text \<open>
  C37. With three to nine packets a helper crashes: the debug output computes \<open>i % (_packetCnt / 10)\<close>
  for every packet but the first and the last, so that the second packet divides by zero, although the
  file is there and long enough and its offset fits an \<open>int\<close>.
\<close>

theorem pipe_log_crash:
  assumes "3 \<le> packetCnt conf" and "packetCnt conf < 10" and "io_ok E"
    and "w_files w (pw_ip p) (pj_localBlkName (pw_job p)) = Some blk"
    and "pkt_base conf (packetCnt conf) \<le> length blk" and "pkt_base conf 1 < 2 ^ 31"
    and "pw_read p = 1" and "1 < length (pw_disk p)" and "length (pw_disk p ! 1) = packetSize conf"
  shows "pipe_read G E conf w p = Inl Div_By_Zero"
proof -
  have room: "pkt_base conf 1 + packetSize conf \<le> length blk"
    using pkt_in_file[OF assms(5), of 1] assms(1) by simp
  have "int (pkt_base conf 1) < 2 ^ 31" using assms(6) by simp
  then have offset: "sint (word_of_int (int (pkt_base conf 1)) :: 32 word) = int (pkt_base conf 1)"
    by (subst sint_sbintrunc') (simp add: signed_take_bit_int_eq_self del: of_nat_add of_nat_mult)
  have "\<exists>buf. read_loop E blk (pkt_base conf 1) (packetSize conf) 0 (pw_disk p ! 1) = Inr buf"
    using read_loop_eq[OF assms(3), of "pkt_base conf 1" "packetSize conf" blk] assms(9) room by simp
  then show ?thesis
    using assms(1,2,4,7,8) unfolding pipe_read_def assms(7) offset
    by (auto simp: log_pkt_def Let_def simp del: of_nat_add of_nat_mult)
qed

section \<open>Examples\<close>

definition fault_job :: pipe_job where
  "fault_job = \<lparr>pj_ecK = 2, pj_requestorIP = 13, pj_prevIP = 12, pj_nextIP = 12, pj_id = 0, pj_coefficient = 1,
     pj_lostBlkName = ''c'', pj_localBlkName = ''a''\<rparr>"

definition fault_conf :: "nat \<Rightarrow> repair_config" where
  "fault_conf n = sample_repair_conf\<lparr>packetCnt := n\<rparr>"

definition fault_worker :: "nat \<Rightarrow> nat \<Rightarrow> pipe_worker" where
  "fault_worker n r =
     \<lparr>pw_ip = 11, pw_job = fault_job, pw_prev = Some 12, pw_disk = replicate n (replicate 4 0),
      pw_read = r, pw_main = 0, pw_mpc = MCheck, pw_toSend = 0, pw_sent = 0, pw_spc = SCheck\<rparr>"

definition fault_world :: world where
  "fault_world = \<lparr>w_queues = (\<lambda>_ _. []), w_files = (\<lambda>_ b. if b = ''a'' then Some (replicate 40 9) else None)\<rparr>"

definition fault_env :: env where
  "fault_env = \<lparr>io_chunk = (\<lambda>n _. n), malloc_byte = 0\<rparr>"

lemma fault_io: "io_ok fault_env"
  by (simp add: io_ok_def fault_env_def)

lemma fault_reads:
  "\<exists>p'. pipe_read gf256 fault_env (fault_conf 1) fault_world (fault_worker 1 0) = Inr p'"
proof -
  have "helper_ok (fault_conf 1) ''c'' [1, 1] [replicate 40 9, []] [11, 12] 0 fault_world (fault_worker 1 0)"
    "helper_inv gf256 (fault_conf 1) [1, 1] [replicate 40 9, []] 0 (fault_worker 1 0)"
    by (simp_all add: helper_ok_def helper_inv_def counters_ok_def disk_ok_def fault_worker_def fault_world_def
        fault_conf_def fault_job_def sample_repair_conf_def send_key_def packets_ok_def)
  from pipe_read_eq[OF gf256.gf_complete_axioms fault_io this] show ?thesis
    by (simp add: fault_worker_def fault_conf_def)
qed

theorem pipe_lost_wakeup_witness:
  "\<exists>q. (worker_step gf256 fault_env (fault_conf 1))\<^sup>*\<^sup>* (fault_world, fault_worker 1 0) (fault_world, q) \<and>
    pw_read q = 1 \<and> pw_sent q = 0 \<and> \<not> finished (fault_conf 1) q \<and>
    (\<nexists>st. worker_step gf256 fault_env (fault_conf 1) (fault_world, q) st)"
proof -
  obtain p' where "pipe_read gf256 fault_env (fault_conf 1) fault_world (fault_worker 1 0) = Inr p'"
    using fault_reads by blast
  then show ?thesis
    by (rule pipe_lost_wakeup[rotated]) (simp_all add: fault_worker_def fault_conf_def)
qed

theorem pipe_log_crash_witness:
  "pipe_read gf256 fault_env (fault_conf 4) fault_world (fault_worker 4 1) = Inl Div_By_Zero"
  by (rule pipe_log_crash[OF _ _ fault_io, of _ _ _ "replicate 40 9"])
    (simp_all add: fault_worker_def fault_conf_def fault_world_def fault_job_def sample_repair_conf_def)

end
