(* ===== verification/Ppr_Tree.thy ===== *)
theory Ppr_Tree
  imports Prelude
begin

text \<open>
  The tree of a partial parallel repair (\<open>PPRCoordinator.cc\<close>, \<open>PPRPullDRWorker.cc\<close>). A helper adds up
  its own packet and those of its children (\<open>getChildrenIndices\<close>) and hands the sum to \<open>PPRnextIP\<close>,
  which is the requestor when it is beyond the helpers. Counted from 1, helper \<open>p\<close> with lowest bit
  \<open>2 ^ l\<close> covers the helpers from \<open>p - 2 ^ l + 1\<close> to \<open>p\<close>, as in a binary indexed tree. The theory
  shows that the two sides agree on the tree and that nothing is added twice or left out.
\<close>

unbundle bit_operations_syntax

section \<open>The operations\<close>

definition PPRnextIP :: "int \<Rightarrow> int" where
  "PPRnextIP ident = (ident + 1) + ((ident + 1) AND (- (ident + 1))) - 1"

text \<open>The first loop of \<open>getChildrenIndices\<close>, for a positive number: the position of the lowest bit.\<close>

fun last_one :: "nat \<Rightarrow> nat" where
  "last_one n = (if 0 < n \<and> even n then Suc (last_one (n div 2)) else 0)"

declare last_one.simps [simp del]

lemma last_one_exp: "odd m \<Longrightarrow> last_one (2 ^ l * m) = l"
proof (induction l)
  case (Suc l)
  moreover have "(0::nat) < 2 ^ Suc l * m" using Suc.prems by (auto intro: odd_pos)
  ultimately show ?case by (subst last_one.simps) simp
qed (simp add: last_one.simps)

lemma last_one_decomp:
  assumes "0 < n"
  obtains m where "odd m" "n = 2 ^ last_one n * m"
proof -
  have "\<exists>m. odd m \<and> n = 2 ^ last_one n * m"
    using assms
  proof (induction n rule: last_one.induct)
    case (1 n)
    show ?case
    proof (cases "even n")
      case True
      moreover from this have "0 < n div 2" using 1(2) by (auto elim!: evenE)
      ultimately obtain m where "odd m" "n div 2 = 2 ^ last_one (n div 2) * m"
        using 1 by blast
      with True 1 show ?thesis by (subst last_one.simps) (auto simp: algebra_simps elim!: evenE)
    next
      case False
      then show ?thesis by (auto simp: last_one.simps)
    qed
  qed
  then show ?thesis using that by blast
qed

text \<open>Below \<open>p\<close>: subtracting a bit lower than the lowest one of \<open>p\<close> makes it the lowest.\<close>

lemma last_one_child:
  assumes "0 < p" and "j < last_one p"
  shows "last_one (p - 2 ^ j) = j" and "2 ^ last_one p \<le> p"
proof -
  obtain m where m: "odd m" "p = 2 ^ last_one p * m" using assms(1) by (rule last_one_decomp)
  then have "0 < m" by (auto intro: odd_pos)
  then show "2 ^ last_one p \<le> p" using m(2) by (metis mult.right_neutral mult_le_mono2 Suc_leI One_nat_def)
  obtain d where d: "last_one p = Suc (j + d)" using assms(2) less_iff_Suc_add by auto
  have "p = 2 ^ j * (2 * 2 ^ d * m)" by (subst m(2), subst d) (simp add: power_add algebra_simps)
  then have "p - 2 ^ j = 2 ^ j * (2 * 2 ^ d * m - 1)" by (simp add: right_diff_distrib')
  moreover have "odd (2 * 2 ^ d * m - 1)" using \<open>0 < m\<close> by simp
  ultimately show "last_one (p - 2 ^ j) = j" by (simp add: last_one_exp)
qed

text \<open>
  \<open>getChildrenIndices\<close>: the second loop runs through the bits below the lowest one, from the highest
  down, and \<open>id\<close> has gained all the bits so far. A child beyond the helpers is replaced by its children.
\<close>

definition child_id :: "nat \<Rightarrow> nat \<Rightarrow> nat" where
  "child_id i j = (let l = last_one i in push_bit l (drop_bit l i - 1) + sum_list (map (\<lambda>t. push_bit t 1) [j..<l]))"

lemma sum_bits: "j \<le> l \<Longrightarrow> sum_list (map ((^) 2) [j..<l]) = 2 ^ l - (2::nat) ^ j"
proof (induction l)
  case (Suc l)
  show ?case
  proof (cases "j = Suc l")
    case False
    then have "j \<le> l" using Suc.prems by simp
    moreover have "2 ^ j \<le> (2::nat) ^ l" using \<open>j \<le> l\<close> by (simp add: power_increasing)
    ultimately show ?thesis using Suc.IH by simp
  qed simp
qed simp

lemma child_id_eq:
  assumes "0 < i" and "j < last_one i"
  shows "child_id i j = i - 2 ^ j"
proof -
  obtain m where m: "odd m" "i = 2 ^ last_one i * m" using assms(1) by (rule last_one_decomp)
  then have "0 < m" by (auto intro: odd_pos)
  have "i div 2 ^ last_one i = m" using m(2) by (metis nonzero_mult_div_cancel_left power_not_zero zero_neq_numeral)
  then have "push_bit (last_one i) (drop_bit (last_one i) i - 1) = (m - 1) * 2 ^ last_one i"
    by (simp add: push_bit_eq_mult drop_bit_eq_div)
  also have "\<dots> = i - 2 ^ last_one i" by (subst (2) m(2)) (simp add: diff_mult_distrib mult.commute)
  finally have "child_id i j = i - 2 ^ last_one i + (2 ^ last_one i - 2 ^ j)"
    using assms(2) by (simp add: child_id_def Let_def sum_bits)
  moreover have "2 ^ j \<le> (2::nat) ^ last_one i" using assms(2) by (simp add: power_increasing)
  ultimately show ?thesis using last_one_child(2)[OF assms] by simp
qed

function getChildrenIndices :: "nat \<Rightarrow> nat \<Rightarrow> nat list" where
  "getChildrenIndices idx k =
     concat (map (\<lambda>j. let ident = child_id (Suc idx) j
        in if ident \<le> k then [ident - 1] else getChildrenIndices (ident - 1) k) (rev [0..<last_one (Suc idx)]))"
  by pat_completeness auto
termination
proof (relation "measure (\<lambda>(idx, k). last_one (Suc idx))")
  fix idx k x ident
  assume "x \<in> set (rev [0..<last_one (Suc idx)])" and ident: "ident = child_id (Suc idx) x" and "\<not> ident \<le> k"
  then have "x < last_one (Suc idx)" "0 < ident" by auto
  then show "((ident - 1, k), idx, k) \<in> measure (\<lambda>(idx, k). last_one (Suc idx))"
    using child_id_eq[of "Suc idx" x] last_one_child(1)[of "Suc idx" x] by (simp add: ident Suc_diff_le)
qed simp

declare getChildrenIndices.simps [simp del]

lemma and_neg_exp: "odd m \<Longrightarrow> (2 ^ l * m) AND (- (2 ^ l * m)) = (2 ^ l :: int)"
proof (induction l)
  case 0
  then obtain a where "m = 2 * a + 1" by (elim oddE)
  moreover have "- (2 * a + 1) div 2 = NOT a" by (simp add: not_int_def)
  ultimately show ?case by (subst and_int_rec) simp
next
  case (Suc l)
  have "- (2 * x) div 2 = - x" for x :: int by presburger
  with Suc show ?case by (subst and_int_rec) (simp add: mult.assoc)
qed

lemma and_pred_exp: "odd m \<Longrightarrow> (2 ^ l * m) AND (2 ^ l * m - 1) = (2 ^ l * (m - 1) :: int)"
proof (induction l)
  case 0
  then obtain a where "m = 2 * a + 1" by (elim oddE)
  then show ?case by (subst and_int_rec) simp
next
  case (Suc l)
  have "(2 * (2 ^ l * m) - 1) div 2 = 2 ^ l * m - 1" by simp
  then show ?case using Suc by (subst and_int_rec) (simp add: mult.assoc)
qed

lemma int_bits:
  assumes "0 < k"
  obtains m where "odd m" "0 < m" "k = 2 ^ last_one (nat k) * m"
    "k AND - k = 2 ^ last_one (nat k)" "k AND (k - 1) = k - 2 ^ last_one (nat k)"
proof -
  obtain m where m: "odd m" "nat k = 2 ^ last_one (nat k) * m"
    using assms by (metis last_one_decomp zero_less_nat_eq)
  then have k: "k = 2 ^ last_one (nat k) * int m"
    using assms by (metis int_nat_eq less_imp_le of_nat_mult of_nat_numeral of_nat_power)
  have odd: "odd (int m)" "0 < int m" using m(1) by (auto intro: odd_pos)
  show ?thesis
    using that[OF odd k] and_neg_exp[OF odd(1), of "last_one (nat k)"] and_pred_exp[OF odd(1), of "last_one (nat k)"] k
    by (simp add: right_diff_distrib)
qed

lemma exp_carry:
  fixes x y :: int
  assumes "2 ^ a * x = 2 ^ b * y" and "odd y" and "even x" and "0 < y"
  shows "2 * y \<le> x"
proof -
  have "a < b"
  proof (rule ccontr)
    assume "\<not> a < b"
    then obtain d where "a = b + d" by (metis le_Suc_ex not_less)
    then have "y = 2 ^ d * x" using assms(1) by (simp add: power_add)
    with assms(2,3) show False by simp
  qed
  then obtain d where "b = Suc (a + d)" using less_iff_Suc_add by auto
  then have "x = 2 ^ d * (2 * y)" using assms(1) by (simp add: power_add)
  moreover have "1 * (2 * y) \<le> 2 ^ d * (2 * y)" using assms(4) by (intro mult_right_mono) simp_all
  ultimately show ?thesis by simp
qed

text \<open>The loop of \<open>getID\<close>, on positive numbers.\<close>

function id_loop :: "int \<Rightarrow> int" where
  "id_loop k = (if 0 < k \<and> k AND (k - 1) \<noteq> 0 then id_loop (k + (k AND - k)) else k)"
  by pat_completeness auto
termination
proof (relation "measure (\<lambda>k. nat (k div 2 ^ last_one (nat k)))")
  fix k :: int
  assume k: "0 < k \<and> k AND (k - 1) \<noteq> 0"
  obtain m where m: "odd m" "0 < m" "k = 2 ^ last_one (nat k) * m"
    "k AND - k = 2 ^ last_one (nat k)" "k AND (k - 1) = k - 2 ^ last_one (nat k)"
    by (rule int_bits[OF conjunct1[OF k]])
  then have "m \<noteq> 1" using k by auto
  let ?k = "k + (k AND - k)"
  have eq: "?k = 2 ^ last_one (nat k) * (m + 1)" using m(3,4) by (simp add: distrib_left)
  have "0 < ?k" using m(2) eq by simp
  then obtain m' where m': "odd m'" "0 < m'" "?k = 2 ^ last_one (nat ?k) * m'"
    "?k AND - ?k = 2 ^ last_one (nat ?k)" "?k AND (?k - 1) = ?k - 2 ^ last_one (nat ?k)"
    by (rule int_bits)
  have "2 * m' \<le> m + 1"
    using exp_carry[of "last_one (nat k)" "m + 1" "last_one (nat ?k)" m'] m(1) m'(1-3) eq by simp
  then have "m' < m" using \<open>m \<noteq> 1\<close> m(2) by simp
  moreover have "k div 2 ^ last_one (nat k) = m" "?k div 2 ^ last_one (nat ?k) = m'"
    using m(3) m'(3) by (metis nonzero_mult_div_cancel_left power_not_zero zero_neq_numeral)+
  ultimately show "(?k, k) \<in> measure (\<lambda>k. nat (k div 2 ^ last_one (nat k)))" using m(2) by simp
qed simp

declare id_loop.simps [simp del]

definition getID :: "int \<Rightarrow> int" where
  "getID k = id_loop (k + 1) - 1"

section \<open>The tree\<close>

abbreviation next_id :: "nat \<Rightarrow> nat" where
  "next_id p \<equiv> p + 2 ^ last_one p"

lemma PPRnextIP_eq: "PPRnextIP (int c) = int (next_id (Suc c)) - 1"
proof -
  have pos: "0 < int c + 1" by simp
  have "(int c + 1) AND - (int c + 1) = 2 ^ last_one (nat (int c + 1))" by (rule int_bits[OF pos])
  moreover have "nat (int c + 1) = Suc c" by simp
  ultimately show ?thesis by (simp add: PPRnextIP_def)
qed

lemma PPRnextIP_iff:
  "PPRnextIP (int c) = int i \<longleftrightarrow> next_id (Suc c) = Suc i" "int k \<le> PPRnextIP (int c) \<longleftrightarrow> k < next_id (Suc c)"
  using PPRnextIP_eq[of c] by linarith+

lemma exp_dvd_last_one: "0 < n \<Longrightarrow> 2 ^ l dvd n \<longleftrightarrow> l \<le> last_one n"
proof -
  assume "0 < n"
  then obtain m where m: "odd m" "n = 2 ^ last_one n * m" by (rule last_one_decomp)
  show ?thesis
  proof
    assume "2 ^ l dvd n"
    show "l \<le> last_one n"
    proof (rule ccontr)
      assume "\<not> l \<le> last_one n"
      then have "Suc (last_one n) \<le> l" by simp
      then have "2 ^ Suc (last_one n) dvd n" using \<open>2 ^ l dvd n\<close> by (metis dvd_trans le_imp_power_dvd)
      then have "2 ^ last_one n * 2 dvd 2 ^ last_one n * m" using m(2) by (simp add: mult.commute)
      with m(1) show False by simp
    qed
  next
    assume "l \<le> last_one n"
    then show "2 ^ l dvd n" using m(2) by (metis dvd_mult2 le_imp_power_dvd)
  qed
qed

text \<open>A helper covered by \<open>q\<close> has its parent no later than \<open>q\<close>.\<close>

lemma next_below:
  assumes "0 < c" and "c < q" and "q - 2 ^ last_one q < c"
  shows "next_id c \<le> q"
proof -
  have q: "2 ^ last_one q dvd q" using exp_dvd_last_one[of q "last_one q"] assms by simp
  have l: "last_one c < last_one q"
  proof (rule ccontr)
    assume "\<not> last_one c < last_one q"
    then have "2 ^ last_one q dvd c" using exp_dvd_last_one[OF assms(1)] by simp
    then have "2 ^ last_one q dvd q - c" using q by simp
    then have "2 ^ last_one q \<le> q - c" using assms(2) by (simp add: dvd_imp_le)
    with assms(2,3) show False by simp
  qed
  have "2 ^ last_one c dvd q" "2 ^ last_one c dvd c"
    using exp_dvd_last_one[of q "last_one c"] exp_dvd_last_one[OF assms(1), of "last_one c"] l assms by simp_all
  then have "2 ^ last_one c dvd q - c" by simp
  then have "2 ^ last_one c \<le> q - c" using assms(2) by (simp add: dvd_imp_le)
  then show ?thesis using assms(2) by simp
qed

lemma covered_split:
  "0 < (d::nat) \<and> d < 2 ^ l \<longleftrightarrow> (\<exists>j < l. 2 ^ j \<le> d \<and> d < 2 ^ Suc j)"
proof (induction l)
  case (Suc l)
  have "0 < d \<and> d < 2 ^ Suc l \<longleftrightarrow> 0 < d \<and> d < 2 ^ l \<or> 2 ^ l \<le> d \<and> d < 2 ^ Suc l"
    by (auto simp: not_less intro!: gr0I)
  with Suc show ?case by (auto simp: less_Suc_eq)
qed auto

text \<open>The helpers (from 1) a node pulls from when it stands at \<open>p\<close>.\<close>

definition pulls_from :: "nat \<Rightarrow> nat \<Rightarrow> nat set" where
  "pulls_from k p = {c. 0 < c \<and> c \<le> k \<and> p - 2 ^ last_one p < c \<and> c < p \<and> (next_id c = p \<or> k < next_id c)}"

lemma pulls_from_rec:
  assumes "0 < p"
  shows "pulls_from k p = (\<Union>j < last_one p. if p - 2 ^ j \<le> k then {p - 2 ^ j} else pulls_from k (p - 2 ^ j))"
    (is "_ = (\<Union>j < _. ?C j)")
proof -
  have C: "c \<in> ?C j \<longleftrightarrow> c \<in> pulls_from k p \<and> 2 ^ j \<le> p - c \<and> p - c < 2 ^ Suc j \<and> c < p" if j: "j < last_one p" for c j
  proof -
    let ?q = "p - 2 ^ j"
    have pos: "(0::nat) < 2 ^ j" by simp
    have exp: "(2::nat) ^ Suc j \<le> 2 ^ last_one p" using j by (intro power_increasing) auto
    note child = last_one_child[OF assms j]
    have q: "last_one ?q = j" "?q < p" "0 < ?q" "2 ^ Suc j \<le> p" using child exp assms by auto
    then have cover: "?q - 2 ^ j = p - 2 ^ Suc j" "p - 2 ^ last_one p \<le> p - 2 ^ Suc j" using exp by auto
    have low: "p - 2 ^ last_one p < ?q" using cover(2) q(4) pos unfolding power_Suc by linarith
    have nx: "next_id ?q = p" using q(1,4) by simp
    have below: "next_id c \<le> ?q" if "0 < c" "c < ?q" "p - 2 ^ Suc j < c"
      using next_below[OF that(1,2)] that(3) q(1) cover(1) by simp
    show ?thesis
    proof (cases "?q \<le> k")
      case True
      have "c = ?q" if "c \<in> pulls_from k p" "2 ^ j \<le> p - c" "p - c < 2 ^ Suc j" "c < p"
      proof (rule ccontr)
        assume "c \<noteq> ?q"
        then have "0 < c" "c < ?q" "p - 2 ^ Suc j < c" using that q(4) by (auto simp: pulls_from_def)
        then have "next_id c \<le> ?q" by (rule below)
        with that(1) True q(2) show False by (auto simp: pulls_from_def)
      qed
      moreover have "?q \<in> pulls_from k p" using True q nx low by (simp add: pulls_from_def)
      ultimately show ?thesis using True q by auto
    next
      case False
      have "c \<in> pulls_from k ?q" if "c \<in> pulls_from k p" "2 ^ j \<le> p - c" "p - c < 2 ^ Suc j" "c < p"
      proof -
        have "c \<noteq> ?q" using that(1) False by (auto simp: pulls_from_def)
        then have c: "0 < c" "c < ?q" "p - 2 ^ Suc j < c" using that q(4) by (auto simp: pulls_from_def)
        then have "next_id c \<le> ?q" by (rule below)
        with that(1) c q(1,2) cover(1) show ?thesis by (auto simp: pulls_from_def)
      qed
      moreover have "c \<in> pulls_from k p \<and> 2 ^ j \<le> p - c \<and> p - c < 2 ^ Suc j \<and> c < p" if "c \<in> pulls_from k ?q"
        using that False q cover by (auto simp: pulls_from_def)
      ultimately show ?thesis using False by auto
    qed
  qed
  have "c \<in> pulls_from k p \<longleftrightarrow> (\<exists>j < last_one p. c \<in> ?C j)" for c
  proof
    assume c: "c \<in> pulls_from k p"
    then have "p - 2 ^ last_one p < c" and "c < p" by (simp_all add: pulls_from_def)
    moreover have "2 ^ last_one p \<le> p"
      using exp_dvd_last_one[OF assms, of "last_one p"] assms by (simp add: dvd_imp_le)
    ultimately have "0 < p - c \<and> p - c < 2 ^ last_one p" by linarith
    then show "\<exists>j < last_one p. c \<in> ?C j"
      unfolding covered_split using C c \<open>c < p\<close> by blast
  qed (use C in blast)
  then show ?thesis by blast
qed

lemma distinct_concat_map:
  assumes "distinct js" and "\<And>j. j \<in> set js \<Longrightarrow> distinct (f j)"
    and "\<And>i j. i \<in> set js \<Longrightarrow> j \<in> set js \<Longrightarrow> i \<noteq> j \<Longrightarrow> set (f i) \<inter> set (f j) = {}"
  shows "distinct (concat (map f js))"
  using assms
proof (induction js)
  case (Cons j js)
  then have "distinct (concat (map f js))" by simp
  moreover have "set (f j) \<inter> set (f i) = {}" if "i \<in> set js" for i
    using Cons.prems(1) that by (intro Cons.prems(3)) auto
  ultimately show ?case using Cons.prems(2) by auto
qed simp

lemma image_concat_upt: "g ` set (concat (map f (rev [0..<n]))) = (\<Union>j < n. g ` set (f j))"
  by (simp add: image_UN atLeast0LessThan)

text \<open>What \<open>getChildrenIndices\<close> returns, counted from 0 again.\<close>

lemma children_spec: "distinct (getChildrenIndices idx k) \<and> Suc ` set (getChildrenIndices idx k) = pulls_from k (Suc idx)"
proof (induction idx k rule: getChildrenIndices.induct)
  case (1 idx k)
  let ?p = "Suc idx" and ?q = "\<lambda>j. Suc idx - 2 ^ j"
  let ?f = "\<lambda>j. if ?q j \<le> k then [?q j - 1] else getChildrenIndices (?q j - 1) k"
  have eq: "getChildrenIndices idx k = concat (map ?f (rev [0..<last_one ?p]))"
    by (subst getChildrenIndices.simps, rule arg_cong[where f = concat], rule map_cong)
      (simp_all add: child_id_eq Let_def)
  have pos: "0 < ?q j" if "j < last_one ?p" for j
  proof -
    have "(2::nat) ^ j < 2 ^ last_one ?p" using that by simp
    then show ?thesis using last_one_child(2)[OF zero_less_Suc that] by linarith
  qed
  have f: "distinct (?f j)" "Suc ` set (?f j) = (if ?q j \<le> k then {?q j} else pulls_from k (?q j))" if "j < last_one ?p" for j
    using 1[of j "?q j"] that child_id_eq[of ?p j] pos[OF that] by (auto simp: Suc_diff_le)
  have range: "?q j - 2 ^ j < c \<and> c \<le> ?q j" if "j < last_one ?p" "c \<in> Suc ` set (?f j)" for j c
    using that(2) pos[OF that(1)] last_one_child(1)[OF zero_less_Suc that(1)] unfolding f(2)[OF that(1)]
    by (cases "?q j \<le> k") (auto simp: pulls_from_def simp del: diff_diff_left)
  have disj: "set (?f i) \<inter> set (?f j) = {}" if "i < j" "j < last_one ?p" for i j
  proof -
    have "?q j \<le> ?q i - 2 ^ i"
    proof -
      have "(2::nat) * 2 ^ i \<le> 2 ^ j" using that(1) power_increasing[of "Suc i" j "2::nat"] by simp
      then show ?thesis by simp
    qed
    then have "c \<notin> Suc ` set (?f j)" if "c \<in> Suc ` set (?f i)" for c
      using range[of i c] range[of j c] that \<open>i < j\<close> \<open>j < last_one ?p\<close> by fastforce
    then show ?thesis by blast
  qed
  have "distinct (concat (map ?f (rev [0..<last_one ?p])))"
  proof (rule distinct_concat_map)
    fix i j assume "i \<in> set (rev [0..<last_one ?p])" "j \<in> set (rev [0..<last_one ?p])" "i \<noteq> j"
    then consider "i < j" "j < last_one ?p" | "j < i" "i < last_one ?p" by fastforce
    then show "set (?f i) \<inter> set (?f j) = {}" by cases (use disj in blast)+
  qed (use f(1) in simp_all)
  moreover have "Suc ` set (concat (map ?f (rev [0..<last_one ?p]))) = (\<Union>j < last_one ?p. Suc ` set (?f j))"
    by (rule image_concat_upt)
  moreover have "\<dots> = pulls_from k ?p"
    unfolding pulls_from_rec[OF zero_less_Suc] using f(2) by (intro SUP_cong) auto
  ultimately show ?case unfolding eq by simp
qed

lemma id_loop_exp: "0 < k \<Longrightarrow> \<exists>n. id_loop k = 2 ^ n \<and> k \<le> id_loop k"
proof (induction k rule: id_loop.induct)
  case (1 k)
  obtain m where m: "odd m" "0 < m" "k = 2 ^ last_one (nat k) * m"
    "k AND - k = 2 ^ last_one (nat k)" "k AND (k - 1) = k - 2 ^ last_one (nat k)"
    by (rule int_bits[OF 1(2)])
  show ?case
  proof (cases "k AND (k - 1) = 0")
    case True
    then have "k = 2 ^ last_one (nat k)" using m(5) by simp
    with True show ?thesis by (subst (1 2) id_loop.simps) auto
  next
    case False
    then have "id_loop k = id_loop (k + (k AND - k))" using 1(2) by (subst id_loop.simps) simp
    moreover have "0 < k + (k AND - k)" using 1(2) unfolding m(4) by (simp add: add_pos_pos)
    then obtain n where "id_loop (k + (k AND - k)) = 2 ^ n" "k + (k AND - k) \<le> id_loop (k + (k AND - k))"
      using 1 False by blast
    moreover have "k \<le> k + (k AND - k)" unfolding m(4) by simp
    ultimately show ?thesis by (metis order_trans)
  qed
qed

text \<open>The requestor stands at a power of two beyond the helpers.\<close>

lemma getID_exp:
  obtains n where "getID (int k) = 2 ^ n - 1" and "k < 2 ^ n"
proof -
  obtain n where n: "id_loop (int k + 1) = 2 ^ n" "int k + 1 \<le> id_loop (int k + 1)"
    using id_loop_exp[of "int k + 1"] by auto
  then have "int k < 2 ^ n" by linarith
  then have "k < 2 ^ n" by (metis of_nat_less_iff of_nat_numeral of_nat_power)
  then show ?thesis using that[of n] n(1) by (simp add: getID_def)
qed

lemma last_one_power: "last_one (2 ^ n) = n"
  using last_one_exp[of 1 n] by simp

lemma next_covers: "0 < c \<Longrightarrow> next_id c - 2 ^ last_one (next_id c) < c"
proof -
  assume c: "0 < c"
  obtain m where m: "odd m" "c = 2 ^ last_one c * m" by (rule last_one_decomp[OF c])
  then have "next_id c = 2 ^ last_one c * (m + 1)" by (metis distrib_left mult.right_neutral)
  moreover obtain x where "m + 1 = 2 * x" using m(1) by (metis Suc_eq_plus1 evenE even_Suc)
  ultimately have "next_id c = 2 ^ Suc (last_one c) * x" by (metis mult.assoc mult.commute power_Suc)
  then have "2 ^ Suc (last_one c) dvd next_id c" by (rule dvdI)
  then have "last_one c < last_one (next_id c)" using exp_dvd_last_one[of "next_id c" "Suc (last_one c)"] c by simp
  then have "(2::nat) ^ last_one c < 2 ^ last_one (next_id c)" by simp
  with c show ?thesis by linarith
qed

lemma helper_children: "i < k \<Longrightarrow> set (getChildrenIndices i k) = {c. c < k \<and> PPRnextIP (int c) = int i}"
proof -
  assume i: "i < k"
  have "pulls_from k (Suc i) = Suc ` {c. c < k \<and> PPRnextIP (int c) = int i}"
  proof (intro set_eqI iffI)
    fix c assume c: "c \<in> pulls_from k (Suc i)"
    then have "next_id c \<le> Suc i" using next_below[of c "Suc i"] by (simp add: pulls_from_def)
    then have "next_id c = Suc i" using c i by (auto simp: pulls_from_def)
    then show "c \<in> Suc ` {c. c < k \<and> PPRnextIP (int c) = int i}"
      using c by (cases c) (auto simp: pulls_from_def PPRnextIP_iff)
  next
    fix c assume "c \<in> Suc ` {c. c < k \<and> PPRnextIP (int c) = int i}"
    then have c: "0 < c" "c \<le> k" "next_id c = Suc i" by (auto simp: PPRnextIP_iff)
    have "Suc i - 2 ^ last_one (Suc i) < c" using next_covers[OF c(1)] c(3) by simp
    moreover have "c < Suc i" using c(3) by (metis less_add_same_cancel1 zero_less_numeral zero_less_power)
    ultimately show "c \<in> pulls_from k (Suc i)" using c by (simp add: pulls_from_def)
  qed
  then have "Suc ` set (getChildrenIndices i k) = Suc ` {c. c < k \<and> PPRnextIP (int c) = int i}"
    using children_spec by simp
  then show ?thesis by (simp add: inj_image_eq_iff)
qed

lemma requestor_children: "set (getChildrenIndices (nat (getID (int k))) k) = {c. c < k \<and> int k \<le> PPRnextIP (int c)}"
proof -
  obtain n where n: "getID (int k) = 2 ^ n - 1" "k < 2 ^ n" by (rule getID_exp)
  have p: "Suc (nat (2 ^ n - 1)) = 2 ^ n" by (simp add: nat_diff_distrib)
  have "pulls_from k (2 ^ n) = Suc ` {c. c < k \<and> int k \<le> PPRnextIP (int c)}"
  proof (intro set_eqI iffI)
    fix c assume "c \<in> pulls_from k (2 ^ n)"
    then show "c \<in> Suc ` {c. c < k \<and> int k \<le> PPRnextIP (int c)}"
      using n(2) by (cases c) (auto simp: pulls_from_def PPRnextIP_iff)
  next
    fix c assume "c \<in> Suc ` {c. c < k \<and> int k \<le> PPRnextIP (int c)}"
    then have "0 < c" "c \<le> k" "k < next_id c" by (auto simp: PPRnextIP_iff)
    then show "c \<in> pulls_from k (2 ^ n)" using n(2) by (simp add: pulls_from_def last_one_power)
  qed
  then have "Suc ` set (getChildrenIndices (nat (getID (int k))) k) = Suc ` {c. c < k \<and> int k \<le> PPRnextIP (int c)}"
    using children_spec[of "nat (getID (int k))" k] n(1) p by simp
  then show ?thesis by (simp add: inj_image_eq_iff)
qed

section \<open>Every helper is counted once\<close>

text \<open>The helpers (from 1) whose packets the sum of helper \<open>c\<close> holds.\<close>

definition covers :: "nat \<Rightarrow> nat set" where
  "covers c = {c - 2 ^ last_one c<..c}"

lemma covers_nested:
  assumes "0 < y" and "y \<in> covers c"
  shows "covers y \<subseteq> covers c"
proof (cases "y = c")
  case False
  then have y: "c - 2 ^ last_one c < y" "y < c" using assms(2) by (auto simp: covers_def)
  have "c - 2 ^ last_one c \<le> y - 2 ^ last_one y"
  proof (cases "c \<le> 2 ^ last_one c")
    case low: False
    have "next_id y \<le> c" using next_below[OF assms(1) y(2,1)] .
    have "last_one y \<le> last_one c"
    proof (rule ccontr)
      assume "\<not> last_one y \<le> last_one c"
      then have "2 ^ last_one c dvd y" using exp_dvd_last_one[OF assms(1)] by simp
      moreover have "2 ^ last_one c dvd c" using exp_dvd_last_one[of c "last_one c"] y by simp
      ultimately have "2 ^ last_one c dvd c - y" by simp
      then have "2 ^ last_one c \<le> c - y" using y(2) by (simp add: dvd_imp_le)
      with y show False by linarith
    qed
    then have "2 ^ last_one y dvd c" "2 ^ last_one y dvd (2::nat) ^ last_one c"
      using exp_dvd_last_one[of c "last_one y"] y by (simp_all add: le_imp_power_dvd)
    then have "2 ^ last_one y dvd c - 2 ^ last_one c" by simp
    moreover have "2 ^ last_one y dvd y" using exp_dvd_last_one[OF assms(1), of "last_one y"] by simp
    ultimately have "2 ^ last_one y dvd y - (c - 2 ^ last_one c)" by simp
    then have "2 ^ last_one y \<le> y - (c - 2 ^ last_one c)" using y(1) by (simp add: dvd_imp_le)
    with y(1) show ?thesis by linarith
  qed simp
  then show ?thesis using y by (auto simp: covers_def)
qed simp

lemma pulls_cover:
  "{x. 0 < x \<and> x \<le> k \<and> p - 2 ^ last_one p < x \<and> x < p} = (\<Union>c \<in> pulls_from k p. covers c)"
proof (intro set_eqI iffI)
  fix x assume "x \<in> {x. 0 < x \<and> x \<le> k \<and> p - 2 ^ last_one p < x \<and> x < p}"
  then show "x \<in> (\<Union>c \<in> pulls_from k p. covers c)"
  proof (induction "p - x" arbitrary: x rule: less_induct)
    case less
    then have x: "0 < x" "x \<le> k" "p - 2 ^ last_one p < x" "x < p" by auto
    have self: "x \<in> covers x" using x(1) by (simp add: covers_def)
    show ?case
    proof (cases "next_id x = p \<or> k < next_id x")
      case True
      then have "x \<in> pulls_from k p" using x by (simp add: pulls_from_def)
      with self show ?thesis by blast
    next
      case False
      let ?y = "next_id x"
      have y: "x < ?y" "?y < p" "?y \<le> k"
        using next_below[OF x(1,4,3)] False by (simp_all add: add_pos_pos)
      have "p - ?y < p - x" using y(1) x(4) by (rule diff_less_mono2)
      then obtain c where c: "c \<in> pulls_from k p" "?y \<in> covers c"
        using less.hyps[of ?y] x y by auto
      moreover have "x \<in> covers ?y" using next_covers[OF x(1)] y(1) by (simp add: covers_def)
      ultimately show ?thesis using covers_nested[of ?y c] y(1) by auto
    qed
  qed
next
  fix x assume "x \<in> (\<Union>c \<in> pulls_from k p. covers c)"
  then obtain c where c: "c \<in> pulls_from k p" "x \<in> covers c" by blast
  then have cp: "0 < c" "c \<le> k" "p - 2 ^ last_one p < c" "c < p" by (simp_all add: pulls_from_def)
  then have "c \<in> covers p" by (simp add: covers_def)
  then have "x \<in> covers p" using covers_nested[OF cp(1)] c(2) by blast
  then show "x \<in> {x. 0 < x \<and> x \<le> k \<and> p - 2 ^ last_one p < x \<and> x < p}"
    using c(2) cp by (auto simp: covers_def)
qed

lemma covers_disjoint:
  assumes "c \<in> pulls_from k p" and "d \<in> pulls_from k p" and "c < d"
  shows "covers c \<inter> covers d = {}"
proof (rule ccontr)
  assume "covers c \<inter> covers d \<noteq> {}"
  then have "d - 2 ^ last_one d < c" by (auto simp: covers_def)
  moreover have "0 < c" using assms(1) by (simp add: pulls_from_def)
  ultimately have "next_id c \<le> d" using next_below[of c d] assms(3) by blast
  then show False using assms(1,2) by (auto simp: pulls_from_def)
qed

text \<open>
  C11. The tree of a partial parallel repair. \<open>getChildrenIndices\<close> names no helper twice; the children of a
  helper are exactly the helpers for which it is \<open>PPRnextIP\<close>; the children of the requestor are
  exactly the helpers for which \<open>PPRnextIP\<close> is beyond the helpers; and \<open>PPRnextIP\<close> is always a later node. So the
  sum of every helper is pulled by one node, and on the way to the requestor none is lost.
\<close>

theorem ppr_tree:
  "(\<forall>i. i < k \<longrightarrow> distinct (getChildrenIndices i k) \<and>
      set (getChildrenIndices i k) = {c. c < k \<and> PPRnextIP (int c) = int i}) \<and>
   distinct (getChildrenIndices (nat (getID (int k))) k) \<and>
   set (getChildrenIndices (nat (getID (int k))) k) = {c. c < k \<and> int k \<le> PPRnextIP (int c)} \<and>
   (\<forall>c. int c < PPRnextIP (int c))"
proof -
  have "int c < PPRnextIP (int c)" for c
    using PPRnextIP_eq[of c] by (simp add: add_pos_pos)
  then show ?thesis
    using helper_children requestor_children children_spec by auto
qed

theorem ppr_tree_witness:
  "distinct (getChildrenIndices 3 6) \<and> set (getChildrenIndices 3 6) = {c. c < 6 \<and> PPRnextIP (int c) = 3}"
  using ppr_tree[of 6] by auto

end
