(* ===== verification/Ppr_Worker.thy ===== *)
theory Ppr_Worker
  imports Ppr_Tree Repair_Wire RS_Util Node_Disk
begin

text \<open>
  \<open>PPRPullDRWorker.cc\<close>: a helper or the requestor of a partial parallel repair. \<open>doProcess\<close> parses a command
  and sends the packets, \<open>readWorker\<close> reads and multiplies the packets of the local block, and
  \<open>puller\<close> runs one \<open>readThread\<close> for each child, which adds the packets of that child. A step is a round of
  one of the threads. The waits on the condition variables are the conditions of the loops around
  them (\<open>_waitingToPull\<close>, \<open>_waitingToSend\<close>).
\<close>

section \<open>Commands\<close>

record ppr_job =
  pp_ecK :: int
  pp_id :: int
  pp_holderIps :: "ip_addr list"
  pp_coefficient :: int
  pp_lostBlkName :: string
  pp_localBlkName :: string

text \<open>The command of the requestor, the node behind the last helper, has no local block.\<close>

definition parse_ppr_cmd :: "byte list \<Rightarrow> ppr_job res" where
  "parse_ppr_cmd cmd =
     bindE (get_int cmd 0) (\<lambda>k.
     bindE (get_int cmd 4) (\<lambda>ident.
     bindE (guardE (0 \<le> k) Out_Of_Bounds) (\<lambda>_.
     bindE (mapE (\<lambda>i. get_word cmd (8 + 4 * int i)) [0..<nat k + 1]) (\<lambda>holderIps.
     bindE (get_word cmd (8 + 4 * (k + 1))) (\<lambda>v.
     let coefficient = uint (drop_bit 16 v); lostBlkNameLen = uint (v AND 0xffff)
     in
     bindE (get_name cmd (12 + 4 * (k + 1)) lostBlkNameLen) (\<lambda>lostBlkName.
     bindE
       (if k \<noteq> ident
        then bindE (get_word cmd (12 + 4 * (k + 1) + lostBlkNameLen)) (\<lambda>localBlkNameLen.
          get_name cmd (16 + 4 * (k + 1) + lostBlkNameLen) (uint localBlkNameLen))
        else Inr []) (\<lambda>localBlkName.
     Inr \<lparr>pp_ecK = k, pp_id = ident, pp_holderIps = holderIps, pp_coefficient = coefficient,
       pp_lostBlkName = lostBlkName, pp_localBlkName = localBlkName\<rparr>)))))))"

definition ppr_key :: "string \<Rightarrow> int \<Rightarrow> string" where
  "ppr_key lost ident = ''tmp:'' @ lost @ '':'' @ to_string ident"

section \<open>State\<close>

text \<open>
  \<open>pr_read\<close> is \<open>_waitingToPull\<close>, which counts the rounds of \<open>readWorker\<close>; \<open>pr_idx\<close> is \<open>_indicesWaiting\<close>, whose
  entries count the rounds of the read threads; \<open>pr_toSend\<close> is \<open>_waitingToSend\<close> and \<open>pr_sent\<close> counts the
  rounds of \<open>doProcess\<close>. \<open>pr_ctxes\<close> are the children with the nodes to pull from, \<open>pr_wrtCtx\<close> is where to push; a \<open>NULL\<close> context is \<open>None\<close>.
\<close>

record ppr_worker =
  pr_ip :: ip_addr
  pr_job :: ppr_job
  pr_wrtCtx :: "ip_addr option"
  pr_ctxes :: "(nat \<times> ip_addr option) list"
  pr_disk :: "byte list list"
  pr_read :: nat
  pr_idx :: "nat list"
  pr_toSend :: nat
  pr_sent :: nat

text \<open>The start of \<open>puller\<close>: the children and their contexts.\<close>

definition ppr_children :: "ppr_job \<Rightarrow> nat list" where
  "ppr_children j =
     (if pp_id j < pp_ecK j then getChildrenIndices (nat (pp_id j)) (nat (pp_ecK j))
      else getChildrenIndices (nat (getID (pp_id j))) (nat (pp_ecK j)))"

definition ppr_ctxes :: "repair_config \<Rightarrow> ip_addr \<Rightarrow> ppr_job \<Rightarrow> (nat \<times> ip_addr option) list res" where
  "ppr_ctxes conf ip j =
     mapE (\<lambda>c.
       if pp_id j \<noteq> pp_ecK j
       then bindE (atE (pp_holderIps j) (int c)) (\<lambda>a.
         bindE (findCtx (sort (helpersIPs conf)) a) (\<lambda>ctx. Inr (c, ctx)))
       else Inr (c, Some ip)) (ppr_children j)"

definition ppr_start :: "repair_config \<Rightarrow> ip_addr \<Rightarrow> byte list \<Rightarrow> ppr_worker res" where
  "ppr_start conf ip cmd =
     bindE (parse_ppr_cmd cmd) (\<lambda>j.
     bindE (guardE (0 \<le> pp_id j) Out_Of_Bounds) (\<lambda>_.
     bindE (ppr_ctxes conf ip j) (\<lambda>ctxes.
     bindE
       (if pp_ecK j \<le> PPRnextIP (pp_id j)
        then bindE (atE (pp_holderIps j) (pp_ecK j)) (findCtx (sort (helpersIPs conf)))
        else Inr (Some ip)) (\<lambda>wrtCtx.
     Inr \<lparr>pr_ip = ip, pr_job = j, pr_wrtCtx = wrtCtx, pr_ctxes = ctxes,
       pr_disk = replicate (packetCnt conf) (replicate (packetSize conf) 0),
       pr_read = 0, pr_idx = replicate (length ctxes) 0, pr_toSend = 0, pr_sent = 0\<rparr>))))"

section \<open>The work of the threads\<close>

text \<open>\<open>pktOutput\<close> of \<open>gettime.cpp\<close>, which the debug output of every round calls.\<close>

definition pktOutput :: "nat \<Rightarrow> nat \<Rightarrow> bool res" where
  "pktOutput pktId cnt =
     (if pktId \<le> 0 \<or> cnt - 1 \<le> pktId then Inr True
      else if cnt div 4 = 0 then Inl Div_By_Zero
      else Inr (pktId mod (cnt div 4) = 0))"

text \<open>
  A round of \<open>readWorker\<close>. The position is the number of the packet times its size, an \<open>int\<close>; without a
  file name the buffer stays as it is.
\<close>

definition ppr_read :: "gf_ops \<Rightarrow> env \<Rightarrow> repair_config \<Rightarrow> world \<Rightarrow> ppr_worker \<Rightarrow> ppr_worker res" where
  "ppr_read G E conf w p =
     (if pp_localBlkName (pr_job p) = []
      then bindE (pktOutput (pr_read p) (packetCnt conf)) (\<lambda>_. Inr (p\<lparr>pr_read := Suc (pr_read p)\<rparr>))
      else case w_files w (pr_ip p) (pp_localBlkName (pr_job p)) of
        None \<Rightarrow> Inl (Exit 1)
      | Some fdata \<Rightarrow>
          let base = sint (word_of_int (int (pr_read p * packetSize conf)) :: 32 word)
          in
          bindE (guardE (0 \<le> base) (Exit 1)) (\<lambda>_.
          bindE (atE (pr_disk p) (int (pr_read p))) (\<lambda>buf.
          bindE (read_loop E fdata (nat base) (packetSize conf) 0 buf) (\<lambda>buf.
          bindE (guardE (pp_coefficient (pr_job p) < 256) Out_Of_Bounds) (\<lambda>_.
          bindE (rs_multiply G buf (word_of_int (pp_coefficient (pr_job p))) (packetSize conf)) (\<lambda>buf.
          bindE (pktOutput (pr_read p) (packetCnt conf)) (\<lambda>_.
          Inr (p\<lparr>pr_disk := (pr_disk p)[pr_read p := buf], pr_read := Suc (pr_read p)\<rparr>))))))))"

text \<open>
  A round of read thread \<open>num\<close>: the packet of the child is added under \<open>_readThreadMtx\<close>, and
  \<open>_waitingToSend\<close> rises to the number of packets that all children have delivered.
\<close>

definition ppr_fetch :: "repair_config \<Rightarrow> nat \<Rightarrow> world \<Rightarrow> ppr_worker \<Rightarrow> (world \<times> ppr_worker) res" where
  "ppr_fetch conf num w p =
     bindE (atE (pr_ctxes p) (int num)) (\<lambda>(c, ctx).
     bindE (atE (pr_idx p) (int num)) (\<lambda>i.
     case ctx of
       None \<Rightarrow> Inl Out_Of_Bounds
     | Some ip \<Rightarrow>
         bindE (blpop ip (ppr_key (pp_lostBlkName (pr_job p)) (int c)) w) (\<lambda>(msg, w1).
         bindE (atE (pr_disk p) (int i)) (\<lambda>buf.
         bindE (XORBuffers buf msg (packetSize conf)) (\<lambda>buf.
         let idx = (pr_idx p)[num := Suc i];
             minNum = fold min idx (packetCnt conf)
         in Inr (w1, p\<lparr>pr_disk := (pr_disk p)[i := buf], pr_idx := idx,
              pr_toSend := (if pr_toSend p < minNum then minNum else pr_toSend p)\<rparr>))))))"

text \<open>A round of \<open>doProcess\<close>: the push of a packet.\<close>

definition ppr_push :: "repair_config \<Rightarrow> world \<Rightarrow> ppr_worker \<Rightarrow> (world \<times> ppr_worker) res" where
  "ppr_push conf w p =
     (case pr_wrtCtx p of
        None \<Rightarrow> Inl Out_Of_Bounds
      | Some ip \<Rightarrow>
          bindE (atE (pr_disk p) (int (pr_sent p))) (\<lambda>buf.
          bindE (memcpy_from buf 0 (int (packetSize conf))) (\<lambda>msg.
          let j = pr_job p;
              key = (if pp_id j = pp_ecK j then pp_lostBlkName j else ppr_key (pp_lostBlkName j) (pp_id j))
          in
          bindE (pktOutput (pr_sent p) (packetCnt conf)) (\<lambda>_.
          Inr (rpush ip key msg w, p\<lparr>pr_sent := Suc (pr_sent p)\<rparr>)))))"

section \<open>Steps\<close>

inductive ppr_step ::
    "gf_ops \<Rightarrow> env \<Rightarrow> repair_config \<Rightarrow> world \<times> ppr_worker \<Rightarrow> world \<times> ppr_worker \<Rightarrow> bool"
  for G E conf where
  Read: "pr_read p < packetCnt conf \<Longrightarrow> ppr_read G E conf w p = Inr p' \<Longrightarrow> ppr_step G E conf (w, p) (w, p')"
| Fetch: "num < length (pr_ctxes p) \<Longrightarrow> pr_idx p ! num < packetCnt conf \<Longrightarrow> pr_idx p ! num < pr_read p \<Longrightarrow>
    ppr_fetch conf num w p = Inr (w', p') \<Longrightarrow> ppr_step G E conf (w, p) (w', p')"
| Pass: "pr_ctxes p = [] \<Longrightarrow> pr_toSend p < packetCnt conf \<Longrightarrow> pr_toSend p < pr_read p \<Longrightarrow>
    ppr_step G E conf (w, p) (w, p\<lparr>pr_toSend := Suc (pr_toSend p)\<rparr>)"
| Push: "pr_sent p < packetCnt conf \<Longrightarrow> pr_sent p < pr_toSend p \<Longrightarrow> ppr_push conf w p = Inr (w', p') \<Longrightarrow>
    ppr_step G E conf (w, p) (w', p')"

inductive ppr_cluster ::
    "gf_ops \<Rightarrow> env \<Rightarrow> repair_config \<Rightarrow> world \<times> ppr_worker list \<Rightarrow> world \<times> ppr_worker list \<Rightarrow> bool"
  for G E conf where
  "h < length ps \<Longrightarrow> ppr_step G E conf (w, ps ! h) (w', p') \<Longrightarrow> ppr_cluster G E conf (w, ps) (w', ps[h := p'])"

definition ppr_finished :: "repair_config \<Rightarrow> ppr_worker \<Rightarrow> bool" where
  "ppr_finished conf p \<longleftrightarrow> pr_read p = packetCnt conf \<and> pr_sent p = packetCnt conf \<and>
     list_all (\<lambda>i. i = packetCnt conf) (pr_idx p)"

end
