(* ===== verification/Ppr_Coordinator.thy ===== *)
theory Ppr_Coordinator
  imports Repair_Dispatch Ppr_Worker Pipe_Repair
begin

text \<open>
  \<open>PPRCoordinator.cc\<close>: one round of \<open>requestHandler\<close> for a partial parallel repair. The helpers are put in
  the order of their addresses; every helper and the requestor, which is node \<open>ecK\<close>, get a command with the
  addresses of all nodes.
\<close>

section \<open>The handler\<close>

definition ppr_holders :: "ip_addr list \<Rightarrow> byte list" where
  "ppr_holders ips = concat (map put_word ips)"

definition ppr_cmd ::
    "int \<Rightarrow> int \<Rightarrow> int \<Rightarrow> ip_addr list \<Rightarrow> int \<Rightarrow> string \<Rightarrow> string \<Rightarrow> byte list res" where
  "ppr_cmd idx k i holderIps coef filename localName =
     (let cmd = put_int idx @ put_int k @ put_int i @ ppr_holders holderIps @
            put_word (push_bit 16 (word_of_int coef) OR word_of_int (int (length filename))) @ bytes_of filename @
            put_int (int (length localName)) @ bytes_of localName
      in bindE (guardE (length cmd \<le> COMMAND_MAX_LENGTH) Out_Of_Bounds) (\<lambda>_. Inr cmd))"

definition ppr_req_cmd :: "int \<Rightarrow> int \<Rightarrow> ip_addr list \<Rightarrow> string \<Rightarrow> byte list res" where
  "ppr_req_cmd idx k holderIps filename =
     (let cmd = put_int idx @ put_int k @ put_int k @ ppr_holders holderIps @
            put_word (word_of_int (int (length filename))) @ bytes_of filename
      in bindE (guardE (length cmd \<le> COMMAND_MAX_LENGTH) Out_Of_Bounds) (\<lambda>_. Inr cmd))"

text \<open>\<open>stripe_map\<close>: the helpers in the order of their addresses.\<close>

definition stripe_by_ip :: "(ip_addr \<times> string) list \<Rightarrow> (ip_addr \<times> string) list" where
  "stripe_by_ip stripe = fold (\<lambda>(ip, b). om_put ip b) stripe []"

definition ppr_commands ::
    "(ip_addr \<times> string) list \<Rightarrow> ip_addr \<Rightarrow> string \<Rightarrow> (string, int) omap \<Rightarrow> (ip_addr \<times> string) list \<Rightarrow>
     (string \<times> byte list) list res" where
  "ppr_commands ip2Ctx requestorIP filename coef stripe =
     (let k = int (length stripe); holderIps = map fst stripe @ [requestorIP]
      in
      bindE (mapE (\<lambda>i.
          bindE (atE stripe (int i)) (\<lambda>(ip, blk).
          queue_cmd ip2Ctx ip (\<lambda>idx. ppr_cmd idx k (int i) holderIps (om_get0 coef blk) filename blk))) [0..<length stripe]) (\<lambda>cmds.
      bindE (queue_cmd ip2Ctx requestorIP (\<lambda>idx. ppr_req_cmd idx k holderIps filename)) (\<lambda>c.
      Inr (cmds @ [c]))))"

definition ppr_requestHandler ::
    "repair_config \<Rightarrow> metadata \<Rightarrow> (ip_addr \<times> string) list \<Rightarrow> world \<Rightarrow> world res" where
  "ppr_requestHandler conf md ip2Ctx w =
     bindE (blpop (coordinatorIP conf) ''dr_requests'' w) (\<lambda>(req, w1).
     bindE (get_word req 0) (\<lambda>requestorIP.
     bindE (parseFRRequest conf md req requestorIP) (\<lambda>(index, st).
     if index \<noteq> 0
     then if fileSysType conf = ''HDFS3''
          then bindE (atE (fr_lostFiles st) index) (\<lambda>(filename, ip).
            Inr (rpush (coordinatorIP conf) filename (put_word ip) w1))
          else Inr w1
     else
       bindE (atE (fr_lostFiles st) 0) (\<lambda>(filename, _).
       bindE (md_getStripeBlks md filename requestorIP) (\<lambda>blks.
       let stripe = stripe_by_ip blks
       in
       bindE (md_getCoefficient md filename None) (\<lambda>coef.
       bindE (ppr_commands ip2Ctx requestorIP filename coef stripe) (\<lambda>cmds.
       Inr (rpush (coordinatorIP conf) filename (put_word requestorIP)
         (fold (\<lambda>(q, c). rpush (coordinatorIP conf) q c) cmds w1)))))))))"

section \<open>Commands are read back\<close>

lemma length_holders [simp]: "length (ppr_holders ips) = 4 * length ips"
  by (induction ips) (simp_all add: ppr_holders_def)

lemma get_holder:
  assumes "i < length ips" and "off = int (length pre) + 4 * int i"
  shows "get_word (pre @ ppr_holders ips @ post) off = Inr (ips ! i)"
proof -
  have "ppr_holders ips = ppr_holders (take i ips) @ put_word (ips ! i) @ ppr_holders (drop (Suc i) ips)"
    using assms(1) by (subst id_take_nth_drop[OF assms(1)]) (simp add: ppr_holders_def)
  moreover have "int (length (pre @ ppr_holders (take i ips))) = off" using assms by simp
  ultimately show ?thesis
    using get_word_append[of off "pre @ ppr_holders (take i ips)" "ips ! i" "ppr_holders (drop (Suc i) ips) @ post"] by simp
qed

lemma parse_ppr_head:
  assumes c: "c = put_int (int k) @ put_int ident @ ppr_holders ips @ put_word v @ bytes_of f @ rest"
    and "int32 (int k)" and "int32 ident" and "length ips = Suc k" and len: "uint (v AND 0xffff) = int (length f)"
  shows "parse_ppr_cmd c =
    bindE (if int k \<noteq> ident
      then bindE (get_word c (12 + 4 * (int k + 1) + int (length f))) (\<lambda>n.
        get_name c (16 + 4 * (int k + 1) + int (length f)) (uint n))
      else Inr []) (\<lambda>l. Inr \<lparr>pp_ecK = int k, pp_id = ident, pp_holderIps = ips, pp_coefficient = uint (drop_bit 16 v),
        pp_lostBlkName = f, pp_localBlkName = l\<rparr>)"
proof -
  let ?pre = "put_int (int k) @ put_int ident"
  have "get_int c 0 = Inr (int k)"
    using get_int_append[of 0 "[]" "int k"] assms(2) by (simp add: c)
  moreover have "get_int c 4 = Inr ident"
    using get_int_append[of 4 "put_int (int k)"] assms(3) by (simp add: c)
  moreover have holder: "get_word c (8 + 4 * int i) = Inr (ips ! i)" if "i < Suc k" for i
    using get_holder[of i ips "8 + 4 * int i" ?pre "put_word v @ bytes_of f @ rest"] that assms(4) by (simp add: c)
  moreover have "mapE (\<lambda>i. get_word c (8 + 4 * int i)) [0..<Suc k] = Inr ips"
  proof -
    have "mapE (\<lambda>i. get_word c (8 + 4 * int i)) [0..<Suc k] = Inr (map ((!) ips) [0..<Suc k])"
      by (intro mapE_Inr_map holder) (simp del: upt_Suc)
    then show ?thesis using assms(4) by (metis map_nth)
  qed
  moreover have "get_word c (8 + 4 * (int k + 1)) = Inr v"
    using get_word_append[of "8 + 4 * (int k + 1)" "?pre @ ppr_holders ips" v] assms(4) by (simp add: c)
  moreover have "get_name c (12 + 4 * (int k + 1)) (int (length f)) = Inr f"
    using get_name_append[of "12 + 4 * (int k + 1)" "?pre @ ppr_holders ips @ put_word v" "int (length f)" f rest] assms(4)
    by (simp add: c)
  ultimately show ?thesis by (simp add: parse_ppr_cmd_def len Let_def del: upt_Suc)
qed

lemma parse_ppr_cmd_eq:
  assumes cmd: "ppr_cmd idx (int k) (int i) ips coef f l = Inr cmd" and "length ips = Suc k"
    and "i < k" and "k < 256" and "0 \<le> coef" and "coef < 256"
  shows "parse_ppr_cmd (drop 4 cmd) = Inr \<lparr>pp_ecK = int k, pp_id = int i, pp_holderIps = ips, pp_coefficient = coef,
    pp_lostBlkName = f, pp_localBlkName = l\<rparr>"
proof -
  define v :: "32 word" where "v = push_bit 16 (word_of_int coef) OR word_of_int (int (length f))"
  define c where "c = drop 4 cmd"
  have c: "c = put_int (int k) @ put_int (int i) @ ppr_holders ips @ put_word v @ bytes_of f @ put_int (int (length l)) @ bytes_of l"
    and fits: "length f + length l \<le> 1024"
    using cmd by (auto simp: ppr_cmd_def Let_def res_simps COMMAND_MAX_LENGTH_def c_def v_def)
  have lens: "int32 (int (length l))" "length f < 65536" using fits by auto
  have coef: "uint (drop_bit 16 v) = coef" "uint (v AND 0xffff) = int (length f)"
    using packed_coef[OF assms(5) _ _ _ v_def] assms(6) lens(2) by simp_all
  define pre where "pre = put_int (int k) @ put_int (int i) @ ppr_holders ips @ put_word v @ bytes_of f"
  have pre: "int (length pre) = 12 + 4 * (int k + 1) + int (length f)" "c = pre @ put_int (int (length l)) @ bytes_of l"
    using assms(2) by (simp_all add: pre_def c)
  have "get_word c (12 + 4 * (int k + 1) + int (length f)) = Inr (word_of_int (int (length l)))"
    using get_int_append[OF pre(1)[symmetric] lens(1), of "bytes_of l"] pre(2) by (simp add: get_word_def)
  moreover have "get_name c (16 + 4 * (int k + 1) + int (length f)) (int (length l)) = Inr l"
    using get_name_append[of "16 + 4 * (int k + 1) + int (length f)" "pre @ put_int (int (length l))" "int (length l)" l "[]"] pre
    by simp
  moreover have "uint (word_of_int (int (length l)) :: 32 word) = int (length l)"
    using lens(1) by (simp only: uint_word_of_int) (simp add: take_bit_int_eq_self)
  moreover have "int32 (int k)" "int32 (int i)" using assms(3,4) by auto
  ultimately show ?thesis
    using parse_ppr_head[OF c _ _ assms(2) coef(2)] assms(3) coef(1) by (simp add: c_def[symmetric])
qed

lemma parse_ppr_req_eq:
  assumes cmd: "ppr_req_cmd idx (int k) ips f = Inr cmd" and "length ips = Suc k" and "k < 256"
  shows "parse_ppr_cmd (drop 4 cmd) = Inr \<lparr>pp_ecK = int k, pp_id = int k, pp_holderIps = ips, pp_coefficient = 0,
    pp_lostBlkName = f, pp_localBlkName = []\<rparr>"
proof -
  define v :: "32 word" where "v = word_of_int (int (length f))"
  have c: "drop 4 cmd = put_int (int k) @ put_int (int k) @ ppr_holders ips @ put_word v @ bytes_of f @ []"
    and fits: "length f \<le> 1024"
    using cmd by (auto simp: ppr_req_cmd_def Let_def res_simps COMMAND_MAX_LENGTH_def v_def)
  have v: "v = push_bit 16 (word_of_int 0) OR word_of_int (int (length f))" by (simp add: v_def)
  have "uint (drop_bit 16 v) = 0" "uint (v AND 0xffff) = int (length f)"
    using packed_coef[OF _ _ _ _ v] fits by simp_all
  moreover have "int32 (int k)" using assms(3) by auto
  ultimately show ?thesis using parse_ppr_head[OF c _ _ assms(2)] by simp
qed

end
