(* ===== verification/Ppr_Sum.thy ===== *)
theory Ppr_Sum
  imports Ppr_Worker
begin

text \<open>
  The nodes of a partial parallel repair under any interleaving of their threads: every helper only ever
  pushes the sums of the packets it covers, and the requestor the sums over all helpers. The invariant
  speaks of every node, of the queue between a helper and the node that pulls from it, and of the queue of the client.
\<close>

section \<open>The sums\<close>

text \<open>The repair of one block: nodes \<open>0, \<dots>, k - 1\<close> are the helpers, node \<open>k\<close> is the requestor.\<close>

record ppr_case =
  pc_conf :: repair_config
  pc_lost :: string
  pc_coefs :: "byte list"
  pc_blks :: "byte list list"
  pc_ips :: "ip_addr list"

abbreviation pc_k :: "ppr_case \<Rightarrow> nat" where
  "pc_k C \<equiv> length (pc_coefs C)"

abbreviation pc_size :: "ppr_case \<Rightarrow> nat" where
  "pc_size C \<equiv> packetSize (pc_conf C)"

abbreviation pc_cnt :: "ppr_case \<Rightarrow> nat" where
  "pc_cnt C \<equiv> packetCnt (pc_conf C)"

definition ppr_own :: "gf_ops \<Rightarrow> ppr_case \<Rightarrow> nat \<Rightarrow> nat \<Rightarrow> nat \<Rightarrow> byte" where
  "ppr_own G C i b h = gf_multiply G (pc_coefs C ! h) (pc_blks C ! h ! (i * pc_size C + b))"

definition kids :: "nat \<Rightarrow> nat \<Rightarrow> nat list" where
  "kids k n = (if n < k then getChildrenIndices n k else getChildrenIndices (nat (getID (int k))) k)"

definition span :: "nat \<Rightarrow> nat \<Rightarrow> nat set" where
  "span k n = (if n < k then {h. Suc h \<in> covers (Suc n)} else {..<k})"

definition ppr_pkt :: "gf_ops \<Rightarrow> ppr_case \<Rightarrow> nat \<Rightarrow> nat \<Rightarrow> byte list" where
  "ppr_pkt G C n i = map (\<lambda>b. xs.F (ppr_own G C i b) (span (pc_k C) n)) [0..<pc_size C]"

lemma length_ppr_pkt [simp]: "length (ppr_pkt G C n i) = pc_size C"
  by (simp add: ppr_pkt_def)

lemma kids_pulls: "n \<le> k \<Longrightarrow> \<exists>p. (if n < k then p = Suc n else \<exists>m. p = 2 ^ m \<and> k < p) \<and> Suc ` set (kids k n) = pulls_from k p"
proof (cases "n < k")
  case False
  obtain m where m: "getID (int k) = 2 ^ m - 1" "k < 2 ^ m" by (rule getID_exp)
  moreover have "Suc (nat (2 ^ m - 1)) = 2 ^ m" by (simp add: nat_diff_distrib)
  ultimately show ?thesis using False children_spec[of "nat (getID (int k))" k] by (auto simp: kids_def)
qed (use children_spec in \<open>simp add: kids_def\<close>)

lemma distinct_kids: "distinct (kids k n)"
  using children_spec by (simp add: kids_def)

lemma set_kids:
  "n \<le> k \<Longrightarrow> c \<in> set (kids k n) \<longleftrightarrow> c < k \<and> (if n < k then PPRnextIP (int c) = int n else int k \<le> PPRnextIP (int c))"
  using helper_children[of n k] requestor_children[of k] by (auto simp: kids_def)

lemma PPRnextIP_later: "int c < PPRnextIP (int c)"
  using PPRnextIP_eq[of c] by (simp add: add_pos_pos)

lemma kids_less: "n \<le> k \<Longrightarrow> c \<in> set (kids k n) \<Longrightarrow> c < n \<and> c < k"
  using PPRnextIP_later[of c] by (auto simp: set_kids split: if_splits)

lemma one_parent: "c \<in> set (kids k n) \<Longrightarrow> c \<in> set (kids k m) \<Longrightarrow> n \<le> k \<Longrightarrow> m \<le> k \<Longrightarrow> n = m"
  by (auto simp: set_kids split: if_splits)

lemma span_rec:
  assumes "n \<le> k"
  shows "span k n = (if n < k then {n} else {}) \<union> (\<Union>c \<in> set (kids k n). span k c)"
    and "n < k \<Longrightarrow> n \<notin> (\<Union>c \<in> set (kids k n). span k c)"
    and "c \<in> set (kids k n) \<Longrightarrow> d \<in> set (kids k n) \<Longrightarrow> c \<noteq> d \<Longrightarrow> span k c \<inter> span k d = {}"
proof -
  obtain p where p: "if n < k then p = Suc n else \<exists>m. p = 2 ^ m \<and> k < p" "Suc ` set (kids k n) = pulls_from k p"
    using kids_pulls[OF assms] by blast
  have sub: "span k c = {h. Suc h \<in> covers (Suc c)}" if "c \<in> set (kids k n)" for c
    using kids_less[OF assms that] by (simp add: span_def)
  have un: "h \<in> (\<Union>c \<in> set (kids k n). span k c) \<longleftrightarrow> Suc h \<le> k \<and> p - 2 ^ last_one p < Suc h \<and> Suc h < p" for h
  proof -
    have "h \<in> (\<Union>c \<in> set (kids k n). span k c) \<longleftrightarrow> Suc h \<in> (\<Union>c \<in> Suc ` set (kids k n). covers c)"
      using sub by auto
    also have "\<dots> \<longleftrightarrow> Suc h \<in> {x. 0 < x \<and> x \<le> k \<and> p - 2 ^ last_one p < x \<and> x < p}"
      by (simp only: p(2) pulls_cover)
    finally show ?thesis by simp
  qed
  show "span k n = (if n < k then {n} else {}) \<union> (\<Union>c \<in> set (kids k n). span k c)"
  proof (cases "n < k")
    case True
    then have "p = Suc n" using p(1) by simp
    with True show ?thesis unfolding set_eq_iff Un_iff un by (auto simp: span_def covers_def)
  next
    case False
    then obtain m where "p = 2 ^ m" "k < p" using p(1) by auto
    with False show ?thesis unfolding set_eq_iff Un_iff un by (auto simp: span_def last_one_power)
  qed
  show "n \<notin> (\<Union>c \<in> set (kids k n). span k c)" if "n < k" using p(1) that un[of n] by simp
  show "span k c \<inter> span k d = {}" if c: "c \<in> set (kids k n)" and d: "d \<in> set (kids k n)" and "c \<noteq> d"
  proof -
    have "Suc c \<in> pulls_from k p" "Suc d \<in> pulls_from k p" using c d p(2) by auto
    then have "covers (Suc c) \<inter> covers (Suc d) = {}"
      using covers_disjoint[of "Suc c" k p "Suc d"] covers_disjoint[of "Suc d" k p "Suc c"] \<open>c \<noteq> d\<close>
      by (cases "c < d") (auto simp: disjoint_iff)
    then show ?thesis using sub[OF c] sub[OF d] by auto
  qed
qed

lemma finite_span: "finite (span k n)"
proof -
  have "span k n \<subseteq> {..k + n}" by (auto simp: span_def covers_def)
  then show ?thesis by (rule finite_subset) simp
qed

lemma span_sum:
  assumes "n \<le> k"
  shows "xs.F f (span k n) = (if n < k then f n else 0) XOR xs.F (\<lambda>c. xs.F f (span k c)) (set (kids k n))"
proof -
  have fin: "finite (\<Union>c \<in> set (kids k n). span k c)" by (simp add: finite_span)
  have "xs.F f (\<Union>c \<in> set (kids k n). span k c) = xs.F (\<lambda>c. xs.F f (span k c)) (set (kids k n))"
    using span_rec(3)[OF assms] by (intro xs.UNION_disjoint) (auto simp: finite_span)
  then show ?thesis
    unfolding span_rec(1)[OF assms] using span_rec(2)[OF assms] fin by (cases "n < k") simp_all
qed

section \<open>Nodes\<close>

text \<open>Where node \<open>n\<close> pulls the packets of its child \<open>c\<close>, and where it pushes its own.\<close>

definition ppr_src :: "ppr_case \<Rightarrow> nat \<Rightarrow> nat \<Rightarrow> ip_addr" where
  "ppr_src C n c = (if n = pc_k C then pc_ips C ! pc_k C else pc_ips C ! c)"

definition ppr_dst :: "ppr_case \<Rightarrow> nat \<Rightarrow> ip_addr" where
  "ppr_dst C n = (if int (pc_k C) \<le> PPRnextIP (int n) then pc_ips C ! pc_k C else pc_ips C ! n)"

lemma src_dst: "n \<le> pc_k C \<Longrightarrow> c \<in> set (kids (pc_k C) n) \<Longrightarrow> ppr_src C n c = ppr_dst C c"
  by (auto simp: ppr_src_def ppr_dst_def set_kids split: if_splits)

definition ppr_conf_ok :: "ppr_case \<Rightarrow> bool" where
  "ppr_conf_ok C \<longleftrightarrow> 8 dvd pc_size C \<and> pc_cnt C \<noteq> 3 \<and> pc_cnt C * pc_size C < 2 ^ 31 \<and>
     distinct (pc_ips C) \<and> length (pc_ips C) = Suc (pc_k C) \<and>
     (\<forall>h < pc_k C. pc_cnt C * pc_size C \<le> length (pc_blks C ! h))"

definition node_ok :: "ppr_case \<Rightarrow> world \<Rightarrow> nat \<Rightarrow> ppr_worker \<Rightarrow> bool" where
  "node_ok C w n p \<longleftrightarrow>
     pr_ip p = pc_ips C ! n \<and> pp_ecK (pr_job p) = int (pc_k C) \<and> pp_id (pr_job p) = int n \<and>
     pp_lostBlkName (pr_job p) = pc_lost C \<and> pr_wrtCtx p = Some (ppr_dst C n) \<and>
     pr_ctxes p = map (\<lambda>c. (c, Some (ppr_src C n c))) (kids (pc_k C) n) \<and>
     (if n < pc_k C
      then pp_localBlkName (pr_job p) \<noteq> [] \<and> pp_coefficient (pr_job p) = uint (pc_coefs C ! n) \<and>
        w_files w (pc_ips C ! n) (pp_localBlkName (pr_job p)) = Some (pc_blks C ! n)
      else pp_localBlkName (pr_job p) = [])"

text \<open>The children whose packet \<open>i\<close> has arrived, and what packet \<open>i\<close> is by then.\<close>

definition arrived :: "nat list \<Rightarrow> nat list \<Rightarrow> nat \<Rightarrow> nat set" where
  "arrived cs idx i = {c. \<exists>j < length cs. cs ! j = c \<and> i < idx ! j}"

definition node_pkt :: "gf_ops \<Rightarrow> ppr_case \<Rightarrow> nat \<Rightarrow> nat \<Rightarrow> nat list \<Rightarrow> nat \<Rightarrow> byte list" where
  "node_pkt G C n rd idx i =
     map (\<lambda>b. (if i < rd \<and> n < pc_k C then ppr_own G C i b n else 0) XOR
       xs.F (\<lambda>c. xs.F (ppr_own G C i b) (span (pc_k C) c)) (arrived (kids (pc_k C) n) idx i)) [0..<pc_size C]"

lemma length_node_pkt [simp]: "length (node_pkt G C n rd idx i) = pc_size C"
  by (simp add: node_pkt_def)

definition node_inv :: "gf_ops \<Rightarrow> ppr_case \<Rightarrow> nat \<Rightarrow> ppr_worker \<Rightarrow> bool" where
  "node_inv G C n p \<longleftrightarrow>
     length (pr_idx p) = length (kids (pc_k C) n) \<and> (\<forall>i \<in> set (pr_idx p). i \<le> pr_read p) \<and> pr_read p \<le> pc_cnt C \<and>
     (if pr_idx p = [] then pr_toSend p \<le> pr_read p else pr_toSend p = fold min (pr_idx p) (pc_cnt C)) \<and>
     pr_sent p \<le> pr_toSend p \<and> length (pr_disk p) = pc_cnt C \<and>
     (\<forall>i < pc_cnt C. pr_disk p ! i = node_pkt G C n (pr_read p) (pr_idx p) i)"

lemma fold_min_iff: "x < fold min xs (c::nat) \<longleftrightarrow> x < c \<and> (\<forall>y \<in> set xs. x < y)"
  by (induction xs arbitrary: c) auto

lemma fold_min_const: "\<forall>i \<in> set xs. i = c \<Longrightarrow> fold min xs (c::nat) = c"
  by (induction xs) simp_all

lemma fold_min_bump:
  assumes "n < length xs"
  shows "fold min xs (c::nat) \<le> fold min (xs[n := Suc (xs ! n)]) c" and "fold min (xs[n := Suc (xs ! n)]) c \<le> Suc (fold min xs c)"
proof -
  let ?xs = "xs[n := Suc (xs ! n)]"
  have "\<not> fold min ?xs c < fold min xs c"
  proof
    assume "fold min ?xs c < fold min xs c"
    then have lt: "fold min ?xs c < c" "\<forall>i < length xs. fold min ?xs c < xs ! i"
      unfolding fold_min_iff[of _ xs] by (simp_all add: all_set_conv_all_nth)
    have "fold min ?xs c < ?xs ! i" if "i < length xs" for i
      using lt(2) that by (cases "i = n") (auto simp: less_SucI)
    then have "fold min ?xs c < fold min ?xs c" using lt(1) by (subst fold_min_iff) (simp add: all_set_conv_all_nth)
    then show False by simp
  qed
  then show "fold min xs c \<le> fold min ?xs c" by simp
  have "\<not> Suc (fold min xs c) < fold min ?xs c"
  proof
    assume "Suc (fold min xs c) < fold min ?xs c"
    then have lt: "Suc (fold min xs c) < c" "\<forall>i < length xs. Suc (fold min xs c) < ?xs ! i"
      unfolding fold_min_iff by (simp_all add: all_set_conv_all_nth)
    have "fold min xs c < xs ! i" if "i < length xs" for i
      using lt(2)[rule_format, OF that] that by (cases "i = n") simp_all
    then have "fold min xs c < fold min xs c" using lt(1) by (subst fold_min_iff) (simp add: all_set_conv_all_nth)
    then show False by simp
  qed
  then show "fold min ?xs c \<le> Suc (fold min xs c)" by simp
qed

lemma toSend_read: "node_inv G C n p \<Longrightarrow> pr_toSend p \<le> pr_read p"
proof (rule ccontr)
  assume inv: "node_inv G C n p" and "\<not> pr_toSend p \<le> pr_read p"
  then have "pr_read p < fold min (pr_idx p) (pc_cnt C)" "pr_idx p \<noteq> []"
    by (auto simp: node_inv_def split: if_splits)
  then show False using inv unfolding fold_min_iff by (cases "pr_idx p") (auto simp: node_inv_def)
qed

lemma sent_pkt:
  assumes inv: "node_inv G C n p" and "n \<le> pc_k C" and "i < pr_toSend p"
  shows "pr_disk p ! i = ppr_pkt G C n i"
proof -
  have rd: "i < pr_read p" "i < pc_cnt C" using toSend_read[OF inv] assms(3) inv by (auto simp: node_inv_def)
  have len: "length (pr_idx p) = length (kids (pc_k C) n)" using inv by (simp add: node_inv_def)
  have "i < pr_idx p ! j" if "j < length (kids (pc_k C) n)" for j
  proof -
    have "pr_idx p \<noteq> []" using that len by auto
    then have "i < fold min (pr_idx p) (pc_cnt C)" using inv assms(3) by (simp add: node_inv_def)
    then show ?thesis using that len by (simp add: fold_min_iff)
  qed
  then have "arrived (kids (pc_k C) n) (pr_idx p) i = set (kids (pc_k C) n)"
    unfolding arrived_def set_conv_nth by blast
  then have "node_pkt G C n (pr_read p) (pr_idx p) i = ppr_pkt G C n i"
    using rd(1) span_sum[OF assms(2)] by (simp add: node_pkt_def ppr_pkt_def)
  then show ?thesis using inv rd(2) by (simp add: node_inv_def)
qed

lemma pktOutput_ok: "cnt \<noteq> 3 \<Longrightarrow> i < cnt \<Longrightarrow> \<exists>b. pktOutput i cnt = Inr b"
  by (auto simp: pktOutput_def div_eq_0_iff)

section \<open>The steps of a node\<close>

lemma nonneg_base:
  assumes "cnt * sz < 2 ^ 31" and "i < cnt"
  shows "sint (word_of_int (int (i * sz)) :: 32 word) = int (i * sz)"
proof -
  have "i * sz \<le> cnt * sz" using assms(2) by simp
  then have "i * sz < 2 ^ 31" using assms(1) by (rule le_less_trans)
  then have "int (i * sz) < 2 ^ 31" by (simp del: of_nat_mult)
  moreover have "sint (word_of_int x :: 32 word) = x" if "0 \<le> x" "x < 2 ^ 31" for x
    using that by (subst sint_sbintrunc') (simp add: signed_take_bit_int_eq_self)
  ultimately show ?thesis by (metis of_nat_0_le_iff)
qed

lemma own_pkt_read:
  assumes "gf_complete G" and "io_ok E" and C: "ppr_conf_ok C" and "n < pc_k C" and "i < pc_cnt C"
  shows "read_loop E (pc_blks C ! n) (i * pc_size C) (pc_size C) 0 (replicate (pc_size C) 0) =
      Inr (take (pc_size C) (drop (i * pc_size C) (pc_blks C ! n)))"
    and "rs_multiply G (take (pc_size C) (drop (i * pc_size C) (pc_blks C ! n))) (pc_coefs C ! n) (pc_size C) =
      Inr (map (\<lambda>b. ppr_own G C i b n) [0..<pc_size C])"
proof -
  have "Suc i * pc_size C \<le> pc_cnt C * pc_size C" using assms(5) by (intro mult_le_mono1) simp
  moreover have "pc_cnt C * pc_size C \<le> length (pc_blks C ! n)" using C assms(4) by (simp add: ppr_conf_ok_def)
  ultimately have room: "i * pc_size C + pc_size C \<le> length (pc_blks C ! n)" by simp
  then show "read_loop E (pc_blks C ! n) (i * pc_size C) (pc_size C) 0 (replicate (pc_size C) 0) =
      Inr (take (pc_size C) (drop (i * pc_size C) (pc_blks C ! n)))"
    using read_loop_eq[OF assms(2) room] by simp
  show "rs_multiply G (take (pc_size C) (drop (i * pc_size C) (pc_blks C ! n))) (pc_coefs C ! n) (pc_size C) =
      Inr (map (\<lambda>b. ppr_own G C i b n) [0..<pc_size C])"
    using room by (simp add: rs_multiply_def gf_complete.w08_region_multiply[OF assms(1)] ppr_own_def)
      (auto intro!: nth_equalityI simp: ac_simps)
qed

text \<open>The packet that is about to be read is still zero.\<close>

lemma unread_pkt:
  assumes "node_inv G C n p" and "pr_read p < pc_cnt C"
  shows "pr_disk p ! pr_read p = replicate (pc_size C) 0"
    and "arrived (kids (pc_k C) n) (pr_idx p) (pr_read p) = {}"
proof -
  show a: "arrived (kids (pc_k C) n) (pr_idx p) (pr_read p) = {}"
    using assms(1) by (force simp: arrived_def node_inv_def all_set_conv_all_nth)
  have "pr_disk p ! pr_read p = node_pkt G C n (pr_read p) (pr_idx p) (pr_read p)"
    using assms by (simp add: node_inv_def)
  also have "\<dots> = replicate (pc_size C) 0" by (simp add: node_pkt_def a map_replicate_const)
  finally show "pr_disk p ! pr_read p = replicate (pc_size C) 0" .
qed

lemma ppr_read_ok:
  assumes G: "gf_complete G" and "io_ok E" and C: "ppr_conf_ok C" and ok: "node_ok C w n p" and inv: "node_inv G C n p"
    and "n \<le> pc_k C" and rd: "pr_read p < pc_cnt C"
  shows "\<exists>disk. ppr_read G E (pc_conf C) w p = Inr (p\<lparr>pr_disk := disk, pr_read := Suc (pr_read p)\<rparr>) \<and>
    node_inv G C n (p\<lparr>pr_disk := disk, pr_read := Suc (pr_read p)\<rparr>)"
proof -
  let ?r = "pr_read p"
  obtain b where out: "pktOutput ?r (pc_cnt C) = Inr b"
    using pktOutput_ok[of "pc_cnt C"] C rd by (auto simp: ppr_conf_ok_def)
  have other: "node_pkt G C n (Suc ?r) (pr_idx p) i = node_pkt G C n ?r (pr_idx p) i" if "i \<noteq> ?r \<or> \<not> n < pc_k C" for i
    using that by (auto simp: node_pkt_def less_Suc_eq)
  have step: "node_inv G C n (p\<lparr>pr_disk := disk, pr_read := Suc ?r\<rparr>)"
    if "length disk = pc_cnt C" "\<And>i. i < pc_cnt C \<Longrightarrow> disk ! i = node_pkt G C n (Suc ?r) (pr_idx p) i" for disk
    using inv rd that by (auto simp: node_inv_def)
  show ?thesis
  proof (cases "n < pc_k C")
    case False
    then have "ppr_read G E (pc_conf C) w p = Inr (p\<lparr>pr_disk := pr_disk p, pr_read := Suc ?r\<rparr>)"
      using ok out by (simp add: ppr_read_def node_ok_def)
    moreover have "node_inv G C n (p\<lparr>pr_disk := pr_disk p, pr_read := Suc ?r\<rparr>)"
      using inv other False by (intro step) (auto simp: node_inv_def)
    ultimately show ?thesis by blast
  next
    case True
    let ?d = "(pr_disk p)[?r := map (\<lambda>b. ppr_own G C ?r b n) [0..<pc_size C]]"
    have base: "sint (word_of_int (int (?r * pc_size C)) :: 32 word) = int (?r * pc_size C)"
      using nonneg_base[OF _ rd] C by (simp add: ppr_conf_ok_def)
    have "uint (pc_coefs C ! n) < 256" using uint_lt2p[of "pc_coefs C ! n"] by simp
    moreover have "length (pr_disk p) = pc_cnt C" using inv by (simp add: node_inv_def)
    ultimately have "ppr_read G E (pc_conf C) w p = Inr (p\<lparr>pr_disk := ?d, pr_read := Suc ?r\<rparr>)"
      using ok True out base unread_pkt(1)[OF inv rd] own_pkt_read[OF G assms(2) C True rd] rd
      by (simp add: ppr_read_def node_ok_def Let_def del: of_nat_mult)
    moreover have "map (\<lambda>b. ppr_own G C ?r b n) [0..<pc_size C] = node_pkt G C n (Suc ?r) (pr_idx p) ?r"
      using True by (simp add: node_pkt_def unread_pkt(2)[OF inv rd])
    then have "node_inv G C n (p\<lparr>pr_disk := ?d, pr_read := Suc ?r\<rparr>)"
      using inv other rd by (intro step) (auto simp: node_inv_def nth_list_update)
    ultimately show ?thesis by blast
  qed
qed

text \<open>The queue between child \<open>c\<close> and the node that pulls from it holds the packets \<open>[a..<s]\<close>.\<close>

definition pkts_queued :: "gf_ops \<Rightarrow> ppr_case \<Rightarrow> nat \<Rightarrow> nat \<Rightarrow> nat \<Rightarrow> world \<Rightarrow> bool" where
  "pkts_queued G C c a s w \<longleftrightarrow>
     a \<le> s \<and> w_queues w (ppr_dst C c) (ppr_key (pc_lost C) (int c)) = map (ppr_pkt G C c) [a..<s]"

definition pop_pkt :: "ppr_case \<Rightarrow> nat \<Rightarrow> world \<Rightarrow> world" where
  "pop_pkt C c w = w\<lparr>w_queues := (w_queues w)(ppr_dst C c := (w_queues w (ppr_dst C c))
     (ppr_key (pc_lost C) (int c) := tl (w_queues w (ppr_dst C c) (ppr_key (pc_lost C) (int c)))))\<rparr>"

lemma blpop_pkt:
  assumes "pkts_queued G C c a s w"
  shows "blpop (ppr_dst C c) (ppr_key (pc_lost C) (int c)) w =
    (if a < s then Inr (ppr_pkt G C c a, pop_pkt C c w) else Inl Blocked)"
  using assms by (auto simp: pkts_queued_def blpop_def pop_pkt_def upt_conv_Cons)

lemma arrived_update:
  assumes "distinct cs" and "length idx = length cs" and "num < length cs"
  shows "arrived cs (idx[num := Suc (idx ! num)]) i =
    (if i = idx ! num then insert (cs ! num) (arrived cs idx i) else arrived cs idx i)"
    and "cs ! num \<notin> arrived cs idx (idx ! num)"
proof -
  show "cs ! num \<notin> arrived cs idx (idx ! num)"
    using assms by (auto simp: arrived_def nth_eq_iff_index_eq)
  have "i < idx[num := Suc (idx ! num)] ! j \<longleftrightarrow> i < idx ! j \<or> j = num \<and> i = idx ! num" if "j < length cs" for j
    using assms(2,3) that by (auto simp: nth_list_update)
  then show "arrived cs (idx[num := Suc (idx ! num)]) i =
      (if i = idx ! num then insert (cs ! num) (arrived cs idx i) else arrived cs idx i)"
    using assms(3) unfolding arrived_def by auto
qed

lemma finite_arrived: "finite (arrived cs idx i)"
proof -
  have "arrived cs idx i \<subseteq> set cs" by (auto simp: arrived_def)
  then show ?thesis by (rule finite_subset) simp
qed

lemma node_pkt_fetch:
  assumes "length idx = length (kids (pc_k C) n)" and "num < length (kids (pc_k C) n)"
  shows "node_pkt G C n rd (idx[num := Suc (idx ! num)]) i =
    (if i = idx ! num then xor_bytes (node_pkt G C n rd idx i) (ppr_pkt G C (kids (pc_k C) n ! num) i) else node_pkt G C n rd idx i)"
proof (cases "i = idx ! num")
  case True
  note upd = arrived_update[OF distinct_kids assms]
  show ?thesis
    using True upd(2) finite_arrived[of "kids (pc_k C) n" idx i]
    by (intro nth_equalityI) (simp_all add: node_pkt_def ppr_pkt_def upd(1) xor.assoc xor.left_commute xor.commute)
next
  case False
  then show ?thesis using arrived_update(1)[OF distinct_kids assms] by (simp add: node_pkt_def)
qed

lemma ppr_fetch_ok:
  assumes C: "ppr_conf_ok C" and ok: "node_ok C w n p" and inv: "node_inv G C n p" and "n \<le> pc_k C"
    and num: "num < length (pr_ctxes p)" "pr_idx p ! num < pr_read p"
    and c: "c = kids (pc_k C) n ! num" and q: "pkts_queued G C c (pr_idx p ! num) s w" "pr_idx p ! num < s"
  shows "\<exists>disk toSend. ppr_fetch (pc_conf C) num w p = Inr (pop_pkt C c w,
      p\<lparr>pr_disk := disk, pr_idx := (pr_idx p)[num := Suc (pr_idx p ! num)], pr_toSend := toSend\<rparr>) \<and>
    node_inv G C n (p\<lparr>pr_disk := disk, pr_idx := (pr_idx p)[num := Suc (pr_idx p ! num)], pr_toSend := toSend\<rparr>) \<and>
    pr_toSend p \<le> toSend"
proof -
  let ?i = "pr_idx p ! num" and ?idx = "(pr_idx p)[num := Suc (pr_idx p ! num)]"
  have len: "length (pr_idx p) = length (kids (pc_k C) n)" "num < length (kids (pc_k C) n)"
    using inv num(1) ok by (simp_all add: node_inv_def node_ok_def)
  have ctx: "pr_ctxes p ! num = (c, Some (ppr_dst C c))" "pp_lostBlkName (pr_job p) = pc_lost C"
    using ok len(2) src_dst[OF assms(4), of c] c by (simp_all add: node_ok_def)
  have i: "?i < pc_cnt C" "length (pr_disk p) = pc_cnt C" "pr_disk p ! ?i = node_pkt G C n (pr_read p) (pr_idx p) ?i"
    using inv num(2) by (auto simp: node_inv_def)
  define buf where "buf = node_pkt G C n (pr_read p) ?idx ?i"
  have "XORBuffers (node_pkt G C n (pr_read p) (pr_idx p) ?i) (ppr_pkt G C c ?i) (pc_size C) = Inr buf"
    using C by (simp add: XORBuffers_def buf_def node_pkt_fetch[OF len] ppr_conf_ok_def c)
  moreover define toSend where
    "toSend = (if pr_toSend p < fold min ?idx (pc_cnt C) then fold min ?idx (pc_cnt C) else pr_toSend p)"
  ultimately have run: "ppr_fetch (pc_conf C) num w p =
      Inr (pop_pkt C c w, p\<lparr>pr_disk := (pr_disk p)[?i := buf], pr_idx := ?idx, pr_toSend := toSend\<rparr>)"
    using num(1) len i ctx blpop_pkt[OF q(1)] q(2) by (simp add: ppr_fetch_def Let_def)
  have "pr_idx p \<noteq> []" using len by auto
  moreover have mono: "fold min (pr_idx p) (pc_cnt C) \<le> fold min ?idx (pc_cnt C)"
    using len by (intro fold_min_bump) simp
  ultimately have "toSend = fold min ?idx (pc_cnt C)" using inv by (auto simp: node_inv_def toSend_def)
  moreover have rises: "pr_toSend p \<le> toSend" by (simp add: toSend_def)
  moreover have "\<forall>i \<in> set ?idx. i \<le> pr_read p"
    using inv num(2) by (auto simp: node_inv_def dest!: set_update_subset_insert[THEN subsetD])
  ultimately have "node_inv G C n (p\<lparr>pr_disk := (pr_disk p)[?i := buf], pr_idx := ?idx, pr_toSend := toSend\<rparr>)"
    using inv i len \<open>pr_idx p \<noteq> []\<close>
    by (auto simp: node_inv_def nth_list_update buf_def node_pkt_fetch[OF len])
  with run rises show ?thesis by blast
qed

lemma ppr_push_ok:
  assumes C: "ppr_conf_ok C" and ok: "node_ok C w n p" and inv: "node_inv G C n p" and "n \<le> pc_k C"
    and "pr_sent p < pr_toSend p"
  shows "ppr_push (pc_conf C) w p = Inr (rpush (ppr_dst C n)
      (if n = pc_k C then pc_lost C else ppr_key (pc_lost C) (int n)) (ppr_pkt G C n (pr_sent p)) w, p\<lparr>pr_sent := Suc (pr_sent p)\<rparr>)"
    and "node_inv G C n (p\<lparr>pr_sent := Suc (pr_sent p)\<rparr>)"
proof -
  have cnt: "pr_sent p < pc_cnt C" "length (pr_disk p) = pc_cnt C"
    using toSend_read[OF inv] assms(5) inv by (auto simp: node_inv_def)
  obtain b where "pktOutput (pr_sent p) (pc_cnt C) = Inr b"
    using pktOutput_ok[OF _ cnt(1)] C by (auto simp: ppr_conf_ok_def)
  then show "ppr_push (pc_conf C) w p = Inr (rpush (ppr_dst C n)
      (if n = pc_k C then pc_lost C else ppr_key (pc_lost C) (int n)) (ppr_pkt G C n (pr_sent p)) w, p\<lparr>pr_sent := Suc (pr_sent p)\<rparr>)"
    using ok cnt sent_pkt[OF inv assms(4,5)] by (simp add: ppr_push_def node_ok_def memcpy_from_def Let_def)
  show "node_inv G C n (p\<lparr>pr_sent := Suc (pr_sent p)\<rparr>)" using inv assms(5) by (auto simp: node_inv_def)
qed

section \<open>The cluster\<close>

text \<open>How many packets of helper \<open>c\<close> the node that pulls from it has taken.\<close>

definition parent :: "nat \<Rightarrow> nat \<Rightarrow> nat" where
  "parent k c = (if int k \<le> PPRnextIP (int c) then k else nat (PPRnextIP (int c)))"

lemma parent_kids: "c < k \<Longrightarrow> n \<le> k \<Longrightarrow> c \<in> set (kids k n) \<longleftrightarrow> n = parent k c"
  using PPRnextIP_later[of c] by (auto simp: set_kids parent_def split: if_splits)

lemma parent_le: "c < k \<Longrightarrow> parent k c \<le> k \<and> c < parent k c"
  using PPRnextIP_later[of c] by (auto simp: parent_def)

definition taken_by :: "nat \<Rightarrow> ppr_worker list \<Rightarrow> nat \<Rightarrow> nat" where
  "taken_by k ps c = pr_idx (ps ! parent k c) ! index_of c (kids k (parent k c))"

definition cluster_inv :: "gf_ops \<Rightarrow> ppr_case \<Rightarrow> world \<times> ppr_worker list \<Rightarrow> bool" where
  "cluster_inv G C st \<longleftrightarrow> (case st of (w, ps) \<Rightarrow>
     length ps = Suc (pc_k C) \<and> (\<forall>n \<le> pc_k C. node_ok C w n (ps ! n) \<and> node_inv G C n (ps ! n)) \<and>
     (\<forall>c < pc_k C. pkts_queued G C c (taken_by (pc_k C) ps c) (pr_sent (ps ! c)) w) \<and>
     w_queues w (pc_ips C ! pc_k C) (pc_lost C) = map (ppr_pkt G C (pc_k C)) [0..<pr_sent (ps ! pc_k C)])"

lemma ppr_key_inj: "ppr_key f (int a) = ppr_key f (int b) \<longleftrightarrow> a = b"
  by (auto simp: ppr_key_def to_string_def dest: nat_to_string_inj)

lemma ppr_key_lost: "ppr_key f a \<noteq> f" "f \<noteq> ppr_key f a"
proof -
  have "length (ppr_key f a) > length f" by (simp add: ppr_key_def)
  then show "ppr_key f a \<noteq> f" "f \<noteq> ppr_key f a" by auto
qed

lemma taken_parent:
  assumes "c < k" and "length ps = Suc k" and "num < length (kids k n)" and "n \<le> k" and "c = kids k n ! num"
  shows "n = parent k c" and "index_of c (kids k n) = num" and "taken_by k ps c = pr_idx (ps ! n) ! num"
proof -
  have "c \<in> set (kids k n)" using assms(3,5) by simp
  then show n: "n = parent k c" using parent_kids[OF assms(1,4)] by simp
  show idx: "index_of c (kids k n) = num" using index_of_nth[OF distinct_kids assms(3)] assms(5) by simp
  show "taken_by k ps c = pr_idx (ps ! n) ! num" using n idx by (simp add: taken_by_def)
qed

text \<open>A node that pulls, reads or pushes leaves what it was told as it is.\<close>

lemma node_ok_same:
  "node_ok C w n p \<Longrightarrow> pr_ip p' = pr_ip p \<Longrightarrow> pr_job p' = pr_job p \<Longrightarrow> pr_wrtCtx p' = pr_wrtCtx p \<Longrightarrow>
    pr_ctxes p' = pr_ctxes p \<Longrightarrow> w_files w' = w_files w \<Longrightarrow> node_ok C w' n p'"
  by (simp add: node_ok_def)

lemma ppr_step_cases:
  assumes G: "gf_complete G" and E: "io_ok E" and C: "ppr_conf_ok C" and inv: "cluster_inv G C (w, ps)"
    and n: "n \<le> pc_k C" and step: "ppr_step G E (pc_conf C) (w, ps ! n) (w', p')"
  obtains
    (quiet) "w' = w" "node_ok C w n p'" "node_inv G C n p'" "pr_idx p' = pr_idx (ps ! n)" "pr_sent p' = pr_sent (ps ! n)"
  | (pull) num c where "num < length (kids (pc_k C) n)" "c = kids (pc_k C) n ! num" "c < pc_k C"
      "w' = pop_pkt C c w" "node_ok C w' n p'" "node_inv G C n p'" "taken_by (pc_k C) ps c < pr_sent (ps ! c)"
      "pr_idx p' = (pr_idx (ps ! n))[num := Suc (taken_by (pc_k C) ps c)]" "pr_sent p' = pr_sent (ps ! n)"
  | (push) "w' = rpush (ppr_dst C n) (if n = pc_k C then pc_lost C else ppr_key (pc_lost C) (int n)) (ppr_pkt G C n (pr_sent (ps ! n))) w"
      "node_ok C w' n p'" "node_inv G C n p'" "pr_idx p' = pr_idx (ps ! n)" "pr_sent p' = Suc (pr_sent (ps ! n))"
proof -
  let ?p = "ps ! n"
  have ok: "node_ok C w n ?p" and ninv: "node_inv G C n ?p" and len: "length ps = Suc (pc_k C)"
    using inv n by (simp_all add: cluster_inv_def)
  from step show thesis
  proof (cases rule: ppr_step.cases)
    case Read
    then obtain disk where "p' = ?p\<lparr>pr_disk := disk, pr_read := Suc (pr_read ?p)\<rparr>" "node_inv G C n p'"
      using ppr_read_ok[OF G E C ok ninv n] by force
    with Read node_ok_same[OF ok, of p' w] show ?thesis by (intro quiet) simp_all
  next
    case (Fetch num)
    let ?c = "kids (pc_k C) n ! num"
    have num: "num < length (kids (pc_k C) n)" using Fetch(1) ok by (simp add: node_ok_def)
    then have c: "?c < pc_k C" using kids_less[OF n] by simp
    note t = taken_parent[OF c len num n refl]
    have "pkts_queued G C ?c (taken_by (pc_k C) ps ?c) (pr_sent (ps ! ?c)) w" using inv c by (simp add: cluster_inv_def)
    then have q: "pkts_queued G C ?c (pr_idx ?p ! num) (pr_sent (ps ! ?c)) w" by (simp only: t(3))
    have ctx: "pr_ctxes ?p ! num = (?c, Some (ppr_dst C ?c))" "pp_lostBlkName (pr_job ?p) = pc_lost C"
      using ok num src_dst[OF n, of ?c] by (simp_all add: node_ok_def)
    have lt: "pr_idx ?p ! num < pr_sent (ps ! ?c)"
    proof (rule ccontr)
      assume "\<not> ?thesis"
      then have "blpop (ppr_dst C ?c) (ppr_key (pc_lost C) (int ?c)) w = Inl Blocked" using blpop_pkt[OF q] by simp
      then show False using Fetch(1,4) ctx num ninv by (simp add: ppr_fetch_def node_inv_def)
    qed
    obtain disk toSend where p': "w' = pop_pkt C ?c w"
      "p' = ?p\<lparr>pr_disk := disk, pr_idx := (pr_idx ?p)[num := Suc (pr_idx ?p ! num)], pr_toSend := toSend\<rparr>" "node_inv G C n p'"
      using ppr_fetch_ok[OF C ok ninv n Fetch(1,3) refl q lt] Fetch(4) by force
    then have "node_ok C w' n p'" by (intro node_ok_same[OF ok]) (simp_all add: pop_pkt_def)
    then show ?thesis using pull[of num ?c] num c p' lt t(3) by simp
  next
    case Pass
    then have "node_inv G C n p'" "node_ok C w n p'"
      using ninv ok by (auto simp: node_inv_def node_ok_def)
    with Pass show ?thesis by (intro quiet) simp_all
  next
    case Push
    note push' = ppr_push_ok[OF C ok ninv n Push(2)]
    then have "w' = rpush (ppr_dst C n) (if n = pc_k C then pc_lost C else ppr_key (pc_lost C) (int n)) (ppr_pkt G C n (pr_sent ?p)) w"
      "p' = ?p\<lparr>pr_sent := Suc (pr_sent ?p)\<rparr>" using Push(3) by simp_all
    moreover from this have "node_ok C w' n p'" by (intro node_ok_same[OF ok]) (simp_all add: rpush_def)
    ultimately show ?thesis using push push'(2) by simp
  qed
qed

lemma taken_update:
  assumes "length ps = Suc k" and "n \<le> k" and "c < k"
  shows "taken_by k (ps[n := p']) c = (if n = parent k c then pr_idx p' ! index_of c (kids k n) else taken_by k ps c)"
  using assms by (auto simp: taken_by_def nth_list_update)

lemma cluster_step:
  assumes G: "gf_complete G" and E: "io_ok E" and C: "ppr_conf_ok C" and inv: "cluster_inv G C st"
    and step: "ppr_cluster G E (pc_conf C) st st'"
  shows "cluster_inv G C st'"
proof -
  from step obtain w ps n w' p' where st: "st = (w, ps)" "st' = (w', ps[n := p'])" and n': "n < length ps"
    and one: "ppr_step G E (pc_conf C) (w, ps ! n) (w', p')"
    by (cases rule: ppr_cluster.cases) auto
  let ?k = "pc_k C" and ?ps = "ps[n := p']"
  have len: "length ps = Suc ?k" and inv': "cluster_inv G C (w, ps)" using inv by (simp_all add: cluster_inv_def st)
  then have n: "n \<le> ?k" using n' by simp
  have nodes: "node_ok C w m (ps ! m)" "node_inv G C m (ps ! m)" if "m \<le> ?k" for m
    using inv' that by (simp_all add: cluster_inv_def)
  have queues: "pkts_queued G C c (taken_by ?k ps c) (pr_sent (ps ! c)) w" if "c < ?k" for c
    using inv' that by (simp add: cluster_inv_def)
  have out: "w_queues w (pc_ips C ! ?k) (pc_lost C) = map (ppr_pkt G C ?k) [0..<pr_sent (ps ! ?k)]"
    using inv' by (simp add: cluster_inv_def)
  have upd: "node_ok C w' m (?ps ! m) \<and> node_inv G C m (?ps ! m)"
    if "m \<le> ?k" "w_files w' = w_files w" "node_ok C w' n p'" "node_inv G C n p'" for m
    using that nodes[OF that(1)] len n node_ok_same[of C w m "ps ! m" "ps ! m" w'] by (auto simp: nth_list_update)
  from G E C inv' n one show ?thesis
  proof (cases rule: ppr_step_cases)
    case quiet
    have "taken_by ?k ?ps c = taken_by ?k ps c" if "c < ?k" for c
      using quiet len n taken_update[OF len n that, of p'] by (auto simp: taken_by_def)
    moreover have "pr_sent (?ps ! m) = pr_sent (ps ! m)" for m
      using quiet(5) len n by (cases "m = n") (simp_all add: nth_list_update)
    ultimately show ?thesis
      using len queues out upd quiet n by (simp add: cluster_inv_def st)
  next
    case (pull num c)
    note t = taken_parent[OF pull(3) len pull(1) n pull(2)]
    have lenidx: "num < length (pr_idx (ps ! n))" using nodes(2)[OF n] pull(1) by (simp add: node_inv_def)
    have sent: "pr_sent (?ps ! m) = pr_sent (ps ! m)" for m
      using pull(9) len n by (cases "m = n") (simp_all add: nth_list_update)
    have taken: "taken_by ?k ?ps d = (if d = c then Suc (taken_by ?k ps c) else taken_by ?k ps d)" if "d < ?k" for d
    proof (cases "n = parent ?k d")
      case True
      then have "d \<in> set (kids ?k n)" using parent_kids[OF that n] by simp
      then have "index_of d (kids ?k n) = num \<longleftrightarrow> d = c"
        using nth_index_of[of d "kids ?k n"] t(2) pull(2) by auto
      then show ?thesis
        using True taken_update[OF len n that, of p'] pull(8) lenidx by (auto simp: taken_by_def nth_list_update)
    next
      case False
      then have "d \<noteq> c" using t(1) by auto
      then show ?thesis using False taken_update[OF len n that, of p'] by simp
    qed
    have "pkts_queued G C d (taken_by ?k ?ps d) (pr_sent (ps ! d)) w'" if "d < ?k" for d
      using queues[OF that] pull(4,7) taken[OF that] ppr_key_inj[of "pc_lost C" d c]
      by (auto simp: pkts_queued_def pop_pkt_def tl_upt map_tl[symmetric])
    moreover have "w_queues w' (pc_ips C ! ?k) (pc_lost C) = w_queues w (pc_ips C ! ?k) (pc_lost C)"
      using pull(4) by (simp add: pop_pkt_def ppr_key_lost)
    moreover have "w_files w' = w_files w" using pull(4) by (simp add: pop_pkt_def)
    ultimately show ?thesis using len sent out upd pull(5,6) by (simp add: cluster_inv_def st)
  next
    case push
    have taken: "taken_by ?k ?ps c = taken_by ?k ps c" if "c < ?k" for c
      using push(4) len n taken_update[OF len n that, of p'] by (auto simp: taken_by_def)
    have "pkts_queued G C c (taken_by ?k ps c) (pr_sent (?ps ! c)) w'" if "c < ?k" for c
      using queues[OF that] push(1,5) len n that ppr_key_inj[of "pc_lost C" c n] ppr_key_lost
      by (cases "c = n") (auto simp: pkts_queued_def rpush_def nth_list_update)
    moreover have "w_queues w' (pc_ips C ! ?k) (pc_lost C) = map (ppr_pkt G C ?k) [0..<pr_sent (?ps ! ?k)]"
    proof (cases "n = ?k")
      case True
      then have "ppr_dst C n = pc_ips C ! ?k" using PPRnextIP_later[of n] by (simp add: ppr_dst_def)
      then show ?thesis using True push(1,5) out len by (simp add: rpush_def)
    next
      case False
      then show ?thesis using push(1) out len n by (auto simp: rpush_def ppr_key_lost)
    qed
    moreover have "w_files w' = w_files w" using push(1) by (simp add: rpush_def)
    ultimately show ?thesis using len taken upd push(2,3) by (simp add: cluster_inv_def st)
  qed
qed

lemma cluster_reachable:
  assumes "gf_complete G" and "io_ok E" and "ppr_conf_ok C" and "(ppr_cluster G E (pc_conf C))\<^sup>*\<^sup>* st st'" and "cluster_inv G C st"
  shows "cluster_inv G C st'"
  using assms(4,5) by (induction rule: rtranclp_induct) (auto intro: cluster_step[OF assms(1-3)])

section \<open>Progress\<close>

definition ppr_todo :: "repair_config \<Rightarrow> ppr_worker \<Rightarrow> nat" where
  "ppr_todo conf p = (packetCnt conf - pr_read p) + sum_list (map (\<lambda>i. packetCnt conf - i) (pr_idx p)) +
     (packetCnt conf - pr_toSend p) + (packetCnt conf - pr_sent p)"

lemma todo_fetch:
  "num < length idx \<Longrightarrow> idx ! num < cnt \<Longrightarrow>
    sum_list (map (\<lambda>i. cnt - i) (idx[num := Suc (idx ! num)])) < sum_list (map (\<lambda>i. cnt - i) idx)"
  by (intro sum_list_update_less) simp_all

lemma node_progress:
  assumes G: "gf_complete G" and E: "io_ok E" and C: "ppr_conf_ok C" and ok: "node_ok C w n p" and inv: "node_inv G C n p"
    and n: "n \<le> pc_k C" and "\<not> ppr_finished (pc_conf C) p"
    and full: "\<And>num. num < length (kids (pc_k C) n) \<Longrightarrow> pkts_queued G C (kids (pc_k C) n ! num) (pr_idx p ! num) (pc_cnt C) w"
  shows "\<exists>w' p'. ppr_step G E (pc_conf C) (w, p) (w', p') \<and> ppr_todo (pc_conf C) p' < ppr_todo (pc_conf C) p"
proof -
  have len: "length (pr_idx p) = length (kids (pc_k C) n)" "length (pr_ctxes p) = length (kids (pc_k C) n)"
    using ok inv by (simp_all add: node_ok_def node_inv_def)
  have le: "i \<le> pc_cnt C" if "i \<in> set (pr_idx p)" for i using inv that by (auto simp: node_inv_def)
  consider (read) "pr_read p < pc_cnt C"
    | (pull) num where "pr_read p = pc_cnt C" "num < length (pr_idx p)" "pr_idx p ! num < pc_cnt C"
    | (pass) "pr_read p = pc_cnt C" "pr_idx p = []" "pr_toSend p < pc_cnt C"
    | (push) "pr_read p = pc_cnt C" "\<forall>i \<in> set (pr_idx p). i = pc_cnt C" "pr_toSend p = pc_cnt C" "pr_sent p < pc_cnt C"
  proof (cases "pr_read p < pc_cnt C \<or> (\<exists>num < length (pr_idx p). pr_idx p ! num < pc_cnt C)")
    case True
    then show thesis using read pull inv by (force simp: node_inv_def)
  next
    case False
    then have rd: "pr_read p = pc_cnt C" using inv by (simp add: node_inv_def)
    have all: "\<forall>i \<in> set (pr_idx p). i = pc_cnt C"
      using False le by (metis in_set_conv_nth le_neq_implies_less)
    then have "fold min (pr_idx p) (pc_cnt C) = pc_cnt C" by (rule fold_min_const)
    then have "pr_idx p \<noteq> [] \<Longrightarrow> pr_toSend p = pc_cnt C" using inv by (simp add: node_inv_def)
    moreover have "pr_sent p \<noteq> pc_cnt C" using assms(7) rd all by (auto simp: ppr_finished_def list_all_iff)
    ultimately show thesis
      using pass push rd all toSend_read[OF inv] inv by (force simp: node_inv_def)
  qed
  then show ?thesis
  proof cases
    case read
    obtain disk where "ppr_read G E (pc_conf C) w p = Inr (p\<lparr>pr_disk := disk, pr_read := Suc (pr_read p)\<rparr>)"
      using ppr_read_ok[OF G E C ok inv n read] by blast
    from ppr_step.Read[OF read this] show ?thesis using read by (fastforce simp: ppr_todo_def)
  next
    case (pull num)
    have num: "num < length (pr_ctxes p)" "num < length (kids (pc_k C) n)" using pull(2) len by simp_all
    obtain disk toSend where run: "ppr_fetch (pc_conf C) num w p = Inr (pop_pkt C (kids (pc_k C) n ! num) w,
        p\<lparr>pr_disk := disk, pr_idx := (pr_idx p)[num := Suc (pr_idx p ! num)], pr_toSend := toSend\<rparr>)" and rises: "pr_toSend p \<le> toSend"
      using ppr_fetch_ok[OF C ok inv n num(1) _ refl full[OF num(2)]] pull by auto
    let ?p' = "p\<lparr>pr_disk := disk, pr_idx := (pr_idx p)[num := Suc (pr_idx p ! num)], pr_toSend := toSend\<rparr>"
    from rises have "ppr_todo (pc_conf C) ?p' < ppr_todo (pc_conf C) p"
      using todo_fetch[OF pull(2,3)] diff_le_mono2[of "pr_toSend p" toSend "pc_cnt C"] by (simp add: ppr_todo_def)
    moreover have "ppr_step G E (pc_conf C) (w, p) (pop_pkt C (kids (pc_k C) n ! num) w, ?p')"
      using ppr_step.Fetch[OF num(1) pull(3) _ run] pull(1,3) by simp
    ultimately show ?thesis by blast
  next
    case pass
    then have "pr_ctxes p = []" "pr_toSend p < pr_read p" using len by auto
    from ppr_step.Pass[OF this(1) pass(3) this(2)] show ?thesis using pass(3) by (fastforce simp: ppr_todo_def)
  next
    case push
    have lt: "pr_sent p < pr_toSend p" using push(3,4) by simp
    from ppr_step.Push[OF push(4) lt ppr_push_ok(1)[OF C ok inv n lt]] show ?thesis
      using push(4) by (fastforce simp: ppr_todo_def)
  qed
qed

lemma cluster_progress:
  assumes G: "gf_complete G" and E: "io_ok E" and C: "ppr_conf_ok C" and inv: "cluster_inv G C (w, ps)"
    and "\<not> list_all (ppr_finished (pc_conf C)) ps"
  shows "\<exists>w' ps'. ppr_cluster G E (pc_conf C) (w, ps) (w', ps') \<and>
    sum_list (map (ppr_todo (pc_conf C)) ps') < sum_list (map (ppr_todo (pc_conf C)) ps)"
proof -
  let ?k = "pc_k C" and ?fin = "ppr_finished (pc_conf C)"
  obtain n where n: "n < length ps" "\<not> ?fin (ps ! n)" and before: "\<And>m. m < n \<Longrightarrow> ?fin (ps ! m)"
    using first_not[OF assms(5)] by blast
  have len: "length ps = Suc ?k" using inv by (simp add: cluster_inv_def)
  then have nk: "n \<le> ?k" using n(1) by simp
  have "pkts_queued G C (kids ?k n ! num) (pr_idx (ps ! n) ! num) (pc_cnt C) w" if num: "num < length (kids ?k n)" for num
  proof -
    let ?c = "kids ?k n ! num"
    have c: "?c < ?k" "?c < n" using kids_less[OF nk] num by simp_all
    have "pkts_queued G C ?c (taken_by ?k ps ?c) (pr_sent (ps ! ?c)) w" using inv c(1) by (simp add: cluster_inv_def)
    then show ?thesis using before[OF c(2)] taken_parent(3)[OF c(1) len num nk refl] by (simp add: ppr_finished_def)
  qed
  then obtain w' p' where "ppr_step G E (pc_conf C) (w, ps ! n) (w', p')" "ppr_todo (pc_conf C) p' < ppr_todo (pc_conf C) (ps ! n)"
    using node_progress[OF G E C, of w n "ps ! n"] inv nk n(2) by (auto simp: cluster_inv_def)
  then show ?thesis
    using ppr_cluster.intros[OF n(1)] sum_list_update_less[of n ps "ppr_todo (pc_conf C)", OF n(1)] by blast
qed

lemma cluster_can_finish:
  assumes G: "gf_complete G" and E: "io_ok E" and C: "ppr_conf_ok C" and "cluster_inv G C (w, ps)"
  shows "\<exists>w' ps'. (ppr_cluster G E (pc_conf C))\<^sup>*\<^sup>* (w, ps) (w', ps') \<and> list_all (ppr_finished (pc_conf C)) ps'"
proof -
  have "\<exists>st'. ppr_cluster G E (pc_conf C) st st' \<and>
      sum_list (map (ppr_todo (pc_conf C)) (snd st')) < sum_list (map (ppr_todo (pc_conf C)) (snd st))"
    if "cluster_inv G C st" "\<not> list_all (ppr_finished (pc_conf C)) (snd st)" for st
    using cluster_progress[OF G E C, of "fst st" "snd st"] that by auto
  from can_finish[where I = "cluster_inv G C" and R = "ppr_cluster G E (pc_conf C)" and P = "\<lambda>st. list_all (ppr_finished (pc_conf C)) (snd st)"
      and m = "\<lambda>st. sum_list (map (ppr_todo (pc_conf C)) (snd st))", OF this _ assms(4)]
  show ?thesis using cluster_step[OF G E C] by fastforce
qed

section \<open>What the client finds\<close>

text \<open>The blocks with these coefficients add up to the lost block.\<close>

lemma ppr_pkt_lost:
  assumes "\<And>x. x < pc_cnt C * pc_size C \<Longrightarrow> xs.F (\<lambda>h. gf_multiply G (pc_coefs C ! h) (pc_blks C ! h ! x)) {..<pc_k C} = lost ! x"
    and "pc_cnt C * pc_size C \<le> length lost" and "i < pc_cnt C"
  shows "ppr_pkt G C (pc_k C) i = take (pc_size C) (drop (i * pc_size C) lost)"
proof (rule nth_equalityI)
  have "Suc i * pc_size C \<le> pc_cnt C * pc_size C" using assms(3) by (intro mult_le_mono1) simp
  then have room: "i * pc_size C + pc_size C \<le> pc_cnt C * pc_size C" by simp
  then show "length (ppr_pkt G C (pc_k C) i) = length (take (pc_size C) (drop (i * pc_size C) lost))"
    using assms(2) by simp
  fix b assume "b < length (ppr_pkt G C (pc_k C) i)"
  then show "ppr_pkt G C (pc_k C) i ! b = take (pc_size C) (drop (i * pc_size C) lost) ! b"
    using assms(1)[of "i * pc_size C + b"] room assms(2) by (simp add: ppr_pkt_def span_def ppr_own_def)
qed

end
