(* ===== verification/Ppr_Serve.thy ===== *)
theory Ppr_Serve
  imports Ppr_Worker Client_Serve
begin

text \<open>The nodes of a partial parallel repair as a source of packets for the client.\<close>

definition ppr_for :: "string \<Rightarrow> ppr_worker list \<Rightarrow> bool" where
  "ppr_for f ps \<longleftrightarrow> list_all (\<lambda>p. pp_lostBlkName (pr_job p) = f) ps"

lemma ppr_key_neq [simp]: "ppr_key f c \<noteq> f"
proof
  assume "ppr_key f c = f"
  then have "length (ppr_key f c) = length f" by simp
  then show False by (simp add: ppr_key_def)
qed

lemma ppr_read_key: "ppr_read G E conf (with_key f Q w) p = ppr_read G E conf w p"
  by (simp add: ppr_read_def)

lemma ppr_read_job: "ppr_read G E conf w p = Inr p' \<Longrightarrow> pr_job p' = pr_job p"
  by (auto simp: ppr_read_def res_simps Let_def split: if_splits option.splits)

lemma ppr_fetch_key:
  assumes "ppr_fetch conf num w p = Inr (w', p')" and "pp_lostBlkName (pr_job p) = f"
  shows "w_queues w' ip f = w_queues w ip f" and "ppr_fetch conf num (with_key f Q w) p = Inr (with_key f Q w', p')"
    and "pr_job p' = pr_job p"
  using assms blpop_other_key[of "ppr_key f _" f]
  by (auto simp: ppr_fetch_def blpop_with_key res_simps Let_def split: option.splits prod.splits)

text \<open>Push to the lists \<open>f\<close>, whatever is in them.\<close>

lemma ppr_push_key:
  assumes "ppr_push conf w p = Inr (w', p')"
  shows "\<exists>N. (\<forall>ip. w_queues w' ip f = w_queues w ip f @ N ip) \<and>
      (\<forall>Q. ppr_push conf (with_key f Q w) p = Inr (with_key f (\<lambda>ip. Q ip @ N ip) w', p'))"
    and "pr_job p' = pr_job p"
proof -
  obtain ip key msg where "w' = rpush ip key msg w" "\<And>v. ppr_push conf v p = Inr (rpush ip key msg v, p')"
    using assms by (auto simp: ppr_push_def res_simps Let_def split: option.splits)
  then show "\<exists>N. (\<forall>ip. w_queues w' ip f = w_queues w ip f @ N ip) \<and>
      (\<forall>Q. ppr_push conf (with_key f Q w) p = Inr (with_key f (\<lambda>ip. Q ip @ N ip) w', p'))"
    by (rule push_key)
  show "pr_job p' = pr_job p" using assms by (auto simp: ppr_push_def res_simps Let_def split: option.splits)
qed

lemma ppr_step_key:
  assumes "ppr_step G E conf (w, p) (w', p')" and f: "pp_lostBlkName (pr_job p) = f"
  shows "\<exists>N. (\<forall>ip. w_queues w' ip f = w_queues w ip f @ N ip) \<and>
      (\<forall>Q. ppr_step G E conf (with_key f Q w, p) (with_key f (\<lambda>ip. Q ip @ N ip) w', p'))" (is "\<exists>N. ?P N")
    and "pr_job p' = pr_job p"
proof -
  show "\<exists>N. ?P N"
    using assms(1)
  proof cases
    case Read
    then have "?P (\<lambda>_. [])" by (simp add: ppr_step.Read ppr_read_key)
    then show ?thesis by (rule exI[of ?P])
  next
    case (Fetch num)
    note fetch = ppr_fetch_key[OF Fetch(4) f]
    have "?P (\<lambda>_. [])" using fetch(1) ppr_step.Fetch[OF Fetch(1-3) fetch(2)] by simp
    then show ?thesis by (rule exI[of ?P])
  next
    case Pass
    then have "?P (\<lambda>_. [])" by (simp add: ppr_step.Pass)
    then show ?thesis by (rule exI[of ?P])
  next
    case Push
    obtain N where "\<And>ip. w_queues w' ip f = w_queues w ip f @ N ip"
      "\<And>Q. ppr_push conf (with_key f Q w) p = Inr (with_key f (\<lambda>ip. Q ip @ N ip) w', p')"
      using ppr_push_key(1)[OF Push(3), of f] by blast
    then have "?P N" using ppr_step.Push[OF Push(1,2)] by blast
    then show ?thesis by (rule exI[of ?P])
  qed
  show "pr_job p' = pr_job p"
    using assms(1) by cases (auto simp: ppr_read_job ppr_fetch_key(3)[OF _ refl] ppr_push_key(2))
qed

interpretation ppr_src: packet_source "ppr_cluster G E conf" ppr_for for G E conf
proof
  fix w ps w' ps' f
  assume step: "ppr_cluster G E conf (w, ps) (w', ps')" and works: "ppr_for f ps"
  from step obtain h p' where h: "h < length ps" "ppr_step G E conf (w, ps ! h) (w', p')" "ps' = ps[h := p']"
    by (auto elim: ppr_cluster.cases)
  have f: "pp_lostBlkName (pr_job (ps ! h)) = f" using works h(1) by (simp add: ppr_for_def list_all_length)
  obtain N where N: "\<And>ip. w_queues w' ip f = w_queues w ip f @ N ip"
    "\<And>Q. ppr_step G E conf (with_key f Q w, ps ! h) (with_key f (\<lambda>ip. Q ip @ N ip) w', p')"
    using ppr_step_key(1)[OF h(2) f] by blast
  show "ppr_for f ps'"
    using works ppr_step_key(2)[OF h(2) f] h(1) by (simp add: ppr_for_def list_all_length nth_list_update h(3))
  show "\<exists>N. (\<forall>ip. w_queues w' ip f = w_queues w ip f @ N ip) \<and>
      (\<forall>Q. ppr_cluster G E conf (with_key f Q w, ps) (with_key f (\<lambda>ip. Q ip @ N ip) w', ps'))"
    using N(1) ppr_cluster.intros[OF h(1) N(2)] unfolding h(3) by (intro exI[of _ N]) blast
qed

end
