(* ===== verification/Hdfs_Mul.thy ===== *)
theory Hdfs_Mul
  imports Hdfs_Init Hdfs_Repair
begin

text \<open>
  \<open>HDFS_MetadataBase.cc\<close>, the helpers for several lost blocks: \<open>getStripeBlksMul\<close>, which the coordinators of the conventional
  and of the pipelined scheme ask with the status of the blocks, and \<open>getScheduledBlks\<close>, which prefers the nodes that were
  chosen least often. Both change maps: \<open>operator[]\<close> inserts what is missing.
\<close>

section \<open>Maps\<close>

definition om_touch :: "'v \<Rightarrow> 'k::linorder \<Rightarrow> ('k, 'v) omap \<Rightarrow> ('k, 'v) omap" where
  "om_touch d k m = (if map_of m k = None then om_put k d m else m)"

type_synonym stripe_mul = "(ip_addr, string \<times> (ip_addr \<times> string) list) omap"

section \<open>\<open>getScheduledBlks\<close>\<close>

definition MAX_ORDER :: nat where
  "MAX_ORDER = 0x1000000"

text \<open>The status of the nodes, and the status of the blocks with what the look-ups have inserted.\<close>

definition status_in_ip ::
    "(ip_addr \<times> string) list \<Rightarrow> (string, int) omap \<Rightarrow> (ip_addr, int) omap \<times> (string, int) omap" where
  "status_in_ip blks status =
     fold (\<lambda>(ip, b) (s, status). (om_put ip (om_get0 status b) s, om_touch 0 b status)) blks ([], status)"

definition reset_order :: "(ip_addr, nat) omap \<Rightarrow> (ip_addr, nat) omap" where
  "reset_order order = (if list_ex (\<lambda>(_, v). MAX_ORDER \<le> v) order then map (\<lambda>(ip, _). (ip, 0)) order else order)"

definition bump_order :: "ip_addr \<Rightarrow> (ip_addr, nat) omap \<Rightarrow> (ip_addr, nat) omap" where
  "bump_order ip order = om_put ip (Suc (om_get 0 order ip)) order"

text \<open>The first of the least used nodes that have a block and are not chosen yet.\<close>

definition least_used :: "(ip_addr, int) omap \<Rightarrow> ip_addr list \<Rightarrow> (ip_addr, nat) omap \<Rightarrow> (ip_addr \<times> nat) option" where
  "least_used statusInIP used order =
     fold (\<lambda>(ip, v) best.
       if om_get0 statusInIP ip = 0 \<or> ip \<in> set used then best
       else if v < (case best of None \<Rightarrow> MAX_ORDER | Some (_, w) \<Rightarrow> w) then Some (ip, v) else best) order None"

fun schedule_loop ::
    "repair_config \<Rightarrow> (ip_addr, string) omap \<Rightarrow> (ip_addr, int) omap \<Rightarrow> nat \<Rightarrow> ip_addr list \<Rightarrow> (ip_addr \<times> string) list \<Rightarrow>
     (ip_addr, nat) omap \<Rightarrow> ((ip_addr \<times> string) list \<times> (ip_addr, nat) omap) res" where
  "schedule_loop conf names statusInIP 0 used setVal order = Inr (setVal, order)"
| "schedule_loop conf names statusInIP (Suc n) used setVal order =
     (case least_used statusInIP used order of
        None \<Rightarrow> Inl (Exit 1)
      | Some (ip, _) \<Rightarrow>
          if ip = localIP conf then Inl (Exit 1)
          else schedule_loop conf names statusInIP n (ip # used) (insort_insert (ip, om_get [] names ip) setVal) (bump_order ip order))"

definition hdfs_getScheduledBlks ::
    "repair_config \<Rightarrow> hdfs_meta \<Rightarrow> string \<Rightarrow> ip_addr \<Rightarrow> (string, int) omap \<Rightarrow> (ip_addr \<times> string) list \<Rightarrow>
     ((ip_addr \<times> string) list \<times> (string, int) omap \<times> hdfs_meta) res" where
  "hdfs_getScheduledBlks conf m blkName requestorIP status blks =
     (case status_in_ip blks status of (statusInIP, status) \<Rightarrow>
        let order = bump_order requestorIP (reset_order (hm_order m))
        in bindE (atE (hm_Ip2BlkNames m) (int (om_get 0 (hm_blkName2StripeId m) blkName))) (\<lambda>names.
           bindE (schedule_loop conf names statusInIP (ecK conf) [] [] order) (\<lambda>(setVal, order).
           Inr (setVal, status, m\<lparr>hm_order := order\<rparr>))))"

section \<open>\<open>getStripeBlksMul\<close>\<close>

text \<open>
  Without scheduling: the first helpers in the order of the names, for one lost block, or of the addresses, for several. The
  status is looked up only while helpers are missing.
\<close>

definition first_avail ::
    "nat \<Rightarrow> (ip_addr \<Rightarrow> bool) \<Rightarrow> (ip_addr \<times> string) list \<Rightarrow> (string, int) omap \<Rightarrow> (ip_addr \<times> string) list \<times> (string, int) omap" where
  "first_avail k ok blks status =
     fold (\<lambda>(ip, b) (setVal, status).
       if length setVal < k \<and> ok ip
       then (if om_get0 status b \<noteq> 0 then insort_insert (ip, b) setVal else setVal, om_touch 0 b status)
       else (setVal, status)) blks ([], status)"

definition by_name :: "(ip_addr \<times> string) list \<Rightarrow> (ip_addr \<times> string) list" where
  "by_name blks = map prod.swap (sort (map prod.swap blks))"

text \<open>The other lost blocks are repaired from the same helpers.\<close>

definition add_failed ::
    "string \<Rightarrow> (ip_addr \<times> string) list \<Rightarrow> (string, int) omap \<Rightarrow> stripe_mul \<Rightarrow> hdfs_meta \<Rightarrow> stripe_mul \<times> hdfs_meta" where
  "add_failed blkName vec status ret m =
     fold (\<lambda>(b, v) (ret, m).
       if v = 0 \<and> b \<noteq> blkName
       then (om_put (fst (blk_at m b)) (b, vec) ret, m\<lparr>hm_blkName2Ip := om_touch 0 b (hm_blkName2Ip m)\<rparr>)
       else (ret, m)) status (ret, m)"

text \<open>Different helpers for every lost block: a block that was used least is taken.\<close>

record mul_pick =
  mp_cnt :: nat
  mp_used :: "(string, nat) omap"
  mp_status :: "(string, int) omap"
  mp_meta :: hdfs_meta
  mp_set :: "(ip_addr \<times> string) list"

definition pick_blk :: "string \<Rightarrow> mul_pick \<Rightarrow> mul_pick" where
  "pick_blk b p = p\<lparr>mp_cnt := Suc (mp_cnt p), mp_used := om_put b (Suc (om_get 0 (mp_used p) b)) (mp_used p),
     mp_status := om_put b 2 (mp_status p), mp_meta := (mp_meta p)\<lparr>hm_blkName2Ip := om_touch 0 b (hm_blkName2Ip (mp_meta p))\<rparr>,
     mp_set := insort_insert (blk_at (mp_meta p) b) (mp_set p)\<rparr>"

definition pick_helpers :: "nat \<Rightarrow> mul_pick \<Rightarrow> mul_pick" where
  "pick_helpers k p =
     (let names = map fst (mp_used p);
          minv = fold (\<lambda>(_, c) v. min c v) (mp_used p) 999;
          p1 = fold (\<lambda>b p. if mp_cnt p < k \<and> om_get 0 (mp_used p) b = minv then pick_blk b p else p) names (p\<lparr>mp_cnt := 0, mp_set := []\<rparr>)
      in fold (\<lambda>b p. if mp_cnt p < k \<and> om_get0 (mp_status p) b \<noteq> 2 then pick_blk b p else p) names p1)"

definition mul_round ::
    "repair_config \<Rightarrow> string \<Rightarrow> ip_addr \<Rightarrow> (ip_addr \<times> string) list \<Rightarrow> string \<Rightarrow> stripe_mul \<times> mul_pick \<Rightarrow> (stripe_mul \<times> mul_pick) res" where
  "mul_round conf blkName requestorIP blks failed = (\<lambda>(ret, p).
     bindE (if msscheduling conf
       then bindE (hdfs_getScheduledBlks conf (mp_meta p) blkName requestorIP (mp_status p) blks) (\<lambda>(setVal, status, m).
         Inr (p\<lparr>mp_status := status, mp_meta := m, mp_set := setVal\<rparr>))
       else Inr (pick_helpers (ecK conf) p)) (\<lambda>p.
     Inr (om_put (fst (blk_at (mp_meta p) failed)) (failed, mp_set p) ret,
       p\<lparr>mp_meta := (mp_meta p)\<lparr>hm_blkName2Ip := om_touch 0 failed (hm_blkName2Ip (mp_meta p))\<rparr>,
         mp_status := fold (\<lambda>b. om_put b 1) (map fst (mp_used p)) (mp_status p)\<rparr>)))"

text \<open>Without a status, and with one.\<close>

definition hdfs_getStripeBlksMul_null ::
    "repair_config \<Rightarrow> hdfs_env \<Rightarrow> string \<Rightarrow> ip_addr \<Rightarrow> hdfs_meta \<Rightarrow> stripe_mul res" where
  "hdfs_getStripeBlksMul_null conf E blkName requestorIP m =
     bindE (hdfs_getStripeBlks conf E m blkName requestorIP) (\<lambda>blks. Inr [(requestorIP, (blkName, blks))])"

definition hdfs_getStripeBlksMul ::
    "repair_config \<Rightarrow> nat \<Rightarrow> string \<Rightarrow> ip_addr \<Rightarrow> (string, int) omap \<Rightarrow> hdfs_meta \<Rightarrow>
     (stripe_mul \<times> (string, int) omap \<times> hdfs_meta) res" where
  "hdfs_getStripeBlksMul conf opt blkName requestorIP status m =
     (let survived = filter (\<lambda>(_, v). v \<noteq> 0) status; failed = map fst (filter (\<lambda>(_, v). v = 0) status)
      in bindE (hdfs_getAllBlks m blkName) (\<lambda>blks.
         if opt mod 10 = 0
         then bindE (if msscheduling conf then hdfs_getScheduledBlks conf m blkName requestorIP status blks
             else let (setVal, status) = (if length failed = 1 then first_avail (ecK conf) (\<lambda>_. True) (by_name blks) status
                    else first_avail (ecK conf) (\<lambda>ip. ip \<noteq> requestorIP) blks status)
                  in Inr (setVal, status, m)) (\<lambda>(vec, status, m).
           if length vec < ecK conf then Inl (Exit 1)
           else case add_failed blkName vec status [(requestorIP, (blkName, vec))] m of (ret, m) \<Rightarrow> Inr (ret, status, m))
         else if opt mod 10 = 1
         then bindE (foldE (mul_round conf blkName requestorIP blks) failed
             ([], \<lparr>mp_cnt = 0, mp_used = map (\<lambda>(b, _). (b, 0)) survived, mp_status = status, mp_meta = m, mp_set = []\<rparr>))
           (\<lambda>(ret, p). Inr (ret, mp_status p, mp_meta p))
         else Inr ([], status, m)))"

section \<open>One lost block\<close>

lemma om_touch_known [simp]: "map_of m k \<noteq> None \<Longrightarrow> om_touch d k m = m"
  by (auto simp: om_touch_def)

text \<open>The first \<open>k\<close> blocks in the order of the names, as a set of pairs.\<close>

lemma first_avail_loop:
  fixes acc :: "(ip_addr \<times> string) list" and ok :: "ip_addr \<Rightarrow> bool"
  assumes "\<forall>(ip, b) \<in> set blks. map_of status b \<noteq> None" and "distinct blks" and "set acc \<inter> set blks = {}"
    and "sorted acc" and "distinct acc"
  defines "P \<equiv> \<lambda>(ip, b). ok ip \<and> om_get0 status b \<noteq> 0"
  shows "\<exists>xs. fold (\<lambda>(ip, b) (setVal, status).
       if length setVal < k \<and> ok ip
       then (if om_get0 status b \<noteq> 0 then insort_insert (ip, b) setVal else setVal, om_touch 0 b status)
       else (setVal, status)) blks (acc, status) = (xs, status) \<and>
     sorted xs \<and> distinct xs \<and> set xs = set acc \<union> set (take (k - length acc) (filter P blks))"
  using assms(1-5)
proof (induction blks arbitrary: acc)
  case (Cons e blks)
  obtain ip b where e: "e = (ip, b)" by (cases e)
  show ?case
  proof (cases "length acc < k \<and> P e")
    case True
    let ?acc = "insort_insert (ip, b) acc"
    have new: "(ip, b) \<notin> set acc" using Cons.prems(3) by (auto simp: e)
    then have acc: "length ?acc = Suc (length acc)" "set ?acc = insert (ip, b) (set acc)" "sorted ?acc" "distinct ?acc"
      using Cons.prems(4,5) by (simp_all add: insort_insert_key_def sorted_insort distinct_insort set_insort_key)
    moreover have "set ?acc \<inter> set blks = {}" using Cons.prems(2,3) acc(2) by (auto simp: e)
    moreover have "take (k - length acc) (filter P (e # blks)) = e # take (k - Suc (length acc)) (filter P blks)"
      using True by (simp add: take_Cons')
    ultimately show ?thesis
      using Cons.IH[of ?acc] Cons.prems(1,2) True by (auto simp: e P_def)
  next
    case False
    then have "take (k - length acc) (filter P (e # blks)) = take (k - length acc) (filter P blks)" by auto
    then show ?thesis
      using Cons.IH[of acc] Cons.prems False by (auto simp: e P_def)
  qed
qed simp

lemma by_name:
  assumes "distinct blks"
  shows "distinct (by_name blks)" and "set (by_name blks) = set blks"
    and "inj_on snd (set blks) \<Longrightarrow> map snd (by_name blks) = sort (map snd blks)"
proof -
  have inj: "inj prod.swap" by (rule injI) (metis swap_swap)
  have "distinct (map prod.swap blks)" using assms inj by (simp add: distinct_map inj_on_subset)
  then show "distinct (by_name blks)" using inj by (simp add: by_name_def distinct_map inj_on_subset)
  show set: "set (by_name blks) = set blks" by (force simp: by_name_def)
  have eq: "map snd (by_name blks) = map fst (sort (map prod.swap blks))" by (simp add: by_name_def o_def)
  have sorted: "sorted (map fst (sort (map prod.swap blks :: (string \<times> ip_addr) list)))"
    using sorted_sort[of "map prod.swap blks"] unfolding sorted_map by (rule sorted_wrt_mono_rel[rotated]) (auto simp: less_eq_prod_def)
  have "mset (map fst (sort (map prod.swap blks))) = mset (map snd blks)"
    by (simp add: mset_map multiset.map_comp o_def)
  then show "map snd (by_name blks) = sort (map snd blks)"
    unfolding eq using sorted by (intro properties_for_sort[symmetric])
qed

text \<open>All blocks of the stripe have been reported, each by a node of its own.\<close>

definition hdfs_placed :: "hdfs_meta \<Rightarrow> string list \<Rightarrow> (string \<Rightarrow> ip_addr) \<Rightarrow> bool" where
  "hdfs_placed m names loc \<longleftrightarrow>
     stripe_known m names \<and> inj_on loc (set names) \<and> (\<forall>b \<in> set names. map_of (hm_blkName2Ip m) b = Some (loc b)) \<and>
     (\<exists>sid < length (hm_Ip2BlkNames m). (\<forall>b \<in> set names. map_of (hm_blkName2StripeId m) b = Some sid) \<and>
        om_ok (hm_Ip2BlkNames m ! sid) \<and> set (hm_Ip2BlkNames m ! sid) = (\<lambda>b. (loc b, b)) ` set names)"

text \<open>The helpers of a lost block: the first \<open>k\<close> others in the order of the names.\<close>

definition name_helpers :: "nat \<Rightarrow> string list \<Rightarrow> string \<Rightarrow> string list" where
  "name_helpers k names f = take k (filter (\<lambda>b. b \<noteq> f) (sort names))"

lemma name_helpers_ok:
  assumes "distinct names" and "f \<in> set names" and "k < length names"
  shows "length (name_helpers k names f) = k" and "distinct (name_helpers k names f)" and "set (name_helpers k names f) \<subseteq> set names - {f}"
proof -
  have "filter (\<lambda>b. b \<noteq> f) (sort names) = remove1 f (sort names)"
    using assms(1) by (simp add: distinct_remove1_removeAll removeAll_filter_not_eq eq_commute)
  then show "length (name_helpers k names f) = k" using assms(2,3) by (simp add: name_helpers_def length_remove1)
  show "distinct (name_helpers k names f)" using assms(1) by (simp add: name_helpers_def)
  show "set (name_helpers k names f) \<subseteq> set names - {f}" by (auto simp: name_helpers_def dest!: in_set_takeD)
qed

definition lost_status :: "string list \<Rightarrow> string \<Rightarrow> (string, int) omap \<Rightarrow> bool" where
  "lost_status names f status \<longleftrightarrow> om_ok status \<and> fst ` set status = set names \<and>
     (\<forall>b \<in> set names. map_of status b = Some (if b = f then 0 else 1))"

lemma lost_status_entry:
  assumes "lost_status names f status" and "(b, v) \<in> set status"
  shows "b \<in> set names" and "v = (if b = f then 0 else 1)"
proof -
  show b: "b \<in> set names" using assms by (force simp: lost_status_def)
  have "distinct (map fst status)" using assms(1) by (simp add: lost_status_def om_ok_def strict_sorted_iff)
  then have "map_of status b = Some v" using assms(2) by simp
  then show "v = (if b = f then 0 else 1)" using assms(1) b by (auto simp: lost_status_def)
qed

lemma one_failed:
  assumes st: "lost_status names f status" and "f \<in> set names"
  shows "length (filter (\<lambda>(_, v). v = 0) status) = 1"
proof -
  let ?xs = "filter (\<lambda>(_, v). v = 0) status"
  have dist: "distinct status" using st by (simp add: lost_status_def om_ok_def strict_sorted_iff distinct_map)
  have "map_of status f = Some 0" using st assms(2) by (simp add: lost_status_def)
  then have "(f, 0) \<in> set status" by (rule map_of_SomeD)
  moreover have "b = f" if "(b, 0) \<in> set status" for b using lost_status_entry(2)[OF st that] by (cases "b = f") simp_all
  ultimately have "set ?xs = {(f, 0)}" unfolding set_filter by blast
  moreover have "card (set ?xs) = length ?xs" using dist by (intro distinct_card distinct_filter)
  ultimately show ?thesis by simp
qed

lemma no_other_failed:
  assumes "lost_status names f status"
  shows "add_failed f vec status ret m = (ret, m)"
proof -
  have "fold (\<lambda>(b, v) (ret, m). if v = 0 \<and> b \<noteq> f
      then (om_put (fst (blk_at m b)) (b, vec) ret, m\<lparr>hm_blkName2Ip := om_touch 0 b (hm_blkName2Ip m)\<rparr>)
      else (ret, m)) xs (ret, m) = (ret, m)" if "set xs \<subseteq> set status" for xs
    using that
  proof (induction xs)
    case (Cons e xs)
    obtain b v where e: "e = (b, v)" by (cases e)
    then have "\<not> (v = 0 \<and> b \<noteq> f)" using lost_status_entry(2)[OF assms, of b v] Cons.prems by auto
    then show ?case using Cons by (cases "b = f") (simp_all add: e)
  qed simp
  then show ?thesis by (simp add: add_failed_def)
qed

lemma placed_by_name:
  assumes blks: "om_ok blks" "set blks = (\<lambda>b. (loc b, b)) ` set names" and "distinct names"
  shows "filter (\<lambda>(_, b). b \<noteq> f) (by_name blks) = map (\<lambda>b. (loc b, b)) (filter (\<lambda>b. b \<noteq> f) (sort names))"
proof -
  have dist: "distinct blks" using blks(1) by (simp add: om_ok_def strict_sorted_iff distinct_map)
  have inj: "inj_on snd (set blks)" using blks(2) by (auto simp: inj_on_def)
  then have "distinct (map snd blks)" "set (map snd blks) = set names"
    using dist blks(2) by (auto simp: distinct_map image_image)
  then have "mset (map snd blks) = mset names" using assms(3) using set_eq_iff_mset_eq_distinct by blast
  then have names: "map snd (by_name blks) = sort names"
    using by_name(3)[OF dist inj] by (metis mset_sort properties_for_sort sorted_sort)
  have "by_name blks = map (\<lambda>b. (loc b, b)) (map snd (by_name blks))"
    unfolding map_map using by_name(2)[OF dist] blks(2) by (intro map_idI[symmetric]) auto
  then have "by_name blks = map (\<lambda>b. (loc b, b)) (sort names)" by (simp only: names)
  then show ?thesis by (simp add: filter_map o_def)
qed

lemma mul_single:
  assumes placed: "hdfs_placed m names loc" and "f \<in> set names" and k: "ecK conf < length names"
    and "\<not> msscheduling conf" and st: "lost_status names f status"
  shows "\<exists>hs. hdfs_getStripeBlksMul conf 0 f requestorIP status m = Inr ([(requestorIP, (f, hs))], status, m) \<and>
    sorted hs \<and> distinct hs \<and> set hs = (\<lambda>b. (loc b, b)) ` set (name_helpers (ecK conf) names f)"
proof -
  have names: "distinct names" using placed by (simp add: hdfs_placed_def stripe_known_def)
  obtain sid where sid: "sid < length (hm_Ip2BlkNames m)" "map_of (hm_blkName2StripeId m) f = Some sid"
    "om_ok (hm_Ip2BlkNames m ! sid)" "set (hm_Ip2BlkNames m ! sid) = (\<lambda>b. (loc b, b)) ` set names"
    using placed assms(2) by (auto simp: hdfs_placed_def)
  define blks where "blks = hm_Ip2BlkNames m ! sid"
  note blks = sid(3,4)[folded blks_def]
  have all: "hdfs_getAllBlks m f = Inr blks" using sid(1,2) by (simp add: hdfs_getAllBlks_def blks_def)
  have dist: "distinct blks" using blks(1) by (simp add: om_ok_def strict_sorted_iff distinct_map)
  have in_status: "\<forall>(ip, b) \<in> set (by_name blks). map_of status b \<noteq> None"
    using by_name(2)[OF dist] blks(2) st by (auto simp: lost_status_def)
  obtain hs where hs: "first_avail (ecK conf) (\<lambda>_. True) (by_name blks) status = (hs, status)" "sorted hs" "distinct hs"
    "set hs = set (take (ecK conf) (filter (\<lambda>(_, b). om_get0 status b \<noteq> 0) (by_name blks)))"
    using first_avail_loop[OF in_status by_name(1)[OF dist], of "[]" "ecK conf" "\<lambda>_. True"] by (auto simp: first_avail_def)
  have "filter (\<lambda>(_, b). om_get0 status b \<noteq> 0) (by_name blks) = filter (\<lambda>(_, b). b \<noteq> f) (by_name blks)"
    using by_name(2)[OF dist] blks(2) st by (intro filter_cong) (auto simp: om_get0_def lost_status_def)
  then have set: "set hs = (\<lambda>b. (loc b, b)) ` set (name_helpers (ecK conf) names f)"
    using hs(4) placed_by_name[OF blks names, of f] by (simp add: name_helpers_def take_map)
  note helpers = name_helpers_ok[OF names assms(2) k]
  have "inj_on (\<lambda>b. (loc b, b)) (set (name_helpers (ecK conf) names f))" by (auto simp: inj_on_def)
  then have "card (set hs) = ecK conf" using helpers(1,2) by (simp add: set card_image distinct_card)
  then have len: "length hs = ecK conf" using hs(3) by (simp add: distinct_card)
  show ?thesis
    using all hs(1-3) set len one_failed[OF st assms(2)] no_other_failed[OF st] assms(4)
    by (simp add: hdfs_getStripeBlksMul_def Let_def)
qed

end
