(* ===== verification/Hdfs_Store.thy ===== *)
theory Hdfs_Store
  imports Hdfs_Init Hdfs_Repair Hdfs_Mul
begin

text \<open>
  The constructor of the HDFS metadata base on a consistent stripe store: the invariant of its scan, and
  what the maps say once every block has been reported. The result is the assumption \<open>hdfs_stripe\<close> of
  the repair.
\<close>

section \<open>One file\<close>

lemma index_of_snoc:
  "x \<in> set xs \<Longrightarrow> index_of x (xs @ ys) = index_of x xs" "x \<notin> set xs \<Longrightarrow> index_of x (xs @ x # ys) = length xs"
  by (auto simp: index_of_def takeWhile_append)

text \<open>The fields of the maps the loop over the names leaves alone.\<close>

definition same_rest :: "hdfs_meta \<Rightarrow> hdfs_meta \<Rightarrow> bool" where
  "same_rest m m' \<longleftrightarrow> hm_blk2Stripe m' = hm_blk2Stripe m \<and> hm_blkName2Ip m' = hm_blkName2Ip m \<and>
     hm_Ip2BlkNames m' = hm_Ip2BlkNames m \<and> hm_coefficient m' = hm_coefficient m"

text \<open>The state behind the names \<open>ps\<close> of the file of block \<open>b\<close>, started with the maps \<open>m\<close>.\<close>

definition name_inv ::
    "repair_config \<Rightarrow> string \<Rightarrow> bool \<Rightarrow> nat \<Rightarrow> hdfs_meta \<Rightarrow> (string, string list) omap \<Rightarrow> string list \<Rightarrow> name_loop \<Rightarrow> bool" where
  "name_inv conf b new sid m rec ps s \<longleftrightarrow>
     nl_idxInStripe s = length ps \<and>
     nl_recoveredBlks s = take (ecK conf) (filter (\<lambda>x. x \<noteq> b) ps) \<and>
     nl_bidInStripe s = (if b \<in> set ps then Some (index_of b ps) else None) \<and>
     nl_id2BlkName s = (if new \<and> b \<in> set ps then [(index_of b ps, b)] else []) \<and>
     (\<forall>x. map_of (hm_blkName2StripeId (nl_meta s)) x =
        (if new \<and> x \<in> set ps then Some sid else map_of (hm_blkName2StripeId m) x)) \<and>
     (\<forall>x. map_of (hm_blkIdInStripe (nl_meta s)) x =
        (if x = b \<and> b \<in> set ps then Some (int (index_of b ps)) else map_of (hm_blkIdInStripe m) x)) \<and>
     hm_Id2BlkNames (nl_meta s) =
        (if \<not> new \<and> b \<in> set ps
         then (hm_Id2BlkNames m)[sid := om_put (index_of b ps) b (hm_Id2BlkNames m ! sid)] else hm_Id2BlkNames m) \<and>
     (\<forall>x f. f \<in> set (om_get [] (nl_recoveree s) x) \<longleftrightarrow>
        f \<in> set (om_get [] rec x) \<or> f = b \<and> x \<in> set (take (ecK conf) (filter (\<lambda>x. x \<noteq> b) ps))) \<and>
     same_rest m (nl_meta s)"

lemma take_snoc: "length (take k xs) < k \<Longrightarrow> take k (xs @ [x]) = take k xs @ [x]" "k \<le> length xs \<Longrightarrow> take k (xs @ ys) = take k xs"
  by auto

lemma scan_other:
  assumes inv: "name_inv conf b new sid m rec ps s" and "x \<noteq> b"
  shows "\<exists>s'. scan_name conf b new sid x s = Inr s' \<and> name_inv conf b new sid m rec (ps @ [x]) s'"
proof -
  let ?s = "if new then s\<lparr>nl_meta := (nl_meta s)\<lparr>hm_blkName2StripeId := om_put x sid (hm_blkName2StripeId (nl_meta s))\<rparr>\<rparr> else s"
  have run: "scan_name conf b new sid x s = Inr (add_other conf b x ?s)"
    using assms(2) by (simp add: scan_name_def Let_def)
  have idx: "index_of b (ps @ [x]) = index_of b ps" if "b \<in> set ps"
    using that by (rule index_of_snoc)
  have take: "take (ecK conf) (filter (\<lambda>x. x \<noteq> b) (ps @ [x])) =
      (if length (nl_recoveredBlks s) < ecK conf then nl_recoveredBlks s @ [x] else nl_recoveredBlks s)"
    using inv assms(2) by (auto simp: name_inv_def)
  have "name_inv conf b new sid m rec (ps @ [x]) (add_other conf b x ?s)"
    unfolding name_inv_def take
    using inv assms(2) idx
    by (auto simp: name_inv_def add_other_def Let_def map_of_om_put om_get_put same_rest_def)
  with run show ?thesis by blast
qed

lemma scan_own:
  assumes inv: "name_inv conf b new sid m rec ps s" and "b \<notin> set ps"
    and old: "\<not> new \<Longrightarrow> map_of (hm_blkName2StripeId m) b = Some sid \<and> sid < length (hm_Id2BlkNames m)"
  shows "\<exists>s'. scan_name conf b new sid b s = Inr s' \<and> name_inv conf b new sid m rec (ps @ [b]) s'"
proof -
  have idx: "index_of b (ps @ [b]) = length ps"
    using index_of_snoc(2)[OF assms(2), of "[]"] by simp
  show ?thesis
  proof (cases new)
    case True
    then show ?thesis
      using inv assms(2) idx
      by (auto simp: name_inv_def scan_name_def add_blk_def Let_def map_of_om_put same_rest_def)
  next
    case False
    then have "om_get 0 (hm_blkName2StripeId (nl_meta s)) b = sid" "sid < length (hm_Id2BlkNames (nl_meta s))"
      "hm_Id2BlkNames (nl_meta s) = hm_Id2BlkNames m"
      using inv old assms(2) by (auto simp: name_inv_def om_get_def)
    with False show ?thesis
      using inv assms(2) idx
      by (auto simp: name_inv_def scan_name_def add_blk_def Let_def map_of_om_put same_rest_def)
  qed
qed

lemma scan_names:
  assumes "distinct names"
    and old: "\<not> new \<Longrightarrow> map_of (hm_blkName2StripeId m) b = Some sid \<and> sid < length (hm_Id2BlkNames m)"
  shows "\<exists>s. foldE (scan_name conf b new sid) names
      \<lparr>nl_meta = m, nl_recoveree = rec, nl_recoveredBlks = [], nl_idxInStripe = 0, nl_bidInStripe = None, nl_id2BlkName = []\<rparr> = Inr s \<and>
    name_inv conf b new sid m rec names s"
  using assms(1)
proof (induction names rule: rev_induct)
  case Nil
  then show ?case by (simp add: name_inv_def same_rest_def)
next
  case (snoc x names)
  then obtain s where s: "foldE (scan_name conf b new sid) names
      \<lparr>nl_meta = m, nl_recoveree = rec, nl_recoveredBlks = [], nl_idxInStripe = 0, nl_bidInStripe = None, nl_id2BlkName = []\<rparr> = Inr s"
    "name_inv conf b new sid m rec names s"
    by auto
  have "\<exists>s'. scan_name conf b new sid x s = Inr s' \<and> name_inv conf b new sid m rec (names @ [x]) s'"
    using scan_other[OF s(2)] scan_own[OF s(2) _ old] snoc.prems by (cases "x = b") auto
  with s(1) show ?case by (auto simp: foldE_append)
qed

section \<open>The scan\<close>

definition dot_file :: "string \<times> string \<Rightarrow> bool" where
  "dot_file f \<longleftrightarrow> fst f = ''.'' \<or> fst f = ''..''"

text \<open>
  A consistent store of the stripes \<open>ss\<close>: no block twice, one file for each block, which lists the
  blocks of its stripe, and coefficients for stripes of this length.
\<close>

definition store_ok :: "repair_config \<Rightarrow> rs_util \<Rightarrow> string list list \<Rightarrow> (string \<times> string) list \<Rightarrow> bool" where
  "store_ok conf rs ss files \<longleftrightarrow>
     distinct (concat ss) \<and>
     (\<forall>f \<in> set files. \<not> dot_file f \<longrightarrow> snd f \<noteq> [] \<and> stripe_names (snd f) \<in> set ss \<and> file_blk (fst f) \<in> set (stripe_names (snd f))) \<and>
     distinct (map (\<lambda>f. file_blk (fst f)) (filter (\<lambda>f. \<not> dot_file f) files)) \<and>
     set (concat ss) \<subseteq> (\<lambda>f. file_blk (fst f)) ` set (filter (\<lambda>f. \<not> dot_file f) files) \<and>
     (\<forall>s \<in> set ss. length s \<le> length (rs_coefficient rs)) \<and>
     (\<forall>c \<in> set (rs_coefficient rs). ecK conf \<le> length c)"

text \<open>The helpers of a lost block: the first \<open>k\<close> other blocks of its stripe.\<close>

definition first_helpers :: "nat \<Rightarrow> string list \<Rightarrow> string \<Rightarrow> string list" where
  "first_helpers k s f = take k (filter (\<lambda>x. x \<noteq> f) s)"

definition coefs_ok :: "rs_util \<Rightarrow> nat \<Rightarrow> string list \<Rightarrow> string \<Rightarrow> (string, int) omap \<Rightarrow> bool" where
  "coefs_ok rs k s f cs \<longleftrightarrow> (\<forall>i < length (first_helpers k s f).
     map_of cs (first_helpers k s f ! i) = Some (uint (rs_coefficient rs ! index_of f s ! i)))"

definition opened_ok :: "string list list \<Rightarrow> string list \<Rightarrow> string list list \<Rightarrow> hdfs_meta \<Rightarrow> bool" where
  "opened_ok ss bs os m \<longleftrightarrow>
     set os \<subseteq> set ss \<and> set bs \<subseteq> set (concat os) \<and> length (hm_Id2BlkNames m) = length os \<and>
     hm_Ip2BlkNames m = replicate (length os) [] \<and> hm_blkName2Ip m = [] \<and> hm_blk2Stripe m = [] \<and>
     (\<forall>x i. map_of (hm_blkName2StripeId m) x = Some i \<longleftrightarrow> i < length os \<and> x \<in> set (os ! i)) \<and>
     (\<forall>i < length os. \<forall>x \<in> set bs \<inter> set (os ! i).
        map_of (hm_blkIdInStripe m) x = Some (int (index_of x (os ! i))) \<and>
        map_of (hm_Id2BlkNames m ! i) (index_of x (os ! i)) = Some x)"

definition scan_inv :: "rs_util \<Rightarrow> nat \<Rightarrow> string list list \<Rightarrow> string list \<Rightarrow> scan_state \<Rightarrow> bool" where
  "scan_inv rs k ss bs sc \<longleftrightarrow>
     distinct (sc_blks sc) \<and> set (sc_blks sc) = set bs \<and>
     (\<exists>os. sc_stripeId sc = int (length os) - 1 \<and> opened_ok ss bs os (sc_meta sc)) \<and>
     (\<forall>f. f \<notin> set bs \<longrightarrow> om_get [] (hm_coefficient (sc_meta sc)) f = []) \<and>
     (\<forall>f \<in> set bs. \<forall>s \<in> set ss. f \<in> set s \<longrightarrow> coefs_ok rs k s f (om_get [] (hm_coefficient (sc_meta sc)) f)) \<and>
     (\<forall>x f. f \<in> set (om_get [] (sc_recoveree sc) x) \<longleftrightarrow>
        f \<in> set bs \<and> (\<exists>s \<in> set ss. f \<in> set s \<and> x \<in> set (first_helpers k s f)))"

lemma stripe_unique: "distinct (concat ss) \<Longrightarrow> s \<in> set ss \<Longrightarrow> t \<in> set ss \<Longrightarrow> x \<in> set s \<Longrightarrow> x \<in> set t \<Longrightarrow> s = t"
  by (metis distinct_concat_iff disjoint_iff)

lemma index_of_inj: "x \<in> set xs \<Longrightarrow> y \<in> set xs \<Longrightarrow> index_of x xs = index_of y xs \<longleftrightarrow> x = y"
  by (induction xs) (auto simp: index_of_def)

lemma mapE_coefs:
  assumes "length xs \<le> length cs"
  shows "mapE (\<lambda>i. atE cs (int i)) [0..<length xs] = Inr (take (length xs) cs)"
proof -
  have "mapE (\<lambda>i. atE cs (int i)) [0..<length xs] = Inr (map ((!) cs) [0..<length xs])"
    using assms by (intro mapE_Inr_map) (auto simp: atE_nat)
  with assms show ?thesis by (auto intro: nth_equalityI)
qed

lemma opened_old:
  assumes o: "opened_ok ss bs os m" and dist: "distinct (concat ss)"
    and i: "i < length os" "b \<in> set (os ! i)" and "b \<notin> set bs"
    and nl: "name_inv conf b False i m rec (os ! i) nl"
  shows "opened_ok ss (bs @ [b]) os (nl_meta nl)"
proof -
  have id: "map_of (hm_blkIdInStripe (nl_meta nl)) x = Some (int (index_of x (os ! j))) \<and>
      map_of (hm_Id2BlkNames (nl_meta nl) ! j) (index_of x (os ! j)) = Some x"
    if "j < length os" "x \<in> set (bs @ [b])" "x \<in> set (os ! j)" for j x
  proof (cases "x = b")
    case True
    then have "map_of (hm_blkName2StripeId m) b = Some j" "map_of (hm_blkName2StripeId m) b = Some i"
      using o that i by (auto simp: opened_ok_def)
    then have "j = i" by simp
    with True nl i o show ?thesis by (auto simp: name_inv_def opened_ok_def map_of_om_put)
  next
    case False
    then have x: "x \<in> set bs" using that(2) by simp
    then have "map_of (hm_blkIdInStripe m) x = Some (int (index_of x (os ! j)))"
      "map_of (hm_Id2BlkNames m ! j) (index_of x (os ! j)) = Some x"
      using o that(1,3) by (auto simp: opened_ok_def)
    moreover have "index_of x (os ! j) \<noteq> index_of b (os ! i)" if "j = i"
      using False i(2) \<open>x \<in> set (os ! j)\<close> that by (simp add: index_of_inj)
    ultimately show ?thesis
      using False nl i o by (cases "j = i") (auto simp: name_inv_def opened_ok_def map_of_om_put)
  qed
  have "set (bs @ [b]) \<subseteq> set (concat os)"
    using o i by (force simp: opened_ok_def)
  then show ?thesis
    using o nl id by (auto simp: opened_ok_def name_inv_def same_rest_def)
qed

lemma opened_new:
  assumes o: "opened_ok ss bs os m" and dist: "distinct (concat ss)"
    and s: "s \<in> set ss" "b \<in> set s" and new: "map_of (hm_blkName2StripeId m) b = None"
    and nl: "name_inv conf b True (length os) m rec s nl"
  shows "opened_ok ss (bs @ [b]) (os @ [s])
    ((nl_meta nl)\<lparr>hm_Id2BlkNames := hm_Id2BlkNames (nl_meta nl) @ [nl_id2BlkName nl],
       hm_Ip2BlkNames := hm_Ip2BlkNames (nl_meta nl) @ [[]]\<rparr>)"
proof -
  have fresh: "x \<notin> set (os ! i)" if "x \<in> set s" "i < length os" for x i
  proof
    assume "x \<in> set (os ! i)"
    moreover have "os ! i \<in> set ss" using o that(2) by (auto simp: opened_ok_def)
    ultimately have "os ! i = s" using dist s(1) that(1) by (metis stripe_unique)
    then have "map_of (hm_blkName2StripeId m) b = Some i" using o that(2) s(2) by (auto simp: opened_ok_def)
    with new show False by simp
  qed
  have "x \<notin> set bs" if "x \<in> set s" for x
    using o fresh[OF that] by (auto simp: opened_ok_def in_set_conv_nth subset_iff) (metis in_set_conv_nth)
  then have id: "map_of (hm_blkIdInStripe (nl_meta nl)) x = Some (int (index_of x ((os @ [s]) ! j))) \<and>
      map_of ((hm_Id2BlkNames m @ [nl_id2BlkName nl]) ! j) (index_of x ((os @ [s]) ! j)) = Some x"
    if "j < length (os @ [s])" "x \<in> set (bs @ [b])" "x \<in> set ((os @ [s]) ! j)" for j x
    using that nl s o fresh[OF s(2)]
    by (cases "j = length os") (auto simp: name_inv_def opened_ok_def nth_append)
  have sid: "map_of (hm_blkName2StripeId (nl_meta nl)) x = Some i \<longleftrightarrow> i < length (os @ [s]) \<and> x \<in> set ((os @ [s]) ! i)" for x i
    using nl o fresh by (auto simp: name_inv_def opened_ok_def nth_append less_Suc_eq)
  have "set (bs @ [b]) \<subseteq> set (concat (os @ [s]))" "set (os @ [s]) \<subseteq> set ss"
    using o s by (auto simp: opened_ok_def)
  moreover have "replicate (length os) [] @ [[]] = replicate (length (os @ [s])) []"
    by (simp add: replicate_append_same)
  ultimately show ?thesis
    unfolding opened_ok_def using o nl id sid by (auto simp: opened_ok_def name_inv_def same_rest_def)
qed

lemma om_get_insert_coef:
  "om_get [] (fold (insert_coef b) es C) g = (if g = b then om_get [] (fold (insert_coef b) es C) b else om_get [] C g)"
  by (induction es arbitrary: C) (auto simp: insert_coef_def Let_def om_get_put)

lemma map_of_insert_coef:
  "map_of (om_get [] (fold (insert_coef b) es C) b) x =
    (case map_of (om_get [] C b) x of Some v \<Rightarrow> Some v | None \<Rightarrow> map_option uint (map_of es x))"
  by (induction es arbitrary: C) (auto simp: insert_coef_def Let_def om_get_put map_of_om_put split: option.splits)

lemma insert_coefs_ok:
  assumes "om_get [] C f = []" and "distinct s" and "rs_coefficient rs ! index_of f s = coef" and "k \<le> length coef"
  shows "coefs_ok rs k s f
    (om_get [] (fold (insert_coef f) (zip (first_helpers k s f) (take (length (first_helpers k s f)) coef)) C) f)"
proof -
  let ?h = "first_helpers k s f"
  have len: "length ?h \<le> length coef" using assms(4) by (simp add: first_helpers_def)
  have dist: "distinct ?h" using assms(2) by (simp add: first_helpers_def)
  have "map_of (zip ?h (take (length ?h) coef)) (?h ! i) = Some (coef ! i)" if "i < length ?h" for i
    using map_of_zip_nth[of ?h "take (length ?h) coef" i] that len dist by simp
  with assms(1,3) show ?thesis by (simp add: coefs_ok_def map_of_insert_coef)
qed

lemma scan_step:
  assumes inv: "scan_inv rs (ecK conf) ss bs sc" and dist: "distinct (concat ss)"
    and f: "\<not> dot_file (d, raw)" "raw \<noteq> []" "stripe_names raw \<in> set ss" "file_blk d \<in> set (stripe_names raw)"
    and new: "file_blk d \<notin> set bs"
    and coefs: "length (stripe_names raw) \<le> length (rs_coefficient rs)" "\<forall>c \<in> set (rs_coefficient rs). ecK conf \<le> length c"
  shows "\<exists>sc'. scan_file conf rs (d, raw) sc = Inr sc' \<and> scan_inv rs (ecK conf) ss (bs @ [file_blk d]) sc'"
proof -
  let ?b = "file_blk d" and ?s = "stripe_names raw" and ?m = "sc_meta sc"
  let ?new = "map_of (hm_blkName2StripeId ?m) ?b = None"
  obtain os where os: "sc_stripeId sc = int (length os) - 1" "opened_ok ss bs os ?m"
    using inv by (auto simp: scan_inv_def)
  define sid where "sid = (if ?new then length os else the (map_of (hm_blkName2StripeId ?m) ?b))"
  define t where "t = nat (if ?new then sc_stripeId sc + 1 else sc_stripeId sc)"
  have old: "map_of (hm_blkName2StripeId ?m) ?b = Some sid" "sid < length os" "os ! sid = ?s" if "\<not> ?new"
  proof -
    show sid: "map_of (hm_blkName2StripeId ?m) ?b = Some sid" using that by (auto simp: sid_def)
    then have i: "sid < length os" "?b \<in> set (os ! sid)" using os(2) by (simp_all add: opened_ok_def)
    then have "os ! sid \<in> set ss" using os(2) by (auto simp: opened_ok_def)
    then show "sid < length os" "os ! sid = ?s"
      using i stripe_unique[OF dist _ f(3) _ f(4)] by blast+
  qed
  have "distinct ?s" using dist f(3) by (simp add: distinct_concat_iff)
  then obtain nl where nl: "foldE (scan_name conf ?b ?new sid) ?s
      \<lparr>nl_meta = ?m, nl_recoveree = sc_recoveree sc, nl_recoveredBlks = [], nl_idxInStripe = 0, nl_bidInStripe = None, nl_id2BlkName = []\<rparr> = Inr nl"
    "name_inv conf ?b ?new sid ?m (sc_recoveree sc) ?s nl"
    using scan_names[of ?s ?new ?m ?b sid conf "sc_recoveree sc"] old(1,2) os(2) unfolding opened_ok_def by metis
  have "scan_name conf ?b ?new sid = scan_name conf ?b ?new t"
    using os(1) by (auto simp: scan_name_def sid_def t_def fun_eq_iff)
  note run = nl(1)[unfolded this]
  have bid: "nl_bidInStripe nl = Some (index_of ?b ?s)" using nl(2) f(4) by (simp add: name_inv_def)
  have "index_of ?b ?s < length ?s" using f(4) by (rule nth_index_of)
  then obtain coef where coef: "getCoefficient rs (index_of ?b ?s) = Inr coef" "ecK conf \<le> length coef"
    using coefs by (simp add: getCoefficient_def)
  have "length (nl_recoveredBlks nl) \<le> length coef"
    using nl(2) coef(2) by (simp add: name_inv_def)
  note cs = mapE_coefs[OF this]
  let ?C = "fold (insert_coef ?b) (zip (nl_recoveredBlks nl) (take (length (nl_recoveredBlks nl)) coef)) (hm_coefficient (nl_meta nl))"
  have C: "om_get [] ?C f = []" if "f \<notin> set (bs @ [?b])" for f
    using inv that nl(2) by (subst om_get_insert_coef) (simp add: scan_inv_def name_inv_def same_rest_def)
  have "rs_coefficient rs ! index_of ?b ?s = coef"
    using coef(1) \<open>index_of ?b ?s < length ?s\<close> coefs(1) by (simp add: getCoefficient_def)
  moreover have "om_get [] (hm_coefficient ?m) ?b = []" using inv new by (simp add: scan_inv_def)
  ultimately have "coefs_ok rs (ecK conf) ?s ?b (om_get [] ?C ?b)"
    using insert_coefs_ok[of "hm_coefficient ?m" ?b ?s rs coef "ecK conf"] \<open>distinct ?s\<close> coef(2) nl(2)
    by (simp add: name_inv_def same_rest_def first_helpers_def)
  moreover have "om_get [] ?C f = om_get [] (hm_coefficient ?m) f" if "f \<noteq> ?b" for f
    using that nl(2) by (subst om_get_insert_coef) (simp add: name_inv_def same_rest_def)
  ultimately have C': "coefs_ok rs (ecK conf) s f (om_get [] ?C f)" if "f \<in> set (bs @ [?b])" "s \<in> set ss" "f \<in> set s" for f s
    using that inv stripe_unique[OF dist that(2) f(3) that(3)] f(4) by (cases "f = ?b") (auto simp: scan_inv_def)
  have blks: "distinct (insort_insert ?b (sc_blks sc))" "set (insort_insert ?b (sc_blks sc)) = set (bs @ [?b])"
    using inv by (auto simp: scan_inv_def distinct_insort_insert set_insort_insert)
  have rec: "f \<in> set (om_get [] (nl_recoveree nl) x) \<longleftrightarrow>
      f \<in> set (bs @ [?b]) \<and> (\<exists>s \<in> set ss. f \<in> set s \<and> x \<in> set (first_helpers (ecK conf) s f))" for x f
    using inv nl(2) f(3,4) new dist
    by (auto simp: scan_inv_def name_inv_def first_helpers_def dest: stripe_unique[OF dist f(3)])
  show ?thesis
  proof (cases ?new)
    case True
    then have "opened_ok ss (bs @ [?b]) (os @ [?s])
      ((nl_meta nl)\<lparr>hm_Id2BlkNames := hm_Id2BlkNames (nl_meta nl) @ [nl_id2BlkName nl],
         hm_Ip2BlkNames := hm_Ip2BlkNames (nl_meta nl) @ [[]]\<rparr>)"
      using opened_new[OF os(2) dist f(3,4) True] nl(2) by (simp add: sid_def)
    then have o: "opened_ok ss (bs @ [?b]) (os @ [?s])
      ((nl_meta nl)\<lparr>hm_coefficient := C, hm_Id2BlkNames := hm_Id2BlkNames (nl_meta nl) @ [nl_id2BlkName nl],
         hm_Ip2BlkNames := hm_Ip2BlkNames (nl_meta nl) @ [[]]\<rparr>)" for C
      by (simp add: opened_ok_def)
    show ?thesis
      using run True f(1,2) bid coef(1) cs blks rec os(1) C C'
      by (auto simp: scan_file_def dot_file_def Let_def t_def scan_inv_def intro!: exI[of _ "os @ [?s]"] o)
  next
    case False
    then have "opened_ok ss (bs @ [?b]) os (nl_meta nl)"
      using opened_old[OF os(2) dist old(2)[OF False] _ new] nl(2) old(3) f(4) False by auto
    then have o: "opened_ok ss (bs @ [?b]) os ((nl_meta nl)\<lparr>hm_coefficient := C\<rparr>)" for C
      by (simp add: opened_ok_def)
    show ?thesis
      using run False f(1,2) bid coef(1) cs blks rec os(1) C C'
      by (auto simp: scan_file_def dot_file_def Let_def t_def scan_inv_def intro!: exI[of _ os] o)
  qed
qed

lemma scan_store_ok:
  assumes "store_ok conf rs ss files"
  shows "\<exists>sc. scan_store conf rs files = Inr sc \<and> scan_inv rs (ecK conf) ss (concat ss) sc"
proof -
  let ?bs = "\<lambda>fs. map (\<lambda>f. file_blk (fst f)) (filter (\<lambda>f. \<not> dot_file f) fs)"
  let ?s0 = "\<lparr>sc_meta = empty_meta conf, sc_blks = [], sc_recoveree = [], sc_stripeId = - 1\<rparr>"
  have dist: "distinct (concat ss)" using assms by (simp add: store_ok_def)
  have "\<exists>sc. foldE (scan_file conf rs) fs ?s0 = Inr sc \<and> scan_inv rs (ecK conf) ss (?bs fs) sc"
    if "set fs \<subseteq> set files" "distinct (?bs fs)" for fs
    using that
  proof (induction fs rule: rev_induct)
    case Nil
    then show ?case by (simp add: scan_inv_def opened_ok_def empty_meta_def om_get_def)
  next
    case (snoc f fs)
    then obtain sc where sc: "foldE (scan_file conf rs) fs ?s0 = Inr sc" "scan_inv rs (ecK conf) ss (?bs fs) sc"
      by auto
    have "\<exists>sc'. scan_file conf rs f sc = Inr sc' \<and> scan_inv rs (ecK conf) ss (?bs (fs @ [f])) sc'"
    proof (cases "dot_file f")
      case True
      with sc(2) show ?thesis by (auto simp: scan_file_def dot_file_def split: prod.splits)
    next
      case False
      have "stripe_names (snd f) \<in> set ss" "snd f \<noteq> []" "file_blk (fst f) \<in> set (stripe_names (snd f))"
        "length (stripe_names (snd f)) \<le> length (rs_coefficient rs)" "\<forall>c \<in> set (rs_coefficient rs). ecK conf \<le> length c"
        using assms snoc.prems(1) False by (auto simp: store_ok_def)
      with scan_step[OF sc(2) dist, of "fst f" "snd f"] False snoc.prems(2) show ?thesis by auto
    qed
    with sc(1) show ?case by (auto simp: foldE_append)
  qed
  from this[of files] obtain sc where sc: "foldE (scan_file conf rs) files ?s0 = Inr sc" "scan_inv rs (ecK conf) ss (?bs files) sc"
    using assms by (auto simp: store_ok_def)
  have "set (?bs files) = set (concat ss)" using assms by (auto simp: store_ok_def)
  then have "scan_inv rs (ecK conf) ss (concat ss) sc"
    using sc(2) unfolding scan_inv_def opened_ok_def by simp
  moreover have "scan_store conf rs files = Inr sc"
    using sc by (auto simp: scan_store_def scan_inv_def opened_ok_def)
  ultimately show ?thesis by blast
qed

section \<open>The reports\<close>

text \<open>Every block of the stripes is reported, and always by the node \<open>loc\<close> that has it.\<close>

definition report_msg :: "ip_addr \<times> string \<Rightarrow> byte list" where
  "report_msg r = put_word (fst r) @ bytes_of (snd r)"

definition reports_ok :: "string list list \<Rightarrow> (string \<Rightarrow> ip_addr) \<Rightarrow> (ip_addr \<times> string) list \<Rightarrow> bool" where
  "reports_ok ss loc reps \<longleftrightarrow>
     (\<forall>r \<in> set reps. CHR 0x00 \<notin> set (snd r) \<and> (snd r \<in> set (concat ss) \<longrightarrow> fst r = loc (snd r))) \<and>
     set (concat ss) \<subseteq> snd ` set reps"

text \<open>The blocks of a stripe by their nodes; of two blocks on a node one is recorded.\<close>

definition placed_at :: "(string \<Rightarrow> ip_addr) \<Rightarrow> string set \<Rightarrow> string list \<Rightarrow> (ip_addr, string) omap \<Rightarrow> bool" where
  "placed_at loc seen s ips \<longleftrightarrow> om_ok ips \<and> (\<forall>(ip, b) \<in> set ips. ip = loc b \<and> b \<in> set s) \<and>
     (\<forall>b \<in> seen \<inter> set s. loc b \<in> fst ` set ips)"

definition report_inv ::
    "string list list \<Rightarrow> (string \<Rightarrow> ip_addr) \<Rightarrow> (string, string list) omap \<Rightarrow> string list list \<Rightarrow> hdfs_meta \<Rightarrow> string set \<Rightarrow> hdfs_meta \<Rightarrow> bool" where
  "report_inv ss loc rec os m0 seen m \<longleftrightarrow>
     hm_blkIdInStripe m = hm_blkIdInStripe m0 \<and> hm_blkName2StripeId m = hm_blkName2StripeId m0 \<and>
     hm_Id2BlkNames m = hm_Id2BlkNames m0 \<and> hm_coefficient m = hm_coefficient m0 \<and>
     length (hm_Ip2BlkNames m) = length os \<and> (\<forall>i < length os. placed_at loc seen (os ! i) (hm_Ip2BlkNames m ! i)) \<and>
     (\<forall>b. map_of (hm_blkName2Ip m) b = (if b \<in> seen then Some (loc b) else None)) \<and>
     (\<forall>f. sorted (om_get [] (hm_blk2Stripe m) f) \<and> distinct (om_get [] (hm_blk2Stripe m) f) \<and>
        set (om_get [] (hm_blk2Stripe m) f) = (\<lambda>b. (loc b, b)) ` {b \<in> seen. f \<in> set (om_get [] rec b)})"

lemma fold_insert_helper:
  fixes s :: "(string, (ip_addr \<times> string) list) omap" and fs x
  assumes "\<forall>g. sorted (om_get [] s g) \<and> distinct (om_get [] s g)"
  defines "s' \<equiv> fold (\<lambda>f s. om_put f (insort_insert x (om_get [] s f)) s) fs s"
  shows "sorted (om_get [] s' g) \<and> distinct (om_get [] s' g) \<and>
    set (om_get [] s' g) = (if g \<in> set fs then insert x (set (om_get [] s g)) else set (om_get [] s g))"
  unfolding s'_def using assms(1)
  by (induction fs arbitrary: s) (auto simp: om_get_put sorted_insort_insert distinct_insort_insert set_insort_insert)

lemma set_om_put: "set (om_put k v m) \<subseteq> insert (k, v) (set m)"
  by (induction m) (auto split: if_splits)

lemma placed_at_put:
  assumes "placed_at loc seen s ips" and "b \<in> set s"
  shows "placed_at loc (insert b seen) s (if map_of ips (loc b) = None then om_put (loc b) b ips else ips)"
proof (cases "map_of ips (loc b) = None")
  case True
  moreover have "om_ok (om_put (loc b) b ips)" using assms(1) by (simp add: placed_at_def om_ok_put)
  moreover have "\<forall>(ip, c) \<in> set (om_put (loc b) b ips). ip = loc c \<and> c \<in> set s"
    using assms set_om_put[of "loc b" b ips] by (auto simp: placed_at_def)
  ultimately show ?thesis using assms by (auto simp: placed_at_def fst_set_om_put)
next
  case False
  then have "loc b \<in> fst ` set ips" by (simp add: map_of_eq_None_iff)
  with assms False show ?thesis by (auto simp: placed_at_def)
qed

lemma placed_at_other: "b \<notin> set s \<Longrightarrow> placed_at loc (insert b seen) s ips = placed_at loc seen s ips"
  by (auto simp: placed_at_def)

lemma placed_at_subset: "placed_at loc seen s ips \<Longrightarrow> snd ` set ips \<subseteq> set s"
  by (auto simp: placed_at_def)

lemma placed_all:
  assumes "placed_at loc seen s ips" and "set s \<subseteq> seen" and "inj_on loc (set s)"
  shows "om_ok ips" and "set ips = (\<lambda>b. (loc b, b)) ` set s"
proof -
  show "om_ok ips" using assms(1) by (simp add: placed_at_def)
  have "(loc b, b) \<in> set ips" if b: "b \<in> set s" for b
  proof -
    obtain c where c: "(loc b, c) \<in> set ips" using assms(1,2) b by (force simp: placed_at_def)
    then have "loc b = loc c" "c \<in> set s" using assms(1) by (auto simp: placed_at_def)
    then show ?thesis using c b assms(3) by (metis inj_onD)
  qed
  then show "set ips = (\<lambda>b. (loc b, b)) ` set s" using assms(1) by (auto simp: placed_at_def)
qed

lemma place_blk_ok:
  assumes m: "report_inv ss loc rec os m0 seen m" and o: "opened_ok ss bs os m0"
    and b: "b \<in> set (concat os)" "b \<notin> seen"
  shows "\<exists>m'. place_blk conf rec (loc b) b m = Inr m' \<and> report_inv ss loc rec os m0 (insert b seen) m'"
proof -
  obtain i where i: "i < length os" "b \<in> set (os ! i)" using b(1) by (metis UN_E in_set_conv_nth set_concat)
  then have sid: "map_of (hm_blkName2StripeId m) b = Some i" using m o by (simp add: report_inv_def opened_ok_def)
  have new: "map_of (hm_blkName2Ip m) b = None" using m b(2) by (simp add: report_inv_def)
  define s where "s = fold (\<lambda>f s. om_put f (insort_insert (loc b, b) (om_get [] s f)) s) (om_get [] rec b) (hm_blk2Stripe m)"
  have s: "sorted (om_get [] s g) \<and> distinct (om_get [] s g) \<and>
      set (om_get [] s g) = (\<lambda>b. (loc b, b)) ` {b' \<in> insert b seen. g \<in> set (om_get [] rec b')}" for g
    using fold_insert_helper[of "hm_blk2Stripe m" "(loc b, b)" "om_get [] rec b" g] m unfolding s_def report_inv_def by auto
  have len: "i < length (hm_Ip2BlkNames m)" using m i by (simp add: report_inv_def)
  define ips where "ips = (if map_of (hm_Ip2BlkNames m ! i) (loc b) = None
    then (hm_Ip2BlkNames m)[i := om_put (loc b) b (hm_Ip2BlkNames m ! i)] else hm_Ip2BlkNames m)"
  have ips: "length ips = length os" "placed_at loc (insert b seen) (os ! j) (ips ! j)" if j: "j < length os" for j
  proof -
    have at: "placed_at loc seen (os ! j) (hm_Ip2BlkNames m ! j)" and len': "length (hm_Ip2BlkNames m) = length os"
      using m j by (simp_all add: report_inv_def)
    then show "length ips = length os" by (simp add: ips_def)
    show "placed_at loc (insert b seen) (os ! j) (ips ! j)"
    proof (cases "j = i")
      case True
      have "ips ! i = (if map_of (hm_Ip2BlkNames m ! i) (loc b) = None then om_put (loc b) b (hm_Ip2BlkNames m ! i) else hm_Ip2BlkNames m ! i)"
        using i(1) len' by (simp add: ips_def)
      then show ?thesis using placed_at_put[of loc seen "os ! i" "hm_Ip2BlkNames m ! i" b] at i(2) True by simp
    next
      case False
      have "b \<notin> set (os ! j)"
      proof
        assume "b \<in> set (os ! j)"
        then have "map_of (hm_blkName2StripeId m) b = Some j" using m o j by (simp add: report_inv_def opened_ok_def)
        then show False using sid False by simp
      qed
      moreover have "ips ! j = hm_Ip2BlkNames m ! j" using False by (simp add: ips_def)
      ultimately show ?thesis using at placed_at_other by simp
    qed
  qed
  obtain m' where "place_blk conf rec (loc b) b m = Inr m'"
    "hm_blkName2Ip m' = om_put b (loc b) (hm_blkName2Ip m)" "hm_Ip2BlkNames m' = ips" "hm_blk2Stripe m' = s"
    "hm_blkIdInStripe m' = hm_blkIdInStripe m" "hm_blkName2StripeId m' = hm_blkName2StripeId m"
    "hm_Id2BlkNames m' = hm_Id2BlkNames m" "hm_coefficient m' = hm_coefficient m"
    using sid new len by (simp add: place_blk_def Let_def ips_def s_def split: if_splits)
  moreover from this have "report_inv ss loc rec os m0 (insert b seen) m'"
    using m s ips i(1) by (auto simp: report_inv_def map_of_om_put)
  ultimately show ?thesis by blast
qed

lemma takeWhile_bytes:
  assumes "CHR 0x00 \<notin> set b"
  shows "takeWhile (\<lambda>b. b \<noteq> 0) (bytes_of b) = bytes_of b"
proof -
  have "x = CHR 0x00" if "(of_char x :: byte) = 0" for x :: char
    using that string_of_bytes_of[of "[x]"] by (simp add: string_of_def bytes_of_def char_of_def)
  with assms show ?thesis by (auto simp: takeWhile_eq_all_conv bytes_of_def)
qed

lemma report_loop_ok:
  assumes o: "opened_ok ss (concat ss) os m0"
    and "report_inv ss loc rec os m0 (set (concat ss) - set blks) m" and "blks \<noteq> []" "distinct blks" "set blks \<subseteq> set (concat ss)"
    and "\<forall>r \<in> set reps. CHR 0x00 \<notin> set (snd r) \<and> (snd r \<in> set (concat ss) \<longrightarrow> fst r = loc (snd r))" "set blks \<subseteq> snd ` set reps"
  shows "\<exists>m' msgs. report_loop conf rec (map report_msg reps) blks m = Inr (m', msgs) \<and> report_inv ss loc rec os m0 (set (concat ss)) m'"
  using assms(2-)
proof (induction reps arbitrary: blks m)
  case (Cons r reps)
  obtain ip b where r: "r = (ip, b)" by (cases r)
  have "CHR 0x00 \<notin> set b" using Cons.prems(5) by (simp add: r)
  then have name: "string_of (takeWhile (\<lambda>b. b \<noteq> 0) (drop 4 (report_msg r))) = b" and ip: "get_word (report_msg r) 0 = Inr ip"
    using get_word_append[of 0 "[]" ip "bytes_of b"] by (simp_all add: report_msg_def r takeWhile_bytes)
  show ?case
  proof (cases "b \<in> set blks")
    case False
    then show ?thesis
      using Cons.IH[OF Cons.prems(1-4)] Cons.prems(5,6) name ip by (auto simp: r)
  next
    case True
    then have "b \<in> set (concat ss)" using Cons.prems(4) by blast
    then have "ip = loc b" "b \<in> set (concat os)" using Cons.prems(5) o by (auto simp: r opened_ok_def)
    then obtain m1 where m1: "place_blk conf rec ip b m = Inr m1" "report_inv ss loc rec os m0 (insert b (set (concat ss) - set blks)) m1"
      using place_blk_ok[OF Cons.prems(1) o] True by blast
    have "insert b (set (concat ss) - set blks) = set (concat ss) - set (remove1 b blks)"
      using True Cons.prems(3,4) by (auto simp: set_remove1_eq)
    then have m1': "report_inv ss loc rec os m0 (set (concat ss) - set (remove1 b blks)) m1" using m1(2) by simp
    show ?thesis
    proof (cases "remove1 b blks = []")
      case True
      with m1 m1' show ?thesis using \<open>b \<in> set blks\<close> name ip by (simp add: Let_def)
    next
      case False
      have "set (remove1 b blks) \<subseteq> set (concat ss)" "set (remove1 b blks) \<subseteq> snd ` set reps"
        using Cons.prems(3,4,6) by (auto simp: set_remove1_eq r)
      with Cons.IH[OF m1' False] Cons.prems(3,5) show ?thesis
        using \<open>b \<in> set blks\<close> name ip m1(1) False by (auto simp: Let_def r)
    qed
  qed
qed simp

section \<open>The metadata base\<close>

lemma init_stripe_known:
  assumes o: "opened_ok ss (concat ss) os m0" and m: "report_inv ss loc rec os m0 (set (concat ss)) m"
    and dist: "distinct (concat ss)" and s: "s \<in> set ss" "s \<noteq> []"
  shows "\<exists>sid < length os. os ! sid = s \<and> length (hm_Id2BlkNames m) = length os \<and> (\<forall>i < length s.
        map_of (hm_blkIdInStripe m) (s ! i) = Some (int i) \<and>
        map_of (hm_blkName2StripeId m) (s ! i) = Some sid \<and>
        map_of (hm_Id2BlkNames m ! sid) i = Some (s ! i))"
proof -
  have sub: "set os \<subseteq> set ss" "set (concat ss) \<subseteq> set (concat os)" using o by (simp_all add: opened_ok_def)
  obtain b where b: "b \<in> set s" using s(2) by (cases s) auto
  then have "b \<in> set (concat os)" using s(1) sub(2) by auto
  then obtain sid where sid: "sid < length os" "b \<in> set (os ! sid)" by (metis UN_E in_set_conv_nth set_concat)
  then have "os ! sid \<in> set ss" using sub(1) by auto
  then have eq: "os ! sid = s" using stripe_unique[OF dist _ s(1) sid(2) b] by blast
  have "distinct s" using dist s(1) by (simp add: distinct_concat_iff)
  then have idx: "index_of (s ! i) s = i" "s ! i \<in> set (concat ss) \<inter> set (os ! sid)" if "i < length s" for i
    using that s(1) eq nth_mem[OF that] by (auto simp: index_of_nth simp del: nth_mem)
  have "map_of (hm_blkIdInStripe m) (s ! i) = Some (int i) \<and> map_of (hm_blkName2StripeId m) (s ! i) = Some sid \<and>
      map_of (hm_Id2BlkNames m ! sid) i = Some (s ! i)" if "i < length s" for i
  proof -
    have "map_of (hm_blkIdInStripe m0) (s ! i) = Some (int (index_of (s ! i) s)) \<and>
        map_of (hm_Id2BlkNames m0 ! sid) (index_of (s ! i) s) = Some (s ! i)"
      using o sid(1) idx(2)[OF that] unfolding opened_ok_def by (metis eq)
    moreover have "map_of (hm_blkName2StripeId m0) (s ! i) = Some sid"
      using o sid(1) idx(2)[OF that] by (simp add: opened_ok_def)
    ultimately show ?thesis using m idx(1)[OF that] by (simp add: report_inv_def)
  qed
  moreover have "length (hm_Id2BlkNames m) = length os" using o m by (simp add: opened_ok_def report_inv_def)
  ultimately show ?thesis using sid(1) eq by blast
qed

lemma init_helpers:
  assumes sc: "scan_inv rs k ss (concat ss) sc" and m: "report_inv ss loc (sc_recoveree sc) os m0 (set (concat ss)) m"
    and dist: "distinct (concat ss)" and s: "s \<in> set ss" "f \<in> set s" and ne: "first_helpers k s f \<noteq> []"
  shows "map_of (hm_blk2Stripe m) f = Some (sorted_list_of_set ((\<lambda>b. (loc b, b)) ` set (first_helpers k s f)))"
proof -
  let ?h = "om_get [] (hm_blk2Stripe m) f" and ?H = "(\<lambda>b. (loc b, b)) ` set (first_helpers k s f)"
  have "set (first_helpers k s f) \<subseteq> set (concat ss)"
    using s(1) by (auto simp: first_helpers_def dest!: in_set_takeD)
  moreover have "f \<in> set (om_get [] (sc_recoveree sc) b) \<longleftrightarrow> b \<in> set (first_helpers k s f)" for b
  proof -
    have "f \<in> set (concat ss)" using s by auto
    then have "f \<in> set (om_get [] (sc_recoveree sc) b) \<longleftrightarrow> (\<exists>t \<in> set ss. f \<in> set t \<and> b \<in> set (first_helpers k t f))"
      using sc by (simp add: scan_inv_def)
    then show ?thesis using s stripe_unique[OF dist s(1) _ s(2)] by metis
  qed
  ultimately have "{b \<in> set (concat ss). f \<in> set (om_get [] (sc_recoveree sc) b)} = set (first_helpers k s f)"
    by blast
  then have h': "set ?h = ?H" "sorted ?h" "distinct ?h" using m by (simp_all add: report_inv_def)
  then have h: "?h = sorted_list_of_set ?H"
    using sorted_list_of_set.idem_if_sorted_distinct[OF h'(2,3)] by (simp only: h'(1))
  have "?H \<noteq> {}" using ne by simp
  then have "?h \<noteq> []" using h'(1) by (metis list.set(1))
  then have "map_of (hm_blk2Stripe m) f = Some ?h" by (cases "map_of (hm_blk2Stripe m) f") (simp_all add: om_get_def)
  then show ?thesis by (simp only: h)
qed

lemma first_helpers_ne:
  assumes "0 < k" and "distinct s" and "2 \<le> length s"
  shows "first_helpers k s f \<noteq> []"
proof -
  obtain x y where "x \<in> set s" "y \<in> set s" "x \<noteq> y"
    using assms(2,3) by (cases s; cases "tl s") auto
  then have "filter (\<lambda>x. x \<noteq> f) s \<noteq> []" by (metis (mono_tags, lifting) filter_empty_conv)
  with assms(1) show ?thesis by (simp add: first_helpers_def)
qed

lemma init_stripe:
  assumes sc: "scan_inv rs k ss (concat ss) sc" and o: "opened_ok ss (concat ss) os m0"
    and m: "report_inv ss loc (sc_recoveree sc) os m0 (set (concat ss)) m"
    and dist: "distinct (concat ss)" and s: "s \<in> set ss" "f \<in> set s" "2 \<le> length s" and "0 < k"
  shows "hdfs_stripe m s f (sorted_list_of_set ((\<lambda>b. (loc b, b)) ` set (first_helpers k s f)))"
proof -
  let ?hs = "sorted_list_of_set ((\<lambda>b. (loc b, b)) ` set (first_helpers k s f))"
  have "s \<noteq> []" using s(2) by auto
  then obtain sid where sid: "sid < length os" "os ! sid = s" "length (hm_Id2BlkNames m) = length os" "\<forall>i < length s.
      map_of (hm_blkIdInStripe m) (s ! i) = Some (int i) \<and>
      map_of (hm_blkName2StripeId m) (s ! i) = Some sid \<and> map_of (hm_Id2BlkNames m ! sid) i = Some (s ! i)"
    using init_stripe_known[OF o m dist s(1)] by blast
  have "distinct s" using dist s(1) by (simp add: distinct_concat_iff)
  then have known: "stripe_known m s" using sid unfolding stripe_known_def by auto
  have hs: "map_of (hm_blk2Stripe m) f = Some ?hs"
    using init_helpers[OF sc m dist s(1,2)] first_helpers_ne[OF assms(8) \<open>distinct s\<close> s(3)] by blast
  have "snd ` set ?hs \<subseteq> set s - {f}"
    by (auto simp: first_helpers_def dest!: in_set_takeD)
  moreover have "distinct (map snd ?hs)"
    by (auto simp: distinct_map inj_on_def)
  moreover have "map_of (hm_blkName2Ip m) b \<noteq> None" if "b \<in> set s" for b
    using m s(1) that by (auto simp: report_inv_def)
  moreover have "map_of (hm_blkName2StripeId m) f = Some sid"
    using sid(4) s(2) by (auto simp: in_set_conv_nth)
  moreover have "sid < length (hm_Ip2BlkNames m)" "placed_at loc (set (concat ss)) s (hm_Ip2BlkNames m ! sid)"
    using m sid(1,2) by (auto simp: report_inv_def)
  moreover from this(2) have "snd ` set (hm_Ip2BlkNames m ! sid) \<subseteq> set s" by (rule placed_at_subset)
  ultimately show ?thesis
    using known hs s(2) unfolding hdfs_stripe_def by blast
qed

lemma init_placed:
  assumes o: "opened_ok ss (concat ss) os m0" and m: "report_inv ss loc rec os m0 (set (concat ss)) m"
    and dist: "distinct (concat ss)" and s: "s \<in> set ss" "s \<noteq> []" "inj_on loc (set s)"
  shows "hdfs_placed m s loc"
proof -
  obtain sid where sid: "sid < length os" "os ! sid = s" "length (hm_Id2BlkNames m) = length os" "\<forall>i < length s.
      map_of (hm_blkIdInStripe m) (s ! i) = Some (int i) \<and>
      map_of (hm_blkName2StripeId m) (s ! i) = Some sid \<and> map_of (hm_Id2BlkNames m ! sid) i = Some (s ! i)"
    using init_stripe_known[OF o m dist s(1,2)] by blast
  have sub: "set s \<subseteq> set (concat ss)" using s(1) by auto
  have "distinct s" using dist s(1) by (simp add: distinct_concat_iff)
  then have "stripe_known m s" using sid unfolding stripe_known_def by auto
  moreover have "sid < length (hm_Ip2BlkNames m)" "placed_at loc (set (concat ss)) s (hm_Ip2BlkNames m ! sid)"
    using m sid(1,2) by (auto simp: report_inv_def)
  moreover have "map_of (hm_blkName2StripeId m) b = Some sid" if "b \<in> set s" for b
    using sid(4) that by (auto simp: in_set_conv_nth)
  moreover have "map_of (hm_blkName2Ip m) b = Some (loc b)" if "b \<in> set s" for b
    using m sub that by (auto simp: report_inv_def)
  ultimately show ?thesis
    using placed_all[OF _ sub s(3)] s(3) unfolding hdfs_placed_def by blast
qed

lemma init_metadata:
  assumes "store_ok conf rs ss files" and "concat ss \<noteq> []" and "0 < ecK conf"
    and "w_queues w (coordinatorIP conf) ''blk_init'' = map report_msg reps" and "reports_ok ss loc reps"
  shows "\<exists>m w'. HDFS_MetadataBase conf rs files w = Inr (m, w') \<and>
    (\<forall>s f. s \<in> set ss \<and> f \<in> set s \<and> 2 \<le> length s \<longrightarrow>
      hdfs_stripe m s f (sorted_list_of_set ((\<lambda>b. (loc b, b)) ` set (first_helpers (ecK conf) s f))) \<and>
      coefs_ok rs (ecK conf) s f (om_get [] (hm_coefficient m) f)) \<and>
    (\<forall>s. s \<in> set ss \<and> s \<noteq> [] \<and> inj_on loc (set s) \<longrightarrow> hdfs_placed m s loc)"
proof -
  obtain sc where sc: "scan_store conf rs files = Inr sc" "scan_inv rs (ecK conf) ss (concat ss) sc"
    using scan_store_ok[OF assms(1)] by blast
  then obtain os where o: "opened_ok ss (concat ss) os (sc_meta sc)" by (auto simp: scan_inv_def)
  let ?rec = "sc_recoveree sc"
  have dist: "distinct (concat ss)" using assms(1) by (simp add: store_ok_def)
  have "report_inv ss loc ?rec os (sc_meta sc) (set (concat ss) - set (sc_blks sc)) (sc_meta sc)"
    using sc(2) o by (simp add: report_inv_def scan_inv_def opened_ok_def om_get_def placed_at_def om_ok_def)
  moreover have "sc_blks sc \<noteq> []" "distinct (sc_blks sc)" "set (sc_blks sc) = set (concat ss)"
    using sc(2) assms(2) by (auto simp: scan_inv_def)
  ultimately obtain m msgs where m: "report_loop conf ?rec (map report_msg reps) (sc_blks sc) (sc_meta sc) = Inr (m, msgs)"
    "report_inv ss loc ?rec os (sc_meta sc) (set (concat ss)) m"
    using report_loop_ok[OF o, of loc ?rec "sc_blks sc" "sc_meta sc" reps conf] assms(5) by (auto simp: reports_ok_def)
  have "hdfs_stripe m s f (sorted_list_of_set ((\<lambda>b. (loc b, b)) ` set (first_helpers (ecK conf) s f)))"
    if "s \<in> set ss" "f \<in> set s" "2 \<le> length s" for s f
    using init_stripe[OF sc(2) o m(2) dist that assms(3)] .
  moreover have "coefs_ok rs (ecK conf) s f (om_get [] (hm_coefficient m) f)" if "s \<in> set ss" "f \<in> set s" for s f
    using sc(2) m(2) that by (auto simp: scan_inv_def report_inv_def)
  moreover have "hdfs_placed m s loc" if "s \<in> set ss" "s \<noteq> []" "inj_on loc (set s)" for s
    using init_placed[OF o m(2) dist that] .
  ultimately show ?thesis
    using sc(1) m(1) assms(4) by (simp add: HDFS_MetadataBase_def)
qed

text \<open>
  C10. The constructor of the HDFS metadata base on a consistent stripe store in which every block is
  reported by the node that has it: it returns, and for every block of every stripe its maps are
  those the queries and the repair rely on. The recorded helpers of a block are the first \<open>k\<close> other blocks of its
  stripe with their nodes, and the recorded coefficients are the entries of the table of the erasure code. If the blocks of a
  stripe are on different nodes, the map of the stripe from the nodes to the blocks has them all.
\<close>

theorem hdfs_init_stripes:
  assumes "store_ok conf rs ss files" and "concat ss \<noteq> []" and "0 < ecK conf"
    and "w_queues w (coordinatorIP conf) ''blk_init'' = map report_msg reps" and "reports_ok ss loc reps"
  shows "\<exists>m w'. HDFS_MetadataBase conf rs files w = Inr (m, w') \<and>
    (\<forall>s f. s \<in> set ss \<and> f \<in> set s \<and> 2 \<le> length s \<longrightarrow>
      hdfs_stripe m s f (sorted_list_of_set ((\<lambda>b. (loc b, b)) ` set (first_helpers (ecK conf) s f))) \<and>
      coefs_ok rs (ecK conf) s f (om_get [] (hm_coefficient m) f)) \<and>
    (\<forall>s. s \<in> set ss \<and> s \<noteq> [] \<and> inj_on loc (set s) \<longrightarrow> hdfs_placed m s loc)"
  by (rule init_metadata[OF assms])

section \<open>An example\<close>

text \<open>The store of the stripe of the other examples: one file for each of \<open>a\<close>, \<open>b\<close> and \<open>c\<close>.\<close>

abbreviation store_rs :: rs_util where
  "store_rs \<equiv> RSUtil gf256 2 3 [1, 2]"

definition store_files :: "(string \<times> string) list" where
  "store_files =
     [(''..'', []), (''rs:a_0'', ''a_0:b_0:c_0'' @ [CHR 0x0A]), (''.'', []),
      (''rs:c_0'', ''a_0:b_0:c_0''), (''rs:b_0'', ''a_0:b_0:c_0'')]"

definition store_reports :: "(ip_addr \<times> string) list" where
  "store_reports = [(12, ''b''), (11, ''x''), (13, ''c''), (12, ''b''), (11, ''a'')]"

definition store_loc :: "string \<Rightarrow> ip_addr" where
  "store_loc b = (if b = ''a'' then 11 else if b = ''b'' then 12 else 13)"

lemma store_names:
  "stripe_names ''a_0:b_0:c_0'' = [''a'', ''b'', ''c'']" "stripe_names (''a_0:b_0:c_0'' @ [CHR 0x0A]) = [''a'', ''b'', ''c'']"
  "file_blk ''rs:a_0'' = ''a''" "file_blk ''rs:b_0'' = ''b''" "file_blk ''rs:c_0'' = ''c''"
  by (simp_all add: stripe_names_def file_blk_def before_last_def after_first_def splite_string.simps)

lemma store_sample: "store_ok repair_conf store_rs [[''a'', ''b'', ''c'']] store_files"
proof -
  have "length (rs_coefficient store_rs) = 3" "\<forall>c \<in> set (rs_coefficient store_rs). length c = 2"
    using RSUtil_coefficients[of 2 3 "[1, 2]" gf256] by (auto simp: length_matrix_multiply)
  moreover have "ecK repair_conf = 2" by (simp add: repair_conf_def sample_repair_conf_def)
  ultimately show ?thesis
    using store_names by (simp add: store_ok_def store_files_def dot_file_def)
qed

theorem hdfs_init_stripes_witness:
  "\<exists>m w'. HDFS_MetadataBase repair_conf store_rs store_files
      (repair_world\<lparr>w_queues := (\<lambda>ip key. if ip = 10 \<and> key = ''blk_init'' then map report_msg store_reports else [])\<rparr>) = Inr (m, w') \<and>
    hdfs_stripe m [''a'', ''b'', ''c''] ''c'' repair_hs"
proof -
  have hs: "sorted_list_of_set ((\<lambda>b. (store_loc b, b)) ` set (first_helpers 2 [''a'', ''b'', ''c''] ''c'')) = repair_hs"
    by (simp add: first_helpers_def store_loc_def)
  have rep: "reports_ok [[''a'', ''b'', ''c'']] store_loc store_reports"
    by (simp add: reports_ok_def store_reports_def store_loc_def)
  have conf: "ecK repair_conf = 2" "coordinatorIP repair_conf = 10" by (simp_all add: repair_conf_def sample_repair_conf_def)
  show ?thesis
    using hdfs_init_stripes[OF store_sample, of
        "repair_world\<lparr>w_queues := (\<lambda>ip key. if ip = 10 \<and> key = ''blk_init'' then map report_msg store_reports else [])\<rparr>"
        store_reports store_loc] rep conf hs by auto
qed

end
