(* ===== verification/Ppr_Repair.thy ===== *)
theory Ppr_Repair
  imports Ppr_Coordinator Ppr_Sum Ppr_Serve Hdfs_Store
begin

text \<open>
  The partial parallel repair of a block from the request to the repaired packets: the metadata base names the
  helpers and the recorded coefficients, the coordinator sends the commands, the nodes start, and the
  requestor ends up with the lost block.
\<close>

section \<open>The helpers in the order of their addresses\<close>

lemma stripe_by_ip_ok:
  assumes "distinct (map fst blks)"
  shows "set (stripe_by_ip blks) = set blks" and "distinct (map fst (stripe_by_ip blks))"
    and "length (stripe_by_ip blks) = length blks"
proof -
  have eq: "stripe_by_ip blks = fold (\<lambda>(k, v). om_put k v) blks []"
    by (simp add: stripe_by_ip_def)
  have "om_ok (stripe_by_ip blks)" unfolding eq by (rule om.ok_fold_put) (simp add: om_ok_def)
  then show dist: "distinct (map fst (stripe_by_ip blks))" by (simp add: om_ok_def strict_sorted_iff)
  have "map_of (stripe_by_ip blks) k = map_of (rev blks) k" for k
    unfolding eq om.get_fold_put by (simp split: option.splits)
  then have "(k, v) \<in> set (stripe_by_ip blks) \<longleftrightarrow> (k, v) \<in> set blks" for k v
    using dist assms by (metis distinct_rev map_of_eq_Some_iff rev_map set_rev)
  then show set: "set (stripe_by_ip blks) = set blks" by auto
  have "card (set (stripe_by_ip blks)) = length (stripe_by_ip blks)" "card (set blks) = length blks"
    using dist assms by (simp_all add: distinct_card distinct_map)
  then show "length (stripe_by_ip blks) = length blks" using set by simp
qed

section \<open>The commands\<close>

definition ppr_stripe ::
    "repair_config \<Rightarrow> (ip_addr \<times> string) list \<Rightarrow> ip_addr \<Rightarrow> string \<Rightarrow> (ip_addr \<times> string) list \<Rightarrow> bool" where
  "ppr_stripe conf ip2Ctx requestorIP f stripe \<longleftrightarrow>
     sorted_wrt (<) (map fst ip2Ctx) \<and> length ip2Ctx < 2 ^ 31 \<and> ctx_ok conf ip2Ctx \<and>
     map fst ip2Ctx = helpersIPs conf \<and> distinct (map fst stripe) \<and>
     fst ` set stripe \<subseteq> set (helpersIPs conf) - {requestorIP} \<and> requestorIP \<in> set (helpersIPs conf) \<and>
     (\<forall>b \<in> snd ` set stripe. b \<noteq> [] \<and> 4 * length stripe + length f + length b \<le> 1000) \<and>
     4 * length stripe + length f \<le> 1000"

abbreviation ppr_ips :: "ip_addr \<Rightarrow> (ip_addr \<times> string) list \<Rightarrow> ip_addr list" where
  "ppr_ips requestorIP stripe \<equiv> map fst stripe @ [requestorIP]"

definition is_ppr_cmd ::
    "(ip_addr \<times> string) list \<Rightarrow> ip_addr \<Rightarrow> string \<Rightarrow> (string, int) omap \<Rightarrow> (ip_addr \<times> string) list \<Rightarrow> nat \<Rightarrow>
     string \<times> byte list \<Rightarrow> bool" where
  "is_ppr_cmd ip2Ctx requestorIP f coef stripe n qc \<longleftrightarrow>
     (let ips = ppr_ips requestorIP stripe; k = length stripe; idx = ctx_idx ip2Ctx (ips ! n)
      in fst qc = snd (ip2Ctx ! idx) \<and>
         (if n < k then ppr_cmd (int idx) (int k) (int n) ips (om_get0 coef (snd (stripe ! n))) f (snd (stripe ! n)) = Inr (snd qc)
          else ppr_req_cmd (int idx) (int k) ips f = Inr (snd qc)))"

lemma ppr_ips_ctx:
  assumes "ppr_stripe conf ip2Ctx requestorIP f stripe" and "n \<le> length stripe"
  shows "ppr_ips requestorIP stripe ! n \<in> fst ` set ip2Ctx"
proof -
  have "set (map fst ip2Ctx) = set (helpersIPs conf)" using assms(1) by (simp add: ppr_stripe_def)
  moreover have "ppr_ips requestorIP stripe ! n \<in> set (ppr_ips requestorIP stripe)" using assms(2) by (intro nth_mem) simp
  ultimately show ?thesis using assms(1) by (auto simp: ppr_stripe_def)
qed

lemma ppr_commands_eq:
  assumes ok: "ppr_stripe conf ip2Ctx requestorIP f stripe"
  shows "\<exists>qcs. ppr_commands ip2Ctx requestorIP f coef stripe = Inr qcs \<and>
    list_all2 (is_ppr_cmd ip2Ctx requestorIP f coef stripe) [0..<Suc (length stripe)] qcs"
proof -
  let ?k = "length stripe" and ?ips = "ppr_ips requestorIP stripe"
  have ctx: "sorted_wrt (<) (map fst ip2Ctx)" "length ip2Ctx < 2 ^ 31"
    using ok unfolding ppr_stripe_def by blast+
  note in_ctx = ppr_ips_ctx[OF ok]
  let ?one = "\<lambda>i. bindE (atE stripe (int i)) (\<lambda>(ip, blk).
      queue_cmd ip2Ctx ip (\<lambda>idx. ppr_cmd idx (int ?k) (int i) ?ips (om_get0 coef blk) f blk))"
  have one: "\<exists>qc. ?one i = Inr qc \<and> is_ppr_cmd ip2Ctx requestorIP f coef stripe i qc" if "i \<in> set [0..<?k]" for i
  proof -
    have i: "i < ?k" "stripe ! i \<in> set stripe" using that by simp_all
    then have "4 * ?k + length f + length (snd (stripe ! i)) \<le> 1000" using ok by (auto simp: ppr_stripe_def)
    then obtain c where "ppr_cmd (int (ctx_idx ip2Ctx (fst (stripe ! i)))) (int ?k) (int i) ?ips
        (om_get0 coef (snd (stripe ! i))) f (snd (stripe ! i)) = Inr c"
      by (simp add: ppr_cmd_def COMMAND_MAX_LENGTH_def Let_def)
    moreover have "fst (stripe ! i) \<in> fst ` set ip2Ctx" using in_ctx[of i] i(1) by (simp add: nth_append)
    ultimately show ?thesis
      using i(1) queue_cmd_eq[OF ctx] by (simp add: is_ppr_cmd_def Let_def nth_append case_prod_beta)
  qed
  then obtain qcs where qcs: "mapE ?one [0..<?k] = Inr qcs"
    "list_all2 (is_ppr_cmd ip2Ctx requestorIP f coef stripe) [0..<?k] qcs"
    using mapE_list_all2[of "[0..<?k]" ?one, OF one] by blast
  obtain c where c: "ppr_req_cmd (int (ctx_idx ip2Ctx requestorIP)) (int ?k) ?ips f = Inr c"
    using ok by (simp add: ppr_req_cmd_def COMMAND_MAX_LENGTH_def Let_def ppr_stripe_def)
  moreover have "requestorIP \<in> fst ` set ip2Ctx" using in_ctx[of ?k] by (simp add: nth_append)
  ultimately have "queue_cmd ip2Ctx requestorIP (\<lambda>idx. ppr_req_cmd idx (int ?k) ?ips f) =
      Inr (snd (ip2Ctx ! ctx_idx ip2Ctx requestorIP), c)"
    using queue_cmd_eq[OF ctx] by simp
  moreover have "is_ppr_cmd ip2Ctx requestorIP f coef stripe ?k (snd (ip2Ctx ! ctx_idx ip2Ctx requestorIP), c)"
    using c by (simp add: is_ppr_cmd_def Let_def nth_append)
  ultimately show ?thesis
    using qcs by (intro exI[of _ "qcs @ [(snd (ip2Ctx ! ctx_idx ip2Ctx requestorIP), c)]"])
      (simp add: ppr_commands_def Let_def list_all2_appendI)
qed

lemma ppr_cmd_prefix:
  "ppr_cmd idx k i ips c f l = Inr cmd \<Longrightarrow> \<exists>rest. cmd = put_int idx @ rest"
  "ppr_req_cmd idx k ips f = Inr cmd \<Longrightarrow> \<exists>rest. cmd = put_int idx @ rest"
  by (auto simp: ppr_cmd_def ppr_req_cmd_def Let_def res_simps)

lemma ppr_dispatch:
  assumes ok: "ppr_stripe conf ip2Ctx requestorIP f stripe"
    and qcs: "list_all2 (is_ppr_cmd ip2Ctx requestorIP f coef stripe) [0..<Suc (length stripe)] qcs"
  shows "dispatch_ok conf ip2Ctx (ppr_ips requestorIP stripe) qcs"
proof (rule dispatch_okI)
  let ?ips = "ppr_ips requestorIP stripe"
  show "ctx_ok conf ip2Ctx" "length ip2Ctx < 2 ^ 31" using ok unfolding ppr_stripe_def by blast+
  show "distinct ?ips" using ok by (auto simp: ppr_stripe_def)
  show "length qcs = length ?ips" using list_all2_lengthD[OF qcs] by simp
  fix n assume n: "n < length ?ips"
  then show "?ips ! n \<in> fst ` set ip2Ctx" by (intro ppr_ips_ctx[OF ok]) simp
  have "is_ppr_cmd ip2Ctx requestorIP f coef stripe n (qcs ! n)"
    using list_all2_nthD[OF qcs, of n] n by (simp del: upt_Suc)
  then show "fst (qcs ! n) = snd (ip2Ctx ! ctx_idx ip2Ctx (?ips ! n)) \<and>
      (\<exists>rest. snd (qcs ! n) = put_int (int (ctx_idx ip2Ctx (?ips ! n))) @ rest)"
    using ppr_cmd_prefix by (cases "n < length stripe") (auto simp: is_ppr_cmd_def Let_def)
qed

section \<open>The nodes start\<close>

text \<open>The repair of block \<open>f\<close> with these helpers, as the invariant sees it.\<close>

definition ppr_case_of ::
    "repair_config \<Rightarrow> ip_addr \<Rightarrow> string \<Rightarrow> (string, int) omap \<Rightarrow> (ip_addr \<times> string) list \<Rightarrow> (string \<Rightarrow> byte list) \<Rightarrow> ppr_case" where
  "ppr_case_of conf requestorIP f coef stripe content =
     \<lparr>pc_conf = conf, pc_lost = f, pc_coefs = chain_coefs coef stripe, pc_blks = map (content \<circ> snd) stripe,
      pc_ips = ppr_ips requestorIP stripe\<rparr>"

lemma ppr_case_k: "pc_k (ppr_case_of conf requestorIP f coef stripe content) = length stripe"
  by (simp add: ppr_case_of_def chain_coefs_def)

definition ppr_node ::
    "repair_config \<Rightarrow> ip_addr \<Rightarrow> string \<Rightarrow> (string, int) omap \<Rightarrow> (ip_addr \<times> string) list \<Rightarrow> nat \<Rightarrow> ppr_worker" where
  "ppr_node conf requestorIP f coef stripe n =
     (let k = length stripe; ips = ppr_ips requestorIP stripe;
          C = ppr_case_of conf requestorIP f coef stripe (\<lambda>_. [])
      in \<lparr>pr_ip = ips ! n,
          pr_job = \<lparr>pp_ecK = int k, pp_id = int n, pp_holderIps = ips,
            pp_coefficient = (if n < k then om_get0 coef (snd (stripe ! n)) else 0), pp_lostBlkName = f,
            pp_localBlkName = (if n < k then snd (stripe ! n) else [])\<rparr>,
          pr_wrtCtx = Some (ppr_dst C n), pr_ctxes = map (\<lambda>c. (c, Some (ppr_src C n c))) (kids k n),
          pr_disk = replicate (packetCnt conf) (replicate (packetSize conf) 0),
          pr_read = 0, pr_idx = replicate (length (kids k n)) 0, pr_toSend = 0, pr_sent = 0\<rparr>)"

lemma ppr_node_starts:
  assumes ok: "ppr_stripe conf ip2Ctx requestorIP f stripe" and coefs: "byte_coefs coef stripe" and n: "n \<le> length stripe"
    and cmd: "is_ppr_cmd ip2Ctx requestorIP f coef stripe n qc"
  shows "ppr_start conf (ppr_ips requestorIP stripe ! n) (drop 4 (snd qc)) = Inr (ppr_node conf requestorIP f coef stripe n)"
proof -
  let ?k = "length stripe" and ?ips = "ppr_ips requestorIP stripe"
  let ?C = "ppr_case_of conf requestorIP f coef stripe (\<lambda>_. [])"
  let ?j = "pr_job (ppr_node conf requestorIP f coef stripe n)"
  have k: "?k < 256" "sorted_wrt (<) (helpersIPs conf)" "map fst ip2Ctx = helpersIPs conf"
    using ok by (auto simp: ppr_stripe_def)
  then have sort: "sort (helpersIPs conf) = helpersIPs conf"
    by (simp add: sorted_sort_id strict_sorted_iff)
  have parse: "parse_ppr_cmd (drop 4 (snd qc)) = Inr ?j"
  proof (cases "n < ?k")
    case True
    then have "0 \<le> om_get0 coef (snd (stripe ! n))" "om_get0 coef (snd (stripe ! n)) < 256"
      using coefs by (auto simp: byte_coefs_def)
    with True cmd k(1) show ?thesis
      using parse_ppr_cmd_eq[of _ ?k n ?ips "om_get0 coef (snd (stripe ! n))" f "snd (stripe ! n)" "snd qc"]
      by (auto simp: is_ppr_cmd_def ppr_node_def Let_def)
  next
    case False
    then have "n = ?k" using n by simp
    with cmd k(1) show ?thesis
      using parse_ppr_req_eq[of _ ?k ?ips f "snd qc"] by (auto simp: is_ppr_cmd_def ppr_node_def Let_def)
  qed
  have find: "findCtx (helpersIPs conf) (?ips ! m) = Inr (Some (?ips ! m))" if "m \<le> ?k" for m
    using findCtx_eq[OF _ k(2), of "?ips ! m"] ppr_ips_ctx[OF ok that] k(3) by (metis set_map)
  have kids: "ppr_children ?j = kids ?k n"
    using n by (auto simp: ppr_children_def kids_def ppr_node_def Let_def)
  have "ppr_ctxes conf (?ips ! n) ?j = Inr (map (\<lambda>c. (c, Some (ppr_src ?C n c))) (kids ?k n))"
    unfolding ppr_ctxes_def kids
  proof (intro mapE_Inr_map)
    fix c assume c: "c \<in> set (kids ?k n)"
    then have "c < ?k" using kids_less[OF n] by simp
    moreover have "pc_ips ?C = ?ips" "pc_k ?C = ?k" by (simp_all add: ppr_case_of_def ppr_case_k chain_coefs_def)
    ultimately show "(if pp_id ?j \<noteq> pp_ecK ?j
        then bindE (atE (pp_holderIps ?j) (int c)) (\<lambda>a. bindE (findCtx (sort (helpersIPs conf)) a) (\<lambda>ctx. Inr (c, ctx)))
        else Inr (c, Some (?ips ! n))) = Inr (c, Some (ppr_src ?C n c))"
      using find[of c] sort by (simp add: ppr_src_def) (auto simp: ppr_node_def Let_def)
  qed
  moreover have "(if pp_ecK ?j \<le> PPRnextIP (pp_id ?j)
      then bindE (atE (pp_holderIps ?j) (pp_ecK ?j)) (findCtx (sort (helpersIPs conf)))
      else Inr (Some (?ips ! n))) = Inr (Some (ppr_dst ?C n))"
  proof -
    have "pp_ecK ?j = int ?k" "pp_id ?j = int n" "pp_holderIps ?j = ?ips" by (simp_all add: ppr_node_def Let_def)
    moreover have "pc_ips ?C = ?ips" "pc_k ?C = ?k" by (simp_all add: ppr_case_of_def ppr_case_k chain_coefs_def)
    ultimately show ?thesis using find[of ?k] sort by (simp add: ppr_dst_def)
  qed
  moreover have "0 \<le> pp_id ?j" by (simp add: ppr_node_def Let_def)
  ultimately show ?thesis
    using parse by (simp add: ppr_start_def) (simp add: ppr_node_def Let_def)
qed

text \<open>The blocks of the helpers with room for all packets, and no packets under way.\<close>

definition ppr_world ::
    "repair_config \<Rightarrow> ip_addr \<Rightarrow> string \<Rightarrow> (ip_addr \<times> string) list \<Rightarrow> (string \<Rightarrow> byte list) \<Rightarrow> world \<Rightarrow> bool" where
  "ppr_world conf requestorIP f stripe content w \<longleftrightarrow>
     (\<forall>(ip, b) \<in> set stripe. w_files w ip b = Some (content b) \<and> packetCnt conf * packetSize conf \<le> length (content b)) \<and>
     (\<forall>ip \<in> insert requestorIP (fst ` set stripe). w_queues w ip f = [] \<and> (\<forall>c. w_queues w ip (ppr_key f c) = []))"

definition ppr_size_ok :: "repair_config \<Rightarrow> bool" where
  "ppr_size_ok conf \<longleftrightarrow> 8 dvd packetSize conf \<and> packetCnt conf \<noteq> 3 \<and> packetCnt conf * packetSize conf < 2 ^ 31"

lemma ppr_case_ok:
  assumes "ppr_stripe conf ip2Ctx requestorIP f stripe" and "ppr_size_ok conf" and "ppr_world conf requestorIP f stripe content w"
  shows "ppr_conf_ok (ppr_case_of conf requestorIP f coef stripe content)"
proof -
  have "packetCnt conf * packetSize conf \<le> length (content (snd (stripe ! h)))" if "h < length stripe" for h
    using assms(3) nth_mem[OF that] by (auto simp: ppr_world_def case_prod_beta)
  moreover have "distinct (ppr_ips requestorIP stripe)" using assms(1) by (auto simp: ppr_stripe_def)
  ultimately show ?thesis
    using assms(2) by (simp add: ppr_conf_ok_def ppr_size_ok_def ppr_case_of_def chain_coefs_def)
qed

lemma ppr_starts:
  assumes ok: "ppr_stripe conf ip2Ctx requestorIP f stripe" and coefs: "byte_coefs coef stripe"
    and world: "ppr_world conf requestorIP f stripe content w"
  shows "cluster_inv G (ppr_case_of conf requestorIP f coef stripe content)
    (w, map (ppr_node conf requestorIP f coef stripe) [0..<Suc (length stripe)])"
proof -
  let ?k = "length stripe" and ?C = "ppr_case_of conf requestorIP f coef stripe content"
  let ?p = "ppr_node conf requestorIP f coef stripe"
  have C: "pc_k ?C = ?k" "pc_ips ?C = ppr_ips requestorIP stripe" "pc_conf ?C = conf" "pc_lost ?C = f"
    "pc_coefs ?C = chain_coefs coef stripe" "pc_blks ?C = map (content \<circ> snd) stripe"
    by (simp_all add: ppr_case_of_def chain_coefs_def)
  have same: "ppr_dst (ppr_case_of conf requestorIP f coef stripe (\<lambda>_. [])) n = ppr_dst ?C n"
    "ppr_src (ppr_case_of conf requestorIP f coef stripe (\<lambda>_. [])) n c = ppr_src ?C n c" for n c
    by (simp_all add: ppr_dst_def ppr_src_def ppr_case_of_def)
  have "node_ok ?C w n (?p n)" if n: "n \<le> ?k" for n
  proof (cases "n < ?k")
    case True
    then have mem: "stripe ! n \<in> set stripe" by simp
    then have "0 \<le> om_get0 coef (snd (stripe ! n))" "om_get0 coef (snd (stripe ! n)) < 256"
      using coefs by (auto simp: byte_coefs_def)
    then have "uint (chain_coefs coef stripe ! n) = om_get0 coef (snd (stripe ! n))"
      using True by (simp add: chain_coefs_def uint_word_of_int take_bit_int_eq_self)
    moreover have "w_files w (fst (stripe ! n)) (snd (stripe ! n)) = Some (content (snd (stripe ! n)))" "snd (stripe ! n) \<noteq> []"
      using world ok mem by (auto simp: ppr_world_def ppr_stripe_def case_prod_beta)
    ultimately show ?thesis
      unfolding node_ok_def C using True by (simp add: ppr_node_def Let_def same nth_append)
  next
    case False
    then show ?thesis unfolding node_ok_def C using n by (simp add: ppr_node_def Let_def same)
  qed
  moreover have "node_inv G ?C n (?p n)" for n
  proof -
    have "arrived (kids ?k n) (replicate (length (kids ?k n)) 0) i = {}" for i by (auto simp: arrived_def)
    moreover have "fold min (replicate (Suc m) 0) c = (0::nat)" for m c by (induction m arbitrary: c) simp_all
    then have "fold min (replicate m 0) c = (0::nat)" if "m \<noteq> 0" for m c using that by (cases m) auto
    ultimately show ?thesis
      unfolding node_inv_def C by (simp add: ppr_node_def Let_def node_pkt_def C map_replicate_const)
  qed
  moreover have "pkts_queued G ?C c 0 0 w" if "c < ?k" for c
  proof -
    have "ppr_dst ?C c \<in> insert requestorIP (fst ` set stripe)"
      using that by (simp add: ppr_dst_def C nth_append)
    then show ?thesis using world by (auto simp: pkts_queued_def C ppr_world_def)
  qed
  moreover have "pr_sent (?p n) = 0" "taken_by ?k (map ?p [0..<Suc ?k]) c = 0" if "c < ?k" for n c
  proof -
    show "pr_sent (?p n) = 0" by (simp add: ppr_node_def Let_def)
    have parent: "parent ?k c < Suc ?k" using parent_le[OF that] by simp
    then have "c \<in> set (kids ?k (parent ?k c))" using parent_kids[OF that] by simp
    then have "index_of c (kids ?k (parent ?k c)) < length (kids ?k (parent ?k c))" by (rule nth_index_of)
    with parent show "taken_by ?k (map ?p [0..<Suc ?k]) c = 0"
      by (simp add: taken_by_def ppr_node_def Let_def del: upt_Suc)
  qed
  moreover have "pr_sent (?p ?k) = 0" by (simp add: ppr_node_def Let_def)
  moreover have "w_queues w requestorIP f = []" using world by (simp add: ppr_world_def)
  ultimately show ?thesis
    unfolding cluster_inv_def C by (simp add: nth_append del: upt_Suc)
qed

section \<open>The repair of a block\<close>

definition block_pkt :: "repair_config \<Rightarrow> byte list \<Rightarrow> nat \<Rightarrow> byte list" where
  "block_pkt conf lost j = take (packetSize conf) (drop (j * packetSize conf) lost)"

text \<open>
  What a partial parallel repair promises: at any time the client's queue holds a prefix of the packets of the
  lost block, from any state the nodes can still finish, and then all packets are there.
\<close>

definition ppr_repaired ::
    "gf_ops \<Rightarrow> env \<Rightarrow> repair_config \<Rightarrow> ip_addr \<Rightarrow> string \<Rightarrow> byte list \<Rightarrow> world \<times> ppr_worker list \<Rightarrow> bool" where
  "ppr_repaired G E conf ip f lost st \<longleftrightarrow>
     (\<forall>w ps. (ppr_cluster G E conf)\<^sup>*\<^sup>* st (w, ps) \<longrightarrow>
        (\<exists>n \<le> packetCnt conf. w_queues w ip f = map (block_pkt conf lost) [0..<n]) \<and>
        (\<exists>w' ps'. (ppr_cluster G E conf)\<^sup>*\<^sup>* (w, ps) (w', ps') \<and> list_all (ppr_finished conf) ps') \<and>
        (list_all (ppr_finished conf) ps \<longrightarrow> w_queues w ip f = map (block_pkt conf lost) [0..<packetCnt conf]))"

lemma recovers_sum:
  assumes "recovers G coef stripe content lost" and "x < length lost"
  shows "xs.F (\<lambda>h. gf_multiply G (chain_coefs coef stripe ! h) (map (content \<circ> snd) stripe ! h ! x)) {..<length stripe} = lost ! x"
proof -
  have bij: "bij_betw (\<lambda>i. snd (stripe ! i)) {..<length stripe} (snd ` set stripe)"
    using bij_betw_nth[of "map snd stripe" "{..<length stripe}" "snd ` set stripe"] assms(1)
      bij_betw_cong[of "{..<length stripe}" "(!) (map snd stripe)" "\<lambda>i. snd (stripe ! i)" "snd ` set stripe"]
    by (simp add: recovers_def)
  have "xs.F (\<lambda>h. gf_multiply G (chain_coefs coef stripe ! h) (map (content \<circ> snd) stripe ! h ! x)) {..<length stripe} =
      xs.F (\<lambda>c. gf_multiply G (word_of_int (om_get0 coef c)) (content c ! x)) (snd ` set stripe)"
    by (subst xs.reindex_bij_betw[OF bij, symmetric]) (rule xs.cong, simp_all add: chain_coefs_def)
  then show ?thesis using assms by (simp add: recovers_def)
qed

lemma cluster_repaired:
  assumes G: "gf_complete G" and E: "io_ok E" and conf: "ppr_conf_ok (ppr_case_of conf requestorIP f coef stripe content)"
    and inv: "cluster_inv G (ppr_case_of conf requestorIP f coef stripe content) st"
    and rec: "recovers G coef stripe content lost" "packetCnt conf * packetSize conf \<le> length lost"
  shows "ppr_repaired G E conf requestorIP f lost st"
  unfolding ppr_repaired_def
proof (intro allI impI)
  let ?C = "ppr_case_of conf requestorIP f coef stripe content" and ?k = "length stripe"
  have C: "pc_k ?C = ?k" "pc_ips ?C ! ?k = requestorIP" "pc_conf ?C = conf" "pc_lost ?C = f"
    by (simp_all add: ppr_case_of_def chain_coefs_def nth_append)
  have pkt: "ppr_pkt G ?C ?k i = block_pkt conf lost i" if "i < packetCnt conf" for i
    using ppr_pkt_lost[of ?C G lost i] recovers_sum[OF rec(1)] rec(2) that
    by (simp add: ppr_case_of_def block_pkt_def chain_coefs_def)
  fix w ps assume "(ppr_cluster G E conf)\<^sup>*\<^sup>* st (w, ps)"
  then have inv': "cluster_inv G ?C (w, ps)" using cluster_reachable[OF G E conf _ inv] by (simp add: C)
  then have out: "w_queues w requestorIP f = map (ppr_pkt G ?C ?k) [0..<pr_sent (ps ! ?k)]"
    and node: "node_inv G ?C ?k (ps ! ?k)" and len: "length ps = Suc ?k"
    unfolding cluster_inv_def by (simp_all add: C)
  have sent: "pr_sent (ps ! ?k) \<le> packetCnt conf"
    using node toSend_read[OF node] unfolding node_inv_def by (simp add: C)
  then have out': "w_queues w requestorIP f = map (block_pkt conf lost) [0..<pr_sent (ps ! ?k)]"
    using out pkt by simp
  moreover have "pr_sent (ps ! ?k) = packetCnt conf" if "list_all (ppr_finished conf) ps"
    using that len by (auto simp: list_all_length ppr_finished_def)
  ultimately show "(\<exists>n \<le> packetCnt conf. w_queues w requestorIP f = map (block_pkt conf lost) [0..<n]) \<and>
      (\<exists>w' ps'. (ppr_cluster G E conf)\<^sup>*\<^sup>* (w, ps) (w', ps') \<and> list_all (ppr_finished conf) ps') \<and>
      (list_all (ppr_finished conf) ps \<longrightarrow> w_queues w requestorIP f = map (block_pkt conf lost) [0..<packetCnt conf])"
    using sent cluster_can_finish[OF G E conf inv'] by (auto simp: C)
qed

section \<open>The recorded coefficients\<close>

lemma filter_other:
  fixes s :: "'a list"
  assumes "distinct s" and "i < length s"
  shows "filter (\<lambda>x. x \<noteq> s ! i) s = take i s @ drop (Suc i) s"
proof -
  have s: "s = take i s @ s ! i # drop (Suc i) s" by (rule id_take_nth_drop[OF assms(2)])
  then have "distinct (take i s @ s ! i # drop (Suc i) s)" using assms(1) by simp
  then have "s ! i \<notin> set (take i s)" "s ! i \<notin> set (drop (Suc i) s)" by auto
  moreover have "filter (\<lambda>x. x \<noteq> y) xs = xs" if "y \<notin> set xs" for y :: 'a and xs using that by (induction xs) auto
  ultimately have "filter (\<lambda>x. x \<noteq> s ! i) (take i s @ s ! i # drop (Suc i) s) = take i s @ drop (Suc i) s" by simp
  then show ?thesis using s by metis
qed

lemma map_nth_slice: "b \<le> length s \<Longrightarrow> map ((!) s) [a..<b] = take (b - a) (drop a s)"
  by (intro nth_equalityI) auto

lemma first_helpers_rows:
  assumes "distinct s" and "i < length s" and "k < length s"
  shows "first_helpers k s (s ! i) = map ((!) s) (helper_rows k i)"
  using assms by (auto simp: first_helpers_def filter_other helper_rows_def map_nth_slice min_def simp del: upt_Suc)

lemma coefs_recover:
  assumes G: "gf_complete G" and k: "k < length names" "length encMat = k * (length names - k)"
    and coefs: "coefs_ok (RSUtil G k (length names) encMat) k names f coef"
    and f: "f \<in> set names" "distinct names"
    and hs: "snd ` set hs = set (first_helpers k names f)" "distinct (map snd hs)"
    and code: "is_stripe G k (complete_enc_mat k (length names) encMat) data sz (map content names)"
      "left_invertible G k (rows_of k (complete_enc_mat k (length names) encMat) (helper_rows k (index_of f names)))"
  shows "recovers G coef hs content (content f)"
proof -
  let ?n = "length names" and ?i = "index_of f names" and ?c = "complete_enc_mat k (length names) encMat"
  define row where "row = jerasure_matrix_multiply G (drop (?i * k) ?c)
    (snd (snd (jerasure_invert_matrix G (rows_of k ?c (helper_rows k ?i)) k))) 1 k k k"
  have i: "?i < ?n" "names ! ?i = f" using nth_index_of[OF f(1)] by simp_all
  have rows: "\<forall>j \<in> set (helper_rows k ?i). j < ?n" "length (helper_rows k ?i) = k"
    using k(1) by (auto simp: set_helper_rows length_helper_rows)
  let ?h = "first_helpers k names f"
  have h: "?h = map ((!) names) (helper_rows k ?i)" using first_helpers_rows[OF f(2) i(1) k(1)] i(2) by simp
  then have len: "length ?h = k" using rows(2) by simp
  have dist: "distinct ?h" using f(2) by (simp add: first_helpers_def)
  have "rs_coefficient (RSUtil G k ?n encMat) ! ?i = row"
    unfolding RSUtil_coefficients[OF k] row_def using i(1) by simp
  then have coef: "om_get0 coef (?h ! j) = uint (row ! j)" if "j < k" for j
    using coefs that len by (simp add: coefs_ok_def om_get0_def)
  have bij: "bij_betw ((!) ?h) {..<k} (set ?h)" by (rule bij_betw_nth[OF dist]) (simp_all add: len)
  have "xs.F (\<lambda>b. gf_multiply G (word_of_int (om_get0 coef b)) (content b ! x)) (set ?h) = content f ! x" if x: "x < sz" for x
  proof -
    have "xs.F (\<lambda>b. gf_multiply G (word_of_int (om_get0 coef b)) (content b ! x)) (set ?h) =
        xor_sum (\<lambda>j. gf_multiply G (row ! j) (content (?h ! j) ! x)) k"
      by (subst xs.reindex_bij_betw[OF bij, symmetric]) (rule xs.cong, simp_all add: coef)
    also have "\<dots> = lin_comb G row (map ((!) (map content names)) (helper_rows k ?i)) sz ! x"
      using x rows nth_mem[of _ "helper_rows k ?i"] by (auto simp: lin_byte_def h intro!: xs.cong)
    also have "\<dots> = content f ! x"
      using gf_complete.decode_blocks[OF G length_complete_enc_mat[OF less_imp_le[OF k(1)] k(2)] rows(2,1) i(1) code(2) row_def code(1)]
        i by simp
    finally show ?thesis .
  qed
  moreover have "length (content f) = sz" using code(1) i by (auto simp: is_stripe_def)
  moreover have "0 \<le> om_get0 coef b \<and> om_get0 coef b < 256" if mem: "b \<in> set ?h" for b
  proof -
    obtain j where "j < length ?h" and b: "b = ?h ! j" using mem by (auto simp: in_set_conv_nth)
    then have j: "j < k" by (simp only: len)
    have "uint (row ! j) < 256" using uint_lt2p[of "row ! j"] by simp
    then show ?thesis using coef[OF j] by (simp add: b)
  qed
  ultimately show ?thesis using hs by (simp add: recovers_def byte_coefs_def)
qed

section \<open>From the request to the block\<close>

text \<open>A configuration with which the repair works.\<close>

definition ppr_setting :: "repair_config \<Rightarrow> ip_addr \<Rightarrow> string \<Rightarrow> (ip_addr \<times> string) list \<Rightarrow> bool" where
  "ppr_setting conf requestorIP f hs \<longleftrightarrow>
     sorted_wrt (<) (helpersIPs conf) \<and> length (helpersIPs conf) < 2 ^ 31 \<and> 0 < coCmdDistThreadNum conf \<and>
     distinct (map fst hs) \<and> fst ` set hs \<subseteq> set (helpersIPs conf) - {requestorIP} \<and> requestorIP \<in> set (helpersIPs conf) \<and>
     coordinatorIP conf \<notin> insert requestorIP (fst ` set hs) \<and>
     (\<forall>b \<in> snd ` set hs. b \<noteq> [] \<and> 4 * length hs + length f + length b \<le> 1000) \<and> 4 * length hs + length f \<le> 1000 \<and>
     \<not> rackAware conf \<and> ppr_size_ok conf \<and> f \<noteq> [] \<and> f \<noteq> ''dr_requests'' \<and> f \<noteq> ''dr_cmds'' \<and> (\<forall>i. f \<noteq> disQ i)"

lemma ppr_handler:
  assumes set: "ppr_setting conf (localIP client) f hs" and ctx: "init_ctx conf = Inr ip2Ctx"
    and m: "hdfs_stripe m names f hs" and "shuffles_ok HE" and req: "only_request conf client f w"
  defines "stripe \<equiv> stripe_by_ip (pipeline_order conf HE (localIP client) hs)" and "coef \<equiv> om_get [] (hm_coefficient m) f"
  shows "ppr_stripe conf ip2Ctx (localIP client) f stripe" and "set stripe = set hs" and "distinct (map snd stripe)"
    and "\<exists>qcs. list_all2 (is_ppr_cmd ip2Ctx (localIP client) f coef stripe) [0..<Suc (length stripe)] qcs \<and>
      ppr_requestHandler conf (hdfs_metadata G rs conf HE m) ip2Ctx w =
        Inr (rpush (coordinatorIP conf) f (put_word (localIP client)) (push_all (coordinatorIP conf) qcs (no_request conf w)))"
proof -
  let ?blks = "pipeline_order conf HE (localIP client) hs"
  have mset: "mset ?blks = mset hs" by (rule pipeline_order_mset[OF assms(4)])
  have "distinct (map fst hs)" using set by (simp add: ppr_setting_def)
  then have dist: "distinct (map fst ?blks)"
    using mset mset_eq_imp_distinct_iff[of "map fst ?blks" "map fst hs"] by simp
  note s = stripe_by_ip_ok[OF dist, folded stripe_def]
  show set_s: "set stripe = set hs" using s(1) mset_eq_setD[OF mset] by simp
  have len: "length stripe = length hs" using s(3) mset_eq_length[OF mset] by simp
  have "card (snd ` set hs) = length hs"
    using m distinct_card[of "map snd hs"] by (simp add: hdfs_stripe_def)
  then have "card (set (map snd stripe)) = length (map snd stripe)" using set_s len by simp
  then show "distinct (map snd stripe)" by (rule card_distinct)
  have nz: "0 < coCmdDistThreadNum conf" "sorted_wrt (<) (helpersIPs conf)" using set by (simp_all add: ppr_setting_def)
  note ctx' = init_ctx_ok[OF ctx nz]
  have "length ip2Ctx < 2 ^ 31" using set ctx'(1) by (metis length_map ppr_setting_def)
  then show ok: "ppr_stripe conf ip2Ctx (localIP client) f stripe"
    using set s(2) set_s len ctx' by (simp add: ppr_stripe_def ppr_setting_def)
  obtain r where r: "dr_request client [f] = Inr r" "blpop (coordinatorIP conf) ''dr_requests'' w = Inr (r, no_request conf w)"
    "get_word r 0 = Inr (localIP client)"
    using req by (rule only_requestE)
  obtain ip blks0 where known: "knows_blk (hdfs_metadata G rs conf HE m) f ip blks0" using hdfs_knows[OF m] by blast
  have "f \<noteq> []" "\<not> rackAware conf" using set by (simp_all add: ppr_setting_def)
  moreover obtain qcs where qcs: "ppr_commands ip2Ctx (localIP client) f coef stripe = Inr qcs"
    "list_all2 (is_ppr_cmd ip2Ctx (localIP client) f coef stripe) [0..<Suc (length stripe)] qcs"
    using ppr_commands_eq[OF ok] by blast
  moreover have "md_getStripeBlks (hdfs_metadata G rs conf HE m) f (localIP client) = Inr ?blks"
    "md_getCoefficient (hdfs_metadata G rs conf HE m) f None = Inr coef"
    using hdfs_helpers[OF m] calculation(2) by (simp_all add: hdfs_metadata_def hdfs_getCoefficient_def coef_def)
  ultimately show "\<exists>qcs. list_all2 (is_ppr_cmd ip2Ctx (localIP client) f coef stripe) [0..<Suc (length stripe)] qcs \<and>
      ppr_requestHandler conf (hdfs_metadata G rs conf HE m) ip2Ctx w =
        Inr (rpush (coordinatorIP conf) f (put_word (localIP client)) (push_all (coordinatorIP conf) qcs (no_request conf w)))"
    using r parse_single_request[OF r(1) known, of conf]
    by (intro exI[of _ qcs]) (simp add: ppr_requestHandler_def stripe_def Let_def push_all_def)
qed

text \<open>The nodes as the source of the client.\<close>

lemma ppr_served:
  assumes rep: "ppr_repaired G E conf ip f lost st" and "ppr_for f (snd st)"
    and "w_queues (fst st) (coordinatorIP conf) f = [put_word ip]"
    and same: "same_cluster conf client" and ok: "client_ok client ip" and "packetCnt conf * packetSize conf \<le> length lost"
  shows "served (ppr_cluster G E conf) client f (take (packetCnt conf * packetSize conf) lost) st"
proof -
  have "delivers (ppr_cluster G E conf) (list_all (ppr_finished conf)) ip f (map (block_pkt conf lost) [0..<packetCnt conf]) st"
    using rep unfolding ppr_repaired_def by (intro deliversI) blast
  then show ?thesis
    using ppr_src.client_served_block[OF ok assms(2), of G E conf "list_all (ppr_finished conf)" 0 lost] assms(3,4,6)
    unfolding block_pkt_def by (simp add: same_cluster_def)
qed

lemma ppr_repair:
  assumes G: "gf_complete G" and E: "io_ok E" and "shuffles_ok HE"
    and set: "ppr_setting conf (localIP client) f hs" and ctx: "init_ctx conf = Inr ip2Ctx"
    and m: "hdfs_stripe m names f hs" and rec: "recovers G (om_get [] (hm_coefficient m) f) hs content (content f)"
    and "packetCnt conf * packetSize conf \<le> length (content f)"
    and req: "only_request conf client f w" and "no_cmds conf (localIP client # map fst hs) w"
    and world: "ppr_world conf (localIP client) f hs content w"
    and same: "same_cluster conf client" and none: "w_queues w (coordinatorIP conf) f = []"
  shows "\<exists>stripe w1. set stripe = set hs \<and>
    ppr_requestHandler conf (hdfs_metadata G rs conf HE m) ip2Ctx w = Inr w1 \<and>
    w_queues w1 (coordinatorIP conf) f = [put_word (localIP client)] \<and>
    (\<exists>w2. (dist_step conf ip2Ctx)\<^sup>*\<^sup>* w1 w2 \<and> waiting conf w2 = 0) \<and>
    (\<forall>w2. (dist_step conf ip2Ctx)\<^sup>*\<^sup>* w1 w2 \<and> waiting conf w2 = 0 \<longrightarrow>
      (\<exists>st. start_all (take_cmd (ppr_start conf)) (map fst stripe @ [localIP client]) w2 = Inr st \<and>
        ppr_repaired G E conf (localIP client) f (content f) st \<and>
        served (ppr_cluster G E conf) client f (take (packetCnt conf * packetSize conf) (content f)) st))"
proof -
  define stripe where "stripe = stripe_by_ip (pipeline_order conf HE (localIP client) hs)"
  let ?coef = "om_get [] (hm_coefficient m) f" and ?ips = "ppr_ips (localIP client) stripe"
  note h = ppr_handler[OF set ctx m assms(3) req, folded stripe_def]
  obtain qcs where qcs: "list_all2 (is_ppr_cmd ip2Ctx (localIP client) f ?coef stripe) [0..<Suc (length stripe)] qcs"
    and run: "ppr_requestHandler conf (hdfs_metadata G rs conf HE m) ip2Ctx w =
      Inr (rpush (coordinatorIP conf) f (put_word (localIP client)) (push_all (coordinatorIP conf) qcs (no_request conf w)))"
    using h(4) by blast
  define w1 where "w1 = rpush (coordinatorIP conf) f (put_word (localIP client)) (push_all (coordinatorIP conf) qcs (no_request conf w))"
  have f: "f \<noteq> ''dr_requests''" "f \<noteq> ''dr_cmds''" "\<And>i. f \<noteq> disQ i" and size: "ppr_size_ok conf"
    and coord: "coordinatorIP conf \<notin> set ?ips"
    using set h(2) by (auto simp: ppr_setting_def)
  have key: "ppr_key f c \<noteq> ''dr_cmds''" for c by (simp add: ppr_key_def)
  have dispatch: "dispatch_ok conf ip2Ctx ?ips qcs" by (rule ppr_dispatch[OF h(1) qcs])
  have idle: "no_cmds conf ?ips (no_request conf w)"
    using assms(10) coord h(2) by (auto simp: no_cmds_def no_request_def)
  have rec': "recovers G ?coef stripe content (content f)" and coefs: "byte_coefs ?coef stripe"
    using rec h(2,3) by (simp_all add: recovers_def byte_coefs_def)
  have reply: "w_queues w1 (coordinatorIP conf) f = [put_word (localIP client)]"
    using f none dispatch_reply[OF dispatch] by (simp add: w1_def no_request_queues)
  have "localIP client \<in> set (helpersIPs conf)" "sorted_wrt (<) (helpersIPs conf)" using set by (simp_all add: ppr_setting_def)
  then have client: "client_ok client (localIP client)"
    using coord by (intro client_okI[OF same]) auto
  have "\<exists>st. start_all (take_cmd (ppr_start conf)) ?ips w2 = Inr st \<and> ppr_repaired G E conf (localIP client) f (content f) st \<and>
      served (ppr_cluster G E conf) client f (take (packetCnt conf * packetSize conf) (content f)) st"
    if steps: "(dist_step conf ip2Ctx)\<^sup>*\<^sup>* w1 w2" "waiting conf w2 = 0" for w2
  proof -
    note sent = dispatch_delivered(2)[OF dispatch idle coord f(3) w1_def steps]
    have "ppr_start conf (?ips ! n) (drop 4 (snd (qcs ! n))) = Inr (ppr_node conf (localIP client) f ?coef stripe n)"
      if "n < length ?ips" for n
      using ppr_node_starts[OF h(1) coefs, of n "qcs ! n"] list_all2_nthD[OF qcs, of n] that by (simp del: upt_Suc)
    moreover have "distinct ?ips" using dispatch by (simp add: dispatch_ok_def)
    ultimately obtain w3 where w3: "start_all (take_cmd (ppr_start conf)) ?ips w2 =
        Inr (w3, map (ppr_node conf (localIP client) f ?coef stripe) [0..<Suc (length stripe)])"
      "w_files w3 = w_files w2" "\<And>ip key. key \<noteq> ''dr_cmds'' \<Longrightarrow> w_queues w3 ip key = w_queues w2 ip key"
      using start_all_eq[of ?ips w2 "\<lambda>n. drop 4 (snd (qcs ! n))" "ppr_start conf" "ppr_node conf (localIP client) f ?coef stripe"] sent
      by (auto simp del: upt_Suc)
    have "w_queues w3 ip key = w_queues w ip key" if "ip \<in> set ?ips" "key \<noteq> ''dr_cmds''" for ip key
    proof -
      have "ip \<noteq> coordinatorIP conf" using that(1) coord by metis
      then show ?thesis using w3(3)[OF that(2)] sent that by (metis no_request_queues(2))
    qed
    moreover have "w_files w3 = w_files w" using w3(2) sent by (simp add: no_request_queues)
    ultimately have "ppr_world conf (localIP client) f stripe content w3"
      using world f(2) key h(2) by (simp add: ppr_world_def)
    then have repaired: "ppr_repaired G E conf (localIP client) f (content f)
        (w3, map (ppr_node conf (localIP client) f ?coef stripe) [0..<Suc (length stripe)])"
      using cluster_repaired[OF G E ppr_case_ok[OF h(1) size] ppr_starts[OF h(1) coefs] rec' assms(8)] by blast
    moreover have "w_queues w3 (coordinatorIP conf) f = [put_word (localIP client)]"
      using w3(3)[OF f(2)] dist_steps_others[OF steps(1) f(2)] f(3) reply by metis
    moreover have "ppr_for f (map (ppr_node conf (localIP client) f ?coef stripe) [0..<Suc (length stripe)])"
      by (auto simp: ppr_for_def list_all_iff ppr_node_def Let_def simp del: upt_Suc)
    ultimately have "served (ppr_cluster G E conf) client f (take (packetCnt conf * packetSize conf) (content f))
        (w3, map (ppr_node conf (localIP client) f ?coef stripe) [0..<Suc (length stripe)])"
      using assms(8) by (intro ppr_served[OF _ _ _ same client]) simp_all
    with w3(1) repaired show ?thesis by blast
  qed
  moreover have "\<exists>w2. (dist_step conf ip2Ctx)\<^sup>*\<^sup>* w1 w2 \<and> waiting conf w2 = 0"
    using dist_can_finish[OF dispatch_delivered(1)[OF dispatch idle coord _ w1_def]] f(3) dispatch
    by (auto simp: dispatch_ok_def)
  ultimately show ?thesis using run h(2) reply unfolding w1_def by blast
qed

text \<open>
  C7. The partial parallel repair of a lost block, end to end. The metadata base is built from a consistent stripe
  store and the reports of the helpers; a client asks for a block of a stripe that is a codeword of an
  invertible code. The handler replies that the client's own node has the block and sends the commands to the helpers and to it; the
  distributors can deliver them; and when they have, in whatever order, every node starts, and under any
  interleaving of the threads of all nodes the client's queue holds a prefix of the packets of the lost block, all of
  them when the nodes are done, which they can always reach. A client that runs next to them, with its own threads, writes a
  prefix of the lost block to its file at any time, can always finish, and then the file has all its bytes.
\<close>

theorem hdfs_ppr_repair:
  assumes "gf_complete G" and "io_ok E" and "shuffles_ok HE"
    and "0 < ecK conf" and "ecK conf < length names" and "length encMat = ecK conf * (length names - ecK conf)"
    and "rs = RSUtil G (ecK conf) (length names) encMat"
    and "store_ok conf rs ss files" and "names \<in> set ss" and "f \<in> set names"
    and "w_queues w0 (coordinatorIP conf) ''blk_init'' = map report_msg reps" and "reports_ok ss loc reps"
    and "hs = sorted_list_of_set ((\<lambda>b. (loc b, b)) ` set (first_helpers (ecK conf) names f))"
    and "ppr_setting conf (localIP client) f hs" and "init_ctx conf = Inr ip2Ctx"
    and "is_stripe G (ecK conf) (complete_enc_mat (ecK conf) (length names) encMat) data sz (map content names)"
    and "left_invertible G (ecK conf) (rows_of (ecK conf) (complete_enc_mat (ecK conf) (length names) encMat)
      (helper_rows (ecK conf) (index_of f names)))"
    and "packetCnt conf * packetSize conf \<le> sz"
    and "only_request conf client f w" and "no_cmds conf (localIP client # map fst hs) w"
    and "ppr_world conf (localIP client) f hs content w"
    and "same_cluster conf client" and "w_queues w (coordinatorIP conf) f = []"
  shows "\<exists>m w0'. HDFS_MetadataBase conf rs files w0 = Inr (m, w0') \<and>
    (\<exists>stripe w1. set stripe = set hs \<and>
      ppr_requestHandler conf (hdfs_metadata G rs conf HE m) ip2Ctx w = Inr w1 \<and>
      w_queues w1 (coordinatorIP conf) f = [put_word (localIP client)] \<and>
      (\<exists>w2. (dist_step conf ip2Ctx)\<^sup>*\<^sup>* w1 w2 \<and> waiting conf w2 = 0) \<and>
      (\<forall>w2. (dist_step conf ip2Ctx)\<^sup>*\<^sup>* w1 w2 \<and> waiting conf w2 = 0 \<longrightarrow>
        (\<exists>st. start_all (take_cmd (ppr_start conf)) (map fst stripe @ [localIP client]) w2 = Inr st \<and>
          ppr_repaired G E conf (localIP client) f (content f) st \<and>
          served (ppr_cluster G E conf) client f (take (packetCnt conf * packetSize conf) (content f)) st)))"
proof -
  have "f \<in> set (concat ss)" using assms(9,10) by auto
  then have "concat ss \<noteq> []" by (metis empty_iff list.set(1))
  then obtain m w0' where m: "HDFS_MetadataBase conf rs files w0 = Inr (m, w0')"
    "\<forall>s f. s \<in> set ss \<and> f \<in> set s \<and> 2 \<le> length s \<longrightarrow>
      hdfs_stripe m s f (sorted_list_of_set ((\<lambda>b. (loc b, b)) ` set (first_helpers (ecK conf) s f))) \<and>
      coefs_ok rs (ecK conf) s f (om_get [] (hm_coefficient m) f)"
    using init_metadata[OF assms(8) _ assms(4,11,12)] by blast
  then have stripe: "hdfs_stripe m names f hs" "coefs_ok rs (ecK conf) names f (om_get [] (hm_coefficient m) f)"
    using assms(4,5,9,10,13) by auto
  have hs: "snd ` set hs = set (first_helpers (ecK conf) names f)" by (simp add: assms(13) image_image)
  have names: "distinct names" "distinct (map snd hs)" using stripe(1) by (simp_all add: hdfs_stripe_def stripe_known_def)
  have rec: "recovers G (om_get [] (hm_coefficient m) f) hs content (content f)"
    by (rule coefs_recover[OF assms(1,5,6) stripe(2)[unfolded assms(7)] assms(10) names(1) hs names(2) assms(16,17)])
  have "length (content f) = sz" using assms(10,16) by (auto simp: is_stripe_def in_set_conv_nth)
  then show ?thesis
    using m(1) ppr_repair[OF assms(1-3,14,15) stripe(1) rec _ assms(19-23)] assms(18) by blast
qed

section \<open>An example\<close>

text \<open>The stripe of the other examples; client 13 asks for \<open>c\<close>, which is lost.\<close>

lemma ppr_setting_sample: "ppr_setting repair_conf 13 ''c'' repair_hs"
  by (simp add: ppr_setting_def ppr_size_ok_def repair_conf_def sample_repair_conf_def disQ_def)

lemma ppr_world_sample:
  "no_cmds repair_conf (13 # map fst repair_hs) repair_world" "ppr_world repair_conf 13 ''c'' repair_hs repair_content repair_world"
  by (simp_all add: no_cmds_def ppr_world_def repair_world_def repair_content_def repair_conf_def sample_repair_conf_def disQ_def ppr_key_def)

theorem hdfs_ppr_repair_witness:
  "\<exists>m w0' stripe w1. HDFS_MetadataBase repair_conf store_rs store_files
      (repair_world\<lparr>w_queues := (\<lambda>ip key. if ip = 10 \<and> key = ''blk_init'' then map report_msg store_reports else [])\<rparr>) = Inr (m, w0') \<and>
    set stripe = set repair_hs \<and>
    ppr_requestHandler repair_conf (hdfs_metadata gf256 store_rs repair_conf keep_order m)
      [(11, disQ 0), (12, disQ 0), (13, disQ 1)] repair_world = Inr w1 \<and>
    w_queues w1 10 ''c'' = [put_word 13] \<and>
    (\<exists>w2 st. (dist_step repair_conf [(11, disQ 0), (12, disQ 0), (13, disQ 1)])\<^sup>*\<^sup>* w1 w2 \<and>
      start_all (take_cmd (ppr_start repair_conf)) (map fst stripe @ [13]) w2 = Inr st \<and>
      ppr_repaired gf256 repair_env repair_conf 13 ''c'' (repair_content ''c'') st \<and>
      served (ppr_cluster gf256 repair_env repair_conf) repair_conf ''c'' (repair_content ''c'') st)"
proof -
  let ?names = "[''a'', ''b'', ''c'']" and ?ctx = "[(11, disQ 0), (12, disQ 0), (13, disQ 1)]"
  let ?w0 = "repair_world\<lparr>w_queues := (\<lambda>ip key. if ip = 10 \<and> key = ''blk_init'' then map report_msg store_reports else [])\<rparr>"
  have conf: "ecK repair_conf = 2" "coordinatorIP repair_conf = 10" "localIP repair_conf = 13"
    "packetCnt repair_conf * packetSize repair_conf \<le> 16"
    by (simp_all add: repair_conf_def sample_repair_conf_def)
  have hs: "sorted_list_of_set ((\<lambda>b. (store_loc b, b)) ` set (first_helpers 2 ?names ''c'')) = repair_hs"
    by (simp add: first_helpers_def store_loc_def)
  have rep: "reports_ok [?names] store_loc store_reports"
    by (simp add: reports_ok_def store_reports_def store_loc_def)
  have idx: "helper_rows 2 (index_of ''c'' ?names) = [0, 1]" by (simp add: index_of_def helper_rows_def upt_rec)
  have inv: "left_invertible gf256 2 (rows_of 2 (complete_enc_mat 2 3 [1, 2]) [0, 1])"
    using sample_invertible by (simp only: sample_complete sample_rows)
  have env: "io_ok repair_env" "shuffles_ok keep_order" and none: "w_queues repair_world 10 ''c'' = []"
    by (simp_all add: io_ok_def repair_env_def shuffles_ok_def keep_order_def repair_world_def)
  have rs: "0 < ecK repair_conf" "ecK repair_conf < length ?names" "length [1, 2 :: byte] = ecK repair_conf * (length ?names - ecK repair_conf)"
    "store_rs = RSUtil gf256 (ecK repair_conf) (length ?names) [1, 2]"
    by (simp_all add: conf(1) numeral_3_eq_3)
  have store: "?names \<in> set [?names]" "''c'' \<in> set ?names"
    "w_queues ?w0 (coordinatorIP repair_conf) ''blk_init'' = map report_msg store_reports"
    "repair_hs = sorted_list_of_set ((\<lambda>b. (store_loc b, b)) ` set (first_helpers (ecK repair_conf) ?names ''c''))"
    unfolding conf(1) hs by (simp_all add: conf(2))
  have code: "is_stripe gf256 (ecK repair_conf) (complete_enc_mat (ecK repair_conf) (length ?names) [1, 2])
      [replicate 16 3, replicate 16 5] 16 (map repair_content ?names)"
    "left_invertible gf256 (ecK repair_conf) (rows_of (ecK repair_conf) (complete_enc_mat (ecK repair_conf) (length ?names) [1, 2])
      (helper_rows (ecK repair_conf) (index_of ''c'' ?names)))"
    using repair_code inv by (simp_all add: conf(1) idx numeral_3_eq_3)
  have all: "take (packetCnt repair_conf * packetSize repair_conf) (repair_content ''c'') = repair_content ''c''"
    by (simp add: repair_conf_def sample_repair_conf_def repair_content_def)
  note result = hdfs_ppr_repair[OF gf256.gf_complete_axioms env rs store_sample store(1-3) rep store(4)
      ppr_setting_sample[folded conf(3)] repair_ctx code conf(4) repair_worlds(1) ppr_world_sample[folded conf(3)]
      repair_client(1) none[folded conf(2)]]
  obtain m w0' stripe w1 w2 where "HDFS_MetadataBase repair_conf store_rs store_files ?w0 = Inr (m, w0')"
    "set stripe = set repair_hs"
    "ppr_requestHandler repair_conf (hdfs_metadata gf256 store_rs repair_conf keep_order m) ?ctx repair_world = Inr w1"
    "w_queues w1 10 ''c'' = [put_word 13]" "(dist_step repair_conf ?ctx)\<^sup>*\<^sup>* w1 w2" "waiting repair_conf w2 = 0"
    "\<forall>w2. (dist_step repair_conf ?ctx)\<^sup>*\<^sup>* w1 w2 \<and> waiting repair_conf w2 = 0 \<longrightarrow>
      (\<exists>st. start_all (take_cmd (ppr_start repair_conf)) (map fst stripe @ [13]) w2 = Inr st \<and>
        ppr_repaired gf256 repair_env repair_conf 13 ''c'' (repair_content ''c'') st \<and>
        served (ppr_cluster gf256 repair_env repair_conf) repair_conf ''c'' (repair_content ''c'') st)"
    using result unfolding conf(2,3) all by auto
  then show ?thesis by blast
qed

end
