(* ===== verification/Client_Faults.thy ===== *)
theory Client_Faults
  imports Client_Stream
begin

text \<open>
  What can go wrong in the client (\<open>ECPipeInputStream.cc\<close>) when it repairs several blocks with the cyclic scheme: after
  its receivers have ended, \<open>cyclCollector\<close> sets the number of complete packets to that of one block.
\<close>

text \<open>The receivers have ended and the forward worker is in the packets of the first block.\<close>

definition joined_early :: "repair_config \<Rightarrow> client \<Rightarrow> bool" where
  "joined_early conf c \<longleftrightarrow> cl_replied c \<and> cl_joined c \<and> 2 \<le> cl_nj c \<and> cl_complete c = packetCnt conf \<and>
     cl_processed c \<le> packetCnt conf \<and> (cl_fpc c = FWork \<longrightarrow> cl_processed c < packetCnt conf) \<and>
     list_all (\<lambda>(_, (n, p)). n = 0 \<and> p = RGet) (cl_receivers c)"

lemma forward_fields:
  assumes "forward conf w c = Inr (w', c')"
  shows "cl_processed c' = Suc (cl_processed c)" and "cl_fpc c' = FCheck" and "cl_replied c' = cl_replied c"
    and "cl_joined c' = cl_joined c" and "cl_nj c' = cl_nj c" and "cl_complete c' = cl_complete c"
    and "cl_receivers c' = cl_receivers c"
  using assms by (auto simp: forward_def Let_def put_contents_def res_simps split: option.splits if_splits prod.splits)

lemma joined_early_step:
  assumes "client_step conf (w, c) (w', c')" and "cycl_policy conf" and inv: "joined_early conf c"
  shows "joined_early conf c'"
  using assms(1)
proof cases
  case Forward
  from \<open>forward_step conf (w, c) (w', c')\<close> show ?thesis
    by cases (use inv forward_fields in \<open>auto simp: joined_early_def\<close>)
next
  case Collector
  have ended: "snd (cl_receivers c ! r) = (0, RGet)" if "r < length (cl_receivers c)" for r
    using inv that by (auto simp: joined_early_def list_all_length case_prod_beta prod_eq_iff)
  from \<open>collector_step conf (w, c) (w', c')\<close> show ?thesis
    by cases (use assms(2) inv ended in \<open>force simp: joined_early_def\<close>)+
qed (use inv in \<open>simp add: joined_early_def\<close>)

text \<open>
  C39. A client that repairs at least two blocks with the cyclic scheme hangs when its receivers end before the forward worker has got
  through as many packets as one block has: \<open>cyclCollector\<close> then sets \<open>_completePacketIndex\<close> to the number of packets of one block,
  although the forward worker counts the packets of all blocks, and no later step of the client lets it finish, spurious wake-ups included.
\<close>

theorem cycl_client_hangs:
  assumes "cycl_policy conf" and "cl_replied c" and "2 \<le> cl_nj c" and "cl_processed c < packetCnt conf"
    and "list_all (\<lambda>(_, (n, p)). n = 0 \<and> p = RGet) (cl_receivers c)"
    and "(client_step conf)\<^sup>*\<^sup>* (w, cycl_join conf c) (w', c')"
  shows "\<not> client_done conf c' \<and> cl_processed c' \<le> packetCnt conf"
proof -
  have "joined_early conf (cycl_join conf c)"
    using assms(2-5) by (simp add: joined_early_def cycl_join_def notify_forward_def)
  with assms(6) have "joined_early conf c'"
    by (induction rule: rtranclp_induct2) (auto intro: joined_early_step assms(1))
  moreover have "packetCnt conf * 1 < packetCnt conf * 2" using assms(4) by simp
  moreover have "packetCnt conf * 2 \<le> packetCnt conf * cl_nj c'"
    using \<open>joined_early conf c'\<close> by (intro mult_le_mono2) (simp add: joined_early_def)
  ultimately show ?thesis by (auto simp: joined_early_def client_done_def)
qed

text \<open>Two blocks of one packet: both packets have come, and the forward worker, which starts late, writes one of them.\<close>

definition cycl_conf :: repair_config where
  "cycl_conf = sample_repair_conf\<lparr>ECPipePolicy := ''cyclic'', packetCnt := 1, packetSize := 1\<rparr>"

definition cycl_world :: world where
  "cycl_world = \<lparr>w_queues = (\<lambda>_ _. []), w_files = (\<lambda>_ _. None)\<rparr>"

definition cycl_client :: client where
  "cycl_client =
     \<lparr>cl_lostFiles = [(''a'', 11), (''b'', 12)], cl_nj = 2, cl_pipePullCtx = [], cl_cyclPullCtx = [[Some 13], [Some 13]],
      cl_contents = (\<lambda>_ j. Some [if j = 0 then 1 else 2]), cl_collected = 0, cl_complete = 2, cl_processed = 0, cl_fpc = FCheck,
      cl_out = [], cl_receivers = [((0, 0), (0, RGet)), ((0, 1), (0, RGet))], cl_indexCompleted = (\<lambda>_ _. True),
      cl_joined = False, cl_replied = True\<rparr>"

theorem cycl_client_hangs_witness:
  "\<exists>c'. (client_step cycl_conf)\<^sup>*\<^sup>* (cycl_world, cycl_join cycl_conf cycl_client) (cycl_world, c') \<and> cl_out c' = [1] \<and> \<not> client_done cycl_conf c'"
proof -
  let ?c = "cycl_join cycl_conf cycl_client"
  let ?c1 = "?c\<lparr>cl_fpc := FWork\<rparr>"
  obtain c2 where c2: "forward cycl_conf cycl_world ?c1 = Inr (cycl_world, c2)" "cl_out c2 = [1]"
    by (simp add: forward_def cycl_join_def cycl_client_def notify_forward_def put_contents_def)
  have "client_step cycl_conf (cycl_world, ?c) (cycl_world, ?c1)"
    using forward_step.Check[of ?c cycl_conf cycl_world]
    by (intro client_step.Forward) (simp_all add: cycl_join_def cycl_client_def notify_forward_def cycl_conf_def)
  moreover have "client_step cycl_conf (cycl_world, ?c1) (cycl_world, c2)"
    using c2(1) by (intro client_step.Forward forward_step.Work) (simp_all add: cycl_join_def cycl_client_def notify_forward_def)
  ultimately have run: "(client_step cycl_conf)\<^sup>*\<^sup>* (cycl_world, ?c) (cycl_world, c2)" by (meson rtranclp.rtrancl_into_rtrancl r_into_rtranclp)
  have "cycl_policy cycl_conf" "cl_replied cycl_client" "2 \<le> cl_nj cycl_client" "cl_processed cycl_client < packetCnt cycl_conf"
    "list_all (\<lambda>(_, (n, p)). n = 0 \<and> p = RGet) (cl_receivers cycl_client)"
    by (simp_all add: cycl_policy_def cycl_conf_def sample_repair_conf_def cycl_client_def)
  from cycl_client_hangs[OF this run] show ?thesis using run c2(2) by blast
qed

end
