(* ===== verification/Conv_Worker.thy ===== *)
theory Conv_Worker
  imports Ppr_Worker
begin

text \<open>
  \<open>ConvDRWorker.cc\<close> with \<open>CONV_OPT\<close> set, as \<open>DROpt.hh\<close> has it: the conventional repair. A helper reads the packets of its block
  (\<open>readWorker\<close>), passes them on (\<open>requestorCompletion\<close>) and pushes them to the requestor (\<open>sendWorker\<close>). The requestor runs one
  \<open>readThread\<close> for every helper, multiplies and adds the packets for every lost block (\<open>requestorMulCompletion\<close>), and pushes
  the results to its own server (\<open>sendMulWorker\<close>). A step is a round of one of the threads; the waits on the condition variables are
  the conditions of the loops around them.
\<close>

section \<open>Commands\<close>

text \<open>\<open>ConvMulJob\<close>: a block to repair, with the coefficients of the helpers.\<close>

record conv_job =
  cj_nextIP :: ip_addr
  cj_coefs :: "int list"
  cj_lostBlkName :: string

record conv_cmd =
  cv_ecK :: int
  cv_requestorIP :: ip_addr
  cv_coefficient :: int
  cv_id :: int
  cv_ips :: "ip_addr list"
  cv_lostBlkName :: string
  cv_localBlkName :: string
  cv_jobs :: "conv_job list"

fun parse_jobs :: "byte list \<Rightarrow> int \<Rightarrow> nat \<Rightarrow> int \<Rightarrow> conv_job list res" where
  "parse_jobs cmd k 0 cmdBase = Inr []"
| "parse_jobs cmd k (Suc n) cmdBase =
     bindE (get_word cmd cmdBase) (\<lambda>passIP.
     bindE (get_int cmd (cmdBase + 4)) (\<lambda>lostFileLen.
     bindE (get_name cmd (cmdBase + 8) lostFileLen) (\<lambda>lostFile.
     bindE (mapE (\<lambda>j. get_word cmd (cmdBase + 8 + lostFileLen + 4 * int j)) [0..<nat k]) (\<lambda>coefs.
     bindE (parse_jobs cmd k n (cmdBase + 8 + lostFileLen + 4 * k)) (\<lambda>jobs.
     Inr (\<lparr>cj_nextIP = passIP, cj_coefs = map uint coefs, cj_lostBlkName = lostFile\<rparr> # jobs))))))"

text \<open>
  A negative number in the third field marks the command of the requestor. \<open>old\<close> is \<open>convMulJobs\<close>, which a command for a helper
  leaves as the last command for a requestor has set it.
\<close>

definition parse_conv_cmd :: "conv_job list \<Rightarrow> byte list \<Rightarrow> conv_cmd res" where
  "parse_conv_cmd old cmd =
     bindE (get_int cmd 0) (\<lambda>k.
     bindE (get_word cmd 4) (\<lambda>requestorIP.
     bindE (get_int cmd 8) (\<lambda>coefficient.
     bindE (get_word cmd 12) (\<lambda>nextIP.
     bindE (get_int cmd 16) (\<lambda>ident.
     if coefficient < 0
     then
       bindE (guardE (0 \<le> k) Out_Of_Bounds) (\<lambda>_.
       bindE (mapE (\<lambda>i. get_word cmd (20 + 4 * int i)) [0..<nat k]) (\<lambda>ips.
       bindE (get_word cmd (20 + 4 * k)) (\<lambda>lostBlkNameLen.
       bindE (get_name cmd (24 + 4 * k) (uint lostBlkNameLen)) (\<lambda>lostBlkName.
       bindE (parse_jobs cmd k (unat nextIP) (24 + 4 * k + uint lostBlkNameLen)) (\<lambda>jobs.
       Inr \<lparr>cv_ecK = k, cv_requestorIP = requestorIP, cv_coefficient = coefficient, cv_id = k, cv_ips = ips,
         cv_lostBlkName = lostBlkName, cv_localBlkName = [], cv_jobs = jobs\<rparr>)))))
     else
       bindE (get_word cmd 20) (\<lambda>lostBlkNameLen.
       bindE (get_name cmd 24 (uint lostBlkNameLen)) (\<lambda>lostBlkName.
       bindE (get_word cmd (24 + uint lostBlkNameLen)) (\<lambda>localBlkNameLen.
       bindE (get_name cmd (28 + uint lostBlkNameLen) (uint localBlkNameLen)) (\<lambda>localBlkName.
       Inr \<lparr>cv_ecK = k, cv_requestorIP = requestorIP, cv_coefficient = coefficient, cv_id = ident, cv_ips = [],
         cv_lostBlkName = lostBlkName, cv_localBlkName = localBlkName, cv_jobs = old\<rparr>)))))))))"

section \<open>State\<close>

text \<open>
  \<open>ch_disk\<close> are the packets read so far, whose flags \<open>_diskFlag\<close> are set; \<open>ch_toSend\<close> is \<open>_waitingToSend\<close> and
  counts the rounds of \<open>requestorCompletion\<close>; \<open>ch_sent\<close> counts those of \<open>sendWorker\<close>.
\<close>

record conv_helper =
  ch_ip :: ip_addr
  ch_cmd :: conv_cmd
  ch_ctx :: "ip_addr option"
  ch_disk :: "byte list list"
  ch_toSend :: nat
  ch_sent :: nat

text \<open>
  \<open>cr_pkts\<close> is \<open>_diskPkts3\<close>: for every packet the buffers of the helpers, then those of the jobs. \<open>cr_idx\<close> is
  \<open>_waitingToPullerNum\<close>, \<open>cr_toPull\<close> is \<open>_waitingToPull\<close>, and \<open>cr_toSend\<close> is \<open>_waitingToSend\<close>, which counts the
  rounds of the inner loop of \<open>requestorMulCompletion\<close>. \<open>cr_lost\<close> is the name of the block of this requestor.
\<close>

record conv_req =
  cr_ip :: ip_addr
  cr_cmd :: conv_cmd
  cr_lost :: string
  cr_pkts :: "byte list list list"
  cr_idx :: "nat list"
  cr_toPull :: nat
  cr_toSend :: nat
  cr_sent :: nat

datatype conv_node = Helper conv_helper | Requestor conv_req

text \<open>The job of this requestor, as \<open>fetchMulWorker\<close> looks it up; without one the index is not initialised.\<close>

definition req_job :: "ip_addr \<Rightarrow> conv_job list \<Rightarrow> conv_job res" where
  "req_job ip jobs =
     (case filter (\<lambda>j. cj_nextIP j = ip \<or> length jobs = 1) jobs of [] \<Rightarrow> Inl Out_Of_Bounds | j # _ \<Rightarrow> Inr j)"

definition helper_start :: "repair_config \<Rightarrow> ip_addr \<Rightarrow> conv_cmd \<Rightarrow> conv_helper res" where
  "helper_start conf ip c =
     bindE (findCtx (sort (helpersIPs conf)) (cv_requestorIP c)) (\<lambda>ctx.
     Inr \<lparr>ch_ip = ip, ch_cmd = c, ch_ctx = ctx, ch_disk = [], ch_toSend = 0, ch_sent = 0\<rparr>)"

definition req_start :: "repair_config \<Rightarrow> ip_addr \<Rightarrow> conv_cmd \<Rightarrow> conv_req res" where
  "req_start conf ip c =
     bindE (req_job ip (cv_jobs c)) (\<lambda>j.
     Inr \<lparr>cr_ip = ip, cr_cmd = c, cr_lost = cj_lostBlkName j,
       cr_pkts = replicate (packetCnt conf) (replicate (nat (cv_ecK c) + length (cv_jobs c)) (replicate (packetSize conf) 0)),
       cr_idx = replicate (nat (cv_ecK c)) 0, cr_toPull = 0, cr_toSend = 0, cr_sent = 0\<rparr>)"

definition conv_start :: "repair_config \<Rightarrow> conv_job list \<Rightarrow> ip_addr \<Rightarrow> byte list \<Rightarrow> conv_node res" where
  "conv_start conf old ip cmd =
     bindE (parse_conv_cmd old cmd) (\<lambda>c.
     if 0 < cv_coefficient c then bindE (helper_start conf ip c) (\<lambda>p. Inr (Helper p))
     else bindE (req_start conf ip c) (\<lambda>r. Inr (Requestor r)))"

section \<open>The threads of a helper\<close>

text \<open>A round of \<open>readWorker\<close>; the position is an \<open>int\<close>.\<close>

definition conv_read :: "env \<Rightarrow> repair_config \<Rightarrow> world \<Rightarrow> conv_helper \<Rightarrow> conv_helper res" where
  "conv_read E conf w p =
     (case w_files w (ch_ip p) (cv_localBlkName (ch_cmd p)) of
        None \<Rightarrow> Inl (Exit 1)
      | Some fdata \<Rightarrow>
          let i = length (ch_disk p);
              base = sint (word_of_int (int (packetSkipSize conf + i * packetSize conf)) :: 32 word)
          in
          bindE (guardE (0 \<le> base) (Exit 1)) (\<lambda>_.
          bindE (read_loop E fdata (nat base) (packetSize conf) 0 (malloc E (int (packetSize conf)))) (\<lambda>buf.
          bindE (pktOutput i (packetCnt conf)) (\<lambda>_.
          Inr (p\<lparr>ch_disk := ch_disk p @ [buf]\<rparr>)))))"

text \<open>
  A round of \<open>requestorCompletion\<close>: a helper waits for the packet to be read. With the number of the requestor, which no
  helper gets, it would take one packet of every helper and add them.
\<close>

definition conv_ready :: "conv_helper \<Rightarrow> bool" where
  "conv_ready p \<longleftrightarrow> cv_id (ch_cmd p) \<noteq> cv_ecK (ch_cmd p) \<longrightarrow> ch_toSend p < length (ch_disk p)"

definition conv_pass :: "repair_config \<Rightarrow> world \<Rightarrow> conv_helper \<Rightarrow> (world \<times> conv_helper) res" where
  "conv_pass conf w p =
     (let c = ch_cmd p; next_round = p\<lparr>ch_toSend := Suc (ch_toSend p)\<rparr>
      in
      if cv_id c \<noteq> cv_ecK c then Inr (w, next_round)
      else bindE (findCtx (sort (helpersIPs conf)) (ch_ip p)) (\<lambda>ctx.
        bindE (foldE (\<lambda>i (w, p).
          case ctx of
            None \<Rightarrow> Inl Out_Of_Bounds
          | Some ip \<Rightarrow>
              bindE (pktOutput (ch_toSend p) (packetCnt conf)) (\<lambda>_.
              bindE (blpop ip (ppr_key (cv_lostBlkName c) (int i)) w) (\<lambda>(msg, w1).
              bindE (atE (ch_disk p) (int (ch_toSend p))) (\<lambda>buf.
              bindE (XORBuffers buf msg (packetSize conf)) (\<lambda>buf.
              Inr (w1, p\<lparr>ch_disk := (ch_disk p)[ch_toSend p := buf]\<rparr>))))))
          [0..<nat (cv_ecK c)] (w, p)) (\<lambda>(w, p). Inr (w, p\<lparr>ch_toSend := Suc (ch_toSend p)\<rparr>))))"

text \<open>A round of \<open>sendWorker\<close>.\<close>

definition conv_key :: "conv_cmd \<Rightarrow> string" where
  "conv_key c = (if cv_ecK c = cv_id c then cv_lostBlkName c else ppr_key (cv_lostBlkName c) (cv_id c))"

definition conv_push :: "repair_config \<Rightarrow> world \<Rightarrow> conv_helper \<Rightarrow> (world \<times> conv_helper) res" where
  "conv_push conf w p =
     (case ch_ctx p of
        None \<Rightarrow> Inl Out_Of_Bounds
      | Some ip \<Rightarrow>
          bindE (atE (ch_disk p) (int (ch_sent p))) (\<lambda>buf.
          bindE (memcpy_from buf 0 (int (packetSize conf))) (\<lambda>msg.
          bindE (pktOutput (ch_sent p) (packetCnt conf)) (\<lambda>_.
          Inr (rpush ip (conv_key (ch_cmd p)) msg w, p\<lparr>ch_sent := Suc (ch_sent p)\<rparr>)))))"

section \<open>The threads of the requestor\<close>

text \<open>A round of the \<open>readThread\<close> of helper \<open>ident\<close>.\<close>

definition conv_fetch :: "repair_config \<Rightarrow> nat \<Rightarrow> world \<Rightarrow> conv_req \<Rightarrow> (world \<times> conv_req) res" where
  "conv_fetch conf ident w r =
     bindE (atE (cr_idx r) (int ident)) (\<lambda>i.
     bindE (blpop (cr_ip r) (ppr_key (cr_lost r) (int ident)) w) (\<lambda>(msg, w1).
     bindE (memcpy_from msg 0 (int (packetSize conf))) (\<lambda>pkt.
     bindE (atE (cr_pkts r) (int i)) (\<lambda>bufs.
     bindE (atE bufs (int ident)) (\<lambda>_.
     let idx = (cr_idx r)[ident := Suc i]; minNum = fold min idx (packetCnt conf)
     in Inr (w1, r\<lparr>cr_pkts := (cr_pkts r)[i := bufs[ident := pkt]], cr_idx := idx,
          cr_toPull := (if cr_toPull r < minNum then Suc (cr_toPull r) else cr_toPull r)\<rparr>))))))"

text \<open>The sum of the packets of all helpers: the first is copied, the others are added.\<close>

definition conv_sum :: "gf_ops \<Rightarrow> repair_config \<Rightarrow> int list \<Rightarrow> byte list list \<Rightarrow> nat \<Rightarrow> byte list \<Rightarrow> byte list res" where
  "conv_sum G conf coefs bufs k acc =
     foldE (\<lambda>ident acc.
       bindE (atE bufs (int ident)) (\<lambda>buf.
       bindE (memcpy_from buf 0 (int (packetSize conf))) (\<lambda>tmp.
       bindE (atE coefs (int ident)) (\<lambda>coef.
       bindE (guardE (coef < 256) Out_Of_Bounds) (\<lambda>_.
       bindE (rs_multiply G tmp (word_of_int coef) (packetSize conf)) (\<lambda>tmp.
       if ident = 0 then memcpy_to acc 0 tmp else XORBuffers acc tmp (packetSize conf)))))))
     [0..<k] acc"

text \<open>A round of \<open>requestorMulCompletion\<close> for one packet of one job.\<close>

definition conv_compute :: "gf_ops \<Rightarrow> repair_config \<Rightarrow> conv_req \<Rightarrow> conv_req res" where
  "conv_compute G conf r =
     (let jobs = cv_jobs (cr_cmd r); k = nat (cv_ecK (cr_cmd r));
          pktId = cr_toSend r div length jobs; j = cr_toSend r mod length jobs
      in
      bindE (atE jobs (int j)) (\<lambda>job.
      bindE (atE (cr_pkts r) (int pktId)) (\<lambda>bufs.
      bindE (atE bufs (int (k + j))) (\<lambda>acc.
      bindE (conv_sum G conf (cj_coefs job) bufs k acc) (\<lambda>acc.
      Inr (r\<lparr>cr_pkts := (cr_pkts r)[pktId := bufs[k + j := acc]], cr_toSend := Suc (cr_toSend r)\<rparr>))))))"

text \<open>A round of \<open>sendMulWorker\<close>; the debug output reads the first four bytes.\<close>

definition conv_send :: "repair_config \<Rightarrow> world \<Rightarrow> conv_req \<Rightarrow> (world \<times> conv_req) res" where
  "conv_send conf w r =
     (let jobs = cv_jobs (cr_cmd r); k = nat (cv_ecK (cr_cmd r));
          pktId = cr_sent r div length jobs; j = cr_sent r mod length jobs
      in
      bindE (atE jobs (int j)) (\<lambda>job.
      bindE (atE (cr_pkts r) (int pktId)) (\<lambda>bufs.
      bindE (atE bufs (int (k + j))) (\<lambda>buf.
      bindE (pktOutput pktId (packetCnt conf)) (\<lambda>out.
      bindE (if out then bindE (get_int buf 0) (\<lambda>_. Inr ()) else Inr ()) (\<lambda>_.
      bindE (memcpy_from buf 0 (int (packetSize conf))) (\<lambda>msg.
      Inr (rpush (cr_ip r) (cj_lostBlkName job) msg w, r\<lparr>cr_sent := Suc (cr_sent r)\<rparr>))))))))"

section \<open>Steps\<close>

inductive conv_step ::
    "gf_ops \<Rightarrow> env \<Rightarrow> repair_config \<Rightarrow> world \<times> conv_node \<Rightarrow> world \<times> conv_node \<Rightarrow> bool"
  for G E conf where
  Read: "length (ch_disk p) < packetCnt conf \<Longrightarrow> conv_read E conf w p = Inr p' \<Longrightarrow>
    conv_step G E conf (w, Helper p) (w, Helper p')"
| Pass: "ch_toSend p < packetCnt conf \<Longrightarrow> conv_ready p \<Longrightarrow> conv_pass conf w p = Inr (w', p') \<Longrightarrow>
    conv_step G E conf (w, Helper p) (w', Helper p')"
| Push: "ch_sent p < packetCnt conf \<Longrightarrow> ch_sent p < ch_toSend p \<Longrightarrow> conv_push conf w p = Inr (w', p') \<Longrightarrow>
    conv_step G E conf (w, Helper p) (w', Helper p')"
| Fetch: "ident < length (cr_idx r) \<Longrightarrow> cr_idx r ! ident < packetCnt conf \<Longrightarrow> conv_fetch conf ident w r = Inr (w', r') \<Longrightarrow>
    conv_step G E conf (w, Requestor r) (w', Requestor r')"
| Compute: "cr_toSend r < packetCnt conf * length (cv_jobs (cr_cmd r)) \<Longrightarrow>
    cr_toSend r div length (cv_jobs (cr_cmd r)) < cr_toPull r \<Longrightarrow> conv_compute G conf r = Inr r' \<Longrightarrow>
    conv_step G E conf (w, Requestor r) (w, Requestor r')"
| Send: "cr_sent r < packetCnt conf * length (cv_jobs (cr_cmd r)) \<Longrightarrow> cr_sent r < cr_toSend r \<Longrightarrow>
    conv_send conf w r = Inr (w', r') \<Longrightarrow> conv_step G E conf (w, Requestor r) (w', Requestor r')"

inductive conv_cluster ::
    "gf_ops \<Rightarrow> env \<Rightarrow> repair_config \<Rightarrow> world \<times> conv_node list \<Rightarrow> world \<times> conv_node list \<Rightarrow> bool"
  for G E conf where
  "h < length ps \<Longrightarrow> conv_step G E conf (w, ps ! h) (w', p') \<Longrightarrow> conv_cluster G E conf (w, ps) (w', ps[h := p'])"

definition conv_finished :: "repair_config \<Rightarrow> conv_node \<Rightarrow> bool" where
  "conv_finished conf n \<longleftrightarrow> (case n of
     Helper p \<Rightarrow> length (ch_disk p) = packetCnt conf \<and> ch_toSend p = packetCnt conf \<and> ch_sent p = packetCnt conf
   | Requestor r \<Rightarrow> list_all (\<lambda>i. i = packetCnt conf) (cr_idx r) \<and>
       cr_toSend r = packetCnt conf * length (cv_jobs (cr_cmd r)) \<and> cr_sent r = packetCnt conf * length (cv_jobs (cr_cmd r)))"

end
