(* ===== verification/Conv_Coordinator.thy ===== *)
theory Conv_Coordinator
  imports Conv_Worker Ppr_Coordinator Hdfs_Metadata
begin

text \<open>
  \<open>ConvCoordinator.cc\<close> with \<open>CONV_OPT\<close> set: one round of \<open>requestHandler\<close>. Every helper is told to send its block to the
  requestor; the requestor gets, for every lost block, the coefficients of the helpers. The requestors of the other lost
  blocks are told to take theirs from it (\<open>dr_passive\<close>). The metadata have a state of type \<open>'m\<close>, which \<open>getStripeBlksMul\<close> changes.
\<close>

section \<open>Commands\<close>

definition conv_helper_cmd ::
    "int \<Rightarrow> int \<Rightarrow> ip_addr \<Rightarrow> ip_addr \<Rightarrow> int \<Rightarrow> string \<Rightarrow> string \<Rightarrow> byte list res" where
  "conv_helper_cmd idx k requestorIP nextIP i filename localName =
     (let cmd = put_int idx @ put_int k @ put_word requestorIP @ put_int 1 @ put_word nextIP @ put_int i @
            put_int (int (length filename)) @ bytes_of filename @ put_int (int (length localName)) @ bytes_of localName
      in bindE (guardE (length cmd \<le> COMMAND_MAX_LENGTH) Out_Of_Bounds) (\<lambda>_. Inr cmd))"

definition addReqInfo ::
    "nat \<Rightarrow> metadata \<Rightarrow> (string, int) omap \<Rightarrow> ip_addr \<Rightarrow> string \<times> (ip_addr \<times> string) list \<Rightarrow> byte list res" where
  "addReqInfo k md status failedIP info =
     bindE (md_getCoefficient md (fst info) (Some status)) (\<lambda>coef.
     bindE (mapE (\<lambda>i. bindE (atE (snd info) (int i)) (\<lambda>(_, b). Inr (om_get0 coef b))) [0..<k]) (\<lambda>cs.
     Inr (put_word failedIP @ put_int (int (length (fst info))) @ bytes_of (fst info) @ put_ints cs)))"

definition conv_req_cmd ::
    "int \<Rightarrow> int \<Rightarrow> ip_addr \<Rightarrow> int \<Rightarrow> ip_addr list \<Rightarrow> string \<Rightarrow> byte list list \<Rightarrow> byte list res" where
  "conv_req_cmd idx k requestorIP fails ips filename infos =
     (let cmd = put_int idx @ put_int k @ put_word requestorIP @ put_word 0xffffffff @ put_int fails @ put_int 0 @
            ppr_holders ips @ put_int (int (length filename)) @ bytes_of filename @ concat infos
      in bindE (guardE (length cmd \<le> COMMAND_MAX_LENGTH) Out_Of_Bounds) (\<lambda>_. Inr cmd))"

section \<open>The handler\<close>

text \<open>\<open>outputStripeMul\<close>: whether every lost block has enough helpers, and how often every node is a helper.\<close>

definition outputStripeMul ::
    "repair_config \<Rightarrow> (ip_addr, string \<times> (ip_addr \<times> string) list) omap \<Rightarrow> (ip_addr, nat) omap \<Rightarrow> bool \<times> (ip_addr, nat) omap" where
  "outputStripeMul conf stripe_mul numOfJobs =
     (list_all (\<lambda>(_, _, stripe). stripe \<noteq> [] \<and> ecK conf \<le> length stripe) stripe_mul,
      fold (\<lambda>(_, _, stripe). fold (\<lambda>(ip, _) n. om_put ip (case map_of n ip of None \<Rightarrow> 1 | Some c \<Rightarrow> Suc c) n) stripe) stripe_mul numOfJobs)"

definition conv_helper_cmds ::
    "repair_config \<Rightarrow> (ip_addr \<times> string) list \<Rightarrow> ip_addr \<Rightarrow> string \<Rightarrow> (ip_addr \<times> string) list \<Rightarrow> (string \<times> byte list) list res" where
  "conv_helper_cmds conf ip2Ctx requestorIP filename stripe =
     mapE (\<lambda>i.
       bindE (atE stripe (int i)) (\<lambda>(ip, blk).
       bindE (atE stripe (if i = ecK conf - 1 then 0 else int i + 1)) (\<lambda>(nextIP, _).
       queue_cmd ip2Ctx ip (\<lambda>idx. conv_helper_cmd idx (int (ecK conf)) requestorIP nextIP (int i) filename blk)))) [0..<ecK conf]"

text \<open>The helpers' blocks get status 2: of every helper the first block of the stripe.\<close>

definition conv_status ::
    "(ip_addr \<times> string) list \<Rightarrow> ip_addr list \<Rightarrow> (string, int) omap \<Rightarrow> (string, int) omap" where
  "conv_status allBlks ips status =
     fold (\<lambda>ip status. case filter (\<lambda>(a, _). a = ip) allBlks of [] \<Rightarrow> status | (_, b) # _ \<Rightarrow> om_put b 2 status) ips status"

definition conv_infos ::
    "nat \<Rightarrow> metadata \<Rightarrow> (string, int) omap \<Rightarrow> (ip_addr, string \<times> (ip_addr \<times> string) list) omap \<Rightarrow> (string \<times> ip_addr) list \<Rightarrow>
     byte list list res" where
  "conv_infos k md status stripe_mul lostFiles =
     mapE (\<lambda>(f, ip). case filter (\<lambda>(_, name, _). name = f) stripe_mul of
         [] \<Rightarrow> Inr [] | (_, info) # _ \<Rightarrow> addReqInfo k md status ip info) lostFiles"

definition conv_passive ::
    "(ip_addr \<times> string) list \<Rightarrow> metadata \<Rightarrow> (string, int) omap \<Rightarrow> ip_addr \<Rightarrow> ip_addr \<times> string \<times> (ip_addr \<times> string) list \<Rightarrow>
     world \<Rightarrow> world res" where
  "conv_passive ip2Ctx md status requestorIP = (\<lambda>(failedIP, lostFilename, stripe) w.
     if failedIP = requestorIP then Inr w
     else bindE (md_getCoefficient md lostFilename (Some status)) (\<lambda>_.
       bindE (searchCtx ip2Ctx failedIP 0 (int (length ip2Ctx) - 1)) (\<lambda>idx.
       let cmd = put_word requestorIP @ put_word requestorIP @ put_int (int (length lostFilename)) @ bytes_of lostFilename
       in bindE (guardE (length cmd \<le> COMMAND_MAX_LENGTH) Out_Of_Bounds) (\<lambda>_.
          bindE (atE ip2Ctx idx) (\<lambda>(ip, _). Inr (rpush ip ''dr_passive'' cmd w))))))"

definition conv_commands ::
    "repair_config \<Rightarrow> metadata \<Rightarrow> (ip_addr \<times> string) list \<Rightarrow> ip_addr \<Rightarrow> fr_state \<Rightarrow> (string, int) omap \<Rightarrow>
     (ip_addr, string \<times> (ip_addr \<times> string) list) omap \<Rightarrow> world \<Rightarrow> world res" where
  "conv_commands conf md ip2Ctx requestorIP st status stripe_mul w =
     (let filename = fr_reqFile st; stripe = snd (om_get ([], []) stripe_mul requestorIP)
      in
      bindE (conv_helper_cmds conf ip2Ctx requestorIP filename stripe) (\<lambda>hs.
      bindE (mapE (\<lambda>i. bindE (atE stripe (int i)) (\<lambda>(ip, _). Inr ip)) [0..<ecK conf]) (\<lambda>ips.
      bindE (md_getAllBlks md filename) (\<lambda>allBlks.
      let status = conv_status allBlks ips status
      in
      bindE (conv_infos (ecK conf) md status stripe_mul (fr_lostFiles st)) (\<lambda>infos.
      bindE (queue_cmd ip2Ctx requestorIP (\<lambda>idx.
        conv_req_cmd idx (int (ecK conf)) requestorIP (int (length stripe_mul)) ips filename infos)) (\<lambda>c.
      bindE (if fileSysType conf = ''HDFS'' then foldE (conv_passive ip2Ctx md status requestorIP) stripe_mul w else Inr w) (\<lambda>w1.
      bindE (atE (fr_lostFiles st) 0) (\<lambda>(retFilename, _).
      Inr (rpush (coordinatorIP conf) retFilename (put_word requestorIP) (push_all (coordinatorIP conf) (hs @ [c]) w1))))))))))"

definition conv_requestHandler ::
    "repair_config \<Rightarrow> ('m \<Rightarrow> metadata) \<Rightarrow>
     (string \<Rightarrow> ip_addr \<Rightarrow> (string, int) omap \<Rightarrow> 'm \<Rightarrow>
       ((ip_addr, string \<times> (ip_addr \<times> string) list) omap \<times> (string, int) omap \<times> 'm) res) \<Rightarrow>
     (ip_addr \<times> string) list \<Rightarrow> 'm \<Rightarrow> world \<Rightarrow> (world \<times> 'm) res" where
  "conv_requestHandler conf md getStripeBlksMul ip2Ctx m w =
     bindE (blpop (coordinatorIP conf) ''dr_requests'' w) (\<lambda>(req, w1).
     if length req < 4 then Inl (Exit 1)
     else bindE (get_word req 0) (\<lambda>requestorIP.
       bindE (parseFRRequest conf (md m) req requestorIP) (\<lambda>(index, st).
       if index \<noteq> 0 then Inr (rpush (coordinatorIP conf) (fr_reqFile st) (put_word requestorIP) w1, m)
       else bindE (getStripeBlksMul (fr_reqFile st) requestorIP (om_put (fr_reqFile st) 0 (fr_status st)) m) (\<lambda>(stripe_mul, status, m1).
         if \<not> fst (outputStripeMul conf stripe_mul []) then Inr (w1, m1)
         else bindE (conv_commands conf (md m1) ip2Ctx requestorIP st status stripe_mul w1) (\<lambda>w2. Inr (w2, m1))))))"

section \<open>Commands are read back\<close>

lemma uint_len: "n \<le> 1024 \<Longrightarrow> uint (word_of_int (int n) :: 32 word) = int n"
  by (simp only: uint_word_of_int) (simp add: take_bit_int_eq_self)

lemma get_holders:
  assumes "off = int (length pre)" and "n = length ips"
  shows "mapE (\<lambda>i. get_word (pre @ ppr_holders ips @ post) (off + 4 * int i)) [0..<n] = Inr ips"
proof -
  have "mapE (\<lambda>i. get_word (pre @ ppr_holders ips @ post) (off + 4 * int i)) [0..<n] = Inr (map ((!) ips) [0..<n])"
    using assms by (intro mapE_Inr_map get_holder) simp_all
  then show ?thesis using assms(2) by (simp add: map_nth)
qed

lemma put_word_int: "put_word (word_of_int x) = put_int x"
  by (simp add: put_word_def put_int_def Let_def)

lemma put_ints_holders: "put_ints cs = ppr_holders (map word_of_int cs)"
  by (simp add: put_ints_def ppr_holders_def put_word_int o_def)

lemma parse_conv_helper:
  assumes cmd: "conv_helper_cmd idx (int k) requestorIP nextIP (int i) f l = Inr cmd" and "k < 256" and "i < k"
  shows "parse_conv_cmd old (drop 4 cmd) = Inr \<lparr>cv_ecK = int k, cv_requestorIP = requestorIP, cv_coefficient = 1, cv_id = int i,
    cv_ips = [], cv_lostBlkName = f, cv_localBlkName = l, cv_jobs = old\<rparr>"
proof -
  define c where "c = drop 4 cmd"
  define head where "head = put_int (int k) @ put_word requestorIP @ put_int 1 @ put_word nextIP @ put_int (int i)"
  have c: "c = head @ put_int (int (length f)) @ bytes_of f @ put_int (int (length l)) @ bytes_of l" and fits: "length f + length l \<le> 1024"
    using cmd by (auto simp: conv_helper_cmd_def Let_def res_simps COMMAND_MAX_LENGTH_def c_def head_def)
  have head: "length head = 20" by (simp add: head_def)
  have small: "int32 (int k)" "int32 (int i)" "int32 (int (length f))" "int32 (int (length l))" using assms(2,3) fits by auto
  have "get_int c 0 = Inr (int k)"
    using get_int_append[of 0 "[]" "int k"] small by (simp add: c head_def)
  moreover have "get_word c 4 = Inr requestorIP"
    using get_word_append[of 4 "put_int (int k)"] by (simp add: c head_def)
  moreover have "get_int c 8 = Inr 1"
    using get_int_append[of 8 "put_int (int k) @ put_word requestorIP" 1] by (simp add: c head_def)
  moreover have "get_word c 12 = Inr nextIP"
    using get_word_append[of 12 "put_int (int k) @ put_word requestorIP @ put_int 1"] by (simp add: c head_def)
  moreover have "get_int c 16 = Inr (int i)"
    using get_int_append[of 16 "put_int (int k) @ put_word requestorIP @ put_int 1 @ put_word nextIP"] small by (simp add: c head_def)
  moreover have "get_word c 20 = Inr (word_of_int (int (length f)))"
    using get_int_append[of 20 head "int (length f)"] small head by (simp add: c get_word_def)
  moreover have "get_name c 24 (int (length f)) = Inr f"
    using get_name_append[of 24 "head @ put_int (int (length f))" "int (length f)" f] head by (simp add: c)
  moreover have "get_word c (24 + int (length f)) = Inr (word_of_int (int (length l)))"
    using get_int_append[of "24 + int (length f)" "head @ put_int (int (length f)) @ bytes_of f" "int (length l)" "bytes_of l"] small head
    by (simp add: c get_word_def)
  moreover have "get_name c (28 + int (length f)) (int (length l)) = Inr l"
    using get_name_append[of "28 + int (length f)" "head @ put_int (int (length f)) @ bytes_of f @ put_int (int (length l))" "int (length l)" l "[]"] head
    by (simp add: c)
  ultimately show ?thesis
    using uint_len[of "length f"] uint_len[of "length l"] fits by (simp add: parse_conv_cmd_def flip: c_def)
qed

lemma parse_conv_req:
  assumes cmd: "conv_req_cmd idx (int k) requestorIP 1 ips f [info] = Inr cmd"
    and info: "info = put_word ip @ put_int (int (length f)) @ bytes_of f @ put_ints cs"
    and len: "length ips = k" "length cs = k" and cs: "\<forall>c \<in> set cs. 0 \<le> c \<and> c < 256"
  shows "parse_conv_cmd old (drop 4 cmd) = Inr \<lparr>cv_ecK = int k, cv_requestorIP = requestorIP, cv_coefficient = - 1, cv_id = int k,
    cv_ips = ips, cv_lostBlkName = f, cv_localBlkName = [], cv_jobs = [\<lparr>cj_nextIP = ip, cj_coefs = cs, cj_lostBlkName = f\<rparr>]\<rparr>"
proof -
  define c where "c = drop 4 cmd"
  define head where "head = put_int (int k) @ put_word requestorIP @ put_word 0xffffffff @ put_int 1 @ put_int 0"
  define names where "names = head @ ppr_holders ips @ put_int (int (length f)) @ bytes_of f"
  define vs :: "32 word list" where "vs = map word_of_int cs"
  have c: "c = names @ put_word ip @ put_int (int (length f)) @ bytes_of f @ ppr_holders vs"
    and fits: "4 * k + length f \<le> 1024"
    using cmd len by (auto simp: conv_req_cmd_def info put_ints_holders Let_def res_simps COMMAND_MAX_LENGTH_def c_def head_def names_def vs_def)
  have size: "length head = 20" "int (length names) = 24 + 4 * int k + int (length f)" using len by (simp_all add: head_def names_def)
  have small: "int32 (int k)" "int32 (int (length f))" using fits by auto
  have minus: "put_word 0xffffffff = put_int (- 1)" by (simp add: put_word_def put_int_def)
  have k: "get_int c 0 = Inr (int k)"
    using get_int_append[of 0 "[]" "int k"] small by (simp add: c names_def head_def)
  have req: "get_word c 4 = Inr requestorIP"
    using get_word_append[of 4 "put_int (int k)"] by (simp add: c names_def head_def)
  have mark: "get_int c 8 = Inr (- 1)"
    using get_int_append[of 8 "put_int (int k) @ put_word requestorIP" "- 1"] by (simp add: c names_def head_def minus)
  have fails: "get_word c 12 = Inr 1"
    using get_int_append[of 12 "put_int (int k) @ put_word requestorIP @ put_word 0xffffffff" 1] by (simp add: c names_def head_def get_word_def)
  have zero: "get_int c 16 = Inr 0"
    using get_int_append[of 16 "put_int (int k) @ put_word requestorIP @ put_word 0xffffffff @ put_int 1" 0] by (simp add: c names_def head_def)
  have helpers: "mapE (\<lambda>i. get_word c (20 + 4 * int i)) [0..<k] = Inr ips"
    using get_holders[of 20 head k ips] size(1) len(1) by (simp add: c names_def)
  have lost: "get_word c (20 + 4 * int k) = Inr (word_of_int (int (length f)))"
    using get_int_append[of "20 + 4 * int k" "head @ ppr_holders ips" "int (length f)"] small(2) size(1) len(1)
    by (simp add: c names_def get_word_def)
  have name: "get_name c (24 + 4 * int k) (int (length f)) = Inr f"
    using get_name_append[of "24 + 4 * int k" "head @ ppr_holders ips @ put_int (int (length f))" "int (length f)" f] size(1) len(1)
    by (simp add: c names_def)
  let ?b = "24 + 4 * int k + int (length f)"
  have "get_word c ?b = Inr ip"
    using get_word_append[OF size(2)[symmetric], of ip] by (simp add: c)
  moreover have "get_int c (?b + 4) = Inr (int (length f))"
    using get_int_append[of "?b + 4" "names @ put_word ip" "int (length f)"] small(2) size(2) by (simp add: c)
  moreover have "get_name c (?b + 8) (int (length f)) = Inr f"
    using get_name_append[of "?b + 8" "names @ put_word ip @ put_int (int (length f))" "int (length f)" f] size(2) by (simp add: c)
  moreover have "mapE (\<lambda>j. get_word c (?b + 8 + int (length f) + 4 * int j)) [0..<k] = Inr vs"
  proof -
    have at: "?b + 8 + int (length f) = int (length (names @ put_word ip @ put_int (int (length f)) @ bytes_of f))"
      by (simp add: size(2))
    have "k = length vs" using len(2) by (simp add: vs_def)
    from get_holders[OF at this, of "[]"] show ?thesis by (simp add: c)
  qed
  moreover have "map uint vs = cs"
    unfolding vs_def map_map by (rule map_idI) (use cs in \<open>auto simp: uint_word_of_int take_bit_int_eq_self\<close>)
  ultimately have "parse_jobs c (int k) (Suc 0) ?b = Inr [\<lparr>cj_nextIP = ip, cj_coefs = cs, cj_lostBlkName = f\<rparr>]"
    by simp
  then show ?thesis
    using k req mark fails zero helpers lost name uint_len[of "length f"] fits by (simp add: parse_conv_cmd_def flip: c_def)
qed

end
