(* ===== verification/Conv_Sum.thy ===== *)
theory Conv_Sum
  imports Conv_Worker Pipe_Repair Ppr_Sum
begin

text \<open>
  The nodes of a conventional repair of one block under any interleaving of their threads: every helper pushes the packets
  of its block to a list of its own at the requestor, and the requestor pushes the packets of the sum. The invariant speaks of
  every node and of the lists between them.
\<close>

section \<open>The setting\<close>

text \<open>
  The helpers have the blocks \<open>cc_blks\<close> and the coefficients \<open>cc_coefs\<close>; the requestor is the node behind them.
\<close>

record conv_case =
  cc_conf :: repair_config
  cc_lost :: string
  cc_req :: ip_addr
  cc_coefs :: "byte list"
  cc_blks :: "byte list list"

abbreviation cc_k :: "conv_case \<Rightarrow> nat" where
  "cc_k C \<equiv> length (cc_coefs C)"

abbreviation raw :: "conv_case \<Rightarrow> nat \<Rightarrow> nat \<Rightarrow> byte list" where
  "raw C h \<equiv> lost_pkt (cc_conf C) (cc_blks C ! h)"

abbreviation total :: "gf_ops \<Rightarrow> conv_case \<Rightarrow> nat \<Rightarrow> byte list" where
  "total G C \<equiv> sum_pkt G (cc_conf C) (cc_coefs C) (cc_blks C) (cc_k C - 1)"

definition conv_conf_ok :: "conv_case \<Rightarrow> bool" where
  "conv_conf_ok C \<longleftrightarrow> (let conf = cc_conf C in
     0 < cc_k C \<and> length (cc_blks C) = cc_k C \<and> 8 dvd packetSize conf \<and> 0 < packetSize conf \<and> packetCnt conf \<noteq> 3 \<and>
     pkt_base conf (packetCnt conf) < 2 ^ 31 \<and> (\<forall>h < cc_k C. pkt_base conf (packetCnt conf) \<le> length (cc_blks C ! h)))"

lemma length_raw:
  assumes "conv_conf_ok C" and "h < cc_k C" and "j < packetCnt (cc_conf C)"
  shows "length (raw C h j) = packetSize (cc_conf C)" and "pkt_base (cc_conf C) j + packetSize (cc_conf C) \<le> length (cc_blks C ! h)"
proof -
  show room: "pkt_base (cc_conf C) j + packetSize (cc_conf C) \<le> length (cc_blks C ! h)"
    using assms pkt_in_file[of "cc_conf C" _ j] by (simp add: conv_conf_ok_def Let_def)
  then show "length (raw C h j) = packetSize (cc_conf C)" by (simp add: lost_pkt_def)
qed

section \<open>A helper\<close>

definition conv_helper_ok :: "conv_case \<Rightarrow> world \<Rightarrow> nat \<Rightarrow> conv_helper \<Rightarrow> bool" where
  "conv_helper_ok C w h p \<longleftrightarrow> (let c = ch_cmd p in
     cv_ecK c = int (cc_k C) \<and> cv_id c = int h \<and> cv_lostBlkName c = cc_lost C \<and> ch_ctx p = Some (cc_req C) \<and>
     w_files w (ch_ip p) (cv_localBlkName c) = Some (cc_blks C ! h))"

definition conv_helper_inv :: "conv_case \<Rightarrow> nat \<Rightarrow> conv_helper \<Rightarrow> bool" where
  "conv_helper_inv C h p \<longleftrightarrow>
     ch_sent p \<le> ch_toSend p \<and> ch_toSend p \<le> length (ch_disk p) \<and> length (ch_disk p) \<le> packetCnt (cc_conf C) \<and>
     ch_disk p = map (raw C h) [0..<length (ch_disk p)]"

lemma conv_read_ok:
  assumes C: "conv_conf_ok C" and "io_ok E" and "h < cc_k C" and ok: "conv_helper_ok C w h p"
    and inv: "conv_helper_inv C h p" and rd: "length (ch_disk p) < packetCnt (cc_conf C)"
  shows "conv_read E (cc_conf C) w p = Inr (p\<lparr>ch_disk := ch_disk p @ [raw C h (length (ch_disk p))]\<rparr>)"
    and "conv_helper_inv C h (p\<lparr>ch_disk := ch_disk p @ [raw C h (length (ch_disk p))]\<rparr>)"
proof -
  let ?i = "length (ch_disk p)"
  have "pkt_base (cc_conf C) (packetCnt (cc_conf C)) < 2 ^ 31" using C unfolding conv_conf_ok_def Let_def by blast
  note base = pkt_base_int[OF this rd]
  have "read_loop E (cc_blks C ! h) (pkt_base (cc_conf C) ?i) (packetSize (cc_conf C)) 0 (malloc E (int (packetSize (cc_conf C)))) =
      Inr (raw C h ?i)"
    using read_loop_eq[OF assms(2) length_raw(2)[OF C assms(3) rd]] by (simp add: malloc_def lost_pkt_def)
  moreover obtain b where "pktOutput ?i (packetCnt (cc_conf C)) = Inr b"
    using pktOutput_ok[OF _ rd] C by (auto simp: conv_conf_ok_def Let_def)
  ultimately show "conv_read E (cc_conf C) w p = Inr (p\<lparr>ch_disk := ch_disk p @ [raw C h ?i]\<rparr>)"
    using ok by (simp add: conv_read_def conv_helper_ok_def base Let_def del: of_nat_add of_nat_mult of_int_of_nat_eq)
  show "conv_helper_inv C h (p\<lparr>ch_disk := ch_disk p @ [raw C h ?i]\<rparr>)"
    using inv rd by (simp add: conv_helper_inv_def)
qed

lemma conv_pass_ok:
  assumes "h < cc_k C" and "conv_helper_ok C w h p"
  shows "conv_pass conf w p = Inr (w, p\<lparr>ch_toSend := Suc (ch_toSend p)\<rparr>)"
    and "conv_ready p \<longleftrightarrow> ch_toSend p < length (ch_disk p)"
    and "conv_helper_inv C h p \<Longrightarrow> conv_ready p \<Longrightarrow> conv_helper_inv C h (p\<lparr>ch_toSend := Suc (ch_toSend p)\<rparr>)"
  using assms by (auto simp: conv_pass_def conv_ready_def conv_helper_ok_def conv_helper_inv_def Let_def)

lemma conv_push_ok:
  assumes C: "conv_conf_ok C" and h: "h < cc_k C" and ok: "conv_helper_ok C w h p" and inv: "conv_helper_inv C h p"
    and "ch_sent p < ch_toSend p"
  shows "conv_push (cc_conf C) w p =
      Inr (rpush (cc_req C) (ppr_key (cc_lost C) (int h)) (raw C h (ch_sent p)) w, p\<lparr>ch_sent := Suc (ch_sent p)\<rparr>)"
    and "conv_helper_inv C h (p\<lparr>ch_sent := Suc (ch_sent p)\<rparr>)"
proof -
  have sent: "ch_sent p < length (ch_disk p)" "ch_sent p < packetCnt (cc_conf C)" using inv assms(5) by (auto simp: conv_helper_inv_def)
  then have buf: "ch_disk p ! ch_sent p = raw C h (ch_sent p)"
    using inv unfolding conv_helper_inv_def by (metis add_0 nth_map_upt diff_zero)
  obtain b where "pktOutput (ch_sent p) (packetCnt (cc_conf C)) = Inr b"
    using pktOutput_ok[OF _ sent(2)] C by (auto simp: conv_conf_ok_def Let_def)
  then show "conv_push (cc_conf C) w p =
      Inr (rpush (cc_req C) (ppr_key (cc_lost C) (int h)) (raw C h (ch_sent p)) w, p\<lparr>ch_sent := Suc (ch_sent p)\<rparr>)"
    using ok sent h length_raw(1)[OF C h sent(2)]
    by (simp add: conv_push_def conv_helper_ok_def conv_key_def buf memcpy_from_def Let_def)
  show "conv_helper_inv C h (p\<lparr>ch_sent := Suc (ch_sent p)\<rparr>)" using inv assms(5) by (simp add: conv_helper_inv_def)
qed

section \<open>The requestor\<close>

definition conv_req_ok :: "conv_case \<Rightarrow> conv_req \<Rightarrow> bool" where
  "conv_req_ok C r \<longleftrightarrow> cr_ip r = cc_req C \<and> cr_lost r = cc_lost C \<and> cv_ecK (cr_cmd r) = int (cc_k C) \<and>
     (\<exists>ip. cv_jobs (cr_cmd r) = [\<lparr>cj_nextIP = ip, cj_coefs = map uint (cc_coefs C), cj_lostBlkName = cc_lost C\<rparr>])"

definition bufs_ok :: "conv_case \<Rightarrow> byte list list \<Rightarrow> bool" where
  "bufs_ok C bufs \<longleftrightarrow> length bufs = Suc (cc_k C) \<and> list_all (\<lambda>b. length b = packetSize (cc_conf C)) bufs"

definition conv_req_inv :: "gf_ops \<Rightarrow> conv_case \<Rightarrow> conv_req \<Rightarrow> bool" where
  "conv_req_inv G C r \<longleftrightarrow> (let cnt = packetCnt (cc_conf C); k = cc_k C in
     length (cr_idx r) = k \<and> (\<forall>i \<in> set (cr_idx r). i \<le> cnt) \<and> cr_toPull r = fold min (cr_idx r) cnt \<and>
     cr_sent r \<le> cr_toSend r \<and> cr_toSend r \<le> cr_toPull r \<and> length (cr_pkts r) = cnt \<and>
     (\<forall>j < cnt. bufs_ok C (cr_pkts r ! j)) \<and>
     (\<forall>h < k. \<forall>j < cr_idx r ! h. cr_pkts r ! j ! h = raw C h j) \<and>
     (\<forall>j < cr_toSend r. cr_pkts r ! j ! k = total G C j))"

lemma conv_sum_Suc:
  "conv_sum G conf coefs bufs (Suc n) acc = bindE (conv_sum G conf coefs bufs n acc) (\<lambda>acc.
     bindE (atE bufs (int n)) (\<lambda>buf.
     bindE (memcpy_from buf 0 (int (packetSize conf))) (\<lambda>tmp.
     bindE (atE coefs (int n)) (\<lambda>coef.
     bindE (guardE (coef < 256) Out_Of_Bounds) (\<lambda>_.
     bindE (rs_multiply G tmp (word_of_int coef) (packetSize conf)) (\<lambda>tmp.
     if n = 0 then memcpy_to acc 0 tmp else XORBuffers acc tmp (packetSize conf)))))))"
proof -
  have last: "bindE m (foldE f []) = m" for m :: "'s res" and f :: "nat \<Rightarrow> 's \<Rightarrow> 's res" by (cases m) simp_all
  show ?thesis by (cases "conv_sum G conf coefs bufs n acc") (simp_all add: conv_sum_def foldE_append last)
qed

lemma conv_sum_0 [simp]: "conv_sum G conf coefs bufs 0 acc = Inr acc"
  by (simp add: conv_sum_def)

text \<open>The sum over the first helpers.\<close>

lemma conv_sum_ok:
  assumes G: "gf_complete G" and C: "conv_conf_ok C" and "j < packetCnt (cc_conf C)" and "length bufs = Suc (cc_k C)"
    and bufs: "\<And>h. h < cc_k C \<Longrightarrow> bufs ! h = raw C h j" and "length acc = packetSize (cc_conf C)"
  shows "conv_sum G (cc_conf C) (map uint (cc_coefs C)) bufs (cc_k C) acc = Inr (total G C j)"
proof -
  let ?own = "own_pkt G (cc_conf C) (cc_coefs C) (cc_blks C)" and ?sum = "sum_pkt G (cc_conf C) (cc_coefs C) (cc_blks C)"
  have step: "memcpy_from (bufs ! h) 0 (int (packetSize (cc_conf C))) = Inr (raw C h j)"
    "rs_multiply G (raw C h j) (cc_coefs C ! h) (packetSize (cc_conf C)) = Inr (?own h j)" if "h < cc_k C" for h
    using length_raw[OF C that assms(3)] own_pkt_multiply[OF G] bufs[OF that] by (simp_all add: memcpy_from_def lost_pkt_def)
  have coef: "uint (cc_coefs C ! h) < 256" for h using uint_lt2p[of "cc_coefs C ! h"] by simp
  have "conv_sum G (cc_conf C) (map uint (cc_coefs C)) bufs (Suc n) acc = Inr (?sum n j)" if "n < cc_k C" for n
    using that
  proof (induction n)
    case 0
    have "memcpy_to acc 0 (?own 0 j) = Inr (?own 0 j)" using assms(6) by (simp add: memcpy_to_def overwrite_def)
    then show ?case using 0 assms(4) step[OF 0] coef by (simp add: conv_sum_Suc sum_pkt_0)
  next
    case (Suc n)
    have "XORBuffers (?sum n j) (?own (Suc n) j) (packetSize (cc_conf C)) = Inr (?sum (Suc n) j)"
      using C by (simp add: XORBuffers_def sum_pkt_Suc conv_conf_ok_def Let_def xor_bytes_commute)
    moreover have "conv_sum G (cc_conf C) (map uint (cc_coefs C)) bufs (Suc n) acc = Inr (?sum n j)" using Suc by simp
    ultimately show ?case
      using Suc.prems assms(4) step[OF Suc.prems] coef by (simp add: conv_sum_Suc[of _ _ _ _ "Suc n"] del: of_nat_Suc)
  qed
  from this[of "cc_k C - 1"] show ?thesis using C by (simp add: conv_conf_ok_def Let_def)
qed

lemma bufs_ok_update: "bufs_ok C bufs \<Longrightarrow> length b = packetSize (cc_conf C) \<Longrightarrow> bufs_ok C (bufs[i := b])"
  by (cases "i < length bufs") (auto simp: bufs_ok_def list_all_length nth_list_update)

lemma conv_req_invD:
  assumes "conv_req_inv G C r"
  shows "length (cr_idx r) = cc_k C" and "length (cr_pkts r) = packetCnt (cc_conf C)"
    and "cr_toPull r = fold min (cr_idx r) (packetCnt (cc_conf C))"
    and "\<And>h. h < cc_k C \<Longrightarrow> cr_idx r ! h \<le> packetCnt (cc_conf C)"
    and "\<And>j. j < packetCnt (cc_conf C) \<Longrightarrow> length (cr_pkts r ! j) = Suc (cc_k C)"
    and "\<And>j. j < packetCnt (cc_conf C) \<Longrightarrow> bufs_ok C (cr_pkts r ! j)"
    and "\<And>h j. h < cc_k C \<Longrightarrow> j < cr_idx r ! h \<Longrightarrow> cr_pkts r ! j ! h = raw C h j"
    and "\<And>j. j < cr_toSend r \<Longrightarrow> cr_pkts r ! j ! cc_k C = total G C j"
  using assms by (simp_all add: conv_req_inv_def bufs_ok_def Let_def)

text \<open>What a \<open>readThread\<close> takes off its list.\<close>

definition conv_pop :: "conv_case \<Rightarrow> nat \<Rightarrow> world \<Rightarrow> world" where
  "conv_pop C h w = w\<lparr>w_queues := (w_queues w)(cc_req C := (w_queues w (cc_req C))
     (ppr_key (cc_lost C) (int h) := tl (w_queues w (cc_req C) (ppr_key (cc_lost C) (int h)))))\<rparr>"

definition raw_queued :: "conv_case \<Rightarrow> nat \<Rightarrow> nat \<Rightarrow> nat \<Rightarrow> world \<Rightarrow> bool" where
  "raw_queued C h a s w \<longleftrightarrow> a \<le> s \<and> w_queues w (cc_req C) (ppr_key (cc_lost C) (int h)) = map (raw C h) [a..<s]"

lemma blpop_raw:
  assumes "raw_queued C h a s w"
  shows "blpop (cc_req C) (ppr_key (cc_lost C) (int h)) w = (if a < s then Inr (raw C h a, conv_pop C h w) else Inl Blocked)"
  using assms by (auto simp: raw_queued_def blpop_def conv_pop_def upt_conv_Cons)

lemma conv_fetch_ok:
  assumes C: "conv_conf_ok C" and ok: "conv_req_ok C r" and inv: "conv_req_inv G C r" and h: "h < cc_k C"
    and q: "raw_queued C h (cr_idx r ! h) s w" "cr_idx r ! h < s" and i: "cr_idx r ! h < packetCnt (cc_conf C)"
  shows "\<exists>r'. conv_fetch (cc_conf C) h w r = Inr (conv_pop C h w, r') \<and> conv_req_ok C r' \<and> conv_req_inv G C r' \<and>
    cr_idx r' = (cr_idx r)[h := Suc (cr_idx r ! h)] \<and> cr_cmd r' = cr_cmd r \<and> cr_toSend r' = cr_toSend r \<and> cr_sent r' = cr_sent r"
proof -
  let ?i = "cr_idx r ! h" and ?idx = "(cr_idx r)[h := Suc (cr_idx r ! h)]" and ?cnt = "packetCnt (cc_conf C)"
  let ?pkts = "(cr_pkts r)[cr_idx r ! h := (cr_pkts r ! (cr_idx r ! h))[h := raw C h (cr_idx r ! h)]]"
  note D = conv_req_invD[OF inv]
  have r: "length (cr_idx r) = cc_k C" "length (cr_pkts r) = ?cnt" "length (cr_pkts r ! ?i) = Suc (cc_k C)"
    "cr_toPull r = fold min (cr_idx r) ?cnt"
    using D i by simp_all
  note len = length_raw(1)[OF C h i]
  define toPull where "toPull = (if cr_toPull r < fold min ?idx ?cnt then Suc (cr_toPull r) else cr_toPull r)"
  have toPull: "toPull = fold min ?idx ?cnt" "cr_toPull r \<le> toPull"
    using fold_min_bump[of h "cr_idx r" ?cnt] h r(1,4) by (auto simp: toPull_def)
  let ?r = "r\<lparr>cr_pkts := ?pkts, cr_idx := ?idx, cr_toPull := toPull\<rparr>"
  have "conv_fetch (cc_conf C) h w r = Inr (conv_pop C h w, ?r)"
    using h r ok len blpop_raw[OF q(1)] q(2) i
    by (simp add: conv_fetch_def conv_req_ok_def memcpy_from_def toPull_def Let_def)
  moreover have "conv_req_inv G C ?r"
  proof -
    have "\<forall>j \<in> set ?idx. j \<le> ?cnt"
      using D(4) i r(1) h by (auto simp: all_set_conv_all_nth nth_list_update)
    moreover have "bufs_ok C (?pkts ! j)" if "j < ?cnt" for j
      using D(6)[OF that] bufs_ok_update[OF _ len] r(2) that by (cases "j = ?i") simp_all
    moreover have "?pkts ! j ! g = raw C g j" if g: "g < cc_k C" "j < ?idx ! g" for g j
    proof -
      consider "g = h" "j = ?i" | "j < cr_idx r ! g" "\<not> (g = h \<and> j = ?i)"
        using g h r(1) by (cases "g = h") (auto simp: less_Suc_eq)
      then show ?thesis
      proof cases
        case 1
        then show ?thesis using h r i by simp
      next
        case 2
        then show ?thesis using D(7)[OF g(1)] r i by (cases "j = ?i") auto
      qed
    qed
    moreover have "?pkts ! j ! cc_k C = total G C j" if "j < cr_toSend r" for j
      using D(8)[OF that] h r i by (cases "j = ?i") simp_all
    ultimately show ?thesis using inv toPull by (simp add: conv_req_inv_def Let_def)
  qed
  moreover have "conv_req_ok C ?r" using ok by (simp add: conv_req_ok_def)
  ultimately show ?thesis by (intro exI[of _ ?r]) simp
qed

lemma conv_compute_ok:
  assumes G: "gf_complete G" and C: "conv_conf_ok C" and ok: "conv_req_ok C r" and inv: "conv_req_inv G C r"
    and lt: "cr_toSend r < cr_toPull r"
  shows "\<exists>pkts. conv_compute G (cc_conf C) r = Inr (r\<lparr>cr_pkts := pkts, cr_toSend := Suc (cr_toSend r)\<rparr>) \<and>
    conv_req_inv G C (r\<lparr>cr_pkts := pkts, cr_toSend := Suc (cr_toSend r)\<rparr>)"
proof -
  let ?j = "cr_toSend r" and ?cnt = "packetCnt (cc_conf C)"
  let ?bufs = "cr_pkts r ! cr_toSend r"
  note D = conv_req_invD[OF inv]
  have "?j < fold min (cr_idx r) ?cnt" using D(3) lt by simp
  then have j: "?j < ?cnt" "\<And>h. h < cc_k C \<Longrightarrow> ?j < cr_idx r ! h"
    using D(1) unfolding fold_min_iff by (simp_all add: all_set_conv_all_nth)
  have bufs: "length ?bufs = Suc (cc_k C)" "\<And>h. h < cc_k C \<Longrightarrow> ?bufs ! h = raw C h ?j" "length (cr_pkts r) = ?cnt"
    using D(2,5,7) j by simp_all
  have bufs': "length (?bufs ! cc_k C) = packetSize (cc_conf C)" using D(6)[OF j(1)] by (simp add: bufs_ok_def list_all_length)
  have sum: "conv_sum G (cc_conf C) (map uint (cc_coefs C)) ?bufs (cc_k C) (?bufs ! cc_k C) = Inr (total G C ?j)"
    using conv_sum_ok[OF G C j(1) bufs(1,2) bufs'] .
  have total: "length (total G C ?j) = packetSize (cc_conf C)" by (simp add: sum_pkt_def)
  let ?pkts = "(cr_pkts r)[?j := ?bufs[cc_k C := total G C ?j]]"
  have "conv_compute G (cc_conf C) r = Inr (r\<lparr>cr_pkts := ?pkts, cr_toSend := Suc ?j\<rparr>)"
    using ok j(1) bufs sum by (auto simp: conv_compute_def conv_req_ok_def Let_def nth_append)
  moreover have "conv_req_inv G C (r\<lparr>cr_pkts := ?pkts, cr_toSend := Suc ?j\<rparr>)"
  proof -
    have "bufs_ok C (?pkts ! i)" if "i < ?cnt" for i
      using D(6)[OF that] bufs_ok_update[OF _ total] bufs(3) that by (cases "i = ?j") simp_all
    moreover have "?pkts ! i ! h = raw C h i" if "h < cc_k C" "i < cr_idx r ! h" for h i
      using D(7)[OF that] that bufs j by (cases "i = ?j") simp_all
    moreover have "?pkts ! i ! cc_k C = total G C i" if "i < Suc ?j" for i
      using D(8)[of i] that bufs j(1) by (cases "i = ?j") simp_all
    ultimately show ?thesis using inv lt bufs(3) by (simp add: conv_req_inv_def Let_def)
  qed
  ultimately show ?thesis by blast
qed

lemma conv_send_ok:
  assumes C: "conv_conf_ok C" and ok: "conv_req_ok C r" and inv: "conv_req_inv G C r" and lt: "cr_sent r < cr_toSend r"
  shows "conv_send (cc_conf C) w r = Inr (rpush (cc_req C) (cc_lost C) (total G C (cr_sent r)) w, r\<lparr>cr_sent := Suc (cr_sent r)\<rparr>)"
    and "conv_req_inv G C (r\<lparr>cr_sent := Suc (cr_sent r)\<rparr>)"
proof -
  let ?j = "cr_sent r" and ?cnt = "packetCnt (cc_conf C)"
  have "fold min (cr_idx r) ?cnt \<le> ?cnt" using fold_min_iff[of ?cnt "cr_idx r" ?cnt] by linarith
  then have j: "?j < ?cnt" using inv lt by (simp add: conv_req_inv_def Let_def)
  then have bufs: "length (cr_pkts r ! ?j) = Suc (cc_k C)" "cr_pkts r ! ?j ! cc_k C = total G C ?j" "length (cr_pkts r) = ?cnt"
    using conv_req_invD(2,5,8)[OF inv] lt by simp_all
  have len: "length (total G C ?j) = packetSize (cc_conf C)" by (simp add: sum_pkt_def)
  have "8 \<le> packetSize (cc_conf C)" using C by (auto simp: conv_conf_ok_def Let_def dvd_imp_le)
  then obtain x where x: "get_int (total G C ?j) 0 = Inr x" using len by (simp add: get_int_def memcpy_from_def)
  obtain b where "pktOutput ?j ?cnt = Inr b" using pktOutput_ok[OF _ j] C by (auto simp: conv_conf_ok_def Let_def)
  then show "conv_send (cc_conf C) w r = Inr (rpush (cc_req C) (cc_lost C) (total G C ?j) w, r\<lparr>cr_sent := Suc ?j\<rparr>)"
    using ok j bufs len x by (auto simp: conv_send_def conv_req_ok_def memcpy_from_def Let_def nat_add_distrib)
  show "conv_req_inv G C (r\<lparr>cr_sent := Suc ?j\<rparr>)" using inv lt by (simp add: conv_req_inv_def Let_def)
qed

section \<open>The cluster\<close>

definition conv_inv :: "gf_ops \<Rightarrow> conv_case \<Rightarrow> world \<times> conv_node list \<Rightarrow> bool" where
  "conv_inv G C st \<longleftrightarrow> (case st of (w, ns) \<Rightarrow> \<exists>ps r. ns = map Helper ps @ [Requestor r] \<and> length ps = cc_k C \<and>
     (\<forall>h < cc_k C. conv_helper_ok C w h (ps ! h) \<and> conv_helper_inv C h (ps ! h) \<and>
        raw_queued C h (cr_idx r ! h) (ch_sent (ps ! h)) w) \<and>
     conv_req_ok C r \<and> conv_req_inv G C r \<and> w_queues w (cc_req C) (cc_lost C) = map (total G C) [0..<cr_sent r])"

inductive_cases conv_helper_step: "conv_step G E conf (w, Helper p) (w', n')"
inductive_cases conv_req_step: "conv_step G E conf (w, Requestor r) (w', n')"
inductive_cases conv_clusterE: "conv_cluster G E conf (w, ns) (w', ns')"

text \<open>A step of a helper pushes its next packet, or touches no list.\<close>

lemma helper_step_cases:
  assumes C: "conv_conf_ok C" and E: "io_ok E" and h: "h < cc_k C" and ok: "conv_helper_ok C w h p"
    and inv: "conv_helper_inv C h p" and step: "conv_step G E (cc_conf C) (w, Helper p) (w', n')"
  obtains p' where "n' = Helper p'" "w' = w" "ch_sent p' = ch_sent p" "conv_helper_ok C w' h p'" "conv_helper_inv C h p'"
    | p' where "n' = Helper p'" "w' = rpush (cc_req C) (ppr_key (cc_lost C) (int h)) (raw C h (ch_sent p)) w"
      "ch_sent p' = Suc (ch_sent p)" "conv_helper_ok C w' h p'" "conv_helper_inv C h p'"
proof -
  from step show thesis
  proof (rule conv_helper_step)
    fix p' assume "n' = Helper p'" "w' = w" "length (ch_disk p) < packetCnt (cc_conf C)" "conv_read E (cc_conf C) w p = Inr p'"
    then show thesis
      using conv_read_ok[OF C E h ok inv] ok by (intro that(1)[of p']) (auto simp: conv_helper_ok_def)
  next
    fix p' assume "n' = Helper p'" "conv_ready p" "conv_pass (cc_conf C) w p = Inr (w', p')"
    then show thesis
      using conv_pass_ok[OF h ok] inv ok by (intro that(1)[of p']) (auto simp: conv_helper_ok_def)
  next
    fix p' assume "n' = Helper p'" "ch_sent p < ch_toSend p" "conv_push (cc_conf C) w p = Inr (w', p')"
    then show thesis
      using conv_push_ok[OF C h ok inv] ok by (intro that(2)[of p']) (auto simp: conv_helper_ok_def rpush_def)
  qed
qed

text \<open>A step of the requestor takes a packet of one helper, pushes a sum, or touches no list.\<close>

lemma req_step_cases:
  assumes G: "gf_complete G" and C: "conv_conf_ok C" and ok: "conv_req_ok C r" and inv: "conv_req_inv G C r"
    and q: "\<forall>h < cc_k C. \<exists>s. raw_queued C h (cr_idx r ! h) s w"
    and step: "conv_step G E (cc_conf C) (w, Requestor r) (w', n')"
  obtains r' h where "n' = Requestor r'" "h < cc_k C" "w' = conv_pop C h w" "cr_idx r' = (cr_idx r)[h := Suc (cr_idx r ! h)]"
      "cr_sent r' = cr_sent r" "\<not> raw_queued C h (cr_idx r ! h) (cr_idx r ! h) w" "conv_req_ok C r'" "conv_req_inv G C r'"
    | r' where "n' = Requestor r'" "w' = w" "cr_idx r' = cr_idx r" "cr_sent r' = cr_sent r" "conv_req_ok C r'" "conv_req_inv G C r'"
    | r' where "n' = Requestor r'" "w' = rpush (cc_req C) (cc_lost C) (total G C (cr_sent r)) w" "cr_idx r' = cr_idx r"
      "cr_sent r' = Suc (cr_sent r)" "conv_req_ok C r'" "conv_req_inv G C r'"
proof -
  have one: "length (cv_jobs (cr_cmd r)) = 1" using ok by (auto simp: conv_req_ok_def)
  from step show thesis
  proof (rule conv_req_step)
    fix h r' assume n': "n' = Requestor r'" and h: "h < length (cr_idx r)" "cr_idx r ! h < packetCnt (cc_conf C)"
      and run: "conv_fetch (cc_conf C) h w r = Inr (w', r')"
    have hk: "h < cc_k C" using h(1) conv_req_invD(1)[OF inv] by simp
    then obtain s where s: "raw_queued C h (cr_idx r ! h) s w" using q by blast
    have lt: "cr_idx r ! h < s"
    proof (rule ccontr)
      assume "\<not> ?thesis"
      then have "blpop (cc_req C) (ppr_key (cc_lost C) (int h)) w = Inl Blocked" using blpop_raw[OF s] by simp
      then show False using run ok h(1) by (simp add: conv_fetch_def conv_req_ok_def)
    qed
    have ne: "\<not> raw_queued C h (cr_idx r ! h) (cr_idx r ! h) w" using s lt by (auto simp: raw_queued_def)
    from conv_fetch_ok[OF C ok inv hk s lt h(2)] show thesis using run n' hk ne that(1)[of r' h] by auto
  next
    fix r' assume "n' = Requestor r'" "w' = w" "cr_toSend r div length (cv_jobs (cr_cmd r)) < cr_toPull r"
      "conv_compute G (cc_conf C) r = Inr r'"
    then show thesis
      using conv_compute_ok[OF G C ok inv] ok one that(2)[of r'] by (auto simp: conv_req_ok_def)
  next
    fix r' assume "n' = Requestor r'" "cr_sent r < cr_toSend r" "conv_send (cc_conf C) w r = Inr (w', r')"
    then show thesis
      using conv_send_ok[OF C ok inv] ok that(3)[of r'] by (auto simp: conv_req_ok_def)
  qed
qed

lemma conv_step_inv:
  assumes G: "gf_complete G" and E: "io_ok E" and C: "conv_conf_ok C" and inv: "conv_inv G C st"
    and step: "conv_cluster G E (cc_conf C) st st'"
  shows "conv_inv G C st'"
proof -
  obtain w ns w' ns' where st: "st = (w, ns)" "st' = (w', ns')" by (cases st; cases st')
  obtain ps r where ns: "ns = map Helper ps @ [Requestor r]" "length ps = cc_k C"
    and helpers: "\<And>h. h < cc_k C \<Longrightarrow> conv_helper_ok C w h (ps ! h) \<and> conv_helper_inv C h (ps ! h) \<and>
      raw_queued C h (cr_idx r ! h) (ch_sent (ps ! h)) w"
    and req: "conv_req_ok C r" "conv_req_inv G C r" and out: "w_queues w (cc_req C) (cc_lost C) = map (total G C) [0..<cr_sent r]"
    using inv by (auto simp: conv_inv_def st)
  obtain n n' where n: "n < length ns" "conv_step G E (cc_conf C) (w, ns ! n) (w', n')" "ns' = ns[n := n']"
    using step unfolding st by (auto elim: conv_clusterE)
  show ?thesis
  proof (cases "n < cc_k C")
    case True
    note hn = helpers[OF True]
    have nth: "ns ! n = Helper (ps ! n)" using True ns by (simp add: nth_append)
    have upd: "ns' = map Helper (ps[n := p]) @ [Requestor r]" if "n' = Helper p" for p
      using True ns n(3) that by (simp add: list_update_append map_update)
    have same: "conv_helper_ok C w' h (ps ! h)" if "h < cc_k C" "w_files w' = w_files w" for h
      using helpers[OF that(1)] that(2) by (simp add: conv_helper_ok_def)
    show ?thesis
    proof (cases rule: helper_step_cases[OF C E True conjunct1[OF hn] conjunct1[OF conjunct2[OF hn]] n(2)[unfolded nth], case_names quiet push])
      case (quiet p')
      then show ?thesis
        unfolding conv_inv_def st using helpers hn True req out ns(2) upd[OF quiet(1)]
        by (intro case_prodI exI[of _ "ps[n := p']"] exI[of _ r]) (auto simp: nth_list_update)
    next
      case (push p')
      have "raw_queued C h (cr_idx r ! h) (ch_sent (ps[n := p'] ! h)) w'" if "h < cc_k C" for h
        using helpers[OF that] ns(2) push(2,3) that
        by (cases "h = n") (auto simp: raw_queued_def rpush_def ppr_key_inj)
      moreover have "w_queues w' (cc_req C) (cc_lost C) = map (total G C) [0..<cr_sent r]"
        using out push(2) by (simp add: rpush_def ppr_key_lost)
      moreover have "w_files w' = w_files w" using push(2) by (simp add: rpush_def)
      ultimately show ?thesis
        unfolding conv_inv_def st using helpers same True req ns(2) upd[OF push(1)] push(4,5)
        by (intro case_prodI exI[of _ "ps[n := p']"] exI[of _ r]) (auto simp: nth_list_update)
    qed
  next
    case False
    then have nk: "n = cc_k C" using n(1) ns by simp
    have nth: "ns ! n = Requestor r" using nk ns by (simp add: nth_append)
    have upd: "ns' = map Helper ps @ [Requestor r']" if "n' = Requestor r'" for r'
      using nk ns n(3) that by (simp add: list_update_append)
    have same: "conv_helper_ok C w' h (ps ! h)" if "h < cc_k C" "w_files w' = w_files w" for h
      using helpers[OF that(1)] that(2) by (simp add: conv_helper_ok_def)
    have q: "\<forall>h < cc_k C. \<exists>s. raw_queued C h (cr_idx r ! h) s w" using helpers by blast
    show ?thesis
    proof (cases rule: req_step_cases[OF G C req q n(2)[unfolded nth], case_names fetch quiet send])
      case (fetch r' h)
      have "raw_queued C g (cr_idx r' ! g) (ch_sent (ps ! g)) w'" if "g < cc_k C" for g
        using helpers[OF that] fetch(2-4,6) conv_req_invD(1)[OF req(2)]
        by (cases "g = h") (auto simp: raw_queued_def conv_pop_def upt_conv_Cons ppr_key_inj)
      moreover have "w_queues w' (cc_req C) (cc_lost C) = map (total G C) [0..<cr_sent r']"
        using out fetch(3,5) by (simp add: conv_pop_def ppr_key_lost)
      moreover have "w_files w' = w_files w" using fetch(3) by (simp add: conv_pop_def)
      ultimately show ?thesis
        unfolding conv_inv_def st using helpers same ns(2) upd[OF fetch(1)] fetch(7,8)
        by (intro case_prodI exI[of _ ps] exI[of _ r']) simp
    next
      case (quiet r')
      then show ?thesis
        unfolding conv_inv_def st using helpers out ns(2) upd[OF quiet(1)]
        by (intro case_prodI exI[of _ ps] exI[of _ r']) simp
    next
      case (send r')
      have "raw_queued C g (cr_idx r' ! g) (ch_sent (ps ! g)) w'" if "g < cc_k C" for g
        using helpers[OF that] send(2,3) by (simp add: raw_queued_def rpush_def ppr_key_lost)
      moreover have "w_queues w' (cc_req C) (cc_lost C) = map (total G C) [0..<cr_sent r']"
        using out send(2,4) by (simp add: rpush_def)
      moreover have "w_files w' = w_files w" using send(2) by (simp add: rpush_def)
      ultimately show ?thesis
        unfolding conv_inv_def st using helpers same ns(2) upd[OF send(1)] send(5,6)
        by (intro case_prodI exI[of _ ps] exI[of _ r']) simp
    qed
  qed
qed

lemma conv_reachable:
  assumes "gf_complete G" and "io_ok E" and "conv_conf_ok C" and "(conv_cluster G E (cc_conf C))\<^sup>*\<^sup>* st st'" and "conv_inv G C st"
  shows "conv_inv G C st'"
  using assms(4,5) by (induction rule: rtranclp_induct) (auto intro: conv_step_inv[OF assms(1-3)])

section \<open>Progress\<close>

fun conv_todo :: "repair_config \<Rightarrow> conv_node \<Rightarrow> nat" where
  "conv_todo conf (Helper p) =
     (packetCnt conf - length (ch_disk p)) + (packetCnt conf - ch_toSend p) + (packetCnt conf - ch_sent p)"
| "conv_todo conf (Requestor r) =
     sum_list (map (\<lambda>i. packetCnt conf - i) (cr_idx r)) + (packetCnt conf * length (cv_jobs (cr_cmd r)) - cr_toSend r) +
     (packetCnt conf * length (cv_jobs (cr_cmd r)) - cr_sent r)"

lemma helper_can_step:
  assumes C: "conv_conf_ok C" and E: "io_ok E" and h: "h < cc_k C" and ok: "conv_helper_ok C w h p" and inv: "conv_helper_inv C h p"
    and "\<not> conv_finished (cc_conf C) (Helper p)"
  shows "\<exists>w' n'. conv_step G E (cc_conf C) (w, Helper p) (w', n') \<and> conv_todo (cc_conf C) n' < conv_todo (cc_conf C) (Helper p)"
proof -
  let ?cnt = "packetCnt (cc_conf C)"
  have le: "ch_sent p \<le> ch_toSend p" "ch_toSend p \<le> length (ch_disk p)" "length (ch_disk p) \<le> ?cnt"
    using inv by (simp_all add: conv_helper_inv_def)
  consider "length (ch_disk p) < ?cnt" | "length (ch_disk p) = ?cnt" "ch_toSend p < ?cnt"
    | "ch_toSend p = ?cnt" "ch_sent p < ?cnt"
    using assms(6) le by (fastforce simp: conv_finished_def)
  then show ?thesis
  proof cases
    case 1
    from conv_step.Read[OF 1 conv_read_ok(1)[OF C E h ok inv 1]] show ?thesis using 1 by fastforce
  next
    case 2
    then have "conv_ready p" using conv_pass_ok(2)[OF h ok] by simp
    from conv_step.Pass[OF 2(2) this conv_pass_ok(1)[OF h ok]] show ?thesis using 2(2) by fastforce
  next
    case 3
    then have lt: "ch_sent p < ch_toSend p" by simp
    from conv_step.Push[OF 3(2) lt conv_push_ok(1)[OF C h ok inv lt]] show ?thesis using 3(2) by fastforce
  qed
qed

lemma req_can_step:
  assumes G: "gf_complete G" and C: "conv_conf_ok C" and ok: "conv_req_ok C r" and inv: "conv_req_inv G C r"
    and q: "\<And>h. h < cc_k C \<Longrightarrow> raw_queued C h (cr_idx r ! h) (packetCnt (cc_conf C)) w"
    and "\<not> conv_finished (cc_conf C) (Requestor r)"
  shows "\<exists>w' n'. conv_step G E (cc_conf C) (w, Requestor r) (w', n') \<and> conv_todo (cc_conf C) n' < conv_todo (cc_conf C) (Requestor r)"
proof -
  let ?cnt = "packetCnt (cc_conf C)"
  note D = conv_req_invD[OF inv]
  have one: "length (cv_jobs (cr_cmd r)) = 1" using ok by (auto simp: conv_req_ok_def)
  have le: "cr_sent r \<le> cr_toSend r" "cr_toSend r \<le> cr_toPull r" using inv by (simp_all add: conv_req_inv_def Let_def)
  show ?thesis
  proof (cases "\<exists>h < cc_k C. cr_idx r ! h < ?cnt")
    case True
    then obtain h where h: "h < cc_k C" "cr_idx r ! h < ?cnt" by blast
    from conv_fetch_ok[OF C ok inv h(1) q[OF h(1)] h(2) h(2)] obtain r' where
      r': "conv_fetch (cc_conf C) h w r = Inr (conv_pop C h w, r')" "cr_idx r' = (cr_idx r)[h := Suc (cr_idx r ! h)]"
      "cr_cmd r' = cr_cmd r" "cr_toSend r' = cr_toSend r" "cr_sent r' = cr_sent r" by blast
    have "h < length (cr_idx r)" using h(1) D(1) by simp
    from conv_step.Fetch[OF this h(2) r'(1)] todo_fetch[OF this h(2)] r' show ?thesis by fastforce
  next
    case False
    then have all: "\<forall>i \<in> set (cr_idx r). i = ?cnt" using D(1,4) by (auto simp: all_set_conv_all_nth le_less)
    then have pull: "cr_toPull r = ?cnt" using D(3) fold_min_const by simp
    consider "cr_toSend r < ?cnt" | "cr_toSend r = ?cnt" "cr_sent r < ?cnt"
      using assms(6) le pull all one by (fastforce simp: conv_finished_def list_all_iff)
    then show ?thesis
    proof cases
      case 1
      then obtain pkts where run: "conv_compute G (cc_conf C) r = Inr (r\<lparr>cr_pkts := pkts, cr_toSend := Suc (cr_toSend r)\<rparr>)"
        using conv_compute_ok[OF G C ok inv] pull by auto
      have "cr_toSend r < ?cnt * length (cv_jobs (cr_cmd r))" "cr_toSend r div length (cv_jobs (cr_cmd r)) < cr_toPull r"
        using 1 one pull by simp_all
      from conv_step.Compute[OF this run] show ?thesis using 1 one by fastforce
    next
      case 2
      then have lt: "cr_sent r < cr_toSend r" "cr_sent r < ?cnt * length (cv_jobs (cr_cmd r))" using one by simp_all
      from conv_step.Send[OF lt(2,1) conv_send_ok(1)[OF C ok inv lt(1)]] show ?thesis using 2 one by fastforce
    qed
  qed
qed

lemma conv_progress:
  assumes G: "gf_complete G" and E: "io_ok E" and C: "conv_conf_ok C" and inv: "conv_inv G C (w, ns)"
    and "\<not> list_all (conv_finished (cc_conf C)) ns"
  shows "\<exists>w' ns'. conv_cluster G E (cc_conf C) (w, ns) (w', ns') \<and>
    sum_list (map (conv_todo (cc_conf C)) ns') < sum_list (map (conv_todo (cc_conf C)) ns)"
proof -
  obtain ps r where ns: "ns = map Helper ps @ [Requestor r]" "length ps = cc_k C"
    and helpers: "\<And>h. h < cc_k C \<Longrightarrow> conv_helper_ok C w h (ps ! h) \<and> conv_helper_inv C h (ps ! h) \<and>
      raw_queued C h (cr_idx r ! h) (ch_sent (ps ! h)) w"
    and req: "conv_req_ok C r" "conv_req_inv G C r"
    using inv by (auto simp: conv_inv_def)
  obtain n where n: "n < length ns" "\<not> conv_finished (cc_conf C) (ns ! n)"
    and before: "\<And>m. m < n \<Longrightarrow> conv_finished (cc_conf C) (ns ! m)"
    using first_not[OF assms(5)] by blast
  have "\<exists>w' n'. conv_step G E (cc_conf C) (w, ns ! n) (w', n') \<and> conv_todo (cc_conf C) n' < conv_todo (cc_conf C) (ns ! n)"
  proof (cases "n < cc_k C")
    case True
    then have "ns ! n = Helper (ps ! n)" using ns by (simp add: nth_append)
    then show ?thesis using helper_can_step[OF C E True] helpers[OF True] n(2) by metis
  next
    case False
    then have n': "n = cc_k C" "ns ! n = Requestor r" using n(1) ns by (simp_all add: nth_append)
    have "raw_queued C h (cr_idx r ! h) (packetCnt (cc_conf C)) w" if "h < cc_k C" for h
      using helpers[OF that] before[of h] that ns n'(1) by (simp add: nth_append conv_finished_def)
    from req_can_step[OF G C req this] show ?thesis using n(2) n'(2) by metis
  qed
  then show ?thesis
    using conv_cluster.intros[OF n(1)] sum_list_update_less[of n ns "conv_todo (cc_conf C)", OF n(1)] by blast
qed

lemma conv_can_finish:
  assumes G: "gf_complete G" and E: "io_ok E" and C: "conv_conf_ok C" and "conv_inv G C (w, ns)"
  shows "\<exists>w' ns'. (conv_cluster G E (cc_conf C))\<^sup>*\<^sup>* (w, ns) (w', ns') \<and> list_all (conv_finished (cc_conf C)) ns'"
proof -
  have "\<exists>st'. conv_cluster G E (cc_conf C) st st' \<and>
      sum_list (map (conv_todo (cc_conf C)) (snd st')) < sum_list (map (conv_todo (cc_conf C)) (snd st))"
    if "conv_inv G C st" "\<not> list_all (conv_finished (cc_conf C)) (snd st)" for st
    using conv_progress[OF G E C, of "fst st" "snd st"] that by auto
  from can_finish[where I = "conv_inv G C" and R = "conv_cluster G E (cc_conf C)" and P = "\<lambda>st. list_all (conv_finished (cc_conf C)) (snd st)"
      and m = "\<lambda>st. sum_list (map (conv_todo (cc_conf C)) (snd st))", OF this _ assms(4)]
  show ?thesis using conv_step_inv[OF G E C] by fastforce
qed

section \<open>What the client finds\<close>

lemma conv_delivers:
  assumes G: "gf_complete G" and E: "io_ok E" and C: "conv_conf_ok C" and inv: "conv_inv G C st"
    and lost: "\<And>j. j < packetCnt (cc_conf C) \<Longrightarrow> total G C j = g j"
  shows "delivers (conv_cluster G E (cc_conf C)) (list_all (conv_finished (cc_conf C))) (cc_req C) (cc_lost C)
    (map g [0..<packetCnt (cc_conf C)]) st"
proof (rule deliversI)
  let ?cnt = "packetCnt (cc_conf C)"
  fix w ns assume "(conv_cluster G E (cc_conf C))\<^sup>*\<^sup>* st (w, ns)"
  then have inv': "conv_inv G C (w, ns)" by (rule conv_reachable[OF G E C _ inv])
  then obtain ps r where ns: "ns = map Helper ps @ [Requestor r]" and req: "conv_req_ok C r" "conv_req_inv G C r"
    and out: "w_queues w (cc_req C) (cc_lost C) = map (total G C) [0..<cr_sent r]"
    by (auto simp: conv_inv_def)
  have "fold min (cr_idx r) ?cnt \<le> ?cnt" using fold_min_iff[of ?cnt "cr_idx r" ?cnt] by linarith
  then have sent: "cr_sent r \<le> ?cnt" using req(2) by (simp add: conv_req_inv_def Let_def)
  have out': "w_queues w (cc_req C) (cc_lost C) = map g [0..<cr_sent r]" using out lost sent by simp
  have "cr_sent r = ?cnt" if "list_all (conv_finished (cc_conf C)) ns"
    using that req(1) by (auto simp: ns conv_finished_def conv_req_ok_def)
  with out' sent show "(\<exists>n \<le> ?cnt. w_queues w (cc_req C) (cc_lost C) = map g [0..<n]) \<and>
      (\<exists>w' ns'. (conv_cluster G E (cc_conf C))\<^sup>*\<^sup>* (w, ns) (w', ns') \<and> list_all (conv_finished (cc_conf C)) ns') \<and>
      (list_all (conv_finished (cc_conf C)) ns \<longrightarrow> w_queues w (cc_req C) (cc_lost C) = map g [0..<?cnt])"
    using conv_can_finish[OF G E C inv'] by auto
qed

end
