(* ===== verification/Conv_Serve.thy ===== *)
theory Conv_Serve
  imports Conv_Worker Ppr_Serve
begin

text \<open>The nodes of a conventional repair as a source of packets for the client.\<close>

definition conv_node_for :: "string \<Rightarrow> conv_node \<Rightarrow> bool" where
  "conv_node_for f n \<longleftrightarrow> (case n of
     Helper p \<Rightarrow> cv_lostBlkName (ch_cmd p) = f \<and> cv_id (ch_cmd p) \<noteq> cv_ecK (ch_cmd p)
   | Requestor r \<Rightarrow> cr_lost r = f)"

definition conv_for :: "string \<Rightarrow> conv_node list \<Rightarrow> bool" where
  "conv_for f ns \<longleftrightarrow> list_all (conv_node_for f) ns"

lemma conv_read_key:
  "conv_read E conf (with_key f Q w) p = conv_read E conf w p"
  "conv_read E conf w p = Inr p' \<Longrightarrow> ch_cmd p' = ch_cmd p"
  by (auto simp: conv_read_def res_simps Let_def split: option.splits)

lemma conv_pass_key:
  assumes "cv_id (ch_cmd p) \<noteq> cv_ecK (ch_cmd p)"
  shows "conv_pass conf w p = Inr (w, p\<lparr>ch_toSend := Suc (ch_toSend p)\<rparr>)"
  using assms by (simp add: conv_pass_def Let_def)

lemma conv_fetch_key:
  assumes "conv_fetch conf ident w r = Inr (w', r')" and "cr_lost r = f"
  shows "w_queues w' ip f = w_queues w ip f" and "conv_fetch conf ident (with_key f Q w) r = Inr (with_key f Q w', r')"
    and "cr_lost r' = cr_lost r"
  using assms blpop_other_key[of "ppr_key f _" f]
  by (auto simp: conv_fetch_def blpop_with_key res_simps Let_def split: option.splits prod.splits)

lemma conv_compute_lost: "conv_compute G conf r = Inr r' \<Longrightarrow> cr_lost r' = cr_lost r"
  by (auto simp: conv_compute_def res_simps Let_def)

lemma conv_push_key:
  assumes "conv_push conf w p = Inr (w', p')"
  shows "\<exists>N. (\<forall>ip. w_queues w' ip f = w_queues w ip f @ N ip) \<and>
      (\<forall>Q. conv_push conf (with_key f Q w) p = Inr (with_key f (\<lambda>ip. Q ip @ N ip) w', p'))"
    and "ch_cmd p' = ch_cmd p"
proof -
  obtain ip key msg where "w' = rpush ip key msg w" "\<And>v. conv_push conf v p = Inr (rpush ip key msg v, p')"
    using assms by (auto simp: conv_push_def res_simps Let_def split: option.splits)
  then show "\<exists>N. (\<forall>ip. w_queues w' ip f = w_queues w ip f @ N ip) \<and>
      (\<forall>Q. conv_push conf (with_key f Q w) p = Inr (with_key f (\<lambda>ip. Q ip @ N ip) w', p'))"
    by (rule push_key)
  show "ch_cmd p' = ch_cmd p" using assms by (auto simp: conv_push_def res_simps Let_def split: option.splits)
qed

lemma conv_send_key:
  assumes "conv_send conf w r = Inr (w', r')"
  shows "\<exists>N. (\<forall>ip. w_queues w' ip f = w_queues w ip f @ N ip) \<and>
      (\<forall>Q. conv_send conf (with_key f Q w) r = Inr (with_key f (\<lambda>ip. Q ip @ N ip) w', r'))"
    and "cr_lost r' = cr_lost r"
proof -
  obtain ip key msg where "w' = rpush ip key msg w" "\<And>v. conv_send conf v r = Inr (rpush ip key msg v, r')"
    using assms by (auto simp: conv_send_def res_simps Let_def)
  then show "\<exists>N. (\<forall>ip. w_queues w' ip f = w_queues w ip f @ N ip) \<and>
      (\<forall>Q. conv_send conf (with_key f Q w) r = Inr (with_key f (\<lambda>ip. Q ip @ N ip) w', r'))"
    by (rule push_key)
  show "cr_lost r' = cr_lost r" using assms by (auto simp: conv_send_def res_simps Let_def)
qed

lemma conv_step_key:
  assumes "conv_step G E conf (w, n) (w', n')" and f: "conv_node_for f n"
  shows "\<exists>N. (\<forall>ip. w_queues w' ip f = w_queues w ip f @ N ip) \<and>
      (\<forall>Q. conv_step G E conf (with_key f Q w, n) (with_key f (\<lambda>ip. Q ip @ N ip) w', n'))" (is "\<exists>N. ?P N")
    and "conv_node_for f n'"
proof -
  show "\<exists>N. ?P N"
    using assms(1)
  proof cases
    case (Read p p')
    then have "?P (\<lambda>_. [])" by (simp add: conv_step.Read conv_read_key)
    then show ?thesis by (rule exI[of ?P])
  next
    case (Pass p p')
    then have "cv_id (ch_cmd p) \<noteq> cv_ecK (ch_cmd p)" using f by (simp add: conv_node_for_def)
    note pass = conv_pass_key[OF this]
    have "?P (\<lambda>_. [])" using Pass conv_step.Pass[OF Pass(3,4) pass] by (simp add: pass)
    then show ?thesis by (rule exI[of ?P])
  next
    case (Push p p')
    obtain N where "\<And>ip. w_queues w' ip f = w_queues w ip f @ N ip"
      "\<And>Q. conv_push conf (with_key f Q w) p = Inr (with_key f (\<lambda>ip. Q ip @ N ip) w', p')"
      using conv_push_key(1)[OF Push(5), of f] by blast
    then have "?P N" using conv_step.Push[OF Push(3,4)] Push(1,2) by blast
    then show ?thesis by (rule exI[of ?P])
  next
    case (Fetch ident r r')
    then have "cr_lost r = f" using f by (simp add: conv_node_for_def)
    note fetch = conv_fetch_key[OF Fetch(5) this]
    have "?P (\<lambda>_. [])" using fetch(1) conv_step.Fetch[OF Fetch(3,4) fetch(2)] Fetch(1,2) by simp
    then show ?thesis by (rule exI[of ?P])
  next
    case (Compute r r')
    then have "?P (\<lambda>_. [])" by (simp add: conv_step.Compute)
    then show ?thesis by (rule exI[of ?P])
  next
    case (Send r r')
    obtain N where "\<And>ip. w_queues w' ip f = w_queues w ip f @ N ip"
      "\<And>Q. conv_send conf (with_key f Q w) r = Inr (with_key f (\<lambda>ip. Q ip @ N ip) w', r')"
      using conv_send_key(1)[OF Send(5), of f] by blast
    then have "?P N" using conv_step.Send[OF Send(3,4)] Send(1,2) by blast
    then show ?thesis by (rule exI[of ?P])
  qed
  show "conv_node_for f n'"
    using assms(1)
  proof cases
    case (Pass p p')
    then show ?thesis using f conv_pass_key[of p conf w] by (auto simp: conv_node_for_def)
  next
    case (Fetch ident r r')
    then show ?thesis using f conv_fetch_key(3)[OF Fetch(5) refl] by (simp add: conv_node_for_def)
  qed (use f in \<open>simp_all add: conv_node_for_def conv_read_key(2) conv_push_key(2) conv_compute_lost conv_send_key(2)\<close>)
qed

interpretation conv_src: packet_source "conv_cluster G E conf" conv_for for G E conf
proof
  fix w ns w' ns' f
  assume step: "conv_cluster G E conf (w, ns) (w', ns')" and works: "conv_for f ns"
  from step obtain h n' where h: "h < length ns" "conv_step G E conf (w, ns ! h) (w', n')" "ns' = ns[h := n']"
    by (auto elim: conv_cluster.cases)
  have f: "conv_node_for f (ns ! h)" using works h(1) by (simp add: conv_for_def list_all_length)
  obtain N where N: "\<And>ip. w_queues w' ip f = w_queues w ip f @ N ip"
    "\<And>Q. conv_step G E conf (with_key f Q w, ns ! h) (with_key f (\<lambda>ip. Q ip @ N ip) w', n')"
    using conv_step_key(1)[OF h(2) f] by blast
  show "conv_for f ns'"
    using works conv_step_key(2)[OF h(2) f] h(1) by (simp add: conv_for_def list_all_length nth_list_update h(3))
  show "\<exists>N. (\<forall>ip. w_queues w' ip f = w_queues w ip f @ N ip) \<and>
      (\<forall>Q. conv_cluster G E conf (with_key f Q w, ns) (with_key f (\<lambda>ip. Q ip @ N ip) w', ns'))"
    using N(1) conv_cluster.intros[OF h(1) N(2)] unfolding h(3) by (intro exI[of _ N]) blast
qed

end
