(* ===== verification/Conv_Repair.thy ===== *)
theory Conv_Repair
  imports Conv_Coordinator Conv_Sum Conv_Serve Hdfs_Store
begin

text \<open>
  The conventional repair of a block from the request to the repaired packets: the metadata base chooses the helpers by
  the status of the blocks, the coordinator marks them and asks for the coefficients, it sends the commands, the nodes start, and
  the requestor ends up with the lost block.
\<close>

section \<open>The blocks of the stripe and their status\<close>

lemma placed_knows:
  assumes placed: "hdfs_placed m names loc" and f: "f \<in> set names"
  shows "\<exists>blks. knows_blk (hdfs_metadata G rs conf HE m) f (loc f) blks \<and> om_ok blks \<and> set blks = (\<lambda>b. (loc b, b)) ` set names"
proof -
  obtain sid where sid: "sid < length (hm_Ip2BlkNames m)" "map_of (hm_blkName2StripeId m) f = Some sid"
    "om_ok (hm_Ip2BlkNames m ! sid)" "set (hm_Ip2BlkNames m ! sid) = (\<lambda>b. (loc b, b)) ` set names"
    using assms by (auto simp: hdfs_placed_def)
  have "hdfs_getAllBlks m f = Inr (hm_Ip2BlkNames m ! sid)" using sid by (simp add: hdfs_getAllBlks_def)
  moreover have "hdfs_getIPfromBlk m b = Inr (loc b)" if "b \<in> set names" for b
    using placed that by (simp add: hdfs_placed_def hdfs_getIPfromBlk_def)
  ultimately show ?thesis
    using sid(3,4) f by (auto simp: knows_blk_def hdfs_metadata_def)
qed

lemma placed_status:
  assumes blks: "set blks = (\<lambda>b. (loc b, b)) ` set names" and f: "f \<in> set names"
  shows "lost_status names f (om_put f 0 (single_status f blks))"
proof -
  have "om_ok (om_put f 0 (single_status f blks))"
    by (auto simp: single_status_def om_ok_def[of "[]"] intro!: om_ok_put om_ok_fold_put)
  moreover have "map_of (om_put f 0 (single_status f blks)) b = Some (if b = f then 0 else 1)" if "b \<in> set names" for b
    using blks that by (auto simp: single_status_def map_of_om_put map_of_fold_put image_iff)
  moreover have "fst ` set (om_put f 0 (single_status f blks)) = set names"
    using f by (auto simp: single_status_def fst_set_om_put fst_set_fold_put blks image_image)
  ultimately show ?thesis by (simp add: lost_status_def)
qed

text \<open>Every helper has only one block of the stripe, so that the marks are at the blocks the helpers send.\<close>

lemma conv_status_eq:
  assumes blks: "om_ok blks" "set blks = (\<lambda>b. (loc b, b)) ` set names" and "set hs \<subseteq> set blks"
  shows "conv_status blks (map fst hs) status = fold (\<lambda>(_, b). om_put b 2) hs status"
  using assms(3)
proof (induction hs arbitrary: status)
  case (Cons h hs)
  obtain ip b where h: "h = (ip, b)" by (cases h)
  have mem: "(ip, b) \<in> set blks" using Cons.prems by (simp add: h)
  have dist: "distinct (map fst blks)" using blks(1) by (simp add: om_ok_def strict_sorted_iff)
  then have only: "c = b" if "(ip, c) \<in> set blks" for c
    using that mem by (metis map_of_is_SomeI option.inject)
  have "(ip, b) \<in> set (filter (\<lambda>(a, _). a = ip) blks)" using mem by simp
  then obtain x xs where xs: "filter (\<lambda>(a, _). a = ip) blks = x # xs" by (cases "filter (\<lambda>(a, _). a = ip) blks") auto
  have "x \<in> set (filter (\<lambda>(a, _). a = ip) blks)" unfolding xs by simp
  then have "x \<in> set blks" "fst x = ip" by auto
  then have "x = (ip, b)" using only[of "snd x"] by (metis prod.collapse)
  then show ?case using Cons xs by (simp add: conv_status_def h)
qed (simp add: conv_status_def)

lemma marked_helpers:
  assumes st: "lost_status names f status"
  shows "helpers_of (fold (\<lambda>(_, b). om_put b 2) hs status) = snd ` set hs"
proof -
  let ?s = "fold (\<lambda>(_, b). om_put b 2) hs status"
  have "om_ok status" using st by (simp add: lost_status_def)
  then have "om_ok ?s" by (rule om_ok_fold_put)
  then have "distinct (map fst ?s)" by (simp add: om_ok_def strict_sorted_iff)
  then have "helpers_of ?s = {b. map_of ?s b = Some 2}" by (auto simp: helpers_of_def)
  moreover have "map_of status b \<noteq> Some 2" for b
    using lost_status_entry(2)[OF st, of b 2] by (auto dest!: map_of_SomeD split: if_splits)
  ultimately show ?thesis by (auto simp: map_of_fold_put split: if_splits)
qed

lemma placed_recovers:
  assumes G: "gf_complete G" and rs: "rs_ecK rs = k" "rs_ecN rs = length names" "length (rs_encMat rs) = k * (length names - k)"
    and placed: "hdfs_placed m names loc" and f: "f \<in> set names" and k: "k < length names" and st: "lost_status names f status"
    and hs: "distinct hs" "set hs = (\<lambda>b. (loc b, b)) ` set (name_helpers k names f)"
    and code: "is_stripe G k (complete_enc_mat k (length names) (rs_encMat rs)) data sz (map content names)"
      "left_invertible G k (rows_of k (complete_enc_mat k (length names) (rs_encMat rs))
        (filter (\<lambda>i. names ! i \<in> set (name_helpers k names f)) [0..<length names]))"
  shows "\<exists>coef. hdfs_getCoefficient G rs m f (Some (fold (\<lambda>(_, b). om_put b 2) hs status)) = Inr coef \<and>
    recovers G coef hs content (content f)"
proof -
  let ?st = "fold (\<lambda>(_, b). om_put b 2) hs status"
  have snd: "snd ` set hs = set (name_helpers k names f)" unfolding hs(2) image_image by simp
  have H: "helpers_of ?st = set (name_helpers k names f)" by (simp add: marked_helpers[OF st] snd)
  have known: "stripe_known m names" "distinct names" using placed by (simp_all add: hdfs_placed_def stripe_known_def)
  obtain idx where idx: "idx < length names" "names ! idx = f" using f by (auto simp: in_set_conv_nth)
  note helpers = name_helpers_ok[OF known(2) f k]
  have "card (helpers_of ?st) = k" using helpers(1,2) distinct_card unfolding H by metis
  moreover have "helpers_of ?st \<subseteq> set names" "names ! idx \<notin> helpers_of ?st" using helpers(3) idx(2) by (auto simp: H)
  ultimately obtain coef where coef: "hdfs_getCoefficient G rs m f (Some ?st) = Inr coef"
    "\<forall>b \<in> snd ` set hs. 0 \<le> om_get0 coef b \<and> om_get0 coef b < 256"
    "\<forall>x < sz. xs.F (\<lambda>b. gf_multiply G (word_of_int (om_get0 coef b)) (content b ! x)) (snd ` set hs) = content f ! x"
    using hdfs_decodes[OF G rs(1,2) _ rs(3) known(1), of ?st idx data sz content] k idx code unfolding H snd by auto
  have "inj_on snd (set hs)" unfolding hs(2) by (auto simp: inj_on_def)
  then have "distinct (map snd hs)" using hs(1) by (simp add: distinct_map)
  moreover have "length (content f) = sz" using code(1) idx by (auto simp: is_stripe_def)
  ultimately show ?thesis using coef by (auto simp: recovers_def byte_coefs_def)
qed

section \<open>The commands\<close>

text \<open>A configuration with which the repair works.\<close>

definition conv_setting :: "repair_config \<Rightarrow> ip_addr \<Rightarrow> string \<Rightarrow> (ip_addr \<times> string) list \<Rightarrow> bool" where
  "conv_setting conf requestorIP f hs \<longleftrightarrow>
     sorted_wrt (<) (helpersIPs conf) \<and> length (helpersIPs conf) < 2 ^ 31 \<and> 0 < coCmdDistThreadNum conf \<and>
     0 < length hs \<and> ecK conf = length hs \<and> distinct (map fst hs) \<and>
     fst ` set hs \<subseteq> set (helpersIPs conf) - {requestorIP} \<and> requestorIP \<in> set (helpersIPs conf) \<and>
     coordinatorIP conf \<notin> insert requestorIP (fst ` set hs) \<and>
     (\<forall>b \<in> snd ` set hs. length f + length b \<le> 992) \<and> 8 * length hs + 2 * length f \<le> 988 \<and>
     \<not> msscheduling conf \<and> 8 dvd packetSize conf \<and> 0 < packetSize conf \<and> packetCnt conf \<noteq> 3 \<and>
     pkt_base conf (packetCnt conf) < 2 ^ 31 \<and> f \<noteq> [] \<and> f \<noteq> ''dr_requests'' \<and> f \<noteq> ''dr_cmds'' \<and> (\<forall>i. f \<noteq> disQ i)"

abbreviation conv_ips :: "ip_addr \<Rightarrow> (ip_addr \<times> string) list \<Rightarrow> ip_addr list" where
  "conv_ips requestorIP hs \<equiv> map fst hs @ [requestorIP]"

lemma conv_ctx:
  assumes set: "conv_setting conf requestorIP f hs" and ctx: "init_ctx conf = Inr ip2Ctx"
  shows "sorted_wrt (<) (map fst ip2Ctx)" and "length ip2Ctx < 2 ^ 31" and "ctx_ok conf ip2Ctx"
    and "n \<le> length hs \<Longrightarrow> conv_ips requestorIP hs ! n \<in> fst ` set ip2Ctx"
proof -
  have nz: "0 < coCmdDistThreadNum conf" "sorted_wrt (<) (helpersIPs conf)" using set by (simp_all add: conv_setting_def)
  note c = init_ctx_ok[OF ctx nz]
  show "sorted_wrt (<) (map fst ip2Ctx)" "ctx_ok conf ip2Ctx" using c nz by simp_all
  show "length ip2Ctx < 2 ^ 31" using set c(1) by (metis length_map conv_setting_def)
  assume "n \<le> length hs"
  then have "conv_ips requestorIP hs ! n \<in> set (conv_ips requestorIP hs)" by (intro nth_mem) simp
  moreover have "fst ` set ip2Ctx = set (helpersIPs conf)" using c(1) by (metis set_map)
  ultimately show "conv_ips requestorIP hs ! n \<in> fst ` set ip2Ctx" using set by (auto simp: conv_setting_def)
qed

abbreviation job_coefs :: "(string, int) omap \<Rightarrow> (ip_addr \<times> string) list \<Rightarrow> int list" where
  "job_coefs coef hs \<equiv> map (\<lambda>s. om_get0 coef (snd s)) hs"

definition is_conv_cmd ::
    "(ip_addr \<times> string) list \<Rightarrow> ip_addr \<Rightarrow> string \<Rightarrow> ip_addr \<Rightarrow> (string, int) omap \<Rightarrow> (ip_addr \<times> string) list \<Rightarrow> nat \<Rightarrow>
     string \<times> byte list \<Rightarrow> bool" where
  "is_conv_cmd ip2Ctx requestorIP f lostIP coef hs n qc \<longleftrightarrow>
     (let k = length hs; idx = ctx_idx ip2Ctx (conv_ips requestorIP hs ! n)
      in fst qc = snd (ip2Ctx ! idx) \<and>
         (if n < k then \<exists>nextIP. conv_helper_cmd (int idx) (int k) requestorIP nextIP (int n) f (snd (hs ! n)) = Inr (snd qc)
          else conv_req_cmd (int idx) (int k) requestorIP 1 (map fst hs) f
            [put_word lostIP @ put_int (int (length f)) @ bytes_of f @ put_ints (job_coefs coef hs)] = Inr (snd qc)))"

lemma conv_helper_cmds_eq:
  assumes set: "conv_setting conf requestorIP f hs" and ctx: "init_ctx conf = Inr ip2Ctx"
  shows "\<exists>qcs. conv_helper_cmds conf ip2Ctx requestorIP f hs = Inr qcs \<and>
    list_all2 (is_conv_cmd ip2Ctx requestorIP f lostIP coef hs) [0..<length hs] qcs"
proof -
  have k: "ecK conf = length hs" using set by (simp add: conv_setting_def)
  have "\<exists>qc. bindE (atE hs (int i)) (\<lambda>(ip, blk). bindE (atE hs (if i = ecK conf - 1 then 0 else int i + 1)) (\<lambda>(nextIP, _).
      queue_cmd ip2Ctx ip (\<lambda>idx. conv_helper_cmd idx (int (ecK conf)) requestorIP nextIP (int i) f blk))) = Inr qc \<and>
    is_conv_cmd ip2Ctx requestorIP f lostIP coef hs i qc" if "i \<in> set [0..<length hs]" for i
  proof -
    have i: "i < length hs" "hs ! i \<in> set hs" using that by simp_all
    define nx where "nx = (if i = length hs - 1 then 0 else i + 1)"
    have nx: "nx < length hs" "(if i = ecK conf - 1 then 0 else int i + 1) = int nx" using i(1) by (auto simp: nx_def k)
    have "length f + length (snd (hs ! i)) \<le> 992" using set i(2) by (auto simp: conv_setting_def)
    then obtain c where c: "conv_helper_cmd (int (ctx_idx ip2Ctx (fst (hs ! i)))) (int (length hs)) requestorIP (fst (hs ! nx)) (int i) f
        (snd (hs ! i)) = Inr c"
      by (simp add: conv_helper_cmd_def COMMAND_MAX_LENGTH_def Let_def)
    let ?qc = "(snd (ip2Ctx ! ctx_idx ip2Ctx (fst (hs ! i))), c)"
    have "fst (hs ! i) \<in> fst ` set ip2Ctx" using conv_ctx(4)[OF set ctx, of i] i(1) by (simp add: nth_append)
    from queue_cmd_eq[OF conv_ctx(1,2)[OF set ctx] this]
    have "queue_cmd ip2Ctx (fst (hs ! i)) (\<lambda>idx. conv_helper_cmd idx (int (length hs)) requestorIP (fst (hs ! nx)) (int i) f (snd (hs ! i))) =
        Inr ?qc"
      by (simp add: c)
    moreover have "atE hs (int i) = Inr (hs ! i)" "atE hs (int nx) = Inr (hs ! nx)" using i(1) nx(1) by simp_all
    moreover have "is_conv_cmd ip2Ctx requestorIP f lostIP coef hs i ?qc"
      using c i(1) by (auto simp: is_conv_cmd_def Let_def nth_append)
    ultimately show ?thesis
      unfolding nx(2) by (intro exI[of _ ?qc]) (simp add: case_prod_beta k)
  qed
  then show ?thesis unfolding conv_helper_cmds_def k by (rule mapE_list_all2)
qed

lemma conv_commands_eq:
  assumes set: "conv_setting conf requestorIP f hs" and ctx: "init_ctx conf = Inr ip2Ctx"
    and md: "md_getAllBlks md f = Inr blks" "md_getCoefficient md f (Some (conv_status blks (map fst hs) status)) = Inr coef"
    and st: "fr_reqFile st = f" "fr_lostFiles st = [(f, lostIP)]"
  shows "\<exists>qcs. list_all2 (is_conv_cmd ip2Ctx requestorIP f lostIP coef hs) [0..<Suc (length hs)] qcs \<and>
    conv_commands conf md ip2Ctx requestorIP st status [(requestorIP, (f, hs))] w =
      Inr (rpush (coordinatorIP conf) f (put_word requestorIP) (push_all (coordinatorIP conf) qcs w))"
proof -
  let ?k = "length hs" and ?info = "put_word lostIP @ put_int (int (length f)) @ bytes_of f @ put_ints (job_coefs coef hs)"
  have k: "ecK conf = ?k" using set by (simp add: conv_setting_def)
  obtain qcs where qcs: "conv_helper_cmds conf ip2Ctx requestorIP f hs = Inr qcs"
    "list_all2 (is_conv_cmd ip2Ctx requestorIP f lostIP coef hs) [0..<?k] qcs"
    using conv_helper_cmds_eq[OF set ctx] by blast
  have ips: "mapE (\<lambda>i. bindE (atE hs (int i)) (\<lambda>(ip, _). Inr ip)) [0..<?k] = Inr (map fst hs)"
  proof -
    have "mapE (\<lambda>i. bindE (atE hs (int i)) (\<lambda>(ip, _). Inr ip)) [0..<?k] = Inr (map (\<lambda>i. fst (hs ! i)) [0..<?k])"
      by (intro mapE_Inr_map) (simp add: case_prod_beta)
    moreover have "map (\<lambda>i. fst (hs ! i)) [0..<?k] = map fst hs" by (intro nth_equalityI) simp_all
    ultimately show ?thesis by simp
  qed
  have "mapE (\<lambda>i. bindE (atE hs (int i)) (\<lambda>(_, b). Inr (om_get0 coef b))) [0..<?k] = Inr (map (\<lambda>i. om_get0 coef (snd (hs ! i))) [0..<?k])"
    by (intro mapE_Inr_map) (simp add: case_prod_beta)
  moreover have "map (\<lambda>i. om_get0 coef (snd (hs ! i))) [0..<?k] = job_coefs coef hs" by (intro nth_equalityI) simp_all
  ultimately have info: "conv_infos ?k md (conv_status blks (map fst hs) status) [(requestorIP, (f, hs))] [(f, lostIP)] = Inr [?info]"
    using md(2) by (simp add: conv_infos_def addReqInfo_def)
  obtain c where c: "conv_req_cmd (int (ctx_idx ip2Ctx requestorIP)) (int ?k) requestorIP 1 (map fst hs) f [?info] = Inr c"
    using set by (simp add: conv_req_cmd_def COMMAND_MAX_LENGTH_def Let_def conv_setting_def put_ints_holders)
  moreover have "requestorIP \<in> fst ` set ip2Ctx" using conv_ctx(4)[OF set ctx, of ?k] by (simp add: nth_append)
  ultimately have req: "queue_cmd ip2Ctx requestorIP (\<lambda>idx. conv_req_cmd idx (int ?k) requestorIP 1 (map fst hs) f [?info]) =
      Inr (snd (ip2Ctx ! ctx_idx ip2Ctx requestorIP), c)" (is "_ = Inr ?qc")
    using queue_cmd_eq[OF conv_ctx(1,2)[OF set ctx]] by simp
  have "is_conv_cmd ip2Ctx requestorIP f lostIP coef hs ?k ?qc" using c by (simp add: is_conv_cmd_def Let_def nth_append)
  then show ?thesis
    using qcs ips info req md(1) st
    by (intro exI[of _ "qcs @ [?qc]"]) (simp add: conv_commands_def conv_passive_def om_get_def Let_def list_all2_appendI k)
qed

lemma conv_cmd_prefix:
  "conv_helper_cmd idx k requestorIP nextIP i f l = Inr cmd \<Longrightarrow> \<exists>rest. cmd = put_int idx @ rest"
  "conv_req_cmd idx k requestorIP fails ips f infos = Inr cmd \<Longrightarrow> \<exists>rest. cmd = put_int idx @ rest"
  by (auto simp: conv_helper_cmd_def conv_req_cmd_def Let_def res_simps)

lemma conv_dispatch:
  assumes set: "conv_setting conf requestorIP f hs" and ctx: "init_ctx conf = Inr ip2Ctx"
    and qcs: "list_all2 (is_conv_cmd ip2Ctx requestorIP f lostIP coef hs) [0..<Suc (length hs)] qcs"
  shows "dispatch_ok conf ip2Ctx (conv_ips requestorIP hs) qcs"
proof (rule dispatch_okI[OF conv_ctx(3,2)[OF set ctx]])
  show "distinct (conv_ips requestorIP hs)" using set by (auto simp: conv_setting_def)
  show "length qcs = length (conv_ips requestorIP hs)" using list_all2_lengthD[OF qcs] by simp
  fix n assume n: "n < length (conv_ips requestorIP hs)"
  then show "conv_ips requestorIP hs ! n \<in> fst ` set ip2Ctx" by (intro conv_ctx(4)[OF set ctx]) simp
  have "is_conv_cmd ip2Ctx requestorIP f lostIP coef hs n (qcs ! n)"
    using list_all2_nthD[OF qcs, of n] n by (simp del: upt_Suc)
  then show "fst (qcs ! n) = snd (ip2Ctx ! ctx_idx ip2Ctx (conv_ips requestorIP hs ! n)) \<and>
      (\<exists>rest. snd (qcs ! n) = put_int (int (ctx_idx ip2Ctx (conv_ips requestorIP hs ! n))) @ rest)"
    using conv_cmd_prefix by (cases "n < length hs") (auto simp: is_conv_cmd_def Let_def)
qed

section \<open>The nodes start\<close>

definition conv_case_of ::
    "repair_config \<Rightarrow> ip_addr \<Rightarrow> string \<Rightarrow> (string, int) omap \<Rightarrow> (ip_addr \<times> string) list \<Rightarrow> (string \<Rightarrow> byte list) \<Rightarrow> conv_case" where
  "conv_case_of conf requestorIP f coef hs content =
     \<lparr>cc_conf = conf, cc_lost = f, cc_req = requestorIP, cc_coefs = chain_coefs coef hs, cc_blks = map (content \<circ> snd) hs\<rparr>"

definition conv_helper0 :: "ip_addr \<Rightarrow> string \<Rightarrow> (ip_addr \<times> string) list \<Rightarrow> nat \<Rightarrow> conv_helper" where
  "conv_helper0 requestorIP f hs n =
     \<lparr>ch_ip = fst (hs ! n),
      ch_cmd = \<lparr>cv_ecK = int (length hs), cv_requestorIP = requestorIP, cv_coefficient = 1, cv_id = int n, cv_ips = [],
        cv_lostBlkName = f, cv_localBlkName = snd (hs ! n), cv_jobs = []\<rparr>,
      ch_ctx = Some requestorIP, ch_disk = [], ch_toSend = 0, ch_sent = 0\<rparr>"

definition conv_req0 ::
    "repair_config \<Rightarrow> ip_addr \<Rightarrow> string \<Rightarrow> ip_addr \<Rightarrow> (string, int) omap \<Rightarrow> (ip_addr \<times> string) list \<Rightarrow> conv_req" where
  "conv_req0 conf requestorIP f lostIP coef hs =
     \<lparr>cr_ip = requestorIP,
      cr_cmd = \<lparr>cv_ecK = int (length hs), cv_requestorIP = requestorIP, cv_coefficient = - 1, cv_id = int (length hs),
        cv_ips = map fst hs, cv_lostBlkName = f, cv_localBlkName = [],
        cv_jobs = [\<lparr>cj_nextIP = lostIP, cj_coefs = job_coefs coef hs, cj_lostBlkName = f\<rparr>]\<rparr>,
      cr_lost = f, cr_pkts = replicate (packetCnt conf) (replicate (Suc (length hs)) (replicate (packetSize conf) 0)),
      cr_idx = replicate (length hs) 0, cr_toPull = 0, cr_toSend = 0, cr_sent = 0\<rparr>"

definition conv_node0 ::
    "repair_config \<Rightarrow> ip_addr \<Rightarrow> string \<Rightarrow> ip_addr \<Rightarrow> (string, int) omap \<Rightarrow> (ip_addr \<times> string) list \<Rightarrow> nat \<Rightarrow> conv_node" where
  "conv_node0 conf requestorIP f lostIP coef hs n =
     (if n < length hs then Helper (conv_helper0 requestorIP f hs n) else Requestor (conv_req0 conf requestorIP f lostIP coef hs))"

lemma conv_node_starts:
  assumes set: "conv_setting conf requestorIP f hs" and coefs: "byte_coefs coef hs" and n: "n \<le> length hs"
    and cmd: "is_conv_cmd ip2Ctx requestorIP f lostIP coef hs n qc"
  shows "conv_start conf [] (conv_ips requestorIP hs ! n) (drop 4 (snd qc)) = Inr (conv_node0 conf requestorIP f lostIP coef hs n)"
proof (cases "n < length hs")
  case True
  have ips: "sorted_wrt (<) (helpersIPs conf)" "requestorIP \<in> set (helpersIPs conf)" "length hs < 256"
    using set by (auto simp: conv_setting_def)
  then have "sort (helpersIPs conf) = helpersIPs conf" by (simp add: sorted_sort_id strict_sorted_iff)
  moreover obtain nextIP where "conv_helper_cmd (int (ctx_idx ip2Ctx (conv_ips requestorIP hs ! n))) (int (length hs)) requestorIP nextIP
      (int n) f (snd (hs ! n)) = Inr (snd qc)"
    using cmd True by (auto simp: is_conv_cmd_def Let_def)
  ultimately show ?thesis
    using parse_conv_helper[OF _ ips(3) True] findCtx_eq[OF ips(2,1)] True
    by (simp add: conv_start_def helper_start_def conv_node0_def conv_helper0_def nth_append)
next
  case False
  then have n: "n = length hs" using n by simp
  have "\<forall>c \<in> set (job_coefs coef hs). 0 \<le> c \<and> c < 256" using coefs by (auto simp: byte_coefs_def)
  moreover have "conv_req_cmd (int (ctx_idx ip2Ctx (conv_ips requestorIP hs ! n))) (int (length hs)) requestorIP 1 (map fst hs) f
      [put_word lostIP @ put_int (int (length f)) @ bytes_of f @ put_ints (job_coefs coef hs)] = Inr (snd qc)"
    using cmd False by (simp add: is_conv_cmd_def Let_def)
  note parse_conv_req[OF this refl]
  ultimately show ?thesis
    by (simp add: n conv_start_def req_start_def req_job_def conv_node0_def conv_req0_def nth_append)
qed

text \<open>The blocks of the helpers, and no packets under way.\<close>

definition conv_world ::
    "ip_addr \<Rightarrow> string \<Rightarrow> (ip_addr \<times> string) list \<Rightarrow> (string \<Rightarrow> byte list) \<Rightarrow> world \<Rightarrow> bool" where
  "conv_world requestorIP f hs content w \<longleftrightarrow>
     (\<forall>(ip, b) \<in> set hs. w_files w ip b = Some (content b)) \<and> w_queues w requestorIP f = [] \<and>
     (\<forall>h. w_queues w requestorIP (ppr_key f h) = [])"

lemma conv_case_ok:
  assumes "conv_setting conf requestorIP f hs" and "\<forall>b \<in> snd ` set hs. pkt_base conf (packetCnt conf) \<le> length (content b)"
  shows "conv_conf_ok (conv_case_of conf requestorIP f coef hs content)"
  using assms by (auto simp: conv_conf_ok_def conv_case_of_def chain_coefs_def conv_setting_def Let_def)

lemma conv_starts:
  assumes set: "conv_setting conf requestorIP f hs" and coefs: "byte_coefs coef hs" and world: "conv_world requestorIP f hs content w"
  shows "conv_inv G (conv_case_of conf requestorIP f coef hs content)
    (w, map (conv_node0 conf requestorIP f lostIP coef hs) [0..<Suc (length hs)])"
proof -
  let ?k = "length hs" and ?C = "conv_case_of conf requestorIP f coef hs content"
  let ?ps = "map (conv_helper0 requestorIP f hs) [0..<?k]" and ?r = "conv_req0 conf requestorIP f lostIP coef hs"
  have C: "cc_conf ?C = conf" "cc_lost ?C = f" "cc_req ?C = requestorIP" "cc_coefs ?C = chain_coefs coef hs"
    "cc_blks ?C = map (content \<circ> snd) hs" "length (chain_coefs coef hs) = ?k"
    by (simp_all add: conv_case_of_def chain_coefs_def)
  have k: "0 < ?k" using set by (simp add: conv_setting_def)
  have "map (conv_node0 conf requestorIP f lostIP coef hs) [0..<Suc ?k] = map Helper ?ps @ [Requestor ?r]"
    by (simp add: conv_node0_def)
  moreover have "conv_helper_ok ?C w h (?ps ! h)" "conv_helper_inv ?C h (?ps ! h)" "raw_queued ?C h 0 0 w" if h: "h < ?k" for h
  proof -
    have "hs ! h \<in> set hs" using h by simp
    then have "w_files w (fst (hs ! h)) (snd (hs ! h)) = Some (content (snd (hs ! h)))" using world by (auto simp: conv_world_def)
    then show "conv_helper_ok ?C w h (?ps ! h)" using h by (simp add: conv_helper_ok_def C conv_helper0_def Let_def)
    show "conv_helper_inv ?C h (?ps ! h)" using h by (simp add: conv_helper_inv_def conv_helper0_def)
    show "raw_queued ?C h 0 0 w" using world by (simp add: raw_queued_def C conv_world_def)
  qed
  moreover have "conv_req_ok ?C ?r"
  proof -
    have "map uint (chain_coefs coef hs) = job_coefs coef hs"
      using coefs by (auto simp: chain_coefs_def byte_coefs_def uint_word_of_int take_bit_int_eq_self)
    then show ?thesis by (simp add: conv_req_ok_def C conv_req0_def)
  qed
  moreover have "conv_req_inv G ?C ?r"
  proof -
    have "(min 0 ^^ m) 0 = (0::nat)" for m by (induction m) simp_all
    then have "fold min (replicate ?k 0) (packetCnt conf) = 0" using k by (cases ?k) simp_all
    then show ?thesis by (simp add: conv_req_inv_def C conv_req0_def bufs_ok_def list_all_iff Let_def)
  qed
  moreover have "w_queues w requestorIP f = []" using world by (simp add: conv_world_def)
  moreover have "cr_idx ?r ! h = 0" "ch_sent (?ps ! h) = 0" if "h < ?k" for h using that by (simp_all add: conv_req0_def conv_helper0_def)
  moreover have "cr_sent ?r = 0" by (simp add: conv_req0_def)
  ultimately show ?thesis
    unfolding conv_inv_def C prod.case by (intro exI[of _ ?ps] exI[of _ ?r]) (simp del: upt_Suc)
qed

section \<open>The handler\<close>

lemma conv_handler:
  assumes set: "conv_setting conf (localIP client) f hs" and ctx: "init_ctx conf = Inr ip2Ctx"
    and placed: "hdfs_placed m names loc" and f: "f \<in> set names" and k: "ecK conf < length names"
    and hs: "hs = sorted_list_of_set ((\<lambda>b. (loc b, b)) ` set (name_helpers (ecK conf) names f))"
    and G: "gf_complete G" and rs: "rs_ecK rs = ecK conf" "rs_ecN rs = length names"
      "length (rs_encMat rs) = ecK conf * (length names - ecK conf)"
    and code: "is_stripe G (ecK conf) (complete_enc_mat (ecK conf) (length names) (rs_encMat rs)) data sz (map content names)"
      "left_invertible G (ecK conf) (rows_of (ecK conf) (complete_enc_mat (ecK conf) (length names) (rs_encMat rs))
        (filter (\<lambda>i. names ! i \<in> set (name_helpers (ecK conf) names f)) [0..<length names]))"
    and req: "only_request conf client f w"
  shows "\<exists>coef qcs. recovers G coef hs content (content f) \<and>
    list_all2 (is_conv_cmd ip2Ctx (localIP client) f (loc f) coef hs) [0..<Suc (length hs)] qcs \<and>
    conv_requestHandler conf (hdfs_metadata G rs conf HE) (hdfs_getStripeBlksMul conf 0) ip2Ctx m w =
      Inr (rpush (coordinatorIP conf) f (put_word (localIP client)) (push_all (coordinatorIP conf) qcs (no_request conf w)), m)"
proof -
  let ?md = "hdfs_metadata G rs conf HE m"
  obtain blks where blks: "knows_blk ?md f (loc f) blks" "om_ok blks" "set blks = (\<lambda>b. (loc b, b)) ` set names"
    using placed_knows[OF placed f] by blast
  define status where "status = om_put f 0 (single_status f blks)"
  have st: "lost_status names f status" unfolding status_def by (rule placed_status[OF blks(3) f])
  have conf: "\<not> msscheduling conf" "ecK conf = length hs" "0 < length hs" "f \<noteq> []" using set by (simp_all add: conv_setting_def)
  obtain hs' where hs': "hdfs_getStripeBlksMul conf 0 f (localIP client) status m = Inr ([(localIP client, (f, hs'))], status, m)"
    "sorted hs'" "distinct hs'" "set hs' = (\<lambda>b. (loc b, b)) ` set (name_helpers (ecK conf) names f)"
    using mul_single[OF placed f k conf(1) st] by blast
  have "hs' = hs" using sorted_list_of_set.idem_if_sorted_distinct[OF hs'(2,3)] unfolding hs hs'(4)[symmetric] by simp
  note mul = hs'[unfolded this]
  obtain coef where coef: "hdfs_getCoefficient G rs m f (Some (fold (\<lambda>(_, b). om_put b 2) hs status)) = Inr coef"
    "recovers G coef hs content (content f)"
    using placed_recovers[OF G rs placed f k st mul(3,4) code] by blast
  have "distinct names" using placed by (simp add: hdfs_placed_def stripe_known_def)
  then have "set hs \<subseteq> set blks" using name_helpers_ok(3)[of names f "ecK conf"] f k unfolding mul(4) blks(3) by auto
  from conv_status_eq[OF blks(2,3) this, of status]
  have md: "md_getCoefficient ?md f (Some (conv_status blks (map fst hs) status)) = Inr coef" "md_getAllBlks ?md f = Inr blks"
    using coef(1) blks(1) by (simp_all add: hdfs_metadata_def knows_blk_def)
  obtain r where r: "dr_request client [f] = Inr r" "blpop (coordinatorIP conf) ''dr_requests'' w = Inr (r, no_request conf w)"
    "get_word r 0 = Inr (localIP client)" "\<not> length r < 4"
    using req by (rule only_requestE)
  let ?fr = "\<lparr>fr_reqFile = f, fr_lostFiles = [(f, loc f)], fr_allBlks = blks, fr_status = single_status f blks\<rparr>"
  obtain qcs where qcs: "list_all2 (is_conv_cmd ip2Ctx (localIP client) f (loc f) coef hs) [0..<Suc (length hs)] qcs"
    "conv_commands conf ?md ip2Ctx (localIP client) ?fr status [(localIP client, (f, hs))] (no_request conf w) =
      Inr (rpush (coordinatorIP conf) f (put_word (localIP client)) (push_all (coordinatorIP conf) qcs (no_request conf w)))"
    using conv_commands_eq[OF set ctx md(2,1), of ?fr "loc f" "no_request conf w"] by auto
  have "fst (outputStripeMul conf [(localIP client, (f, hs))] [])" using conf(2,3) by (simp add: outputStripeMul_def)
  then have "conv_requestHandler conf (hdfs_metadata G rs conf HE) (hdfs_getStripeBlksMul conf 0) ip2Ctx m w =
      Inr (rpush (coordinatorIP conf) f (put_word (localIP client)) (push_all (coordinatorIP conf) qcs (no_request conf w)), m)"
    using r parse_single_request[OF r(1) blks(1) conf(4), of conf] mul(1) qcs(2)
    by (simp add: conv_requestHandler_def flip: status_def)
  with coef(2) qcs(1) show ?thesis by blast
qed

section \<open>From the request to the block\<close>

lemma conv_started:
  assumes G: "gf_complete G" and E: "io_ok E" and set: "conv_setting conf requestorIP f hs"
    and rec: "recovers G coef hs content lost" and room: "pkt_base conf (packetCnt conf) \<le> length lost"
      "\<forall>b \<in> snd ` set hs. pkt_base conf (packetCnt conf) \<le> length (content b)"
    and world: "conv_world requestorIP f hs content w"
  shows "delivers (conv_cluster G E conf) (list_all (conv_finished conf)) requestorIP f (map (lost_pkt conf lost) [0..<packetCnt conf])
    (w, map (conv_node0 conf requestorIP f lostIP coef hs) [0..<Suc (length hs)])"
proof -
  let ?C = "conv_case_of conf requestorIP f coef hs content"
  have C: "cc_conf ?C = conf" "cc_lost ?C = f" "cc_req ?C = requestorIP" by (simp_all add: conv_case_of_def)
  have "byte_coefs coef hs" using rec by (simp add: recovers_def)
  then have inv: "conv_inv G ?C (w, map (conv_node0 conf requestorIP f lostIP coef hs) [0..<Suc (length hs)])"
    using set world by (intro conv_starts)
  have "hs \<noteq> []" using set by (auto simp: conv_setting_def)
  then have "total G ?C j = lost_pkt conf lost j" if "j < packetCnt conf" for j
    using last_sum_lost[OF rec _ room(1) that] by (simp add: conv_case_of_def chain_coefs_def)
  then show ?thesis
    using conv_delivers[OF G E conv_case_ok[OF set room(2)] inv, of "lost_pkt conf lost"] unfolding C by blast
qed

lemma conv_for_start: "conv_for f (map (conv_node0 conf requestorIP f lostIP coef hs) [0..<Suc (length hs)])"
  by (auto simp: conv_for_def list_all_iff conv_node_for_def conv_node0_def conv_helper0_def conv_req0_def simp del: upt_Suc)

lemma conv_repair:
  assumes G: "gf_complete G" and E: "io_ok E" and set: "conv_setting conf (localIP client) f hs" and ctx: "init_ctx conf = Inr ip2Ctx"
    and qcs: "list_all2 (is_conv_cmd ip2Ctx (localIP client) f lostIP coef hs) [0..<Suc (length hs)] qcs"
    and w1: "w1 = rpush (coordinatorIP conf) f (put_word (localIP client)) (push_all (coordinatorIP conf) qcs (no_request conf w))"
    and rec: "recovers G coef hs content lost" and room: "pkt_base conf (packetCnt conf) \<le> length lost"
      "\<forall>b \<in> snd ` set hs. pkt_base conf (packetCnt conf) \<le> length (content b)"
    and cmds: "no_cmds conf (localIP client # map fst hs) w" and world: "conv_world (localIP client) f hs content w"
    and same: "same_cluster conf client" and none: "w_queues w (coordinatorIP conf) f = []"
  shows "w_queues w1 (coordinatorIP conf) f = [put_word (localIP client)]"
    and "\<exists>w2. (dist_step conf ip2Ctx)\<^sup>*\<^sup>* w1 w2 \<and> waiting conf w2 = 0"
    and "(dist_step conf ip2Ctx)\<^sup>*\<^sup>* w1 w2 \<Longrightarrow> waiting conf w2 = 0 \<Longrightarrow>
      \<exists>st. start_all (take_cmd (conv_start conf [])) (conv_ips (localIP client) hs) w2 = Inr st \<and>
        delivers (conv_cluster G E conf) (list_all (conv_finished conf)) (localIP client) f (map (lost_pkt conf lost) [0..<packetCnt conf]) st \<and>
        served (conv_cluster G E conf) client f (take (packetCnt conf * packetSize conf) (drop (packetSkipSize conf) lost)) st"
proof -
  let ?ips = "conv_ips (localIP client) hs" and ?node = "conv_node0 conf (localIP client) f lostIP coef hs"
  have f: "f \<noteq> ''dr_requests''" "f \<noteq> ''dr_cmds''" "\<And>i. f \<noteq> disQ i" and coord: "coordinatorIP conf \<notin> set ?ips"
    using set by (auto simp: conv_setting_def)
  have dispatch: "dispatch_ok conf ip2Ctx ?ips qcs" by (rule conv_dispatch[OF set ctx qcs])
  have idle: "no_cmds conf ?ips (no_request conf w)" using cmds coord by (auto simp: no_cmds_def no_request_def)
  have coefs: "byte_coefs coef hs" using rec by (simp add: recovers_def)
  show reply: "w_queues w1 (coordinatorIP conf) f = [put_word (localIP client)]"
    using f none dispatch_reply[OF dispatch] by (simp add: w1 no_request_queues)
  show "\<exists>w2. (dist_step conf ip2Ctx)\<^sup>*\<^sup>* w1 w2 \<and> waiting conf w2 = 0"
    using dist_can_finish[OF dispatch_delivered(1)[OF dispatch idle coord _ w1]] f(3) dispatch by (auto simp: dispatch_ok_def)
  assume steps: "(dist_step conf ip2Ctx)\<^sup>*\<^sup>* w1 w2" "waiting conf w2 = 0"
  note sent = dispatch_delivered(2)[OF dispatch idle coord f(3) w1 steps]
  have "conv_start conf [] (?ips ! n) (drop 4 (snd (qcs ! n))) = Inr (?node n)" if "n < length ?ips" for n
    using conv_node_starts[OF set coefs, of n ip2Ctx lostIP "qcs ! n"] list_all2_nthD[OF qcs, of n] that by (simp del: upt_Suc)
  moreover have "distinct ?ips" using dispatch by (simp add: dispatch_ok_def)
  ultimately obtain w3 where w3: "start_all (take_cmd (conv_start conf [])) ?ips w2 = Inr (w3, map ?node [0..<Suc (length hs)])"
    "w_files w3 = w_files w2" "\<And>ip key. key \<noteq> ''dr_cmds'' \<Longrightarrow> w_queues w3 ip key = w_queues w2 ip key"
    using start_all_eq[of ?ips w2 "\<lambda>n. drop 4 (snd (qcs ! n))" "conv_start conf []" ?node] sent by (auto simp del: upt_Suc)
  have "w_queues w3 (localIP client) key = w_queues w (localIP client) key" if "key \<noteq> ''dr_cmds''" for key
  proof -
    have "localIP client \<noteq> coordinatorIP conf" using coord by auto
    then show ?thesis using w3(3)[OF that] sent that by (simp add: no_request_queues)
  qed
  moreover have "w_files w3 = w_files w" using w3(2) sent by (simp add: no_request_queues)
  moreover have "ppr_key f h \<noteq> ''dr_cmds''" for h by (simp add: ppr_key_def)
  ultimately have "conv_world (localIP client) f hs content w3" using world f(2) by (simp add: conv_world_def)
  note del = conv_started[OF G E set rec room this, of lostIP]
  have "w_queues w3 (coordinatorIP conf) f = [put_word (localIP client)]"
    using w3(3)[OF f(2)] dist_steps_others[OF steps(1) f(2)] f(3) reply by metis
  moreover have "client_ok client (localIP client)"
    using coord set by (intro client_okI[OF same]) (auto simp: conv_setting_def)
  ultimately have "served (conv_cluster G E conf) client f (take (packetCnt conf * packetSize conf) (drop (packetSkipSize conf) lost))
      (w3, map ?node [0..<Suc (length hs)])"
    using conv_src.client_served_block[of client "localIP client" f "(w3, map ?node [0..<Suc (length hs)])" G E conf
        "list_all (conv_finished conf)" "packetSkipSize conf" lost] conv_for_start del room(1) same
    unfolding lost_pkt_def by (simp add: same_cluster_def del: upt_Suc)
  with w3(1) del show "\<exists>st. start_all (take_cmd (conv_start conf [])) ?ips w2 = Inr st \<and>
      delivers (conv_cluster G E conf) (list_all (conv_finished conf)) (localIP client) f (map (lost_pkt conf lost) [0..<packetCnt conf]) st \<and>
      served (conv_cluster G E conf) client f (take (packetCnt conf * packetSize conf) (drop (packetSkipSize conf) lost)) st"
    by blast
qed

text \<open>
  C8. The conventional repair of a lost block, end to end. The metadata base is built from a consistent stripe store and the
  reports of nodes with one block of the stripe each; a client asks for a block of a stripe that is a codeword of an invertible
  code. The metadata base chooses the first \<open>k\<close> other blocks by name, and the handler marks them, asks for the coefficients of
  just these blocks, replies that the client's own node has the block and sends the commands. The
  distributors can deliver them; and when they have, in whatever order, every node starts, and under any interleaving of
  the threads of all nodes the client's list holds a prefix of the packets of the lost block, all of them when the nodes are
  done, which they can always reach. A client that runs next to them writes a prefix of the lost block to its file at any
  time, can always finish, and then the file has all its bytes.
\<close>

theorem hdfs_conv_repair:
  assumes "gf_complete G" and "io_ok E"
    and "0 < ecK conf" and "ecK conf < length names" and "length encMat = ecK conf * (length names - ecK conf)"
    and "rs = RSUtil G (ecK conf) (length names) encMat"
    and "store_ok conf rs ss files" and "names \<in> set ss" and "f \<in> set names"
    and "w_queues w0 (coordinatorIP conf) ''blk_init'' = map report_msg reps" and "reports_ok ss loc reps" and "inj_on loc (set names)"
    and "hs = sorted_list_of_set ((\<lambda>b. (loc b, b)) ` set (name_helpers (ecK conf) names f))"
    and "conv_setting conf (localIP client) f hs" and "init_ctx conf = Inr ip2Ctx"
    and "is_stripe G (ecK conf) (complete_enc_mat (ecK conf) (length names) encMat) data sz (map content names)"
    and "left_invertible G (ecK conf) (rows_of (ecK conf) (complete_enc_mat (ecK conf) (length names) encMat)
      (filter (\<lambda>i. names ! i \<in> set (name_helpers (ecK conf) names f)) [0..<length names]))"
    and "packetSkipSize conf + packetCnt conf * packetSize conf \<le> sz"
    and "only_request conf client f w" and "no_cmds conf (localIP client # map fst hs) w"
    and "conv_world (localIP client) f hs content w"
    and "same_cluster conf client" and "w_queues w (coordinatorIP conf) f = []"
  shows "\<exists>m w0' w1. HDFS_MetadataBase conf rs files w0 = Inr (m, w0') \<and>
    conv_requestHandler conf (hdfs_metadata G rs conf HE) (hdfs_getStripeBlksMul conf 0) ip2Ctx m w = Inr (w1, m) \<and>
    w_queues w1 (coordinatorIP conf) f = [put_word (localIP client)] \<and>
    (\<exists>w2. (dist_step conf ip2Ctx)\<^sup>*\<^sup>* w1 w2 \<and> waiting conf w2 = 0) \<and>
    (\<forall>w2. (dist_step conf ip2Ctx)\<^sup>*\<^sup>* w1 w2 \<and> waiting conf w2 = 0 \<longrightarrow>
      (\<exists>st. start_all (take_cmd (conv_start conf [])) (map fst hs @ [localIP client]) w2 = Inr st \<and>
        delivers (conv_cluster G E conf) (list_all (conv_finished conf)) (localIP client) f
          (map (lost_pkt conf (content f)) [0..<packetCnt conf]) st \<and>
        served (conv_cluster G E conf) client f
          (take (packetCnt conf * packetSize conf) (drop (packetSkipSize conf) (content f))) st))"
proof -
  have "f \<in> set (concat ss)" using assms(8,9) by auto
  then have "concat ss \<noteq> []" by (metis empty_iff list.set(1))
  moreover have "names \<noteq> []" using assms(9) by auto
  ultimately obtain m w0' where m: "HDFS_MetadataBase conf rs files w0 = Inr (m, w0')" and placed: "hdfs_placed m names loc"
    using init_metadata[OF assms(7) _ assms(3,10,11)] assms(8,12) by blast
  have rs: "rs_ecK rs = ecK conf" "rs_ecN rs = length names" "rs_encMat rs = encMat"
    unfolding assms(6) RSUtil_def Let_def by (simp_all add: case_prod_beta)
  have names: "distinct names" using placed by (simp add: hdfs_placed_def stripe_known_def)
  obtain coef qcs where rec: "recovers G coef hs content (content f)"
    and qcs: "list_all2 (is_conv_cmd ip2Ctx (localIP client) f (loc f) coef hs) [0..<Suc (length hs)] qcs"
    and run: "conv_requestHandler conf (hdfs_metadata G rs conf HE) (hdfs_getStripeBlksMul conf 0) ip2Ctx m w =
      Inr (rpush (coordinatorIP conf) f (put_word (localIP client)) (push_all (coordinatorIP conf) qcs (no_request conf w)), m)"
    using conv_handler[OF assms(14,15) placed assms(9,4,13,1) rs(1,2) _ _ _ assms(19)] assms(5,16,17) unfolding rs(3) by blast
  have sz: "length (content b) = sz" if "b \<in> set names" for b
    using assms(16) that by (auto simp: is_stripe_def in_set_conv_nth)
  have "snd ` set hs = set (name_helpers (ecK conf) names f)" by (simp add: assms(13) image_image)
  then have "\<forall>b \<in> snd ` set hs. pkt_base conf (packetCnt conf) \<le> length (content b)"
    using name_helpers_ok(3)[OF names assms(9,4)] sz assms(18) by auto
  moreover have "pkt_base conf (packetCnt conf) \<le> length (content f)" using sz[OF assms(9)] assms(18) by simp
  ultimately show ?thesis
    using conv_repair[OF assms(1,2,14,15) qcs refl rec _ _ assms(20-23)] m run by blast
qed

section \<open>An example\<close>

text \<open>The stripe of the other examples; client 13 asks for \<open>c\<close>, which is lost.\<close>

lemma conv_setting_sample: "conv_setting repair_conf 13 ''c'' repair_hs"
  by (simp add: conv_setting_def repair_conf_def sample_repair_conf_def disQ_def)

lemma conv_world_sample:
  "no_cmds repair_conf (13 # map fst repair_hs) repair_world" "conv_world 13 ''c'' repair_hs repair_content repair_world"
  by (simp_all add: no_cmds_def conv_world_def repair_world_def repair_content_def repair_conf_def sample_repair_conf_def disQ_def ppr_key_def)

theorem hdfs_conv_repair_witness:
  "\<exists>m w0' w1. HDFS_MetadataBase repair_conf store_rs store_files
      (repair_world\<lparr>w_queues := (\<lambda>ip key. if ip = 10 \<and> key = ''blk_init'' then map report_msg store_reports else [])\<rparr>) = Inr (m, w0') \<and>
    conv_requestHandler repair_conf (hdfs_metadata gf256 store_rs repair_conf keep_order) (hdfs_getStripeBlksMul repair_conf 0)
      [(11, disQ 0), (12, disQ 0), (13, disQ 1)] m repair_world = Inr (w1, m) \<and>
    w_queues w1 10 ''c'' = [put_word 13] \<and>
    (\<exists>w2 st. (dist_step repair_conf [(11, disQ 0), (12, disQ 0), (13, disQ 1)])\<^sup>*\<^sup>* w1 w2 \<and>
      start_all (take_cmd (conv_start repair_conf [])) (map fst repair_hs @ [13]) w2 = Inr st \<and>
      served (conv_cluster gf256 repair_env repair_conf) repair_conf ''c'' (repair_content ''c'') st)"
proof -
  let ?names = "[''a'', ''b'', ''c'']" and ?ctx = "[(11, disQ 0), (12, disQ 0), (13, disQ 1)]"
  let ?w0 = "repair_world\<lparr>w_queues := (\<lambda>ip key. if ip = 10 \<and> key = ''blk_init'' then map report_msg store_reports else [])\<rparr>"
  have conf: "ecK repair_conf = 2" "coordinatorIP repair_conf = 10" "localIP repair_conf = 13"
    "packetSkipSize repair_conf + packetCnt repair_conf * packetSize repair_conf \<le> 16"
    by (simp_all add: repair_conf_def sample_repair_conf_def)
  have helpers: "name_helpers 2 ?names ''c'' = [''a'', ''b'']" by (simp add: name_helpers_def)
  have hs: "repair_hs = sorted_list_of_set ((\<lambda>b. (store_loc b, b)) ` set (name_helpers (ecK repair_conf) ?names ''c''))"
    unfolding conf(1) helpers by (simp add: store_loc_def)
  have rep: "reports_ok [?names] store_loc store_reports" "inj_on store_loc (set ?names)"
    by (simp_all add: reports_ok_def store_reports_def store_loc_def inj_on_def)
  have rows: "filter (\<lambda>i. ?names ! i \<in> set [''a'', ''b'']) [0..<length ?names] = [0, 1]" by (simp add: upt_rec)
  have env: "io_ok repair_env" and none: "w_queues repair_world 10 ''c'' = []"
    by (simp_all add: io_ok_def repair_env_def repair_world_def)
  have rs: "0 < ecK repair_conf" "ecK repair_conf < length ?names" "length [1, 2 :: byte] = ecK repair_conf * (length ?names - ecK repair_conf)"
    "store_rs = RSUtil gf256 (ecK repair_conf) (length ?names) [1, 2]"
    by (simp_all add: conf(1) numeral_3_eq_3)
  have store: "?names \<in> set [?names]" "''c'' \<in> set ?names"
    "w_queues ?w0 (coordinatorIP repair_conf) ''blk_init'' = map report_msg store_reports"
    by (simp_all add: conf(2))
  have inv: "left_invertible gf256 2 (rows_of 2 (complete_enc_mat 2 3 [1, 2]) [0, 1])"
    using sample_invertible by (simp only: sample_complete sample_rows)
  have len: "length ?names = 3" by simp
  have code: "is_stripe gf256 (ecK repair_conf) (complete_enc_mat (ecK repair_conf) (length ?names) [1, 2])
      [replicate 16 3, replicate 16 5] 16 (map repair_content ?names)"
    "left_invertible gf256 (ecK repair_conf) (rows_of (ecK repair_conf) (complete_enc_mat (ecK repair_conf) (length ?names) [1, 2])
      (filter (\<lambda>i. ?names ! i \<in> set (name_helpers (ecK repair_conf) ?names ''c'')) [0..<length ?names]))"
    unfolding conf(1) helpers rows unfolding len by (rule repair_code, rule inv)
  note result = hdfs_conv_repair[OF gf256.gf_complete_axioms env rs store_sample store rep hs
      conv_setting_sample[folded conf(3)] repair_ctx code conf(4) repair_worlds(1) conv_world_sample[folded conf(3)]
      repair_client(1) none[folded conf(2)], of keep_order]
  then obtain m w0' w1 w2 where "HDFS_MetadataBase repair_conf store_rs store_files ?w0 = Inr (m, w0')"
    "conv_requestHandler repair_conf (hdfs_metadata gf256 store_rs repair_conf keep_order) (hdfs_getStripeBlksMul repair_conf 0) ?ctx
      m repair_world = Inr (w1, m)"
    "w_queues w1 10 ''c'' = [put_word 13]" "(dist_step repair_conf ?ctx)\<^sup>*\<^sup>* w1 w2" "waiting repair_conf w2 = 0"
    "\<forall>w2. (dist_step repair_conf ?ctx)\<^sup>*\<^sup>* w1 w2 \<and> waiting repair_conf w2 = 0 \<longrightarrow>
      (\<exists>st. start_all (take_cmd (conv_start repair_conf [])) (map fst repair_hs @ [13]) w2 = Inr st \<and>
        served (conv_cluster gf256 repair_env repair_conf) repair_conf ''c'' (repair_content ''c'') st)"
    unfolding conf(2,3) repair_client(2) by blast
  then show ?thesis by blast
qed

end
