(* ===== verification/Mul_Worker.thy ===== *)
theory Mul_Worker
  imports Pipe_Worker Ppr_Worker
begin

text \<open>
  \<open>PipeMulDRWorker.cc\<close> with \<open>PIPE_MUL_OPT\<close> set, as \<open>DROpt.hh\<close> has it: a helper of a chain that repairs several lost blocks at
  once. It gets one command for every lost block and starts with the last one. \<open>readMulWorker\<close> reads a packet once and
  multiplies it by the coefficient of every block, \<open>pullRequestorMulCompletion\<close> adds what the previous helper has pushed,
  and \<open>sendMulWorker\<close> pushes the sums to the local redis server. A step is a round of one of the threads; the waits on the
  condition variables are the conditions of the loops around them.
\<close>

section \<open>Commands\<close>

definition MAX_ECK :: nat where
  "MAX_ECK = 30"

text \<open>A \<open>PipeMulJob\<close> has the fields of the command of a simple chain; the position and the number of the jobs follow.\<close>

definition parse_mul_cmd :: "byte list \<Rightarrow> (pipe_job \<times> 32 word \<times> 32 word) res" where
  "parse_mul_cmd cmd =
     bindE (parse_pipe_cmd cmd) (\<lambda>job.
     let base = 28 + int (length (pj_lostBlkName job)) + int (length (pj_localBlkName job))
     in
     bindE (get_word cmd base) (\<lambda>jobInd.
     bindE (get_word cmd (base + 4)) (\<lambda>jobNum.
     Inr (job, jobInd, jobNum))))"

section \<open>State\<close>

text \<open>
  \<open>mw_pkts\<close> is \<open>_sendMulPkt\<close>: for every packet one buffer with a region for every job. \<open>mw_flag\<close> is \<open>_diskFlag\<close>, \<open>mw_read\<close> the
  counter of the reader. \<open>mw_main\<close> and \<open>mw_sent\<close> count the rounds of the inner loops of the other threads, and
  \<open>mw_toSend\<close> is \<open>waitingToSend\<close>.
\<close>

record mul_worker =
  mw_ip :: ip_addr
  mw_jobs :: "pipe_job list"
  mw_prev :: "ip_addr option list"
  mw_pkts :: "byte list list"
  mw_flag :: "bool list"
  mw_read :: nat
  mw_main :: nat
  mw_toSend :: "nat list"
  mw_sent :: nat

definition mul_start :: "repair_config \<Rightarrow> bool list \<Rightarrow> ip_addr \<Rightarrow> pipe_job list \<Rightarrow> mul_worker res" where
  "mul_start conf flags ip jobs =
     bindE (guardE (length jobs \<le> MAX_ECK) Out_Of_Bounds) (\<lambda>_.
     bindE (mapE (\<lambda>j. findCtx (sort (helpersIPs conf)) (pj_prevIP j)) jobs) (\<lambda>prevs.
     Inr \<lparr>mw_ip = ip, mw_jobs = jobs, mw_prev = prevs,
       mw_pkts = replicate (packetCnt conf) (replicate (packetSize conf * length jobs + 4) 0),
       mw_flag = flags, mw_read = 0, mw_main = 0, mw_toSend = replicate (length jobs) 0, mw_sent = 0\<rparr>))"

text \<open>
  The loop of \<open>doProcess\<close> up to the start of the threads. \<open>jobs\<close> and \<open>flags\<close> are what the commands before have left; \<open>cleanup\<close>
  is not called behind them.
\<close>

declare bindE_cong [fundef_cong]

function mul_take ::
    "repair_config \<Rightarrow> bool list \<Rightarrow> pipe_job list \<Rightarrow> ip_addr \<Rightarrow> world \<Rightarrow> (world \<times> mul_worker) res" where
  "mul_take conf flags jobs ip w =
     bindE (blpop ip ''dr_cmds'' w) (\<lambda>(cmd, w1).
     bindE (parse_mul_cmd cmd) (\<lambda>(job, jobInd, jobNum).
     let jobs = (if jobInd = jobNum then [] else jobs) @ [job]
     in if jobInd = 1 then bindE (mul_start conf flags ip jobs) (\<lambda>p. Inr (w1, p))
        else mul_take conf flags jobs ip w1))"
  by pat_completeness auto
termination
  by (relation "measure (\<lambda>(conf, flags, jobs, ip, w). length (w_queues w ip ''dr_cmds''))")
    (auto simp: blpop_def split: list.splits)

declare mul_take.simps [simp del]

section \<open>The work of the threads\<close>

text \<open>\<open>RSUtil::multiply\<close> and \<open>XORBuffers\<close> on the region of a job.\<close>

definition multiply_at :: "gf_ops \<Rightarrow> repair_config \<Rightarrow> int \<Rightarrow> nat \<Rightarrow> byte list \<Rightarrow> byte list res" where
  "multiply_at G conf coef j buf =
     (let off = int (j * packetSize conf)
      in bindE (memcpy_from buf off (int (packetSize conf))) (\<lambda>reg.
         bindE (guardE (coef < 256) Out_Of_Bounds) (\<lambda>_.
         bindE (rs_multiply G reg (word_of_int coef) (packetSize conf)) (\<lambda>reg.
         memcpy_to buf off reg))))"

definition xor_at :: "repair_config \<Rightarrow> nat \<Rightarrow> byte list \<Rightarrow> byte list \<Rightarrow> byte list res" where
  "xor_at conf j msg buf =
     (let off = int (j * packetSize conf)
      in bindE (memcpy_from buf off (int (packetSize conf))) (\<lambda>reg.
         bindE (XORBuffers reg msg (packetSize conf)) (\<lambda>reg.
         memcpy_to buf off reg)))"

text \<open>A round of \<open>readMulWorker\<close>: the packet is copied to the regions of all jobs and multiplied there.\<close>

definition mul_read :: "gf_ops \<Rightarrow> env \<Rightarrow> repair_config \<Rightarrow> world \<Rightarrow> mul_worker \<Rightarrow> mul_worker res" where
  "mul_read G E conf w p =
     bindE (atE (mw_jobs p) 0) (\<lambda>job0.
     case w_files w (mw_ip p) (pj_localBlkName job0) of
       None \<Rightarrow> Inl (Exit 1)
     | Some fdata \<Rightarrow>
         let i = mw_read p;
             base = sint (word_of_int (int (packetSkipSize conf + i * packetSize conf)) :: 32 word)
         in
         bindE (guardE (0 \<le> base) (Exit 1)) (\<lambda>_.
         bindE (read_loop E fdata (nat base) (packetSize conf) 0 (replicate (packetSize conf) 0)) (\<lambda>disk.
         bindE (atE (mw_pkts p) (int i)) (\<lambda>buf.
         bindE (foldE (\<lambda>j buf.
           bindE (memcpy_to buf (int (j * packetSize conf)) disk)
             (multiply_at G conf (pj_coefficient (mw_jobs p ! j)) j)) [0..<length (mw_jobs p)] buf) (\<lambda>buf.
         bindE (pktOutput i (packetCnt conf)) (\<lambda>_.
         Inr (p\<lparr>mw_pkts := (mw_pkts p)[i := buf], mw_flag := (mw_flag p)[i := True], mw_read := Suc i\<rparr>)))))))"

text \<open>A round of \<open>pullRequestorMulCompletion\<close> for one packet of one job.\<close>

definition mul_pull :: "repair_config \<Rightarrow> world \<Rightarrow> mul_worker \<Rightarrow> (world \<times> mul_worker) res" where
  "mul_pull conf w p =
     (let nj = length (mw_jobs p); pktId = mw_main p div nj; j = mw_main p mod nj
      in
      bindE (atE (mw_jobs p) (int j)) (\<lambda>job.
      bindE
        (if pj_id job = 0 then Inr (w, mw_pkts p)
         else case mw_prev p ! j of
           None \<Rightarrow> Inl Out_Of_Bounds
         | Some prev \<Rightarrow>
             bindE (blpop prev (tmp_key (pj_lostBlkName job)) w) (\<lambda>(msg, w1).
             bindE (atE (mw_pkts p) (int pktId)) (\<lambda>buf.
             bindE (xor_at conf j msg buf) (\<lambda>buf. Inr (w1, (mw_pkts p)[pktId := buf]))))) (\<lambda>(w1, pkts).
      bindE (pktOutput pktId (packetCnt conf)) (\<lambda>_.
      Inr (w1, p\<lparr>mw_pkts := pkts, mw_main := Suc (mw_main p), mw_toSend := (mw_toSend p)[j := Suc (mw_toSend p ! j)]\<rparr>)))))"

text \<open>A round of \<open>sendMulWorker\<close> for one packet of one job.\<close>

definition mul_push :: "repair_config \<Rightarrow> world \<Rightarrow> mul_worker \<Rightarrow> (world \<times> mul_worker) res" where
  "mul_push conf w p =
     (let nj = length (mw_jobs p); pktId = mw_sent p div nj; j = mw_sent p mod nj
      in
      bindE (atE (mw_jobs p) (int j)) (\<lambda>job.
      bindE (atE (mw_pkts p) (int pktId)) (\<lambda>buf.
      bindE (memcpy_from buf (int (j * packetSize conf)) (int (packetSize conf))) (\<lambda>msg.
      bindE (pktOutput pktId (packetCnt conf)) (\<lambda>_.
      Inr (rpush (mw_ip p) (send_key job) msg w, p\<lparr>mw_sent := Suc (mw_sent p)\<rparr>))))))"

section \<open>Steps\<close>

inductive mul_step ::
    "gf_ops \<Rightarrow> env \<Rightarrow> repair_config \<Rightarrow> world \<times> mul_worker \<Rightarrow> world \<times> mul_worker \<Rightarrow> bool"
  for G E conf where
  Read: "mw_read p < packetCnt conf \<Longrightarrow> mul_read G E conf w p = Inr p' \<Longrightarrow> mul_step G E conf (w, p) (w, p')"
| Pull: "mw_main p < packetCnt conf * length (mw_jobs p) \<Longrightarrow> mw_flag p ! (mw_main p div length (mw_jobs p)) \<Longrightarrow>
    mul_pull conf w p = Inr (w', p') \<Longrightarrow> mul_step G E conf (w, p) (w', p')"
| Push: "mw_sent p < packetCnt conf * length (mw_jobs p) \<Longrightarrow>
    mw_sent p div length (mw_jobs p) < mw_toSend p ! (mw_sent p mod length (mw_jobs p)) \<Longrightarrow>
    mul_push conf w p = Inr (w', p') \<Longrightarrow> mul_step G E conf (w, p) (w', p')"

inductive mul_cluster ::
    "gf_ops \<Rightarrow> env \<Rightarrow> repair_config \<Rightarrow> world \<times> mul_worker list \<Rightarrow> world \<times> mul_worker list \<Rightarrow> bool"
  for G E conf where
  "h < length ps \<Longrightarrow> mul_step G E conf (w, ps ! h) (w', p') \<Longrightarrow> mul_cluster G E conf (w, ps) (w', ps[h := p'])"

definition mul_finished :: "repair_config \<Rightarrow> mul_worker \<Rightarrow> bool" where
  "mul_finished conf p \<longleftrightarrow> (let n = packetCnt conf * length (mw_jobs p) in
     mw_read p = packetCnt conf \<and> mw_main p = n \<and> mw_sent p = n)"

end
