(* ===== verification/Mul_Chain.thy ===== *)
theory Mul_Chain
  imports Mul_Worker Pipe_Repair Ppr_Sum
begin

text \<open>
  A chain of helpers that repair several blocks at once, under any interleaving of their threads: helper \<open>h\<close> only ever pushes
  the sums of the blocks of the helpers \<open>0, \<dots>, h\<close>, for every lost block packet by packet and in order.
\<close>

section \<open>Rounds\<close>

text \<open>How many of the first \<open>m\<close> rounds of an inner loop over \<open>n\<close> jobs are about job \<open>j\<close>.\<close>

definition rounds :: "nat \<Rightarrow> nat \<Rightarrow> nat \<Rightarrow> nat" where
  "rounds n j m = (m + (n - Suc j)) div n"

lemma rounds_iff: "j < n \<Longrightarrow> i < rounds n j m \<longleftrightarrow> i * n + j < m"
proof -
  assume j: "j < n"
  have "i < rounds n j m \<longleftrightarrow> Suc i * n \<le> m + (n - Suc j)"
    using j less_eq_div_iff_mult_less_eq[of n "Suc i" "m + (n - Suc j)"] by (simp add: rounds_def Suc_le_eq)
  also have "\<dots> \<longleftrightarrow> i * n + j < m" using j by auto
  finally show ?thesis .
qed

lemma rounds_eqI:
  assumes "j < n" and "\<And>i. i * n + j < m \<longleftrightarrow> i < r"
  shows "rounds n j m = r"
  using assms(2)[of "rounds n j m"] assms(2)[of r] rounds_iff[OF assms(1), of _ m] by (metis linorder_neqE_nat less_irrefl)

lemma rounds_0 [simp]: "j < n \<Longrightarrow> rounds n j 0 = 0"
  by (rule rounds_eqI) simp_all

lemma rounds_all: "j < n \<Longrightarrow> rounds n j (c * n) = c"
proof (rule rounds_eqI)
  fix i assume j: "j < n"
  show "i * n + j < c * n \<longleftrightarrow> i < c"
  proof
    assume "i < c"
    then have "Suc i * n \<le> c * n" by (intro mult_le_mono1) simp
    then show "i * n + j < c * n" using j by simp
  next
    assume "i * n + j < c * n"
    then have "i * n < c * n" by linarith
    then show "i < c" by simp
  qed
qed

lemma rounds_mono: "j < n \<Longrightarrow> m \<le> m' \<Longrightarrow> rounds n j m \<le> rounds n j m'"
  by (simp add: rounds_def div_le_mono)

lemma round_eq: "j < n \<Longrightarrow> m = i * n + j \<longleftrightarrow> i = m div n \<and> j = m mod n" for i j m n :: nat
  by auto

lemma rounds_now: "0 < n \<Longrightarrow> rounds n (m mod n) m = m div n"
proof (rule rounds_eqI)
  assume n: "0 < n"
  then show "m mod n < n" by simp
  fix i
  have "i * n + m mod n < m \<longleftrightarrow> i * n < m div n * n" using div_mult_mod_eq[of m n] by linarith
  then show "i * n + m mod n < m \<longleftrightarrow> i < m div n" using n by simp
qed

lemma rounds_Suc: "j < n \<Longrightarrow> rounds n j (Suc m) = (if j = m mod n then Suc (rounds n j m) else rounds n j m)"
proof (rule rounds_eqI)
  fix i assume j: "j < n"
  have "i * n + j < Suc m \<longleftrightarrow> i * n + j < m \<or> m = i * n + j" by auto
  also have "\<dots> \<longleftrightarrow> i < rounds n j m \<or> i = m div n \<and> j = m mod n" by (simp only: rounds_iff[OF j] round_eq[OF j])
  also have "\<dots> \<longleftrightarrow> i < (if j = m mod n then Suc (rounds n j m) else rounds n j m)"
    using rounds_now[of n m] j by (auto simp: less_Suc_eq)
  finally show "i * n + j < Suc m \<longleftrightarrow> i < (if j = m mod n then Suc (rounds n j m) else rounds n j m)" .
qed

section \<open>Regions\<close>

definition reg_at :: "nat \<Rightarrow> nat \<Rightarrow> byte list \<Rightarrow> byte list" where
  "reg_at sz j buf = take sz (drop (j * sz) buf)"

lemma reg_in: "j < n \<Longrightarrow> sz * n \<le> length buf \<Longrightarrow> j * sz + sz \<le> length buf"
proof -
  assume "j < n" and len: "sz * n \<le> length buf"
  then have "Suc j * sz \<le> n * sz" by (intro mult_le_mono1) simp
  then show ?thesis using len by (simp add: mult.commute)
qed

lemma length_reg: "j * sz + sz \<le> length buf \<Longrightarrow> length (reg_at sz j buf) = sz"
  by (simp add: reg_at_def)

lemma reg_from: "j * sz + sz \<le> length buf \<Longrightarrow> memcpy_from buf (int (j * sz)) (int sz) = Inr (reg_at sz j buf)"
  by (simp add: memcpy_from_def reg_at_def nat_mult_distrib flip: of_nat_add of_nat_mult)

lemma reg_to:
  assumes "j * sz + sz \<le> length buf" and "length x = sz"
  shows "memcpy_to buf (int (j * sz)) x = Inr (overwrite buf (j * sz) x)" and "length (overwrite buf (j * sz) x) = length buf"
    and "reg_at sz j (overwrite buf (j * sz) x) = x"
    and "i \<noteq> j \<Longrightarrow> reg_at sz i (overwrite buf (j * sz) x) = reg_at sz i buf"
proof -
  show "memcpy_to buf (int (j * sz)) x = Inr (overwrite buf (j * sz) x)"
    using assms by (simp add: memcpy_to_def flip: of_nat_mult)
  show len: "length (overwrite buf (j * sz) x) = length buf" using assms by simp
  show "reg_at sz j (overwrite buf (j * sz) x) = x" using assms by (simp add: reg_at_def overwrite_def)
  assume ne: "i \<noteq> j"
  show "reg_at sz i (overwrite buf (j * sz) x) = reg_at sz i buf"
  proof (rule nth_equalityI)
    show "length (reg_at sz i (overwrite buf (j * sz) x)) = length (reg_at sz i buf)" by (simp add: reg_at_def len)
    fix b assume "b < length (reg_at sz i (overwrite buf (j * sz) x))"
    then have b: "b < sz" "i * sz + b < length buf" by (simp_all add: reg_at_def len less_diff_conv add.commute)
    have "\<not> (j * sz \<le> i * sz + b \<and> i * sz + b < j * sz + sz)"
    proof (cases "i < j")
      case True
      then have "Suc i * sz \<le> j * sz" by (intro mult_le_mono1) simp
      then show ?thesis using b(1) by simp
    next
      case False
      then have "Suc j * sz \<le> i * sz" using ne by (intro mult_le_mono1) simp
      then show ?thesis by simp
    qed
    then show "reg_at sz i (overwrite buf (j * sz) x) ! b = reg_at sz i buf ! b"
      using b assms nth_overwrite[of "j * sz" x buf "i * sz + b"] by (auto simp: reg_at_def len)
  qed
qed

section \<open>The setting\<close>

text \<open>The helpers \<open>mc_ips\<close> with their blocks, and for every lost block its name and the coefficients of the helpers.\<close>

record mul_case =
  mc_conf :: repair_config
  mc_ips :: "ip_addr list"
  mc_blks :: "byte list list"
  mc_jobs :: "(string \<times> byte list) list"

abbreviation mc_k :: "mul_case \<Rightarrow> nat" where
  "mc_k C \<equiv> length (mc_ips C)"

abbreviation mc_n :: "mul_case \<Rightarrow> nat" where
  "mc_n C \<equiv> length (mc_jobs C)"

abbreviation mc_size :: "mul_case \<Rightarrow> nat" where
  "mc_size C \<equiv> packetSize (mc_conf C)"

abbreviation mc_cnt :: "mul_case \<Rightarrow> nat" where
  "mc_cnt C \<equiv> packetCnt (mc_conf C)"

definition mul_key :: "mul_case \<Rightarrow> nat \<Rightarrow> nat \<Rightarrow> string" where
  "mul_key C h j = chain_key (fst (mc_jobs C ! j)) (mc_ips C) h"

abbreviation mul_sum :: "gf_ops \<Rightarrow> mul_case \<Rightarrow> nat \<Rightarrow> nat \<Rightarrow> nat \<Rightarrow> byte list" where
  "mul_sum G C h j \<equiv> sum_pkt G (mc_conf C) (snd (mc_jobs C ! j)) (mc_blks C) h"

abbreviation mul_own :: "gf_ops \<Rightarrow> mul_case \<Rightarrow> nat \<Rightarrow> nat \<Rightarrow> nat \<Rightarrow> byte list" where
  "mul_own G C h j \<equiv> own_pkt G (mc_conf C) (snd (mc_jobs C ! j)) (mc_blks C) h"

definition mul_conf_ok :: "mul_case \<Rightarrow> bool" where
  "mul_conf_ok C \<longleftrightarrow> (let conf = mc_conf C in
     0 < mc_n C \<and> distinct (mc_ips C) \<and> distinct (map fst (mc_jobs C)) \<and> 8 dvd packetSize conf \<and>
     packetCnt conf \<noteq> 3 \<and> pkt_base conf (packetCnt conf) < 2 ^ 31 \<and>
     (\<forall>h < mc_k C. pkt_base conf (packetCnt conf) \<le> length (mc_blks C ! h)))"

definition mul_ok :: "mul_case \<Rightarrow> world \<Rightarrow> nat \<Rightarrow> mul_worker \<Rightarrow> bool" where
  "mul_ok C w h p \<longleftrightarrow> mw_ip p = mc_ips C ! h \<and> length (mw_jobs p) = mc_n C \<and>
     (\<forall>j < mc_n C. let job = mw_jobs p ! j in
        pj_id job = int h \<and> pj_coefficient job = uint (snd (mc_jobs C ! j) ! h) \<and> pj_lostBlkName job = fst (mc_jobs C ! j) \<and>
        send_key job = mul_key C h j \<and> (0 < h \<longrightarrow> mw_prev p ! j = Some (mc_ips C ! (h - 1))) \<and>
        w_files w (mc_ips C ! h) (pj_localBlkName job) = Some (mc_blks C ! h))"

definition mul_inv :: "gf_ops \<Rightarrow> mul_case \<Rightarrow> nat \<Rightarrow> mul_worker \<Rightarrow> bool" where
  "mul_inv G C h p \<longleftrightarrow> (let cnt = mc_cnt C; n = mc_n C in
     mw_read p \<le> cnt \<and> mw_main p \<le> mw_read p * n \<and> mw_sent p \<le> mw_main p \<and>
     length (mw_flag p) = cnt \<and> (\<forall>i < cnt. mw_flag p ! i = (i < mw_read p)) \<and>
     length (mw_toSend p) = n \<and> (\<forall>j < n. mw_toSend p ! j = rounds n j (mw_main p)) \<and>
     length (mw_pkts p) = cnt \<and> (\<forall>i < cnt. length (mw_pkts p ! i) = mc_size C * n + 4) \<and>
     (\<forall>i < mw_read p. \<forall>j < n. reg_at (mc_size C) j (mw_pkts p ! i) =
        (if i * n + j < mw_main p then mul_sum G C h j i else mul_own G C h j i)))"

lemma mul_okD:
  assumes "mul_ok C w h p"
  shows "mw_ip p = mc_ips C ! h" and "length (mw_jobs p) = mc_n C"
    and "\<And>j. j < mc_n C \<Longrightarrow> pj_id (mw_jobs p ! j) = int h"
    and "\<And>j. j < mc_n C \<Longrightarrow> pj_coefficient (mw_jobs p ! j) = uint (snd (mc_jobs C ! j) ! h)"
    and "\<And>j. j < mc_n C \<Longrightarrow> pj_lostBlkName (mw_jobs p ! j) = fst (mc_jobs C ! j)"
    and "\<And>j. j < mc_n C \<Longrightarrow> send_key (mw_jobs p ! j) = mul_key C h j"
    and "\<And>j. j < mc_n C \<Longrightarrow> 0 < h \<Longrightarrow> mw_prev p ! j = Some (mc_ips C ! (h - 1))"
    and "\<And>j. j < mc_n C \<Longrightarrow> w_files w (mc_ips C ! h) (pj_localBlkName (mw_jobs p ! j)) = Some (mc_blks C ! h)"
  using assms by (simp_all add: mul_ok_def Let_def)

lemma mul_invD:
  assumes "mul_inv G C h p"
  shows "mw_read p \<le> mc_cnt C" and "mw_main p \<le> mw_read p * mc_n C" and "mw_sent p \<le> mw_main p"
    and "length (mw_flag p) = mc_cnt C" and "\<And>i. i < mc_cnt C \<Longrightarrow> mw_flag p ! i \<longleftrightarrow> i < mw_read p"
    and "length (mw_toSend p) = mc_n C" and "\<And>j. j < mc_n C \<Longrightarrow> mw_toSend p ! j = rounds (mc_n C) j (mw_main p)"
    and "length (mw_pkts p) = mc_cnt C" and "\<And>i. i < mc_cnt C \<Longrightarrow> length (mw_pkts p ! i) = mc_size C * mc_n C + 4"
    and "\<And>i j. i < mw_read p \<Longrightarrow> j < mc_n C \<Longrightarrow> reg_at (mc_size C) j (mw_pkts p ! i) =
      (if i * mc_n C + j < mw_main p then mul_sum G C h j i else mul_own G C h j i)"
  using assms by (simp_all add: mul_inv_def Let_def)

section \<open>The work of a helper\<close>

lemma multiply_at_ok:
  assumes "j * packetSize conf + packetSize conf \<le> length buf"
    and "rs_multiply G (reg_at (packetSize conf) j buf) c (packetSize conf) = Inr r" and "length r = packetSize conf"
  shows "multiply_at G conf (uint c) j buf = Inr (overwrite buf (j * packetSize conf) r)"
proof -
  have "uint c < 256" using uint_lt2p[of c] by simp
  then show ?thesis
    using assms(2) unfolding multiply_at_def Let_def reg_from[OF assms(1)] by (simp add: reg_to(1)[OF assms(1,3)] del: of_nat_mult)
qed

lemma mul_read_bufs:
  assumes G: "gf_complete G" and C: "mul_conf_ok C" and h: "h < mc_k C" and ok: "mul_ok C w h p" and i: "i < mc_cnt C"
    and len: "length buf = mc_size C * mc_n C + 4"
  shows "\<exists>buf'. foldE (\<lambda>j buf. bindE (memcpy_to buf (int (j * mc_size C)) (lost_pkt (mc_conf C) (mc_blks C ! h) i))
      (multiply_at G (mc_conf C) (pj_coefficient (mw_jobs p ! j)) j)) [0..<mc_n C] buf = Inr buf' \<and>
    (length buf' = mc_size C * mc_n C + 4 \<and> (\<forall>j < mc_n C. reg_at (mc_size C) j buf' = mul_own G C h j i))"
proof (rule foldE_upt_inv[where P = "\<lambda>m b. length b = mc_size C * mc_n C + 4 \<and> (\<forall>j < m. reg_at (mc_size C) j b = mul_own G C h j i)"])
  let ?pkt = "lost_pkt (mc_conf C) (mc_blks C ! h) i"
  have "pkt_base (mc_conf C) (mc_cnt C) \<le> length (mc_blks C ! h)" using C h by (simp add: mul_conf_ok_def Let_def)
  then have room: "pkt_base (mc_conf C) i + mc_size C \<le> length (mc_blks C ! h)" using i by (rule pkt_in_file)
  then have pkt: "length ?pkt = mc_size C" by (simp add: lost_pkt_def)
  show "length buf = mc_size C * mc_n C + 4 \<and> (\<forall>j < 0. reg_at (mc_size C) j buf = mul_own G C h j i)" using len by simp
  fix j b assume j: "j < mc_n C" and b: "length b = mc_size C * mc_n C + 4 \<and> (\<forall>a < j. reg_at (mc_size C) a b = mul_own G C h a i)"
  have fits: "j * mc_size C + mc_size C \<le> length b" using reg_in[OF j, of "mc_size C" b] b by simp
  define b1 where "b1 = overwrite b (j * mc_size C) ?pkt"
  note copy = reg_to[OF fits pkt, folded b1_def]
  have fits1: "j * mc_size C + mc_size C \<le> length b1" using fits copy(2) by simp
  let ?own = "mul_own G C h j i"
  have "rs_multiply G (reg_at (mc_size C) j b1) (snd (mc_jobs C ! j) ! h) (mc_size C) = Inr ?own"
    using own_pkt_multiply[OF G room] copy(3) by (simp add: lost_pkt_def)
  then have "multiply_at G (mc_conf C) (pj_coefficient (mw_jobs p ! j)) j b1 = Inr (overwrite b1 (j * mc_size C) ?own)"
    using multiply_at_ok[OF fits1] mul_okD(4)[OF ok j] by simp
  moreover have "reg_at (mc_size C) a (overwrite b1 (j * mc_size C) ?own) = mul_own G C h a i" if "a < Suc j" for a
    using that b copy(4)[of a] reg_to(3,4)[OF fits1, of ?own] by (cases "a = j") auto
  ultimately show "\<exists>s'. bindE (memcpy_to b (int (j * mc_size C)) ?pkt) (multiply_at G (mc_conf C) (pj_coefficient (mw_jobs p ! j)) j) = Inr s' \<and>
      (length s' = mc_size C * mc_n C + 4 \<and> (\<forall>a < Suc j. reg_at (mc_size C) a s' = mul_own G C h a i))"
    using copy(1,2) b reg_to(2)[OF fits1, of ?own] by simp
qed

lemma mul_read_ok:
  assumes G: "gf_complete G" and E: "io_ok E" and C: "mul_conf_ok C" and h: "h < mc_k C" and ok: "mul_ok C w h p"
    and inv: "mul_inv G C h p" and rd: "mw_read p < mc_cnt C"
  shows "\<exists>p'. mul_read G E (mc_conf C) w p = Inr p' \<and> mul_inv G C h p' \<and> mw_ip p' = mw_ip p \<and> mw_jobs p' = mw_jobs p \<and>
    mw_prev p' = mw_prev p \<and> mw_read p' = Suc (mw_read p) \<and> mw_main p' = mw_main p \<and> mw_sent p' = mw_sent p"
proof -
  let ?i = "mw_read p" and ?conf = "mc_conf C"
  have n: "0 < mc_n C" using C by (simp add: mul_conf_ok_def Let_def)
  note D = mul_invD[OF inv]
  have room: "pkt_base ?conf (mc_cnt C) \<le> length (mc_blks C ! h)" using C h by (simp add: mul_conf_ok_def Let_def)
  have "pkt_base ?conf (mc_cnt C) < 2 ^ 31" using C unfolding mul_conf_ok_def Let_def by blast
  note base = pkt_base_int[OF this rd]
  have read: "read_loop E (mc_blks C ! h) (pkt_base ?conf ?i) (mc_size C) 0 (replicate (mc_size C) 0) =
      Inr (lost_pkt ?conf (mc_blks C ! h) ?i)"
    using read_loop_eq[OF E pkt_in_file[OF room rd]] by (simp add: lost_pkt_def)
  obtain buf where buf: "foldE (\<lambda>j buf. bindE (memcpy_to buf (int (j * mc_size C)) (lost_pkt ?conf (mc_blks C ! h) ?i))
      (multiply_at G ?conf (pj_coefficient (mw_jobs p ! j)) j)) [0..<mc_n C] (mw_pkts p ! ?i) = Inr buf"
    "length buf = mc_size C * mc_n C + 4" "\<forall>j < mc_n C. reg_at (mc_size C) j buf = mul_own G C h j ?i"
    using mul_read_bufs[OF G C h ok rd D(9)[OF rd]] by blast
  obtain b where out: "pktOutput ?i (mc_cnt C) = Inr b"
    using pktOutput_ok[OF _ rd] C by (auto simp: mul_conf_ok_def Let_def)
  define p' where "p' = p\<lparr>mw_pkts := (mw_pkts p)[?i := buf], mw_flag := (mw_flag p)[?i := True], mw_read := Suc ?i\<rparr>"
  have "w_files w (mw_ip p) (pj_localBlkName (mw_jobs p ! 0)) = Some (mc_blks C ! h)"
    using mul_okD(1,8)[OF ok] n by simp
  then have "mul_read G E ?conf w p = Inr p'"
    using mul_okD(2)[OF ok] n D(8) rd out
    by (simp add: mul_read_def Let_def base read buf(1) p'_def del: of_nat_add of_nat_mult of_int_of_nat_eq)
  moreover have "mul_inv G C h p'"
  proof -
    have "mw_main p \<le> ?i * mc_n C" by (rule D(2))
    then have "\<not> ?i * mc_n C + j < mw_main p" for j by simp
    moreover have "mw_main p \<le> Suc ?i * mc_n C" using D(2) by simp
    ultimately show ?thesis
      using D buf(2,3) rd by (auto simp: mul_inv_def Let_def p'_def nth_list_update less_Suc_eq)
  qed
  ultimately show ?thesis by (intro exI[of _ p']) (simp add: p'_def)
qed

text \<open>What the threads leave as it is.\<close>

definition same_jobs :: "mul_worker \<Rightarrow> mul_worker \<Rightarrow> bool" where
  "same_jobs p p' \<longleftrightarrow> mw_ip p' = mw_ip p \<and> mw_jobs p' = mw_jobs p \<and> mw_prev p' = mw_prev p"

abbreviation mul_queued :: "gf_ops \<Rightarrow> mul_case \<Rightarrow> nat \<Rightarrow> nat \<Rightarrow> nat \<Rightarrow> nat \<Rightarrow> world \<Rightarrow> bool" where
  "mul_queued G C h j a s w \<equiv> sums_queued G (mc_conf C) (snd (mc_jobs C ! j)) (mc_blks C) (mc_ips C ! h) (mul_key C h j) h a s w"

lemma div_less_round: "0 < n \<Longrightarrow> m div n < r \<longleftrightarrow> m < r * n" for m n r :: nat
  by (rule div_less_iff_less_mult)

lemma mul_inv_pulled:
  assumes inv: "mul_inv G C h p" and n: "0 < mc_n C" and i: "mw_main p div mc_n C < mw_read p"
    and pkts: "length pkts = mc_cnt C" "\<And>i. i < mc_cnt C \<Longrightarrow> length (pkts ! i) = mc_size C * mc_n C + 4"
      "\<And>i j. i < mw_read p \<Longrightarrow> j < mc_n C \<Longrightarrow> reg_at (mc_size C) j (pkts ! i) =
        (if i = mw_main p div mc_n C \<and> j = mw_main p mod mc_n C then mul_sum G C h j i else reg_at (mc_size C) j (mw_pkts p ! i))"
  shows "mul_inv G C h (p\<lparr>mw_pkts := pkts, mw_main := Suc (mw_main p),
    mw_toSend := (mw_toSend p)[mw_main p mod mc_n C := Suc (mw_toSend p ! (mw_main p mod mc_n C))]\<rparr>)"
proof -
  let ?m = "mw_main p" and ?n = "mc_n C"
  note D = mul_invD[OF inv]
  have "?m < mw_read p * ?n" using i by (simp only: div_less_round[OF n])
  then have main: "Suc ?m \<le> mw_read p * ?n" by simp
  have "reg_at (mc_size C) j (pkts ! i) = (if i * ?n + j < Suc ?m then mul_sum G C h j i else mul_own G C h j i)"
    if "i < mw_read p" "j < ?n" for i j
    using pkts(3)[OF that] D(10)[OF that] round_eq[OF that(2), of ?m i] by (auto simp: less_Suc_eq)
  moreover have "(mw_toSend p)[?m mod ?n := Suc (mw_toSend p ! (?m mod ?n))] ! j = rounds ?n j (Suc ?m)" if "j < ?n" for j
    using D(6,7) that n by (simp add: nth_list_update rounds_Suc)
  ultimately show ?thesis
    using D(1,3-6) main pkts(1,2) by (simp add: mul_inv_def Let_def)
qed

lemma mul_key_prev: "0 < h \<Longrightarrow> h < mc_k C \<Longrightarrow> mul_key C (h - 1) j = tmp_key (fst (mc_jobs C ! j))"
  by (simp add: mul_key_def chain_key_def)

lemma mul_pull_ok:
  assumes C: "mul_conf_ok C" and h: "h < mc_k C" and ok: "mul_ok C w h p" and inv: "mul_inv G C h p"
    and i: "mw_main p div mc_n C < mw_read p"
    and q: "0 < h \<Longrightarrow> mul_queued G C (h - 1) (mw_main p mod mc_n C) (mw_main p div mc_n C) s w"
  shows "0 < h \<Longrightarrow> s = mw_main p div mc_n C \<Longrightarrow> mul_pull (mc_conf C) w p = Inl Blocked"
    and "h = 0 \<or> mw_main p div mc_n C < s \<Longrightarrow> \<exists>w' p'. mul_pull (mc_conf C) w p = Inr (w', p') \<and> mul_inv G C h p' \<and> same_jobs p p' \<and>
      mw_read p' = mw_read p \<and> mw_main p' = Suc (mw_main p) \<and> mw_sent p' = mw_sent p \<and>
      (if h = 0 then w' = w else \<exists>msg. blpop (mc_ips C ! (h - 1)) (mul_key C (h - 1) (mw_main p mod mc_n C)) w = Inr (msg, w'))"
proof -
  let ?n = "mc_n C" let ?i = "mw_main p div ?n" and ?j = "mw_main p mod ?n"
  have n: "0 < ?n" and dvd: "8 dvd mc_size C" using C by (simp_all add: mul_conf_ok_def Let_def)
  note D = mul_invD[OF inv]
  have j: "?j < ?n" using n by simp
  note job = mul_okD[OF ok]
  have i': "?i < mc_cnt C" using i D(1) by simp
  obtain b where out: "pktOutput ?i (mc_cnt C) = Inr b"
    using pktOutput_ok[OF _ i'] C by (auto simp: mul_conf_ok_def Let_def)
  let ?done = "\<lambda>pkts. p\<lparr>mw_pkts := pkts, mw_main := Suc (mw_main p), mw_toSend := (mw_toSend p)[?j := Suc (mw_toSend p ! ?j)]\<rparr>"
  show "mul_pull (mc_conf C) w p = Inl Blocked" if "0 < h" "s = ?i"
  proof -
    have "blpop (mc_ips C ! (h - 1)) (tmp_key (fst (mc_jobs C ! ?j))) w = Inl Blocked"
      using pull_sum[OF q] that mul_key_prev[OF that(1) h, of ?j] by simp
    then show ?thesis
      using job(2) job(3,5,7)[OF j] that(1) j by (simp add: mul_pull_def Let_def)
  qed
  assume avail: "h = 0 \<or> ?i < s"
  show "\<exists>w' p'. mul_pull (mc_conf C) w p = Inr (w', p') \<and> mul_inv G C h p' \<and> same_jobs p p' \<and>
      mw_read p' = mw_read p \<and> mw_main p' = Suc (mw_main p) \<and> mw_sent p' = mw_sent p \<and>
      (if h = 0 then w' = w else \<exists>msg. blpop (mc_ips C ! (h - 1)) (mul_key C (h - 1) ?j) w = Inr (msg, w'))"
  proof (cases "h = 0")
    case True
    have "mul_pull (mc_conf C) w p = Inr (w, ?done (mw_pkts p))"
      using job(2) job(3)[OF j] True j out by (simp add: mul_pull_def Let_def)
    moreover have "mul_inv G C h (?done (mw_pkts p))"
    proof (rule mul_inv_pulled[OF inv n i D(8,9)])
      fix i j assume ij: "i < mw_read p" "j < ?n"
      show "reg_at (mc_size C) j (mw_pkts p ! i) =
          (if i = ?i \<and> j = ?j then mul_sum G C h j i else reg_at (mc_size C) j (mw_pkts p ! i))"
        using D(10)[OF ij] True by (auto simp: sum_pkt_0)
    qed
    ultimately show ?thesis
      using True by (intro exI[of _ w] exI[of _ "?done (mw_pkts p)"]) (simp add: same_jobs_def)
  next
    case False
    then obtain g where g: "h = Suc g" by (cases h) auto
    have key: "mul_key C g ?j = tmp_key (fst (mc_jobs C ! ?j))" using mul_key_prev[of h C ?j] h g by simp
    obtain w1 where pop: "blpop (mc_ips C ! g) (mul_key C g ?j) w = Inr (mul_sum G C g ?j ?i, w1)"
      using pull_sum[OF q] avail False g by auto
    let ?buf = "mw_pkts p ! ?i"
    have fits: "?j * mc_size C + mc_size C \<le> length ?buf" using reg_in[OF j, of "mc_size C" ?buf] D(9)[OF i'] by simp
    let ?sum = "mul_sum G C h ?j ?i" and ?new = "overwrite ?buf (?j * mc_size C) (mul_sum G C h ?j ?i)"
    have "reg_at (mc_size C) ?j ?buf = mul_own G C h ?j ?i" using D(10)[OF i j] by simp
    then have "xor_at (mc_conf C) ?j (mul_sum G C g ?j ?i) ?buf = Inr ?new"
      unfolding xor_at_def Let_def reg_from[OF fits] by (simp add: g xor_own_sum[OF dvd] reg_to(1)[OF fits] del: of_nat_mult)
    then have "mul_pull (mc_conf C) w p = Inr (w1, ?done ((mw_pkts p)[?i := ?new]))"
      using job(2) job(3,5,7)[OF j] j out pop i' D(8) by (simp add: mul_pull_def Let_def g key)
    moreover have "mul_inv G C h (?done ((mw_pkts p)[?i := ?new]))"
    proof (rule mul_inv_pulled[OF inv n i])
      show "length ((mw_pkts p)[?i := ?new]) = mc_cnt C" using D(8) by simp
      fix a assume "a < mc_cnt C"
      then show "length ((mw_pkts p)[?i := ?new] ! a) = mc_size C * mc_n C + 4"
        using D(8,9) reg_to(2)[OF fits, of ?sum] by (cases "a = ?i") simp_all
    next
      fix a j assume "a < mw_read p" "j < ?n"
      then show "reg_at (mc_size C) j ((mw_pkts p)[?i := ?new] ! a) =
          (if a = ?i \<and> j = ?j then mul_sum G C h j a else reg_at (mc_size C) j (mw_pkts p ! a))"
        using reg_to(3,4)[OF fits, of ?sum] D(8) i' by (cases "a = ?i") simp_all
    qed
    ultimately show ?thesis
      using False pop g by (intro exI[of _ w1] exI[of _ "?done ((mw_pkts p)[?i := ?new])"]) (auto simp: same_jobs_def)
  qed
qed

lemma mul_push_ok:
  assumes C: "mul_conf_ok C" and h: "h < mc_k C" and ok: "mul_ok C w h p" and inv: "mul_inv G C h p" and lt: "mw_sent p < mw_main p"
  shows "mul_push (mc_conf C) w p = Inr (rpush (mc_ips C ! h) (mul_key C h (mw_sent p mod mc_n C))
      (mul_sum G C h (mw_sent p mod mc_n C) (mw_sent p div mc_n C)) w, p\<lparr>mw_sent := Suc (mw_sent p)\<rparr>)"
    and "mul_inv G C h (p\<lparr>mw_sent := Suc (mw_sent p)\<rparr>)"
proof -
  let ?n = "mc_n C" let ?i = "mw_sent p div ?n" and ?j = "mw_sent p mod ?n"
  have n: "0 < ?n" using C by (simp add: mul_conf_ok_def Let_def)
  then have j: "?j < ?n" by simp
  note D = mul_invD[OF inv]
  have "mw_sent p < mw_read p * ?n" using lt D(2) by simp
  then have i: "?i < mw_read p" by (simp only: div_less_round[OF n])
  then have i': "?i < mc_cnt C" using D(1) by simp
  have fits: "?j * mc_size C + mc_size C \<le> length (mw_pkts p ! ?i)" using reg_in[OF j, of "mc_size C" "mw_pkts p ! ?i"] D(9)[OF i'] by simp
  have "reg_at (mc_size C) ?j (mw_pkts p ! ?i) = mul_sum G C h ?j ?i" using D(10)[OF i j] lt by simp
  moreover obtain b where "pktOutput ?i (mc_cnt C) = Inr b"
    using pktOutput_ok[OF _ i'] C by (auto simp: mul_conf_ok_def Let_def)
  ultimately show "mul_push (mc_conf C) w p = Inr (rpush (mc_ips C ! h) (mul_key C h ?j) (mul_sum G C h ?j ?i) w, p\<lparr>mw_sent := Suc (mw_sent p)\<rparr>)"
    using mul_okD(1,2)[OF ok] mul_okD(6)[OF ok j] j i' D(8)
    by (simp add: mul_push_def Let_def reg_from[OF fits] del: of_nat_mult)
  show "mul_inv G C h (p\<lparr>mw_sent := Suc (mw_sent p)\<rparr>)" using inv lt by (simp add: mul_inv_def Let_def)
qed

section \<open>The chain\<close>

definition mul_taken :: "mul_case \<Rightarrow> mul_worker list \<Rightarrow> nat \<Rightarrow> nat \<Rightarrow> nat" where
  "mul_taken C ps h j = (if Suc h < length ps then rounds (mc_n C) j (mw_main (ps ! Suc h)) else 0)"

definition mul_chain_inv :: "gf_ops \<Rightarrow> mul_case \<Rightarrow> world \<times> mul_worker list \<Rightarrow> bool" where
  "mul_chain_inv G C st \<longleftrightarrow> (case st of (w, ps) \<Rightarrow> length ps = mc_k C \<and>
     (\<forall>h < mc_k C. mul_ok C w h (ps ! h) \<and> mul_inv G C h (ps ! h) \<and>
        (\<forall>j < mc_n C. mul_queued G C h j (mul_taken C ps h j) (rounds (mc_n C) j (mw_sent (ps ! h))) w)))"

inductive_cases mul_stepE: "mul_step G E conf (w, p) (w', p')"
inductive_cases mul_clusterE: "mul_cluster G E conf (w, ps) (w', ps')"

text \<open>A step of helper \<open>h\<close> reads, takes a packet of the helper before it, or pushes its next sum.\<close>

datatype mul_effect = MLocal | MPulled | MPushed

definition mul_has_effect ::
    "gf_ops \<Rightarrow> mul_case \<Rightarrow> nat \<Rightarrow> mul_effect \<Rightarrow> world \<times> mul_worker \<Rightarrow> world \<times> mul_worker \<Rightarrow> bool" where
  "mul_has_effect G C h e st st' \<longleftrightarrow> (case (st, st') of ((w, p), (w', p')) \<Rightarrow>
     case e of
       MLocal \<Rightarrow> w' = w \<and> mw_main p' = mw_main p \<and> mw_sent p' = mw_sent p
     | MPulled \<Rightarrow> mw_main p' = Suc (mw_main p) \<and> mw_sent p' = mw_sent p \<and>
         (if h = 0 then w' = w else \<exists>msg. blpop (mc_ips C ! (h - 1)) (mul_key C (h - 1) (mw_main p mod mc_n C)) w = Inr (msg, w'))
     | MPushed \<Rightarrow> mw_main p' = mw_main p \<and> mw_sent p' = Suc (mw_sent p) \<and>
         w' = rpush (mc_ips C ! h) (mul_key C h (mw_sent p mod mc_n C)) (mul_sum G C h (mw_sent p mod mc_n C) (mw_sent p div mc_n C)) w)"

lemma mul_step_effect:
  assumes G: "gf_complete G" and E: "io_ok E" and C: "mul_conf_ok C" and h: "h < mc_k C" and ok: "mul_ok C w h p"
    and inv: "mul_inv G C h p" and step: "mul_step G E (mc_conf C) (w, p) (w', p')"
    and q: "0 < h \<Longrightarrow> mul_queued G C (h - 1) (mw_main p mod mc_n C) (mw_main p div mc_n C) s w"
  shows "same_jobs p p' \<and> mul_inv G C h p' \<and> (\<exists>e. mul_has_effect G C h e (w, p) (w', p'))"
proof -
  have n: "0 < mc_n C" using C by (simp add: mul_conf_ok_def Let_def)
  note len = mul_okD(2)[OF ok]
  note D = mul_invD[OF inv]
  from step show ?thesis
  proof (rule mul_stepE)
    assume "w' = w" "mw_read p < mc_cnt C" "mul_read G E (mc_conf C) w p = Inr p'"
    then show ?thesis
      using mul_read_ok[OF G E C h ok inv] by (auto simp: same_jobs_def mul_has_effect_def intro!: exI[of _ MLocal])
  next
    assume pull: "mw_main p < mc_cnt C * length (mw_jobs p)" "mw_flag p ! (mw_main p div length (mw_jobs p))"
      "mul_pull (mc_conf C) w p = Inr (w', p')"
    have "mw_main p div mc_n C < mc_cnt C" using pull(1) len by (simp only: div_less_round[OF n])
    then have i: "mw_main p div mc_n C < mw_read p" using D(5) pull(2) len by simp
    have "h = 0 \<or> mw_main p div mc_n C < s"
    proof (rule ccontr)
      assume "\<not> (h = 0 \<or> mw_main p div mc_n C < s)"
      moreover from this have "mw_main p div mc_n C \<le> s" using q by (simp add: sums_queued_def)
      ultimately show False using mul_pull_ok(1)[OF C h ok inv i q] pull(3) by simp
    qed
    then show ?thesis
      using mul_pull_ok(2)[OF C h ok inv i q] pull(3) by (auto simp: mul_has_effect_def intro!: exI[of _ MPulled])
  next
    assume push: "mw_sent p < mc_cnt C * length (mw_jobs p)"
      "mw_sent p div length (mw_jobs p) < mw_toSend p ! (mw_sent p mod length (mw_jobs p))" "mul_push (mc_conf C) w p = Inr (w', p')"
    have j: "mw_sent p mod mc_n C < mc_n C" using n by simp
    have "mw_sent p div mc_n C * mc_n C + mw_sent p mod mc_n C < mw_main p"
      using push(2) D(7)[OF j] len rounds_iff[OF j] by simp
    then have "mw_sent p < mw_main p" by simp
    then show ?thesis
      using mul_push_ok[OF C h ok inv] push(3) by (auto simp: mul_has_effect_def same_jobs_def intro!: exI[of _ MPushed])
  qed
qed

lemma mul_effect_files: "mul_has_effect G C h e (w, p) (w', p') \<Longrightarrow> w_files w' = w_files w"
  by (cases e) (auto simp: mul_has_effect_def rpush_def blpop_def split: if_splits list.splits)

text \<open>The lists of different helpers or of different lost blocks are different.\<close>

lemma mul_key_inj:
  assumes "mul_conf_ok C" and "h < mc_k C" and "g < mc_k C" and "i < mc_n C" and "j < mc_n C"
    and "mc_ips C ! h = mc_ips C ! g" and "mul_key C h i = mul_key C g j"
  shows "h = g" and "i = j"
proof -
  show "h = g" using assms(1-3,6) by (auto simp: mul_conf_ok_def Let_def nth_eq_iff_index_eq)
  then have "map fst (mc_jobs C) ! i = map fst (mc_jobs C) ! j"
    using assms(4,5,7) by (auto simp: mul_key_def chain_key_def tmp_key_def split: if_splits)
  then show "i = j" using assms(1,4,5) nth_eq_iff_index_eq[of "map fst (mc_jobs C)" i j] by (simp add: mul_conf_ok_def Let_def)
qed

lemma mul_effect_queues:
  assumes C: "mul_conf_ok C" and len: "length ps = mc_k C" and g: "g < mc_k C"
    and effect: "mul_has_effect G C g e (w, ps ! g) (w', p')"
    and queued: "\<And>h j. h < mc_k C \<Longrightarrow> j < mc_n C \<Longrightarrow> mul_queued G C h j (mul_taken C ps h j) (rounds (mc_n C) j (mw_sent (ps ! h))) w"
    and h: "h < mc_k C" and j: "j < mc_n C"
  shows "mul_queued G C h j (mul_taken C (ps[g := p']) h j) (rounds (mc_n C) j (mw_sent (ps[g := p'] ! h))) w'"
proof -
  let ?n = "mc_n C"
  have n: "0 < ?n" using j by (rule le_less_trans[OF le0])
  note q = queued[OF h j]
  show ?thesis
  proof (cases e)
    case MLocal
    then have "w' = w" "mul_taken C (ps[g := p']) h j = mul_taken C ps h j" "mw_sent (ps[g := p'] ! h) = mw_sent (ps ! h)"
      using effect len g by (auto simp: mul_has_effect_def mul_taken_def nth_list_update)
    with q show ?thesis by simp
  next
    case MPulled
    let ?m = "mw_main (ps ! g)"
    have sent: "mw_sent (ps[g := p'] ! h) = mw_sent (ps ! h)" and main: "mw_main p' = Suc ?m"
      using effect MPulled len g by (auto simp: mul_has_effect_def nth_list_update)
    show ?thesis
    proof (cases "Suc h = g \<and> j = ?m mod ?n")
      case True
      then obtain msg where pop: "blpop (mc_ips C ! h) (mul_key C h j) w = Inr (msg, w')"
        using effect MPulled by (auto simp: mul_has_effect_def)
      have a: "mul_taken C ps h j = rounds ?n j ?m" "mul_taken C (ps[g := p']) h j = Suc (rounds ?n j ?m)"
        using True len g main n by (simp_all add: mul_taken_def rounds_Suc)
      have le: "rounds ?n j ?m \<le> rounds ?n j (mw_sent (ps ! h))" using q a(1) by (simp add: sums_queued_def)
      show ?thesis
        using pull_sum[OF q[unfolded a(1)]] pop sent a(2) le
        by (cases "rounds ?n j ?m = rounds ?n j (mw_sent (ps ! h))") auto
    next
      case False
      have "w_queues w' (mc_ips C ! h) (mul_key C h j) = w_queues w (mc_ips C ! h) (mul_key C h j)"
      proof (cases g)
        case 0
        then show ?thesis using effect MPulled by (simp add: mul_has_effect_def)
      next
        case (Suc f)
        then obtain msg where pop: "blpop (mc_ips C ! f) (mul_key C f (?m mod ?n)) w = Inr (msg, w')"
          using effect MPulled by (auto simp: mul_has_effect_def)
        have "mc_ips C ! h \<noteq> mc_ips C ! f \<or> mul_key C h j \<noteq> mul_key C f (?m mod ?n)"
          using mul_key_inj[OF C h _ j, of f "?m mod ?n"] False Suc g n by auto
        then show ?thesis using pop by (auto simp: blpop_def split: list.splits)
      qed
      moreover have "mul_taken C (ps[g := p']) h j = mul_taken C ps h j"
        using False len g main j by (auto simp: mul_taken_def nth_list_update rounds_Suc)
      ultimately show ?thesis using q sent by (simp add: sums_queued_def)
    qed
  next
    case MPushed
    let ?s = "mw_sent (ps ! g)"
    have taken: "mul_taken C (ps[g := p']) h j = mul_taken C ps h j" and sent: "mw_sent p' = Suc ?s"
      and w': "w' = rpush (mc_ips C ! g) (mul_key C g (?s mod ?n)) (mul_sum G C g (?s mod ?n) (?s div ?n)) w"
      using effect MPushed len g by (auto simp: mul_has_effect_def mul_taken_def nth_list_update)
    show ?thesis
    proof (cases "h = g \<and> j = ?s mod ?n")
      case True
      then have "rounds ?n j ?s = ?s div ?n" using rounds_now[OF n] by simp
      then show ?thesis
        using q True len g sent taken n by (auto simp: sums_queued_def w' rpush_def rounds_Suc)
    next
      case False
      then have "mc_ips C ! h \<noteq> mc_ips C ! g \<or> mul_key C h j \<noteq> mul_key C g (?s mod ?n)"
        using mul_key_inj[OF C h g j, of "?s mod ?n"] n by auto
      then have "w_queues w' (mc_ips C ! h) (mul_key C h j) = w_queues w (mc_ips C ! h) (mul_key C h j)"
        by (auto simp: w' rpush_def)
      moreover have "rounds ?n j (mw_sent (ps[g := p'] ! h)) = rounds ?n j (mw_sent (ps ! h))"
        using False len g sent j by (cases "h = g") (simp_all add: rounds_Suc)
      ultimately show ?thesis using q taken by (simp add: sums_queued_def)
    qed
  qed
qed

lemma mul_ok_same: "mul_ok C w h p \<Longrightarrow> same_jobs p p' \<Longrightarrow> w_files w' = w_files w \<Longrightarrow> mul_ok C w' h p'"
  by (simp add: mul_ok_def same_jobs_def)

lemma mul_chain_step:
  assumes G: "gf_complete G" and E: "io_ok E" and C: "mul_conf_ok C"
    and inv: "mul_chain_inv G C st" and step: "mul_cluster G E (mc_conf C) st st'"
  shows "mul_chain_inv G C st'"
proof -
  obtain w ps where st: "st = (w, ps)" by (cases st)
  have len: "length ps = mc_k C" and ok: "\<And>h. h < mc_k C \<Longrightarrow> mul_ok C w h (ps ! h)"
    and invs: "\<And>h. h < mc_k C \<Longrightarrow> mul_inv G C h (ps ! h)"
    and queued: "\<And>h j. h < mc_k C \<Longrightarrow> j < mc_n C \<Longrightarrow>
      mul_queued G C h j (mul_taken C ps h j) (rounds (mc_n C) j (mw_sent (ps ! h))) w"
    using inv by (auto simp: mul_chain_inv_def st)
  obtain w' ps' where st': "st' = (w', ps')" by (cases st')
  from step[unfolded st st'] obtain g p' where ps': "ps' = ps[g := p']" and "g < length ps"
    and run: "mul_step G E (mc_conf C) (w, ps ! g) (w', p')"
    by (rule mul_clusterE) blast
  then have g: "g < mc_k C" using len by simp
  have n: "0 < mc_n C" using C by (simp add: mul_conf_ok_def Let_def)
  have "mul_queued G C (g - 1) (mw_main (ps ! g) mod mc_n C) (mw_main (ps ! g) div mc_n C)
      (rounds (mc_n C) (mw_main (ps ! g) mod mc_n C) (mw_sent (ps ! (g - 1)))) w" if "0 < g"
    using queued[of "g - 1" "mw_main (ps ! g) mod mc_n C"] that g n len by (simp add: mul_taken_def rounds_now)
  from mul_step_effect[OF G E C g ok[OF g] invs[OF g] run this]
  obtain e where same: "same_jobs (ps ! g) p'" and inv': "mul_inv G C g p'" and effect: "mul_has_effect G C g e (w, ps ! g) (w', p')"
    by blast
  have "mul_ok C w' h (ps' ! h)" if h: "h < mc_k C" for h
  proof (cases "h = g")
    case True
    then show ?thesis using mul_ok_same[OF ok[OF g] same mul_effect_files[OF effect]] len g by (simp add: ps')
  next
    case False
    then show ?thesis
      using mul_ok_same[OF ok[OF h] _ mul_effect_files[OF effect], of "ps ! h"] by (simp add: ps' same_jobs_def)
  qed
  moreover have "mul_inv G C h (ps' ! h)" if "h < mc_k C" for h
    using invs[OF that] inv' len g by (cases "h = g") (simp_all add: ps')
  moreover have "mul_queued G C h j (mul_taken C ps' h j) (rounds (mc_n C) j (mw_sent (ps' ! h))) w'"
    if "h < mc_k C" "j < mc_n C" for h j
    unfolding ps' by (rule mul_effect_queues[OF C len g effect queued that])
  moreover have "length ps' = mc_k C" by (simp add: ps' len)
  ultimately show ?thesis by (simp add: mul_chain_inv_def st')
qed

lemma mul_chain_reachable:
  assumes "(mul_cluster G E (mc_conf C))\<^sup>*\<^sup>* st st'" and "mul_chain_inv G C st"
    and "gf_complete G" and "io_ok E" and "mul_conf_ok C"
  shows "mul_chain_inv G C st'"
  using assms(1,2) by (induction rule: rtranclp_induct) (auto intro: mul_chain_step assms(3-5))

section \<open>Progress\<close>

definition mul_todo :: "repair_config \<Rightarrow> mul_worker \<Rightarrow> nat" where
  "mul_todo conf p = (let n = packetCnt conf * length (mw_jobs p)
     in (packetCnt conf - mw_read p) + (n - mw_main p) + (n - mw_sent p))"

lemma mul_progress:
  assumes G: "gf_complete G" and E: "io_ok E" and C: "mul_conf_ok C" and h: "h < mc_k C" and ok: "mul_ok C w h p"
    and inv: "mul_inv G C h p" and more: "\<not> mul_finished (mc_conf C) p"
    and q: "\<And>j. 0 < h \<Longrightarrow> j < mc_n C \<Longrightarrow> mul_queued G C (h - 1) j (rounds (mc_n C) j (mw_main p)) (mc_cnt C) w"
  shows "\<exists>w' p'. mul_step G E (mc_conf C) (w, p) (w', p') \<and> mul_todo (mc_conf C) p' < mul_todo (mc_conf C) p"
proof -
  have n: "0 < mc_n C" using C by (simp add: mul_conf_ok_def Let_def)
  note len = mul_okD(2)[OF ok]
  note D = mul_invD[OF inv]
  have main: "mw_main p \<le> mc_cnt C * mc_n C" using D(1,2) mult_le_mono1 le_trans by blast
  consider "mw_read p < mc_cnt C" | "mw_read p = mc_cnt C" "mw_main p < mc_cnt C * mc_n C" | "mw_sent p < mw_main p"
    using more D(1,3) main len by (fastforce simp: mul_finished_def Let_def)
  then show ?thesis
  proof cases
    case 1
    from mul_read_ok[OF G E C h ok inv 1] obtain p' where run: "mul_read G E (mc_conf C) w p = Inr p'"
      and p': "mw_jobs p' = mw_jobs p" "mw_read p' = Suc (mw_read p)" "mw_main p' = mw_main p" "mw_sent p' = mw_sent p" by blast
    have "mul_todo (mc_conf C) p' < mul_todo (mc_conf C) p" using 1 by (simp add: mul_todo_def Let_def p')
    then show ?thesis using mul_step.Read[OF 1 run] by blast
  next
    case 2
    let ?i = "mw_main p div mc_n C" and ?j = "mw_main p mod mc_n C"
    have i: "?i < mw_read p" using 2 by (simp only: div_less_round[OF n])
    have "mul_queued G C (h - 1) ?j ?i (mc_cnt C) w" if "0 < h"
      using q[OF that, of ?j] n by (simp add: rounds_now)
    from mul_pull_ok(2)[OF C h ok inv i this] i 2(1)
    obtain w' p' where run: "mul_pull (mc_conf C) w p = Inr (w', p')" and same: "same_jobs p p'"
      and p': "mw_read p' = mw_read p" "mw_main p' = Suc (mw_main p)" "mw_sent p' = mw_sent p" by auto
    have "mul_todo (mc_conf C) p' < mul_todo (mc_conf C) p"
      using 2(2) same len by (simp add: mul_todo_def Let_def p' same_jobs_def)
    moreover have "mw_main p < mc_cnt C * length (mw_jobs p)" "mw_flag p ! (mw_main p div length (mw_jobs p))"
      using 2 i D(5)[of ?i] len by simp_all
    ultimately show ?thesis using mul_step.Pull[of p "mc_conf C" w w' p' G E] run by blast
  next
    case 3
    let ?i = "mw_sent p div mc_n C" and ?j = "mw_sent p mod mc_n C"
    let ?p' = "p\<lparr>mw_sent := Suc (mw_sent p)\<rparr>"
    have j: "?j < mc_n C" using n by simp
    have "?i < rounds (mc_n C) ?j (mw_main p)" using 3 rounds_iff[OF j] by simp
    moreover have "mw_sent p < mc_cnt C * mc_n C" using 3 main by simp
    ultimately have "mul_step G E (mc_conf C) (w, p) (rpush (mc_ips C ! h) (mul_key C h ?j) (mul_sum G C h ?j ?i) w, ?p')"
      using mul_step.Push[of p "mc_conf C" w] mul_push_ok(1)[OF C h ok inv 3] D(7)[OF j] len by simp
    moreover have "mul_todo (mc_conf C) ?p' < mul_todo (mc_conf C) p"
      using 3 main len by (simp add: mul_todo_def Let_def)
    ultimately show ?thesis by blast
  qed
qed

lemma mul_chain_progress:
  assumes G: "gf_complete G" and E: "io_ok E" and C: "mul_conf_ok C"
    and inv: "mul_chain_inv G C (w, ps)" and more: "\<not> list_all (mul_finished (mc_conf C)) ps"
  shows "\<exists>w' ps'. mul_cluster G E (mc_conf C) (w, ps) (w', ps') \<and>
    sum_list (map (mul_todo (mc_conf C)) ps') < sum_list (map (mul_todo (mc_conf C)) ps)"
proof -
  obtain h where h: "h < length ps" "\<not> mul_finished (mc_conf C) (ps ! h)"
    and before: "\<And>g. g < h \<Longrightarrow> mul_finished (mc_conf C) (ps ! g)"
    using first_not[OF more] by blast
  have len: "length ps = mc_k C" using inv by (simp add: mul_chain_inv_def)
  then have k: "h < mc_k C" using h(1) by simp
  have ok: "mul_ok C w h (ps ! h)" "mul_inv G C h (ps ! h)" using inv k by (simp_all add: mul_chain_inv_def)
  have "mul_queued G C (h - 1) j (rounds (mc_n C) j (mw_main (ps ! h))) (mc_cnt C) w" if "0 < h" "j < mc_n C" for j
  proof -
    have g: "h - 1 < mc_k C" using k by simp
    then have "length (mw_jobs (ps ! (h - 1))) = mc_n C" using inv mul_okD(2) unfolding mul_chain_inv_def by blast
    then have "mw_sent (ps ! (h - 1)) = mc_cnt C * mc_n C"
      using before[of "h - 1"] that(1) by (simp add: mul_finished_def Let_def)
    moreover have "mul_queued G C (h - 1) j (mul_taken C ps (h - 1) j) (rounds (mc_n C) j (mw_sent (ps ! (h - 1)))) w"
      using inv g that(2) by (simp add: mul_chain_inv_def)
    ultimately show ?thesis using that h(1) by (simp add: mul_taken_def rounds_all)
  qed
  from mul_progress[OF G E C k ok h(2) this]
  obtain w' p' where "mul_step G E (mc_conf C) (w, ps ! h) (w', p')" "mul_todo (mc_conf C) p' < mul_todo (mc_conf C) (ps ! h)"
    by blast
  then show ?thesis
    using mul_cluster.intros[OF h(1)] sum_list_update_less[of h ps "mul_todo (mc_conf C)", OF h(1)] by blast
qed

lemma mul_chain_can_finish:
  assumes G: "gf_complete G" and E: "io_ok E" and C: "mul_conf_ok C" and inv: "mul_chain_inv G C (w, ps)"
  shows "\<exists>w' ps'. (mul_cluster G E (mc_conf C))\<^sup>*\<^sup>* (w, ps) (w', ps') \<and> list_all (mul_finished (mc_conf C)) ps' \<and>
    mul_chain_inv G C (w', ps')"
proof -
  have "\<exists>st'. mul_cluster G E (mc_conf C) st st' \<and>
      sum_list (map (mul_todo (mc_conf C)) (snd st')) < sum_list (map (mul_todo (mc_conf C)) (snd st))"
    if "mul_chain_inv G C st" "\<not> list_all (mul_finished (mc_conf C)) (snd st)" for st
    using mul_chain_progress[OF G E C, of "fst st" "snd st"] that by auto
  from can_finish[where I = "mul_chain_inv G C" and R = "mul_cluster G E (mc_conf C)"
      and P = "\<lambda>st. list_all (mul_finished (mc_conf C)) (snd st)"
      and m = "\<lambda>st. sum_list (map (mul_todo (mc_conf C)) (snd st))", OF this mul_chain_step[OF G E C] inv]
  show ?thesis by auto
qed

end
