(* ===== verification/Mul_Coordinator.thy ===== *)
theory Mul_Coordinator
  imports Mul_Worker Pipe_Coordinator Conv_Coordinator
begin

text \<open>
  \<open>PipeMulCoordinator.cc\<close> with \<open>PIPE_MUL_OPT\<close> set, as \<open>DROpt.hh\<close> has it: one round of \<open>requestHandler\<close>. For every lost block
  of the request there is a chain of helpers; a helper gets one command for each of its chains and is told how many there are.
  The reply names, for every lost block, the last helper of its chain. The metadata have a state of type \<open>'m\<close>, as in
  \<open>Conv_Coordinator\<close>.
\<close>

section \<open>State\<close>

text \<open>\<open>lastHelperStore\<close> and \<open>drCmdHistory\<close>, which later requests for other blocks of the same stripe are answered from.\<close>

record mul_coord =
  mh_lastHelper :: "(string, ip_addr) omap"
  mh_history :: "byte list option"

section \<open>Commands\<close>

text \<open>The command of a simple chain is packed first; the position among the jobs of the helper and their number follow.\<close>

definition mul_cmd :: "byte list \<Rightarrow> int \<Rightarrow> int \<Rightarrow> byte list res" where
  "mul_cmd drCmd indOfJobs numOfJobs =
     (let cmd = drCmd @ put_int indOfJobs @ put_int numOfJobs
      in bindE (guardE (length cmd \<le> COMMAND_MAX_LENGTH) Out_Of_Bounds) (\<lambda>_. Inr cmd))"

text \<open>The command for helper \<open>i\<close> of a chain; the helper's \<open>indOfJobs\<close> is counted down.\<close>

definition mul_helper_cmd ::
    "(ip_addr \<times> string) list \<Rightarrow> ip_addr \<Rightarrow> string \<Rightarrow> (string, int) omap \<Rightarrow> (ip_addr \<times> string) list \<Rightarrow> (ip_addr, nat) omap \<Rightarrow>
     nat \<Rightarrow> (string \<times> byte list) list \<times> (ip_addr, int) omap \<Rightarrow> ((string \<times> byte list) list \<times> (ip_addr, int) omap) res" where
  "mul_helper_cmd ip2Ctx requestorIP lostFilename coef stripe numOfJobs i = (\<lambda>(cmds, indOfJobs).
     bindE (atE stripe (int i)) (\<lambda>(ip, _).
     bindE (helper_cmd ip2Ctx requestorIP lostFilename coef stripe (int (length stripe)) i) (\<lambda>(q, drCmd).
     bindE (mul_cmd drCmd (om_get0 indOfJobs ip) (int (om_get 0 numOfJobs ip))) (\<lambda>cmd.
     Inr (cmds @ [(q, cmd)], om_put ip (om_get0 indOfJobs ip - 1) indOfJobs)))))"

section \<open>A chain\<close>

text \<open>The helpers of this chain get status 2, what is not lost 1.\<close>

definition mul_status :: "(ip_addr \<times> string) list \<Rightarrow> (string, int) omap \<Rightarrow> (string, int) omap" where
  "mul_status stripe status = fold (\<lambda>(_, b). om_put b 2) stripe (map (\<lambda>(b, v). (b, if v = 0 then 0 else 1)) status)"

text \<open>The node of a lost block other than the requestor is told to take the block from the requestor.\<close>

definition mul_passive ::
    "repair_config \<Rightarrow> (ip_addr \<times> string) list \<Rightarrow> ip_addr \<Rightarrow> (string \<times> ip_addr) list \<Rightarrow> ip_addr \<Rightarrow> string \<Rightarrow> world \<Rightarrow> world res" where
  "mul_passive conf ip2Ctx requestorIP lostFiles failedIP lostFilename w =
     (if fileSysType conf = ''HDFS'' \<and> failedIP \<noteq> requestorIP \<and> 1 < length lostFiles
      then bindE (searchCtx ip2Ctx failedIP 0 (int (length ip2Ctx) - 1)) (\<lambda>idx.
        let cmd = put_word requestorIP @ put_word requestorIP @ put_int (int (length lostFilename)) @ bytes_of lostFilename
        in bindE (guardE (length cmd \<le> COMMAND_MAX_LENGTH) Out_Of_Bounds) (\<lambda>_.
           bindE (atE ip2Ctx idx) (\<lambda>(ip, _). Inr (rpush ip ''dr_passive'' cmd w))))
      else Inr w)"

record mul_run =
  mr_status :: "(string, int) omap"
  mr_ind :: "(ip_addr, int) omap"
  mr_cmds :: "(string \<times> byte list) list"
  mr_world :: world

definition mul_stripe ::
    "repair_config \<Rightarrow> metadata \<Rightarrow> (ip_addr \<times> string) list \<Rightarrow> ip_addr \<Rightarrow> (string \<times> ip_addr) list \<Rightarrow> (ip_addr, nat) omap \<Rightarrow>
     ip_addr \<times> string \<times> (ip_addr \<times> string) list \<Rightarrow> mul_run \<Rightarrow> mul_run res" where
  "mul_stripe conf md ip2Ctx requestorIP lostFiles numOfJobs = (\<lambda>(failedIP, lostFilename, stripe) s.
     let status = mul_status stripe (mr_status s)
     in
     bindE (md_getCoefficient md lostFilename (Some status)) (\<lambda>coef.
     bindE (isRequestorHolder stripe failedIP) (\<lambda>_.
     bindE (foldE (mul_helper_cmd ip2Ctx requestorIP lostFilename coef stripe numOfJobs)
       [0..<nat (int (length stripe) AND 0xff)] (mr_cmds s, mr_ind s)) (\<lambda>(cmds, indOfJobs).
     bindE (mul_passive conf ip2Ctx requestorIP lostFiles failedIP lostFilename (mr_world s)) (\<lambda>w.
     Inr \<lparr>mr_status = status, mr_ind = indOfJobs, mr_cmds = cmds, mr_world = w\<rparr>)))))"

section \<open>Replies\<close>

text \<open>The first chain with the name of a lost block gives its last helper.\<close>

definition last_helpers ::
    "(ip_addr, string \<times> (ip_addr \<times> string) list) omap \<Rightarrow> (string \<times> ip_addr) list \<Rightarrow> (string, ip_addr) omap \<Rightarrow>
     (string, ip_addr) omap res" where
  "last_helpers stripes lostFiles =
     foldE (\<lambda>(f, _) store. case filter (\<lambda>(_, name, _). name = f) stripes of
         [] \<Rightarrow> Inr store
       | (_, _, stripe) # _ \<Rightarrow> bindE (atE stripe (int (length stripe) - 1)) (\<lambda>(ip, _). Inr (om_put f ip store))) lostFiles"

definition mul_reply :: "(string, ip_addr) omap \<Rightarrow> (string \<times> ip_addr) list \<Rightarrow> byte list" where
  "mul_reply store lostFiles =
     concat (map (\<lambda>(f, _). put_word (om_get 0 store f)) (take 1 lostFiles)) @
     concat (map (\<lambda>(f, ip). put_word (om_get 0 store f) @ put_word ip) (drop 1 lostFiles))"

text \<open>\<open>setupCyclReply\<close> for several lost blocks; the buffer has room for \<open>ecK\<close> helpers for each.\<close>

definition setupCyclReplyMul ::
    "repair_config \<Rightarrow> env \<Rightarrow> (string \<times> ip_addr) list \<Rightarrow> (ip_addr, string \<times> (ip_addr \<times> string) list) omap \<Rightarrow> byte list res" where
  "setupCyclReplyMul conf E lostFiles stripes =
     (if lostFiles = [] \<or> stripes = [] then Inl (Exit 1)
      else let size = 4 * (ecK conf + 1) * length lostFiles;
          drCmd = concat (map (\<lambda>(_, ip).
            let stripe = snd (om_get ([], []) stripes ip)
            in put_int (int (length stripe) - 1) @ concat (map (\<lambda>s. put_word (fst s)) (take (length stripe - 1) stripe)) @ put_word ip) lostFiles)
        in bindE (guardE (length drCmd \<le> size) Out_Of_Bounds) (\<lambda>_.
           Inr (drCmd @ drop (length drCmd) (malloc E (int size)))))"

text \<open>A later request for another block of the stripe.\<close>

definition mul_again ::
    "repair_config \<Rightarrow> int \<Rightarrow> (string \<times> ip_addr) list \<Rightarrow> mul_coord \<Rightarrow> world \<Rightarrow> (world \<times> mul_coord) res" where
  "mul_again conf index lostFiles s w =
     (if fileSysType conf \<noteq> ''HDFS3'' then Inr (w, s)
      else bindE (atE lostFiles index) (\<lambda>(f, _).
        if DRPolicy conf = ''ecpipe'' \<and> has_substring ''cyclic'' (ECPipePolicy conf)
        then (case mh_history s of
            None \<Rightarrow> Inl Out_Of_Bounds
          | Some reply \<Rightarrow> Inr (rpush (coordinatorIP conf) f reply w, s))
        else let ip = om_get 0 (mh_lastHelper s) f
          in if ip = 0 then Inl (Exit 1)
             else Inr (rpush (coordinatorIP conf) f (put_word ip) w, s\<lparr>mh_lastHelper := om_put f 0 (mh_lastHelper s)\<rparr>)))"

section \<open>The handler\<close>

text \<open>Everything behind the choice of the helpers.\<close>

definition mul_commands ::
    "repair_config \<Rightarrow> env \<Rightarrow> metadata \<Rightarrow> (ip_addr \<times> string) list \<Rightarrow> ip_addr \<Rightarrow> (string \<times> ip_addr) list \<Rightarrow> (string, int) omap \<Rightarrow>
     (ip_addr, string \<times> (ip_addr \<times> string) list) omap \<Rightarrow> mul_coord \<Rightarrow> world \<Rightarrow> (world \<times> mul_coord) res" where
  "mul_commands conf E md ip2Ctx requestorIP lostFiles status stripes s w =
     (if list_ex (\<lambda>(_, f, _). f = []) stripes then Inl (Exit 1)
      else bindE (last_helpers stripes lostFiles (mh_lastHelper s)) (\<lambda>store.
        case outputStripeMul conf stripes [] of (enough, numOfJobs) \<Rightarrow>
        if \<not> enough then Inr (w, s\<lparr>mh_lastHelper := store\<rparr>)
        else bindE (foldE (mul_stripe conf md ip2Ctx requestorIP lostFiles numOfJobs) stripes
            \<lparr>mr_status = status, mr_ind = map (\<lambda>(ip, c). (ip, int c)) numOfJobs, mr_cmds = [], mr_world = w\<rparr>) (\<lambda>r.
          let w1 = push_all (coordinatorIP conf) (mr_cmds r) (mr_world r)
          in
          bindE (atE lostFiles 0) (\<lambda>(filename, _).
          if ECPipePolicy conf = ''basic''
          then Inr (rpush (coordinatorIP conf) filename (mul_reply store lostFiles) w1, s\<lparr>mh_lastHelper := store\<rparr>)
          else bindE (setupCyclReplyMul conf E lostFiles stripes) (\<lambda>reply.
            Inr (rpush (coordinatorIP conf) filename reply w1, s\<lparr>mh_lastHelper := store, mh_history := Some reply\<rparr>))))))"

definition mul_requestHandler ::
    "repair_config \<Rightarrow> env \<Rightarrow> ('m \<Rightarrow> metadata) \<Rightarrow>
     (string \<Rightarrow> ip_addr \<Rightarrow> (string, int) omap \<Rightarrow> 'm \<Rightarrow>
       ((ip_addr, string \<times> (ip_addr \<times> string) list) omap \<times> (string, int) omap \<times> 'm) res) \<Rightarrow>
     (ip_addr \<times> string) list \<Rightarrow> mul_coord \<Rightarrow> 'm \<Rightarrow> world \<Rightarrow> (world \<times> mul_coord \<times> 'm) res" where
  "mul_requestHandler conf E md getStripeBlksMul ip2Ctx s m w =
     bindE (blpop (coordinatorIP conf) ''dr_requests'' w) (\<lambda>(req, w1).
     bindE (get_word req 0) (\<lambda>requestorIP.
     bindE (parseFRRequest conf (md m) req requestorIP) (\<lambda>(index, st).
     if index \<noteq> 0 then bindE (mul_again conf index (fr_lostFiles st) s w1) (\<lambda>(w2, s). Inr (w2, s, m))
     else bindE (atE (fr_lostFiles st) 0) (\<lambda>(filename, _).
       bindE (getStripeBlksMul filename requestorIP (om_put filename 0 (fr_status st)) m) (\<lambda>(stripes, status, m1).
       bindE (mul_commands conf E (md m1) ip2Ctx requestorIP (fr_lostFiles st) status stripes s w1) (\<lambda>(w2, s).
       Inr (w2, s, m1)))))))"

section \<open>Commands are read back\<close>

lemma bindE_mono:
  assumes "bindE a f = Inr y" and "\<And>x. a = Inr x \<Longrightarrow> b = Inr x" and "\<And>x. f x = Inr y \<Longrightarrow> g x = Inr y"
  shows "bindE b g = Inr y"
  using assms by (cases a) auto

lemma memcpy_from_append: "memcpy_from buf off n = Inr x \<Longrightarrow> memcpy_from (buf @ rest) off n = Inr x"
  by (auto simp: memcpy_from_def split: if_splits)

lemma get_append:
  "get_int buf off = Inr i \<Longrightarrow> get_int (buf @ rest) off = Inr i"
  "get_word buf off = Inr v \<Longrightarrow> get_word (buf @ rest) off = Inr v"
  "get_name buf off n = Inr s \<Longrightarrow> get_name (buf @ rest) off n = Inr s"
  unfolding get_word_def get_int_def get_name_def by (elim bindE_mono memcpy_from_append; assumption)+

lemma parse_pipe_append: "parse_pipe_cmd cmd = Inr job \<Longrightarrow> parse_pipe_cmd (cmd @ rest) = Inr job"
  unfolding parse_pipe_cmd_def Let_def by (elim bindE_mono; (erule get_append | assumption))

end
