(* ===== verification/Mul_Repair.thy ===== *)
theory Mul_Repair
  imports Mul_Chain Mul_Coordinator Conv_Repair
begin

text \<open>
  The pipelined repair of several lost blocks of a stripe, from the request to the packets of every lost block: the
  coordinator (\<open>PipeMulCoordinator.cc\<close>) sends every helper one command for each lost block, the distributors deliver them, the
  helpers (\<open>PipeMulDRWorker.cc\<close>) collect their commands and start, and the last helper hands out all lost blocks.
\<close>

section \<open>The setting\<close>

definition mul_setting :: "repair_config \<Rightarrow> ip_addr \<Rightarrow> string list \<Rightarrow> (ip_addr \<times> string) list \<Rightarrow> bool" where
  "mul_setting conf requestorIP fs hs \<longleftrightarrow>
     sorted_wrt (<) (helpersIPs conf) \<and> length (helpersIPs conf) < 2 ^ 31 \<and> 0 < coCmdDistThreadNum conf \<and>
     hs \<noteq> [] \<and> ecK conf = length hs \<and> length hs < 256 \<and> distinct (map fst hs) \<and>
     fst ` set hs \<subseteq> set (helpersIPs conf) - {requestorIP} \<and> coordinatorIP conf \<notin> fst ` set hs \<and>
     (\<forall>f \<in> set fs. \<forall>b \<in> snd ` set hs. length f + length b \<le> 984) \<and>
     fs \<noteq> [] \<and> distinct fs \<and> length fs \<le> MAX_ECK \<and>
     \<not> msscheduling conf \<and> ECPipePolicy conf = ''basic'' \<and> 8 dvd packetSize conf \<and> packetCnt conf \<noteq> 3 \<and>
     pkt_base conf (packetCnt conf) < 2 ^ 31 \<and>
     (\<forall>f \<in> set fs. f \<noteq> [] \<and> f \<noteq> ''dr_requests'' \<and> f \<noteq> ''dr_cmds'' \<and> f \<noteq> ''dr_passive'' \<and> (\<forall>i. f \<noteq> disQ i))"

lemma mul_stripe_ok:
  assumes "mul_setting conf requestorIP fs hs" and "init_ctx conf = Inr ip2Ctx" and "f \<in> set fs"
  shows "chain_stripe conf ip2Ctx requestorIP f hs"
proof -
  have "0 < coCmdDistThreadNum conf" "sorted_wrt (<) (helpersIPs conf)" using assms(1) by (simp_all add: mul_setting_def)
  note ctx = init_ctx_ok[OF assms(2) this]
  have "length ip2Ctx = length (helpersIPs conf)" using ctx(1) by (metis length_map)
  then show ?thesis using assms(1,3) ctx by (fastforce simp: chain_stripe_def mul_setting_def)
qed

section \<open>Commands are read back\<close>

lemma parse_mul_cmd_eq:
  assumes cmd: "pipe_cmd idx k requestorIP prevIP nextIP ident coef f l = Inr c" "mul_cmd c ind num = Inr cmd"
    and "int32 k" and "int32 ident" and "0 \<le> coef" and "coef < 256"
  shows "parse_mul_cmd (drop 4 cmd) = Inr (\<lparr>pj_ecK = k, pj_requestorIP = requestorIP, pj_prevIP = prevIP,
    pj_nextIP = nextIP, pj_id = ident, pj_coefficient = coef, pj_lostBlkName = f, pj_localBlkName = l\<rparr>, word_of_int ind, word_of_int num)"
proof -
  have len: "length c = 32 + length f + length l"
    using cmd(1) by (auto simp: pipe_cmd_def Let_def res_simps)
  then have c: "drop 4 cmd = drop 4 c @ put_int ind @ put_int num"
    using cmd(2) by (auto simp: mul_cmd_def Let_def res_simps)
  have word: "get_word (pre @ put_int x @ post) (int (length pre)) = Inr (word_of_int x)" for pre x post
    using get_word_append[OF refl, of pre "word_of_int x" post] by (simp add: put_word_int)
  let ?base = "28 + int (length f) + int (length l)"
  have "get_word (drop 4 cmd) ?base = Inr (word_of_int ind)"
    using word[of "drop 4 c" ind "put_int num"] len by (simp add: c add.assoc)
  moreover have "get_word (drop 4 cmd) (?base + 4) = Inr (word_of_int num)"
    using word[of "drop 4 c @ put_int ind" num "[]"] len by (simp add: c add.assoc)
  moreover note parse_pipe_append[OF parse_pipe_cmd_eq[OF cmd(1) assms(3-6)], of "put_int ind @ put_int num", folded c]
  ultimately show ?thesis by (simp add: parse_mul_cmd_def)
qed

section \<open>The commands of a chain\<close>

text \<open>What helper \<open>h\<close> is sent for a lost block, with its position and the number of jobs.\<close>

definition is_mul_cmd ::
    "(ip_addr \<times> string) list \<Rightarrow> ip_addr \<Rightarrow> (ip_addr \<times> string) list \<Rightarrow> int \<Rightarrow> string \<Rightarrow> (string, int) omap \<Rightarrow> int \<Rightarrow> nat \<Rightarrow>
     string \<times> byte list \<Rightarrow> bool" where
  "is_mul_cmd ip2Ctx requestorIP hs num f coef ind h qc \<longleftrightarrow>
     (\<exists>c. is_helper_cmd ip2Ctx requestorIP f coef hs h (fst qc, c) \<and> mul_cmd c ind num = Inr (snd qc))"

lemma mul_helper_cmds:
  assumes set: "mul_setting conf requestorIP fs hs" and ctx: "init_ctx conf = Inr ip2Ctx" and f: "f \<in> set fs"
    and num: "\<forall>ip \<in> fst ` set hs. om_get 0 numOfJobs ip = n" and ind: "\<forall>ip \<in> fst ` set hs. om_get0 ind0 ip = v"
  shows "\<exists>qcs ind1. foldE (mul_helper_cmd ip2Ctx requestorIP f coef hs numOfJobs) [0..<length hs] (cmds, ind0) = Inr (cmds @ qcs, ind1) \<and>
    list_all2 (is_mul_cmd ip2Ctx requestorIP hs (int n) f coef v) [0..<length hs] qcs \<and> (\<forall>ip \<in> fst ` set hs. om_get0 ind1 ip = v - 1)"
proof -
  let ?P = "\<lambda>m (cs, ind). \<exists>qcs. cs = cmds @ qcs \<and> list_all2 (is_mul_cmd ip2Ctx requestorIP hs (int n) f coef v) [0..<m] qcs \<and>
    (\<forall>h < length hs. om_get0 ind (fst (hs ! h)) = (if h < m then v - 1 else v))"
  have start: "?P 0 (cmds, ind0)" using ind by simp
  have round: "\<exists>s'. mul_helper_cmd ip2Ctx requestorIP f coef hs numOfJobs h s = Inr s' \<and> ?P (Suc h) s'"
    if h: "h < length hs" and P: "?P h s" for h s
  proof -
    obtain qcs ind where s: "s = (cmds @ qcs, ind)" and qcs: "list_all2 (is_mul_cmd ip2Ctx requestorIP hs (int n) f coef v) [0..<h] qcs"
      and pos: "\<And>g. g < length hs \<Longrightarrow> om_get0 ind (fst (hs ! g)) = (if g < h then v - 1 else v)"
      using P by (cases s) auto
    obtain q c where qc: "helper_cmd ip2Ctx requestorIP f coef hs (int (length hs)) h = Inr (q, c)"
      "is_helper_cmd ip2Ctx requestorIP f coef hs h (q, c)"
      using helper_cmd_eq[OF mul_stripe_ok[OF set ctx f] refl h, of coef] by (auto simp: is_helper_cmd_def Let_def)
    have "hs ! h \<in> set hs" using h by simp
    then have "length f + length (snd (hs ! h)) \<le> 984" using set f by (auto simp: mul_setting_def)
    moreover have "length c = 32 + length f + length (snd (hs ! h))"
      using qc(2) by (auto simp: is_helper_cmd_def pipe_cmd_def Let_def res_simps)
    ultimately obtain cmd where cmd: "mul_cmd c v (int n) = Inr cmd" by (simp add: mul_cmd_def COMMAND_MAX_LENGTH_def Let_def)
    let ?ind = "om_put (fst (hs ! h)) (v - 1) ind"
    have run: "mul_helper_cmd ip2Ctx requestorIP f coef hs numOfJobs h s = Inr (cmds @ qcs @ [(q, cmd)], ?ind)"
      using h qc(1) pos[OF h] num cmd by (simp add: s mul_helper_cmd_def case_prod_beta)
    have "fst (hs ! g) = fst (hs ! h) \<longleftrightarrow> g = h" if "g < length hs" for g
      using set h that nth_eq_iff_index_eq[of "map fst hs" g h] by (simp add: mul_setting_def)
    then have "om_get0 ?ind (fst (hs ! g)) = (if g < Suc h then v - 1 else v)" if "g < length hs" for g
      using pos[OF that] that by (auto simp: om_get0_def map_of_om_put less_Suc_eq)
    moreover have "is_mul_cmd ip2Ctx requestorIP hs (int n) f coef v h (q, cmd)"
      using qc(2) cmd by (auto simp: is_mul_cmd_def)
    then have "list_all2 (is_mul_cmd ip2Ctx requestorIP hs (int n) f coef v) [0..<Suc h] (qcs @ [(q, cmd)])"
      using qcs by (simp add: list_all2_appendI)
    ultimately show ?thesis using run by (intro exI[of _ "(cmds @ qcs @ [(q, cmd)], ?ind)"]) auto
  qed
  have "\<exists>s'. foldE (mul_helper_cmd ip2Ctx requestorIP f coef hs numOfJobs) [0..<length hs] (cmds, ind0) = Inr s' \<and> ?P (length hs) s'"
    by (rule foldE_upt_inv[where P = ?P, OF start round])
  then obtain s' where run: "foldE (mul_helper_cmd ip2Ctx requestorIP f coef hs numOfJobs) [0..<length hs] (cmds, ind0) = Inr s'"
    and P: "?P (length hs) s'" by (elim exE conjE)
  from P obtain qcs ind where s': "s' = (cmds @ qcs, ind)"
    and qcs: "list_all2 (is_mul_cmd ip2Ctx requestorIP hs (int n) f coef v) [0..<length hs] qcs"
    and pos: "\<And>h. h < length hs \<Longrightarrow> om_get0 ind (fst (hs ! h)) = v - 1"
    by (cases s') auto
  have "\<forall>ip \<in> fst ` set hs. om_get0 ind ip = v - 1"
  proof
    fix ip assume "ip \<in> fst ` set hs"
    then obtain h where "h < length hs" "ip = fst (hs ! h)" by (auto simp: in_set_conv_nth)
    then show "om_get0 ind ip = v - 1" using pos by simp
  qed
  with run qcs show ?thesis unfolding s' by blast
qed

section \<open>The chains of all lost blocks\<close>

text \<open>What \<open>getStripeBlksMul\<close> returns when the lost blocks have the same helpers: node, lost block and helpers.\<close>

abbreviation stripes_of :: "(ip_addr \<times> string) list \<Rightarrow> (ip_addr \<times> string) list \<Rightarrow> (ip_addr \<times> string \<times> (ip_addr \<times> string) list) list" where
  "stripes_of hs ls \<equiv> map (\<lambda>(ip, f). (ip, (f, hs))) ls"

text \<open>The nodes of the lost blocks are nodes of the cluster without a block that helps.\<close>

definition mul_places :: "repair_config \<Rightarrow> string list \<Rightarrow> (ip_addr \<times> string) list \<Rightarrow> (ip_addr \<times> string) list \<Rightarrow> bool" where
  "mul_places conf fs hs ls \<longleftrightarrow> mset (map snd ls) = mset fs \<and> fst ` set ls \<subseteq> set (helpersIPs conf) - fst ` set hs"

definition mul_knows ::
    "gf_ops \<Rightarrow> metadata \<Rightarrow> string list \<Rightarrow> (ip_addr \<times> string) list \<Rightarrow> (string \<Rightarrow> byte list) \<Rightarrow> bool" where
  "mul_knows G md fs hs content \<longleftrightarrow> (\<forall>f \<in> set fs. \<forall>status. om_ok status \<longrightarrow>
     (\<exists>coef. md_getCoefficient md f (Some (mul_status hs status)) = Inr coef \<and> recovers G coef hs content (content f)))"

definition but_passive :: "world \<Rightarrow> world \<Rightarrow> bool" where
  "but_passive w w' \<longleftrightarrow> w_files w' = w_files w \<and> (\<forall>ip key. key \<noteq> ''dr_passive'' \<longrightarrow> w_queues w' ip key = w_queues w ip key)"

lemma om_ok_mul_status: "om_ok status \<Longrightarrow> om_ok (mul_status hs status)"
  unfolding mul_status_def by (rule om_ok_fold_put) (simp add: om_ok_def o_def case_prod_beta)

lemma mul_passive_ok:
  assumes set: "mul_setting conf requestorIP fs hs" and ctx: "init_ctx conf = Inr ip2Ctx" and f: "f \<in> set fs"
    and ip: "ip \<in> set (helpersIPs conf)"
  shows "\<exists>w'. mul_passive conf ip2Ctx requestorIP lostFiles ip f w = Inr w' \<and> but_passive w w'"
proof -
  have chain: "chain_stripe conf ip2Ctx requestorIP f hs" by (rule mul_stripe_ok[OF set ctx f])
  then have c: "sorted_wrt (<) (map fst ip2Ctx)" "length ip2Ctx < 2 ^ 31" "map fst ip2Ctx = helpersIPs conf"
    unfolding chain_stripe_def by blast+
  then have mem: "ip \<in> fst ` set ip2Ctx" using ip by (metis set_map)
  have at: "atE ip2Ctx (int (ctx_idx ip2Ctx ip)) = Inr (ip2Ctx ! ctx_idx ip2Ctx ip)" using ctx_idx_nth(1)[OF mem] by simp
  obtain b where "b \<in> snd ` set hs" using set by (cases hs) (auto simp: mul_setting_def)
  then have "length f \<le> 984" using set f by (fastforce simp: mul_setting_def)
  then show ?thesis
    using searchCtx_found[OF c(1,2) mem] at
    by (auto simp: mul_passive_def COMMAND_MAX_LENGTH_def Let_def case_prod_beta but_passive_def rpush_def simp flip: ctx_idx_def)
qed

lemma mul_stripe_eq:
  assumes set: "mul_setting conf requestorIP fs hs" and ctx: "init_ctx conf = Inr ip2Ctx" and f: "f \<in> set fs"
    and ip: "ip \<in> set (helpersIPs conf)" "ip \<notin> fst ` set hs" and known: "mul_knows G md fs hs content"
    and num: "\<forall>a \<in> fst ` set hs. om_get 0 numOfJobs a = n" and ind: "\<forall>a \<in> fst ` set hs. om_get0 (mr_ind s) a = v"
    and st: "om_ok (mr_status s)"
  shows "\<exists>r coef qcs. mul_stripe conf md ip2Ctx requestorIP lostFiles numOfJobs (ip, (f, hs)) s = Inr r \<and>
    recovers G coef hs content (content f) \<and> mr_cmds r = mr_cmds s @ qcs \<and>
    list_all2 (is_mul_cmd ip2Ctx requestorIP hs (int n) f coef v) [0..<length hs] qcs \<and>
    (\<forall>a \<in> fst ` set hs. om_get0 (mr_ind r) a = v - 1) \<and> om_ok (mr_status r) \<and> but_passive (mr_world s) (mr_world r)"
proof -
  obtain coef where coef: "md_getCoefficient md f (Some (mul_status hs (mr_status s))) = Inr coef" "recovers G coef hs content (content f)"
    using known f st unfolding mul_knows_def by blast
  obtain w' where w': "mul_passive conf ip2Ctx requestorIP lostFiles ip f (mr_world s) = Inr w'" "but_passive (mr_world s) w'"
    using mul_passive_ok[OF set ctx f ip(1)] by blast
  obtain qcs ind1 where run: "foldE (mul_helper_cmd ip2Ctx requestorIP f coef hs numOfJobs) [0..<length hs] (mr_cmds s, mr_ind s) =
      Inr (mr_cmds s @ qcs, ind1)" "list_all2 (is_mul_cmd ip2Ctx requestorIP hs (int n) f coef v) [0..<length hs] qcs"
    "\<forall>a \<in> fst ` set hs. om_get0 ind1 a = v - 1"
    using mul_helper_cmds[OF set ctx f num ind] by blast
  have "hs \<noteq> []" "length hs < 256" using set by (simp_all add: mul_setting_def)
  then have "isRequestorHolder hs ip = Inr (- 1)" "nat (int (length hs) AND 0xff) = length hs"
    using isRequestorHolder_eq[of hs ip] ip(2) by (simp_all add: and_0xff)
  then have "mul_stripe conf md ip2Ctx requestorIP lostFiles numOfJobs (ip, (f, hs)) s =
      Inr \<lparr>mr_status = mul_status hs (mr_status s), mr_ind = ind1, mr_cmds = mr_cmds s @ qcs, mr_world = w'\<rparr>"
    using coef(1) w'(1) run(1) by (simp add: mul_stripe_def)
  then show ?thesis using coef(2) w'(2) run(2,3) om_ok_mul_status[OF st, of hs] by auto
qed

lemma mul_stripes_eq:
  assumes set: "mul_setting conf requestorIP fs hs" and ctx: "init_ctx conf = Inr ip2Ctx"
    and known: "mul_knows G md fs hs content" and num: "\<forall>a \<in> fst ` set hs. om_get 0 numOfJobs a = n"
    and ls: "snd ` set ls \<subseteq> set fs" "fst ` set ls \<subseteq> set (helpersIPs conf) - fst ` set hs"
    and ind: "\<forall>a \<in> fst ` set hs. om_get0 (mr_ind s) a = v" and st: "om_ok (mr_status s)"
  shows "\<exists>r coefs qss. foldE (mul_stripe conf md ip2Ctx requestorIP lostFiles numOfJobs) (stripes_of hs ls) s = Inr r \<and>
    mr_cmds r = mr_cmds s @ concat qss \<and> length coefs = length ls \<and> length qss = length ls \<and> but_passive (mr_world s) (mr_world r) \<and>
    (\<forall>j < length ls. recovers G (coefs ! j) hs content (content (snd (ls ! j))) \<and>
      list_all2 (is_mul_cmd ip2Ctx requestorIP hs (int n) (snd (ls ! j)) (coefs ! j) (v - int j)) [0..<length hs] (qss ! j))"
  using ls ind st
proof (induction ls arbitrary: s v)
  case (Cons l ls)
  obtain ip f where l: "l = (ip, f)" by (cases l)
  then have f: "f \<in> set fs" and ip: "ip \<in> set (helpersIPs conf)" "ip \<notin> fst ` set hs" using Cons.prems(1,2) by auto
  obtain s1 coef qcs where first: "mul_stripe conf md ip2Ctx requestorIP lostFiles numOfJobs (ip, (f, hs)) s = Inr s1"
    "recovers G coef hs content (content f)" "mr_cmds s1 = mr_cmds s @ qcs"
    "list_all2 (is_mul_cmd ip2Ctx requestorIP hs (int n) f coef v) [0..<length hs] qcs"
    "\<forall>a \<in> fst ` set hs. om_get0 (mr_ind s1) a = v - 1" "om_ok (mr_status s1)" "but_passive (mr_world s) (mr_world s1)"
    using mul_stripe_eq[OF set ctx f ip known num Cons.prems(3,4)] by blast
  obtain r coefs qss where rest: "foldE (mul_stripe conf md ip2Ctx requestorIP lostFiles numOfJobs) (stripes_of hs ls) s1 = Inr r"
    "mr_cmds r = mr_cmds s1 @ concat qss" "length coefs = length ls" "length qss = length ls" "but_passive (mr_world s1) (mr_world r)"
    "\<forall>j < length ls. recovers G (coefs ! j) hs content (content (snd (ls ! j))) \<and>
      list_all2 (is_mul_cmd ip2Ctx requestorIP hs (int n) (snd (ls ! j)) (coefs ! j) (v - 1 - int j)) [0..<length hs] (qss ! j)"
    using Cons.IH[OF _ _ first(5,6)] Cons.prems(1,2) by auto
  have "recovers G ((coef # coefs) ! j) hs content (content (snd ((l # ls) ! j))) \<and>
      list_all2 (is_mul_cmd ip2Ctx requestorIP hs (int n) (snd ((l # ls) ! j)) ((coef # coefs) ! j) (v - int j)) [0..<length hs] ((qcs # qss) ! j)"
    if "j < length (l # ls)" for j
    using that first(2,4) rest(6) by (cases j) (auto simp: l algebra_simps)
  moreover have "but_passive (mr_world s) (mr_world r)" using first(7) rest(5) by (simp add: but_passive_def)
  ultimately show ?case
    using first(1,3) rest(1-4) by (intro exI[of _ r] exI[of _ "coef # coefs"] exI[of _ "qcs # qss"]) (simp add: l)
qed (simp add: but_passive_def)

section \<open>Jobs and replies\<close>

lemma count_jobs:
  fixes hs :: "(ip_addr \<times> string) list"
  assumes "distinct (map fst hs)"
  shows "om_get 0 (fold (\<lambda>(ip, _) n. om_put ip (case map_of n ip of None \<Rightarrow> 1 | Some c \<Rightarrow> Suc c) n) hs num) a =
    om_get 0 num a + (if a \<in> fst ` set hs then 1 else 0)"
proof -
  have next_count: "(case map_of n ip of None \<Rightarrow> 1 | Some c \<Rightarrow> Suc c) = Suc (om_get 0 n ip)" for n :: "(ip_addr, nat) omap" and ip
    by (simp add: om_get_def split: option.split)
  show ?thesis
    unfolding next_count using assms
    by (induction hs arbitrary: num) (force simp: om_get_put)+
qed

lemma outputStripeMul_eq:
  assumes set: "mul_setting conf requestorIP fs hs"
  shows "fst (outputStripeMul conf (stripes_of hs ls) num)"
    and "\<forall>a \<in> fst ` set hs. om_get 0 (snd (outputStripeMul conf (stripes_of hs ls) num)) a = om_get 0 num a + length ls"
proof -
  show "fst (outputStripeMul conf (stripes_of hs ls) num)"
    using set by (auto simp: outputStripeMul_def list_all_iff mul_setting_def)
  have "distinct (map fst hs)" using set by (simp add: mul_setting_def)
  note count = count_jobs[OF this]
  show "\<forall>a \<in> fst ` set hs. om_get 0 (snd (outputStripeMul conf (stripes_of hs ls) num)) a = om_get 0 num a + length ls"
  proof (induction ls arbitrary: num)
    case (Cons l ls)
    obtain ip f where l: "l = (ip, f)" by (cases l)
    show ?case using Cons.IH by (simp add: outputStripeMul_def l count)
  qed (simp add: outputStripeMul_def)
qed

lemma last_helpers_eq:
  assumes "hs \<noteq> []" and "fst ` set lostFiles \<subseteq> snd ` set ls"
  shows "\<exists>store'. last_helpers (stripes_of hs ls) lostFiles store = Inr store' \<and>
    (\<forall>f. om_get 0 store' f = (if f \<in> fst ` set lostFiles then fst (last hs) else om_get 0 store f))"
  using assms(2)
proof (induction lostFiles arbitrary: store)
  case (Cons x lostFiles)
  obtain f ip where x: "x = (f, ip)" by (cases x)
  have "filter (\<lambda>(_, name, _). name = f) (stripes_of hs ls) \<noteq> []"
    using Cons.prems by (force simp: x filter_empty_conv)
  then obtain y ys where ys: "filter (\<lambda>(_, name, _). name = f) (stripes_of hs ls) = y # ys"
    by (cases "filter (\<lambda>(_, name, _). name = f) (stripes_of hs ls)") auto
  then have "y \<in> set (filter (\<lambda>(_, name, _). name = f) (stripes_of hs ls))" by simp
  then have "y \<in> set (stripes_of hs ls)" unfolding set_filter by blast
  then obtain a b where y: "y = (a, (b, hs))" by auto
  have "atE hs (int (length hs) - 1) = Inr (last hs)" using assms(1) by (cases hs rule: rev_cases) simp_all
  then have "last_helpers (stripes_of hs ls) (x # lostFiles) store =
      last_helpers (stripes_of hs ls) lostFiles (om_put f (fst (last hs)) store)"
    using ys by (simp add: last_helpers_def x y case_prod_beta)
  then show ?case
    using Cons.IH[of "om_put f (fst (last hs)) store"] Cons.prems by (auto simp: x om_get_def map_of_om_put)
qed (simp add: last_helpers_def)

text \<open>The reply: the last helper for the first lost block, then for the others the last helper and the node of the block.\<close>

definition mul_reply_for :: "ip_addr \<Rightarrow> ip_addr list \<Rightarrow> byte list" where
  "mul_reply_for ip others = put_word ip @ concat (map (\<lambda>other. put_word ip @ put_word other) others)"

lemma mul_reply_eq:
  assumes "lostFiles \<noteq> []" and "\<forall>f \<in> fst ` set lostFiles. om_get 0 store f = ip"
  shows "mul_reply store lostFiles = mul_reply_for ip (map snd (tl lostFiles))"
proof -
  have "map (\<lambda>(f, a). put_word (om_get 0 store f) @ put_word a) (tl lostFiles) = map (\<lambda>a. put_word ip @ put_word a) (map snd (tl lostFiles))"
    using assms(2) list.set_sel(2)[OF assms(1)] unfolding map_map by (intro map_cong refl) fastforce
  moreover have "drop 1 lostFiles = tl lostFiles" by (simp add: drop_Suc)
  moreover have "take 1 lostFiles = [hd lostFiles]" "om_get 0 store (fst (hd lostFiles)) = ip"
    using assms by (cases lostFiles, simp_all)+
  ultimately show ?thesis
    by (simp only: mul_reply_def mul_reply_for_def case_prod_beta list.map concat.simps append_Nil2)
qed

lemma mul_commands_eq:
  assumes set: "mul_setting conf requestorIP fs hs" and ctx: "init_ctx conf = Inr ip2Ctx"
    and known: "mul_knows G md fs hs content" and places: "mul_places conf fs hs ls" and st: "om_ok status"
    and lost: "map fst lostFiles = fs"
  shows "\<exists>coefs qss w' s'. mul_commands conf E md ip2Ctx requestorIP lostFiles status (stripes_of hs ls) s w =
      Inr (rpush (coordinatorIP conf) (hd fs) (mul_reply_for (fst (last hs)) (map snd (tl lostFiles)))
        (push_all (coordinatorIP conf) (concat qss) w'), s') \<and> but_passive w w' \<and>
    length coefs = length ls \<and> length qss = length ls \<and>
    (\<forall>j < length ls. recovers G (coefs ! j) hs content (content (snd (ls ! j))) \<and>
      list_all2 (is_mul_cmd ip2Ctx requestorIP hs (int (length ls)) (snd (ls ! j)) (coefs ! j) (int (length ls) - int j))
        [0..<length hs] (qss ! j))"
proof -
  have conf: "hs \<noteq> []" "fs \<noteq> []" "ECPipePolicy conf = ''basic''" "\<forall>f \<in> set fs. f \<noteq> []" using set by (simp_all add: mul_setting_def)
  have names: "snd ` set ls = set fs" "fst ` set ls \<subseteq> set (helpersIPs conf) - fst ` set hs"
  proof -
    have "mset (map snd ls) = mset fs" using places by (simp add: mul_places_def)
    then have "set (map snd ls) = set fs" by (rule mset_eq_setD)
    then show "snd ` set ls = set fs" by simp
    show "fst ` set ls \<subseteq> set (helpersIPs conf) - fst ` set hs" using places by (simp add: mul_places_def)
  qed
  have files: "fst ` set lostFiles = set fs" "lostFiles \<noteq> []" using lost conf(2) by force+
  have "snd l \<noteq> []" if "l \<in> set ls" for l using that names(1) conf(4) by blast
  then have some: "\<not> list_ex (\<lambda>(_, f, _). f = []) (stripes_of hs ls)" unfolding list_ex_iff by fastforce
  obtain store where store: "last_helpers (stripes_of hs ls) lostFiles (mh_lastHelper s) = Inr store"
    "\<forall>f \<in> fst ` set lostFiles. om_get 0 store f = fst (last hs)"
    using last_helpers_eq[OF conf(1), of lostFiles ls "mh_lastHelper s"] files(1) names(1) by auto
  define num where "num = snd (outputStripeMul conf (stripes_of hs ls) [])"
  have out: "outputStripeMul conf (stripes_of hs ls) [] = (True, num)"
    using outputStripeMul_eq(1)[OF set, of ls "[]"] by (simp add: num_def prod_eq_iff)
  have num: "\<forall>a \<in> fst ` set hs. om_get 0 num a = length ls"
    using outputStripeMul_eq(2)[OF set, of ls "[]"] by (simp add: num_def om_get_def)
  let ?s0 = "\<lparr>mr_status = status, mr_ind = map (\<lambda>(ip, c). (ip, int c)) num, mr_cmds = [], mr_world = w\<rparr>"
  have "om_get0 (map (\<lambda>(ip, c). (ip, int c)) num) a = int (om_get 0 num a)" for a
    by (simp add: om_get0_def om_get_def map_of_map split: option.split)
  then have ind: "\<forall>a \<in> fst ` set hs. om_get0 (mr_ind ?s0) a = int (length ls)" using num by simp
  have st0: "om_ok (mr_status ?s0)" using st by simp
  have sub: "snd ` set ls \<subseteq> set fs" using names(1) by simp
  obtain r coefs qss where run: "foldE (mul_stripe conf md ip2Ctx requestorIP lostFiles num) (stripes_of hs ls) ?s0 = Inr r"
    "mr_cmds r = concat qss" "length coefs = length ls" "length qss = length ls" "but_passive w (mr_world r)"
    "\<forall>j < length ls. recovers G (coefs ! j) hs content (content (snd (ls ! j))) \<and>
      list_all2 (is_mul_cmd ip2Ctx requestorIP hs (int (length ls)) (snd (ls ! j)) (coefs ! j) (int (length ls) - int j))
        [0..<length hs] (qss ! j)"
    using mul_stripes_eq[OF set ctx known num sub names(2) ind st0, of lostFiles] by auto
  have "fst (lostFiles ! 0) = hd fs" using files(2) lost by (cases lostFiles) auto
  then have "mul_commands conf E md ip2Ctx requestorIP lostFiles status (stripes_of hs ls) s w =
      Inr (rpush (coordinatorIP conf) (hd fs) (mul_reply_for (fst (last hs)) (map snd (tl lostFiles)))
        (push_all (coordinatorIP conf) (concat qss) (mr_world r)), s\<lparr>mh_lastHelper := store\<rparr>)"
    using some store(1) out run(1,2) conf(3) files(2) mul_reply_eq[OF files(2) store(2)]
    by (simp add: mul_commands_def Let_def case_prod_beta atE_def)
  then show ?thesis using run(3-6) by blast
qed

section \<open>Delivery\<close>

text \<open>What the coordinator has queued, with the helpers the commands are for.\<close>

definition mul_routes :: "(ip_addr \<times> string) list \<Rightarrow> (string \<times> byte list) list list \<Rightarrow> (ip_addr \<times> string \<times> byte list) list" where
  "mul_routes hs qss = concat (map (zip (map fst hs)) qss)"

lemma mul_routes:
  assumes len: "\<forall>qs \<in> set qss. length qs = length hs"
  shows "map snd (mul_routes hs qss) = concat qss"
    and "distinct (map fst hs) \<Longrightarrow> h < length hs \<Longrightarrow> cmds_for (fst (hs ! h)) (mul_routes hs qss) = map (\<lambda>qs. drop 4 (snd (qs ! h))) qss"
proof -
  show "map snd (mul_routes hs qss) = concat qss"
    using len by (induction qss) (simp_all add: mul_routes_def)
  assume dist: "distinct (map fst hs)" and h: "h < length hs"
  have one: "filter (\<lambda>(a, _). a = fst (hs ! h)) (zip (map fst hs) qs) = [(fst (hs ! h), qs ! h)]" if "length qs = length hs" for qs
  proof -
    have "filter (\<lambda>(a, _). a = fst (hs ! h)) (zip (map fst hs) qs) = [zip (map fst hs) qs ! h]"
      using dist h that nth_eq_iff_index_eq[of "map fst hs" _ h] by (intro filter_unique) auto
    then show ?thesis using h that by simp
  qed
  show "cmds_for (fst (hs ! h)) (mul_routes hs qss) = map (\<lambda>qs. drop 4 (snd (qs ! h))) qss"
    using len by (induction qss) (simp_all add: mul_routes_def cmds_for_def one case_prod_beta)
qed

lemma mul_routes_ok:
  assumes set: "mul_setting conf requestorIP fs hs" and ctx: "init_ctx conf = Inr ip2Ctx"
    and qss: "\<forall>j < length qss. \<exists>f coef ind. f \<in> set fs \<and> list_all2 (is_mul_cmd ip2Ctx requestorIP hs n f coef ind) [0..<length hs] (qss ! j)"
  shows "routes conf ip2Ctx (mul_routes hs qss)"
proof -
  have "fs \<noteq> []" using set by (simp add: mul_setting_def)
  then have chain: "chain_stripe conf ip2Ctx requestorIP (hd fs) hs" by (intro mul_stripe_ok[OF set ctx]) simp
  then have ctx_ok: "ctx_ok conf ip2Ctx" and small: "length ip2Ctx < 2 ^ 31" unfolding chain_stripe_def by blast+
  have "ip \<in> fst ` set ip2Ctx \<and> q = snd (ip2Ctx ! ctx_idx ip2Ctx ip) \<and> addressed (ctx_idx ip2Ctx ip) c"
    if sent: "(ip, q, c) \<in> set (mul_routes hs qss)" for ip q c
  proof -
    obtain qs where "qs \<in> set qss" "(ip, q, c) \<in> set (zip (map fst hs) qs)"
      using sent by (auto simp: mul_routes_def)
    then obtain j where j: "j < length qss" "(ip, q, c) \<in> set (zip (map fst hs) (qss ! j))"
      by (auto simp only: in_set_conv_nth[of qs])
    obtain f coef ind where f: "f \<in> set fs" and cmds: "list_all2 (is_mul_cmd ip2Ctx requestorIP hs n f coef ind) [0..<length hs] (qss ! j)"
      using qss j(1) by blast
    obtain h where h: "h < length hs" "ip = fst (hs ! h)" "(q, c) = qss ! j ! h"
      using j(2) list_all2_lengthD[OF cmds] by (auto simp: in_set_zip)
    have "is_mul_cmd ip2Ctx requestorIP hs n f coef ind h (q, c)"
      using list_all2_nthD[OF cmds, of h] h by simp
    then obtain d where d: "is_helper_cmd ip2Ctx requestorIP f coef hs h (q, d)" "mul_cmd d ind n = Inr c"
      by (auto simp: is_mul_cmd_def)
    have mem: "ip \<in> fst ` set ip2Ctx" using stripe_ctx[OF chain] h by fastforce
    then have "ctx_idx ip2Ctx ip < 2 ^ 31" using ctx_idx_nth(1)[OF mem] small by linarith
    moreover have "\<exists>rest. c = put_int (int (ctx_idx ip2Ctx ip)) @ rest"
      using d h(2) by (auto simp: is_helper_cmd_def pipe_cmd_def mul_cmd_def Let_def res_simps)
    ultimately have "addressed (ctx_idx ip2Ctx ip) c"
      using get_int_append[of 0 "[]" "int (ctx_idx ip2Ctx ip)"] by (auto simp: addressed_def)
    then show ?thesis using mem d(1) h(2) by (simp add: is_helper_cmd_def Let_def)
  qed
  then show ?thesis using ctx_ok by (auto simp: routes_def)
qed

section \<open>The helpers take their commands\<close>

lemma mul_take_eq:
  assumes "w_queues w ip ''dr_cmds'' = cmds" and "length cmds = length js" and "js \<noteq> []" and "length js \<le> n" and "n < 2 ^ 32"
    and "\<forall>i < length js. parse_mul_cmd (cmds ! i) = Inr (js ! i, word_of_int (int (length js - i)), word_of_int (int n))"
    and "mul_start conf flags ip ((if length js = n then [] else jobs) @ js) = Inr p"
  shows "mul_take conf flags jobs ip w = Inr (cmds_taken ip w, p)"
  using assms
proof (induction js arbitrary: jobs cmds w)
  case (Cons job js)
  obtain cmd cs where cmds: "cmds = cmd # cs" using Cons.prems(2) by (cases cmds) auto
  let ?r = "Suc (length js)" and ?w = "w\<lparr>w_queues := (w_queues w)(ip := (w_queues w ip)(''dr_cmds'' := cs))\<rparr>"
  have small: "(word_of_int (int a) :: 32 word) = word_of_int (int b) \<longleftrightarrow> a = b" if "a \<le> n" "b \<le> n" for a b
    using that Cons.prems(5) by (simp add: of_nat_eq_iff word_of_nat_eq_iff take_bit_nat_eq_self)
  have pop: "blpop ip ''dr_cmds'' w = Inr (cmd, ?w)" using Cons.prems(1) cmds by (simp add: blpop_def)
  have parse: "parse_mul_cmd cmd = Inr (job, word_of_int (int ?r), word_of_int (int n))"
    using Cons.prems(6)[rule_format, of 0] cmds by simp
  let ?jobs = "(if ?r = n then [] else jobs) @ [job]"
  have new: "(if (word_of_int (int ?r) :: 32 word) = word_of_int (int n) then [] else jobs) @ [job] = ?jobs"
    using small[of ?r n] Cons.prems(4) by simp
  have last: "(word_of_int (int ?r) :: 32 word) = 1 \<longleftrightarrow> js = []"
    using small[of ?r 1] Cons.prems(4) by simp
  show ?case
  proof (cases "js = []")
    case True
    then show ?thesis
      using pop parse last new Cons.prems(2,7) cmds
      by (subst mul_take.simps) (simp add: cmds_taken_def Let_def del: of_int_of_nat_eq)
  next
    case False
    have "mul_take conf flags ?jobs ip ?w = Inr (cmds_taken ip ?w, p)"
    proof (rule Cons.IH)
      show "w_queues ?w ip ''dr_cmds'' = cs" by simp
      show "length cs = length js" "js \<noteq> []" "length js \<le> n" "n < 2 ^ 32" using Cons.prems(2,4,5) False cmds by simp_all
      show "\<forall>i < length js. parse_mul_cmd (cs ! i) = Inr (js ! i, word_of_int (int (length js - i)), word_of_int (int n))"
        using Cons.prems(6) cmds by (auto simp: nth_Cons' dest: spec[of _ "Suc _"])
      show "mul_start conf flags ip ((if length js = n then [] else ?jobs) @ js) = Inr p"
        using Cons.prems(4,7) by simp
    qed
    moreover have "cmds_taken ip ?w = cmds_taken ip w" by (simp add: cmds_taken_def)
    ultimately show ?thesis
      using pop parse last new False
      by (subst mul_take.simps) (simp add: Let_def del: of_int_of_nat_eq)
  qed
qed simp

section \<open>The helpers start\<close>

definition mul_job ::
    "ip_addr \<Rightarrow> (ip_addr \<times> string) list \<Rightarrow> string list \<Rightarrow> (string, int) omap list \<Rightarrow> nat \<Rightarrow> nat \<Rightarrow> pipe_job" where
  "mul_job requestorIP hs names coefs h j =
     (let k = length hs
      in \<lparr>pj_ecK = int k, pj_requestorIP = requestorIP, pj_prevIP = fst (hs ! prev_of k h), pj_nextIP = fst (hs ! next_of k h),
          pj_id = int h, pj_coefficient = om_get0 (coefs ! j) (snd (hs ! h)), pj_lostBlkName = names ! j, pj_localBlkName = snd (hs ! h)\<rparr>)"

definition mul_worker0 ::
    "repair_config \<Rightarrow> ip_addr \<Rightarrow> (ip_addr \<times> string) list \<Rightarrow> string list \<Rightarrow> (string, int) omap list \<Rightarrow> nat \<Rightarrow> mul_worker" where
  "mul_worker0 conf requestorIP hs names coefs h =
     (let n = length names
      in \<lparr>mw_ip = fst (hs ! h), mw_jobs = map (mul_job requestorIP hs names coefs h) [0..<n],
          mw_prev = replicate n (Some (fst (hs ! prev_of (length hs) h))),
          mw_pkts = replicate (packetCnt conf) (replicate (packetSize conf * n + 4) 0),
          mw_flag = replicate (packetCnt conf) False, mw_read = 0, mw_main = 0, mw_toSend = replicate n 0, mw_sent = 0\<rparr>)"

text \<open>\<open>doProcess\<close> of a helper that has done no such repair before, so that all its flags are cleared.\<close>

definition mul_receive :: "repair_config \<Rightarrow> ip_addr \<Rightarrow> world \<Rightarrow> (world \<times> mul_worker) res" where
  "mul_receive conf = mul_take conf (replicate (packetCnt conf) False) []"

lemma parse_mul_job:
  assumes set: "mul_setting conf requestorIP fs hs" and h: "h < length hs" and coef: "byte_coefs (coefs ! j) hs"
    and cmd: "is_mul_cmd ip2Ctx requestorIP hs num (names ! j) (coefs ! j) ind h qc"
  shows "parse_mul_cmd (drop 4 (snd qc)) = Inr (mul_job requestorIP hs names coefs h j, word_of_int ind, word_of_int num)"
proof -
  obtain c idx where c: "pipe_cmd idx (int (length hs)) requestorIP (fst (hs ! prev_of (length hs) h)) (fst (hs ! next_of (length hs) h))
      (int h) (om_get0 (coefs ! j) (snd (hs ! h))) (names ! j) (snd (hs ! h)) = Inr c" "mul_cmd c ind num = Inr (snd qc)"
    using cmd by (auto simp: is_mul_cmd_def is_helper_cmd_def Let_def)
  have "int32 (int (length hs))" "int32 (int h)" using set h by (auto simp: mul_setting_def)
  moreover have "0 \<le> om_get0 (coefs ! j) (snd (hs ! h))" "om_get0 (coefs ! j) (snd (hs ! h)) < 256"
    using coef nth_mem[OF h] by (auto simp: byte_coefs_def)
  ultimately show ?thesis using parse_mul_cmd_eq[OF c] by (simp add: mul_job_def Let_def)
qed

lemma mul_receive_eq:
  assumes set: "mul_setting conf requestorIP fs hs" and h: "h < length hs" and names: "length names = length fs"
    and coefs: "\<forall>j < length names. byte_coefs (coefs ! j) hs" and qss: "length qss = length names"
      "\<forall>j < length names. is_mul_cmd ip2Ctx requestorIP hs (int (length names)) (names ! j) (coefs ! j) (int (length names) - int j) h (qss ! j ! h)"
    and cmds: "w_queues w (fst (hs ! h)) ''dr_cmds'' = map (\<lambda>qs. drop 4 (snd (qs ! h))) qss"
  shows "mul_receive conf (fst (hs ! h)) w = Inr (cmds_taken (fst (hs ! h)) w, mul_worker0 conf requestorIP hs names coefs h)"
  unfolding mul_receive_def
proof (rule mul_take_eq[OF cmds])
  let ?js = "map (mul_job requestorIP hs names coefs h) [0..<length names]"
  have n: "0 < length names" "length names \<le> MAX_ECK" using set names by (cases fs, auto simp: mul_setting_def)
  show "length (map (\<lambda>qs. drop 4 (snd (qs ! h))) qss) = length ?js" by (simp add: qss(1))
  show "?js \<noteq> []" using n(1) by simp
  show "length ?js \<le> length names" "length names < 2 ^ 32" using n(2) by (simp_all add: MAX_ECK_def)
  show "\<forall>i < length ?js. parse_mul_cmd (map (\<lambda>qs. drop 4 (snd (qs ! h))) qss ! i) =
      Inr (?js ! i, word_of_int (int (length ?js - i)), word_of_int (int (length names)))"
  proof (intro allI impI)
    fix i assume "i < length ?js"
    then have i: "i < length names" by simp
    show "parse_mul_cmd (map (\<lambda>qs. drop 4 (snd (qs ! h))) qss ! i) = Inr (?js ! i, word_of_int (int (length ?js - i)), word_of_int (int (length names)))"
      using parse_mul_job[OF set h coefs[rule_format, OF i] qss(2)[rule_format, OF i]] i qss(1) by (simp add: of_nat_diff)
  qed
  have k: "prev_of (length hs) h < length hs" by (rule prev_of_less[OF h])
  have "fst ` set hs \<subseteq> set (helpersIPs conf) - {requestorIP}" using set unfolding mul_setting_def by (elim conjE)
  then have sub: "fst ` set hs \<subseteq> set (helpersIPs conf)" by blast
  have "fst (hs ! prev_of (length hs) h) \<in> fst ` set hs" using k by simp
  then have mem: "fst (hs ! prev_of (length hs) h) \<in> set (helpersIPs conf)" using sub by blast
  have sorted: "sorted_wrt (<) (helpersIPs conf)" using set by (simp add: mul_setting_def)
  have "findCtx (sort (helpersIPs conf)) (fst (hs ! prev_of (length hs) h)) = Inr (Some (fst (hs ! prev_of (length hs) h)))"
    using findCtx_eq[OF mem sorted] sorted by (simp add: sorted_sort_id strict_sorted_iff)
  then have "mapE (\<lambda>j. findCtx (sort (helpersIPs conf)) (pj_prevIP j)) ?js = Inr (map (\<lambda>j. Some (fst (hs ! prev_of (length hs) h))) ?js)"
    by (intro mapE_Inr_map) (auto simp: mul_job_def Let_def)
  then show "mul_start conf (replicate (packetCnt conf) False) (fst (hs ! h)) ((if length ?js = length names then [] else []) @ ?js) =
      Inr (mul_worker0 conf requestorIP hs names coefs h)"
    using n(2) by (simp add: mul_start_def mul_worker0_def Let_def map_replicate_const o_def)
qed

definition mul_case_of ::
    "repair_config \<Rightarrow> (ip_addr \<times> string) list \<Rightarrow> (string \<Rightarrow> byte list) \<Rightarrow> string list \<Rightarrow> (string, int) omap list \<Rightarrow> mul_case" where
  "mul_case_of conf hs content names coefs =
     \<lparr>mc_conf = conf, mc_ips = map fst hs, mc_blks = map (content \<circ> snd) hs,
      mc_jobs = map (\<lambda>j. (names ! j, chain_coefs (coefs ! j) hs)) [0..<length names]\<rparr>"

text \<open>The blocks of the helpers, with room for all packets, and empty lists between them.\<close>

definition mul_world :: "repair_config \<Rightarrow> string list \<Rightarrow> (ip_addr \<times> string) list \<Rightarrow> (string \<Rightarrow> byte list) \<Rightarrow> world \<Rightarrow> bool" where
  "mul_world conf fs hs content w \<longleftrightarrow> (\<forall>(ip, b) \<in> set hs. w_files w ip b = Some (content b) \<and>
     pkt_base conf (packetCnt conf) \<le> length (content b) \<and> (\<forall>f \<in> set fs. w_queues w ip f = [] \<and> w_queues w ip (tmp_key f) = []))"

lemma mul_case_ok:
  assumes set: "mul_setting conf requestorIP fs hs" and names: "mset names = mset fs" and world: "mul_world conf fs hs content w"
  shows "mul_conf_ok (mul_case_of conf hs content names coefs)"
proof -
  have "map fst (map (\<lambda>j. (names ! j, chain_coefs (coefs ! j) hs)) [0..<length names]) = names"
    by (simp add: o_def map_nth)
  moreover have "distinct names" using set mset_eq_imp_distinct_iff[OF names] by (simp add: mul_setting_def)
  moreover have "names \<noteq> []" using set names by (auto simp: mul_setting_def)
  moreover have "pkt_base conf (packetCnt conf) \<le> length (content (snd (hs ! h)))" if "h < length hs" for h
    using world nth_mem[OF that] by (auto simp: mul_world_def case_prod_beta)
  ultimately show ?thesis
    using set by (simp add: mul_conf_ok_def mul_case_of_def mul_setting_def Let_def)
qed

lemma mul_chain_starts:
  assumes set: "mul_setting conf requestorIP fs hs" and names: "set names = set fs" and world: "mul_world conf fs hs content w"
    and coefs: "\<forall>j < length names. byte_coefs (coefs ! j) hs"
  shows "mul_chain_inv G (mul_case_of conf hs content names coefs)
    (w, map (mul_worker0 conf requestorIP hs names coefs) [0..<length hs])"
proof -
  let ?C = "mul_case_of conf hs content names coefs" and ?k = "length hs" and ?n = "length names"
  let ?p = "mul_worker0 conf requestorIP hs names coefs"
  have C: "mc_ips ?C = map fst hs" "mc_conf ?C = conf" "length (mc_jobs ?C) = ?n" "mc_blks ?C = map (content \<circ> snd) hs"
    "\<And>j. j < ?n \<Longrightarrow> mc_jobs ?C ! j = (names ! j, chain_coefs (coefs ! j) hs)"
    by (simp_all add: mul_case_of_def)
  have k: "?k < 256" using set by (simp add: mul_setting_def)
  have "mul_ok ?C w h (?p h)" if h: "h < ?k" for h
  proof -
    have mem: "hs ! h \<in> set hs" using h by simp
    have "uint (chain_coefs (coefs ! j) hs ! h) = om_get0 (coefs ! j) (snd (hs ! h))" if "j < ?n" for j
    proof -
      have "0 \<le> om_get0 (coefs ! j) (snd (hs ! h))" "om_get0 (coefs ! j) (snd (hs ! h)) < 256"
        using coefs that mem by (auto simp: byte_coefs_def)
      then show ?thesis using h by (simp add: chain_coefs_def uint_word_of_int take_bit_int_eq_self)
    qed
    moreover have "send_key (mul_job requestorIP hs names coefs h j) = mul_key ?C h j" if "j < ?n" for j
      using k that by (auto simp: send_key_def mul_job_def mul_key_def chain_key_def C Let_def and_0x100)
    moreover have "w_files w (fst (hs ! h)) (snd (hs ! h)) = Some (content (snd (hs ! h)))"
      using world mem by (auto simp: mul_world_def case_prod_beta)
    moreover have "pj_localBlkName (mul_job requestorIP hs names coefs h j) = snd (hs ! h)"
      "pj_id (mul_job requestorIP hs names coefs h j) = int h" "pj_lostBlkName (mul_job requestorIP hs names coefs h j) = names ! j"
      "pj_coefficient (mul_job requestorIP hs names coefs h j) = om_get0 (coefs ! j) (snd (hs ! h))" for j
      by (simp_all add: mul_job_def Let_def)
    ultimately show ?thesis
      using h by (simp add: mul_ok_def C mul_worker0_def prev_of_def Let_def)
  qed
  moreover have "mul_inv G ?C h (?p h)" for h
    by (simp add: mul_inv_def C mul_worker0_def Let_def)
  moreover have "mul_queued G ?C h j 0 0 w" if "h < ?k" "j < ?n" for h j
  proof -
    have "names ! j \<in> set fs" using names nth_mem[OF that(2)] by simp
    then show ?thesis
      using world nth_mem[OF that(1)] that by (auto simp: sums_queued_def C mul_key_def chain_key_def mul_world_def case_prod_beta)
  qed
  moreover have "mw_main (?p h) = 0" "mw_sent (?p h) = 0" for h by (simp_all add: mul_worker0_def Let_def)
  ultimately show ?thesis
    by (simp add: mul_chain_inv_def C mul_taken_def)
qed

lemma mul_output:
  assumes C: "C = mul_case_of conf hs content names coefs" and inv: "mul_chain_inv G C (w, ps)" and conf: "mul_conf_ok C" "hs \<noteq> []"
    and j: "j < length names" and rec: "recovers G (coefs ! j) hs content lost" and room: "pkt_base conf (packetCnt conf) \<le> length lost"
  shows "\<exists>m \<le> packetCnt conf. w_queues w (fst (last hs)) (names ! j) = map (lost_pkt conf lost) [0..<m] \<and>
    (list_all (mul_finished conf) ps \<longrightarrow> m = packetCnt conf)"
proof -
  let ?h = "length hs - 1" and ?n = "length names"
  have h: "?h < length hs" "Suc ?h = length hs" "fst (last hs) = map fst hs ! ?h" using conf(2) by (simp_all add: last_conv_nth)
  have F: "mc_ips C = map fst hs" "mc_conf C = conf" "mc_n C = ?n" "mc_k C = length hs" "mc_blks C = map (content \<circ> snd) hs"
    "mc_jobs C ! j = (names ! j, chain_coefs (coefs ! j) hs)"
    using j by (simp_all add: C mul_case_of_def)
  have len: "length ps = length hs" and "mul_ok C w ?h (ps ! ?h) \<and> mul_inv G C ?h (ps ! ?h) \<and>
      (\<forall>j < ?n. mul_queued G C ?h j (mul_taken C ps ?h j) (rounds ?n j (mw_sent (ps ! ?h))) w)"
    using inv h(1) unfolding mul_chain_inv_def prod.case F(3,4) by blast+
  then have ok: "mul_ok C w ?h (ps ! ?h)" and hinv: "mul_inv G C ?h (ps ! ?h)"
    and q: "mul_queued G C ?h j (mul_taken C ps ?h j) (rounds ?n j (mw_sent (ps ! ?h))) w"
    using j by blast+
  note D = mul_invD[OF hinv]
  have "mw_sent (ps ! ?h) \<le> packetCnt conf * ?n" using D(2,3) mult_le_mono1[OF D(1), of ?n] unfolding F(2,3) by linarith
  then have m: "rounds ?n j (mw_sent (ps ! ?h)) \<le> packetCnt conf" using rounds_mono[OF j] rounds_all[OF j] by metis
  have "mul_taken C ps ?h j = 0" "mul_key C ?h j = names ! j" using len h(2) by (simp_all add: mul_taken_def mul_key_def chain_key_def F)
  then have "w_queues w (fst (last hs)) (names ! j) =
      map (sum_pkt G conf (chain_coefs (coefs ! j) hs) (map (content \<circ> snd) hs) ?h) [0..<rounds ?n j (mw_sent (ps ! ?h))]"
    using q by (simp add: sums_queued_def F h(3))
  also have "\<dots> = map (lost_pkt conf lost) [0..<rounds ?n j (mw_sent (ps ! ?h))]"
    using m last_sum_lost[OF rec conf(2) room] by simp
  finally have "w_queues w (fst (last hs)) (names ! j) = map (lost_pkt conf lost) [0..<rounds ?n j (mw_sent (ps ! ?h))]" .
  moreover have "rounds ?n j (mw_sent (ps ! ?h)) = packetCnt conf" if "list_all (mul_finished conf) ps"
  proof -
    have "mul_finished conf (ps ! ?h)" using that len h(1) by (simp add: list_all_length)
    then show ?thesis using mul_okD(2)[OF ok] rounds_all[OF j] by (simp add: mul_finished_def Let_def F)
  qed
  ultimately show ?thesis using m by blast
qed

lemma mul_delivers:
  assumes G: "gf_complete G" and E: "io_ok E" and C: "C = mul_case_of conf hs content names coefs"
    and inv: "mul_chain_inv G C st" and conf: "mul_conf_ok C" "hs \<noteq> []"
    and j: "j < length names" and rec: "recovers G (coefs ! j) hs content lost" and room: "pkt_base conf (packetCnt conf) \<le> length lost"
  shows "delivers (mul_cluster G E conf) (list_all (mul_finished conf)) (fst (last hs)) (names ! j)
    (map (lost_pkt conf lost) [0..<packetCnt conf]) st"
proof (rule deliversI)
  have cc: "mc_conf C = conf" by (simp add: C mul_case_of_def)
  fix w ps assume "(mul_cluster G E conf)\<^sup>*\<^sup>* st (w, ps)"
  then have inv': "mul_chain_inv G C (w, ps)"
    using mul_chain_reachable[of G E C st "(w, ps)"] inv G E conf(1) by (simp add: cc)
  obtain m where "m \<le> packetCnt conf" "w_queues w (fst (last hs)) (names ! j) = map (lost_pkt conf lost) [0..<m]"
    "list_all (mul_finished conf) ps \<longrightarrow> m = packetCnt conf"
    using mul_output[OF C inv' conf j rec room] by blast
  moreover obtain w' ps' where "(mul_cluster G E conf)\<^sup>*\<^sup>* (w, ps) (w', ps')" "list_all (mul_finished conf) ps'"
    using mul_chain_can_finish[OF G E conf(1) inv'] unfolding cc by blast
  ultimately show "(\<exists>n \<le> packetCnt conf. w_queues w (fst (last hs)) (names ! j) = map (lost_pkt conf lost) [0..<n]) \<and>
      (\<exists>w' ps'. (mul_cluster G E conf)\<^sup>*\<^sup>* (w, ps) (w', ps') \<and> list_all (mul_finished conf) ps') \<and>
      (list_all (mul_finished conf) ps \<longrightarrow> w_queues w (fst (last hs)) (names ! j) = map (lost_pkt conf lost) [0..<packetCnt conf])"
    by blast
qed

section \<open>From the commands to the blocks\<close>

text \<open>Every lost block is handed out by the last helper.\<close>

definition mul_repaired ::
    "gf_ops \<Rightarrow> env \<Rightarrow> repair_config \<Rightarrow> ip_addr \<Rightarrow> string list \<Rightarrow> (string \<Rightarrow> byte list) \<Rightarrow> world \<times> mul_worker list \<Rightarrow> bool" where
  "mul_repaired G E conf ip fs content st \<longleftrightarrow> (\<forall>f \<in> set fs.
     delivers (mul_cluster G E conf) (list_all (mul_finished conf)) ip f (map (lost_pkt conf (content f)) [0..<packetCnt conf]) st)"

lemma mul_repair:
  assumes G: "gf_complete G" and E: "io_ok E" and set: "mul_setting conf requestorIP fs hs" and ctx: "init_ctx conf = Inr ip2Ctx"
    and places: "mul_places conf fs hs ls"
    and len: "length coefs = length ls" "length qss = length ls"
    and cmds: "\<forall>j < length ls. recovers G (coefs ! j) hs content (content (snd (ls ! j))) \<and>
      list_all2 (is_mul_cmd ip2Ctx requestorIP hs (int (length ls)) (snd (ls ! j)) (coefs ! j) (int (length ls) - int j))
        [0..<length hs] (qss ! j)"
    and w1: "w1 = rpush (coordinatorIP conf) f msg (push_all (coordinatorIP conf) (concat qss) w)"
    and f: "f \<in> set fs" and room: "\<forall>f \<in> set fs. pkt_base conf (packetCnt conf) \<le> length (content f)"
    and idle: "no_cmds conf (map fst hs) w" and world: "mul_world conf fs hs content w"
  shows "w_queues w1 (coordinatorIP conf) f = w_queues w (coordinatorIP conf) f @ [msg]"
    and "\<exists>w2. (dist_step conf ip2Ctx)\<^sup>*\<^sup>* w1 w2 \<and> waiting conf w2 = 0"
    and "(dist_step conf ip2Ctx)\<^sup>*\<^sup>* w1 w2 \<Longrightarrow> waiting conf w2 = 0 \<Longrightarrow>
      \<exists>st. start_all (mul_receive conf) (map fst hs) w2 = Inr st \<and> mul_repaired G E conf (fst (last hs)) fs content st"
proof -
  define names where "names = map snd ls"
  have names: "mset names = mset fs" using places by (simp add: names_def mul_places_def)
  then have sets: "set names = set fs" "length names = length fs" "length names = length ls"
    using mset_eq_setD[OF names] mset_eq_length[OF names] by (simp_all add: names_def)
  have nth: "snd (ls ! j) = names ! j" if "j < length ls" for j using that by (simp add: names_def)
  have hs: "hs \<noteq> []" "distinct (map fst hs)" "coordinatorIP conf \<notin> set (map fst hs)" and keys: "f \<noteq> ''dr_cmds''" "\<And>i. f \<noteq> disQ i"
    using set f by (simp_all add: mul_setting_def)
  have "f \<in> set fs \<Longrightarrow> chain_stripe conf ip2Ctx requestorIP f hs" by (rule mul_stripe_ok[OF set ctx])
  then have chain: "chain_stripe conf ip2Ctx requestorIP f hs" using f .
  have lens: "\<forall>qs \<in> set qss. length qs = length hs"
  proof
    fix qs assume "qs \<in> set qss"
    then obtain j where "j < length ls" "qs = qss ! j" using len(2) by (auto simp: in_set_conv_nth)
    then show "length qs = length hs" using cmds list_all2_lengthD by fastforce
  qed
  have "\<forall>j < length qss. \<exists>f coef ind. f \<in> set fs \<and>
      list_all2 (is_mul_cmd ip2Ctx requestorIP hs (int (length ls)) f coef ind) [0..<length hs] (qss ! j)"
    using cmds len(2) sets nth nth_mem[of _ names] by metis
  then have routes: "routes conf ip2Ctx (mul_routes hs qss)" by (rule mul_routes_ok[OF set ctx])
  note snds = mul_routes(1)[OF lens]
  have sub: "set (map fst hs) \<subseteq> fst ` set ip2Ctx" using stripe_ctx[OF chain] by simp
  note delivered = routes_delivered[OF routes idle sub hs(3) keys(2), unfolded snds, OF w1]
  show "w_queues w1 (coordinatorIP conf) f = w_queues w (coordinatorIP conf) f @ [msg]"
    using routes_reply[OF routes keys(2)] unfolding snds w1 .
  show "\<exists>w2. (dist_step conf ip2Ctx)\<^sup>*\<^sup>* w1 w2 \<and> waiting conf w2 = 0"
    using dist_can_finish[OF delivered(1)] routes by (simp add: routes_def)
  assume run: "(dist_step conf ip2Ctx)\<^sup>*\<^sup>* w1 w2" "waiting conf w2 = 0"
  note sent = delivered(2)[OF run]
  have coefs: "\<forall>j < length names. byte_coefs (coefs ! j) hs" using cmds sets(3) by (simp add: recovers_def)
  have received: "mul_receive conf (map fst hs ! h) v = Inr (cmds_taken (map fst hs ! h) v, mul_worker0 conf requestorIP hs names coefs h)"
    if h: "h < length (map fst hs)" and q: "w_queues v (map fst hs ! h) ''dr_cmds'' = w_queues w2 (map fst hs ! h) ''dr_cmds''" for h v
  proof -
    have h': "h < length hs" using h by simp
    have "w_queues w2 (fst (hs ! h)) ''dr_cmds'' = map (\<lambda>qs. drop 4 (snd (qs ! h))) qss"
      using sent mul_routes(2)[OF lens hs(2) h'] nth_mem[OF h'] by simp
    moreover have "\<forall>j < length names. is_mul_cmd ip2Ctx requestorIP hs (int (length names)) (names ! j) (coefs ! j)
        (int (length names) - int j) h (qss ! j ! h)"
      using cmds nth sets(3) h' list_all2_nthD[of _ "[0..<length hs]" _ h] by fastforce
    ultimately show ?thesis
      using mul_receive_eq[OF set h' sets(2) coefs] len(2) sets(3) q h' by simp
  qed
  have "\<exists>w'. start_all (mul_receive conf) (map fst hs) w2 =
        Inr (w', map (mul_worker0 conf requestorIP hs names coefs) [0..<length (map fst hs)]) \<and> w_files w' = w_files w2 \<and>
      (\<forall>ip key. key \<noteq> ''dr_cmds'' \<longrightarrow> w_queues w' ip key = w_queues w2 ip key)"
    by (rule start_all_any[OF hs(2) received])
  then obtain w3 where w3: "start_all (mul_receive conf) (map fst hs) w2 = Inr (w3, map (mul_worker0 conf requestorIP hs names coefs) [0..<length hs])"
    "w_files w3 = w_files w2" "\<And>ip key. key \<noteq> ''dr_cmds'' \<Longrightarrow> w_queues w3 ip key = w_queues w2 ip key"
    by auto
  have "tmp_key g \<noteq> ''dr_cmds''" for g by (simp add: tmp_key_def)
  moreover have "g \<noteq> ''dr_cmds''" if "g \<in> set fs" for g using set that by (simp add: mul_setting_def)
  ultimately have world': "mul_world conf fs hs content w3"
    using world w3(2,3) sent by (fastforce simp: mul_world_def)
  have "delivers (mul_cluster G E conf) (list_all (mul_finished conf)) (fst (last hs)) g (map (lost_pkt conf (content g)) [0..<packetCnt conf])
      (w3, map (mul_worker0 conf requestorIP hs names coefs) [0..<length hs])" if g: "g \<in> set fs" for g
  proof -
    obtain j where j: "j < length names" "names ! j = g" using g sets(1) by (metis in_set_conv_nth)
    have "recovers G (coefs ! j) hs content (content g)" using cmds j nth sets(3) by metis
    then show ?thesis
      using mul_delivers[OF G E refl mul_chain_starts[OF set sets(1) world' coefs] mul_case_ok[OF set names world'] hs(1) j(1), of "content g"]
        room g j(2) by simp
  qed
  with w3(1) show "\<exists>st. start_all (mul_receive conf) (map fst hs) w2 = Inr st \<and> mul_repaired G E conf (fst (last hs)) fs content st"
    by (auto simp: mul_repaired_def)
qed

end
