(* ===== verification/Hdfs_Mul_Repair.thy ===== *)
theory Hdfs_Mul_Repair
  imports Mul_Repair Hdfs_Store
begin

text \<open>
  The pipelined repair of several lost blocks with the HDFS-RAID metadata, end to end: the request of the client for several
  blocks is read by the coordinator, the metadata base names the helpers that repair all of them, and the last helper of the
  chain hands out every lost block.
\<close>

section \<open>The request for several blocks\<close>

definition several_status :: "string list \<Rightarrow> (ip_addr \<times> string) list \<Rightarrow> (string, int) omap" where
  "several_status fs blks = fold (\<lambda>f. om_put f 0) fs (fold (\<lambda>(_, b). om_put b 1) blks [])"

text \<open>The metadata know the blocks \<open>known\<close> at the nodes \<open>loc\<close>.\<close>

definition knows_all :: "metadata \<Rightarrow> string set \<Rightarrow> (string \<Rightarrow> ip_addr) \<Rightarrow> (ip_addr \<times> string) list \<Rightarrow> bool" where
  "knows_all md known loc blks \<longleftrightarrow> blks \<noteq> [] \<and> snd ` set blks \<subseteq> known \<and>
     (\<forall>b \<in> known. md_getIPfromBlk md b = Inr (loc b) \<and> md_getAllBlks md b = Inr blks)"

lemma parse_one_file:
  assumes f: "get_int req base = Inr (int (length f))" "get_name req (base + 4) (int (length f)) = Inr f" "base < int (length req)"
    and known: "knows_all md known loc blks" "f \<in> known"
    and st: "fr_allBlks st = [] \<and> fr_status st = [] \<or> fr_allBlks st = blks \<and> fst ` set (fr_status st) \<subseteq> known"
  shows "\<exists>q. parse_files md 0 requestorIP req base i st = parse_files md 0 requestorIP req (base + 4 + int (length f)) (i + 1)
      \<lparr>fr_reqFile = q, fr_lostFiles = fr_lostFiles st @ [(f, loc f)], fr_allBlks = blks,
        fr_status = om_put f 0 (if fr_allBlks st = [] then fold (\<lambda>(_, b). om_put b 1) blks [] else fr_status st)\<rparr>"
proof -
  let ?status = "om_put f 0 (if fr_allBlks st = [] then fold (\<lambda>(_, b). om_put b 1) blks [] else fr_status st)"
  have "fst ` set ?status \<subseteq> known"
    using known st by (auto simp: knows_all_def fst_set_om_put fst_set_fold_put)
  then have "show_status md ?status = Inr ()" using known(1) by (intro show_status_ok) (auto simp: knows_all_def)
  moreover have "md_getIPfromBlk md f = Inr (loc f)" "md_getAllBlks md f = Inr blks" "blks \<noteq> []"
    using known by (simp_all add: knows_all_def)
  ultimately show ?thesis
    using f st by (intro exI[of _ "if loc f = requestorIP then f else fr_reqFile st"], subst parse_files.simps)
      (cases st, cases "fr_allBlks st = []", auto simp: fetch_all_def Let_def)
qed

lemma parse_more_files:
  assumes "knows_all md known loc blks" and "set fs \<subseteq> known" and "\<forall>f \<in> set fs. length f < 2 ^ 31"
    and "fr_allBlks st = blks" and "fst ` set (fr_status st) \<subseteq> known"
  shows "\<exists>q. parse_files md 0 requestorIP (pre @ request_names fs) (int (length pre)) i st =
    Inr \<lparr>fr_reqFile = q, fr_lostFiles = fr_lostFiles st @ map (\<lambda>f. (f, loc f)) fs, fr_allBlks = blks,
      fr_status = fold (\<lambda>f. om_put f 0) fs (fr_status st)\<rparr>"
  using assms(2-5)
proof (induction fs arbitrary: pre i st)
  case Nil
  then show ?case by (intro exI[of _ "fr_reqFile st"]) (simp add: parse_files.simps request_names_def)
next
  case (Cons f fs)
  have blks: "blks \<noteq> []" using assms(1) by (simp add: knows_all_def)
  let ?pre = "pre @ put_int (int (length f)) @ bytes_of f"
  have req: "pre @ request_names (f # fs) = pre @ put_int (int (length f)) @ bytes_of f @ request_names fs"
    "pre @ request_names (f # fs) = ?pre @ request_names fs"
    by (simp_all add: request_names_def)
  have "get_int (pre @ request_names (f # fs)) (int (length pre)) = Inr (int (length f))"
    unfolding req(1) using Cons.prems(2) by (intro get_int_append) simp_all
  moreover have "get_name (pre @ request_names (f # fs)) (int (length pre) + 4) (int (length f)) = Inr f"
    using get_name_append[of "int (length pre) + 4" "pre @ put_int (int (length f))" "int (length f)" f "request_names fs"]
    by (simp add: req(1))
  moreover have "int (length pre) < int (length (pre @ request_names (f # fs)))" by (simp add: req(1))
  ultimately obtain q where q: "parse_files md 0 requestorIP (pre @ request_names (f # fs)) (int (length pre)) i st =
      parse_files md 0 requestorIP (pre @ request_names (f # fs)) (int (length pre) + 4 + int (length f)) (i + 1)
        \<lparr>fr_reqFile = q, fr_lostFiles = fr_lostFiles st @ [(f, loc f)], fr_allBlks = blks, fr_status = om_put f 0 (fr_status st)\<rparr>"
    using parse_one_file[OF _ _ _ assms(1), of "pre @ request_names (f # fs)" "int (length pre)" f st requestorIP i] Cons.prems blks by auto
  let ?st = "\<lparr>fr_reqFile = q, fr_lostFiles = fr_lostFiles st @ [(f, loc f)], fr_allBlks = blks, fr_status = om_put f 0 (fr_status st)\<rparr>"
  have base: "int (length pre) + 4 + int (length f) = int (length ?pre)" by simp
  have "\<exists>q'. parse_files md 0 requestorIP (?pre @ request_names fs) (int (length ?pre)) (i + 1) ?st =
      Inr \<lparr>fr_reqFile = q', fr_lostFiles = fr_lostFiles ?st @ map (\<lambda>f. (f, loc f)) fs, fr_allBlks = blks,
        fr_status = fold (\<lambda>f. om_put f 0) fs (fr_status ?st)\<rparr>"
    using Cons.prems by (intro Cons.IH) (auto simp: fst_set_om_put)
  then show ?case unfolding q base unfolding req(2) by simp
qed

lemma parse_several_request:
  assumes req: "dr_request client fs = Inr req" and known: "knows_all md known loc blks" "set fs \<subseteq> known" and fs: "fs \<noteq> []" "[] \<notin> set fs"
  shows "\<exists>q. parseFRRequest conf md req (localIP client) =
    Inr (0, \<lparr>fr_reqFile = q, fr_lostFiles = map (\<lambda>f. (f, loc f)) fs, fr_allBlks = blks, fr_status = several_status fs blks\<rparr>)"
proof -
  obtain f gs where f: "fs = f # gs" using fs(1) by (cases fs) auto
  define pre where "pre = put_word (localIP client) @ put_int 0"
  have req': "req = pre @ request_names fs" and "length req \<le> 1024"
    using req by (auto simp: dr_request_def Let_def res_simps pre_def COMMAND_MAX_LENGTH_def)
  have pre: "length pre = 8" by (simp add: pre_def)
  have names: "length g \<le> length (request_names hs)" if "g \<in> set hs" for g and hs :: "string list"
    using that by (induction hs) (auto simp: request_names_def)
  have small: "length g < 2 ^ 31" if "g \<in> set fs" for g using names[OF that] \<open>length req \<le> 1024\<close> by (simp add: req')
  have idx: "get_word req 4 = Inr 0"
    using get_word_append[of 4 "put_word (localIP client)" 0 "request_names fs"] by (simp add: req' pre_def put_word_def)
  let ?st0 = "\<lparr>fr_reqFile = [], fr_lostFiles = [], fr_allBlks = [], fr_status = []\<rparr>"
  have "get_int req 8 = Inr (int (length f))"
    using get_int_append[of 8 pre "int (length f)" "bytes_of f @ request_names gs"] pre small[of f]
    by (simp add: req' f request_names_def)
  moreover have "get_name req (8 + 4) (int (length f)) = Inr f"
    using get_name_append[of 12 "pre @ put_int (int (length f))" "int (length f)" f "request_names gs"] pre
    by (simp add: req' f request_names_def)
  moreover have "8 < int (length req)" by (simp add: req' f pre request_names_def)
  ultimately obtain q where q: "parse_files md 0 (localIP client) req 8 0 ?st0 =
      parse_files md 0 (localIP client) req (8 + 4 + int (length f)) (0 + 1)
        \<lparr>fr_reqFile = q, fr_lostFiles = [(f, loc f)], fr_allBlks = blks, fr_status = om_put f 0 (fold (\<lambda>(_, b). om_put b 1) blks [])\<rparr>"
    using parse_one_file[OF _ _ _ known(1), of req 8 f ?st0 "localIP client" 0] known(2) by (auto simp: f)
  let ?pre = "pre @ put_int (int (length f)) @ bytes_of f"
  let ?st1 = "\<lparr>fr_reqFile = q, fr_lostFiles = [(f, loc f)], fr_allBlks = blks, fr_status = om_put f 0 (fold (\<lambda>(_, b). om_put b 1) blks [])\<rparr>"
  have split: "8 + 4 + int (length f) = int (length ?pre)" "req = ?pre @ request_names gs"
    using pre by (simp_all add: req' f request_names_def)
  have "fst ` set (fr_status ?st1) \<subseteq> known"
    using known by (auto simp: f knows_all_def fst_set_om_put fst_set_fold_put)
  then obtain q' where q': "parse_files md 0 (localIP client) req 8 0 ?st0 =
      Inr \<lparr>fr_reqFile = q', fr_lostFiles = map (\<lambda>f. (f, loc f)) fs, fr_allBlks = blks, fr_status = several_status fs blks\<rparr>"
    using parse_more_files[OF known(1), of gs ?st1 "localIP client" ?pre "0 + 1"] known(2) small
    unfolding q split(1) split(2)[symmetric] by (auto simp: f several_status_def)
  have "8 \<le> length req" by (simp add: req' pre)
  then show ?thesis
    using idx q' f by (cases "q' = []") (auto simp: parseFRRequest_def Let_def)
qed

section \<open>The helpers of several lost blocks\<close>

text \<open>The first \<open>k\<close> blocks that are neither lost nor at the requestor, in the order of their nodes.\<close>

definition stripe_blks :: "(string \<Rightarrow> ip_addr) \<Rightarrow> string list \<Rightarrow> (ip_addr \<times> string) list" where
  "stripe_blks loc names = sorted_list_of_set ((\<lambda>b. (loc b, b)) ` set names)"

definition node_helpers :: "nat \<Rightarrow> string list \<Rightarrow> (string \<Rightarrow> ip_addr) \<Rightarrow> ip_addr \<Rightarrow> string list \<Rightarrow> (ip_addr \<times> string) list" where
  "node_helpers k names loc requestorIP fs = take k (filter (\<lambda>(ip, b). ip \<noteq> requestorIP \<and> b \<notin> set fs) (stripe_blks loc names))"

lemma om_ok_stripe_blks:
  assumes "om_ok blks" and "set blks = (\<lambda>b. (loc b, b)) ` set names"
  shows "blks = stripe_blks loc names"
proof -
  have "sorted blks"
    using assms(1) unfolding om_ok_def sorted_wrt_map by (rule sorted_wrt_mono_rel[rotated]) (auto simp: less_eq_prod_def)
  moreover have "distinct blks" using assms(1) by (simp add: om_ok_def strict_sorted_iff distinct_map)
  ultimately show ?thesis unfolding stripe_blks_def assms(2)[symmetric] by (rule sorted_list_of_set.idem_if_sorted_distinct[symmetric])
qed

definition several_lost :: "string list \<Rightarrow> string list \<Rightarrow> (string, int) omap \<Rightarrow> bool" where
  "several_lost names fs status \<longleftrightarrow> om_ok status \<and> fst ` set status = set names \<and>
     (\<forall>b \<in> set names. map_of status b = Some (if b \<in> set fs then 0 else 1))"

lemma map_of_fold_lost: "map_of (fold (\<lambda>f. om_put f v) fs m) b = (if b \<in> set fs then Some v else map_of m b)"
  by (induction fs arbitrary: m) (auto simp: map_of_om_put)

lemma om_ok_fold_lost: "om_ok m \<Longrightarrow> om_ok (fold (\<lambda>f. om_put f v) fs m)"
  by (induction fs arbitrary: m) (auto simp: om_ok_put)

lemma fst_set_fold_lost: "fst ` set (fold (\<lambda>f. om_put f v) fs m) = fst ` set m \<union> set fs"
  by (induction fs arbitrary: m) (simp_all add: fst_set_om_put)

lemma several_status_ok:
  assumes blks: "set blks = (\<lambda>b. (loc b, b)) ` set names" and fs: "set fs \<subseteq> set names" "f \<in> set fs"
  shows "several_lost names fs (om_put f 0 (several_status fs blks))"
proof -
  have "om_ok (om_put f 0 (several_status fs blks))"
    by (auto simp: several_status_def om_ok_def[of "[]"] intro!: om_ok_put om_ok_fold_lost om_ok_fold_put)
  moreover have "map_of (om_put f 0 (several_status fs blks)) b = Some (if b \<in> set fs then 0 else 1)" if "b \<in> set names" for b
    using blks fs that by (auto simp: several_status_def map_of_om_put map_of_fold_lost map_of_fold_put image_iff)
  moreover have "fst ` set (om_put f 0 (several_status fs blks)) = set names"
    using fs by (auto simp: several_status_def fst_set_om_put fst_set_fold_lost fst_set_fold_put blks image_image)
  ultimately show ?thesis by (simp add: several_lost_def)
qed

lemma lost_names:
  assumes "several_lost names fs status" and "set fs \<subseteq> set names"
  shows "set (map fst (filter (\<lambda>(_, v). v = 0) status)) = set fs" and "distinct (map fst (filter (\<lambda>(_, v). v = 0) status))"
proof -
  have dist: "distinct (map fst status)" using assms(1) by (simp add: several_lost_def om_ok_def strict_sorted_iff)
  then show "distinct (map fst (filter (\<lambda>(_, v). v = 0) status))" by (rule distinct_map_filter)
  have "(b, 0) \<in> set status \<longleftrightarrow> map_of status b = Some 0" for b using dist by simp
  moreover have "map_of status b = Some 0 \<longleftrightarrow> b \<in> set fs" for b
  proof (cases "b \<in> set names")
    case True
    then show ?thesis using assms(1) by (simp add: several_lost_def)
  next
    case False
    then have "map_of status b = None" using assms(1) by (simp add: several_lost_def map_of_eq_None_iff)
    then show ?thesis using False assms(2) by auto
  qed
  ultimately show "set (map fst (filter (\<lambda>(_, v). v = 0) status)) = set fs" by force
qed

text \<open>The entry of the requestor is for the first block of the request, those of the other lost blocks are at their nodes.\<close>

definition lost_places :: "(string \<Rightarrow> ip_addr) \<Rightarrow> ip_addr \<Rightarrow> string \<Rightarrow> string list \<Rightarrow> (ip_addr \<times> string) list" where
  "lost_places loc requestorIP f others = fold (\<lambda>b. om_put (loc b) b) others [(requestorIP, f)]"

lemma stripes_of_put: "om_put ip (f, hs) (stripes_of hs ls) = stripes_of hs (om_put ip f ls)"
  by (induction ls) auto

lemma mset_om_put: "k \<notin> fst ` set m \<Longrightarrow> mset (om_put k v m) = add_mset (k, v) (mset m)"
  by (induction m) (auto simp: add_mset_commute)

lemma lost_places_ok:
  assumes "distinct others" and "inj_on loc (set others)" and "requestorIP \<notin> loc ` set others"
  shows "mset (lost_places loc requestorIP f others) = add_mset (requestorIP, f) (mset (map (\<lambda>b. (loc b, b)) others))"
proof -
  have "mset (fold (\<lambda>b. om_put (loc b) b) others m) = mset m + mset (map (\<lambda>b. (loc b, b)) others)"
    if "distinct others" "inj_on loc (set others)" "fst ` set m \<inter> loc ` set others = {}" for m
    using that
  proof (induction others arbitrary: m)
    case (Cons b others)
    have new: "loc b \<notin> fst ` set m" using Cons.prems(3) by auto
    have "fst ` set (om_put (loc b) b m) \<inter> loc ` set others = {}"
      using Cons.prems by (auto simp: fst_set_om_put inj_on_def)
    then show ?case using Cons.IH[of "om_put (loc b) b m"] Cons.prems(1,2) by (simp add: mset_om_put[OF new])
  qed simp
  from this[OF assms(1,2), of "[(requestorIP, f)]"] show ?thesis using assms(3) by (simp add: lost_places_def)
qed

lemma add_failed_eq:
  assumes known: "\<forall>b \<in> fst ` set status. map_of (hm_blkName2Ip m) b = Some (loc b)"
  shows "add_failed f hs status (stripes_of hs ls) m =
    (stripes_of hs (fold (\<lambda>b. om_put (loc b) b) (filter (\<lambda>b. b \<noteq> f) (map fst (filter (\<lambda>(_, v). v = 0) status))) ls), m)"
  using known
proof (induction status arbitrary: ls)
  case (Cons x status)
  obtain b v where x: "x = (b, v)" by (cases x)
  have ip: "map_of (hm_blkName2Ip m) b = Some (loc b)" using Cons.prems by (simp add: x)
  then have touch: "om_touch 0 b (hm_blkName2Ip m) = hm_blkName2Ip m" "fst (blk_at m b) = loc b"
    by (simp_all add: blk_at_def om_get_def)
  show ?case
  proof (cases "v = 0 \<and> b \<noteq> f")
    case True
    have "add_failed f hs (x # status) (stripes_of hs ls) m = add_failed f hs status (stripes_of hs (om_put (loc b) b ls)) m"
      using True touch by (simp add: add_failed_def x stripes_of_put)
    then show ?thesis using Cons True by (simp add: x)
  next
    case False
    then have "add_failed f hs (x # status) (stripes_of hs ls) m = add_failed f hs status (stripes_of hs ls) m"
      by (auto simp: add_failed_def x)
    then show ?thesis using Cons False by (auto simp: x)
  qed
qed (simp add: add_failed_def)

lemma mul_several:
  assumes placed: "hdfs_placed m names loc" and fs: "set fs \<subseteq> set names" "distinct fs" "1 < length fs"
    and st: "several_lost names fs status" and hs: "hs = node_helpers (ecK conf) names loc requestorIP fs" "length hs = ecK conf"
    and "\<not> msscheduling conf" and req: "requestorIP \<notin> loc ` set (tl fs)"
  shows "\<exists>ls. hdfs_getStripeBlksMul conf 0 (hd fs) requestorIP status m = Inr (stripes_of hs ls, status, m) \<and>
    mset ls = add_mset (requestorIP, hd fs) (mset (map (\<lambda>b. (loc b, b)) (tl fs)))"
proof -
  obtain f gs where f: "fs = f # gs" "gs \<noteq> []" using fs(3) by (cases fs) auto
  have in_names: "f \<in> set names" using fs(1) f(1) by simp
  obtain sid where sid: "sid < length (hm_Ip2BlkNames m)" "map_of (hm_blkName2StripeId m) f = Some sid"
    "om_ok (hm_Ip2BlkNames m ! sid)" "set (hm_Ip2BlkNames m ! sid) = (\<lambda>b. (loc b, b)) ` set names"
    using placed in_names by (auto simp: hdfs_placed_def)
  define blks where "blks = hm_Ip2BlkNames m ! sid"
  note blks = sid(3,4)[folded blks_def]
  have sorted_blks: "blks = stripe_blks loc names" by (rule om_ok_stripe_blks[OF blks])
  have dist: "distinct blks" "sorted blks" unfolding sorted_blks by (simp_all add: stripe_blks_def)
  have all: "hdfs_getAllBlks m f = Inr blks" using sid(1,2) by (simp add: hdfs_getAllBlks_def blks_def)
  let ?failed = "map fst (filter (\<lambda>(_, v). v = 0) status)"
  note lost = lost_names[OF st fs(1)]
  have len: "length ?failed = length fs" using lost distinct_card fs(2) by metis
  let ?P = "\<lambda>(ip, b). ip \<noteq> requestorIP \<and> om_get0 status b \<noteq> 0"
  have in_status: "\<forall>(ip, b) \<in> set blks. map_of status b \<noteq> None"
    using blks(2) st by (auto simp: several_lost_def)
  obtain xs where xs: "first_avail (ecK conf) (\<lambda>ip. ip \<noteq> requestorIP) blks status = (xs, status)" "sorted xs" "distinct xs"
    "set xs = set (take (ecK conf) (filter ?P blks))"
    using first_avail_loop[OF in_status dist(1), of "[]" "ecK conf" "\<lambda>ip. ip \<noteq> requestorIP"] by (auto simp: first_avail_def)
  have "filter ?P blks = filter (\<lambda>(ip, b). ip \<noteq> requestorIP \<and> b \<notin> set fs) blks"
    using blks(2) st by (intro filter_cong) (auto simp: om_get0_def several_lost_def)
  then have take: "take (ecK conf) (filter ?P blks) = hs" by (simp add: hs(1) node_helpers_def sorted_blks)
  have "sorted hs" "distinct hs" using dist by (simp_all add: sorted_wrt_filter flip: take)
  then have xs_hs: "xs = hs" using xs(2-4) sorted_distinct_set_unique unfolding take by metis
  define others where "others = filter (\<lambda>b. b \<noteq> f) ?failed"
  have others: "distinct others" "set others = set gs" using lost fs(2) f(1) by (auto simp: others_def)
  have "inj_on loc (set names)" using placed by (simp add: hdfs_placed_def)
  then have inj: "inj_on loc (set others)" using fs(1) f(1) others(2) by (auto intro: inj_on_subset)
  have known: "\<forall>b \<in> fst ` set status. map_of (hm_blkName2Ip m) b = Some (loc b)"
    using placed st by (auto simp: hdfs_placed_def several_lost_def)
  have "mset others = mset gs" using others fs(2) f(1) set_eq_iff_mset_eq_distinct by auto
  then have "mset (lost_places loc requestorIP f others) = add_mset (requestorIP, f) (mset (map (\<lambda>b. (loc b, b)) gs))"
    using lost_places_ok[OF others(1) inj, of requestorIP f] req others(2) by (simp add: f(1) mset_map)
  moreover have "add_failed f hs status [(requestorIP, (f, hs))] m = (stripes_of hs (lost_places loc requestorIP f others), m)"
    using add_failed_eq[OF known, of f hs "[(requestorIP, f)]"] by (simp add: others_def lost_places_def)
  ultimately show ?thesis
    using all xs(1) xs_hs hs(2) len fs(3) assms(8) f
    by (intro exI[of _ "lost_places loc requestorIP f others"]) (simp add: hdfs_getStripeBlksMul_def Let_def)
qed

section \<open>The coefficients\<close>

lemma mul_helpers_of:
  assumes "om_ok status"
  shows "helpers_of (mul_status hs status) = snd ` set hs"
proof -
  let ?m = "map (\<lambda>(b, v). (b, if v = 0 then 0 else 1)) status :: (string, int) omap"
  have "distinct (map fst (mul_status hs status))" using om_ok_mul_status[OF assms, of hs] by (simp add: om_ok_def strict_sorted_iff)
  then have "helpers_of (mul_status hs status) = {b. map_of (mul_status hs status) b = Some 2}" by (auto simp: helpers_of_def)
  moreover have "map_of ?m b \<noteq> Some 2" for b by (auto dest!: map_of_SomeD split: if_splits)
  ultimately show ?thesis by (auto simp: mul_status_def map_of_fold_put split: if_splits)
qed

lemma hdfs_mul_knows:
  assumes G: "gf_complete G" and rs: "rs_ecK rs = length hs" "rs_ecN rs = length names" "length hs \<le> length names"
      "length (rs_encMat rs) = length hs * (length names - length hs)"
    and known: "stripe_known m names" and fs: "set fs \<subseteq> set names"
    and hs: "distinct (map snd hs)" "snd ` set hs \<subseteq> set names - set fs"
    and code: "is_stripe G (length hs) (complete_enc_mat (length hs) (length names) (rs_encMat rs)) data sz (map content names)"
      "left_invertible G (length hs) (rows_of (length hs) (complete_enc_mat (length hs) (length names) (rs_encMat rs))
        (filter (\<lambda>i. names ! i \<in> snd ` set hs) [0..<length names]))"
  shows "mul_knows G (hdfs_metadata G rs conf E m) fs hs content"
  unfolding mul_knows_def
proof (intro ballI allI impI)
  fix f status assume f: "f \<in> set fs" and st: "om_ok (status :: (string, int) omap)"
  then obtain idx where idx: "idx < length names" "names ! idx = f" using fs by (metis in_set_conv_nth subsetD)
  note H = mul_helpers_of[OF st, of hs]
  have "card (snd ` set hs) = length hs" using distinct_card[OF hs(1)] by simp
  moreover have "snd ` set hs \<subseteq> set names" "names ! idx \<notin> snd ` set hs" using hs(2) f idx(2) by auto
  ultimately obtain coef where coef: "hdfs_getCoefficient G rs m f (Some (mul_status hs status)) = Inr coef"
    "\<forall>b \<in> snd ` set hs. 0 \<le> om_get0 coef b \<and> om_get0 coef b < 256"
    "\<forall>x < sz. xs.F (\<lambda>b. gf_multiply G (word_of_int (om_get0 coef b)) (content b ! x)) (snd ` set hs) = content f ! x"
    using hdfs_decodes[OF G rs known, of "mul_status hs status" idx data sz content] idx code unfolding H by auto
  moreover have "length (content f) = sz" using code(1) idx by (auto simp: is_stripe_def)
  ultimately have "recovers G coef hs content (content f)" using hs(1) by (auto simp: recovers_def byte_coefs_def)
  then show "\<exists>coef. md_getCoefficient (hdfs_metadata G rs conf E m) f (Some (mul_status hs status)) = Inr coef \<and>
      recovers G coef hs content (content f)"
    using coef(1) by (auto simp: hdfs_metadata_def)
qed

section \<open>The repair\<close>

lemma node_helpers_mem:
  assumes "x \<in> set (node_helpers k names loc requestorIP fs)"
  shows "\<exists>b \<in> set names - set fs. x = (loc b, b) \<and> loc b \<noteq> requestorIP"
proof -
  have "x \<in> set (stripe_blks loc names)" "fst x \<noteq> requestorIP" "snd x \<notin> set fs"
    using assms by (auto simp: node_helpers_def dest!: in_set_takeD)
  then show ?thesis by (auto simp: stripe_blks_def)
qed

lemma mul_handler:
  assumes G: "gf_complete G" and set: "mul_setting conf (localIP client) fs hs" and ctx: "init_ctx conf = Inr ip2Ctx"
    and placed: "hdfs_placed m names loc" and fs: "set fs \<subseteq> set names" "1 < length fs"
    and nodes: "localIP client \<notin> loc ` set (tl fs)" "insert (localIP client) (loc ` set fs) \<subseteq> set (helpersIPs conf)"
    and hs: "hs = node_helpers (ecK conf) names loc (localIP client) fs"
    and rs: "rs_ecK rs = ecK conf" "rs_ecN rs = length names" "ecK conf \<le> length names"
      "length (rs_encMat rs) = ecK conf * (length names - ecK conf)"
    and code: "is_stripe G (ecK conf) (complete_enc_mat (ecK conf) (length names) (rs_encMat rs)) data sz (map content names)"
      "left_invertible G (ecK conf) (rows_of (ecK conf) (complete_enc_mat (ecK conf) (length names) (rs_encMat rs))
        (filter (\<lambda>i. names ! i \<in> snd ` set hs) [0..<length names]))"
    and req: "only_requests conf client fs w"
  shows "\<exists>ls coefs qss w' s'. mul_requestHandler conf E (hdfs_metadata G rs conf HE) (hdfs_getStripeBlksMul conf 0) ip2Ctx s m w =
      Inr (rpush (coordinatorIP conf) (hd fs) (mul_reply_for (fst (last hs)) (map loc (tl fs)))
        (push_all (coordinatorIP conf) (concat qss) w'), s', m) \<and> but_passive (no_request conf w) w' \<and>
    mul_places conf fs hs ls \<and> length coefs = length ls \<and> length qss = length ls \<and>
    (\<forall>j < length ls. recovers G (coefs ! j) hs content (content (snd (ls ! j))) \<and>
      list_all2 (is_mul_cmd ip2Ctx (localIP client) hs (int (length ls)) (snd (ls ! j)) (coefs ! j) (int (length ls) - int j))
        [0..<length hs] (qss ! j))"
proof -
  let ?md = "hdfs_metadata G rs conf HE m" and ?lost = "map (\<lambda>f. (f, loc f)) fs"
  have conf: "fs \<noteq> []" "distinct fs" "[] \<notin> set fs" "ecK conf = length hs" "\<not> msscheduling conf"
    using set by (auto simp: mul_setting_def)
  then have hd: "hd fs \<in> set fs" "fs ! 0 = hd fs" by (simp_all add: hd_conv_nth)
  have inj: "inj_on loc (set names)" and stripe: "stripe_known m names" using placed by (simp_all add: hdfs_placed_def)
  obtain blks where blks: "knows_blk ?md (hd fs) (loc (hd fs)) blks" "om_ok blks" "set blks = (\<lambda>b. (loc b, b)) ` set names"
    using placed_knows[OF placed] hd(1) fs(1) by blast
  have "md_getIPfromBlk ?md b = Inr (loc b) \<and> md_getAllBlks ?md b = Inr blks" if b: "b \<in> set names" for b
  proof -
    obtain bs where "knows_blk ?md b (loc b) bs" "om_ok bs" "set bs = (\<lambda>b. (loc b, b)) ` set names"
      using placed_knows[OF placed b] by blast
    then show ?thesis using om_ok_stripe_blks[OF blks(2,3)] om_ok_stripe_blks[of bs loc names] by (simp add: knows_blk_def)
  qed
  then have known: "knows_all ?md (set names) loc blks"
    using blks(3) hd(1) fs(1) by (auto simp: knows_all_def)
  obtain r where r: "dr_request client fs = Inr r" "blpop (coordinatorIP conf) ''dr_requests'' w = Inr (r, no_request conf w)"
    "get_word r 0 = Inr (localIP client)" "\<not> length r < 4"
    using req by (rule only_requestE)
  obtain q where q: "parseFRRequest conf ?md r (localIP client) =
      Inr (0, \<lparr>fr_reqFile = q, fr_lostFiles = ?lost, fr_allBlks = blks, fr_status = several_status fs blks\<rparr>)"
    using parse_several_request[OF r(1) known fs(1) conf(1,3)] by blast
  define status where "status = om_put (hd fs) 0 (several_status fs blks)"
  have st: "several_lost names fs status" unfolding status_def by (rule several_status_ok[OF blks(3) fs(1) hd(1)])
  obtain ls where ls: "hdfs_getStripeBlksMul conf 0 (hd fs) (localIP client) status m = Inr (stripes_of hs ls, status, m)"
    "mset ls = add_mset (localIP client, hd fs) (mset (map (\<lambda>b. (loc b, b)) (tl fs)))"
    using mul_several[OF placed fs(1) conf(2) fs(2) st hs conf(4)[symmetric] conf(5) nodes(1)] by blast
  note mem = node_helpers_mem[of _ "ecK conf" names loc "localIP client" fs, folded hs]
  have helper: "snd ` set hs \<subseteq> set names - set fs" using mem by fastforce
  have dist: "distinct (map snd hs)"
  proof -
    have "inj_on snd (set hs)" by (rule inj_onI) (metis mem snd_conv)
    moreover have "distinct hs" unfolding hs node_helpers_def stripe_blks_def by simp
    ultimately show ?thesis by (simp add: distinct_map)
  qed
  have "mset (map snd ls) = add_mset (hd fs) (mset (tl fs))" using arg_cong[OF ls(2), of "image_mset snd"] by (simp add: image_mset.compositionality o_def)
  then have "mset (map snd ls) = mset fs" using conf(1) by (cases fs) simp_all
  moreover have "set ls = insert (localIP client, hd fs) ((\<lambda>b. (loc b, b)) ` set (tl fs))"
    using arg_cong[OF ls(2), of set_mset] by simp
  then have at: "fst ` set ls \<subseteq> insert (localIP client) (loc ` set fs)" using conf(1) by (auto simp: list.set_sel(2))
  have "ip \<notin> fst ` set hs" if "ip \<in> insert (localIP client) (loc ` set fs)" for ip
  proof
    assume "ip \<in> fst ` set hs"
    then obtain b where b: "b \<in> set names - set fs" "ip = loc b" "loc b \<noteq> localIP client" using mem by fastforce
    then obtain f where f: "f \<in> set fs" "loc b = loc f" using \<open>ip \<in> insert (localIP client) (loc ` set fs)\<close> by blast
    have "b = f" using inj f b(1) fs(1) by (meson DiffD1 inj_onD subsetD)
    then show False using f(1) b(1) by blast
  qed
  then have "fst ` set ls \<subseteq> set (helpersIPs conf) - fst ` set hs" using at nodes(2) by blast
  ultimately have places: "mul_places conf fs hs ls" by (simp add: mul_places_def)
  have knows: "mul_knows G ?md fs hs content"
    using hdfs_mul_knows[OF G _ rs(2) _ _ stripe fs(1) dist helper, of data sz content conf HE] rs code conf(4) by simp
  have "om_ok status" using st by (simp add: several_lost_def)
  from mul_commands_eq[OF set ctx knows places this, of ?lost E s "no_request conf w"]
  obtain coefs qss w' s' where run: "mul_commands conf E ?md ip2Ctx (localIP client) ?lost status (stripes_of hs ls) s (no_request conf w) =
      Inr (rpush (coordinatorIP conf) (hd fs) (mul_reply_for (fst (last hs)) (map snd (tl ?lost)))
        (push_all (coordinatorIP conf) (concat qss) w'), s')" "but_passive (no_request conf w) w'"
    "length coefs = length ls" "length qss = length ls"
    "\<forall>j < length ls. recovers G (coefs ! j) hs content (content (snd (ls ! j))) \<and>
      list_all2 (is_mul_cmd ip2Ctx (localIP client) hs (int (length ls)) (snd (ls ! j)) (coefs ! j) (int (length ls) - int j))
        [0..<length hs] (qss ! j)"
    by (auto simp: o_def)
  have others: "map snd (tl ?lost) = map loc (tl fs)" by (simp add: map_tl o_def)
  have "mul_requestHandler conf E (hdfs_metadata G rs conf HE) (hdfs_getStripeBlksMul conf 0) ip2Ctx s m w =
      Inr (rpush (coordinatorIP conf) (hd fs) (mul_reply_for (fst (last hs)) (map loc (tl fs)))
        (push_all (coordinatorIP conf) (concat qss) w'), s', m)"
    using r(2,3) q ls(1) run(1) conf(1) hd(2) unfolding others status_def
    by (simp add: mul_requestHandler_def)
  then show ?thesis using run(2-5) places by blast
qed

text \<open>The handler touches the request and the passive requests only.\<close>

lemma mul_world_kept:
  assumes frame: "but_passive (no_request conf w) w'" and set: "mul_setting conf requestorIP fs hs" and world: "mul_world conf fs hs content w"
  shows "mul_world conf fs hs content w'"
  unfolding mul_world_def
proof (intro ballI, clarify)
  fix ip b assume mem: "(ip, b) \<in> set hs"
  have w: "w_files w ip b = Some (content b) \<and> pkt_base conf (packetCnt conf) \<le> length (content b) \<and>
      (\<forall>f \<in> set fs. w_queues w ip f = [] \<and> w_queues w ip (tmp_key f) = [])"
    using world mem by (auto simp: mul_world_def)
  have fs: "coordinatorIP conf \<notin> fst ` set hs" "\<forall>f \<in> set fs. f \<noteq> ''dr_passive''" using set by (simp_all add: mul_setting_def)
  then have "ip \<noteq> coordinatorIP conf" using mem by force
  then have "w_queues w' ip f = w_queues w ip f" "w_queues w' ip (tmp_key f) = w_queues w ip (tmp_key f)" if "f \<in> set fs" for f
    using fs(2) that frame by (simp_all add: tmp_key_def but_passive_def no_request_queues)
  then show "w_files w' ip b = Some (content b) \<and> pkt_base conf (packetCnt conf) \<le> length (content b) \<and>
      (\<forall>f \<in> set fs. w_queues w' ip f = [] \<and> w_queues w' ip (tmp_key f) = [])"
    using w frame by (simp add: but_passive_def no_request_queues)
qed

lemma no_cmds_kept:
  assumes frame: "but_passive (no_request conf w) w'" and idle: "no_cmds conf ips w"
  shows "no_cmds conf ips w'"
  using assms by (simp add: no_cmds_def but_passive_def no_request_queues disQ_def)

lemma stripe_room:
  assumes "is_stripe G k c data sz (map content names)" and "f \<in> set names"
  shows "length (content f) = sz"
  using assms by (auto simp: is_stripe_def in_set_conv_nth)

text \<open>
  C9. End-to-end repair of several blocks of a stripe at once. The metadata base is built from a consistent stripe store and the
  reports of the helpers, and a client asks for the blocks \<open>fs\<close>, at least two, of which its own node holds at most the first. Then the
  handler succeeds with helpers on other nodes, the reply says that the last of them has every block, the distributors can always deliver all
  commands, and once they have, every helper starts with one job for each block. In every state the helpers reach, the list of a lost block on
  the last helper holds a prefix of its packets; the helpers can always finish, and then all packets are there.
\<close>

theorem hdfs_mul_repair:
  assumes "gf_complete G" and "io_ok E"
    and "0 < ecK conf" and "ecK conf < length names" and "length encMat = ecK conf * (length names - ecK conf)"
    and "rs = RSUtil G (ecK conf) (length names) encMat"
    and "store_ok conf rs ss files" and "names \<in> set ss"
    and "w_queues w0 (coordinatorIP conf) ''blk_init'' = map report_msg reps" and "reports_ok ss loc reps" and "inj_on loc (set names)"
    and "set fs \<subseteq> set names" and "1 < length fs"
    and "localIP client \<notin> loc ` set (tl fs)" and "insert (localIP client) (loc ` set fs) \<subseteq> set (helpersIPs conf)"
    and "hs = node_helpers (ecK conf) names loc (localIP client) fs"
    and "mul_setting conf (localIP client) fs hs" and "init_ctx conf = Inr ip2Ctx"
    and "is_stripe G (ecK conf) (complete_enc_mat (ecK conf) (length names) encMat) data sz (map content names)"
    and "left_invertible G (ecK conf) (rows_of (ecK conf) (complete_enc_mat (ecK conf) (length names) encMat)
      (filter (\<lambda>i. names ! i \<in> snd ` set hs) [0..<length names]))"
    and "packetSkipSize conf + packetCnt conf * packetSize conf \<le> sz"
    and "only_requests conf client fs w" and "no_cmds conf (map fst hs) w"
    and "mul_world conf fs hs content w" and "w_queues w (coordinatorIP conf) (hd fs) = []"
  shows "\<exists>m w0' w1 s'. HDFS_MetadataBase conf rs files w0 = Inr (m, w0') \<and>
    mul_requestHandler conf E (hdfs_metadata G rs conf HE) (hdfs_getStripeBlksMul conf 0) ip2Ctx s m w = Inr (w1, s', m) \<and>
    w_queues w1 (coordinatorIP conf) (hd fs) = [mul_reply_for (fst (last hs)) (map loc (tl fs))] \<and>
    (\<exists>w2. (dist_step conf ip2Ctx)\<^sup>*\<^sup>* w1 w2 \<and> waiting conf w2 = 0) \<and>
    (\<forall>w2. (dist_step conf ip2Ctx)\<^sup>*\<^sup>* w1 w2 \<and> waiting conf w2 = 0 \<longrightarrow>
      (\<exists>st. start_all (mul_receive conf) (map fst hs) w2 = Inr st \<and> mul_repaired G E conf (fst (last hs)) fs content st))"
proof -
  have "names \<noteq> []" using assms(4) by auto
  then have "concat ss \<noteq> []" using assms(8) by auto
  then obtain m w0' where m: "HDFS_MetadataBase conf rs files w0 = Inr (m, w0')" and placed: "hdfs_placed m names loc"
    using init_metadata[OF assms(7) _ assms(3,9,10)] assms(8,11) \<open>names \<noteq> []\<close> by blast
  have rs: "rs_ecK rs = ecK conf" "rs_ecN rs = length names" "rs_encMat rs = encMat"
    unfolding assms(6) RSUtil_def Let_def by (simp_all add: case_prod_beta)
  obtain ls coefs qss w' s' where run: "mul_requestHandler conf E (hdfs_metadata G rs conf HE) (hdfs_getStripeBlksMul conf 0) ip2Ctx s m w =
      Inr (rpush (coordinatorIP conf) (hd fs) (mul_reply_for (fst (last hs)) (map loc (tl fs)))
        (push_all (coordinatorIP conf) (concat qss) w'), s', m)" and frame: "but_passive (no_request conf w) w'"
    and places: "mul_places conf fs hs ls" and len: "length coefs = length ls" "length qss = length ls"
    and cmds: "\<forall>j < length ls. recovers G (coefs ! j) hs content (content (snd (ls ! j))) \<and>
      list_all2 (is_mul_cmd ip2Ctx (localIP client) hs (int (length ls)) (snd (ls ! j)) (coefs ! j) (int (length ls) - int j))
        [0..<length hs] (qss ! j)"
    using mul_handler[OF assms(1,17,18) placed assms(12-16) rs(1,2) _ _ _ _ assms(22)] assms(4,5,19,20) unfolding rs(3)
    by (metis less_imp_le)
  have fs: "hd fs \<in> set fs" "hd fs \<noteq> ''dr_requests''" "hd fs \<noteq> ''dr_passive''"
    using assms(13,17) by (cases fs, auto simp: mul_setting_def)
  note idle = no_cmds_kept[OF frame assms(23)] and world = mul_world_kept[OF frame assms(17,24)]
  have "\<forall>f \<in> set fs. length (content f) = sz" using stripe_room[OF assms(19)] assms(12) by blast
  then have room: "\<forall>f \<in> set fs. pkt_base conf (packetCnt conf) \<le> length (content f)" using assms(21) by simp
  note repair = mul_repair[OF assms(1,2,17,18) places len cmds refl fs(1) room idle world]
  have reply: "w_queues w' (coordinatorIP conf) (hd fs) = []" using assms(25) frame fs(2,3) by (simp add: but_passive_def no_request_queues)
  show ?thesis
  proof (rule exI, rule exI, rule exI, rule exI, intro conjI)
    show "HDFS_MetadataBase conf rs files w0 = Inr (m, w0')" by (rule m)
    show "mul_requestHandler conf E (hdfs_metadata G rs conf HE) (hdfs_getStripeBlksMul conf 0) ip2Ctx s m w =
      Inr (rpush (coordinatorIP conf) (hd fs) (mul_reply_for (fst (last hs)) (map loc (tl fs)))
        (push_all (coordinatorIP conf) (concat qss) w'), s', m)" by (rule run)
    show "w_queues (rpush (coordinatorIP conf) (hd fs) (mul_reply_for (fst (last hs)) (map loc (tl fs)))
        (push_all (coordinatorIP conf) (concat qss) w')) (coordinatorIP conf) (hd fs) = [mul_reply_for (fst (last hs)) (map loc (tl fs))]"
      unfolding repair(1) reply by simp
  qed (rule repair(2), intro allI impI, elim conjE, rule repair(3), assumption+)
qed

section \<open>An example\<close>

text \<open>
  A (4, 2) stripe with its blocks on the nodes 11 to 14: \<open>a = d_0 + d_1\<close>, \<open>b = d_0 + 2 d_1\<close>, \<open>c = d_0\<close>, \<open>d = d_1\<close>. The client
  on node 13 asks for \<open>c\<close> and \<open>d\<close>.
\<close>

definition mul_conf :: repair_config where
  "mul_conf = repair_conf\<lparr>ecN := 4, helpersIPs := [11, 12, 13, 14]\<rparr>"

definition mul_content :: "string \<Rightarrow> byte list" where
  "mul_content b = replicate 16 (if b = ''a'' then 6 else if b = ''b'' then 9 else if b = ''c'' then 3 else 5)"

definition mul_loc :: "string \<Rightarrow> ip_addr" where
  "mul_loc b = (if b = ''a'' then 11 else if b = ''b'' then 12 else if b = ''c'' then 13 else 14)"

definition mul_files :: "(string \<times> string) list" where
  "mul_files = map (\<lambda>f. (f, ''a_0:b_0:c_0:d_0'')) [''rs:a_0'', ''rs:d_0'', ''rs:c_0'', ''rs:b_0'']"

definition mul_reports :: "(ip_addr \<times> string) list" where
  "mul_reports = [(14, ''d''), (12, ''b''), (13, ''c''), (11, ''a'')]"

definition mul_sample_world :: world where
  "mul_sample_world =
     \<lparr>w_queues = (\<lambda>ip key. if ip = 10 \<and> key = ''dr_requests''
        then [put_word 13 @ put_int 0 @ request_names [''c'', ''d'']] else []),
      w_files = (\<lambda>ip b. if (ip, b) \<in> {(11, ''a''), (12, ''b'')} then Some (mul_content b) else None)\<rparr>"

abbreviation mul_rs :: rs_util where
  "mul_rs \<equiv> RSUtil gf256 2 4 [1, 1, 1, 2]"

lemma mul_complete: "complete_enc_mat 2 4 [1, 1, 1, 2] = [1, 1, 1, 2, 1, 0, 0, 1]"
  by (simp add: complete_enc_mat_def eval_nat_numeral)

lemma mul_code:
  "is_stripe gf256 2 (complete_enc_mat 2 4 [1, 1, 1, 2]) [replicate 16 3, replicate 16 5] 16
     (map mul_content [''a'', ''b'', ''c'', ''d''])"
  unfolding mul_complete is_stripe_def
proof (intro conjI allI impI)
  fix r assume "r < length (map mul_content [''a'', ''b'', ''c'', ''d''])"
  then consider "r = 0" | "r = 1" | "r = 2" | "r = 3" by fastforce
  then show "map mul_content [''a'', ''b'', ''c'', ''d''] ! r =
      lin_comb gf256 (take 2 (drop (r * 2) [1, 1, 1, 2, 1, 0, 0, 1])) [replicate 16 3, replicate 16 5] 16"
    by cases (auto intro!: nth_equalityI simp: mul_content_def lin_byte_def gf256_eval)
qed simp

lemma mul_invertible: "left_invertible gf256 2 (rows_of 2 (complete_enc_mat 2 4 [1, 1, 1, 2]) [0, 1])"
proof -
  have "rows_of 2 (complete_enc_mat 2 4 [1, 1, 1, 2]) [0, 1] = [1, 1, 1, 2 :: byte]"
    unfolding mul_complete by (simp add: rows_of_def)
  moreover have "left_invertible gf256 2 [1, 1, 1, 2]"
    unfolding left_invertible_def
    by (rule exI[of _ "\<lambda>r x. [245, 244, 244, 244] ! (2 * r + x)"]) (simp add: gf256_eval)
  ultimately show ?thesis by simp
qed

lemma mul_ctx: "init_ctx mul_conf = Inr [(11, disQ 0), (12, disQ 0), (13, disQ 1), (14, disQ 1)]"
proof -
  have "rightBounder 4 2 = Inr [2, 4]"
    by (simp add: rightBounder_eq share_start_def upt_rec)
  moreover have "length (helpersIPs mul_conf) = 4" "helpersIPs mul_conf = [11, 12, 13, 14]" "coCmdDistThreadNum mul_conf = 2"
    by (simp_all add: mul_conf_def repair_conf_def sample_repair_conf_def)
  ultimately show ?thesis by (simp add: init_ctx_def eval_nat_numeral)
qed

lemma mul_store: "store_ok mul_conf mul_rs [[''a'', ''b'', ''c'', ''d'']] mul_files"
proof -
  have "length (rs_coefficient mul_rs) = 4" "\<forall>c \<in> set (rs_coefficient mul_rs). length c = 2"
    using RSUtil_coefficients[of 2 4 "[1, 1, 1, 2]" gf256] by (auto simp: length_matrix_multiply)
  moreover have "ecK mul_conf = 2" by (simp add: mul_conf_def repair_conf_def sample_repair_conf_def)
  moreover have "stripe_names ''a_0:b_0:c_0:d_0'' = [''a'', ''b'', ''c'', ''d'']"
    "file_blk ''rs:a_0'' = ''a''" "file_blk ''rs:b_0'' = ''b''" "file_blk ''rs:c_0'' = ''c''" "file_blk ''rs:d_0'' = ''d''"
    by (simp_all add: stripe_names_def file_blk_def before_last_def after_first_def splite_string.simps)
  ultimately show ?thesis by (simp add: store_ok_def mul_files_def dot_file_def)
qed

lemma mul_sample:
  "mul_setting mul_conf 13 [''c'', ''d''] repair_hs" "node_helpers 2 [''a'', ''b'', ''c'', ''d''] mul_loc 13 [''c'', ''d''] = repair_hs"
  "only_requests mul_conf mul_conf [''c'', ''d''] mul_sample_world" "no_cmds mul_conf (map fst repair_hs) mul_sample_world"
  "mul_world mul_conf [''c'', ''d''] repair_hs mul_content mul_sample_world"
  by (simp_all add: mul_setting_def node_helpers_def stripe_blks_def mul_loc_def MAX_ECK_def only_requests_def no_cmds_def
      mul_world_def mul_sample_world_def mul_content_def mul_conf_def repair_conf_def sample_repair_conf_def disQ_def
      dr_request_def request_names_def COMMAND_MAX_LENGTH_def)

theorem hdfs_mul_repair_witness:
  "\<exists>m w0' w1 s'. HDFS_MetadataBase mul_conf mul_rs mul_files
      (mul_sample_world\<lparr>w_queues := (\<lambda>ip key. if ip = 10 \<and> key = ''blk_init'' then map report_msg mul_reports else [])\<rparr>) = Inr (m, w0') \<and>
    mul_requestHandler mul_conf repair_env (hdfs_metadata gf256 mul_rs mul_conf keep_order) (hdfs_getStripeBlksMul mul_conf 0)
      [(11, disQ 0), (12, disQ 0), (13, disQ 1), (14, disQ 1)] \<lparr>mh_lastHelper = [], mh_history = None\<rparr> m mul_sample_world =
      Inr (w1, s', m) \<and>
    w_queues w1 10 ''c'' = [put_word 12 @ put_word 12 @ put_word 14] \<and>
    (\<exists>w2 st. (dist_step mul_conf [(11, disQ 0), (12, disQ 0), (13, disQ 1), (14, disQ 1)])\<^sup>*\<^sup>* w1 w2 \<and>
      start_all (mul_receive mul_conf) (map fst repair_hs) w2 = Inr st \<and>
      mul_repaired gf256 repair_env mul_conf 12 [''c'', ''d''] mul_content st)"
proof -
  let ?names = "[''a'', ''b'', ''c'', ''d'']" and ?ctx = "[(11, disQ 0), (12, disQ 0), (13, disQ 1), (14, disQ 1)]"
  let ?w0 = "mul_sample_world\<lparr>w_queues := (\<lambda>ip key. if ip = 10 \<and> key = ''blk_init'' then map report_msg mul_reports else [])\<rparr>"
  have conf: "ecK mul_conf = 2" "coordinatorIP mul_conf = 10" "localIP mul_conf = 13"
    "packetSkipSize mul_conf + packetCnt mul_conf * packetSize mul_conf \<le> 16" "helpersIPs mul_conf = [11, 12, 13, 14]"
    by (simp_all add: mul_conf_def repair_conf_def sample_repair_conf_def)
  have rep: "reports_ok [?names] mul_loc mul_reports" "inj_on mul_loc (set ?names)"
    by (simp_all add: reports_ok_def mul_reports_def mul_loc_def inj_on_def)
  have env: "io_ok repair_env" and none: "w_queues mul_sample_world 10 (hd [''c'', ''d'']) = []"
    by (simp_all add: io_ok_def repair_env_def mul_sample_world_def)
  have len: "length ?names = 4" by simp
  have rs: "0 < ecK mul_conf" "ecK mul_conf < length ?names" "length [1, 1, 1, 2 :: byte] = ecK mul_conf * (length ?names - ecK mul_conf)"
    "mul_rs = RSUtil gf256 (ecK mul_conf) (length ?names) [1, 1, 1, 2]"
    unfolding len conf(1) by simp_all
  have store: "?names \<in> set [?names]" "w_queues ?w0 (coordinatorIP mul_conf) ''blk_init'' = map report_msg mul_reports"
    by (simp_all add: conf(2))
  have lost: "set [''c'', ''d''] \<subseteq> set ?names" "1 < length [''c'', ''d'']" "localIP mul_conf \<notin> mul_loc ` set (tl [''c'', ''d''])"
    "insert (localIP mul_conf) (mul_loc ` set [''c'', ''d'']) \<subseteq> set (helpersIPs mul_conf)"
    by (simp_all add: conf(3,5) mul_loc_def)
  have rows: "filter (\<lambda>i. ?names ! i \<in> snd ` set repair_hs) [0..<length ?names] = [0, 1]" by (simp add: upt_rec)
  have code: "is_stripe gf256 (ecK mul_conf) (complete_enc_mat (ecK mul_conf) (length ?names) [1, 1, 1, 2])
      [replicate 16 3, replicate 16 5] 16 (map mul_content ?names)"
    "left_invertible gf256 (ecK mul_conf) (rows_of (ecK mul_conf) (complete_enc_mat (ecK mul_conf) (length ?names) [1, 1, 1, 2])
      (filter (\<lambda>i. ?names ! i \<in> snd ` set repair_hs) [0..<length ?names]))"
    unfolding conf(1) rows unfolding len by (rule mul_code, rule mul_invertible)
  have reply: "mul_reply_for 12 (map mul_loc (tl [''c'', ''d''])) = put_word 12 @ put_word 12 @ put_word 14"
    by (simp add: mul_reply_for_def mul_loc_def)
  note result = hdfs_mul_repair[OF gf256.gf_complete_axioms env rs mul_store store rep lost mul_sample(2)[symmetric, folded conf(1,3)]
      mul_sample(1)[folded conf(3)] mul_ctx code conf(4) mul_sample(3-5) none[folded conf(2)],
      of keep_order "\<lparr>mh_lastHelper = [], mh_history = None\<rparr>"]
  have last: "fst (last repair_hs) = 12" "hd [''c'', ''d''] = ''c''" by simp_all
  show ?thesis using result unfolding conf(2) last reply by blast
qed

end
