(* ===== verification/Mul_Faults.thy ===== *)
theory Mul_Faults
  imports Hdfs_Mul_Repair
begin

text \<open>
  A fault of the worker of \<open>Mul_Worker\<close>: \<open>doProcess\<close> calls \<open>cleanup\<close> in the branch without \<open>PIPE_MUL_OPT\<close> only, so that
  \<open>_diskFlag\<close> still says that all packets are read when the next repair starts.
\<close>

section \<open>The flags behind a repair\<close>

definition flags_ok :: "repair_config \<Rightarrow> mul_worker \<Rightarrow> bool" where
  "flags_ok conf p \<longleftrightarrow> length (mw_flag p) = packetCnt conf \<and> (\<forall>i < packetCnt conf. mw_flag p ! i \<longleftrightarrow> i < mw_read p)"

lemma flags_step:
  assumes "mul_step G E conf (w, p) (w', p')" and "flags_ok conf p"
  shows "flags_ok conf p'"
  using assms(1)
proof (rule mul_stepE)
  assume "mw_read p < packetCnt conf" "mul_read G E conf w p = Inr p'"
  then obtain buf where "p' = p\<lparr>mw_pkts := (mw_pkts p)[mw_read p := buf], mw_flag := (mw_flag p)[mw_read p := True], mw_read := Suc (mw_read p)\<rparr>"
    by (auto simp: mul_read_def Let_def bindE_eq_Inr split: option.splits)
  then show ?thesis using assms(2) by (auto simp: flags_ok_def nth_list_update less_Suc_eq)
next
  assume "mul_pull conf w p = Inr (w', p')"
  then show ?thesis using assms(2) by (auto simp: mul_pull_def flags_ok_def Let_def bindE_eq_Inr)
next
  assume "mul_push conf w p = Inr (w', p')"
  then show ?thesis using assms(2) by (auto simp: mul_push_def flags_ok_def Let_def bindE_eq_Inr)
qed

lemma flags_reachable:
  assumes "(mul_cluster G E conf)\<^sup>*\<^sup>* st st'" and "\<forall>p \<in> set (snd st). flags_ok conf p"
  shows "\<forall>p \<in> set (snd st'). flags_ok conf p"
  using assms
proof (induction rule: rtranclp_induct)
  case (step st1 st2)
  from step.hyps(2) obtain h w ps w' p' where "st1 = (w, ps)" "st2 = (w', ps[h := p'])" "h < length ps"
    "mul_step G E conf (w, ps ! h) (w', p')" by (cases rule: mul_cluster.cases) auto
  then show ?case
    using step.IH[OF step.prems] flags_step[of G E conf w "ps ! h" w' p'] set_update_subset_insert[of ps h p'] by auto
qed

text \<open>A worker that is done leaves all flags set.\<close>

lemma finished_flags: "flags_ok conf p \<Longrightarrow> mul_finished conf p \<Longrightarrow> mw_flag p = replicate (packetCnt conf) True"
  by (intro nth_equalityI) (auto simp: flags_ok_def mul_finished_def Let_def)

section \<open>Packets nobody has read\<close>

text \<open>
  C40. After a repair of several blocks the flags of a helper are still set. In the next repair the first helper of a chain
  can therefore push a packet of zeros for its first job before it has read anything, and the sum the chain computes is wrong.
\<close>

theorem mul_stale_flags:
  assumes "\<forall>p \<in> set ps0. mw_read p = 0 \<and> mw_flag p = replicate (packetCnt conf) False"
    and "(mul_cluster G E conf)\<^sup>*\<^sup>* (w0, ps0) (w1, ps1)" and "p1 \<in> set ps1" and "mul_finished conf p1"
    and "mul_start conf (mw_flag p1) (mw_ip p1) jobs = Inr p" and "jobs \<noteq> []" and "pj_id (jobs ! 0) = 0" and "0 < packetCnt conf"
  shows "\<exists>p'. (mul_step G E conf)\<^sup>*\<^sup>* (w, p) (rpush (mw_ip p1) (send_key (jobs ! 0)) (replicate (packetSize conf) 0) w, p') \<and>
    mw_read p' = 0"
proof -
  have "\<forall>p \<in> set (snd (w0, ps0)). flags_ok conf p" using assms(1) by (simp add: flags_ok_def)
  from flags_reachable[OF assms(2) this] have flags: "mw_flag p1 = replicate (packetCnt conf) True"
    using finished_flags assms(3,4) by simp
  have n: "0 < length jobs" using assms(6) by simp
  define buf :: "byte list" where "buf = replicate (packetSize conf * length jobs + 4) 0"
  have p: "mw_ip p = mw_ip p1" "mw_jobs p = jobs" "mw_pkts p = replicate (packetCnt conf) buf" "mw_read p = 0"
    "mw_flag p = replicate (packetCnt conf) True" "mw_main p = 0" "mw_sent p = 0" "mw_toSend p = replicate (length jobs) 0"
    using assms(5) flags by (auto simp: mul_start_def buf_def bindE_eq_Inr)
  have log: "pktOutput 0 (packetCnt conf) = Inr True" by (simp add: pktOutput_def)
  define p2 where "p2 = p\<lparr>mw_main := 1, mw_toSend := (mw_toSend p)[0 := 1]\<rparr>"
  have "mul_pull conf w p = Inr (w, p2)" using p n assms(7) log by (simp add: mul_pull_def p2_def atE_def)
  then have pull: "mul_step G E conf (w, p) (w, p2)" using p n assms(8) by (intro mul_step.Pull) simp_all
  obtain m where "length jobs = Suc m" using n by (cases "length jobs") simp_all
  then have size: "packetSize conf \<le> packetSize conf * length jobs + 4" by simp
  have region: "memcpy_from buf 0 (int (packetSize conf)) = Inr (replicate (packetSize conf) 0)"
    using reg_from[of 0 "packetSize conf" buf] size by (simp add: reg_at_def buf_def)
  have p2: "mw_ip p2 = mw_ip p1" "mw_jobs p2 = jobs" "mw_pkts p2 = replicate (packetCnt conf) buf" "mw_read p2 = 0"
    "mw_sent p2 = 0" "mw_toSend p2 ! 0 = 1"
    using p n by (simp_all add: p2_def)
  have "mul_push conf w p2 = Inr (rpush (mw_ip p1) (send_key (jobs ! 0)) (replicate (packetSize conf) 0) w, p2\<lparr>mw_sent := 1\<rparr>)"
    using p2 n assms(8) log region by (simp add: mul_push_def atE_def)
  then have "mul_step G E conf (w, p2) (rpush (mw_ip p1) (send_key (jobs ! 0)) (replicate (packetSize conf) 0) w, p2\<lparr>mw_sent := 1\<rparr>)"
    using p2 n assms(8) by (intro mul_step.Push) simp_all
  then have "(mul_step G E conf)\<^sup>*\<^sup>* (w, p) (rpush (mw_ip p1) (send_key (jobs ! 0)) (replicate (packetSize conf) 0) w, p2\<lparr>mw_sent := 1\<rparr>)"
    using pull by (meson converse_rtranclp_into_rtranclp rtranclp.rtrancl_refl)
  then show ?thesis using p2(4) by auto
qed

section \<open>An example\<close>

text \<open>The chain of \<open>Hdfs_Mul_Repair\<close>; its first helper gets the jobs of the finished repair again.\<close>

definition stale_coefs :: "(string, int) omap list" where
  "stale_coefs = [[(''a'', 245), (''b'', 244)], [(''a'', 244), (''b'', 244)]]"

abbreviation stale_workers :: "mul_worker list" where
  "stale_workers \<equiv> map (mul_worker0 mul_conf 13 repair_hs [''c'', ''d''] stale_coefs) [0..<2]"

abbreviation stale_jobs :: "pipe_job list" where
  "stale_jobs \<equiv> map (mul_job 13 repair_hs [''c'', ''d''] stale_coefs 0) [0..<2]"

theorem mul_stale_flags_witness:
  "\<exists>w1 ps1 p p'. (mul_cluster gf256 repair_env mul_conf)\<^sup>*\<^sup>* (mul_sample_world, stale_workers) (w1, ps1) \<and>
    list_all (mul_finished mul_conf) ps1 \<and> mul_start mul_conf (mw_flag (ps1 ! 0)) 11 stale_jobs = Inr p \<and>
    (mul_step gf256 repair_env mul_conf)\<^sup>*\<^sup>* (w1, p) (rpush 11 ''tmp:c'' (replicate 8 0) w1, p') \<and> mw_read p' = 0"
proof -
  let ?C = "mul_case_of mul_conf repair_hs mul_content [''c'', ''d''] stale_coefs"
  have conf: "packetSize mul_conf = 8" "0 < packetCnt mul_conf" "helpersIPs mul_conf = [11, 12, 13, 14]"
    by (simp_all add: mul_conf_def repair_conf_def sample_repair_conf_def)
  have "\<forall>j < length [''c'', ''d'']. byte_coefs (stale_coefs ! j) repair_hs"
    by (simp add: stale_coefs_def byte_coefs_def om_get0_def om_get_def less_Suc_eq)
  from mul_chain_starts[OF mul_sample(1) _ mul_sample(5) this, of gf256]
  have start: "mul_chain_inv gf256 ?C (mul_sample_world, stale_workers)" by (simp add: numeral_2_eq_2)
  have C: "mul_conf_ok ?C" by (rule mul_case_ok[OF mul_sample(1) refl mul_sample(5)])
  have parts: "mc_conf ?C = mul_conf" "mc_ips ?C = [11, 12]" by (simp_all add: mul_case_of_def)
  have env: "io_ok repair_env" by (simp add: io_ok_def repair_env_def)
  obtain w1 ps1 where run: "(mul_cluster gf256 repair_env mul_conf)\<^sup>*\<^sup>* (mul_sample_world, stale_workers) (w1, ps1)"
    "list_all (mul_finished mul_conf) ps1" "mul_chain_inv gf256 ?C (w1, ps1)"
    using mul_chain_can_finish[OF gf256.gf_complete_axioms env C start] unfolding parts(1) by blast
  have "length ps1 = 2" "mw_ip (ps1 ! 0) = 11" using run(3) by (auto simp: mul_chain_inv_def mul_ok_def parts(2))
  then have p1: "ps1 ! 0 \<in> set ps1" "mul_finished mul_conf (ps1 ! 0)" "mw_ip (ps1 ! 0) = 11"
    using run(2) by (simp_all add: list_all_length)
  have fresh: "\<forall>p \<in> set stale_workers. mw_read p = 0 \<and> mw_flag p = replicate (packetCnt mul_conf) False"
    by (simp add: mul_worker0_def Let_def)
  have "findCtx [11, 12, 13, 14] 12 = Inr (Some 12)" by (rule findCtx_eq) simp_all
  moreover have "sort (helpersIPs mul_conf) = [11, 12, 13, 14]" unfolding conf(3) by simp
  moreover have "pj_prevIP (mul_job 13 repair_hs [''c'', ''d''] stale_coefs 0 j) = 12" for j
    by (simp add: mul_job_def prev_of_def Let_def)
  ultimately have "mapE (\<lambda>j. findCtx (sort (helpersIPs mul_conf)) (pj_prevIP j)) stale_jobs = Inr (map (\<lambda>_. Some 12) stale_jobs)"
    by (intro mapE_Inr_map) auto
  then obtain p where p: "mul_start mul_conf (mw_flag (ps1 ! 0)) 11 stale_jobs = Inr p"
    by (simp add: mul_start_def MAX_ECK_def)
  have job: "stale_jobs \<noteq> []" "pj_id (stale_jobs ! 0) = 0" "send_key (stale_jobs ! 0) = ''tmp:c''"
    by (simp_all add: mul_job_def send_key_def tmp_key_def Let_def)
  have again: "mul_start mul_conf (mw_flag (ps1 ! 0)) (mw_ip (ps1 ! 0)) stale_jobs = Inr p" unfolding p1(3) by (rule p)
  obtain p' where "(mul_step gf256 repair_env mul_conf)\<^sup>*\<^sup>* (w1, p) (rpush 11 ''tmp:c'' (replicate 8 0) w1, p')" "mw_read p' = 0"
    using mul_stale_flags[OF fresh run(1) p1(1,2) again job(1,2) conf(2), of w1] unfolding p1(3) job(3) conf(1) by (elim exE conjE)
  then show ?thesis using run(1,2) p by (intro exI conjI)
qed

end
