(* ===== verification/Spec2Isabelle.thy ===== *)
theory Spec2Isabelle
  imports Up_System RS_Util Hdfs_Repair Pipe_Order Pipe_Faults Ppr_Repair Client_Faults Conv_Repair Mul_Faults
begin

text \<open>
  Verification of CoRD: update and repair of erasure-coded stripes.

  CoRD (\<open>src/CoRD/src\<close>) keeps files as stripes of a Reed-Solomon code, \<open>k\<close> data blocks and \<open>n - k\<close> parity blocks on
  different nodes. It has two halves that share the code kernel, the configuration and the redis servers over which
  all processes talk.

  The update half replays block traces. The update coordinator (\<open>UPCoordinator.cc\<close>) turns the lines of a trace into an update
  log, and when the log is full sends every stripe to the update nodes (\<open>UPNode.cc\<close>) as commands of one of three policies:
  \<open>raid\<close>, \<open>delta\<close> or the combined scheme \<open>crd\<close>, which merges the parity deltas of touching ranges at one parity node, the
  collector. The nodes read, compute and write blocks and acknowledge.

  The repair half rebuilds lost blocks. A client (\<open>ECPipeInputStream.cc\<close>) sends a request to a repair coordinator
  (\<open>Coordinator.cc\<close> and its subclasses \<open>PipeCoordinator.cc\<close>, \<open>PPRCoordinator.cc\<close>, \<open>ConvCoordinator.cc\<close>, \<open>PipeMulCoordinator.cc\<close>), which asks the metadata base
  (\<open>HDFS_MetadataBase.cc\<close>, filled from the stripe store and the reports of \<open>BlockReporter.cc\<close>) for helpers and
  coefficients (\<open>RSUtil.cc\<close>), may choose a path (\<open>PathSelection.cc\<close>), and queues one command per node. Distributor threads
  forward them; the workers (\<open>PipeDRWorker.cc\<close>, \<open>PPRPullDRWorker.cc\<close>, \<open>ConvDRWorker.cc\<close>, \<open>PipeMulDRWorker.cc\<close>) read, multiply, add and pass on packets, along a
  chain, up a tree or straight to the requestor, and the client writes what arrives to a file.

  \<^bold>\<open>How the program is modelled.\<close> Bytes are \<open>8 word\<close>, addresses \<open>32 word\<close>; an \<open>int\<close> of the code is an \<open>int\<close> whose range is checked
  where it is written to a message or where it can overflow, and a word where it wraps around (\<open>searchCtx\<close>). What can go
  wrong is a value of \<open>error\<close> (\<open>Prelude\<close>): out of bounds, division by zero, exit, waiting for ever on an empty
  list, running for ever; a function that can fail returns \<open>'a res\<close>, which is \<open>error + 'a\<close>, and \<open>bindE\<close> threads it. The world
  (\<open>Cord_Base\<close>) holds the lists of all redis servers and the files of all nodes. A process that is one thread is a
  function on the world; processes and threads that run side by side are step relations, and the theorems about them hold for all
  interleavings. A wait on a condition variable is modelled where a wake-up can be lost (\<open>Pipe_Worker\<close>,
  \<open>Client_Stream\<close>) by program counters with a spurious wake-up as one of the steps, and otherwise as the condition of the loop around
  it (\<open>Ppr_Worker\<close>, \<open>Conv_Worker\<close>, \<open>Mul_Worker\<close>). A C++ \<open>map\<close> is an association list in the order of its keys (\<open>omap\<close>).

  \<^bold>\<open>Shared theories.\<close>
  \<^item> \<open>Prelude\<close>: errors, byte regions, message fields, ordered maps with their interface (locale \<open>ordered_map\<close>).
  \<^item> \<open>Cord_Base\<close>: configuration, redis lists with their interface (locale \<open>redis_list\<close>), receive loops.
  \<^item> \<open>Galois\<close>, \<open>Gf256\<close>, \<open>Jerasure\<close>, \<open>Jerasure_Invert\<close>, \<open>RS_Util\<close>: \<open>Util/galois.c\<close>, the routines of \<open>Util/jerasure.c\<close> the program calls, and
    \<open>RSUtil.cc\<close>. The library gf-complete below them is the record \<open>gf_ops\<close> with the laws of a field (locale \<open>gf_complete\<close>);
    \<open>Gf256\<close> interprets it with the polynomial 0x11d. Shown: encoding and the matrix product, Gauss-Jordan
    inversion, and that the coefficients of \<open>getCoefficient_multi\<close> and of the constructor rebuild lost blocks.

  \<^bold>\<open>Update.\<close>
  \<^item> \<open>Crd_Plan\<close>: \<open>is_intersected\<close>, \<open>get_upd_solu_crd\<close>, \<open>get_sub_set_id\<close>; the plan is the partition into connected groups.
  \<^item> \<open>Up_Commands\<close>: \<open>RaidUpdate\<close>, \<open>DeltaUpdate\<close>, \<open>CrdUpdate\<close>, \<open>recvAck\<close>, byte for byte.
  \<^item> \<open>Node_Disk\<close>, \<open>Up_Node\<close>: the disk routines and \<open>doProcess\<close> with the handlers of tasks 1 to 8. \<open>Node_Parse\<close>, \<open>Crd_Node\<close>,
    \<open>Crd_Parity\<close>: what a handler does with the commands of \<open>CrdUpdate\<close>.
  \<^item> \<open>Crd_Cluster\<close>, \<open>Crd_Update\<close>: all nodes together. No node fails, every run ends after one step per command, the data blocks get the new
    bytes, the collector's parity matches, and the other parities match exactly when the announced ranges are the merged ones; the theory
    also shows which bytes stay stale when they are not.
  \<^item> \<open>Trace_Log\<close>, \<open>Up_Coordinator\<close>, \<open>Node_Run\<close>, \<open>Up_System\<close>: from a trace line to the log, the loops of the coordinator, and the end-to-end
    statements: flushing a log applies all updates, a whole trace never fails, and the nodes can only run for ever if a handler itself does not return.

  \<^bold>\<open>Repair.\<close>
  \<^item> \<open>Repair_Base\<close>, \<open>Repair_Wire\<close>, \<open>Repair_Request\<close>: the context list, the binary searches, the distributors, the message
    formats, \<open>parseFRRequest\<close>. \<open>Repair_Delivery\<close>, \<open>Repair_Dispatch\<close>: all distributors together deliver every command, and what
    the coordinators share.
  \<^item> \<open>Path_Selection\<close>, \<open>Pipe_Order\<close>: the search for a path of the least bottleneck.
  \<^item> \<open>Hdfs_Metadata\<close>, \<open>Hdfs_Init\<close>, \<open>Hdfs_Store\<close>: the queries and the constructor of the metadata base; on a consistent store its maps are those of the
    stripes.
  \<^item> \<open>Pipe_Worker\<close>, \<open>Pipe_Chain\<close>, \<open>Pipe_Coordinator\<close>, \<open>Pipe_Repair\<close>, \<open>Hdfs_Repair\<close>, \<open>Pipe_Faults\<close>: the pipelined scheme. The invariant of the chain says
    that helper \<open>h\<close> only ever pushes the sums of the first \<open>h + 1\<close> blocks.
  \<^item> \<open>Ppr_Tree\<close>, \<open>Ppr_Worker\<close>, \<open>Ppr_Sum\<close>, \<open>Ppr_Coordinator\<close>, \<open>Ppr_Repair\<close>: partial parallel repair. The tree is a binary indexed tree; a node only ever pushes
    the sums of the helpers it covers.
  \<^item> \<open>Hdfs_Mul\<close>: \<open>getStripeBlksMul\<close> and \<open>getScheduledBlks\<close>, the choice of helpers by the status of the blocks; for one lost block the helpers are the
    first \<open>k\<close> others by name.
  \<^item> \<open>Conv_Worker\<close>, \<open>Conv_Sum\<close>, \<open>Conv_Coordinator\<close>, \<open>Conv_Repair\<close>: conventional repair. The helpers push the packets of their blocks, the requestor
    alone multiplies and adds; the invariant says of every buffer of the requestor which packet or sum it holds.
  \<^item> \<open>Mul_Worker\<close>, \<open>Mul_Chain\<close>, \<open>Mul_Coordinator\<close>, \<open>Mul_Repair\<close>, \<open>Hdfs_Mul_Repair\<close>, \<open>Mul_Faults\<close>: the pipelined repair of several blocks at once. A helper
    has one job for every lost block, reads a packet once and pushes the sums of its chains job by job; the invariant counts the rounds of the inner loops and says of
    every region of every buffer whether it holds the helper's own product or the sum. \<open>Mul_Faults\<close> shows what the flags do that are never cleared.
  \<^item> \<open>Client_Stream\<close>, \<open>Client_Serve\<close>, \<open>Pipe_Serve\<close>, \<open>Ppr_Serve\<close>, \<open>Conv_Serve\<close>, \<open>Client_Faults\<close>: the client. The nodes it fetches from are an interface (locale \<open>packet_source\<close>):
    they only push to the lists of the lost block. What the client has taken, put back, gives a state the nodes reach without it, so that their promise carries over to
    the client's file. The three schemes for one block interpret the locale, and their end-to-end theorems include the client; the theorem about several blocks ends with the lists the
    client fetches from.

  \<^bold>\<open>Bounds and termination.\<close> Functions are total by structural recursion or a measure; \<open>searchCtx\<close>, whose loop can leave the vector and run on, is a
  \<open>partial_function\<close> with \<open>None\<close> for not returning. There is no fuel: runs of processes are reflexive transitive closures, and what ends is shown to end. The message
  buffers have \<open>COMMAND_MAX_LENGTH\<close> bytes and a longer message is an error of the model, so that the end-to-end theorems assume names and
  numbers of helpers that fit. The workers keep the offset in the file in an \<open>int\<close>, which the models wrap around; the end-to-end theorems assume packets that end
  below \<open>2\<^sup>31\<close>.

  \<^bold>\<open>Parameters and assumptions.\<close> gf-complete (\<open>gf_ops\<close>); how many bytes one \<open>pread\<close> or \<open>pwrite\<close> moves and what \<open>malloc\<close> leaves in a buffer (\<open>env\<close>); random
  numbers, the clock and the trace files (\<open>Up_Coordinator\<close>); the nodes as a function of the world where the coordinator waits for them; the link weights; the shuffles and the sort
  of the metadata base (\<open>hdfs_env\<close>, any permutation); the files of the stripe store in the order of \<open>readdir\<close>. Redis is a set of lists with atomic commands and without time-outs or errors. The
  repair theorems assume sorted helper addresses, which the code needs and does not establish (\<open>searchCtx_unsorted\<close>).

  \<^bold>\<open>Not modelled.\<close> Connection set-up and the main programs (I/O only); reading the XML configuration; \<open>tinyxml2\<close>, the bitmatrix, Cauchy and
  schedule routines of jerasure (vendored, not called); the patched file systems under \<open>qfs-integrate\<close> and the Hadoop integrations (third-party);
  \<open>HDFS3_MetadataBase.cc\<close> and \<open>QFS_MetadataBase.cc\<close>; the cyclic scheme (\<open>CyclDRWorker.cc\<close>, \<open>CyclMulFRWorker.cc\<close>; \<open>CyclCoordinator.cc\<close> is a constructor that prints a table and exits). The
  conventional scheme is modelled for any number of lost blocks, and its end-to-end theorem is about one.
\<close>

end
